(* ===== verification/Prelude.thy ===== *)
theory Prelude
  imports Main "HOL-Library.Word" "HOL-Library.AList" "HOL-Library.Multiset"
begin

text \<open>
  Shared material of the development: Go's 64-bit integers written out over \<open>int\<close>, Go's truncated
  division, reads of a Go map with a zero value, the keyed map interface that the sharded
  in-memory stores provide, and the generic list and map lemmas the component theories use.
  Clock readings (\<open>time.Now().UnixNano()\<close>) are arguments of the operations that take them.
\<close>

named_theorems go_simps \<open>unfolding rules for the Go primitives\<close>
named_theorems cell_simps \<open>what a store operation does to the cells a client can read\<close>

section \<open>Names of the model's basic types\<close>

type_synonym key = string
type_synonym time = int
type_synonym duration = int
type_synonym bytes = string
type_synonym err = string

text \<open>What an error callback was called with: operation, key and error.\<close>

type_synonym report = "string \<times> key \<times> err"

text \<open>Durations are nanoseconds.\<close>

definition second :: duration where
  "second = 1000000000"


section \<open>64-bit signed integers\<close>

text \<open>\<open>wrap64\<close> is the result of an \<open>int64\<close> operation whose exact value is its argument.\<close>

definition in_i64 :: "int \<Rightarrow> bool" where
  "in_i64 x \<longleftrightarrow> - (2 ^ 63) \<le> x \<and> x < 2 ^ 63"

definition wrap64 :: "int \<Rightarrow> int" where
  "wrap64 x = (x + 2 ^ 63) mod 2 ^ 64 - 2 ^ 63"

lemma in_i64_wrap64 [simp]: "in_i64 (wrap64 x)"
proof -
  have "0 \<le> (x + 2 ^ 63) mod (2 ^ 64 :: int)" and "(x + 2 ^ 63) mod (2 ^ 64 :: int) < 2 ^ 64"
    by (rule pos_mod_sign, simp) (rule pos_mod_bound, simp)
  then show ?thesis by (simp add: in_i64_def wrap64_def)
qed

lemma wrap64_id [simp]: "in_i64 x \<Longrightarrow> wrap64 x = x"
  by (simp add: in_i64_def wrap64_def)

lemma in_i64_zero [simp]: "in_i64 0"
  by (simp add: in_i64_def)

lemma wrap64_add_left [simp]: "wrap64 (wrap64 x + y) = wrap64 (x + y)"
proof -
  have "(wrap64 x + y + 2 ^ 63) mod 2 ^ 64 = ((x + 2 ^ 63) mod 2 ^ 64 + y) mod 2 ^ 64"
    by (simp add: wrap64_def)
  also have "\<dots> = (x + 2 ^ 63 + y) mod 2 ^ 64"
    by (rule mod_add_left_eq)
  also have "x + 2 ^ 63 + y = x + y + 2 ^ 63"
    by simp
  finally show ?thesis by (simp only: wrap64_def)
qed

lemma wrap64_period: "wrap64 (x + 2 ^ 64) = wrap64 x"
proof -
  have "x + 2 ^ 64 + 2 ^ 63 = x + 2 ^ 63 + (2 ^ 64 :: int)" by simp
  then have "(x + 2 ^ 64 + 2 ^ 63) mod 2 ^ 64 = (x + 2 ^ 63) mod (2 ^ 64 :: int)"
    by (simp only: mod_add_self2)
  then show ?thesis by (simp only: wrap64_def)
qed

text \<open>Overflow of one addition moves the sum by exactly \<open>2 ^ 64\<close> against the sign of the addend.\<close>

lemma wrap64_add_cases:
  assumes "in_i64 a" and "in_i64 b"
  shows "wrap64 (a + b) =
    (if a + b < - (2 ^ 63) then a + b + 2 ^ 64 else if 2 ^ 63 \<le> a + b then a + b - 2 ^ 64 else a + b)"
proof -
  consider "a + b < - (2 ^ 63)" | "2 ^ 63 \<le> a + b" | "in_i64 (a + b)"
    by (force simp: in_i64_def)
  then show ?thesis
  proof cases
    case 1
    then have "wrap64 (a + b + 2 ^ 64) = a + b + 2 ^ 64"
      using assms by (intro wrap64_id) (simp add: in_i64_def)
    with 1 show ?thesis by (simp only: wrap64_period if_True)
  next
    case 2
    then have "wrap64 (a + b - 2 ^ 64) = a + b - 2 ^ 64"
      using assms by (intro wrap64_id) (simp add: in_i64_def)
    with 2 wrap64_period [of "a + b - 2 ^ 64"] show ?thesis by simp
  next
    case 3
    then show ?thesis by (simp add: in_i64_def)
  qed
qed

lemma wrap64_add_right [simp]: "wrap64 (x + wrap64 y) = wrap64 (x + y)"
  using wrap64_add_left [of y x] by (simp add: add.commute)

lemma wrap64_sum: "finite A \<Longrightarrow> wrap64 (\<Sum>i\<in>A. wrap64 (f i)) = wrap64 (sum f A)"
proof (induction rule: finite_induct)
  case (insert x A)
  have "wrap64 (\<Sum>i\<in>insert x A. wrap64 (f i)) = wrap64 (f x + wrap64 (\<Sum>i\<in>A. wrap64 (f i)))"
    using insert.hyps by simp
  also have "\<dots> = wrap64 (f x + sum f A)"
    by (simp only: insert.IH wrap64_add_right)
  finally show ?case using insert.hyps by simp
qed simp

text \<open>A loop that adds up the elements that pass a test, wrapping at every step.\<close>

lemma foldl_wrap64_sum:
  "foldl (\<lambda>acc x. if P x then wrap64 (acc + f x) else acc) (wrap64 z) xs =
     wrap64 (z + (\<Sum>x\<leftarrow>xs. if P x then f x else 0))"
proof (induction xs arbitrary: z)
  case (Cons x xs)
  show ?case using Cons.IH [of "z + f x"] Cons.IH [of z] by (simp add: add.assoc)
qed simp

section \<open>Exchanging a finite sum and the sum of a list\<close>

lemma sum_sum_list_swap:
  fixes f :: "'i \<Rightarrow> 'x \<Rightarrow> int"
  shows "(\<Sum>i\<in>A. \<Sum>x\<leftarrow>xs. f i x) = (\<Sum>x\<leftarrow>xs. \<Sum>i\<in>A. f i x)"
  by (induction xs) (simp_all add: sum.distrib)

lemma sum_list_zip_nth:
  "length xs = length ys \<Longrightarrow> (\<Sum>p\<leftarrow>zip xs ys. f p) = (\<Sum>i<length xs. f (xs ! i, ys ! i))"
  by (simp add: sum_list_sum_nth atLeast0LessThan)

lemma map_update_same: "f x = f (xs ! i) \<Longrightarrow> map f (xs[i := x]) = map f xs"
  by (cases "i < length xs") (simp_all add: list_eq_iff_nth_eq nth_list_update)

section \<open>Go's truncated division and remainder\<close>

definition go_div :: "int \<Rightarrow> int \<Rightarrow> int" where
  "go_div a b = sgn a * sgn b * (\<bar>a\<bar> div \<bar>b\<bar>)"

definition go_mod :: "int \<Rightarrow> int \<Rightarrow> int" where
  "go_mod a b = a - go_div a b * b"

lemma go_div_nonneg [go_simps]: "0 \<le> a \<Longrightarrow> 0 < b \<Longrightarrow> go_div a b = a div b"
  by (cases "a = 0") (simp_all add: go_div_def)

lemma go_mod_nonneg [go_simps]: "0 \<le> a \<Longrightarrow> 0 < b \<Longrightarrow> go_mod a b = a mod b"
  by (simp add: go_mod_def go_div_nonneg minus_div_mult_eq_mod)

section \<open>Printing integers in decimal (\<open>strconv.FormatInt\<close>, base 10)\<close>

definition digit_char :: "nat \<Rightarrow> char" where
  "digit_char d = char_of (48 + d)"

fun show_nat :: "nat \<Rightarrow> string" where
  "show_nat n = (if n < 10 then [digit_char n] else show_nat (n div 10) @ [digit_char (n mod 10)])"

declare show_nat.simps [simp del]

definition FormatInt :: "int \<Rightarrow> string" where
  "FormatInt i = (if i < 0 then CHR ''-'' # show_nat (nat (- i)) else show_nat (nat i))"

lemma digit_char_inj: "a < 10 \<Longrightarrow> b < 10 \<Longrightarrow> digit_char a = digit_char b \<longleftrightarrow> a = b"
  by (simp add: digit_char_def of_char_of flip: of_char_eq_iff [where 'a = nat])

lemma digit_char_not: "d < 10 \<Longrightarrow> digit_char d \<noteq> CHR '':'' \<and> digit_char d \<noteq> CHR ''-''"
  by (simp add: digit_char_def of_char_of flip: of_char_eq_iff [where 'a = nat])

lemma show_nat_nonempty [simp]: "show_nat n \<noteq> []" "[] \<noteq> show_nat n"
  by (simp_all add: show_nat.simps [of n])

lemma show_nat_no_sep: "c = CHR '':'' \<or> c = CHR ''-'' \<Longrightarrow> c \<notin> set (show_nat n)"
proof (induction n rule: show_nat.induct)
  case (1 n)
  then show ?case
    using digit_char_not [of n] digit_char_not [of "n mod 10"]
    by (auto simp: show_nat.simps [of n])
qed

lemma show_nat_single: "show_nat n = [c] \<longleftrightarrow> n < 10 \<and> c = digit_char n"
  by (auto simp: show_nat.simps [of n])

lemma show_nat_inj: "show_nat a = show_nat b \<Longrightarrow> a = b"
proof (induction a arbitrary: b rule: show_nat.induct)
  case (1 a)
  show ?case
  proof (cases "a < 10 \<or> b < 10")
    case True
    then show ?thesis
      using 1(2) digit_char_inj [of a b]
      by (auto simp: show_nat.simps [of a] show_nat.simps [of b] split: if_splits)
  next
    case False
    then have "show_nat (a div 10) = show_nat (b div 10)" and "digit_char (a mod 10) = digit_char (b mod 10)"
      using 1(2) by (simp_all add: show_nat.simps [of a] show_nat.simps [of b])
    then have "a div 10 = b div 10" and "a mod 10 = b mod 10"
      using 1(1) False digit_char_inj by auto
    then show ?thesis by (metis div_mult_mod_eq)
  qed
qed

lemma FormatInt_inj: "FormatInt a = FormatInt b \<Longrightarrow> a = b"
  using show_nat_inj [of "nat a" "nat b"] show_nat_inj [of "nat (- a)" "nat (- b)"]
    show_nat_no_sep [of "CHR ''-''" "nat a"] show_nat_no_sep [of "CHR ''-''" "nat b"]
  by (auto simp: FormatInt_def split: if_splits) (metis list.set_intros(1))+

lemma FormatInt_no_colon: "CHR '':'' \<notin> set (FormatInt a)"
  using show_nat_no_sep by (auto simp: FormatInt_def)

lemma sep_prefix_inj:
  "as @ c # bs = as' @ c # bs' \<Longrightarrow> c \<notin> set as \<Longrightarrow> c \<notin> set as' \<Longrightarrow> as = as' \<and> bs = bs'"
proof (induction as arbitrary: as')
  case Nil
  then show ?case by (cases as') auto
next
  case (Cons a as)
  then show ?case by (cases as') auto
qed

lemma sep_append_inj:
  assumes "xs @ c # ys = xs' @ c # ys'" "c \<notin> set ys" "c \<notin> set ys'"
  shows "xs = xs' \<and> ys = ys'"
proof -
  have "rev ys @ c # rev xs = rev ys' @ c # rev xs'"
    using arg_cong [OF assms(1), of rev] by simp
  with assms(2,3) have "rev ys = rev ys' \<and> rev xs = rev xs'"
    by (intro sep_prefix_inj [of _ c]) simp_all
  then show ?thesis by simp
qed

section \<open>Reading a Go map: the zero value for a missing key\<close>

definition map_get :: "'v \<Rightarrow> ('k \<rightharpoonup> 'v) \<Rightarrow> 'k \<Rightarrow> 'v" where
  "map_get z m k = (case m k of None \<Rightarrow> z | Some v \<Rightarrow> v)"

lemma map_get_upd [simp]: "map_get z (m(k \<mapsto> v)) k' = (if k' = k then v else map_get z m k')"
  by (simp add: map_get_def)

lemma map_get_del [simp]: "map_get z (m(k := None)) k' = (if k' = k then z else map_get z m k')"
  by (simp add: map_get_def)

lemma map_get_empty [simp]: "map_get z Map.empty k = z"
  by (simp add: map_get_def)

lemma map_get_Some [simp]: "m k = Some v \<Longrightarrow> map_get z m k = v"
  by (simp add: map_get_def)

lemma map_get_None [simp]: "m k = None \<Longrightarrow> map_get z m k = z"
  by (simp add: map_get_def)

lemma map_get_add: "map_get z (m ++ m') k = (case m' k of None \<Rightarrow> map_get z m k | Some v \<Rightarrow> v)"
  by (simp add: map_get_def map_add_def split: option.split)

section \<open>Keyed maps split over lock shards\<close>

text \<open>
  \<open>counter\<close> and \<open>cooldown\<close> keep sixteen maps, one per lock, and choose the map of a key by
  \<open>maphash.String(seed, key) & (shardCount - 1)\<close>. The hash is an argument of the model. A client
  reads and writes the shards as one map; the locale states what it relies on.
\<close>

locale keyed_map =
  fixes mget :: "'m \<Rightarrow> key \<Rightarrow> 'v option"
    and mput :: "'m \<Rightarrow> key \<Rightarrow> 'v \<Rightarrow> 'm"
    and mdel :: "'m \<Rightarrow> key \<Rightarrow> 'm"
    and mwf :: "'m \<Rightarrow> bool"
  assumes mget_put: "mwf m \<Longrightarrow> mget (mput m k v) k' = (if k' = k then Some v else mget m k')"
    and mget_del: "mwf m \<Longrightarrow> mget (mdel m k) k' = (if k' = k then None else mget m k')"
    and mwf_put: "mwf m \<Longrightarrow> mwf (mput m k v)"
    and mwf_del: "mwf m \<Longrightarrow> mwf (mdel m k)"
begin

lemma mget_put_put:
  "mwf m \<Longrightarrow> mget (mput (mput m k v) k' v') k'' = (if k'' = k' then Some v' else if k'' = k then Some v else mget m k'')"
  by (simp add: mget_put mwf_put)

lemma mget_del_put: "mwf m \<Longrightarrow> mget (mput (mdel m k) k v) k' = mget (mput m k v) k'"
  by (simp add: mget_put mget_del mwf_del)

end

definition shardCount :: nat where
  "shardCount = 16"

type_synonym 'v shards = "(key \<rightharpoonup> 'v) list"

definition shardFor :: "(key \<Rightarrow> 64 word) \<Rightarrow> key \<Rightarrow> nat" where
  "shardFor h k = unat (and (h k) (of_nat (shardCount - 1)))"

definition shard_get :: "(key \<Rightarrow> 64 word) \<Rightarrow> 'v shards \<Rightarrow> key \<Rightarrow> 'v option" where
  "shard_get h ss k = (ss ! shardFor h k) k"

definition shard_put :: "(key \<Rightarrow> 64 word) \<Rightarrow> 'v shards \<Rightarrow> key \<Rightarrow> 'v \<Rightarrow> 'v shards" where
  "shard_put h ss k v = ss[shardFor h k := (ss ! shardFor h k)(k \<mapsto> v)]"

definition shard_del :: "(key \<Rightarrow> 64 word) \<Rightarrow> 'v shards \<Rightarrow> key \<Rightarrow> 'v shards" where
  "shard_del h ss k = ss[shardFor h k := (ss ! shardFor h k)(k := None)]"

definition shards_wf :: "'v shards \<Rightarrow> bool" where
  "shards_wf ss \<longleftrightarrow> length ss = shardCount"

definition shards_init :: "'v shards" where
  "shards_init = replicate shardCount Map.empty"

lemma shardFor_bound [simp]: "shardFor h k < shardCount"
proof -
  have "unat (and (h k) 15) \<le> unat (15 :: 64 word)"
    by (rule word_le_nat_alt [THEN iffD1, OF word_and_le1])
  then show ?thesis by (simp add: shardFor_def shardCount_def)
qed

lemma shards_wf_init [simp]: "shards_wf shards_init"
  by (simp add: shards_wf_def shards_init_def)

lemma shard_get_init [simp]: "shard_get h shards_init k = None"
  by (simp add: shard_get_def shards_init_def)

interpretation sharded: keyed_map "shard_get h" "shard_put h" "shard_del h" shards_wf
  by unfold_locales
    (auto simp: shards_wf_def shard_get_def shard_put_def shard_del_def nth_list_update)

section \<open>\<open>sort.Search\<close> and \<open>sort.Slice\<close>\<close>

text \<open>\<open>sort.Search\<close> between \<open>i\<close> and \<open>j\<close>.\<close>

function go_search :: "(nat \<Rightarrow> bool) \<Rightarrow> nat \<Rightarrow> nat \<Rightarrow> nat" where
  "go_search f i j = (if i < j then let h = (i + j) div 2 in if \<not> f h then go_search f (h + 1) j else go_search f i h else i)"
  by pat_completeness auto
termination by (relation "measure (\<lambda>(f, i, j). j - i)") auto

declare go_search.simps [simp del]

lemma go_search_first:
  assumes "\<forall>a b. a \<le> b \<and> b < n \<and> f a \<longrightarrow> f b" "j \<le> n" "\<forall>k<i. \<not> f k" "\<forall>k. j \<le> k \<and> k < n \<longrightarrow> f k" "i \<le> j"
  shows "go_search f i j \<le> n \<and> (\<forall>k<go_search f i j. \<not> f k) \<and> (\<forall>k. go_search f i j \<le> k \<and> k < n \<longrightarrow> f k)"
  using assms
proof (induction f i j rule: go_search.induct)
  case (1 f i j)
  let ?h = "(i + j) div 2"
  show ?case
  proof (cases "i < j")
    case False
    then have e: "go_search f i j = i" by (subst go_search.simps) simp
    have ij: "i = j" using False "1.prems"(5) by simp
    show ?thesis unfolding e using "1.prems"(2-4) ij by blast
  next
    case True
    then have h: "i \<le> ?h" "?h < j" by auto
    show ?thesis
    proof (cases "f ?h")
      case fh: True
      have e: "go_search f i j = go_search f i ?h" using True fh by (subst go_search.simps) (simp add: Let_def)
      have "\<forall>k. ?h \<le> k \<and> k < n \<longrightarrow> f k" using "1.prems"(1) fh by blast
      moreover have "?h \<le> n" using h "1.prems"(2) by linarith
      ultimately show ?thesis unfolding e using "1.IH"(2) [OF True refl _ "1.prems"(1) _ "1.prems"(3) _ h(1)] fh by blast
    next
      case fh: False
      have e: "go_search f i j = go_search f (?h + 1) j" using True fh by (subst go_search.simps) (simp add: Let_def)
      have hn: "?h < n" using h "1.prems"(2) by linarith
      have "\<not> f k" if "k < ?h + 1" for k
      proof -
        have "k \<le> ?h" using that by linarith
        then show ?thesis using "1.prems"(1) fh hn by blast
      qed
      then have "\<forall>k<?h + 1. \<not> f k" by blast
      moreover have "?h + 1 \<le> j" using h by linarith
      ultimately show ?thesis unfolding e using "1.IH"(1) [OF True refl fh "1.prems"(1,2) _ "1.prems"(4)] by blast
    qed
  qed
qed

text \<open>What a client may rely on of \<open>sort.Slice\<close>: a permutation in which no element is less than an earlier one. The order
  of equal elements is open.\<close>

definition sorts_by :: "('a \<Rightarrow> 'k::linorder) \<Rightarrow> ('a list \<Rightarrow> 'a list) \<Rightarrow> bool" where
  "sorts_by f srt \<longleftrightarrow> (\<forall>xs. mset (srt xs) = mset xs \<and> sorted (map f (srt xs)))"

lemma sorts_by_sort_key: "sorts_by f (sort_key f)"
  by (simp add: sorts_by_def)

lemma sorts_by_set: "sorts_by f srt \<Longrightarrow> set (srt xs) = set xs"
  unfolding sorts_by_def using mset_eq_setD by blast

lemma sorts_by_length: "sorts_by f srt \<Longrightarrow> length (srt xs) = length xs"
  unfolding sorts_by_def using mset_eq_length by blast

end
