(* ===== verification/KVStore.thy ===== *)
theory KVStore
  imports Prelude
begin

text \<open>
  \<open>pkg/store/kvstore\<close>: the key-value store with time to live. \<open>kv_ops\<close> is the interface \<open>Store\<close> as
  a record of operations over a backend state, the locale \<open>kv_store\<close> states what its documentation
  promises in terms of the cells a client can read, and \<open>Memory\<close> is the in-process implementation,
  whose operations interpret the locale. The clients (\<open>Counter\<close>, \<open>Cooldown\<close>, \<open>Idempotency\<close>) are
  written against \<open>kv_ops\<close> and proved correct in the locale.
\<close>

section \<open>The interface\<close>

text \<open>
  Every operation gets the backend's clock reading. A failed call is \<open>Inl\<close> of the error; reads give
  \<open>None\<close> for the Go result \<open>(zero, false, nil)\<close>. The context argument is not used by any caller.
\<close>

record 's kv_ops =
  Store_Incr :: "time \<Rightarrow> key \<Rightarrow> int \<Rightarrow> duration \<Rightarrow> 's \<Rightarrow> (err + int) \<times> 's"
  Store_GetInt :: "time \<Rightarrow> key \<Rightarrow> 's \<Rightarrow> err + int option"
  Store_Get :: "time \<Rightarrow> key \<Rightarrow> 's \<Rightarrow> err + bytes option"
  Store_Set :: "time \<Rightarrow> key \<Rightarrow> bytes \<Rightarrow> duration \<Rightarrow> 's \<Rightarrow> (err + unit) \<times> 's"
  Store_SetNX :: "time \<Rightarrow> key \<Rightarrow> bytes \<Rightarrow> duration \<Rightarrow> 's \<Rightarrow> (err + bool) \<times> 's"
  Store_TTL :: "time \<Rightarrow> key \<Rightarrow> 's \<Rightarrow> err + duration option"
  Store_Delete :: "time \<Rightarrow> key \<Rightarrow> 's \<Rightarrow> (err + unit) \<times> 's"

text \<open>What a client can see of a key that is present: its bytes, its number and when it expires.\<close>

record kv_cell =
  cell_bytes :: bytes
  cell_num :: int
  cell_deadline :: "time option"

definition live_cell :: "kv_cell \<Rightarrow> time \<Rightarrow> bool" where
  "live_cell c t \<longleftrightarrow> (case cell_deadline c of None \<Rightarrow> True | Some d \<Rightarrow> t < d)"

definition deadline_at :: "time \<Rightarrow> duration \<Rightarrow> time option" where
  "deadline_at t ttl = (if 0 < ttl then Some (t + ttl) else None)"

definition new_cell :: "bytes \<Rightarrow> time \<Rightarrow> duration \<Rightarrow> kv_cell" where
  "new_cell v t ttl = \<lparr>cell_bytes = v, cell_num = 0, cell_deadline = deadline_at t ttl\<rparr>"

text \<open>The clock is positive and the expiry instant is representable.\<close>

definition clock_ok :: "time \<Rightarrow> duration \<Rightarrow> bool" where
  "clock_ok t ttl \<longleftrightarrow> 0 < t \<and> t < 2 ^ 63 \<and> t + ttl < 2 ^ 63"

definition incr_cell :: "kv_cell option \<Rightarrow> time \<Rightarrow> duration \<Rightarrow> int \<Rightarrow> kv_cell" where
  "incr_cell co t ttl d =
     (let c = (case co of None \<Rightarrow> new_cell [] t ttl | Some c \<Rightarrow> c)
      in c\<lparr>cell_num := wrap64 (cell_num c + d)\<rparr>)"

lemma live_new_cell [simp]: "live_cell (new_cell v t ttl) t' \<longleftrightarrow> 0 < ttl \<longrightarrow> t' < t + ttl"
  by (simp add: live_cell_def new_cell_def deadline_at_def)

lemma live_cell_num_upd [simp]: "live_cell (c\<lparr>cell_num := n\<rparr>) t = live_cell c t"
  by (simp add: live_cell_def)

lemma cell_bytes_new [simp]: "cell_bytes (new_cell v t ttl) = v"
  and cell_num_new [simp]: "cell_num (new_cell v t ttl) = 0"
  and cell_deadline_new [simp]: "cell_deadline (new_cell v t ttl) = deadline_at t ttl"
  by (simp_all add: new_cell_def)

lemma incr_cell_num: "cell_num (incr_cell co t ttl d) = wrap64 ((case co of None \<Rightarrow> 0 | Some c \<Rightarrow> cell_num c) + d)"
  by (simp add: incr_cell_def split: option.split)

lemma incr_cell_live:
  "live_cell (incr_cell co t ttl d) t' =
     (case co of None \<Rightarrow> 0 < ttl \<longrightarrow> t' < t + ttl | Some c \<Rightarrow> live_cell c t')"
  by (simp add: incr_cell_def Let_def split: option.split)

locale kv_store =
  fixes ops :: "'s kv_ops"
    and cell :: "'s \<Rightarrow> time \<Rightarrow> key \<Rightarrow> kv_cell option"
    and invar :: "'s \<Rightarrow> bool"
  assumes cell_later: "invar s \<Longrightarrow> t \<le> t' \<Longrightarrow>
      cell s t' k = (case cell s t k of None \<Rightarrow> None | Some c \<Rightarrow> if live_cell c t' then Some c else None)"
    and incr_ok: "invar s \<Longrightarrow> clock_ok t ttl \<Longrightarrow> Store_Incr ops t k d ttl s = (Inr v, s') \<Longrightarrow>
      invar s' \<and> cell s' t = (cell s t)(k \<mapsto> incr_cell (cell s t k) t ttl d)
      \<and> v = cell_num (incr_cell (cell s t k) t ttl d)"
    and getint_ok: "invar s \<Longrightarrow> Store_GetInt ops t k s = Inr r \<Longrightarrow> r = map_option cell_num (cell s t k)"
    and get_ok: "invar s \<Longrightarrow> Store_Get ops t k s = Inr b \<Longrightarrow> b = map_option cell_bytes (cell s t k)"
    and set_ok: "invar s \<Longrightarrow> clock_ok t ttl \<Longrightarrow> Store_Set ops t k x ttl s = (Inr u, s') \<Longrightarrow>
      invar s' \<and> cell s' t = (cell s t)(k \<mapsto> new_cell x t ttl)"
    and setnx_ok: "invar s \<Longrightarrow> clock_ok t ttl \<Longrightarrow> Store_SetNX ops t k x ttl s = (Inr fresh, s') \<Longrightarrow>
      invar s' \<and> fresh = (cell s t k = None)
      \<and> cell s' t = (if fresh then (cell s t)(k \<mapsto> new_cell x t ttl) else cell s t)"
    and ttl_ok: "invar s \<Longrightarrow> 0 < t \<Longrightarrow> Store_TTL ops t k s = Inr left \<Longrightarrow>
      (case left of None \<Rightarrow> cell s t k = None
       | Some d \<Rightarrow> 0 < d \<and> (\<exists>c. cell s t k = Some c \<and> (\<forall>dl. cell_deadline c = Some dl \<longrightarrow> d = dl - t)))"
    and delete_ok: "invar s \<Longrightarrow> Store_Delete ops t k s = (Inr u, s') \<Longrightarrow>
      invar s' \<and> cell s' t = (cell s t)(k := None)"
begin

lemma cell_is_live: "invar s \<Longrightarrow> cell s t k = Some c \<Longrightarrow> live_cell c t"
  using cell_later [of s t t k] by (auto split: if_splits)

lemma cell_none_later: "invar s \<Longrightarrow> cell s t k = None \<Longrightarrow> t \<le> t' \<Longrightarrow> cell s t' k = None"
  using cell_later [of s t t' k] by simp

text \<open>A key written with a lease is visible until the lease ends and gone from then on.\<close>

lemma set_then_get:
  assumes "invar s" "clock_ok t ttl" "Store_Set ops t k v ttl s = (Inr u, s')" "t \<le> t'"
    and "Store_Get ops t' k s' = Inr r"
  shows "r = (if ttl \<le> 0 \<or> t' < t + ttl then Some v else None)"
proof -
  have s': "invar s'" and c: "cell s' t k = Some (new_cell v t ttl)"
    using set_ok [OF assms(1-3)] by simp_all
  have "cell s' t' k = (if ttl \<le> 0 \<or> t' < t + ttl then Some (new_cell v t ttl) else None)"
    using cell_later [OF s' assms(4), of k] c by auto
  with get_ok [OF s' assms(5)] show ?thesis by simp
qed

text \<open>\<open>SetNX\<close> is an exclusive claim: nobody else can claim the key while the lease lasts.\<close>

lemma setnx_excludes:
  assumes "invar s" "clock_ok t ttl" "Store_SetNX ops t k v ttl s = (Inr True, s')"
    and "t \<le> t'" "ttl \<le> 0 \<or> t' < t + ttl" "clock_ok t' ttl'"
    and "Store_SetNX ops t' k w ttl' s' = (Inr b, s'')"
  shows "\<not> b \<and> cell s'' t' = cell s' t'"
proof -
  have s': "invar s'" and c: "cell s' t k = Some (new_cell v t ttl)"
    using setnx_ok [OF assms(1-3)] by simp_all
  have "cell s' t' k \<noteq> None"
    using cell_later [OF s' assms(4), of k] c assms(5) by auto
  with setnx_ok [OF s' assms(6,7)] show ?thesis by auto
qed

end

text \<open>A store whose operations always succeed: what the in-process implementation adds to the contract.\<close>

locale reliable_store = kv_store ops cell invar
  for ops :: "'s kv_ops" and cell :: "'s \<Rightarrow> time \<Rightarrow> key \<Rightarrow> kv_cell option" and invar :: "'s \<Rightarrow> bool" +
  assumes set_total: "\<exists>s'. Store_Set ops t1 k1 v1 ttl1 s = (Inr (), s')"
    and setnx_total: "\<exists>b s'. Store_SetNX ops t2 k2 v2 ttl2 s = (Inr b, s')"
    and ttl_total: "\<exists>r. Store_TTL ops t3 k3 s = Inr r"
    and delete_total: "\<exists>s'. Store_Delete ops t4 k4 s = (Inr (), s')"
    and get_total: "\<exists>r. Store_Get ops t5 k5 s = Inr r"

section \<open>The in-memory store\<close>

record kv_entry =
  kv_val :: bytes
  kv_num :: int
  kv_isNum :: bool
  kv_expiry :: time

record Memory =
  kv_items :: "key \<rightharpoonup> kv_entry"
  kv_stopped :: bool

definition NewMemory :: Memory where
  "NewMemory = \<lparr>kv_items = Map.empty, kv_stopped = False\<rparr>"

definition Memory_alive :: "kv_entry \<Rightarrow> time \<Rightarrow> bool" where
  "Memory_alive e now \<longleftrightarrow> kv_expiry e = 0 \<or> now < kv_expiry e"

text \<open>The three writers compute the expiry instant the same way.\<close>

definition kv_expiry_of :: "time \<Rightarrow> duration \<Rightarrow> time" where
  "kv_expiry_of now ttl = (if 0 < ttl then wrap64 (now + ttl) else 0)"

definition Memory_Incr :: "time \<Rightarrow> key \<Rightarrow> int \<Rightarrow> duration \<Rightarrow> Memory \<Rightarrow> (err + int) \<times> Memory" where
  "Memory_Incr now k delta ttl m =
     (let e = (case kv_items m k of
                 Some e \<Rightarrow> if Memory_alive e now then e
                           else \<lparr>kv_val = [], kv_num = 0, kv_isNum = True, kv_expiry = kv_expiry_of now ttl\<rparr>
               | None \<Rightarrow> \<lparr>kv_val = [], kv_num = 0, kv_isNum = True, kv_expiry = kv_expiry_of now ttl\<rparr>);
          e' = e\<lparr>kv_isNum := True, kv_num := wrap64 (kv_num e + delta)\<rparr>
      in (Inr (kv_num e'), m\<lparr>kv_items := (kv_items m)(k \<mapsto> e')\<rparr>))"

definition Memory_GetInt :: "time \<Rightarrow> key \<Rightarrow> Memory \<Rightarrow> err + int option" where
  "Memory_GetInt now k m =
     (case kv_items m k of
        None \<Rightarrow> Inr None
      | Some e \<Rightarrow> if Memory_alive e now then Inr (Some (kv_num e)) else Inr None)"

definition Memory_Get :: "time \<Rightarrow> key \<Rightarrow> Memory \<Rightarrow> err + bytes option" where
  "Memory_Get now k m =
     (case kv_items m k of
        None \<Rightarrow> Inr None
      | Some e \<Rightarrow> if Memory_alive e now then Inr (Some (kv_val e)) else Inr None)"

definition Memory_Set :: "time \<Rightarrow> key \<Rightarrow> bytes \<Rightarrow> duration \<Rightarrow> Memory \<Rightarrow> (err + unit) \<times> Memory" where
  "Memory_Set now k v ttl m =
     (Inr (), m\<lparr>kv_items := (kv_items m)(k \<mapsto>
        \<lparr>kv_val = v, kv_num = 0, kv_isNum = False, kv_expiry = kv_expiry_of now ttl\<rparr>)\<rparr>)"

definition Memory_SetNX :: "time \<Rightarrow> key \<Rightarrow> bytes \<Rightarrow> duration \<Rightarrow> Memory \<Rightarrow> (err + bool) \<times> Memory" where
  "Memory_SetNX now k v ttl m =
     (if (case kv_items m k of None \<Rightarrow> False | Some e \<Rightarrow> Memory_alive e now) then (Inr False, m)
      else (Inr True, m\<lparr>kv_items := (kv_items m)(k \<mapsto>
        \<lparr>kv_val = v, kv_num = 0, kv_isNum = False, kv_expiry = kv_expiry_of now ttl\<rparr>)\<rparr>))"

definition Memory_TTL :: "time \<Rightarrow> key \<Rightarrow> Memory \<Rightarrow> err + duration option" where
  "Memory_TTL now k m =
     (case kv_items m k of
        None \<Rightarrow> Inr None
      | Some e \<Rightarrow> if \<not> Memory_alive e now then Inr None
                  else if kv_expiry e = 0 then Inr (Some (2 ^ 62 - 1))
                  else Inr (Some (wrap64 (kv_expiry e - now))))"

definition Memory_Delete :: "time \<Rightarrow> key \<Rightarrow> Memory \<Rightarrow> (err + unit) \<times> Memory" where
  "Memory_Delete now k m = (Inr (), m\<lparr>kv_items := (kv_items m)(k := None)\<rparr>)"

definition Memory_Stop :: "Memory \<Rightarrow> Memory" where
  "Memory_Stop m = m\<lparr>kv_stopped := True\<rparr>"

text \<open>One tick of the sweeper; after \<open>Stop\<close> the goroutine is gone.\<close>

definition Memory_gc :: "time \<Rightarrow> Memory \<Rightarrow> Memory" where
  "Memory_gc now m =
     (if kv_stopped m then m
      else m\<lparr>kv_items := (\<lambda>k. case kv_items m k of
               None \<Rightarrow> None
             | Some e \<Rightarrow> if kv_expiry e \<noteq> 0 \<and> kv_expiry e \<le> now then None else Some e)\<rparr>)"

definition Memory_ops :: "Memory kv_ops" where
  "Memory_ops = \<lparr>Store_Incr = Memory_Incr, Store_GetInt = Memory_GetInt, Store_Get = Memory_Get,
     Store_Set = Memory_Set, Store_SetNX = Memory_SetNX, Store_TTL = Memory_TTL,
     Store_Delete = Memory_Delete\<rparr>"

section \<open>The in-memory store implements the interface\<close>

definition entry_cell :: "kv_entry \<Rightarrow> kv_cell" where
  "entry_cell e = \<lparr>cell_bytes = kv_val e, cell_num = kv_num e,
     cell_deadline = (if kv_expiry e = 0 then None else Some (kv_expiry e))\<rparr>"

definition Memory_cell :: "Memory \<Rightarrow> time \<Rightarrow> key \<Rightarrow> kv_cell option" where
  "Memory_cell m t k =
     (case kv_items m k of None \<Rightarrow> None
      | Some e \<Rightarrow> if Memory_alive e t then Some (entry_cell e) else None)"

definition Memory_inv :: "Memory \<Rightarrow> bool" where
  "Memory_inv m \<longleftrightarrow> (\<forall>k e. kv_items m k = Some e \<longrightarrow> in_i64 (kv_expiry e) \<and> in_i64 (kv_num e))"

lemma live_entry_cell [simp]: "live_cell (entry_cell e) t = Memory_alive e t"
  by (simp add: live_cell_def entry_cell_def Memory_alive_def)

lemma cell_num_entry [simp]: "cell_num (entry_cell e) = kv_num e"
  and cell_bytes_entry [simp]: "cell_bytes (entry_cell e) = kv_val e"
  by (simp_all add: entry_cell_def)

lemma in_i64_expiry_of [simp]: "in_i64 (kv_expiry_of t ttl)"
  by (simp add: kv_expiry_of_def)

lemma expiry_of_deadline:
  "clock_ok t ttl \<Longrightarrow> (if kv_expiry_of t ttl = 0 then None else Some (kv_expiry_of t ttl)) = deadline_at t ttl"
  by (simp add: clock_ok_def kv_expiry_of_def deadline_at_def in_i64_def)

lemma alive_expiry_of:
  "clock_ok t ttl \<Longrightarrow> kv_expiry e = kv_expiry_of t ttl \<Longrightarrow> Memory_alive e t"
  by (simp add: Memory_alive_def clock_ok_def kv_expiry_of_def in_i64_def)

lemma Memory_inv_upd:
  "Memory_inv m \<Longrightarrow> in_i64 (kv_expiry e) \<Longrightarrow> in_i64 (kv_num e) \<Longrightarrow>
     Memory_inv (m\<lparr>kv_items := (kv_items m)(k \<mapsto> e)\<rparr>)"
  by (simp add: Memory_inv_def)

lemma Memory_cell_upd:
  "Memory_alive e t \<Longrightarrow>
     Memory_cell (m\<lparr>kv_items := (kv_items m)(k \<mapsto> e)\<rparr>) t = (Memory_cell m t)(k \<mapsto> entry_cell e)"
  by (rule ext) (simp add: Memory_cell_def)

lemma Memory_new_entry_cell:
  "clock_ok t ttl \<Longrightarrow>
     entry_cell \<lparr>kv_val = v, kv_num = 0, kv_isNum = b, kv_expiry = kv_expiry_of t ttl\<rparr> = new_cell v t ttl"
  unfolding entry_cell_def new_cell_def by (simp only: kv_entry.simps expiry_of_deadline)

lemma Memory_cell_later:
  "t \<le> t' \<Longrightarrow> Memory_cell m t' k =
     (case Memory_cell m t k of None \<Rightarrow> None | Some c \<Rightarrow> if live_cell c t' then Some c else None)"
  by (auto simp: Memory_cell_def Memory_alive_def split: option.splits)

lemma Memory_Incr_ok:
  assumes "Memory_inv m" "clock_ok t ttl" "Memory_Incr t k d ttl m = (Inr v, m')"
  shows "Memory_inv m' \<and> Memory_cell m' t = (Memory_cell m t)(k \<mapsto> incr_cell (Memory_cell m t k) t ttl d)
     \<and> v = cell_num (incr_cell (Memory_cell m t k) t ttl d)"
proof -
  define e where "e = (case kv_items m k of
      Some e \<Rightarrow> if Memory_alive e t then e
                else \<lparr>kv_val = [], kv_num = 0, kv_isNum = True, kv_expiry = kv_expiry_of t ttl\<rparr>
    | None \<Rightarrow> \<lparr>kv_val = [], kv_num = 0, kv_isNum = True, kv_expiry = kv_expiry_of t ttl\<rparr>)"
  define e' where "e' = e\<lparr>kv_isNum := True, kv_num := wrap64 (kv_num e + d)\<rparr>"
  have m': "m' = m\<lparr>kv_items := (kv_items m)(k \<mapsto> e')\<rparr>" and v: "v = kv_num e'"
    using assms(3) by (auto simp: Memory_Incr_def e_def [symmetric] e'_def Let_def)
  have "Memory_alive e t"
    using assms(2) by (auto simp: e_def intro: alive_expiry_of split: option.split)
  then have alive: "Memory_alive e' t" by (simp add: e'_def Memory_alive_def)
  have "in_i64 (kv_expiry e)"
    using assms(1) by (auto simp: e_def Memory_inv_def split: option.split)
  then have "Memory_inv m'"
    unfolding m' using assms(1) by (intro Memory_inv_upd) (simp_all add: e'_def)
  moreover have "entry_cell e' = incr_cell (Memory_cell m t k) t ttl d"
    using assms(2) Memory_new_entry_cell [of t ttl "[]" True]
    by (auto simp: e'_def e_def incr_cell_def Memory_cell_def Let_def entry_cell_def new_cell_def
        split: option.split)
  moreover have "v = cell_num (entry_cell e')" by (simp add: v)
  ultimately show ?thesis
    using Memory_cell_upd [OF alive, of m k] by (simp only: m' simp_thms)
qed

lemma Memory_Set_ok:
  assumes "Memory_inv m" "clock_ok t ttl" "Memory_Set t k v ttl m = (Inr u, m')"
  shows "Memory_inv m' \<and> Memory_cell m' t = (Memory_cell m t)(k \<mapsto> new_cell v t ttl)"
proof -
  define e where "e = \<lparr>kv_val = v, kv_num = 0, kv_isNum = False, kv_expiry = kv_expiry_of t ttl\<rparr>"
  have m': "m' = m\<lparr>kv_items := (kv_items m)(k \<mapsto> e)\<rparr>"
    using assms(3) by (simp add: Memory_Set_def e_def)
  have "Memory_alive e t" by (rule alive_expiry_of [OF assms(2)]) (simp add: e_def)
  then show ?thesis
    using assms(1,2) by (simp add: m' Memory_cell_upd Memory_inv_upd e_def Memory_new_entry_cell)
qed

lemma Memory_SetNX_ok:
  assumes "Memory_inv m" "clock_ok t ttl" "Memory_SetNX t k v ttl m = (Inr b, m')"
  shows "Memory_inv m' \<and> b = (Memory_cell m t k = None)
     \<and> Memory_cell m' t = (if b then (Memory_cell m t)(k \<mapsto> new_cell v t ttl) else Memory_cell m t)"
proof (cases "case kv_items m k of None \<Rightarrow> False | Some e \<Rightarrow> Memory_alive e t")
  case True
  then show ?thesis
    using assms by (auto simp: Memory_SetNX_def Memory_cell_def split: option.splits)
next
  case False
  then have b: "b" and set: "Memory_Set t k v ttl m = (Inr (), m')"
    using assms(3) by (simp_all add: Memory_SetNX_def Memory_Set_def)
  from False have "Memory_cell m t k = None"
    by (auto simp: Memory_cell_def split: option.splits)
  with b Memory_Set_ok [OF assms(1,2) set] show ?thesis by simp
qed

lemma Memory_TTL_ok:
  assumes "Memory_inv m" "0 < t" "Memory_TTL t k m = Inr r"
  shows "case r of None \<Rightarrow> Memory_cell m t k = None
     | Some d \<Rightarrow> 0 < d \<and> (\<exists>c. Memory_cell m t k = Some c \<and> (\<forall>dl. cell_deadline c = Some dl \<longrightarrow> d = dl - t))"
proof -
  have "wrap64 (kv_expiry e - t) = kv_expiry e - t"
    if "kv_items m k = Some e" "Memory_alive e t" "kv_expiry e \<noteq> 0" for e
  proof -
    have "in_i64 (kv_expiry e)" using assms(1) that(1) by (simp add: Memory_inv_def)
    then show ?thesis
      using that(2,3) assms(2) by (intro wrap64_id) (auto simp: Memory_alive_def in_i64_def)
  qed
  then show ?thesis
    using assms(3)
    by (auto simp: Memory_TTL_def Memory_cell_def Memory_alive_def entry_cell_def
        split: option.splits if_splits)
qed

interpretation mem: kv_store Memory_ops Memory_cell Memory_inv
proof (unfold_locales, goal_cases)
  case 1 then show ?case by (simp add: Memory_cell_later)
next
  case 2 then show ?case by (simp add: Memory_ops_def Memory_Incr_ok)
next
  case 3 then show ?case
    by (auto simp: Memory_ops_def Memory_GetInt_def Memory_cell_def entry_cell_def split: option.splits if_splits)
next
  case 4 then show ?case
    by (auto simp: Memory_ops_def Memory_Get_def Memory_cell_def entry_cell_def split: option.splits if_splits)
next
  case 5 then show ?case by (simp add: Memory_ops_def Memory_Set_ok)
next
  case 6 then show ?case by (simp add: Memory_ops_def Memory_SetNX_ok)
next
  case 7 then show ?case by (simp add: Memory_ops_def Memory_TTL_ok)
next
  case 8 then show ?case
    by (auto simp: Memory_ops_def Memory_Delete_def Memory_cell_def Memory_inv_def fun_eq_iff split: if_splits)
qed

lemma Memory_inv_new: "Memory_inv NewMemory"
  by (simp add: Memory_inv_def NewMemory_def)

lemma Memory_gc_inv: "Memory_inv m \<Longrightarrow> Memory_inv (Memory_gc now m)"
  by (auto simp: Memory_inv_def Memory_gc_def split: option.splits if_splits)

lemma Memory_gc_cell: "now \<le> t \<Longrightarrow> Memory_cell (Memory_gc now m) t = Memory_cell m t"
  by (rule ext) (auto simp: Memory_gc_def Memory_cell_def Memory_alive_def split: option.splits)

section \<open>Properties of the in-memory store\<close>

interpretation reliable: reliable_store Memory_ops Memory_cell Memory_inv
  by unfold_locales
    (auto simp: Memory_ops_def Memory_Set_def Memory_SetNX_def Memory_TTL_def Memory_Delete_def Memory_Get_def
      split: option.splits)

text \<open>A value written by \<open>Set\<close> is what \<open>Get\<close> returns at every later instant until its lease ends
  (always, for a lease of zero or less), and nothing after that.\<close>

theorem Memory_set_get:
  assumes "Memory_inv m" and "clock_ok t ttl" and "t \<le> t'"
  shows "Memory_Get t' k (snd (Memory_Set t k v ttl m)) =
    Inr (if ttl \<le> 0 \<or> t' < t + ttl then Some v else None)"
proof -
  obtain u m' where set: "Memory_Set t k v ttl m = (Inr u, m')"
    by (simp add: Memory_Set_def)
  have "\<exists>r. Memory_Get t' k m' = Inr r"
    by (simp add: Memory_Get_def split: option.split)
  then obtain r where get: "Memory_Get t' k m' = Inr r" ..
  have "r = (if ttl \<le> 0 \<or> t' < t + ttl then Some v else None)"
    using mem.set_then_get [OF assms(1,2) _ assms(3), of k v u m' r] set get
    by (simp add: Memory_ops_def)
  with set get show ?thesis by simp
qed

theorem Memory_set_get_witness:
  "Memory_Get 14 ''k'' (snd (Memory_Set 10 ''k'' ''v'' 5 NewMemory)) = Inr (Some ''v'')
   \<and> Memory_Get 15 ''k'' (snd (Memory_Set 10 ''k'' ''v'' 5 NewMemory)) = Inr None"
  using Memory_set_get [OF Memory_inv_new, of 10 5 14 "''k''" "''v''"]
    Memory_set_get [OF Memory_inv_new, of 10 5 15 "''k''" "''v''"]
  by (simp add: clock_ok_def)



text \<open>The sweeper is invisible: from the instant it runs at on, every key reads the same as if it had
  not run, and it keeps the store's invariant.\<close>

theorem Memory_gc_invisible:
  assumes "Memory_inv m" and "now \<le> t"
  shows "Memory_inv (Memory_gc now m) \<and> Memory_Get t k (Memory_gc now m) = Memory_Get t k m
    \<and> Memory_GetInt t k (Memory_gc now m) = Memory_GetInt t k m
    \<and> Memory_TTL t k (Memory_gc now m) = Memory_TTL t k m"
  using assms(2) Memory_gc_inv [OF assms(1), of now]
  by (auto simp: Memory_gc_def Memory_Get_def Memory_GetInt_def Memory_TTL_def Memory_alive_def
      split: option.splits)

theorem Memory_gc_invisible_witness:
  "Memory_Get 20 ''k'' (Memory_gc 20 (snd (Memory_Set 10 ''k'' ''v'' 5 NewMemory))) = Inr None
   \<and> kv_items (Memory_gc 20 (snd (Memory_Set 10 ''k'' ''v'' 5 NewMemory))) ''k'' = None"
proof -
  have inv: "Memory_inv (snd (Memory_Set 10 ''k'' ''v'' 5 NewMemory))"
    using Memory_Set_ok [OF Memory_inv_new, of 10 5 "''k''" "''v''" "()"
        "snd (Memory_Set 10 ''k'' ''v'' 5 NewMemory)"]
    by (simp add: clock_ok_def Memory_Set_def)
  show ?thesis
    using Memory_gc_invisible [OF inv, of 20 20 "''k''"]
    by (simp add: Memory_Get_def Memory_Set_def NewMemory_def Memory_gc_def kv_expiry_of_def in_i64_def Memory_alive_def)
qed

end
