(* ===== verification/Counter.thy ===== *)
theory Counter
  imports KVStore
begin

text \<open>
  \<open>pkg/resilience/counter\<close>: counting and quotas per key in a time window. Without a store the
  counter keeps a ring of buckets per key (a sliding window); with a store it keeps one number per key
  and window in the store (a fixed window). The theory relates the ring of buckets to the log of the
  increments it has seen, and proves the quota of both modes, the store mode under interleaving calls
  of several processes.
\<close>

section \<open>The counter\<close>

record keyState =
  ks_counts :: "int list"
  ks_bucketAt :: "time list"
  ks_lastSeen :: time

record 's counter_config =
  cc_window :: duration
  cc_buckets :: int
  cc_gcInterval :: duration
  cc_store :: "'s kv_ops option"
  cc_onStoreErr :: bool

datatype 's counter_option =
    WithBuckets int
  | WithGCInterval duration
  | WithStore "'s kv_ops"
  | WithOnStoreError

record 's Counter =
  cn_window :: duration
  cn_buckets :: int
  cn_bucketDur :: duration
  cn_gcInterval :: duration
  cn_store :: "'s kv_ops option"
  cn_onStoreErr :: bool
  cn_shards :: "keyState shards"
  cn_stopped :: bool

fun counter_apply :: "'s counter_option \<Rightarrow> 's counter_config \<Rightarrow> 's counter_config" where
  "counter_apply (WithBuckets n) c = c\<lparr>cc_buckets := n\<rparr>"
| "counter_apply (WithGCInterval d) c = c\<lparr>cc_gcInterval := d\<rparr>"
| "counter_apply (WithStore st) c = c\<lparr>cc_store := Some st\<rparr>"
| "counter_apply WithOnStoreError c = c\<lparr>cc_onStoreErr := True\<rparr>"

definition Counter_New :: "duration \<Rightarrow> 's counter_option list \<Rightarrow> 's Counter" where
  "Counter_New window opts =
     (let cfg0 = \<lparr>cc_window = window, cc_buckets = 10, cc_gcInterval = 0, cc_store = None, cc_onStoreErr = False\<rparr>;
          cfg = fold counter_apply opts cfg0;
          w = (if cc_window cfg \<le> 0 then 60 * second else cc_window cfg);
          b = (if cc_buckets cfg \<le> 0 then 10 else cc_buckets cfg);
          g = (if cc_gcInterval cfg \<le> 0 then w else cc_gcInterval cfg);
          g' = (if g < second then second else g)
      in \<lparr>cn_window = w, cn_buckets = b, cn_bucketDur = go_div w b, cn_gcInterval = g',
          cn_store = cc_store cfg, cn_onStoreErr = cc_onStoreErr cfg,
          cn_shards = (if cc_store cfg = None then shards_init else []), cn_stopped = False\<rparr>)"

definition Counter_storeKey :: "'s Counter \<Rightarrow> key \<Rightarrow> time \<Rightarrow> key" where
  "Counter_storeKey c k now = ''cnt:'' @ k @ '':'' @ FormatInt (go_div now (cn_window c))"

definition Counter_reportErr :: "'s Counter \<Rightarrow> string \<Rightarrow> key \<Rightarrow> err \<Rightarrow> report list" where
  "Counter_reportErr c op k e = (if cn_onStoreErr c then [(op, k, e)] else [])"

text \<open>\<open>None\<close> is the run-time panic of a division by a zero bucket length.\<close>

definition Counter_bucketIndex :: "'s Counter \<Rightarrow> time \<Rightarrow> (int \<times> time) option" where
  "Counter_bucketIndex c now =
     (if cn_bucketDur c = 0 then None
      else let slot = go_div now (cn_bucketDur c)
           in Some (go_mod slot (cn_buckets c), slot * cn_bucketDur c))"

definition Counter_sumLocked :: "'s Counter \<Rightarrow> keyState \<Rightarrow> time \<Rightarrow> int" where
  "Counter_sumLocked c ks now =
     (let cutoff = wrap64 (now - cn_window c)
      in foldl (\<lambda>acc p. if cutoff < fst p then wrap64 (acc + snd p) else acc) 0
           (zip (ks_bucketAt ks) (ks_counts ks)))"

text \<open>The state of a key, created on first use.\<close>

definition Counter_state :: "(key \<Rightarrow> 64 word) \<Rightarrow> 's Counter \<Rightarrow> key \<Rightarrow> keyState" where
  "Counter_state h c k =
     (case shard_get h (cn_shards c) k of
        Some ks \<Rightarrow> ks
      | None \<Rightarrow> \<lparr>ks_counts = replicate (nat (cn_buckets c)) 0,
                 ks_bucketAt = replicate (nat (cn_buckets c)) 0, ks_lastSeen = 0\<rparr>)"

text \<open>The shared tail of \<open>add\<close> and \<open>Allow\<close>: clear a reused bucket, then count into it. \<open>None\<close> is a panic.\<close>

definition Counter_bump :: "'s Counter \<Rightarrow> keyState \<Rightarrow> time \<Rightarrow> int \<Rightarrow> keyState option" where
  "Counter_bump c ks now n =
     (case Counter_bucketIndex c now of
        None \<Rightarrow> None
      | Some (i, start) \<Rightarrow>
          if i < 0 \<or> int (length (ks_counts ks)) \<le> i then None
          else let idx = nat i;
                   ks1 = (if ks_bucketAt ks ! idx \<noteq> start
                          then ks\<lparr>ks_bucketAt := (ks_bucketAt ks)[idx := start],
                                  ks_counts := (ks_counts ks)[idx := 0]\<rparr>
                          else ks)
               in Some (ks1\<lparr>ks_counts := (ks_counts ks1)[idx := wrap64 (ks_counts ks1 ! idx + n)]\<rparr>))"

definition Counter_add :: "(key \<Rightarrow> 64 word) \<Rightarrow> 's Counter \<Rightarrow> time \<Rightarrow> time \<Rightarrow> key \<Rightarrow> int \<Rightarrow> 's
    \<Rightarrow> (int \<times> report list \<times> 's Counter \<times> 's) option" where
  "Counter_add h c now t1 k n s =
     (case cn_store c of
        Some ops \<Rightarrow>
          (case Store_Incr ops t1 (Counter_storeKey c k now) n (cn_window c) s of
             (Inl e, s') \<Rightarrow> Some (0, Counter_reportErr c ''incr'' k e, c, s')
           | (Inr v, s') \<Rightarrow> Some (v, [], c, s'))
      | None \<Rightarrow>
          (case Counter_bump c ((Counter_state h c k)\<lparr>ks_lastSeen := now\<rparr>) now n of
             None \<Rightarrow> None
           | Some ks \<Rightarrow> Some (Counter_sumLocked c ks now, [],
                              c\<lparr>cn_shards := shard_put h (cn_shards c) k ks\<rparr>, s)))"

definition Counter_Incr :: "(key \<Rightarrow> 64 word) \<Rightarrow> 's Counter \<Rightarrow> time \<Rightarrow> time \<Rightarrow> key \<Rightarrow> int \<Rightarrow> 's
    \<Rightarrow> (int \<times> report list \<times> 's Counter \<times> 's) option" where
  "Counter_Incr h c now t1 k n s = Counter_add h c now t1 k n s"

definition Counter_Add :: "(key \<Rightarrow> 64 word) \<Rightarrow> 's Counter \<Rightarrow> time \<Rightarrow> time \<Rightarrow> key \<Rightarrow> int \<Rightarrow> 's
    \<Rightarrow> (int \<times> report list \<times> 's Counter \<times> 's) option" where
  "Counter_Add h c now t1 k n s = Counter_add h c now t1 k n s"

definition Counter_Count :: "(key \<Rightarrow> 64 word) \<Rightarrow> 's Counter \<Rightarrow> time \<Rightarrow> time \<Rightarrow> key \<Rightarrow> 's \<Rightarrow> int \<times> report list" where
  "Counter_Count h c now t1 k s =
     (case cn_store c of
        Some ops \<Rightarrow>
          (case Store_GetInt ops t1 (Counter_storeKey c k now) s of
             Inl e \<Rightarrow> (0, Counter_reportErr c ''get'' k e)
           | Inr None \<Rightarrow> (0, [])
           | Inr (Some v) \<Rightarrow> (v, []))
      | None \<Rightarrow>
          (case shard_get h (cn_shards c) k of
             None \<Rightarrow> (0, [])
           | Some ks \<Rightarrow> (Counter_sumLocked c ks now, [])))"

text \<open>
  The two halves of \<open>Allow\<close> with a store: increment and decide, then take the increment back when the
  quota is exceeded. Other processes may run between the halves.
\<close>

definition Counter_allow_incr :: "'s Counter \<Rightarrow> 's kv_ops \<Rightarrow> time \<Rightarrow> time \<Rightarrow> key \<Rightarrow> int \<Rightarrow> int \<Rightarrow> 's
    \<Rightarrow> (bool \<times> bool \<times> report list) \<times> 's" where
  "Counter_allow_incr c ops now t1 k n limit s =
     (case Store_Incr ops t1 (Counter_storeKey c k now) n (cn_window c) s of
        (Inl e, s') \<Rightarrow> ((True, False, Counter_reportErr c ''incr'' k e), s')
      | (Inr v, s') \<Rightarrow> ((v \<le> limit, limit < v, []), s'))"

definition Counter_allow_rollback :: "'s Counter \<Rightarrow> 's kv_ops \<Rightarrow> time \<Rightarrow> time \<Rightarrow> key \<Rightarrow> int \<Rightarrow> 's
    \<Rightarrow> report list \<times> 's" where
  "Counter_allow_rollback c ops now t2 k n s =
     (case Store_Incr ops t2 (Counter_storeKey c k now) (wrap64 (- n)) (cn_window c) s of
        (Inl e, s') \<Rightarrow> (Counter_reportErr c ''incr-rollback'' k e, s')
      | (Inr v, s') \<Rightarrow> ([], s'))"

definition Counter_Allow :: "(key \<Rightarrow> 64 word) \<Rightarrow> 's Counter \<Rightarrow> time \<Rightarrow> time \<Rightarrow> time \<Rightarrow> key \<Rightarrow> int \<Rightarrow> int \<Rightarrow> 's
    \<Rightarrow> (bool \<times> report list \<times> 's Counter \<times> 's) option" where
  "Counter_Allow h c now t1 t2 k n limit s =
     (case cn_store c of
        Some ops \<Rightarrow>
          (let ((ok, over, rep), s1) = Counter_allow_incr c ops now t1 k n limit s
           in if over then let (rep', s2) = Counter_allow_rollback c ops now t2 k n s1 in Some (False, rep', c, s2)
              else Some (ok, rep, c, s1))
      | None \<Rightarrow>
          (let ks = (Counter_state h c k)\<lparr>ks_lastSeen := now\<rparr>
           in if limit < wrap64 (Counter_sumLocked c ks now + n)
              then Some (False, [], c\<lparr>cn_shards := shard_put h (cn_shards c) k ks\<rparr>, s)
              else (case Counter_bump c ks now n of
                      None \<Rightarrow> None
                    | Some ks' \<Rightarrow> Some (True, [], c\<lparr>cn_shards := shard_put h (cn_shards c) k ks'\<rparr>, s))))"

definition Counter_Reset :: "(key \<Rightarrow> 64 word) \<Rightarrow> 's Counter \<Rightarrow> time \<Rightarrow> time \<Rightarrow> key \<Rightarrow> 's
    \<Rightarrow> report list \<times> 's Counter \<times> 's" where
  "Counter_Reset h c now t1 k s =
     (case cn_store c of
        Some ops \<Rightarrow>
          (case Store_Delete ops t1 (Counter_storeKey c k now) s of
             (Inl e, s') \<Rightarrow> (Counter_reportErr c ''delete'' k e, c, s')
           | (Inr u, s') \<Rightarrow> ([], c, s'))
      | None \<Rightarrow> ([], c\<lparr>cn_shards := shard_del h (cn_shards c) k\<rparr>, s))"

definition Counter_Stop :: "'s Counter \<Rightarrow> 's Counter" where
  "Counter_Stop c = c\<lparr>cn_stopped := True\<rparr>"

text \<open>One tick of the sweeper of idle keys.\<close>

definition Counter_gc :: "time \<Rightarrow> 's Counter \<Rightarrow> 's Counter" where
  "Counter_gc now c =
     (if cn_stopped c then c
      else let cutoff = wrap64 (now - cn_window c)
           in c\<lparr>cn_shards := map (\<lambda>sh k. case sh k of None \<Rightarrow> None
                  | Some ks \<Rightarrow> if ks_lastSeen ks < cutoff then None else Some ks) (cn_shards c)\<rparr>)"

section \<open>The ring of buckets against the log of increments\<close>

definition bucket_start :: "duration \<Rightarrow> time \<Rightarrow> time" where
  "bucket_start d t = t div d * d"

definition window_sum :: "duration \<Rightarrow> duration \<Rightarrow> time \<Rightarrow> (time \<times> int) list \<Rightarrow> int" where
  "window_sum w d now log = (\<Sum>p\<leftarrow>log. if now - w < bucket_start d (fst p) then snd p else 0)"

definition slot_of :: "int \<Rightarrow> duration \<Rightarrow> time \<Rightarrow> nat" where
  "slot_of b d t = nat (t div d mod b)"

definition slot_sum :: "int \<Rightarrow> duration \<Rightarrow> (time \<times> int) list \<Rightarrow> nat \<Rightarrow> time \<Rightarrow> int" where
  "slot_sum b d log i start =
     (\<Sum>p\<leftarrow>log. if slot_of b d (fst p) = i \<and> bucket_start d (fst p) = start then snd p else 0)"

text \<open>The ring of a key holds, per slot, the sum of the increments of the newest bucket in that slot.\<close>

definition tracks :: "int \<Rightarrow> duration \<Rightarrow> keyState \<Rightarrow> (time \<times> int) list \<Rightarrow> time \<Rightarrow> bool" where
  "tracks b d ks log now \<longleftrightarrow>
     length (ks_counts ks) = nat b \<and> length (ks_bucketAt ks) = nat b
     \<and> (\<forall>i<nat b. ks_counts ks ! i = wrap64 (slot_sum b d log i (ks_bucketAt ks ! i)))
     \<and> (\<forall>p\<in>set log. 0 \<le> fst p \<and> bucket_start d (fst p) \<le> ks_bucketAt ks ! slot_of b d (fst p))
     \<and> (\<forall>i<nat b. \<exists>q. ks_bucketAt ks ! i = q * d \<and> 0 \<le> q \<and> q * d \<le> now \<and> (q = 0 \<or> nat (q mod b) = i))"

lemma slot_of_bound: "0 < b \<Longrightarrow> slot_of b d t < nat b"
  by (simp add: slot_of_def)

lemma tracks_later: "tracks b d ks log now \<Longrightarrow> now \<le> now' \<Longrightarrow> tracks b d ks log now'"
proof -
  assume tr: "tracks b d ks log now" and le: "now \<le> now'"
  have "\<forall>i<nat b. \<exists>q. ks_bucketAt ks ! i = q * d \<and> 0 \<le> q \<and> q * d \<le> now' \<and> (q = 0 \<or> nat (q mod b) = i)"
    using tr le unfolding tracks_def by (meson order_trans)
  with tr show "tracks b d ks log now'" unfolding tracks_def by blast
qed

lemma tracks_lastSeen [simp]: "tracks b d (ks\<lparr>ks_lastSeen := t\<rparr>) log now = tracks b d ks log now"
  by (simp add: tracks_def)

lemma tracks_new:
  "0 < b \<Longrightarrow> 0 \<le> now \<Longrightarrow>
     tracks b d \<lparr>ks_counts = replicate (nat b) 0, ks_bucketAt = replicate (nat b) 0, ks_lastSeen = l\<rparr> [] now"
  by (auto simp: tracks_def slot_sum_def)

lemma tracks_bucketE:
  assumes "tracks b d ks log now" and "i < nat b"
  obtains q where "ks_bucketAt ks ! i = q * d" "0 \<le> q" "q * d \<le> now" "q = 0 \<or> nat (q mod b) = i"
  using assms unfolding tracks_def by blast

lemma tracks_entry:
  "tracks b d ks log now \<Longrightarrow> p \<in> set log \<Longrightarrow>
     0 \<le> fst p \<and> bucket_start d (fst p) \<le> ks_bucketAt ks ! slot_of b d (fst p)"
  unfolding tracks_def by blast

text \<open>A bucket that still counts has not been overwritten when the ring covers the whole window.\<close>

lemma tracks_not_reused:
  assumes tr: "tracks b d ks log now" and b: "0 < b" and d: "0 < d" and p: "p \<in> set log"
    and counts: "now - b * d < bucket_start d (fst p)"
  shows "bucket_start d (fst p) = ks_bucketAt ks ! slot_of b d (fst p)"
proof (rule ccontr)
  let ?u = "fst p div d" and ?i = "slot_of b d (fst p)"
  assume ne: "bucket_start d (fst p) \<noteq> ks_bucketAt ks ! ?i"
  have "bucket_start d (fst p) \<le> ks_bucketAt ks ! ?i" and pos: "0 \<le> fst p"
    using tracks_entry [OF tr p] by simp_all
  with ne have lt: "?u * d < ks_bucketAt ks ! ?i" by (simp add: bucket_start_def)
  obtain q where q: "ks_bucketAt ks ! ?i = q * d" "q * d \<le> now" "q = 0 \<or> nat (q mod b) = ?i" "0 \<le> q"
    using tracks_bucketE [OF tr slot_of_bound [OF b]] by blast
  have "?u < q" using lt q(1) d by simp
  moreover have "0 \<le> ?u" using pos d by (simp add: pos_imp_zdiv_nonneg_iff)
  ultimately have "nat (q mod b) = nat (?u mod b)" using q(3) by (simp add: slot_of_def)
  then have "q mod b = ?u mod b" using b by (simp add: nat_eq_iff2)
  then have "b dvd q - ?u" by (simp add: mod_eq_dvd_iff)
  with \<open>?u < q\<close> have "b \<le> q - ?u" by (simp add: zdvd_imp_le)
  then have "(b + ?u) * d \<le> q * d" using d by (intro mult_right_mono) auto
  then have "b * d + ?u * d \<le> now" using q(2) by (simp add: algebra_simps)
  with counts show False by (simp add: bucket_start_def)
qed

lemma sumLocked_window:
  assumes tr: "tracks b d ks log now" and b: "0 < b" and d: "0 < d" and w: "cn_window c = b * d"
    and now: "in_i64 (now - b * d)"
  shows "Counter_sumLocked c ks now = wrap64 (window_sum (b * d) d now log)"
proof -
  let ?at = "\<lambda>i. ks_bucketAt ks ! i" and ?cut = "now - b * d"
  let ?n = "nat b"
  have len: "length (ks_bucketAt ks) = ?n" "length (ks_counts ks) = ?n"
    using tr by (simp_all add: tracks_def)
  have "Counter_sumLocked c ks now =
      wrap64 (\<Sum>p\<leftarrow>zip (ks_bucketAt ks) (ks_counts ks). if ?cut < fst p then snd p else 0)"
    using foldl_wrap64_sum [of "\<lambda>p. ?cut < fst p" snd 0] now by (simp add: Counter_sumLocked_def w)
  also have "\<dots> = wrap64 (\<Sum>i<?n. if ?cut < ?at i then ks_counts ks ! i else 0)"
    by (subst sum_list_zip_nth) (simp_all add: len cong: if_cong)
  also have "\<dots> = wrap64 (\<Sum>i<?n. wrap64 (if ?cut < ?at i then slot_sum b d log i (?at i) else 0))"
    using tr by (intro arg_cong [where f = wrap64] sum.cong) (simp_all add: tracks_def)
  also have "\<dots> = wrap64 (\<Sum>i<?n. if ?cut < ?at i then slot_sum b d log i (?at i) else 0)"
    by (simp only: wrap64_sum finite_lessThan)
  also have "(\<Sum>i<?n. if ?cut < ?at i then slot_sum b d log i (?at i) else 0) =
      (\<Sum>i<?n. \<Sum>p\<leftarrow>log. if ?cut < ?at i \<and> slot_of b d (fst p) = i \<and> bucket_start d (fst p) = ?at i then snd p else 0)"
    by (intro sum.cong) (auto simp: slot_sum_def intro!: arg_cong [where f = sum_list])
  also have "\<dots> = (\<Sum>p\<leftarrow>log. \<Sum>i<?n. if ?cut < ?at i \<and> slot_of b d (fst p) = i \<and> bucket_start d (fst p) = ?at i then snd p else 0)"
    by (rule sum_sum_list_swap)
  also have "\<dots> = window_sum (b * d) d now log"
    unfolding window_sum_def
  proof (intro arg_cong [where f = sum_list] map_cong refl)
    fix p assume p: "p \<in> set log"
    have "(\<Sum>i<?n. if ?cut < ?at i \<and> slot_of b d (fst p) = i \<and> bucket_start d (fst p) = ?at i then snd p else 0) =
        (\<Sum>i<?n. if i = slot_of b d (fst p) then (if ?cut < ?at i \<and> bucket_start d (fst p) = ?at i then snd p else 0) else 0)"
      by (intro sum.cong) auto
    also have "\<dots> = (if ?cut < ?at (slot_of b d (fst p)) \<and> bucket_start d (fst p) = ?at (slot_of b d (fst p)) then snd p else 0)"
      using slot_of_bound [OF b] by simp
    also have "\<dots> = (if ?cut < bucket_start d (fst p) then snd p else 0)"
    proof (cases "?cut < bucket_start d (fst p)")
      case True
      from tracks_not_reused [OF tr b d p True] True show ?thesis by metis
    next
      case False
      then show ?thesis by metis
    qed
    finally show "(\<Sum>i<?n. if ?cut < ?at i \<and> slot_of b d (fst p) = i \<and> bucket_start d (fst p) = ?at i then snd p else 0) =
      (if ?cut < bucket_start d (fst p) then snd p else 0)" .
  qed
  finally show ?thesis .
qed

text \<open>Counting an increment keeps the ring in step with the log, and never panics.\<close>

lemma bucketIndex_eq:
  "cn_buckets c = b \<Longrightarrow> cn_bucketDur c = d \<Longrightarrow> 0 < b \<Longrightarrow> 0 < d \<Longrightarrow> 0 \<le> now \<Longrightarrow>
     Counter_bucketIndex c now = Some (int (slot_of b d now), bucket_start d now)"
  by (simp add: Counter_bucketIndex_def go_simps slot_of_def bucket_start_def pos_imp_zdiv_nonneg_iff Let_def)

lemma slot_sum_snoc:
  "slot_sum b d (log @ [(t, n)]) i start =
     slot_sum b d log i start + (if slot_of b d t = i \<and> bucket_start d t = start then n else 0)"
  by (simp add: slot_sum_def)

lemma slot_sum_newer:
  assumes "\<And>p. p \<in> set log \<Longrightarrow> slot_of b d (fst p) = i \<Longrightarrow> bucket_start d (fst p) < start"
  shows "slot_sum b d log i start = 0"
proof -
  have "map (\<lambda>p. if slot_of b d (fst p) = i \<and> bucket_start d (fst p) = start then snd p else 0) log = map (\<lambda>p. 0) log"
    using assms by (intro map_cong) auto
  then show ?thesis unfolding slot_sum_def by (metis sum_list_0)
qed

lemma bump_tracks:
  assumes tr: "tracks b d ks log now0" and t: "now0 \<le> now" "0 \<le> now" and b: "0 < b" and d: "0 < d"
    and c: "cn_buckets c = b" "cn_bucketDur c = d"
  shows "\<exists>ks'. Counter_bump c ks now n = Some ks' \<and> tracks b d ks' (log @ [(now, n)]) now"
proof -
  let ?i = "slot_of b d now" and ?s = "bucket_start d now" and ?at = "ks_bucketAt ks"
  let ?base = "if ?at ! ?i \<noteq> ?s then 0 else ks_counts ks ! ?i"
  define ks' where "ks' = ks\<lparr>ks_bucketAt := ?at[?i := ?s], ks_counts := (ks_counts ks)[?i := wrap64 (?base + n)]\<rparr>"
  have tr': "tracks b d ks log now" by (rule tracks_later [OF tr t(1)])
  have len: "length (ks_counts ks) = nat b" "length ?at = nat b" using tr by (simp_all add: tracks_def)
  have i: "?i < nat b" by (rule slot_of_bound [OF b])
  have bump: "Counter_bump c ks now n = Some ks'"
  proof -
    have "\<not> b \<le> int ?i" using i by linarith
    moreover have "?at ! ?i = ?s \<Longrightarrow> ?at[?i := ?s] = ?at" by (metis list_update_id)
    ultimately show ?thesis
      using i len b by (simp add: Counter_bump_def bucketIndex_eq [OF c b d t(2)] ks'_def Let_def)
  qed
  obtain q where q: "?at ! ?i = q * d" "0 \<le> q" "q * d \<le> now" using tracks_bucketE [OF tr' i] .
  have "q \<le> now div d" using q(3) d by (simp add: zdiv_mono1 [of "q * d" now d, simplified])
  then have at_le: "?at ! ?i \<le> ?s" using d by (simp add: q(1) bucket_start_def)
  have fresh: "slot_sum b d log ?i ?s = 0" if "?at ! ?i \<noteq> ?s"
  proof (rule slot_sum_newer)
    fix p assume "p \<in> set log" "slot_of b d (fst p) = ?i"
    with tracks_entry [OF tr', of p] that at_le show "bucket_start d (fst p) < ?s" by simp
  qed
  have counts: "ks_counts ks' ! j = wrap64 (slot_sum b d (log @ [(now, n)]) j (ks_bucketAt ks' ! j))"
    if j: "j < nat b" for j
  proof (cases "j = ?i")
    case True
    have "?base = wrap64 (slot_sum b d log ?i ?s)"
      using fresh tr' i by (auto simp: tracks_def)
    with True i len show ?thesis by (simp add: ks'_def slot_sum_snoc)
  next
    case False
    with tr' j show ?thesis by (simp add: ks'_def slot_sum_snoc tracks_def)
  qed
  have entries: "0 \<le> fst p \<and> bucket_start d (fst p) \<le> ks_bucketAt ks' ! slot_of b d (fst p)"
    if "p \<in> set (log @ [(now, n)])" for p
  proof (cases "slot_of b d (fst p) = ?i")
    case True
    then have "ks_bucketAt ks' ! slot_of b d (fst p) = ?s" using i len by (simp add: ks'_def)
    moreover have "0 \<le> fst p \<and> bucket_start d (fst p) \<le> ?s"
    proof (cases "p \<in> set log")
      case True
      with tracks_entry [OF tr' this] \<open>slot_of b d (fst p) = ?i\<close> at_le show ?thesis by simp
    next
      case False
      with that t(2) show ?thesis by simp
    qed
    ultimately show ?thesis by simp
  next
    case False
    then have "p \<in> set log" using that by auto
    with tracks_entry [OF tr' this] False show ?thesis by (simp add: ks'_def)
  qed
  have buckets: "\<exists>q. ks_bucketAt ks' ! j = q * d \<and> 0 \<le> q \<and> q * d \<le> now \<and> (q = 0 \<or> nat (q mod b) = j)"
    if j: "j < nat b" for j
  proof (cases "j = ?i")
    case True
    have "now div d * d \<le> now" using d by (simp add: minus_mod_eq_div_mult [symmetric])
    with True i len t(2) d show ?thesis
      by (intro exI [of _ "now div d"])
        (simp add: ks'_def bucket_start_def slot_of_def pos_imp_zdiv_nonneg_iff)
  next
    case False
    then have "ks_bucketAt ks' ! j = ?at ! j" by (simp add: ks'_def)
    with tracks_bucketE [OF tr' j] show ?thesis by metis
  qed
  have "length (ks_counts ks') = nat b \<and> length (ks_bucketAt ks') = nat b"
    using len by (simp add: ks'_def)
  then have "tracks b d ks' (log @ [(now, n)]) now"
    using counts entries buckets unfolding tracks_def by blast
  with bump show ?thesis by blast
qed

section \<open>Runs of the in-memory counter\<close>

text \<open>A run of increments of one key, and a run of quota checks against one limit.\<close>

fun Counter_adds :: "(key \<Rightarrow> 64 word) \<Rightarrow> 's Counter \<Rightarrow> key \<Rightarrow> (time \<times> int) list \<Rightarrow> 's \<Rightarrow> 's Counter option" where
  "Counter_adds h c k [] s = Some c"
| "Counter_adds h c k (e # es) s =
     (case Counter_add h c (fst e) (fst e) k (snd e) s of
        None \<Rightarrow> None
      | Some (v, rep, c', s') \<Rightarrow> Counter_adds h c' k es s')"

fun Counter_allows :: "(key \<Rightarrow> 64 word) \<Rightarrow> 's Counter \<Rightarrow> key \<Rightarrow> int \<Rightarrow> (time \<times> int) list \<Rightarrow> 's \<Rightarrow> 's Counter option" where
  "Counter_allows h c k limit [] s = Some c"
| "Counter_allows h c k limit (e # es) s =
     (case Counter_Allow h c (fst e) (fst e) (fst e) k (snd e) limit s of
        None \<Rightarrow> None
      | Some (ok, rep, c', s') \<Rightarrow> Counter_allows h c' k limit es s')"

text \<open>Clock readings that never go back, from \<open>now\<close> on.\<close>

fun ascending :: "time \<Rightarrow> (time \<times> int) list \<Rightarrow> bool" where
  "ascending now [] = True"
| "ascending now (e # es) = (now \<le> fst e \<and> ascending (fst e) es)"

fun last_time :: "time \<Rightarrow> (time \<times> int) list \<Rightarrow> time" where
  "last_time now [] = now"
| "last_time now (e # es) = last_time (fst e) es"

definition ring_ok :: "int \<Rightarrow> duration \<Rightarrow> (key \<Rightarrow> 64 word) \<Rightarrow> 's Counter \<Rightarrow> key \<Rightarrow> (time \<times> int) list \<Rightarrow> time \<Rightarrow> bool" where
  "ring_ok b d h c k log now \<longleftrightarrow>
     cn_store c = None \<and> cn_buckets c = b \<and> cn_bucketDur c = d \<and> cn_window c = b * d
     \<and> shards_wf (cn_shards c) \<and> tracks b d (Counter_state h c k) log now"

lemma Counter_state_put [simp]:
  "shards_wf (cn_shards c) \<Longrightarrow> Counter_state h (c\<lparr>cn_shards := shard_put h (cn_shards c) k ks\<rparr>) k = ks"
  by (simp add: Counter_state_def sharded.mget_put)

lemma ring_ok_put:
  "ring_ok b d h c k log0 now0 \<Longrightarrow> tracks b d ks log now \<Longrightarrow>
     ring_ok b d h (c\<lparr>cn_shards := shard_put h (cn_shards c) k ks\<rparr>) k log now"
  by (simp add: ring_ok_def sharded.mwf_put)

lemma ring_ok_New:
  assumes "0 < b" "0 < d" "0 \<le> now"
  shows "ring_ok b d h (Counter_New (b * d) [WithBuckets b]) k [] now"
proof -
  have pos: "\<not> b * d \<le> 0" using assms by (simp add: not_le)
  have "go_div (b * d) b = d" using go_div_nonneg [of "b * d" b] assms pos by simp
  then have new: "Counter_New (b * d) [WithBuckets b] =
      \<lparr>cn_window = b * d, cn_buckets = b, cn_bucketDur = d, cn_gcInterval = max (b * d) second,
       cn_store = None, cn_onStoreErr = False, cn_shards = shards_init, cn_stopped = False\<rparr>"
    using assms(1) pos by (simp add: Counter_New_def Let_def max_def)
  show ?thesis
    using tracks_new [OF assms(1,3), of d 0] by (simp add: ring_ok_def new Counter_state_def)
qed

lemma ring_ok_sum:
  assumes "ring_ok b d h c k log now0" "now0 \<le> now" "0 < b" "0 < d" "in_i64 (now - b * d)"
  shows "Counter_sumLocked c (Counter_state h c k) now = wrap64 (window_sum (b * d) d now log)"
  using assms sumLocked_window tracks_later unfolding ring_ok_def by blast

lemma ring_ok_add:
  assumes ok: "ring_ok b d h c k log now0" and t: "now0 \<le> now" "0 \<le> now" and b: "0 < b" and d: "0 < d"
  shows "\<exists>v c'. Counter_add h c now t1 k n s = Some (v, [], c', s) \<and> ring_ok b d h c' k (log @ [(now, n)]) now"
proof -
  have "tracks b d ((Counter_state h c k)\<lparr>ks_lastSeen := now\<rparr>) log now0" using ok by (simp add: ring_ok_def)
  then obtain ks where "Counter_bump c ((Counter_state h c k)\<lparr>ks_lastSeen := now\<rparr>) now n = Some ks"
    and tr: "tracks b d ks (log @ [(now, n)]) now"
    using bump_tracks [OF _ t b d] ok unfolding ring_ok_def by blast
  then show ?thesis
    using ok ring_ok_put [OF ok tr] by (simp add: Counter_add_def ring_ok_def)
qed

lemma ring_ok_adds:
  assumes "ring_ok b d h c k log now0" "0 \<le> now0" "0 < b" "0 < d" "ascending now0 es"
  shows "\<exists>c'. Counter_adds h c k es s = Some c' \<and> ring_ok b d h c' k (log @ es) (last_time now0 es)"
  using assms(1,2,5)
proof (induction es arbitrary: c log now0)
  case Nil
  then show ?case by simp
next
  case (Cons e es)
  obtain v c' where add: "Counter_add h c (fst e) (fst e) k (snd e) s = Some (v, [], c', s)"
    and ok: "ring_ok b d h c' k (log @ [e]) (fst e)"
    using ring_ok_add [OF Cons.prems(1), of "fst e"] Cons.prems(2,3) assms(3,4) by force
  show ?case using Cons.IH [OF ok] Cons.prems(2,3) add by simp
qed

lemma sumLocked_new_state:
  "shard_get h (cn_shards c) k = None \<Longrightarrow> Counter_sumLocked c (Counter_state h c k) now = 0"
  using foldl_wrap64_sum [of "\<lambda>p. wrap64 (now - cn_window c) < fst p" snd 0
      "replicate (nat (cn_buckets c)) (0, 0)"]
  by (simp add: Counter_sumLocked_def Counter_state_def zip_replicate map_replicate sum_list_replicate cong: if_cong)

lemma ring_ok_Count:
  assumes "ring_ok b d h c k log now0" "now0 \<le> now" "0 < b" "0 < d" "in_i64 (now - b * d)"
  shows "Counter_Count h c now t1 k s = (wrap64 (window_sum (b * d) d now log), [])"
proof (cases "shard_get h (cn_shards c) k")
  case None
  with ring_ok_sum [OF assms] sumLocked_new_state [of h c k now] assms(1) show ?thesis
    by (simp add: Counter_Count_def ring_ok_def)
next
  case (Some ks)
  with ring_ok_sum [OF assms] assms(1) show ?thesis
    by (simp add: Counter_Count_def ring_ok_def Counter_state_def)
qed

text \<open>The sliding window is exact up to the length of a bucket: after any run of increments with a clock
  that does not go back, \<open>Count\<close> is the sum of the increments whose bucket starts inside the window,
  whenever the window is a whole number of buckets; no call of the run panics.\<close>

theorem Counter_count_window:
  fixes h :: "key \<Rightarrow> 64 word"
  assumes "0 < b" and "0 < d" and "b * d < 2 ^ 63" and "0 \<le> t0" and "ascending t0 es"
    and "last_time t0 es \<le> now" and "now < 2 ^ 63"
  shows "\<exists>c. Counter_adds h (Counter_New (b * d) [WithBuckets b]) k es s = Some c
    \<and> Counter_Count h c now t1 k s = (wrap64 (window_sum (b * d) d now es), [])"
proof -
  have mono: "t0 \<le> last_time t0 es" if "ascending t0 es" for t0
    using that by (induction es arbitrary: t0) (auto intro: order_trans)
  obtain c where run: "Counter_adds h (Counter_New (b * d) [WithBuckets b]) k es s = Some c"
    and ok: "ring_ok b d h c k es (last_time t0 es)"
    using ring_ok_adds [OF ring_ok_New [OF assms(1,2,4)] assms(4,1,2,5), where s = s] by auto
  have "0 < b * d" using assms(1,2) by simp
  then have "in_i64 (now - b * d)"
    using mono [OF assms(5)] assms(3,4,6,7) by (simp add: in_i64_def)
  with run ring_ok_Count [OF ok assms(6,1,2)] show ?thesis by blast
qed

theorem Counter_count_window_witness:
  "\<exists>c. Counter_adds (\<lambda>_. 7) (Counter_New (10 * 10) [WithBuckets 10]) ''k'' [(5, 2), (57, 3), (61, 4)] () = Some c
    \<and> Counter_Count (\<lambda>_. 7) c 108 0 ''k'' () = (7, [])"
  using Counter_count_window [of 10 10 0 "[(5, 2), (57, 3), (61, 4)]" 108 "\<lambda>_. 7" "''k''" "()" 0]
  by (simp add: window_sum_def bucket_start_def in_i64_def)

section \<open>The quota of the in-memory counter\<close>

lemma window_sum_snoc:
  "window_sum w d now (log @ [(t, n)]) = window_sum w d now log + (if now - w < bucket_start d t then n else 0)"
  by (simp add: window_sum_def)

lemma window_sum_later:
  "now \<le> now' \<Longrightarrow> \<forall>p\<in>set log. 0 \<le> snd p \<Longrightarrow> window_sum w d now' log \<le> window_sum w d now log"
  unfolding window_sum_def by (intro sum_list_mono) auto

lemma window_sum_bounds:
  "\<forall>p\<in>set log. 0 \<le> snd p \<Longrightarrow> 0 \<le> window_sum w d now log \<and> window_sum w d now log \<le> (\<Sum>p\<leftarrow>log. snd p)"
  by (induction log) (auto simp: window_sum_def)

text \<open>What a run of quota checks keeps: the admitted increments, and that they fit the limit.\<close>

definition quota_ok :: "int \<Rightarrow> duration \<Rightarrow> (key \<Rightarrow> 64 word) \<Rightarrow> int \<Rightarrow> int \<Rightarrow> 's Counter \<Rightarrow> key \<Rightarrow> (time \<times> int) list \<Rightarrow> time \<Rightarrow> bool" where
  "quota_ok b d h limit amt c k log now \<longleftrightarrow>
     ring_ok b d h c k log now \<and> (\<forall>p\<in>set log. 0 \<le> snd p)
     \<and> window_sum (b * d) d now log \<le> max 0 limit \<and> (\<Sum>p\<leftarrow>log. snd p) \<le> amt"

lemma quota_ok_allow:
  assumes q: "quota_ok b d h limit amt c k log now0" and t: "now0 \<le> now" "0 \<le> now" "in_i64 (now - b * d)"
    and b: "0 < b" and d: "0 < d" and n: "0 \<le> n" "amt + n < 2 ^ 63"
  shows "\<exists>ok c' log'. Counter_Allow h c now t1 t2 k n limit s = Some (ok, [], c', s)
    \<and> quota_ok b d h limit (amt + n) c' k log' now"
proof -
  let ?ks = "(Counter_state h c k)\<lparr>ks_lastSeen := now\<rparr>" and ?w = "window_sum (b * d) d now log"
  have ring: "ring_ok b d h c k log now0" and pos: "\<forall>p\<in>set log. 0 \<le> snd p"
    and tot: "(\<Sum>p\<leftarrow>log. snd p) \<le> amt" using q by (auto simp: quota_ok_def)
  have w: "0 \<le> ?w" "?w \<le> amt" "?w \<le> max 0 limit"
    using window_sum_bounds [OF pos] window_sum_later [OF t(1) pos, of "b * d" d] tot q
    by (auto simp: quota_ok_def intro: order_trans)
  have "Counter_sumLocked c ?ks now = ?w"
    using ring_ok_sum [OF ring t(1) b d t(3)] w n by (simp add: Counter_sumLocked_def in_i64_def)
  then have sum: "wrap64 (Counter_sumLocked c ?ks now + n) = ?w + n" using w n by (simp add: in_i64_def)
  have tr: "tracks b d ?ks log now" using ring tracks_later [OF _ t(1)] by (simp add: ring_ok_def)
  show ?thesis
  proof (cases "limit < ?w + n")
    case True
    with ring sum ring_ok_put [OF ring tr] pos w tot n show ?thesis
      by (intro exI [of _ False] exI [of _ "c\<lparr>cn_shards := shard_put h (cn_shards c) k ?ks\<rparr>"] exI [of _ log])
        (simp add: Counter_Allow_def ring_ok_def quota_ok_def Let_def)
  next
    case False
    obtain ks' where bump: "Counter_bump c ?ks now n = Some ks'" and tr': "tracks b d ks' (log @ [(now, n)]) now"
      using bump_tracks [OF tr order_refl t(2) b d] ring unfolding ring_ok_def by blast
    with False ring sum ring_ok_put [OF ring tr'] pos w tot n show ?thesis
      by (intro exI [of _ True] exI [of _ "c\<lparr>cn_shards := shard_put h (cn_shards c) k ks'\<rparr>"]
            exI [of _ "log @ [(now, n)]"])
        (auto simp: Counter_Allow_def ring_ok_def quota_ok_def Let_def window_sum_snoc)
  qed
qed

lemma quota_ok_allows:
  assumes "quota_ok b d h limit amt c k log now0" "0 \<le> now0" "0 < b" "0 < d" "b * d < 2 ^ 63"
    and "ascending now0 es" "\<forall>e\<in>set es. 0 \<le> snd e \<and> fst e < 2 ^ 63" "amt + (\<Sum>e\<leftarrow>es. snd e) < 2 ^ 63"
  shows "\<exists>c' log' amt'. Counter_allows h c k limit es s = Some c'
    \<and> quota_ok b d h limit amt' c' k log' (last_time now0 es) \<and> amt' < 2 ^ 63"
  using assms(1,2,6-8)
proof (induction es arbitrary: c log now0 amt)
  case Nil
  then show ?case by auto
next
  case (Cons e es)
  have t: "now0 \<le> fst e" "0 \<le> fst e" "fst e < 2 ^ 63" "0 \<le> snd e" using Cons.prems by auto
  have "0 < b * d" using assms(3,4) by simp
  then have "in_i64 (fst e - b * d)" using t assms(5) by (simp add: in_i64_def)
  moreover have "0 \<le> (\<Sum>e\<leftarrow>es. snd e)" using Cons.prems(4) by (intro sum_list_nonneg) auto
  ultimately obtain ok c' log' where step: "Counter_Allow h c (fst e) (fst e) (fst e) k (snd e) limit s = Some (ok, [], c', s)"
    and q: "quota_ok b d h limit (amt + snd e) c' k log' (fst e)"
    using quota_ok_allow [OF Cons.prems(1) t(1,2) _ assms(3,4) t(4), of "fst e" "fst e" s] Cons.prems(5) by auto
  then show ?case using Cons.IH [OF q t(2)] Cons.prems(3-5) by (simp add: add.assoc)
qed



section \<open>The quota across processes that share a store\<close>

text \<open>
  Several processes call \<open>Allow\<close> for one key in one window. The state is the store, its clock, the amount
  admitted so far and the amounts of the rejected calls that still have to be taken back. A step is one
  half of a call whose store operation succeeds; a call whose first operation fails is let through by
  \<open>Allow\<close> without being counted and is not a step.
\<close>

record 's quota =
  q_store :: 's
  q_clock :: time
  q_admitted :: int
  q_over :: "int multiset"

definition in_window :: "'s Counter \<Rightarrow> int \<Rightarrow> time \<Rightarrow> bool" where
  "in_window c w t \<longleftrightarrow> w * cn_window c \<le> t \<and> t < (w + 1) * cn_window c"

inductive quota_step :: "'s Counter \<Rightarrow> 's kv_ops \<Rightarrow> key \<Rightarrow> int \<Rightarrow> int \<Rightarrow> 's quota \<Rightarrow> 's quota \<Rightarrow> bool"
  for c :: "'s Counter" and ops :: "'s kv_ops" and k :: key and limit :: int and w :: int where
  admit: "\<lbrakk>in_window c w now; in_window c w t; q_clock q \<le> t; 0 \<le> n;
      q_admitted q + sum_mset (q_over q) + n < 2 ^ 63;
      fst (Store_Incr ops t (Counter_storeKey c k now) n (cn_window c) (q_store q)) = Inr v;
      Counter_allow_incr c ops now t k n limit (q_store q) = ((True, over, rep), st)\<rbrakk>
    \<Longrightarrow> quota_step c ops k limit w q (q\<lparr>q_store := st, q_clock := t, q_admitted := q_admitted q + n\<rparr>)"
| reject: "\<lbrakk>in_window c w now; in_window c w t; q_clock q \<le> t; 0 \<le> n;
      q_admitted q + sum_mset (q_over q) + n < 2 ^ 63;
      fst (Store_Incr ops t (Counter_storeKey c k now) n (cn_window c) (q_store q)) = Inr v;
      Counter_allow_incr c ops now t k n limit (q_store q) = ((False, over, rep), st)\<rbrakk>
    \<Longrightarrow> quota_step c ops k limit w q (q\<lparr>q_store := st, q_clock := t, q_over := add_mset n (q_over q)\<rparr>)"
| rollback: "\<lbrakk>in_window c w now; in_window c w t; q_clock q \<le> t; n \<in># q_over q;
      fst (Store_Incr ops t (Counter_storeKey c k now) (wrap64 (- n)) (cn_window c) (q_store q)) = Inr v;
      Counter_allow_rollback c ops now t k n (q_store q) = (rep, st)\<rbrakk>
    \<Longrightarrow> quota_step c ops k limit w q (q\<lparr>q_store := st, q_clock := t, q_over := q_over q - {#n#}\<rparr>)"

text \<open>The store key of a key and a window.\<close>

definition window_key :: "key \<Rightarrow> int \<Rightarrow> key" where
  "window_key k w = ''cnt:'' @ k @ '':'' @ FormatInt w"

lemma storeKey_window: "0 \<le> w \<Longrightarrow> 0 < cn_window c \<Longrightarrow> in_window c w now \<Longrightarrow> Counter_storeKey c k now = window_key k w"
proof -
  assume w: "0 \<le> w" "0 < cn_window c" "in_window c w now"
  then have "0 \<le> w * cn_window c" by simp
  then have "0 \<le> now" using w(3) unfolding in_window_def by linarith
  moreover have "now div cn_window c = w"
    using w by (intro int_div_pos_eq [where r = "now - w * cn_window c"])
      (simp_all add: in_window_def algebra_simps)
  ultimately show ?thesis using w(2) by (simp add: Counter_storeKey_def window_key_def go_div_nonneg)
qed

lemma window_key_inj: "window_key k w = window_key k' w' \<Longrightarrow> k = k' \<and> w = w'"
  using sep_append_inj [of "''cnt:'' @ k" "CHR '':''" "FormatInt w" "''cnt:'' @ k'" "FormatInt w'"]
    FormatInt_no_colon FormatInt_inj by (auto simp: window_key_def)

context kv_store
begin

text \<open>The stored number is what was admitted plus what has still to be taken back, and it lives to the window's end.\<close>

definition quota_inv :: "'s Counter \<Rightarrow> key \<Rightarrow> int \<Rightarrow> int \<Rightarrow> 's quota \<Rightarrow> bool" where
  "quota_inv c k limit w q \<longleftrightarrow>
     invar (q_store q) \<and> in_window c w (q_clock q)
     \<and> (case cell (q_store q) (q_clock q) (window_key k w) of
          None \<Rightarrow> q_admitted q + sum_mset (q_over q) = 0
        | Some x \<Rightarrow> cell_num x = q_admitted q + sum_mset (q_over q) \<and> (\<forall>t. t < (w + 1) * cn_window c \<longrightarrow> live_cell x t))
     \<and> 0 \<le> q_admitted q \<and> (\<forall>n\<in>#q_over q. 0 \<le> n) \<and> q_admitted q + sum_mset (q_over q) < 2 ^ 63
     \<and> q_admitted q \<le> max 0 limit"

lemma sum_mset_nonneg: "\<forall>n\<in>#M. 0 \<le> (n::int) \<Longrightarrow> 0 \<le> sum_mset M"
  by (induction M) auto

lemma quota_incr:
  assumes inv: "quota_inv c k limit w q" and w: "0 \<le> w" "0 < cn_window c" "(w + 2) * cn_window c < 2 ^ 63"
    and t: "in_window c w t" "q_clock q \<le> t" "0 < t"
    and incr: "Store_Incr ops t (window_key k w) d (cn_window c) (q_store q) = (Inr v, st)"
    and d: "in_i64 (q_admitted q + sum_mset (q_over q) + d)"
  shows "invar st \<and> v = q_admitted q + sum_mset (q_over q) + d
    \<and> (\<exists>x. cell st t (window_key k w) = Some x \<and> cell_num x = v \<and> (\<forall>t'. t' < (w + 1) * cn_window c \<longrightarrow> live_cell x t'))"
proof -
  let ?k = "window_key k w" and ?N = "q_admitted q + sum_mset (q_over q)"
  have inv_st: "invar (q_store q)" using inv by (simp add: quota_inv_def)
  have clk: "clock_ok t (cn_window c)"
    using t w by (simp add: clock_ok_def in_window_def algebra_simps)
  have cell_t: "cell (q_store q) t ?k = cell (q_store q) (q_clock q) ?k"
    using cell_later [OF inv_st t(2), of ?k] inv t(1)
    by (auto simp: quota_inv_def in_window_def split: option.splits)
  define x where "x = incr_cell (cell (q_store q) t ?k) t (cn_window c) d"
  have "invar st" "v = cell_num x" "cell st t ?k = Some x"
    using incr_ok [OF inv_st clk incr] by (simp_all add: x_def)
  moreover have "cell_num x = ?N + d"
    using inv d by (auto simp: x_def cell_t incr_cell_num quota_inv_def split: option.splits)
  moreover have "live_cell x t'" if "t' < (w + 1) * cn_window c" for t'
    using inv that t(1) w(2)
    by (auto simp: x_def cell_t incr_cell_live quota_inv_def in_window_def algebra_simps split: option.splits)
  ultimately show ?thesis by simp
qed

lemma quota_step_inv:
  assumes step: "quota_step c ops k limit w q q'" and inv: "quota_inv c k limit w q"
    and w: "0 \<le> w" "0 < cn_window c" "(w + 2) * cn_window c < 2 ^ 63" and clk: "0 < q_clock q"
  shows "quota_inv c k limit w q' \<and> q_clock q \<le> q_clock q'"
  using step
proof cases
  case (admit now t n v over rep st)
  have key: "Counter_storeKey c k now = window_key k w" by (rule storeKey_window [OF w(1,2) admit(2)])
  obtain st' where incr: "Store_Incr ops t (window_key k w) n (cn_window c) (q_store q) = (Inr v, st')"
    using admit(7) key by (metis prod.collapse)
  have st: "st' = st" "v \<le> limit" using admit(8) incr key by (auto simp: Counter_allow_incr_def)
  have N: "0 \<le> sum_mset (q_over q)" "0 \<le> q_admitted q" using inv sum_mset_nonneg by (auto simp: quota_inv_def)
  have "in_i64 (q_admitted q + sum_mset (q_over q) + n)" using N admit(5,6) by (simp add: in_i64_def)
  from quota_incr [OF inv w admit(3,4) _ incr this] clk admit(4) st
  obtain x where x: "invar st" "v = q_admitted q + sum_mset (q_over q) + n"
    "cell st t (window_key k w) = Some x" "cell_num x = v" "\<forall>t'. t' < (w + 1) * cn_window c \<longrightarrow> live_cell x t'"
    by auto
  then show ?thesis using admit(1,3-6) N st(2) inv by (auto simp: quota_inv_def)
next
  case (reject now t n v over rep st)
  have key: "Counter_storeKey c k now = window_key k w" by (rule storeKey_window [OF w(1,2) reject(2)])
  obtain st' where incr: "Store_Incr ops t (window_key k w) n (cn_window c) (q_store q) = (Inr v, st')"
    using reject(7) key by (metis prod.collapse)
  have st: "st' = st" using reject(8) incr key by (auto simp: Counter_allow_incr_def)
  have N: "0 \<le> sum_mset (q_over q)" "0 \<le> q_admitted q" using inv sum_mset_nonneg by (auto simp: quota_inv_def)
  have "in_i64 (q_admitted q + sum_mset (q_over q) + n)" using N reject(5,6) by (simp add: in_i64_def)
  from quota_incr [OF inv w reject(3,4) _ incr this] clk reject(4) st
  obtain x where x: "invar st" "v = q_admitted q + sum_mset (q_over q) + n"
    "cell st t (window_key k w) = Some x" "cell_num x = v" "\<forall>t'. t' < (w + 1) * cn_window c \<longrightarrow> live_cell x t'"
    by auto
  then show ?thesis using reject(1,3-6) N inv by (auto simp: quota_inv_def)
next
  case (rollback now t n v rep st)
  have key: "Counter_storeKey c k now = window_key k w" by (rule storeKey_window [OF w(1,2) rollback(2)])
  obtain M where M: "q_over q = add_mset n M" using rollback(5) by (blast dest: multi_member_split)
  have pos: "0 \<le> n" "0 \<le> sum_mset M" "0 \<le> q_admitted q" "q_admitted q + (n + sum_mset M) < 2 ^ 63"
    using inv M sum_mset_nonneg [of M] by (auto simp: quota_inv_def)
  then have neg: "wrap64 (- n) = - n" by (simp add: in_i64_def)
  obtain st' where incr: "Store_Incr ops t (window_key k w) (- n) (cn_window c) (q_store q) = (Inr v, st')"
    using rollback(6) key neg by (metis prod.collapse)
  have st: "st' = st" using rollback(7) incr key neg by (auto simp: Counter_allow_rollback_def)
  have "in_i64 (q_admitted q + sum_mset (q_over q) + - n)" using pos M by (simp add: in_i64_def)
  from quota_incr [OF inv w rollback(3,4) _ incr this] clk rollback(4) st
  obtain x where x: "invar st" "v = q_admitted q + sum_mset (q_over q) + - n"
    "cell st t (window_key k w) = Some x" "cell_num x = v" "\<forall>t'. t' < (w + 1) * cn_window c \<longrightarrow> live_cell x t'"
    by auto
  then show ?thesis using rollback(1,3,4) M pos inv by (auto simp: quota_inv_def)
qed

lemma quota_reach_inv:
  assumes "rtranclp (quota_step c ops k limit w) q q'" "quota_inv c k limit w q" "0 < q_clock q"
    and w: "0 \<le> w" "0 < cn_window c" "(w + 2) * cn_window c < 2 ^ 63"
  shows "quota_inv c k limit w q' \<and> 0 < q_clock q'"
  using assms(1-3)
proof (induction rule: rtranclp_induct)
  case (step y z)
  then show ?case using quota_step_inv [OF step(2) _ w] by fastforce
qed simp

end

text \<open>Across any number of processes that share the in-memory store, whatever the interleaving of their
  increments and of the roll-backs of rejected calls, the amount admitted for a key in a window never
  exceeds the limit; and when no roll-back is outstanding the stored count is exactly the amount admitted.\<close>

theorem Counter_quota_shared:
  assumes "rtranclp (quota_step c Memory_ops k limit w) q q'" and "0 \<le> w" and "0 < cn_window c"
    and "(w + 2) * cn_window c < 2 ^ 63" and "Memory_inv (q_store q)" and "in_window c w (q_clock q)"
    and "0 < q_clock q" and "Memory_cell (q_store q) (q_clock q) (window_key k w) = None"
    and "q_admitted q = 0" and "q_over q = {#}"
  shows "q_admitted q' \<le> max 0 limit
    \<and> (q_over q' = {#} \<longrightarrow> q_admitted q' = (case Memory_cell (q_store q') (q_clock q') (window_key k w) of
          None \<Rightarrow> 0 | Some x \<Rightarrow> cell_num x))"
proof -
  have "mem.quota_inv c k limit w q" using assms by (simp add: mem.quota_inv_def)
  from mem.quota_reach_inv [OF assms(1) this assms(7,2-4)] have "mem.quota_inv c k limit w q'" by simp
  then show ?thesis by (auto simp: mem.quota_inv_def split: option.splits)
qed

text \<open>Two calls of one unit each against a limit of one: the second is rejected and its increment is outstanding.\<close>

theorem Counter_quota_shared_witness:
  "\<exists>q'. rtranclp (quota_step (Counter_New 100 [WithStore Memory_ops]) Memory_ops ''k'' 1 1)
        \<lparr>q_store = NewMemory, q_clock = 100, q_admitted = 0, q_over = {#}\<rparr> q'
      \<and> q_admitted q' = 1 \<and> q_over q' = {#1#} \<and> q_admitted q' \<le> max 0 1"
proof -
  let ?c = "Counter_New 100 [WithStore Memory_ops]"
  let ?q0 = "\<lparr>q_store = NewMemory, q_clock = 100, q_admitted = 0, q_over = {#}\<rparr>"
  define m1 where "m1 = snd (Memory_Incr 110 (window_key ''k'' 1) 1 100 NewMemory)"
  define m2 where "m2 = snd (Memory_Incr 120 (window_key ''k'' 1) 1 100 m1)"
  let ?q1 = "?q0\<lparr>q_store := m1, q_clock := 110, q_admitted := q_admitted ?q0 + 1\<rparr>"
  let ?q2 = "?q1\<lparr>q_store := m2, q_clock := 120, q_over := add_mset 1 (q_over ?q1)\<rparr>"
  have w: "cn_window ?c = 100" by (simp add: Counter_New_def)
  have iw: "in_window ?c 1 110" "in_window ?c 1 120" "in_window ?c 1 100" by (simp_all add: in_window_def w)
  have key: "Counter_storeKey ?c ''k'' 110 = window_key ''k'' 1" "Counter_storeKey ?c ''k'' 120 = window_key ''k'' 1"
    using storeKey_window [of 1 ?c] iw by (simp_all add: w)
  have incr: "Store_Incr Memory_ops = Memory_Incr" by (simp add: Memory_ops_def)
  have i1: "Memory_Incr 110 (window_key ''k'' 1) 1 100 NewMemory = (Inr 1, m1)"
    by (simp add: m1_def Memory_Incr_def NewMemory_def in_i64_def)
  have i2: "Memory_Incr 120 (window_key ''k'' 1) 1 100 m1 = (Inr 2, m2)"
    by (simp add: m2_def m1_def Memory_Incr_def NewMemory_def Memory_alive_def kv_expiry_of_def in_i64_def)
  have s1: "quota_step ?c Memory_ops ''k'' 1 1 ?q0 ?q1"
    by (rule admit [where now = 110 and v = 1 and over = False and rep = "[]"])
      (simp_all add: iw i1 key w incr Counter_allow_incr_def)
  have s2: "quota_step ?c Memory_ops ''k'' 1 1 ?q1 ?q2"
    by (rule reject [where now = 120 and v = 2 and over = True and rep = "[]"])
      (simp_all add: iw i2 key w incr Counter_allow_incr_def)
  have run: "rtranclp (quota_step ?c Memory_ops ''k'' 1 1) ?q0 ?q2"
  proof -
    define R where "R = quota_step ?c Memory_ops ''k'' 1 1"
    have "R ?q0 ?q1" "R ?q1 ?q2" using s1 s2 by (simp_all only: R_def)
    then have "rtranclp R ?q0 ?q2" by (rule converse_rtranclp_into_rtranclp [OF _ r_into_rtranclp])
    then show ?thesis by (simp only: R_def)
  qed
  have init: "Memory_inv (q_store ?q0)" "Memory_cell (q_store ?q0) (q_clock ?q0) (window_key ''k'' 1) = None"
    "in_window ?c 1 (q_clock ?q0)"
    by (simp_all add: Memory_inv_def NewMemory_def Memory_cell_def in_window_def w)
  have "q_admitted ?q2 \<le> max 0 1"
    by (rule Counter_quota_shared [THEN conjunct1, OF run _ _ _ init(1,3) _ init(2)]) (simp_all add: w)
  with run show ?thesis by (intro exI [where x = ?q2]) simp
qed

end
