(* ===== verification/Cooldown.thy ===== *)
theory Cooldown
  imports KVStore
begin

text \<open>
  \<open>pkg/resilience/cooldown\<close>: the earliest instant at which a key may be triggered again. Without a store
  the instants are kept in sharded maps; with a store a key with a time to live stands for "cooling
  down". The theory proves the minimal distance between two successful triggers and that the two modes
  cannot be told apart by a client.
\<close>

section \<open>The cooldown manager\<close>

record 's cooldown_config =
  dc_defaultCD :: duration
  dc_gcInterval :: duration
  dc_store :: "'s kv_ops option"
  dc_onStoreErr :: bool

datatype 's cooldown_option =
    Cooldown_WithGCInterval duration
  | Cooldown_WithStore "'s kv_ops"
  | Cooldown_WithOnStoreError

record 's Cooldown =
  cd_defaultCD :: duration
  cd_gcInterval :: duration
  cd_store :: "'s kv_ops option"
  cd_onStoreErr :: bool
  cd_shards :: "time shards"
  cd_stopped :: bool

fun cooldown_apply :: "'s cooldown_option \<Rightarrow> 's cooldown_config \<Rightarrow> 's cooldown_config" where
  "cooldown_apply (Cooldown_WithGCInterval d) c = c\<lparr>dc_gcInterval := d\<rparr>"
| "cooldown_apply (Cooldown_WithStore st) c = c\<lparr>dc_store := Some st\<rparr>"
| "cooldown_apply Cooldown_WithOnStoreError c = c\<lparr>dc_onStoreErr := True\<rparr>"

definition Cooldown_New :: "duration \<Rightarrow> 's cooldown_option list \<Rightarrow> 's Cooldown" where
  "Cooldown_New defaultCD opts =
     (let cfg0 = \<lparr>dc_defaultCD = defaultCD, dc_gcInterval = 60 * second, dc_store = None, dc_onStoreErr = False\<rparr>;
          cfg = fold cooldown_apply opts cfg0
      in \<lparr>cd_defaultCD = defaultCD,
          cd_gcInterval = (if dc_gcInterval cfg \<le> 0 then 60 * second else dc_gcInterval cfg),
          cd_store = dc_store cfg, cd_onStoreErr = dc_onStoreErr cfg,
          cd_shards = (if dc_store cfg = None then shards_init else []), cd_stopped = False\<rparr>)"

definition Cooldown_storeKey :: "key \<Rightarrow> key" where
  "Cooldown_storeKey k = ''cd:'' @ k"

definition Cooldown_reportErr :: "'s Cooldown \<Rightarrow> string \<Rightarrow> key \<Rightarrow> err \<Rightarrow> report list" where
  "Cooldown_reportErr c op k e = (if cd_onStoreErr c then [(op, k, e)] else [])"

text \<open>The value \<open>s.until[key]\<close> of the key's shard; a missing key reads as zero.\<close>

definition cd_until :: "(key \<Rightarrow> 64 word) \<Rightarrow> 's Cooldown \<Rightarrow> key \<Rightarrow> time" where
  "cd_until h c k = (case shard_get h (cd_shards c) k of None \<Rightarrow> 0 | Some u \<Rightarrow> u)"

definition Cooldown_Ready :: "(key \<Rightarrow> 64 word) \<Rightarrow> 's Cooldown \<Rightarrow> time \<Rightarrow> key \<Rightarrow> 's \<Rightarrow> bool \<times> report list" where
  "Cooldown_Ready h c now k s =
     (case cd_store c of
        Some ops \<Rightarrow>
          (case Store_TTL ops now (Cooldown_storeKey k) s of
             Inl e \<Rightarrow> (True, Cooldown_reportErr c ''ttl'' k e)
           | Inr r \<Rightarrow> (r = None, []))
      | None \<Rightarrow> (cd_until h c k \<le> now, []))"

definition Cooldown_Remaining :: "(key \<Rightarrow> 64 word) \<Rightarrow> 's Cooldown \<Rightarrow> time \<Rightarrow> key \<Rightarrow> 's \<Rightarrow> duration \<times> report list" where
  "Cooldown_Remaining h c now k s =
     (case cd_store c of
        Some ops \<Rightarrow>
          (case Store_TTL ops now (Cooldown_storeKey k) s of
             Inl e \<Rightarrow> (0, Cooldown_reportErr c ''ttl'' k e)
           | Inr None \<Rightarrow> (0, [])
           | Inr (Some ttl) \<Rightarrow> (if ttl < 0 then 0 else ttl, []))
      | None \<Rightarrow>
          (let rem = wrap64 (cd_until h c k - now) in (if rem \<le> 0 then 0 else rem, [])))"

definition Cooldown_Reset :: "(key \<Rightarrow> 64 word) \<Rightarrow> 's Cooldown \<Rightarrow> time \<Rightarrow> key \<Rightarrow> 's \<Rightarrow> report list \<times> 's Cooldown \<times> 's" where
  "Cooldown_Reset h c now k s =
     (case cd_store c of
        Some ops \<Rightarrow>
          (case Store_Delete ops now (Cooldown_storeKey k) s of
             (Inl e, s') \<Rightarrow> (Cooldown_reportErr c ''delete'' k e, c, s')
           | (Inr u, s') \<Rightarrow> ([], c, s'))
      | None \<Rightarrow> ([], c\<lparr>cd_shards := shard_del h (cd_shards c) k\<rparr>, s))"

definition Cooldown_TriggerFor :: "(key \<Rightarrow> 64 word) \<Rightarrow> 's Cooldown \<Rightarrow> time \<Rightarrow> key \<Rightarrow> duration \<Rightarrow> 's
    \<Rightarrow> report list \<times> 's Cooldown \<times> 's" where
  "Cooldown_TriggerFor h c now k cd s =
     (case cd_store c of
        Some ops \<Rightarrow>
          if cd \<le> 0 then Cooldown_Reset h c now k s
          else (case Store_Set ops now (Cooldown_storeKey k) [CHR 0x01] cd s of
                  (Inl e, s') \<Rightarrow> (Cooldown_reportErr c ''set'' k e, c, s')
                | (Inr u, s') \<Rightarrow> ([], c, s'))
      | None \<Rightarrow> ([], c\<lparr>cd_shards := shard_put h (cd_shards c) k (wrap64 (now + cd))\<rparr>, s))"

definition Cooldown_Trigger :: "(key \<Rightarrow> 64 word) \<Rightarrow> 's Cooldown \<Rightarrow> time \<Rightarrow> key \<Rightarrow> 's \<Rightarrow> report list \<times> 's Cooldown \<times> 's" where
  "Cooldown_Trigger h c now k s = Cooldown_TriggerFor h c now k (cd_defaultCD c) s"

text \<open>In memory mode the clock is read twice: \<open>now\<close> for the test and \<open>now2\<close> for the new instant.\<close>

definition Cooldown_TryTriggerFor :: "(key \<Rightarrow> 64 word) \<Rightarrow> 's Cooldown \<Rightarrow> time \<Rightarrow> time \<Rightarrow> key \<Rightarrow> duration \<Rightarrow> 's
    \<Rightarrow> bool \<times> report list \<times> 's Cooldown \<times> 's" where
  "Cooldown_TryTriggerFor h c now now2 k cd s =
     (case cd_store c of
        Some ops \<Rightarrow>
          if cd \<le> 0 then (True, [], c, s)
          else (case Store_SetNX ops now (Cooldown_storeKey k) [CHR 0x01] cd s of
                  (Inl e, s') \<Rightarrow> (True, Cooldown_reportErr c ''setnx'' k e, c, s')
                | (Inr ok, s') \<Rightarrow> (ok, [], c, s'))
      | None \<Rightarrow>
          if now < cd_until h c k then (False, [], c, s)
          else (True, [], c\<lparr>cd_shards := shard_put h (cd_shards c) k (wrap64 (now2 + cd))\<rparr>, s))"

definition Cooldown_TryTrigger :: "(key \<Rightarrow> 64 word) \<Rightarrow> 's Cooldown \<Rightarrow> time \<Rightarrow> time \<Rightarrow> key \<Rightarrow> 's
    \<Rightarrow> bool \<times> report list \<times> 's Cooldown \<times> 's" where
  "Cooldown_TryTrigger h c now now2 k s = Cooldown_TryTriggerFor h c now now2 k (cd_defaultCD c) s"

definition Cooldown_Stop :: "'s Cooldown \<Rightarrow> 's Cooldown" where
  "Cooldown_Stop c = c\<lparr>cd_stopped := True\<rparr>"

text \<open>One tick of the sweeper, which runs in memory mode until \<open>Stop\<close>.\<close>

definition Cooldown_gc :: "time \<Rightarrow> 's Cooldown \<Rightarrow> 's Cooldown" where
  "Cooldown_gc now c =
     (if cd_stopped c \<or> cd_store c \<noteq> None then c
      else c\<lparr>cd_shards := map (\<lambda>sh k. case sh k of None \<Rightarrow> None
                  | Some u \<Rightarrow> if u \<le> now then None else Some u) (cd_shards c)\<rparr>)"

section \<open>Sequences of calls\<close>

datatype cd_op =
    CdReady key
  | CdRemaining key
  | CdTrigger key duration
  | CdTry key duration
  | CdReset key
  | CdGC

datatype cd_out = OutBool bool | OutDur duration | OutUnit

fun cd_exec :: "(key \<Rightarrow> 64 word) \<Rightarrow> time \<times> cd_op \<Rightarrow> 's Cooldown \<times> 's \<Rightarrow> (cd_out \<times> report list) \<times> ('s Cooldown \<times> 's)" where
  "cd_exec h (t, CdReady k) (c, s) = (let (b, r) = Cooldown_Ready h c t k s in ((OutBool b, r), (c, s)))"
| "cd_exec h (t, CdRemaining k) (c, s) = (let (d, r) = Cooldown_Remaining h c t k s in ((OutDur d, r), (c, s)))"
| "cd_exec h (t, CdTrigger k cd) (c, s) = (let (r, c', s') = Cooldown_TriggerFor h c t k cd s in ((OutUnit, r), (c', s')))"
| "cd_exec h (t, CdTry k cd) (c, s) = (let (b, r, c', s') = Cooldown_TryTriggerFor h c t t k cd s in ((OutBool b, r), (c', s')))"
| "cd_exec h (t, CdReset k) (c, s) = (let (r, c', s') = Cooldown_Reset h c t k s in ((OutUnit, r), (c', s')))"
| "cd_exec h (t, CdGC) (c, s) = ((OutUnit, []), (Cooldown_gc t c, s))"

primrec cd_run :: "(key \<Rightarrow> 64 word) \<Rightarrow> (time \<times> cd_op) list \<Rightarrow> 's Cooldown \<times> 's \<Rightarrow> (cd_out \<times> report list) list" where
  "cd_run h [] st = []"
| "cd_run h (x # xs) st = (let (out, st') = cd_exec h x st in out # cd_run h xs st')"

text \<open>Clock readings do not decrease, and no expiry instant leaves the 64-bit range.\<close>

fun op_cd :: "cd_op \<Rightarrow> duration" where
  "op_cd (CdTrigger k cd) = cd"
| "op_cd (CdTry k cd) = cd"
| "op_cd _ = 0"

definition cd_clocked :: "time \<Rightarrow> (time \<times> cd_op) list \<Rightarrow> bool" where
  "cd_clocked t0 xs \<longleftrightarrow> sorted (t0 # map fst xs) \<and> (\<forall>(t, op)\<in>set xs. 0 < t \<and> t < 2 ^ 63 \<and> 0 \<le> t + op_cd op \<and> t + op_cd op < 2 ^ 63)"

lemma cd_clocked_Cons:
  "cd_clocked t0 ((t, op) # xs) \<longleftrightarrow>
     t0 \<le> t \<and> 0 < t \<and> t < 2 ^ 63 \<and> 0 \<le> t + op_cd op \<and> t + op_cd op < 2 ^ 63 \<and> cd_clocked t xs"
  by (auto simp: cd_clocked_def intro: order_trans)

lemma shard_get_gc:
  "shards_wf ss \<Longrightarrow> shard_get h (map (\<lambda>sh k. case sh k of None \<Rightarrow> None | Some u \<Rightarrow> if u \<le> now then None else Some u) ss) k
     = (case shard_get h ss k of None \<Rightarrow> None | Some u \<Rightarrow> if u \<le> now then None else Some u)"
  by (simp add: shard_get_def shards_wf_def)

definition cd_memory :: "'s Cooldown \<Rightarrow> bool" where
  "cd_memory c \<longleftrightarrow> cd_store c = None \<and> shards_wf (cd_shards c)"

lemma cd_until_put: "cd_memory c \<Longrightarrow>
    cd_until h (c\<lparr>cd_shards := shard_put h (cd_shards c) k u\<rparr>) k' = (if k' = k then u else cd_until h c k')"
  by (simp add: cd_until_def cd_memory_def sharded.mget_put)

lemma cd_until_del: "cd_memory c \<Longrightarrow>
    cd_until h (c\<lparr>cd_shards := shard_del h (cd_shards c) k\<rparr>) k' = (if k' = k then 0 else cd_until h c k')"
  by (simp add: cd_until_def cd_memory_def sharded.mget_del)

lemma cd_until_gc: "cd_memory c \<Longrightarrow>
    cd_until h (Cooldown_gc now c) k =
      (if \<not> cd_stopped c \<and> cd_until h c k \<le> now \<and> shard_get h (cd_shards c) k \<noteq> None then 0 else cd_until h c k)"
  by (auto simp: Cooldown_gc_def cd_until_def cd_memory_def shard_get_gc split: option.split)

text \<open>What each call does in memory mode.\<close>

lemma cd_exec_memory:
  assumes "cd_memory c"
  shows "cd_exec h (t, CdReady k) (c, s) = ((OutBool (cd_until h c k \<le> t), []), (c, s))"
    and "cd_exec h (t, CdRemaining k) (c, s) =
      ((OutDur (let rem = wrap64 (cd_until h c k - t) in if rem \<le> 0 then 0 else rem), []), (c, s))"
    and "cd_exec h (t, CdTrigger k cd) (c, s) =
      ((OutUnit, []), (c\<lparr>cd_shards := shard_put h (cd_shards c) k (wrap64 (t + cd))\<rparr>, s))"
    and "cd_exec h (t, CdTry k cd) (c, s) = ((OutBool (cd_until h c k \<le> t), []),
      (if t < cd_until h c k then c else c\<lparr>cd_shards := shard_put h (cd_shards c) k (wrap64 (t + cd))\<rparr>, s))"
    and "cd_exec h (t, CdReset k) (c, s) = ((OutUnit, []), (c\<lparr>cd_shards := shard_del h (cd_shards c) k\<rparr>, s))"
    and "cd_exec h (t, CdGC) (c, s) = ((OutUnit, []), (Cooldown_gc t c, s))"
  using assms by (simp_all add: cd_memory_def Cooldown_Ready_def Cooldown_Remaining_def Cooldown_TriggerFor_def
      Cooldown_TryTriggerFor_def Cooldown_Reset_def Let_def)

lemma cd_memory_upd:
  assumes "cd_memory c"
  shows "cd_memory (c\<lparr>cd_shards := shard_put h (cd_shards c) k u\<rparr>)"
    and "cd_memory (c\<lparr>cd_shards := shard_del h (cd_shards c) k\<rparr>)"
    and "cd_memory (Cooldown_gc t c)"
  using assms by (simp_all add: cd_memory_def Cooldown_gc_def sharded.mwf_put sharded.mwf_del)
    (simp add: shards_wf_def)

lemma cd_memory_exec: "cd_memory c \<Longrightarrow> cd_exec h (t, op) (c, s) = (out, c', s') \<Longrightarrow> cd_memory c'"
  by (cases op) (auto simp: cd_exec_memory cd_memory_upd simp del: cd_exec.simps split: if_splits)

section \<open>Two successful triggers are a cooldown apart\<close>

text \<open>The instant \<open>u\<close> is kept: it is over, or the key is blocked at least until then.\<close>

definition cd_blocks :: "(key \<Rightarrow> 64 word) \<Rightarrow> key \<Rightarrow> time \<Rightarrow> 's Cooldown \<Rightarrow> time \<Rightarrow> bool" where
  "cd_blocks h k u c t \<longleftrightarrow> u \<le> t \<or> u \<le> cd_until h c k"

fun cd_clears :: "key \<Rightarrow> cd_op \<Rightarrow> bool" where
  "cd_clears k (CdTrigger k' cd) = (k' = k)"
| "cd_clears k (CdReset k') = (k' = k)"
| "cd_clears k _ = False"

lemma cd_blocks_exec:
  assumes "cd_memory c" "cd_blocks h k u c t0" "t0 \<le> t" "\<not> cd_clears k op"
    and "cd_exec h (t, op) (c, s) = (out, c', s')"
  shows "cd_blocks h k u c' t"
proof (cases op)
  case (CdTrigger k' cd)
  with assms show ?thesis by (force simp: cd_exec_memory cd_blocks_def cd_until_put simp del: cd_exec.simps)
next
  case (CdTry k' cd)
  then have "c' = (if t < cd_until h c k' then c else c\<lparr>cd_shards := shard_put h (cd_shards c) k' (wrap64 (t + cd))\<rparr>)"
    using assms(1,5) by (simp add: cd_exec_memory del: cd_exec.simps)
  then have "cd_until h c' k = (if k' = k \<and> cd_until h c k \<le> t then wrap64 (t + cd) else cd_until h c k)"
    using assms(1) by (auto simp: cd_until_put)
  then show ?thesis using assms(2,3) by (auto simp: cd_blocks_def)
next
  case (CdReset k')
  with assms show ?thesis by (force simp: cd_exec_memory cd_blocks_def cd_until_del simp del: cd_exec.simps)
next
  case CdGC
  then have "c' = Cooldown_gc t c" using assms(1,5) by simp
  then have "cd_until h c' k = cd_until h c k \<or> cd_until h c k \<le> t" using cd_until_gc [OF assms(1)] by metis
  then show ?thesis using assms(2,3) by (auto simp: cd_blocks_def)
qed (use assms in \<open>force simp: cd_exec_memory cd_blocks_def simp del: cd_exec.simps\<close>)+

lemma cd_blocks_run:
  assumes "cd_memory c" "cd_blocks h k u c t0" "cd_clocked t0 xs"
    and "j < length xs" "xs ! j = (t, CdTry k cd)" "\<forall>i<j. \<not> cd_clears k (snd (xs ! i))"
    and "fst (cd_run h xs (c, s) ! j) = OutBool True"
  shows "u \<le> t"
  using assms
proof (induction xs arbitrary: c s t0 j)
  case (Cons x xs)
  obtain t1 op where x: "x = (t1, op)" by force
  obtain out c' s' where ex: "cd_exec h x (c, s) = (out, c', s')" by (metis prod.exhaust)
  have clk: "t0 \<le> t1" "cd_clocked t1 xs" using Cons.prems(3) x by (simp_all add: cd_clocked_Cons)
  show ?case
  proof (cases j)
    case 0
    then have "fst (fst (cd_exec h (t, CdTry k cd) (c, s))) = OutBool True" and t: "t0 \<le> t"
      using Cons.prems(5,7) x clk(1) ex by simp_all
    then have "cd_until h c k \<le> t" using Cons.prems(1) by (simp add: cd_exec_memory del: cd_exec.simps)
    then show ?thesis using Cons.prems(2) t by (auto simp: cd_blocks_def)
  next
    case (Suc j')
    then have "\<not> cd_clears k op" using Cons.prems(6) [rule_format, of 0] x by simp
    then have "cd_blocks h k u c' t1" by (rule cd_blocks_exec [OF Cons.prems(1,2) clk(1) _ ex [unfolded x]])
    moreover have "cd_memory c'" by (rule cd_memory_exec [OF Cons.prems(1) ex [unfolded x]])
    moreover have "\<forall>i<j'. \<not> cd_clears k (snd (xs ! i))" using Cons.prems(6) Suc by fastforce
    ultimately show ?thesis using Cons.IH [of c' t1 j' s'] Cons.prems Suc ex clk by simp
  qed
qed simp

text \<open>Two successful \<open>TryTriggerFor\<close> calls on a key, with any calls in between that do not clear or
  overwrite the key's cooldown (the sweeper included), are at least the first call's cooldown apart.\<close>

theorem Cooldown_spacing:
  assumes "cd_memory c" and "cd_clocked t0 ((ti, CdTry k cd) # xs)"
    and "fst (cd_run h ((ti, CdTry k cd) # xs) (c, s) ! 0) = OutBool True"
    and "j < length xs" and "xs ! j = (tj, CdTry k cd')" and "\<forall>i<j. \<not> cd_clears k (snd (xs ! i))"
    and "fst (cd_run h ((ti, CdTry k cd) # xs) (c, s) ! Suc j) = OutBool True"
  shows "ti + cd \<le> tj"
proof -
  obtain out c' s' where ex: "cd_exec h (ti, CdTry k cd) (c, s) = (out, c', s')" by (metis prod.exhaust)
  have clk: "cd_clocked ti xs" "in_i64 (ti + cd)" using assms(2) by (simp_all add: cd_clocked_Cons in_i64_def)
  have "cd_until h c k \<le> ti" using assms(1,3) by (simp add: cd_exec_memory Let_def split_beta del: cd_exec.simps)
  with ex have "c' = c\<lparr>cd_shards := shard_put h (cd_shards c) k (wrap64 (ti + cd))\<rparr>"
    using assms(1) by (simp add: cd_exec_memory del: cd_exec.simps)
  then have "cd_blocks h k (ti + cd) c' ti"
    using clk(2) by (simp add: cd_blocks_def cd_until_put [OF assms(1)])
  then show ?thesis
    using cd_blocks_run [OF cd_memory_exec [OF assms(1) ex] _ clk(1) assms(4-6), of h "ti + cd" s'] assms(7) ex
    by (simp del: cd_exec.simps)
qed

theorem Cooldown_spacing_witness:
  "let c = Cooldown_New 5 [] :: Memory Cooldown;
       xs = [(8, CdReady ''a''), (12, CdTry ''a'' 3), (16, CdGC), (18, CdTry ''a'' 8)]
   in cd_run (\<lambda>_. 0) ((7, CdTry ''a'' 8) # xs) (c, NewMemory)
        = [(OutBool True, []), (OutBool False, []), (OutBool False, []), (OutUnit, []), (OutBool True, [])]
      \<and> 7 + 8 \<le> (18 :: int)"
proof -
  let ?c = "Cooldown_New 5 [] :: Memory Cooldown"
  let ?xs = "[(8, CdReady ''a''), (12, CdTry ''a'' 3), (16, CdGC), (18, CdTry ''a'' 8)]"
  have mem: "cd_memory ?c" by (simp add: cd_memory_def Cooldown_New_def)
  have run: "cd_run (\<lambda>_. 0) ((7, CdTry ''a'' 8) # ?xs) (?c, NewMemory)
        = [(OutBool True, []), (OutBool False, []), (OutBool False, []), (OutUnit, []), (OutBool True, [])]"
    by (simp add: Cooldown_New_def shards_init_def shardCount_def Cooldown_TryTriggerFor_def Cooldown_Ready_def
        Cooldown_gc_def cd_until_def shard_get_def shard_put_def shardFor_def in_i64_def numeral_nat)
  have clk: "cd_clocked 0 ((7, CdTry ''a'' 8) # ?xs)" by (simp add: cd_clocked_def)
  have "(7::int) + 8 \<le> 18"
    by (rule Cooldown_spacing [OF mem clk, where j = 3 and h = "\<lambda>_. 0" and s = NewMemory])
      (simp_all only: run, auto simp: less_Suc_eq numeral_nat)
  with run show ?thesis by (simp add: Let_def)
qed

section \<open>Memory mode and store mode agree\<close>

text \<open>\<open>TryTriggerFor\<close> with a zero or negative cooldown is the one call on which the modes differ.\<close>

fun cd_proper :: "cd_op \<Rightarrow> bool" where
  "cd_proper (CdTry k cd) = (0 < cd)"
| "cd_proper _ = True"

lemma storeKey_inj [simp]: "Cooldown_storeKey k = Cooldown_storeKey k' \<longleftrightarrow> k = k'"
  by (simp add: Cooldown_storeKey_def)

text \<open>A key is in the store exactly while it is cooling down, and expires when the cooldown ends.\<close>

definition cd_key_sim :: "kv_cell option \<Rightarrow> time \<Rightarrow> time \<Rightarrow> bool" where
  "cd_key_sim co u t \<longleftrightarrow> 0 \<le> u \<and> u < 2 ^ 63 \<and>
     (case co of None \<Rightarrow> u \<le> t | Some x \<Rightarrow> cell_deadline x = Some u)"

context reliable_store
begin

definition cd_sim :: "(key \<Rightarrow> 64 word) \<Rightarrow> 's Cooldown \<Rightarrow> 's \<Rightarrow> time \<Rightarrow> bool" where
  "cd_sim h c s t \<longleftrightarrow> (\<forall>k. cd_key_sim (cell s t (Cooldown_storeKey k)) (cd_until h c k) t)"

lemma cd_simD: "cd_sim h c s t \<Longrightarrow> cd_key_sim (cell s t (Cooldown_storeKey k)) (cd_until h c k) t"
  by (simp add: cd_sim_def)

lemma cd_sim_later:
  assumes inv: "invar s" and sim: "cd_sim h c s t0" and le: "t0 \<le> t"
  shows "cd_sim h c s t"
proof -
  have "cd_key_sim (cell s t (Cooldown_storeKey k)) (cd_until h c k) t" for k
    using cd_simD [OF sim, of k] le cell_later [OF inv le, of "Cooldown_storeKey k"]
    by (auto simp: cd_key_sim_def live_cell_def split: option.splits if_splits)
  then show ?thesis by (simp add: cd_sim_def)
qed

lemma cd_sim_absent: "invar s \<Longrightarrow> cd_sim h c s t \<Longrightarrow> cell s t (Cooldown_storeKey k) = None \<longleftrightarrow> cd_until h c k \<le> t"
  using cd_simD [of h c s t k] cell_is_live [of s t "Cooldown_storeKey k"]
  by (auto simp: cd_key_sim_def live_cell_def split: option.splits)

lemma cd_sim_ttl:
  assumes inv: "invar s" and sim: "cd_sim h c s t" and t: "0 < t" and ttl: "Store_TTL ops t (Cooldown_storeKey k) s = Inr r"
  shows "r = (if cd_until h c k \<le> t then None else Some (cd_until h c k - t))"
  using ttl_ok [OF inv t ttl] cd_sim_absent [OF inv sim, of k] cd_simD [OF sim, of k]
  by (auto simp: cd_key_sim_def split: option.splits)

text \<open>Writing an instant into the shards corresponds to writing a key that expires then.\<close>

lemma cd_sim_put:
  assumes "cd_memory c" "cd_sim h c s t" "clock_ok t cd" "0 < cd"
    and "cell s' t = (cell s t)(Cooldown_storeKey k \<mapsto> new_cell v t cd)"
  shows "cd_sim h (c\<lparr>cd_shards := shard_put h (cd_shards c) k (wrap64 (t + cd))\<rparr>) s' t"
proof -
  have "wrap64 (t + cd) = t + cd" using assms(3,4) by (simp add: clock_ok_def in_i64_def)
  moreover have "cd_key_sim (Some (new_cell v t cd)) (t + cd) t"
    using assms(3,4) by (simp add: cd_key_sim_def deadline_at_def clock_ok_def)
  ultimately show ?thesis using assms(1,2,5) by (simp add: cd_sim_def cd_until_put)
qed

lemma cd_sim_clear:
  assumes "cd_sim h c s t" "cell s' t = (cell s t)(Cooldown_storeKey k := None)"
    and "\<forall>k'. cd_until h c' k' = (if k' = k then u else cd_until h c k')" "0 \<le> u" "u \<le> t" "t < 2 ^ 63"
  shows "cd_sim h c' s' t"
proof -
  have "cd_key_sim None u t" using assms(4-6) by (simp add: cd_key_sim_def)
  then show ?thesis using assms(1-3) by (simp add: cd_sim_def)
qed

lemma cd_sim_exec:
  assumes mem: "cd_memory c" and cs: "cd_store cs = Some ops" and inv: "invar s" and sim0: "cd_sim h c s t0"
    and clk: "t0 \<le> t" "0 < t" "t < 2 ^ 63" "0 \<le> t + op_cd op" "t + op_cd op < 2 ^ 63" and proper: "cd_proper op"
    and ex: "cd_exec h (t, op) (cs, s) = (out, cs', s')" and ex': "cd_exec h (t, op) (c, z) = (out', c', z')"
  shows "out = out' \<and> cs' = cs \<and> invar s' \<and> cd_sim h c' s' t"
proof -
  have sim: "cd_sim h c s t" by (rule cd_sim_later [OF inv sim0 clk(1)])
  show ?thesis
  proof (cases op)
    case (CdReady k)
    obtain r where r: "Store_TTL ops t (Cooldown_storeKey k) s = Inr r" using ttl_total by blast
    show ?thesis
      using ex ex' CdReady cs mem inv sim r cd_sim_ttl [OF inv sim clk(2) r]
      by (auto simp: Cooldown_Ready_def cd_memory_def split: if_splits)
  next
    case (CdRemaining k)
    obtain r where r: "Store_TTL ops t (Cooldown_storeKey k) s = Inr r" using ttl_total by blast
    have "in_i64 (cd_until h c k - t)" using cd_simD [OF sim, of k] clk by (simp add: cd_key_sim_def in_i64_def)
    then show ?thesis
      using ex ex' CdRemaining cs mem inv sim r cd_sim_ttl [OF inv sim clk(2) r]
      by (auto simp: Cooldown_Remaining_def cd_memory_def Let_def split: if_splits)
  next
    case (CdTrigger k cd)
    show ?thesis
    proof (cases "cd \<le> 0")
      case True
      obtain s1 where d: "Store_Delete ops t (Cooldown_storeKey k) s = (Inr (), s1)" using delete_total by blast
      have c': "c' = c\<lparr>cd_shards := shard_put h (cd_shards c) k (wrap64 (t + cd))\<rparr>" and out': "out' = (OutUnit, [])"
        using ex' CdTrigger mem by (simp_all add: cd_exec_memory del: cd_exec.simps)
      have "\<forall>k'. cd_until h c' k' = (if k' = k then t + cd else cd_until h c k')"
        using c' mem clk CdTrigger by (simp add: cd_until_put in_i64_def)
      moreover have "cd_memory c'" using c' mem by (simp add: cd_memory_upd)
      ultimately have "cd_sim h c' s1 t"
        using cd_sim_clear [OF sim _ _ _ _ clk(3)] delete_ok [OF inv d] clk CdTrigger True by simp
      then show ?thesis
        using ex out' CdTrigger True cs d delete_ok [OF inv d] by (simp add: Cooldown_TriggerFor_def Cooldown_Reset_def)
    next
      case False
      obtain s1 where d: "Store_Set ops t (Cooldown_storeKey k) [CHR 0x01] cd s = (Inr (), s1)" using set_total by blast
      have ck: "clock_ok t cd" using clk CdTrigger by (simp add: clock_ok_def)
      show ?thesis
        using ex ex' CdTrigger False cs mem d set_ok [OF inv ck d] cd_sim_put [OF mem sim ck]
        by (auto simp: Cooldown_TriggerFor_def cd_memory_def)
    qed
  next
    case (CdTry k cd)
    obtain b s1 where d: "Store_SetNX ops t (Cooldown_storeKey k) [CHR 0x01] cd s = (Inr b, s1)" using setnx_total by blast
    have ck: "clock_ok t cd" and pos: "0 < cd" using clk CdTry proper by (simp_all add: clock_ok_def)
    have b: "b \<longleftrightarrow> cd_until h c k \<le> t" using setnx_ok [OF inv ck d] cd_sim_absent [OF inv sim] by simp
    have "invar s1" using setnx_ok [OF inv ck d] by simp
    moreover have "cd_sim h c' s1 t"
    proof (cases b)
      case True
      then show ?thesis
        using ex' CdTry mem b setnx_ok [OF inv ck d] cd_sim_put [OF mem sim ck pos, of s1 k]
        by (auto simp: cd_exec_memory simp del: cd_exec.simps)
    next
      case False
      then have "cell s1 t = cell s t" and "c' = c"
        using ex' CdTry mem b setnx_ok [OF inv ck d] by (auto simp: cd_exec_memory simp del: cd_exec.simps)
      then show ?thesis using sim by (simp add: cd_sim_def)
    qed
    ultimately show ?thesis
      using ex ex' CdTry cs mem d b pos by (auto simp: Cooldown_TryTriggerFor_def cd_memory_def split: if_splits)
  next
    case (CdReset k)
    obtain s1 where d: "Store_Delete ops t (Cooldown_storeKey k) s = (Inr (), s1)" using delete_total by blast
    have c': "c' = c\<lparr>cd_shards := shard_del h (cd_shards c) k\<rparr>" and out': "out' = (OutUnit, [])"
      using ex' CdReset mem by (simp_all add: cd_exec_memory del: cd_exec.simps)
    then have "cd_sim h c' s1 t"
      using cd_sim_clear [OF sim _ _ _ _ clk(3), of s1 k c' 0] delete_ok [OF inv d] clk mem
      by (simp add: cd_memory_upd cd_until_del)
    then show ?thesis using ex out' CdReset cs d delete_ok [OF inv d] by (simp add: Cooldown_Reset_def)
  next
    case CdGC
    have gc: "cd_until h c' k = cd_until h c k \<or> (cd_until h c k \<le> t \<and> cd_until h c' k = 0)" for k
      using ex' CdGC cd_until_gc [OF mem, of h t k] by (auto split: if_splits)
    have "cd_key_sim (cell s t (Cooldown_storeKey k)) (cd_until h c' k) t" for k
      using gc [of k] cd_simD [OF sim, of k] cd_sim_absent [OF inv sim, of k] clk(2) by (auto simp: cd_key_sim_def)
    then have "cd_sim h c' s t" by (simp add: cd_sim_def)
    then show ?thesis using ex ex' CdGC cs inv by (auto simp: Cooldown_gc_def)
  qed
qed

lemma cd_sim_run:
  assumes "cd_memory c" "cd_store cs = Some ops" "invar s" "cd_sim h c s t0" "cd_clocked t0 xs" "\<forall>x\<in>set xs. cd_proper (snd x)"
  shows "cd_run h xs (cs, s) = cd_run h xs (c, z)"
  using assms
proof (induction xs arbitrary: c s z t0)
  case (Cons x xs)
  obtain t op where x: "x = (t, op)" by force
  obtain out cs' s' where ex: "cd_exec h (t, op) (cs, s) = (out, cs', s')" by (metis prod.exhaust)
  obtain out' c' z' where ex': "cd_exec h (t, op) (c, z) = (out', c', z')" by (metis prod.exhaust)
  have clk: "t0 \<le> t" "0 < t" "t < 2 ^ 63" "0 \<le> t + op_cd op" "t + op_cd op < 2 ^ 63" "cd_clocked t xs"
    using Cons.prems(5) x by (simp_all add: cd_clocked_Cons)
  have step: "out = out' \<and> cs' = cs \<and> invar s' \<and> cd_sim h c' s' t"
    using Cons.prems x by (intro cd_sim_exec [OF Cons.prems(1-4) clk(1-5) _ ex ex']) simp
  then show ?case
    using Cons.IH [OF cd_memory_exec [OF Cons.prems(1) ex'], of s' t z'] Cons.prems clk(6) x ex ex' by simp
qed simp

end

text \<open>The two modes are equivalent: a cooldown manager on the shared in-memory store and one on its own
  sharded maps give the same answer to every call of every sequence of \<open>Ready\<close>, \<open>Remaining\<close>, \<open>Trigger\<close>,
  \<open>TryTrigger\<close> (with a positive cooldown), \<open>Reset\<close> calls and sweeper ticks, and report no error.\<close>

theorem Cooldown_modes_agree:
  assumes "cd_clocked t0 xs" and "\<forall>x\<in>set xs. cd_proper (snd x)" and "0 \<le> t0"
  shows "cd_run h xs (Cooldown_New cd [Cooldown_WithStore Memory_ops], NewMemory) = cd_run h xs (Cooldown_New cd [], NewMemory)"
proof -
  let ?c = "Cooldown_New cd [] :: Memory Cooldown"
  have mem: "cd_memory ?c" by (simp add: cd_memory_def Cooldown_New_def)
  have "cd_until h ?c k = 0" for k by (simp add: cd_until_def Cooldown_New_def)
  moreover have "Memory_cell NewMemory t k = None" for t k by (simp add: Memory_cell_def NewMemory_def)
  ultimately have "reliable.cd_sim h ?c NewMemory t0" using assms(3) by (simp add: reliable.cd_sim_def cd_key_sim_def)
  then show ?thesis
    by (intro reliable.cd_sim_run [OF mem _ _ _ assms(1,2)]) (simp_all add: Cooldown_New_def Memory_inv_def NewMemory_def)
qed

theorem Cooldown_modes_agree_witness:
  "let xs = [(7, CdTry ''a'' 8), (8, CdReady ''a''), (9, CdTry ''b'' 3), (10, CdRemaining ''a''), (12, CdReset ''a''), (13, CdTry ''a'' 2)]
   in cd_run (\<lambda>_. 0) xs (Cooldown_New 5 [Cooldown_WithStore Memory_ops], NewMemory)
      = [(OutBool True, []), (OutBool False, []), (OutBool True, []), (OutDur 5, []), (OutUnit, []), (OutBool True, [])]"
proof -
  let ?xs = "[(7, CdTry ''a'' 8), (8, CdReady ''a''), (9, CdTry ''b'' 3), (10, CdRemaining ''a''), (12, CdReset ''a''), (13, CdTry ''a'' 2)]"
  have "cd_run (\<lambda>_. 0) ?xs (Cooldown_New 5 [Cooldown_WithStore Memory_ops], NewMemory)
      = cd_run (\<lambda>_. 0) ?xs (Cooldown_New 5 [], NewMemory)"
    by (rule Cooldown_modes_agree [of 0]) (simp_all add: cd_clocked_def)
  also have "\<dots> = [(OutBool True, []), (OutBool False, []), (OutBool True, []), (OutDur 5, []), (OutUnit, []), (OutBool True, [])]"
    by (simp add: Cooldown_New_def shards_init_def shardCount_def Cooldown_TryTriggerFor_def Cooldown_Ready_def
        Cooldown_Remaining_def Cooldown_Reset_def cd_until_def shard_get_def shard_put_def shard_del_def shardFor_def
        in_i64_def numeral_nat)
  finally show ?thesis by (simp add: Let_def)
qed

end
