(* ===== verification/Idempotency.thy ===== *)
theory Idempotency
  imports KVStore
begin

text \<open>
  \<open>pkg/store/idempotency\<close>: execute an operation once per key and reuse its result. Records are shared by
  pointer between the map, the executing call and the waiting calls, so the model keeps a heap of
  entries and the map holds addresses. \<open>Do\<close> is split where it gives up the lock: the lookup, the wait,
  and the tail after the user function; calls of other goroutines run in between. JSON coding of the
  result type is an argument of the store-mode operations. A close of a closed channel is a panic
  (\<open>None\<close>).
\<close>

section \<open>Records and configuration\<close>

record 'a idem_entry =
  ie_done :: bool
  ie_result :: 'a
  ie_err :: "err option"
  ie_expiry :: time

record 's idem_config =
  ic_ttl :: duration
  ic_cacheErrors :: bool
  ic_gcInterval :: duration
  ic_store :: "'s kv_ops option"
  ic_onStoreErr :: bool

datatype 's idem_option =
    Idem_WithTTL duration
  | Idem_WithCacheErrors bool
  | Idem_WithGCInterval duration
  | Idem_WithStore "'s kv_ops"
  | Idem_WithOnStoreError

record ('s, 'a) Idem =
  id_cfg :: "'s idem_config"
  id_heap :: "'a idem_entry list"
  id_items :: "key \<rightharpoonup> nat"
  id_stopped :: bool

fun idem_apply :: "'s idem_option \<Rightarrow> 's idem_config \<Rightarrow> 's idem_config" where
  "idem_apply (Idem_WithTTL d) c = c\<lparr>ic_ttl := d\<rparr>"
| "idem_apply (Idem_WithCacheErrors b) c = c\<lparr>ic_cacheErrors := b\<rparr>"
| "idem_apply (Idem_WithGCInterval d) c = c\<lparr>ic_gcInterval := d\<rparr>"
| "idem_apply (Idem_WithStore st) c = c\<lparr>ic_store := Some st\<rparr>"
| "idem_apply Idem_WithOnStoreError c = c\<lparr>ic_onStoreErr := True\<rparr>"

definition Idem_New :: "'s idem_option list \<Rightarrow> ('s, 'a) Idem" where
  "Idem_New opts =
     (let cfg = fold idem_apply opts \<lparr>ic_ttl = 600 * second, ic_cacheErrors = False, ic_gcInterval = 60 * second,
                  ic_store = None, ic_onStoreErr = False\<rparr>;
          cfg1 = (if ic_ttl cfg \<le> 0 then cfg\<lparr>ic_ttl := 600 * second\<rparr> else cfg);
          cfg2 = (if ic_gcInterval cfg1 \<le> 0 then cfg1\<lparr>ic_gcInterval := 60 * second\<rparr> else cfg1)
      in \<lparr>id_cfg = cfg2, id_heap = [], id_items = Map.empty, id_stopped = False\<rparr>)"

definition Idem_storeKey :: "key \<Rightarrow> key" where
  "Idem_storeKey k = ''idem:'' @ k"

definition Idem_reportErr :: "('s, 'a) Idem \<Rightarrow> string \<Rightarrow> key \<Rightarrow> err \<Rightarrow> report list" where
  "Idem_reportErr s op k e = (if ic_onStoreErr (id_cfg s) then [(op, k, e)] else [])"

section \<open>Memory mode: \<open>Do\<close>\<close>

text \<open>A fresh record is appended to the heap; its zero value is an argument.\<close>

definition idem_place :: "'a \<Rightarrow> key \<Rightarrow> ('s, 'a) Idem \<Rightarrow> nat \<times> ('s, 'a) Idem" where
  "idem_place zero k s =
     (let a = length (id_heap s)
      in (a, s\<lparr>id_heap := id_heap s @ [\<lparr>ie_done = False, ie_result = zero, ie_err = None, ie_expiry = 0\<rparr>],
              id_items := (id_items s)(k \<mapsto> a)\<rparr>))"

datatype 'a do_begin =
    DoHit 'a "err option"
  | DoWait nat
  | DoRun nat

definition Idem_Do_begin :: "'a \<Rightarrow> time \<Rightarrow> key \<Rightarrow> ('s, 'a) Idem \<Rightarrow> 'a do_begin \<times> ('s, 'a) Idem" where
  "Idem_Do_begin zero now k s =
     (let run = (\<lambda>s. case idem_place zero k s of (a, s') \<Rightarrow> (DoRun a, s'))
      in case id_items s k of
           None \<Rightarrow> run s
         | Some a \<Rightarrow>
             let e = id_heap s ! a
             in if ie_done e then
                  if ie_expiry e = 0 \<or> now < ie_expiry e then (DoHit (ie_result e) (ie_err e), s)
                  else run (s\<lparr>id_items := (id_items s)(k := None)\<rparr>)
                else (DoWait a, s))"

text \<open>The wait of a caller that found the key in execution: \<open>None\<close> while it is blocked.\<close>

definition Idem_Do_wait :: "'a \<Rightarrow> nat \<Rightarrow> ('s, 'a) Idem \<Rightarrow> ('a \<times> err option \<times> bool) option" where
  "Idem_Do_wait zero a s =
     (let e = id_heap s ! a
      in if ie_done e then Some (ie_result e, ie_err e, True)
         else if id_stopped s then Some (zero, Some ''idempotency: store stopped while waiting'', False)
         else None)"

text \<open>Remove the record if the map still holds this very record.\<close>

definition idem_drop :: "key \<Rightarrow> nat \<Rightarrow> ('s, 'a) Idem \<Rightarrow> ('s, 'a) Idem" where
  "idem_drop k a s = (if id_items s k = Some a then s\<lparr>id_items := (id_items s)(k := None)\<rparr> else s)"

text \<open>\<open>close(e.done)\<close>.\<close>

definition idem_close :: "nat \<Rightarrow> ('s, 'a) Idem \<Rightarrow> ('s, 'a) Idem option" where
  "idem_close a s =
     (if ie_done (id_heap s ! a) then None
      else Some (s\<lparr>id_heap := (id_heap s)[a := (id_heap s ! a)\<lparr>ie_done := True\<rparr>]\<rparr>))"

text \<open>The tail of \<open>Do\<close> after the user function returned \<open>(result, err)\<close>.\<close>

definition Idem_Do_finish :: "time \<Rightarrow> key \<Rightarrow> nat \<Rightarrow> 'a \<Rightarrow> err option \<Rightarrow> ('s, 'a) Idem \<Rightarrow> (('a \<times> err option \<times> bool) \<times> ('s, 'a) Idem) option" where
  "Idem_Do_finish now2 k a result er s =
     (if er \<noteq> None \<and> \<not> ic_cacheErrors (id_cfg s) then
        let s1 = idem_drop k a s;
            s2 = s1\<lparr>id_heap := (id_heap s1)[a := (id_heap s1 ! a)\<lparr>ie_result := result, ie_err := er\<rparr>]\<rparr>
        in map_option (\<lambda>s3. ((result, er, False), s3)) (idem_close a s2)
      else
        let s1 = s\<lparr>id_heap := (id_heap s)[a := (id_heap s ! a)\<lparr>ie_result := result, ie_err := er,
                     ie_expiry := wrap64 (now2 + ic_ttl (id_cfg s))\<rparr>]\<rparr>
        in map_option (\<lambda>s2. ((result, er, False), s2)) (idem_close a s1))"

text \<open>The deferred handler when the user function panics.\<close>

definition Idem_Do_panic :: "key \<Rightarrow> nat \<Rightarrow> ('s, 'a) Idem \<Rightarrow> ('s, 'a) Idem option" where
  "Idem_Do_panic k a s = idem_close a (idem_drop k a s)"

section \<open>Memory mode: the other operations\<close>

definition Idem_Get_memory :: "'a \<Rightarrow> time \<Rightarrow> key \<Rightarrow> ('s, 'a) Idem \<Rightarrow> 'a option" where
  "Idem_Get_memory zero now k s =
     (case id_items s k of
        None \<Rightarrow> None
      | Some a \<Rightarrow> let e = id_heap s ! a
                  in if ie_done e then if ie_expiry e \<noteq> 0 \<and> ie_expiry e \<le> now then None else Some (ie_result e)
                     else None)"

definition Idem_Len :: "('s, 'a) Idem \<Rightarrow> nat" where
  "Idem_Len s = card (dom (id_items s))"

definition Idem_Stop :: "('s, 'a) Idem \<Rightarrow> ('s, 'a) Idem" where
  "Idem_Stop s = s\<lparr>id_stopped := True\<rparr>"

definition Idem_gc :: "time \<Rightarrow> ('s, 'a) Idem \<Rightarrow> ('s, 'a) Idem" where
  "Idem_gc now s =
     (if id_stopped s then s
      else s\<lparr>id_items := (\<lambda>k. case id_items s k of None \<Rightarrow> None
               | Some a \<Rightarrow> let e = id_heap s ! a
                           in if ie_done e \<and> ie_expiry e \<noteq> 0 \<and> ie_expiry e \<le> now then None else Some a)\<rparr>)"

datatype 'a acquired =
    Granted
  | Cached 'a
  | Conflict
  | AcquireFailed err

definition Idem_acquireMemory :: "'a \<Rightarrow> time \<Rightarrow> key \<Rightarrow> ('s, 'a) Idem \<Rightarrow> 'a acquired \<times> ('s, 'a) Idem" where
  "Idem_acquireMemory zero now k s =
     (let place = (\<lambda>s. (Granted, snd (idem_place zero k s)))
      in case id_items s k of
           None \<Rightarrow> place s
         | Some a \<Rightarrow>
             let e = id_heap s ! a
             in if ie_done e then
                  if ie_expiry e = 0 \<or> now < ie_expiry e then (Cached (ie_result e), s)
                  else place (s\<lparr>id_items := (id_items s)(k := None)\<rparr>)
                else (Conflict, s))"

definition Idem_commitMemory :: "time \<Rightarrow> key \<Rightarrow> 'a \<Rightarrow> ('s, 'a) Idem \<Rightarrow> ('s, 'a) Idem option" where
  "Idem_commitMemory now k v s =
     (case id_items s k of
        None \<Rightarrow> Some s
      | Some a \<Rightarrow>
          idem_close a (s\<lparr>id_heap := (id_heap s)[a := (id_heap s ! a)\<lparr>ie_result := v,
                            ie_expiry := wrap64 (now + ic_ttl (id_cfg s))\<rparr>]\<rparr>))"

definition Idem_releaseMemory :: "key \<Rightarrow> ('s, 'a) Idem \<Rightarrow> ('s, 'a) Idem" where
  "Idem_releaseMemory k s =
     (case id_items s k of
        None \<Rightarrow> s
      | Some a \<Rightarrow>
          let s1 = s\<lparr>id_items := (id_items s)(k := None)\<rparr>
          in if ie_done (id_heap s1 ! a) then s1
             else s1\<lparr>id_heap := (id_heap s1)[a := (id_heap s1 ! a)\<lparr>ie_done := True\<rparr>]\<rparr>)"

section \<open>Store mode\<close>

type_synonym 'a marshal = "'a \<Rightarrow> err + bytes"
type_synonym 'a unmarshal = "bytes \<Rightarrow> err + 'a"

definition processingPlaceholder :: bytes where
  "processingPlaceholder = ''__processing__''"

definition ErrConflict :: err where
  "ErrConflict = ''idempotency: key is being processed by another caller''"

text \<open>
  The first half of \<open>doStore\<close> (read, reuse or decide to run) and the second half (store the result and,
  when somebody else stored first, reuse that one). \<open>Inr (v, shared)\<close> is the returned pair.
\<close>

datatype 'a do_read =
    ReadHit 'a
  | ReadRun bool "report list"

definition Idem_doStore_read :: "'a unmarshal \<Rightarrow> 's kv_ops \<Rightarrow> ('s, 'a) Idem \<Rightarrow> time \<Rightarrow> key \<Rightarrow> 's \<Rightarrow> 'a do_read" where
  "Idem_doStore_read un ops i t k s =
     (case Store_Get ops t (Idem_storeKey k) s of
        Inl e \<Rightarrow> ReadRun False (Idem_reportErr i ''get'' k e)
      | Inr (Some b) \<Rightarrow> (case un b of Inl e \<Rightarrow> ReadRun False (Idem_reportErr i ''unmarshal'' k e) | Inr v \<Rightarrow> ReadHit v)
      | Inr None \<Rightarrow> ReadRun True [])"

definition Idem_doStore_write :: "'a marshal \<Rightarrow> 'a unmarshal \<Rightarrow> 's kv_ops \<Rightarrow> ('s, 'a) Idem \<Rightarrow> time \<Rightarrow> time \<Rightarrow> key \<Rightarrow> 'a \<Rightarrow> 's
    \<Rightarrow> ('a \<times> bool) \<times> report list \<times> 's" where
  "Idem_doStore_write ma un ops i t1 t2 k result s =
     (case ma result of
        Inl e \<Rightarrow> ((result, False), Idem_reportErr i ''marshal'' k e, s)
      | Inr b \<Rightarrow>
          (case Store_SetNX ops t1 (Idem_storeKey k) b (ic_ttl (id_cfg i)) s of
             (Inl e, s1) \<Rightarrow> ((result, False), Idem_reportErr i ''setnx'' k e, s1)
           | (Inr ok, s1) \<Rightarrow>
               if ok then ((result, False), [], s1)
               else (case Store_Get ops t2 (Idem_storeKey k) s1 of
                       Inr (Some eb) \<Rightarrow> (case un eb of Inr v \<Rightarrow> ((v, True), [], s1) | Inl e \<Rightarrow> ((result, False), [], s1))
                     | _ \<Rightarrow> ((result, False), [], s1))))"

text \<open>The whole of \<open>doStore\<close>: \<open>fn\<close> is the outcome of the user function when it is run.\<close>

definition Idem_doStore :: "'a marshal \<Rightarrow> 'a unmarshal \<Rightarrow> 's kv_ops \<Rightarrow> ('s, 'a) Idem \<Rightarrow> time \<Rightarrow> time \<Rightarrow> time \<Rightarrow> key
    \<Rightarrow> 'a \<times> err option \<Rightarrow> 's \<Rightarrow> ('a \<times> err option \<times> bool) \<times> report list \<times> 's" where
  "Idem_doStore ma un ops i t0 t1 t2 k fn s =
     (case Idem_doStore_read un ops i t0 k s of
        ReadHit v \<Rightarrow> ((v, None, True), [], s)
      | ReadRun keep rep \<Rightarrow>
          if \<not> keep \<or> snd fn \<noteq> None then ((fst fn, snd fn, False), rep, s)
          else (case Idem_doStore_write ma un ops i t1 t2 k (fst fn) s of
                  ((v, sh), rep', s') \<Rightarrow> ((v, None, sh), rep', s')))"

definition Idem_Get_store :: "'a unmarshal \<Rightarrow> 's kv_ops \<Rightarrow> ('s, 'a) Idem \<Rightarrow> time \<Rightarrow> key \<Rightarrow> 's \<Rightarrow> 'a option \<times> report list" where
  "Idem_Get_store un ops i t k s =
     (case Store_Get ops t (Idem_storeKey k) s of
        Inl e \<Rightarrow> (None, Idem_reportErr i ''get'' k e)
      | Inr None \<Rightarrow> (None, [])
      | Inr (Some b) \<Rightarrow> (case un b of Inl e \<Rightarrow> (None, []) | Inr v \<Rightarrow> (Some v, [])))"

definition Idem_Get :: "'a \<Rightarrow> 'a unmarshal \<Rightarrow> time \<Rightarrow> key \<Rightarrow> ('s, 'a) Idem \<Rightarrow> 's \<Rightarrow> 'a option \<times> report list" where
  "Idem_Get zero un now k i s =
     (case ic_store (id_cfg i) of
        Some ops \<Rightarrow> Idem_Get_store un ops i now k s
      | None \<Rightarrow> (Idem_Get_memory zero now k i, []))"

definition Idem_Forget :: "time \<Rightarrow> key \<Rightarrow> ('s, 'a) Idem \<Rightarrow> 's \<Rightarrow> report list \<times> ('s, 'a) Idem \<times> 's" where
  "Idem_Forget t k i s =
     (case ic_store (id_cfg i) of
        Some ops \<Rightarrow>
          (case Store_Delete ops t (Idem_storeKey k) s of
             (Inl e, s') \<Rightarrow> (Idem_reportErr i ''delete'' k e, i, s')
           | (Inr u, s') \<Rightarrow> ([], i, s'))
      | None \<Rightarrow> ([], i\<lparr>id_items := (id_items i)(k := None)\<rparr>, s))"

definition Idem_acquireStore :: "'a unmarshal \<Rightarrow> 's kv_ops \<Rightarrow> ('s, 'a) Idem \<Rightarrow> time \<Rightarrow> time \<Rightarrow> key \<Rightarrow> 's
    \<Rightarrow> 'a acquired \<times> report list \<times> 's" where
  "Idem_acquireStore un ops i t1 t2 k s =
     (case Store_SetNX ops t1 (Idem_storeKey k) processingPlaceholder (ic_ttl (id_cfg i)) s of
        (Inl e, s1) \<Rightarrow> (AcquireFailed (''idempotency: acquire store error: '' @ e), Idem_reportErr i ''setnx'' k e, s1)
      | (Inr got, s1) \<Rightarrow>
          if got then (Granted, [], s1)
          else (case Store_Get ops t2 (Idem_storeKey k) s1 of
                  Inl e \<Rightarrow> (AcquireFailed (''idempotency: acquire get error: '' @ e), Idem_reportErr i ''get'' k e, s1)
                | Inr None \<Rightarrow> (Conflict, [], s1)
                | Inr (Some b) \<Rightarrow>
                    if b = processingPlaceholder then (Conflict, [], s1)
                    else (case un b of
                            Inl e \<Rightarrow> (AcquireFailed (''idempotency: unmarshal cached result: '' @ e), Idem_reportErr i ''unmarshal'' k e, s1)
                          | Inr v \<Rightarrow> (Cached v, [], s1))))"

definition Idem_commitStore :: "'a marshal \<Rightarrow> 's kv_ops \<Rightarrow> ('s, 'a) Idem \<Rightarrow> time \<Rightarrow> key \<Rightarrow> 'a \<Rightarrow> 's \<Rightarrow> report list \<times> 's" where
  "Idem_commitStore ma ops i t k v s =
     (case ma v of
        Inl e \<Rightarrow> (Idem_reportErr i ''marshal'' k e, s)
      | Inr b \<Rightarrow>
          (case Store_Set ops t (Idem_storeKey k) b (ic_ttl (id_cfg i)) s of
             (Inl e, s') \<Rightarrow> (Idem_reportErr i ''set'' k e, s')
           | (Inr u, s') \<Rightarrow> ([], s')))"

definition Idem_releaseStore :: "'s kv_ops \<Rightarrow> ('s, 'a) Idem \<Rightarrow> time \<Rightarrow> key \<Rightarrow> 's \<Rightarrow> report list \<times> 's" where
  "Idem_releaseStore ops i t k s =
     (case Store_Delete ops t (Idem_storeKey k) s of
        (Inl e, s') \<Rightarrow> (Idem_reportErr i ''delete'' k e, s')
      | (Inr u, s') \<Rightarrow> ([], s'))"

text \<open>
  \<open>Do\<close> without other callers in between; \<open>fn\<close> is the outcome of the user function. \<open>None\<close> is a caller that
  blocks, or a panic.
\<close>

definition Idem_Do :: "'a \<Rightarrow> 'a marshal \<Rightarrow> 'a unmarshal \<Rightarrow> time \<Rightarrow> time \<Rightarrow> time \<Rightarrow> key \<Rightarrow> 'a \<times> err option \<Rightarrow> ('s, 'a) Idem \<Rightarrow> 's
    \<Rightarrow> (('a \<times> err option \<times> bool) \<times> report list \<times> ('s, 'a) Idem \<times> 's) option" where
  "Idem_Do zero ma un t0 t1 t2 k fn i s =
     (case ic_store (id_cfg i) of
        Some ops \<Rightarrow> (case Idem_doStore ma un ops i t0 t1 t2 k fn s of (r, rep, s') \<Rightarrow> Some (r, rep, i, s'))
      | None \<Rightarrow>
          (case Idem_Do_begin zero t0 k i of
             (DoHit v e, i') \<Rightarrow> Some ((v, e, True), [], i', s)
           | (DoWait a, i') \<Rightarrow> map_option (\<lambda>r. (r, [], i', s)) (Idem_Do_wait zero a i')
           | (DoRun a, i') \<Rightarrow> map_option (\<lambda>(r, i2). (r, [], i2, s)) (Idem_Do_finish t1 k a (fst fn) (snd fn) i')))"

section \<open>The guard interface in either mode\<close>

definition Idem_Acquire :: "'a \<Rightarrow> 'a unmarshal \<Rightarrow> time \<Rightarrow> time \<Rightarrow> key \<Rightarrow> ('s, 'a) Idem \<Rightarrow> 's
    \<Rightarrow> 'a acquired \<times> report list \<times> ('s, 'a) Idem \<times> 's" where
  "Idem_Acquire zero un t1 t2 k i s =
     (case ic_store (id_cfg i) of
        Some ops \<Rightarrow> (case Idem_acquireStore un ops i t1 t2 k s of (r, rep, s') \<Rightarrow> (r, rep, i, s'))
      | None \<Rightarrow> (case Idem_acquireMemory zero t1 k i of (r, i') \<Rightarrow> (r, [], i', s)))"

definition Idem_Commit :: "'a marshal \<Rightarrow> time \<Rightarrow> key \<Rightarrow> 'a \<Rightarrow> ('s, 'a) Idem \<Rightarrow> 's
    \<Rightarrow> (report list \<times> ('s, 'a) Idem \<times> 's) option" where
  "Idem_Commit ma t k v i s =
     (case ic_store (id_cfg i) of
        Some ops \<Rightarrow> (case Idem_commitStore ma ops i t k v s of (rep, s') \<Rightarrow> Some (rep, i, s'))
      | None \<Rightarrow> map_option (\<lambda>i'. ([], i', s)) (Idem_commitMemory t k v i))"

definition Idem_Release :: "time \<Rightarrow> key \<Rightarrow> ('s, 'a) Idem \<Rightarrow> 's \<Rightarrow> report list \<times> ('s, 'a) Idem \<times> 's" where
  "Idem_Release t k i s =
     (case ic_store (id_cfg i) of
        Some ops \<Rightarrow> (case Idem_releaseStore ops i t k s of (rep, s') \<Rightarrow> (rep, i, s'))
      | None \<Rightarrow> ([], Idem_releaseMemory k i, s))"

section \<open>Interleaved callers in memory mode\<close>

text \<open>
  The system is the record store and the callers that were told to execute: the key and the record each
  of them works on. A step is one critical section of one call. Only a caller that was granted a key
  finishes, commits or releases it; \<open>Forget\<close>, which cancels the protection on purpose, is left out.
\<close>

type_synonym ('s, 'a) idem_sys = "('s, 'a) Idem \<times> (key \<times> nat) list"

inductive idem_step :: "'a \<Rightarrow> time \<Rightarrow> ('s, 'a) idem_sys \<Rightarrow> ('s, 'a) idem_sys \<Rightarrow> bool" for zero :: 'a and t :: time where
  do_run: "Idem_Do_begin zero t k s = (DoRun a, s') \<Longrightarrow> idem_step zero t (s, A) (s', (k, a) # A)"
| do_hit: "Idem_Do_begin zero t k s = (DoHit v e, s') \<Longrightarrow> idem_step zero t (s, A) (s', A)"
| do_wait: "Idem_Do_begin zero t k s = (DoWait a, s') \<Longrightarrow> idem_step zero t (s, A) (s', A)"
| do_finish: "(k, a) \<in> set A \<Longrightarrow> Idem_Do_finish t k a v e s = Some (out, s') \<Longrightarrow> idem_step zero t (s, A) (s', remove1 (k, a) A)"
| do_panic: "(k, a) \<in> set A \<Longrightarrow> Idem_Do_panic k a s = Some s' \<Longrightarrow> idem_step zero t (s, A) (s', remove1 (k, a) A)"
| acquire: "Idem_acquireMemory zero t k s = (Granted, s') \<Longrightarrow> id_items s' k = Some a \<Longrightarrow> idem_step zero t (s, A) (s', (k, a) # A)"
| acquire_not: "Idem_acquireMemory zero t k s = (r, s') \<Longrightarrow> r \<noteq> Granted \<Longrightarrow> idem_step zero t (s, A) (s', A)"
| commit: "(k, a) \<in> set A \<Longrightarrow> Idem_commitMemory t k v s = Some s' \<Longrightarrow> idem_step zero t (s, A) (s', remove1 (k, a) A)"
| release: "(k, a) \<in> set A \<Longrightarrow> idem_step zero t (s, A) (Idem_releaseMemory k s, remove1 (k, a) A)"
| sweep: "idem_step zero t (s, A) (Idem_gc t s, A)"
| stop: "idem_step zero t (s, A) (Idem_Stop s, A)"

text \<open>Every key has its own record; the record of an executing caller is in the map and not completed.\<close>

definition idem_inv :: "('s, 'a) Idem \<Rightarrow> (key \<times> nat) list \<Rightarrow> bool" where
  "idem_inv s A \<longleftrightarrow>
     (\<forall>k a. id_items s k = Some a \<longrightarrow> a < length (id_heap s))
     \<and> (\<forall>k k' a. id_items s k = Some a \<longrightarrow> id_items s k' = Some a \<longrightarrow> k = k')
     \<and> distinct (map fst A)
     \<and> (\<forall>k a. (k, a) \<in> set A \<longrightarrow> id_items s k = Some a \<and> \<not> ie_done (id_heap s ! a))"

lemma idem_invD:
  assumes "idem_inv s A"
  shows "id_items s k = Some a \<Longrightarrow> a < length (id_heap s)"
    and "id_items s k = Some a \<Longrightarrow> id_items s k' = Some a \<Longrightarrow> k = k'"
    and "distinct (map fst A)"
    and "(k, a) \<in> set A \<Longrightarrow> id_items s k = Some a"
    and "(k, a) \<in> set A \<Longrightarrow> \<not> ie_done (id_heap s ! a)"
  using assms unfolding idem_inv_def by blast+

text \<open>The three ways a step changes the system: a record is added, finished, or forgotten.\<close>

lemma idem_inv_place:
  assumes inv: "idem_inv s A" and free: "\<forall>a. (k, a) \<notin> set A" and pl: "idem_place zero k s = (a, s')"
  shows "idem_inv s' ((k, a) # A)"
proof -
  have s': "id_heap s' = id_heap s @ [\<lparr>ie_done = False, ie_result = zero, ie_err = None, ie_expiry = 0\<rparr>]"
    "id_items s' = (id_items s)(k \<mapsto> a)" "a = length (id_heap s)"
    using pl by (auto simp: idem_place_def Let_def)
  have lt: "\<And>k' a'. id_items s k' = Some a' \<Longrightarrow> a' < length (id_heap s)" using idem_invD(1) [OF inv] by blast
  have act: "k' \<noteq> k \<and> id_items s k' = Some a' \<and> a' < length (id_heap s) \<and> \<not> ie_done (id_heap s ! a')"
    if "(k', a') \<in> set A" for k' a'
    using that free idem_invD(4,5) [OF inv that] lt by blast
  have "distinct (map fst ((k, a) # A))" using idem_invD(3) [OF inv] free by force
  moreover have "k1 = k2" if "id_items s' k1 = Some b" "id_items s' k2 = Some b" for k1 k2 b
    using that s'(2,3) lt [of k1 b] lt [of k2 b] idem_invD(2) [OF inv, of k1 b k2]
    by (cases "k1 = k"; cases "k2 = k") auto
  moreover have "b < length (id_heap s')" if "id_items s' k1 = Some b" for k1 b
    using that s' lt [of k1 b] by (cases "k1 = k") auto
  moreover have "id_items s' k1 = Some b \<and> \<not> ie_done (id_heap s' ! b)" if "(k1, b) \<in> set ((k, a) # A)" for k1 b
    using that s' act by (auto simp: nth_append)
  ultimately show ?thesis unfolding idem_inv_def by blast
qed

lemma idem_inv_forget:
  "idem_inv s A \<Longrightarrow> \<forall>a. (k, a) \<notin> set A \<Longrightarrow> idem_inv (s\<lparr>id_items := (id_items s)(k := None)\<rparr>) A"
  unfolding idem_inv_def by auto

lemma idem_inv_finish:
  assumes inv: "idem_inv s A" and act: "(k, a) \<in> set A"
    and items: "id_items s' = id_items s \<or> id_items s' = (id_items s)(k := None)" and heap: "id_heap s' = (id_heap s)[a := e]"
  shows "idem_inv s' (remove1 (k, a) A)"
proof -
  have dA: "distinct A" "inj_on fst (set A)" using idem_invD(3) [OF inv] by (simp_all add: distinct_map)
  have "b = a" if "(k, b) \<in> set A" for b using inj_onD [OF dA(2), of "(k, b)" "(k, a)"] that act by simp
  then have dist: "distinct (map fst (remove1 (k, a) A))" "\<And>b. (k, b) \<notin> set (remove1 (k, a) A)"
    using dA by (auto simp: distinct_map distinct_remove1 set_remove1_eq intro: inj_on_subset)
  have "id_items s' k' = Some a' \<and> \<not> ie_done (id_heap s' ! a')" if "(k', a') \<in> set (remove1 (k, a) A)" for k' a'
  proof -
    have "(k', a') \<in> set A" and "k' \<noteq> k" using that dist(2) set_remove1_subset by fastforce+
    then have "id_items s k' = Some a'" "\<not> ie_done (id_heap s ! a')" "a' \<noteq> a"
      using idem_invD(4,5,2) [OF inv] act by blast+
    then show ?thesis using items heap \<open>k' \<noteq> k\<close> by auto
  qed
  moreover have "k1 = k2" if "id_items s' k1 = Some b" "id_items s' k2 = Some b" for k1 k2 b
    using that items idem_invD(2) [OF inv] by (auto split: if_splits)
  moreover have "b < length (id_heap s')" if "id_items s' k1 = Some b" for k1 b
    using that items idem_invD(1) [OF inv] heap by (auto split: if_splits)
  ultimately show ?thesis using dist(1) unfolding idem_inv_def by blast
qed

lemma idem_inv_sub: "idem_inv s A \<Longrightarrow> id_heap s' = id_heap s \<Longrightarrow>
    (\<And>k a. id_items s' k = Some a \<Longrightarrow> id_items s k = Some a) \<Longrightarrow>
    (\<And>k a. (k, a) \<in> set A \<Longrightarrow> id_items s' k = Some a) \<Longrightarrow> idem_inv s' A"
  unfolding idem_inv_def by simp blast

text \<open>While a key is executing, the lookup of \<open>Do\<close> waits and \<open>Acquire\<close> reports the conflict.\<close>

lemma idem_busy:
  assumes "idem_inv s A" and "(k, a) \<in> set A"
  shows "Idem_Do_begin zero t k s = (DoWait a, s)" and "Idem_acquireMemory zero t k s = (Conflict, s)"
  using idem_invD(4,5) [OF assms] by (simp_all add: Idem_Do_begin_def Idem_acquireMemory_def)

lemma Idem_Do_begin_run:
  "Idem_Do_begin zero t k s = (DoRun a, s') \<Longrightarrow>
     \<exists>s0. idem_place zero k s0 = (a, s') \<and> (s0 = s \<or> s0 = s\<lparr>id_items := (id_items s)(k := None)\<rparr>)"
  by (auto simp: Idem_Do_begin_def Let_def split: option.splits if_splits prod.splits)

lemma Idem_Do_begin_hit: "Idem_Do_begin zero t k s = (DoHit v e, s') \<Longrightarrow> s' = s"
  by (auto simp: Idem_Do_begin_def Let_def split: option.splits if_splits prod.splits)

lemma Idem_Do_begin_wait: "Idem_Do_begin zero t k s = (DoWait a, s') \<Longrightarrow> s' = s"
  by (auto simp: Idem_Do_begin_def Let_def split: option.splits if_splits prod.splits)

lemma Idem_acquire_granted:
  "Idem_acquireMemory zero t k s = (Granted, s') \<Longrightarrow> id_items s' k = Some a \<Longrightarrow>
     \<exists>s0. idem_place zero k s0 = (a, s') \<and> (s0 = s \<or> s0 = s\<lparr>id_items := (id_items s)(k := None)\<rparr>)"
  by (auto simp: Idem_acquireMemory_def Let_def idem_place_def split: option.splits if_splits)

lemma Idem_acquire_not: "Idem_acquireMemory zero t k s = (r, s') \<Longrightarrow> r \<noteq> Granted \<Longrightarrow> s' = s"
  by (auto simp: Idem_acquireMemory_def Let_def split: option.splits if_splits)

lemma idem_close_heap: "idem_close a s = Some s' \<Longrightarrow>
    id_items s' = id_items s \<and> id_cfg s' = id_cfg s \<and> \<not> ie_done (id_heap s ! a) \<and>
    id_heap s' = (id_heap s)[a := (id_heap s ! a)\<lparr>ie_done := True\<rparr>]"
  by (auto simp: idem_close_def split: if_splits)

lemma idem_drop_fields [simp]: "id_heap (idem_drop k a s) = id_heap s" "id_cfg (idem_drop k a s) = id_cfg s"
  by (simp_all add: idem_drop_def)

lemma idem_drop_items: "id_items (idem_drop k a s) = id_items s \<or> id_items (idem_drop k a s) = (id_items s)(k := None)"
  by (simp add: idem_drop_def)

lemma Idem_Do_finish_effect: "Idem_Do_finish t k a v e s = Some (out, s') \<Longrightarrow>
    (id_items s' = id_items s \<or> id_items s' = (id_items s)(k := None)) \<and> (\<exists>x. id_heap s' = (id_heap s)[a := x])"
  using idem_drop_items [of k a s]
  by (auto simp: Idem_Do_finish_def Let_def dest!: idem_close_heap split: if_splits)

lemma Idem_Do_panic_effect: "Idem_Do_panic k a s = Some s' \<Longrightarrow>
    (id_items s' = id_items s \<or> id_items s' = (id_items s)(k := None)) \<and> (\<exists>x. id_heap s' = (id_heap s)[a := x])"
  using idem_drop_items [of k a s] by (auto simp: Idem_Do_panic_def dest!: idem_close_heap)

lemma Idem_commit_effect: "Idem_commitMemory t k v s = Some s' \<Longrightarrow> id_items s k = Some a \<Longrightarrow>
    id_items s' = id_items s \<and> (\<exists>x. id_heap s' = (id_heap s)[a := x])"
  by (auto simp: Idem_commitMemory_def dest!: idem_close_heap)

lemma Idem_release_effect: "id_items s k = Some a \<Longrightarrow> \<not> ie_done (id_heap s ! a) \<Longrightarrow>
    id_items (Idem_releaseMemory k s) = (id_items s)(k := None)
    \<and> (\<exists>x. id_heap (Idem_releaseMemory k s) = (id_heap s)[a := x])"
  by (auto simp: Idem_releaseMemory_def Let_def)

lemma Idem_gc_items: "id_items (Idem_gc t s) k = Some a \<Longrightarrow> id_items s k = Some a"
  by (auto simp: Idem_gc_def Let_def split: option.splits if_splits)

lemma Idem_gc_keeps: "id_items s k = Some a \<Longrightarrow> \<not> ie_done (id_heap s ! a) \<or> ie_expiry (id_heap s ! a) = 0 \<or> t < ie_expiry (id_heap s ! a)
    \<Longrightarrow> id_items (Idem_gc t s) k = Some a"
  by (auto simp: Idem_gc_def Let_def)

lemma Idem_gc_heap [simp]: "id_heap (Idem_gc t s) = id_heap s" "id_heap (Idem_Stop s) = id_heap s" "id_items (Idem_Stop s) = id_items s"
  by (simp_all add: Idem_gc_def Idem_Stop_def)

lemma idem_placed_inv:
  assumes inv: "idem_inv s A" and free: "\<forall>a. (k, a) \<notin> set A"
    and pl: "\<exists>s0. idem_place zero k s0 = (a, s') \<and> (s0 = s \<or> s0 = s\<lparr>id_items := (id_items s)(k := None)\<rparr>)"
  shows "idem_inv s' ((k, a) # A)"
proof -
  obtain s0 where s0: "idem_place zero k s0 = (a, s')" "s0 = s \<or> s0 = s\<lparr>id_items := (id_items s)(k := None)\<rparr>"
    using pl by blast
  then have "idem_inv s0 A" using idem_inv_forget [OF inv free] inv by auto
  then show ?thesis by (rule idem_inv_place [OF _ free s0(1)])
qed

lemma idem_step_inv:
  assumes "idem_step zero t (s, A) (s', A')" and inv: "idem_inv s A"
  shows "idem_inv s' A'"
  using assms(1)
proof cases
  case (do_run k a)
  then have "\<forall>a. (k, a) \<notin> set A" using idem_busy(1) [OF inv, of k] by fastforce
  then show ?thesis using do_run idem_placed_inv [OF inv _ Idem_Do_begin_run] by blast
next
  case (do_finish k a v e out)
  obtain x where "id_heap s' = (id_heap s)[a := x]" "id_items s' = id_items s \<or> id_items s' = (id_items s)(k := None)"
    using Idem_Do_finish_effect [OF do_finish(3)] by blast
  then show ?thesis using idem_inv_finish [OF inv do_finish(2)] do_finish(1) by blast
next
  case (do_panic k a)
  obtain x where "id_heap s' = (id_heap s)[a := x]" "id_items s' = id_items s \<or> id_items s' = (id_items s)(k := None)"
    using Idem_Do_panic_effect [OF do_panic(3)] by blast
  then show ?thesis using idem_inv_finish [OF inv do_panic(2)] do_panic(1) by blast
next
  case (acquire k a)
  then have "\<forall>a. (k, a) \<notin> set A" using idem_busy(2) [OF inv, of k] by fastforce
  then show ?thesis using acquire idem_placed_inv [OF inv _ Idem_acquire_granted] by blast
next
  case (commit k a v)
  obtain x where "id_heap s' = (id_heap s)[a := x]" "id_items s' = id_items s"
    using Idem_commit_effect [OF commit(3) idem_invD(4) [OF inv commit(2)]] by blast
  then show ?thesis using idem_inv_finish [OF inv commit(2)] commit(1) by blast
next
  case (release k a)
  obtain x where "id_heap s' = (id_heap s)[a := x]" "id_items s' = (id_items s)(k := None)"
    using Idem_release_effect [OF idem_invD(4,5) [OF inv release(3)]] release(1) by blast
  then show ?thesis using idem_inv_finish [OF inv release(3)] release(2) by blast
next
  case sweep
  have "id_items (Idem_gc t s) k = Some a" if "(k, a) \<in> set A" for k a
    using Idem_gc_keeps idem_invD(4,5) [OF inv that] by blast
  with sweep show ?thesis using idem_inv_sub [OF inv Idem_gc_heap(1) Idem_gc_items] by simp
next
  case stop
  then show ?thesis using idem_inv_sub [OF inv, of "Idem_Stop s"] idem_invD(4) [OF inv] by simp
qed (use inv in \<open>auto dest: Idem_Do_begin_hit Idem_Do_begin_wait Idem_acquire_not\<close>)

definition idem_next :: "'a \<Rightarrow> time \<Rightarrow> ('s, 'a) idem_sys \<Rightarrow> ('s, 'a) idem_sys \<Rightarrow> bool" where
  "idem_next zero T x y \<longleftrightarrow> (\<exists>t<T. idem_step zero t x y)"

lemma idem_reach_inv:
  "rtranclp (idem_next zero T) x y \<Longrightarrow> idem_inv (fst x) (snd x) \<Longrightarrow> idem_inv (fst y) (snd y)"
  by (induction rule: rtranclp_induct) (auto simp: idem_next_def dest: idem_step_inv)

lemma idem_inv_new: "idem_inv (Idem_New opts) []"
  by (simp add: idem_inv_def Idem_New_def Let_def)



section \<open>A completed result is reused until it expires\<close>

definition idem_cached :: "('s, 'a) Idem \<Rightarrow> key \<Rightarrow> 'a \<Rightarrow> time \<Rightarrow> bool" where
  "idem_cached s k v T \<longleftrightarrow> (\<exists>a. id_items s k = Some a \<and> a < length (id_heap s) \<and> ie_done (id_heap s ! a)
     \<and> ie_result (id_heap s ! a) = v \<and> ie_err (id_heap s ! a) = None \<and> ie_expiry (id_heap s ! a) = T)"

lemma idem_cached_keep:
  assumes "idem_cached s k v T" "id_items s' k = id_items s k"
    and "\<And>a. id_items s k = Some a \<Longrightarrow> a < length (id_heap s) \<Longrightarrow> ie_done (id_heap s ! a) \<Longrightarrow> a < length (id_heap s') \<and> id_heap s' ! a = id_heap s ! a"
  shows "idem_cached s' k v T"
  using assms unfolding idem_cached_def by fastforce

text \<open>A step on another key's record, or a new record for another key, leaves the cached one alone.\<close>

lemma idem_cached_other:
  assumes c: "idem_cached s k v T" and inv: "idem_inv s A" and act: "(k', a) \<in> set A"
    and items: "id_items s' = id_items s \<or> id_items s' = (id_items s)(k' := None)" and heap: "\<exists>x. id_heap s' = (id_heap s)[a := x]"
  shows "idem_cached s' k v T"
proof (rule idem_cached_keep [OF c])
  have ne: "k' \<noteq> k" using c idem_invD(4,5) [OF inv act] by (auto simp: idem_cached_def)
  then show "id_items s' k = id_items s k" using items by auto
  fix b assume "id_items s k = Some b" "b < length (id_heap s)"
  moreover from this have "b \<noteq> a" using ne idem_invD(2) [OF inv] idem_invD(4) [OF inv act] by blast
  ultimately show "b < length (id_heap s') \<and> id_heap s' ! b = id_heap s ! b" using heap by auto
qed

lemma idem_cached_placed:
  assumes c: "idem_cached s k v T" and "k' \<noteq> k"
    and pl: "\<exists>s0. idem_place zero k' s0 = (a, s') \<and> (s0 = s \<or> s0 = s\<lparr>id_items := (id_items s)(k' := None)\<rparr>)"
  shows "idem_cached s' k v T"
  using pl assms(2) by (intro idem_cached_keep [OF c]) (auto simp: idem_place_def Let_def nth_append)

text \<open>What the callers are told about a cached key.\<close>

lemma idem_cached_answers:
  assumes "idem_cached s k v T" and "t < T"
  shows "Idem_Do_begin zero t k s = (DoHit v None, s)" and "Idem_acquireMemory zero t k s = (Cached v, s)"
    and "Idem_Get_memory zero t k s = Some v"
  using assms by (auto simp: idem_cached_def Idem_Do_begin_def Idem_acquireMemory_def Idem_Get_memory_def Let_def)

lemma idem_cached_step:
  assumes "idem_step zero t (s, A) (s', A')" and inv: "idem_inv s A" and c: "idem_cached s k v T" and t: "t < T"
  shows "idem_cached s' k v T"
  using assms(1)
proof cases
  case (do_run k' a)
  then have "k' \<noteq> k" using idem_cached_answers(1) [OF c t, of zero] by auto
  then show ?thesis using idem_cached_placed [OF c _ Idem_Do_begin_run [OF do_run(2)]] by simp
next
  case (acquire k' a)
  then have "k' \<noteq> k" using idem_cached_answers(2) [OF c t, of zero] by auto
  then show ?thesis using idem_cached_placed [OF c _ Idem_acquire_granted [OF acquire(2,3)]] by simp
next
  case (do_finish k' a w e out)
  show ?thesis using idem_cached_other [OF c inv do_finish(2)] Idem_Do_finish_effect [OF do_finish(3)] by blast
next
  case (do_panic k' a)
  show ?thesis using idem_cached_other [OF c inv do_panic(2)] Idem_Do_panic_effect [OF do_panic(3)] by blast
next
  case (commit k' a w)
  show ?thesis
    using idem_cached_other [OF c inv commit(2)] Idem_commit_effect [OF commit(3) idem_invD(4) [OF inv commit(2)]] by blast
next
  case (release k' a)
  show ?thesis
    using idem_cached_other [OF c inv release(3), of s'] Idem_release_effect [OF idem_invD(4,5) [OF inv release(3)]] release(1)
    by blast
next
  case sweep
  have "id_items s' k = id_items s k"
    using c t sweep(1) Idem_gc_keeps [of s k _ t] by (auto simp: idem_cached_def)
  then show ?thesis using sweep by (intro idem_cached_keep [OF c]) simp_all
next
  case stop
  then show ?thesis by (intro idem_cached_keep [OF c]) simp_all
qed (use c in \<open>auto dest: Idem_Do_begin_hit Idem_Do_begin_wait Idem_acquire_not\<close>)

lemma idem_cached_reach:
  "rtranclp (idem_next zero T) x y \<Longrightarrow> idem_inv (fst x) (snd x) \<Longrightarrow> idem_cached (fst x) k v T \<Longrightarrow>
     idem_inv (fst y) (snd y) \<and> idem_cached (fst y) k v T"
  by (induction rule: rtranclp_induct) (auto simp: idem_next_def dest: idem_step_inv idem_cached_step)

text \<open>A successful execution is not repeated: once the tail of \<open>Do\<close> has stored a result, every later \<open>Do\<close>
  and \<open>Acquire\<close> of the key before the time to live is over is answered with that result and does not
  execute, and \<open>Get\<close> returns it, whatever other calls run in between.\<close>

theorem Idem_reuse:
  assumes "rtranclp (idem_next zero T0) (Idem_New opts, []) (s, A)" and "(k, a) \<in> set A"
    and "Idem_Do_finish now k a v None s = Some (out, s1)" and "in_i64 (now + ic_ttl (id_cfg s))"
    and "rtranclp (idem_next zero (now + ic_ttl (id_cfg s))) (s1, remove1 (k, a) A) (s2, B)"
    and "t < now + ic_ttl (id_cfg s)"
  shows "Idem_Do_begin zero t k s2 = (DoHit v None, s2) \<and> Idem_acquireMemory zero t k s2 = (Cached v, s2)
    \<and> Idem_Get_memory zero t k s2 = Some v"
proof -
  let ?T = "now + ic_ttl (id_cfg s)"
  have inv: "idem_inv s A" using idem_reach_inv [OF assms(1)] by (simp add: idem_inv_new)
  have inv1: "idem_inv s1 (remove1 (k, a) A)" using idem_step_inv [OF do_finish [OF assms(2,3)] inv] .
  have "a < length (id_heap s)" "id_items s k = Some a" using idem_invD(1,4) [OF inv] assms(2) by blast+
  then have "idem_cached s1 k v ?T"
    using assms(3,4) by (auto simp: Idem_Do_finish_def Let_def idem_cached_def dest!: idem_close_heap)
  then have "idem_cached s2 k v ?T" using idem_cached_reach [OF assms(5)] inv1 by simp
  from idem_cached_answers [OF this assms(6)] show ?thesis by simp
qed

theorem Idem_reuse_witness:
  "\<exists>(s :: (Memory, bool) Idem) s1. Idem_Do_finish 6 ''k'' 0 True None s = Some ((True, None, False), s1)
     \<and> Idem_Do_begin False 100 ''k'' s1 = (DoHit True None, s1)"
proof -
  let ?s0 = "Idem_New [] :: (Memory, bool) Idem"
  define s where "s = snd (idem_place False ''k'' ?s0)"
  have ttl: "ic_ttl (id_cfg s) = 600000000000"
    by (simp add: s_def Idem_New_def idem_place_def Let_def second_def)
  have "idem_step False 5 (?s0, []) (s, [(''k'', 0)])"
    by (rule do_run) (simp add: s_def Idem_Do_begin_def Idem_New_def Let_def idem_place_def)
  then have "idem_next False 10 (?s0, []) (s, [(''k'', 0)])" unfolding idem_next_def by (intro exI [of _ 5]) simp
  then have run: "rtranclp (idem_next False 10) (?s0, []) (s, [(''k'', 0)])" by (rule r_into_rtranclp)
  obtain s1 where fin: "Idem_Do_finish 6 ''k'' 0 True None s = Some ((True, None, False), s1)"
    by (simp add: s_def Idem_Do_finish_def Idem_New_def Let_def idem_place_def idem_close_def)
  show ?thesis
    using fin Idem_reuse [OF run _ fin _ rtranclp.rtrancl_refl, where t = 100] by (auto simp: ttl in_i64_def)
qed

section \<open>The guard interface on a shared store\<close>

context kv_store
begin

lemma acquire_absent:
  assumes "invar s" "clock_ok t1 (ic_ttl (id_cfg i))" "Idem_acquireStore un ops i t1 t2 k s = (Granted, rep, s1)"
  shows "invar s1 \<and> cell s t1 (Idem_storeKey k) = None
    \<and> cell s1 t1 (Idem_storeKey k) = Some (new_cell processingPlaceholder t1 (ic_ttl (id_cfg i)))"
proof -
  obtain s' where "Store_SetNX ops t1 (Idem_storeKey k) processingPlaceholder (ic_ttl (id_cfg i)) s = (Inr True, s')" "s' = s1"
    using assms(3) by (auto simp: Idem_acquireStore_def split: prod.splits sum.splits option.splits if_splits)
  with setnx_ok [OF assms(1,2)] show ?thesis by fastforce
qed

lemma acquire_busy:
  assumes "invar s" "clock_ok t1 (ic_ttl (id_cfg i))" "t1 \<le> t2" "cell s t1 (Idem_storeKey k) = Some c" "live_cell c t2"
    and "Idem_acquireStore un ops i t1 t2 k s = (r, rep, s1)" "\<not> (\<exists>e. r = AcquireFailed e)"
  shows "r = (if cell_bytes c = processingPlaceholder then Conflict
              else case un (cell_bytes c) of Inl e \<Rightarrow> AcquireFailed (''idempotency: unmarshal cached result: '' @ e) | Inr v \<Rightarrow> Cached v)
    \<and> invar s1 \<and> cell s1 t1 = cell s t1"
proof -
  let ?k = "Idem_storeKey k"
  obtain got s' where nx: "Store_SetNX ops t1 ?k processingPlaceholder (ic_ttl (id_cfg i)) s = (Inr got, s')"
    using assms(6,7) by (auto simp: Idem_acquireStore_def split: prod.splits sum.splits)
  have s': "\<not> got" "invar s'" "cell s' t1 = cell s t1" using setnx_ok [OF assms(1,2) nx] assms(4) by auto
  have c: "cell s' t2 ?k = Some c" using cell_later [OF s'(2) assms(3), of ?k] s'(3) assms(4,5) by simp
  obtain b where g: "Store_Get ops t2 ?k s' = Inr b"
    using assms(6,7) nx s'(1) by (auto simp: Idem_acquireStore_def split: sum.splits)
  have "b = Some (cell_bytes c)" using get_ok [OF s'(2) g] c by simp
  then show ?thesis using assms(6) nx s' g by (auto simp: Idem_acquireStore_def split: sum.splits if_splits)
qed

lemma commit_cell:
  assumes "invar s" "clock_ok t (ic_ttl (id_cfg i))" "ma v = Inr b"
    and "Store_Set ops t (Idem_storeKey k) b (ic_ttl (id_cfg i)) s = (Inr (), s')"
    and "Idem_commitStore ma ops i t k v s = (rep, s1)"
  shows "invar s1 \<and> cell s1 t (Idem_storeKey k) = Some (new_cell b t (ic_ttl (id_cfg i)))"
  using set_ok [OF assms(1,2,4)] assms(3-5) by (auto simp: Idem_commitStore_def)

end

text \<open>The in-memory store never fails, so neither does the guard on it.\<close>

lemma acquire_memory_no_setnx_error:
  "Idem_acquireStore un Memory_ops i t1 t2 k s = (AcquireFailed e, rep, s1) \<Longrightarrow> \<exists>b e'. Memory_Get t2 (Idem_storeKey k) s1 = Inr (Some b) \<and> b \<noteq> processingPlaceholder \<and> un b = Inl e'"
  using reliable.setnx_total [of t1 "Idem_storeKey k" processingPlaceholder "ic_ttl (id_cfg i)" s]
    reliable.get_total [of t2 "Idem_storeKey k" s1]
  by (auto simp: Idem_acquireStore_def Memory_ops_def split: prod.splits sum.splits option.splits if_splits)

text \<open>The guard on a shared store is at-most-once: after one process was granted a key, every \<open>Acquire\<close> by any
  process before the lease ends gets \<open>ErrConflict\<close>; once the holder commits a value, every \<open>Acquire\<close>
  before the time to live ends gets that value (JSON decodes what it encoded, and no JSON text is the
  placeholder).\<close>

theorem Idem_guard_store:
  assumes "Memory_inv s" and "0 < ic_ttl (id_cfg i)" and "clock_ok t0 (ic_ttl (id_cfg i))"
    and "Idem_acquireStore un Memory_ops i t0 t0' k s = (Granted, rep, s1)"
    and "ma v = Inr b" and "un b = Inr v" and "b \<noteq> processingPlaceholder"
  shows "(t0 \<le> t1 \<and> t1 \<le> t2 \<and> t2 < t0 + ic_ttl (id_cfg i) \<and> clock_ok t1 (ic_ttl (id_cfg i')) \<longrightarrow>
      fst (Idem_acquireStore un Memory_ops i' t1 t2 k s1) = Conflict)
    \<and> (t0 \<le> tc \<and> clock_ok tc (ic_ttl (id_cfg i)) \<and> tc \<le> t1 \<and> t1 \<le> t2 \<and> t2 < tc + ic_ttl (id_cfg i) \<and> clock_ok t1 (ic_ttl (id_cfg i')) \<longrightarrow>
      fst (Idem_acquireStore un Memory_ops i' t1 t2 k (snd (Idem_commitStore ma Memory_ops i tc k v s1))) = Cached v)"
proof -
  let ?k = "Idem_storeKey k" and ?ttl = "ic_ttl (id_cfg i)"
  have s1: "Memory_inv s1" "Memory_cell s1 t0 ?k = Some (new_cell processingPlaceholder t0 ?ttl)"
    using mem.acquire_absent [OF assms(1,3,4)] by simp_all
  have busy: "fst (Idem_acquireStore un Memory_ops i' t1 t2 k st) =
      (if w = processingPlaceholder then Conflict else Cached v)"
    if "Memory_inv st" "Memory_cell st u ?k = Some (new_cell w u ?ttl)" "u \<le> t1" "t1 \<le> t2" "t2 < u + ?ttl"
      "clock_ok t1 (ic_ttl (id_cfg i'))" "w = processingPlaceholder \<or> un w = Inr v" for st w u
  proof -
    obtain r rep' st' where ac: "Idem_acquireStore un Memory_ops i' t1 t2 k st = (r, rep', st')" by (metis prod.exhaust)
    have c: "Memory_cell st t1 ?k = Some (new_cell w u ?ttl)"
      using mem.cell_later [OF that(1,3), of ?k] that by simp
    have c2: "Memory_cell st t2 ?k = Some (new_cell w u ?ttl)"
      using mem.cell_later [OF that(1), of u t2 ?k] that by simp
    have "\<not> (\<exists>e. r = AcquireFailed e)"
    proof
      assume "\<exists>e. r = AcquireFailed e"
      then obtain b' e' where "Memory_Get t2 ?k st' = Inr (Some b')" "b' \<noteq> processingPlaceholder" "un b' = Inl e'"
        using acquire_memory_no_setnx_error ac by blast
      moreover have "st' = st"
        using ac c by (auto simp: Idem_acquireStore_def Memory_ops_def Memory_SetNX_def Memory_cell_def
            split: option.splits if_splits sum.splits)
      ultimately show False using mem.get_ok [OF that(1), of t2 ?k "Some b'"] c2 that(7) by (auto simp: Memory_ops_def)
    qed
    from mem.acquire_busy [OF that(1,6,4) c _ ac this] show ?thesis using that(5,7) ac by auto
  qed
  moreover have "fst (Idem_acquireStore un Memory_ops i' t1 t2 k (snd (Idem_commitStore ma Memory_ops i tc k v s1))) = Cached v"
    if a: "t0 \<le> tc" "clock_ok tc ?ttl" "tc \<le> t1" "t1 \<le> t2" "t2 < tc + ?ttl" "clock_ok t1 (ic_ttl (id_cfg i'))"
  proof -
    obtain rep' s2 where cm: "Idem_commitStore ma Memory_ops i tc k v s1 = (rep', s2)" by force
    obtain s' where st: "Store_Set Memory_ops tc ?k b ?ttl s1 = (Inr (), s')" using reliable.set_total by blast
    have "Memory_inv s2" "Memory_cell s2 tc ?k = Some (new_cell b tc ?ttl)"
      using mem.commit_cell [OF s1(1) a(2) assms(5) st cm] by simp_all
    with a busy [where st = s2 and w = b and u = tc] assms(6,7) cm show ?thesis by simp
  qed
  ultimately show ?thesis using busy [OF s1] by simp
qed

theorem Idem_guard_store_witness:
  "let i = Idem_New [] :: (Memory, bool) Idem;
       ma = (\<lambda>v. Inr (if v then ''true'' else ''false'')); un = (\<lambda>b. if b = ''true'' then Inr True else if b = ''false'' then Inr False else Inl ''syntax'');
       s1 = snd (snd (Idem_acquireStore un Memory_ops i 10 10 ''k'' NewMemory))
   in fst (Idem_acquireStore un Memory_ops i 11 11 ''k'' s1) = Conflict
     \<and> fst (Idem_acquireStore un Memory_ops i 13 13 ''k'' (snd (Idem_commitStore ma Memory_ops i 12 ''k'' True s1))) = Cached True"
proof -
  let ?i = "Idem_New [] :: (Memory, bool) Idem"
  let ?ma = "\<lambda>v. Inr (if v then ''true'' else ''false'') :: err + bytes"
  let ?un = "\<lambda>b. if b = ''true'' then Inr True else if b = ''false'' then Inr False else Inl ''syntax''"
  have ttl: "ic_ttl (id_cfg ?i) = 600000000000" by (simp add: Idem_New_def Let_def second_def)
  obtain s1 where ac: "Idem_acquireStore ?un Memory_ops ?i 10 10 ''k'' NewMemory = (Granted, [], s1)"
    by (simp add: Idem_acquireStore_def Memory_ops_def Memory_SetNX_def NewMemory_def)
  have "Memory_inv NewMemory" by (simp add: Memory_inv_def NewMemory_def)
  note g = Idem_guard_store [OF this _ _ ac, where v = True and ma = ?ma and b = "''true''" and i' = ?i]
  have "fst (Idem_acquireStore ?un Memory_ops ?i 11 11 ''k'' s1) = Conflict"
    using g [THEN conjunct1, rule_format] by (simp add: ttl clock_ok_def processingPlaceholder_def)
  moreover have "fst (Idem_acquireStore ?un Memory_ops ?i 13 13 ''k'' (snd (Idem_commitStore ?ma Memory_ops ?i 12 ''k'' True s1))) = Cached True"
    using g [THEN conjunct2, rule_format, where tc = 12] by (simp add: ttl clock_ok_def processingPlaceholder_def)
  ultimately show ?thesis by (simp add: Let_def ac)
qed

end
