(* ===== verification/Wallet.thy ===== *)
theory Wallet
  imports Prelude
begin

text \<open>
  \<open>pkg/domain/wallet\<close>: accounts with a balance per currency and an append-only ledger. A changeset, a Go
  map, is the list of its entries in the order of the iteration, with distinct keys. The mutex makes
  every operation atomic. The theory proves that the balance is always the sum of the ledger and never
  negative, that nothing overflows, and that \<open>ApplyTx\<close> applies a transaction once.
\<close>

section \<open>The wallet\<close>

type_synonym WalletMap = "(key \<times> int) list"

record Ledger =
  lg_ID :: int
  lg_OwnerID :: key
  lg_Changeset :: WalletMap
  lg_Metadata :: string
  lg_CreateTime :: time

record Account =
  ac_Balance :: "key \<rightharpoonup> int"
  ac_ledgers :: "Ledger list"

record txResult =
  tx_affected :: WalletMap
  tx_ledgerID :: int

record Wallet =
  wl_accounts :: "key \<rightharpoonup> Account"
  wl_seq :: int
  wl_txIndex :: "key \<rightharpoonup> txResult"

datatype wallet_err =
    EmptyChangeset
  | EmptyTxID
  | ErrInsufficientBalance key int int

definition Wallet_New :: Wallet where
  "Wallet_New = \<lparr>wl_accounts = Map.empty, wl_seq = 0, wl_txIndex = Map.empty\<rparr>"

definition addBalance :: "int \<Rightarrow> int \<Rightarrow> int \<times> bool" where
  "addBalance balance delta =
     (let s = wrap64 (balance + delta)
      in if (0 < delta \<and> s < balance) \<or> (delta < 0 \<and> balance < s) then (0, False) else (s, True))"

text \<open>The loop that computes the new balances, shared by \<open>Apply\<close> and \<open>ApplyTx\<close>.\<close>

primrec Wallet_newBal :: "(key \<rightharpoonup> int) \<Rightarrow> WalletMap \<Rightarrow> wallet_err + WalletMap" where
  "Wallet_newBal bal [] = Inr []"
| "Wallet_newBal bal (p # cs) =
     (case addBalance (map_get 0 bal (fst p)) (snd p) of
        (newVal, ok) \<Rightarrow>
          if \<not> ok \<or> newVal < 0 then Inl (ErrInsufficientBalance (fst p) (snd p) (map_get 0 bal (fst p)))
          else (case Wallet_newBal bal cs of Inl e \<Rightarrow> Inl e | Inr r \<Rightarrow> Inr ((fst p, newVal) # r)))"

definition empty_account :: Account where
  "empty_account = \<lparr>ac_Balance = Map.empty, ac_ledgers = []\<rparr>"

definition Wallet_account :: "Wallet \<Rightarrow> key \<Rightarrow> Account" where
  "Wallet_account w owner = (case wl_accounts w owner of None \<Rightarrow> empty_account | Some a \<Rightarrow> a)"

text \<open>The critical section of \<open>Apply\<close>: a failed call leaves the account it may have created.\<close>

definition Wallet_applyLocked :: "key \<Rightarrow> WalletMap \<Rightarrow> string \<Rightarrow> time \<Rightarrow> Wallet \<Rightarrow> (wallet_err + WalletMap \<times> Ledger) \<times> Wallet" where
  "Wallet_applyLocked owner cs meta now w =
     (let acc = Wallet_account w owner;
          w1 = w\<lparr>wl_accounts := (wl_accounts w)(owner \<mapsto> acc)\<rparr>
      in case Wallet_newBal (ac_Balance acc) cs of
           Inl e \<Rightarrow> (Inl e, w1)
         | Inr aff \<Rightarrow>
             let i = wrap64 (wl_seq w + 1);
                 l = \<lparr>lg_ID = i, lg_OwnerID = owner, lg_Changeset = cs, lg_Metadata = meta, lg_CreateTime = now\<rparr>;
                 acc' = \<lparr>ac_Balance = ac_Balance acc ++ map_of aff, ac_ledgers = ac_ledgers acc @ [l]\<rparr>
             in (Inr (aff, l), w1\<lparr>wl_accounts := (wl_accounts w1)(owner \<mapsto> acc'), wl_seq := i\<rparr>))"

definition Wallet_Apply :: "key \<Rightarrow> WalletMap \<Rightarrow> string \<Rightarrow> time \<Rightarrow> Wallet \<Rightarrow> (wallet_err + WalletMap \<times> Ledger) \<times> Wallet" where
  "Wallet_Apply owner cs meta now w =
     (if cs = [] then (Inl EmptyChangeset, w) else Wallet_applyLocked owner cs meta now w)"

definition Wallet_ledgerByID :: "Wallet \<Rightarrow> key \<Rightarrow> int \<Rightarrow> Ledger option" where
  "Wallet_ledgerByID w owner i =
     (case wl_accounts w owner of None \<Rightarrow> None | Some acc \<Rightarrow> find (\<lambda>l. lg_ID l = i) (ac_ledgers acc))"

definition txKey :: "key \<Rightarrow> key \<Rightarrow> key" where
  "txKey txID owner = txID @ [CHR 0x00] @ owner"

definition Wallet_ApplyTx :: "key \<Rightarrow> key \<Rightarrow> WalletMap \<Rightarrow> string \<Rightarrow> time \<Rightarrow> Wallet
    \<Rightarrow> (wallet_err + WalletMap \<times> Ledger option \<times> bool) \<times> Wallet" where
  "Wallet_ApplyTx txID owner cs meta now w =
     (if txID = [] then (Inl EmptyTxID, w)
      else if cs = [] then (Inl EmptyChangeset, w)
      else case wl_txIndex w (txKey txID owner) of
             Some prev \<Rightarrow> (Inr (tx_affected prev, Wallet_ledgerByID w owner (tx_ledgerID prev), True), w)
           | None \<Rightarrow>
               (case Wallet_applyLocked owner cs meta now w of
                  (Inl e, w') \<Rightarrow> (Inl e, w')
                | (Inr (aff, l), w') \<Rightarrow>
                    (Inr (aff, Some l, False),
                     w'\<lparr>wl_txIndex := (wl_txIndex w')(txKey txID owner \<mapsto> \<lparr>tx_affected = aff, tx_ledgerID = lg_ID l\<rparr>)\<rparr>)))"

definition Wallet_Balance :: "Wallet \<Rightarrow> key \<Rightarrow> (key \<rightharpoonup> int)" where
  "Wallet_Balance w owner = (case wl_accounts w owner of None \<Rightarrow> Map.empty | Some acc \<Rightarrow> ac_Balance acc)"

definition Wallet_Ledgers :: "Wallet \<Rightarrow> key \<Rightarrow> Ledger list" where
  "Wallet_Ledgers w owner = (case wl_accounts w owner of None \<Rightarrow> [] | Some acc \<Rightarrow> ac_ledgers acc)"

definition Wallet_Accounts :: "Wallet \<Rightarrow> key set" where
  "Wallet_Accounts w = dom (wl_accounts w)"

definition Wallet_SetBalance :: "key \<Rightarrow> WalletMap \<Rightarrow> Wallet \<Rightarrow> Wallet" where
  "Wallet_SetBalance owner bal w =
     w\<lparr>wl_accounts := (wl_accounts w)(owner \<mapsto> (Wallet_account w owner)\<lparr>ac_Balance := map_of bal\<rparr>)\<rparr>"

section \<open>Balance arithmetic\<close>

lemma addBalance_exact:
  assumes "in_i64 b" and "in_i64 d"
  shows "addBalance b d = (if in_i64 (b + d) then (b + d, True) else (0, False))"
proof -
  have "wrap64 (b + d) = (if b + d < - (2 ^ 63) then b + d + 2 ^ 64 else if 2 ^ 63 \<le> b + d then b + d - 2 ^ 64 else b + d)"
    by (rule wrap64_add_cases [OF assms])
  then show ?thesis using assms by (auto simp: addBalance_def in_i64_def Let_def)
qed

text \<open>Every balance is a non-negative 64-bit number.\<close>

definition balance_ok :: "(key \<rightharpoonup> int) \<Rightarrow> bool" where
  "balance_ok bal \<longleftrightarrow> (\<forall>c. 0 \<le> map_get 0 bal c \<and> map_get 0 bal c < 2 ^ 63)"

lemma balance_okD: "balance_ok bal \<Longrightarrow> 0 \<le> map_get 0 bal c \<and> map_get 0 bal c < 2 ^ 63 \<and> in_i64 (map_get 0 bal c)"
proof -
  assume "balance_ok bal"
  then have "0 \<le> map_get 0 bal c \<and> map_get 0 bal c < 2 ^ 63" by (simp add: balance_ok_def)
  then show ?thesis by (simp add: in_i64_def)
qed

definition changeset_ok :: "WalletMap \<Rightarrow> bool" where
  "changeset_ok cs \<longleftrightarrow> distinct (map fst cs) \<and> (\<forall>p\<in>set cs. in_i64 (snd p))"

text \<open>The change a changeset makes to one currency.\<close>

definition delta_of :: "WalletMap \<Rightarrow> key \<Rightarrow> int" where
  "delta_of cs c = (\<Sum>p\<leftarrow>cs. if fst p = c then snd p else 0)"

lemma delta_of_Nil [simp]: "delta_of [] c = 0"
  and delta_of_Cons [simp]: "delta_of (p # cs) c = (if fst p = c then snd p else 0) + delta_of cs c"
  by (simp_all add: delta_of_def)

lemma delta_of_notin: "c \<notin> fst ` set cs \<Longrightarrow> delta_of cs c = 0"
  by (induction cs) auto

lemma Wallet_newBal_ok:
  assumes "balance_ok bal" "changeset_ok cs" "Wallet_newBal bal cs = Inr aff"
  shows "map_get 0 (bal ++ map_of aff) c = map_get 0 bal c + delta_of cs c
    \<and> 0 \<le> map_get 0 bal c + delta_of cs c \<and> map_get 0 bal c + delta_of cs c < 2 ^ 63 \<and> map fst aff = map fst cs"
  using assms(2,3)
proof (induction cs arbitrary: aff)
  case Nil
  then show ?case using assms(1) by (simp add: balance_ok_def)
next
  case (Cons p cs)
  obtain cur d where p: "p = (cur, d)" by force
  let ?b = "map_get 0 bal cur"
  have b: "in_i64 ?b" "in_i64 d" "0 \<le> ?b" "?b < 2 ^ 63" and cs: "changeset_ok cs" "cur \<notin> fst ` set cs"
    using balance_okD [OF assms(1)] Cons.prems(1) p by (auto simp: changeset_ok_def)
  from Cons.prems(2) p obtain r where r: "Wallet_newBal bal cs = Inr r" "aff = (cur, ?b + d) # r" "0 \<le> ?b + d" "in_i64 (?b + d)"
    by (auto simp: addBalance_exact [OF b(1,2)] split: if_splits sum.splits)
  have IH: "map_get 0 (bal ++ map_of r) c = map_get 0 bal c + delta_of cs c
      \<and> 0 \<le> map_get 0 bal c + delta_of cs c \<and> map_get 0 bal c + delta_of cs c < 2 ^ 63 \<and> map fst r = map fst cs"
    by (rule Cons.IH [OF cs(1) r(1)])
  show ?case
    using IH r(2-4) p delta_of_notin [OF cs(2)] by (auto simp: in_i64_def map_get_add)
qed

lemma Wallet_newBal_error:
  assumes "balance_ok bal" "changeset_ok cs" "Wallet_newBal bal cs = Inl e"
  shows "\<exists>p\<in>set cs. e = ErrInsufficientBalance (fst p) (snd p) (map_get 0 bal (fst p))
    \<and> (map_get 0 bal (fst p) + snd p < 0 \<or> 2 ^ 63 \<le> map_get 0 bal (fst p) + snd p)"
  using assms(2,3)
proof (induction cs)
  case (Cons p cs)
  let ?b = "map_get 0 bal (fst p)"
  have b: "in_i64 ?b" "in_i64 (snd p)" and cs: "changeset_ok cs"
    using balance_okD [OF assms(1)] Cons.prems(1) by (auto simp: changeset_ok_def)
  show ?case
  proof (cases "in_i64 (?b + snd p) \<and> 0 \<le> ?b + snd p")
    case True
    then have "Wallet_newBal bal cs = Inl e"
      using Cons.prems(2) by (auto simp: addBalance_exact [OF b] split: sum.splits)
    then show ?thesis using Cons.IH [OF cs] by auto
  next
    case False
    then have "e = ErrInsufficientBalance (fst p) (snd p) ?b"
      using Cons.prems(2) by (auto simp: addBalance_exact [OF b] split: if_splits)
    then show ?thesis using False b by (auto simp: in_i64_def)
  qed
qed simp

lemma delta_of_distinct: "distinct (map fst cs) \<Longrightarrow> p \<in> set cs \<Longrightarrow> delta_of cs (fst p) = snd p"
  by (induction cs) (auto simp: delta_of_notin image_iff)

lemma Wallet_newBal_iff:
  assumes "balance_ok bal" "changeset_ok cs"
  shows "(\<exists>aff. Wallet_newBal bal cs = Inr aff) \<longleftrightarrow>
     (\<forall>p\<in>set cs. 0 \<le> map_get 0 bal (fst p) + snd p \<and> map_get 0 bal (fst p) + snd p < 2 ^ 63)"
proof (cases "Wallet_newBal bal cs")
  case (Inl e)
  then show ?thesis using Wallet_newBal_error [OF assms Inl] by force
next
  case (Inr aff)
  have "0 \<le> map_get 0 bal (fst p) + snd p \<and> map_get 0 bal (fst p) + snd p < 2 ^ 63" if "p \<in> set cs" for p
    using Wallet_newBal_ok [OF assms Inr, of "fst p"] delta_of_distinct [OF _ that] assms(2) by (simp add: changeset_ok_def)
  then show ?thesis using Inr by blast
qed

section \<open>The ledger explains the balance\<close>

definition account_ok :: "key \<Rightarrow> int \<Rightarrow> Account \<Rightarrow> bool" where
  "account_ok owner seq acc \<longleftrightarrow>
     balance_ok (ac_Balance acc)
     \<and> (\<forall>c. map_get 0 (ac_Balance acc) c = (\<Sum>l\<leftarrow>ac_ledgers acc. delta_of (lg_Changeset l) c))
     \<and> (\<forall>l\<in>set (ac_ledgers acc). lg_OwnerID l = owner \<and> lg_ID l \<le> seq)
     \<and> sorted_wrt (<) (map lg_ID (ac_ledgers acc))"

definition wallet_inv :: "Wallet \<Rightarrow> bool" where
  "wallet_inv w \<longleftrightarrow> 0 \<le> wl_seq w \<and> (\<forall>owner. account_ok owner (wl_seq w) (Wallet_account w owner))"

lemma account_ok_empty [simp]: "account_ok owner seq empty_account"
  by (simp add: account_ok_def empty_account_def balance_ok_def)

lemma account_ok_mono: "account_ok owner seq acc \<Longrightarrow> seq \<le> seq' \<Longrightarrow> account_ok owner seq' acc"
  by (auto simp: account_ok_def)

lemma Wallet_account_upd [simp]:
  "Wallet_account (w\<lparr>wl_accounts := (wl_accounts w)(owner \<mapsto> acc)\<rparr>) o' = (if o' = owner then acc else Wallet_account w o')"
  "Wallet_account (w\<lparr>wl_seq := n\<rparr>) o' = Wallet_account w o'"
  "Wallet_account (w\<lparr>wl_txIndex := tx\<rparr>) o' = Wallet_account w o'"
  by (simp_all add: Wallet_account_def)

lemma Wallet_Balance_account: "Wallet_Balance w owner = ac_Balance (Wallet_account w owner)"
  by (simp add: Wallet_Balance_def Wallet_account_def empty_account_def split: option.split)

lemma Wallet_Ledgers_account: "Wallet_Ledgers w owner = ac_ledgers (Wallet_account w owner)"
  by (simp add: Wallet_Ledgers_def Wallet_account_def empty_account_def split: option.split)

lemma wallet_inv_new: "wallet_inv Wallet_New"
  by (simp add: wallet_inv_def Wallet_New_def Wallet_account_def)

text \<open>The two outcomes of the critical section.\<close>

lemma applyLocked_error:
  assumes "Wallet_applyLocked owner cs meta now w = (Inl e, w')"
  shows "Wallet_newBal (Wallet_Balance w owner) cs = Inl e" and "Wallet_account w' = Wallet_account w"
    and "wl_seq w' = wl_seq w" and "wl_txIndex w' = wl_txIndex w"
  using assms by (auto simp: Wallet_applyLocked_def Wallet_Balance_account Let_def fun_eq_iff split: sum.splits)

lemma applyLocked_ok:
  assumes "Wallet_applyLocked owner cs meta now w = (Inr (aff, l), w')"
  shows "Wallet_newBal (Wallet_Balance w owner) cs = Inr aff"
    and "l = \<lparr>lg_ID = wrap64 (wl_seq w + 1), lg_OwnerID = owner, lg_Changeset = cs, lg_Metadata = meta, lg_CreateTime = now\<rparr>"
    and "wl_seq w' = wrap64 (wl_seq w + 1)" and "wl_txIndex w' = wl_txIndex w"
    and "Wallet_account w' = (Wallet_account w)(owner := \<lparr>ac_Balance = Wallet_Balance w owner ++ map_of aff, ac_ledgers = Wallet_Ledgers w owner @ [l]\<rparr>)"
  using assms by (auto simp: Wallet_applyLocked_def Wallet_Balance_account Wallet_Ledgers_account Let_def fun_eq_iff split: sum.splits)

lemma account_ok_apply:
  assumes ok: "account_ok owner seq acc" and cs: "changeset_ok cs" and nb: "Wallet_newBal (ac_Balance acc) cs = Inr aff"
    and l: "lg_ID l = seq + 1" "lg_OwnerID l = owner" "lg_Changeset l = cs"
  shows "account_ok owner (seq + 1) \<lparr>ac_Balance = ac_Balance acc ++ map_of aff, ac_ledgers = ac_ledgers acc @ [l]\<rparr>"
proof -
  have bal: "balance_ok (ac_Balance acc)" and ids: "\<forall>l\<in>set (ac_ledgers acc). lg_OwnerID l = owner \<and> lg_ID l \<le> seq"
    and sorted: "sorted_wrt (<) (map lg_ID (ac_ledgers acc))"
    and sum: "\<And>c. map_get 0 (ac_Balance acc) c = (\<Sum>l\<leftarrow>ac_ledgers acc. delta_of (lg_Changeset l) c)"
    using ok by (simp_all add: account_ok_def)
  note new = Wallet_newBal_ok [OF bal cs nb]
  have "balance_ok (ac_Balance acc ++ map_of aff)" using new by (simp add: balance_ok_def)
  moreover have "map_get 0 (ac_Balance acc ++ map_of aff) c = (\<Sum>l\<leftarrow>ac_ledgers acc @ [l]. delta_of (lg_Changeset l) c)" for c
    using new [of c] sum [of c] l(3) by simp
  moreover have "sorted_wrt (<) (map lg_ID (ac_ledgers acc @ [l]))"
    using sorted ids l(1) by (force simp: sorted_wrt_append)
  moreover have "\<forall>k\<in>set (ac_ledgers acc @ [l]). lg_OwnerID k = owner \<and> lg_ID k \<le> seq + 1" using ids l by force
  ultimately show ?thesis by (simp add: account_ok_def)
qed

lemma wallet_inv_applyLocked:
  assumes inv: "wallet_inv w" and cs: "changeset_ok cs" and seq: "wl_seq w + 1 < 2 ^ 63"
    and ap: "Wallet_applyLocked owner cs meta now w = (r, w')"
  shows "wallet_inv w' \<and> wl_seq w' \<le> wl_seq w + 1"
proof (cases r)
  case (Inl e)
  note err = applyLocked_error [OF ap [unfolded Inl]]
  show ?thesis using inv err by (simp add: wallet_inv_def)
next
  case (Inr p)
  obtain aff l where r: "r = Inr (aff, l)" using Inr by (cases p) simp
  note ok = applyLocked_ok [OF ap [unfolded r]]
  have i: "wrap64 (wl_seq w + 1) = wl_seq w + 1" using inv seq by (simp add: wallet_inv_def in_i64_def)
  have "account_ok owner (wl_seq w + 1) (Wallet_account w' owner)"
    using account_ok_apply [of owner "wl_seq w" "Wallet_account w owner" cs aff l] inv cs ok i
    by (simp add: wallet_inv_def Wallet_Balance_account Wallet_Ledgers_account)
  moreover have "account_ok o' (wl_seq w + 1) (Wallet_account w' o')" if "o' \<noteq> owner" for o'
    using that ok(5) inv account_ok_mono [of o' "wl_seq w" "Wallet_account w o'" "wl_seq w + 1"] by (simp add: wallet_inv_def)
  ultimately have "account_ok o' (wl_seq w + 1) (Wallet_account w' o')" for o' by (cases "o' = owner") simp_all
  then show ?thesis using inv ok(3) i by (simp add: wallet_inv_def)
qed

section \<open>Sequences of operations\<close>

datatype wallet_op =
    OpApply key WalletMap string time
  | OpApplyTx key key WalletMap string time

fun wallet_exec :: "wallet_op \<Rightarrow> Wallet \<Rightarrow> Wallet" where
  "wallet_exec (OpApply owner cs meta now) w = snd (Wallet_Apply owner cs meta now w)"
| "wallet_exec (OpApplyTx tx owner cs meta now) w = snd (Wallet_ApplyTx tx owner cs meta now w)"

fun op_changeset :: "wallet_op \<Rightarrow> WalletMap" where
  "op_changeset (OpApply owner cs meta now) = cs"
| "op_changeset (OpApplyTx tx owner cs meta now) = cs"

lemma wallet_exec_inv:
  assumes inv: "wallet_inv w" and cs: "changeset_ok (op_changeset op)" and seq: "wl_seq w + 1 < 2 ^ 63"
  shows "wallet_inv (wallet_exec op w) \<and> wl_seq (wallet_exec op w) \<le> wl_seq w + 1"
proof (cases op)
  case (OpApply owner cs meta now)
  then show ?thesis
    using wallet_inv_applyLocked [OF inv _ seq, of cs owner meta now] cs inv
    by (auto simp: Wallet_Apply_def) (metis prod.collapse)+
next
  case (OpApplyTx tx owner cs meta now)
  obtain r w' where ap: "Wallet_applyLocked owner cs meta now w = (r, w')" by force
  have "wallet_inv w' \<and> wl_seq w' \<le> wl_seq w + 1"
    using wallet_inv_applyLocked [OF inv _ seq ap] cs OpApplyTx by simp
  then show ?thesis
    using OpApplyTx ap inv by (auto simp: Wallet_ApplyTx_def wallet_inv_def split: option.splits sum.splits prod.splits)
qed

lemma wallet_run_inv:
  "wallet_inv w \<Longrightarrow> \<forall>op\<in>set ops. changeset_ok (op_changeset op) \<Longrightarrow> wl_seq w + int (length ops) < 2 ^ 63 \<Longrightarrow>
     wallet_inv (fold wallet_exec ops w) \<and> wl_seq (fold wallet_exec ops w) \<le> wl_seq w + int (length ops)"
proof (induction ops arbitrary: w)
  case (Cons op ops)
  have "wallet_inv (wallet_exec op w) \<and> wl_seq (wallet_exec op w) \<le> wl_seq w + 1"
    using Cons.prems by (intro wallet_exec_inv) simp_all
  then show ?case using Cons.IH [of "wallet_exec op w"] Cons.prems by simp
qed simp



text \<open>C4. \<open>Apply\<close> is all or nothing: it succeeds exactly when every currency of the changeset ends in the range
  from zero to the largest 64-bit number; then it adds the changeset to the owner's balance and touches
  no other account, and when it fails no balance and no ledger changes.\<close>

theorem Wallet_Apply_atomic:
  assumes "wallet_inv w" and "changeset_ok cs" and "cs \<noteq> []" and "Wallet_Apply owner cs meta now w = (r, w')"
  shows "(isl r \<longleftrightarrow> (\<exists>p\<in>set cs. map_get 0 (Wallet_Balance w owner) (fst p) + snd p < 0
                        \<or> 2 ^ 63 \<le> map_get 0 (Wallet_Balance w owner) (fst p) + snd p))
    \<and> map_get 0 (Wallet_Balance w' o') c =
        map_get 0 (Wallet_Balance w o') c + (if isl r \<or> o' \<noteq> owner then 0 else delta_of cs c)
    \<and> (isl r \<or> o' \<noteq> owner \<longrightarrow> Wallet_Ledgers w' o' = Wallet_Ledgers w o')"
proof -
  have bal: "balance_ok (Wallet_Balance w owner)"
    using assms(1) by (simp add: wallet_inv_def account_ok_def Wallet_Balance_account)
  have ap: "Wallet_applyLocked owner cs meta now w = (r, w')" using assms(3,4) by (simp add: Wallet_Apply_def)
  have iff: "isl r \<longleftrightarrow> (\<nexists>aff. Wallet_newBal (Wallet_Balance w owner) cs = Inr aff)"
    using ap by (auto simp: Wallet_applyLocked_def Wallet_Balance_account Let_def split: sum.splits)
  have 1: "isl r \<longleftrightarrow> (\<exists>p\<in>set cs. map_get 0 (Wallet_Balance w owner) (fst p) + snd p < 0
                        \<or> 2 ^ 63 \<le> map_get 0 (Wallet_Balance w owner) (fst p) + snd p)"
    unfolding iff Wallet_newBal_iff [OF bal assms(2)] by force
  show ?thesis
  proof (cases r)
    case (Inl e)
    from applyLocked_error [OF ap [unfolded Inl]] 1 Inl show ?thesis
      by (simp add: Wallet_Balance_account Wallet_Ledgers_account)
  next
    case (Inr p)
    then obtain aff l where r: "r = Inr (aff, l)" by (cases p) simp
    from applyLocked_ok [OF ap [unfolded r]] 1 r Wallet_newBal_ok [OF bal assms(2), of aff c] show ?thesis
      by (simp add: Wallet_Balance_account Wallet_Ledgers_account)
  qed
qed

theorem Wallet_Apply_atomic_witness:
  "isl (fst (Wallet_Apply ''u'' [(''a'', 5), (''b'', -1)] [] 1 Wallet_New))
   \<and> map_get 0 (Wallet_Balance (snd (Wallet_Apply ''u'' [(''a'', 5), (''b'', -1)] [] 1 Wallet_New)) ''u'') ''a'' = 0"
proof -
  have "changeset_ok [(''a'', 5), (''b'', -1)]" by (simp add: changeset_ok_def in_i64_def)
  from Wallet_Apply_atomic [OF wallet_inv_new this _ prod.collapse [symmetric]] show ?thesis
    by (simp add: Wallet_Balance_def Wallet_New_def)
qed

section \<open>A transaction is applied once\<close>

definition tx_done :: "key \<Rightarrow> key \<Rightarrow> WalletMap \<Rightarrow> Ledger \<Rightarrow> Wallet \<Rightarrow> bool" where
  "tx_done tx owner aff l w \<longleftrightarrow>
     wl_txIndex w (txKey tx owner) = Some \<lparr>tx_affected = aff, tx_ledgerID = lg_ID l\<rparr> \<and> l \<in> set (Wallet_Ledgers w owner)"

lemma find_unique_ID:
  "sorted_wrt (<) (map lg_ID ls) \<Longrightarrow> l \<in> set ls \<Longrightarrow> find (\<lambda>x. lg_ID x = lg_ID l) ls = Some l"
  by (induction ls) auto

lemma tx_done_replay:
  assumes "wallet_inv w" "tx_done tx owner aff l w" "tx \<noteq> []" "cs \<noteq> []"
  shows "Wallet_ApplyTx tx owner cs meta now w = (Inr (aff, Some l, True), w)"
proof -
  have "sorted_wrt (<) (map lg_ID (Wallet_Ledgers w owner))"
    using assms(1) by (simp add: wallet_inv_def account_ok_def Wallet_Ledgers_account)
  then have "Wallet_ledgerByID w owner (lg_ID l) = Some l"
    using find_unique_ID assms(2) by (auto simp: tx_done_def Wallet_Ledgers_def Wallet_ledgerByID_def split: option.splits)
  then show ?thesis using assms by (simp add: Wallet_ApplyTx_def tx_done_def)
qed

lemma tx_done_locked:
  "tx_done tx owner aff l w \<Longrightarrow> Wallet_applyLocked o' cs meta now w = (r, w') \<Longrightarrow> tx_done tx owner aff l w'"
  by (cases r) (auto simp: tx_done_def Wallet_Ledgers_account dest: applyLocked_error applyLocked_ok(4,5))

lemma tx_done_exec:
  assumes "tx_done tx owner aff l w"
  shows "tx_done tx owner aff l (wallet_exec op w)"
proof (cases op)
  case (OpApply o' cs meta now)
  obtain r w' where ap: "Wallet_applyLocked o' cs meta now w = (r, w')" by force
  show ?thesis using tx_done_locked [OF assms ap] assms OpApply ap by (simp add: Wallet_Apply_def)
next
  case (OpApplyTx tx' o' cs meta now)
  obtain r w' where ap: "Wallet_applyLocked o' cs meta now w = (r, w')" by force
  have "tx_done tx owner aff l w'" by (rule tx_done_locked [OF assms ap])
  moreover have "txKey tx owner \<noteq> txKey tx' o'" if "wl_txIndex w (txKey tx' o') = None"
    using that assms by (auto simp: tx_done_def)
  ultimately show ?thesis using OpApplyTx ap assms
    by (auto simp: Wallet_ApplyTx_def tx_done_def Wallet_Ledgers_account split: option.splits sum.splits prod.splits)
qed

lemma tx_done_run: "tx_done tx owner aff l w \<Longrightarrow> tx_done tx owner aff l (fold wallet_exec ops w)"
  by (induction ops arbitrary: w) (simp_all add: tx_done_exec)



end
