(* ===== verification/Compensation.thy ===== *)
theory Compensation
  imports Prelude
begin

text \<open>
  \<open>pkg/foundation/safe\<close> and what the three transaction coordinators (\<open>txn\<close>, \<open>saga\<close>, \<open>tcc\<close>) rely on. A user
  function is a function on the state of the world that returns an error or panics. The locale
  \<open>compensable\<close> states the contract of the user's operations that the coordinators' documentation asks
  for: an operation that failed changed nothing, and the compensation of an operation that succeeded
  takes its effect back. The clients' undo argument is proved once here.
\<close>

section \<open>Running user functions\<close>

datatype call =
    Done "err option"
  | Panicked string

type_synonym 'w act = "'w \<Rightarrow> call \<times> 'w"

datatype run_err =
    Err err
  | PanicError string

fun call_err :: "call \<Rightarrow> run_err option" where
  "call_err (Done None) = None"
| "call_err (Done (Some e)) = Some (Err e)"
| "call_err (Panicked v) = Some (PanicError v)"

definition safe_Run :: "'w act \<Rightarrow> 'w \<Rightarrow> run_err option \<times> 'w" where
  "safe_Run fn w = (case fn w of (c, w') \<Rightarrow> (call_err c, w'))"

text \<open>\<open>safe.Go\<close>: the function runs in its own goroutine; a panic reaches at most the callback.\<close>

definition safe_Go :: "'w act \<Rightarrow> bool \<Rightarrow> 'w \<Rightarrow> run_err list \<times> 'w" where
  "safe_Go fn onPanic w =
     (case fn w of
        (Panicked v, w') \<Rightarrow> (if onPanic then [PanicError v] else [], w')
      | (Done _, w') \<Rightarrow> ([], w'))"

section \<open>Compensable operations\<close>

locale compensable =
  fixes act :: "'p \<Rightarrow> 'w act"
    and comp :: "'p \<Rightarrow> 'w act"
    and obs :: "'w \<Rightarrow> 'o"
    and ok :: "'w \<Rightarrow> bool"
    and valid :: "'p \<Rightarrow> bool"
  assumes act_ok: "valid p \<Longrightarrow> ok w \<Longrightarrow> safe_Run (act p) w = (r, w') \<Longrightarrow> ok w'"
    and act_fails: "valid p \<Longrightarrow> ok w \<Longrightarrow> safe_Run (act p) w = (Some e, w') \<Longrightarrow> obs w' = obs w"
    and comp_undoes: "valid p \<Longrightarrow> ok w \<Longrightarrow> safe_Run (act p) w = (None, w') \<Longrightarrow> ok v \<Longrightarrow> obs v = obs w' \<Longrightarrow>
      \<exists>v'. safe_Run (comp p) v = (None, v') \<and> ok v' \<and> obs v' = obs w"
begin

text \<open>The operations \<open>ps\<close> succeed one after the other.\<close>

fun done_chain :: "'p list \<Rightarrow> 'w \<Rightarrow> 'w \<Rightarrow> bool" where
  "done_chain [] w w' \<longleftrightarrow> w' = w"
| "done_chain (p # ps) w w' \<longleftrightarrow> (\<exists>w1. valid p \<and> safe_Run (act p) w = (None, w1) \<and> done_chain ps w1 w')"

text \<open>Their compensations succeed in the given order.\<close>

fun undo_chain :: "'p list \<Rightarrow> 'w \<Rightarrow> 'w \<Rightarrow> bool" where
  "undo_chain [] v v' \<longleftrightarrow> v' = v"
| "undo_chain (p # ps) v v' \<longleftrightarrow> (\<exists>v1. safe_Run (comp p) v = (None, v1) \<and> undo_chain ps v1 v')"

lemma undo_chain_append: "undo_chain (ps @ qs) v v' \<longleftrightarrow> (\<exists>u. undo_chain ps v u \<and> undo_chain qs u v')"
  by (induction ps arbitrary: v) auto

lemma done_chain_append: "done_chain (ps @ qs) w w' \<longleftrightarrow> (\<exists>u. done_chain ps w u \<and> done_chain qs u w')"
  by (induction ps arbitrary: w) auto

lemma done_chain_ok: "done_chain ps w w' \<Longrightarrow> ok w \<Longrightarrow> ok w'"
  by (induction ps arbitrary: w) (auto dest: act_ok)

text \<open>Compensating in reverse order restores what was observable before.\<close>

lemma undo_restores:
  "done_chain ps w w' \<Longrightarrow> ok w \<Longrightarrow> ok v \<Longrightarrow> obs v = obs w' \<Longrightarrow>
     \<exists>v'. undo_chain (rev ps) v v' \<and> ok v' \<and> obs v' = obs w"
proof (induction ps arbitrary: w)
  case (Cons p ps)
  then obtain w1 where w1: "valid p" "safe_Run (act p) w = (None, w1)" "done_chain ps w1 w'" by auto
  have "ok w1" using act_ok [OF w1(1) Cons.prems(2) w1(2)] .
  from Cons.IH [OF w1(3) this Cons.prems(3,4)]
  obtain u where u: "undo_chain (rev ps) v u" "ok u" "obs u = obs w1" by blast
  from comp_undoes [OF w1(1) Cons.prems(2) w1(2) u(2,3)]
  obtain v' where "safe_Run (comp p) u = (None, v')" "ok v'" "obs v' = obs w" by blast
  then show ?case using u(1) by (auto simp: undo_chain_append)
qed auto

end

end
