(* ===== verification/Txn.thy ===== *)
theory Txn
  imports Compensation
begin

text \<open>
  \<open>pkg/orchestration/txn\<close>: two-phase commit over participants of one process. The trace of the calls the
  coordinator makes is part of the result. Unlike the saga and TCC coordinators this one does not recover
  panics: a panic of a participant or of the body ends \<open>Run\<close> on the spot.
\<close>

section \<open>The coordinator\<close>

record 'w Participant =
  pt_Prepare :: "'w act"
  pt_Commit :: "'w act"
  pt_Rollback :: "'w act"

record 'w ParticipantFunc =
  pf_PrepareFn :: "'w act option"
  pf_CommitFn :: "'w act option"
  pf_RollbackFn :: "'w act option"

definition fn_or_nil :: "'w act option \<Rightarrow> 'w act" where
  "fn_or_nil f w = (case f of None \<Rightarrow> (Done None, w) | Some g \<Rightarrow> g w)"

definition ParticipantFunc_participant :: "'w ParticipantFunc \<Rightarrow> 'w Participant" where
  "ParticipantFunc_participant p =
     \<lparr>pt_Prepare = fn_or_nil (pf_PrepareFn p), pt_Commit = fn_or_nil (pf_CommitFn p), pt_Rollback = fn_or_nil (pf_RollbackFn p)\<rparr>"

record 'w Coordinator =
  co_ordered :: "(string \<times> 'w Participant) list"
  co_onCommit :: "'w act list"

definition Coordinator_New :: "'w Coordinator" where
  "Coordinator_New = \<lparr>co_ordered = [], co_onCommit = []\<rparr>"

definition Coordinator_Enlist :: "string \<Rightarrow> 'w Participant \<Rightarrow> 'w Coordinator \<Rightarrow> 'w Coordinator" where
  "Coordinator_Enlist name p c = c\<lparr>co_ordered := co_ordered c @ [(name, p)]\<rparr>"

definition Coordinator_EnlistFunc :: "string \<Rightarrow> 'w act option \<Rightarrow> 'w act option \<Rightarrow> 'w act option \<Rightarrow> 'w Coordinator \<Rightarrow> 'w Coordinator" where
  "Coordinator_EnlistFunc name prepare commit rollback c =
     Coordinator_Enlist name (ParticipantFunc_participant
       \<lparr>pf_PrepareFn = prepare, pf_CommitFn = commit, pf_RollbackFn = rollback\<rparr>) c"

definition Coordinator_OnCommit :: "'w act option \<Rightarrow> 'w Coordinator \<Rightarrow> 'w Coordinator" where
  "Coordinator_OnCommit fn c = (case fn of None \<Rightarrow> c | Some f \<Rightarrow> c\<lparr>co_onCommit := co_onCommit c @ [f]\<rparr>)"

datatype txn_event =
    EvPrepare string
  | EvBody
  | EvCommit string
  | EvRollback string

datatype txn_out =
    TxnNil
  | TxnPrepareErr string err
  | TxnBodyErr err
  | TxnCommitErrs "(string \<times> err) list"
  | TxnPanic string

text \<open>\<open>rollbackAll\<close> on the participants in the order of the calls; errors are ignored, a panic is not.\<close>

primrec txn_rollbacks :: "(string \<times> 'w Participant) list \<Rightarrow> 'w \<Rightarrow> string option \<times> txn_event list \<times> 'w" where
  "txn_rollbacks [] w = (None, [], w)"
| "txn_rollbacks (np # rest) w =
     (case pt_Rollback (snd np) w of
        (Panicked v, w') \<Rightarrow> (Some v, [EvRollback (fst np)], w')
      | (Done _, w') \<Rightarrow> (case txn_rollbacks rest w' of (p, evs, w2) \<Rightarrow> (p, EvRollback (fst np) # evs, w2)))"

definition txn_rollbackAll :: "(string \<times> 'w Participant) list \<Rightarrow> 'w \<Rightarrow> string option \<times> txn_event list \<times> 'w" where
  "txn_rollbackAll prepared w = txn_rollbacks (rev prepared) w"

text \<open>The commit loop collects the errors.\<close>

primrec txn_commits :: "(string \<times> 'w Participant) list \<Rightarrow> 'w \<Rightarrow> string option \<times> (string \<times> err) list \<times> txn_event list \<times> 'w" where
  "txn_commits [] w = (None, [], [], w)"
| "txn_commits (np # rest) w =
     (case pt_Commit (snd np) w of
        (Panicked v, w') \<Rightarrow> (Some v, [], [EvCommit (fst np)], w')
      | (Done e, w') \<Rightarrow>
          (case txn_commits rest w' of
             (p, errs, evs, w2) \<Rightarrow>
               (p, (case e of None \<Rightarrow> errs | Some x \<Rightarrow> (fst np, x) # errs), EvCommit (fst np) # evs, w2)))"

record 'w txn_result =
  xr_out :: txn_out
  xr_trace :: "txn_event list"
  xr_hooks :: "'w act list"
  xr_coord :: "'w Coordinator"
  xr_world :: 'w

text \<open>
  A failed run rolls back what was prepared and drops the hooks; the hooks the body has registered are in
  \<open>c\<close>. The hooks that are started, in order, are the field \<open>xr_hooks\<close>.
\<close>

definition txn_abort :: "'w Coordinator \<Rightarrow> (string \<times> 'w Participant) list \<Rightarrow> txn_out \<Rightarrow> 'w \<Rightarrow> 'w txn_result" where
  "txn_abort c prepared out w =
     (case txn_rollbackAll prepared w of
        (Some v, evs, w') \<Rightarrow> \<lparr>xr_out = TxnPanic v, xr_trace = evs, xr_hooks = [], xr_coord = c, xr_world = w'\<rparr>
      | (None, evs, w') \<Rightarrow> \<lparr>xr_out = out, xr_trace = evs, xr_hooks = [], xr_coord = c\<lparr>co_onCommit := []\<rparr>, xr_world = w'\<rparr>)"

text \<open>Phase two: the body, which may register hooks, and the commits.\<close>

definition txn_finish :: "'w Coordinator \<Rightarrow> (string \<times> 'w Participant) list \<Rightarrow> ('w \<Rightarrow> call \<times> 'w act list \<times> 'w) \<Rightarrow> 'w \<Rightarrow> 'w txn_result" where
  "txn_finish c prepared body w =
     (case body w of
        (r, hooks, w1) \<Rightarrow>
          let c1 = c\<lparr>co_onCommit := co_onCommit c @ hooks\<rparr>
          in case r of
               Panicked v \<Rightarrow> \<lparr>xr_out = TxnPanic v, xr_trace = [EvBody], xr_hooks = [], xr_coord = c1, xr_world = w1\<rparr>
             | Done (Some e) \<Rightarrow> (txn_abort c1 prepared (TxnBodyErr e) w1)\<lparr>xr_trace := EvBody # xr_trace (txn_abort c1 prepared (TxnBodyErr e) w1)\<rparr>
             | Done None \<Rightarrow>
                 (case txn_commits prepared w1 of
                    (Some v, errs, evs, w2) \<Rightarrow> \<lparr>xr_out = TxnPanic v, xr_trace = EvBody # evs, xr_hooks = [], xr_coord = c1, xr_world = w2\<rparr>
                  | (None, errs, evs, w2) \<Rightarrow>
                      \<lparr>xr_out = (if errs \<noteq> [] then TxnCommitErrs errs else TxnNil), xr_trace = EvBody # evs,
                       xr_hooks = (if errs \<noteq> [] then [] else co_onCommit c1),
                       xr_coord = c1\<lparr>co_onCommit := []\<rparr>, xr_world = w2\<rparr>))"

primrec txn_loop :: "'w Coordinator \<Rightarrow> (string \<times> 'w Participant) list \<Rightarrow> (string \<times> 'w Participant) list
    \<Rightarrow> ('w \<Rightarrow> call \<times> 'w act list \<times> 'w) \<Rightarrow> 'w \<Rightarrow> 'w txn_result" where
  "txn_loop c [] prepared body w = txn_finish c prepared body w"
| "txn_loop c (np # rest) prepared body w =
     (case pt_Prepare (snd np) w of
        (Panicked v, w') \<Rightarrow>
          \<lparr>xr_out = TxnPanic v, xr_trace = [EvPrepare (fst np)], xr_hooks = [], xr_coord = c, xr_world = w'\<rparr>
      | (Done (Some e), w') \<Rightarrow>
          let r = txn_abort c prepared (TxnPrepareErr (fst np) e) w'
          in r\<lparr>xr_trace := EvPrepare (fst np) # xr_trace r\<rparr>
      | (Done None, w') \<Rightarrow>
          let r = txn_loop c rest (prepared @ [np]) body w'
          in r\<lparr>xr_trace := EvPrepare (fst np) # xr_trace r\<rparr>)"

definition Coordinator_Run :: "'w Coordinator \<Rightarrow> ('w \<Rightarrow> call \<times> 'w act list \<times> 'w) \<Rightarrow> 'w \<Rightarrow> 'w txn_result" where
  "Coordinator_Run c body w = txn_loop c (co_ordered c) [] body w"

section \<open>The calls a run makes\<close>

text \<open>The trace of a run over the participants \<open>nps\<close> that did not panic.\<close>

definition txn_trace_ok :: "(string \<times> 'w Participant) list \<Rightarrow> 'w act list \<Rightarrow> 'w txn_result \<Rightarrow> bool" where
  "txn_trace_ok nps hooks r \<longleftrightarrow>
     (case xr_out r of
        TxnNil \<Rightarrow> xr_trace r = map (EvPrepare \<circ> fst) nps @ EvBody # map (EvCommit \<circ> fst) nps
          \<and> (\<exists>hs. xr_hooks r = hooks @ hs)
      | TxnCommitErrs errs \<Rightarrow> xr_trace r = map (EvPrepare \<circ> fst) nps @ EvBody # map (EvCommit \<circ> fst) nps \<and> xr_hooks r = [] \<and> errs \<noteq> []
      | TxnBodyErr e \<Rightarrow> xr_trace r = map (EvPrepare \<circ> fst) nps @ EvBody # map (EvRollback \<circ> fst) (rev nps) \<and> xr_hooks r = []
      | TxnPrepareErr n e \<Rightarrow> (\<exists>k<length nps. n = fst (nps ! k) \<and> xr_hooks r = []
          \<and> xr_trace r = map (EvPrepare \<circ> fst) (take (Suc k) nps) @ map (EvRollback \<circ> fst) (rev (take k nps)))
      | TxnPanic v \<Rightarrow> xr_hooks r = [])"

lemma txn_rollbacks_trace: "txn_rollbacks nps w = (None, evs, w') \<Longrightarrow> evs = map (EvRollback \<circ> fst) nps"
  by (induction nps arbitrary: w evs) (auto split: prod.splits call.splits)

lemma txn_commits_trace: "txn_commits nps w = (None, errs, evs, w') \<Longrightarrow> evs = map (EvCommit \<circ> fst) nps"
  by (induction nps arbitrary: w evs errs) (auto split: prod.splits call.splits)

lemma txn_abort_cases:
  obtains v where "xr_out (txn_abort c prepared out w) = TxnPanic v" "xr_hooks (txn_abort c prepared out w) = []"
  | "xr_out (txn_abort c prepared out w) = out" "xr_hooks (txn_abort c prepared out w) = []"
    "xr_trace (txn_abort c prepared out w) = map (EvRollback \<circ> fst) (rev prepared)"
    "co_onCommit (xr_coord (txn_abort c prepared out w)) = []"
proof -
  obtain p evs w' where rb: "txn_rollbackAll prepared w = (p, evs, w')" by (metis prod.exhaust)
  show thesis
  proof (cases p)
    case None
    then show ?thesis
      using rb txn_rollbacks_trace [of "rev prepared" w evs w']
      by (intro that(2)) (simp_all add: txn_abort_def txn_rollbackAll_def)
  next
    case (Some v)
    then show ?thesis using rb by (intro that(1) [of v]) (simp_all add: txn_abort_def)
  qed
qed

lemma txn_finish_trace:
  "txn_trace_ok nps (co_onCommit c) ((txn_finish c nps body w)\<lparr>xr_trace := map (EvPrepare \<circ> fst) nps @ xr_trace (txn_finish c nps body w)\<rparr>)"
proof -
  obtain r hooks w1 where b: "body w = (r, hooks, w1)" by (metis prod.exhaust)
  let ?c1 = "c\<lparr>co_onCommit := co_onCommit c @ hooks\<rparr>"
  obtain p errs evs w2 where cm: "txn_commits nps w1 = (p, errs, evs, w2)" by (metis prod.exhaust)
  consider v where "r = Panicked v" | e where "r = Done (Some e)" | v where "r = Done None" "p = Some v" | "r = Done None" "p = None"
    by (metis call.exhaust not_None_eq)
  then show ?thesis
  proof cases
    case (2 e)
    show ?thesis
      by (rule txn_abort_cases [of ?c1 nps "TxnBodyErr e" w1])
        (use 2 b in \<open>simp_all add: txn_finish_def txn_trace_ok_def Let_def\<close>)
  next
    case 4
    then show ?thesis
      using b cm txn_commits_trace [of nps w1 errs evs w2] by (auto simp: txn_finish_def txn_trace_ok_def Let_def)
  qed (use b cm in \<open>simp_all add: txn_finish_def txn_trace_ok_def Let_def\<close>)
qed

lemma txn_loop_trace:
  "txn_trace_ok (pre @ nps) (co_onCommit c) ((txn_loop c nps pre body w)\<lparr>xr_trace := map (EvPrepare \<circ> fst) pre @ xr_trace (txn_loop c nps pre body w)\<rparr>)"
proof (induction nps arbitrary: pre w)
  case Nil
  show ?case using txn_finish_trace [of pre c body w] by (simp add: comp_def)
next
  case (Cons np nps)
  obtain r w1 where pr: "pt_Prepare (snd np) w = (r, w1)" by force
  consider v where "r = Panicked v" | e where "r = Done (Some e)" | "r = Done None" by (metis call.exhaust not_None_eq)
  then show ?case
  proof cases
    case (1 v)
    then show ?thesis using pr by (simp add: txn_trace_ok_def)
  next
    case (2 e)
    show ?thesis
      by (rule txn_abort_cases [of c pre "TxnPrepareErr (fst np) e" w1])
        (use 2 pr in \<open>simp_all add: txn_trace_ok_def Let_def exI [of _ "length pre"] nth_append\<close>)
  next
    case 3
    show ?thesis using Cons.IH [of "pre @ [np]" w1] 3 pr by (simp add: Let_def comp_def)
  qed
qed


section \<open>Participants that undo their preparation\<close>

context compensable
begin

definition participant_of :: "('p \<Rightarrow> string) \<Rightarrow> ('p \<Rightarrow> 'w act) \<Rightarrow> 'p \<Rightarrow> string \<times> 'w Participant" where
  "participant_of name commit p = (name p, \<lparr>pt_Prepare = act p, pt_Commit = commit p, pt_Rollback = comp p\<rparr>)"

lemma participant_of_sel [simp]:
  "fst (participant_of name commit p) = name p" "pt_Prepare (snd (participant_of name commit p)) = act p"
  "pt_Rollback (snd (participant_of name commit p)) = comp p"
  by (simp_all add: participant_of_def)

lemma safe_Run_None: "safe_Run f w = (None, w') \<longleftrightarrow> f w = (Done None, w')"
  by (cases "f w") (auto simp: safe_Run_def elim: call_err.elims)

lemma txn_undo:
  "undo_chain ps v v' \<Longrightarrow> \<exists>evs. txn_rollbacks (map (participant_of name commit) ps) v = (None, evs, v')"
proof (induction ps arbitrary: v)
  case (Cons p ps)
  then obtain v1 where v1: "comp p v = (Done None, v1)" "undo_chain ps v1 v'" by (auto simp: safe_Run_None)
  from Cons.IH [OF v1(2)] obtain evs where "txn_rollbacks (map (participant_of name commit) ps) v1 = (None, evs, v')" by blast
  then show ?case using v1(1) by simp
qed simp

lemma txn_abort_restores:
  assumes "done_chain ps w0 w" "ok w0" "ok v" "obs v = obs w"
  shows "obs (xr_world (txn_abort c (map (participant_of name commit) ps) out v)) = obs w0"
proof -
  obtain v' where v': "undo_chain (rev ps) v v'" "obs v' = obs w0" using undo_restores [OF assms] by blast
  then obtain evs where "txn_rollbacks (map (participant_of name commit) (rev ps)) v = (None, evs, v')"
    using txn_undo by blast
  then show ?thesis using v'(2) by (simp add: txn_abort_def txn_rollbackAll_def rev_map)
qed

lemma txn_loop_restores:
  assumes body: "\<And>v e hs v'. ok v \<Longrightarrow> body v = (Done (Some e), hs, v') \<Longrightarrow> ok v' \<and> obs v' = obs v" and ok0: "ok w0"
    and "done_chain ps w0 w" "list_all valid qs"
    and "r = txn_loop c (map (participant_of name commit) qs) (map (participant_of name commit) ps) body w"
    and "(\<exists>n e. xr_out r = TxnPrepareErr n e) \<or> (\<exists>e. xr_out r = TxnBodyErr e)"
  shows "obs (xr_world r) = obs w0"
  using assms(3-6)
proof (induction qs arbitrary: ps w r)
  case Nil
  have okw: "ok w" using done_chain_ok [OF Nil(1) ok0] .
  obtain o' hs w1 where b: "body w = (o', hs, w1)" by (metis prod.exhaust)
  obtain e where o': "o' = Done (Some e)"
  proof (cases o')
    case (Done x)
    then show ?thesis
      using Nil(3,4) b that by (cases x) (auto simp: txn_finish_def Let_def split: prod.splits option.splits if_splits)
  next
    case (Panicked v)
    then show ?thesis using Nil(3,4) b by (auto simp: txn_finish_def Let_def)
  qed
  have "ok w1 \<and> obs w1 = obs w" using body [OF okw] b o' by simp
  then show ?case
    using Nil(3) b o' txn_abort_restores [OF Nil(1) ok0, of w1] by (simp add: txn_finish_def Let_def)
next
  case (Cons q qs)
  have okw: "ok w" using done_chain_ok [OF Cons.prems(1) ok0] .
  obtain o' w1 where pr: "act q w = (o', w1)" by force
  have run: "safe_Run (act q) w = (call_err o', w1)" using pr by (simp add: safe_Run_def)
  have q: "valid q" using Cons.prems(2) by simp
  have ok1: "ok w1" by (rule act_ok [OF q okw run])
  consider v where "o' = Panicked v" | e where "o' = Done (Some e)" | "o' = Done None" by (metis call.exhaust not_None_eq)
  then show ?case
  proof cases
    case (1 v)
    then show ?thesis using Cons.prems(3,4) pr by auto
  next
    case (2 e)
    then have "obs w1 = obs w" using act_fails [OF q okw] run by simp
    then show ?thesis
      using Cons.prems(3) pr 2 txn_abort_restores [OF Cons.prems(1) ok0 ok1] by (simp add: Let_def)
  next
    case 3
    have "done_chain (ps @ [q]) w0 w1" using Cons.prems(1) run 3 q by (auto simp: done_chain_append)
    then show ?thesis
      using Cons.IH [of "ps @ [q]" w1, OF _ _ refl] Cons.prems(2-4) pr 3 by (simp add: Let_def)
  qed
qed

lemma txn_atomic:
  assumes "co_ordered c = map (participant_of name commit) ps" "list_all valid ps" "ok w"
    and "\<And>v e hs v'. ok v \<Longrightarrow> body v = (Done (Some e), hs, v') \<Longrightarrow> ok v' \<and> obs v' = obs v"
    and "(\<exists>n e. xr_out (Coordinator_Run c body w) = TxnPrepareErr n e) \<or> (\<exists>e. xr_out (Coordinator_Run c body w) = TxnBodyErr e)"
  shows "obs (xr_world (Coordinator_Run c body w)) = obs w"
  using txn_loop_restores [of body w "[]" w ps "Coordinator_Run c body w" c name commit] assms
  by (simp add: Coordinator_Run_def)

end

end
