(* ===== verification/Saga.thy ===== *)
theory Saga
  imports Compensation
begin

text \<open>
  \<open>pkg/orchestration/saga\<close>: run the steps in order and, when one fails, compensate the completed ones in
  reverse order with retries. \<open>ctx i\<close> is what \<open>ctx.Err()\<close> answers before step \<open>i\<close> and \<open>dur i\<close> the measured
  duration of its action. The list of calls of the compensation callback is part of the result; the
  sleeps between two attempts do not change the state and are left out.
\<close>

section \<open>The coordinator\<close>

record 'w Step =
  st_Name :: string
  st_Action :: "'w act"
  st_Compensate :: "'w act option"

datatype saga_Status = StatusCommitted | StatusCompensated | StatusCompensationFailed

fun saga_Status_String :: "saga_Status \<Rightarrow> string" where
  "saga_Status_String StatusCommitted = ''committed''"
| "saga_Status_String StatusCompensated = ''compensated''"
| "saga_Status_String StatusCompensationFailed = ''compensation_failed''"

datatype saga_err =
    StepErr run_err
  | ContextDone string string err
  | ActionFailed string string run_err

record StepResult =
  sr_Name :: string
  sr_ActionErr :: "saga_err option"
  sr_Compensated :: bool
  sr_CompensateErr :: "run_err option"
  sr_CompensateTry :: int
  sr_Duration :: duration

record saga_Result =
  rs_Name :: string
  rs_Status :: saga_Status
  rs_Err :: "saga_err option"
  rs_FailedStep :: string
  rs_Steps :: "StepResult list"

definition saga_Failed :: "saga_Result \<Rightarrow> bool" where
  "saga_Failed r \<longleftrightarrow> rs_Status r \<noteq> StatusCommitted"

record saga_config =
  sc_compRetries :: int
  sc_compRetryDelay :: duration
  sc_onCompensate :: bool

datatype saga_option =
    WithCompensationRetry int duration
  | WithOnCompensate

fun saga_apply :: "saga_option \<Rightarrow> saga_config \<Rightarrow> saga_config" where
  "saga_apply (WithCompensationRetry r d) c = c\<lparr>sc_compRetries := r, sc_compRetryDelay := d\<rparr>"
| "saga_apply WithOnCompensate c = c\<lparr>sc_onCompensate := True\<rparr>"

record 'w Saga =
  sg_name :: string
  sg_cfg :: saga_config
  sg_steps :: "'w Step list"

definition Saga_New :: "string \<Rightarrow> saga_option list \<Rightarrow> 'w Saga" where
  "Saga_New name opts =
     (let cfg = fold saga_apply opts \<lparr>sc_compRetries = 0, sc_compRetryDelay = 100000000, sc_onCompensate = False\<rparr>;
          cfg1 = (if sc_compRetries cfg < 0 then cfg\<lparr>sc_compRetries := 0\<rparr> else cfg)
      in \<lparr>sg_name = name, sg_cfg = cfg1, sg_steps = []\<rparr>)"

definition Saga_AddStep :: "'w Step \<Rightarrow> 'w Saga \<Rightarrow> 'w Saga" where
  "Saga_AddStep step s = s\<lparr>sg_steps := sg_steps s @ [step]\<rparr>"

definition Saga_Step :: "string \<Rightarrow> 'w act \<Rightarrow> 'w act option \<Rightarrow> 'w Saga \<Rightarrow> 'w Saga" where
  "Saga_Step name action compensate s =
     s\<lparr>sg_steps := sg_steps s @ [\<lparr>st_Name = name, st_Action = action, st_Compensate = compensate\<rparr>]\<rparr>"

text \<open>One call of the compensation callback: step, attempt, error.\<close>

type_synonym comp_event = "string \<times> int \<times> run_err option"

text \<open>
  The attempts of one compensation, numbered from \<open>attempt\<close>, with \<open>n\<close> attempts left: the last error, the
  number of the last attempt and the callback's calls.
\<close>

fun saga_attempts :: "string \<Rightarrow> 'w act \<Rightarrow> nat \<Rightarrow> int \<Rightarrow> 'w \<Rightarrow> (run_err option \<times> int \<times> comp_event list) \<times> 'w" where
  "saga_attempts name f 0 attempt w = ((None, 0, []), w)"
| "saga_attempts name f (Suc n) attempt w =
     (case safe_Run f w of
        (e, w') \<Rightarrow>
          if e = None \<or> n = 0 then ((e, attempt, [(name, attempt, e)]), w')
          else (case saga_attempts name f n (attempt + 1) w' of
                  ((e', tried, evs), w2) \<Rightarrow> ((e', tried, (name, attempt, e) # evs), w2)))"

definition Saga_compensate_step :: "'w Saga \<Rightarrow> nat \<Rightarrow> saga_Result \<Rightarrow> 'w \<Rightarrow> (saga_Result \<times> comp_event list) \<times> 'w" where
  "Saga_compensate_step s idx res w =
     (let step = sg_steps s ! idx
      in case st_Compensate step of
           None \<Rightarrow> ((res, []), w)
         | Some f \<Rightarrow>
             (case saga_attempts (st_Name step) f (nat (sc_compRetries (sg_cfg s) + 1)) 1 w of
                ((lastErr, tried, evs), w') \<Rightarrow>
                  let res1 = res\<lparr>rs_Steps := (rs_Steps res)[idx := (rs_Steps res ! idx)\<lparr>sr_Compensated := True,
                               sr_CompensateErr := lastErr, sr_CompensateTry := tried\<rparr>]\<rparr>;
                      res2 = (if lastErr \<noteq> None then res1\<lparr>rs_Status := StatusCompensationFailed\<rparr> else res1)
                  in ((res2, if sc_onCompensate (sg_cfg s) then evs else []), w')))"

primrec saga_compensate_loop :: "'w Saga \<Rightarrow> nat list \<Rightarrow> saga_Result \<Rightarrow> 'w \<Rightarrow> (saga_Result \<times> comp_event list) \<times> 'w" where
  "saga_compensate_loop s [] res w = ((res, []), w)"
| "saga_compensate_loop s (idx # rest) res w =
     (case Saga_compensate_step s idx res w of
        ((res1, evs1), w1) \<Rightarrow>
          (case saga_compensate_loop s rest res1 w1 of ((res2, evs2), w2) \<Rightarrow> ((res2, evs1 @ evs2), w2)))"

definition Saga_compensate :: "'w Saga \<Rightarrow> nat list \<Rightarrow> saga_Result \<Rightarrow> 'w \<Rightarrow> (saga_Result \<times> comp_event list) \<times> 'w" where
  "Saga_compensate s completed res w =
     saga_compensate_loop s (rev completed) (res\<lparr>rs_Status := StatusCompensated\<rparr>) w"

text \<open>The loop of \<open>Execute\<close> over the steps that are left, the next one being number \<open>i\<close>.\<close>

primrec saga_loop :: "'w Saga \<Rightarrow> (nat \<Rightarrow> err option) \<Rightarrow> (nat \<Rightarrow> duration) \<Rightarrow> 'w Step list \<Rightarrow> nat \<Rightarrow> nat list \<Rightarrow> saga_Result \<Rightarrow> 'w
    \<Rightarrow> (saga_Result \<times> comp_event list) \<times> 'w" where
  "saga_loop s ctx dur [] i completed res w = ((res, []), w)"
| "saga_loop s ctx dur (step # rest) i completed res w =
     (case ctx i of
        Some e \<Rightarrow>
          let er = ContextDone (sg_name s) (st_Name step) e
          in Saga_compensate s completed
               (res\<lparr>rs_Err := Some er, rs_FailedStep := st_Name step,
                    rs_Steps := rs_Steps res @ [\<lparr>sr_Name = st_Name step, sr_ActionErr = Some er, sr_Compensated = False,
                                  sr_CompensateErr = None, sr_CompensateTry = 0, sr_Duration = 0\<rparr>]\<rparr>) w
      | None \<Rightarrow>
          (case safe_Run (st_Action step) w of
             (er, w') \<Rightarrow>
               let sr = \<lparr>sr_Name = st_Name step, sr_ActionErr = map_option StepErr er, sr_Compensated = False,
                         sr_CompensateErr = None, sr_CompensateTry = 0, sr_Duration = dur i\<rparr>;
                   res1 = res\<lparr>rs_Steps := rs_Steps res @ [sr]\<rparr>
               in case er of
                    Some e \<Rightarrow> Saga_compensate s completed
                                (res1\<lparr>rs_Err := Some (ActionFailed (sg_name s) (st_Name step) e), rs_FailedStep := st_Name step\<rparr>) w'
                  | None \<Rightarrow> saga_loop s ctx dur rest (Suc i) (completed @ [i]) res1 w'))"

definition Saga_Execute :: "'w Saga \<Rightarrow> (nat \<Rightarrow> err option) \<Rightarrow> (nat \<Rightarrow> duration) \<Rightarrow> 'w \<Rightarrow> (saga_Result \<times> comp_event list) \<times> 'w" where
  "Saga_Execute s ctx dur w =
     saga_loop s ctx dur (sg_steps s) 0 []
       \<lparr>rs_Name = sg_name s, rs_Status = StatusCommitted, rs_Err = None, rs_FailedStep = [], rs_Steps = []\<rparr> w"

section \<open>What the result says\<close>

text \<open>The number of steps that complete when no compensation is considered, and the state then reached.\<close>

primrec saga_forward :: "(nat \<Rightarrow> err option) \<Rightarrow> 'w Step list \<Rightarrow> nat \<Rightarrow> 'w \<Rightarrow> nat \<times> 'w" where
  "saga_forward ctx [] i w = (0, w)"
| "saga_forward ctx (step # rest) i w =
     (if ctx i \<noteq> None then (0, w)
      else case safe_Run (st_Action step) w of
             (Some e, w') \<Rightarrow> (0, w')
           | (None, w') \<Rightarrow> (case saga_forward ctx rest (Suc i) w' of (k, w2) \<Rightarrow> (Suc k, w2)))"

lemma saga_forward_bound: "saga_forward ctx steps i w = (k, w') \<Longrightarrow> k \<le> length steps"
  by (induction steps arbitrary: i w k) (auto split: if_splits prod.splits option.splits)

lemma saga_attempts_range:
  "0 < n \<Longrightarrow> saga_attempts name f n a w = ((e, tried, evs), w') \<Longrightarrow> a \<le> tried \<and> tried < a + int n"
proof (induction n arbitrary: a w e tried evs w')
  case (Suc n)
  show ?case
    using Suc.prems(2) Suc.IH [of "a + 1"] by (fastforce split: prod.splits if_splits)
qed simp

lemma saga_attempts_first:
  "0 < n \<Longrightarrow> safe_Run f w = (None, w') \<Longrightarrow> saga_attempts name f n a w = ((None, a, [(name, a, None)]), w')"
  by (cases n) auto

text \<open>How the entry of a completed step changes when it is compensated.\<close>

definition comp_entry :: "'w Saga \<Rightarrow> nat \<Rightarrow> StepResult \<Rightarrow> StepResult \<Rightarrow> bool" where
  "comp_entry s i x y \<longleftrightarrow>
     (case st_Compensate (sg_steps s ! i) of
        None \<Rightarrow> y = x
      | Some f \<Rightarrow> sr_Name y = sr_Name x \<and> sr_ActionErr y = sr_ActionErr x \<and> sr_Compensated y
                  \<and> 1 \<le> sr_CompensateTry y \<and> sr_CompensateTry y \<le> sc_compRetries (sg_cfg s) + 1)"

definition comp_failed :: "'w Saga \<Rightarrow> saga_Result \<Rightarrow> nat \<Rightarrow> bool" where
  "comp_failed s res i \<longleftrightarrow> st_Compensate (sg_steps s ! i) \<noteq> None \<and> sr_CompensateErr (rs_Steps res ! i) \<noteq> None"

lemma Saga_compensate_step_facts:
  assumes "Saga_compensate_step s i res w = ((res', evs), w')" "i < length (rs_Steps res)" "0 \<le> sc_compRetries (sg_cfg s)"
  shows "length (rs_Steps res') = length (rs_Steps res)" "rs_Err res' = rs_Err res" "rs_FailedStep res' = rs_FailedStep res"
    and "j \<noteq> i \<Longrightarrow> rs_Steps res' ! j = rs_Steps res ! j" and "comp_entry s i (rs_Steps res ! i) (rs_Steps res' ! i)"
    and "rs_Status res' = (if comp_failed s res' i then StatusCompensationFailed else rs_Status res)"
proof -
  have n: "0 < nat (sc_compRetries (sg_cfg s) + 1)" using assms(3) by simp
  show "length (rs_Steps res') = length (rs_Steps res)" "rs_Err res' = rs_Err res" "rs_FailedStep res' = rs_FailedStep res"
    and "j \<noteq> i \<Longrightarrow> rs_Steps res' ! j = rs_Steps res ! j"
    and "rs_Status res' = (if comp_failed s res' i then StatusCompensationFailed else rs_Status res)"
    using assms(1,2) by (auto simp: Saga_compensate_step_def comp_failed_def Let_def split: option.splits prod.splits if_splits)
  show "comp_entry s i (rs_Steps res ! i) (rs_Steps res' ! i)"
    using assms saga_attempts_range [OF n]
    by (fastforce simp: Saga_compensate_step_def comp_entry_def Let_def split: option.splits prod.splits if_splits)
qed

lemma saga_compensate_loop_facts:
  assumes "saga_compensate_loop s idxs res w = ((res', evs), w')" "distinct idxs" "\<forall>i\<in>set idxs. i < length (rs_Steps res)"
    "0 \<le> sc_compRetries (sg_cfg s)"
  shows "length (rs_Steps res') = length (rs_Steps res) \<and> rs_Err res' = rs_Err res \<and> rs_FailedStep res' = rs_FailedStep res
    \<and> (\<forall>j. j \<notin> set idxs \<longrightarrow> rs_Steps res' ! j = rs_Steps res ! j)
    \<and> (\<forall>i\<in>set idxs. comp_entry s i (rs_Steps res ! i) (rs_Steps res' ! i))
    \<and> rs_Status res' = (if \<exists>i\<in>set idxs. comp_failed s res' i then StatusCompensationFailed else rs_Status res)"
  using assms
proof (induction idxs arbitrary: res w evs)
  case (Cons i idxs)
  obtain res1 evs1 w1 where st: "Saga_compensate_step s i res w = ((res1, evs1), w1)" by (metis prod.exhaust)
  obtain evs2 where lp: "saga_compensate_loop s idxs res1 w1 = ((res', evs2), w')"
    using Cons.prems(1) st by (auto split: prod.splits)
  have i: "i < length (rs_Steps res)" "i \<notin> set idxs" using Cons.prems by simp_all
  note f = Saga_compensate_step_facts [OF st i(1) assms(4)]
  have IH: "length (rs_Steps res') = length (rs_Steps res1) \<and> rs_Err res' = rs_Err res1 \<and> rs_FailedStep res' = rs_FailedStep res1
    \<and> (\<forall>j. j \<notin> set idxs \<longrightarrow> rs_Steps res' ! j = rs_Steps res1 ! j)
    \<and> (\<forall>i\<in>set idxs. comp_entry s i (rs_Steps res1 ! i) (rs_Steps res' ! i))
    \<and> rs_Status res' = (if \<exists>i\<in>set idxs. comp_failed s res' i then StatusCompensationFailed else rs_Status res1)"
    using Cons.IH [OF lp] Cons.prems f(1) by simp
  then have same: "rs_Steps res' ! i = rs_Steps res1 ! i" using i(2) by blast
  then have "comp_failed s res' i = comp_failed s res1 i" by (simp add: comp_failed_def)
  moreover have "comp_entry s j (rs_Steps res ! j) (rs_Steps res' ! j)" if "j \<in> set (i # idxs)" for j
    using that IH f(4,5) same i(2) by (cases "j = i") auto
  ultimately show ?case using IH f by auto
qed simp

text \<open>The report of a saga that was aborted at step \<open>k\<close>.\<close>

definition saga_aborted :: "'w Saga \<Rightarrow> nat \<Rightarrow> saga_Result \<Rightarrow> bool" where
  "saga_aborted s k res \<longleftrightarrow>
     rs_FailedStep res = st_Name (sg_steps s ! k) \<and> rs_Err res \<noteq> None \<and> length (rs_Steps res) = Suc k
     \<and> sr_ActionErr (rs_Steps res ! k) \<noteq> None \<and> \<not> sr_Compensated (rs_Steps res ! k)
     \<and> (\<forall>i<k. sr_ActionErr (rs_Steps res ! i) = None
          \<and> (sr_Compensated (rs_Steps res ! i) \<longleftrightarrow> st_Compensate (sg_steps s ! i) \<noteq> None)
          \<and> (sr_Compensated (rs_Steps res ! i) \<longrightarrow>
               1 \<le> sr_CompensateTry (rs_Steps res ! i) \<and> sr_CompensateTry (rs_Steps res ! i) \<le> sc_compRetries (sg_cfg s) + 1))
     \<and> rs_Status res = (if \<exists>i<k. comp_failed s res i then StatusCompensationFailed else StatusCompensated)"

definition fresh_entry :: "StepResult \<Rightarrow> bool" where
  "fresh_entry x \<longleftrightarrow> sr_ActionErr x = None \<and> \<not> sr_Compensated x \<and> sr_CompensateErr x = None"

lemma Saga_compensate_aborted:
  assumes "Saga_compensate s [0..<k] res w = ((res', evs), w')" "0 \<le> sc_compRetries (sg_cfg s)"
    and "length (rs_Steps res) = Suc k" "\<forall>i<k. fresh_entry (rs_Steps res ! i)" "sr_ActionErr (rs_Steps res ! k) \<noteq> None"
    and "\<not> sr_Compensated (rs_Steps res ! k)" "rs_Err res \<noteq> None" "rs_FailedStep res = st_Name (sg_steps s ! k)"
  shows "saga_aborted s k res'"
proof -
  let ?r = "res\<lparr>rs_Status := StatusCompensated\<rparr>"
  have lp: "saga_compensate_loop s (rev [0..<k]) ?r w = ((res', evs), w')" using assms(1) by (simp add: Saga_compensate_def)
  have "distinct (rev [0..<k])" "\<forall>i\<in>set (rev [0..<k]). i < length (rs_Steps ?r)" using assms(3) by auto
  note f = saga_compensate_loop_facts [OF lp this assms(2)]
  have "comp_entry s i (rs_Steps res ! i) (rs_Steps res' ! i)" if "i < k" for i using f that by simp
  then have "sr_ActionErr (rs_Steps res' ! i) = None
          \<and> (sr_Compensated (rs_Steps res' ! i) \<longleftrightarrow> st_Compensate (sg_steps s ! i) \<noteq> None)
          \<and> (sr_Compensated (rs_Steps res' ! i) \<longrightarrow>
               1 \<le> sr_CompensateTry (rs_Steps res' ! i) \<and> sr_CompensateTry (rs_Steps res' ! i) \<le> sc_compRetries (sg_cfg s) + 1)"
    if "i < k" for i
    using that assms(4) by (fastforce simp: comp_entry_def fresh_entry_def split: option.splits)
  moreover have "rs_Steps res' ! k = rs_Steps res ! k" using f by simp
  moreover have "rs_Status res' = (if \<exists>i<k. comp_failed s res' i then StatusCompensationFailed else StatusCompensated)"
    using f by auto
  ultimately show ?thesis using assms f unfolding saga_aborted_def by simp
qed

definition saga_verdict :: "'w Saga \<Rightarrow> nat \<Rightarrow> 'w \<Rightarrow> saga_Result \<Rightarrow> comp_event list \<Rightarrow> 'w \<Rightarrow> bool" where
  "saga_verdict s k wk res evs w' \<longleftrightarrow>
     (if k = length (sg_steps s)
      then rs_Status res = StatusCommitted \<and> rs_Err res = None \<and> evs = [] \<and> w' = wk
        \<and> (\<forall>j<length (rs_Steps res). fresh_entry (rs_Steps res ! j)) \<and> length (rs_Steps res) = k
      else saga_aborted s k res)"

lemma saga_verdict_aborted: "saga_aborted s k res \<Longrightarrow> k < length (sg_steps s) \<Longrightarrow> saga_verdict s k wk res evs w'"
  by (simp add: saga_verdict_def)

lemma saga_loop_outcome:
  assumes "saga_loop s ctx dur steps i [0..<i] res w = ((res', evs), w')" "saga_forward ctx steps i w = (k, wk)"
    and "drop i (sg_steps s) = steps" "i \<le> length (sg_steps s)" "length (rs_Steps res) = i" "\<forall>j<i. fresh_entry (rs_Steps res ! j)"
    and "0 \<le> sc_compRetries (sg_cfg s)" "rs_Status res = StatusCommitted" "rs_Err res = None"
  shows "saga_verdict s (i + k) wk res' evs w'"
  using assms
proof (induction steps arbitrary: i res w k)
  case (Cons step steps)
  have step: "sg_steps s ! i = step" and rest: "drop (Suc i) (sg_steps s) = steps"
    using Cons.prems(3) by (metis nth_via_drop, metis drop_Suc list.sel(3) tl_drop)
  have i: "i < length (sg_steps s)" using Cons.prems(3) by (metis drop_eq_Nil leI list.distinct(1))
  show ?case
  proof (cases "ctx i")
    case (Some e)
    then show ?thesis
      using Cons.prems step i
      by (auto intro!: saga_verdict_aborted Saga_compensate_aborted [where w = w] simp: Let_def nth_append)
  next
    case None
    obtain er w1 where run: "safe_Run (st_Action step) w = (er, w1)" by force
    show ?thesis
    proof (cases er)
      case (Some e)
      then show ?thesis
        using Cons.prems step None run i
        by (auto intro!: saga_verdict_aborted Saga_compensate_aborted [where w = w1] simp: Let_def nth_append)
    next
      case None': None
      let ?sr = "\<lparr>sr_Name = st_Name step, sr_ActionErr = None, sr_Compensated = False,
                    sr_CompensateErr = None, sr_CompensateTry = 0, sr_Duration = dur i\<rparr>"
      let ?res = "res\<lparr>rs_Steps := rs_Steps res @ [?sr]\<rparr>"
      obtain k' where k: "saga_forward ctx steps (Suc i) w1 = (k', wk)" "k = Suc k'"
        using Cons.prems(2) None None' run by (auto split: prod.splits)
      have lp: "saga_loop s ctx dur steps (Suc i) [0..<Suc i] ?res w1 = ((res', evs), w')"
        using Cons.prems(1) None None' run by simp
      have "\<forall>j<Suc i. fresh_entry (rs_Steps ?res ! j)"
        using Cons.prems(5,6) by (auto simp: nth_append fresh_entry_def less_Suc_eq)
      then have "saga_verdict s (Suc i + k') wk res' evs w'"
        using Cons.prems(5,7-9) i by (intro Cons.IH [OF lp k(1) rest]) simp_all
      then show ?thesis using k(2) by simp
    qed
  qed
next
  case Nil
  then have "length (sg_steps s) \<le> i" by simp
  then show ?case using Nil by (auto simp: saga_verdict_def)
qed



section \<open>Compensable steps\<close>

context compensable
begin

definition step_of :: "('p \<Rightarrow> string) \<Rightarrow> 'p \<Rightarrow> 'w Step" where
  "step_of name p = \<lparr>st_Name = name p, st_Action = act p, st_Compensate = Some (comp p)\<rparr>"

lemma saga_undo_loop:
  assumes "sg_steps s = map (step_of name) ps" "0 \<le> sc_compRetries (sg_cfg s)" "\<forall>i\<in>set idxs. i < length ps"
    and "undo_chain (map ((!) ps) idxs) v v'" "rs_Status res \<noteq> StatusCompensationFailed"
  shows "\<exists>res' evs. saga_compensate_loop s idxs res v = ((res', evs), v') \<and> rs_Status res' = rs_Status res"
  using assms(3-5)
proof (induction idxs arbitrary: res v)
  case (Cons i idxs)
  obtain v1 where v1: "safe_Run (comp (ps ! i)) v = (None, v1)" "undo_chain (map ((!) ps) idxs) v1 v'"
    using Cons.prems(2) by auto
  have step: "sg_steps s ! i = step_of name (ps ! i)" using assms(1) Cons.prems(1) by simp
  have at: "saga_attempts (name (ps ! i)) (comp (ps ! i)) (nat (sc_compRetries (sg_cfg s) + 1)) 1 v
      = ((None, 1, [(name (ps ! i), 1, None)]), v1)"
    using saga_attempts_first [OF _ v1(1)] assms(2) by simp
  obtain res1 evs1 where st: "Saga_compensate_step s i res v = ((res1, evs1), v1)" "rs_Status res1 = rs_Status res"
    using step at by (simp add: Saga_compensate_step_def step_of_def Let_def)
  from Cons.IH [OF _ v1(2), of res1] Cons.prems st show ?case by auto
qed simp

lemma saga_loop_restores:
  assumes s: "sg_steps s = map (step_of name) ps" "0 \<le> sc_compRetries (sg_cfg s)" "list_all valid ps" and ok0: "ok w0"
    and lp: "saga_loop s ctx dur (map (step_of name) qs) i [0..<i] res w = ((res', evs), w')"
    and ps: "ps = ps' @ qs" "length ps' = i" "done_chain ps' w0 w" "rs_Status res = StatusCommitted"
  shows "rs_Status res' = StatusCommitted \<and> done_chain ps w0 w' \<or> rs_Status res' = StatusCompensated \<and> obs w' = obs w0"
  using lp ps
proof (induction qs arbitrary: i res w ps')
  case (Cons q qs)
  have okw: "ok w" using done_chain_ok [OF Cons.prems(4) ok0] .
  have comp: "rs_Status res2 = StatusCompensated \<and> obs w2 = obs w0"
    if c: "Saga_compensate s [0..<i] res1 v = ((res2, evs2), w2)" and v: "ok v" "obs v = obs w" for res1 v res2 evs2 w2
  proof -
    obtain v' where v': "undo_chain (rev ps') v v'" "obs v' = obs w0"
      using undo_restores [OF Cons.prems(4) ok0 v] by blast
    have "map ((!) ps) [0..<i] = ps'" using Cons.prems(2,3) by (intro nth_equalityI) (simp_all add: nth_append)
    then have "map ((!) ps) (rev [0..<i]) = rev ps'" by (simp flip: rev_map)
    then obtain res3 evs3 where "saga_compensate_loop s (rev [0..<i]) (res1\<lparr>rs_Status := StatusCompensated\<rparr>) v = ((res3, evs3), v')"
        "rs_Status res3 = StatusCompensated"
      using saga_undo_loop [OF s(1,2), of "rev [0..<i]" v v' "res1\<lparr>rs_Status := StatusCompensated\<rparr>"] v'(1) Cons.prems(2,3) by auto
    then show ?thesis using c v'(2) by (simp add: Saga_compensate_def)
  qed
  show ?case
  proof (cases "ctx i")
    case (Some e)
    then show ?thesis using Cons.prems(1) comp [OF _ okw] by (simp add: Let_def step_of_def)
  next
    case None
    obtain r w1 where run: "safe_Run (act q) w = (r, w1)" by force
    have q: "valid q" using s(3) Cons.prems(2) by simp
    have ok1: "ok w1" by (rule act_ok [OF q okw run])
    show ?thesis
    proof (cases r)
      case (Some e)
      then show ?thesis
        using Cons.prems(1) None run comp [OF _ ok1] act_fails [OF q okw] by (simp add: Let_def step_of_def)
    next
      case None': None
      have "done_chain (ps' @ [q]) w0 w1" using Cons.prems(4) run None' q by (auto simp: done_chain_append)
      then show ?thesis
        using Cons.IH [of "Suc i" _ w1 "ps' @ [q]"] Cons.prems None None' run by (simp add: Let_def step_of_def)
    qed
  qed
qed simp

lemma saga_atomic:
  assumes "sg_steps s = map (step_of name) ps" "0 \<le> sc_compRetries (sg_cfg s)" "list_all valid ps" "ok w"
    and "Saga_Execute s ctx dur w = ((res, evs), w')"
  shows "rs_Status res = StatusCommitted \<and> done_chain ps w w' \<or> rs_Status res = StatusCompensated \<and> obs w' = obs w"
  using assms saga_loop_restores [OF assms(1-4), of ctx dur ps 0 _ w res evs w' "[]"] by (simp add: Saga_Execute_def)

end

end
