(* ===== verification/Tcc.thy ===== *)
theory Tcc
  imports Compensation
begin

text \<open>
  \<open>pkg/orchestration/tcc\<close>: try every branch in order; confirm all of them when every try succeeded, else
  cancel the tried ones in reverse order. Confirm and cancel are retried with a capped exponential delay;
  the callback's calls and the sleeps are part of the trace. \<open>ctx i\<close> is what \<open>ctx.Err()\<close> answers before the
  try of branch \<open>i\<close>, \<open>dur i\<close> the measured duration of the try.
\<close>

section \<open>The coordinator\<close>

record 'w Branch =
  br_Name :: string
  br_Try :: "'w act"
  br_Confirm :: "'w act option"
  br_Cancel :: "'w act option"

datatype tcc_Status = StatusConfirmed | StatusCancelled | StatusCancelFailed | StatusConfirmFailed

fun tcc_Status_String :: "tcc_Status \<Rightarrow> string" where
  "tcc_Status_String StatusConfirmed = ''confirmed''"
| "tcc_Status_String StatusCancelled = ''cancelled''"
| "tcc_Status_String StatusCancelFailed = ''cancel_failed''"
| "tcc_Status_String StatusConfirmFailed = ''confirm_failed''"

datatype tcc_err =
    TryErr run_err
  | TryContextDone string string err
  | TryFailed string string run_err
  | ConfirmErrs "(string \<times> run_err) list"

record BranchResult =
  bs_Name :: string
  bs_TryErr :: "tcc_err option"
  bs_ConfirmErr :: "run_err option"
  bs_CancelErr :: "run_err option"
  bs_Cancelled :: bool
  bs_Confirmed :: bool
  bs_TryDur :: duration

definition zero_branch :: BranchResult where
  "zero_branch = \<lparr>bs_Name = [], bs_TryErr = None, bs_ConfirmErr = None, bs_CancelErr = None,
     bs_Cancelled = False, bs_Confirmed = False, bs_TryDur = 0\<rparr>"

record tcc_Result =
  tr_Status :: tcc_Status
  tr_Err :: "tcc_err option"
  tr_FailedBranch :: string
  tr_Branches :: "BranchResult list"

definition tcc_Failed :: "tcc_Result \<Rightarrow> bool" where
  "tcc_Failed r \<longleftrightarrow> tr_Status r \<noteq> StatusConfirmed"

record tcc_config =
  tc_confirmRetries :: int
  tc_cancelRetries :: int
  tc_confirmDelay :: duration
  tc_cancelDelay :: duration
  tc_maxRetryDelay :: duration
  tc_onCancel :: bool
  tc_onConfirm :: bool

datatype tcc_option =
    WithConfirmRetry int duration
  | WithCancelRetry int "duration list"
  | WithMaxRetryDelay duration
  | WithOnCancel
  | WithOnConfirm

fun tcc_apply :: "tcc_option \<Rightarrow> tcc_config \<Rightarrow> tcc_config" where
  "tcc_apply (WithConfirmRetry r d) c =
     (let c1 = (if 0 \<le> r then c\<lparr>tc_confirmRetries := r\<rparr> else c)
      in if 0 < d then c1\<lparr>tc_confirmDelay := d\<rparr> else c1)"
| "tcc_apply (WithCancelRetry r ds) c =
     (let c1 = (if 0 \<le> r then c\<lparr>tc_cancelRetries := r\<rparr> else c)
      in if ds \<noteq> [] \<and> 0 < ds ! 0 then c1\<lparr>tc_cancelDelay := ds ! 0\<rparr> else c1)"
| "tcc_apply (WithMaxRetryDelay d) c = (if 0 < d then c\<lparr>tc_maxRetryDelay := d\<rparr> else c)"
| "tcc_apply WithOnCancel c = c\<lparr>tc_onCancel := True\<rparr>"
| "tcc_apply WithOnConfirm c = c\<lparr>tc_onConfirm := True\<rparr>"

record 'w Tx =
  tx_name :: string
  tx_cfg :: tcc_config
  tx_branches :: "'w Branch list"

definition Tx_New :: "string \<Rightarrow> tcc_option list \<Rightarrow> 'w Tx" where
  "Tx_New name opts =
     \<lparr>tx_name = name,
      tx_cfg = fold tcc_apply opts \<lparr>tc_confirmRetries = 0, tc_cancelRetries = 0, tc_confirmDelay = 100000000,
                 tc_cancelDelay = 100000000, tc_maxRetryDelay = 10 * second, tc_onCancel = False, tc_onConfirm = False\<rparr>,
      tx_branches = []\<rparr>"

definition Tx_Branch :: "'w Branch \<Rightarrow> 'w Tx \<Rightarrow> 'w Tx" where
  "Tx_Branch b t = t\<lparr>tx_branches := tx_branches t @ [b]\<rparr>"

datatype tcc_event =
    Hook string int "run_err option"
  | Sleep duration

text \<open>The delay after a failed attempt: the base shifted left, in 64 bits, and capped.\<close>

definition tcc_delay :: "tcc_config \<Rightarrow> duration \<Rightarrow> int \<Rightarrow> duration" where
  "tcc_delay c base attempt =
     (let shift = min (attempt - 1) 30;
          delay = wrap64 (base * 2 ^ nat shift)
      in if 0 < tc_maxRetryDelay c \<and> tc_maxRetryDelay c < delay then tc_maxRetryDelay c else delay)"

text \<open>\<open>retryOp\<close> with \<open>n\<close> attempts left, the next one being number \<open>attempt\<close>.\<close>

fun tcc_attempts :: "tcc_config \<Rightarrow> string \<Rightarrow> 'w act \<Rightarrow> duration \<Rightarrow> bool \<Rightarrow> nat \<Rightarrow> int \<Rightarrow> 'w \<Rightarrow> (run_err option \<times> tcc_event list) \<times> 'w" where
  "tcc_attempts c name op base hook 0 attempt w = ((None, []), w)"
| "tcc_attempts c name op base hook (Suc n) attempt w =
     (case safe_Run op w of
        (e, w') \<Rightarrow>
          let ev = (if hook then [Hook name attempt e] else [])
          in if e = None \<or> n = 0 then ((e, ev), w')
             else (case tcc_attempts c name op base hook n (attempt + 1) w' of
                     ((e', evs), w2) \<Rightarrow> ((e', ev @ Sleep (tcc_delay c base attempt) # evs), w2)))"

definition Tx_retryOp :: "'w Tx \<Rightarrow> string \<Rightarrow> 'w act \<Rightarrow> int \<Rightarrow> duration \<Rightarrow> bool \<Rightarrow> 'w \<Rightarrow> (run_err option \<times> tcc_event list) \<times> 'w" where
  "Tx_retryOp t name op retries base hook w = tcc_attempts (tx_cfg t) name op base hook (nat (retries + 1)) 1 w"

text \<open>The loop of \<open>confirmAll\<close> collects the errors; the loop of \<open>cancelAll\<close> lowers the status.\<close>

primrec tcc_confirm_loop :: "'w Tx \<Rightarrow> nat list \<Rightarrow> tcc_Result \<Rightarrow> 'w \<Rightarrow> (tcc_Result \<times> (string \<times> run_err) list \<times> tcc_event list) \<times> 'w" where
  "tcc_confirm_loop t [] res w = ((res, [], []), w)"
| "tcc_confirm_loop t (idx # rest) res w =
     (let b = tx_branches t ! idx;
          upd = (\<lambda>f. res\<lparr>tr_Branches := (tr_Branches res)[idx := f (tr_Branches res ! idx)]\<rparr>)
      in case br_Confirm b of
           None \<Rightarrow> tcc_confirm_loop t rest (upd (\<lambda>x. x\<lparr>bs_Confirmed := True\<rparr>)) w
         | Some f \<Rightarrow>
             (case Tx_retryOp t (br_Name b) f (tc_confirmRetries (tx_cfg t)) (tc_confirmDelay (tx_cfg t)) (tc_onConfirm (tx_cfg t)) w of
                ((e, evs), w1) \<Rightarrow>
                  (case tcc_confirm_loop t rest (upd (\<lambda>x. x\<lparr>bs_Confirmed := True, bs_ConfirmErr := e\<rparr>)) w1 of
                     ((res2, errs, evs2), w2) \<Rightarrow>
                       ((res2, (case e of None \<Rightarrow> errs | Some x \<Rightarrow> (br_Name b, x) # errs), evs @ evs2), w2))))"

definition Tx_confirmAll :: "'w Tx \<Rightarrow> nat list \<Rightarrow> tcc_Result \<Rightarrow> 'w \<Rightarrow> (tcc_Result \<times> tcc_event list) \<times> 'w" where
  "Tx_confirmAll t tried res w =
     (case tcc_confirm_loop t tried res w of
        ((res1, errs, evs), w1) \<Rightarrow>
          ((if errs \<noteq> [] then res1\<lparr>tr_Status := StatusConfirmFailed, tr_Err := Some (ConfirmErrs errs)\<rparr> else res1, evs), w1))"

primrec tcc_cancel_loop :: "'w Tx \<Rightarrow> nat list \<Rightarrow> tcc_Result \<Rightarrow> 'w \<Rightarrow> (tcc_Result \<times> tcc_event list) \<times> 'w" where
  "tcc_cancel_loop t [] res w = ((res, []), w)"
| "tcc_cancel_loop t (idx # rest) res w =
     (let b = tx_branches t ! idx;
          upd = (\<lambda>f. res\<lparr>tr_Branches := (tr_Branches res)[idx := f (tr_Branches res ! idx)]\<rparr>)
      in case br_Cancel b of
           None \<Rightarrow> tcc_cancel_loop t rest (upd (\<lambda>x. x\<lparr>bs_Cancelled := True\<rparr>)) w
         | Some f \<Rightarrow>
             (case Tx_retryOp t (br_Name b) f (tc_cancelRetries (tx_cfg t)) (tc_cancelDelay (tx_cfg t)) (tc_onCancel (tx_cfg t)) w of
                ((e, evs), w1) \<Rightarrow>
                  let res1 = upd (\<lambda>x. x\<lparr>bs_Cancelled := True, bs_CancelErr := e\<rparr>);
                      res2 = (if e \<noteq> None then res1\<lparr>tr_Status := StatusCancelFailed\<rparr> else res1)
                  in (case tcc_cancel_loop t rest res2 w1 of ((res3, evs2), w2) \<Rightarrow> ((res3, evs @ evs2), w2))))"

definition Tx_cancelAll :: "'w Tx \<Rightarrow> nat list \<Rightarrow> tcc_Result \<Rightarrow> 'w \<Rightarrow> (tcc_Result \<times> tcc_event list) \<times> 'w" where
  "Tx_cancelAll t tried res w = tcc_cancel_loop t (rev tried) (res\<lparr>tr_Status := StatusCancelled\<rparr>) w"

primrec tcc_loop :: "'w Tx \<Rightarrow> (nat \<Rightarrow> err option) \<Rightarrow> (nat \<Rightarrow> duration) \<Rightarrow> 'w Branch list \<Rightarrow> nat \<Rightarrow> nat list \<Rightarrow> tcc_Result \<Rightarrow> 'w
    \<Rightarrow> (tcc_Result \<times> tcc_event list) \<times> 'w" where
  "tcc_loop t ctx dur [] i tried res w = Tx_confirmAll t tried res w"
| "tcc_loop t ctx dur (b # rest) i tried res w =
     (case ctx i of
        Some e \<Rightarrow>
          let er = TryContextDone (tx_name t) (br_Name b) e
          in Tx_cancelAll t tried
               (res\<lparr>tr_Err := Some er, tr_FailedBranch := br_Name b,
                    tr_Branches := (tr_Branches res)[i := zero_branch\<lparr>bs_Name := br_Name b, bs_TryErr := Some er\<rparr>]\<rparr>) w
      | None \<Rightarrow>
          (case safe_Run (br_Try b) w of
             (er, w1) \<Rightarrow>
               let res1 = res\<lparr>tr_Branches := (tr_Branches res)[i := zero_branch\<lparr>bs_Name := br_Name b,
                            bs_TryErr := map_option TryErr er, bs_TryDur := dur i\<rparr>]\<rparr>
               in case er of
                    Some e \<Rightarrow> Tx_cancelAll t tried
                                (res1\<lparr>tr_Err := Some (TryFailed (tx_name t) (br_Name b) e), tr_FailedBranch := br_Name b\<rparr>) w1
                  | None \<Rightarrow> tcc_loop t ctx dur rest (Suc i) (tried @ [i]) res1 w1))"

definition Tx_Execute :: "'w Tx \<Rightarrow> (nat \<Rightarrow> err option) \<Rightarrow> (nat \<Rightarrow> duration) \<Rightarrow> 'w \<Rightarrow> (tcc_Result \<times> tcc_event list) \<times> 'w" where
  "Tx_Execute t ctx dur w =
     tcc_loop t ctx dur (tx_branches t) 0 []
       \<lparr>tr_Status = StatusConfirmed, tr_Err = None, tr_FailedBranch = [],
        tr_Branches = replicate (length (tx_branches t)) zero_branch\<rparr> w"

section \<open>What the result says\<close>

primrec tcc_forward :: "(nat \<Rightarrow> err option) \<Rightarrow> 'w Branch list \<Rightarrow> nat \<Rightarrow> 'w \<Rightarrow> nat" where
  "tcc_forward ctx [] i w = 0"
| "tcc_forward ctx (b # rest) i w =
     (if ctx i \<noteq> None then 0
      else case safe_Run (br_Try b) w of (Some e, w') \<Rightarrow> 0 | (None, w') \<Rightarrow> Suc (tcc_forward ctx rest (Suc i) w'))"

definition untouched :: "BranchResult \<Rightarrow> bool" where
  "untouched x \<longleftrightarrow> \<not> bs_Cancelled x \<and> \<not> bs_Confirmed x \<and> bs_ConfirmErr x = None \<and> bs_CancelErr x = None"

lemma untouched_upd:
  "untouched x \<Longrightarrow> x\<lparr>bs_Confirmed := True, bs_ConfirmErr := None\<rparr> = x\<lparr>bs_Confirmed := True\<rparr>"
  "untouched x \<Longrightarrow> x\<lparr>bs_Cancelled := True, bs_CancelErr := None\<rparr> = x\<lparr>bs_Cancelled := True\<rparr>"
  by (cases x, simp add: untouched_def)+

lemma tcc_confirm_loop_facts:
  assumes "tcc_confirm_loop t idxs res w = ((res', errs, evs), w')" "distinct idxs" "\<forall>i\<in>set idxs. i < length (tr_Branches res)"
    and "\<forall>i\<in>set idxs. untouched (tr_Branches res ! i)"
  shows "length (tr_Branches res') = length (tr_Branches res) \<and> tr_Status res' = tr_Status res \<and> tr_Err res' = tr_Err res
    \<and> (\<forall>j. j \<notin> set idxs \<longrightarrow> tr_Branches res' ! j = tr_Branches res ! j)
    \<and> (\<forall>i\<in>set idxs. bs_Confirmed (tr_Branches res' ! i) \<and> \<not> bs_Cancelled (tr_Branches res' ! i))
    \<and> (errs = [] \<longleftrightarrow> (\<forall>i\<in>set idxs. bs_ConfirmErr (tr_Branches res' ! i) = None))"
  using assms
proof (induction idxs arbitrary: res w errs evs)
  case (Cons i idxs)
  let ?b = "tx_branches t ! i"
  obtain e res1 w1 errs2 evs2 where lp: "tcc_confirm_loop t idxs res1 w1 = ((res', errs2, evs2), w')"
    and res1: "tr_Branches res1 = (tr_Branches res)[i := (tr_Branches res ! i)\<lparr>bs_Confirmed := True, bs_ConfirmErr := e\<rparr>]"
      "tr_Status res1 = tr_Status res" "tr_Err res1 = tr_Err res"
    and errs: "errs = (case e of None \<Rightarrow> errs2 | Some x \<Rightarrow> (br_Name ?b, x) # errs2)"
  proof (cases "br_Confirm ?b")
    case None
    then show ?thesis
      using Cons.prems(1,4)
      by (intro that [of "res\<lparr>tr_Branches := (tr_Branches res)[i := (tr_Branches res ! i)\<lparr>bs_Confirmed := True\<rparr>]\<rparr>" w errs evs None])
        (simp_all add: Let_def untouched_upd)
  next
    case (Some f)
    then show ?thesis using Cons.prems(1) by (auto simp: Let_def split: prod.splits intro: that)
  qed
  have i: "i \<notin> set idxs" "i < length (tr_Branches res)" "untouched (tr_Branches res ! i)" using Cons.prems by simp_all
  then have "\<forall>j\<in>set idxs. untouched (tr_Branches res1 ! j)" using Cons.prems(4) res1(1) by (auto simp: nth_list_update)
  then have IH: "length (tr_Branches res') = length (tr_Branches res1) \<and> tr_Status res' = tr_Status res1 \<and> tr_Err res' = tr_Err res1
    \<and> (\<forall>j. j \<notin> set idxs \<longrightarrow> tr_Branches res' ! j = tr_Branches res1 ! j)
    \<and> (\<forall>i\<in>set idxs. bs_Confirmed (tr_Branches res' ! i) \<and> \<not> bs_Cancelled (tr_Branches res' ! i))
    \<and> (errs2 = [] \<longleftrightarrow> (\<forall>i\<in>set idxs. bs_ConfirmErr (tr_Branches res' ! i) = None))"
    using Cons.IH [OF lp] Cons.prems res1 by simp
  then have at: "tr_Branches res' ! i = (tr_Branches res ! i)\<lparr>bs_Confirmed := True, bs_ConfirmErr := e\<rparr>"
    using i res1(1) by simp
  have "errs = [] \<longleftrightarrow> (\<forall>j\<in>set (i # idxs). bs_ConfirmErr (tr_Branches res' ! j) = None)"
    using errs IH at by (auto split: option.splits)
  then show ?case using IH at i res1 by (auto simp: untouched_def nth_list_update)
qed simp

lemma tcc_cancel_loop_facts:
  assumes "tcc_cancel_loop t idxs res w = ((res', evs), w')" "distinct idxs" "\<forall>i\<in>set idxs. i < length (tr_Branches res)"
    and "\<forall>i\<in>set idxs. untouched (tr_Branches res ! i)"
  shows "length (tr_Branches res') = length (tr_Branches res) \<and> tr_Err res' = tr_Err res \<and> tr_FailedBranch res' = tr_FailedBranch res
    \<and> (\<forall>j. j \<notin> set idxs \<longrightarrow> tr_Branches res' ! j = tr_Branches res ! j)
    \<and> (\<forall>i\<in>set idxs. bs_Cancelled (tr_Branches res' ! i) \<and> \<not> bs_Confirmed (tr_Branches res' ! i))
    \<and> tr_Status res' = (if \<forall>i\<in>set idxs. bs_CancelErr (tr_Branches res' ! i) = None then tr_Status res else StatusCancelFailed)"
  using assms
proof (induction idxs arbitrary: res w evs)
  case (Cons i idxs)
  let ?b = "tx_branches t ! i"
  obtain e res1 w1 evs2 where lp: "tcc_cancel_loop t idxs res1 w1 = ((res', evs2), w')"
    and res1: "tr_Branches res1 = (tr_Branches res)[i := (tr_Branches res ! i)\<lparr>bs_Cancelled := True, bs_CancelErr := e\<rparr>]"
      "tr_Status res1 = (if e = None then tr_Status res else StatusCancelFailed)" "tr_Err res1 = tr_Err res"
      "tr_FailedBranch res1 = tr_FailedBranch res"
  proof (cases "br_Cancel ?b")
    case None
    then show ?thesis
      using Cons.prems(1,4)
      by (intro that [of "res\<lparr>tr_Branches := (tr_Branches res)[i := (tr_Branches res ! i)\<lparr>bs_Cancelled := True\<rparr>]\<rparr>" w evs None])
        (simp_all add: Let_def untouched_upd)
  next
    case (Some f)
    obtain e evs1 w1 where r: "Tx_retryOp t (br_Name ?b) f (tc_cancelRetries (tx_cfg t)) (tc_cancelDelay (tx_cfg t)) (tc_onCancel (tx_cfg t)) w
        = ((e, evs1), w1)" by (metis prod.exhaust)
    then show ?thesis
      using Cons.prems(1) Some by (cases "e = None") (auto simp: Let_def split: prod.splits intro: that)
  qed
  have i: "i \<notin> set idxs" "i < length (tr_Branches res)" "untouched (tr_Branches res ! i)" using Cons.prems by simp_all
  then have "\<forall>j\<in>set idxs. untouched (tr_Branches res1 ! j)" using Cons.prems(4) res1(1) by (auto simp: nth_list_update)
  then have IH: "length (tr_Branches res') = length (tr_Branches res1) \<and> tr_Err res' = tr_Err res1 \<and> tr_FailedBranch res' = tr_FailedBranch res1
    \<and> (\<forall>j. j \<notin> set idxs \<longrightarrow> tr_Branches res' ! j = tr_Branches res1 ! j)
    \<and> (\<forall>i\<in>set idxs. bs_Cancelled (tr_Branches res' ! i) \<and> \<not> bs_Confirmed (tr_Branches res' ! i))
    \<and> tr_Status res' = (if \<forall>i\<in>set idxs. bs_CancelErr (tr_Branches res' ! i) = None then tr_Status res1 else StatusCancelFailed)"
    using Cons.IH [OF lp] Cons.prems res1 by simp
  then have at: "tr_Branches res' ! i = (tr_Branches res ! i)\<lparr>bs_Cancelled := True, bs_CancelErr := e\<rparr>"
    using i res1(1) by simp
  then have "tr_Status res' = (if \<forall>j\<in>set (i # idxs). bs_CancelErr (tr_Branches res' ! j) = None then tr_Status res else StatusCancelFailed)"
    using IH res1(2) by auto
  then show ?case using IH at i res1 by (auto simp: untouched_def nth_list_update)
qed simp

text \<open>The report after \<open>k\<close> successful tries of \<open>n\<close> branches.\<close>

definition tcc_verdict :: "'w Tx \<Rightarrow> nat \<Rightarrow> tcc_Result \<Rightarrow> bool" where
  "tcc_verdict t k res \<longleftrightarrow>
     length (tr_Branches res) = length (tx_branches t)
     \<and> (if k = length (tx_branches t)
         then (\<forall>i<k. bs_Confirmed (tr_Branches res ! i) \<and> \<not> bs_Cancelled (tr_Branches res ! i))
           \<and> tr_Status res = (if \<forall>i<k. bs_ConfirmErr (tr_Branches res ! i) = None then StatusConfirmed else StatusConfirmFailed)
           \<and> (tr_Err res = None \<longleftrightarrow> tr_Status res = StatusConfirmed)
         else (\<forall>i<k. bs_Cancelled (tr_Branches res ! i) \<and> \<not> bs_Confirmed (tr_Branches res ! i))
           \<and> (\<forall>i. k \<le> i \<and> i < length (tx_branches t) \<longrightarrow> untouched (tr_Branches res ! i))
           \<and> tr_Status res = (if \<forall>i<k. bs_CancelErr (tr_Branches res ! i) = None then StatusCancelled else StatusCancelFailed)
           \<and> tr_Err res \<noteq> None \<and> tr_FailedBranch res = br_Name (tx_branches t ! k))"

lemma untouched_zero [simp]: "untouched (zero_branch\<lparr>bs_Name := n, bs_TryErr := e\<rparr>)"
  "untouched (zero_branch\<lparr>bs_Name := n, bs_TryErr := e, bs_TryDur := d\<rparr>)" "untouched zero_branch"
  by (simp_all add: untouched_def zero_branch_def)

lemma Tx_cancelAll_verdict:
  assumes "Tx_cancelAll t [0..<k] res w = ((res', evs), w')" "k < length (tx_branches t)"
    and "length (tr_Branches res) = length (tx_branches t)" "\<forall>i<length (tx_branches t). untouched (tr_Branches res ! i)"
    and "tr_Err res \<noteq> None" "tr_FailedBranch res = br_Name (tx_branches t ! k)"
  shows "tcc_verdict t k res'"
proof -
  have lp: "tcc_cancel_loop t (rev [0..<k]) (res\<lparr>tr_Status := StatusCancelled\<rparr>) w = ((res', evs), w')"
    using assms(1) by (simp add: Tx_cancelAll_def)
  note f = tcc_cancel_loop_facts [OF lp]
  show ?thesis using f assms(2-6) by (auto simp: tcc_verdict_def)
qed

lemma Tx_confirmAll_verdict:
  assumes "Tx_confirmAll t [0..<k] res w = ((res', evs), w')" "k = length (tx_branches t)"
    and "length (tr_Branches res) = k" "\<forall>i<k. untouched (tr_Branches res ! i)" "tr_Err res = None" "tr_Status res = StatusConfirmed"
  shows "tcc_verdict t k res'"
proof -
  obtain res1 errs where lp: "tcc_confirm_loop t [0..<k] res w = ((res1, errs, evs), w')"
    and res': "res' = (if errs \<noteq> [] then res1\<lparr>tr_Status := StatusConfirmFailed, tr_Err := Some (ConfirmErrs errs)\<rparr> else res1)"
    using assms(1) by (auto simp: Tx_confirmAll_def split: prod.splits)
  note f = tcc_confirm_loop_facts [OF lp]
  show ?thesis using f assms(2-6) res' by (auto simp: tcc_verdict_def)
qed

lemma tcc_loop_verdict:
  assumes "tcc_loop t ctx dur bs i [0..<i] res w = ((res', evs), w')" "drop i (tx_branches t) = bs" "i \<le> length (tx_branches t)"
    and "length (tr_Branches res) = length (tx_branches t)" "\<forall>j<length (tx_branches t). untouched (tr_Branches res ! j)"
    and "tr_Err res = None" "tr_Status res = StatusConfirmed"
  shows "tcc_verdict t (i + tcc_forward ctx bs i w) res'"
  using assms
proof (induction bs arbitrary: i res w)
  case Nil
  then have "i = length (tx_branches t)" by simp
  then show ?case using Nil Tx_confirmAll_verdict [of t i res w] by simp
next
  case (Cons b bs)
  have b: "tx_branches t ! i = b" and rest: "drop (Suc i) (tx_branches t) = bs"
    using Cons.prems(2) by (metis nth_via_drop, metis drop_Suc list.sel(3) tl_drop)
  have i: "i < length (tx_branches t)" using Cons.prems(2) by (metis drop_eq_Nil leI list.distinct(1))
  have upd: "\<forall>j<length (tx_branches t). untouched ((tr_Branches res)[i := x] ! j)" if "untouched x" for x
    using Cons.prems(4,5) that i by (simp add: nth_list_update)
  show ?case
  proof (cases "ctx i")
    case (Some e)
    then show ?thesis
      using Cons.prems(1,4) b i upd by (auto simp: Let_def intro!: Tx_cancelAll_verdict [where w = w])
  next
    case None
    obtain er w1 where run: "safe_Run (br_Try b) w = (er, w1)" by force
    show ?thesis
    proof (cases er)
      case (Some e)
      then show ?thesis
        using Cons.prems(1,4) b i upd None run by (auto simp: Let_def intro!: Tx_cancelAll_verdict [where w = w1])
    next
      case None': None
      let ?res = "res\<lparr>tr_Branches := (tr_Branches res)[i := zero_branch\<lparr>bs_Name := br_Name b, bs_TryErr := None, bs_TryDur := dur i\<rparr>]\<rparr>"
      have lp: "tcc_loop t ctx dur bs (Suc i) [0..<Suc i] ?res w1 = ((res', evs), w')"
        using Cons.prems(1) None None' run by simp
      have "tcc_verdict t (Suc i + tcc_forward ctx bs (Suc i) w1) res'"
        using Cons.prems(4,6,7) i upd by (intro Cons.IH [OF lp rest]) simp_all
      then show ?thesis using None None' run by simp
    qed
  qed
qed



section \<open>Retry delays\<close>

text \<open>The retry delay never overflows for a base up to \<open>2 ^ 33\<close> nanoseconds (about 8.6 seconds): it is positive,
  does not decrease from one attempt to the next and stays below the configured maximum.\<close>

theorem Tcc_delay_bounds:
  assumes "0 < base" and "base < 2 ^ 33" and "1 \<le> a" and "a \<le> b" and "0 < tc_maxRetryDelay c"
  shows "0 < tcc_delay c base a \<and> tcc_delay c base a \<le> tcc_delay c base b \<and> tcc_delay c base b \<le> tc_maxRetryDelay c"
proof -
  have pow: "(2::int) ^ nat (min (n - 1) 30) \<le> 2 ^ 30" for n :: int by (rule power_increasing) auto
  have le: "base * 2 ^ nat (min (n - 1) 30) \<le> base * 2 ^ 30" for n :: int
    using pow assms(1) by (intro mult_left_mono) simp_all
  have "base * 2 ^ 30 < 2 ^ 33 * (2 ^ 30 :: int)" using assms(2) by (intro mult_strict_right_mono) simp_all
  then have lt: "base * 2 ^ nat (min (n - 1) 30) < 2 ^ 63" for n :: int using le [of n] by simp
  have pos: "0 < base * 2 ^ nat (min (n - 1) 30)" for n :: int using assms(1) by simp
  have w: "wrap64 (base * 2 ^ nat (min (n - 1) 30)) = base * 2 ^ nat (min (n - 1) 30)" for n :: int
    using lt [of n] pos [of n] by (intro wrap64_id) (simp add: in_i64_def)
  have "(2::int) ^ nat (min (a - 1) 30) \<le> 2 ^ nat (min (b - 1) 30)" using assms(4) by (intro power_increasing) auto
  then have "base * 2 ^ nat (min (a - 1) 30) \<le> base * 2 ^ nat (min (b - 1) 30)" using assms(1) by (intro mult_left_mono) simp_all
  then show ?thesis using pos [of a] assms(5) by (auto simp: tcc_delay_def w Let_def)
qed

theorem Tcc_delay_bounds_witness:
  "tcc_delay (tx_cfg (Tx_New ''x'' [])) 100000000 1 = 100000000
   \<and> tcc_delay (tx_cfg (Tx_New ''x'' [])) 100000000 40 \<le> 10000000000"
  using Tcc_delay_bounds [of 100000000 1 40 "tx_cfg (Tx_New ''x'' [])"]
  by (simp add: Tx_New_def tcc_delay_def in_i64_def second_def)

section \<open>Compensable branches\<close>

context compensable
begin

definition branch_of :: "('p \<Rightarrow> string) \<Rightarrow> ('p \<Rightarrow> 'w act option) \<Rightarrow> 'p \<Rightarrow> 'w Branch" where
  "branch_of name conf p = \<lparr>br_Name = name p, br_Try = act p, br_Confirm = conf p, br_Cancel = Some (comp p)\<rparr>"

lemma tcc_attempts_first:
  "0 < n \<Longrightarrow> safe_Run f w = (None, w') \<Longrightarrow> \<exists>evs. tcc_attempts c name f base hook n a w = ((None, evs), w')"
  by (cases n) (auto simp: Let_def)

lemma tcc_undo_loop:
  assumes "tx_branches t = map (branch_of name conf) ps" "0 \<le> tc_cancelRetries (tx_cfg t)" "\<forall>i\<in>set idxs. i < length ps"
    and "undo_chain (map ((!) ps) idxs) v v'"
  shows "\<exists>res' evs. tcc_cancel_loop t idxs res v = ((res', evs), v') \<and> tr_Status res' = tr_Status res"
  using assms(3,4)
proof (induction idxs arbitrary: res v)
  case (Cons i idxs)
  obtain v1 where v1: "safe_Run (comp (ps ! i)) v = (None, v1)" "undo_chain (map ((!) ps) idxs) v1 v'"
    using Cons.prems(2) by auto
  have b: "tx_branches t ! i = branch_of name conf (ps ! i)" using assms(1) Cons.prems(1) by simp
  let ?res1 = "res\<lparr>tr_Branches := (tr_Branches res)[i := (tr_Branches res ! i)\<lparr>bs_Cancelled := True, bs_CancelErr := None\<rparr>]\<rparr>"
  obtain evs1 where op: "Tx_retryOp t (name (ps ! i)) (comp (ps ! i)) (tc_cancelRetries (tx_cfg t)) (tc_cancelDelay (tx_cfg t))
      (tc_onCancel (tx_cfg t)) v = ((None, evs1), v1)"
    using tcc_attempts_first [OF _ v1(1)] assms(2) unfolding Tx_retryOp_def by fastforce
  obtain res' evs where "tcc_cancel_loop t idxs ?res1 v1 = ((res', evs), v')" "tr_Status res' = tr_Status ?res1"
    using Cons.IH [OF _ v1(2), of ?res1] Cons.prems(1) by auto
  then show ?case using b op by (simp add: branch_of_def Let_def)
qed simp

lemma tcc_loop_restores:
  assumes t: "tx_branches t = map (branch_of name conf) ps" "0 \<le> tc_cancelRetries (tx_cfg t)" "list_all valid ps" and ok0: "ok w0"
    and lp: "tcc_loop t ctx dur (map (branch_of name conf) qs) i [0..<i] res w = ((res', evs), w')"
    and ps: "ps = ps' @ qs" "length ps' = i" "done_chain ps' w0 w" and k: "tcc_forward ctx (map (branch_of name conf) qs) i w < length qs"
  shows "tr_Status res' = StatusCancelled \<and> obs w' = obs w0"
  using lp ps k
proof (induction qs arbitrary: i res w ps')
  case (Cons q qs)
  have okw: "ok w" using done_chain_ok [OF Cons.prems(4) ok0] .
  have comp: "tr_Status res2 = StatusCancelled \<and> obs w2 = obs w0"
    if c: "Tx_cancelAll t [0..<i] res1 v = ((res2, evs2), w2)" and v: "ok v" "obs v = obs w" for res1 v res2 evs2 w2
  proof -
    obtain v' where v': "undo_chain (rev ps') v v'" "obs v' = obs w0"
      using undo_restores [OF Cons.prems(4) ok0 v] by blast
    have "map ((!) ps) [0..<i] = ps'" using Cons.prems(2,3) by (intro nth_equalityI) (simp_all add: nth_append)
    then have "map ((!) ps) (rev [0..<i]) = rev ps'" by (simp flip: rev_map)
    then obtain res3 evs3 where "tcc_cancel_loop t (rev [0..<i]) (res1\<lparr>tr_Status := StatusCancelled\<rparr>) v = ((res3, evs3), v')"
        "tr_Status res3 = StatusCancelled"
      using tcc_undo_loop [OF t(1,2), of "rev [0..<i]" v v' "res1\<lparr>tr_Status := StatusCancelled\<rparr>"] v'(1) Cons.prems(2,3) by auto
    then show ?thesis using c v'(2) by (simp add: Tx_cancelAll_def)
  qed
  show ?case
  proof (cases "ctx i")
    case (Some e)
    then show ?thesis using Cons.prems(1) comp [OF _ okw] by (simp add: Let_def branch_of_def)
  next
    case None
    obtain r w1 where run: "safe_Run (act q) w = (r, w1)" by force
    have q: "valid q" using t(3) Cons.prems(2) by simp
    have ok1: "ok w1" by (rule act_ok [OF q okw run])
    show ?thesis
    proof (cases r)
      case (Some e)
      then show ?thesis
        using Cons.prems(1) None run comp [OF _ ok1] act_fails [OF q okw] by (simp add: Let_def branch_of_def)
    next
      case None': None
      have "done_chain (ps' @ [q]) w0 w1" using Cons.prems(4) run None' q by (auto simp: done_chain_append)
      then show ?thesis
        using Cons.IH [of "Suc i" _ w1 "ps' @ [q]"] Cons.prems None None' run by (simp add: Let_def branch_of_def)
    qed
  qed
qed simp

lemma tcc_atomic:
  assumes "tx_branches t = map (branch_of name conf) ps" "0 \<le> tc_cancelRetries (tx_cfg t)" "list_all valid ps" "ok w"
    and "Tx_Execute t ctx dur w = ((res, evs), w')" "tcc_forward ctx (tx_branches t) 0 w < length ps"
  shows "tr_Status res = StatusCancelled \<and> obs w' = obs w"
  using assms tcc_loop_restores [OF assms(1-4), of ctx dur ps 0 _ w res evs w' "[]"] by (simp add: Tx_Execute_def)

end

end
