(* ===== verification/Refund.thy ===== *)
theory Refund
  imports Wallet Txn Saga Tcc
begin

text \<open>
  Wallet operations as participants of the transaction coordinators: \<open>Wallet.Apply\<close> as the forward operation
  and \<open>Wallet.Apply\<close> of the negated changeset as its compensation satisfy the contract \<open>compensable\<close>, with
  all balances as what is observable.
\<close>

section \<open>A wallet operation and its refund are compensable\<close>

text \<open>What a client of the transaction coordinators sees of a wallet: all balances.\<close>

definition balances :: "Wallet \<Rightarrow> key \<Rightarrow> key \<Rightarrow> int" where
  "balances w owner c = map_get 0 (Wallet_Balance w owner) c"

definition balances_ok :: "Wallet \<Rightarrow> bool" where
  "balances_ok w \<longleftrightarrow> (\<forall>owner. balance_ok (Wallet_Balance w owner))"

lemma Apply_balances:
  assumes "balances_ok w" "changeset_ok cs" "Wallet_Apply owner cs meta now w = (r, w')"
  shows "balances w' o' c = balances w o' c + (if isl r \<or> o' \<noteq> owner then 0 else delta_of cs c)"
    and "balances_ok w'"
    and "isl r \<longleftrightarrow> cs = [] \<or> (\<exists>p\<in>set cs. balances w owner (fst p) + snd p < 0 \<or> 2 ^ 63 \<le> balances w owner (fst p) + snd p)"
proof -
  have bal: "balance_ok (Wallet_Balance w owner)" using assms(1) by (simp add: balances_ok_def)
  consider "cs = []" | e where "cs \<noteq> []" "r = Inl e" | aff l where "cs \<noteq> []" "r = Inr (aff, l)"
    by (metis sum.exhaust prod.exhaust)
  then have "balances w' o' c = balances w o' c + (if isl r \<or> o' \<noteq> owner then 0 else delta_of cs c) \<and> balances_ok w'
      \<and> (isl r \<longleftrightarrow> cs = [] \<or> (\<exists>p\<in>set cs. balances w owner (fst p) + snd p < 0 \<or> 2 ^ 63 \<le> balances w owner (fst p) + snd p))"
  proof cases
    case 1
    then show ?thesis using assms by (auto simp: Wallet_Apply_def)
  next
    case (2 e)
    then have ap: "Wallet_applyLocked owner cs meta now w = (Inl e, w')" using assms(3) by (simp add: Wallet_Apply_def)
    note err = applyLocked_error [OF ap]
    show ?thesis
      using 2 err Wallet_newBal_error [OF bal assms(2) err(1)] assms(1)
      by (fastforce simp: balances_def balances_ok_def Wallet_Balance_account)
  next
    case (3 aff l)
    then have ap: "Wallet_applyLocked owner cs meta now w = (Inr (aff, l), w')" using assms(3) by (simp add: Wallet_Apply_def)
    note ok = applyLocked_ok [OF ap]
    note new = Wallet_newBal_ok [OF bal assms(2) ok(1)]
    have "balance_ok (Wallet_Balance w owner ++ map_of aff)" using new by (simp add: balance_ok_def)
    then have "balances_ok w'" using assms(1) ok(5) by (simp add: balances_ok_def Wallet_Balance_account)
    moreover have "\<forall>p\<in>set cs. 0 \<le> balances w owner (fst p) + snd p \<and> balances w owner (fst p) + snd p < 2 ^ 63"
      using Wallet_newBal_iff [OF bal assms(2)] ok(1) by (auto simp: balances_def)
    ultimately show ?thesis
      using 3 ok(5) new [of c] by (force simp: balances_def Wallet_Balance_account)
  qed
  then show "balances w' o' c = balances w o' c + (if isl r \<or> o' \<noteq> owner then 0 else delta_of cs c)" and "balances_ok w'"
    and "isl r \<longleftrightarrow> cs = [] \<or> (\<exists>p\<in>set cs. balances w owner (fst p) + snd p < 0 \<or> 2 ^ 63 \<le> balances w owner (fst p) + snd p)"
    by blast+
qed

type_synonym wallet_step = "key \<times> WalletMap \<times> string \<times> time"

fun wallet_err_msg :: "wallet_err \<Rightarrow> err" where
  "wallet_err_msg EmptyChangeset = ''wallet: empty changeset''"
| "wallet_err_msg EmptyTxID = ''wallet: empty txID''"
| "wallet_err_msg (ErrInsufficientBalance c d h) =
     ''wallet: insufficient balance: '' @ c @ '' want '' @ FormatInt d @ '', have '' @ FormatInt h"

fun wallet_act :: "wallet_step \<Rightarrow> Wallet act" where
  "wallet_act (owner, cs, meta, now) w =
     (case Wallet_Apply owner cs meta now w of
        (Inl e, w') \<Rightarrow> (Done (Some (wallet_err_msg e)), w')
      | (Inr _, w') \<Rightarrow> (Done None, w'))"

fun wallet_refund :: "wallet_step \<Rightarrow> wallet_step" where
  "wallet_refund (owner, cs, meta, now) = (owner, map (\<lambda>p. (fst p, wrap64 (- snd p))) cs, meta, now)"

definition wallet_valid :: "wallet_step \<Rightarrow> bool" where
  "wallet_valid p \<longleftrightarrow> changeset_ok (fst (snd p))"

lemma wallet_act_ok: "safe_Run (wallet_act (owner, cs, meta, now)) w = (None, w') \<longleftrightarrow> (\<exists>x. Wallet_Apply owner cs meta now w = (Inr x, w'))"
  by (cases "Wallet_Apply owner cs meta now w"; cases "fst (Wallet_Apply owner cs meta now w)") (auto simp: safe_Run_def)

lemma wallet_act_err: "safe_Run (wallet_act (owner, cs, meta, now)) w = (Some e, w') \<longleftrightarrow>
    (\<exists>x. Wallet_Apply owner cs meta now w = (Inl x, w') \<and> e = Err (wallet_err_msg x))"
  by (cases "Wallet_Apply owner cs meta now w"; cases "fst (Wallet_Apply owner cs meta now w)") (auto simp: safe_Run_def)

lemma wallet_act_world: "safe_Run (wallet_act (owner, cs, meta, now)) w = (r, w') \<Longrightarrow> \<exists>x. Wallet_Apply owner cs meta now w = (x, w')"
  by (cases r) (auto simp: wallet_act_ok wallet_act_err)

lemma delta_of_neg: "\<forall>p\<in>set cs. wrap64 (- snd p) = - snd p \<Longrightarrow> delta_of (map (\<lambda>p. (fst p, wrap64 (- snd p))) cs) c = - delta_of cs c"
  by (induction cs) auto

text \<open>The refund of a successful operation succeeds in every state with the same balances and restores them.\<close>

lemma wallet_refund_undoes:
  assumes cs: "changeset_ok cs" and ok: "balances_ok w" "balances_ok v"
    and ap: "Wallet_Apply owner cs meta now w = (Inr x, w')" and eq: "balances v = balances w'"
  shows "\<exists>y v'. Wallet_Apply owner (map (\<lambda>p. (fst p, wrap64 (- snd p))) cs) meta now v = (Inr y, v') \<and> balances_ok v' \<and> balances v' = balances w"
proof -
  let ?ncs = "map (\<lambda>p. (fst p, wrap64 (- snd p))) cs"
  have bw: "balances w' o' c = balances w o' c + (if o' \<noteq> owner then 0 else delta_of cs c)" for o' c
    using Apply_balances(1) [OF ok(1) cs ap] by simp
  have rng: "cs \<noteq> []" "\<forall>p\<in>set cs. 0 \<le> balances w owner (fst p) + snd p"
    using Apply_balances(3) [OF ok(1) cs ap] by force+
  have b: "0 \<le> balances w owner c \<and> balances w owner c < 2 ^ 63" for c
    using ok(1) balance_okD by (simp add: balances_ok_def balances_def)
  have neg: "in_i64 (- snd p)" if "p \<in> set cs" for p
    using that rng(2) b [of "fst p"] cs by (force simp: in_i64_def changeset_ok_def)
  then have w: "\<forall>p\<in>set cs. wrap64 (- snd p) = - snd p" by simp
  have ncs: "changeset_ok ?ncs" using cs by (auto simp: changeset_ok_def comp_def)
  obtain r v' where av: "Wallet_Apply owner ?ncs meta now v = (r, v')" by force
  have "\<not> (balances v owner (fst q) + snd q < 0 \<or> 2 ^ 63 \<le> balances v owner (fst q) + snd q)" if q: "q \<in> set ?ncs" for q
  proof -
    obtain p where p: "p \<in> set cs" "fst q = fst p" "snd q = - snd p" using q w by auto
    have "delta_of cs (fst p) = snd p" using delta_of_distinct p(1) cs by (simp add: changeset_ok_def)
    then have "balances v owner (fst q) + snd q = balances w owner (fst p)" using eq bw p by simp
    then show ?thesis using b [of "fst p"] by simp
  qed
  then have r: "\<not> isl r" using Apply_balances(3) [OF ok(2) ncs av] rng(1) by auto
  then obtain y where y: "r = Inr y" by (cases r) auto
  have "balances v' o' c = balances w o' c" for o' c
    using Apply_balances(1) [OF ok(2) ncs av, of o' c] r bw [of o' c] eq delta_of_neg [OF w] by simp
  then show ?thesis using av y Apply_balances(2) [OF ok(2) ncs av] by blast
qed

interpretation refundable: compensable wallet_act "\<lambda>p. wallet_act (wallet_refund p)" balances balances_ok wallet_valid
proof unfold_locales
  fix p w r w'
  assume "wallet_valid p" "balances_ok w" "safe_Run (wallet_act p) w = (r, w')"
  then show "balances_ok w'"
    by (cases p) (auto simp: wallet_valid_def dest!: wallet_act_world intro: Apply_balances(2))
next
  fix p w e w'
  assume a: "wallet_valid p" "balances_ok w" "safe_Run (wallet_act p) w = (Some e, w')"
  obtain owner cs meta now where p: "p = (owner, cs, meta, now)" by (cases p)
  obtain x where x: "Wallet_Apply owner cs meta now w = (Inl x, w')" using a(3) p by (auto simp: wallet_act_err)
  show "balances w' = balances w"
    using Apply_balances(1) [OF a(2) _ x] a(1) p by (auto simp: wallet_valid_def fun_eq_iff)
next
  fix p w w' v
  assume a: "wallet_valid p" "balances_ok w" "safe_Run (wallet_act p) w = (None, w')" "balances_ok v" "balances v = balances w'"
  obtain owner cs meta now where p: "p = (owner, cs, meta, now)" by (cases p)
  obtain x where x: "Wallet_Apply owner cs meta now w = (Inr x, w')" using a(3) p by (auto simp: wallet_act_ok simp del: wallet_act.simps)
  from wallet_refund_undoes [OF _ a(2,4) x a(5)] a(1) p
  show "\<exists>v'. safe_Run (wallet_act (wallet_refund p)) v = (None, v') \<and> balances_ok v' \<and> balances v' = balances w"
    by (fastforce simp: wallet_valid_def wallet_act_ok)
qed

text \<open>A chain of successful operations adds up its changesets.\<close>

lemma wallet_chain_balances:
  "refundable.done_chain ps w w' \<Longrightarrow> balances_ok w \<Longrightarrow>
     balances w' owner c = balances w owner c + (\<Sum>p\<leftarrow>ps. if fst p = owner then delta_of (fst (snd p)) c else 0)"
proof (induction ps arbitrary: w)
  case (Cons p ps)
  obtain w1 where w1: "wallet_valid p" "safe_Run (wallet_act p) w = (None, w1)" "refundable.done_chain ps w1 w'"
    using Cons.prems(1) by auto
  obtain o' cs meta now where p: "p = (o', cs, meta, now)" by (cases p)
  obtain x where x: "Wallet_Apply o' cs meta now w = (Inr x, w1)" using w1(2) p by (auto simp: wallet_act_ok)
  have cs: "changeset_ok cs" using w1(1) p by (simp add: wallet_valid_def)
  show ?case
    using Cons.IH [OF w1(3) Apply_balances(2) [OF Cons.prems(2) cs x]] Apply_balances(1) [OF Cons.prems(2) cs x, of owner c] p by simp
qed simp

end
