(* ===== verification/Priority.thy ===== *)
theory Priority
  imports Prelude
begin

text \<open>
  \<open>pkg/foundation/priority\<close>: a binary heap in a slice, ordered by a user function \<open>less\<close>. The loops \<open>up\<close> and
  \<open>down\<close> are recursive functions over the slice. An index out of range, and \<open>Pop\<close> or \<open>Peek\<close> of an empty
  queue, is a run-time panic (\<open>None\<close>). The sift loops of the standard library's \<open>container/heap\<close>, which
  \<open>delayqueue\<close> uses, are the same code.
\<close>

section \<open>The queue\<close>

definition pq_swap :: "'a list \<Rightarrow> nat \<Rightarrow> nat \<Rightarrow> 'a list" where
  "pq_swap xs i j = xs[i := xs ! j, j := xs ! i]"

function pq_up :: "('a \<Rightarrow> 'a \<Rightarrow> bool) \<Rightarrow> 'a list \<Rightarrow> nat \<Rightarrow> 'a list" where
  "pq_up lt xs j =
     (let i = (j - 1) div 2
      in if i = j \<or> \<not> lt (xs ! j) (xs ! i) then xs else pq_up lt (pq_swap xs i j) i)"
  by pat_completeness auto
termination by (relation "measure (\<lambda>(lt, xs, j). j)") auto

declare pq_up.simps [simp del]

text \<open>The smaller child of \<open>i\<close> among the first \<open>n\<close> elements, when the first child \<open>j1\<close> exists.\<close>

definition pq_child :: "('a \<Rightarrow> 'a \<Rightarrow> bool) \<Rightarrow> 'a list \<Rightarrow> nat \<Rightarrow> nat \<Rightarrow> nat" where
  "pq_child lt xs i n =
     (let j1 = 2 * i + 1 in if j1 + 1 < n \<and> lt (xs ! (j1 + 1)) (xs ! j1) then j1 + 1 else j1)"

function pq_down :: "('a \<Rightarrow> 'a \<Rightarrow> bool) \<Rightarrow> 'a list \<Rightarrow> nat \<Rightarrow> nat \<Rightarrow> 'a list \<times> nat" where
  "pq_down lt xs i n =
     (if n \<le> 2 * i + 1 then (xs, i)
      else let j = pq_child lt xs i n
           in if \<not> lt (xs ! j) (xs ! i) then (xs, i) else pq_down lt (pq_swap xs i j) j n)"
  by pat_completeness auto
termination by (relation "measure (\<lambda>(lt, xs, i, n). n - i)") (auto simp: pq_child_def Let_def)

declare pq_down.simps [simp del]

record 'a Queue =
  pq_items :: "'a list"
  pq_less :: "'a \<Rightarrow> 'a \<Rightarrow> bool"

definition Queue_New :: "('a \<Rightarrow> 'a \<Rightarrow> bool) \<Rightarrow> 'a Queue" where
  "Queue_New lt = \<lparr>pq_items = [], pq_less = lt\<rparr>"

definition Queue_Len :: "'a Queue \<Rightarrow> nat" where
  "Queue_Len q = length (pq_items q)"

definition Queue_Push :: "'a \<Rightarrow> 'a Queue \<Rightarrow> 'a Queue" where
  "Queue_Push item q =
     (let xs = pq_items q @ [item] in q\<lparr>pq_items := pq_up (pq_less q) xs (length xs - 1)\<rparr>)"

definition Queue_Pop :: "'a Queue \<Rightarrow> ('a \<times> 'a Queue) option" where
  "Queue_Pop q =
     (let n = length (pq_items q)
      in if n = 0 then None
         else let ys = fst (pq_down (pq_less q) (pq_swap (pq_items q) 0 (n - 1)) 0 (n - 1))
              in Some (ys ! (n - 1), q\<lparr>pq_items := take (n - 1) ys\<rparr>))"

definition Queue_Peek :: "'a Queue \<Rightarrow> 'a option" where
  "Queue_Peek q = (case pq_items q of [] \<Rightarrow> None | x # _ \<Rightarrow> Some x)"

definition Queue_PushPop :: "'a \<Rightarrow> 'a Queue \<Rightarrow> 'a \<times> 'a Queue" where
  "Queue_PushPop item q =
     (if 0 < length (pq_items q) \<and> pq_less q (pq_items q ! 0) item
      then (pq_items q ! 0,
            q\<lparr>pq_items := fst (pq_down (pq_less q) ((pq_items q)[0 := item]) 0 (length (pq_items q)))\<rparr>)
      else (item, q))"

definition Queue_Remove :: "nat \<Rightarrow> 'a Queue \<Rightarrow> ('a \<times> 'a Queue) option" where
  "Queue_Remove i q =
     (let n = length (pq_items q)
      in if n \<le> i then None
         else let ys = (if i \<noteq> n - 1
                        then pq_up (pq_less q) (fst (pq_down (pq_less q) (pq_swap (pq_items q) i (n - 1)) i (n - 1))) i
                        else pq_items q)
              in Some (ys ! (n - 1), q\<lparr>pq_items := take (n - 1) ys\<rparr>))"

text \<open>\<open>Update\<close> is told that the element at \<open>i\<close> has changed.\<close>

definition Queue_Update :: "nat \<Rightarrow> 'a Queue \<Rightarrow> 'a Queue option" where
  "Queue_Update i q =
     (if length (pq_items q) \<le> i then None
      else (case pq_down (pq_less q) (pq_items q) i (length (pq_items q)) of
              (ys, i') \<Rightarrow> Some (q\<lparr>pq_items := (if i < i' then ys else pq_up (pq_less q) ys i)\<rparr>)))"

definition Queue_Items :: "'a Queue \<Rightarrow> 'a list" where
  "Queue_Items q = pq_items q"

definition Queue_At :: "nat \<Rightarrow> 'a Queue \<Rightarrow> 'a option" where
  "Queue_At i q = (if i < length (pq_items q) then Some (pq_items q ! i) else None)"

text \<open>The synchronised variant guards the empty queue; its mutex makes each operation atomic.\<close>

definition SyncQueue_New :: "('a \<Rightarrow> 'a \<Rightarrow> bool) \<Rightarrow> 'a Queue" where
  "SyncQueue_New lt = Queue_New lt"

definition SyncQueue_Len :: "'a Queue \<Rightarrow> nat" where
  "SyncQueue_Len q = Queue_Len q"

definition SyncQueue_Push :: "'a \<Rightarrow> 'a Queue \<Rightarrow> 'a Queue" where
  "SyncQueue_Push item q = Queue_Push item q"

definition SyncQueue_Pop :: "'a Queue \<Rightarrow> 'a option \<times> 'a Queue" where
  "SyncQueue_Pop q =
     (if Queue_Len q = 0 then (None, q)
      else case Queue_Pop q of None \<Rightarrow> (None, q) | Some (x, q') \<Rightarrow> (Some x, q'))"

definition SyncQueue_Peek :: "'a Queue \<Rightarrow> 'a option" where
  "SyncQueue_Peek q = (if Queue_Len q = 0 then None else Queue_Peek q)"

definition SyncQueue_PushPop :: "'a \<Rightarrow> 'a Queue \<Rightarrow> 'a \<times> 'a Queue" where
  "SyncQueue_PushPop item q = Queue_PushPop item q"

section \<open>Swaps\<close>

lemma length_pq_swap [simp]: "length (pq_swap xs i j) = length xs"
  by (simp add: pq_swap_def)

lemma nth_pq_swap: "i < length xs \<Longrightarrow> j < length xs \<Longrightarrow>
    pq_swap xs i j ! k = (if k = j then xs ! i else if k = i then xs ! j else xs ! k)"
  by (auto simp: pq_swap_def nth_list_update)

lemma mset_pq_swap [simp]: "i < length xs \<Longrightarrow> j < length xs \<Longrightarrow> mset (pq_swap xs i j) = mset xs"
  by (simp add: pq_swap_def mset_swap)

lemma pq_up_length [simp]: "length (pq_up lt xs j) = length xs"
proof (induction lt xs j rule: pq_up.induct)
  case (1 lt xs j)
  then show ?case by (subst pq_up.simps) (auto simp: Let_def)
qed

lemma pq_up_mset: "j < length xs \<Longrightarrow> mset (pq_up lt xs j) = mset xs"
proof (induction lt xs j rule: pq_up.induct)
  case (1 lt xs j)
  then show ?case by (subst pq_up.simps) (auto simp: Let_def)
qed

lemma pq_child_range: "2 * i + 1 < n \<Longrightarrow> i < pq_child lt xs i n \<and> pq_child lt xs i n < n \<and> (pq_child lt xs i n - 1) div 2 = i"
  by (auto simp: pq_child_def Let_def)

lemma pq_down_facts:
  "n \<le> length xs \<Longrightarrow> length (fst (pq_down lt xs i n)) = length xs \<and> mset (fst (pq_down lt xs i n)) = mset xs
     \<and> (\<forall>k. n \<le> k \<longrightarrow> fst (pq_down lt xs i n) ! k = xs ! k) \<and> i \<le> snd (pq_down lt xs i n)"
proof (induction lt xs i n rule: pq_down.induct)
  case (1 lt xs i n)
  show ?case
  proof (cases "n \<le> 2 * i + 1 \<or> \<not> lt (xs ! pq_child lt xs i n) (xs ! i)")
    case True
    then show ?thesis by (subst (1 2 3 4) pq_down.simps) (auto simp: Let_def)
  next
    case False
    let ?j = "pq_child lt xs i n"
    have j: "i < ?j" "?j < n" using False pq_child_range [of i n lt xs] by auto
    have eq: "pq_down lt xs i n = pq_down lt (pq_swap xs i ?j) ?j n"
      using False by (subst pq_down.simps) (simp add: Let_def)
    have "length (fst (pq_down lt (pq_swap xs i ?j) ?j n)) = length (pq_swap xs i ?j)
        \<and> mset (fst (pq_down lt (pq_swap xs i ?j) ?j n)) = mset (pq_swap xs i ?j)
        \<and> (\<forall>k. n \<le> k \<longrightarrow> fst (pq_down lt (pq_swap xs i ?j) ?j n) ! k = pq_swap xs i ?j ! k)
        \<and> ?j \<le> snd (pq_down lt (pq_swap xs i ?j) ?j n)"
      using 1 False by (intro "1.IH") auto
    then show ?thesis using eq j "1.prems" by (auto simp: nth_pq_swap)
  qed
qed

section \<open>The heap order\<close>

text \<open>What the queue relies on: \<open>less\<close> is a strict weak order.\<close>

definition weak_order :: "('a \<Rightarrow> 'a \<Rightarrow> bool) \<Rightarrow> bool" where
  "weak_order lt \<longleftrightarrow> (\<forall>a b. lt a b \<longrightarrow> \<not> lt b a) \<and> (\<forall>a b c. \<not> lt b a \<longrightarrow> \<not> lt c b \<longrightarrow> \<not> lt c a)"

lemma weak_order_key: "weak_order (\<lambda>a b. f a < (f b :: 'k :: linorder))"
  by (force simp: weak_order_def)

text \<open>The index of the parent.\<close>

definition par :: "nat \<Rightarrow> nat" where
  "par k = (k - 1) div 2"

lemma par_less [simp]: "0 < k \<Longrightarrow> par k < k"
  by (auto simp: par_def)

lemma par_eq_iff: "par k = k \<longleftrightarrow> k = 0"
  by (auto simp: par_def)

lemma par_children: "0 < k \<Longrightarrow> par k = i \<longleftrightarrow> k = 2 * i + 1 \<or> k = 2 * i + 2"
  by (auto simp: par_def)

lemma pq_up_par: "pq_up lt xs j = (if j = 0 \<or> \<not> lt (xs ! j) (xs ! par j) then xs else pq_up lt (pq_swap xs (par j) j) (par j))"
  by (subst pq_up.simps) (auto simp: par_def Let_def)

lemma pq_child_par: "2 * i + 1 < n \<Longrightarrow> i < pq_child lt xs i n \<and> pq_child lt xs i n < n \<and> par (pq_child lt xs i n) = i"
  using pq_child_range [of i n lt xs] by (simp add: par_def)

definition pq_heap :: "('a \<Rightarrow> 'a \<Rightarrow> bool) \<Rightarrow> 'a list \<Rightarrow> nat \<Rightarrow> bool" where
  "pq_heap lt xs n \<longleftrightarrow> (\<forall>k. 0 < k \<and> k < n \<longrightarrow> \<not> lt (xs ! k) (xs ! par k))"

text \<open>The order holds except between \<open>j\<close> and its parent, or except between \<open>i\<close> and its children, or except around \<open>i\<close>.\<close>

definition up_gap :: "('a \<Rightarrow> 'a \<Rightarrow> bool) \<Rightarrow> 'a list \<Rightarrow> nat \<Rightarrow> nat \<Rightarrow> bool" where
  "up_gap lt xs n j \<longleftrightarrow> (\<forall>k. 0 < k \<and> k < n \<and> k \<noteq> j \<longrightarrow> \<not> lt (xs ! k) (xs ! par k))
     \<and> (\<forall>k. 0 < k \<and> k < n \<and> par k = j \<and> 0 < j \<longrightarrow> \<not> lt (xs ! k) (xs ! par j))"

definition down_gap :: "('a \<Rightarrow> 'a \<Rightarrow> bool) \<Rightarrow> 'a list \<Rightarrow> nat \<Rightarrow> nat \<Rightarrow> bool" where
  "down_gap lt xs n i \<longleftrightarrow> (\<forall>k. 0 < k \<and> k < n \<and> par k \<noteq> i \<longrightarrow> \<not> lt (xs ! k) (xs ! par k))
     \<and> (\<forall>k. 0 < k \<and> k < n \<and> par k = i \<and> 0 < i \<longrightarrow> \<not> lt (xs ! k) (xs ! par i))"

definition gap :: "('a \<Rightarrow> 'a \<Rightarrow> bool) \<Rightarrow> 'a list \<Rightarrow> nat \<Rightarrow> nat \<Rightarrow> bool" where
  "gap lt xs n i \<longleftrightarrow> (\<forall>k. 0 < k \<and> k < n \<and> k \<noteq> i \<and> par k \<noteq> i \<longrightarrow> \<not> lt (xs ! k) (xs ! par k))
     \<and> (\<forall>k. 0 < k \<and> k < n \<and> par k = i \<and> 0 < i \<longrightarrow> \<not> lt (xs ! k) (xs ! par i))"

locale heap_order =
  fixes lt :: "'a \<Rightarrow> 'a \<Rightarrow> bool"
  assumes lt_asym: "lt a b \<Longrightarrow> \<not> lt b a"
    and le_trans: "\<not> lt b a \<Longrightarrow> \<not> lt c b \<Longrightarrow> \<not> lt c a"
begin

lemma heap_le:
  assumes "pq_heap lt xs n" "k < n"
  shows "\<not> lt (xs ! k) (xs ! 0)"
  using assms(2)
proof (induction k rule: less_induct)
  case (less k)
  show ?case
  proof (cases "k = 0")
    case False
    then have "\<not> lt (xs ! par k) (xs ! 0)" using less by auto
    moreover have "\<not> lt (xs ! k) (xs ! par k)" using assms(1) less.prems False by (simp add: pq_heap_def)
    ultimately show ?thesis by (rule le_trans)
  qed (use lt_asym in blast)
qed

lemma heap_up_gap: "pq_heap lt xs n \<Longrightarrow> up_gap lt xs n j"
proof -
  assume h: "pq_heap lt xs n"
  have le: "\<not> lt (xs ! k) (xs ! par k)" if "0 < k" "k < n" for k using h that by (simp add: pq_heap_def)
  have "\<not> lt (xs ! k) (xs ! par j)" if "0 < k" "k < n" "par k = j" "0 < j" for k
  proof -
    have "par k < k" using that(1) by (rule par_less)
    then have "\<not> lt (xs ! j) (xs ! par j)" "\<not> lt (xs ! k) (xs ! j)" using le [of j] le [of k] that by auto
    then show ?thesis by (rule le_trans)
  qed
  then show ?thesis using le by (simp add: up_gap_def)
qed

lemma up_gap_step:
  assumes g: "up_gap lt xs n j" and j: "j < n" "n \<le> length xs" "0 < j" and lt: "lt (xs ! j) (xs ! par j)"
  shows "up_gap lt (pq_swap xs (par j) j) n (par j)"
proof -
  let ?i = "par j" and ?ys = "pq_swap xs (par j) j"
  have i: "?i < j" using j by auto
  have y: "?ys ! k = (if k = j then xs ! ?i else if k = ?i then xs ! j else xs ! k)" for k
    using par_less [OF j(3)] j(1,2) by (intro nth_pq_swap) linarith+
  have le: "\<not> lt (xs ! k) (xs ! par k)" if "0 < k" "k < n" "k \<noteq> j" for k using g that by (simp add: up_gap_def)
  have le': "\<not> lt (xs ! k) (xs ! ?i)" if "0 < k" "k < n" "par k = j" for k using g that j by (simp add: up_gap_def)
  have ij: "\<not> lt (xs ! ?i) (xs ! j)" by (rule lt_asym [OF lt])
  have 1: "\<not> lt (?ys ! k) (?ys ! par k)" if k: "0 < k" "k < n" "k \<noteq> ?i" for k
  proof (cases "k = j")
    case False
    consider "par k = j" | "par k = ?i" | "par k \<noteq> j" "par k \<noteq> ?i" by blast
    then show ?thesis
    proof cases
      case 1
      then show ?thesis using le' [of k] k False by (simp add: y)
    next
      case 2
      have "\<not> lt (xs ! k) (xs ! ?i)" using le [of k] k False 2 by simp
      then have "\<not> lt (xs ! k) (xs ! j)" using le_trans [OF ij] by blast
      then show ?thesis using k False 2 i by (simp add: y)
    next
      case 3
      then show ?thesis using le [of k] k False by (simp add: y)
    qed
  qed (use ij i in \<open>simp add: y\<close>)
  have 2: "\<not> lt (?ys ! k) (?ys ! par ?i)" if k: "0 < k" "k < n" "par k = ?i" "0 < ?i" for k
  proof -
    have pi: "par ?i \<noteq> ?i" "par ?i \<noteq> j" "k \<noteq> ?i"
      using par_less [OF k(4)] par_less [OF j(3)] par_less [OF k(1)] k(3) by linarith+
    have a: "\<not> lt (xs ! ?i) (xs ! par ?i)" using le [of ?i] i j k(4) by simp
    show ?thesis
    proof (cases "k = j")
      case True
      then show ?thesis using a pi i by (simp add: y)
    next
      case False
      then have "\<not> lt (xs ! k) (xs ! ?i)" using le [of k] k by simp
      then show ?thesis using le_trans [OF a] pi i False k by (simp add: y)
    qed
  qed
  show ?thesis using 1 2 by (simp add: up_gap_def)
qed

lemma pq_up_heap: "up_gap lt xs n j \<Longrightarrow> j < n \<Longrightarrow> n \<le> length xs \<Longrightarrow> pq_heap lt (pq_up lt xs j) n"
proof (induction j arbitrary: xs rule: less_induct)
  case (less j)
  let ?i = "par j"
  show ?case
  proof (cases "?i = j \<or> \<not> lt (xs ! j) (xs ! ?i)")
    case True
    then have "pq_up lt xs j = xs" by (subst pq_up_par) (auto simp: par_eq_iff)
    moreover have "\<not> lt (xs ! k) (xs ! par k)" if "0 < k" "k < n" for k
      using that less.prems(1) True by (cases "k = j") (auto simp: up_gap_def)
    ultimately show ?thesis by (simp add: pq_heap_def)
  next
    case False
    then have eq: "pq_up lt xs j = pq_up lt (pq_swap xs ?i j) ?i" by (subst pq_up_par) (auto simp: par_eq_iff)
    have j: "0 < j" using False by (cases "j = 0") (auto simp: par_eq_iff)
    then have "?i < j" by simp
    then show ?thesis
      using less.IH [of ?i "pq_swap xs ?i j"] up_gap_step [OF less.prems j] False less.prems eq by simp
  qed
qed

lemma child_min:
  assumes "2 * i + 1 < n" "0 < k" "k < n" "par k = i"
  shows "\<not> lt (xs ! k) (xs ! pq_child lt xs i n)"
proof -
  have "k = 2 * i + 1 \<or> k = 2 * i + 2" using assms par_children by blast
  moreover have "\<not> lt a a" for a using lt_asym by blast
  ultimately show ?thesis using lt_asym assms(3) by (auto simp: pq_child_def Let_def)
qed

lemma down_gap_step:
  assumes g: "down_gap lt xs n i" and n: "n \<le> length xs" "2 * i + 1 < n" and lt: "lt (xs ! pq_child lt xs i n) (xs ! i)"
  shows "down_gap lt (pq_swap xs i (pq_child lt xs i n)) n (pq_child lt xs i n)"
proof -
  let ?j = "pq_child lt xs i n" and ?ys = "pq_swap xs i (pq_child lt xs i n)"
  have j: "i < ?j" "?j < n" "par ?j = i" using pq_child_par [OF n(2)] by auto
  have y: "?ys ! k = (if k = ?j then xs ! i else if k = i then xs ! ?j else xs ! k)" for k
    using j n by (intro nth_pq_swap) auto
  have le: "\<not> lt (xs ! k) (xs ! par k)" if "0 < k" "k < n" "par k \<noteq> i" for k using g that by (simp add: down_gap_def)
  have 1: "\<not> lt (?ys ! k) (?ys ! par k)" if k: "0 < k" "k < n" "par k \<noteq> ?j" for k
  proof -
    consider "k = ?j" | "k = i" "k \<noteq> ?j" | "k \<noteq> ?j" "k \<noteq> i" "par k = i" | "k \<noteq> ?j" "k \<noteq> i" "par k \<noteq> i" by blast
    then show ?thesis
    proof cases
      case 1
      then show ?thesis using lt_asym [OF lt] j by (simp add: y)
    next
      case 2
      have "\<not> lt (xs ! ?j) (xs ! par i)" using g j k 2 by (simp add: down_gap_def)
      moreover have "par i < i" using 2 k by auto
      ultimately show ?thesis using 2 j by (simp add: y)
    next
      case 3
      then show ?thesis using child_min [OF n(2) k(1,2)] j by (simp add: y)
    next
      case 4
      then show ?thesis using le [of k] k by (simp add: y)
    qed
  qed
  have 2: "\<not> lt (?ys ! k) (?ys ! par ?j)" if k: "0 < k" "k < n" "par k = ?j" for k
  proof -
    have "?j < k" using par_less [of k] k by simp
    moreover have "\<not> lt (xs ! k) (xs ! ?j)" using le [of k] k j by simp
    ultimately show ?thesis using j by (simp add: y)
  qed
  show ?thesis using 1 2 by (simp add: down_gap_def)
qed

lemma pq_down_heap: "down_gap lt xs n i \<Longrightarrow> n \<le> length xs \<Longrightarrow> pq_heap lt (fst (pq_down lt xs i n)) n"
proof (induction "n - i" arbitrary: xs i rule: less_induct)
  case less
  let ?j = "pq_child lt xs i n"
  show ?case
  proof (cases "n \<le> 2 * i + 1 \<or> \<not> lt (xs ! ?j) (xs ! i)")
    case True
    then have eq: "fst (pq_down lt xs i n) = xs" by (subst pq_down.simps) (auto simp: Let_def)
    have "\<not> lt (xs ! k) (xs ! par k)" if k: "0 < k" "k < n" for k
    proof (cases "par k = i")
      case True': True
      then have "2 * i + 1 < n" using k par_children [of k i] by auto
      then show ?thesis using child_min [OF _ k True'] True True' le_trans [of "xs ! ?j" "xs ! i" "xs ! k"] by auto
    next
      case False
      then show ?thesis using less.prems(1) k by (simp add: down_gap_def)
    qed
    then show ?thesis using eq by (simp add: pq_heap_def)
  next
    case False
    then have eq: "pq_down lt xs i n = pq_down lt (pq_swap xs i ?j) ?j n" by (subst pq_down.simps) (simp add: Let_def)
    have "i < ?j" "?j < n" using False pq_child_par [of i n lt xs] by auto
    then show ?thesis
      using less.hyps [of ?j "pq_swap xs i ?j"] down_gap_step [OF less.prems] False less.prems eq by simp
  qed
qed

lemma gap_down:
  assumes g: "gap lt xs n i" and n: "n \<le> length xs" "i < n"
  shows "snd (pq_down lt xs i n) = i \<and> fst (pq_down lt xs i n) = xs \<and> up_gap lt xs n i
    \<or> i < snd (pq_down lt xs i n) \<and> pq_heap lt (fst (pq_down lt xs i n)) n"
proof (cases "n \<le> 2 * i + 1 \<or> \<not> lt (xs ! pq_child lt xs i n) (xs ! i)")
  case True
  have eq: "pq_down lt xs i n = (xs, i)" using True by (subst pq_down.simps) (auto simp: Let_def)
  have "\<not> lt (xs ! k) (xs ! par k)" if k: "0 < k" "k < n" "k \<noteq> i" for k
  proof (cases "par k = i")
    case True': True
    then have "2 * i + 1 < n" using k par_children [of k i] by auto
    then show ?thesis using child_min [OF _ k(1,2) True'] True True' le_trans [of "xs ! pq_child lt xs i n" "xs ! i" "xs ! k"] by auto
  qed (use g k in \<open>simp add: gap_def\<close>)
  then have "up_gap lt xs n i" using g by (simp add: up_gap_def gap_def)
  then show ?thesis using eq by simp
next
  case False
  let ?j = "pq_child lt xs i n" and ?ys = "pq_swap xs i (pq_child lt xs i n)"
  have eq: "pq_down lt xs i n = pq_down lt ?ys ?j n" using False by (subst pq_down.simps) (simp add: Let_def)
  have j: "i < ?j" "?j < n" "par ?j = i" using False pq_child_par [of i n lt xs] by auto
  have y: "?ys ! k = (if k = ?j then xs ! i else if k = i then xs ! ?j else xs ! k)" for k
    using j n by (intro nth_pq_swap) auto
  have "\<not> lt (?ys ! k) (?ys ! par k)" if k: "0 < k" "k < n" "par k \<noteq> ?j" for k
  proof -
    consider "k = ?j" | "k = i" "k \<noteq> ?j" | "k \<noteq> ?j" "k \<noteq> i" "par k = i" | "k \<noteq> ?j" "k \<noteq> i" "par k \<noteq> i" by blast
    then show ?thesis
    proof cases
      case 1
      then show ?thesis using lt_asym False j by (simp add: y)
    next
      case 2
      have "\<not> lt (xs ! ?j) (xs ! par i)" using g j k 2 by (simp add: gap_def)
      moreover have "par i \<noteq> i" using 2 k by (simp add: par_eq_iff)
      ultimately show ?thesis using 2 j k by (simp add: y)
    next
      case 3
      then show ?thesis using child_min [of i n k xs] False j k by (simp add: y)
    next
      case 4
      then show ?thesis using g k by (simp add: y gap_def)
    qed
  qed
  moreover have "\<not> lt (?ys ! k) (?ys ! par ?j)" if k: "0 < k" "k < n" "par k = ?j" for k
  proof -
    have "?j < k" using par_less [OF k(1)] k(3) by simp
    moreover have "\<not> lt (xs ! k) (xs ! ?j)" using g k j calculation unfolding gap_def by (metis less_trans nat_neq_iff)
    ultimately show ?thesis using j by (simp add: y)
  qed
  ultimately have "down_gap lt ?ys n ?j" by (simp add: down_gap_def)
  then have "pq_heap lt (fst (pq_down lt ?ys ?j n)) n" using n by (intro pq_down_heap) simp_all
  moreover have "?j \<le> snd (pq_down lt ?ys ?j n)" using pq_down_facts [of n ?ys lt ?j] n by simp
  ultimately show ?thesis using eq j(1) by simp
qed

lemma heap_gap: "pq_heap lt xs n \<Longrightarrow> gap lt (xs[i := x]) n i"
proof -
  assume h: "pq_heap lt xs n"
  have up: "up_gap lt xs n i" by (rule heap_up_gap [OF h])
  have "\<not> lt (xs[i := x] ! k) (xs[i := x] ! par i)" if k: "0 < k" "k < n" "par k = i" "0 < i" for k
    using up k par_less [OF k(1)] par_less [OF k(4)] by (simp add: up_gap_def)
  then show ?thesis using h by (simp add: gap_def pq_heap_def)
qed

lemma heap_prefix: "pq_heap lt xs n \<Longrightarrow> m \<le> n \<Longrightarrow> \<forall>k<m. ys ! k = xs ! k \<Longrightarrow> pq_heap lt ys m"
  unfolding pq_heap_def par_def by (metis div_le_dividend diff_le_self le_less_trans less_le_trans order_trans)

lemma heap_take: "pq_heap lt xs n \<Longrightarrow> pq_heap lt (take n xs) n"
  by (rule heap_prefix [where n = n and xs = xs]) simp_all

text \<open>The invariant of a queue, and what each operation does to it and to the multiset of its elements.\<close>

definition heap_inv :: "'a Queue \<Rightarrow> bool" where
  "heap_inv q \<longleftrightarrow> pq_less q = lt \<and> pq_heap lt (pq_items q) (length (pq_items q))"

lemma push_ok:
  assumes "heap_inv q"
  shows "heap_inv (Queue_Push x q) \<and> mset (pq_items (Queue_Push x q)) = add_mset x (mset (pq_items q))"
proof -
  let ?n = "length (pq_items q)" and ?xs = "pq_items q @ [x]"
  have le: "\<not> lt (pq_items q ! k) (pq_items q ! par k)" if "0 < k" "k < ?n" for k
    using assms that by (simp add: heap_inv_def pq_heap_def)
  have "\<not> lt (?xs ! k) (?xs ! par k)" if k: "0 < k" "k < Suc ?n" "k \<noteq> ?n" for k
    using le [of k] k par_less [OF k(1)] by (simp add: nth_append)
  moreover have "\<not> (0 < k \<and> k < Suc ?n \<and> par k = ?n)" for k
    by (metis par_less less_Suc_eq_le not_less)
  ultimately have "up_gap lt ?xs (Suc ?n) ?n" by (auto simp: up_gap_def)
  then have "pq_heap lt (pq_up lt ?xs ?n) (Suc ?n)" by (rule pq_up_heap) simp_all
  then show ?thesis using assms by (simp add: heap_inv_def Queue_Push_def Let_def pq_up_mset)
qed

lemma pop_ok:
  assumes inv: "heap_inv q" and pop: "Queue_Pop q = Some (x, q')"
  shows "heap_inv q' \<and> mset (pq_items q) = add_mset x (mset (pq_items q')) \<and> (\<forall>y\<in>set (pq_items q). \<not> lt y x)"
proof -
  let ?xs = "pq_items q"
  have less: "pq_less q = lt" and h: "pq_heap lt ?xs (length ?xs)" using inv by (simp_all add: heap_inv_def)
  have "?xs \<noteq> []" using pop by (auto simp: Queue_Pop_def Let_def)
  then obtain n where n: "length ?xs = Suc n" by (cases ?xs) auto
  let ?zs = "pq_swap ?xs 0 n" let ?ys = "fst (pq_down lt ?zs 0 n)"
  have x: "x = ?ys ! n" and q': "q' = q\<lparr>pq_items := take n ?ys\<rparr>"
    using pop less n by (auto simp: Queue_Pop_def Let_def)
  have z: "?zs ! k = (if k = n then ?xs ! 0 else if k = 0 then ?xs ! n else ?xs ! k)" for k
    using n by (intro nth_pq_swap) simp_all
  have facts: "length ?ys = Suc n" "mset ?ys = mset ?xs" "?ys ! n = ?xs ! 0"
    using pq_down_facts [of n ?zs lt 0] n z mset_pq_swap [of 0 ?xs n] by simp_all
  have "\<not> lt (?zs ! k) (?zs ! par k)" if k: "0 < k" "k < n" "par k \<noteq> 0" for k
    using h n k par_less [OF k(1)] by (simp add: pq_heap_def z)
  then have "down_gap lt ?zs n 0" by (simp add: down_gap_def)
  then have heap: "pq_heap lt ?ys n" using n by (intro pq_down_heap) simp_all
  have "?ys = take n ?ys @ [x]" using facts(1) x by (metis lessI take_Suc_conv_app_nth take_all le_refl)
  then have "mset ?ys = add_mset x (mset (take n ?ys))" by (metis mset_append mset.simps add_mset_add_single)
  then have ms: "mset ?xs = add_mset x (mset (take n ?ys))" using facts(2) by simp
  have "\<not> lt y x" if "y \<in> set ?xs" for y
    using that heap_le [OF h] facts(3) x by (auto simp: in_set_conv_nth)
  then show ?thesis using heap_take [OF heap] ms q' less facts(1) by (simp add: heap_inv_def)
qed

lemma pop_none: "Queue_Pop q = None \<longleftrightarrow> pq_items q = []"
  by (simp add: Queue_Pop_def Let_def)

lemma update_ok:
  assumes "heap_inv q" "i < length (pq_items q)"
  shows "\<exists>q'. Queue_Update i (q\<lparr>pq_items := (pq_items q)[i := x]\<rparr>) = Some q' \<and> heap_inv q' \<and> mset (pq_items q') = mset ((pq_items q)[i := x])"
proof -
  let ?xs = "(pq_items q)[i := x]" and ?n = "length (pq_items q)"
  have less: "pq_less q = lt" and h: "pq_heap lt (pq_items q) ?n" using assms(1) by (simp_all add: heap_inv_def)
  obtain ys j where d: "pq_down lt ?xs i ?n = (ys, j)" by force
  have f: "length ys = ?n" "mset ys = mset ?xs" using pq_down_facts [of ?n ?xs lt i] d by simp_all
  have g: "j = i \<and> ys = ?xs \<and> up_gap lt ?xs ?n i \<or> i < j \<and> pq_heap lt ys ?n"
    using gap_down [OF heap_gap [OF h, of i x]] d assms(2) by simp
  then have "pq_heap lt (if i < j then ys else pq_up lt ys i) ?n" using pq_up_heap [of ?xs ?n i] assms(2) by auto
  moreover have "mset (if i < j then ys else pq_up lt ys i) = mset ?xs" using f pq_up_mset [of i ys lt] assms(2) by simp
  ultimately show ?thesis using less d f(1) assms(2)
    by (cases "i < j") (simp_all add: Queue_Update_def heap_inv_def)
qed

lemma pushpop_ok:
  assumes inv: "heap_inv q" and pp: "Queue_PushPop x q = (y, q')"
  shows "heap_inv q' \<and> add_mset x (mset (pq_items q)) = add_mset y (mset (pq_items q')) \<and> (\<forall>z\<in>insert x (set (pq_items q)). \<not> lt z y)"
proof (cases "0 < length (pq_items q) \<and> lt (pq_items q ! 0) x")
  case False
  have less: "pq_less q = lt" and h: "pq_heap lt (pq_items q) (length (pq_items q))" using inv by (simp_all add: heap_inv_def)
  have y: "y = x" "q' = q" using pp False less by (auto simp: Queue_PushPop_def)
  have "\<not> lt z x" if "z \<in> set (pq_items q)" for z
    using that False heap_le [OF h] le_trans [of "pq_items q ! 0" x z] by (fastforce simp: in_set_conv_nth)
  then show ?thesis using y inv lt_asym by auto
next
  case True
  let ?xs = "pq_items q" and ?n = "length (pq_items q)"
  have less: "pq_less q = lt" and h: "pq_heap lt ?xs ?n" using inv by (simp_all add: heap_inv_def)
  have y: "y = ?xs ! 0" and q': "q' = q\<lparr>pq_items := fst (pq_down lt (?xs[0 := x]) 0 ?n)\<rparr>"
    using pp True less by (auto simp: Queue_PushPop_def)
  have "down_gap lt (?xs[0 := x]) ?n 0"
    unfolding down_gap_def using h by (auto simp: pq_heap_def par_def nth_list_update)
  then have "pq_heap lt (fst (pq_down lt (?xs[0 := x]) 0 ?n)) ?n" by (intro pq_down_heap) simp_all
  moreover have "length (fst (pq_down lt (?xs[0 := x]) 0 ?n)) = ?n" "mset (fst (pq_down lt (?xs[0 := x]) 0 ?n)) = mset (?xs[0 := x])"
    using pq_down_facts [of ?n "?xs[0 := x]" lt 0] by simp_all
  moreover have "add_mset x (mset ?xs) = add_mset (?xs ! 0) (mset (?xs[0 := x]))" using True by (cases ?xs) auto
  moreover have "\<not> lt z y" if "z \<in> insert x (set ?xs)" for z
    using that True y heap_le [OF h] lt_asym by (auto simp: in_set_conv_nth)
  ultimately show ?thesis using y q' less by (simp add: heap_inv_def)
qed

lemma par_bound: "k < n \<Longrightarrow> par k < n"
  by (auto simp: par_def)

lemma gap_cong: "gap lt xs n i \<Longrightarrow> i < n \<Longrightarrow> \<forall>k<n. ys ! k = xs ! k \<Longrightarrow> gap lt ys n i"
  by (simp add: gap_def par_bound)

lemma pq_up_above: "j < k \<Longrightarrow> j < length xs \<Longrightarrow> pq_up lt xs j ! k = xs ! k"
proof (induction j arbitrary: xs rule: less_induct)
  case (less j)
  show ?case
  proof (cases "j = 0 \<or> \<not> lt (xs ! j) (xs ! par j)")
    case True
    then show ?thesis by (subst pq_up_par) auto
  next
    case False
    then have p: "par j < j" by (intro par_less) simp
    have "pq_up lt xs j ! k = pq_swap xs (par j) j ! k"
      using less.IH [OF p, of "pq_swap xs (par j) j"] less.prems p False by (subst pq_up_par) simp
    then show ?thesis using p less.prems by (simp add: nth_pq_swap)
  qed
qed

lemma swap_last_gap:
  assumes h: "pq_heap lt xs (Suc n)" and n: "length xs = Suc n" "i < n"
  shows "gap lt (pq_swap xs i n) n i"
proof -
  have g: "gap lt (xs[i := xs ! n]) n i" using heap_gap [OF heap_prefix [OF h, of n xs]] by simp
  have "\<forall>k<n. pq_swap xs i n ! k = xs[i := xs ! n] ! k" using n by (simp add: nth_pq_swap nth_list_update)
  then show ?thesis by (rule gap_cong [OF g n(2)])
qed

lemma pq_up_heap_id: "pq_heap lt xs n \<Longrightarrow> i < n \<Longrightarrow> pq_up lt xs i = xs"
  by (subst pq_up_par) (auto simp: pq_heap_def)

lemma remove_ok:
  assumes inv: "heap_inv q" and i: "i < length (pq_items q)" and rm: "Queue_Remove i q = Some (x, q')"
  shows "heap_inv q' \<and> x = pq_items q ! i \<and> mset (pq_items q) = add_mset x (mset (pq_items q'))"
proof -
  let ?xs = "pq_items q"
  have less: "pq_less q = lt" and h: "pq_heap lt ?xs (length ?xs)" using inv by (simp_all add: heap_inv_def)
  obtain n where n: "length ?xs = Suc n" using i by (cases "length ?xs") auto
  let ?zs = "pq_swap ?xs i n" let ?ds = "fst (pq_down lt ?zs i n)"
  define ys where "ys = (if i \<noteq> n then pq_up lt ?ds i else ?xs)"
  have x: "x = ys ! n" and q': "q' = q\<lparr>pq_items := take n ys\<rparr>"
    using rm less n i by (auto simp: Queue_Remove_def Let_def ys_def split: if_splits)
  have "length ys = Suc n \<and> mset ys = mset ?xs \<and> ys ! n = ?xs ! i \<and> pq_heap lt ys n"
  proof (cases "i = n")
    case True
    then show ?thesis using n heap_prefix [OF h, of n ?xs] by (simp add: ys_def)
  next
    case False
    then have lt: "i < n" using i n by simp
    have z: "?zs ! k = (if k = n then ?xs ! i else if k = i then ?xs ! n else ?xs ! k)" for k
      using n i by (intro nth_pq_swap) simp_all
    have f: "length ?ds = Suc n" "mset ?ds = mset ?xs" "?ds ! n = ?xs ! i"
      using pq_down_facts [of n ?zs lt i] n i z by simp_all
    have "gap lt ?zs n i" using h n lt by (intro swap_last_gap) simp_all
    from gap_down [OF this] lt n have "up_gap lt ?ds n i" using heap_up_gap by auto
    then have "pq_heap lt (pq_up lt ?ds i) n" using lt f(1) by (intro pq_up_heap) simp_all
    then show ?thesis using False f lt pq_up_above [of i n ?ds] by (simp add: ys_def pq_up_mset)
  qed
  then have ys: "length ys = Suc n" "mset ys = mset ?xs" "ys ! n = ?xs ! i" "pq_heap lt ys n" by simp_all
  have "ys = take n ys @ [x]" using ys(1) x by (metis lessI take_Suc_conv_app_nth take_all le_refl)
  then have "mset ys = add_mset x (mset (take n ys))" by (metis mset_append mset.simps add_mset_add_single)
  then show ?thesis using heap_take [OF ys(4)] q' x less ys by (simp add: heap_inv_def)
qed

end

lemma heap_order_weak: "weak_order lt \<Longrightarrow> heap_order lt"
  unfolding weak_order_def by (rule heap_order.intro) blast+

interpretation keyed: heap_order "\<lambda>a b. f a < (f b :: int)"
  by (rule heap_order_weak [OF weak_order_key])

section \<open>The contract of a priority queue\<close>

text \<open>What the job queue and the delay queue rely on, for queues ordered by a number.\<close>

locale priority_queue =
  fixes push :: "'a \<Rightarrow> 'q \<Rightarrow> 'q"
    and pop :: "'q \<Rightarrow> ('a \<times> 'q) option"
    and elems :: "'q \<Rightarrow> 'a multiset"
    and key_of :: "'a \<Rightarrow> int"
    and qinv :: "'q \<Rightarrow> bool"
  assumes q_push: "qinv q \<Longrightarrow> qinv (push x q) \<and> elems (push x q) = add_mset x (elems q)"
    and q_pop_none: "qinv q \<Longrightarrow> pop q = None \<longleftrightarrow> elems q = {#}"
    and q_pop: "qinv q \<Longrightarrow> pop q = Some (x, q') \<Longrightarrow>
      qinv q' \<and> elems q = add_mset x (elems q') \<and> (\<forall>y\<in>#elems q. key_of x \<le> key_of y)"
begin

lemma pop_size: "qinv q \<Longrightarrow> pop q = Some (x, q') \<Longrightarrow> size (elems q) = Suc (size (elems q'))"
  using q_pop by fastforce

text \<open>Take out elements while they satisfy \<open>P\<close> or \<open>D\<close>; those with \<open>D\<close> are thrown away.\<close>

primrec drain :: "nat \<Rightarrow> 'q \<Rightarrow> 'a list \<times> 'q" where
  "drain 0 q = ([], q)"
| "drain (Suc n) q =
     (case pop q of None \<Rightarrow> ([], q)
      | Some (x, q') \<Rightarrow> (case drain n q' of (xs, q2) \<Rightarrow> (x # xs, q2)))"

lemma drain_sorted:
  "qinv q \<Longrightarrow> size (elems q) \<le> n \<Longrightarrow> drain n q = (xs, q') \<Longrightarrow>
     mset xs = elems q \<and> sorted (map key_of xs) \<and> elems q' = {#} \<and> qinv q'"
proof (induction n arbitrary: q xs)
  case (Suc n)
  show ?case
  proof (cases "pop q")
    case None
    then show ?thesis using Suc.prems q_pop_none [OF Suc.prems(1)] by simp
  next
    case (Some p)
    obtain x q1 where x: "pop q = Some (x, q1)" using Some by (cases p) auto
    obtain ys where ys: "drain n q1 = (ys, q')" "xs = x # ys" using Suc.prems(3) x by (auto split: prod.splits)
    note pop = q_pop [OF Suc.prems(1) x]
    have IH: "mset ys = elems q1 \<and> sorted (map key_of ys) \<and> elems q' = {#} \<and> qinv q'"
      using Suc.IH [OF _ _ ys(1)] pop Suc.prems(2) by simp
    then have "\<forall>y\<in>set ys. key_of x \<le> key_of y" using pop by (metis set_mset_mset insert_iff set_mset_add_mset_insert)
    then show ?thesis using IH pop ys(2) by simp
  qed
qed simp

end

text \<open>Queues whose \<open>less\<close> compares the number \<open>f\<close>.\<close>

interpretation heapq: priority_queue Queue_Push Queue_Pop "\<lambda>q. mset (pq_items q)" f "keyed.heap_inv f"
proof unfold_locales
  fix x :: 'a and q q' :: "'a Queue"
  assume inv: "keyed.heap_inv f q"
  show "keyed.heap_inv f (Queue_Push x q) \<and> mset (pq_items (Queue_Push x q)) = add_mset x (mset (pq_items q))"
    by (rule keyed.push_ok [OF inv])
  show "(Queue_Pop q = None) = (mset (pq_items q) = {#})" by (simp add: keyed.pop_none)
  assume "Queue_Pop q = Some (x, q')"
  note k = keyed.pop_ok [OF inv this]
  show "keyed.heap_inv f q' \<and> mset (pq_items q) = add_mset x (mset (pq_items q')) \<and> (\<forall>y\<in>#mset (pq_items q). f x \<le> f y)"
    using k unfolding set_mset_mset not_less .
qed

lemma Queue_Pop_length: "Queue_Pop q = Some (x, q') \<Longrightarrow> length (pq_items q) = Suc (length (pq_items q'))"
  using pq_down_facts [of "length (pq_items q) - 1" "pq_swap (pq_items q) 0 (length (pq_items q) - 1)" "pq_less q" 0]
  by (auto simp: Queue_Pop_def Let_def split: if_splits)

text \<open>The heap order only depends on the keys of the elements.\<close>

lemma pq_heap_cong:
  assumes "pq_heap (\<lambda>a b. f a < (f b :: int)) xs (length xs)" and "\<forall>a\<in>set xs. g a = f a"
  shows "pq_heap (\<lambda>a b. g a < g b) xs (length xs)"
  using assms unfolding pq_heap_def by (metis heap_order.par_bound keyed.heap_order_axioms nth_mem)

text \<open>The operations on a heap of distinct elements.\<close>

lemma heap_push_set:
  assumes "keyed.heap_inv f q"
  shows "keyed.heap_inv f (Queue_Push x q)" "set (pq_items (Queue_Push x q)) = insert x (set (pq_items q))"
    "distinct (pq_items (Queue_Push x q)) \<longleftrightarrow> x \<notin> set (pq_items q) \<and> distinct (pq_items q)"
proof -
  note p = keyed.push_ok [OF assms, of x]
  then show "keyed.heap_inv f (Queue_Push x q)" by simp
  have m: "mset (pq_items (Queue_Push x q)) = mset (x # pq_items q)" using p by simp
  show "set (pq_items (Queue_Push x q)) = insert x (set (pq_items q))" using mset_eq_setD [OF m] by simp
  show "distinct (pq_items (Queue_Push x q)) \<longleftrightarrow> x \<notin> set (pq_items q) \<and> distinct (pq_items q)"
    using mset_eq_imp_distinct_iff [OF m] by simp
qed

lemma heap_pop_set:
  assumes "keyed.heap_inv f q" "Queue_Pop q = Some (x, q')"
  shows "keyed.heap_inv f q'" "set (pq_items q) = insert x (set (pq_items q'))"
    "distinct (pq_items q) \<longleftrightarrow> x \<notin> set (pq_items q') \<and> distinct (pq_items q')"
    "\<forall>y\<in>set (pq_items q). f x \<le> f y"
proof -
  note p = keyed.pop_ok [OF assms]
  then show "keyed.heap_inv f q'" by simp
  have m: "mset (pq_items q) = mset (x # pq_items q')" using p by simp
  show "set (pq_items q) = insert x (set (pq_items q'))" using mset_eq_setD [OF m] by simp
  show "distinct (pq_items q) \<longleftrightarrow> x \<notin> set (pq_items q') \<and> distinct (pq_items q')"
    using mset_eq_imp_distinct_iff [OF m] by simp
  show "\<forall>y\<in>set (pq_items q). f x \<le> f y" using p by (simp add: not_less)
qed

section \<open>Properties\<close>

text \<open>Every operation keeps the heap order and does to the multiset of elements what its name says, for every strict
  weak order: \<open>Push\<close> adds its argument, \<open>Pop\<close> fails exactly on the empty queue and otherwise removes an
  element that nothing in the queue precedes, \<open>PushPop\<close> is a \<open>Push\<close> followed by a \<open>Pop\<close>, \<open>Remove\<close> takes out
  the element at its index, and \<open>Update\<close> restores the order after any change of one element.\<close>

theorem Queue_operations:
  assumes "weak_order lt" and "heap_order.heap_inv lt q"
  shows "heap_order.heap_inv lt (Queue_Push x q) \<and> mset (pq_items (Queue_Push x q)) = add_mset x (mset (pq_items q))
    \<and> (case Queue_Pop q of
         None \<Rightarrow> pq_items q = []
       | Some (y, q') \<Rightarrow> heap_order.heap_inv lt q' \<and> mset (pq_items q) = add_mset y (mset (pq_items q'))
           \<and> (\<forall>z\<in>set (pq_items q). \<not> lt z y))
    \<and> (case Queue_PushPop x q of
         (y, q') \<Rightarrow> heap_order.heap_inv lt q' \<and> add_mset x (mset (pq_items q)) = add_mset y (mset (pq_items q'))
           \<and> (\<forall>z\<in>insert x (set (pq_items q)). \<not> lt z y))
    \<and> (case Queue_Remove i q of
         None \<Rightarrow> length (pq_items q) \<le> i
       | Some (y, q') \<Rightarrow> heap_order.heap_inv lt q' \<and> y = pq_items q ! i \<and> mset (pq_items q) = add_mset y (mset (pq_items q')))
    \<and> (i < length (pq_items q) \<longrightarrow> (\<exists>q'. Queue_Update i (q\<lparr>pq_items := (pq_items q)[i := x]\<rparr>) = Some q'
         \<and> heap_order.heap_inv lt q' \<and> mset (pq_items q') = mset ((pq_items q)[i := x])))"
proof -
  have ho: "heap_order lt" by (rule heap_order_weak [OF assms(1)])
  have "case Queue_Pop q of
         None \<Rightarrow> pq_items q = []
       | Some (y, q') \<Rightarrow> heap_order.heap_inv lt q' \<and> mset (pq_items q) = add_mset y (mset (pq_items q'))
           \<and> (\<forall>z\<in>set (pq_items q). \<not> lt z y)"
    using heap_order.pop_ok [OF ho assms(2)] heap_order.pop_none [OF ho, of q] by (simp split: option.split)
  moreover have "case Queue_PushPop x q of
         (y, q') \<Rightarrow> heap_order.heap_inv lt q' \<and> add_mset x (mset (pq_items q)) = add_mset y (mset (pq_items q'))
           \<and> (\<forall>z\<in>insert x (set (pq_items q)). \<not> lt z y)"
    using heap_order.pushpop_ok [OF ho assms(2), of x] by (simp split: prod.split)
  moreover have "case Queue_Remove i q of
         None \<Rightarrow> length (pq_items q) \<le> i
       | Some (y, q') \<Rightarrow> heap_order.heap_inv lt q' \<and> y = pq_items q ! i \<and> mset (pq_items q) = add_mset y (mset (pq_items q'))"
  proof (cases "i < length (pq_items q)")
    case True
    then obtain y q' where rm: "Queue_Remove i q = Some (y, q')" by (simp add: Queue_Remove_def Let_def)
    then show ?thesis using heap_order.remove_ok [OF ho assms(2) True rm] by simp
  qed (simp add: Queue_Remove_def)
  ultimately show ?thesis
    using heap_order.push_ok [OF ho assms(2)] heap_order.update_ok [OF ho assms(2)] by blast
qed

theorem Queue_operations_witness:
  "heap_order.heap_inv (<) (Queue_New (<) :: int Queue)
   \<and> mset (pq_items (Queue_Push 3 (Queue_New (<) :: int Queue))) = {#3#}"
proof -
  have wo: "weak_order ((<) :: int \<Rightarrow> int \<Rightarrow> bool)" by (force simp: weak_order_def)
  have inv: "heap_order.heap_inv (<) (Queue_New (<) :: int Queue)"
    by (simp add: heap_order.heap_inv_def [OF heap_order_weak [OF wo]] Queue_New_def pq_heap_def)
  show ?thesis using inv Queue_operations [OF wo inv, of 3, THEN conjunct2, THEN conjunct1] Queue_operations [OF wo inv, of 3]
    by (simp add: Queue_New_def)
qed

text \<open>Popping everything sorts: from any queue ordered by a number, as many pops as there are elements return all of
  them, each once, in non-decreasing order, and leave the queue empty.\<close>

theorem Queue_pops_sorted:
  assumes "keyed.heap_inv f q" and "heapq.drain (length (pq_items q)) q = (xs, q')"
  shows "mset xs = mset (pq_items q) \<and> sorted (map f xs) \<and> pq_items q' = []"
  using heapq.drain_sorted [OF assms(1) _ assms(2)] by simp

theorem Queue_pops_sorted_witness:
  "fst (heapq.drain 4 (fold Queue_Push [3, 1, 4, 1] (Queue_New (\<lambda>a b. a < (b :: int))))) = [1, 1, 3, 4]"
proof -
  let ?q = "fold Queue_Push [3, 1, 4, 1] (Queue_New (\<lambda>a b. a < (b :: int)))"
  have "keyed.heap_inv (\<lambda>x. x) (Queue_New (\<lambda>a b. a < (b :: int)))"
    by (simp add: keyed.heap_inv_def Queue_New_def pq_heap_def)
  then have inv: "keyed.heap_inv (\<lambda>x. x) ?q" and ms: "mset (pq_items ?q) = {#3, 1, 4, 1#}"
    using keyed.push_ok [of "\<lambda>x. x :: int"] by (simp_all add: Queue_New_def)
  have "size (mset (pq_items ?q)) = 4" unfolding ms by simp
  then have len: "length (pq_items ?q) = 4" by simp
  obtain xs q' where d: "heapq.drain 4 ?q = (xs, q')" by force
  have xs: "mset xs = {#3, 1, 4, 1#}" "sorted xs"
    using Queue_pops_sorted [OF inv, of xs q'] d len ms by simp_all
  have "xs = sort [3, 1, 4, 1]" using xs by (intro sym [OF properties_for_sort]) simp_all
  then show ?thesis using d by simp
qed

end
