(* ===== verification/DelayQueue.thy ===== *)
theory DelayQueue
  imports Priority
begin

text \<open>
  \<open>pkg/orchestration/delayqueue\<close>: callbacks that fire once at an instant, ordered by a binary heap
  (\<open>container/heap\<close>) and found by key for cancelling and rescheduling. Tasks are shared by pointer between
  the heap and the key map and are deleted lazily, so the model keeps a store of tasks and both structures
  hold addresses. The field \<open>index\<close>, which only the heap interface writes, is left out. A callback is named
  by a number.
\<close>

section \<open>The queue\<close>

record task =
  tk_key :: key
  tk_fireAt :: time
  tk_fn :: nat
  tk_dead :: bool

record DelayQueue =
  dq_tasks :: "task list"
  dq_h :: "nat list"
  dq_byKey :: "key \<rightharpoonup> nat"
  dq_wake :: bool
  dq_stopped :: bool
  dq_onPanic :: bool

definition dq_fireAt :: "DelayQueue \<Rightarrow> nat \<Rightarrow> time" where
  "dq_fireAt q a = tk_fireAt (dq_tasks q ! a)"

definition dq_heap :: "DelayQueue \<Rightarrow> nat Queue" where
  "dq_heap q = \<lparr>pq_items = dq_h q, pq_less = (\<lambda>a b. dq_fireAt q a < dq_fireAt q b)\<rparr>"

definition DelayQueue_New :: "bool \<Rightarrow> DelayQueue" where
  "DelayQueue_New onPanic = \<lparr>dq_tasks = [], dq_h = [], dq_byKey = Map.empty, dq_wake = False, dq_stopped = False, dq_onPanic = onPanic\<rparr>"

definition DelayQueue_wake :: "DelayQueue \<Rightarrow> DelayQueue" where
  "DelayQueue_wake q = q\<lparr>dq_wake := True\<rparr>"

definition dq_kill :: "nat \<Rightarrow> DelayQueue \<Rightarrow> DelayQueue" where
  "dq_kill a q = q\<lparr>dq_tasks := (dq_tasks q)[a := (dq_tasks q ! a)\<lparr>tk_dead := True\<rparr>]\<rparr>"

text \<open>A nil callback is \<open>None\<close>.\<close>

definition DelayQueue_Schedule :: "time \<Rightarrow> key \<Rightarrow> duration \<Rightarrow> nat option \<Rightarrow> DelayQueue \<Rightarrow> bool \<times> DelayQueue" where
  "DelayQueue_Schedule now k delay fn q =
     (case fn of
        None \<Rightarrow> (False, q)
      | Some f \<Rightarrow>
          if dq_stopped q then (False, q)
          else let q1 = (case dq_byKey q k of None \<Rightarrow> q | Some old \<Rightarrow> dq_kill old q);
                   a = length (dq_tasks q1);
                   q2 = q1\<lparr>dq_tasks := dq_tasks q1 @ [\<lparr>tk_key = k, tk_fireAt = wrap64 (now + delay), tk_fn = f, tk_dead = False\<rparr>],
                           dq_byKey := (dq_byKey q1)(k \<mapsto> a)\<rparr>;
                   q3 = q2\<lparr>dq_h := pq_items (Queue_Push a (dq_heap q2))\<rparr>
               in (dq_byKey q k \<noteq> None, DelayQueue_wake q3))"

definition DelayQueue_Cancel :: "key \<Rightarrow> DelayQueue \<Rightarrow> bool \<times> DelayQueue" where
  "DelayQueue_Cancel k q =
     (case dq_byKey q k of
        None \<Rightarrow> (False, q)
      | Some a \<Rightarrow> (True, DelayQueue_wake (dq_kill a (q\<lparr>dq_byKey := (dq_byKey q)(k := None)\<rparr>))))"

definition DelayQueue_Len :: "DelayQueue \<Rightarrow> nat" where
  "DelayQueue_Len q = card (dom (dq_byKey q))"

definition DelayQueue_Stop :: "DelayQueue \<Rightarrow> DelayQueue" where
  "DelayQueue_Stop q = q\<lparr>dq_stopped := True\<rparr>"

text \<open>\<open>heap.Pop\<close> when the heap is not empty.\<close>

definition dq_pop :: "DelayQueue \<Rightarrow> DelayQueue" where
  "dq_pop q = (case Queue_Pop (dq_heap q) of None \<Rightarrow> q | Some (x, h) \<Rightarrow> q\<lparr>dq_h := pq_items h\<rparr>)"

lemma dq_pop_length: "dq_h q \<noteq> [] \<Longrightarrow> length (dq_h (dq_pop q)) < length (dq_h q)"
proof -
  assume "dq_h q \<noteq> []"
  then obtain x h where "Queue_Pop (dq_heap q) = Some (x, h)" by (simp add: Queue_Pop_def dq_heap_def Let_def)
  then show ?thesis using Queue_Pop_length [of "dq_heap q" x h] by (simp add: dq_pop_def) (simp add: dq_heap_def)
qed

text \<open>
  The critical section of one round of the driver: pop what is dead or due. The result is the due tasks in
  the order of the pops and the time to wait, -1 when no task is left.
\<close>

function dq_expire :: "time \<Rightarrow> DelayQueue \<Rightarrow> nat list \<times> duration \<times> DelayQueue" where
  "dq_expire now q =
     (case dq_h q of
        [] \<Rightarrow> ([], -1, q)
      | t # _ \<Rightarrow>
          if tk_dead (dq_tasks q ! t) then dq_expire now (dq_pop q)
          else if tk_fireAt (dq_tasks q ! t) \<le> now
          then (case dq_expire now ((dq_kill t (dq_pop q))\<lparr>dq_byKey := (dq_byKey q)(tk_key (dq_tasks q ! t) := None)\<rparr>) of
                  (ready, wait, q') \<Rightarrow> (t # ready, wait, q'))
          else ([], wrap64 (tk_fireAt (dq_tasks q ! t) - now), q))"
  by pat_completeness auto
termination
proof (relation "measure (\<lambda>(now, q). length (dq_h q))")
  fix now and q :: DelayQueue and t ts
  assume q: "dq_h q = t # ts"
  have lt: "length (dq_h (dq_pop q)) < length (dq_h q)" by (rule dq_pop_length) (simp add: q)
  then show "((now, dq_pop q), now, q) \<in> measure (\<lambda>(now, q). length (dq_h q))" by simp
  from lt show "((now, (dq_kill t (dq_pop q))\<lparr>dq_byKey := (dq_byKey q)(tk_key (dq_tasks q ! t) := None)\<rparr>), now, q)
      \<in> measure (\<lambda>(now, q). length (dq_h q))" by (simp add: dq_kill_def)
qed simp

declare dq_expire.simps [simp del]

text \<open>One round of the driver: the callbacks it starts, with their keys, and how long it then sleeps.\<close>

definition DelayQueue_round :: "time \<Rightarrow> DelayQueue \<Rightarrow> (key \<times> nat) list \<times> duration \<times> DelayQueue" where
  "DelayQueue_round now q =
     (case dq_expire now q of
        (ready, wait, q') \<Rightarrow>
          (map (\<lambda>a. (tk_key (dq_tasks q ! a), tk_fn (dq_tasks q ! a))) ready,
           if wait < 0 then 3600 * second else wait, q'))"

section \<open>The pending tasks as a map\<close>

text \<open>What a client sees: for every key the instant and the callback that are pending.\<close>

definition dq_pending :: "DelayQueue \<Rightarrow> key \<Rightarrow> (time \<times> nat) option" where
  "dq_pending q k = map_option (\<lambda>a. (tk_fireAt (dq_tasks q ! a), tk_fn (dq_tasks q ! a))) (dq_byKey q k)"

definition dq_inv :: "DelayQueue \<Rightarrow> bool" where
  "dq_inv q \<longleftrightarrow>
     pq_heap (\<lambda>a b. dq_fireAt q a < dq_fireAt q b) (dq_h q) (length (dq_h q))
     \<and> distinct (dq_h q) \<and> (\<forall>a\<in>set (dq_h q). a < length (dq_tasks q))
     \<and> (\<forall>k a. dq_byKey q k = Some a \<longleftrightarrow> a \<in> set (dq_h q) \<and> \<not> tk_dead (dq_tasks q ! a) \<and> tk_key (dq_tasks q ! a) = k)"

lemma dq_invD:
  assumes "dq_inv q"
  shows "keyed.heap_inv (dq_fireAt q) (dq_heap q)" and "distinct (dq_h q)" and "a \<in> set (dq_h q) \<Longrightarrow> a < length (dq_tasks q)"
    and "dq_byKey q k = Some a \<longleftrightarrow> a \<in> set (dq_h q) \<and> \<not> tk_dead (dq_tasks q ! a) \<and> tk_key (dq_tasks q ! a) = k"
  using assms by (simp_all add: dq_inv_def keyed.heap_inv_def dq_heap_def)

lemma dq_inv_new: "dq_inv (DelayQueue_New b)"
  by (simp add: dq_inv_def DelayQueue_New_def pq_heap_def)

lemma dq_pop_facts:
  assumes "dq_inv q" "dq_h q = t # ts"
  shows "distinct (dq_h (dq_pop q)) \<and> set (dq_h (dq_pop q)) = set ts \<and> dq_tasks (dq_pop q) = dq_tasks q \<and> dq_byKey (dq_pop q) = dq_byKey q
    \<and> pq_heap (\<lambda>a b. dq_fireAt q a < dq_fireAt q b) (dq_h (dq_pop q)) (length (dq_h (dq_pop q)))
    \<and> (\<forall>a\<in>set (dq_h q). dq_fireAt q t \<le> dq_fireAt q a)"
proof -
  obtain x h where pop: "Queue_Pop (dq_heap q) = Some (x, h)" using assms(2) by (simp add: Queue_Pop_def dq_heap_def Let_def)
  note ok = keyed.pop_ok [OF dq_invD(1) [OF assms(1)] pop]
  have x: "x = t"
  proof -
    have "length (dq_h q) - 1 < length (dq_h q)" using assms(2) by simp
    then show ?thesis
      using pop assms(2) pq_down_facts [of "length (dq_h q) - 1" "pq_swap (dq_h q) 0 (length (dq_h q) - 1)" "\<lambda>a b. dq_fireAt q a < dq_fireAt q b" 0]
      by (auto simp: Queue_Pop_def dq_heap_def Let_def nth_pq_swap)
  qed
  have ms: "mset (dq_h q) = add_mset t (mset (pq_items h))" using ok x by (simp add: dq_heap_def)
  then have "mset ts = mset (pq_items h)" using assms(2) by simp
  then have "set (pq_items h) = set ts" "distinct (pq_items h)"
    using dq_invD(2) [OF assms(1)] assms(2) mset_eq_setD mset_eq_imp_distinct_iff by (metis, metis distinct.simps(2))
  moreover have "pq_heap (\<lambda>a b. dq_fireAt q a < dq_fireAt q b) (pq_items h) (length (pq_items h))"
    using ok by (simp add: keyed.heap_inv_def)
  moreover have "\<forall>a\<in>set (dq_h q). dq_fireAt q t \<le> dq_fireAt q a" using ok x by (auto simp: dq_heap_def not_less)
  moreover have "dq_pop q = q\<lparr>dq_h := pq_items h\<rparr>" using pop by (simp add: dq_pop_def)
  ultimately show ?thesis by simp
qed

lemma dq_kill_sel [simp]:
  "dq_h (dq_kill a q) = dq_h q" "dq_byKey (dq_kill a q) = dq_byKey q" "length (dq_tasks (dq_kill a q)) = length (dq_tasks q)"
  by (simp_all add: dq_kill_def)

lemma dq_kill_task: "a < length (dq_tasks q) \<Longrightarrow>
    dq_tasks (dq_kill a q) ! b = (if b = a then (dq_tasks q ! a)\<lparr>tk_dead := True\<rparr> else dq_tasks q ! b)"
  by (simp add: dq_kill_def nth_list_update)

text \<open>Popping a dead task, and popping a live one that fires, keep the invariant.\<close>

lemma dq_inv_pop_dead:
  assumes inv: "dq_inv q" and h: "dq_h q = t # ts" and dead: "tk_dead (dq_tasks q ! t)"
  shows "dq_inv (dq_pop q) \<and> dq_pending (dq_pop q) = dq_pending q"
proof -
  note f = dq_pop_facts [OF inv h]
  have "dq_byKey (dq_pop q) k = Some a \<longleftrightarrow> a \<in> set (dq_h (dq_pop q)) \<and> \<not> tk_dead (dq_tasks (dq_pop q) ! a) \<and> tk_key (dq_tasks (dq_pop q) ! a) = k" for k a
    using f dq_invD(4) [OF inv, of k a] h dead by auto
  moreover have "\<forall>a\<in>set (dq_h (dq_pop q)). a < length (dq_tasks (dq_pop q))" using f dq_invD(3) [OF inv] h by simp
  moreover have "pq_heap (\<lambda>a b. dq_fireAt (dq_pop q) a < dq_fireAt (dq_pop q) b) (dq_h (dq_pop q)) (length (dq_h (dq_pop q)))"
    using f by (simp add: dq_fireAt_def)
  ultimately show ?thesis using f by (simp add: dq_inv_def dq_pending_def fun_eq_iff)
qed

definition dq_fire :: "nat \<Rightarrow> DelayQueue \<Rightarrow> DelayQueue" where
  "dq_fire t q = (dq_kill t (dq_pop q))\<lparr>dq_byKey := (dq_byKey q)(tk_key (dq_tasks q ! t) := None)\<rparr>"

lemma dq_inv_fire:
  assumes inv: "dq_inv q" and h: "dq_h q = t # ts" and live: "\<not> tk_dead (dq_tasks q ! t)"
  shows "dq_inv (dq_fire t q) \<and> dq_pending (dq_fire t q) = (dq_pending q)(tk_key (dq_tasks q ! t) := None)
    \<and> (\<forall>a. a \<noteq> t \<longrightarrow> dq_tasks (dq_fire t q) ! a = dq_tasks q ! a) \<and> set (dq_h (dq_fire t q)) = set ts"
proof -
  note f = dq_pop_facts [OF inv h]
  have t: "t < length (dq_tasks q)" "t \<notin> set ts" using dq_invD(2,3) [OF inv] h by auto
  have kt: "dq_byKey q (tk_key (dq_tasks q ! t)) = Some t" using dq_invD(4) [OF inv] h live by simp
  have tasks: "dq_tasks (dq_fire t q) ! a = (if a = t then (dq_tasks q ! t)\<lparr>tk_dead := True\<rparr> else dq_tasks q ! a)" for a
    using dq_kill_task [of t "dq_pop q" a] f t by (simp add: dq_fire_def)
  have hs: "set (dq_h (dq_fire t q)) = set ts" "dq_h (dq_fire t q) = dq_h (dq_pop q)"
    "dq_byKey (dq_fire t q) = (dq_byKey q)(tk_key (dq_tasks q ! t) := None)" "length (dq_tasks (dq_fire t q)) = length (dq_tasks q)"
    using f by (simp_all add: dq_fire_def)
  have "dq_byKey (dq_fire t q) k = Some a \<longleftrightarrow> a \<in> set (dq_h (dq_fire t q)) \<and> \<not> tk_dead (dq_tasks (dq_fire t q) ! a) \<and> tk_key (dq_tasks (dq_fire t q) ! a) = k" for k a
  proof (cases "a = t \<or> k = tk_key (dq_tasks q ! t)")
    case True
    have "a \<in> set ts \<Longrightarrow> \<not> tk_dead (dq_tasks q ! a) \<Longrightarrow> tk_key (dq_tasks q ! a) \<noteq> tk_key (dq_tasks q ! t)"
      using dq_invD(4) [OF inv, of "tk_key (dq_tasks q ! t)" a] kt h t(2) by auto
    moreover have "dq_byKey q k = Some t \<Longrightarrow> k = tk_key (dq_tasks q ! t)" using dq_invD(4) [OF inv, of k t] by simp
    ultimately show ?thesis using True t(2) unfolding hs(1,3) tasks by (cases "a = t") (auto simp: fun_upd_def)
  next
    case False
    then show ?thesis using dq_invD(4) [OF inv, of k a] h unfolding hs(1,3) tasks by (simp add: fun_upd_def)
  qed
  moreover have "pq_heap (\<lambda>a b. dq_fireAt (dq_fire t q) a < dq_fireAt (dq_fire t q) b) (dq_h (dq_fire t q)) (length (dq_h (dq_fire t q)))"
  proof -
    have "dq_fireAt (dq_fire t q) = dq_fireAt q" by (rule ext) (simp add: dq_fireAt_def tasks)
    then show ?thesis unfolding hs(2) using f by simp
  qed
  ultimately have "dq_inv (dq_fire t q)" using f dq_invD(3) [OF inv] h by (simp add: dq_inv_def hs)
  moreover have "dq_pending (dq_fire t q) k = ((dq_pending q)(tk_key (dq_tasks q ! t) := None)) k" for k
    using kt dq_invD(4) [OF inv, of k t] by (cases "dq_byKey q k") (auto simp: dq_pending_def hs tasks)
  ultimately show ?thesis using hs tasks by (auto simp: fun_eq_iff)
qed

text \<open>
  One round: the due tasks fire, in the order of their instants; the rest is untouched; and the wait is the
  distance to the first task that is left.
\<close>

lemma dq_expire_ok:
  assumes "dq_inv q" "dq_expire now q = (ready, wait, q')" "\<forall>a\<in>set (dq_h q). in_i64 (dq_fireAt q a - now)"
  shows "dq_inv q' \<and> sorted (map (dq_fireAt q) ready) \<and> distinct ready
    \<and> (\<forall>a. a \<in> set ready \<longleftrightarrow> a \<in> set (dq_h q) \<and> \<not> tk_dead (dq_tasks q ! a) \<and> dq_fireAt q a \<le> now)
    \<and> dq_pending q' = (\<lambda>k. case dq_pending q k of None \<Rightarrow> None | Some p \<Rightarrow> if fst p \<le> now then None else Some p)
    \<and> (case wait < 0 of True \<Rightarrow> dq_pending q' = Map.empty
       | False \<Rightarrow> 0 < wait \<and> (\<exists>k f. dq_pending q' k = Some (now + wait, f)) \<and> (\<forall>k p. dq_pending q' k = Some p \<longrightarrow> now + wait \<le> fst p))"
  using assms
proof (induction "length (dq_h q)" arbitrary: q ready rule: less_induct)
  case less
  show ?case
  proof (cases "dq_h q")
    case Nil
    then have "dq_byKey q k = None" for k using dq_invD(4) [OF less.prems(1), of k] by (cases "dq_byKey q k") auto
    then have pend: "dq_pending q = Map.empty" by (auto simp: dq_pending_def)
    have "ready = []" "wait = -1" "q' = q" using less.prems(2) Nil by (auto simp: dq_expire.simps [of now q])
    then show ?thesis using less.prems(1) Nil pend by (auto simp: fun_eq_iff)
  next
    case (Cons t ts)
    note f = dq_pop_facts [OF less.prems(1) Cons]
    have lt: "length (dq_h (dq_pop q)) < length (dq_h q)" by (rule dq_pop_length) (simp add: Cons)
    consider (dead) "tk_dead (dq_tasks q ! t)" | (due) "\<not> tk_dead (dq_tasks q ! t)" "dq_fireAt q t \<le> now"
      | (later) "\<not> tk_dead (dq_tasks q ! t)" "now < dq_fireAt q t" by linarith
    then show ?thesis
    proof cases
      case dead
      have ex: "dq_expire now (dq_pop q) = (ready, wait, q')"
        using less.prems(2) Cons dead by (simp add: dq_expire.simps [of now q])
      have inv: "dq_inv (dq_pop q)" "dq_pending (dq_pop q) = dq_pending q" using dq_inv_pop_dead [OF less.prems(1) Cons dead] by simp_all
      have at: "dq_fireAt (dq_pop q) = dq_fireAt q" using f by (simp add: dq_fireAt_def fun_eq_iff)
      have "\<forall>a\<in>set (dq_h (dq_pop q)). in_i64 (dq_fireAt (dq_pop q) a - now)" using less.prems(3) f Cons at by simp
      note IH = less.hyps [OF lt inv(1) ex this]
      show ?thesis using IH f Cons dead at inv(2) by auto
    next
      case due
      obtain ready' where ex: "dq_expire now (dq_fire t q) = (ready', wait, q')" and r: "ready = t # ready'"
        using less.prems(2) Cons due by (auto simp: dq_expire.simps [of now q] dq_fire_def dq_fireAt_def split: prod.splits)
      note fire = dq_inv_fire [OF less.prems(1) Cons due(1)]
      have lt': "length (dq_h (dq_fire t q)) < length (dq_h q)" using lt by (simp add: dq_fire_def)
      have tn: "t \<notin> set ts" using dq_invD(2) [OF less.prems(1)] Cons by simp
      have at: "dq_fireAt (dq_fire t q) a = dq_fireAt q a" if "a \<noteq> t" for a using fire that by (simp add: dq_fireAt_def)
      have "\<forall>a\<in>set (dq_h (dq_fire t q)). in_i64 (dq_fireAt (dq_fire t q) a - now)"
      proof
        fix a assume "a \<in> set (dq_h (dq_fire t q))"
        then have "a \<in> set ts" using fire by blast
        then have "a \<noteq> t" "a \<in> set (dq_h q)" using tn Cons by auto
        then show "in_i64 (dq_fireAt (dq_fire t q) a - now)" using at less.prems(3) by simp
      qed
      note IH = less.hyps [OF lt' fire [THEN conjunct1] ex this]
      have rset: "a \<in> set ready' \<longleftrightarrow> a \<in> set ts \<and> \<not> tk_dead (dq_tasks q ! a) \<and> dq_fireAt q a \<le> now" for a
        using IH fire at tn by (cases "a = t") auto
      have "map (dq_fireAt (dq_fire t q)) ready' = map (dq_fireAt q) ready'" using at rset tn by (intro map_cong refl) metis
      then have "sorted (map (dq_fireAt q) ready')" using IH by argo
      moreover have "\<forall>a\<in>set ready'. dq_fireAt q t \<le> dq_fireAt q a" using rset f Cons by simp
      ultimately have "sorted (map (dq_fireAt q) ready)" using r by simp
      moreover have "dq_pending q' = (\<lambda>k. case dq_pending q k of None \<Rightarrow> None | Some p \<Rightarrow> if fst p \<le> now then None else Some p)"
      proof (rule ext)
        fix k
        have "dq_byKey q (tk_key (dq_tasks q ! t)) = Some t" using dq_invD(4) [OF less.prems(1)] Cons due by simp
        then show "dq_pending q' k = (case dq_pending q k of None \<Rightarrow> None | Some p \<Rightarrow> if fst p \<le> now then None else Some p)"
          using IH fire due by (cases "k = tk_key (dq_tasks q ! t)") (auto simp: dq_pending_def dq_fireAt_def)
      qed
      ultimately show ?thesis using IH r rset tn Cons due by auto
    next
      case later
      have res: "ready = []" "wait = dq_fireAt q t - now" "q' = q"
        using less.prems(2,3) Cons later by (auto simp: dq_expire.simps [of now q] dq_fireAt_def)
      have k: "dq_byKey q (tk_key (dq_tasks q ! t)) = Some t" using dq_invD(4) [OF less.prems(1)] Cons later by simp
      have min: "dq_fireAt q t \<le> fst p" if "dq_pending q k = Some p" for k p
        using that dq_invD(4) [OF less.prems(1), of k] f by (auto simp: dq_pending_def dq_fireAt_def)
      then have "dq_pending q = (\<lambda>k. case dq_pending q k of None \<Rightarrow> None | Some p \<Rightarrow> if fst p \<le> now then None else Some p)"
        using later by (fastforce simp: fun_eq_iff split: option.splits)
      moreover have "\<exists>k f. dq_pending q k = Some (now + wait, f)" using k res by (auto simp: dq_pending_def dq_fireAt_def)
      moreover have "\<forall>a\<in>set (dq_h q). \<not> dq_fireAt q a \<le> now" using f later by force
      ultimately show ?thesis using res less.prems(1) later min by auto
    qed
  qed
qed

section \<open>Scheduling and cancelling\<close>

definition dq_forget :: "key \<Rightarrow> nat \<Rightarrow> DelayQueue \<Rightarrow> DelayQueue" where
  "dq_forget k a q = (dq_kill a q)\<lparr>dq_byKey := (dq_byKey q)(k := None)\<rparr>"

lemma dq_forget_ok:
  assumes inv: "dq_inv q" and k: "dq_byKey q k = Some a"
  shows "dq_inv (dq_forget k a q) \<and> dq_pending (dq_forget k a q) = (dq_pending q)(k := None)"
proof -
  have a: "a \<in> set (dq_h q)" "a < length (dq_tasks q)" "tk_key (dq_tasks q ! a) = k"
    using dq_invD(4) [OF inv, of k a] dq_invD(3) [OF inv] k by auto
  have tasks: "dq_tasks (dq_forget k a q) ! b = (if b = a then (dq_tasks q ! a)\<lparr>tk_dead := True\<rparr> else dq_tasks q ! b)" for b
    using dq_kill_task [OF a(2)] by (simp add: dq_forget_def)
  have sel: "dq_h (dq_forget k a q) = dq_h q" "dq_byKey (dq_forget k a q) = (dq_byKey q)(k := None)"
    "length (dq_tasks (dq_forget k a q)) = length (dq_tasks q)" by (simp_all add: dq_forget_def)
  have "dq_fireAt (dq_forget k a q) = dq_fireAt q" by (rule ext) (simp add: dq_fireAt_def tasks)
  moreover have "dq_byKey (dq_forget k a q) k' = Some b \<longleftrightarrow>
      b \<in> set (dq_h q) \<and> \<not> tk_dead (dq_tasks (dq_forget k a q) ! b) \<and> tk_key (dq_tasks (dq_forget k a q) ! b) = k'" for k' b
    using dq_invD(4) [OF inv, of k' b] dq_invD(4) [OF inv, of k b] a k by (cases "b = a"; cases "k' = k") (simp_all add: sel tasks)
  ultimately have "dq_inv (dq_forget k a q)" using inv by (simp add: dq_inv_def sel)
  moreover have "dq_pending (dq_forget k a q) k' = ((dq_pending q)(k := None)) k'" for k'
    using a dq_invD(4) [OF inv, of k' a] by (cases "dq_byKey q k'") (auto simp: dq_pending_def sel tasks)
  ultimately show ?thesis by (simp add: fun_eq_iff)
qed

definition dq_add :: "task \<Rightarrow> DelayQueue \<Rightarrow> DelayQueue" where
  "dq_add t q =
     (let q2 = q\<lparr>dq_tasks := dq_tasks q @ [t], dq_byKey := (dq_byKey q)(tk_key t \<mapsto> length (dq_tasks q))\<rparr>
      in q2\<lparr>dq_h := pq_items (Queue_Push (length (dq_tasks q)) (dq_heap q2))\<rparr>)"

lemma dq_add_ok:
  assumes inv: "dq_inv q" and k: "dq_byKey q (tk_key t) = None" and live: "\<not> tk_dead t"
  shows "dq_inv (dq_add t q) \<and> dq_pending (dq_add t q) = (dq_pending q)(tk_key t \<mapsto> (tk_fireAt t, tk_fn t))"
proof -
  let ?n = "length (dq_tasks q)"
  define q2 where "q2 = q\<lparr>dq_tasks := dq_tasks q @ [t], dq_byKey := (dq_byKey q)(tk_key t \<mapsto> ?n)\<rparr>"
  have q2: "dq_h q2 = dq_h q" "dq_tasks q2 = dq_tasks q @ [t]" by (simp_all add: q2_def)
  have lt: "\<forall>a\<in>set (dq_h q). a < ?n" using dq_invD(3) [OF inv] by simp
  have "\<forall>a\<in>set (dq_h q). dq_fireAt q2 a = dq_fireAt q a" using lt by (simp add: dq_fireAt_def q2 nth_append)
  moreover have "pq_heap (\<lambda>a b. dq_fireAt q a < dq_fireAt q b) (dq_h q) (length (dq_h q))" using inv by (simp add: dq_inv_def)
  ultimately have "keyed.heap_inv (dq_fireAt q2) (dq_heap q2)"
    using pq_heap_cong by (simp add: keyed.heap_inv_def dq_heap_def q2)
  from keyed.push_ok [OF this, of ?n]
  have push: "keyed.heap_inv (dq_fireAt q2) (Queue_Push ?n (dq_heap q2))" "mset (pq_items (Queue_Push ?n (dq_heap q2))) = add_mset ?n (mset (dq_h q))"
    by (simp_all add: dq_heap_def q2)
  have add: "dq_add t q = q2\<lparr>dq_h := pq_items (Queue_Push ?n (dq_heap q2))\<rparr>" by (simp add: dq_add_def q2_def Let_def)
  have sel: "dq_tasks (dq_add t q) = dq_tasks q @ [t]" "dq_byKey (dq_add t q) = (dq_byKey q)(tk_key t \<mapsto> ?n)"
    "dq_h (dq_add t q) = pq_items (Queue_Push ?n (dq_heap q2))" by (simp_all add: add) (simp_all add: q2_def)
  have hs: "set (dq_h (dq_add t q)) = insert ?n (set (dq_h q))" using push(2) by (metis sel(3) set_mset_add_mset_insert set_mset_mset)
  have "distinct (dq_h (dq_add t q))"
    using push(2) dq_invD(2) [OF inv] lt by (metis distinct.simps(2) less_irrefl mset.simps(2) mset_eq_imp_distinct_iff sel(3))
  moreover have "pq_heap (\<lambda>a b. dq_fireAt (dq_add t q) a < dq_fireAt (dq_add t q) b) (dq_h (dq_add t q)) (length (dq_h (dq_add t q)))"
    using push(1) sel by (simp add: keyed.heap_inv_def dq_fireAt_def q2)
  moreover have "dq_byKey (dq_add t q) k' = Some a \<longleftrightarrow>
      a \<in> set (dq_h (dq_add t q)) \<and> \<not> tk_dead (dq_tasks (dq_add t q) ! a) \<and> tk_key (dq_tasks (dq_add t q) ! a) = k'" for k' a
    using dq_invD(4) [OF inv, of k' a] dq_invD(4) [OF inv, of "tk_key t" a] k live lt unfolding hs sel(1,2)
    by (cases "a = ?n"; cases "k' = tk_key t") (auto simp: nth_append)
  ultimately have "dq_inv (dq_add t q)" using lt by (simp add: dq_inv_def hs sel(1) less_SucI)
  moreover have "dq_pending (dq_add t q) k' = ((dq_pending q)(tk_key t \<mapsto> (tk_fireAt t, tk_fn t))) k'" for k'
    using dq_invD(4) [OF inv, of k'] lt by (cases "dq_byKey q k'") (auto simp: dq_pending_def sel(1,2) nth_append)
  ultimately show ?thesis by (simp add: fun_eq_iff)
qed

lemma dq_inv_wake [simp]: "dq_inv (DelayQueue_wake q) = dq_inv q" "dq_pending (DelayQueue_wake q) = dq_pending q"
  by (simp_all add: dq_inv_def dq_pending_def DelayQueue_wake_def dq_fireAt_def fun_eq_iff)

lemma dq_add_forget: "dq_add t (dq_forget (tk_key t) a q) = dq_add t (dq_kill a q)"
  by (cases q) (simp add: dq_add_def dq_forget_def dq_kill_def Let_def)

lemma DelayQueue_Schedule_ok:
  assumes inv: "dq_inv q" and "\<not> dq_stopped q"
  shows "case DelayQueue_Schedule now k d (Some f) q of
     (r, q') \<Rightarrow> dq_inv q' \<and> r = (dq_pending q k \<noteq> None) \<and> dq_pending q' = (dq_pending q)(k \<mapsto> (wrap64 (now + d), f)) \<and> dq_wake q'"
proof -
  let ?t = "\<lparr>tk_key = k, tk_fireAt = wrap64 (now + d), tk_fn = f, tk_dead = False\<rparr>"
  define q1 where "q1 = (case dq_byKey q k of None \<Rightarrow> q | Some a \<Rightarrow> dq_forget k a q)"
  have "DelayQueue_Schedule now k d (Some f) q = (dq_byKey q k \<noteq> None, DelayQueue_wake (dq_add ?t q1))"
  proof (cases "dq_byKey q k")
    case None
    then show ?thesis using assms(2) by (simp add: DelayQueue_Schedule_def q1_def dq_add_def Let_def)
  next
    case (Some a)
    then have "DelayQueue_Schedule now k d (Some f) q = (True, DelayQueue_wake (dq_add ?t (dq_kill a q)))"
      using assms(2) by (simp add: DelayQueue_Schedule_def dq_add_def Let_def)
    then show ?thesis using Some dq_add_forget [of ?t a q] by (simp add: q1_def)
  qed
  moreover have "dq_inv q1" "dq_byKey q1 k = None" "(dq_pending q1)(k \<mapsto> p) = (dq_pending q)(k \<mapsto> p)" for p
    using inv dq_forget_ok [OF inv, of k] by (auto simp: q1_def dq_forget_def split: option.splits)
  ultimately show ?thesis using dq_add_ok [of q1 ?t] by (simp add: dq_pending_def) (simp add: DelayQueue_wake_def)
qed

lemma DelayQueue_Cancel_ok:
  assumes inv: "dq_inv q"
  shows "case DelayQueue_Cancel k q of
     (r, q') \<Rightarrow> dq_inv q' \<and> r = (dq_pending q k \<noteq> None) \<and> dq_pending q' = (dq_pending q)(k := None)"
proof (cases "dq_byKey q k")
  case None
  then show ?thesis using inv by (auto simp: DelayQueue_Cancel_def dq_pending_def fun_eq_iff)
next
  case (Some a)
  have "DelayQueue_Cancel k q = (True, DelayQueue_wake (dq_forget k a q))" using Some by (cases q) (simp add: DelayQueue_Cancel_def dq_forget_def dq_kill_def)
  then show ?thesis using dq_forget_ok [OF inv Some] Some by (simp add: dq_pending_def)
qed

section \<open>Properties\<close>

text \<open>The heap with lazily deleted tasks refines a map from keys to an instant and a callback. \<open>Schedule\<close> puts an
  entry and tells whether it replaced one, \<open>Cancel\<close> removes one and tells whether it was there, and a round of
  the driver starts exactly the callbacks whose instant has come, each once, in the order of their instants,
  and removes just those; afterwards it sleeps until the first instant that is left, or for an hour when
  nothing is pending, so no pending callback is overslept.\<close>

theorem DelayQueue_refines:
  assumes inv: "dq_inv q" and run: "\<not> dq_stopped q"
    and bounds: "\<forall>a\<in>set (dq_h q). in_i64 (dq_fireAt q a - now)"
    and round: "DelayQueue_round now q = (started, sleep, q')"
  shows "(case DelayQueue_Schedule now k d (Some f) q of
       (r, q1) \<Rightarrow> dq_inv q1 \<and> r = (dq_pending q k \<noteq> None) \<and> dq_pending q1 = (dq_pending q)(k \<mapsto> (wrap64 (now + d), f)) \<and> dq_wake q1)
    \<and> (case DelayQueue_Cancel k q of
       (r, q1) \<Rightarrow> dq_inv q1 \<and> r = (dq_pending q k \<noteq> None) \<and> dq_pending q1 = (dq_pending q)(k := None))
    \<and> dq_inv q' \<and> distinct (map fst started)
    \<and> (\<forall>k f. (k, f) \<in> set started \<longleftrightarrow> (\<exists>t\<le>now. dq_pending q k = Some (t, f)))
    \<and> sorted (map (\<lambda>(k, f). fst (the (dq_pending q k))) started)
    \<and> dq_pending q' = (\<lambda>k. case dq_pending q k of None \<Rightarrow> None | Some p \<Rightarrow> if fst p \<le> now then None else Some p)
    \<and> (\<forall>k t f. dq_pending q' k = Some (t, f) \<longrightarrow> 0 < sleep \<and> now + sleep \<le> t)"
proof -
  obtain ready wait where ex: "dq_expire now q = (ready, wait, q')" using round by (auto simp: DelayQueue_round_def split: prod.splits)
  let ?p = "\<lambda>a. (tk_key (dq_tasks q ! a), tk_fn (dq_tasks q ! a))"
  have st: "started = map ?p ready" "sleep = (if wait < 0 then 3600 * second else wait)"
    using round ex by (simp_all add: DelayQueue_round_def)
  note e = dq_expire_ok [OF inv ex bounds]
  have by_key: "dq_byKey q (tk_key (dq_tasks q ! a)) = Some a" if "a \<in> set ready" for a
    using e that dq_invD(4) [OF inv, of "tk_key (dq_tasks q ! a)" a] by simp
  have pend: "dq_pending q (tk_key (dq_tasks q ! a)) = Some (dq_fireAt q a, tk_fn (dq_tasks q ! a))" if "a \<in> set ready" for a
    using by_key [OF that] by (simp add: dq_pending_def dq_fireAt_def)
  have "inj_on (\<lambda>a. tk_key (dq_tasks q ! a)) (set ready)" by (intro inj_onI) (metis by_key option.inject)
  then have d1: "distinct (map fst started)" using e by (simp add: st comp_def distinct_map)
  have d2: "(k, f) \<in> set started \<longleftrightarrow> (\<exists>t\<le>now. dq_pending q k = Some (t, f))" for k f
  proof
    assume "(k, f) \<in> set started"
    then show "\<exists>t\<le>now. dq_pending q k = Some (t, f)" using pend e by (auto simp: st)
  next
    assume "\<exists>t\<le>now. dq_pending q k = Some (t, f)"
    then obtain a where a: "dq_byKey q k = Some a" "dq_fireAt q a \<le> now" "tk_fn (dq_tasks q ! a) = f" by (auto simp: dq_pending_def dq_fireAt_def)
    then have "a \<in> set ready" "tk_key (dq_tasks q ! a) = k" using e dq_invD(4) [OF inv, of k a] by blast+
    then show "(k, f) \<in> set started" using a by (auto simp: st)
  qed
  have "map (\<lambda>(k, f). fst (the (dq_pending q k))) started = map (dq_fireAt q) ready" using pend by (simp add: st)
  then have d3: "sorted (map (\<lambda>(k, f). fst (the (dq_pending q k))) started)" using e by simp
  have d4: "0 < sleep \<and> now + sleep \<le> t" if "dq_pending q' k = Some (t, f)" for k t f
  proof -
    note w = e [THEN conjunct2, THEN conjunct2, THEN conjunct2, THEN conjunct2, THEN conjunct2]
    have "\<not> wait < 0" using w that by (cases "wait < 0") simp_all
    then have "0 < wait" "\<forall>k p. dq_pending q' k = Some p \<longrightarrow> now + wait \<le> fst p" using w by simp_all
    then show ?thesis using st(2) that by fastforce
  qed
  show ?thesis
    by (intro conjI DelayQueue_Schedule_ok [OF inv run] DelayQueue_Cancel_ok [OF inv] e [THEN conjunct1] d1 d3
          e [THEN conjunct2, THEN conjunct2, THEN conjunct2, THEN conjunct2, THEN conjunct1]; use d2 d4 in blast)
qed

theorem DelayQueue_refines_witness:
  "let q = snd (DelayQueue_Schedule 0 ''b'' 5 (Some 2) (snd (DelayQueue_Schedule 0 ''a'' 3 (Some 1) (DelayQueue_New False))))
   in dq_pending (snd (snd (DelayQueue_round 4 q))) ''b'' = Some (5, 2) \<and> dq_pending (snd (snd (DelayQueue_round 4 q))) ''a'' = None"
proof -
  define q1 where "q1 = snd (DelayQueue_Schedule 0 ''a'' 3 (Some 1) (DelayQueue_New False))"
  define q where "q = snd (DelayQueue_Schedule 0 ''b'' 5 (Some 2) q1)"
  have q1: "q1 = \<lparr>dq_tasks = [\<lparr>tk_key = ''a'', tk_fireAt = 3, tk_fn = 1, tk_dead = False\<rparr>], dq_h = [0], dq_byKey = [''a'' \<mapsto> 0],
      dq_wake = True, dq_stopped = False, dq_onPanic = False\<rparr>"
    by (simp add: q1_def DelayQueue_Schedule_def DelayQueue_New_def dq_heap_def dq_fireAt_def Queue_Push_def pq_up.simps DelayQueue_wake_def in_i64_def)
  have q: "q = \<lparr>dq_tasks = [\<lparr>tk_key = ''a'', tk_fireAt = 3, tk_fn = 1, tk_dead = False\<rparr>, \<lparr>tk_key = ''b'', tk_fireAt = 5, tk_fn = 2, tk_dead = False\<rparr>],
      dq_h = [0, 1], dq_byKey = [''a'' \<mapsto> 0, ''b'' \<mapsto> 1], dq_wake = True, dq_stopped = False, dq_onPanic = False\<rparr>"
    by (simp add: q_def q1 DelayQueue_Schedule_def dq_heap_def dq_fireAt_def Queue_Push_def pq_up.simps DelayQueue_wake_def in_i64_def)
  have "dq_inv q1" using DelayQueue_Schedule_ok [OF dq_inv_new [of False], where now = 0 and k = "''a''" and d = 3 and f = 1] by (auto simp: q1_def DelayQueue_New_def split: prod.splits)
  then have inv: "dq_inv q" using DelayQueue_Schedule_ok [where q = q1 and now = 0 and k = "''b''" and d = 5 and f = 2] by (auto simp: q_def q1 split: prod.splits)
  obtain st sl q' where r: "DelayQueue_round 4 q = (st, sl, q')" by (metis prod_cases3)
  have "dq_pending q' = (\<lambda>k. case dq_pending q k of None \<Rightarrow> None | Some p \<Rightarrow> if fst p \<le> 4 then None else Some p)"
    using DelayQueue_refines [OF inv _ _ r] by (simp add: q dq_fireAt_def in_i64_def)
  then show ?thesis unfolding q1_def [symmetric] q_def [symmetric] Let_def r by (simp add: q dq_pending_def)
qed

end
