(* ===== verification/JobQueue.thy ===== *)
theory JobQueue
  imports Priority Complex_Main
begin

text \<open>
  \<open>pkg/orchestration/jobqueue\<close>: the job queue with priorities, delays, retries, cancelling, pause and stop.
  A job is shared by pointer between its submitter, the heap, the list of delayed jobs, the table of ids and
  the worker that runs it, so the model keeps a store of jobs and every other place holds addresses. The
  events passed to the hook are appended to a log. The job's function is outside: what it reports and how it
  returns are arguments of the operations. The second half runs any number of submitters, the delay scheduler
  and the workers as an interleaving of their critical sections.
\<close>

section \<open>Jobs, events and configuration\<close>

datatype JobState = StateWaiting | StateDelayed | StateActive | StateCompleted | StateFailed

fun JobState_String :: "JobState \<Rightarrow> string" where
  "JobState_String StateWaiting = ''waiting''"
| "JobState_String StateDelayed = ''delayed''"
| "JobState_String StateActive = ''active''"
| "JobState_String StateCompleted = ''completed''"
| "JobState_String StateFailed = ''failed''"

text \<open>The values of \<open>float64\<close> that matter for a comparison: numbers, the infinities and not-a-number.\<close>

datatype float64 = NaN | NegInf | PosInf | Num rat

fun float_less :: "float64 \<Rightarrow> float64 \<Rightarrow> bool" where
  "float_less NaN y = False"
| "float_less x NaN = False"
| "float_less x NegInf = False"
| "float_less NegInf y = True"
| "float_less PosInf y = False"
| "float_less x PosInf = True"
| "float_less (Num a) (Num b) = (a < b)"

record Job =
  jb_ID :: key
  jb_Name :: string
  jb_Priority :: int
  jb_Payload :: nat
  jb_Fn :: nat
  jb_MaxRetries :: int
  jb_RetryDelay :: duration
  jb_Delay :: duration
  jb_Timeout :: duration
  jb_State :: JobState
  jb_Attempts :: int
  jb_Progress :: float64
  jb_Err :: "err option"
  jb_CreatedAt :: time
  jb_StartedAt :: time
  jb_CompletedAt :: time
  jb_readyAt :: time

datatype EventType = EventSubmit | EventStart | EventProgress | EventComplete | EventFail | EventRetry

fun EventType_String :: "EventType \<Rightarrow> string" where
  "EventType_String EventSubmit = ''submit''"
| "EventType_String EventStart = ''start''"
| "EventType_String EventProgress = ''progress''"
| "EventType_String EventComplete = ''complete''"
| "EventType_String EventFail = ''fail''"
| "EventType_String EventRetry = ''retry''"

record Event =
  ev_Type :: EventType
  ev_Job :: nat
  ev_Err :: "err option"

record jq_config =
  jc_Workers :: int
  jc_QueueSize :: int
  jc_Hook :: bool
  jc_OnPanic :: bool

datatype jq_option = WithWorkers int | WithQueueSize int | WithHook | WithHookFunc | WithPanicHandler

fun jq_apply :: "jq_option \<Rightarrow> jq_config \<Rightarrow> jq_config" where
  "jq_apply (WithWorkers n) c = c\<lparr>jc_Workers := n\<rparr>"
| "jq_apply (WithQueueSize n) c = c\<lparr>jc_QueueSize := n\<rparr>"
| "jq_apply WithHook c = c\<lparr>jc_Hook := True\<rparr>"
| "jq_apply WithHookFunc c = c\<lparr>jc_Hook := True\<rparr>"
| "jq_apply WithPanicHandler c = c\<lparr>jc_OnPanic := True\<rparr>"

section \<open>The queue\<close>

record JobQueue =
  jq_cfg :: jq_config
  jq_jobs :: "Job list"
  jq_pq :: "nat list"
  jq_delayed :: "nat list"
  jq_byID :: "key \<rightharpoonup> nat"
  jq_signal :: nat
  jq_paused :: bool
  jq_stopped :: bool
  jq_started :: bool
  jq_events :: "Event list"

text \<open>\<open>make(chan struct{}, n)\<close> panics for a negative size.\<close>

definition JobQueue_New :: "jq_option list \<Rightarrow> JobQueue option" where
  "JobQueue_New opts =
     (let cfg = fold jq_apply opts \<lparr>jc_Workers = 4, jc_QueueSize = 1024, jc_Hook = False, jc_OnPanic = False\<rparr>;
          cfg = (if jc_Workers cfg < 1 then cfg\<lparr>jc_Workers := 1\<rparr> else cfg)
      in if jc_QueueSize cfg < 0 then None
         else Some \<lparr>jq_cfg = cfg, jq_jobs = [], jq_pq = [], jq_delayed = [], jq_byID = Map.empty, jq_signal = 0,
                    jq_paused = False, jq_stopped = False, jq_started = False, jq_events = []\<rparr>)"

definition JobQueue_String :: "JobQueue \<Rightarrow> string" where
  "JobQueue_String q = ''jobqueue(workers='' @ FormatInt (jc_Workers (jq_cfg q)) @ '')''"

definition jq_job :: "JobQueue \<Rightarrow> nat \<Rightarrow> Job" where
  "jq_job q a = jq_jobs q ! a"

definition jq_upd :: "nat \<Rightarrow> (Job \<Rightarrow> Job) \<Rightarrow> JobQueue \<Rightarrow> JobQueue" where
  "jq_upd a f q = q\<lparr>jq_jobs := (jq_jobs q)[a := f (jq_jobs q ! a)]\<rparr>"

definition JobQueue_emit :: "EventType \<Rightarrow> nat \<Rightarrow> err option \<Rightarrow> JobQueue \<Rightarrow> JobQueue" where
  "JobQueue_emit t a e q =
     (if jc_Hook (jq_cfg q) then q\<lparr>jq_events := jq_events q @ [\<lparr>ev_Type = t, ev_Job = a, ev_Err = e\<rparr>]\<rparr> else q)"

definition jq_prio :: "JobQueue \<Rightarrow> nat \<Rightarrow> int" where
  "jq_prio q a = jb_Priority (jq_jobs q ! a)"

definition jq_heap :: "JobQueue \<Rightarrow> nat Queue" where
  "jq_heap q = \<lparr>pq_items = jq_pq q, pq_less = (\<lambda>a b. jq_prio q a < jq_prio q b)\<rparr>"

definition jq_push :: "nat \<Rightarrow> JobQueue \<Rightarrow> JobQueue" where
  "jq_push a q = q\<lparr>jq_pq := pq_items (Queue_Push a (jq_heap q))\<rparr>"

definition jq_index :: "nat \<Rightarrow> JobQueue \<Rightarrow> JobQueue" where
  "jq_index a q = (if jb_ID (jq_job q a) \<noteq> '''' then q\<lparr>jq_byID := (jq_byID q)(jb_ID (jq_job q a) \<mapsto> a)\<rparr> else q)"

text \<open>The non-blocking send on the signal channel.\<close>

definition jq_send :: "JobQueue \<Rightarrow> JobQueue" where
  "jq_send q = (if int (jq_signal q) < jc_QueueSize (jq_cfg q) then q\<lparr>jq_signal := Suc (jq_signal q)\<rparr> else q)"

definition jq_enqueue_locked :: "nat \<Rightarrow> JobQueue \<Rightarrow> JobQueue" where
  "jq_enqueue_locked a q = jq_index a (jq_push a (jq_upd a (\<lambda>j. j\<lparr>jb_State := StateWaiting\<rparr>) q))"

definition JobQueue_enqueue :: "nat \<Rightarrow> JobQueue \<Rightarrow> JobQueue" where
  "JobQueue_enqueue a q = jq_send (jq_enqueue_locked a q)"

text \<open>\<open>Submit\<close> up to the end of its critical section, and whether a signal is still to be sent.\<close>

definition jq_submit_locked :: "time \<Rightarrow> nat \<Rightarrow> JobQueue \<Rightarrow> bool \<times> JobQueue" where
  "jq_submit_locked now a q =
     (let q1 = jq_upd a (\<lambda>j. j\<lparr>jb_CreatedAt := now, jb_State := StateWaiting\<rparr>) q
      in if 0 < jb_Delay (jq_job q1 a)
         then let q2 = jq_upd a (\<lambda>j. j\<lparr>jb_State := StateDelayed, jb_readyAt := now + jb_Delay j\<rparr>) q1
              in (False, jq_index a (q2\<lparr>jq_delayed := jq_delayed q2 @ [a]\<rparr>))
         else (True, jq_enqueue_locked a (jq_upd a (\<lambda>j. j\<lparr>jb_readyAt := now\<rparr>) q1)))"

definition JobQueue_Submit :: "time \<Rightarrow> nat \<Rightarrow> JobQueue \<Rightarrow> bool \<times> JobQueue" where
  "JobQueue_Submit now a q =
     (if jq_stopped q then (False, q)
      else case jq_submit_locked now a q of
        (s, q1) \<Rightarrow> (True, JobQueue_emit EventSubmit a None (if s then jq_send q1 else q1)))"

definition JobQueue_Cancel :: "key \<Rightarrow> JobQueue \<Rightarrow> bool \<times> JobQueue" where
  "JobQueue_Cancel k q =
     (case jq_byID q k of
        None \<Rightarrow> (False, q)
      | Some a \<Rightarrow>
          if jb_State (jq_job q a) = StateWaiting \<or> jb_State (jq_job q a) = StateDelayed
          then (True, jq_upd a (\<lambda>j. j\<lparr>jb_State := StateFailed, jb_Err := Some ''context canceled''\<rparr>)
                        (q\<lparr>jq_byID := (jq_byID q)(k := None)\<rparr>))
          else (False, q))"

definition JobQueue_Pause :: "JobQueue \<Rightarrow> JobQueue" where
  "JobQueue_Pause q = q\<lparr>jq_paused := True\<rparr>"

definition JobQueue_Resume :: "JobQueue \<Rightarrow> JobQueue" where
  "JobQueue_Resume q = (if jq_paused q then q\<lparr>jq_paused := False\<rparr> else q)"

definition JobQueue_Paused :: "JobQueue \<Rightarrow> bool" where
  "JobQueue_Paused q = jq_paused q"

definition JobQueue_Pending :: "JobQueue \<Rightarrow> nat" where
  "JobQueue_Pending q = Queue_Len (jq_heap q)"

definition JobQueue_Stop :: "JobQueue \<Rightarrow> JobQueue" where
  "JobQueue_Stop q = (if jq_stopped q then q else JobQueue_Resume (q\<lparr>jq_stopped := True\<rparr>))"

function JobQueue_dequeue :: "JobQueue \<Rightarrow> nat option \<times> JobQueue" where
  "JobQueue_dequeue q =
     (case Queue_Pop (jq_heap q) of
        None \<Rightarrow> (None, q)
      | Some (a, h) \<Rightarrow>
          if jb_State (jq_job q a) \<noteq> StateWaiting then JobQueue_dequeue (q\<lparr>jq_pq := pq_items h\<rparr>)
          else (Some a, jq_upd a (\<lambda>j. j\<lparr>jb_State := StateActive\<rparr>) (q\<lparr>jq_pq := pq_items h\<rparr>)))"
  by pat_completeness auto
termination
proof (relation "measure (\<lambda>q. length (jq_pq q))")
  fix q x a and h :: "nat Queue"
  assume "Queue_Pop (jq_heap q) = Some x" "(a, h) = x"
  then have "Queue_Pop (jq_heap q) = Some (a, h)" by simp
  from Queue_Pop_length [OF this] show "(q\<lparr>jq_pq := pq_items h\<rparr>, q) \<in> measure (\<lambda>q. length (jq_pq q))" by (simp add: jq_heap_def)
qed simp

declare JobQueue_dequeue.simps [simp del]

section \<open>Running a job\<close>

definition progress_clamp :: "float64 \<Rightarrow> float64" where
  "progress_clamp p =
     (let p = (if float_less p (Num 0) then Num 0 else p) in if float_less (Num 100) p then Num 100 else p)"

definition progressReporter_report :: "nat \<Rightarrow> float64 \<Rightarrow> JobQueue \<Rightarrow> JobQueue" where
  "progressReporter_report a p q =
     JobQueue_emit EventProgress a None (jq_upd a (\<lambda>j. j\<lparr>jb_Progress := progress_clamp p\<rparr>) q)"

text \<open>How the job's function ended. \<open>quote\<close> is \<open>strconv.Quote\<close>, the verb \<open>%q\<close>.\<close>

datatype fn_result = FnNil | FnErr err | FnPanic string

definition JobQueue_safeExec :: "(string \<Rightarrow> string) \<Rightarrow> Job \<Rightarrow> fn_result \<Rightarrow> err option" where
  "JobQueue_safeExec quote j r =
     (case r of
        FnNil \<Rightarrow> None
      | FnErr e \<Rightarrow> Some e
      | FnPanic v \<Rightarrow> Some (''jobqueue: panic in job '' @ quote (jb_Name j) @ '': '' @ v))"

text \<open>\<open>1<<(Attempts-1)\<close> is an \<open>int64\<close> shift; \<open>Attempts\<close> is positive here.\<close>

definition jq_retry_delay :: "Job \<Rightarrow> duration" where
  "jq_retry_delay j =
     (let delay = wrap64 (jb_RetryDelay j * wrap64 (2 ^ nat (jb_Attempts j - 1)))
      in if delay \<le> 0 then 100000000 else delay)"

definition jq_exec_start :: "time \<Rightarrow> nat \<Rightarrow> JobQueue \<Rightarrow> JobQueue" where
  "jq_exec_start now a q =
     JobQueue_emit EventStart a None (jq_upd a (\<lambda>j. j\<lparr>jb_Attempts := wrap64 (jb_Attempts j + 1), jb_StartedAt := now\<rparr>) q)"

text \<open>After the function returned, up to the last critical section; True when the job is to be retried.\<close>

definition jq_exec_end :: "time \<Rightarrow> nat \<Rightarrow> err option \<Rightarrow> JobQueue \<Rightarrow> bool \<times> JobQueue" where
  "jq_exec_end now a r q =
     (case r of
        Some e \<Rightarrow>
          let q1 = jq_upd a (\<lambda>j. j\<lparr>jb_Err := Some e\<rparr>) q
          in if jb_Attempts (jq_job q1 a) \<le> jb_MaxRetries (jq_job q1 a)
             then let q2 = JobQueue_emit EventRetry a (Some e) q1
                  in (True, jq_upd a (\<lambda>j. j\<lparr>jb_State := StateDelayed, jb_readyAt := now + jq_retry_delay j\<rparr>) q2)
             else (False, JobQueue_emit EventFail a (Some e)
                     (jq_upd a (\<lambda>j. j\<lparr>jb_State := StateFailed, jb_CompletedAt := now\<rparr>) q1))
      | None \<Rightarrow> (False, JobQueue_emit EventComplete a None
                     (jq_upd a (\<lambda>j. j\<lparr>jb_State := StateCompleted, jb_Progress := Num 100, jb_CompletedAt := now\<rparr>) q)))"

text \<open>The last critical section: back to the delayed jobs, or out of the table of ids.\<close>

definition jq_exec_commit :: "nat \<Rightarrow> bool \<Rightarrow> JobQueue \<Rightarrow> JobQueue" where
  "jq_exec_commit a retry q =
     (if retry then q\<lparr>jq_delayed := jq_delayed q @ [a]\<rparr>
      else if jb_ID (jq_job q a) \<noteq> '''' then q\<lparr>jq_byID := (jq_byID q)(jb_ID (jq_job q a) := None)\<rparr> else q)"

definition JobQueue_execute ::
    "(string \<Rightarrow> string) \<Rightarrow> time \<Rightarrow> time \<Rightarrow> nat \<Rightarrow> float64 list \<Rightarrow> fn_result \<Rightarrow> JobQueue \<Rightarrow> JobQueue" where
  "JobQueue_execute quote t1 t2 a reports r q =
     (let q1 = fold (progressReporter_report a) reports (jq_exec_start t1 a q);
          (retry, q2) = jq_exec_end t2 a (JobQueue_safeExec quote (jq_job q1 a) r) q1
      in jq_exec_commit a retry q2)"

text \<open>One tick of the delay scheduler; \<open>rem\<close> is \<open>remaining\<close>.\<close>

fun jq_tick :: "time \<Rightarrow> nat list \<Rightarrow> nat list \<Rightarrow> JobQueue \<Rightarrow> JobQueue" where
  "jq_tick now [] rem q = q\<lparr>jq_delayed := rem\<rparr>"
| "jq_tick now (a # as) rem q =
     (if jb_State (jq_job q a) = StateFailed \<or> jb_State (jq_job q a) = StateCompleted then jq_tick now as rem q
      else if jb_readyAt (jq_job q a) \<le> now
      then jq_tick now as rem (jq_send (jq_push a (jq_upd a (\<lambda>j. j\<lparr>jb_State := StateWaiting\<rparr>) q)))
      else jq_tick now as (rem @ [a]) q)"

definition JobQueue_delayScheduler_tick :: "time \<Rightarrow> JobQueue \<Rightarrow> JobQueue" where
  "JobQueue_delayScheduler_tick now q = jq_tick now (jq_delayed q) [] q"

section \<open>Dequeuing takes the most urgent waiting job\<close>

definition jq_ordered :: "JobQueue \<Rightarrow> bool" where
  "jq_ordered q \<longleftrightarrow> keyed.heap_inv (jq_prio q) (jq_heap q)"

lemma jq_ordered_pop:
  assumes "jq_ordered q" "Queue_Pop (jq_heap q) = Some (a, h)"
  shows "jq_ordered (q\<lparr>jq_pq := pq_items h\<rparr>)" "set (jq_pq q) = insert a (set (pq_items h))"
    "distinct (jq_pq q) \<longleftrightarrow> a \<notin> set (pq_items h) \<and> distinct (pq_items h)" "\<forall>b\<in>set (jq_pq q). jq_prio q a \<le> jq_prio q b"
proof -
  note h = heap_pop_set [OF assms(1) [unfolded jq_ordered_def] assms(2)]
  show "jq_ordered (q\<lparr>jq_pq := pq_items h\<rparr>)" using h(1) by (simp add: jq_ordered_def keyed.heap_inv_def jq_heap_def jq_prio_def)
  show "set (jq_pq q) = insert a (set (pq_items h))"
    "distinct (jq_pq q) \<longleftrightarrow> a \<notin> set (pq_items h) \<and> distinct (pq_items h)" "\<forall>b\<in>set (jq_pq q). jq_prio q a \<le> jq_prio q b"
    using h(2-4) by (simp_all add: jq_heap_def)
qed

definition jq_waiting :: "JobQueue \<Rightarrow> nat set" where
  "jq_waiting q = {a \<in> set (jq_pq q). jb_State (jq_job q a) = StateWaiting}"

text \<open>Everything a caller of \<open>dequeue\<close> can know.\<close>

definition jq_dequeued :: "JobQueue \<Rightarrow> nat option \<times> JobQueue \<Rightarrow> bool" where
  "jq_dequeued q res \<longleftrightarrow>
     (case res of
        (None, q') \<Rightarrow> jq_waiting q = {} \<and> q' = q\<lparr>jq_pq := []\<rparr>
      | (Some a, q') \<Rightarrow> a \<in> jq_waiting q \<and> (\<forall>b\<in>jq_waiting q. jq_prio q a \<le> jq_prio q b)
          \<and> (\<exists>xs. q' = jq_upd a (\<lambda>j. j\<lparr>jb_State := StateActive\<rparr>) (q\<lparr>jq_pq := xs\<rparr>) \<and> jq_ordered (q\<lparr>jq_pq := xs\<rparr>)
               \<and> set xs \<subseteq> set (jq_pq q) \<and> jq_waiting q \<subseteq> insert a (set xs) \<and> (distinct (jq_pq q) \<longrightarrow> distinct xs \<and> a \<notin> set xs)))"

lemma JobQueue_dequeue_ok: "jq_ordered q \<Longrightarrow> jq_dequeued q (JobQueue_dequeue q)"
proof (induction q rule: JobQueue_dequeue.induct)
  case (1 q)
  show ?case
  proof (cases "Queue_Pop (jq_heap q)")
    case None
    then have "jq_pq q = []" by (auto simp: Queue_Pop_def jq_heap_def Let_def split: if_splits)
    then show ?thesis using None by (simp add: JobQueue_dequeue.simps [of q] jq_dequeued_def jq_waiting_def)
  next
    case (Some p)
    then obtain a h where pop: "Queue_Pop (jq_heap q) = Some (a, h)" by (cases p) auto
    note f = jq_ordered_pop [OF 1(2) pop]
    let ?q = "q\<lparr>jq_pq := pq_items h\<rparr>"
    show ?thesis
    proof (cases "jb_State (jq_job q a) = StateWaiting")
      case True
      then have "JobQueue_dequeue q = (Some a, jq_upd a (\<lambda>j. j\<lparr>jb_State := StateActive\<rparr>) ?q)"
        by (simp add: JobQueue_dequeue.simps [of q] pop)
      then show ?thesis using f True by (auto simp: jq_dequeued_def jq_waiting_def)
    next
      case False
      then have deq: "JobQueue_dequeue q = JobQueue_dequeue ?q" by (simp add: JobQueue_dequeue.simps [of q] pop)
      have w: "jq_waiting ?q = jq_waiting q" using f(2) False by (auto simp: jq_waiting_def jq_job_def)
      have p: "jq_prio ?q = jq_prio q" by (simp add: jq_prio_def fun_eq_iff)
      have IH: "jq_dequeued ?q (JobQueue_dequeue ?q)" using 1(1) [OF pop refl] False f(1) by simp
      show ?thesis
      proof (cases "JobQueue_dequeue ?q")
        case (Pair r q')
        show ?thesis
        proof (cases r)
          case None
          then show ?thesis using IH w unfolding deq Pair by (simp add: jq_dequeued_def)
        next
          case (Some b)
          from IH [unfolded Pair Some jq_dequeued_def, simplified, unfolded w p]
          show ?thesis unfolding deq Pair Some jq_dequeued_def using f(2,3) by auto
        qed
      qed
    qed
  qed
qed

section \<open>Workers, submitters and the delay scheduler\<close>

text \<open>
  Where a worker is: before the first check of the pause, at the \<open>select\<close>, with a signal taken, after the second
  check, running a job, and before the last critical section of \<open>execute\<close> (True: the job is retried).
\<close>

datatype worker = WLoop | WSelect | WSignalled | WReady | WRun nat | WCommit nat bool | WExit

record jq_sys =
  sys_q :: JobQueue
  sys_ws :: "worker list"
  sys_senders :: nat

definition jq_gate :: "JobQueue \<Rightarrow> bool" where
  "jq_gate q \<longleftrightarrow> \<not> jq_stopped q \<and> \<not> jq_paused q"

text \<open>
  One step of some goroutine. A submitter brings a job of its own, not submitted before, with an arbitrary
  state and a fresh address; it then stands before the send on the signal channel (\<open>sys_senders\<close>).
\<close>

inductive jq_step :: "(string \<Rightarrow> string) \<Rightarrow> jq_sys \<Rightarrow> jq_sys \<Rightarrow> bool" for quote :: "string \<Rightarrow> string" where
  submit: "\<not> jq_stopped (sys_q s) \<Longrightarrow> jb_Attempts j = 0 \<Longrightarrow> jb_MaxRetries j < 2 ^ 63 - 1 \<Longrightarrow>
     jq_submit_locked now (length (jq_jobs (sys_q s))) ((sys_q s)\<lparr>jq_jobs := jq_jobs (sys_q s) @ [j]\<rparr>) = (sg, q') \<Longrightarrow>
     jq_step quote s (s\<lparr>sys_q := q', sys_senders := sys_senders s + (if sg then 1 else 0)\<rparr>)"
| send: "0 < sys_senders s \<Longrightarrow>
     jq_step quote s (s\<lparr>sys_q := jq_send (sys_q s), sys_senders := sys_senders s - 1\<rparr>)"
| hook: "jq_step quote s (s\<lparr>sys_q := JobQueue_emit t a e (sys_q s)\<rparr>)"
| cancel: "jq_step quote s (s\<lparr>sys_q := snd (JobQueue_Cancel k (sys_q s))\<rparr>)"
| pause: "jq_step quote s (s\<lparr>sys_q := JobQueue_Pause (sys_q s)\<rparr>)"
| resume: "jq_step quote s (s\<lparr>sys_q := JobQueue_Resume (sys_q s)\<rparr>)"
| stop: "jq_step quote s (s\<lparr>sys_q := JobQueue_Stop (sys_q s)\<rparr>)"
| tick: "jq_step quote s (s\<lparr>sys_q := JobQueue_delayScheduler_tick now (sys_q s)\<rparr>)"
| loop: "i < length (sys_ws s) \<Longrightarrow> sys_ws s ! i = WLoop \<Longrightarrow> jq_gate (sys_q s) \<Longrightarrow>
     jq_step quote s (s\<lparr>sys_ws := (sys_ws s)[i := WSelect]\<rparr>)"
| take: "i < length (sys_ws s) \<Longrightarrow> sys_ws s ! i = WSelect \<Longrightarrow> 0 < jq_signal (sys_q s) \<Longrightarrow>
     jq_step quote s (s\<lparr>sys_q := (sys_q s)\<lparr>jq_signal := jq_signal (sys_q s) - 1\<rparr>, sys_ws := (sys_ws s)[i := WSignalled]\<rparr>)"
| ready: "i < length (sys_ws s) \<Longrightarrow> sys_ws s ! i = WSignalled \<Longrightarrow> jq_gate (sys_q s) \<Longrightarrow>
     jq_step quote s (s\<lparr>sys_ws := (sys_ws s)[i := WReady]\<rparr>)"
| exits: "i < length (sys_ws s) \<Longrightarrow> sys_ws s ! i \<in> {WLoop, WSelect, WSignalled} \<Longrightarrow> jq_stopped (sys_q s) \<Longrightarrow>
     jq_step quote s (s\<lparr>sys_ws := (sys_ws s)[i := WExit]\<rparr>)"
| drained: "i < length (sys_ws s) \<Longrightarrow> sys_ws s ! i = WReady \<Longrightarrow> JobQueue_dequeue (sys_q s) = (None, q') \<Longrightarrow>
     jq_step quote s (s\<lparr>sys_q := q', sys_ws := (sys_ws s)[i := WLoop]\<rparr>)"
| start: "i < length (sys_ws s) \<Longrightarrow> sys_ws s ! i = WReady \<Longrightarrow> JobQueue_dequeue (sys_q s) = (Some a, q') \<Longrightarrow>
     jq_step quote s (s\<lparr>sys_q := jq_exec_start now a q', sys_ws := (sys_ws s)[i := WRun a]\<rparr>)"
| progress: "i < length (sys_ws s) \<Longrightarrow> sys_ws s ! i = WRun a \<Longrightarrow>
     jq_step quote s (s\<lparr>sys_q := progressReporter_report a p (sys_q s)\<rparr>)"
| finish: "i < length (sys_ws s) \<Longrightarrow> sys_ws s ! i = WRun a \<Longrightarrow>
     jq_exec_end now a (JobQueue_safeExec quote (jq_job (sys_q s) a) r) (sys_q s) = (retry, q') \<Longrightarrow>
     jq_step quote s (s\<lparr>sys_q := q', sys_ws := (sys_ws s)[i := WCommit a retry]\<rparr>)"
| commit: "i < length (sys_ws s) \<Longrightarrow> sys_ws s ! i = WCommit a retry \<Longrightarrow>
     jq_step quote s (s\<lparr>sys_q := jq_exec_commit a retry (sys_q s), sys_ws := (sys_ws s)[i := WLoop]\<rparr>)"

definition jq_init :: "JobQueue \<Rightarrow> jq_sys" where
  "jq_init q = \<lparr>sys_q = q, sys_ws = replicate (nat (jc_Workers (jq_cfg q))) WLoop, sys_senders = 0\<rparr>"

section \<open>The invariant of the running queue\<close>

text \<open>How often a job may still be tried, and the states it can have where it is.\<close>

definition jb_cap :: "Job \<Rightarrow> int" where
  "jb_cap j = max 0 (jb_MaxRetries j)"

definition jb_sane :: "Job \<Rightarrow> bool" where
  "jb_sane j \<longleftrightarrow> 0 \<le> jb_Attempts j \<and> jb_Attempts j \<le> jb_cap j + 1 \<and> jb_MaxRetries j < 2 ^ 63 - 1"

definition jb_idle :: "JobState \<Rightarrow> Job \<Rightarrow> bool" where
  "jb_idle st j \<longleftrightarrow> (jb_State j = st \<or> jb_State j = StateFailed) \<and> jb_Attempts j \<le> jb_cap j"

definition jb_final :: "Job \<Rightarrow> bool" where
  "jb_final j \<longleftrightarrow> jb_State j = StateFailed \<or> jb_State j = StateCompleted"

fun holds :: "worker \<Rightarrow> nat option" where
  "holds (WRun a) = Some a"
| "holds (WCommit a True) = Some a"
| "holds w = None"

fun worker_ok :: "Job list \<Rightarrow> worker \<Rightarrow> bool" where
  "worker_ok js (WRun a) \<longleftrightarrow> jb_State (js ! a) = StateActive \<and> 1 \<le> jb_Attempts (js ! a)"
| "worker_ok js (WCommit a True) \<longleftrightarrow> jb_idle StateDelayed (js ! a)"
| "worker_ok js (WCommit a False) \<longleftrightarrow> a < length js \<and> jb_final (js ! a)"
| "worker_ok js w \<longleftrightarrow> True"

text \<open>
  Every job is in one place at most: among the ready jobs, among the delayed jobs, or with one worker.
\<close>

definition jq_ok :: "Job list \<Rightarrow> nat list \<Rightarrow> nat list \<Rightarrow> worker list \<Rightarrow> bool" where
  "jq_ok js pq dl ws \<longleftrightarrow>
     distinct pq \<and> distinct dl \<and> set pq \<inter> set dl = {}
     \<and> (\<forall>a\<in>set pq. a < length js \<and> jb_idle StateWaiting (js ! a))
     \<and> (\<forall>a\<in>set dl. a < length js \<and> jb_idle StateDelayed (js ! a))
     \<and> (\<forall>i<length ws. worker_ok js (ws ! i)
          \<and> (\<forall>a. holds (ws ! i) = Some a \<longrightarrow> a < length js \<and> a \<notin> set pq \<and> a \<notin> set dl \<and> (\<forall>k<length ws. holds (ws ! k) = Some a \<longrightarrow> k = i)))
     \<and> (\<forall>a<length js. jb_sane (js ! a))"

lemma jq_okD:
  assumes "jq_ok js pq dl ws"
  shows "distinct pq" "distinct dl" "set pq \<inter> set dl = {}"
    "a \<in> set pq \<Longrightarrow> a < length js \<and> jb_idle StateWaiting (js ! a)"
    "a \<in> set dl \<Longrightarrow> a < length js \<and> jb_idle StateDelayed (js ! a)"
    "i < length ws \<Longrightarrow> worker_ok js (ws ! i)"
    "i < length ws \<Longrightarrow> holds (ws ! i) = Some a \<Longrightarrow> a < length js \<and> a \<notin> set pq \<and> a \<notin> set dl"
    "i < length ws \<Longrightarrow> holds (ws ! i) = Some a \<Longrightarrow> k < length ws \<Longrightarrow> holds (ws ! k) = Some a \<Longrightarrow> k = i"
    "a < length js \<Longrightarrow> jb_sane (js ! a)"
  using assms unfolding jq_ok_def by blast+

text \<open>
  The general step: one job changes and may move from one place to another. The new places of that job are
  described by the premises, everything else stays where it was or is dropped.
\<close>

lemma jq_ok_move:
  assumes ok: "jq_ok js pq dl ws" and a: "a < length js"
    and pq: "distinct pq'" "set pq' \<subseteq> insert a (set pq)" and dl: "distinct dl'" "set dl' \<subseteq> insert a (set dl)"
    and own: "a \<in> set pq \<or> a \<in> set dl \<or> i < length ws \<and> holds (ws ! i) = Some a"
    and at: "a \<in> set pq' \<Longrightarrow> a \<notin> set dl' \<and> holds w = None \<and> jb_idle StateWaiting j"
      "a \<in> set dl' \<Longrightarrow> holds w = None \<and> jb_idle StateDelayed j"
    and w: "holds w = None \<or> holds w = Some a" "worker_ok (js[a := j]) w"
    and live: "\<not> jb_final (js ! a)"
    and j: "jb_sane j"
  shows "jq_ok (js[a := j]) pq' dl' (ws[i := w])"
proof -
  have other: "holds (ws ! k) \<noteq> Some a" if k: "k < length ws" "k \<noteq> i" for k
    using own jq_okD(7) [OF ok k(1)] k jq_okD(8) [OF ok _ _ k(1)] by metis
  have pq_o: "b < length js \<and> jb_idle StateWaiting (js ! b)" if "b \<in> set pq'" "b \<noteq> a" for b
    using pq(2) that jq_okD(4) [OF ok] by blast
  have dl_o: "b < length js \<and> jb_idle StateDelayed (js ! b)" if "b \<in> set dl'" "b \<noteq> a" for b
    using dl(2) that jq_okD(5) [OF ok] by blast
  have wk: "worker_ok (js[a := j]) (ws ! k)" if k: "k < length ws" "k \<noteq> i" for k
  proof (cases "ws ! k")
    case (WRun b)
    then show ?thesis using jq_okD(6) [OF ok k(1)] other [OF k] by (simp add: nth_list_update)
  next
    case (WCommit b r)
    then show ?thesis using jq_okD(6) [OF ok k(1)] other [OF k] live by (cases r; cases "b = a") simp_all
  qed simp_all
  have hold: "b < length js \<and> b \<notin> set pq' \<and> b \<notin> set dl' \<and> b \<noteq> a" if k: "k < length ws" "k \<noteq> i" "holds (ws ! k) = Some b" for k b
    using jq_okD(7) [OF ok k(1,3)] other [OF k(1,2)] k(3) pq(2) dl(2) by auto
  have "set pq' \<inter> set dl' = {}"
  proof -
    have "b \<notin> set dl'" if "b \<in> set pq'" for b
      using that at(1) pq(2) dl(2) jq_okD(3) [OF ok] by (cases "b = a") auto
    then show ?thesis by auto
  qed
  moreover have "\<forall>b\<in>set pq'. b < length (js[a := j]) \<and> jb_idle StateWaiting (js[a := j] ! b)"
    using pq_o at(1) a by (auto simp: nth_list_update)
  moreover have "\<forall>b\<in>set dl'. b < length (js[a := j]) \<and> jb_idle StateDelayed (js[a := j] ! b)"
    using dl_o at(2) a by (auto simp: nth_list_update)
  moreover have "\<forall>k<length (ws[i := w]). worker_ok (js[a := j]) (ws[i := w] ! k)
      \<and> (\<forall>b. holds (ws[i := w] ! k) = Some b \<longrightarrow> b < length (js[a := j]) \<and> b \<notin> set pq' \<and> b \<notin> set dl'
           \<and> (\<forall>m<length (ws[i := w]). holds (ws[i := w] ! m) = Some b \<longrightarrow> m = k))" (is "\<forall>k<_. ?P k")
  proof (intro allI impI)
    fix k assume "k < length (ws[i := w])"
    then have k: "k < length ws" by simp
    show "?P k"
    proof (cases "k = i")
      case True
      have "b = a \<and> b \<notin> set pq' \<and> b \<notin> set dl'" if "holds w = Some b" for b using that w(1) at by auto
      moreover have "m = i" if "m < length ws" "holds (ws[i := w] ! m) = Some a" for m
        using that other [of m] by (cases "m = i") simp_all
      ultimately show ?thesis using True k a w by auto
    next
      case False
      have "m = k" if "m < length ws" "holds (ws ! k) = Some b" "holds (ws[i := w] ! m) = Some b" for m b
        using that hold [OF k False that(2)] w(1) jq_okD(8) [OF ok k that(2), of m] by (cases "m = i") auto
      then show ?thesis using False wk [OF k False] hold [OF k False] by auto
    qed
  qed
  moreover have "\<forall>b<length (js[a := j]). jb_sane (js[a := j] ! b)" using jq_okD(9) [OF ok] j by (metis length_list_update nth_list_update_eq nth_list_update_neq)
  ultimately show ?thesis using pq(1) dl(1) unfolding jq_ok_def by blast
qed

text \<open>Dropping jobs from the ready and the delayed jobs, and steps of a worker that holds no job.\<close>

lemma jq_ok_drop:
  assumes ok: "jq_ok js pq dl ws" and "distinct pq'" "set pq' \<subseteq> set pq" "distinct dl'" "set dl' \<subseteq> set dl"
  shows "jq_ok js pq' dl' ws"
proof -
  have "\<forall>i<length ws. worker_ok js (ws ! i)
      \<and> (\<forall>a. holds (ws ! i) = Some a \<longrightarrow> a < length js \<and> a \<notin> set pq' \<and> a \<notin> set dl' \<and> (\<forall>k<length ws. holds (ws ! k) = Some a \<longrightarrow> k = i))"
    using jq_okD(6-8) [OF ok] assms(3,5) by blast
  moreover have "set pq' \<inter> set dl' = {}" using jq_okD(3) [OF ok] assms(3,5) by blast
  moreover have "\<forall>a\<in>set pq'. a < length js \<and> jb_idle StateWaiting (js ! a)" "\<forall>a\<in>set dl'. a < length js \<and> jb_idle StateDelayed (js ! a)"
    using jq_okD(4,5) [OF ok] assms(3,5) by blast+
  ultimately show ?thesis using assms(2,4) jq_okD(9) [OF ok] unfolding jq_ok_def by blast
qed

lemma jq_ok_worker:
  assumes ok: "jq_ok js pq dl ws" and "holds w = None" "worker_ok js w"
  shows "jq_ok js pq dl (ws[i := w])"
proof -
  have "worker_ok js (ws[i := w] ! k)" if "k < length ws" for k
    using jq_okD(6) [OF ok that] assms(3) that by (cases "k = i") simp_all
  moreover have hold: "holds (ws ! k) = Some a" if "k < length ws" "holds (ws[i := w] ! k) = Some a" for k a
    using that assms(2) by (cases "k = i") simp_all
  moreover have "m = k" if "k < length ws" "holds (ws[i := w] ! k) = Some a" "m < length ws" "holds (ws[i := w] ! m) = Some a" for k m a
    using jq_okD(8) [OF ok that(1) hold [OF that(1,2)] that(3) hold [OF that(3,4)]] .
  ultimately have "\<forall>k<length (ws[i := w]). worker_ok js (ws[i := w] ! k)
      \<and> (\<forall>a. holds (ws[i := w] ! k) = Some a \<longrightarrow> a < length js \<and> a \<notin> set pq \<and> a \<notin> set dl
            \<and> (\<forall>m<length (ws[i := w]). holds (ws[i := w] ! m) = Some a \<longrightarrow> m = k))"
    using jq_okD(7) [OF ok] by (metis length_list_update)
  then show ?thesis using jq_okD(1-5,9) [OF ok] unfolding jq_ok_def by blast
qed

text \<open>A change of one job that keeps it fit for its place.\<close>

lemma jq_ok_inplace:
  assumes ok: "jq_ok js pq dl ws" and "jb_sane j" "\<And>st. jb_idle st (js ! a) \<Longrightarrow> jb_idle st j"
    and "jb_State (js ! a) = StateActive \<Longrightarrow> jb_State j = StateActive \<and> jb_Attempts j = jb_Attempts (js ! a)"
    and "jb_final (js ! a) \<Longrightarrow> jb_final j"
  shows "jq_ok (js[a := j]) pq dl ws"
proof -
  have idle: "jb_idle st (js[a := j] ! b)" if "jb_idle st (js ! b)" "b < length js" for st b
    using that assms(3) by (cases "b = a") simp_all
  have "worker_ok (js[a := j]) (ws ! k)" if "k < length ws" for k
  proof (cases "ws ! k")
    case (WRun b)
    then show ?thesis using jq_okD(6,7) [OF ok that] assms(4) by (cases "b = a") auto
  next
    case (WCommit b r)
    then show ?thesis using jq_okD(6,7) [OF ok that] assms(3,5) by (cases r; cases "b = a") auto
  qed simp_all
  moreover have "\<forall>a\<in>set pq. a < length js \<and> jb_idle StateWaiting (js ! a)" "\<forall>a\<in>set dl. a < length js \<and> jb_idle StateDelayed (js ! a)"
    using jq_okD(4,5) [OF ok] by blast+
  moreover have "\<forall>b<length js. jb_sane (js[a := j] ! b)" using jq_okD(9) [OF ok] assms(2) by (metis nth_list_update_eq nth_list_update_neq)
  ultimately show ?thesis using jq_okD(1-3,7,8) [OF ok] idle unfolding jq_ok_def length_list_update by blast
qed

text \<open>A job of a submitter enters the ready or the delayed jobs.\<close>

lemma jq_ok_new:
  assumes ok: "jq_ok js pq dl ws" and j: "jb_sane j" and "distinct pq'" "distinct dl'"
    and enter: "set pq' = insert (length js) (set pq) \<and> set dl' = set dl \<and> jb_idle StateWaiting j
      \<or> set pq' = set pq \<and> set dl' = insert (length js) (set dl) \<and> jb_idle StateDelayed j"
  shows "jq_ok (js @ [j]) pq' dl' ws"
proof -
  let ?n = "length js"
  have out: "?n \<notin> set pq" "?n \<notin> set dl" using jq_okD(4,5) [OF ok, of ?n] by auto
  have "worker_ok (js @ [j]) (ws ! k)" if "k < length ws" for k
  proof (cases "ws ! k")
    case (WRun b)
    then show ?thesis using jq_okD(6,7) [OF ok that] by (simp add: nth_append)
  next
    case (WCommit b r)
    then show ?thesis using jq_okD(6,7) [OF ok that] by (cases r) (simp_all add: nth_append)
  qed simp_all
  moreover have "b < length (js @ [j]) \<and> b \<notin> set pq' \<and> b \<notin> set dl'" if "k < length ws" "holds (ws ! k) = Some b" for k b
    using jq_okD(7) [OF ok that] enter by auto
  moreover have "\<forall>a\<in>set pq'. a < length (js @ [j]) \<and> jb_idle StateWaiting ((js @ [j]) ! a)"
    using jq_okD(4) [OF ok] enter by (auto simp: nth_append)
  moreover have "\<forall>a\<in>set dl'. a < length (js @ [j]) \<and> jb_idle StateDelayed ((js @ [j]) ! a)"
    using jq_okD(5) [OF ok] enter by (auto simp: nth_append)
  moreover have "set pq' \<inter> set dl' = {}" using enter out jq_okD(3) [OF ok] by auto
  moreover have "\<forall>a<length (js @ [j]). jb_sane ((js @ [j]) ! a)" using jq_okD(9) [OF ok] j by (simp add: nth_append)
  ultimately show ?thesis using assms(3,4) jq_okD(8) [OF ok] unfolding jq_ok_def by blast
qed

text \<open>A job to be retried, cancelled meanwhile or not, goes back to the delayed jobs.\<close>

lemma jq_ok_commit:
  assumes ok: "jq_ok js pq dl ws" and i: "i < length ws" "holds (ws ! i) = Some a" and "jb_idle StateDelayed (js ! a)"
  shows "jq_ok js pq (dl @ [a]) (ws[i := WLoop])"
proof -
  note a = jq_okD(7) [OF ok i]
  have free: "holds (ws[i := WLoop] ! k) = Some b \<longrightarrow> holds (ws ! k) = Some b \<and> b \<noteq> a" if "k < length ws" for k b
    using jq_okD(8) [OF ok i that] that by (cases "k = i") auto
  have ok': "jq_ok js pq dl (ws[i := WLoop])" by (rule jq_ok_worker [OF ok]) simp_all
  have "b \<notin> set (dl @ [a])" if "k < length (ws[i := WLoop])" "holds (ws[i := WLoop] ! k) = Some b" for k b
    using jq_okD(7) [OF ok' that] free [of k b] that by simp
  then have "\<forall>k<length (ws[i := WLoop]). worker_ok js (ws[i := WLoop] ! k)
      \<and> (\<forall>b. holds (ws[i := WLoop] ! k) = Some b \<longrightarrow> b < length js \<and> b \<notin> set pq \<and> b \<notin> set (dl @ [a])
           \<and> (\<forall>m<length (ws[i := WLoop]). holds (ws[i := WLoop] ! m) = Some b \<longrightarrow> m = k))"
    using jq_okD(6-8) [OF ok'] by blast
  moreover have "distinct (dl @ [a])" "set pq \<inter> set (dl @ [a]) = {}" using a jq_okD(2,3) [OF ok] by auto
  moreover have "\<forall>b\<in>set (dl @ [a]). b < length js \<and> jb_idle StateDelayed (js ! b)" using a assms(4) jq_okD(5) [OF ok] by auto
  ultimately show ?thesis using jq_okD(1,4,9) [OF ok] unfolding jq_ok_def by blast
qed

section \<open>Every step keeps the invariant\<close>

lemma jq_sel [simp]:
  "jq_jobs (jq_upd a f q) = (jq_jobs q)[a := f (jq_jobs q ! a)]" "jq_pq (jq_upd a f q) = jq_pq q"
  "jq_delayed (jq_upd a f q) = jq_delayed q" "jq_signal (jq_upd a f q) = jq_signal q" "jq_cfg (jq_upd a f q) = jq_cfg q"
  "jq_stopped (jq_upd a f q) = jq_stopped q"
  "jq_jobs (JobQueue_emit t a e q) = jq_jobs q" "jq_pq (JobQueue_emit t a e q) = jq_pq q"
  "jq_delayed (JobQueue_emit t a e q) = jq_delayed q" "jq_signal (JobQueue_emit t a e q) = jq_signal q"
  "jq_cfg (JobQueue_emit t a e q) = jq_cfg q" "jq_stopped (JobQueue_emit t a e q) = jq_stopped q"
  "jq_jobs (jq_index a q) = jq_jobs q" "jq_pq (jq_index a q) = jq_pq q" "jq_delayed (jq_index a q) = jq_delayed q"
  "jq_signal (jq_index a q) = jq_signal q" "jq_cfg (jq_index a q) = jq_cfg q" "jq_stopped (jq_index a q) = jq_stopped q"
  "jq_jobs (jq_send q) = jq_jobs q" "jq_pq (jq_send q) = jq_pq q" "jq_delayed (jq_send q) = jq_delayed q"
  "jq_cfg (jq_send q) = jq_cfg q" "jq_stopped (jq_send q) = jq_stopped q"
  "jq_jobs (jq_push a q) = jq_jobs q" "jq_delayed (jq_push a q) = jq_delayed q" "jq_signal (jq_push a q) = jq_signal q"
  "jq_cfg (jq_push a q) = jq_cfg q" "jq_stopped (jq_push a q) = jq_stopped q"
  by (simp_all add: jq_upd_def JobQueue_emit_def jq_index_def jq_send_def jq_push_def)

lemma jq_ordered_cong:
  assumes "jq_ordered q" "jq_pq q' = jq_pq q" "\<And>a. a \<in> set (jq_pq q) \<Longrightarrow> jq_prio q' a = jq_prio q a"
  shows "jq_ordered q'"
  using assms pq_heap_cong [of "jq_prio q" "jq_pq q" "jq_prio q'"] by (simp add: jq_ordered_def keyed.heap_inv_def jq_heap_def)

lemma jq_ordered_upd:
  assumes "jq_ordered q" "jb_Priority (f (jq_jobs q ! a)) = jb_Priority (jq_jobs q ! a)"
  shows "jq_ordered (jq_upd a f q)"
proof (rule jq_ordered_cong [OF assms(1)])
  fix b
  show "jq_prio (jq_upd a f q) b = jq_prio q b" using assms(2) by (cases "b = a"; cases "a < length (jq_jobs q)") (simp_all add: jq_prio_def list_update_beyond)
qed simp

lemma jq_push_ok:
  assumes "jq_ordered q"
  shows "jq_ordered (jq_push a q)" "set (jq_pq (jq_push a q)) = insert a (set (jq_pq q))"
    "distinct (jq_pq (jq_push a q)) \<longleftrightarrow> a \<notin> set (jq_pq q) \<and> distinct (jq_pq q)"
proof -
  note h = heap_push_set [OF assms [unfolded jq_ordered_def], of a]
  show "jq_ordered (jq_push a q)" using h(1) by (simp add: jq_ordered_def keyed.heap_inv_def jq_heap_def jq_push_def jq_prio_def)
  show "set (jq_pq (jq_push a q)) = insert a (set (jq_pq q))" using h(2) by (simp add: jq_push_def) (simp add: jq_heap_def)
  show "distinct (jq_pq (jq_push a q)) \<longleftrightarrow> a \<notin> set (jq_pq q) \<and> distinct (jq_pq q)"
    using h(3) by (simp add: jq_push_def) (simp add: jq_heap_def)
qed

definition jq_safe :: "JobQueue \<Rightarrow> worker list \<Rightarrow> bool" where
  "jq_safe q ws \<longleftrightarrow> jq_ok (jq_jobs q) (jq_pq q) (jq_delayed q) ws \<and> jq_ordered q"

lemma jq_safe_cong:
  assumes "jq_safe q ws" "jq_jobs q' = jq_jobs q" "jq_pq q' = jq_pq q" "jq_delayed q' = jq_delayed q"
  shows "jq_safe q' ws"
  using assms jq_ordered_cong [of q q'] by (simp add: jq_safe_def jq_prio_def)

text \<open>What never changes: the fixed fields of a job, and a job that has ended.\<close>

definition jq_keep :: "JobQueue \<Rightarrow> JobQueue \<Rightarrow> bool" where
  "jq_keep q q' \<longleftrightarrow> length (jq_jobs q) \<le> length (jq_jobs q')
     \<and> (\<forall>a<length (jq_jobs q). jb_MaxRetries (jq_job q' a) = jb_MaxRetries (jq_job q a) \<and> jb_Priority (jq_job q' a) = jb_Priority (jq_job q a)
          \<and> (jb_final (jq_job q a) \<longrightarrow> jq_job q' a = jq_job q a))"

lemma jq_keep_refl [simp]: "jq_jobs q' = jq_jobs q \<Longrightarrow> jq_keep q q'"
  by (simp add: jq_keep_def jq_job_def)

lemma jq_keep_trans:
  assumes "jq_keep q q'" "jq_keep q' q''"
  shows "jq_keep q q''"
proof -
  have "length (jq_jobs q) \<le> length (jq_jobs q'')" using assms by (simp add: jq_keep_def)
  moreover have "jb_MaxRetries (jq_job q'' a) = jb_MaxRetries (jq_job q a) \<and> jb_Priority (jq_job q'' a) = jb_Priority (jq_job q a)
      \<and> (jb_final (jq_job q a) \<longrightarrow> jq_job q'' a = jq_job q a)" if "a < length (jq_jobs q)" for a
    using assms that unfolding jq_keep_def by (metis order.strict_trans2)
  ultimately show ?thesis by (simp add: jq_keep_def)
qed

lemma jq_keep_upd:
  assumes "\<not> jb_final (jq_job q a)" "jb_MaxRetries (f (jq_job q a)) = jb_MaxRetries (jq_job q a)" "jb_Priority (f (jq_job q a)) = jb_Priority (jq_job q a)"
    and "jq_jobs q' = (jq_jobs q)[a := f (jq_jobs q ! a)]"
  shows "jq_keep q q'"
  using assms by (cases "a < length (jq_jobs q)") (auto simp: jq_keep_def jq_job_def nth_list_update list_update_beyond)

lemma jq_submit_safe:
  assumes safe: "jq_safe q ws" and j: "jb_Attempts j = 0" "jb_MaxRetries j < 2 ^ 63 - 1"
    and sub: "jq_submit_locked now (length (jq_jobs q)) (q\<lparr>jq_jobs := jq_jobs q @ [j]\<rparr>) = (sg, q')"
  shows "jq_safe q' ws \<and> jq_keep q q' \<and> jq_waiting q' \<subseteq> (if sg then insert (length (jq_jobs q)) (jq_waiting q) else jq_waiting q)
    \<and> jq_signal q' = jq_signal q \<and> jq_stopped q' = jq_stopped q"
proof -
  let ?n = "length (jq_jobs q)"
  have ok: "jq_ok (jq_jobs q) (jq_pq q) (jq_delayed q) ws" and ord: "jq_ordered q" using safe by (simp_all add: jq_safe_def)
  have out: "?n \<notin> set (jq_pq q)" "?n \<notin> set (jq_delayed q)" using jq_okD(4,5) [OF ok, of ?n] by auto
  have le: "\<forall>a\<in>set (jq_pq q). a < ?n" using jq_okD(4) [OF ok] by blast
  have sane: "jb_sane j' \<and> (jb_State j' = st \<longrightarrow> jb_idle st j')" if "jb_Attempts j' = 0" "jb_MaxRetries j' = jb_MaxRetries j" for j' st
    using j that by (simp add: jb_sane_def jb_cap_def jb_idle_def)
  have keep: "jq_keep q q1" if "jq_jobs q1 = jq_jobs q @ [j']" for j' q1
    using that by (simp add: jq_keep_def jq_job_def nth_append)
  have ord1: "jq_ordered q1" if "jq_jobs q1 = jq_jobs q @ [j']" "jq_pq q1 = jq_pq q" for j' q1
    using jq_ordered_cong [OF ord that(2)] le that(1) by (simp add: jq_prio_def nth_append)
  show ?thesis
  proof (cases "0 < jb_Delay j")
    case True
    define j' where "j' = j\<lparr>jb_CreatedAt := now, jb_State := StateDelayed, jb_readyAt := now + jb_Delay j\<rparr>"
    have r: "sg = False" "jq_jobs q' = jq_jobs q @ [j']" "jq_pq q' = jq_pq q" "jq_delayed q' = jq_delayed q @ [?n]"
      "jq_signal q' = jq_signal q" "jq_stopped q' = jq_stopped q"
      using sub True by (auto simp: jq_submit_locked_def Let_def jq_job_def nth_append j'_def)
    have "jq_ok (jq_jobs q') (jq_pq q') (jq_delayed q') ws"
      unfolding r using sane [of j' StateDelayed] jq_okD(1,2) [OF ok] out
      by (intro jq_ok_new [OF ok]) (auto simp: j'_def j)
    moreover have "jq_waiting q' \<subseteq> jq_waiting q" using le by (auto simp: jq_waiting_def jq_job_def r nth_append)
    ultimately show ?thesis using keep [OF r(2)] ord1 [OF r(2,3)] r by (simp add: jq_safe_def)
  next
    case False
    define j' where "j' = j\<lparr>jb_CreatedAt := now, jb_readyAt := now, jb_State := StateWaiting\<rparr>"
    define q1 where "q1 = q\<lparr>jq_jobs := jq_jobs q @ [j']\<rparr>"
    have r: "sg = True" "q' = jq_index ?n (jq_push ?n q1)"
      using sub False by (auto simp: jq_submit_locked_def jq_enqueue_locked_def Let_def jq_job_def nth_append q1_def j'_def jq_upd_def list_update_append)
    have q1: "jq_ordered q1" by (rule ord1 [of _ j']) (simp_all add: q1_def)
    note p = jq_push_ok [OF q1, of ?n]
    have r': "jq_jobs q' = jq_jobs q @ [j']" "jq_delayed q' = jq_delayed q" "jq_signal q' = jq_signal q" "jq_stopped q' = jq_stopped q"
      "set (jq_pq q') = insert ?n (set (jq_pq q))" "distinct (jq_pq q')" "jq_pq q' = jq_pq (jq_push ?n q1)"
      using p(2,3) out jq_okD(1) [OF ok] by (simp_all add: r q1_def)
    have "jq_ok (jq_jobs q') (jq_pq q') (jq_delayed q') ws"
      unfolding r'(1,2) using sane [of j' StateWaiting] r'(5,6) jq_okD(2) [OF ok]
      by (intro jq_ok_new [OF ok]) (auto simp: j'_def j)
    moreover have "jq_waiting q' \<subseteq> insert ?n (jq_waiting q)" using le by (auto simp: jq_waiting_def jq_job_def r'(1,5) nth_append)
    moreover have "jq_ordered q'" using jq_ordered_cong [OF p(1)] by (simp add: r jq_prio_def)
    ultimately show ?thesis using keep [OF r'(1)] r' r(1) by (simp add: jq_safe_def)
  qed
qed

lemma jq_cancel_safe:
  assumes "jq_safe q ws"
  shows "jq_safe (snd (JobQueue_Cancel k q)) ws \<and> jq_keep q (snd (JobQueue_Cancel k q)) \<and> jq_waiting (snd (JobQueue_Cancel k q)) \<subseteq> jq_waiting q"
proof (cases "\<exists>a. jq_byID q k = Some a \<and> (jb_State (jq_job q a) = StateWaiting \<or> jb_State (jq_job q a) = StateDelayed)")
  case False
  then show ?thesis using assms by (cases "jq_byID q k") (auto simp: JobQueue_Cancel_def)
next
  case True
  then obtain a where a: "jq_byID q k = Some a" "jb_State (jq_job q a) = StateWaiting \<or> jb_State (jq_job q a) = StateDelayed" by blast
  define f where "f = (\<lambda>j :: Job. j\<lparr>jb_State := StateFailed, jb_Err := Some ''context canceled''\<rparr>)"
  have q': "snd (JobQueue_Cancel k q) = jq_upd a f (q\<lparr>jq_byID := (jq_byID q)(k := None)\<rparr>)" (is "_ = ?q") using a by (simp add: JobQueue_Cancel_def f_def)
  have ok: "jq_ok (jq_jobs q) (jq_pq q) (jq_delayed q) ws" and ord: "jq_ordered q" using assms by (simp_all add: jq_safe_def)
  have nf: "\<not> jb_final (jq_job q a)" using a(2) by (auto simp: jb_final_def)
  have "jq_ok (jq_jobs ?q) (jq_pq ?q) (jq_delayed ?q) ws"
  proof (cases "a < length (jq_jobs q)")
    case True
    have "jb_sane (f (jq_jobs q ! a))" using jq_okD(9) [OF ok True] by (simp add: f_def jb_sane_def jb_cap_def)
    then show ?thesis using a(2) jq_ok_inplace [OF ok, of "f (jq_jobs q ! a)" a] by (auto simp: f_def jb_idle_def jb_cap_def jb_final_def jq_job_def)
  qed (simp add: ok list_update_beyond)
  moreover have "jq_ordered ?q" using jq_ordered_upd [OF jq_ordered_cong [OF ord]] by (simp add: f_def jq_prio_def)
  moreover have "jq_keep q ?q" by (rule jq_keep_upd [OF nf, of f]) (simp_all add: f_def)
  moreover have "jq_waiting ?q \<subseteq> jq_waiting q" using a(2)
    by (cases "a < length (jq_jobs q)") (auto simp: jq_waiting_def jq_job_def nth_list_update list_update_beyond f_def split: if_splits)
  ultimately show ?thesis unfolding q' by (simp add: jq_safe_def)
qed

lemma finite_waiting [simp]: "finite (jq_waiting q)"
  by (simp add: jq_waiting_def)

definition jq_promote :: "nat \<Rightarrow> JobQueue \<Rightarrow> JobQueue" where
  "jq_promote a q = jq_send (jq_push a (jq_upd a (\<lambda>j. j\<lparr>jb_State := StateWaiting\<rparr>) q))"

lemma jq_promote_safe:
  assumes safe: "jq_safe (q\<lparr>jq_delayed := rem @ a # as\<rparr>) ws" and live: "\<not> jb_final (jq_job q a)"
  shows "jq_safe ((jq_promote a q)\<lparr>jq_delayed := rem @ as\<rparr>) ws \<and> jq_keep q (jq_promote a q)
    \<and> jq_waiting (jq_promote a q) \<subseteq> insert a (jq_waiting q)"
proof -
  let ?u = "jq_upd a (\<lambda>j. j\<lparr>jb_State := StateWaiting\<rparr>) q"
  have ok: "jq_ok (jq_jobs q) (jq_pq q) (rem @ a # as) ws" and "jq_ordered (q\<lparr>jq_delayed := rem @ a # as\<rparr>)" using safe by (simp_all add: jq_safe_def)
  then have "jq_ordered ?u" using jq_ordered_upd jq_ordered_cong by (simp add: jq_prio_def)
  note p = jq_push_ok [OF this, of a]
  have a: "a < length (jq_jobs q)" "jb_idle StateDelayed (jq_jobs q ! a)" "a \<notin> set (jq_pq q)" "a \<notin> set (rem @ as)" "distinct (rem @ as)"
    using jq_okD(5) [OF ok, of a] jq_okD(2,3) [OF ok] by auto
  have "jq_ok ((jq_jobs q)[a := (jq_jobs q ! a)\<lparr>jb_State := StateWaiting\<rparr>]) (jq_pq (jq_push a ?u)) (rem @ as) (ws[length ws := WLoop])"
  proof (rule jq_ok_move [OF ok a(1)])
    show "distinct (jq_pq (jq_push a ?u))" "set (jq_pq (jq_push a ?u)) \<subseteq> insert a (set (jq_pq q))" using p a(3) jq_okD(1) [OF ok] by simp_all
    show "jb_sane ((jq_jobs q ! a)\<lparr>jb_State := StateWaiting\<rparr>)" using jq_okD(9) [OF ok a(1)] by (simp add: jb_sane_def jb_cap_def)
  qed (use a live in \<open>auto simp: jb_idle_def jb_cap_def jq_job_def\<close>)
  moreover have "jq_ordered ((jq_promote a q)\<lparr>jq_delayed := rem @ as\<rparr>)" using jq_ordered_cong [OF p(1)] by (simp add: jq_promote_def jq_prio_def)
  moreover have "jq_keep q (jq_promote a q)" by (rule jq_keep_upd [OF live, of "\<lambda>j. j\<lparr>jb_State := StateWaiting\<rparr>"]) (simp_all add: jq_promote_def)
  moreover have "jq_waiting (jq_promote a q) \<subseteq> insert a (jq_waiting q)"
    using p(2) a(1) by (auto simp: jq_waiting_def jq_promote_def jq_job_def nth_list_update split: if_splits)
  ultimately show ?thesis by (simp add: jq_safe_def jq_promote_def list_update_beyond)
qed

lemma jq_tick_safe:
  assumes "jq_safe (q\<lparr>jq_delayed := rem @ as\<rparr>) ws"
  shows "jq_safe (jq_tick now as rem q) ws \<and> jq_keep q (jq_tick now as rem q) \<and> jq_stopped (jq_tick now as rem q) = jq_stopped q
    \<and> (int (jq_signal q) + int (length as) \<le> jc_QueueSize (jq_cfg q) \<longrightarrow>
         card (jq_waiting (jq_tick now as rem q)) + jq_signal q \<le> card (jq_waiting q) + jq_signal (jq_tick now as rem q))"
  using assms
proof (induction as arbitrary: rem q)
  case Nil
  then show ?case by (simp add: jq_waiting_def jq_job_def)
next
  case (Cons a as)
  consider (gone) "jb_final (jq_job q a)" | (due) "\<not> jb_final (jq_job q a)" "jb_readyAt (jq_job q a) \<le> now"
    | (later) "\<not> jb_final (jq_job q a)" "\<not> jb_readyAt (jq_job q a) \<le> now" by blast
  then show ?case
  proof cases
    case gone
    have ok: "jq_ok (jq_jobs q) (jq_pq q) (rem @ a # as) ws" and "jq_ordered (q\<lparr>jq_delayed := rem @ a # as\<rparr>)"
      using Cons.prems by (simp_all add: jq_safe_def)
    then have "jq_ordered (q\<lparr>jq_delayed := rem @ as\<rparr>)" using jq_ordered_cong by (simp add: jq_prio_def)
    moreover have "jq_ok (jq_jobs q) (jq_pq q) (rem @ as) ws" using jq_okD(1,2) [OF ok] by (intro jq_ok_drop [OF ok]) auto
    ultimately have "jq_safe (q\<lparr>jq_delayed := rem @ as\<rparr>) ws" by (simp add: jq_safe_def)
    from Cons.IH [OF this] show ?thesis using gone by (simp add: jb_final_def)
  next
    case due
    note pr = jq_promote_safe [OF Cons.prems due(1)]
    have t: "jq_tick now (a # as) rem q = jq_tick now as rem (jq_promote a q)" using due by (simp add: jb_final_def jq_promote_def)
    note IH = Cons.IH [OF pr [THEN conjunct1]]
    have "card (jq_waiting (jq_promote a q)) \<le> card (insert a (jq_waiting q))" using pr by (intro card_mono) simp_all
    also have "\<dots> \<le> Suc (card (jq_waiting q))" by (simp add: card_insert_if)
    finally have c: "card (jq_waiting (jq_promote a q)) \<le> Suc (card (jq_waiting q))" .
    have "jq_signal (jq_promote a q) = Suc (jq_signal q)" if "int (jq_signal q) + int (length (a # as)) \<le> jc_QueueSize (jq_cfg q)"
      using that by (simp add: jq_promote_def jq_send_def)
    moreover have "jq_cfg (jq_promote a q) = jq_cfg q" "jq_stopped (jq_promote a q) = jq_stopped q" by (simp_all add: jq_promote_def)
    ultimately show ?thesis using IH c jq_keep_trans [of q "jq_promote a q" "jq_tick now as rem (jq_promote a q)"] pr unfolding t by auto
  next
    case later
    then have "jq_tick now (a # as) rem q = jq_tick now as (rem @ [a]) q" by (simp add: jb_final_def)
    then show ?thesis using Cons.IH [of "rem @ [a]" q] Cons.prems by simp
  qed
qed

lemma jq_start_safe:
  assumes safe: "jq_safe q ws" and i: "i < length ws" "ws ! i = WReady" and deq: "JobQueue_dequeue q = (Some a, q')"
  shows "jq_safe (jq_exec_start now a q') (ws[i := WRun a]) \<and> jq_keep q (jq_exec_start now a q')
    \<and> Suc (card (jq_waiting (jq_exec_start now a q'))) \<le> card (jq_waiting q)
    \<and> jq_signal (jq_exec_start now a q') = jq_signal q \<and> jq_stopped (jq_exec_start now a q') = jq_stopped q"
proof -
  have ok: "jq_ok (jq_jobs q) (jq_pq q) (jq_delayed q) ws" and ord: "jq_ordered q" using safe by (simp_all add: jq_safe_def)
  from JobQueue_dequeue_ok [OF ord, unfolded deq jq_dequeued_def, simplified] jq_okD(1) [OF ok]
  obtain xs where a: "a \<in> jq_waiting q" and q': "q' = jq_upd a (\<lambda>j. j\<lparr>jb_State := StateActive\<rparr>) (q\<lparr>jq_pq := xs\<rparr>)"
    and xs: "jq_ordered (q\<lparr>jq_pq := xs\<rparr>)" "set xs \<subseteq> set (jq_pq q)" "distinct xs" "a \<notin> set xs" by blast
  let ?s = "jq_exec_start now a q'"
  define j where "j = (jq_jobs q ! a)\<lparr>jb_State := StateActive, jb_Attempts := jb_Attempts (jq_jobs q ! a) + 1, jb_StartedAt := now\<rparr>"
  have al: "a < length (jq_jobs q)" "jb_Attempts (jq_jobs q ! a) \<le> jb_cap (jq_jobs q ! a)" "jb_State (jq_jobs q ! a) = StateWaiting" "a \<in> set (jq_pq q)"
    using a jq_okD(4) [OF ok, of a] by (auto simp: jq_waiting_def jq_job_def jb_idle_def)
  have sane: "jb_sane j" "1 \<le> jb_Attempts j" "in_i64 (jb_Attempts (jq_jobs q ! a) + 1)"
    using jq_okD(9) [OF ok al(1)] al(2) by (auto simp: jb_sane_def j_def jb_cap_def in_i64_def)
  have sel: "jq_jobs ?s = (jq_jobs q)[a := j]" "jq_pq ?s = xs" "jq_delayed ?s = jq_delayed q" "jq_signal ?s = jq_signal q" "jq_stopped ?s = jq_stopped q"
    using al(1) sane(3) by (simp_all add: jq_exec_start_def q' j_def)
  have "jq_ok ((jq_jobs q)[a := j]) xs (jq_delayed q) (ws[i := WRun a])"
    using al sane xs i jq_okD(2,3) [OF ok]
    by (intro jq_ok_move [OF ok al(1)]) (auto simp: jb_final_def j_def)
  moreover have "jq_ordered ?s"
    using al(1) by (intro jq_ordered_cong [OF xs(1)]) (auto simp: sel(1,2) jq_prio_def nth_list_update j_def)
  moreover have "jq_keep q ?s"
    using al by (intro jq_keep_upd [of q a "\<lambda>_. j"]) (simp_all add: sel(1) jq_job_def jb_final_def j_def)
  moreover have "jq_waiting ?s \<subseteq> jq_waiting q - {a}"
    using xs(2,4) al(1) by (auto simp: jq_waiting_def jq_job_def sel(1,2) nth_list_update)
  then have "card (jq_waiting ?s) \<le> card (jq_waiting q - {a})" by (intro card_mono) simp_all
  then have "Suc (card (jq_waiting ?s)) \<le> card (jq_waiting q)" using a by (simp add: card_Diff_singleton card_gt_0_iff Suc_le_eq) (metis Suc_pred card_gt_0_iff empty_iff finite_waiting less_Suc_eq_le)
  ultimately show ?thesis by (simp add: jq_safe_def sel)
qed

lemma jq_finish_safe:
  assumes safe: "jq_safe q ws" and i: "i < length ws" "ws ! i = WRun a" and e: "jq_exec_end now a r q = (retry, q')"
  shows "jq_safe q' (ws[i := WCommit a retry]) \<and> jq_keep q q' \<and> jq_waiting q' \<subseteq> jq_waiting q \<and> jq_signal q' = jq_signal q \<and> jq_stopped q' = jq_stopped q"
proof -
  have ok: "jq_ok (jq_jobs q) (jq_pq q) (jq_delayed q) ws" and ord: "jq_ordered q" using safe by (simp_all add: jq_safe_def)
  have a: "a < length (jq_jobs q)" "a \<notin> set (jq_pq q)" "a \<notin> set (jq_delayed q)" "jb_State (jq_jobs q ! a) = StateActive" "jb_sane (jq_jobs q ! a)"
    using jq_okD(6,7) [OF ok i(1)] i(2) jq_okD(9) [OF ok] by auto
  obtain j where j: "jq_jobs q' = (jq_jobs q)[a := j]" "jq_pq q' = jq_pq q" "jq_delayed q' = jq_delayed q" "jq_signal q' = jq_signal q" "jq_stopped q' = jq_stopped q"
    "jb_Attempts j = jb_Attempts (jq_jobs q ! a)" "jb_MaxRetries j = jb_MaxRetries (jq_jobs q ! a)" "jb_Priority j = jb_Priority (jq_jobs q ! a)"
    "retry \<longrightarrow> jb_State j = StateDelayed \<and> jb_Attempts j \<le> jb_MaxRetries j" "\<not> retry \<longrightarrow> jb_final j"
    using e a(1) by (auto simp: jq_exec_end_def Let_def jq_job_def jb_final_def split: option.splits if_splits)
  have "jq_ok ((jq_jobs q)[a := j]) (jq_pq q) (jq_delayed q) (ws[i := WCommit a retry])"
    using a i j(6-) jq_okD(1,2) [OF ok]
    by (intro jq_ok_move [OF ok a(1)]; cases retry) (auto simp: jb_final_def jb_idle_def jb_sane_def jb_cap_def)
  moreover have "jq_ordered q'" using a(1) j(8) by (intro jq_ordered_cong [OF ord j(2)]) (simp add: jq_prio_def j(1) nth_list_update)
  moreover have "jq_keep q q'" using a(4) j(1,7,8) by (intro jq_keep_upd [of q a "\<lambda>_. j"]) (simp_all add: jq_job_def jb_final_def)
  moreover have "jq_waiting q' \<subseteq> jq_waiting q" using a(1,2) by (auto simp: jq_waiting_def jq_job_def j(1,2) nth_list_update split: if_splits)
  ultimately show ?thesis by (simp add: jq_safe_def j(1-5))
qed

lemma jq_commit_safe:
  assumes safe: "jq_safe q ws" and i: "i < length ws" "ws ! i = WCommit a retry"
  shows "jq_safe (jq_exec_commit a retry q) (ws[i := WLoop])"
proof -
  have ok: "jq_ok (jq_jobs q) (jq_pq q) (jq_delayed q) ws" and ord: "jq_ordered q" using safe by (simp_all add: jq_safe_def)
  show ?thesis
  proof (cases retry)
    case True
    have a: "a < length (jq_jobs q)" "a \<notin> set (jq_pq q)" "a \<notin> set (jq_delayed q)" "jb_idle StateDelayed (jq_jobs q ! a)"
      using jq_okD(6,7) [OF ok i(1)] i(2) True by auto
    have "jq_ok (jq_jobs q) (jq_pq q) (jq_delayed q @ [a]) (ws[i := WLoop])"
      using a i True jq_ok_commit [OF ok i(1) _ a(4)] by simp
    then show ?thesis using True jq_ordered_cong [OF ord] by (simp add: jq_exec_commit_def jq_safe_def jq_prio_def)
  next
    case False
    have "jq_safe q (ws[i := WLoop])" using jq_ok_worker [OF ok] ord by (simp add: jq_safe_def)
    then show ?thesis using False by (auto simp: jq_exec_commit_def intro: jq_safe_cong)
  qed
qed

text \<open>
  Signals: a signal on the channel, a submitter about to send one, or a worker that has taken one. While there is
  room in the channel for every signal to come, each waiting job has one of them.
\<close>

fun token :: "worker \<Rightarrow> nat" where
  "token WSignalled = 1"
| "token WReady = 1"
| "token w = 0"

definition jq_room :: "jq_sys \<Rightarrow> bool" where
  "jq_room s \<longleftrightarrow> int (jq_signal (sys_q s) + sys_senders s + length (jq_delayed (sys_q s))) \<le> jc_QueueSize (jq_cfg (sys_q s))"

definition jq_awake :: "jq_sys \<Rightarrow> bool" where
  "jq_awake s \<longleftrightarrow> jq_stopped (sys_q s)
     \<or> card (jq_waiting (sys_q s)) \<le> jq_signal (sys_q s) + sys_senders s + sum_list (map token (sys_ws s))"

lemma tokens_update: "i < length ws \<Longrightarrow> sum_list (map token (ws[i := w])) + token (ws ! i) = sum_list (map token ws) + token w"
  by (induction ws arbitrary: i) (auto split: nat.split)

lemma waiting_cong: "jq_jobs q' = jq_jobs q \<Longrightarrow> jq_pq q' = jq_pq q \<Longrightarrow> jq_waiting q' = jq_waiting q"
  by (simp add: jq_waiting_def jq_job_def)

lemma jq_awake_mono:
  assumes "jq_awake s" "jq_stopped (sys_q s) \<Longrightarrow> jq_stopped (sys_q s')" "card (jq_waiting (sys_q s')) \<le> card (jq_waiting (sys_q s)) + n"
    and "jq_signal (sys_q s) + sys_senders s + sum_list (map token (sys_ws s)) + n \<le> jq_signal (sys_q s') + sys_senders s' + sum_list (map token (sys_ws s'))"
  shows "jq_awake s'"
  using assms by (auto simp: jq_awake_def)

lemma jq_simple_step:
  assumes "jq_safe (sys_q s) (sys_ws s)" "jq_jobs q' = jq_jobs (sys_q s)" "jq_pq q' = jq_pq (sys_q s)" "jq_delayed q' = jq_delayed (sys_q s)"
  shows "jq_safe q' (sys_ws s) \<and> jq_keep (sys_q s) q' \<and> card (jq_waiting q') = card (jq_waiting (sys_q s))"
  using jq_safe_cong [OF assms] waiting_cong [OF assms(2,3)] jq_keep_refl [OF assms(2)] by simp

lemma jq_worker_step:
  assumes "jq_safe (sys_q s) (sys_ws s)" "holds w = None" "worker_ok (jq_jobs (sys_q s)) w"
  shows "jq_safe (sys_q s) ((sys_ws s)[i := w])"
  using assms jq_ok_worker by (simp add: jq_safe_def)

lemma jq_step_ok:
  assumes step: "jq_step quote s s'" and safe: "jq_safe (sys_q s) (sys_ws s)"
  shows "jq_safe (sys_q s') (sys_ws s') \<and> jq_keep (sys_q s) (sys_q s') \<and> (jq_room s \<longrightarrow> jq_awake s \<longrightarrow> jq_awake s')"
  using step
proof cases
  case (submit j now sg q')
  note r = jq_submit_safe [OF safe submit(3-5)]
  let ?n = "length (jq_jobs (sys_q s))"
  have "card (jq_waiting q') \<le> card (if sg then insert ?n (jq_waiting (sys_q s)) else jq_waiting (sys_q s))"
    using r by (intro card_mono) (auto split: if_splits)
  also have "\<dots> \<le> card (jq_waiting (sys_q s)) + (if sg then 1 else 0)" by (simp add: card_insert_if)
  finally have "card (jq_waiting q') \<le> card (jq_waiting (sys_q s)) + (if sg then 1 else 0)" .
  then have "jq_awake s'" if "jq_awake s" using that r submit(1) by (intro jq_awake_mono [OF that, of _ "if sg then 1 else 0"]) simp_all
  then show ?thesis using r submit(1) by simp
next
  case send
  have "jq_awake s'" if "jq_room s" "jq_awake s"
  proof (rule jq_awake_mono [OF that(2), of _ 0])
    have "jq_signal (jq_send (sys_q s)) = Suc (jq_signal (sys_q s))" using that(1) send(2) by (simp add: jq_room_def jq_send_def)
    then show "jq_signal (sys_q s) + sys_senders s + sum_list (map token (sys_ws s)) + 0 \<le> jq_signal (sys_q s') + sys_senders s' + sum_list (map token (sys_ws s'))"
      using send by simp
  qed (use waiting_cong [of "jq_send (sys_q s)" "sys_q s"] send(1) in simp_all)
  then show ?thesis using jq_simple_step [OF safe, of "jq_send (sys_q s)"] send(1) by simp
next
  case (hook t a e)
  note r = jq_simple_step [OF safe, of "JobQueue_emit t a e (sys_q s)"]
  then have "jq_awake s'" if "jq_awake s" using hook by (intro jq_awake_mono [OF that, of _ 0]) simp_all
  then show ?thesis using hook r by simp
next
  case (cancel k)
  note r = jq_cancel_safe [OF safe, of k]
  have "card (jq_waiting (snd (JobQueue_Cancel k (sys_q s)))) \<le> card (jq_waiting (sys_q s))" using r by (intro card_mono) simp_all
  moreover have "jq_signal (snd (JobQueue_Cancel k (sys_q s))) = jq_signal (sys_q s)" "jq_stopped (snd (JobQueue_Cancel k (sys_q s))) = jq_stopped (sys_q s)"
    by (simp_all add: JobQueue_Cancel_def split: option.split)
  ultimately have "jq_awake s'" if "jq_awake s" using cancel by (intro jq_awake_mono [OF that, of _ 0]) simp_all
  then show ?thesis using cancel r by simp
next
  case pause
  have "jq_awake s'" if "jq_awake s" using pause waiting_cong [of "JobQueue_Pause (sys_q s)" "sys_q s"]
    by (intro jq_awake_mono [OF that, of _ 0]) (simp_all add: JobQueue_Pause_def)
  then show ?thesis using jq_simple_step [OF safe, of "JobQueue_Pause (sys_q s)"] pause by (simp add: JobQueue_Pause_def)
next
  case resume
  have "jq_awake s'" if "jq_awake s" using resume waiting_cong [of "JobQueue_Resume (sys_q s)" "sys_q s"]
    by (intro jq_awake_mono [OF that, of _ 0]) (simp_all add: JobQueue_Resume_def)
  then show ?thesis using jq_simple_step [OF safe, of "JobQueue_Resume (sys_q s)"] resume by (simp add: JobQueue_Resume_def)
next
  case stop
  have "jq_awake s'" using stop by (simp add: jq_awake_def JobQueue_Stop_def JobQueue_Resume_def)
  then show ?thesis using jq_simple_step [OF safe, of "JobQueue_Stop (sys_q s)"] stop by (simp add: JobQueue_Stop_def JobQueue_Resume_def)
next
  case (tick now)
  have "(sys_q s)\<lparr>jq_delayed := [] @ jq_delayed (sys_q s)\<rparr> = sys_q s" by simp
  note r = jq_tick_safe [where q = "sys_q s" and rem = "[]" and as = "jq_delayed (sys_q s)" and ws = "sys_ws s" and now = now, unfolded this, OF safe, folded JobQueue_delayScheduler_tick_def]
  then have "jq_awake s'" if "jq_room s" "jq_awake s"
    using that tick by (auto simp: jq_room_def jq_awake_def)
  then show ?thesis using tick r by simp
next
  case (loop i)
  have "jq_awake s'" if "jq_awake s" using loop tokens_update [of i "sys_ws s" WSelect] by (intro jq_awake_mono [OF that, of _ 0]) simp_all
  then show ?thesis using loop jq_worker_step [OF safe, of WSelect i] by simp
next
  case (take i)
  have "jq_awake s'" if "jq_awake s" using take tokens_update [of i "sys_ws s" WSignalled] waiting_cong [of "sys_q s'" "sys_q s"]
    by (intro jq_awake_mono [OF that, of _ 0]) simp_all
  moreover have "jq_safe (sys_q s') (sys_ws s')" using jq_safe_cong [OF jq_worker_step [OF safe, of WSignalled i]] take by simp
  ultimately show ?thesis using take by simp
next
  case (ready i)
  have "jq_awake s'" if "jq_awake s" using ready tokens_update [of i "sys_ws s" WReady] by (intro jq_awake_mono [OF that, of _ 0]) simp_all
  then show ?thesis using ready jq_worker_step [OF safe, of WReady i] by simp
next
  case (exits i)
  have "jq_awake s'" using exits by (simp add: jq_awake_def)
  then show ?thesis using exits jq_worker_step [OF safe, of WExit i] by simp
next
  case (drained i q')
  have d: "jq_waiting (sys_q s) = {}" "q' = (sys_q s)\<lparr>jq_pq := []\<rparr>"
    using JobQueue_dequeue_ok [of "sys_q s"] safe drained(4) by (simp_all add: jq_safe_def jq_dequeued_def)
  have "jq_waiting q' = {}" by (simp add: d(2) jq_waiting_def)
  then have "jq_awake s'" using drained(1) by (simp add: jq_awake_def)
  moreover have "jq_ok (jq_jobs (sys_q s)) [] (jq_delayed (sys_q s)) (sys_ws s)" using safe jq_ok_drop jq_okD(2) unfolding jq_safe_def by fastforce
  then have "jq_ok (jq_jobs q') (jq_pq q') (jq_delayed q') ((sys_ws s)[i := WLoop])" by (simp add: d(2) jq_ok_worker)
  moreover have "jq_ordered q'" by (simp add: d(2) jq_ordered_def keyed.heap_inv_def jq_heap_def pq_heap_def)
  ultimately show ?thesis using drained(1) by (simp add: jq_safe_def d(2))
next
  case (start i a q' now)
  note r = jq_start_safe [OF safe start(2-4), of now]
  have "jq_awake s'" if "jq_awake s" using r start(1-3) tokens_update [of i "sys_ws s" "WRun a"] that by (auto simp: jq_awake_def)
  then show ?thesis using r start(1) by simp
next
  case (progress i a p)
  let ?q = "progressReporter_report a p (sys_q s)"
  have ok: "jq_ok (jq_jobs (sys_q s)) (jq_pq (sys_q s)) (jq_delayed (sys_q s)) (sys_ws s)" and ord: "jq_ordered (sys_q s)" using safe by (simp_all add: jq_safe_def)
  have a: "a < length (jq_jobs (sys_q s))" "jb_State (jq_jobs (sys_q s) ! a) = StateActive" "jb_sane (jq_jobs (sys_q s) ! a)"
    using jq_okD(6,7) [OF ok progress(2)] progress(3) jq_okD(9) [OF ok] by auto
  have "jq_ok (jq_jobs ?q) (jq_pq ?q) (jq_delayed ?q) (sys_ws s)"
    using a jq_ok_inplace [OF ok, of "(jq_jobs (sys_q s) ! a)\<lparr>jb_Progress := progress_clamp p\<rparr>" a]
    by (simp add: progressReporter_report_def jb_sane_def jb_cap_def jb_idle_def jb_final_def)
  moreover have "jq_ordered ?q"
    using jq_ordered_cong [OF jq_ordered_upd [OF ord, of "\<lambda>j. j\<lparr>jb_Progress := progress_clamp p\<rparr>" a]] by (simp add: progressReporter_report_def jq_prio_def)
  moreover have "jq_keep (sys_q s) ?q"
    using a by (intro jq_keep_upd [of _ a "\<lambda>j. j\<lparr>jb_Progress := progress_clamp p\<rparr>"]) (simp_all add: jq_job_def jb_final_def progressReporter_report_def)
  moreover have "jq_waiting ?q = jq_waiting (sys_q s)"
    using a by (auto simp: jq_waiting_def jq_job_def progressReporter_report_def nth_list_update split: if_splits)
  then have "jq_awake s'" if "jq_awake s" using progress by (intro jq_awake_mono [OF that, of _ 0]) (simp_all add: progressReporter_report_def)
  ultimately show ?thesis using progress by (simp add: jq_safe_def)
next
  case (finish i a now r retry q')
  note r = jq_finish_safe [OF safe finish(2-4)]
  have "card (jq_waiting q') \<le> card (jq_waiting (sys_q s))" using r by (intro card_mono) simp_all
  moreover have "sum_list (map token ((sys_ws s)[i := WCommit a retry])) = sum_list (map token (sys_ws s))"
    using tokens_update [OF finish(2), of "WCommit a retry"] finish(3) by simp
  ultimately have "jq_awake s'" if "jq_awake s" using r finish(1) by (intro jq_awake_mono [OF that, of _ 0]) simp_all
  then show ?thesis using r finish(1) by simp
next
  case (commit i a retry)
  have "jq_waiting (jq_exec_commit a retry (sys_q s)) = jq_waiting (sys_q s)" by (rule waiting_cong) (simp_all add: jq_exec_commit_def)
  moreover have "sum_list (map token ((sys_ws s)[i := WLoop])) = sum_list (map token (sys_ws s))"
    using tokens_update [OF commit(2), of WLoop] commit(3) by simp
  ultimately have "jq_awake s'" if "jq_awake s" using commit(1) by (intro jq_awake_mono [OF that, of _ 0]) (simp_all add: jq_exec_commit_def)
  then show ?thesis using jq_commit_safe [OF safe commit(2,3)] commit(1) by (simp add: jq_exec_commit_def)
qed

lemma jq_init_safe:
  assumes "JobQueue_New opts = Some q"
  shows "jq_safe (sys_q (jq_init q)) (sys_ws (jq_init q)) \<and> jq_awake (jq_init q)"
proof -
  have "jq_jobs q = []" "jq_pq q = []" "jq_delayed q = []" using assms by (auto simp: JobQueue_New_def Let_def split: if_splits)
  then show ?thesis by (simp add: jq_init_def jq_safe_def jq_ok_def jq_ordered_def keyed.heap_inv_def jq_heap_def pq_heap_def jq_awake_def jq_waiting_def)
qed

lemma jq_steps_ok:
  assumes "(jq_step quote)\<^sup>*\<^sup>* s s'" "jq_safe (sys_q s) (sys_ws s)"
  shows "jq_safe (sys_q s') (sys_ws s') \<and> jq_keep (sys_q s) (sys_q s')"
  using assms
proof (induction rule: rtranclp_induct)
  case (step s' s'')
  then show ?case using jq_step_ok [OF step(2)] jq_keep_trans by blast
qed simp

text \<open>Signals are dropped when the channel is full; the jobs stay without a signal.\<close>

lemma jq_stall:
  "let q = the (JobQueue_New [WithQueueSize 1]);
       j = \<lparr>jb_ID = ''a'', jb_Name = [], jb_Priority = 0, jb_Payload = 0, jb_Fn = 0, jb_MaxRetries = 0, jb_RetryDelay = 0, jb_Delay = 0, jb_Timeout = 0,
             jb_State = StateWaiting, jb_Attempts = 0, jb_Progress = Num 0, jb_Err = None, jb_CreatedAt = 0, jb_StartedAt = 0, jb_CompletedAt = 0, jb_readyAt = 0\<rparr>;
       q = snd (JobQueue_Submit 0 1 (snd (JobQueue_Submit 0 0 (q\<lparr>jq_jobs := [j, j\<lparr>jb_ID := ''b''\<rparr>]\<rparr>))));
       q = snd (JobQueue_dequeue (q\<lparr>jq_signal := jq_signal q - 1\<rparr>))
   in jq_signal q = 0 \<and> 1 \<in> jq_waiting q"
  by (simp add: JobQueue_New_def JobQueue_Submit_def jq_submit_locked_def jq_enqueue_locked_def jq_upd_def jq_job_def jq_index_def jq_push_def
      jq_heap_def Queue_Push_def pq_up.simps jq_prio_def jq_send_def JobQueue_emit_def JobQueue_dequeue.simps Queue_Pop_def pq_swap_def
      pq_down.simps jq_waiting_def)

section \<open>Properties\<close>



text \<open>A worker that dequeues in any reachable state gets a waiting job of the smallest priority number, never a
  cancelled one, and gets nothing only when no job is waiting.\<close>

theorem JobQueue_dequeue_urgent:
  assumes "JobQueue_New opts = Some q" "(jq_step quote)\<^sup>*\<^sup>* (jq_init q) s"
  shows "case JobQueue_dequeue (sys_q s) of
     (None, q') \<Rightarrow> (\<forall>a\<in>set (jq_pq (sys_q s)). jb_State (jq_job (sys_q s) a) \<noteq> StateWaiting)
   | (Some a, q') \<Rightarrow> a \<in> set (jq_pq (sys_q s)) \<and> jb_State (jq_job (sys_q s) a) = StateWaiting \<and> jb_State (jq_job q' a) = StateActive
       \<and> (\<forall>b\<in>set (jq_pq (sys_q s)). jb_State (jq_job (sys_q s) b) = StateWaiting \<longrightarrow> jb_Priority (jq_job (sys_q s) a) \<le> jb_Priority (jq_job (sys_q s) b))"
proof -
  have s: "jq_safe (sys_q s) (sys_ws s)" using jq_steps_ok [OF assms(2)] jq_init_safe [OF assms(1)] by blast
  then have "jq_dequeued (sys_q s) (JobQueue_dequeue (sys_q s))" by (intro JobQueue_dequeue_ok) (simp add: jq_safe_def)
  moreover have "a < length (jq_jobs (sys_q s))" if "a \<in> set (jq_pq (sys_q s))" for a
    using s jq_okD(4) that unfolding jq_safe_def by blast
  ultimately show ?thesis
    by (auto simp: jq_dequeued_def jq_waiting_def jq_prio_def jq_job_def split: prod.splits option.splits)
qed

theorem JobQueue_dequeue_urgent_witness:
  "fst (JobQueue_dequeue (the (JobQueue_New []))) = None"
proof -
  obtain q where q: "JobQueue_New [] = Some q" by (simp add: JobQueue_New_def)
  then have "jq_pq q = []" by (auto simp: JobQueue_New_def)
  with JobQueue_dequeue_urgent [OF q rtranclp.rtrancl_refl] q show ?thesis
    by (cases "fst (JobQueue_dequeue q)") (auto simp: jq_init_def split: prod.splits option.splits)
qed

text \<open>C22. No wake-up is lost while the signal channel has room: along every run in which the buffered signals, the
  submitters about to signal and the delayed jobs together fit into the channel, a waiting job of a queue that
  is not stopped always has a signal in the channel, a submitter about to send one, or a worker that took one
  and is about to dequeue.\<close>

theorem JobQueue_no_lost_wakeup:
  assumes "JobQueue_New opts = Some q" "(\<lambda>s s'. jq_step quote s s' \<and> jq_room s)\<^sup>*\<^sup>* (jq_init q) s"
    and "\<not> jq_stopped (sys_q s)" "a \<in> set (jq_pq (sys_q s))" "jb_State (jq_job (sys_q s) a) = StateWaiting"
  shows "0 < jq_signal (sys_q s) \<or> 0 < sys_senders s \<or> WSignalled \<in> set (sys_ws s) \<or> WReady \<in> set (sys_ws s)"
proof -
  define R where "R = (\<lambda>s s'. jq_step quote s s' \<and> jq_room s)"
  have "R\<^sup>*\<^sup>* (jq_init q) s" using assms(2) by (simp add: R_def)
  then have "jq_safe (sys_q s) (sys_ws s) \<and> jq_awake s"
  proof (induction rule: rtranclp_induct)
    case base
    then show ?case by (rule jq_init_safe [OF assms(1)])
  next
    case (step y z)
    then show ?case using jq_step_ok [of quote y z] by (simp add: R_def)
  qed
  moreover have "a \<in> jq_waiting (sys_q s)" using assms(4,5) by (simp add: jq_waiting_def)
  then have "card (jq_waiting (sys_q s)) \<noteq> 0" by auto
  ultimately have pos: "0 < jq_signal (sys_q s) + sys_senders s + sum_list (map token (sys_ws s))" using assms(3) by (auto simp: jq_awake_def)
  have "sum_list (map token (sys_ws s)) = 0" if "WSignalled \<notin> set (sys_ws s)" "WReady \<notin> set (sys_ws s)"
  proof -
    have "token w = 0" if "w \<in> set (sys_ws s)" for w
      using that \<open>WSignalled \<notin> set (sys_ws s)\<close> \<open>WReady \<notin> set (sys_ws s)\<close> by (cases w rule: worker.exhaust) auto
    then show ?thesis by (simp add: sum_list_eq_0_iff)
  qed
  then show ?thesis using pos by linarith
qed

theorem JobQueue_no_lost_wakeup_witness:
  "let q = the (JobQueue_New []);
       j = \<lparr>jb_ID = ''a'', jb_Name = [], jb_Priority = 0, jb_Payload = 0, jb_Fn = 0, jb_MaxRetries = 0, jb_RetryDelay = 0, jb_Delay = 0, jb_Timeout = 0,
             jb_State = StateWaiting, jb_Attempts = 0, jb_Progress = Num 0, jb_Err = None, jb_CreatedAt = 0, jb_StartedAt = 0, jb_CompletedAt = 0, jb_readyAt = 0\<rparr>;
       q' = snd (jq_submit_locked 0 0 (q\<lparr>jq_jobs := [j]\<rparr>));
       s = (jq_init q)\<lparr>sys_q := q', sys_senders := 1\<rparr>
   in 0 \<in> jq_waiting q' \<and> (0 < jq_signal (sys_q s) \<or> 0 < sys_senders s \<or> WSignalled \<in> set (sys_ws s) \<or> WReady \<in> set (sys_ws s))"
proof -
  define q where "q = the (JobQueue_New [])"
  have New: "JobQueue_New [] = Some q" by (simp add: q_def JobQueue_New_def)
  have q: "q = \<lparr>jq_cfg = \<lparr>jc_Workers = 4, jc_QueueSize = 1024, jc_Hook = False, jc_OnPanic = False\<rparr>, jq_jobs = [], jq_pq = [], jq_delayed = [],
      jq_byID = Map.empty, jq_signal = 0, jq_paused = False, jq_stopped = False, jq_started = False, jq_events = []\<rparr>"
    by (simp add: q_def JobQueue_New_def)
  define j where "j = \<lparr>jb_ID = ''a'', jb_Name = [], jb_Priority = 0, jb_Payload = 0, jb_Fn = 0, jb_MaxRetries = 0, jb_RetryDelay = 0, jb_Delay = 0, jb_Timeout = 0,
             jb_State = StateWaiting, jb_Attempts = 0, jb_Progress = Num 0, jb_Err = None, jb_CreatedAt = 0, jb_StartedAt = 0, jb_CompletedAt = 0, jb_readyAt = 0\<rparr>"
  define q' where "q' = snd (jq_submit_locked 0 0 (q\<lparr>jq_jobs := [j]\<rparr>))"
  have sub: "jq_submit_locked 0 0 (q\<lparr>jq_jobs := [j]\<rparr>) = (True, q')"
    by (simp add: q'_def jq_submit_locked_def Let_def j_def jq_job_def)
  have w: "0 \<in> jq_waiting q'" "\<not> jq_stopped q'"
    by (simp_all add: q'_def q jq_submit_locked_def jq_enqueue_locked_def jq_upd_def j_def jq_job_def jq_push_def jq_heap_def Queue_Push_def pq_up.simps jq_index_def jq_waiting_def)
  define s where "s = (jq_init q)\<lparr>sys_q := q', sys_senders := 1\<rparr>"
  have "jq_step id (jq_init q) s"
    using jq_step.submit [where s = "jq_init q" and j = j and now = 0 and sg = True and q' = q' and quote = id] sub by (simp add: s_def jq_init_def q j_def)
  moreover have "jq_room (jq_init q)" by (simp add: jq_room_def jq_init_def q)
  ultimately have "(\<lambda>s s'. jq_step id s s' \<and> jq_room s)\<^sup>*\<^sup>* (jq_init q) s" by (intro r_into_rtranclp) simp
  from JobQueue_no_lost_wakeup [OF New this, of 0] w
  show ?thesis unfolding Let_def q_def [symmetric] j_def [symmetric] q'_def [symmetric] s_def [symmetric] by (simp add: s_def jq_waiting_def)
qed

end
