(* ===== verification/Bitmap.thy ===== *)
theory Bitmap
  imports Prelude
begin

unbundle bit_operations_syntax

text \<open>
  \<open>pkg/foundation/bitmap\<close>: a growing bitmap in 64-bit words. The model keeps the words; the second half shows
  that the operations are those of finite sets of numbers. Indices are Go's \<open>int\<close>, so a negative one is
  a possible argument. The functions of \<open>math/bits\<close> are modelled as documented.
\<close>

section \<open>The bitmap\<close>

record Bitmap =
  bm_words :: "64 word list"

text \<open>\<open>make\<close> panics for a negative length, which \<open>n + 63\<close> has when it overflows.\<close>

definition Bitmap_New :: "int \<Rightarrow> Bitmap option" where
  "Bitmap_New n =
     (let n = (if n < 0 then 0 else n); l = go_div (wrap64 (n + 63)) 64
      in if l < 0 then None else Some \<lparr>bm_words = replicate (nat l) 0\<rparr>)"

definition Bitmap_grow :: "int \<Rightarrow> Bitmap \<Rightarrow> Bitmap" where
  "Bitmap_grow i b =
     (let need = nat (i div 64) + 1
      in if length (bm_words b) < need then b\<lparr>bm_words := bm_words b @ replicate (need - length (bm_words b)) 0\<rparr> else b)"

definition bm_one :: "int \<Rightarrow> 64 word" where
  "bm_one i = push_bit (nat (i mod 64)) 1"

definition bm_modify :: "int \<Rightarrow> (64 word \<Rightarrow> 64 word) \<Rightarrow> Bitmap \<Rightarrow> Bitmap" where
  "bm_modify i f b = b\<lparr>bm_words := (bm_words b)[nat (i div 64) := f (bm_words b ! nat (i div 64))]\<rparr>"

definition Bitmap_Set :: "int \<Rightarrow> Bitmap \<Rightarrow> Bitmap" where
  "Bitmap_Set i b = (if i < 0 then b else bm_modify i (\<lambda>w. w OR bm_one i) (Bitmap_grow i b))"

definition Bitmap_Clear :: "int \<Rightarrow> Bitmap \<Rightarrow> Bitmap" where
  "Bitmap_Clear i b =
     (if i < 0 \<or> int (length (bm_words b)) \<le> i div 64 then b else bm_modify i (\<lambda>w. w AND NOT (bm_one i)) b)"

definition Bitmap_Test :: "int \<Rightarrow> Bitmap \<Rightarrow> bool" where
  "Bitmap_Test i b =
     (if i < 0 \<or> int (length (bm_words b)) \<le> i div 64 then False
      else bm_words b ! nat (i div 64) AND bm_one i \<noteq> 0)"

definition Bitmap_Flip :: "int \<Rightarrow> Bitmap \<Rightarrow> bool \<times> Bitmap" where
  "Bitmap_Flip i b =
     (if i < 0 then (False, b)
      else let b' = bm_modify i (\<lambda>w. w XOR bm_one i) (Bitmap_grow i b) in (Bitmap_Test i b', b'))"

definition OnesCount64 :: "64 word \<Rightarrow> nat" where
  "OnesCount64 w = length (filter (bit w) [0..<64])"

definition TrailingZeros64 :: "64 word \<Rightarrow> nat" where
  "TrailingZeros64 w = length (takeWhile (\<lambda>n. \<not> bit w n) [0..<64])"

definition Bitmap_Count :: "Bitmap \<Rightarrow> nat" where
  "Bitmap_Count b = foldl (\<lambda>n w. n + OnesCount64 w) 0 (bm_words b)"

definition Bitmap_And :: "Bitmap \<Rightarrow> Bitmap \<Rightarrow> Bitmap" where
  "Bitmap_And other b =
     b\<lparr>bm_words := map (\<lambda>i. if i < length (bm_words other) then bm_words b ! i AND bm_words other ! i else 0) [0..<length (bm_words b)]\<rparr>"

definition Bitmap_Or :: "Bitmap \<Rightarrow> Bitmap \<Rightarrow> Bitmap" where
  "Bitmap_Or other b =
     (let b' = (if length (bm_words b) < length (bm_words other) then Bitmap_grow (int (length (bm_words other)) * 64 - 1) b else b)
      in b'\<lparr>bm_words := map (\<lambda>i. if i < length (bm_words other) then bm_words b' ! i OR bm_words other ! i else bm_words b' ! i)
                          [0..<length (bm_words b')]\<rparr>)"

definition Bitmap_AndNot :: "Bitmap \<Rightarrow> Bitmap \<Rightarrow> Bitmap" where
  "Bitmap_AndNot other b =
     b\<lparr>bm_words := map (\<lambda>i. if i < length (bm_words other) then bm_words b ! i AND NOT (bm_words other ! i) else bm_words b ! i)
                       [0..<length (bm_words b)]\<rparr>"

section \<open>Enumerating the bits of a word\<close>

text \<open>\<open>w & (w - 1)\<close> clears the lowest bit that is set.\<close>

lemma TrailingZeros64_lowest:
  assumes "w \<noteq> 0"
  shows "TrailingZeros64 w < 64" "bit w (TrailingZeros64 w)" "n < TrailingZeros64 w \<Longrightarrow> \<not> bit w n"
proof -
  have "\<exists>n. bit w n" using assms by (metis bit_0_eq bit_eq_iff bot_apply bot_bool_def)
  then obtain m where n: "bit w m" "m < 64" using bit_imp_le_length [of w] by fastforce
  have lt: "length (takeWhile (\<lambda>n. \<not> bit w n) [0..<64]) < length [0..<64]"
  proof (rule ccontr)
    assume "\<not> ?thesis"
    then have "takeWhile (\<lambda>n. \<not> bit w n) [0..<64] = [0..<64]"
      by (metis append_Nil2 length_drop length_greater_0_conv nat_neq_iff takeWhile_eq_take take_all_iff length_takeWhile_le le_antisym not_less)
    then have "\<not> bit w m" using n(2) by (metis atLeastLessThan_iff le0 set_takeWhileD set_upt)
    then show False using n(1) by simp
  qed
  then show "TrailingZeros64 w < 64" by (simp add: TrailingZeros64_def)
  show "bit w (TrailingZeros64 w)" using nth_length_takeWhile [OF lt] lt by (simp add: TrailingZeros64_def)
  assume "n < TrailingZeros64 w"
  then show "\<not> bit w n"
    using lt takeWhile_nth [of n "\<lambda>n. \<not> bit w n" "[0..<64]"] set_takeWhileD [OF nth_mem, of n "\<lambda>n. \<not> bit w n" "[0..<64]"]
    by (simp add: TrailingZeros64_def)
qed

lemma clear_lowest_bit:
  fixes w :: "64 word"
  assumes "w \<noteq> 0"
  shows "bit (w AND (w - 1)) n \<longleftrightarrow> bit w n \<and> n \<noteq> TrailingZeros64 w"
proof -
  let ?k = "TrailingZeros64 w"
  note k = TrailingZeros64_lowest [OF assms]
  define u where "u = w AND NOT (push_bit ?k 1)"
  have ubit: "bit u n \<longleftrightarrow> bit w n \<and> n \<noteq> ?k" for n
    using bit_imp_le_length [of w n] by (auto simp: u_def bit_and_iff bit_not_iff bit_exp_iff)
  have "u AND push_bit ?k 1 = 0" by (rule bit_eqI) (auto simp: bit_and_iff ubit bit_exp_iff)
  then have sum: "u + push_bit ?k 1 = u OR push_bit ?k 1" by (rule disjunctive_add_eq_or)
  have "u OR push_bit ?k 1 = w"
    by (rule bit_eqI) (use k in \<open>auto simp: bit_or_iff ubit bit_exp_iff\<close>)
  then have "w - 1 = u + (push_bit ?k 1 - 1)" using sum by (simp add: algebra_simps)
  also have "push_bit ?k 1 - 1 = (mask ?k :: 64 word)" by (simp add: mask_eq_exp_minus_1 push_bit_eq_mult)
  also have "u AND mask ?k = 0" by (rule bit_eqI) (use k(3) in \<open>auto simp: bit_and_iff ubit bit_mask_iff\<close>)
  then have "u + mask ?k = u OR mask ?k" by (rule disjunctive_add_eq_or)
  finally show ?thesis using k by (auto simp: bit_and_iff bit_or_iff ubit bit_mask_iff)
qed

lemma OnesCount64_card: "OnesCount64 w = card {n. bit w n}"
proof -
  have "{n. bit w n} = set (filter (bit w) [0..<64])" using bit_imp_le_length [of w] by auto
  then show ?thesis by (simp only: OnesCount64_def) (metis distinct_card distinct_filter distinct_upt)
qed

lemma finite_bits [simp]: "finite {n. bit (w :: 64 word) n}"
  by (rule finite_subset [of _ "{..<64}"]) (use bit_imp_le_length [of w] in auto)

lemma OnesCount64_less: "w \<noteq> 0 \<Longrightarrow> OnesCount64 (w AND (w - 1)) < OnesCount64 w"
  unfolding OnesCount64_card by (rule psubset_card_mono) (use TrailingZeros64_lowest(2) [of w] in \<open>auto simp: clear_lowest_bit\<close>)

function bm_bits :: "nat \<Rightarrow> 64 word \<Rightarrow> int list" where
  "bm_bits wi w = (if w = 0 then [] else int (wi * 64 + TrailingZeros64 w) # bm_bits wi (w AND (w - 1)))"
  by pat_completeness auto
termination by (relation "measure (\<lambda>(wi, w). OnesCount64 w)") (simp_all add: OnesCount64_less)

declare bm_bits.simps [simp del]

definition Bitmap_Slice :: "Bitmap \<Rightarrow> int list" where
  "Bitmap_Slice b = concat (map (\<lambda>wi. bm_bits wi (bm_words b ! wi)) [0..<length (bm_words b)])"

definition Bitmap_Clone :: "Bitmap \<Rightarrow> Bitmap" where
  "Bitmap_Clone b = \<lparr>bm_words = bm_words b\<rparr>"

definition Bitmap_Reset :: "Bitmap \<Rightarrow> Bitmap" where
  "Bitmap_Reset b = b\<lparr>bm_words := map (\<lambda>_. 0) (bm_words b)\<rparr>"

text \<open>The loop runs from the last day back.\<close>

fun ConsecutiveFromEnd_loop :: "int \<Rightarrow> Bitmap list \<Rightarrow> nat" where
  "ConsecutiveFromEnd_loop uid [] = 0"
| "ConsecutiveFromEnd_loop uid (d # ds) = (if Bitmap_Test uid d then Suc (ConsecutiveFromEnd_loop uid ds) else 0)"

definition ConsecutiveFromEnd :: "Bitmap list \<Rightarrow> int \<Rightarrow> nat" where
  "ConsecutiveFromEnd days uid = ConsecutiveFromEnd_loop uid (rev days)"

section \<open>Finite sets of numbers\<close>

definition bm_set :: "Bitmap \<Rightarrow> int set" where
  "bm_set b = {i. 0 \<le> i \<and> nat (i div 64) < length (bm_words b) \<and> bit (bm_words b ! nat (i div 64)) (nat (i mod 64))}"

lemma bit_bound [simp]: "bit (w :: 64 word) n \<and> n < 64 \<longleftrightarrow> bit w n"
  using bit_imp_le_length [of w n] by auto

lemma bit_bm_one: "bit (bm_one i) n \<longleftrightarrow> n = nat (i mod 64)"
proof -
  have "nat (i mod 64) < 64" by (simp add: nat_less_iff)
  then show ?thesis by (auto simp: bm_one_def bit_exp_iff)
qed

lemma and_bm_one: "w AND bm_one i \<noteq> 0 \<longleftrightarrow> bit w (nat (i mod 64))"
proof -
  have "w AND bm_one i = 0 \<longleftrightarrow> (\<forall>n. \<not> bit (w AND bm_one i) n)" by (metis bit_0_eq bit_eqI bot_apply bot_bool_def)
  then show ?thesis by (auto simp: bit_and_iff bit_bm_one)
qed

lemma index_split: "i = j \<longleftrightarrow> i div 64 = j div 64 \<and> i mod 64 = (j :: int) mod 64"
  by (metis div_mult_mod_eq)

lemma index_split_nat:
  assumes "0 \<le> i" "0 \<le> (j :: int)"
  shows "i = j \<longleftrightarrow> nat (i div 64) = nat (j div 64) \<and> nat (i mod 64) = nat (j mod 64)"
  using assms index_split [of i j] by (auto simp: pos_imp_zdiv_nonneg_iff)

lemma grow_words:
  "bm_words (Bitmap_grow i b) = bm_words b @ replicate (nat (i div 64) + 1 - length (bm_words b)) 0"
  by (simp add: Bitmap_grow_def Let_def)

lemma grow_len: "nat (i div 64) < length (bm_words (Bitmap_grow i b))"
  unfolding grow_words by simp

lemma grow_set [simp]: "bm_set (Bitmap_grow i b) = bm_set b"
proof -
  have "m < length xs + k \<and> bit ((xs @ replicate k 0) ! m) n \<longleftrightarrow> m < length xs \<and> bit (xs ! m) n" for m n k and xs :: "64 word list"
    by (cases "m < length xs") (auto simp: nth_append)
  then show ?thesis by (simp add: bm_set_def grow_words)
qed

lemma modify_set:
  assumes "0 \<le> i" "nat (i div 64) < length (bm_words b)" "\<And>w n. n \<noteq> nat (i mod 64) \<Longrightarrow> bit (f w) n = bit w n"
  shows "bm_set (bm_modify i f b) = (if bit (f (bm_words b ! nat (i div 64))) (nat (i mod 64)) then insert i (bm_set b) else bm_set b - {i})"
proof -
  have at: "j \<in> bm_set (bm_modify i f b) \<longleftrightarrow> (if j = i then bit (f (bm_words b ! nat (i div 64))) (nat (i mod 64)) else j \<in> bm_set b)" for j
  proof (cases "0 \<le> j")
    case True
    have "nat (j mod 64) \<noteq> nat (i mod 64)" if "j \<noteq> i" "nat (j div 64) = nat (i div 64)"
      using index_split_nat [OF True assms(1)] that by simp
    then show ?thesis using assms(1,2) True assms(3) [of "nat (j mod 64)"] by (auto simp: bm_set_def bm_modify_def nth_list_update)
  next
    case False
    then show ?thesis using assms(1) by (auto simp: bm_set_def)
  qed
  show ?thesis by (rule set_eqI) (auto simp: at)
qed

lemma Bitmap_Test_set: "Bitmap_Test i b \<longleftrightarrow> i \<in> bm_set b"
  by (auto simp: Bitmap_Test_def bm_set_def and_bm_one nat_less_iff pos_imp_zdiv_nonneg_iff not_le)

lemma Bitmap_Set_set: "bm_set (Bitmap_Set i b) = (if i < 0 then bm_set b else insert i (bm_set b))"
  using modify_set [of i "Bitmap_grow i b" "\<lambda>w. w OR bm_one i"]
  by (simp add: Bitmap_Set_def bit_or_iff bit_bm_one grow_words)

lemma Bitmap_Clear_set: "bm_set (Bitmap_Clear i b) = bm_set b - {i}"
proof (cases "i < 0 \<or> int (length (bm_words b)) \<le> i div 64")
  case True
  then have "i \<notin> bm_set b" by (auto simp: bm_set_def nat_less_iff)
  then show ?thesis using True by (simp add: Bitmap_Clear_def)
next
  case False
  then have "nat (i div 64) < length (bm_words b)" by (simp add: nat_less_iff pos_imp_zdiv_nonneg_iff)
  then show ?thesis using False modify_set [of i b "\<lambda>w. w AND NOT (bm_one i)"]
    by (auto simp: Bitmap_Clear_def bit_and_iff bit_not_iff bit_bm_one)
qed

lemma Bitmap_Flip_set:
  assumes "0 \<le> i"
  shows "Bitmap_Flip i b = (r, b') \<Longrightarrow> r = (i \<notin> bm_set b) \<and> bm_set b' = (if i \<in> bm_set b then bm_set b - {i} else insert i (bm_set b))"
proof -
  assume f: "Bitmap_Flip i b = (r, b')"
  have in_b: "i \<in> bm_set b \<longleftrightarrow> bit (bm_words (Bitmap_grow i b) ! nat (i div 64)) (nat (i mod 64))"
  proof -
    have "i \<in> bm_set (Bitmap_grow i b) \<longleftrightarrow> bit (bm_words (Bitmap_grow i b) ! nat (i div 64)) (nat (i mod 64))"
      using assms grow_len [of i b] unfolding bm_set_def by simp
    then show ?thesis by simp
  qed
  have "bm_set b' = (if i \<in> bm_set b then bm_set b - {i} else insert i (bm_set b))"
  proof -
    have b': "b' = bm_modify i (\<lambda>w. w XOR bm_one i) (Bitmap_grow i b)" using f assms by (simp add: Bitmap_Flip_def Let_def)
    from modify_set [OF assms grow_len, of "\<lambda>w. w XOR bm_one i"] show ?thesis
      unfolding b' grow_set in_b by (simp add: bit_xor_iff bit_bm_one)
  qed
  moreover have "r = Bitmap_Test i b'" using f assms by (auto simp: Bitmap_Flip_def Let_def)
  ultimately show ?thesis by (auto simp: Bitmap_Test_set)
qed

lemma Bitmap_And_set: "bm_set (Bitmap_And other b) = bm_set b \<inter> bm_set other"
  by (auto simp: Bitmap_And_def bm_set_def bit_and_iff split: if_splits)

lemma Bitmap_AndNot_set: "bm_set (Bitmap_AndNot other b) = bm_set b - bm_set other"
  by (auto simp: Bitmap_AndNot_def bm_set_def bit_and_iff bit_not_iff split: if_splits dest: bit_imp_le_length)

lemma Bitmap_Or_set: "bm_set (Bitmap_Or other b) = bm_set b \<union> bm_set other"
proof -
  define b' where "b' = (if length (bm_words b) < length (bm_words other) then Bitmap_grow (int (length (bm_words other)) * 64 - 1) b else b)"
  have "nat ((int (length (bm_words other)) * 64 - 1) div 64) = length (bm_words other) - 1"
    by (simp add: nat_diff_distrib)
  then have "length (bm_words other) \<le> length (bm_words b')" by (auto simp: b'_def grow_words)
  then have "bm_set (Bitmap_Or other b) = bm_set b' \<union> bm_set other"
    by (auto simp: Bitmap_Or_def b'_def [symmetric] Let_def bm_set_def bit_or_iff split: if_splits)
  then show ?thesis by (simp add: b'_def)
qed

lemma bm_bits_ok: "sorted_wrt (<) (bm_bits wi w) \<and> set (bm_bits wi w) = (\<lambda>n. int (wi * 64 + n)) ` {n. bit w n}"
proof (induction wi w rule: bm_bits.induct)
  case (1 wi w)
  show ?case
  proof (cases "w = 0")
    case True
    then show ?thesis by (simp add: bm_bits.simps)
  next
    case False
    note IH = 1 [OF False] and k = TrailingZeros64_lowest [OF False]
    have eq: "{n. bit w n} = insert (TrailingZeros64 w) {n. bit (w AND (w - 1)) n}" using k(2) by (auto simp: clear_lowest_bit [OF False])
    have "TrailingZeros64 w < n" if "bit (w AND (w - 1)) n" for n
      using that k(3) [of n] by (auto simp: clear_lowest_bit [OF False] nat_neq_iff)
    then have "\<forall>x\<in>set (bm_bits wi (w AND (w - 1))). int (wi * 64 + TrailingZeros64 w) < x" using IH by auto
    then show ?thesis unfolding bm_bits.simps [of wi w] eq using IH False by auto
  qed
qed

lemma Bitmap_Slice_ok: "sorted_wrt (<) (Bitmap_Slice b) \<and> set (Bitmap_Slice b) = bm_set b"
proof -
  have range: "int (wi * 64) \<le> x \<and> x < int (Suc wi * 64)" if "x \<in> set (bm_bits wi w)" for x wi w
    using that bm_bits_ok [of wi w] bit_imp_le_length [of w] by auto
  have "sorted_wrt (<) (concat (map (\<lambda>wi. bm_bits wi (f wi)) [0..<n])) \<and> (\<forall>x\<in>set (concat (map (\<lambda>wi. bm_bits wi (f wi)) [0..<n])). x < int (n * 64))" for f n
  proof (induction n)
    case (Suc n)
    let ?xs = "concat (map (\<lambda>wi. bm_bits wi (f wi)) [0..<n])"
    have up: "concat (map (\<lambda>wi. bm_bits wi (f wi)) [0..<Suc n]) = ?xs @ bm_bits n (f n)" by simp
    have "\<forall>x\<in>set ?xs. \<forall>y\<in>set (bm_bits n (f n)). x < y" using Suc range [of _ n "f n"] by fastforce
    moreover have "\<forall>x\<in>set (?xs @ bm_bits n (f n)). x < int (Suc n * 64)" using Suc range [of _ n "f n"] by fastforce
    ultimately show ?case using Suc bm_bits_ok [of n "f n"] unfolding up by (simp only: sorted_wrt_append)
  qed simp
  moreover have "set (Bitmap_Slice b) = bm_set b"
  proof (intro set_eqI iffI)
    fix x assume "x \<in> set (Bitmap_Slice b)"
    then obtain wi n where wi: "wi < length (bm_words b)" "x = int (wi * 64 + n)" "bit (bm_words b ! wi) n"
      using bm_bits_ok by (auto simp: Bitmap_Slice_def)
    then have "n < 64" using bit_imp_le_length [of "bm_words b ! wi" n] by simp
    then have "x div 64 = int wi" "x mod 64 = int n"
      using wi(2) int_div_pos_eq [of x 64 "int wi" "int n"] int_mod_pos_eq [of x 64 "int wi" "int n"] by simp_all
    then show "x \<in> bm_set b" using wi by (simp add: bm_set_def)
  next
    fix x assume x: "x \<in> bm_set b"
    then have "x = int (nat (x div 64) * 64 + nat (x mod 64))" by (simp add: bm_set_def pos_imp_zdiv_nonneg_iff)
    then have "x \<in> set (bm_bits (nat (x div 64)) (bm_words b ! nat (x div 64)))" using x bm_bits_ok unfolding bm_set_def by blast
    then show "x \<in> set (Bitmap_Slice b)" using x by (auto simp: Bitmap_Slice_def bm_set_def)
  qed
  ultimately show ?thesis by (simp add: Bitmap_Slice_def)
qed

lemma strict_sorted_set: "sorted_wrt (<) xs \<Longrightarrow> set xs = A \<Longrightarrow> xs = sorted_list_of_set (A :: int set)"
  by (metis strict_sorted_iff distinct_remdups_id sorted_list_of_set.idem_if_sorted_distinct)

lemma Bitmap_Count_Slice: "Bitmap_Count b = length (Bitmap_Slice b)"
proof -
  have "length (bm_bits wi w) = OnesCount64 w" for wi w
  proof -
    have "distinct (bm_bits wi w)" using bm_bits_ok [of wi w] strict_sorted_iff by blast
    then have "length (bm_bits wi w) = card ((\<lambda>n. int (wi * 64 + n)) ` {n. bit w n})" using bm_bits_ok [of wi w] by (metis distinct_card)
    then show ?thesis by (simp add: card_image inj_on_def OnesCount64_card)
  qed
  then have "length (Bitmap_Slice b) = (\<Sum>wi\<leftarrow>[0..<length (bm_words b)]. OnesCount64 (bm_words b ! wi))"
    by (simp add: Bitmap_Slice_def length_concat comp_def)
  also have "map (\<lambda>wi. OnesCount64 (bm_words b ! wi)) [0..<length (bm_words b)] = map OnesCount64 (bm_words b)"
    by (rule nth_equalityI) simp_all
  moreover have "foldl (\<lambda>n w. n + OnesCount64 w) a ws = a + (\<Sum>w\<leftarrow>ws. OnesCount64 w)" for a ws by (induction ws arbitrary: a) simp_all
  ultimately show ?thesis by (simp add: Bitmap_Count_def)
qed

section \<open>Properties\<close>

text \<open>The bitmap implements finite sets of non-negative numbers: \<open>Set\<close>, \<open>Clear\<close>, \<open>Flip\<close> and \<open>Test\<close> insert, remove,
  toggle and test a member (a negative index is never a member and changes nothing), \<open>And\<close>, \<open>Or\<close> and
  \<open>AndNot\<close> are intersection, union and difference for bitmaps of any two lengths, \<open>Slice\<close> lists the members in
  ascending order and \<open>Count\<close> is their number.\<close>

theorem Bitmap_refines_set:
  "Bitmap_Test i b = (i \<in> bm_set b)
   \<and> bm_set (Bitmap_Set i b) = (if i < 0 then bm_set b else insert i (bm_set b))
   \<and> bm_set (Bitmap_Clear i b) = bm_set b - {i}
   \<and> (case Bitmap_Flip i b of (r, b') \<Rightarrow>
        r = (0 \<le> i \<and> i \<notin> bm_set b) \<and> bm_set b' = (if i < 0 then bm_set b else if i \<in> bm_set b then bm_set b - {i} else insert i (bm_set b)))
   \<and> bm_set (Bitmap_And other b) = bm_set b \<inter> bm_set other
   \<and> bm_set (Bitmap_Or other b) = bm_set b \<union> bm_set other
   \<and> bm_set (Bitmap_AndNot other b) = bm_set b - bm_set other
   \<and> Bitmap_Slice b = sorted_list_of_set (bm_set b)
   \<and> Bitmap_Count b = card (bm_set b)
   \<and> bm_set (Bitmap_Clone b) = bm_set b \<and> bm_set (Bitmap_Reset b) = {}"
proof -
  have "case Bitmap_Flip i b of (r, b') \<Rightarrow>
      r = (0 \<le> i \<and> i \<notin> bm_set b) \<and> bm_set b' = (if i < 0 then bm_set b else if i \<in> bm_set b then bm_set b - {i} else insert i (bm_set b))"
    using Bitmap_Flip_set [of i b] by (cases "i < 0") (auto simp: Bitmap_Flip_def Let_def split: prod.splits)
  moreover have slice: "Bitmap_Slice b = sorted_list_of_set (bm_set b)" using Bitmap_Slice_ok strict_sorted_set by blast
  moreover have "Bitmap_Count b = card (bm_set b)"
    using Bitmap_Slice_ok [of b] unfolding Bitmap_Count_Slice by (metis distinct_card strict_sorted_iff)
  moreover have "bm_set (Bitmap_Clone b) = bm_set b" "bm_set (Bitmap_Reset b) = {}" by (auto simp: bm_set_def Bitmap_Clone_def Bitmap_Reset_def)
  ultimately show ?thesis by (simp add: Bitmap_Test_set Bitmap_Set_set Bitmap_Clear_set Bitmap_And_set Bitmap_Or_set Bitmap_AndNot_set)
qed

text \<open>\<open>ConsecutiveFromEnd\<close> is the length of the longest suffix of days on which the user signed in: it signed in on
  that many last days, and either that is every day or on the day before it did not.\<close>

theorem ConsecutiveFromEnd_longest:
  "ConsecutiveFromEnd days uid \<le> length days
   \<and> (\<forall>k<ConsecutiveFromEnd days uid. uid \<in> bm_set (days ! (length days - Suc k)))
   \<and> (ConsecutiveFromEnd days uid < length days \<longrightarrow> uid \<notin> bm_set (days ! (length days - Suc (ConsecutiveFromEnd days uid))))"
proof -
  have loop: "ConsecutiveFromEnd_loop uid ds \<le> length ds \<and> (\<forall>k<ConsecutiveFromEnd_loop uid ds. uid \<in> bm_set (ds ! k))
      \<and> (ConsecutiveFromEnd_loop uid ds < length ds \<longrightarrow> uid \<notin> bm_set (ds ! ConsecutiveFromEnd_loop uid ds))" for ds
    by (induction ds) (auto simp: Bitmap_Test_set less_Suc_eq_0_disj)
  let ?n = "ConsecutiveFromEnd days uid"
  have n: "?n \<le> length days" "\<And>k. k < ?n \<Longrightarrow> uid \<in> bm_set (rev days ! k)" "?n < length days \<Longrightarrow> uid \<notin> bm_set (rev days ! ?n)"
    using loop [of "rev days"] by (simp_all add: ConsecutiveFromEnd_def)
  have "uid \<in> bm_set (days ! (length days - Suc k))" if "k < ?n" for k using n(1) n(2) [OF that] that by (simp add: rev_nth)
  then show ?thesis using n(1,3) by (simp add: rev_nth)
qed

theorem ConsecutiveFromEnd_longest_witness:
  "let d = Bitmap_Set 3 \<lparr>bm_words = []\<rparr> in ConsecutiveFromEnd [\<lparr>bm_words = []\<rparr>, d, d] 3 = 2 \<and> 3 \<notin> bm_set \<lparr>bm_words = []\<rparr>"
proof -
  define d where "d = Bitmap_Set 3 \<lparr>bm_words = []\<rparr>"
  have d: "3 \<in> bm_set d" by (simp add: d_def Bitmap_Set_set)
  have e: "3 \<notin> bm_set \<lparr>bm_words = []\<rparr>" by (simp add: bm_set_def)
  have n: "ConsecutiveFromEnd [\<lparr>bm_words = []\<rparr>, d, d] 3 = 2" using d e by (simp add: ConsecutiveFromEnd_def Bitmap_Test_set)
  then show ?thesis using ConsecutiveFromEnd_longest [of "[\<lparr>bm_words = []\<rparr>, d, d]" 3] by (simp add: d_def)
qed

end
