(* ===== verification/Ring.thy ===== *)
theory Ring
  imports Prelude
begin

text \<open>
  \<open>pkg/foundation/ringbuffer\<close>: a buffer of fixed capacity that keeps the most recent elements. The model has the
  array, the write position and the count; the abstraction is the list of the last elements pushed. A zero
  value of the element type is an argument where the code stores one. \<open>SyncRing\<close> is the same buffer under a lock.
\<close>

section \<open>The buffer\<close>

record 'a Ring =
  rb_buf :: "'a list"
  rb_head :: nat
  rb_count :: nat

definition Ring_New :: "'a \<Rightarrow> int \<Rightarrow> 'a Ring" where
  "Ring_New zero capacity =
     (let capacity = (if capacity \<le> 0 then 1 else capacity) in \<lparr>rb_buf = replicate (nat capacity) zero, rb_head = 0, rb_count = 0\<rparr>)"

definition Ring_Push :: "'a \<Rightarrow> 'a Ring \<Rightarrow> 'a Ring" where
  "Ring_Push v r =
     (let r1 = r\<lparr>rb_buf := (rb_buf r)[rb_head r := v]\<rparr>;
          r2 = r1\<lparr>rb_head := (rb_head r1 + 1) mod length (rb_buf r1)\<rparr>
      in if rb_count r2 < length (rb_buf r2) then r2\<lparr>rb_count := rb_count r2 + 1\<rparr> else r2)"

definition Ring_Len :: "'a Ring \<Rightarrow> nat" where
  "Ring_Len r = rb_count r"

definition Ring_Cap :: "'a Ring \<Rightarrow> nat" where
  "Ring_Cap r = length (rb_buf r)"

definition Ring_Full :: "'a Ring \<Rightarrow> bool" where
  "Ring_Full r = (rb_count r = length (rb_buf r))"

definition Ring_oldest :: "'a Ring \<Rightarrow> nat" where
  "Ring_oldest r = (if rb_count r < length (rb_buf r) then 0 else rb_head r)"

definition Ring_Slice :: "'a Ring \<Rightarrow> 'a list" where
  "Ring_Slice r = map (\<lambda>i. rb_buf r ! ((Ring_oldest r + i) mod length (rb_buf r))) [0..<rb_count r]"

text \<open>The index \<open>(head - 1 - i + 2 * len) % len\<close> is never negative.\<close>

definition Ring_Recent :: "int \<Rightarrow> 'a Ring \<Rightarrow> 'a list" where
  "Ring_Recent n r =
     (if n \<le> 0 then []
      else let m = (if int (rb_count r) < n then rb_count r else nat n)
           in map (\<lambda>i. rb_buf r ! nat (go_mod (int (rb_head r) - 1 - int i + int (length (rb_buf r)) * 2) (int (length (rb_buf r))))) [0..<m])"

definition Ring_Newest :: "'a Ring \<Rightarrow> 'a option" where
  "Ring_Newest r = (if rb_count r = 0 then None else Some (rb_buf r ! ((rb_head r + length (rb_buf r) - 1) mod length (rb_buf r))))"

definition Ring_Oldest :: "'a Ring \<Rightarrow> 'a option" where
  "Ring_Oldest r = (if rb_count r = 0 then None else Some (rb_buf r ! Ring_oldest r))"

definition Ring_Clear :: "'a \<Rightarrow> 'a Ring \<Rightarrow> 'a Ring" where
  "Ring_Clear zero r = r\<lparr>rb_buf := map (\<lambda>_. zero) (rb_buf r), rb_head := 0, rb_count := 0\<rparr>"

definition SyncRing_New :: "'a \<Rightarrow> int \<Rightarrow> 'a Ring" where
  "SyncRing_New = Ring_New"

definition SyncRing_Push :: "'a \<Rightarrow> 'a Ring \<Rightarrow> 'a Ring" where
  "SyncRing_Push = Ring_Push"

definition SyncRing_Slice :: "'a Ring \<Rightarrow> 'a list" where
  "SyncRing_Slice = Ring_Slice"

definition SyncRing_Recent :: "int \<Rightarrow> 'a Ring \<Rightarrow> 'a list" where
  "SyncRing_Recent = Ring_Recent"

definition SyncRing_Newest :: "'a Ring \<Rightarrow> 'a option" where
  "SyncRing_Newest = Ring_Newest"

definition SyncRing_Len :: "'a Ring \<Rightarrow> nat" where
  "SyncRing_Len = Ring_Len"

definition SyncRing_Cap :: "'a Ring \<Rightarrow> nat" where
  "SyncRing_Cap = Ring_Cap"

definition SyncRing_Clear :: "'a \<Rightarrow> 'a Ring \<Rightarrow> 'a Ring" where
  "SyncRing_Clear = Ring_Clear"

section \<open>The last elements pushed\<close>

definition last_n :: "nat \<Rightarrow> 'a list \<Rightarrow> 'a list" where
  "last_n n xs = drop (length xs - n) xs"

text \<open>The buffer after pushing \<open>xs\<close>: element number \<open>k\<close> of \<open>xs\<close> is at position \<open>k mod cap\<close> while it is among the last.\<close>

definition ring_holds :: "'a list \<Rightarrow> 'a Ring \<Rightarrow> bool" where
  "ring_holds xs r \<longleftrightarrow>
     0 < length (rb_buf r) \<and> rb_head r = length xs mod length (rb_buf r) \<and> rb_count r = min (length xs) (length (rb_buf r))
     \<and> (\<forall>k<length xs. length xs \<le> k + length (rb_buf r) \<longrightarrow> rb_buf r ! (k mod length (rb_buf r)) = xs ! k)"

lemma mod_window:
  assumes "k \<le> (n :: nat)" "n < k + c"
  shows "k mod c = n mod c \<longleftrightarrow> k = n"
  using assms by (metis add_diff_inverse_nat mod_less mod_eq_dvd_iff_nat dvd_imp_le diff_is_0_eq' less_diff_conv2 nat_neq_iff not_less zero_less_diff diff_less_mono2 add.commute less_add_same_cancel1 linorder_not_le)

lemma ring_holds_new: "ring_holds [] (Ring_New zero n)"
  by (simp add: ring_holds_def Ring_New_def Let_def)

lemma ring_holds_clear: "ring_holds xs r \<Longrightarrow> ring_holds [] (Ring_Clear zero r)"
  by (simp add: ring_holds_def Ring_Clear_def)

lemma ring_holds_push:
  assumes "ring_holds xs r"
  shows "ring_holds (xs @ [v]) (Ring_Push v r) \<and> length (rb_buf (Ring_Push v r)) = length (rb_buf r)"
proof -
  let ?c = "length (rb_buf r)" and ?n = "length xs"
  have c: "0 < ?c" and h: "rb_head r = ?n mod ?c" and cnt: "rb_count r = min ?n ?c"
    and at: "\<And>k. k < ?n \<Longrightarrow> ?n \<le> k + ?c \<Longrightarrow> rb_buf r ! (k mod ?c) = xs ! k" using assms by (auto simp: ring_holds_def)
  have sel: "rb_buf (Ring_Push v r) = (rb_buf r)[?n mod ?c := v]" "rb_head (Ring_Push v r) = Suc ?n mod ?c"
    "rb_count (Ring_Push v r) = min (Suc ?n) ?c"
    using h cnt by (simp_all add: Ring_Push_def Let_def mod_Suc_eq)
  have "(rb_buf r)[?n mod ?c := v] ! (k mod ?c) = (xs @ [v]) ! k" if "k < Suc ?n" "Suc ?n \<le> k + ?c" for k
    using at [of k] mod_window [of k ?n ?c] that c by (cases "k = ?n") (auto simp: nth_append)
  then show ?thesis using c by (simp add: ring_holds_def sel)
qed

lemma ring_slice:
  assumes "ring_holds xs r"
  shows "Ring_Slice r = last_n (length (rb_buf r)) xs"
proof -
  let ?c = "length (rb_buf r)" and ?n = "length xs"
  have c: "0 < ?c" and h: "rb_head r = ?n mod ?c" and cnt: "rb_count r = min ?n ?c"
    and at: "\<And>k. k < ?n \<Longrightarrow> ?n \<le> k + ?c \<Longrightarrow> rb_buf r ! (k mod ?c) = xs ! k" using assms by (auto simp: ring_holds_def)
  have start: "(Ring_oldest r + i) mod ?c = (?n - ?c + i) mod ?c" if "i < rb_count r" for i
  proof (cases "?n < ?c")
    case True
    then show ?thesis using cnt by (simp add: Ring_oldest_def)
  next
    case False
    then have "?n mod ?c = (?n - ?c) mod ?c" by (simp add: le_mod_geq)
    then show ?thesis using False cnt h by (simp add: Ring_oldest_def mod_add_left_eq)
  qed
  show ?thesis
  proof (rule nth_equalityI)
    show "length (Ring_Slice r) = length (last_n ?c xs)" by (simp add: Ring_Slice_def last_n_def cnt)
    fix i assume "i < length (Ring_Slice r)"
    then have i: "i < min ?n ?c" by (simp add: Ring_Slice_def cnt)
    have "rb_buf r ! ((?n - ?c + i) mod ?c) = xs ! (?n - ?c + i)" using i by (intro at) linarith+
    then show "Ring_Slice r ! i = last_n ?c xs ! i"
      using start [of i] i by (simp add: Ring_Slice_def cnt last_n_def)
  qed
qed

lemma ring_recent_index:
  assumes "0 < (c :: nat)" "i < c" "i < n"
  shows "nat (go_mod (int (n mod c) - 1 - int i + int c * 2) (int c)) = (n - 1 - i) mod c"
proof -
  have pos: "0 \<le> int (n mod c) - 1 - int i + int c * 2" using assms by simp
  have "(int (n mod c) - 1 - int i + int c * 2) mod int c = (int n mod int c - (1 + int i)) mod int c" by (simp add: zmod_int diff_diff_eq)
  also have "\<dots> = (int n - (1 + int i)) mod int c" by (simp add: mod_diff_left_eq)
  also have "int n - (1 + int i) = int (n - 1 - i)" using assms(3) by simp
  finally have "(int (n mod c) - 1 - int i + int c * 2) mod int c = int ((n - 1 - i) mod c)" by (simp add: zmod_int)
  then show ?thesis using go_mod_nonneg [OF pos] assms(1) by simp
qed

lemma ring_recent:
  assumes "ring_holds xs r"
  shows "Ring_Recent n r = take (nat n) (rev (last_n (length (rb_buf r)) xs))"
proof (cases "n \<le> 0")
  case False
  let ?c = "length (rb_buf r)" and ?n = "length xs"
  have c: "0 < ?c" and h: "rb_head r = ?n mod ?c" and cnt: "rb_count r = min ?n ?c"
    and at: "\<And>k. k < ?n \<Longrightarrow> ?n \<le> k + ?c \<Longrightarrow> rb_buf r ! (k mod ?c) = xs ! k" using assms by (auto simp: ring_holds_def)
  define m where "m = min (nat n) (min ?n ?c)"
  have rec: "Ring_Recent n r = map (\<lambda>i. rb_buf r ! nat (go_mod (int (rb_head r) - 1 - int i + int ?c * 2) (int ?c))) [0..<m]"
  proof -
    have "(if int (min ?n ?c) < n then min ?n ?c else nat n) = m" by (auto simp: m_def min_def)
    then show ?thesis using False by (simp only: Ring_Recent_def cnt Let_def if_False)
  qed
  show ?thesis
  proof (rule nth_equalityI)
    show "length (Ring_Recent n r) = length (take (nat n) (rev (last_n ?c xs)))" by (simp add: rec m_def last_n_def)
    fix i assume "i < length (Ring_Recent n r)"
    then have i: "i < m" "i < ?n" "i < ?c" "i < nat n" by (simp_all add: rec m_def)
    have "Ring_Recent n r ! i = rb_buf r ! ((?n - 1 - i) mod ?c)" using i ring_recent_index [OF c i(3,2)] by (simp add: rec h)
    also have "\<dots> = xs ! (?n - 1 - i)" using i by (intro at) simp_all
    also have "\<dots> = take (nat n) (rev (last_n ?c xs)) ! i" using i by (simp add: last_n_def rev_nth)
    finally show "Ring_Recent n r ! i = take (nat n) (rev (last_n ?c xs)) ! i" .
  qed
qed (simp add: Ring_Recent_def)

section \<open>Properties\<close>

text \<open>The ring remembers exactly the last elements: after any sequence of pushes into a ring made for a capacity,
  \<open>Slice\<close> is the suffix of the sequence of that length, oldest first, \<open>Recent\<close> lists its newest elements newest
  first for any argument, \<open>Newest\<close> and \<open>Oldest\<close> are its ends and fail only on the empty ring, and \<open>Len\<close>
  and \<open>Full\<close> measure it. A capacity that is not positive counts as one.\<close>

theorem Ring_remembers_last:
  "let r = fold Ring_Push xs (Ring_New zero capacity); cap = (if capacity \<le> 0 then 1 else nat capacity); kept = last_n cap xs
   in Ring_Slice r = kept \<and> Ring_Recent n r = take (nat n) (rev kept)
    \<and> Ring_Newest r = (if xs = [] then None else Some (last xs)) \<and> Ring_Oldest r = (if xs = [] then None else Some (hd kept))
    \<and> Ring_Len r = length kept \<and> Ring_Cap r = cap \<and> Ring_Full r = (cap \<le> length xs)"
proof -
  define cap where "cap = (if capacity \<le> 0 then 1 else nat capacity)"
  define r where "r = fold Ring_Push xs (Ring_New zero capacity)"
  have len: "length (rb_buf (Ring_New zero capacity)) = cap" by (simp add: Ring_New_def cap_def Let_def)
  have "ring_holds (ys @ xs) (fold Ring_Push xs r0) \<and> length (rb_buf (fold Ring_Push xs r0)) = length (rb_buf r0)" if "ring_holds ys r0" for ys and r0 :: "'a Ring"
    using that
  proof (induction xs arbitrary: ys r0)
    case (Cons x xs)
    then show ?case using ring_holds_push [OF Cons.prems, of x] by fastforce
  qed simp
  from this [OF ring_holds_new] have r: "ring_holds xs r" "length (rb_buf r) = cap" by (simp_all add: r_def len)
  have cap: "0 < cap" by (simp add: cap_def)
  have cnt: "rb_count r = min (length xs) cap" using r by (simp add: ring_holds_def)
  have slice: "Ring_Slice r = last_n cap xs" and recent: "Ring_Recent n r = take (nat n) (rev (last_n cap xs))" for n
    using ring_slice [OF r(1)] ring_recent [OF r(1)] r(2) by simp_all
  have "Ring_Newest r = (if xs = [] then None else Some (last xs))"
  proof (cases "xs = []")
    case False
    then have "rb_buf r ! ((length xs - 1) mod cap) = xs ! (length xs - 1)" using r cap by (simp add: ring_holds_def)
    moreover have "(length xs mod cap + cap - 1) mod cap = (length xs - 1) mod cap"
    proof -
      obtain m where m: "length xs = Suc m" using False by (cases xs) auto
      have "Suc (m mod cap) \<le> cap" using cap by (simp add: Suc_le_eq)
      then show ?thesis using cap by (cases "Suc (m mod cap) = cap") (auto simp: m mod_Suc)
    qed
    ultimately show ?thesis using False r cap cnt by (simp add: Ring_Newest_def ring_holds_def last_conv_nth)
  qed (use cnt in \<open>simp add: Ring_Newest_def\<close>)
  moreover have "Ring_Oldest r = (if xs = [] then None else Some (hd (last_n cap xs)))"
  proof (cases "xs = []")
    case False
    then have "hd (Ring_Slice r) = Ring_Slice r ! 0" "0 < rb_count r" using cnt cap by (simp_all add: Ring_Slice_def hd_conv_nth)
    moreover have "Ring_Slice r ! 0 = rb_buf r ! Ring_oldest r"
      using calculation(2) r cap by (simp add: Ring_Slice_def Ring_oldest_def ring_holds_def)
    ultimately show ?thesis using False by (simp add: Ring_Oldest_def slice)
  qed (use cnt in \<open>simp add: Ring_Oldest_def\<close>)
  moreover have "Ring_Len r = length (last_n cap xs)" "Ring_Cap r = cap" "Ring_Full r = (cap \<le> length xs)"
    using cnt r(2) by (auto simp: Ring_Len_def Ring_Cap_def Ring_Full_def last_n_def)
  ultimately show ?thesis using slice recent unfolding Let_def r_def [symmetric] cap_def [symmetric] by simp
qed

end
