(* ===== verification/Dag.thy ===== *)
theory Dag
  imports Compensation
begin

text \<open>
  \<open>pkg/foundation/dag\<close>: nodes with dependencies, sorted into layers by Kahn's algorithm and run layer by layer. The
  arrays of in-degrees and children are lists indexed by node number, as in the code. What a node's function
  returns is an argument (\<open>run\<close>), as is the state of the context at the start of every layer. The nodes of
  one layer run in parallel; their results are collected by index, so the number of goroutines (\<open>maxParallel\<close>)
  is kept in the configuration but does not enter the result.
\<close>

section \<open>Nodes and configuration\<close>

datatype Strategy = FailFast | ContinueOnError

record Node =
  nd_Name :: key
  nd_DependsOn :: "key list"
  nd_Run :: "nat option"

record DAG =
  dag_nodes :: "Node list"
  dag_strategy :: Strategy
  dag_maxParallel :: int

datatype dag_option = WithStrategy Strategy | WithMaxParallel int

fun dag_apply :: "dag_option \<Rightarrow> DAG \<Rightarrow> DAG" where
  "dag_apply (WithStrategy s) d = d\<lparr>dag_strategy := s\<rparr>"
| "dag_apply (WithMaxParallel n) d = d\<lparr>dag_maxParallel := n\<rparr>"

definition DAG_New :: "dag_option list \<Rightarrow> DAG" where
  "DAG_New opts = fold dag_apply opts \<lparr>dag_nodes = [], dag_strategy = FailFast, dag_maxParallel = 0\<rparr>"

definition DAG_Add :: "Node list \<Rightarrow> DAG \<Rightarrow> DAG" where
  "DAG_Add nodes d = d\<lparr>dag_nodes := dag_nodes d @ nodes\<rparr>"

datatype dag_err =
    EmptyName nat
  | DuplicateName key
  | UnknownDep key key
  | Cycle
  | Canceled err
  | NodeErr key err
  | NodePanic key string

section \<open>Sorting into layers\<close>

fun dag_index :: "nat \<Rightarrow> Node list \<Rightarrow> (key \<rightharpoonup> nat) \<Rightarrow> dag_err + (key \<rightharpoonup> nat)" where
  "dag_index i [] index = Inr index"
| "dag_index i (x # xs) index =
     (if nd_Name x = [] then Inl (EmptyName i)
      else if index (nd_Name x) \<noteq> None then Inl (DuplicateName (nd_Name x))
      else dag_index (Suc i) xs (index(nd_Name x \<mapsto> i)))"

fun dag_deps :: "(key \<rightharpoonup> nat) \<Rightarrow> nat \<Rightarrow> key \<Rightarrow> key list \<Rightarrow> int list \<times> nat list list \<Rightarrow> dag_err + int list \<times> nat list list" where
  "dag_deps index i name [] dc = Inr dc"
| "dag_deps index i name (dep # deps) dc =
     (case index dep of
        None \<Rightarrow> Inl (UnknownDep name dep)
      | Some di \<Rightarrow>
          (case dc of (inDegree, children) \<Rightarrow>
             dag_deps index i name deps (inDegree[i := inDegree ! i + 1], children[di := children ! di @ [i]])))"

fun dag_edges :: "(key \<rightharpoonup> nat) \<Rightarrow> nat \<Rightarrow> Node list \<Rightarrow> int list \<times> nat list list \<Rightarrow> dag_err + int list \<times> nat list list" where
  "dag_edges index i [] dc = Inr dc"
| "dag_edges index i (x # xs) dc =
     (case dag_deps index i (nd_Name x) (nd_DependsOn x) dc of
        Inl e \<Rightarrow> Inl e
      | Inr dc' \<Rightarrow> dag_edges index (Suc i) xs dc')"

text \<open>The two inner loops of one round. Every child is a node number, so the guard on the length is always true.\<close>

fun dag_dec :: "nat list \<Rightarrow> int list \<Rightarrow> nat list \<Rightarrow> int list \<times> nat list" where
  "dag_dec [] inDegree next = (inDegree, next)"
| "dag_dec (ch # chs) inDegree next =
     (let inDegree' = inDegree[ch := inDegree ! ch - 1]
      in dag_dec chs inDegree' (if ch < length inDegree' \<and> inDegree' ! ch = 0 then next @ [ch] else next))"

fun dag_round :: "nat list list \<Rightarrow> nat list \<Rightarrow> int list \<Rightarrow> nat list \<Rightarrow> int list \<times> nat list" where
  "dag_round children [] inDegree next = (inDegree, next)"
| "dag_round children (idx # current) inDegree next =
     (case dag_dec (children ! idx) inDegree next of (inDegree', next') \<Rightarrow> dag_round children current inDegree' next')"

text \<open>The open in-degrees go down by at least one for every node that enters the next layer.\<close>

definition open_deg :: "int list \<Rightarrow> nat" where
  "open_deg ds = (\<Sum>d\<leftarrow>ds. nat d)"

lemma open_deg_update: "i < length ds \<Longrightarrow> open_deg (ds[i := v]) + nat (ds ! i) = open_deg ds + nat v"
  by (induction ds arbitrary: i) (auto simp: open_deg_def split: nat.split)

lemma dag_dec_open: "dag_dec chs ds next = (ds', next') \<Longrightarrow> open_deg ds' + length next' \<le> open_deg ds + length next"
proof (induction chs arbitrary: ds "next")
  case (Cons ch chs)
  let ?ds = "ds[ch := ds ! ch - 1]"
  have IH: "open_deg ds' + length next' \<le> open_deg ?ds + length (if ch < length ?ds \<and> ?ds ! ch = 0 then next @ [ch] else next)"
    using Cons.IH Cons.prems by (simp add: Let_def)
  show ?case
  proof (cases "ch < length ds")
    case True
    then show ?thesis using IH open_deg_update [OF True, of "ds ! ch - 1"] by (auto split: if_splits)
  next
    case False
    then show ?thesis using IH by (simp add: list_update_beyond)
  qed
qed simp

lemma dag_round_open: "dag_round children current ds next = (ds', next') \<Longrightarrow> open_deg ds' + length next' \<le> open_deg ds + length next"
proof (induction current arbitrary: ds "next")
  case (Cons idx current)
  obtain d n where d: "dag_dec (children ! idx) ds next = (d, n)" by force
  then show ?case using dag_dec_open [OF d] Cons.IH [of d n] Cons.prems by simp
qed simp

function dag_kahn :: "Node list \<Rightarrow> nat list list \<Rightarrow> nat list \<Rightarrow> int list \<Rightarrow> Node list list \<Rightarrow> nat \<Rightarrow> Node list list \<times> nat" where
  "dag_kahn nodes children current inDegree layers visited =
     (if current = [] then (layers, visited)
      else let layer = map ((!) nodes) current;
               (inDegree', next) = dag_round children current inDegree []
           in dag_kahn nodes children next inDegree' (layers @ [layer]) (visited + length current))"
  by pat_completeness auto
termination
proof (relation "measures [\<lambda>(nodes, children, current, inDegree, layers, visited). open_deg inDegree,
                           \<lambda>(nodes, children, current, inDegree, layers, visited). length current]")
  fix nodes :: "Node list" and children current inDegree and layers :: "Node list list" and visited layer x inDegree' "next"
  assume "current \<noteq> []" "x = dag_round children current inDegree []" "(inDegree', next) = x"
  then have "open_deg inDegree' + length next \<le> open_deg inDegree" using dag_round_open [of children current inDegree "[]" inDegree' "next"] by simp
  then show "((nodes, children, next, inDegree', layers @ [layer], visited + length current), nodes, children, current, inDegree, layers, visited)
      \<in> measures [\<lambda>(nodes, children, current, inDegree, layers, visited). open_deg inDegree,
                  \<lambda>(nodes, children, current, inDegree, layers, visited). length current]"
    using \<open>current \<noteq> []\<close> by (cases "next") auto
qed simp

declare dag_kahn.simps [simp del]

definition topoSort :: "Node list \<Rightarrow> dag_err + Node list list" where
  "topoSort nodes =
     (if nodes = [] then Inr []
      else case dag_index 0 nodes Map.empty of
        Inl e \<Rightarrow> Inl e
      | Inr index \<Rightarrow>
          (case dag_edges index 0 nodes (replicate (length nodes) 0, replicate (length nodes) []) of
             Inl e \<Rightarrow> Inl e
           | Inr (inDegree, children) \<Rightarrow>
               let current = filter (\<lambda>i. inDegree ! i = 0) [0..<length nodes];
                   (layers, visited) = dag_kahn nodes children current inDegree [] 0
               in if visited < length nodes then Inl Cycle else Inr layers))"

definition DAG_Validate :: "DAG \<Rightarrow> dag_err option" where
  "DAG_Validate d = (case topoSort (dag_nodes d) of Inl e \<Rightarrow> Some e | Inr _ \<Rightarrow> None)"

section \<open>Running the layers\<close>

definition execNode :: "(nat \<Rightarrow> call) \<Rightarrow> Node \<Rightarrow> dag_err option" where
  "execNode run x =
     (case nd_Run x of
        None \<Rightarrow> None
      | Some f \<Rightarrow>
          (case run f of
             Done None \<Rightarrow> None
           | Done (Some e) \<Rightarrow> Some (NodeErr (nd_Name x) e)
           | Panicked v \<Rightarrow> Some (NodePanic (nd_Name x) v)))"

definition runLayer :: "(nat \<Rightarrow> call) \<Rightarrow> Node list \<Rightarrow> int \<Rightarrow> dag_err list" where
  "runLayer run layer maxParallel = List.map_filter (execNode run) layer"

text \<open>The result of \<open>Run\<close> is the list given to \<open>errors.Join\<close>, empty for nil, and the layers that were run.\<close>

fun dag_run_loop :: "(nat \<Rightarrow> call) \<Rightarrow> (nat \<Rightarrow> err option) \<Rightarrow> Strategy \<Rightarrow> int \<Rightarrow> nat \<Rightarrow> Node list list \<Rightarrow> dag_err list \<Rightarrow> dag_err list \<times> Node list list" where
  "dag_run_loop run ctx st par k [] collected = (collected, [])"
| "dag_run_loop run ctx st par k (layer # layers) collected =
     (case ctx k of
        Some e \<Rightarrow> (collected @ [Canceled e], [])
      | None \<Rightarrow>
          let layerErrs = runLayer run layer par
          in if layerErrs \<noteq> [] \<and> st = FailFast then (collected @ layerErrs, [layer])
             else case dag_run_loop run ctx st par (Suc k) layers (collected @ layerErrs) of (errs, later) \<Rightarrow> (errs, layer # later))"

definition DAG_Run :: "(nat \<Rightarrow> call) \<Rightarrow> (nat \<Rightarrow> err option) \<Rightarrow> DAG \<Rightarrow> dag_err list \<times> Node list list" where
  "DAG_Run run ctx d =
     (case topoSort (dag_nodes d) of
        Inl e \<Rightarrow> ([e], [])
      | Inr layers \<Rightarrow> dag_run_loop run ctx (dag_strategy d) (dag_maxParallel d) 0 layers [])"

section \<open>The index and the edges\<close>

lemma dag_index_Inr:
  assumes "dag_index i xs m = Inr m'"
  shows "distinct (map nd_Name xs) \<and> [] \<notin> nd_Name ` set xs \<and> (\<forall>x\<in>set xs. m (nd_Name x) = None)
    \<and> (\<forall>j<length xs. m' (nd_Name (xs ! j)) = Some (i + j)) \<and> (\<forall>k. k \<notin> nd_Name ` set xs \<longrightarrow> m' k = m k)"
  using assms
proof (induction xs arbitrary: i m)
  case (Cons x xs)
  from Cons.prems have c: "nd_Name x \<noteq> []" "m (nd_Name x) = None" "dag_index (Suc i) xs (m(nd_Name x \<mapsto> i)) = Inr m'"
    by (auto split: if_splits)
  note IH = Cons.IH [OF c(3)]
  have new: "nd_Name x \<notin> nd_Name ` set xs" using IH by force
  have "m' (nd_Name ((x # xs) ! j)) = Some (i + j)" if "j < length (x # xs)" for j
    using that IH new by (cases j) auto
  moreover have "\<forall>y\<in>set (x # xs). m (nd_Name y) = None" using IH c(2) by (auto split: if_splits)
  ultimately show ?case using IH new c(1) by auto
qed simp

lemma dag_index_Inl:
  "dag_index i xs m = Inl e \<Longrightarrow> (\<forall>x\<in>set xs. m (nd_Name x) = None) \<Longrightarrow> \<not> (distinct (map nd_Name xs) \<and> [] \<notin> nd_Name ` set xs)"
proof (induction xs arbitrary: i m)
  case (Cons x xs)
  show ?case
  proof (cases "nd_Name x = []")
    case False
    then have "dag_index (Suc i) xs (m(nd_Name x \<mapsto> i)) = Inl e" using Cons.prems by (auto split: if_splits)
    note IH = Cons.IH [OF this]
    show ?thesis
    proof
      assume ok: "distinct (map nd_Name (x # xs)) \<and> [] \<notin> nd_Name ` set (x # xs)"
      then have "\<forall>y\<in>set xs. (m(nd_Name x \<mapsto> i)) (nd_Name y) = None" using Cons.prems(2) by (auto simp: image_iff)
      then show False using IH ok by auto
    qed
  qed simp
qed simp

lemma count_list_append_one: "count_list (xs @ [y]) x = count_list xs x + (if y = x then 1 else 0)"
  by (induction xs) auto

lemma dag_deps_Inr:
  assumes "dag_deps index i name deps (deg, chs) = Inr (deg', chs')" "i < length deg" "\<forall>d di. index d = Some di \<longrightarrow> di < length chs"
  shows "set deps \<subseteq> dom index \<and> length deg' = length deg \<and> length chs' = length chs
    \<and> (\<forall>j<length deg. deg' ! j = deg ! j + (if j = i then int (length deps) else 0))
    \<and> (\<forall>d<length chs. \<forall>j. count_list (chs' ! d) j = count_list (chs ! d) j + (if j = i then count_list (map (the \<circ> index) deps) d else 0))"
  using assms
proof (induction deps arbitrary: deg chs)
  case (Cons dep deps)
  then obtain di where di: "index dep = Some di" "di < length chs" by (auto split: option.splits)
  have r: "dag_deps index i name deps (deg[i := deg ! i + 1], chs[di := chs ! di @ [i]]) = Inr (deg', chs')" using Cons.prems di by simp
  note IH = Cons.IH [OF r]
  then have IH: "set deps \<subseteq> dom index" "length deg' = length deg" "length chs' = length chs"
    "\<And>j. j < length deg \<Longrightarrow> deg' ! j = deg[i := deg ! i + 1] ! j + (if j = i then int (length deps) else 0)"
    "\<And>d j. d < length chs \<Longrightarrow> count_list (chs' ! d) j = count_list (chs[di := chs ! di @ [i]] ! d) j + (if j = i then count_list (map (the \<circ> index) deps) d else 0)"
    using Cons.prems(2,3) by simp_all
  have "deg' ! j = deg ! j + (if j = i then int (length (dep # deps)) else 0)" if "j < length deg" for j
    using IH(4) [OF that] Cons.prems(2) by (cases "j = i") simp_all
  moreover have "count_list (chs' ! d) j = count_list (chs ! d) j + (if j = i then count_list (map (the \<circ> index) (dep # deps)) d else 0)" if "d < length chs" for d j
    using IH(5) [OF that, of j] di that by (cases "d = di") (auto simp: count_list_append_one)
  ultimately show ?case using IH(1-3) di by auto
qed simp

lemma dag_deps_Inl: "dag_deps index i name deps dc = Inl e \<Longrightarrow> \<not> set deps \<subseteq> dom index"
proof (induction deps arbitrary: dc)
  case (Cons dep deps)
  show ?case
  proof (cases "index dep")
    case (Some di)
    obtain dc' where "dag_deps index i name deps dc' = Inl e" using Cons.prems Some by (cases dc) auto
    then show ?thesis using Cons.IH by auto
  qed auto
qed simp

lemma dag_edges_Inr:
  assumes "dag_edges index i xs (deg, chs) = Inr (deg', chs')" "i + length xs \<le> length deg" "\<forall>d di. index d = Some di \<longrightarrow> di < length chs"
  shows "(\<forall>x\<in>set xs. set (nd_DependsOn x) \<subseteq> dom index) \<and> length deg' = length deg \<and> length chs' = length chs
    \<and> (\<forall>j<length deg. deg' ! j = deg ! j + (if i \<le> j \<and> j < i + length xs then int (length (nd_DependsOn (xs ! (j - i)))) else 0))
    \<and> (\<forall>d<length chs. \<forall>j. count_list (chs' ! d) j = count_list (chs ! d) j +
          (if i \<le> j \<and> j < i + length xs then count_list (map (the \<circ> index) (nd_DependsOn (xs ! (j - i)))) d else 0))"
  using assms
proof (induction xs arbitrary: i deg chs)
  case (Cons x xs)
  obtain deg1 chs1 where d: "dag_deps index i (nd_Name x) (nd_DependsOn x) (deg, chs) = Inr (deg1, chs1)"
    and e: "dag_edges index (Suc i) xs (deg1, chs1) = Inr (deg', chs')" using Cons.prems(1) by (auto split: sum.splits)
  have "i < length deg" using Cons.prems(2) by simp
  note D = dag_deps_Inr [OF d this Cons.prems(3)]
  have IH: "\<forall>x\<in>set xs. set (nd_DependsOn x) \<subseteq> dom index" "length deg' = length deg" "length chs' = length chs"
    "\<And>j. j < length deg \<Longrightarrow> deg' ! j = deg1 ! j + (if Suc i \<le> j \<and> j < Suc i + length xs then int (length (nd_DependsOn (xs ! (j - Suc i)))) else 0)"
    "\<And>d j. d < length chs \<Longrightarrow> count_list (chs' ! d) j = count_list (chs1 ! d) j +
          (if Suc i \<le> j \<and> j < Suc i + length xs then count_list (map (the \<circ> index) (nd_DependsOn (xs ! (j - Suc i)))) d else 0)"
    using Cons.IH [OF e] Cons.prems(2,3) D by simp_all
  have nth: "(x # xs) ! (j - i) = (if j = i then x else xs ! (j - Suc i))" if "i \<le> j" for j using that by (cases "j = i") (auto simp: nth_Cons')
  have "deg' ! j = deg ! j + (if i \<le> j \<and> j < i + length (x # xs) then int (length (nd_DependsOn ((x # xs) ! (j - i)))) else 0)" if "j < length deg" for j
    using IH(4) [OF that] D that nth [of j] by (cases "j = i"; cases "i \<le> j") auto
  moreover have "count_list (chs' ! d) j = count_list (chs ! d) j +
          (if i \<le> j \<and> j < i + length (x # xs) then count_list (map (the \<circ> index) (nd_DependsOn ((x # xs) ! (j - i)))) d else 0)" if "d < length chs" for d j
    using IH(5) [OF that, of j] D that nth [of j] by (cases "j = i"; cases "i \<le> j") auto
  ultimately show ?case using IH(1-3) D by auto
qed auto

lemma dag_edges_Inl: "dag_edges index i xs dc = Inl e \<Longrightarrow> \<not> (\<forall>x\<in>set xs. set (nd_DependsOn x) \<subseteq> dom index)"
proof (induction xs arbitrary: i dc)
  case (Cons x xs)
  show ?case
  proof (cases "dag_deps index i (nd_Name x) (nd_DependsOn x) dc")
    case (Inl e')
    then show ?thesis using dag_deps_Inl [OF Inl] by simp
  next
    case (Inr dc')
    then show ?thesis using Cons.IH [of "Suc i" dc'] Cons.prems by simp
  qed
qed simp

section \<open>The rounds\<close>

text \<open>\<open>D i\<close> are the numbers of the dependencies of node \<open>i\<close>; what is pending lies outside the nodes done.\<close>

definition pend :: "(nat \<Rightarrow> nat list) \<Rightarrow> nat set \<Rightarrow> nat \<Rightarrow> int" where
  "pend D W i = int (length (filter (\<lambda>d. d \<notin> W) (D i)))"

lemma pend_insert: "x \<notin> W \<Longrightarrow> pend D (insert x W) i = pend D W i - int (count_list (D i) x)"
proof -
  assume "x \<notin> W"
  then have "length (filter (\<lambda>d. d \<notin> W) ds) = length (filter (\<lambda>d. d \<notin> insert x W) ds) + count_list ds x" for ds
    by (induction ds) auto
  then show ?thesis by (simp add: pend_def)
qed

lemma dag_dec_ok:
  assumes "dag_dec chs deg next = (deg', next')" "\<forall>i<length deg. int (count_list chs i) \<le> deg ! i" "\<forall>i\<in>set chs. i < length deg"
    and "distinct next" "\<forall>i\<in>set next. i < length deg \<and> deg ! i = 0"
  shows "length deg' = length deg \<and> (\<forall>i<length deg. deg' ! i = deg ! i - int (count_list chs i)) \<and> distinct next'
    \<and> set next' = set next \<union> {i \<in> set chs. deg' ! i = 0}"
  using assms
proof (induction chs arbitrary: deg "next")
  case (Cons ch chs)
  define deg1 where "deg1 = deg[ch := deg ! ch - 1]"
  define next1 where "next1 = (if deg1 ! ch = 0 then next @ [ch] else next)"
  have ch: "ch < length deg" "1 + int (count_list chs ch) \<le> deg ! ch" using Cons.prems(2,3) by auto
  have d1: "deg1 ! i = deg ! i - (if i = ch then 1 else 0)" for i using ch(1) by (simp add: deg1_def)
  have len: "length deg1 = length deg" by (simp add: deg1_def)
  have r: "dag_dec chs deg1 next1 = (deg', next')" using Cons.prems(1) ch(1) by (simp add: deg1_def next1_def Let_def)
  have cnt: "int (count_list chs i) \<le> deg1 ! i" if "i < length deg1" for i
  proof (cases "i = ch")
    case False
    then show ?thesis using Cons.prems(2) that by (auto simp: d1 len)
  qed (use ch(2) d1 in simp)
  have nch: "ch \<notin> set next" using Cons.prems(5) ch(2) by force
  have n1: "distinct next1" "\<forall>i\<in>set next1. i < length deg1 \<and> deg1 ! i = 0"
    using Cons.prems(4,5) ch(1) nch by (auto simp: next1_def d1 len)
  note IH = Cons.IH [OF r _ _ n1]
  then have IH: "length deg' = length deg" "\<And>i. i < length deg \<Longrightarrow> deg' ! i = deg1 ! i - int (count_list chs i)" "distinct next'"
    "set next' = set next1 \<union> {i \<in> set chs. deg' ! i = 0}" using cnt Cons.prems(3) len by simp_all
  have deg': "deg' ! i = deg ! i - int (count_list (ch # chs) i)" if "i < length deg" for i using IH(2) [OF that] d1 by simp
  have "ch \<in> set next1 \<union> {i \<in> set chs. deg' ! i = 0} \<longleftrightarrow> deg' ! ch = 0"
  proof
    assume "ch \<in> set next1 \<union> {i \<in> set chs. deg' ! i = 0}"
    then show "deg' ! ch = 0" using nch IH(2) [OF ch(1)] cnt [of ch] ch(1) len by (auto simp: next1_def split: if_splits)
  next
    assume z: "deg' ! ch = 0"
    show "ch \<in> set next1 \<union> {i \<in> set chs. deg' ! i = 0}"
    proof (cases "ch \<in> set chs")
      case False
      then have "deg1 ! ch = 0" using z IH(2) [OF ch(1)] by (simp add: count_list_0_iff)
      then show ?thesis by (simp add: next1_def)
    qed (use z in simp)
  qed
  then have "set next1 \<union> {i \<in> set chs. deg' ! i = 0} = set next \<union> {i \<in> set (ch # chs). deg' ! i = 0}"
    by (auto simp: next1_def split: if_splits)
  then show ?case using IH deg' by simp
qed simp

lemma dag_round_ok:
  assumes "dag_round chs cur deg next = (deg', next')" "length deg = n"
    and "\<forall>d<n. \<forall>j. count_list (chs ! d) j = (if j < n then count_list (D j) d else 0)"
    and "\<forall>i<n. deg ! i = pend D W i" "distinct cur" "set cur \<subseteq> {..<n} - W"
    and "distinct next" "\<forall>i\<in>set next. i < n \<and> deg ! i = 0"
  shows "length deg' = n \<and> (\<forall>i<n. deg' ! i = pend D (W \<union> set cur) i) \<and> distinct next' \<and> set next' = set next \<union> {i. i < n \<and> deg' ! i = 0 \<and> deg ! i \<noteq> 0}"
  using assms
proof (induction cur arbitrary: deg "next" W)
  case Nil
  then show ?case by auto
next
  case (Cons x cur)
  obtain deg1 next1 where d: "dag_dec (chs ! x) deg next = (deg1, next1)" and r: "dag_round chs cur deg1 next1 = (deg', next')"
    using Cons.prems(1) by (auto split: prod.splits)
  have x: "x < n" "x \<notin> W" "x \<notin> set cur" using Cons.prems(5,6) by auto
  have cnt: "count_list (chs ! x) j = (if j < n then count_list (D j) x else 0)" for j using Cons.prems(3) x(1) by blast
  have pos: "0 \<le> pend D (insert x W) i" for i by (simp add: pend_def)
  have le: "\<forall>i<length deg. int (count_list (chs ! x) i) \<le> deg ! i"
    using Cons.prems(2,4) cnt pos pend_insert [OF x(2)] by (metis diff_ge_0_iff_ge)
  have rng: "\<forall>i\<in>set (chs ! x). i < length deg" using cnt Cons.prems(2) by (metis count_list_0_iff)
  note D = dag_dec_ok [OF d le rng Cons.prems(7)]
  then have D: "length deg1 = n" "\<And>i. i < n \<Longrightarrow> deg1 ! i = deg ! i - int (count_list (chs ! x) i)" "distinct next1" "set next1 = set next \<union> {i \<in> set (chs ! x). deg1 ! i = 0}"
    using Cons.prems(2,8) by simp_all
  have deg1: "\<forall>i<n. deg1 ! i = pend D (insert x W) i" using D(2) Cons.prems(4) cnt pend_insert [OF x(2)] by simp
  have n1: "\<forall>i\<in>set next1. i < n \<and> deg1 ! i = 0"
  proof
    fix i assume "i \<in> set next1"
    then consider "i \<in> set next" | "i \<in> set (chs ! x)" "deg1 ! i = 0" using D(4) by auto
    then show "i < n \<and> deg1 ! i = 0"
    proof cases
      case 1
      then have "i < n" "deg ! i = 0" using Cons.prems(8) by auto
      then show ?thesis using D(2) [of i] deg1 pos [of i] by simp
    next
      case 2
      then show ?thesis using rng Cons.prems(2) by auto
    qed
  qed
  have "set cur \<subseteq> {..<n} - insert x W" "distinct cur" using Cons.prems(5,6) x(3) by auto
  note IH = Cons.IH [OF r D(1) Cons.prems(3) deg1 this(2,1) D(3) n1]
  have mem: "i \<in> set (chs ! x) \<longleftrightarrow> deg1 ! i \<noteq> deg ! i" if "i < n" for i using D(2) [OF that] count_list_0_iff [of "chs ! x" i] by auto
  have down: "deg' ! i = 0" if "i < n" "deg1 ! i = 0" for i
  proof -
    have "pend D (insert x W \<union> set cur) i \<le> pend D (insert x W) i"
    proof -
      have "length (filter (\<lambda>d. d \<notin> insert x W \<union> set cur) ds) \<le> length (filter (\<lambda>d. d \<notin> insert x W) ds)" for ds by (induction ds) auto
      then show ?thesis by (simp add: pend_def)
    qed
    then show ?thesis using IH deg1 that by (simp add: pend_def)
  qed
  have "set next' = set next \<union> {i. i < n \<and> deg' ! i = 0 \<and> deg ! i \<noteq> 0}" (is "_ = ?R")
  proof (rule set_eqI)
    fix i
    have rng': "i \<in> set (chs ! x) \<Longrightarrow> i < n" using rng Cons.prems(2) by blast
    have "i \<in> set next' \<longleftrightarrow> i \<in> set next \<or> (i < n \<and> deg1 ! i = 0 \<and> deg ! i \<noteq> 0) \<or> (i < n \<and> deg' ! i = 0 \<and> deg1 ! i \<noteq> 0)"
      using IH D(4) mem [of i] rng' by auto
    also have "\<dots> \<longleftrightarrow> i \<in> ?R"
    proof (cases "i < n \<and> deg1 ! i \<noteq> 0 \<and> deg ! i = 0")
      case True
      then show ?thesis using D(2) [of i] deg1 pos [of i] by auto
    qed (use down [of i] in auto)
    finally show "i \<in> set next' \<longleftrightarrow> i \<in> ?R" .
  qed
  then show ?case using IH by simp
qed

lemma concat_nth_set: "x \<in> set (concat xss) \<longleftrightarrow> (\<exists>k<length xss. x \<in> set (xss ! k))"
  by (metis UN_iff in_set_conv_nth nth_mem set_concat)

text \<open>
  Layers as lists of node numbers: each node once, its dependencies in earlier layers, and some dependency in
  the layer just before, so that no node waits longer than it must.
\<close>

definition layered :: "(nat \<Rightarrow> nat list) \<Rightarrow> nat list list \<Rightarrow> bool" where
  "layered D I \<longleftrightarrow> distinct (concat I) \<and> (\<forall>k<length I. \<forall>i\<in>set (I ! k). set (D i) \<subseteq> set (concat (take k I)))
     \<and> (\<forall>k. Suc k < length I \<longrightarrow> (\<forall>i\<in>set (I ! Suc k). set (D i) \<inter> set (I ! k) \<noteq> {}))"

lemma pend_zero: "pend D W i = 0 \<longleftrightarrow> set (D i) \<subseteq> W"
  by (auto simp: pend_def filter_empty_conv)

lemma layered_snoc:
  assumes "layered D I" "distinct C" "set C \<inter> set (concat I) = {}" "\<forall>i\<in>set C. set (D i) \<subseteq> set (concat I)"
    and "I \<noteq> [] \<Longrightarrow> \<forall>i\<in>set C. set (D i) \<inter> set (last I) \<noteq> {}"
  shows "layered D (I @ [C])"
proof -
  have "set (D i) \<subseteq> set (concat (take k (I @ [C])))" if "k < length (I @ [C])" "i \<in> set ((I @ [C]) ! k)" for k i
    using that assms(1,4) by (cases "k = length I") (auto simp: layered_def nth_append)
  moreover have "set (D i) \<inter> set ((I @ [C]) ! k) \<noteq> {}" if "Suc k < length (I @ [C])" "i \<in> set ((I @ [C]) ! Suc k)" for k i
  proof (cases "Suc k = length I")
    case True
    then have ne: "I \<noteq> []" by auto
    then have "I ! k = last I" using True by (simp add: last_conv_nth flip: True)
    then show ?thesis using that True assms(5) [OF ne] by (simp add: nth_append)
  next
    case False
    then show ?thesis using that assms(1) by (simp add: layered_def nth_append)
  qed
  ultimately show ?thesis using assms(1-3) unfolding layered_def by auto
qed

lemma dag_kahn_ok:
  assumes "dag_kahn nodes chs cur deg (map (map ((!) nodes)) I) (length (concat I)) = (layers, visited)" "length deg = n"
    and "\<forall>d<n. \<forall>j. count_list (chs ! d) j = (if j < n then count_list (D j) d else 0)"
    and "\<forall>i<n. deg ! i = pend D (set (concat I)) i" "distinct cur" "layered D I" "set (concat I) \<subseteq> {..<n}"
    and "set cur = {i. i < n \<and> deg ! i = 0} - set (concat I)" "I \<noteq> [] \<Longrightarrow> \<forall>i\<in>set cur. set (D i) \<inter> set (last I) \<noteq> {}"
  shows "\<exists>J. layers = map (map ((!) nodes)) J \<and> visited = length (concat J) \<and> layered D J \<and> set (concat J) \<subseteq> {..<n}
    \<and> (\<forall>i<n. i \<notin> set (concat J) \<longrightarrow> \<not> set (D i) \<subseteq> set (concat J))"
  using assms
proof (induction "n - length (concat I)" arbitrary: cur deg I rule: less_induct)
  case less
  show ?case
  proof (cases "cur = []")
    case True
    then have "layers = map (map ((!) nodes)) I" "visited = length (concat I)" using less.prems(1) by (simp_all add: dag_kahn.simps)
    moreover have "\<not> set (D i) \<subseteq> set (concat I)" if "i < n" "i \<notin> set (concat I)" for i
      using less.prems(4,8) True that pend_zero [of D "set (concat I)" i] by auto
    ultimately show ?thesis using less.prems(6,7) by blast
  next
    case False
    let ?J = "I @ [cur]"
    obtain deg' cur' where r: "dag_round chs cur deg [] = (deg', cur')" by force
    have cur: "set cur \<subseteq> {..<n} - set (concat I)" using less.prems(8) by auto
    note R = dag_round_ok [OF r less.prems(2,3,4,5) cur]
    then have R: "length deg' = n" "\<forall>i<n. deg' ! i = pend D (set (concat ?J)) i" "distinct cur'" "set cur' = {i. i < n \<and> deg' ! i = 0 \<and> deg ! i \<noteq> 0}"
      by simp_all
    have k: "dag_kahn nodes chs cur' deg' (map (map ((!) nodes)) ?J) (length (concat ?J)) = (layers, visited)"
      using less.prems(1) False r by (simp add: dag_kahn.simps [of nodes chs cur])
    have deps: "\<forall>i\<in>set cur. set (D i) \<subseteq> set (concat I)"
    proof
      fix i assume "i \<in> set cur"
      then have "i < n" "deg ! i = 0" using less.prems(8) by blast+
      then show "set (D i) \<subseteq> set (concat I)" using less.prems(4) pend_zero [of D "set (concat I)" i] by simp
    qed
    have lay: "layered D ?J" using less.prems(5,6,9) cur deps by (intro layered_snoc) auto
    have sub: "set (concat ?J) \<subseteq> {..<n}" using cur less.prems(7) by auto
    have "distinct (concat ?J)" using lay by (simp only: layered_def)
    then have "length (concat ?J) \<le> n" using sub by (metis card_lessThan card_mono distinct_card finite_lessThan)
    then have lt: "n - length (concat ?J) < n - length (concat I)" using False by (cases cur) simp_all
    have zero: "deg ! i = 0 \<longleftrightarrow> i \<in> set (concat ?J)" if "i < n" for i
    proof -
      have "deg ! i = 0" if mem: "i \<in> set (concat I)"
      proof -
        obtain m where "m < length I" "i \<in> set (I ! m)" using mem concat_nth_set [of i I] by metis
        then have "set (D i) \<subseteq> set (concat (take m I))" using less.prems(6) by (simp add: layered_def)
        also have "\<dots> \<subseteq> set (concat I)" using set_take_subset [of m I] by auto
        finally show ?thesis using less.prems(4) \<open>i < n\<close> pend_zero [of D "set (concat I)" i] by simp
      qed
      then show ?thesis using less.prems(8) that by auto
    qed
    have c': "set cur' = {i. i < n \<and> deg' ! i = 0} - set (concat ?J)" using R(4) zero by blast
    have last: "\<forall>i\<in>set cur'. set (D i) \<inter> set (last ?J) \<noteq> {}"
    proof
      fix i assume "i \<in> set cur'"
      then have "i < n" "set (D i) \<subseteq> set (concat ?J)" "\<not> set (D i) \<subseteq> set (concat I)"
        using R(2,4) less.prems(4) pend_zero [of D "set (concat ?J)" i] pend_zero [of D "set (concat I)" i] by auto
      then show "set (D i) \<inter> set (last ?J) \<noteq> {}" by auto
    qed
    show ?thesis by (rule less.hyps [OF lt k R(1) less.prems(3) R(2,3) lay sub c' last])
  qed
qed

section \<open>What the sort decides\<close>

text \<open>The dependency relation on names and the graphs the documentation calls valid.\<close>

definition depends :: "Node list \<Rightarrow> (key \<times> key) set" where
  "depends nodes = {(d, nd_Name x) |d x. x \<in> set nodes \<and> d \<in> set (nd_DependsOn x)}"

definition valid_dag :: "Node list \<Rightarrow> bool" where
  "valid_dag nodes \<longleftrightarrow> distinct (map nd_Name nodes) \<and> [] \<notin> nd_Name ` set nodes
     \<and> (\<forall>x\<in>set nodes. set (nd_DependsOn x) \<subseteq> nd_Name ` set nodes) \<and> acyclic (depends nodes)"

definition good_layers :: "Node list \<Rightarrow> Node list list \<Rightarrow> bool" where
  "good_layers nodes layers \<longleftrightarrow> mset (concat layers) = mset nodes
     \<and> (\<forall>k<length layers. \<forall>x\<in>set (layers ! k). set (nd_DependsOn x) \<subseteq> nd_Name ` set (concat (take k layers)))
     \<and> (\<forall>k. Suc k < length layers \<longrightarrow> (\<forall>x\<in>set (layers ! Suc k). \<exists>y\<in>set (layers ! k). nd_Name y \<in> set (nd_DependsOn x)))"

lemma finite_depends: "finite (depends nodes)"
proof -
  have "depends nodes \<subseteq> (\<Union>x\<in>set nodes. (\<lambda>d. (d, nd_Name x)) ` set (nd_DependsOn x))" by (auto simp: depends_def)
  then show ?thesis by (rule finite_subset) simp
qed

lemma good_layers_acyclic:
  assumes "good_layers nodes layers" "distinct (map nd_Name nodes)"
  shows "acyclic (depends nodes)"
proof -
  have ms: "set (concat layers) = set nodes" "distinct (map nd_Name (concat layers))"
    using assms by (metis good_layers_def mset_eq_setD) (metis assms good_layers_def mset_eq_imp_distinct_iff mset_map)
  define rank where "rank k = (LEAST m. k \<in> nd_Name ` set (concat (take (Suc m) layers)))" for k
  have "rank d < rank (nd_Name x)" if x: "x \<in> set nodes" and d: "d \<in> set (nd_DependsOn x)" for x d
  proof -
    obtain k0 where "k0 < length layers" "x \<in> set (layers ! k0)" using x ms(1) by (metis concat_nth_set)
    then have "nd_Name x \<in> nd_Name ` set (concat (take (Suc k0) layers))" by (auto simp: take_Suc_conv_app_nth)
    then have "nd_Name x \<in> nd_Name ` set (concat (take (Suc (rank (nd_Name x))) layers))" unfolding rank_def by (rule LeastI)
    then obtain y where y: "y \<in> set (concat (take (Suc (rank (nd_Name x))) layers))" "nd_Name y = nd_Name x" by (metis imageE)
    then have "y \<in> set nodes" using ms(1) set_take_subset [of _ layers] by fastforce
    then have "y = x" using assms(2) x y(2) by (meson distinct_map inj_onD)
    then obtain m where m: "m \<le> rank (nd_Name x)" "m < length layers" "x \<in> set (layers ! m)"
      using y(1) by (auto simp: concat_nth_set less_Suc_eq_le simp del: set_concat)
    then have "d \<in> nd_Name ` set (concat (take m layers))" using assms(1) d unfolding good_layers_def by blast
    then obtain m' where "m = Suc m'" "d \<in> nd_Name ` set (concat (take (Suc m') layers))" by (cases m) auto
    then have "rank d \<le> m'" unfolding rank_def by (simp add: Least_le)
    then show ?thesis using m(1) \<open>m = Suc m'\<close> by simp
  qed
  then have "depends nodes \<subseteq> measure rank" by (auto simp: depends_def)
  then show ?thesis using wf_acyclic wf_subset [OF wf_measure] by blast
qed

lemma layers_good:
  assumes idx: "\<forall>j<length nodes. index (nd_Name (nodes ! j)) = Some j"
    and known: "\<forall>x\<in>set nodes. set (nd_DependsOn x) \<subseteq> nd_Name ` set nodes"
    and J: "layered (\<lambda>i. map (the \<circ> index) (nd_DependsOn (nodes ! i))) J" "set (concat J) \<subseteq> {..<length nodes}" "length nodes \<le> length (concat J)"
  shows "good_layers nodes (map (map ((!) nodes)) J)"
proof -
  let ?L = "map (map ((!) nodes)) J"
  have dist: "distinct (concat J)" using J(1) by (simp only: layered_def)
  have "card (set (concat J)) = length (concat J)" using dist by (rule distinct_card)
  then have "set (concat J) = {..<length nodes}" using J(2,3) by (metis card_lessThan card_seteq finite_lessThan)
  then have "mset (concat J) = mset [0..<length nodes]" using dist by (metis atLeast0LessThan distinct_upt set_eq_iff_mset_eq_distinct set_upt)
  then have "mset (map ((!) nodes) (concat J)) = mset (map ((!) nodes) [0..<length nodes])" by (metis mset_map)
  then have ms: "mset (concat ?L) = mset nodes" by (simp add: map_concat map_nth)
  have name: "nd_Name (nodes ! the (index d)) = d" if "i < length nodes" "d \<in> set (nd_DependsOn (nodes ! i))" for i d
  proof -
    have "d \<in> nd_Name ` set nodes" using known that by auto
    then obtain j where "j < length nodes" "nd_Name (nodes ! j) = d" by (auto simp: in_set_conv_nth)
    then show ?thesis using idx by auto
  qed
  have in_J: "i < length nodes" if "k < length J" "i \<in> set (J ! k)" for i k using J(2) that concat_nth_set [of i J] by blast
  have deps: "set (nd_DependsOn x) \<subseteq> nd_Name ` set (concat (take k ?L))" if k: "k < length ?L" "x \<in> set (?L ! k)" for k x
  proof
    fix d assume d: "d \<in> set (nd_DependsOn x)"
    obtain i where i: "i \<in> set (J ! k)" "x = nodes ! i" using k by auto
    then have "the (index d) \<in> set (concat (take k J))" using J(1) k d unfolding layered_def by fastforce
    then have "nodes ! the (index d) \<in> set (concat (take k ?L))" by (auto simp: take_map)
    then show "d \<in> nd_Name ` set (concat (take k ?L))" using name [of i d] in_J [of k i] i d k by (metis image_eqI length_map)
  qed
  have near: "\<exists>y\<in>set (?L ! k). nd_Name y \<in> set (nd_DependsOn x)" if k: "Suc k < length ?L" "x \<in> set (?L ! Suc k)" for k x
  proof -
    obtain i where i: "i \<in> set (J ! Suc k)" "x = nodes ! i" using k by auto
    then have "set (map (the \<circ> index) (nd_DependsOn (nodes ! i))) \<inter> set (J ! k) \<noteq> {}" using J(1) k unfolding layered_def by simp
    then obtain d where d: "d \<in> set (nd_DependsOn x)" "the (index d) \<in> set (J ! k)" using i(2) by auto
    then have "nodes ! the (index d) \<in> set (?L ! k)" using k by simp
    moreover have "nd_Name (nodes ! the (index d)) = d" using name [of i d] in_J [of "Suc k" i] i d k by simp
    ultimately show ?thesis using d(1) by metis
  qed
  show ?thesis using ms deps near unfolding good_layers_def by blast
qed

lemma stuck_cyclic:
  assumes "\<forall>j<length nodes. index (nd_Name (nodes ! j)) = Some j"
    and "\<forall>x\<in>set nodes. set (nd_DependsOn x) \<subseteq> nd_Name ` set nodes" and "V \<subset> {..<length nodes}"
    and stuck: "\<forall>i<length nodes. i \<notin> V \<longrightarrow> \<not> set (map (the \<circ> index) (nd_DependsOn (nodes ! i))) \<subseteq> V"
  shows "\<not> acyclic (depends nodes)"
proof
  assume "acyclic (depends nodes)"
  then have wf: "wf (depends nodes)" using finite_acyclic_wf finite_depends by blast
  define S where "S = (\<lambda>i. nd_Name (nodes ! i)) ` ({..<length nodes} - V)"
  have "S \<noteq> {}" using assms(3) by (auto simp: S_def)
  then obtain z where z: "z \<in> S" "\<forall>y. (y, z) \<in> depends nodes \<longrightarrow> y \<notin> S" using wfE_min' [OF wf, of S] by auto
  then obtain i where i: "i < length nodes" "i \<notin> V" "z = nd_Name (nodes ! i)" by (auto simp: S_def)
  then obtain d where d: "d \<in> set (nd_DependsOn (nodes ! i))" "the (index d) \<notin> V" using stuck by auto
  have "d \<in> nd_Name ` set nodes" using assms(2) d(1) i(1) by auto
  then obtain j where j: "j < length nodes" "nd_Name (nodes ! j) = d" by (auto simp: in_set_conv_nth)
  then have "j \<notin> V" using assms(1) d(2) by auto
  then have "d \<in> S" using j by (auto simp: S_def)
  moreover have "(d, z) \<in> depends nodes" using i d(1) by (auto simp: depends_def)
  ultimately show False using z(2) by blast
qed

lemma topoSort_result:
  "case topoSort nodes of
     Inr layers \<Rightarrow> good_layers nodes layers \<and> valid_dag nodes
   | Inl e \<Rightarrow> \<not> valid_dag nodes"
proof (cases "nodes = []")
  case True
  then show ?thesis by (simp add: topoSort_def good_layers_def valid_dag_def depends_def acyclic_def)
next
  case ne: False
  let ?n = "length nodes" and ?init = "(replicate (length nodes) 0, replicate (length nodes) [])"
  show ?thesis
  proof (cases "dag_index 0 nodes Map.empty")
    case (Inl e)
    then show ?thesis using ne dag_index_Inl [OF Inl] by (simp add: topoSort_def valid_dag_def)
  next
    case idx: (Inr index)
    note I = dag_index_Inr [OF idx]
    then have names: "distinct (map nd_Name nodes)" "[] \<notin> nd_Name ` set nodes" and at: "\<forall>j<?n. index (nd_Name (nodes ! j)) = Some j"
      and off: "\<forall>k. k \<notin> nd_Name ` set nodes \<longrightarrow> index k = None" by simp_all
    have dom: "dom index = nd_Name ` set nodes" using at off by (auto simp: in_set_conv_nth dom_def)
    have bound: "\<forall>d di. index d = Some di \<longrightarrow> di < ?n"
    proof (intro allI impI)
      fix d di assume "index d = Some di"
      then have "d \<in> nd_Name ` set nodes" using dom by blast
      then obtain j where "j < ?n" "nd_Name (nodes ! j) = d" by (auto simp: in_set_conv_nth)
      then show "di < ?n" using at \<open>index d = Some di\<close> by auto
    qed
    show ?thesis
    proof (cases "dag_edges index 0 nodes ?init")
      case (Inl e)
      then show ?thesis using ne idx dag_edges_Inl [OF Inl] dom by (simp add: topoSort_def valid_dag_def)
    next
      case ed: (Inr dc)
      obtain deg chs where dc: "dc = (deg, chs)" by force
      define D where "D i = map (the \<circ> index) (nd_DependsOn (nodes ! i))" for i
      note E = dag_edges_Inr [OF ed [unfolded dc]]
      then have known: "\<forall>x\<in>set nodes. set (nd_DependsOn x) \<subseteq> nd_Name ` set nodes" and len: "length deg = ?n"
        and deg: "\<forall>i<?n. deg ! i = pend D (set (concat ([] :: nat list list))) i"
        and cnt: "\<forall>d<?n. \<forall>j. count_list (chs ! d) j = (if j < ?n then count_list (D j) d else 0)"
        using bound dom by (simp_all add: D_def pend_def)
      obtain layers visited where k: "dag_kahn nodes chs (filter (\<lambda>i. deg ! i = 0) [0..<?n]) deg (map (map ((!) nodes)) []) (length (concat ([] :: nat list list))) = (layers, visited)"
        by force
      have "layered D []" "set (filter (\<lambda>i. deg ! i = 0) [0..<?n]) = {i. i < ?n \<and> deg ! i = 0} - set (concat ([] :: nat list list))" by (auto simp: layered_def)
      from dag_kahn_ok [OF k len cnt deg _ this(1) _ this(2)]
      obtain J where J: "layers = map (map ((!) nodes)) J" "visited = length (concat J)" "layered D J" "set (concat J) \<subseteq> {..<?n}"
        "\<forall>i<?n. i \<notin> set (concat J) \<longrightarrow> \<not> set (D i) \<subseteq> set (concat J)" by auto
      have res: "topoSort nodes = (if visited < ?n then Inl Cycle else Inr layers)"
        using ne idx ed dc k by (simp add: topoSort_def Let_def)
      show ?thesis
      proof (cases "visited < ?n")
        case True
        have "card (set (concat J)) < ?n" using True J(2) card_length [of "concat J"] by linarith
        then have "set (concat J) \<subset> {..<?n}" using J(4) by (metis card_lessThan less_irrefl psubsetI)
        then have "\<not> acyclic (depends nodes)" using stuck_cyclic [OF at known] J(5) unfolding D_def by blast
        then show ?thesis using res True by (simp add: valid_dag_def)
      next
        case False
        have "good_layers nodes layers" unfolding J(1) using J False by (intro layers_good [OF at known]) (simp_all add: D_def [abs_def])
        then show ?thesis using res False good_layers_acyclic names known by (simp add: valid_dag_def)
      qed
    qed
  qed
qed

text \<open>Within a layer the order is that in which the dependencies were resolved, not that of the input.\<close>

lemma topoSort_order_example:
  "map (map nd_Name) (projr (topoSort
     [\<lparr>nd_Name = ''a'', nd_DependsOn = [], nd_Run = None\<rparr>, \<lparr>nd_Name = ''b'', nd_DependsOn = [], nd_Run = None\<rparr>,
      \<lparr>nd_Name = ''x'', nd_DependsOn = [''b''], nd_Run = None\<rparr>, \<lparr>nd_Name = ''y'', nd_DependsOn = [''a''], nd_Run = None\<rparr>]))
   = [[''a'', ''b''], [''y'', ''x'']]"
  by (simp add: topoSort_def dag_kahn.simps upt_rec numeral_nat)

section \<open>Running\<close>

lemma runLayer_Nil: "runLayer run layer par = [] \<longleftrightarrow> (\<forall>x\<in>set layer. execNode run x = None)"
  by (induction layer) (auto simp: runLayer_def List.map_filter_simps split: option.splits)

lemma dag_run_loop_ok:
  assumes "dag_run_loop run ctx st par k layers collected = (errs, later)"
  shows "\<exists>m\<le>length layers. later = take m layers
    \<and> (errs = [] \<longleftrightarrow> collected = [] \<and> m = length layers \<and> (\<forall>x\<in>set (concat layers). execNode run x = None))
    \<and> (st = FailFast \<longrightarrow> (\<forall>j. Suc j < m \<longrightarrow> (\<forall>x\<in>set (layers ! j). execNode run x = None)))
    \<and> (m < length layers \<longrightarrow> ctx (k + m) \<noteq> None \<or> st = FailFast \<and> 0 < m \<and> (\<exists>x\<in>set (layers ! (m - 1)). execNode run x \<noteq> None))"
  using assms
proof (induction layers arbitrary: k collected errs later)
  case (Cons layer layers)
  show ?case
  proof (cases "ctx k")
    case (Some e)
    then show ?thesis using Cons.prems by auto
  next
    case None
    show ?thesis
    proof (cases "runLayer run layer par \<noteq> [] \<and> st = FailFast")
      case True
      then have "later = take 1 (layer # layers)" "errs \<noteq> []" using Cons.prems None by auto
      moreover have "\<exists>x\<in>set layer. execNode run x \<noteq> None" using True by (simp add: runLayer_Nil)
      ultimately show ?thesis using True by (intro exI [of _ 1]) auto
    next
      case False
      then obtain later' where r: "dag_run_loop run ctx st par (Suc k) layers (collected @ runLayer run layer par) = (errs, later')" and l: "later = layer # later'"
        using Cons.prems None by (auto simp: Let_def split: prod.splits)
      from Cons.IH [OF r] obtain m where m: "m \<le> length layers" "later' = take m layers"
        "errs = [] \<longleftrightarrow> collected @ runLayer run layer par = [] \<and> m = length layers \<and> (\<forall>x\<in>set (concat layers). execNode run x = None)"
        "st = FailFast \<longrightarrow> (\<forall>j. Suc j < m \<longrightarrow> (\<forall>x\<in>set (layers ! j). execNode run x = None))"
        "m < length layers \<longrightarrow> ctx (Suc k + m) \<noteq> None \<or> st = FailFast \<and> 0 < m \<and> (\<exists>x\<in>set (layers ! (m - 1)). execNode run x \<noteq> None)" by blast
      have "st = FailFast \<longrightarrow> (\<forall>j. Suc j < Suc m \<longrightarrow> (\<forall>x\<in>set ((layer # layers) ! j). execNode run x = None))"
      proof (intro impI allI)
        fix j assume st: "st = FailFast" and j: "Suc j < Suc m"
        then show "\<forall>x\<in>set ((layer # layers) ! j). execNode run x = None"
          using m(4) False runLayer_Nil [of run layer par] by (cases j) auto
      qed
      moreover have "errs = [] \<longleftrightarrow> collected = [] \<and> Suc m = length (layer # layers) \<and> (\<forall>x\<in>set (concat (layer # layers)). execNode run x = None)"
        using m(3) runLayer_Nil [of run layer par] by auto
      moreover have "Suc m < length (layer # layers) \<longrightarrow> ctx (k + Suc m) \<noteq> None
          \<or> st = FailFast \<and> 0 < Suc m \<and> (\<exists>x\<in>set ((layer # layers) ! (Suc m - 1)). execNode run x \<noteq> None)"
        using m(5) by (cases m) auto
      ultimately show ?thesis using m(1,2) l by (intro exI [of _ "Suc m"]) auto
    qed
  qed
qed simp

section \<open>Properties\<close>

text \<open>\<open>topoSort\<close> decides validity and sorts: it succeeds exactly on the graphs with distinct non-empty names, known
  dependencies and no cycle, and then its layers hold every node once, every dependency of a node is in an
  earlier layer, and every node of a later layer has a dependency in the layer just before it.\<close>

theorem topoSort_correct:
  "case topoSort nodes of
     Inl e \<Rightarrow> \<not> valid_dag nodes
   | Inr layers \<Rightarrow> valid_dag nodes \<and> mset (concat layers) = mset nodes
       \<and> (\<forall>k<length layers. \<forall>x\<in>set (layers ! k). set (nd_DependsOn x) \<subseteq> nd_Name ` set (concat (take k layers)))
       \<and> (\<forall>k. Suc k < length layers \<longrightarrow> (\<forall>x\<in>set (layers ! Suc k). \<exists>y\<in>set (layers ! k). nd_Name y \<in> set (nd_DependsOn x)))"
  using topoSort_result [of nodes] by (simp add: good_layers_def split: sum.splits)

theorem topoSort_correct_witness:
  "\<not> valid_dag [\<lparr>nd_Name = ''a'', nd_DependsOn = [''a''], nd_Run = None\<rparr>]"
proof -
  have "topoSort [\<lparr>nd_Name = ''a'', nd_DependsOn = [''a''], nd_Run = None\<rparr>] = Inl Cycle"
    by (simp add: topoSort_def dag_kahn.simps)
  then show ?thesis using topoSort_correct [of "[\<lparr>nd_Name = ''a'', nd_DependsOn = [''a''], nd_Run = None\<rparr>]"] by simp
qed

text \<open>C23. \<open>Run\<close> on a graph runs an initial part of the layers, and no node before the nodes it depends on; it returns
  nil exactly when every layer ran and every node succeeded. It stops early only because the context was
  cancelled or, under \<open>FailFast\<close>, because a node of the last layer run failed; and under \<open>FailFast\<close> every
  dependency of a node that runs has run and succeeded. On an invalid graph it runs nothing and returns an error.\<close>

theorem DAG_Run_order:
  "case DAG_Run run ctx d of (errs, ran_layers) \<Rightarrow>
     (if valid_dag (dag_nodes d)
      then \<exists>layers m. topoSort (dag_nodes d) = Inr layers \<and> m \<le> length layers \<and> ran_layers = take m layers
        \<and> (errs = [] \<longleftrightarrow> m = length layers \<and> (\<forall>x\<in>set (dag_nodes d). execNode run x = None))
        \<and> (m < length layers \<longrightarrow> ctx m \<noteq> None \<or> dag_strategy d = FailFast \<and> 0 < m \<and> (\<exists>x\<in>set (ran_layers ! (m - 1)). execNode run x \<noteq> None))
        \<and> (\<forall>k<m. \<forall>x\<in>set (ran_layers ! k). \<forall>dep\<in>set (nd_DependsOn x).
             \<exists>y\<in>set (concat (take k ran_layers)). nd_Name y = dep \<and> (dag_strategy d = FailFast \<longrightarrow> execNode run y = None))
      else errs \<noteq> [] \<and> ran_layers = [])"
proof (cases "topoSort (dag_nodes d)")
  case (Inl e)
  then show ?thesis using topoSort_result [of "dag_nodes d"] by (simp add: DAG_Run_def)
next
  case (Inr layers)
  have ok: "valid_dag (dag_nodes d)" "good_layers (dag_nodes d) layers" using topoSort_result [of "dag_nodes d"] Inr by simp_all
  obtain errs later where run: "DAG_Run run ctx d = (errs, later)" by force
  then have "dag_run_loop run ctx (dag_strategy d) (dag_maxParallel d) 0 layers [] = (errs, later)" using Inr by (simp add: DAG_Run_def)
  from dag_run_loop_ok [OF this] obtain m where m': "m \<le> length layers" "later = take m layers"
    "errs = [] \<longleftrightarrow> [] = ([] :: dag_err list) \<and> m = length layers \<and> (\<forall>x\<in>set (concat layers). execNode run x = None)"
    "dag_strategy d = FailFast \<longrightarrow> (\<forall>j. Suc j < m \<longrightarrow> (\<forall>x\<in>set (layers ! j). execNode run x = None))"
    "m < length layers \<longrightarrow> ctx (0 + m) \<noteq> None \<or> dag_strategy d = FailFast \<and> 0 < m \<and> (\<exists>x\<in>set (layers ! (m - 1)). execNode run x \<noteq> None)" by blast
  note m = m' [simplified refl simp_thms add_0]
  have nodes: "set (concat layers) = set (dag_nodes d)" using ok(2) unfolding good_layers_def by (metis mset_eq_setD)
  have dep: "\<exists>y\<in>set (concat (take k later)). nd_Name y = dep \<and> (dag_strategy d = FailFast \<longrightarrow> execNode run y = None)"
    if k: "k < m" "x \<in> set (later ! k)" "dep \<in> set (nd_DependsOn x)" for k x dep
  proof -
    have "x \<in> set (layers ! k)" "k < length layers" using k m(1,2) by simp_all
    then have "dep \<in> nd_Name ` set (concat (take k layers))" using ok(2) k(3) unfolding good_layers_def by blast
    then obtain y where y: "y \<in> set (concat (take k layers))" "nd_Name y = dep" by (metis imageE)
    then obtain j where j: "j < k" "y \<in> set (layers ! j)" using concat_nth_set [of y "take k layers"] by auto
    have "execNode run y = None" if "dag_strategy d = FailFast" proof -
      have "Suc j < m" using j(1) k(1) by simp
      then show ?thesis using m(4) that j(2) by blast
    qed
    moreover have "take k later = take k layers" using m(2) k(1) by (simp add: min_def)
    ultimately show ?thesis using y by metis
  qed
  have early: "m < length layers \<longrightarrow> ctx m \<noteq> None \<or> dag_strategy d = FailFast \<and> 0 < m \<and> (\<exists>x\<in>set (later ! (m - 1)). execNode run x \<noteq> None)"
    using m(2,5) by auto
  show ?thesis
    unfolding run prod.case if_P [OF ok(1)]
    by (intro exI [of _ layers] exI [of _ m] conjI Inr m(1,2) m(3) [unfolded nodes] early allI ballI impI dep)
qed

theorem DAG_Run_order_witness:
  "let d = DAG_Add [\<lparr>nd_Name = ''b'', nd_DependsOn = [''a''], nd_Run = Some 1\<rparr>, \<lparr>nd_Name = ''a'', nd_DependsOn = [], nd_Run = Some 0\<rparr>] (DAG_New [])
   in fst (DAG_Run (\<lambda>f. if f = 0 then Done (Some ''io'') else Done None) (\<lambda>_. None) d) \<noteq> []"
proof -
  define d where "d = DAG_Add [\<lparr>nd_Name = ''b'', nd_DependsOn = [''a''], nd_Run = Some 1\<rparr>, \<lparr>nd_Name = ''a'', nd_DependsOn = [], nd_Run = Some 0\<rparr>] (DAG_New [])"
  have "\<not> (\<forall>x\<in>set (dag_nodes d). execNode (\<lambda>f. if f = 0 then Done (Some ''io'') else Done None) x = None)"
    by (simp add: d_def DAG_Add_def DAG_New_def execNode_def)
  then show ?thesis using DAG_Run_order [where run = "\<lambda>f. if f = 0 then Done (Some ''io'') else Done None" and ctx = "\<lambda>_. None" and d = d]
    unfolding Let_def d_def [symmetric] by (auto split: prod.splits if_splits)
qed

end
