(* ===== verification/CircuitBreaker.thy ===== *)
theory CircuitBreaker
  imports Prelude Complex_Main
begin

text \<open>
  \<open>pkg/resilience/circuitbreaker\<close>: the breaker with its closed, open and half-open states. A call is two critical
  sections, the decision before the function and the record after it, and the model has both, so that calls
  can interleave; \<open>Breaker_Do\<close> is one call on its own. Ratios are rationals and \<open>fl\<close>, an argument, is the rounding of
  a quotient to \<open>float64\<close>. State changes passed to the callback are appended to a log.
\<close>

section \<open>The breaker\<close>

datatype BState = BClosed | BOpen | BHalfOpen

fun BState_String :: "BState \<Rightarrow> string" where
  "BState_String BClosed = ''closed''"
| "BState_String BOpen = ''open''"
| "BState_String BHalfOpen = ''half-open''"

record cb_config =
  cb_threshold :: rat
  cb_window :: duration
  cb_cooldown :: duration
  cb_halfOpenMax :: int
  cb_minRequests :: int
  cb_onChange :: bool

datatype cb_option = WithThreshold rat | WithWindow duration | WithCooldown duration | WithHalfOpenMax int | WithMinRequests int | WithOnStateChange

fun cb_apply :: "cb_option \<Rightarrow> cb_config \<Rightarrow> cb_config" where
  "cb_apply (WithThreshold r) c = (if 0 < r \<and> r \<le> 1 then c\<lparr>cb_threshold := r\<rparr> else c)"
| "cb_apply (WithWindow d) c = (if 0 < d then c\<lparr>cb_window := d\<rparr> else c)"
| "cb_apply (WithCooldown d) c = (if 0 < d then c\<lparr>cb_cooldown := d\<rparr> else c)"
| "cb_apply (WithHalfOpenMax n) c = (if 0 < n then c\<lparr>cb_halfOpenMax := n\<rparr> else c)"
| "cb_apply (WithMinRequests n) c = (if 0 < n then c\<lparr>cb_minRequests := n\<rparr> else c)"
| "cb_apply WithOnStateChange c = c\<lparr>cb_onChange := True\<rparr>"

record Breaker =
  br_cfg :: cb_config
  br_state :: BState
  br_openedAt :: time
  br_total :: int
  br_failures :: int
  br_windowStart :: time
  br_halfSucc :: int
  br_halfFail :: int
  br_changes :: "(BState \<times> BState) list"

definition Breaker_New :: "time \<Rightarrow> cb_option list \<Rightarrow> Breaker" where
  "Breaker_New now opts =
     \<lparr>br_cfg = fold cb_apply opts \<lparr>cb_threshold = 1 / 2, cb_window = 10 * second, cb_cooldown = 5 * second,
                                   cb_halfOpenMax = 3, cb_minRequests = 10, cb_onChange = False\<rparr>,
      br_state = BClosed, br_openedAt = 0, br_total = 0, br_failures = 0, br_windowStart = now,
      br_halfSucc = 0, br_halfFail = 0, br_changes = []\<rparr>"

definition Breaker_transition :: "BState \<Rightarrow> Breaker \<Rightarrow> Breaker" where
  "Breaker_transition to b =
     (if br_state b = to then b
      else let b' = b\<lparr>br_state := to\<rparr>
           in if cb_onChange (br_cfg b) then b'\<lparr>br_changes := br_changes b @ [(br_state b, to)]\<rparr> else b')"

definition Breaker_resetWindow :: "time \<Rightarrow> Breaker \<Rightarrow> Breaker" where
  "Breaker_resetWindow now b = b\<lparr>br_total := 0, br_failures := 0, br_windowStart := now\<rparr>"

definition Breaker_checkStateTransition :: "time \<Rightarrow> Breaker \<Rightarrow> Breaker" where
  "Breaker_checkStateTransition now b =
     (case br_state b of
        BOpen \<Rightarrow> if cb_cooldown (br_cfg b) \<le> now - br_openedAt b
                 then (Breaker_transition BHalfOpen b)\<lparr>br_halfSucc := 0, br_halfFail := 0\<rparr> else b
      | BClosed \<Rightarrow> if cb_window (br_cfg b) \<le> now - br_windowStart b then Breaker_resetWindow now b else b
      | BHalfOpen \<Rightarrow> b)"

definition Breaker_State :: "time \<Rightarrow> Breaker \<Rightarrow> BState \<times> Breaker" where
  "Breaker_State now b = (let b' = Breaker_checkStateTransition now b in (br_state b', b'))"

text \<open>The counters are \<open>int64\<close> and \<open>int\<close>; the loaded values are added with wrap-around.\<close>

definition Breaker_recordClosed :: "(rat \<Rightarrow> rat) \<Rightarrow> time \<Rightarrow> err option \<Rightarrow> Breaker \<Rightarrow> Breaker" where
  "Breaker_recordClosed fl now e b =
     (let b1 = (if cb_window (br_cfg b) \<le> now - br_windowStart b then Breaker_resetWindow now b else b);
          b2 = b1\<lparr>br_total := wrap64 (br_total b1 + 1)\<rparr>;
          b3 = (if e \<noteq> None then b2\<lparr>br_failures := wrap64 (br_failures b2 + 1)\<rparr> else b2)
      in if cb_minRequests (br_cfg b3) \<le> br_total b3 \<and> cb_threshold (br_cfg b3) \<le> fl (of_int (br_failures b3) / of_int (br_total b3))
         then (Breaker_transition BOpen b3)\<lparr>br_openedAt := now\<rparr> else b3)"

definition Breaker_recordHalfOpen :: "time \<Rightarrow> err option \<Rightarrow> Breaker \<Rightarrow> Breaker" where
  "Breaker_recordHalfOpen now e b =
     (if e \<noteq> None
      then (Breaker_transition BOpen (b\<lparr>br_halfFail := wrap64 (br_halfFail b + 1)\<rparr>))\<lparr>br_openedAt := now\<rparr>
      else let b1 = b\<lparr>br_halfSucc := wrap64 (br_halfSucc b + 1)\<rparr>
           in if cb_halfOpenMax (br_cfg b1) \<le> br_halfSucc b1 then Breaker_resetWindow now (Breaker_transition BClosed b1) else b1)"

text \<open>What the first critical section of \<open>Do\<close> decides.\<close>

datatype decision = Reject | RunClosed | RunHalfOpen

definition Breaker_Do_enter :: "time \<Rightarrow> Breaker \<Rightarrow> decision \<times> Breaker" where
  "Breaker_Do_enter now b =
     (let b' = Breaker_checkStateTransition now b
      in (case br_state b' of
            BOpen \<Rightarrow> Reject
          | BHalfOpen \<Rightarrow> if cb_halfOpenMax (br_cfg b') \<le> wrap64 (br_halfSucc b' + br_halfFail b') then Reject else RunHalfOpen
          | BClosed \<Rightarrow> RunClosed, b'))"

definition Breaker_Do_record :: "(rat \<Rightarrow> rat) \<Rightarrow> time \<Rightarrow> decision \<Rightarrow> err option \<Rightarrow> Breaker \<Rightarrow> Breaker" where
  "Breaker_Do_record fl now d e b =
     (case d of Reject \<Rightarrow> b | RunClosed \<Rightarrow> Breaker_recordClosed fl now e b | RunHalfOpen \<Rightarrow> Breaker_recordHalfOpen now e b)"

text \<open>One call: entered at \<open>t1\<close>, the function returns \<open>e\<close> and the result is recorded at \<open>t2\<close>.\<close>

definition ErrCircuitOpen :: err where
  "ErrCircuitOpen = ''circuitbreaker: circuit open''"

definition Breaker_Do :: "(rat \<Rightarrow> rat) \<Rightarrow> time \<Rightarrow> time \<Rightarrow> err option \<Rightarrow> Breaker \<Rightarrow> bool \<times> err option \<times> Breaker" where
  "Breaker_Do fl t1 t2 e b =
     (case Breaker_Do_enter t1 b of
        (Reject, b1) \<Rightarrow> (False, Some ErrCircuitOpen, b1)
      | (d, b1) \<Rightarrow> (True, e, Breaker_Do_record fl t2 d e b1))"

definition Breaker_Successes :: "Breaker \<Rightarrow> int" where
  "Breaker_Successes b = wrap64 (br_total b - br_failures b)"

definition Breaker_Failures :: "Breaker \<Rightarrow> int" where
  "Breaker_Failures b = br_failures b"

section \<open>One call at a time\<close>

lemma transition_sel [simp]:
  "br_state (Breaker_transition to b) = to" "br_cfg (Breaker_transition to b) = br_cfg b"
  "br_openedAt (Breaker_transition to b) = br_openedAt b" "br_total (Breaker_transition to b) = br_total b"
  "br_failures (Breaker_transition to b) = br_failures b" "br_windowStart (Breaker_transition to b) = br_windowStart b"
  "br_halfSucc (Breaker_transition to b) = br_halfSucc b" "br_halfFail (Breaker_transition to b) = br_halfFail b"
  by (simp_all add: Breaker_transition_def Let_def)

lemma resetWindow_sel [simp]:
  "br_state (Breaker_resetWindow now b) = br_state b" "br_cfg (Breaker_resetWindow now b) = br_cfg b"
  "br_openedAt (Breaker_resetWindow now b) = br_openedAt b" "br_halfSucc (Breaker_resetWindow now b) = br_halfSucc b"
  "br_halfFail (Breaker_resetWindow now b) = br_halfFail b" "br_total (Breaker_resetWindow now b) = 0"
  "br_failures (Breaker_resetWindow now b) = 0" "br_windowStart (Breaker_resetWindow now b) = now"
  by (simp_all add: Breaker_resetWindow_def)

definition cfg_ok :: "cb_config \<Rightarrow> bool" where
  "cfg_ok c \<longleftrightarrow> 0 < cb_threshold c \<and> cb_threshold c \<le> 1 \<and> 0 < cb_window c \<and> 0 < cb_cooldown c \<and> 0 < cb_halfOpenMax c
     \<and> cb_halfOpenMax c < 2 ^ 63 \<and> 0 < cb_minRequests c"

text \<open>While half-open, every probe so far succeeded and another one is still wanted.\<close>

definition br_ok :: "Breaker \<Rightarrow> bool" where
  "br_ok b \<longleftrightarrow> cfg_ok (br_cfg b) \<and> 0 \<le> br_failures b \<and> br_failures b \<le> br_total b
     \<and> (br_state b = BHalfOpen \<longrightarrow> br_halfFail b = 0 \<and> 0 \<le> br_halfSucc b \<and> br_halfSucc b < cb_halfOpenMax (br_cfg b))"

lemma cb_apply_ok: "cfg_ok c \<Longrightarrow> (\<forall>n. o1 = WithHalfOpenMax n \<longrightarrow> n < 2 ^ 63) \<Longrightarrow> cfg_ok (cb_apply o1 c)"
  by (cases o1) (auto simp: cfg_ok_def)

lemma br_ok_new:
  assumes "\<forall>n. WithHalfOpenMax n \<in> set opts \<longrightarrow> n < 2 ^ 63"
  shows "br_ok (Breaker_New now opts)"
proof -
  have "cfg_ok (fold cb_apply opts c)" if "cfg_ok c" for c
    using that assms by (induction opts arbitrary: c) (auto simp: cb_apply_ok)
  moreover have "cfg_ok \<lparr>cb_threshold = 1 / 2, cb_window = 10 * second, cb_cooldown = 5 * second, cb_halfOpenMax = 3, cb_minRequests = 10, cb_onChange = False\<rparr>"
    by (simp add: cfg_ok_def second_def)
  ultimately show ?thesis by (simp add: br_ok_def Breaker_New_def)
qed

lemma wrap64_suc: "0 \<le> x \<Longrightarrow> x < 2 ^ 63 - 1 \<Longrightarrow> wrap64 (x + 1) = x + 1"
  by (simp add: in_i64_def)

lemma recordHalfOpen_cases:
  assumes ok: "br_ok b" and h: "br_state b = BHalfOpen"
  shows "case e of
      Some _ \<Rightarrow> br_state (Breaker_recordHalfOpen t e b) = BOpen \<and> br_openedAt (Breaker_recordHalfOpen t e b) = t
    | None \<Rightarrow> if br_halfSucc b + 1 = cb_halfOpenMax (br_cfg b)
              then br_state (Breaker_recordHalfOpen t e b) = BClosed \<and> br_total (Breaker_recordHalfOpen t e b) = 0 \<and> br_failures (Breaker_recordHalfOpen t e b) = 0
                \<and> br_windowStart (Breaker_recordHalfOpen t e b) = t
              else br_state (Breaker_recordHalfOpen t e b) = BHalfOpen \<and> br_halfSucc (Breaker_recordHalfOpen t e b) = br_halfSucc b + 1"
    and "br_ok (Breaker_recordHalfOpen t e b)"
proof -
  have hs: "0 \<le> br_halfSucc b" "br_halfSucc b < cb_halfOpenMax (br_cfg b)" "cb_halfOpenMax (br_cfg b) < 2 ^ 63" "br_halfFail b = 0"
    using ok h by (auto simp: br_ok_def cfg_ok_def)
  then have w: "wrap64 (br_halfSucc b + 1) = br_halfSucc b + 1" by (intro wrap64_suc) simp_all
  show "case e of
      Some _ \<Rightarrow> br_state (Breaker_recordHalfOpen t e b) = BOpen \<and> br_openedAt (Breaker_recordHalfOpen t e b) = t
    | None \<Rightarrow> if br_halfSucc b + 1 = cb_halfOpenMax (br_cfg b)
              then br_state (Breaker_recordHalfOpen t e b) = BClosed \<and> br_total (Breaker_recordHalfOpen t e b) = 0 \<and> br_failures (Breaker_recordHalfOpen t e b) = 0
                \<and> br_windowStart (Breaker_recordHalfOpen t e b) = t
              else br_state (Breaker_recordHalfOpen t e b) = BHalfOpen \<and> br_halfSucc (Breaker_recordHalfOpen t e b) = br_halfSucc b + 1"
  proof (cases e)
    case None
    have "cb_halfOpenMax (br_cfg b) \<le> wrap64 (br_halfSucc b + 1) \<longleftrightarrow> br_halfSucc b + 1 = cb_halfOpenMax (br_cfg b)" unfolding w using hs by auto
    then show ?thesis using None h w by (cases "br_halfSucc b + 1 = cb_halfOpenMax (br_cfg b)") (auto simp: Breaker_recordHalfOpen_def Let_def)
  qed (simp add: Breaker_recordHalfOpen_def)
  show "br_ok (Breaker_recordHalfOpen t e b)"
    using ok hs w h by (cases e) (simp_all add: Breaker_recordHalfOpen_def Let_def br_ok_def)
qed

lemma enter_cases:
  assumes ok: "br_ok b"
  shows "br_ok (snd (Breaker_Do_enter t b))" "br_cfg (snd (Breaker_Do_enter t b)) = br_cfg b"
    and "br_state b = BOpen \<Longrightarrow> t - br_openedAt b < cb_cooldown (br_cfg b) \<Longrightarrow> Breaker_Do_enter t b = (Reject, b)"
    and "br_state b = BOpen \<Longrightarrow> cb_cooldown (br_cfg b) \<le> t - br_openedAt b \<Longrightarrow>
       fst (Breaker_Do_enter t b) = RunHalfOpen \<and> br_state (snd (Breaker_Do_enter t b)) = BHalfOpen \<and> br_halfSucc (snd (Breaker_Do_enter t b)) = 0"
    and "br_state b = BHalfOpen \<Longrightarrow> Breaker_Do_enter t b = (RunHalfOpen, b)"
    and "br_state b = BClosed \<Longrightarrow> fst (Breaker_Do_enter t b) = RunClosed
       \<and> snd (Breaker_Do_enter t b) = (if cb_window (br_cfg b) \<le> t - br_windowStart b then Breaker_resetWindow t b else b)"
  using ok by (auto simp: Breaker_Do_enter_def Breaker_checkStateTransition_def br_ok_def cfg_ok_def in_i64_def Let_def split: BState.splits)

lemma recordClosed_cases:
  fixes b t e fl
  defines "b' \<equiv> Breaker_recordClosed fl t e b"
    and "b1 \<equiv> (if cb_window (br_cfg b) \<le> t - br_windowStart b then Breaker_resetWindow t b else b)"
  assumes ok: "br_ok b" and c: "br_state b = BClosed" and small: "br_total b < 2 ^ 63 - 1"
  shows "br_total b' = br_total b1 + 1" "br_failures b' = br_failures b1 + (if e = None then 0 else 1)" "br_cfg b' = br_cfg b"
    "br_state b' = (if cb_minRequests (br_cfg b) \<le> br_total b' \<and> cb_threshold (br_cfg b) \<le> fl (of_int (br_failures b') / of_int (br_total b')) then BOpen else BClosed)"
    "br_state b' = BOpen \<Longrightarrow> br_openedAt b' = t" "br_ok b'"
proof -
  have b1: "br_ok b1" "br_cfg b1 = br_cfg b" "br_state b1 = BClosed" "0 \<le> br_total b1" "br_total b1 < 2 ^ 63 - 1" "0 \<le> br_failures b1" "br_failures b1 < 2 ^ 63 - 1"
    using ok c small by (auto simp: b1_def br_ok_def)
  have w: "wrap64 (br_total b1 + 1) = br_total b1 + 1" "wrap64 (br_failures b1 + 1) = br_failures b1 + 1" using b1 by (auto intro: wrap64_suc)
  define b3 where "b3 = b1\<lparr>br_total := br_total b1 + 1, br_failures := br_failures b1 + (if e = None then 0 else 1)\<rparr>"
  have r: "b' = (if cb_minRequests (br_cfg b) \<le> br_total b3 \<and> cb_threshold (br_cfg b) \<le> fl (of_int (br_failures b3) / of_int (br_total b3))
         then (Breaker_transition BOpen b3)\<lparr>br_openedAt := t\<rparr> else b3)"
    using w b1(2) by (cases e) (simp_all add: b'_def Breaker_recordClosed_def b1_def [symmetric] Let_def b3_def)
  show "br_total b' = br_total b1 + 1" "br_failures b' = br_failures b1 + (if e = None then 0 else 1)" "br_cfg b' = br_cfg b"
    using b1(2) by (simp_all add: r b3_def)
  then show "br_state b' = (if cb_minRequests (br_cfg b) \<le> br_total b' \<and> cb_threshold (br_cfg b) \<le> fl (of_int (br_failures b') / of_int (br_total b')) then BOpen else BClosed)"
    using b1(3) by (simp add: r b3_def)
  show "br_state b' = BOpen \<Longrightarrow> br_openedAt b' = t" using b1(3) by (auto simp: r b3_def split: if_splits)
  show "br_ok b'" using b1 by (auto simp: r b3_def br_ok_def)
qed

text \<open>A run of calls one after the other; the flags say which of them ran their function.\<close>

fun br_calls :: "(rat \<Rightarrow> rat) \<Rightarrow> (time \<times> time \<times> err option) list \<Rightarrow> Breaker \<Rightarrow> bool list \<times> Breaker" where
  "br_calls fl [] b = ([], b)"
| "br_calls fl ((t1, t2, e) # cs) b =
     (case Breaker_Do fl t1 t2 e b of (ran1, r, b1) \<Rightarrow> (case br_calls fl cs b1 of (rs, b') \<Rightarrow> (ran1 # rs, b')))"

fun in_order :: "time \<Rightarrow> (time \<times> time \<times> err option) list \<Rightarrow> bool" where
  "in_order t [] \<longleftrightarrow> True"
| "in_order t ((t1, t2, e) # cs) \<longleftrightarrow> t \<le> t1 \<and> t1 \<le> t2 \<and> in_order t2 cs"

lemma Breaker_Do_open_failing:
  assumes ok: "br_ok b" and "br_state b = BOpen" "e \<noteq> None" "Breaker_Do fl t1 t2 e b = (ran1, r, b')"
  shows "br_ok b' \<and> br_state b' = BOpen \<and> br_cfg b' = br_cfg b \<and> ran1 = (cb_cooldown (br_cfg b) \<le> t1 - br_openedAt b)
    \<and> br_openedAt b' = (if ran1 then t2 else br_openedAt b)"
proof (cases "cb_cooldown (br_cfg b) \<le> t1 - br_openedAt b")
  case True
  note en = enter_cases(4) [OF ok assms(2) True] and ok1 = enter_cases(1,2) [OF ok, of t1]
  obtain b1 where b1: "Breaker_Do_enter t1 b = (RunHalfOpen, b1)" using en by (cases "Breaker_Do_enter t1 b") simp
  have "b' = Breaker_recordHalfOpen t2 e b1" "ran1" using assms(4) b1 by (auto simp: Breaker_Do_def Breaker_Do_record_def)
  then show ?thesis
    using recordHalfOpen_cases [where b = b1 and e = e and t = t2] ok1 en b1 assms(3) True by (auto simp: Breaker_recordHalfOpen_def split: option.splits)
next
  case False
  then show ?thesis using enter_cases(3) [OF ok assms(2), of t1] assms by (simp add: Breaker_Do_def)
qed

section \<open>Concurrent probes\<close>

text \<open>
  The limit on probes counts finished probes only, so concurrent callers are all let through; and a success that
  is recorded after another probe failed closes the breaker at once, without a cooldown.
\<close>

lemma Breaker_probe_race:
  "let b0 = (Breaker_New 0 [WithHalfOpenMax 1, WithCooldown 5])\<lparr>br_state := BOpen, br_openedAt := 0\<rparr>;
       (d1, b1) = Breaker_Do_enter 5 b0;
       (d2, b2) = Breaker_Do_enter 5 b1;
       b3 = Breaker_Do_record id 6 d1 (Some ''down'') b2;
       b4 = Breaker_Do_record id 7 d2 None b3
   in d1 = RunHalfOpen \<and> d2 = RunHalfOpen \<and> br_state b3 = BOpen \<and> br_openedAt b3 = 6 \<and> br_state b4 = BClosed"
  by (simp add: Breaker_New_def Breaker_Do_enter_def Breaker_checkStateTransition_def Breaker_transition_def Breaker_Do_record_def
      Breaker_recordHalfOpen_def Breaker_resetWindow_def in_i64_def Let_def)

section \<open>Properties\<close>

text \<open>The cycle of the breaker, for calls one at a time: open and before the cooldown has passed a call is rejected
  with \<open>ErrCircuitOpen\<close>, its function does not run and nothing changes; afterwards calls are probes, the first
  failure opens the breaker again from that moment and exactly the configured number of successes in a row
  closes it with an empty window; closed, every call runs and is counted, and the breaker opens exactly when
  enough calls were counted in the window and the rounded failure rate reaches the threshold.\<close>

theorem Breaker_cycle:
  assumes ok: "br_ok b" and small: "br_total b < 2 ^ 63 - 1" and run: "Breaker_Do fl t1 t2 e b = (ran1, r, b')"
  shows "br_ok b' \<and> r = (if ran1 then e else Some ErrCircuitOpen) \<and>
    (case br_state b of
       BOpen \<Rightarrow>
         if t1 - br_openedAt b < cb_cooldown (br_cfg b) then \<not> ran1 \<and> b' = b
         else ran1 \<and> (if e \<noteq> None then br_state b' = BOpen \<and> br_openedAt b' = t2
                       else if cb_halfOpenMax (br_cfg b) = 1 then br_state b' = BClosed \<and> br_total b' = 0
                       else br_state b' = BHalfOpen \<and> br_halfSucc b' = 1)
     | BHalfOpen \<Rightarrow>
         ran1 \<and> (if e \<noteq> None then br_state b' = BOpen \<and> br_openedAt b' = t2
                  else if br_halfSucc b + 1 = cb_halfOpenMax (br_cfg b) then br_state b' = BClosed \<and> br_total b' = 0
                  else br_state b' = BHalfOpen \<and> br_halfSucc b' = br_halfSucc b + 1)
     | BClosed \<Rightarrow>
         ran1 \<and> 0 < br_total b' \<and> br_state b' \<noteq> BHalfOpen
         \<and> (br_state b' = BOpen \<longleftrightarrow> cb_minRequests (br_cfg b) \<le> br_total b'
               \<and> cb_threshold (br_cfg b) \<le> fl (of_int (br_failures b') / of_int (br_total b')))
         \<and> (br_state b' = BOpen \<longrightarrow> br_openedAt b' = t2))"
proof -
  obtain d b1 where en: "Breaker_Do_enter t1 b = (d, b1)" by force
  have ok1: "br_ok b1" "br_cfg b1 = br_cfg b" using enter_cases(1,2) [OF ok, of t1] en by simp_all
  have half: "br_ok b' \<and> ran1 \<and> r = e \<and> (if e \<noteq> None then br_state b' = BOpen \<and> br_openedAt b' = t2
                  else if br_halfSucc b1 + 1 = cb_halfOpenMax (br_cfg b) then br_state b' = BClosed \<and> br_total b' = 0
                  else br_state b' = BHalfOpen \<and> br_halfSucc b' = br_halfSucc b1 + 1)"
    if "d = RunHalfOpen" "br_state b1 = BHalfOpen"
    using run en that recordHalfOpen_cases [OF ok1(1) that(2), where e = e and t = t2] ok1(2)
    by (auto simp: Breaker_Do_def Breaker_Do_record_def split: option.splits)
  show ?thesis
  proof (cases "br_state b")
    case BOpen
    show ?thesis
    proof (cases "t1 - br_openedAt b < cb_cooldown (br_cfg b)")
      case True
      then show ?thesis using run ok BOpen enter_cases(3) [OF ok BOpen True] by (simp add: Breaker_Do_def)
    next
      case False
      then have "d = RunHalfOpen" "br_state b1 = BHalfOpen" "br_halfSucc b1 = 0" using enter_cases(4) [OF ok BOpen, of t1] en by simp_all
      then show ?thesis using half False BOpen by (auto split: if_splits)
    qed
  next
    case BHalfOpen
    then have "d = RunHalfOpen" "b1 = b" using enter_cases(5) [OF ok BHalfOpen, of t1] en by simp_all
    then show ?thesis using half BHalfOpen by simp
  next
    case BClosed
    then have d: "d = RunClosed" "br_state b1 = BClosed" "br_total b1 < 2 ^ 63 - 1" "0 \<le> br_total b1"
      using enter_cases(6) [OF ok BClosed, of t1] en small ok by (auto simp: br_ok_def)
    have b': "b' = Breaker_recordClosed fl t2 e b1" "ran1" "r = e" using run en d(1) by (auto simp: Breaker_Do_def Breaker_Do_record_def)
    note c = recordClosed_cases [OF ok1(1) d(2,3), where fl = fl and t = t2 and e = e, folded b'(1)]
    have "0 < br_total b'" using c(1) d(4) by simp
    then show ?thesis using c(4-6) b'(2,3) BClosed ok1(2) by simp
  qed
qed

theorem Breaker_cycle_witness:
  "let b = (Breaker_New 0 [])\<lparr>br_state := BOpen, br_openedAt := 7\<rparr>
   in fst (Breaker_Do id 8 9 None b) = False"
proof -
  define b where "b = (Breaker_New 0 [])\<lparr>br_state := BOpen, br_openedAt := 7\<rparr>"
  have "br_ok (Breaker_New 0 [])" by (rule br_ok_new) simp
  then have ok: "br_ok b" by (simp add: b_def br_ok_def)
  obtain x r b' where d: "Breaker_Do id 8 9 None b = (x, r, b')" by (metis prod_cases3)
  have "\<not> x" using Breaker_cycle [OF ok _ d] by (simp add: b_def Breaker_New_def second_def)
  then show ?thesis unfolding Let_def b_def [symmetric] d by simp
qed

text \<open>A broken service is protected: once the breaker is open, and as long as every call that is let through fails,
  the calls that run up to time \<open>T\<close> are at most as many as cooldown periods have passed since it opened, for any
  number of callers' attempts one after the other.\<close>

theorem Breaker_protects:
  assumes "br_ok b" "br_state b = BOpen" "in_order (br_openedAt b) calls" "br_openedAt b \<le> T" "\<forall>(t1, t2, e)\<in>set calls. e \<noteq> None \<and> t1 \<le> T"
    and "br_calls fl calls b = (rs, b')"
  shows "int (length (filter (\<lambda>x. x) rs)) * cb_cooldown (br_cfg b) \<le> T - br_openedAt b"
proof -
  have "int (length (filter (\<lambda>x. x) rs)) * cb_cooldown (br_cfg b) \<le> max 0 (T - br_openedAt b)"
    if "br_ok b" "br_state b = BOpen" "in_order t calls" "br_openedAt b \<le> t" "\<forall>(t1, t2, e)\<in>set calls. e \<noteq> None \<and> t1 \<le> T" "br_calls fl calls b = (rs, b')"
    for b t rs
    using that
  proof (induction calls arbitrary: b t rs)
    case (Cons c cs)
    obtain t1 t2 e where c: "c = (t1, t2, e)" by (metis prod_cases3)
    obtain x r b1 where d: "Breaker_Do fl t1 t2 e b = (x, r, b1)" by (metis prod_cases3)
    obtain rs1 where rs1: "br_calls fl cs b1 = (rs1, b')" "rs = x # rs1" using Cons.prems(6) c d by (auto split: prod.splits)
    have o1: "t \<le> t1" "t1 \<le> t2" "in_order t2 cs" "e \<noteq> None" "t1 \<le> T" using Cons.prems(3,5) c by auto
    note f = Breaker_Do_open_failing [OF Cons.prems(1,2) o1(4) d]
    have "0 < cb_cooldown (br_cfg b)" using Cons.prems(1) by (simp add: br_ok_def cfg_ok_def)
    moreover have "int (length (filter (\<lambda>x. x) rs1)) * cb_cooldown (br_cfg b1) \<le> max 0 (T - br_openedAt b1)"
      using Cons.IH [of b1 t2 rs1] f o1 Cons.prems(4,5) rs1(1) by (auto split: if_splits)
    ultimately show ?case
      using f o1 rs1(2) by (cases x) (auto simp: algebra_simps max_def split: if_splits)
  qed simp
  from this [OF assms(1,2,3) order_refl assms(5,6)] show ?thesis using assms(4) by simp
qed

theorem Breaker_protects_witness:
  "let b = (Breaker_New 0 [])\<lparr>br_state := BOpen, br_openedAt := 0\<rparr>
   in int (length (filter (\<lambda>x. x) (fst (br_calls id [(5 * second, 6 * second, Some ''e''), (7 * second, 8 * second, Some ''e'')] b)))) * (5 * second) \<le> 9 * second"
proof -
  define b where "b = (Breaker_New 0 [])\<lparr>br_state := BOpen, br_openedAt := 0\<rparr>"
  have "br_ok (Breaker_New 0 [])" by (rule br_ok_new) simp
  then have ok: "br_ok b" by (simp add: b_def br_ok_def)
  obtain rs b' where d: "br_calls id [(5 * second, 6 * second, Some ''e''), (7 * second, 8 * second, Some ''e'')] b = (rs, b')" by force
  have "int (length (filter (\<lambda>x. x) rs)) * cb_cooldown (br_cfg b) \<le> 9 * second - br_openedAt b"
    using Breaker_protects [OF ok _ _ _ _ d, of "9 * second"] by (simp add: b_def Breaker_New_def second_def)
  then show ?thesis unfolding Let_def b_def [symmetric] d by (simp add: b_def Breaker_New_def)
qed

end
