(* ===== verification/Semaphore.thy ===== *)
theory Semaphore
  imports Prelude
begin

text \<open>
  \<open>pkg/foundation/semaphore\<close>: the weighted semaphore. \<open>sem_take\<close> is the critical section that \<open>Acquire\<close>, \<open>TryAcquire\<close>
  and the waiting loop share. The waiting loop polls: what every poll sees of the semaphore and what every
  \<open>select\<close> receives are arguments of the loop, a partial function because nothing in it bounds the number of
  rounds. The second part interleaves any number of holders and waiters.
\<close>

section \<open>The semaphore\<close>

record sem_config =
  sm_capacity :: int
  sm_maxWait :: duration
  sm_onReject :: bool

datatype sem_option = WithCapacity int | WithMaxWait duration | WithOnReject

fun sem_apply :: "sem_option \<Rightarrow> sem_config \<Rightarrow> sem_config" where
  "sem_apply (WithCapacity n) c = (if 0 < n then c\<lparr>sm_capacity := n\<rparr> else c)"
| "sem_apply (WithMaxWait d) c = (if 0 \<le> d then c\<lparr>sm_maxWait := d\<rparr> else c)"
| "sem_apply WithOnReject c = c\<lparr>sm_onReject := True\<rparr>"

record Semaphore =
  sm_cfg :: sem_config
  sm_used :: int
  sm_inFlight :: int
  sm_rejected :: nat

definition Semaphore_New :: "sem_option list \<Rightarrow> Semaphore" where
  "Semaphore_New opts =
     \<lparr>sm_cfg = fold sem_apply opts \<lparr>sm_capacity = 10, sm_maxWait = 0, sm_onReject = False\<rparr>, sm_used = 0, sm_inFlight = 0, sm_rejected = 0\<rparr>"

definition sem_valid :: "int \<Rightarrow> Semaphore \<Rightarrow> bool" where
  "sem_valid cost s \<longleftrightarrow> \<not> (cost \<le> 0 \<or> sm_capacity (sm_cfg s) < cost)"

definition sem_fits :: "int \<Rightarrow> int \<Rightarrow> int \<Rightarrow> bool" where
  "sem_fits capacity used cost \<longleftrightarrow> wrap64 (used + cost) \<le> capacity"

definition sem_take :: "int \<Rightarrow> Semaphore \<Rightarrow> Semaphore option" where
  "sem_take cost s =
     (if sem_fits (sm_capacity (sm_cfg s)) (sm_used s) cost
      then Some (s\<lparr>sm_used := wrap64 (sm_used s + cost), sm_inFlight := wrap64 (sm_inFlight s + cost)\<rparr>) else None)"

definition sem_reject :: "Semaphore \<Rightarrow> Semaphore" where
  "sem_reject s = (if sm_onReject (sm_cfg s) then s\<lparr>sm_rejected := sm_rejected s + 1\<rparr> else s)"

text \<open>What \<open>Acquire\<close> comes to before it waits.\<close>

datatype acquired = APanic | AOk | AFull | AWait | ACtx err

definition Semaphore_Acquire :: "int \<Rightarrow> Semaphore \<Rightarrow> acquired \<times> Semaphore" where
  "Semaphore_Acquire cost s =
     (if \<not> sem_valid cost s then (APanic, s)
      else case sem_take cost s of
        Some s' \<Rightarrow> (AOk, s')
      | None \<Rightarrow> if sm_maxWait (sm_cfg s) = 0 then (AFull, sem_reject s) else (AWait, s))"

text \<open>\<open>TryAcquire\<close>; None is the panic.\<close>

definition Semaphore_TryAcquire :: "int \<Rightarrow> Semaphore \<Rightarrow> (bool \<times> Semaphore) option" where
  "Semaphore_TryAcquire cost s =
     (if \<not> sem_valid cost s then None
      else case sem_take cost s of Some s' \<Rightarrow> Some (True, s') | None \<Rightarrow> Some (False, s))"

text \<open>\<open>Release\<close>; it panics, with the mutex released and \<open>used\<close> already lowered, when more is released than was acquired.\<close>

definition Semaphore_Release :: "int \<Rightarrow> Semaphore \<Rightarrow> bool \<times> Semaphore" where
  "Semaphore_Release cost s =
     (let s1 = s\<lparr>sm_used := wrap64 (sm_used s - cost)\<rparr>
      in if sm_used s1 < 0 then (False, s1) else (True, s1\<lparr>sm_inFlight := wrap64 (sm_inFlight s1 - cost)\<rparr>))"

definition Semaphore_InFlight :: "Semaphore \<Rightarrow> int" where
  "Semaphore_InFlight s = sm_inFlight s"

definition Semaphore_Available :: "Semaphore \<Rightarrow> int" where
  "Semaphore_Available s = wrap64 (sm_capacity (sm_cfg s) - sm_used s)"

definition Semaphore_Capacity :: "Semaphore \<Rightarrow> int" where
  "Semaphore_Capacity s = sm_capacity (sm_cfg s)"

text \<open>
  \<open>DoWithCost\<close> with a function on the semaphore and the rest of the world; the deferred release runs also when
  the function panics. The waiting case is left to the loop below.
\<close>

definition Semaphore_DoWithCost :: "int \<Rightarrow> (Semaphore \<Rightarrow> err option \<times> Semaphore) \<Rightarrow> Semaphore \<Rightarrow> acquired \<times> err option \<times> Semaphore" where
  "Semaphore_DoWithCost cost fn s =
     (case Semaphore_Acquire cost s of
        (AOk, s1) \<Rightarrow> (case fn s1 of (e, s2) \<Rightarrow> (AOk, e, snd (Semaphore_Release cost s2)))
      | (r, s1) \<Rightarrow> (r, None, s1))"

definition Semaphore_Do :: "(Semaphore \<Rightarrow> err option \<times> Semaphore) \<Rightarrow> Semaphore \<Rightarrow> acquired \<times> err option \<times> Semaphore" where
  "Semaphore_Do fn s = Semaphore_DoWithCost 1 fn s"

section \<open>The waiting loop\<close>

datatype wake = CtxDone err | Tick time

text \<open>
  Round \<open>i\<close> sees \<open>used i\<close> under the lock and then receives \<open>wakes i\<close>. The result is how the wait ended and in which round.
\<close>

partial_function (option) acquireWait :: "int \<Rightarrow> time \<Rightarrow> int \<Rightarrow> (nat \<Rightarrow> int) \<Rightarrow> (nat \<Rightarrow> wake) \<Rightarrow> nat \<Rightarrow> (acquired \<times> nat) option" where
  "acquireWait capacity deadline cost used wakes i =
     (if sem_fits capacity (used i) cost then Some (AOk, i)
      else case wakes i of
        CtxDone e \<Rightarrow> Some (ACtx e, i)
      | Tick now \<Rightarrow> if deadline < now then Some (AFull, i) else acquireWait capacity deadline cost used wakes (Suc i))"

definition wait_ends :: "int \<Rightarrow> time \<Rightarrow> int \<Rightarrow> (nat \<Rightarrow> int) \<Rightarrow> (nat \<Rightarrow> wake) \<Rightarrow> nat \<Rightarrow> bool" where
  "wait_ends capacity deadline cost used wakes i \<longleftrightarrow>
     sem_fits capacity (used i) cost \<or> (case wakes i of CtxDone e \<Rightarrow> True | Tick now \<Rightarrow> deadline < now)"

lemma acquireWait_ends:
  assumes "wait_ends capacity deadline cost used wakes (i + n)" "\<forall>k<n. \<not> wait_ends capacity deadline cost used wakes (i + k)"
  shows "acquireWait capacity deadline cost used wakes i =
    Some (if sem_fits capacity (used (i + n)) cost then AOk else (case wakes (i + n) of CtxDone e \<Rightarrow> ACtx e | Tick now \<Rightarrow> AFull), i + n)"
  using assms
proof (induction n arbitrary: i)
  case 0
  then show ?case by (subst acquireWait.simps) (auto simp: wait_ends_def split: wake.splits)
next
  case (Suc n)
  have "\<not> wait_ends capacity deadline cost used wakes i" using Suc.prems(2) by force
  then have step: "acquireWait capacity deadline cost used wakes i = acquireWait capacity deadline cost used wakes (Suc i)"
    by (subst acquireWait.simps) (auto simp: wait_ends_def split: wake.splits)
  have "\<forall>k<n. \<not> wait_ends capacity deadline cost used wakes (Suc i + k)" using Suc.prems(2) by (metis Suc_less_eq add_Suc_shift)
  from Suc.IH [OF _ this] show ?case using Suc.prems(1) step by simp
qed

section \<open>Holders and waiters\<close>

record sem_sys =
  sy_sem :: Semaphore
  sy_held :: "int list"
  sy_waiting :: "(int \<times> time) list"

text \<open>
  The costs held and the waiters (cost and deadline). A goroutine releases only what it acquired, as
  \<open>DoWithCost\<close> does.
\<close>

inductive sem_step :: "sem_sys \<Rightarrow> sem_sys \<Rightarrow> bool" where
  acquire: "Semaphore_Acquire cost (sy_sem s) = (AOk, s') \<Longrightarrow> sem_step s (s\<lparr>sy_sem := s', sy_held := cost # sy_held s\<rparr>)"
| full: "Semaphore_Acquire cost (sy_sem s) = (AFull, s') \<Longrightarrow> sem_step s (s\<lparr>sy_sem := s'\<rparr>)"
| wait: "Semaphore_Acquire cost (sy_sem s) = (AWait, s') \<Longrightarrow> sem_step s (s\<lparr>sy_sem := s', sy_waiting := (cost, deadline) # sy_waiting s\<rparr>)"
| tryOk: "Semaphore_TryAcquire cost (sy_sem s) = Some (True, s') \<Longrightarrow> sem_step s (s\<lparr>sy_sem := s', sy_held := cost # sy_held s\<rparr>)"
| retry: "(cost, deadline) \<in> set (sy_waiting s) \<Longrightarrow> sem_take cost (sy_sem s) = Some s' \<Longrightarrow>
     sem_step s (s\<lparr>sy_sem := s', sy_held := cost # sy_held s, sy_waiting := remove1 (cost, deadline) (sy_waiting s)\<rparr>)"
| giveUp: "(cost, deadline) \<in> set (sy_waiting s) \<Longrightarrow>
     sem_step s (s\<lparr>sy_sem := sem_reject (sy_sem s), sy_waiting := remove1 (cost, deadline) (sy_waiting s)\<rparr>)"
| release: "cost \<in> set (sy_held s) \<Longrightarrow> Semaphore_Release cost (sy_sem s) = (ok, s') \<Longrightarrow>
     sem_step s (s\<lparr>sy_sem := s', sy_held := remove1 cost (sy_held s)\<rparr>)"

definition sem_inv :: "sem_sys \<Rightarrow> bool" where
  "sem_inv s \<longleftrightarrow> 0 < sm_capacity (sm_cfg (sy_sem s)) \<and> sm_capacity (sm_cfg (sy_sem s)) < 2 ^ 62
     \<and> sm_used (sy_sem s) = sum_list (sy_held s) \<and> sm_inFlight (sy_sem s) = sm_used (sy_sem s)
     \<and> sm_used (sy_sem s) \<le> sm_capacity (sm_cfg (sy_sem s)) \<and> (\<forall>c\<in>set (sy_held s). 0 < c)
     \<and> (\<forall>(c, d)\<in>set (sy_waiting s). 0 < c \<and> c \<le> sm_capacity (sm_cfg (sy_sem s)))"

lemma held_nonneg: "\<forall>c\<in>set cs. 0 < c \<Longrightarrow> 0 \<le> sum_list (cs :: int list)"
  by (induction cs) auto

lemma held_member: "\<forall>c\<in>set cs. 0 < c \<Longrightarrow> c \<in> set cs \<Longrightarrow> c \<le> sum_list (cs :: int list)"
  by (induction cs) (auto simp: held_nonneg add_increasing add_increasing2 dest: held_nonneg)

lemma sum_list_remove1: "c \<in> set cs \<Longrightarrow> sum_list (remove1 c cs) = sum_list cs - (c :: int)"
  by (induction cs) auto

lemma sem_take_inv:
  assumes inv: "sem_inv s" and c: "0 < cost" "cost \<le> sm_capacity (sm_cfg (sy_sem s))" and take: "sem_take cost (sy_sem s) = Some s'"
    and w: "set ws \<subseteq> set (sy_waiting s)"
  shows "sem_inv (s\<lparr>sy_sem := s', sy_held := cost # sy_held s, sy_waiting := ws\<rparr>)"
proof -
  have "0 \<le> sum_list (sy_held s)" using inv held_nonneg by (simp add: sem_inv_def)
  then have "in_i64 (sm_used (sy_sem s) + cost)" "in_i64 (sm_inFlight (sy_sem s) + cost)" using inv c by (auto simp: sem_inv_def in_i64_def)
  moreover have "\<forall>(c, d)\<in>set ws. 0 < c \<and> c \<le> sm_capacity (sm_cfg (sy_sem s))" using inv w unfolding sem_inv_def by blast
  ultimately show ?thesis using inv c take by (simp add: sem_inv_def sem_take_def sem_fits_def split: if_splits) auto
qed

lemma sem_reject_sel [simp]: "sm_cfg (sem_reject s) = sm_cfg s" "sm_used (sem_reject s) = sm_used s" "sm_inFlight (sem_reject s) = sm_inFlight s"
  by (simp_all add: sem_reject_def)

lemma sem_release_inv:
  assumes inv: "sem_inv s" and c: "cost \<in> set (sy_held s)" and rel: "Semaphore_Release cost (sy_sem s) = (ok, s')"
  shows "ok \<and> sem_inv (s\<lparr>sy_sem := s', sy_held := remove1 cost (sy_held s)\<rparr>)"
proof -
  have pos: "0 < cost" "cost \<le> sum_list (sy_held s)" using inv c held_member by (auto simp: sem_inv_def)
  then have "in_i64 (sm_used (sy_sem s) - cost)" "in_i64 (sm_inFlight (sy_sem s) - cost)" using inv by (auto simp: sem_inv_def in_i64_def)
  then show ?thesis using inv pos rel c
    by (auto simp: sem_inv_def Semaphore_Release_def Let_def sum_list_remove1 dest: notin_set_remove1 set_remove1_subset [THEN subsetD] split: if_splits)
qed

lemma sem_step_inv: "sem_step s s' \<Longrightarrow> sem_inv s \<Longrightarrow> sem_inv s'"
proof (induction rule: sem_step.induct)
  case (acquire cost s s')
  then have "sem_valid cost (sy_sem s)" "sem_take cost (sy_sem s) = Some s'"
    by (auto simp: Semaphore_Acquire_def split: if_splits option.splits)
  then show ?case using sem_take_inv [OF acquire(2), of cost s' "sy_waiting s"] by (simp add: sem_valid_def)
next
  case (full cost s s')
  then have "s' = sem_reject (sy_sem s)" by (auto simp: Semaphore_Acquire_def split: if_splits option.splits)
  then show ?case using full(2) by (simp add: sem_inv_def)
next
  case (wait cost s s' deadline)
  then have "sem_valid cost (sy_sem s)" "s' = sy_sem s" by (auto simp: Semaphore_Acquire_def split: if_splits option.splits)
  then show ?case using wait(2) by (simp add: sem_inv_def sem_valid_def)
next
  case (tryOk cost s s')
  then have "sem_valid cost (sy_sem s)" "sem_take cost (sy_sem s) = Some s'"
    by (auto simp: Semaphore_TryAcquire_def split: if_splits option.splits)
  then show ?case using sem_take_inv [OF tryOk(2), of cost s' "sy_waiting s"] by (simp add: sem_valid_def)
next
  case (retry cost deadline s s')
  then have "0 < cost" "cost \<le> sm_capacity (sm_cfg (sy_sem s))" by (auto simp: sem_inv_def)
  then show ?case using sem_take_inv [OF retry(3) _ _ retry(2) set_remove1_subset] by simp
next
  case (giveUp cost deadline s)
  then show ?case using set_remove1_subset [of "(cost, deadline)" "sy_waiting s"] unfolding sem_inv_def by auto
next
  case (release cost s ok s')
  then show ?case using sem_release_inv by blast
qed

section \<open>Properties\<close>

text \<open>C24. The semaphore never gives out more than its capacity: under every interleaving of acquirers, pollers that retry
  or give up, and holders that release what they acquired, the amount in use is exactly the sum of what is
  held and within the capacity, \<open>InFlight\<close> and \<open>Available\<close> report it, and a release never panics. The capacity
  is below \<open>2 ^ 62\<close>, so that \<open>used + cost\<close> does not overflow.\<close>

theorem Semaphore_capacity:
  assumes "sm_capacity (sm_cfg (Semaphore_New opts)) < 2 ^ 62"
    and "sem_step\<^sup>*\<^sup>* \<lparr>sy_sem = Semaphore_New opts, sy_held = [], sy_waiting = []\<rparr> s"
  shows "sum_list (sy_held s) \<le> Semaphore_Capacity (sy_sem s) \<and> sm_used (sy_sem s) = sum_list (sy_held s)
    \<and> Semaphore_InFlight (sy_sem s) = sum_list (sy_held s)
    \<and> Semaphore_Available (sy_sem s) = Semaphore_Capacity (sy_sem s) - sum_list (sy_held s)
    \<and> (\<forall>cost\<in>set (sy_held s). fst (Semaphore_Release cost (sy_sem s)))"
proof -
  have "0 < sm_capacity (fold sem_apply opts c)" if "0 < sm_capacity c" for c
    using that
  proof (induction opts arbitrary: c)
    case (Cons x xs)
    then show ?case by (cases x) simp_all
  qed simp
  from this [of "\<lparr>sm_capacity = 10, sm_maxWait = 0, sm_onReject = False\<rparr>"] have "sem_inv \<lparr>sy_sem = Semaphore_New opts, sy_held = [], sy_waiting = []\<rparr>"
    using assms(1) by (simp add: sem_inv_def Semaphore_New_def)
  with assms(2) have inv: "sem_inv s" by (induction rule: rtranclp_induct) (use sem_step_inv in blast)+
  have "0 \<le> sum_list (sy_held s)" using inv held_nonneg by (simp add: sem_inv_def)
  moreover have "fst (Semaphore_Release cost (sy_sem s))" if "cost \<in> set (sy_held s)" for cost
    using sem_release_inv [OF inv that] by (cases "Semaphore_Release cost (sy_sem s)") simp
  ultimately show ?thesis using inv
    by (simp add: sem_inv_def Semaphore_Capacity_def Semaphore_InFlight_def Semaphore_Available_def in_i64_def)
qed

theorem Semaphore_capacity_witness:
  "let s0 = \<lparr>sy_sem = Semaphore_New [WithCapacity 5], sy_held = [], sy_waiting = []\<rparr>;
       s1 = \<lparr>sy_sem = snd (Semaphore_Acquire 3 (sy_sem s0)), sy_held = [3], sy_waiting = []\<rparr>
   in Semaphore_Available (sy_sem s1) = 2"
proof -
  define s0 where "s0 = \<lparr>sy_sem = Semaphore_New [WithCapacity 5], sy_held = [], sy_waiting = []\<rparr>"
  define s1 where "s1 = \<lparr>sy_sem = snd (Semaphore_Acquire 3 (sy_sem s0)), sy_held = [3], sy_waiting = []\<rparr>"
  have "Semaphore_Acquire 3 (sy_sem s0) = (AOk, sy_sem s1)"
    by (simp add: s1_def s0_def Semaphore_Acquire_def Semaphore_New_def sem_valid_def sem_take_def sem_fits_def in_i64_def)
  from sem_step.acquire [OF this] have "sem_step s0 s1" by (simp add: s0_def s1_def)
  then have "sem_step\<^sup>*\<^sup>* \<lparr>sy_sem = Semaphore_New [WithCapacity 5], sy_held = [], sy_waiting = []\<rparr> s1" by (simp add: s0_def r_into_rtranclp)
  from Semaphore_capacity [OF _ this] have "Semaphore_Available (sy_sem s1) = Semaphore_Capacity (sy_sem s1) - 3"
    by (simp add: Semaphore_New_def s1_def)
  then show ?thesis unfolding Let_def s0_def [symmetric] s1_def [symmetric]
    by (simp add: s1_def s0_def Semaphore_Capacity_def Semaphore_Acquire_def Semaphore_New_def sem_valid_def sem_take_def sem_fits_def in_i64_def)
qed

text \<open>Waiting ends: a waiter whose ticks are at least a millisecond apart returns within as many rounds as
  milliseconds fit into its maximal wait, plus one, whatever the others do with the semaphore. It gets the
  capacity in the first round in which it fits, unless the context ended or the deadline passed before.\<close>

theorem acquireWait_returns:
  assumes ticks: "\<forall>i now. wakes i = Tick now \<longrightarrow> start + (int i + 1) * 1000000 \<le> now" and "0 \<le> maxWait"
  shows "\<exists>r n. acquireWait capacity (start + maxWait) cost used wakes 0 = Some (r, n) \<and> n \<le> nat (maxWait div 1000000)
    \<and> (r = AOk \<longleftrightarrow> sem_fits capacity (used n) cost) \<and> (r = AFull \<longrightarrow> (\<exists>now. wakes n = Tick now \<and> start + maxWait < now))
    \<and> (\<forall>k<n. \<not> sem_fits capacity (used k) cost)"
proof -
  let ?ends = "wait_ends capacity (start + maxWait) cost used wakes"
  let ?m = "nat (maxWait div 1000000)"
  have "maxWait < (int ?m + 1) * 1000000" using assms(2) by (simp add: pos_imp_zdiv_nonneg_iff)
  then have "?ends ?m" using ticks by (fastforce simp: wait_ends_def split: wake.splits)
  then obtain n where n: "?ends n" "\<forall>k<n. \<not> ?ends k" "n \<le> ?m" by (metis exists_least_iff not_le_imp_less)
  from acquireWait_ends [where i = 0 and n = n] n(1,2)
  have r: "acquireWait capacity (start + maxWait) cost used wakes 0 =
      Some (if sem_fits capacity (used n) cost then AOk else (case wakes n of CtxDone e \<Rightarrow> ACtx e | Tick now \<Rightarrow> AFull), n)" by simp
  have "\<forall>k<n. \<not> sem_fits capacity (used k) cost" using n(2) by (simp add: wait_ends_def)
  then show ?thesis using r n by (auto simp: wait_ends_def split: wake.splits if_splits)
qed

theorem acquireWait_returns_witness:
  "\<exists>r n. acquireWait 1 3000000 1 (\<lambda>_. 1) (\<lambda>i. Tick ((int i + 1) * 1000000)) 0 = Some (r, n) \<and> n \<le> 3"
  using acquireWait_returns [of "\<lambda>i. Tick ((int i + 1) * 1000000)" 0 3000000 1 1 "\<lambda>_. 1"] by auto

end
