(* ===== verification/Relationship.thy ===== *)
theory Relationship
  imports Prelude
begin

text \<open>
  \<open>pkg/domain/relationship\<close>: the graph of directed edges with states. The map of maps is a list of rows, each a list
  of cells, with distinct keys; Go visits a map in no fixed order, and the order of the list stands for one
  of them. Reading the graph through \<open>edge_at\<close> hides that order. Metadata is a map of strings; storing it
  copies it, so it is a value here; a caller that writes into the map a query returned is outside the model.
\<close>

section \<open>The graph\<close>

type_synonym metadata = "(string \<times> string) list option"

record Edge =
  eg_Source :: key
  eg_Destination :: key
  eg_State :: int
  eg_Position :: int
  eg_Metadata :: metadata

definition StateActive :: int where "StateActive = 0"
definition StatePending :: int where "StatePending = 1"
definition StateAdmin :: int where "StateAdmin = 2"
definition StateOwner :: int where "StateOwner = 3"
definition StateBlocked :: int where "StateBlocked = 99"

type_synonym row = "(key \<times> Edge) list"
type_synonym Graph = "(key \<times> row) list"

datatype rel_err = ErrAlreadyExists | ErrNotFound | ErrBlocked | ErrEmptyEndpoint

definition Graph_New :: Graph where
  "Graph_New = []"

text \<open>\<open>g.edges[s]\<close>, nil for a missing row, and the row made when it is missing.\<close>

definition row_of :: "Graph \<Rightarrow> key \<Rightarrow> row" where
  "row_of g s = (case map_of g s of None \<Rightarrow> [] | Some m \<Rightarrow> m)"

definition put_edge :: "Edge \<Rightarrow> Graph \<Rightarrow> Graph" where
  "put_edge e g = AList.update (eg_Source e) (AList.update (eg_Destination e) e (row_of g (eg_Source e))) g"

definition make_row :: "key \<Rightarrow> Graph \<Rightarrow> Graph" where
  "make_row s g = (case map_of g s of None \<Rightarrow> AList.update s [] g | Some _ \<Rightarrow> g)"

definition edge_at :: "Graph \<Rightarrow> key \<Rightarrow> key \<Rightarrow> Edge option" where
  "edge_at g s d = map_of (row_of g s) d"

definition Graph_isBlockedLocked :: "key \<Rightarrow> key \<Rightarrow> Graph \<Rightarrow> bool" where
  "Graph_isBlockedLocked s d g = (case edge_at g s d of Some e \<Rightarrow> eg_State e = StateBlocked | None \<Rightarrow> False)"

definition Graph_AddEdge :: "Edge \<Rightarrow> Graph \<Rightarrow> rel_err option \<times> Graph" where
  "Graph_AddEdge e g =
     (if eg_Source e = [] \<or> eg_Destination e = [] then (Some ErrEmptyEndpoint, g)
      else if Graph_isBlockedLocked (eg_Destination e) (eg_Source e) g then (Some ErrBlocked, g)
      else let g1 = make_row (eg_Source e) g
           in if edge_at g1 (eg_Source e) (eg_Destination e) \<noteq> None then (Some ErrAlreadyExists, g1) else (None, put_edge e g1))"

definition Graph_removeEdgeLocked :: "key \<Rightarrow> key \<Rightarrow> Graph \<Rightarrow> Graph" where
  "Graph_removeEdgeLocked s d g =
     (case map_of g s of
        None \<Rightarrow> g
      | Some m \<Rightarrow> let m' = AList.delete d m in if m' = [] then AList.delete s g else AList.update s m' g)"

definition Graph_RemoveEdge :: "key \<Rightarrow> key \<Rightarrow> Graph \<Rightarrow> rel_err option \<times> Graph" where
  "Graph_RemoveEdge s d g = (if edge_at g s d \<noteq> None then (None, Graph_removeEdgeLocked s d g) else (Some ErrNotFound, g))"

definition delete_cell :: "key \<Rightarrow> key \<Rightarrow> Graph \<Rightarrow> Graph" where
  "delete_cell s d g = AList.update s (AList.delete d (row_of g s)) g"

definition Graph_Block :: "key \<Rightarrow> key \<Rightarrow> int \<Rightarrow> Graph \<Rightarrow> Graph" where
  "Graph_Block s d pos g =
     (let g1 = make_row s g;
          g2 = (case edge_at g1 s d of Some e \<Rightarrow> if eg_State e \<noteq> StateBlocked then delete_cell s d g1 else g1 | None \<Rightarrow> g1)
      in put_edge \<lparr>eg_Source = s, eg_Destination = d, eg_State = StateBlocked, eg_Position = pos, eg_Metadata = None\<rparr> g2)"

definition Graph_IsBlocked :: "key \<Rightarrow> key \<Rightarrow> Graph \<Rightarrow> bool" where
  "Graph_IsBlocked s d g = Graph_isBlockedLocked s d g"

definition Graph_addEdgeLocked :: "key \<Rightarrow> key \<Rightarrow> int \<Rightarrow> int \<Rightarrow> metadata \<Rightarrow> Graph \<Rightarrow> rel_err option \<times> Graph" where
  "Graph_addEdgeLocked s d st pos meta g =
     (let g1 = make_row s g
      in if edge_at g1 s d \<noteq> None then (Some ErrAlreadyExists, g1)
         else (None, put_edge \<lparr>eg_Source = s, eg_Destination = d, eg_State = st, eg_Position = pos, eg_Metadata = meta\<rparr> g1))"

definition Graph_AddFriend :: "key \<Rightarrow> key \<Rightarrow> int \<Rightarrow> Graph \<Rightarrow> rel_err option \<times> Graph" where
  "Graph_AddFriend a b pos g =
     (if Graph_isBlockedLocked a b g \<or> Graph_isBlockedLocked b a g then (Some ErrBlocked, g)
      else case Graph_addEdgeLocked a b StateActive pos None g of
        (Some e, g1) \<Rightarrow> (Some e, g1)
      | (None, g1) \<Rightarrow>
          (case Graph_addEdgeLocked b a StateActive pos None g1 of
             (Some e, g2) \<Rightarrow> (Some e, delete_cell a b g2)
           | (None, g2) \<Rightarrow> (None, g2)))"

definition Graph_RemoveFriend :: "key \<Rightarrow> key \<Rightarrow> Graph \<Rightarrow> Graph" where
  "Graph_RemoveFriend a b g = Graph_removeEdgeLocked b a (Graph_removeEdgeLocked a b g)"

text \<open>\<open>sort.Slice\<close> by falling position; the order of equal positions is left open by the library.\<close>

definition Graph_Outgoing :: "key \<Rightarrow> int \<Rightarrow> int \<Rightarrow> int \<Rightarrow> Graph \<Rightarrow> Edge list" where
  "Graph_Outgoing s afterPosition limit stateFilter g =
     (let m = row_of g s; limit = (if limit \<le> 0 then 50 else limit);
          out = sort_key (\<lambda>e. - eg_Position e)
            (filter (\<lambda>e. \<not> (stateFilter \<noteq> -1 \<and> eg_State e \<noteq> stateFilter) \<and> \<not> (0 < afterPosition \<and> afterPosition \<le> eg_Position e)) (map snd m))
      in if int (length out) > limit then take (nat limit) out else out)"

definition Graph_Friends :: "key \<Rightarrow> Graph \<Rightarrow> key list" where
  "Graph_Friends s g =
     map fst (filter (\<lambda>(d, e). eg_State e = StateActive \<and>
       (case edge_at g d s of Some r \<Rightarrow> eg_State r = StateActive | None \<Rightarrow> False)) (row_of g s))"

definition Graph_Watchers :: "key \<Rightarrow> int \<Rightarrow> Graph \<Rightarrow> key list" where
  "Graph_Watchers u stateFilter g =
     map fst (filter (\<lambda>(s, m). case map_of m u of
         Some e \<Rightarrow> eg_State e \<noteq> StateBlocked \<and> (stateFilter = -1 \<or> eg_State e = stateFilter)
       | None \<Rightarrow> False) g)"

definition Graph_Edge :: "key \<Rightarrow> key \<Rightarrow> Graph \<Rightarrow> rel_err + Edge" where
  "Graph_Edge s d g = (case edge_at g s d of Some e \<Rightarrow> Inr e | None \<Rightarrow> Inl ErrNotFound)"

definition Graph_Count :: "key \<Rightarrow> int \<Rightarrow> Graph \<Rightarrow> nat" where
  "Graph_Count s stateFilter g =
     (if stateFilter = -1 then length (row_of g s) else length (filter (\<lambda>(d, e). eg_State e = stateFilter) (row_of g s)))"

section \<open>The edges as a function\<close>

lemma row_of_update: "row_of (AList.update s m g) s' = (if s' = s then m else row_of g s')"
  by (simp add: row_of_def update_conv')

lemma edge_at_put: "edge_at (put_edge e g) s d = (if s = eg_Source e \<and> d = eg_Destination e then Some e else edge_at g s d)"
  by (simp add: edge_at_def put_edge_def row_of_update update_conv')

lemma edge_at_make_row [simp]: "edge_at (make_row s g) s' d = edge_at g s' d"
  by (auto simp: edge_at_def make_row_def row_of_update row_of_def update_conv' split: option.splits)

lemma edge_at_delete_cell: "edge_at (delete_cell s d g) s' d' = (if s' = s \<and> d' = d then None else edge_at g s' d')"
  by (simp add: edge_at_def delete_cell_def row_of_update delete_conv')

lemma edge_at_remove: "edge_at (Graph_removeEdgeLocked s d g) s' d' = (if s' = s \<and> d' = d then None else edge_at g s' d')"
proof (cases "map_of g s")
  case None
  then show ?thesis by (auto simp: Graph_removeEdgeLocked_def edge_at_def row_of_def)
next
  case (Some m)
  have m': "map_of (AList.delete d m) d' = (if d' = d then None else map_of m d')" for d' by (simp add: delete_conv')
  show ?thesis
  proof (cases "AList.delete d m = []")
    case True
    then have "map_of m d' = None" if "d' \<noteq> d" for d' using m' [of d'] that by simp
    then show ?thesis using Some True by (auto simp: Graph_removeEdgeLocked_def edge_at_def row_of_def delete_conv')
  next
    case False
    then show ?thesis using Some m' by (auto simp: Graph_removeEdgeLocked_def edge_at_def row_of_update Let_def row_of_def update_conv')
  qed
qed

lemma edge_at_Block:
  "edge_at (Graph_Block s d pos g) s' d' =
     (if s' = s \<and> d' = d then Some \<lparr>eg_Source = s, eg_Destination = d, eg_State = StateBlocked, eg_Position = pos, eg_Metadata = None\<rparr> else edge_at g s' d')"
  by (auto simp: Graph_Block_def Let_def edge_at_put edge_at_delete_cell split: option.split)

lemma addEdgeLocked_cases:
  "Graph_addEdgeLocked s d st pos meta g = (r, g') \<Longrightarrow>
     (if edge_at g s d \<noteq> None then r = Some ErrAlreadyExists \<and> edge_at g' = edge_at g
      else r = None \<and> edge_at g' = (\<lambda>s' d'. if s' = s \<and> d' = d
         then Some \<lparr>eg_Source = s, eg_Destination = d, eg_State = st, eg_Position = pos, eg_Metadata = meta\<rparr> else edge_at g s' d'))"
  by (auto simp: Graph_addEdgeLocked_def Let_def edge_at_put fun_eq_iff split: if_splits)

text \<open>
  Removing a friend deletes both edges whatever their state, also the edge by which the other side had
  blocked the caller.
\<close>

lemma RemoveFriend_unblocks:
  "let g = Graph_Block ''bob'' ''eve'' 1 Graph_New
   in Graph_IsBlocked ''bob'' ''eve'' g \<and> \<not> Graph_IsBlocked ''bob'' ''eve'' (Graph_RemoveFriend ''eve'' ''bob'' g)"
  by (simp add: Graph_IsBlocked_def Graph_isBlockedLocked_def Graph_RemoveFriend_def edge_at_remove edge_at_Block StateBlocked_def)

section \<open>Well-formed graphs\<close>

definition row_wf :: "key \<Rightarrow> row \<Rightarrow> bool" where
  "row_wf s m \<longleftrightarrow> distinct (map fst m) \<and> (\<forall>d e. map_of m d = Some e \<longrightarrow> eg_Source e = s \<and> eg_Destination e = d)"

definition graph_wf :: "Graph \<Rightarrow> bool" where
  "graph_wf g \<longleftrightarrow> distinct (map fst g) \<and> (\<forall>s m. map_of g s = Some m \<longrightarrow> row_wf s m)"

lemma row_wf_row_of: "graph_wf g \<Longrightarrow> row_wf s (row_of g s)"
  by (auto simp: graph_wf_def row_of_def row_wf_def split: option.split)

lemma graph_wf_update: "graph_wf g \<Longrightarrow> row_wf s m \<Longrightarrow> graph_wf (AList.update s m g)"
  by (auto simp: graph_wf_def update_conv' distinct_update split: if_splits)

lemma graph_wf_delete: "graph_wf g \<Longrightarrow> graph_wf (AList.delete s g)"
  by (auto simp: graph_wf_def delete_conv' distinct_delete split: if_splits)

lemma row_wf_delete: "row_wf s m \<Longrightarrow> row_wf s (AList.delete d m)"
  by (auto simp: row_wf_def delete_conv' distinct_delete split: if_splits)

lemma row_wf_update: "row_wf (eg_Source e) m \<Longrightarrow> row_wf (eg_Source e) (AList.update (eg_Destination e) e m)"
  by (auto simp: row_wf_def update_conv' distinct_update split: if_splits)

lemma graph_wf_put: "graph_wf g \<Longrightarrow> graph_wf (put_edge e g)"
  by (simp add: put_edge_def graph_wf_update row_wf_update row_wf_row_of)

lemma graph_wf_make_row: "graph_wf g \<Longrightarrow> graph_wf (make_row s g)"
  by (auto simp: make_row_def row_wf_def intro: graph_wf_update split: option.split)

lemma graph_wf_delete_cell: "graph_wf g \<Longrightarrow> graph_wf (delete_cell s d g)"
  by (simp add: delete_cell_def graph_wf_update row_wf_delete row_wf_row_of)

lemma graph_wf_remove: "graph_wf g \<Longrightarrow> graph_wf (Graph_removeEdgeLocked s d g)"
  using row_wf_row_of [of g s]
  by (auto simp: Graph_removeEdgeLocked_def Let_def row_of_def graph_wf_delete intro!: graph_wf_update row_wf_delete split: option.split)

lemmas graph_wf_ops = graph_wf_put graph_wf_make_row graph_wf_delete_cell graph_wf_remove

lemma graph_wf_addEdgeLocked: "graph_wf g \<Longrightarrow> graph_wf (snd (Graph_addEdgeLocked s d st pos meta g))"
  by (simp add: Graph_addEdgeLocked_def Let_def graph_wf_ops)

lemma graph_wf_AddEdge: "graph_wf g \<Longrightarrow> graph_wf (snd (Graph_AddEdge e g))"
  by (simp add: Graph_AddEdge_def Let_def graph_wf_ops)

lemma graph_wf_Block: "graph_wf g \<Longrightarrow> graph_wf (Graph_Block s d pos g)"
  by (auto simp: Graph_Block_def Let_def intro!: graph_wf_ops split: option.split)

lemma graph_wf_AddFriend: "graph_wf g \<Longrightarrow> graph_wf (snd (Graph_AddFriend a b pos g))"
proof -
  assume wf: "graph_wf g"
  obtain r1 g1 where g1: "Graph_addEdgeLocked a b StateActive pos None g = (r1, g1)" by force
  obtain r2 g2 where g2: "Graph_addEdgeLocked b a StateActive pos None g1 = (r2, g2)" by force
  have "graph_wf g1" using graph_wf_addEdgeLocked [OF wf, of a b StateActive pos None] g1 by simp
  moreover from graph_wf_addEdgeLocked [OF this, of b a StateActive pos None] have "graph_wf g2" using g2 by simp
  ultimately show ?thesis using wf g1 g2 by (cases r1; cases r2) (simp_all add: Graph_AddFriend_def graph_wf_delete_cell)
qed

lemma Friends_intro:
  assumes "edge_at g a b = Some e" "eg_State e = StateActive" "edge_at g b a = Some f" "eg_State f = StateActive"
  shows "b \<in> set (Graph_Friends a g)"
  using assms map_of_SomeD [of "row_of g a" b e] by (force simp: Graph_Friends_def edge_at_def)

lemma AddFriend_cases:
  assumes "graph_wf g"
  shows "case Graph_AddFriend a b pos g of (r, g') \<Rightarrow> graph_wf g' \<and>
      (r = None \<longleftrightarrow> a \<noteq> b \<and> edge_at g a b = None \<and> edge_at g b a = None)
      \<and> (r = Some ErrBlocked \<longleftrightarrow> Graph_IsBlocked a b g \<or> Graph_IsBlocked b a g)
      \<and> (if r = None then b \<in> set (Graph_Friends a g') \<and> a \<in> set (Graph_Friends b g')
            \<and> (\<forall>s d. {s, d} \<noteq> {a, b} \<longrightarrow> edge_at g' s d = edge_at g s d)
         else edge_at g' = edge_at g)"
proof -
  obtain r g' where af: "Graph_AddFriend a b pos g = (r, g')" by force
  have wf: "graph_wf g'" using graph_wf_AddFriend [OF assms, of a b pos] af by simp
  let ?e = "\<lambda>s d. \<lparr>eg_Source = s, eg_Destination = d, eg_State = StateActive, eg_Position = pos, eg_Metadata = None\<rparr>"
  show ?thesis
  proof (cases "Graph_isBlockedLocked a b g \<or> Graph_isBlockedLocked b a g")
    case True
    then have "r = Some ErrBlocked" "g' = g" using af by (auto simp: Graph_AddFriend_def)
    then show ?thesis using True wf af by (auto simp: Graph_IsBlocked_def Graph_isBlockedLocked_def split: option.splits)
  next
    case free: False
    obtain r1 g1 where g1: "Graph_addEdgeLocked a b StateActive pos None g = (r1, g1)" by force
    obtain r2 g2 where g2: "Graph_addEdgeLocked b a StateActive pos None g1 = (r2, g2)" by force
    note c1 = addEdgeLocked_cases [OF g1] and c2 = addEdgeLocked_cases [OF g2]
    show ?thesis
    proof (cases "edge_at g a b = None")
      case False
      then have "r = Some ErrAlreadyExists" "edge_at g' = edge_at g" using af free g1 c1 by (auto simp: Graph_AddFriend_def)
      then show ?thesis using af wf free False by (simp add: Graph_IsBlocked_def)
    next
      case ab: True
      then have r1: "r1 = None" "edge_at g1 = (\<lambda>s d. if s = a \<and> d = b then Some (?e a b) else edge_at g s d)" using c1 by simp_all
      show ?thesis
      proof (cases "edge_at g1 b a = None")
        case False
        then have r: "r = Some ErrAlreadyExists" "g' = delete_cell a b g2" "edge_at g2 = edge_at g1" using af free g1 r1 g2 c2 by (auto simp: Graph_AddFriend_def)
        have same: "edge_at g' = edge_at g"
          by (intro ext) (simp add: r(2,3) r1(2) edge_at_delete_cell ab)
        have "edge_at g b a \<noteq> None" if "a \<noteq> b" using False that unfolding r1(2) by simp
        then show ?thesis using af wf free r(1) same by (auto simp: Graph_IsBlocked_def)
      next
        case True
        then have r: "r = None" "g' = g2" "edge_at g2 = (\<lambda>s d. if s = b \<and> d = a then Some (?e b a) else edge_at g1 s d)"
          using af free g1 r1 g2 c2 by (simp_all add: Graph_AddFriend_def)
        have "(if b = a \<and> a = b then Some (?e a b) else edge_at g b a) = None" using True unfolding r1(2) .
        then have ne: "a \<noteq> b" "edge_at g b a = None" by (cases "a = b"; simp)+
        have "edge_at g' a b = Some (?e a b)" "edge_at g' b a = Some (?e b a)" unfolding r(2,3) r1(2) using ne by simp_all
        then have "b \<in> set (Graph_Friends a g')" "a \<in> set (Graph_Friends b g')" by (auto intro: Friends_intro)
        moreover have "edge_at g' s d = edge_at g s d" if "{s, d} \<noteq> {a, b}" for s d
        proof -
          have off: "(s = a \<and> d = b) = False" "(s = b \<and> d = a) = False" using that by blast+
          show ?thesis unfolding r(2,3) r1(2) off if_False ..
        qed
        ultimately have "b \<in> set (Graph_Friends a g') \<and> a \<in> set (Graph_Friends b g')
            \<and> (\<forall>s d. {s, d} \<noteq> {a, b} \<longrightarrow> edge_at g' s d = edge_at g s d)" by blast
        then show ?thesis unfolding af r(1) using wf free ne ab by (simp add: Graph_IsBlocked_def del: not_None_eq)
      qed
    qed
  qed
qed

section \<open>Paging\<close>

definition selected :: "key \<Rightarrow> int \<Rightarrow> Graph \<Rightarrow> Edge list" where
  "selected s st g = filter (\<lambda>e. st = -1 \<or> eg_State e = st) (map snd (row_of g s))"

text \<open>A client that asks for page after page, with the position of the last edge seen as the next cursor.\<close>

fun Graph_pages :: "nat \<Rightarrow> key \<Rightarrow> int \<Rightarrow> int \<Rightarrow> int \<Rightarrow> Graph \<Rightarrow> Edge list" where
  "Graph_pages 0 s after limit st g = []"
| "Graph_pages (Suc n) s after limit st g =
     (let page = Graph_Outgoing s after limit st g
      in if page = [] then [] else page @ Graph_pages n s (eg_Position (last page)) limit st g)"

lemma Outgoing_filter:
  "Graph_Outgoing s after limit st g =
     take (nat (if limit \<le> 0 then 50 else limit)) (filter (\<lambda>e. 0 < after \<longrightarrow> eg_Position e < after) (sort_key (\<lambda>e. - eg_Position e) (selected s st g)))"
proof -
  let ?xs = "filter (\<lambda>e. 0 < after \<longrightarrow> eg_Position e < after) (sort_key (\<lambda>e. - eg_Position e) (selected s st g))" and ?l = "if limit \<le> 0 then 50 else limit"
  have "(\<lambda>e. \<not> (st \<noteq> -1 \<and> eg_State e \<noteq> st) \<and> \<not> (0 < after \<and> after \<le> eg_Position e)) =
      (\<lambda>e :: Edge. (st = -1 \<or> eg_State e = st) \<and> (0 < after \<longrightarrow> eg_Position e < after))" by auto
  then have "Graph_Outgoing s after limit st g = (if ?l < int (length ?xs) then take (nat ?l) ?xs else ?xs)"
    by (simp add: Graph_Outgoing_def selected_def Let_def filter_sort conj_commute)
  also have "\<dots> = take (nat ?l) ?xs" by auto
  finally show ?thesis .
qed

lemma pages_from:
  assumes sorted: "sorted_wrt (\<lambda>x y. eg_Position y < eg_Position x) (xs @ ys)" and pos: "\<forall>e\<in>set (xs @ ys). 0 < eg_Position e"
    and all: "sort_key (\<lambda>e. - eg_Position e) (selected s st g) = xs @ ys"
    and after: "after = (if xs = [] then 0 else eg_Position (last xs))" and fuel: "length ys < n"
  shows "Graph_pages n s after limit st g = ys"
  using assms
proof (induction n arbitrary: xs ys after)
  case (Suc n)
  let ?l = "nat (if limit \<le> 0 then 50 else limit)"
  have "filter (\<lambda>e. 0 < after \<longrightarrow> eg_Position e < after) (xs @ ys) = ys"
  proof (cases xs rule: rev_cases)
    case Nil
    then show ?thesis using Suc.prems(4) by simp
  next
    case (snoc zs z)
    have "\<forall>e\<in>set xs. \<not> eg_Position e < after" "\<forall>e\<in>set ys. eg_Position e < after" "0 < after"
      using Suc.prems(1,2,4) snoc by (auto simp: sorted_wrt_append)
    then show ?thesis by simp
  qed
  then have page: "Graph_Outgoing s after limit st g = take ?l ys" by (simp add: Outgoing_filter Suc.prems(3))
  show ?case
  proof (cases "ys = []")
    case False
    define as where "as = take ?l ys"
    have ys: "ys = as @ drop ?l ys" "as \<noteq> []" using False by (simp_all add: as_def)
    have l: "length (drop ?l ys) < n" using Suc.prems(5) False by (cases ys) auto
    have "Graph_pages n s (eg_Position (last as)) limit st g = drop ?l ys"
      by (rule Suc.IH [of "xs @ as"]) (use Suc.prems(1-3) ys l in \<open>simp_all\<close>)
    then show ?thesis using page ys by (simp add: Let_def as_def [symmetric])
  qed (simp add: page)
qed simp

section \<open>Properties\<close>

text \<open>Every operation of the graph keeps it well-formed (one row per source, one edge per pair, stored under its own
  endpoints) and does to the edges just what it says; an operation that returns an error changes no edge. In
  particular \<open>AddFriend\<close> adds both directions or none: it is refused when either side blocks the other or
  when an edge exists in either direction, also when only the second one does.\<close>

theorem Graph_operations:
  assumes "graph_wf g"
  shows "(case Graph_AddEdge e g of (r, g') \<Rightarrow> graph_wf g' \<and>
      (r = None \<longleftrightarrow> eg_Source e \<noteq> [] \<and> eg_Destination e \<noteq> [] \<and> \<not> Graph_IsBlocked (eg_Destination e) (eg_Source e) g
         \<and> edge_at g (eg_Source e) (eg_Destination e) = None)
      \<and> edge_at g' = (\<lambda>s d. if r = None \<and> s = eg_Source e \<and> d = eg_Destination e then Some e else edge_at g s d))
    \<and> (case Graph_RemoveEdge a b g of (r, g') \<Rightarrow> graph_wf g' \<and> (r = None \<longleftrightarrow> edge_at g a b \<noteq> None)
      \<and> edge_at g' = (\<lambda>s d. if s = a \<and> d = b then None else edge_at g s d))
    \<and> (case Graph_AddFriend a b pos g of (r, g') \<Rightarrow> graph_wf g' \<and>
      (r = None \<longleftrightarrow> a \<noteq> b \<and> edge_at g a b = None \<and> edge_at g b a = None)
      \<and> (r = Some ErrBlocked \<longleftrightarrow> Graph_IsBlocked a b g \<or> Graph_IsBlocked b a g)
      \<and> (if r = None then b \<in> set (Graph_Friends a g') \<and> a \<in> set (Graph_Friends b g')
            \<and> (\<forall>s d. {s, d} \<noteq> {a, b} \<longrightarrow> edge_at g' s d = edge_at g s d)
         else edge_at g' = edge_at g))
    \<and> graph_wf (Graph_RemoveFriend a b g) \<and> edge_at (Graph_RemoveFriend a b g) a b = None \<and> edge_at (Graph_RemoveFriend a b g) b a = None
    \<and> graph_wf (Graph_Block a b pos g) \<and> Graph_IsBlocked a b (Graph_Block a b pos g)"
proof -
  have 1: "case Graph_AddEdge e g of (r, g') \<Rightarrow> graph_wf g' \<and>
      (r = None \<longleftrightarrow> eg_Source e \<noteq> [] \<and> eg_Destination e \<noteq> [] \<and> \<not> Graph_IsBlocked (eg_Destination e) (eg_Source e) g
         \<and> edge_at g (eg_Source e) (eg_Destination e) = None)
      \<and> edge_at g' = (\<lambda>s d. if r = None \<and> s = eg_Source e \<and> d = eg_Destination e then Some e else edge_at g s d)"
    using graph_wf_AddEdge [OF assms, of e]
    by (auto simp: Graph_AddEdge_def Let_def Graph_IsBlocked_def edge_at_put fun_eq_iff split: if_splits)
  have 2: "case Graph_RemoveEdge a b g of (r, g') \<Rightarrow> graph_wf g' \<and> (r = None \<longleftrightarrow> edge_at g a b \<noteq> None)
      \<and> edge_at g' = (\<lambda>s d. if s = a \<and> d = b then None else edge_at g s d)"
    using assms graph_wf_remove by (auto simp: Graph_RemoveEdge_def edge_at_remove fun_eq_iff)
  have 3: "case Graph_AddFriend a b pos g of (r, g') \<Rightarrow> graph_wf g' \<and>
      (r = None \<longleftrightarrow> a \<noteq> b \<and> edge_at g a b = None \<and> edge_at g b a = None)
      \<and> (r = Some ErrBlocked \<longleftrightarrow> Graph_IsBlocked a b g \<or> Graph_IsBlocked b a g)
      \<and> (if r = None then b \<in> set (Graph_Friends a g') \<and> a \<in> set (Graph_Friends b g')
            \<and> (\<forall>s d. {s, d} \<noteq> {a, b} \<longrightarrow> edge_at g' s d = edge_at g s d)
         else edge_at g' = edge_at g)"
    by (rule AddFriend_cases [OF assms])
  show ?thesis using 1 2 3 assms by (simp add: Graph_RemoveFriend_def edge_at_remove graph_wf_remove graph_wf_Block Graph_IsBlocked_def Graph_isBlockedLocked_def edge_at_Block)
qed

theorem Graph_operations_witness:
  "fst (Graph_AddFriend ''ann'' ''bob'' 1 Graph_New) = None \<and> ''bob'' \<in> set (Graph_Friends ''ann'' (snd (Graph_AddFriend ''ann'' ''bob'' 1 Graph_New)))"
proof -
  have wf: "graph_wf Graph_New" by (simp add: graph_wf_def Graph_New_def)
  have "edge_at Graph_New s d = None" for s d by (simp add: edge_at_def row_of_def Graph_New_def)
  moreover obtain r g' where af: "Graph_AddFriend ''ann'' ''bob'' 1 Graph_New = (r, g')" by force
  ultimately have "r = None" "''bob'' \<in> set (Graph_Friends ''ann'' g')"
    using Graph_operations [OF wf, where a = "''ann''" and b = "''bob''" and pos = 1, THEN conjunct2, THEN conjunct2, THEN conjunct1] by simp_all
  then show ?thesis using af by simp
qed

text \<open>Paging is complete: a client that asks \<open>Outgoing\<close> for page after page, with the position of the last edge it
  saw as the next cursor and any limit, gets every edge of the source that passes the state filter exactly
  once, newest first, provided that the positions are positive and no two are equal.\<close>

theorem Graph_paging_complete:
  assumes "distinct (map eg_Position (selected s st g))" "\<forall>e\<in>set (selected s st g). 0 < eg_Position e" "length (selected s st g) < n"
  shows "mset (Graph_pages n s 0 limit st g) = mset (selected s st g)
    \<and> sorted_wrt (\<lambda>x y. eg_Position y < eg_Position x) (Graph_pages n s 0 limit st g)"
proof -
  define ys where "ys = sort_key (\<lambda>e. - eg_Position e) (selected s st g)"
  have ms: "mset ys = mset (selected s st g)" by (simp add: ys_def)
  have "sorted (map (\<lambda>e. - eg_Position e) ys)" by (simp add: ys_def)
  moreover have "mset (map eg_Position ys) = mset (map eg_Position (selected s st g))" using ms by simp
  then have "distinct (map eg_Position ys)" using assms(1) mset_eq_imp_distinct_iff by blast
  then have "distinct (map (\<lambda>e. - eg_Position e) ys)" by (simp add: distinct_map inj_on_def)
  ultimately have "sorted_wrt (<) (map (\<lambda>e. - eg_Position e) ys)" by (simp add: strict_sorted_iff)
  then have sorted: "sorted_wrt (\<lambda>x y. eg_Position y < eg_Position x) ys" by (simp add: sorted_wrt_map)
  moreover have "\<forall>e\<in>set ys. 0 < eg_Position e" using assms(2) mset_eq_setD [OF ms] by simp
  moreover have "length ys < n" using assms(3) mset_eq_length [OF ms] by simp
  ultimately have "Graph_pages n s 0 limit st g = ys" using pages_from [where xs = "[]" and ys = ys and s = s and st = st and g = g and after = 0 and n = n and limit = limit] by (simp add: ys_def [symmetric])
  then show ?thesis using sorted ms by simp
qed

theorem Graph_paging_complete_witness:
  "let g = Graph_Block ''a'' ''c'' 9 (Graph_Block ''a'' ''b'' 5 Graph_New)
   in mset (Graph_pages 3 ''a'' 0 1 (-1) g) = mset (selected ''a'' (-1) g)"
proof -
  define g where "g = Graph_Block ''a'' ''c'' 9 (Graph_Block ''a'' ''b'' 5 Graph_New)"
  have "map eg_Position (selected ''a'' (-1) g) = [5, 9]"
    by (simp add: g_def selected_def Graph_Block_def Graph_New_def make_row_def row_of_def put_edge_def edge_at_def)
  then have "distinct (map eg_Position (selected ''a'' (-1) g))" "\<forall>p\<in>set (map eg_Position (selected ''a'' (-1) g)). 0 < p" "length (selected ''a'' (-1) g) < 3"
    by (simp, simp, metis length_map length_Cons list.size(3) lessI numeral_2_eq_2 numeral_3_eq_3)
  then show ?thesis using Graph_paging_complete [of "''a''" "-1" g 3 1] unfolding Let_def g_def [symmetric] by simp
qed

end
