(* ===== verification/Lifecycle.thy ===== *)
theory Lifecycle
  imports Prelude
begin

text \<open>
  \<open>beauty.go\<close>: the application and its life, from \<open>New\<close> over \<open>Start\<close> to the ordered shutdown. \<open>Start\<close> runs next to
  two goroutines per service (the one that registers the service and takes it down again, and the one
  that runs \<open>srv.Start\<close>) and to the goroutine that waits for a signal. Each has a program counter; an
  action is one atomic step of one of them, given with the time at which it happens, and a run is a
  sequence of actions in any order. What a service, a registry, the operating system or the caller's
  context decides is the choice the action carries. A second signal ends the process and is not modelled;
  hooks are names in a log, so a hook that adds hooks is not modelled.
\<close>

section \<open>The application and its options\<close>

datatype HookEvent = EventBeforeRun | EventAfterRun

text \<open>A hook is a function of the caller or the one that \<open>WithComponent\<close> installs to cancel a component.\<close>

datatype 'h hook = UserHook 'h | StopComponent string

record Service =
  svc_name :: string
  svc_ReadyNotifier :: bool
  svc_discover :: bool

record 'h App =
  ap_ready :: int
  ap_hooks :: "HookEvent \<Rightarrow> 'h hook list"
  ap_services :: "Service list"
  ap_registry :: "string list"
  ap_drainDelay :: duration

definition App_Hook :: "HookEvent \<Rightarrow> 'h hook \<Rightarrow> 'h App \<Rightarrow> 'h App" where
  "App_Hook stage fn app = app\<lparr>ap_hooks := (ap_hooks app)(stage := ap_hooks app stage @ [fn])\<rparr>"

datatype app_option =
    WithService Service
  | WithRegistry "string option"
  | WithShutdownDrainDelay duration
  | WithComponent string

fun app_apply :: "app_option \<Rightarrow> 'h App \<Rightarrow> 'h App" where
  "app_apply (WithService s) app = app\<lparr>ap_services := ap_services app @ [s]\<rparr>"
| "app_apply (WithRegistry None) app = app"
| "app_apply (WithRegistry (Some r)) app = app\<lparr>ap_registry := ap_registry app @ [r]\<rparr>"
| "app_apply (WithShutdownDrainDelay d) app = app\<lparr>ap_drainDelay := d\<rparr>"
| "app_apply (WithComponent c) app = App_Hook EventAfterRun (StopComponent c) app"

definition App_New :: "app_option list \<Rightarrow> 'h App" where
  "App_New opts = foldl (\<lambda>app opt. app_apply opt app)
     \<lparr>ap_ready = 0, ap_hooks = (\<lambda>_. []), ap_services = [], ap_registry = [], ap_drainDelay = 0\<rparr> opts"

definition App_Ready :: "'h App \<Rightarrow> bool" where
  "App_Ready app \<longleftrightarrow> ap_ready app = 1"

section \<open>One service: its two goroutines\<close>

text \<open>Registries are named by their index in \<open>app.registry\<close>. The lists are the registries still to do and the
  \<open>stops\<close> gathered so far; the flag of \<open>Dereg\<close> tells a normal shutdown from that of a server that has left.\<close>

datatype orch_pc =
    WaitReady
  | Registering "nat list" "nat list"
  | Undo "nat list"
  | WaitStop "nat list"
  | Dereg bool "nat list"
  | Drain time
  | StopServe
  | DeferStop
  | DeferDone
  | OrchGone

datatype serve_pc = Serving | ServeStop | ServeCancel | ServeDone | ServeGone

text \<open>\<open>sv_active\<close> is what the registries hold for the service, \<open>sv_stop\<close> the time at which \<open>serveCtx\<close> was cancelled,
  \<open>sv_left\<close> the time of the last call of a stop function by \<open>deregister\<close>.\<close>

record Svc =
  sv_service :: Service
  sv_ready :: bool
  sv_orch :: orch_pc
  sv_serve :: serve_pc
  sv_active :: "nat list"
  sv_stop :: "time option"
  sv_left :: "time option"

definition new_svc :: "Service \<Rightarrow> Svc" where
  "new_svc s = \<lparr>sv_service = s, sv_ready = False, sv_orch = WaitReady, sv_serve = Serving, sv_active = [], sv_stop = None, sv_left = None\<rparr>"

definition stopServe :: "time \<Rightarrow> Svc \<Rightarrow> Svc" where
  "stopServe t v = v\<lparr>sv_stop := (case sv_stop v of None \<Rightarrow> Some t | Some t0 \<Rightarrow> Some t0)\<rparr>"

text \<open>The branch a \<open>select\<close> takes, the answer of \<open>Register\<close>, or the only way on.\<close>

datatype choice = ByReady | ByCtx | ByServe | ByTimer | RegOk | RegErr | Next

fun orch_step :: "'h App \<Rightarrow> bool \<Rightarrow> time \<Rightarrow> choice \<Rightarrow> orch_pc \<Rightarrow> Svc \<Rightarrow> Svc option" where
  "orch_step app ctxDone t c WaitReady v =
     (let go = v\<lparr>sv_orch := Registering (if svc_discover (sv_service v) then [0..<length (ap_registry app)] else []) []\<rparr>
      in if \<not> svc_ReadyNotifier (sv_service v) then (if c = Next then Some go else None)
         else if c = ByReady \<and> sv_ready v then Some go
         else if c = ByCtx \<and> ctxDone \<or> c = ByServe \<and> sv_stop v \<noteq> None then Some (v\<lparr>sv_orch := DeferStop\<rparr>)
         else None)"
| "orch_step app ctxDone t c (Registering [] stops) v =
     (if c = Next then Some (v\<lparr>sv_orch := WaitStop stops\<rparr>) else None)"
| "orch_step app ctxDone t c (Registering (r # rs) stops) v =
     (if c = RegOk then Some (v\<lparr>sv_orch := Registering rs (stops @ [r]), sv_active := sv_active v @ [r]\<rparr>)
      else if c = RegErr then Some (v\<lparr>sv_orch := Undo stops\<rparr>)
      else None)"
| "orch_step app ctxDone t c (Undo []) v = (if c = Next then Some (v\<lparr>sv_orch := DeferStop\<rparr>) else None)"
| "orch_step app ctxDone t c (Undo (r # rs)) v =
     (if c = Next then Some (v\<lparr>sv_orch := Undo rs, sv_active := remove1 r (sv_active v)\<rparr>) else None)"
| "orch_step app ctxDone t c (WaitStop stops) v =
     (if c = ByCtx \<and> ctxDone then Some (v\<lparr>sv_orch := (if stops = [] then StopServe else Dereg True stops)\<rparr>)
      else if c = ByServe \<and> sv_stop v \<noteq> None then Some (v\<lparr>sv_orch := Dereg False stops\<rparr>)
      else None)"
| "orch_step app ctxDone t c (Dereg normal (r # rs)) v =
     (if c = Next then Some (v\<lparr>sv_orch := Dereg normal rs, sv_active := remove1 r (sv_active v), sv_left := Some t\<rparr>) else None)"
| "orch_step app ctxDone t c (Dereg normal []) v =
     (if c = Next then Some (v\<lparr>sv_orch :=
        (if \<not> normal then DeferStop
         else if 0 < ap_drainDelay app \<and> sv_stop v = None then Drain (t + ap_drainDelay app) else StopServe)\<rparr>)
      else None)"
| "orch_step app ctxDone t c (Drain until) v =
     (if c = ByTimer \<and> until \<le> t \<or> c = ByServe \<and> sv_stop v \<noteq> None then Some (v\<lparr>sv_orch := StopServe\<rparr>) else None)"
| "orch_step app ctxDone t c StopServe v = (if c = Next then Some ((stopServe t v)\<lparr>sv_orch := DeferStop\<rparr>) else None)"
| "orch_step app ctxDone t c DeferStop v = (if c = Next then Some ((stopServe t v)\<lparr>sv_orch := DeferDone\<rparr>) else None)"
| "orch_step app ctxDone t c DeferDone v = (if c = Next then Some (v\<lparr>sv_orch := OrchGone\<rparr>) else None)"
| "orch_step app ctxDone t c OrchGone v = None"

text \<open>The serve goroutine: \<open>srv.Start\<close> returns, then the deferred calls run, last first.\<close>

fun serve_step :: "time \<Rightarrow> serve_pc \<Rightarrow> Svc \<Rightarrow> Svc option" where
  "serve_step t Serving v = Some (v\<lparr>sv_serve := ServeStop\<rparr>)"
| "serve_step t ServeStop v = Some ((stopServe t v)\<lparr>sv_serve := ServeCancel\<rparr>)"
| "serve_step t ServeCancel v = Some (v\<lparr>sv_serve := ServeDone\<rparr>)"
| "serve_step t ServeDone v = Some (v\<lparr>sv_serve := ServeGone\<rparr>)"
| "serve_step t ServeGone v = None"

section \<open>The whole application\<close>

datatype 'h main_pc =
    MainBefore "'h hook list"
  | MainLaunch "Service list"
  | MainWait
  | MainSwap
  | MainJoin
  | MainAfter "'h hook list"
  | MainReturned

datatype signal_pc = SigWait | SigCancel | SigGone

record 'h Run =
  rn_app :: "'h App"
  rn_parent :: bool
  rn_ctx :: bool
  rn_main :: "'h main_pc"
  rn_signal :: signal_pc
  rn_wg :: nat
  rn_svcs :: "Svc list"
  rn_now :: time
  rn_log :: "(HookEvent \<times> 'h hook) list"

text \<open>\<open>Start\<close> up to its first hook: the compare-and-swap on \<open>ready\<close>; without it \<open>Start\<close> returns at once.\<close>

definition App_Start :: "time \<Rightarrow> 'h App \<Rightarrow> 'h Run option" where
  "App_Start t app =
     (if ap_ready app \<noteq> 0 then None
      else Some \<lparr>rn_app = app\<lparr>ap_ready := 1\<rparr>, rn_parent = False, rn_ctx = False, rn_main = MainBefore (ap_hooks app EventBeforeRun),
                 rn_signal = SigWait, rn_wg = 0, rn_svcs = [], rn_now = t, rn_log = []\<rparr>)"

definition swap_ready :: "'h Run \<Rightarrow> 'h Run" where
  "swap_ready s = s\<lparr>rn_app := (rn_app s)\<lparr>ap_ready := 0\<rparr>\<rparr>"

fun main_step :: "'h main_pc \<Rightarrow> 'h Run \<Rightarrow> 'h Run option" where
  "main_step (MainBefore (h # hs)) s = Some (s\<lparr>rn_main := MainBefore hs, rn_log := rn_log s @ [(EventBeforeRun, h)]\<rparr>)"
| "main_step (MainBefore []) s = Some (s\<lparr>rn_main := MainLaunch (ap_services (rn_app s))\<rparr>)"
| "main_step (MainLaunch (srv # rest)) s =
     Some (s\<lparr>rn_main := MainLaunch rest, rn_wg := rn_wg s + 2, rn_svcs := rn_svcs s @ [new_svc srv]\<rparr>)"
| "main_step (MainLaunch []) s = Some (s\<lparr>rn_main := MainWait\<rparr>)"
| "main_step MainWait s = (if rn_ctx s then Some (s\<lparr>rn_main := MainSwap\<rparr>) else None)"
| "main_step MainSwap s = Some ((swap_ready s)\<lparr>rn_main := MainJoin\<rparr>)"
| "main_step MainJoin s = (if rn_wg s = 0 then Some (s\<lparr>rn_main := MainAfter (ap_hooks (rn_app s) EventAfterRun)\<rparr>) else None)"
| "main_step (MainAfter (h # hs)) s = Some (s\<lparr>rn_main := MainAfter hs, rn_log := rn_log s @ [(EventAfterRun, h)]\<rparr>)"
| "main_step (MainAfter []) s = Some (s\<lparr>rn_main := MainReturned\<rparr>)"
| "main_step MainReturned s = None"

fun signal_step :: "signal_pc \<Rightarrow> 'h Run \<Rightarrow> 'h Run option" where
  "signal_step SigWait s = Some ((swap_ready s)\<lparr>rn_signal := SigCancel\<rparr>)"
| "signal_step SigCancel s = Some (s\<lparr>rn_signal := SigGone, rn_ctx := True\<rparr>)"
| "signal_step SigGone s = None"

datatype action = ActMain | ActSignal | ActParent | ActReady nat | ActOrch nat choice | ActServe nat

definition app_act :: "action \<Rightarrow> time \<Rightarrow> 'h Run \<Rightarrow> 'h Run option" where
  "app_act a t s =
     (case a of
        ActMain \<Rightarrow> main_step (rn_main s) s
      | ActSignal \<Rightarrow> signal_step (rn_signal s) s
      | ActParent \<Rightarrow> if rn_parent s then None else Some (s\<lparr>rn_parent := True, rn_ctx := True\<rparr>)
      | ActReady i \<Rightarrow>
          if i < length (rn_svcs s) \<and> \<not> sv_ready (rn_svcs s ! i)
          then Some (s\<lparr>rn_svcs := (rn_svcs s)[i := (rn_svcs s ! i)\<lparr>sv_ready := True\<rparr>]\<rparr>) else None
      | ActOrch i c \<Rightarrow>
          if i < length (rn_svcs s) then
            (case orch_step (rn_app s) (rn_ctx s) t c (sv_orch (rn_svcs s ! i)) (rn_svcs s ! i) of
               None \<Rightarrow> None
             | Some v \<Rightarrow> Some (s\<lparr>rn_svcs := (rn_svcs s)[i := v], rn_wg := rn_wg s - (if sv_orch v = OrchGone then 1 else 0)\<rparr>))
          else None
      | ActServe i \<Rightarrow>
          if i < length (rn_svcs s) then
            (case serve_step t (sv_serve (rn_svcs s ! i)) (rn_svcs s ! i) of
               None \<Rightarrow> None
             | Some v \<Rightarrow> Some (s\<lparr>rn_svcs := (rn_svcs s)[i := v], rn_ctx := (rn_ctx s \<or> sv_serve v = ServeDone),
                                 rn_wg := rn_wg s - (if sv_serve v = ServeGone then 1 else 0)\<rparr>))
          else None)"

text \<open>One step at a time that is not before the last one, and the runs made of such steps.\<close>

definition app_step :: "action \<times> time \<Rightarrow> 'h Run \<Rightarrow> 'h Run option" where
  "app_step = (\<lambda>(a, t) s. if rn_now s \<le> t then map_option (\<lambda>s'. s'\<lparr>rn_now := t\<rparr>) (app_act a t s) else None)"

fun app_run :: "(action \<times> time) list \<Rightarrow> 'h Run \<Rightarrow> 'h Run option" where
  "app_run [] s = Some s"
| "app_run (x # xs) s = (case app_step x s of None \<Rightarrow> None | Some s' \<Rightarrow> app_run xs s')"

inductive app_reach :: "'h App \<Rightarrow> 'h Run \<Rightarrow> bool" for app where
  start: "App_Start t app = Some s \<Longrightarrow> app_reach app s"
| step: "app_reach app s \<Longrightarrow> app_step x s = Some s' \<Longrightarrow> app_reach app s'"

section \<open>What holds for one service\<close>

definition early :: "orch_pc \<Rightarrow> bool" where
  "early pc \<longleftrightarrow> pc \<notin> {DeferStop, DeferDone, OrchGone}"

fun orch_ok :: "duration \<Rightarrow> time \<Rightarrow> orch_pc \<Rightarrow> Svc \<Rightarrow> bool" where
  "orch_ok d now WaitReady v \<longleftrightarrow> sv_active v = [] \<and> sv_left v = None"
| "orch_ok d now (Registering rs ss) v \<longleftrightarrow> sv_active v = ss \<and> sv_left v = None"
| "orch_ok d now (Undo ss) v \<longleftrightarrow> sv_active v = ss \<and> sv_left v = None"
| "orch_ok d now (WaitStop ss) v \<longleftrightarrow> sv_active v = ss \<and> sv_left v = None"
| "orch_ok d now (Dereg normal ss) v \<longleftrightarrow> sv_active v = ss \<and> (normal \<or> sv_stop v \<noteq> None)"
| "orch_ok d now (Drain u) v \<longleftrightarrow> sv_active v = [] \<and> 0 < d \<and> (\<forall>l. sv_left v = Some l \<longrightarrow> l + d \<le> u)"
| "orch_ok d now StopServe v \<longleftrightarrow> sv_active v = [] \<and> (sv_serve v = Serving \<longrightarrow> (\<forall>l. sv_left v = Some l \<longrightarrow> l + max 0 d \<le> now))"
| "orch_ok d now DeferStop v \<longleftrightarrow> sv_active v = [] \<and> (sv_serve v = Serving \<and> sv_stop v = None \<longrightarrow> sv_left v = None)"
| "orch_ok d now DeferDone v \<longleftrightarrow> sv_active v = [] \<and> sv_stop v \<noteq> None"
| "orch_ok d now OrchGone v \<longleftrightarrow> sv_active v = [] \<and> sv_stop v \<noteq> None"

text \<open>A server that is still running when it is told to stop has been taken out of the registries for the drain delay.\<close>

definition drained :: "duration \<Rightarrow> Svc \<Rightarrow> bool" where
  "drained d v \<longleftrightarrow> (\<forall>\<tau> l. sv_serve v = Serving \<longrightarrow> sv_stop v = Some \<tau> \<longrightarrow> sv_left v = Some l \<longrightarrow> l + max 0 d \<le> \<tau>)"

definition svc_ok :: "duration \<Rightarrow> time \<Rightarrow> bool \<Rightarrow> Svc \<Rightarrow> bool" where
  "svc_ok d now ctxDone v \<longleftrightarrow>
     orch_ok d now (sv_orch v) v \<and> drained d v
     \<and> (early (sv_orch v) \<and> sv_stop v \<noteq> None \<longrightarrow> sv_serve v \<noteq> Serving)
     \<and> (sv_serve v \<in> {ServeCancel, ServeDone, ServeGone} \<longrightarrow> sv_stop v \<noteq> None)
     \<and> (sv_serve v \<in> {ServeDone, ServeGone} \<longrightarrow> ctxDone)
     \<and> (\<forall>l. sv_left v = Some l \<longrightarrow> l \<le> now)"

lemma orch_ok_later: "orch_ok d now pc v \<Longrightarrow> now \<le> t \<Longrightarrow> orch_ok d t pc v"
  by (cases pc) fastforce+

lemma svc_ok_later: "svc_ok d now c v \<Longrightarrow> now \<le> t \<Longrightarrow> (c \<longrightarrow> c') \<Longrightarrow> svc_ok d t c' v"
  by (auto simp: svc_ok_def intro: orch_ok_later order_trans)

lemma svc_ok_new: "svc_ok d now c (new_svc s)"
  by (simp add: svc_ok_def new_svc_def drained_def)

lemma svc_ok_ready: "svc_ok d now c v \<Longrightarrow> svc_ok d now c (v\<lparr>sv_ready := True\<rparr>)"
  by (cases "sv_orch v") (auto simp: svc_ok_def drained_def)

lemma svc_ok_serve:
  assumes "svc_ok d t c v" "serve_step t (sv_serve v) v = Some v'"
  shows "svc_ok d t (c \<or> sv_serve v' = ServeDone) v'"
  using assms by (cases "sv_orch v"; cases "sv_serve v") (auto simp: svc_ok_def drained_def stopServe_def early_def split: option.splits)

lemma svc_ok_goto:
  assumes "svc_ok d t c v" "orch_ok d t pc (v\<lparr>sv_orch := pc, sv_active := act, sv_left := lf\<rparr>)"
    "early (sv_orch v)" "\<And>l. lf = Some l \<Longrightarrow> l \<le> t"
  shows "svc_ok d t c (v\<lparr>sv_orch := pc, sv_active := act, sv_left := lf\<rparr>)"
  using assms unfolding svc_ok_def drained_def by (cases "sv_stop v"; cases "sv_serve v"; simp)

lemma svc_ok_stop:
  assumes "svc_ok d t c v" "sv_orch v = StopServe \<and> pc = DeferStop \<or> sv_orch v = DeferStop \<and> pc = DeferDone"
  shows "svc_ok d t c ((stopServe t v)\<lparr>sv_orch := pc\<rparr>)"
  using assms unfolding svc_ok_def drained_def stopServe_def by (cases "sv_stop v"; cases "sv_serve v"; auto simp: early_def)

lemma svc_ok_pc:
  assumes "svc_ok d t c v" "orch_ok d t pc (v\<lparr>sv_orch := pc\<rparr>)" "early (sv_orch v)"
  shows "svc_ok d t c (v\<lparr>sv_orch := pc\<rparr>)"
  using svc_ok_goto [where act = "sv_active v" and lf = "sv_left v", OF assms(1) _ assms(3), of pc] assms(1,2) by (simp add: svc_ok_def)

lemma svc_ok_orch:
  assumes ok: "svc_ok (ap_drainDelay app) t c v" and st: "orch_step app c t ch (sv_orch v) v = Some v'"
  shows "svc_ok (ap_drainDelay app) t c v'"
proof -
  have oo: "orch_ok (ap_drainDelay app) t (sv_orch v) v" and late: "\<And>l. sv_left v = Some l \<Longrightarrow> l \<le> t"
    and off: "early (sv_orch v) \<Longrightarrow> sv_stop v \<noteq> None \<Longrightarrow> sv_serve v \<noteq> Serving" using ok by (simp_all add: svc_ok_def)
  show ?thesis
  proof (cases "sv_orch v")
    case WaitReady
    have e: "early (sv_orch v)" by (simp add: WaitReady early_def)
    from st WaitReady obtain pc where v': "v' = v\<lparr>sv_orch := pc\<rparr>" and pc: "pc = DeferStop \<or> (\<exists>rs. pc = Registering rs [])"
      by (auto simp: Let_def split: if_splits)
    have "orch_ok (ap_drainDelay app) t pc (v\<lparr>sv_orch := pc\<rparr>)" using oo WaitReady pc by auto
    then show ?thesis unfolding v' by (rule svc_ok_pc [OF ok _ e])
  next
    case (Registering rs ss)
    have e: "early (sv_orch v)" by (simp add: Registering early_def)
    show ?thesis
    proof (cases "\<exists>r rs'. rs = r # rs' \<and> ch = RegOk")
      case True
      then obtain r rs' where rs: "rs = r # rs'" "ch = RegOk" by blast
      have v': "v' = v\<lparr>sv_orch := Registering rs' (ss @ [r]), sv_active := sv_active v @ [r], sv_left := sv_left v\<rparr>"
        using st unfolding Registering rs by auto
      show ?thesis unfolding v' by (rule svc_ok_goto [OF ok _ e late]) (use oo Registering in simp_all)
    next
      case False
      then obtain pc where v': "v' = v\<lparr>sv_orch := pc\<rparr>" and pc: "pc = WaitStop ss \<or> pc = Undo ss"
        using st Registering by (cases rs) (auto split: if_splits)
      show ?thesis unfolding v' by (rule svc_ok_pc [OF ok _ e]) (use oo Registering pc in auto)
    qed
  next
    case (Undo ss)
    have e: "early (sv_orch v)" by (simp add: Undo early_def)
    show ?thesis
    proof (cases ss)
      case Nil
      then have v': "v' = v\<lparr>sv_orch := DeferStop\<rparr>" using st Undo by (simp split: if_splits)
      show ?thesis unfolding v' by (rule svc_ok_pc [OF ok _ e]) (use oo Undo Nil in simp)
    next
      case (Cons r rs)
      then have v': "v' = v\<lparr>sv_orch := Undo rs, sv_active := remove1 r (sv_active v), sv_left := sv_left v\<rparr>" using st Undo by (auto split: if_splits)
      show ?thesis unfolding v' by (rule svc_ok_goto [OF ok _ e late]) (use oo Undo Cons in simp_all)
    qed
  next
    case (WaitStop ss)
    have e: "early (sv_orch v)" by (simp add: WaitStop early_def)
    from st WaitStop obtain pc where v': "v' = v\<lparr>sv_orch := pc\<rparr>"
      and pc: "pc = StopServe \<and> ss = [] \<or> pc = Dereg True ss \<or> pc = Dereg False ss \<and> sv_stop v \<noteq> None"
      by (auto split: if_splits)
    show ?thesis unfolding v' by (rule svc_ok_pc [OF ok _ e]) (use oo WaitStop pc in auto)
  next
    case (Dereg b ss)
    have e: "early (sv_orch v)" by (simp add: Dereg early_def)
    show ?thesis
    proof (cases ss)
      case Nil
      then obtain pc where v': "v' = v\<lparr>sv_orch := pc\<rparr>" and pc: "pc = DeferStop \<and> \<not> b
          \<or> pc = Drain (t + ap_drainDelay app) \<and> 0 < ap_drainDelay app \<or> pc = StopServe \<and> (ap_drainDelay app \<le> 0 \<or> sv_stop v \<noteq> None)"
        using st Dereg by (auto split: if_splits)
      show ?thesis unfolding v' by (rule svc_ok_pc [OF ok _ e]) (use oo Dereg Nil pc off [OF e] late in auto)
    next
      case (Cons r rs)
      then have v': "v' = v\<lparr>sv_orch := Dereg b rs, sv_active := remove1 r (sv_active v), sv_left := Some t\<rparr>" using st Dereg by (simp split: if_splits)
      show ?thesis unfolding v' by (rule svc_ok_goto [OF ok _ e]) (use oo Dereg Cons in simp_all)
    qed
  next
    case (Drain u)
    have e: "early (sv_orch v)" by (simp add: Drain early_def)
    have v': "v' = v\<lparr>sv_orch := StopServe\<rparr>" and c: "u \<le> t \<or> sv_stop v \<noteq> None" using st Drain by (auto split: if_splits)
    show ?thesis unfolding v' by (rule svc_ok_pc [OF ok _ e]) (use oo Drain c off [OF e] in fastforce)
  next
    case StopServe
    then show ?thesis using st svc_ok_stop [OF ok, of DeferStop] by (simp split: if_splits)
  next
    case DeferStop
    then show ?thesis using st svc_ok_stop [OF ok, of DeferDone] by (simp split: if_splits)
  next
    case DeferDone
    then show ?thesis using st ok by (auto simp: svc_ok_def drained_def early_def split: if_splits)
  next
    case OrchGone
    then show ?thesis using st by simp
  qed
qed

lemma orch_step_service: "orch_step app c t ch pc v = Some v' \<Longrightarrow> sv_service v' = sv_service v \<and> sv_serve v' = sv_serve v"
  by (cases "(app, c, t, ch, pc, v)" rule: orch_step.cases) (auto simp: stopServe_def Let_def split: if_splits)

lemma serve_step_service: "serve_step t pc v = Some v' \<Longrightarrow> sv_service v' = sv_service v \<and> sv_orch v' = sv_orch v"
  by (cases pc) (auto simp: stopServe_def)

section \<open>The invariant of the application\<close>

definition alive :: "Svc \<Rightarrow> nat" where
  "alive v = (if sv_orch v = OrchGone then 0 else 1) + (if sv_serve v = ServeGone then 0 else 1)"

lemma alive_orch: "orch_step app c t ch (sv_orch v) v = Some v' \<Longrightarrow> alive v = alive v' + (if sv_orch v' = OrchGone then 1 else 0)"
  using orch_step_service [of app c t ch "sv_orch v" v v'] by (cases "sv_orch v = OrchGone") (auto simp: alive_def)

lemma alive_serve: "serve_step t (sv_serve v) v = Some v' \<Longrightarrow> alive v = alive v' + (if sv_serve v' = ServeGone then 1 else 0)"
  using serve_step_service [of t "sv_serve v" v v'] by (cases "sv_serve v = ServeGone") (simp_all add: alive_def)

lemma sum_list_map_update:
  "i < length xs \<Longrightarrow> sum_list (map f (xs[i := y])) + f (xs ! i) = sum_list (map f xs) + (f y :: nat)"
proof (induction xs arbitrary: i)
  case (Cons x xs)
  then show ?case by (cases i) (simp_all add: algebra_simps)
qed simp

definition gone :: "Svc \<Rightarrow> bool" where
  "gone v \<longleftrightarrow> sv_orch v = OrchGone \<and> sv_serve v = ServeGone"

lemma new_svc_simps [simp]: "alive (new_svc srv) = 2" "sv_service (new_svc srv) = srv"
  by (simp_all add: alive_def new_svc_def)

lemma alive_zero: "sum_list (map alive vs) = 0 \<longleftrightarrow> (\<forall>v\<in>set vs. gone v)"
  by (induction vs) (auto simp: alive_def gone_def)

definition ran_hooks :: "HookEvent \<Rightarrow> 'h hook list \<Rightarrow> (HookEvent \<times> 'h hook) list" where
  "ran_hooks stage = map (Pair stage)"

fun main_ok :: "'h App \<Rightarrow> 'h main_pc \<Rightarrow> 'h Run \<Rightarrow> bool" where
  "main_ok app (MainBefore hs) s \<longleftrightarrow>
     rn_svcs s = [] \<and> rn_log s @ ran_hooks EventBeforeRun hs = ran_hooks EventBeforeRun (ap_hooks app EventBeforeRun)"
| "main_ok app (MainLaunch rest) s \<longleftrightarrow>
     map sv_service (rn_svcs s) @ rest = ap_services app \<and> rn_log s = ran_hooks EventBeforeRun (ap_hooks app EventBeforeRun)"
| "main_ok app (MainAfter hs) s \<longleftrightarrow>
     map sv_service (rn_svcs s) = ap_services app \<and> (\<forall>v\<in>set (rn_svcs s). gone v) \<and> rn_ctx s \<and> ap_ready (rn_app s) = 0 \<and>
     rn_log s @ ran_hooks EventAfterRun hs = ran_hooks EventBeforeRun (ap_hooks app EventBeforeRun) @ ran_hooks EventAfterRun (ap_hooks app EventAfterRun)"
| "main_ok app MainReturned s \<longleftrightarrow>
     map sv_service (rn_svcs s) = ap_services app \<and> (\<forall>v\<in>set (rn_svcs s). gone v) \<and> rn_ctx s \<and> ap_ready (rn_app s) = 0 \<and>
     rn_log s = ran_hooks EventBeforeRun (ap_hooks app EventBeforeRun) @ ran_hooks EventAfterRun (ap_hooks app EventAfterRun)"
| "main_ok app pc s \<longleftrightarrow>
     map sv_service (rn_svcs s) = ap_services app \<and> rn_log s = ran_hooks EventBeforeRun (ap_hooks app EventBeforeRun)
     \<and> (pc \<noteq> MainWait \<longrightarrow> rn_ctx s) \<and> (pc = MainJoin \<longrightarrow> ap_ready (rn_app s) = 0)"

definition same_config :: "'h App \<Rightarrow> 'h App \<Rightarrow> bool" where
  "same_config app app' \<longleftrightarrow> app'\<lparr>ap_ready := 0\<rparr> = app\<lparr>ap_ready := 0\<rparr>"

lemma same_configD:
  assumes "same_config app app'"
  shows "ap_drainDelay app' = ap_drainDelay app" "ap_registry app' = ap_registry app"
    "ap_services app' = ap_services app" "ap_hooks app' = ap_hooks app"
  using assms unfolding same_config_def by (cases app; cases app'; simp)+

definition app_inv :: "'h App \<Rightarrow> 'h Run \<Rightarrow> bool" where
  "app_inv app s \<longleftrightarrow> same_config app (rn_app s) \<and> (\<forall>v\<in>set (rn_svcs s). svc_ok (ap_drainDelay app) (rn_now s) (rn_ctx s) v)
     \<and> rn_wg s = sum_list (map alive (rn_svcs s)) \<and> main_ok app (rn_main s) s"

lemma app_inv_start: "App_Start t app = Some s \<Longrightarrow> app_inv app s"
  by (auto simp: App_Start_def app_inv_def same_config_def split: if_splits)

text \<open>Steps that leave the main goroutine where it is and change at most one service.\<close>

lemma main_ok_other:
  assumes "main_ok app pc s" "map sv_service (rn_svcs s') = map sv_service (rn_svcs s)" "rn_ctx s \<longrightarrow> rn_ctx s'"
    "(\<forall>v\<in>set (rn_svcs s). gone v) \<Longrightarrow> (\<forall>v\<in>set (rn_svcs s'). gone v)" "ap_ready (rn_app s) = 0 \<longrightarrow> ap_ready (rn_app s') = 0" "rn_log s' = rn_log s"
  shows "main_ok app pc s'"
  using assms by (cases pc) auto

lemma app_inv_service:
  assumes inv: "app_inv app s" and i: "i < length (rn_svcs s)" and now: "rn_now s \<le> t" and ctx: "rn_ctx s \<longrightarrow> c"
    and ok: "svc_ok (ap_drainDelay app) t c v'" and srv: "sv_service v' = sv_service (rn_svcs s ! i)"
    and al: "alive (rn_svcs s ! i) = alive v' + w" and live: "\<not> gone (rn_svcs s ! i) \<or> v' = rn_svcs s ! i"
  shows "app_inv app (s\<lparr>rn_ctx := c, rn_svcs := (rn_svcs s)[i := v'], rn_wg := rn_wg s - w, rn_now := t\<rparr>)"
proof -
  let ?vs = "(rn_svcs s)[i := v']"
  have "svc_ok (ap_drainDelay app) t c v" if "v \<in> set ?vs" for v
    using that set_update_subset_insert [of "rn_svcs s" i v'] ok inv now ctx by (auto simp: app_inv_def intro: svc_ok_later)
  moreover have "rn_wg s - w = sum_list (map alive ?vs)"
    using inv sum_list_map_update [OF i, of alive v'] al unfolding app_inv_def by linarith
  moreover have "map sv_service ?vs = map sv_service (rn_svcs s)" using map_update_same [OF srv(1)] by simp
  moreover have "\<forall>v\<in>set ?vs. gone v" if "\<forall>v\<in>set (rn_svcs s). gone v" using that live i by (metis list_update_id nth_mem)
  moreover from inv have "main_ok app (rn_main s) s" by (simp add: app_inv_def)
  ultimately show ?thesis
    using inv ctx main_ok_other [of app "rn_main s" s "s\<lparr>rn_ctx := c, rn_svcs := ?vs, rn_wg := rn_wg s - w, rn_now := t\<rparr>"]
    by (simp add: app_inv_def)
qed

lemma same_config_ready [simp]: "same_config app (a\<lparr>ap_ready := r\<rparr>) = same_config app a"
  by (simp add: same_config_def)

lemma app_inv_main:
  assumes inv: "app_inv app s" and now: "rn_now s \<le> t" and st: "main_step (rn_main s) s = Some s'"
  shows "app_inv app (s'\<lparr>rn_now := t\<rparr>)"
proof -
  have cfg: "same_config app (rn_app s)" and wg: "rn_wg s = sum_list (map alive (rn_svcs s))" and mn: "main_ok app (rn_main s) s"
    and ok: "\<forall>v\<in>set (rn_svcs s). svc_ok (ap_drainDelay app) t (rn_ctx s) v"
    using inv now by (auto simp: app_inv_def intro: svc_ok_later)
  note cf = same_configD [OF cfg]
  show ?thesis
  proof (cases "rn_main s")
    case (MainBefore hs)
    then show ?thesis using st cfg wg mn ok cf by (cases hs) (auto simp: app_inv_def ran_hooks_def)
  next
    case (MainLaunch rest)
    then show ?thesis using st cfg wg mn ok by (cases rest) (auto simp: app_inv_def svc_ok_new)
  next
    case MainWait
    then show ?thesis using st cfg wg mn ok by (auto simp: app_inv_def split: if_splits)
  next
    case MainSwap
    then show ?thesis using st cfg wg mn ok by (auto simp: app_inv_def swap_ready_def)
  next
    case MainJoin
    then show ?thesis using st cfg wg mn ok cf alive_zero [of "rn_svcs s"] by (auto simp: app_inv_def split: if_splits)
  next
    case (MainAfter hs)
    then show ?thesis using st cfg wg mn ok by (cases hs) (auto simp: app_inv_def ran_hooks_def)
  next
    case MainReturned
    then show ?thesis using st by simp
  qed
qed

lemma app_inv_outside:
  assumes inv: "app_inv app s" and now: "rn_now s \<le> t" and same: "rn_svcs s' = rn_svcs s" "rn_main s' = rn_main s" "rn_wg s' = rn_wg s" "rn_log s' = rn_log s"
    and ctx: "rn_ctx s \<longrightarrow> rn_ctx s'" and a: "rn_app s' = rn_app s \<or> rn_app s' = (rn_app s)\<lparr>ap_ready := 0\<rparr>"
  shows "app_inv app (s'\<lparr>rn_now := t\<rparr>)"
proof -
  have "main_ok app (rn_main s) (s'\<lparr>rn_now := t\<rparr>)"
    by (rule main_ok_other [of app "rn_main s" s]) (use inv same ctx a in \<open>auto simp: app_inv_def\<close>)
  moreover have "\<forall>v\<in>set (rn_svcs s). svc_ok (ap_drainDelay app) t (rn_ctx s') v" using inv now ctx by (auto simp: app_inv_def intro: svc_ok_later)
  ultimately show ?thesis using inv same a by (auto simp: app_inv_def)
qed

lemma app_inv_act:
  assumes inv: "app_inv app s" and now: "rn_now s \<le> t" and st: "app_act a t s = Some s'"
  shows "app_inv app (s'\<lparr>rn_now := t\<rparr>)"
proof (cases a)
  case ActMain
  then show ?thesis using app_inv_main [OF inv now] st by (simp add: app_act_def)
next
  case ActSignal
  then show ?thesis using st by (cases "rn_signal s") (auto simp: app_act_def swap_ready_def intro!: app_inv_outside [OF inv now])
next
  case ActParent
  then show ?thesis using st by (auto simp: app_act_def intro!: app_inv_outside [OF inv now] split: if_splits)
next
  case (ActReady i)
  let ?v = "rn_svcs s ! i"
  have i: "i < length (rn_svcs s)" and s': "s' = s\<lparr>rn_svcs := (rn_svcs s)[i := ?v\<lparr>sv_ready := True\<rparr>]\<rparr>"
    using st ActReady by (auto simp: app_act_def split: if_splits)
  have "svc_ok (ap_drainDelay app) t (rn_ctx s) v" if "v \<in> set ((rn_svcs s)[i := ?v\<lparr>sv_ready := True\<rparr>])" for v
  proof -
    have "v = ?v\<lparr>sv_ready := True\<rparr> \<or> v \<in> set (rn_svcs s)" using that set_update_subset_insert [of "rn_svcs s" i] by blast
    moreover have "svc_ok (ap_drainDelay app) t (rn_ctx s) w" if "w \<in> set (rn_svcs s)" for w
      using that inv now by (auto simp: app_inv_def intro: svc_ok_later)
    ultimately show ?thesis using svc_ok_ready nth_mem [OF i] by blast
  qed
  moreover have "map alive (rn_svcs s') = map alive (rn_svcs s)" "map sv_service (rn_svcs s') = map sv_service (rn_svcs s)"
      "map gone (rn_svcs s') = map gone (rn_svcs s)"
    unfolding s' using i by (simp_all add: alive_def gone_def map_update_same)
  moreover from this(3) have "(\<forall>v\<in>set (rn_svcs s). gone v) \<Longrightarrow> (\<forall>v\<in>set (rn_svcs s'). gone v)"
    by (metis list.set_map image_iff)
  ultimately show ?thesis using inv main_ok_other [of app "rn_main s" s "s'\<lparr>rn_now := t\<rparr>"] by (simp add: app_inv_def s')
next
  case (ActOrch i c)
  let ?v = "rn_svcs s ! i"
  obtain v' where i: "i < length (rn_svcs s)" and v': "orch_step (rn_app s) (rn_ctx s) t c (sv_orch ?v) ?v = Some v'"
    and s': "s' = s\<lparr>rn_svcs := (rn_svcs s)[i := v'], rn_wg := rn_wg s - (if sv_orch v' = OrchGone then 1 else 0)\<rparr>"
    using st ActOrch by (auto simp: app_act_def split: if_splits option.splits)
  have d: "ap_drainDelay (rn_app s) = ap_drainDelay app" using inv same_configD by (auto simp: app_inv_def)
  have ok: "svc_ok (ap_drainDelay app) t (rn_ctx s) ?v" using inv now i by (auto simp: app_inv_def intro: svc_ok_later)
  have ok': "svc_ok (ap_drainDelay app) t (rn_ctx s) v'" using svc_ok_orch [of "rn_app s"] ok v' d by simp
  have live: "\<not> gone ?v" using v' by (auto simp: gone_def)
  show ?thesis unfolding s'
    using app_inv_service [OF inv i now _ ok' _ alive_orch [OF v']] live orch_step_service [OF v'] by simp
next
  case (ActServe i)
  let ?v = "rn_svcs s ! i"
  obtain v' where i: "i < length (rn_svcs s)" and v': "serve_step t (sv_serve ?v) ?v = Some v'"
    and s': "s' = s\<lparr>rn_svcs := (rn_svcs s)[i := v'], rn_ctx := (rn_ctx s \<or> sv_serve v' = ServeDone), rn_wg := rn_wg s - (if sv_serve v' = ServeGone then 1 else 0)\<rparr>"
    using st ActServe by (auto simp: app_act_def split: if_splits option.splits)
  have ok: "svc_ok (ap_drainDelay app) t (rn_ctx s) ?v" using inv now i by (auto simp: app_inv_def intro: svc_ok_later)
  have live: "\<not> gone ?v" using v' by (auto simp: gone_def)
  have s'': "s'\<lparr>rn_now := t\<rparr> = s\<lparr>rn_ctx := (rn_ctx s \<or> sv_serve v' = ServeDone), rn_svcs := (rn_svcs s)[i := v'], rn_wg := rn_wg s - (if sv_serve v' = ServeGone then 1 else 0), rn_now := t\<rparr>"
    unfolding s' by simp
  show ?thesis unfolding s''
    using app_inv_service [OF inv i now _ svc_ok_serve [OF ok v'] _ alive_serve [OF v']] live serve_step_service [OF v'] by simp
qed

lemma app_inv_step: "app_inv app s \<Longrightarrow> app_step x s = Some s' \<Longrightarrow> app_inv app s'"
  by (cases x) (auto simp: app_step_def intro: app_inv_act split: if_splits)

lemma app_inv_reach: "app_reach app s \<Longrightarrow> app_inv app s"
  by (induction rule: app_reach.induct) (blast intro: app_inv_start app_inv_step)+

section \<open>How many steps are left\<close>

fun orch_cost :: "nat \<Rightarrow> orch_pc \<Rightarrow> nat" where
  "orch_cost n WaitReady = 8 + 2 * n"
| "orch_cost n (Registering rs ss) = 7 + 2 * length rs + length ss"
| "orch_cost n (WaitStop ss) = 6 + length ss"
| "orch_cost n (Dereg normal ss) = 5 + length ss"
| "orch_cost n (Drain u) = 4"
| "orch_cost n (Undo ss) = 3 + length ss"
| "orch_cost n StopServe = 3"
| "orch_cost n DeferStop = 2"
| "orch_cost n DeferDone = 1"
| "orch_cost n OrchGone = 0"

fun serve_cost :: "serve_pc \<Rightarrow> nat" where
  "serve_cost Serving = 4"
| "serve_cost ServeStop = 3"
| "serve_cost ServeCancel = 2"
| "serve_cost ServeDone = 1"
| "serve_cost ServeGone = 0"

definition svc_cost :: "nat \<Rightarrow> Svc \<Rightarrow> nat" where
  "svc_cost n v = orch_cost n (sv_orch v) + serve_cost (sv_serve v) + (if sv_ready v then 0 else 1)"

fun main_cost :: "nat \<Rightarrow> 'h App \<Rightarrow> 'h main_pc \<Rightarrow> nat" where
  "main_cost n app (MainBefore hs) = length hs + (14 + 2 * n) * length (ap_services app) + length (ap_hooks app EventAfterRun) + 6"
| "main_cost n app (MainLaunch rest) = (14 + 2 * n) * length rest + length (ap_hooks app EventAfterRun) + 5"
| "main_cost n app MainWait = length (ap_hooks app EventAfterRun) + 4"
| "main_cost n app MainSwap = length (ap_hooks app EventAfterRun) + 3"
| "main_cost n app MainJoin = length (ap_hooks app EventAfterRun) + 2"
| "main_cost n app (MainAfter hs) = length hs + 1"
| "main_cost n app MainReturned = 0"

definition app_cost :: "'h Run \<Rightarrow> nat" where
  "app_cost s = main_cost (length (ap_registry (rn_app s))) (rn_app s) (rn_main s)
     + sum_list (map (svc_cost (length (ap_registry (rn_app s)))) (rn_svcs s))
     + (case rn_signal s of SigWait \<Rightarrow> 2 | SigCancel \<Rightarrow> 1 | SigGone \<Rightarrow> 0) + (if rn_parent s then 0 else 1)"

lemma orch_cost_step:
  assumes "orch_step app c t ch pc v = Some v'"
  shows "orch_cost (length (ap_registry app)) (sv_orch v') < orch_cost (length (ap_registry app)) pc \<and> sv_ready v' = sv_ready v"
  using assms by (cases "(app, c, t, ch, pc, v)" rule: orch_step.cases) (auto simp: stopServe_def Let_def split: if_splits)

lemma serve_cost_step: "serve_step t pc v = Some v' \<Longrightarrow> serve_cost (sv_serve v') < serve_cost pc \<and> sv_ready v' = sv_ready v"
  by (cases pc) (auto simp: stopServe_def)

lemma sum_list_map_less:
  assumes "i < length xs" "f y < f (xs ! i)"
  shows "sum_list (map f (xs[i := y])) < (sum_list (map f xs) :: nat)"
  using sum_list_map_update [OF assms(1), of f y] assms(2) by linarith

lemma main_cost_ready [simp]: "main_cost n (a\<lparr>ap_ready := r\<rparr>) pc = main_cost n a pc"
  by (cases pc) simp_all

lemma main_cost_step:
  assumes "main_step (rn_main s) s = Some s'"
  shows "app_cost s' < app_cost s"
  using assms
proof (cases "(rn_main s, s)" rule: main_step.cases)
  case (3 srv rest)
  have "svc_cost n (new_svc srv) = 13 + 2 * n" for n by (simp add: svc_cost_def new_svc_def)
  then show ?thesis using assms 3 by (auto simp: app_cost_def)
qed (auto simp: app_cost_def swap_ready_def split: if_splits)

lemma act_cost:
  assumes "app_act a t s = Some s'"
  shows "app_cost s' < app_cost s"
proof -
  have svc: "app_cost (s\<lparr>rn_ctx := c, rn_svcs := (rn_svcs s)[i := v'], rn_wg := w\<rparr>) < app_cost s"
    if "i < length (rn_svcs s)" "svc_cost (length (ap_registry (rn_app s))) v' < svc_cost (length (ap_registry (rn_app s))) (rn_svcs s ! i)" for i v' c w
    using sum_list_map_less [OF that(1), of "svc_cost (length (ap_registry (rn_app s)))", OF that(2)] by (simp add: app_cost_def)
  show ?thesis
  proof (cases a)
    case ActMain
    then show ?thesis using assms main_cost_step by (simp add: app_act_def)
  next
    case ActSignal
    then show ?thesis using assms by (cases "rn_signal s") (auto simp: app_act_def app_cost_def swap_ready_def)
  next
    case ActParent
    then show ?thesis using assms by (auto simp: app_act_def app_cost_def split: if_splits)
  next
    case (ActReady i)
    then have i: "i < length (rn_svcs s)" "\<not> sv_ready (rn_svcs s ! i)" and s': "s' = s\<lparr>rn_svcs := (rn_svcs s)[i := (rn_svcs s ! i)\<lparr>sv_ready := True\<rparr>]\<rparr>"
      using assms by (auto simp: app_act_def split: if_splits)
    show ?thesis using svc [OF i(1), where v' = "(rn_svcs s ! i)\<lparr>sv_ready := True\<rparr>" and c = "rn_ctx s" and w = "rn_wg s"] i(2) by (simp add: s' svc_cost_def)
  next
    case (ActOrch i c)
    then obtain v' where i: "i < length (rn_svcs s)" and v': "orch_step (rn_app s) (rn_ctx s) t c (sv_orch (rn_svcs s ! i)) (rn_svcs s ! i) = Some v'"
      and s': "s' = s\<lparr>rn_svcs := (rn_svcs s)[i := v'], rn_wg := rn_wg s - (if sv_orch v' = OrchGone then 1 else 0)\<rparr>"
      using assms by (auto simp: app_act_def split: if_splits option.splits)
    show ?thesis using svc [OF i, where v' = v' and c = "rn_ctx s" and w = "rn_wg s - (if sv_orch v' = OrchGone then 1 else 0)"] orch_cost_step [OF v'] orch_step_service [OF v']
      by (simp add: s' svc_cost_def)
  next
    case (ActServe i)
    then obtain v' where i: "i < length (rn_svcs s)" and v': "serve_step t (sv_serve (rn_svcs s ! i)) (rn_svcs s ! i) = Some v'"
      and s': "s' = s\<lparr>rn_svcs := (rn_svcs s)[i := v'], rn_ctx := (rn_ctx s \<or> sv_serve v' = ServeDone), rn_wg := rn_wg s - (if sv_serve v' = ServeGone then 1 else 0)\<rparr>"
      using assms by (auto simp: app_act_def split: if_splits option.splits)
    have "s' = s\<lparr>rn_ctx := (rn_ctx s \<or> sv_serve v' = ServeDone), rn_svcs := (rn_svcs s)[i := v'], rn_wg := rn_wg s - (if sv_serve v' = ServeGone then 1 else 0)\<rparr>"
      unfolding s' by simp
    then show ?thesis using svc [OF i, where v' = v'] serve_cost_step [OF v'] serve_step_service [OF v'] by (simp add: svc_cost_def)
  qed
qed

lemma app_cost_now [simp]: "app_cost (s\<lparr>rn_now := t\<rparr>) = app_cost s"
  by (simp add: app_cost_def)

lemma step_cost: "app_step x s = Some s' \<Longrightarrow> app_cost s' < app_cost s"
  by (cases x) (auto simp: app_step_def dest!: act_cost split: if_splits)

lemma run_bound: "app_run xs s = Some s' \<Longrightarrow> length xs + app_cost s' \<le> app_cost s"
proof (induction xs arbitrary: s)
  case (Cons x xs)
  then obtain s1 where "app_step x s = Some s1" "app_run xs s1 = Some s'" by (auto split: option.splits)
  then show ?case using Cons.IH [of s1] step_cost [of x s s1] by simp
qed simp

lemma run_reach: "app_reach app s \<Longrightarrow> app_run xs s = Some s' \<Longrightarrow> app_reach app s'"
  by (induction xs arbitrary: s) (auto split: option.splits intro: app_reach.step)

section \<open>Steps the program itself owes\<close>

text \<open>What has to happen without outside help: the goroutines go on, a server returns once its context is cancelled.
  Signals, a cancelled parent, a service that becomes ready and a server that returns unasked are not owed.\<close>

definition owed :: "action \<Rightarrow> 'h Run \<Rightarrow> bool" where
  "owed a s \<longleftrightarrow> (case a of ActMain \<Rightarrow> True | ActOrch i c \<Rightarrow> True
      | ActServe i \<Rightarrow> sv_serve (rn_svcs s ! i) = Serving \<longrightarrow> sv_stop (rn_svcs s ! i) \<noteq> None | _ \<Rightarrow> False)"

lemma orch_not_stuck:
  assumes "pc \<noteq> OrchGone"
  shows "\<exists>c t v'. now \<le> t \<and> orch_step app True t c pc v = Some v'"
proof (cases "(app, True, now, Next, pc, v)" rule: orch_step.cases)
  case (1 app' c' t' ch' v')
  then have "orch_step app True now (if svc_ReadyNotifier (sv_service v) then ByCtx else Next) pc v \<noteq> None" by (simp add: Let_def)
  then show ?thesis by blast
next
  case (3 app' c' t' ch' r rs ss v')
  then have "orch_step app True now RegOk pc v \<noteq> None" by simp
  then show ?thesis by blast
next
  case (6 app' c' t' ch' ss v')
  then have "orch_step app True now ByCtx pc v \<noteq> None" by simp
  then show ?thesis by blast
next
  case (9 app' c' t' ch' u v')
  then have "orch_step app True (max now u) ByTimer pc v \<noteq> None" by simp
  then show ?thesis by (metis max.cobounded1 not_None_eq)
qed (use assms in \<open>force\<close>)+

lemma app_not_stuck:
  assumes inv: "app_inv app s" and ctx: "rn_ctx s" and run: "rn_main s \<noteq> MainReturned"
  shows "\<exists>a t s'. owed a s \<and> app_step (a, t) s = Some s'"
proof (cases "rn_main s = MainJoin \<and> rn_wg s \<noteq> 0")
  case False
  then have "main_step (rn_main s) s \<noteq> None" using ctx run by (cases "(rn_main s, s)" rule: main_step.cases) auto
  then show ?thesis by (intro exI [of _ ActMain] exI [of _ "rn_now s"]) (auto simp: app_step_def app_act_def owed_def)
next
  case True
  then obtain i where i: "i < length (rn_svcs s)" "\<not> gone (rn_svcs s ! i)"
    using inv alive_zero [of "rn_svcs s"] by (metis app_inv_def in_set_conv_nth)
  let ?v = "rn_svcs s ! i"
  show ?thesis
  proof (cases "sv_orch ?v = OrchGone")
    case False
    from orch_not_stuck [OF this, of "rn_now s" "rn_app s" ?v] obtain c t v'
      where "rn_now s \<le> t" "orch_step (rn_app s) (rn_ctx s) t c (sv_orch ?v) ?v = Some v'" using ctx by auto
    then show ?thesis using i by (intro exI [of _ "ActOrch i c"] exI [of _ t]) (simp add: app_step_def app_act_def owed_def)
  next
    case True
    have "svc_ok (ap_drainDelay app) (rn_now s) (rn_ctx s) ?v" using inv i(1) by (simp add: app_inv_def)
    then have st: "sv_stop ?v \<noteq> None" and sv: "sv_serve ?v \<noteq> ServeGone" using True i(2) by (simp_all add: svc_ok_def gone_def)
    then obtain v' where "serve_step (rn_now s) (sv_serve ?v) ?v = Some v'" by (cases "sv_serve ?v") auto
    then show ?thesis using i st by (intro exI [of _ "ActServe i"] exI [of _ "rn_now s"]) (simp add: app_step_def app_act_def owed_def)
  qed
qed

section \<open>Properties\<close>


definition demo_app :: "string App" where
  "demo_app = App_New [WithService \<lparr>svc_name = ''web'', svc_ReadyNotifier = True, svc_discover = True\<rparr>, WithRegistry (Some ''etcd''),
     WithShutdownDrainDelay 5, WithComponent ''trace'']"

definition demo_run :: "(action \<times> time) list" where
  "demo_run = map (\<lambda>a. (a, 0)) [ActMain, ActMain, ActMain, ActReady 0, ActOrch 0 ByReady, ActOrch 0 RegOk, ActOrch 0 Next, ActSignal, ActSignal, ActMain, ActMain,
     ActOrch 0 ByCtx, ActOrch 0 Next, ActOrch 0 Next]
   @ map (\<lambda>a. (a, 7)) [ActOrch 0 ByTimer, ActOrch 0 Next, ActServe 0, ActServe 0, ActServe 0, ActServe 0, ActOrch 0 Next, ActOrch 0 Next, ActMain, ActMain, ActMain]"


text \<open>C2. Every run of the application is finite, with a bound that its configuration gives, and a shutdown cannot hang: once
  the context is cancelled, which the exit of any server brings about, \<open>Start\<close> has returned or some goroutine
  can go on without help from outside, provided that servers return when their context is cancelled. So the
  shutdown ends however the goroutines are scheduled.\<close>

theorem Lifecycle_terminates:
  assumes "App_Start t0 app = Some s0" "app_run xs s0 = Some s"
  shows "length xs \<le> length (ap_hooks app EventBeforeRun) + length (ap_hooks app EventAfterRun) + (14 + 2 * length (ap_registry app)) * length (ap_services app) + 9
    \<and> ((\<exists>v\<in>set (rn_svcs s). sv_serve v \<in> {ServeDone, ServeGone}) \<longrightarrow> rn_ctx s)
    \<and> (rn_ctx s \<and> rn_main s \<noteq> MainReturned \<longrightarrow> (\<exists>a t s'. owed a s \<and> app_step (a, t) s = Some s'))"
proof -
  have inv: "app_inv app s" by (rule app_inv_reach [OF run_reach [OF app_reach.start [OF assms(1)] assms(2)]])
  have "app_cost s0 = length (ap_hooks app EventBeforeRun) + length (ap_hooks app EventAfterRun) + (14 + 2 * length (ap_registry app)) * length (ap_services app) + 9"
    using assms(1) by (auto simp: App_Start_def app_cost_def split: if_splits)
  then have "length xs \<le> length (ap_hooks app EventBeforeRun) + length (ap_hooks app EventAfterRun) + (14 + 2 * length (ap_registry app)) * length (ap_services app) + 9"
    using run_bound [OF assms(2)] by linarith
  moreover have "(\<exists>v\<in>set (rn_svcs s). sv_serve v \<in> {ServeDone, ServeGone}) \<longrightarrow> rn_ctx s" using inv by (auto simp: app_inv_def svc_ok_def)
  moreover have "rn_ctx s \<and> rn_main s \<noteq> MainReturned \<longrightarrow> (\<exists>a t s'. owed a s \<and> app_step (a, t) s = Some s')" using app_not_stuck [OF inv] by blast
  ultimately show ?thesis by blast
qed

theorem Lifecycle_terminates_witness:
  "length demo_run \<le> 26 \<and> (case app_run (take 9 demo_run) (the (App_Start 0 demo_app)) of None \<Rightarrow> False | Some s \<Rightarrow> \<exists>a t s'. owed a s \<and> app_step (a, t) s = Some s')"
proof -
  let ?r = "\<lambda>n. app_run (take n demo_run) (the (App_Start 0 demo_app))"
  have start: "App_Start 0 demo_app = Some (the (App_Start 0 demo_app))" by (simp add: App_Start_def demo_app_def App_New_def App_Hook_def)
  have "case ?r 100 of None \<Rightarrow> False | Some s \<Rightarrow> True" by code_simp
  then obtain s1 where s1: "?r 100 = Some s1" by (auto split: option.splits)
  have "case ?r 9 of None \<Rightarrow> False | Some s \<Rightarrow> rn_ctx s \<and> rn_main s \<noteq> MainReturned" by code_simp
  then obtain s where s: "?r 9 = Some s" "rn_ctx s" "rn_main s \<noteq> MainReturned" by (auto split: option.splits)
  have "length demo_run \<le> 26" using Lifecycle_terminates [OF start s1] by (simp add: demo_app_def App_New_def App_Hook_def demo_run_def)
  moreover have "\<exists>a t s'. owed a s \<and> app_step (a, t) s = Some s'" using Lifecycle_terminates [OF start s(1)] s(2,3) by blast
  ultimately show ?thesis using s(1) by simp
qed

end
