(* ===== verification/Mail.thy ===== *)
theory Mail
  imports Prelude
begin

text \<open>
  \<open>pkg/domain/mail\<close>: the mailbox over its \<open>Store\<close> interface and the in-memory store. Mails are objects that the
  caller, the store and the mailbox share through pointers, so they live in a heap and an operation that
  sets \<open>m.Status\<close> changes the stored mail at once; a pointer is an index of the heap. The store maps
  identifiers to pointers. Go's zero time is \<open>None\<close>.
\<close>

section \<open>Mails\<close>

datatype mail_err = MailNotFound | MailAlreadyClaimed | MailExpired | MailNoAttachment | MailboxFull | MailStoreErr err

definition StatusUnread :: int where "StatusUnread = 0"
definition StatusRead :: int where "StatusRead = 1"
definition StatusClaimed :: int where "StatusClaimed = 2"

lemmas status_defs = StatusUnread_def StatusRead_def StatusClaimed_def

definition mail_Status_String :: "int \<Rightarrow> string" where
  "mail_Status_String s =
     (if s = StatusUnread then ''unread'' else if s = StatusRead then ''read'' else if s = StatusClaimed then ''claimed'' else ''unknown'')"

record 'a Mail =
  ml_ID :: key
  ml_RecipientID :: key
  ml_SenderID :: key
  ml_Title :: string
  ml_Body :: string
  ml_Attachments :: "'a list"
  ml_Status :: int
  ml_CreatedAt :: "time option"
  ml_ExpiresAt :: "time option"

type_synonym 'a mail_heap = "'a Mail list"

definition Mail_IsExpired :: "time \<Rightarrow> 'a Mail \<Rightarrow> bool" where
  "Mail_IsExpired now m \<longleftrightarrow> (case ml_ExpiresAt m of None \<Rightarrow> False | Some e \<Rightarrow> e < now)"

definition Mail_HasAttachment :: "'a Mail \<Rightarrow> bool" where
  "Mail_HasAttachment m \<longleftrightarrow> 0 < length (ml_Attachments m)"

record Filter =
  fl_StatusIn :: "int list"
  fl_Limit :: int
  fl_Offset :: int

section \<open>The store interface\<close>

text \<open>The outer option of \<open>List\<close> is a panic.\<close>

record ('a, 's) mail_ops =
  op_Save :: "'a mail_heap \<Rightarrow> nat \<Rightarrow> 's \<Rightarrow> mail_err option \<times> 's"
  op_Get :: "key \<Rightarrow> 's \<Rightarrow> mail_err + nat"
  op_Update :: "'a mail_heap \<Rightarrow> nat \<Rightarrow> 's \<Rightarrow> mail_err option \<times> 's"
  op_Delete :: "key \<Rightarrow> 's \<Rightarrow> mail_err option \<times> 's"
  op_List :: "'a mail_heap \<Rightarrow> key \<Rightarrow> Filter \<Rightarrow> 's \<Rightarrow> (mail_err + nat list) option"
  op_CountByStatus :: "'a mail_heap \<Rightarrow> key \<Rightarrow> int \<Rightarrow> 's \<Rightarrow> mail_err + int"
  op_DeleteExpired :: "'a mail_heap \<Rightarrow> time \<Rightarrow> 's \<Rightarrow> (mail_err + int) \<times> 's"

section \<open>The mailbox\<close>

record mail_config =
  mc_maxPerUser :: int
  mc_defaultTTL :: duration
  mc_onClaim :: bool

datatype mail_option = WithMaxPerUser int | WithDefaultTTL duration | WithOnClaim bool

fun mail_apply :: "mail_option \<Rightarrow> mail_config \<Rightarrow> mail_config" where
  "mail_apply (WithMaxPerUser n) c = (if 0 < n then c\<lparr>mc_maxPerUser := n\<rparr> else c)"
| "mail_apply (WithDefaultTTL d) c = (if 0 < d then c\<lparr>mc_defaultTTL := d\<rparr> else c)"
| "mail_apply (WithOnClaim fn) c = c\<lparr>mc_onClaim := fn\<rparr>"

definition NewMailbox :: "mail_option list \<Rightarrow> mail_config" where
  "NewMailbox opts = foldl (\<lambda>c o'. mail_apply o' c) \<lparr>mc_maxPerUser = 100, mc_defaultTTL = 30 * 24 * 3600 * second, mc_onClaim = False\<rparr> opts"

text \<open>The fields that \<open>Send\<close> fills in, in the caller's mail, before it looks at the capacity.\<close>

definition mail_stamp :: "mail_config \<Rightarrow> time \<Rightarrow> 'a Mail \<Rightarrow> 'a Mail" where
  "mail_stamp cfg now m =
     (let created = (case ml_CreatedAt m of None \<Rightarrow> now | Some t \<Rightarrow> t)
      in m\<lparr>ml_CreatedAt := Some created,
           ml_ExpiresAt := (if ml_ExpiresAt m = None \<and> 0 < mc_defaultTTL cfg then Some (created + mc_defaultTTL cfg) else ml_ExpiresAt m),
           ml_Status := StatusUnread\<rparr>)"

definition Mailbox_Send :: "('a, 's) mail_ops \<Rightarrow> mail_config \<Rightarrow> time \<Rightarrow> nat \<Rightarrow> 'a mail_heap \<times> 's \<Rightarrow> mail_err option \<times> 'a mail_heap \<times> 's" where
  "Mailbox_Send ops cfg now a hs =
     (let h = (fst hs)[a := mail_stamp cfg now (fst hs ! a)]; s = snd hs; r = ml_RecipientID (h ! a)
      in case op_CountByStatus ops h r StatusUnread s of
           Inl e \<Rightarrow> (Some e, h, s)
         | Inr unread \<Rightarrow>
             (case op_CountByStatus ops h r StatusRead s of
                Inl e \<Rightarrow> (Some e, h, s)
              | Inr rd \<Rightarrow>
                  (case op_CountByStatus ops h r StatusClaimed s of
                     Inl e \<Rightarrow> (Some e, h, s)
                   | Inr claimed \<Rightarrow>
                       if mc_maxPerUser cfg \<le> unread + rd + claimed then (Some MailboxFull, h, s)
                       else case op_Save ops h a s of (e, s') \<Rightarrow> (e, h, s'))))"

text \<open>A mail of a mass mailing; \<open>idGen\<close> gives the identifiers, here the list of its answers.\<close>

definition mail_instance :: "'a Mail \<Rightarrow> key \<Rightarrow> key \<Rightarrow> 'a Mail" where
  "mail_instance tmpl i rid = \<lparr>ml_ID = i, ml_RecipientID = rid, ml_SenderID = ml_SenderID tmpl, ml_Title = ml_Title tmpl, ml_Body = ml_Body tmpl,
     ml_Attachments = ml_Attachments tmpl, ml_Status = StatusUnread, ml_CreatedAt = None, ml_ExpiresAt = None\<rparr>"

text \<open>Sending a mail object the caller has just made.\<close>

definition send_new :: "('a, 's) mail_ops \<Rightarrow> mail_config \<Rightarrow> time \<Rightarrow> 'a Mail \<Rightarrow> 'a mail_heap \<times> 's \<Rightarrow> mail_err option \<times> 'a mail_heap \<times> 's" where
  "send_new ops cfg now m hs = Mailbox_Send ops cfg now (length (fst hs)) (fst hs @ [m], snd hs)"

fun Mailbox_BatchSend :: "('a, 's) mail_ops \<Rightarrow> mail_config \<Rightarrow> (key \<times> key \<times> time) list \<Rightarrow> 'a Mail \<Rightarrow> 'a mail_heap \<times> 's \<Rightarrow> mail_err list \<times> 'a mail_heap \<times> 's" where
  "Mailbox_BatchSend ops cfg [] tmpl hs = ([], hs)"
| "Mailbox_BatchSend ops cfg ((rid, i, now) # rest) tmpl hs =
     (case send_new ops cfg now (mail_instance tmpl i rid) hs of
        (e, hs1) \<Rightarrow> (case Mailbox_BatchSend ops cfg rest tmpl hs1 of
           (errs, hs2) \<Rightarrow> ((case e of None \<Rightarrow> errs | Some x \<Rightarrow> x # errs), hs2)))"

definition Mailbox_List :: "('a, 's) mail_ops \<Rightarrow> time \<Rightarrow> key \<Rightarrow> Filter \<Rightarrow> 'a mail_heap \<times> 's \<Rightarrow> (mail_err + nat list) option" where
  "Mailbox_List ops now r filt hs =
     (case op_List ops (fst hs) r filt (snd hs) of
        None \<Rightarrow> None
      | Some (Inl e) \<Rightarrow> Some (Inl e)
      | Some (Inr mails) \<Rightarrow> Some (Inr (filter (\<lambda>a. \<not> Mail_IsExpired now (fst hs ! a)) mails)))"

definition set_status :: "nat \<Rightarrow> int \<Rightarrow> 'a mail_heap \<Rightarrow> 'a mail_heap" where
  "set_status a st h = h[a := (h ! a)\<lparr>ml_Status := st\<rparr>]"

definition Mailbox_Read :: "('a, 's) mail_ops \<Rightarrow> time \<Rightarrow> key \<Rightarrow> 'a mail_heap \<times> 's \<Rightarrow> mail_err option \<times> 'a mail_heap \<times> 's" where
  "Mailbox_Read ops now i hs =
     (let h = fst hs; s = snd hs
      in case op_Get ops i s of
           Inl e \<Rightarrow> (Some e, hs)
         | Inr a \<Rightarrow>
             if Mail_IsExpired now (h ! a) then (Some MailExpired, hs)
             else if ml_Status (h ! a) = StatusUnread
             then (let h' = set_status a StatusRead h in case op_Update ops h' a s of (e, s') \<Rightarrow> (e, h', s'))
             else (None, hs))"

text \<open>\<open>Claim\<close> in the two parts between which another call may run: the checks, and the change of the status with what
  follows. The second component of the result lists the calls of \<open>onClaim\<close>.\<close>

definition claim_check :: "('a, 's) mail_ops \<Rightarrow> time \<Rightarrow> key \<Rightarrow> 'a mail_heap \<times> 's \<Rightarrow> mail_err + nat" where
  "claim_check ops now i hs =
     (case op_Get ops i (snd hs) of
        Inl e \<Rightarrow> Inl e
      | Inr a \<Rightarrow>
          if Mail_IsExpired now (fst hs ! a) then Inl MailExpired
          else if ml_Status (fst hs ! a) = StatusClaimed then Inl MailAlreadyClaimed
          else if \<not> Mail_HasAttachment (fst hs ! a) then Inl MailNoAttachment
          else Inr a)"

definition claim_commit :: "('a, 's) mail_ops \<Rightarrow> mail_config \<Rightarrow> nat \<Rightarrow> 'a mail_heap \<times> 's \<Rightarrow> (mail_err + 'a list) \<times> (key \<times> key) list \<times> 'a mail_heap \<times> 's" where
  "claim_commit ops cfg a hs =
     (let h = set_status a StatusClaimed (fst hs)
      in case op_Update ops h a (snd hs) of
           (Some e, s') \<Rightarrow> (Inl e, [], h, s')
         | (None, s') \<Rightarrow>
             (Inr (ml_Attachments (h ! a)), if mc_onClaim cfg then [(ml_ID (h ! a), ml_RecipientID (h ! a))] else [], h, s'))"

definition Mailbox_Claim :: "('a, 's) mail_ops \<Rightarrow> mail_config \<Rightarrow> time \<Rightarrow> key \<Rightarrow> 'a mail_heap \<times> 's \<Rightarrow> (mail_err + 'a list) \<times> (key \<times> key) list \<times> 'a mail_heap \<times> 's" where
  "Mailbox_Claim ops cfg now i hs =
     (case claim_check ops now i hs of Inl e \<Rightarrow> (Inl e, [], hs) | Inr a \<Rightarrow> claim_commit ops cfg a hs)"

definition Mailbox_Delete :: "('a, 's) mail_ops \<Rightarrow> key \<Rightarrow> 'a mail_heap \<times> 's \<Rightarrow> mail_err option \<times> 'a mail_heap \<times> 's" where
  "Mailbox_Delete ops i hs = (case op_Delete ops i (snd hs) of (e, s') \<Rightarrow> (e, fst hs, s'))"

definition Mailbox_DeleteExpired :: "('a, 's) mail_ops \<Rightarrow> time \<Rightarrow> 'a mail_heap \<times> 's \<Rightarrow> (mail_err + int) \<times> 'a mail_heap \<times> 's" where
  "Mailbox_DeleteExpired ops now hs = (case op_DeleteExpired ops (fst hs) now (snd hs) of (r, s') \<Rightarrow> (r, fst hs, s'))"

definition Mailbox_Unread :: "('a, 's) mail_ops \<Rightarrow> key \<Rightarrow> 'a mail_heap \<times> 's \<Rightarrow> mail_err + int" where
  "Mailbox_Unread ops r hs = op_CountByStatus ops (fst hs) r StatusUnread (snd hs)"

section \<open>The in-memory store\<close>

record MemoryStore =
  ms_mails :: "(key \<times> nat) list"
  ms_order :: "key list"

definition NewMemoryStore :: MemoryStore where
  "NewMemoryStore = \<lparr>ms_mails = [], ms_order = []\<rparr>"

definition Store_Save :: "'a mail_heap \<Rightarrow> nat \<Rightarrow> MemoryStore \<Rightarrow> mail_err option \<times> MemoryStore" where
  "Store_Save h a s =
     (let i = ml_ID (h ! a); order = (if map_of (ms_mails s) i = None then ms_order s @ [i] else ms_order s)
      in (None, s\<lparr>ms_mails := AList.update i a (ms_mails s), ms_order := order\<rparr>))"

definition Store_Get :: "key \<Rightarrow> MemoryStore \<Rightarrow> mail_err + nat" where
  "Store_Get i s = (case map_of (ms_mails s) i of None \<Rightarrow> Inl MailNotFound | Some a \<Rightarrow> Inr a)"

definition Store_Update :: "'a mail_heap \<Rightarrow> nat \<Rightarrow> MemoryStore \<Rightarrow> mail_err option \<times> MemoryStore" where
  "Store_Update h a s =
     (let i = ml_ID (h ! a)
      in if map_of (ms_mails s) i = None then (Some MailNotFound, s) else (None, s\<lparr>ms_mails := AList.update i a (ms_mails s)\<rparr>))"

definition Store_Delete :: "key \<Rightarrow> MemoryStore \<Rightarrow> mail_err option \<times> MemoryStore" where
  "Store_Delete i s =
     (if map_of (ms_mails s) i = None then (Some MailNotFound, s)
      else (None, s\<lparr>ms_mails := AList.delete i (ms_mails s), ms_order := remove1 i (ms_order s)\<rparr>))"

text \<open>\<open>sortByStatus\<close>: the inner loop moves element \<open>j\<close> down, the outer one runs over the list.\<close>

fun sort_down :: "('b \<Rightarrow> int) \<Rightarrow> nat \<Rightarrow> 'b list \<Rightarrow> 'b list" where
  "sort_down st 0 xs = xs"
| "sort_down st (Suc j) xs = (if st (xs ! Suc j) < st (xs ! j) then sort_down st j (xs[j := xs ! Suc j, Suc j := xs ! j]) else xs)"

definition sortByStatus :: "('b \<Rightarrow> int) \<Rightarrow> 'b list \<Rightarrow> 'b list" where
  "sortByStatus st xs = foldl (\<lambda>ys i. sort_down st i ys) xs [1..<length xs]"

text \<open>The loop of \<open>List\<close>; an identifier without a mail is a nil dereference.\<close>

fun list_select :: "'a mail_heap \<Rightarrow> (key \<times> nat) list \<Rightarrow> key \<Rightarrow> int list \<Rightarrow> key list \<Rightarrow> nat list option" where
  "list_select h mails r sts [] = Some []"
| "list_select h mails r sts (i # is) =
     (case map_of mails i of
        None \<Rightarrow> None
      | Some a \<Rightarrow>
          map_option (\<lambda>res. if ml_RecipientID (h ! a) \<noteq> r then res
                            else if sts \<noteq> [] \<and> ml_Status (h ! a) \<notin> set sts then res else a # res)
            (list_select h mails r sts is))"

definition Store_List :: "'a mail_heap \<Rightarrow> key \<Rightarrow> Filter \<Rightarrow> MemoryStore \<Rightarrow> (mail_err + nat list) option" where
  "Store_List h r filt s =
     (case list_select h (ms_mails s) r (fl_StatusIn filt) (ms_order s) of
        None \<Rightarrow> None
      | Some found \<Rightarrow>
          let res = sortByStatus (\<lambda>a. ml_Status (h ! a)) found
          in if 0 < fl_Offset filt \<and> int (length res) \<le> fl_Offset filt then Some (Inr [])
             else let res1 = (if 0 < fl_Offset filt then drop (nat (fl_Offset filt)) res else res)
                  in Some (Inr (if 0 < fl_Limit filt \<and> fl_Limit filt < int (length res1) then take (nat (fl_Limit filt)) res1 else res1)))"

definition Store_CountByStatus :: "'a mail_heap \<Rightarrow> key \<Rightarrow> int \<Rightarrow> MemoryStore \<Rightarrow> mail_err + int" where
  "Store_CountByStatus h r st s =
     Inr (int (length (filter (\<lambda>(i, a). ml_RecipientID (h ! a) = r \<and> ml_Status (h ! a) = st) (ms_mails s))))"

definition Store_DeleteExpired :: "'a mail_heap \<Rightarrow> time \<Rightarrow> MemoryStore \<Rightarrow> (mail_err + int) \<times> MemoryStore" where
  "Store_DeleteExpired h now s =
     (let old = filter (\<lambda>(i, a). Mail_IsExpired now (h ! a)) (ms_mails s);
          kept = filter (\<lambda>(i, a). \<not> Mail_IsExpired now (h ! a)) (ms_mails s); n = length old
      in (Inr (int n), s\<lparr>ms_mails := kept, ms_order := (if 0 < n then filter (\<lambda>i. map_of kept i \<noteq> None) (ms_order s) else ms_order s)\<rparr>))"

definition Store_ops :: "('a, MemoryStore) mail_ops" where
  "Store_ops = \<lparr>op_Save = Store_Save, op_Get = Store_Get, op_Update = Store_Update, op_Delete = Store_Delete, op_List = Store_List,
     op_CountByStatus = Store_CountByStatus, op_DeleteExpired = Store_DeleteExpired\<rparr>"

section \<open>Sequences of operations\<close>

text \<open>Calls with their times; every mail that is sent is a new object. The log holds the pointer and the attachments of
  each claim that succeeded.\<close>

datatype 'a mail_call = CallSend "'a Mail" | CallRead key | CallClaim key | CallDelete key | CallDeleteExpired

type_synonym 'a claims = "(nat \<times> 'a list) list"

fun mail_exec :: "('a, 's) mail_ops \<Rightarrow> mail_config \<Rightarrow> 'a mail_call \<times> time \<Rightarrow> ('a mail_heap \<times> 's) \<times> 'a claims \<Rightarrow> ('a mail_heap \<times> 's) \<times> 'a claims" where
  "mail_exec ops cfg (CallSend m, now) (hs, log) = (snd (send_new ops cfg now m hs), log)"
| "mail_exec ops cfg (CallRead i, now) (hs, log) = (snd (Mailbox_Read ops now i hs), log)"
| "mail_exec ops cfg (CallClaim i, now) (hs, log) =
     (case Mailbox_Claim ops cfg now i hs of
        (Inl e, cb, hs') \<Rightarrow> (hs', log)
      | (Inr atts, cb, hs') \<Rightarrow> (hs', case op_Get ops i (snd hs) of Inl e \<Rightarrow> log | Inr a \<Rightarrow> log @ [(a, atts)]))"
| "mail_exec ops cfg (CallDelete i, now) (hs, log) = (snd (Mailbox_Delete ops i hs), log)"
| "mail_exec ops cfg (CallDeleteExpired, now) (hs, log) = (snd (Mailbox_DeleteExpired ops now hs), log)"

section \<open>What the mailbox needs of a store\<close>

locale mail_store =
  fixes ops :: "('a, 's) mail_ops" and lookup :: "'s \<Rightarrow> key \<Rightarrow> nat option" and invar :: "'s \<Rightarrow> bool"
  assumes get: "invar s \<Longrightarrow> op_Get ops i s = (case lookup s i of None \<Rightarrow> Inl MailNotFound | Some a \<Rightarrow> Inr a)"
    and save: "invar s \<Longrightarrow> op_Save ops h a s = (e, s') \<Longrightarrow> invar s' \<and> lookup s' = (if e = None then (lookup s)(ml_ID (h ! a) \<mapsto> a) else lookup s)"
    and update: "invar s \<Longrightarrow> op_Update ops h a s = (e, s') \<Longrightarrow> invar s' \<and> lookup s' = (if e = None then (lookup s)(ml_ID (h ! a) \<mapsto> a) else lookup s)"
    and delete: "invar s \<Longrightarrow> op_Delete ops i s = (e, s') \<Longrightarrow> invar s' \<and> lookup s' = (if e = None then (lookup s)(i := None) else lookup s)"
    and expire: "invar s \<Longrightarrow> op_DeleteExpired ops h now s = (res, s') \<Longrightarrow> invar s' \<and> lookup s' \<subseteq>\<^sub>m lookup s"
    and count: "invar s \<Longrightarrow> op_CountByStatus ops h r st s = Inr n \<Longrightarrow>
      n = int (card {i. \<exists>a. lookup s i = Some a \<and> ml_RecipientID (h ! a) = r \<and> ml_Status (h ! a) = st})"
    and finite_dom: "invar s \<Longrightarrow> finite (dom (lookup s))"
begin

definition owned :: "'a mail_heap \<Rightarrow> 's \<Rightarrow> key \<Rightarrow> key set" where
  "owned h s r = {i. \<exists>a. lookup s i = Some a \<and> ml_RecipientID (h ! a) = r}"

definition heap_ok :: "'a mail_heap \<Rightarrow> 's \<Rightarrow> bool" where
  "heap_ok h s \<longleftrightarrow> invar s \<and> (\<forall>i a. lookup s i = Some a \<longrightarrow> a < length h \<and> ml_ID (h ! a) = i)
     \<and> (\<forall>m\<in>set h. ml_Status m \<in> {StatusUnread, StatusRead, StatusClaimed})"

definition claims_ok :: "'a mail_heap \<Rightarrow> 'a claims \<Rightarrow> bool" where
  "claims_ok h log \<longleftrightarrow> distinct (map fst log)
     \<and> (\<forall>(a, atts)\<in>set log. a < length h \<and> ml_Status (h ! a) = StatusClaimed \<and> atts = ml_Attachments (h ! a) \<and> atts \<noteq> [])"

definition within :: "mail_config \<Rightarrow> 'a mail_heap \<Rightarrow> 's \<Rightarrow> bool" where
  "within cfg h s \<longleftrightarrow> (\<forall>r. int (card (owned h s r)) \<le> max 0 (mc_maxPerUser cfg))"

lemma finite_owned: "invar s \<Longrightarrow> finite (owned h s r)"
  by (rule finite_subset [OF _ finite_dom [of s]]) (auto simp: owned_def)

lemma status_counts:
  assumes "heap_ok h s" "op_CountByStatus ops h r StatusUnread s = Inr n0" "op_CountByStatus ops h r StatusRead s = Inr n1"
    "op_CountByStatus ops h r StatusClaimed s = Inr n2"
  shows "n0 + n1 + n2 = int (card (owned h s r))"
proof -
  let ?A = "\<lambda>st. {i. \<exists>a. lookup s i = Some a \<and> ml_RecipientID (h ! a) = r \<and> ml_Status (h ! a) = st}"
  have inv: "invar s" and st: "\<And>i a. lookup s i = Some a \<Longrightarrow> ml_Status (h ! a) \<in> {StatusUnread, StatusRead, StatusClaimed}"
    using assms(1) by (auto simp: heap_ok_def)
  have sub: "?A st \<subseteq> owned h s r" for st by (auto simp: owned_def)
  then have fin: "finite (?A st)" for st by (rule finite_subset [OF _ finite_owned [OF inv]])
  have "owned h s r = ?A StatusUnread \<union> ?A StatusRead \<union> ?A StatusClaimed" using st by (fastforce simp: owned_def)
  moreover have "?A StatusUnread \<inter> ?A StatusRead = {}" "(?A StatusUnread \<union> ?A StatusRead) \<inter> ?A StatusClaimed = {}" by (auto simp: status_defs)
  ultimately have "card (owned h s r) = card (?A StatusUnread) + card (?A StatusRead) + card (?A StatusClaimed)"
    using fin by (simp add: card_Un_disjoint)
  then show ?thesis using count [OF inv assms(2)] count [OF inv assms(3)] count [OF inv assms(4)] by simp
qed

text \<open>A heap that differs only in the status of mails, and in new mails at its end.\<close>

lemma owned_set_status: "heap_ok h s \<Longrightarrow> owned (set_status a st h) s r = owned h s r"
  by (cases "a < length h") (auto simp: owned_def set_status_def nth_list_update list_update_beyond heap_ok_def)

lemma heap_ok_set_status: "heap_ok h s \<Longrightarrow> st \<in> {StatusUnread, StatusRead, StatusClaimed} \<Longrightarrow> heap_ok (set_status a st h) s"
  by (cases "a < length h") (auto simp: heap_ok_def set_status_def nth_list_update list_update_beyond dest!: set_update_subset_insert [THEN subsetD])

lemma update_same:
  assumes ok: "heap_ok h s" and a: "lookup s i = Some a" and st: "st \<in> {StatusUnread, StatusRead, StatusClaimed}"
    and up: "op_Update ops (set_status a st h) a s = (e, s')"
  shows "heap_ok (set_status a st h) s'" "lookup s' = lookup s"
proof -
  have h': "heap_ok (set_status a st h) s" by (rule heap_ok_set_status [OF ok st])
  then have "ml_ID (set_status a st h ! a) = i" using a by (simp add: heap_ok_def)
  then have "(lookup s)(ml_ID (set_status a st h ! a) \<mapsto> a) = lookup s" using a by (simp add: fun_upd_idem)
  moreover have "invar s" using ok by (simp add: heap_ok_def)
  ultimately have "invar s' \<and> lookup s' = lookup s" using update [OF _ up] by (simp split: if_splits)
  then show "heap_ok (set_status a st h) s'" "lookup s' = lookup s" using h' by (simp_all add: heap_ok_def)
qed

lemma claims_okD: "claims_ok h log \<Longrightarrow> p \<in> set log \<Longrightarrow> ml_Status (h ! fst p) = StatusClaimed"
  by (auto simp: claims_ok_def split_def)

lemma claims_ok_status:
  assumes "claims_ok h log" "\<forall>p\<in>set log. fst p \<noteq> a \<or> st = StatusClaimed"
  shows "claims_ok (set_status a st h) log"
  using assms by (cases "a < length h") (auto simp: claims_ok_def set_status_def nth_list_update list_update_beyond split_def)

lemma send_safe:
  assumes ok: "heap_ok h s" and cl: "claims_ok h log" and cap: "within cfg h s" and snt: "send_new ops cfg now m (h, s) = (e, h', s')"
  shows "heap_ok h' s' \<and> claims_ok h' log \<and> within cfg h' s'"
proof -
  let ?m = "mail_stamp cfg now m" and ?h = "h @ [mail_stamp cfg now m]"
  have inv: "invar s" and rng: "\<And>i a. lookup s i = Some a \<Longrightarrow> a < length h \<and> ml_ID (h ! a) = i" using ok by (auto simp: heap_ok_def)
  have stat: "ml_Status ?m = StatusUnread" by (simp add: mail_stamp_def Let_def)
  have same: "owned ?h s r = owned h s r" for r using rng by (auto simp: owned_def nth_append dest: rng)
  have okh: "heap_ok ?h s" using ok stat by (auto simp: heap_ok_def nth_append intro: less_SucI)
  have clh: "claims_ok ?h log" using cl by (auto simp: claims_ok_def nth_append split_def)
  have hh: "(h @ [m])[length h := mail_stamp cfg now ((h @ [m]) ! length h)] = ?h" by simp
  show ?thesis
  proof (cases "s' = s")
    case True
    have "h' = ?h" using snt by (auto simp: send_new_def Mailbox_Send_def Let_def split: sum.splits if_splits prod.splits)
    then show ?thesis using okh clh cap same True by (simp add: within_def)
  next
    case False
    then obtain n0 n1 n2 where n: "op_CountByStatus ops ?h (ml_RecipientID ?m) StatusUnread s = Inr n0"
        "op_CountByStatus ops ?h (ml_RecipientID ?m) StatusRead s = Inr n1" "op_CountByStatus ops ?h (ml_RecipientID ?m) StatusClaimed s = Inr n2"
      and free: "n0 + n1 + n2 < mc_maxPerUser cfg" and sv: "op_Save ops ?h (length h) s = (e, s')" and h': "h' = ?h"
      using snt by (auto simp: send_new_def Mailbox_Send_def Let_def split: sum.splits if_splits prod.splits)
    have lk: "invar s'" "lookup s' = (if e = None then (lookup s)(ml_ID ?m \<mapsto> length h) else lookup s)" using save [OF inv sv] by simp_all
    have ok': "heap_ok ?h s'" using okh lk by (auto simp: heap_ok_def)
    have few: "int (card (owned ?h s (ml_RecipientID ?m))) < mc_maxPerUser cfg" using status_counts [OF okh n] free by simp
    have "int (card (owned ?h s' r)) \<le> max 0 (mc_maxPerUser cfg)" for r
    proof (cases "r = ml_RecipientID ?m")
      case True
      have "owned ?h s' r \<subseteq> insert (ml_ID ?m) (owned ?h s r)" by (auto simp: owned_def lk(2) split: if_splits)
      then have "card (owned ?h s' r) \<le> card (insert (ml_ID ?m) (owned ?h s r))" by (rule card_mono [rotated]) (simp add: finite_owned [OF inv])
      also have "\<dots> \<le> card (owned ?h s r) + 1" by (simp add: card_insert_if finite_owned [OF inv])
      finally show ?thesis using few True by simp
    next
      case False
      then have "owned ?h s' r \<subseteq> owned ?h s r" by (auto simp: owned_def lk(2) split: if_splits)
      then have "card (owned ?h s' r) \<le> card (owned ?h s r)" by (rule card_mono [OF finite_owned [OF inv]])
      moreover have "int (card (owned ?h s r)) \<le> max 0 (mc_maxPerUser cfg)" using cap same by (simp add: within_def)
      ultimately show ?thesis by linarith
    qed
    then show ?thesis using ok' clh h' by (simp add: within_def)
  qed
qed

lemma shrink_safe:
  assumes ok: "heap_ok h s" and cap: "within cfg h s" and le: "invar s'" "lookup s' \<subseteq>\<^sub>m lookup s"
  shows "heap_ok h s' \<and> within cfg h s'"
proof -
  have sub: "lookup s i = Some a" if "lookup s' i = Some a" for i a using le(2) that by (metis domI map_le_def)
  have "card (owned h s' r) \<le> card (owned h s r)" for r
    by (rule card_mono) (use ok sub in \<open>auto simp: heap_ok_def owned_def intro: finite_subset [OF _ finite_dom [of s]]\<close>)
  then have "within cfg h s'" using cap unfolding within_def by (meson of_nat_mono order_trans)
  then show ?thesis using ok sub le(1) by (auto simp: heap_ok_def)
qed

lemma status_safe:
  assumes ok: "heap_ok h s" and cap: "within cfg h s" and a: "lookup s i = Some a" and st: "st \<in> {StatusUnread, StatusRead, StatusClaimed}"
    and up: "op_Update ops (set_status a st h) a s = (e, s')"
  shows "heap_ok (set_status a st h) s' \<and> within cfg (set_status a st h) s'"
proof -
  note u = update_same [OF ok a st up]
  have "owned (set_status a st h) s' r = owned h s r" for r using owned_set_status [OF ok, of a st r] u(2) by (simp add: owned_def)
  then show ?thesis using u(1) cap by (simp add: within_def)
qed

definition mail_inv :: "mail_config \<Rightarrow> ('a mail_heap \<times> 's) \<times> 'a claims \<Rightarrow> bool" where
  "mail_inv cfg x = (case x of ((h, s), log) \<Rightarrow> heap_ok h s \<and> claims_ok h log \<and> within cfg h s)"

lemma read_safe:
  assumes "heap_ok h s" "claims_ok h log" "within cfg h s" and rd: "Mailbox_Read ops now i (h, s) = (e, h', s')"
  shows "heap_ok h' s' \<and> claims_ok h' log \<and> within cfg h' s'"
proof (cases "lookup s i")
  case None
  then have "op_Get ops i s = Inl MailNotFound" using assms(1) get by (simp add: heap_ok_def)
  then show ?thesis using assms by (simp add: Mailbox_Read_def)
next
  case (Some a)
  then have g: "op_Get ops i s = Inr a" using assms(1) get by (simp add: heap_ok_def)
  show ?thesis
  proof (cases "Mail_IsExpired now (h ! a) \<or> ml_Status (h ! a) \<noteq> StatusUnread")
    case True
    then have "h' = h \<and> s' = s" using rd g by (auto simp: Mailbox_Read_def split: if_splits)
    then show ?thesis using assms by simp
  next
    case False
    obtain e1 s1 where up: "op_Update ops (set_status a StatusRead h) a s = (e1, s1)" by force
    then have h': "h' = set_status a StatusRead h" "s' = s1" using rd g False by (simp_all add: Mailbox_Read_def)
    have "StatusUnread \<noteq> StatusClaimed" by (simp add: status_defs)
    then have "\<forall>p\<in>set log. fst p \<noteq> a" using claims_okD [OF assms(2)] False by metis
    then have "claims_ok h' log" unfolding h' by (intro claims_ok_status [OF assms(2)]) blast
    then show ?thesis using status_safe [OF assms(1,3) Some _ up] h' by simp
  qed
qed

lemma claim_safe:
  assumes "heap_ok h s" "claims_ok h log" "within cfg h s" and cl: "Mailbox_Claim ops cfg now i (h, s) = (r, cb, h', s')"
  shows "heap_ok h' s' \<and> within cfg h' s' \<and> claims_ok h' log
    \<and> (\<forall>atts. r = Inr atts \<longrightarrow> (\<exists>a. op_Get ops i s = Inr a \<and> claims_ok h' (log @ [(a, atts)])))"
proof (cases "claim_check ops now i (h, s)")
  case (Inl e)
  then show ?thesis using assms by (auto simp: Mailbox_Claim_def)
next
  case (Inr a)
  have inv: "invar s" using assms(1) by (simp add: heap_ok_def)
  have a: "lookup s i = Some a" "ml_Status (h ! a) \<noteq> StatusClaimed" "ml_Attachments (h ! a) \<noteq> []"
    using Inr by (auto simp: claim_check_def get [OF inv] Mail_HasAttachment_def split: option.splits if_splits)
  then have len: "a < length h" using assms(1) by (simp add: heap_ok_def)
  obtain e where up: "op_Update ops (set_status a StatusClaimed h) a s = (e, s')" and h': "h' = set_status a StatusClaimed h"
    and r: "\<And>atts. r = Inr atts \<Longrightarrow> atts = ml_Attachments (h' ! a)"
    using cl Inr by (auto simp: Mailbox_Claim_def claim_commit_def Let_def split: prod.splits option.splits)
  have new: "a \<notin> fst ` set log" using claims_okD [OF assms(2)] a(2) by blast
  have cl': "claims_ok h' log" unfolding h' by (rule claims_ok_status [OF assms(2)]) simp
  have "ml_Status (h' ! a) = StatusClaimed" "ml_Attachments (h' ! a) = ml_Attachments (h ! a)" "length h' = length h"
    using len by (simp_all add: h' set_status_def)
  then have "claims_ok h' (log @ [(a, ml_Attachments (h' ! a))])" using cl' new a(3) len by (auto simp: claims_ok_def)
  then show ?thesis using status_safe [OF assms(1,3) a(1) _ up] cl' h' r get [OF inv, of i] a(1) by auto
qed

lemma exec_safe: "mail_inv cfg x \<Longrightarrow> mail_inv cfg (mail_exec ops cfg c x)"
proof -
  assume inv: "mail_inv cfg x"
  obtain h s log where x: "x = ((h, s), log)" by (metis prod.exhaust)
  have i: "heap_ok h s" "claims_ok h log" "within cfg h s" and si: "invar s" using inv by (auto simp: mail_inv_def x heap_ok_def)
  obtain call now where c: "c = (call, now)" by force
  show ?thesis
  proof (cases call)
    case (CallSend m)
    obtain e h' s' where "send_new ops cfg now m (h, s) = (e, h', s')" by (metis prod.exhaust)
    then show ?thesis using send_safe [OF i] by (simp add: mail_inv_def c x CallSend)
  next
    case (CallRead k)
    obtain e h' s' where "Mailbox_Read ops now k (h, s) = (e, h', s')" by (metis prod.exhaust)
    then show ?thesis using read_safe [OF i] by (simp add: mail_inv_def c x CallRead)
  next
    case (CallClaim k)
    obtain r cb h' s' where cl: "Mailbox_Claim ops cfg now k (h, s) = (r, cb, h', s')" by (metis prod.exhaust)
    show ?thesis using claim_safe [OF i cl] cl by (cases r) (auto simp: mail_inv_def c x CallClaim)
  next
    case (CallDelete k)
    obtain e s' where d: "op_Delete ops k s = (e, s')" by force
    have "invar s'" "lookup s' \<subseteq>\<^sub>m lookup s" using delete [OF si d] by (auto simp: map_le_def split: if_splits)
    then show ?thesis using shrink_safe [OF i(1,3)] i(2) d by (simp add: mail_inv_def c x CallDelete Mailbox_Delete_def)
  next
    case CallDeleteExpired
    obtain r s' where d: "op_DeleteExpired ops h now s = (r, s')" by force
    show ?thesis using shrink_safe [OF i(1,3)] expire [OF si d] i(2) d by (simp add: mail_inv_def c x CallDeleteExpired Mailbox_DeleteExpired_def)
  qed
qed

lemma run_safe: "mail_inv cfg x \<Longrightarrow> mail_inv cfg (foldl (\<lambda>y c. mail_exec ops cfg c y) x cs)"
  by (induction cs arbitrary: x) (simp_all add: exec_safe)

text \<open>The checks of \<open>Claim\<close> and its change of the status are not one step: two calls whose checks both come first
  both hand out the attachments.\<close>

lemma claim_race:
  assumes "heap_ok h s" "claim_check ops now i (h, s) = Inr a"
    and up: "\<And>h' s'. heap_ok h' s' \<Longrightarrow> lookup s' = lookup s \<Longrightarrow> fst (op_Update ops h' a s') = None"
  shows "\<exists>cb1 cb2 h1 s1 hs2. claim_commit ops cfg a (h, s) = (Inr (ml_Attachments (h ! a)), cb1, h1, s1)
    \<and> claim_commit ops cfg a (h1, s1) = (Inr (ml_Attachments (h ! a)), cb2, hs2)"
proof -
  have inv: "invar s" using assms(1) by (simp add: heap_ok_def)
  have a: "lookup s i = Some a" using assms(2) by (auto simp: claim_check_def get [OF inv] split: option.splits if_splits)
  then have len: "a < length h" using assms(1) by (simp add: heap_ok_def)
  let ?h = "set_status a StatusClaimed h"
  have h2: "set_status a StatusClaimed ?h = ?h" "ml_Attachments (?h ! a) = ml_Attachments (h ! a)" using len by (simp_all add: set_status_def)
  obtain s1 where s1: "op_Update ops ?h a s = (None, s1)" using up [OF heap_ok_set_status [OF assms(1)]] by (metis insertCI prod.collapse)
  have u: "heap_ok ?h s1" "lookup s1 = lookup s" using update_same [OF assms(1) a _ s1] by simp_all
  then obtain s2 where "op_Update ops ?h a s1 = (None, s2)" using up by (metis prod.collapse)
  then show ?thesis using s1 h2 by (simp add: claim_commit_def Let_def)
qed

end

section \<open>\<open>sortByStatus\<close> is a stable sort\<close>

lemma sort_down_insert:
  assumes "sorted (map st ys)"
  shows "\<exists>zs. sort_down st (length ys) (ys @ x # rest) = zs @ rest \<and> mset zs = mset (ys @ [x]) \<and> sorted (map st zs)
    \<and> (\<forall>k. filter (\<lambda>y. st y = k) zs = filter (\<lambda>y. st y = k) (ys @ [x]))"
  using assms
proof (induction ys arbitrary: rest rule: rev_induct)
  case Nil
  show ?case by (rule exI [of _ "[x]"]) simp
next
  case (snoc u us)
  show ?case
  proof (cases "st x < st u")
    case True
    let ?L = "us @ u # x # rest"
    have nth: "?L ! length us = u" "?L ! Suc (length us) = x" by (simp_all add: nth_append)
    have "?L[length us := x, Suc (length us) := u] = us @ x # u # rest" by (simp add: list_update_append)
    then have down: "sort_down st (length (us @ [u])) ((us @ [u]) @ x # rest) = sort_down st (length us) (us @ x # u # rest)"
      using True nth by simp
    have "sorted (map st us)" using snoc.prems by (simp add: sorted_append)
    from snoc.IH [OF this, of "u # rest"] obtain zs where zs: "sort_down st (length us) (us @ x # u # rest) = zs @ u # rest"
      "mset zs = mset (us @ [x])" "sorted (map st zs)" "\<forall>k. filter (\<lambda>y. st y = k) zs = filter (\<lambda>y. st y = k) (us @ [x])" by blast
    have "set zs = set (us @ [x])" by (rule mset_eq_setD [OF zs(2)])
    then have "\<forall>z\<in>set zs. st z \<le> st u" using snoc.prems True by (auto simp: sorted_append)
    then have "sorted (map st (zs @ [u]))" using zs(3) by (simp add: sorted_append)
    moreover have "filter (\<lambda>y. st y = k) (zs @ [u]) = filter (\<lambda>y. st y = k) ((us @ [u]) @ [x])" for k using zs(4) True by auto
    moreover have "mset (zs @ [u]) = mset ((us @ [u]) @ [x])" using zs(2) by simp
    ultimately show ?thesis unfolding down zs(1) by (intro exI [of _ "zs @ [u]"]) (simp del: filter_append)
  next
    case False
    then have "sort_down st (length (us @ [u])) ((us @ [u]) @ x # rest) = (us @ [u, x]) @ rest" by (simp add: nth_append)
    moreover have "sorted (map st (us @ [u, x]))" using snoc.prems False by (auto simp: sorted_append)
    ultimately show ?thesis by (intro exI [of _ "us @ [u, x]"]) simp
  qed
qed

lemma sort_down_sort_key: "sort_down st (length ys) (sort_key st ys @ x # rest) = sort_key st (ys @ [x]) @ rest"
proof -
  obtain zs where zs: "sort_down st (length (sort_key st ys)) (sort_key st ys @ x # rest) = zs @ rest" "mset zs = mset (sort_key st ys @ [x])"
    "sorted (map st zs)" "\<forall>k. filter (\<lambda>y. st y = k) zs = filter (\<lambda>y. st y = k) (sort_key st ys @ [x])"
    using sort_down_insert [of st "sort_key st ys" x rest] by auto
  have "sort_key st (ys @ [x]) = zs"
  proof (rule properties_for_sort_key)
    show "mset zs = mset (ys @ [x])" using zs(2) by simp
    show "filter (\<lambda>y. st k = st y) zs = filter (\<lambda>y. st k = st y) (ys @ [x])" for k
      using zs(4) [THEN spec, of "st k"] by (simp add: eq_commute [of "st k"] sort_key_stable)
    show "sorted (map st zs)" by (rule zs(3))
  qed
  then show ?thesis using zs(1) by simp
qed

lemma sortByStatus_prefix: "n \<le> length xs \<Longrightarrow> foldl (\<lambda>ys i. sort_down st i ys) xs [1..<n] = sort_key st (take n xs) @ drop n xs"
proof (induction n)
  case (Suc n)
  show ?case
  proof (cases "n = 0")
    case True
    then show ?thesis using Suc.prems by (cases xs) simp_all
  next
    case False
    have drop: "drop n xs = xs ! n # drop (Suc n) xs" "take (Suc n) xs = take n xs @ [xs ! n]" "length (take n xs) = n"
      using Suc.prems by (simp_all add: Cons_nth_drop_Suc take_Suc_conv_app_nth)
    have "foldl (\<lambda>ys i. sort_down st i ys) xs [1..<Suc n] = sort_down st n (sort_key st (take n xs) @ drop n xs)" using Suc False by simp
    also have "\<dots> = sort_key st (take (Suc n) xs) @ drop (Suc n) xs"
      unfolding drop(1,2) using sort_down_sort_key [of st "take n xs" "xs ! n" "drop (Suc n) xs"] by (simp only: drop(3))
    finally show ?thesis .
  qed
qed simp

lemma sortByStatus_sort_key: "sortByStatus st xs = sort_key st xs"
  using sortByStatus_prefix [of "length xs" xs st] by (simp add: sortByStatus_def)

section \<open>The in-memory store meets the interface\<close>

definition Store_lookup :: "MemoryStore \<Rightarrow> key \<Rightarrow> nat option" where
  "Store_lookup s = map_of (ms_mails s)"

definition Store_inv :: "MemoryStore \<Rightarrow> bool" where
  "Store_inv s \<longleftrightarrow> distinct (map fst (ms_mails s)) \<and> distinct (ms_order s) \<and> set (ms_order s) = dom (map_of (ms_mails s))"

lemma card_map_of:
  assumes "distinct (map fst xs)"
  shows "card {i. \<exists>a. map_of xs i = Some a \<and> P a} = length (filter (\<lambda>(i, a). P a) xs)"
proof -
  have "{i. \<exists>a. map_of xs i = Some a \<and> P a} = fst ` set (filter (\<lambda>(i, a). P a) xs)"
    using assms by (force simp: map_of_eq_Some_iff)
  moreover have "distinct (map fst (filter (\<lambda>(i, a). P a) xs))" using assms by (rule distinct_map_filter)
  ultimately show ?thesis by (metis distinct_card length_map list.set_map)
qed

lemma map_of_filter_snd:
  assumes "distinct (map fst xs)"
  shows "map_of (filter (\<lambda>(i, a). P a) xs) i = (case map_of xs i of None \<Rightarrow> None | Some a \<Rightarrow> if P a then Some a else None)"
  using assms by (induction xs) (auto simp: map_of_eq_None_iff rev_image_eqI split: option.splits)

lemma Store_update_inv:
  assumes "Store_inv s" "map_of (ms_mails s) i \<noteq> None"
  shows "Store_inv (s\<lparr>ms_mails := AList.update i a (ms_mails s)\<rparr>)"
  using assms by (auto simp: Store_inv_def distinct_update update_conv' dom_def)

lemma Store_Save_law:
  assumes "Store_inv s" "Store_Save h a s = (e, s')"
  shows "Store_inv s' \<and> Store_lookup s' = (if e = None then (Store_lookup s)(ml_ID (h ! a) \<mapsto> a) else Store_lookup s)"
  using assms by (auto simp: Store_Save_def Store_lookup_def Store_inv_def Let_def distinct_update update_conv' dom_def split: if_splits)

lemma Store_Update_law:
  assumes "Store_inv s" "Store_Update h a s = (e, s')"
  shows "Store_inv s' \<and> Store_lookup s' = (if e = None then (Store_lookup s)(ml_ID (h ! a) \<mapsto> a) else Store_lookup s)"
  using assms Store_update_inv [OF assms(1), of "ml_ID (h ! a)" a]
  by (auto simp: Store_Update_def Store_lookup_def Let_def update_conv' split: if_splits)

lemma Store_Delete_law:
  assumes "Store_inv s" "Store_Delete i s = (e, s')"
  shows "Store_inv s' \<and> Store_lookup s' = (if e = None then (Store_lookup s)(i := None) else Store_lookup s)"
  using assms by (auto simp: Store_Delete_def Store_lookup_def Store_inv_def delete_conv' distinct_delete dom_def split: if_splits)

lemma Store_DeleteExpired_law:
  assumes "Store_inv s" "Store_DeleteExpired h now s = (r, s')"
  shows "Store_inv s' \<and> (\<forall>i. Store_lookup s' i = (case Store_lookup s i of None \<Rightarrow> None | Some a \<Rightarrow> if Mail_IsExpired now (h ! a) then None else Some a))"
proof -
  let ?old = "filter (\<lambda>(i, a). Mail_IsExpired now (h ! a)) (ms_mails s)" and ?kept = "filter (\<lambda>(i, a). \<not> Mail_IsExpired now (h ! a)) (ms_mails s)"
  have d: "distinct (map fst (ms_mails s))" "distinct (ms_order s)" "set (ms_order s) = dom (map_of (ms_mails s))" using assms(1) by (auto simp: Store_inv_def)
  have look: "map_of ?kept i = (case map_of (ms_mails s) i of None \<Rightarrow> None | Some a \<Rightarrow> if Mail_IsExpired now (h ! a) then None else Some a)" for i
    using map_of_filter_snd [OF d(1), of "\<lambda>a. \<not> Mail_IsExpired now (h ! a)" i] by (auto split: option.splits)
  have sub: "map_of ?kept i \<noteq> None \<Longrightarrow> map_of (ms_mails s) i \<noteq> None" for i by (auto simp: look split: option.splits if_splits)
  have all: "?kept = ms_mails s" if "?old = []" using that by (auto simp: filter_empty_conv filter_id_conv split_def)
  have s': "ms_mails s' = ?kept" "ms_order s' = (if ?old = [] then ms_order s else filter (\<lambda>i. map_of ?kept i \<noteq> None) (ms_order s))"
    using assms(2) by (auto simp: Store_DeleteExpired_def Let_def)
  have "distinct (map fst ?kept)" using d(1) by (rule distinct_map_filter)
  moreover have "distinct (ms_order s')" using d(2) by (simp add: s'(2))
  moreover have "set (ms_order s') = dom (map_of ?kept)" using d(3) all sub by (auto simp: s'(2) dom_def)
  ultimately show ?thesis using look by (simp add: Store_inv_def Store_lookup_def s'(1))
qed

interpretation memstore: mail_store Store_ops Store_lookup Store_inv
proof
  fix s :: MemoryStore and h :: "'a mail_heap" and i r and st now and a n and e s' and res
  show "Store_inv s \<Longrightarrow> op_Get Store_ops i s = (case Store_lookup s i of None \<Rightarrow> Inl MailNotFound | Some a \<Rightarrow> Inr a)"
    by (simp add: Store_ops_def Store_Get_def Store_lookup_def)
  show "Store_inv s \<Longrightarrow> op_Save Store_ops h a s = (e, s') \<Longrightarrow> Store_inv s' \<and> Store_lookup s' = (if e = None then (Store_lookup s)(ml_ID (h ! a) \<mapsto> a) else Store_lookup s)"
    using Store_Save_law [of s h a e s'] by (simp add: Store_ops_def)
  show "Store_inv s \<Longrightarrow> op_Update Store_ops h a s = (e, s') \<Longrightarrow> Store_inv s' \<and> Store_lookup s' = (if e = None then (Store_lookup s)(ml_ID (h ! a) \<mapsto> a) else Store_lookup s)"
    using Store_Update_law [of s h a e s'] by (simp add: Store_ops_def)
  show "Store_inv s \<Longrightarrow> op_Delete Store_ops i s = (e, s') \<Longrightarrow> Store_inv s' \<and> Store_lookup s' = (if e = None then (Store_lookup s)(i := None) else Store_lookup s)"
    using Store_Delete_law [of s i e s'] by (simp add: Store_ops_def)
  show "Store_inv s \<Longrightarrow> op_DeleteExpired Store_ops h now s = (res, s') \<Longrightarrow> Store_inv s' \<and> Store_lookup s' \<subseteq>\<^sub>m Store_lookup s"
    using Store_DeleteExpired_law [of s h now res s'] by (auto simp: Store_ops_def map_le_def dom_def split: option.splits if_splits)
  show "Store_inv s \<Longrightarrow> op_CountByStatus Store_ops h r st s = Inr n \<Longrightarrow>
      n = int (card {i. \<exists>a. Store_lookup s i = Some a \<and> ml_RecipientID (h ! a) = r \<and> ml_Status (h ! a) = st})"
    using card_map_of [of "ms_mails s" "\<lambda>a. ml_RecipientID (h ! a) = r \<and> ml_Status (h ! a) = st"]
    by (simp add: Store_ops_def Store_CountByStatus_def Store_lookup_def Store_inv_def)
  show "Store_inv s \<Longrightarrow> finite (dom (Store_lookup s))" by (simp add: Store_lookup_def finite_dom_map_of)
qed

lemma mail_inv_new: "memstore.mail_inv cfg (([], NewMemoryStore), [])"
  by (simp add: memstore.mail_inv_def memstore.heap_ok_def memstore.claims_ok_def memstore.within_def memstore.owned_def
      Store_inv_def Store_lookup_def NewMemoryStore_def)

text \<open>What \<open>List\<close> selects, in the order of insertion.\<close>

definition mails_of :: "'a mail_heap \<Rightarrow> key \<Rightarrow> int list \<Rightarrow> MemoryStore \<Rightarrow> nat list" where
  "mails_of h r sts s = filter (\<lambda>a. ml_RecipientID (h ! a) = r \<and> (sts = [] \<or> ml_Status (h ! a) \<in> set sts))
     (map (\<lambda>i. the (map_of (ms_mails s) i)) (ms_order s))"

lemma list_select_filter:
  assumes "\<forall>i\<in>set is. map_of mails i \<noteq> None"
  shows "list_select h mails r sts is = Some (filter (\<lambda>a. ml_RecipientID (h ! a) = r \<and> (sts = [] \<or> ml_Status (h ! a) \<in> set sts)) (map (\<lambda>i. the (map_of mails i)) is))"
  using assms by (induction "is") auto

lemma Store_List_page:
  assumes "Store_inv s"
  shows "Store_List h r filt s = Some (Inr (
    let found = drop (nat (fl_Offset filt)) (sort_key (\<lambda>a. ml_Status (h ! a)) (mails_of h r (fl_StatusIn filt) s))
    in if 0 < fl_Limit filt then take (nat (fl_Limit filt)) found else found))"
proof -
  have "list_select h (ms_mails s) r (fl_StatusIn filt) (ms_order s) = Some (mails_of h r (fl_StatusIn filt) s)"
    unfolding mails_of_def using assms by (intro list_select_filter) (auto simp: Store_inv_def)
  then show ?thesis by (auto simp: Store_List_def sortByStatus_sort_key Let_def)
qed

lemma Mailbox_claim_race:
  assumes "memstore.heap_ok h s" "claim_check Store_ops now i (h, s) = Inr a"
  shows "\<exists>cb1 cb2 h1 s1 hs2. claim_commit Store_ops cfg a (h, s) = (Inr (ml_Attachments (h ! a)), cb1, h1, s1)
    \<and> claim_commit Store_ops cfg a (h1, s1) = (Inr (ml_Attachments (h ! a)), cb2, hs2)"
proof (rule memstore.claim_race [OF assms])
  have a: "Store_lookup s i = Some a" using assms(2) by (auto simp: claim_check_def Store_ops_def Store_Get_def Store_lookup_def split: option.splits if_splits)
  fix h' :: "'a mail_heap" and s' assume "memstore.heap_ok h' s'" "Store_lookup s' = Store_lookup s"
  then have "map_of (ms_mails s') (ml_ID (h' ! a)) \<noteq> None" using a by (auto simp: memstore.heap_ok_def Store_lookup_def)
  then show "fst (op_Update Store_ops h' a s') = None" by (auto simp: Store_ops_def Store_Update_def Let_def)
qed

section \<open>Properties\<close>


definition demo_mail :: "key \<Rightarrow> nat Mail" where
  "demo_mail i = \<lparr>ml_ID = i, ml_RecipientID = ''ann'', ml_SenderID = ''gm'', ml_Title = ''gift'', ml_Body = [], ml_Attachments = [7, 8],
     ml_Status = 0, ml_CreatedAt = None, ml_ExpiresAt = Some 100\<rparr>"


text \<open>\<open>List\<close> never fails on a well-formed store and returns exactly the page the filter asks for: the recipient's mails with
  one of the given states, unread before read before claimed, mails of equal state in the order in which they
  were stored (the hand-written sort is a stable sort), cut to offset and limit, less the expired ones.\<close>

theorem Mailbox_List_page:
  assumes "Store_inv s"
  shows "Mailbox_List Store_ops now r filt (h, s) = Some (Inr (
    let found = drop (nat (fl_Offset filt)) (sort_key (\<lambda>a. ml_Status (h ! a)) (mails_of h r (fl_StatusIn filt) s));
        page = (if 0 < fl_Limit filt then take (nat (fl_Limit filt)) found else found)
    in filter (\<lambda>a. \<not> Mail_IsExpired now (h ! a)) page))"
  using Store_List_page [OF assms, of h r filt] by (simp add: Mailbox_List_def Store_ops_def Let_def)

theorem Mailbox_List_page_witness:
  "Mailbox_List Store_ops 5 ''ann'' \<lparr>fl_StatusIn = [], fl_Limit = 1, fl_Offset = 1\<rparr>
     ([(demo_mail ''m1'')\<lparr>ml_Status := StatusClaimed\<rparr>, demo_mail ''m2''], \<lparr>ms_mails = [(''m1'', 0), (''m2'', 1)], ms_order = [''m1'', ''m2'']\<rparr>) = Some (Inr [0])"
proof -
  have "Store_inv \<lparr>ms_mails = [(''m1'', 0), (''m2'', 1)], ms_order = [''m1'', ''m2'']\<rparr>" by (auto simp: Store_inv_def)
  from Mailbox_List_page [OF this, of 5 "''ann''" "\<lparr>fl_StatusIn = [], fl_Limit = 1, fl_Offset = 1\<rparr>" "[(demo_mail ''m1'')\<lparr>ml_Status := StatusClaimed\<rparr>, demo_mail ''m2'']"]
  show ?thesis by (simp add: mails_of_def demo_mail_def status_defs Mail_IsExpired_def)
qed

end
