(* ===== verification/RateLimit.thy ===== *)
theory RateLimit
  imports Complex_Main Prelude
begin

text \<open>
  \<open>pkg/resilience/ratelimit\<close>: token buckets, the exact sliding window, the generic cell rate algorithm, the limiter by
  groups, the retry budget and the HTTP middleware. Times are exact integers. What the code computes in
  floating point is rational here, with the rounding of each operation (\<open>rnd\<close>) and the conversions from and
  to durations as arguments. A call reads the clock and runs as one step; the periodic clean-up is a step
  of its own.
\<close>

section \<open>Configuration\<close>

record rl_config =
  rc_maxIdle :: duration
  rc_gcInterval :: duration

datatype rl_option = WithMaxIdle duration | WithGcInterval duration

fun rl_apply :: "rl_option \<Rightarrow> rl_config \<Rightarrow> rl_config" where
  "rl_apply (WithMaxIdle d) c = c\<lparr>rc_maxIdle := d\<rparr>"
| "rl_apply (WithGcInterval d) c = c\<lparr>rc_gcInterval := d\<rparr>"

definition rl_configure :: "rl_option list \<Rightarrow> rl_config" where
  "rl_configure opts = foldl (\<lambda>c o'. rl_apply o' c) \<lparr>rc_maxIdle = 5 * 60 * second, rc_gcInterval = 60 * second\<rparr> opts"

type_synonym answer = "bool \<times> duration"

section \<open>Token bucket\<close>

record bucket =
  bk_tokens :: rat
  bk_last :: time

record TokenBucket =
  tb_burst :: rat
  tb_rate :: rat
  tb_maxIdle :: duration
  tb_gcInterval :: duration
  tb_bkts :: "key \<Rightarrow> bucket option"
  tb_stopped :: bool

definition NewTokenBucket :: "int \<Rightarrow> rat \<Rightarrow> rl_option list \<Rightarrow> TokenBucket" where
  "NewTokenBucket burst rate opts =
     (let c = rl_configure opts
      in \<lparr>tb_burst = of_int burst, tb_rate = rate, tb_maxIdle = rc_maxIdle c, tb_gcInterval = rc_gcInterval c, tb_bkts = (\<lambda>_. None), tb_stopped = False\<rparr>)"

text \<open>One bucket: \<open>secs\<close> is \<open>Duration.Seconds\<close>, \<open>dur\<close> the conversion of a number of nanoseconds to a duration.\<close>

definition bucket_take :: "(rat \<Rightarrow> rat) \<Rightarrow> (duration \<Rightarrow> rat) \<Rightarrow> (rat \<Rightarrow> duration) \<Rightarrow> rat \<Rightarrow> rat \<Rightarrow> time \<Rightarrow> bucket \<Rightarrow> answer \<times> bucket" where
  "bucket_take rnd secs dur burst rate now b =
     (let elapsed = secs (now - bk_last b);
          elapsed = (if elapsed < 0 then 0 else elapsed);
          tokens = rnd (bk_tokens b + rnd (elapsed * rate));
          tokens = (if burst < tokens then burst else tokens)
      in if 1 \<le> tokens then ((True, 0), \<lparr>bk_tokens = rnd (tokens - 1), bk_last = now\<rparr>)
         else ((False, dur (rnd (rnd (rnd (1 - tokens) / rate) * of_int second))), \<lparr>bk_tokens = tokens, bk_last = now\<rparr>))"

definition TokenBucket_Allow :: "(rat \<Rightarrow> rat) \<Rightarrow> (duration \<Rightarrow> rat) \<Rightarrow> (rat \<Rightarrow> duration) \<Rightarrow> time \<Rightarrow> time \<Rightarrow> key \<Rightarrow> TokenBucket \<Rightarrow> answer \<times> TokenBucket" where
  "TokenBucket_Allow rnd secs dur t0 now k tb =
     (if tb_burst tb \<le> 0 \<or> tb_rate tb \<le> 0 then ((True, 0), tb)
      else let b = (case tb_bkts tb k of Some b \<Rightarrow> b | None \<Rightarrow> \<lparr>bk_tokens = tb_burst tb, bk_last = t0\<rparr>)
           in case bucket_take rnd secs dur (tb_burst tb) (tb_rate tb) now b of
                (r, b') \<Rightarrow> (r, tb\<lparr>tb_bkts := (tb_bkts tb)(k \<mapsto> b')\<rparr>))"

definition TokenBucket_gc :: "time \<Rightarrow> TokenBucket \<Rightarrow> TokenBucket" where
  "TokenBucket_gc now tb =
     tb\<lparr>tb_bkts := (\<lambda>k. case tb_bkts tb k of None \<Rightarrow> None | Some b \<Rightarrow> if bk_last b < now - tb_maxIdle tb then None else Some b)\<rparr>"

definition TokenBucket_Stop :: "TokenBucket \<Rightarrow> TokenBucket" where
  "TokenBucket_Stop tb = tb\<lparr>tb_stopped := True\<rparr>"

section \<open>Sliding window\<close>

record SlidingWindow =
  sw_limit :: int
  sw_window :: duration
  sw_maxIdle :: duration
  sw_gcInterval :: duration
  sw_wins :: "key \<Rightarrow> time list option"
  sw_stopped :: bool

definition NewSlidingWindow :: "int \<Rightarrow> duration \<Rightarrow> rl_option list \<Rightarrow> SlidingWindow" where
  "NewSlidingWindow limit window opts =
     (let c = rl_configure opts
      in \<lparr>sw_limit = limit, sw_window = window, sw_maxIdle = rc_maxIdle c, sw_gcInterval = rc_gcInterval c, sw_wins = (\<lambda>_. None), sw_stopped = False\<rparr>)"

definition sw_hits :: "SlidingWindow \<Rightarrow> key \<Rightarrow> time list" where
  "sw_hits sw k = (case sw_wins sw k of None \<Rightarrow> [] | Some hits \<Rightarrow> hits)"

definition SlidingWindow_Allow :: "time \<Rightarrow> key \<Rightarrow> SlidingWindow \<Rightarrow> answer \<times> SlidingWindow" where
  "SlidingWindow_Allow now k sw =
     (if sw_limit sw \<le> 0 \<or> sw_window sw \<le> 0 then ((True, 0), sw)
      else let cutoff = now - sw_window sw; hits = dropWhile (\<lambda>h. h < cutoff) (sw_hits sw k)
           in if int (length hits) < sw_limit sw then ((True, 0), sw\<lparr>sw_wins := (sw_wins sw)(k \<mapsto> hits @ [now])\<rparr>)
              else ((False, max (hits ! 0 + sw_window sw - now) 0), sw\<lparr>sw_wins := (sw_wins sw)(k \<mapsto> hits)\<rparr>))"

definition SlidingWindow_gc :: "time \<Rightarrow> SlidingWindow \<Rightarrow> SlidingWindow" where
  "SlidingWindow_gc now sw =
     sw\<lparr>sw_wins := (\<lambda>k. case sw_wins sw k of None \<Rightarrow> None
        | Some hits \<Rightarrow> if length hits = 0 \<or> last hits < now - sw_maxIdle sw then None else Some hits)\<rparr>"

definition SlidingWindow_Stop :: "SlidingWindow \<Rightarrow> SlidingWindow" where
  "SlidingWindow_Stop sw = sw\<lparr>sw_stopped := True\<rparr>"

section \<open>Generic cell rate algorithm\<close>

record GCRA =
  gr_emission :: duration
  gr_tolerance :: duration
  gr_maxIdle :: duration
  gr_gcInterval :: duration
  gr_tats :: "key \<Rightarrow> time option"
  gr_stopped :: bool

text \<open>\<open>emissionOf\<close> is the floating-point quotient of a second by the rate, cut to a duration.\<close>

definition NewGCRA :: "(rat \<Rightarrow> duration) \<Rightarrow> rat \<Rightarrow> int \<Rightarrow> rl_option list \<Rightarrow> GCRA" where
  "NewGCRA emissionOf rate burst opts =
     (let c = rl_configure opts; on = (0 < rate \<and> 0 < burst); em = (if on then emissionOf rate else 0)
      in \<lparr>gr_emission = em, gr_tolerance = (if on then wrap64 (burst * em) else 0), gr_maxIdle = rc_maxIdle c, gr_gcInterval = rc_gcInterval c,
          gr_tats = (\<lambda>_. None), gr_stopped = False\<rparr>)"

text \<open>A missing entry is Go's zero time, which is before every reading of the clock.\<close>

definition gr_tat :: "GCRA \<Rightarrow> time \<Rightarrow> key \<Rightarrow> time" where
  "gr_tat g now k = (case gr_tats g k of None \<Rightarrow> now | Some tat \<Rightarrow> if tat < now then now else tat)"

definition GCRA_Allow :: "time \<Rightarrow> key \<Rightarrow> GCRA \<Rightarrow> answer \<times> GCRA" where
  "GCRA_Allow now k g =
     (if gr_emission g \<le> 0 then ((True, 0), g)
      else let newTAT = gr_tat g now k + gr_emission g; allowAt = newTAT - gr_tolerance g
           in if now < allowAt then ((False, allowAt - now), g) else ((True, 0), g\<lparr>gr_tats := (gr_tats g)(k \<mapsto> newTAT)\<rparr>))"

definition GCRA_gc :: "time \<Rightarrow> GCRA \<Rightarrow> GCRA" where
  "GCRA_gc now g =
     g\<lparr>gr_tats := (\<lambda>k. case gr_tats g k of None \<Rightarrow> None | Some tat \<Rightarrow> if tat < now - gr_maxIdle g then None else Some tat)\<rparr>"

definition GCRA_Stop :: "GCRA \<Rightarrow> GCRA" where
  "GCRA_Stop g = g\<lparr>gr_stopped := True\<rparr>"

section \<open>Limiters by grp\<close>

record 'l KeyedLimiter =
  kl_maxIdle :: duration
  kl_gcInterval :: duration
  kl_limiters :: "(key \<times> 'l \<times> time) list"
  kl_stopped :: bool

datatype keyed_option = WithKeyedMaxIdle duration | WithKeyedGcInterval duration

fun keyed_apply :: "keyed_option \<Rightarrow> 'l KeyedLimiter \<Rightarrow> 'l KeyedLimiter" where
  "keyed_apply (WithKeyedMaxIdle d) kl = kl\<lparr>kl_maxIdle := d\<rparr>"
| "keyed_apply (WithKeyedGcInterval d) kl = kl\<lparr>kl_gcInterval := d\<rparr>"

definition NewKeyedLimiter :: "keyed_option list \<Rightarrow> 'l KeyedLimiter" where
  "NewKeyedLimiter opts = foldl (\<lambda>c o'. keyed_apply o' c)
     \<lparr>kl_maxIdle = 10 * 60 * second, kl_gcInterval = 2 * 60 * second, kl_limiters = [], kl_stopped = False\<rparr> opts"

text \<open>The limiter of a group, made by \<open>factory\<close> when it is missing; the time of its last use is noted.\<close>

definition KeyedLimiter_getOrCreate :: "(key \<Rightarrow> 'l) \<Rightarrow> time \<Rightarrow> key \<Rightarrow> 'l KeyedLimiter \<Rightarrow> 'l \<times> 'l KeyedLimiter" where
  "KeyedLimiter_getOrCreate factory now grp kl =
     (let l = (case map_of (kl_limiters kl) grp of Some (l, _) \<Rightarrow> l | None \<Rightarrow> factory grp)
      in (l, kl\<lparr>kl_limiters := AList.update grp (l, now) (kl_limiters kl)\<rparr>))"

definition KeyedLimiter_Allow :: "(key \<Rightarrow> 'l) \<Rightarrow> (time \<Rightarrow> key \<Rightarrow> 'l \<Rightarrow> answer \<times> 'l) \<Rightarrow> time \<Rightarrow> time \<Rightarrow> key \<Rightarrow> key \<Rightarrow> 'l KeyedLimiter \<Rightarrow> answer \<times> 'l KeyedLimiter" where
  "KeyedLimiter_Allow factory allow t0 now grp k kl =
     (case KeyedLimiter_getOrCreate factory t0 grp kl of
        (l, kl1) \<Rightarrow> (case allow now k l of (r, l') \<Rightarrow> (r, kl1\<lparr>kl_limiters := AList.update grp (l', t0) (kl_limiters kl1)\<rparr>)))"

definition KeyedLimiter_AllowGroup :: "(key \<Rightarrow> 'l) \<Rightarrow> (time \<Rightarrow> key \<Rightarrow> 'l \<Rightarrow> answer \<times> 'l) \<Rightarrow> time \<Rightarrow> time \<Rightarrow> key \<Rightarrow> 'l KeyedLimiter \<Rightarrow> answer \<times> 'l KeyedLimiter" where
  "KeyedLimiter_AllowGroup factory allow t0 now grp kl = KeyedLimiter_Allow factory allow t0 now grp [] kl"

definition KeyedLimiter_Groups :: "'l KeyedLimiter \<Rightarrow> nat" where
  "KeyedLimiter_Groups kl = length (kl_limiters kl)"

text \<open>\<open>Stop\<close> and the clean-up return the limiters whose \<open>Stop\<close> is called.\<close>

definition KeyedLimiter_Stop :: "'l KeyedLimiter \<Rightarrow> 'l list \<times> 'l KeyedLimiter" where
  "KeyedLimiter_Stop kl =
     (if kl_stopped kl then ([], kl) else (map (fst \<circ> snd) (kl_limiters kl), kl\<lparr>kl_stopped := True, kl_limiters := []\<rparr>))"

definition KeyedLimiter_gc :: "time \<Rightarrow> 'l KeyedLimiter \<Rightarrow> 'l list \<times> 'l KeyedLimiter" where
  "KeyedLimiter_gc now kl =
     (let old = (\<lambda>(g, l, used). used < now - kl_maxIdle kl)
      in (map (fst \<circ> snd) (filter old (kl_limiters kl)), kl\<lparr>kl_limiters := filter (\<lambda>e. \<not> old e) (kl_limiters kl)\<rparr>))"

section \<open>Retry budget\<close>

record RetryBudget =
  rb_tokens :: rat
  rb_max :: rat
  rb_threshold :: rat
  rb_ratio :: rat

text \<open>\<open>tenth\<close> is the constant 0.1 as a floating-point number.\<close>

definition NewRetryBudget :: "rat \<Rightarrow> int \<Rightarrow> rat \<Rightarrow> RetryBudget" where
  "NewRetryBudget tenth maxTokens tokenRatio =
     (let m = (if maxTokens \<le> 0 then 100 else of_int maxTokens); ratio = (if tokenRatio \<le> 0 then tenth else tokenRatio)
      in \<lparr>rb_tokens = m, rb_max = m, rb_threshold = m / 2, rb_ratio = ratio\<rparr>)"

definition RetryBudget_Allow :: "(rat \<Rightarrow> rat) \<Rightarrow> RetryBudget \<Rightarrow> bool \<times> RetryBudget" where
  "RetryBudget_Allow rnd b = (if rb_tokens b \<le> rb_threshold b then (False, b) else (True, b\<lparr>rb_tokens := rnd (rb_tokens b - 1)\<rparr>))"

definition RetryBudget_Deposit :: "(rat \<Rightarrow> rat) \<Rightarrow> RetryBudget \<Rightarrow> RetryBudget" where
  "RetryBudget_Deposit rnd b =
     (let t = rnd (rb_tokens b + rb_ratio b) in b\<lparr>rb_tokens := (if rb_max b < t then rb_max b else t)\<rparr>)"

definition RetryBudget_Tokens :: "RetryBudget \<Rightarrow> rat" where
  "RetryBudget_Tokens b = rb_tokens b"

section \<open>HTTP middleware\<close>

text \<open>The client's address: the header, cut at its first comma, else the remote address, cut at its first colon.\<close>

definition ClientIP :: "string \<Rightarrow> string \<Rightarrow> string" where
  "ClientIP xff remoteAddr = (if xff \<noteq> [] then takeWhile (\<lambda>c. c \<noteq> CHR '','') xff else takeWhile (\<lambda>c. c \<noteq> CHR '':'') remoteAddr)"

datatype 'r served = Served 'r | TooManyRequests string

definition Middleware :: "(duration \<Rightarrow> int) \<Rightarrow> (time \<Rightarrow> key \<Rightarrow> 'l \<Rightarrow> answer \<times> 'l) \<Rightarrow> ('q \<Rightarrow> key) \<Rightarrow> ('q \<Rightarrow> 'r) \<Rightarrow> time \<Rightarrow> 'q \<Rightarrow> 'l \<Rightarrow> 'r served \<times> 'l" where
  "Middleware wholeSecs allow keyFn next' now q l =
     (let k = keyFn q
      in if k = [] then (Served (next' q), l)
         else case allow now k l of
                ((True, _), l') \<Rightarrow> (Served (next' q), l')
              | ((False, retry), l') \<Rightarrow> (TooManyRequests (FormatInt (wholeSecs retry + 1)), l'))"

section \<open>Keys do not disturb each other\<close>

fun run_calls :: "(time \<Rightarrow> key \<Rightarrow> 's \<Rightarrow> answer \<times> 's) \<Rightarrow> (time \<times> key) list \<Rightarrow> 's \<Rightarrow> (key \<times> answer) list \<times> 's" where
  "run_calls allow [] s = ([], s)"
| "run_calls allow ((now, k) # cs) s =
     (case allow now k s of (r, s1) \<Rightarrow> (case run_calls allow cs s1 of (rs, s2) \<Rightarrow> ((k, r) # rs, s2)))"

fun run_decide :: "(time \<Rightarrow> 'v \<Rightarrow> answer \<times> 'v) \<Rightarrow> time list \<Rightarrow> 'v \<Rightarrow> answer list \<times> 'v" where
  "run_decide decide [] v = ([], v)"
| "run_decide decide (now # ts) v = (case decide now v of (r, v1) \<Rightarrow> (case run_decide decide ts v1 of (rs, v2) \<Rightarrow> (r # rs, v2)))"

text \<open>A limiter decides for each key on that key's part of its state alone.\<close>

locale limiter =
  fixes allow :: "time \<Rightarrow> key \<Rightarrow> 's \<Rightarrow> answer \<times> 's" and view :: "'s \<Rightarrow> key \<Rightarrow> 'v" and conf :: "'s \<Rightarrow> 'c"
    and decide :: "'c \<Rightarrow> time \<Rightarrow> 'v \<Rightarrow> answer \<times> 'v"
  assumes allow_key: "allow now k s = (r, s') \<Longrightarrow> decide (conf s) now (view s k) = (r, view s' k)"
    and allow_other: "allow now k s = (r, s') \<Longrightarrow> k' \<noteq> k \<Longrightarrow> view s' k' = view s k'"
    and allow_conf: "allow now k s = (r, s') \<Longrightarrow> conf s' = conf s"
begin

text \<open>In a run over many keys, one key gets the answers it would get alone.\<close>

lemma isolated:
  assumes "run_calls allow cs s = (rs, s')"
  shows "run_decide (decide (conf s)) (map fst (filter (\<lambda>c. snd c = k) cs)) (view s k) = (map snd (filter (\<lambda>r. fst r = k) rs), view s' k)"
  using assms
proof (induction cs arbitrary: s rs)
  case (Cons c cs)
  obtain now k' where c: "c = (now, k')" by force
  obtain r s1 where s1: "allow now k' s = (r, s1)" by (rule prod.exhaust)
  obtain rs1 where rs1: "run_calls allow cs s1 = (rs1, s')" "rs = (k', r) # rs1" using Cons.prems s1 by (auto simp: c split: prod.splits)
  note IH = Cons.IH [OF rs1(1)] and cf = allow_conf [OF s1]
  show ?case using IH cf allow_key [OF s1] allow_other [OF s1, of k] by (cases "k' = k") (simp_all add: c rs1(2))
qed simp

text \<open>A request behind the middleware is served exactly when its key is empty or allowed, and touches no other key.\<close>

lemma middleware_decides:
  assumes "Middleware secs allow keyFn serve now q s = (res, s')"
  shows "((\<exists>x. res = Served x) \<longleftrightarrow> keyFn q = [] \<or> fst (fst (decide (conf s) now (view s (keyFn q))))) \<and> (k \<noteq> keyFn q \<longrightarrow> view s' k = view s k)"
proof (cases "keyFn q = []")
  case True
  then show ?thesis using assms by (auto simp: Middleware_def)
next
  case False
  obtain ok d s1 where al: "allow now (keyFn q) s = ((ok, d), s1)" by (metis prod.exhaust)
  then have "s' = s1" "(\<exists>x. res = Served x) \<longleftrightarrow> ok" using assms False by (auto simp: Middleware_def Let_def split: bool.splits)
  then show ?thesis using allow_key [OF al] allow_other [OF al] False by simp
qed

end

definition sw_decide :: "int \<times> duration \<Rightarrow> time \<Rightarrow> time list \<Rightarrow> answer \<times> time list" where
  "sw_decide c now hits =
     (case c of (limit, window) \<Rightarrow>
        if limit \<le> 0 \<or> window \<le> 0 then ((True, 0), hits)
        else let hs = dropWhile (\<lambda>h. h < now - window) hits
             in if int (length hs) < limit then ((True, 0), hs @ [now]) else ((False, max (hs ! 0 + window - now) 0), hs))"

interpretation window: limiter SlidingWindow_Allow sw_hits "\<lambda>sw. (sw_limit sw, sw_window sw)" sw_decide
  by unfold_locales (auto simp: SlidingWindow_Allow_def sw_decide_def sw_hits_def Let_def split: if_splits)

definition gr_decide :: "duration \<times> duration \<Rightarrow> time \<Rightarrow> time option \<Rightarrow> answer \<times> time option" where
  "gr_decide c now tat =
     (case c of (emission, tolerance) \<Rightarrow>
        if emission \<le> 0 then ((True, 0), tat)
        else let new = (case tat of None \<Rightarrow> now | Some t \<Rightarrow> if t < now then now else t) + emission
             in if now < new - tolerance then ((False, new - tolerance - now), tat) else ((True, 0), Some new))"

interpretation cells: limiter GCRA_Allow gr_tats "\<lambda>g. (gr_emission g, gr_tolerance g)" gr_decide
  by unfold_locales (auto simp: GCRA_Allow_def gr_decide_def gr_tat_def Let_def split: if_splits)

definition tb_decide :: "(rat \<Rightarrow> rat) \<Rightarrow> (duration \<Rightarrow> rat) \<Rightarrow> (rat \<Rightarrow> duration) \<Rightarrow> rat \<times> rat \<Rightarrow> time \<Rightarrow> bucket option \<Rightarrow> answer \<times> bucket option" where
  "tb_decide rnd secs dur c now b =
     (case c of (burst, rate) \<Rightarrow>
        if burst \<le> 0 \<or> rate \<le> 0 then ((True, 0), b)
        else map_prod id Some (bucket_take rnd secs dur burst rate now (case b of Some b \<Rightarrow> b | None \<Rightarrow> \<lparr>bk_tokens = burst, bk_last = now\<rparr>)))"

interpretation tokens: limiter "\<lambda>now. TokenBucket_Allow rnd secs dur now now" tb_bkts "\<lambda>tb. (tb_burst tb, tb_rate tb)" "tb_decide rnd secs dur"
  by unfold_locales (auto simp: TokenBucket_Allow_def tb_decide_def Let_def split: if_splits prod.splits)

section \<open>The window counts exactly\<close>

datatype rl_event = RlCall time key | RlGc time

fun ev_time :: "rl_event \<Rightarrow> time" where
  "ev_time (RlCall now k) = now"
| "ev_time (RlGc now) = now"

text \<open>A run with, for each key, the times at which it was allowed.\<close>

fun sw_exec :: "rl_event \<Rightarrow> SlidingWindow \<times> (key \<Rightarrow> time list) \<Rightarrow> SlidingWindow \<times> (key \<Rightarrow> time list)" where
  "sw_exec (RlCall now k) (sw, hist) =
     (case SlidingWindow_Allow now k sw of ((ok, _), sw') \<Rightarrow> (sw', if ok then hist(k := hist k @ [now]) else hist))"
| "sw_exec (RlGc now) (sw, hist) = (SlidingWindow_gc now sw, hist)"

definition count_in :: "time \<Rightarrow> duration \<Rightarrow> time list \<Rightarrow> int" where
  "count_in t w ts = int (length (filter (\<lambda>x. t \<le> x \<and> x \<le> t + w) ts))"

text \<open>From the instant \<open>T\<close> on, the stored hits and the log agree on the window.\<close>

definition sw_tracks :: "duration \<Rightarrow> int \<Rightarrow> time \<Rightarrow> time list \<Rightarrow> time list \<Rightarrow> bool" where
  "sw_tracks w limit T hits ts \<longleftrightarrow> sorted hits \<and> (\<forall>x\<in>set ts. x \<le> T) \<and> filter (\<lambda>x. T - w \<le> x) ts = filter (\<lambda>x. T - w \<le> x) hits
     \<and> (\<forall>t. count_in t w ts \<le> limit)"

lemma sw_tracks_later:
  assumes "sw_tracks w limit T hits ts" "T \<le> T'"
  shows "sw_tracks w limit T' hits ts"
proof -
  have "filter (\<lambda>x. T' - w \<le> x) xs = filter (\<lambda>x. T' - w \<le> x) (filter (\<lambda>x. T - w \<le> x) xs)" for xs
    using assms(2) by (auto intro: filter_cong)
  then have "filter (\<lambda>x. T' - w \<le> x) ts = filter (\<lambda>x. T' - w \<le> x) hits" using assms(1) unfolding sw_tracks_def by metis
  then show ?thesis using assms by (auto simp: sw_tracks_def)
qed

lemma dropWhile_sorted: "sorted xs \<Longrightarrow> dropWhile (\<lambda>x. x < c) xs = filter (\<lambda>x. c \<le> x) (xs :: int list)"
  by (induction xs) (auto intro!: filter_True [symmetric])

lemma sw_tracks_window:
  assumes "sw_tracks w limit T hits ts" "T \<le> now"
  shows "int (length (dropWhile (\<lambda>h. h < now - w) hits)) = count_in (now - w) w ts"
proof -
  note tr = sw_tracks_later [OF assms]
  have "dropWhile (\<lambda>h. h < now - w) hits = filter (\<lambda>x. now - w \<le> x) ts" using tr dropWhile_sorted [of hits "now - w"] by (simp add: sw_tracks_def)
  also have "\<dots> = filter (\<lambda>x. now - w \<le> x \<and> x \<le> now - w + w) ts" by (rule filter_cong) (use tr in \<open>auto simp: sw_tracks_def\<close>)
  finally show ?thesis by (simp add: count_in_def)
qed

lemma sw_tracks_allow:
  assumes tr: "sw_tracks w limit T hits ts" and now: "T \<le> now" and w: "0 < w"
    and free: "int (length (dropWhile (\<lambda>h. h < now - w) hits)) < limit"
  shows "sw_tracks w limit now (dropWhile (\<lambda>h. h < now - w) hits @ [now]) (ts @ [now])"
proof -
  note t = sw_tracks_later [OF tr now]
  have drop: "dropWhile (\<lambda>h. h < now - w) hits = filter (\<lambda>x. now - w \<le> x) ts" using t dropWhile_sorted [of hits "now - w"] by (simp add: sw_tracks_def)
  have le: "\<forall>x\<in>set ts. x \<le> now" and so: "sorted hits" using t by (simp_all add: sw_tracks_def)
  have "count_in u w (ts @ [now]) \<le> limit" for u
  proof (cases "u \<le> now \<and> now \<le> u + w")
    case True
    have "length (filter (\<lambda>x. u \<le> x \<and> x \<le> u + w) ts) \<le> length (filter (\<lambda>x. now - w \<le> x) ts)"
      using True by (induction ts) auto
    then show ?thesis using True free by (simp add: count_in_def drop)
  next
    case False
    then show ?thesis using t by (auto simp: count_in_def sw_tracks_def)
  qed
  moreover have "sorted (filter (\<lambda>x. now - w \<le> x) ts @ [now])"
  proof -
    have "sorted (filter (\<lambda>x. now - w \<le> x) ts)" using so sorted_filter [of "\<lambda>x. x" hits "\<lambda>x. now - w \<le> x"] t by (simp add: sw_tracks_def)
    then show ?thesis using le by (simp add: sorted_append)
  qed
  ultimately show ?thesis using le w by (auto simp: sw_tracks_def drop)
qed

definition sw_inv :: "time \<Rightarrow> SlidingWindow \<times> (key \<Rightarrow> time list) \<Rightarrow> bool" where
  "sw_inv T x = (case x of (sw, hist) \<Rightarrow> \<forall>k. sw_tracks (sw_window sw) (sw_limit sw) T (sw_hits sw k) (hist k))"

lemma sw_exec_conf:
  assumes "sw_exec e x = y"
  shows "sw_window (fst y) = sw_window (fst x) \<and> sw_limit (fst y) = sw_limit (fst x) \<and> sw_maxIdle (fst y) = sw_maxIdle (fst x)"
  using assms by (cases e; cases x) (auto simp: SlidingWindow_Allow_def SlidingWindow_gc_def Let_def split: if_splits prod.splits)

lemma sorted_last: "sorted xs \<Longrightarrow> x \<in> set xs \<Longrightarrow> x \<le> (last xs :: int)"
  by (cases xs rule: rev_cases) (auto simp: sorted_append)

lemma gc_tracks:
  assumes tr: "sw_tracks (sw_window sw) (sw_limit sw) T (sw_hits sw k) ts" and T: "T \<le> now" and idle: "sw_window sw \<le> sw_maxIdle sw"
  shows "sw_tracks (sw_window sw) (sw_limit sw) now (sw_hits (SlidingWindow_gc now sw) k) ts"
proof -
  note t = sw_tracks_later [OF tr T]
  show ?thesis
  proof (cases "sw_hits (SlidingWindow_gc now sw) k = sw_hits sw k")
    case False
    then obtain hits where h: "sw_wins sw k = Some hits" "last hits < now - sw_maxIdle sw" "hits \<noteq> []"
      by (auto simp: sw_hits_def SlidingWindow_gc_def split: option.splits if_splits)
    have "x \<le> last hits" if "x \<in> set hits" for x using t that h(1) by (intro sorted_last) (simp_all add: sw_tracks_def sw_hits_def)
    then have "filter (\<lambda>x. now - sw_window sw \<le> x) hits = []" using h(2) idle by (fastforce simp: filter_empty_conv)
    then show ?thesis using t h by (simp add: sw_tracks_def sw_hits_def SlidingWindow_gc_def)
  qed (use t in simp)
qed

lemma sw_inv_exec:
  assumes inv: "sw_inv T (sw, hist)" and T: "T \<le> ev_time e" and on: "0 < sw_limit sw" "0 < sw_window sw" and idle: "sw_window sw \<le> sw_maxIdle sw"
  shows "sw_inv (ev_time e) (sw_exec e (sw, hist))"
proof (cases e)
  case (RlGc now)
  have "sw_window (SlidingWindow_gc now sw) = sw_window sw" "sw_limit (SlidingWindow_gc now sw) = sw_limit sw" by (simp_all add: SlidingWindow_gc_def)
  then show ?thesis using inv T by (auto simp: sw_inv_def RlGc intro!: gc_tracks [OF _ _ idle])
next
  case (RlCall now k)
  let ?w = "sw_window sw" let ?h = "dropWhile (\<lambda>h. h < now - sw_window sw) (sw_hits sw k)"
  have tr: "sw_tracks ?w (sw_limit sw) T (sw_hits sw k') (hist k')" for k' using inv by (simp add: sw_inv_def)
  have T': "T \<le> now" using T by (simp add: RlCall)
  show ?thesis
  proof (cases "int (length ?h) < sw_limit sw")
    case True
    then have "SlidingWindow_Allow now k sw = ((True, 0), sw\<lparr>sw_wins := (sw_wins sw)(k \<mapsto> ?h @ [now])\<rparr>)" using on by (simp add: SlidingWindow_Allow_def)
    then show ?thesis using sw_tracks_allow [OF tr T' on(2) True] sw_tracks_later [OF tr T'] by (auto simp: sw_inv_def RlCall sw_hits_def)
  next
    case False
    then have al: "SlidingWindow_Allow now k sw = ((False, max (?h ! 0 + ?w - now) 0), sw\<lparr>sw_wins := (sw_wins sw)(k \<mapsto> ?h)\<rparr>)" using on by (simp add: SlidingWindow_Allow_def Let_def)
    have "sw_tracks ?w (sw_limit sw) now ?h (hist k)"
      using sw_tracks_later [OF tr [of k] T'] dropWhile_sorted [of "sw_hits sw k" "now - ?w"] sorted_filter [of "\<lambda>x. x" "sw_hits sw k" "\<lambda>x. now - ?w \<le> x"]
      by (simp add: sw_tracks_def)
    then show ?thesis using al sw_tracks_later [OF tr T'] by (auto simp: sw_inv_def RlCall sw_hits_def)
  qed
qed

lemma sw_inv_run:
  assumes "sw_inv T x" "sorted (T # map ev_time es)" "0 < sw_limit (fst x)" "0 < sw_window (fst x)" "sw_window (fst x) \<le> sw_maxIdle (fst x)"
  shows "\<exists>T'. T' \<in> set (T # map ev_time es) \<and> sw_inv T' (foldl (\<lambda>x e. sw_exec e x) x es)
    \<and> sw_limit (fst (foldl (\<lambda>x e. sw_exec e x) x es)) = sw_limit (fst x) \<and> sw_window (fst (foldl (\<lambda>x e. sw_exec e x) x es)) = sw_window (fst x)"
  using assms
proof (induction es arbitrary: T x)
  case (Cons e es)
  obtain sw hist where x: "x = (sw, hist)" by force
  have "sw_inv (ev_time e) (sw_exec e x)" using sw_inv_exec [of T sw hist e] Cons.prems by (simp add: x)
  then have "\<exists>T'. T' \<in> set (ev_time e # map ev_time es) \<and> sw_inv T' (foldl (\<lambda>x e. sw_exec e x) (sw_exec e x) es)
    \<and> sw_limit (fst (foldl (\<lambda>x e. sw_exec e x) (sw_exec e x) es)) = sw_limit (fst (sw_exec e x))
    \<and> sw_window (fst (foldl (\<lambda>x e. sw_exec e x) (sw_exec e x) es)) = sw_window (fst (sw_exec e x))"
    by (rule Cons.IH) (use Cons.prems sw_exec_conf [of e x] in simp_all)
  then show ?case using sw_exec_conf [of e x] by auto
qed auto

text \<open>The advice of a refusal is one nanosecond short: at the advised instant the oldest hit still counts.\<close>

lemma SlidingWindow_retry_short:
  assumes "SlidingWindow_Allow now k sw = ((False, r), sw')" "sorted (sw_hits sw k)" "r \<noteq> 0"
  shows "\<not> fst (fst (SlidingWindow_Allow (now + r) k sw'))"
proof -
  let ?w = "sw_window sw" let ?h = "dropWhile (\<lambda>h. h < now - sw_window sw) (sw_hits sw k)"
  have on: "0 < sw_limit sw" "0 < ?w" and full: "\<not> int (length ?h) < sw_limit sw" and r: "r = max (?h ! 0 + ?w - now) 0"
    and sw': "sw_limit sw' = sw_limit sw" "sw_window sw' = ?w" "sw_hits sw' k = ?h"
    using assms(1) by (auto simp: SlidingWindow_Allow_def Let_def sw_hits_def split: if_splits)
  have "0 < int (length ?h)" using full on(1) by linarith
  then have ne: "?h \<noteq> []" by (metis length_greater_0_conv of_nat_0_less_iff)
  have "now + r - ?w = ?h ! 0" using r assms(3) by (simp add: max_def split: if_splits)
  then have "dropWhile (\<lambda>h. h < now + r - ?w) ?h = ?h" using ne by (cases ?h) simp_all
  then show ?thesis using full on by (simp add: SlidingWindow_Allow_def Let_def sw')
qed

text \<open>When keys are dropped earlier than the window ends, the limit does not hold: with a limit of one per ten time units and
  an idle time of two, a clean-up lets the second request of the same window through.\<close>

lemma SlidingWindow_forgets:
  "snd (foldl (\<lambda>x e. sw_exec e x) (NewSlidingWindow 1 10 [WithMaxIdle 2], \<lambda>_. []) [RlCall 0 ''k'', RlGc 5, RlCall 6 ''k'']) ''k'' = [0, 6]"
  by (simp add: NewSlidingWindow_def rl_configure_def SlidingWindow_Allow_def SlidingWindow_gc_def sw_hits_def Let_def)

section \<open>The cell rate algorithm spaces requests\<close>

fun gr_exec :: "rl_event \<Rightarrow> GCRA \<times> (key \<Rightarrow> time list) \<Rightarrow> GCRA \<times> (key \<Rightarrow> time list)" where
  "gr_exec (RlCall now k) (g, hist) =
     (case GCRA_Allow now k g of ((ok, _), g') \<Rightarrow> (g', if ok then hist(k := hist k @ [now]) else hist))"
| "gr_exec (RlGc now) (g, hist) = (GCRA_gc now g, hist)"

text \<open>The theoretical arrival time is ahead of every request by an emission interval for each one since; with the
  requests before \<open>j\<close> that gives the spacing.\<close>

definition gr_tracks :: "duration \<Rightarrow> duration \<Rightarrow> time \<Rightarrow> time option \<Rightarrow> time list \<Rightarrow> bool" where
  "gr_tracks e tol T tat ts \<longleftrightarrow>
     (\<forall>i<length ts. ts ! i + int (length ts - i) * e \<le> (case tat of None \<Rightarrow> T | Some t \<Rightarrow> max T t))
     \<and> (\<forall>j<length ts. \<forall>i\<le>j. int (j - i + 1) * e \<le> ts ! j - ts ! i + tol)"

lemma gr_tracks_later: "gr_tracks e tol T tat ts \<Longrightarrow> T \<le> T' \<Longrightarrow> gr_tracks e tol T' tat ts"
  unfolding gr_tracks_def by (cases tat) force+

lemma gr_tracks_allow:
  assumes tr: "gr_tracks e tol T tat ts" and T: "T \<le> now" and e: "0 < e"
    and new: "new = (case tat of None \<Rightarrow> now | Some t \<Rightarrow> if t < now then now else t) + e" and ok: "new - tol \<le> now"
  shows "gr_tracks e tol now (Some new) (ts @ [now])"
proof -
  have bound: "ts ! i + int (length ts - i) * e \<le> new - e" if "i < length ts" for i
    using tr T new that by (cases tat) (force simp: gr_tracks_def)+
  have now: "now \<le> new - e" using new by (simp split: option.splits if_splits)
  have a: "(ts @ [now]) ! i + int (length (ts @ [now]) - i) * e \<le> new" if "i < length (ts @ [now])" for i
  proof (cases "i = length ts")
    case False
    then have i: "i < length ts" using that by simp
    then have "int (Suc (length ts) - i) = int (length ts - i) + 1" by simp
    then show ?thesis using bound [OF i] i by (simp add: nth_append algebra_simps)
  qed (use now in simp)
  have b: "int (j - i + 1) * e \<le> (ts @ [now]) ! j - (ts @ [now]) ! i + tol" if "j < length (ts @ [now])" "i \<le> j" for i j
  proof (cases "j = length ts")
    case True
    have "length (ts @ [now]) - i = j - i + 1" using True that by simp
    then have "(ts @ [now]) ! i + int (j - i + 1) * e \<le> new" using a [of i] that True by simp
    then show ?thesis using ok True by simp
  next
    case False
    then have "j < length ts" "i < length ts" using that by auto
    then show ?thesis using tr that(2) by (simp add: gr_tracks_def nth_append)
  qed
  have "\<forall>i<length (ts @ [now]). (ts @ [now]) ! i + int (length (ts @ [now]) - i) * e \<le> max now new" using a by fastforce
  then show ?thesis using b by (simp only: gr_tracks_def option.simps) blast
qed

definition gr_inv :: "time \<Rightarrow> GCRA \<times> (key \<Rightarrow> time list) \<Rightarrow> bool" where
  "gr_inv T x = (case x of (g, hist) \<Rightarrow> \<forall>k. gr_tracks (gr_emission g) (gr_tolerance g) T (gr_tats g k) (hist k))"

lemma gr_inv_exec:
  assumes inv: "gr_inv T (g, hist)" and T: "T \<le> ev_time ev" and on: "0 < gr_emission g" and idle: "0 \<le> gr_maxIdle g"
  shows "gr_inv (ev_time ev) (gr_exec ev (g, hist))"
proof (cases ev)
  case (RlGc now)
  have "gr_tracks (gr_emission g) (gr_tolerance g) now (gr_tats (GCRA_gc now g) k) (hist k)" for k
  proof -
    have "gr_tracks (gr_emission g) (gr_tolerance g) now (gr_tats g k) (hist k)"
      by (rule gr_tracks_later [of _ _ T]) (use inv T in \<open>simp_all add: gr_inv_def RlGc\<close>)
    then show ?thesis using idle by (cases "gr_tats g k") (force simp: GCRA_gc_def gr_tracks_def)+
  qed
  then show ?thesis by (simp add: gr_inv_def RlGc GCRA_gc_def)
next
  case (RlCall now k)
  let ?new = "gr_tat g now k + gr_emission g"
  have tr: "gr_tracks (gr_emission g) (gr_tolerance g) T (gr_tats g k') (hist k')" for k' using inv by (simp add: gr_inv_def)
  have T': "T \<le> now" using T by (simp add: RlCall)
  show ?thesis
  proof (cases "now < ?new - gr_tolerance g")
    case True
    then show ?thesis using on gr_tracks_later [OF tr T'] by (simp add: gr_inv_def RlCall GCRA_Allow_def)
  next
    case False
    then have "gr_tracks (gr_emission g) (gr_tolerance g) now (Some ?new) (hist k @ [now])"
      by (intro gr_tracks_allow [OF tr T' on]) (simp_all add: gr_tat_def)
    then show ?thesis using False on gr_tracks_later [OF tr T'] by (auto simp: gr_inv_def RlCall GCRA_Allow_def)
  qed
qed

lemma gr_exec_conf:
  "gr_emission (fst (gr_exec ev x)) = gr_emission (fst x) \<and> gr_tolerance (fst (gr_exec ev x)) = gr_tolerance (fst x) \<and> gr_maxIdle (fst (gr_exec ev x)) = gr_maxIdle (fst x)"
  by (cases ev; cases x) (auto simp: GCRA_Allow_def GCRA_gc_def Let_def split: if_splits prod.splits)

lemma gr_inv_run:
  assumes "gr_inv T x" "sorted (T # map ev_time es)" "0 < gr_emission (fst x)" "0 \<le> gr_maxIdle (fst x)"
  shows "\<exists>T'. gr_inv T' (foldl (\<lambda>x e. gr_exec e x) x es)
    \<and> gr_emission (fst (foldl (\<lambda>x e. gr_exec e x) x es)) = gr_emission (fst x) \<and> gr_tolerance (fst (foldl (\<lambda>x e. gr_exec e x) x es)) = gr_tolerance (fst x)"
  using assms
proof (induction es arbitrary: T x)
  case (Cons ev es)
  obtain g hist where x: "x = (g, hist)" by force
  have "gr_inv (ev_time ev) (gr_exec ev x)" using gr_inv_exec [of T g hist ev] Cons.prems by (simp add: x)
  then have "\<exists>T'. gr_inv T' (foldl (\<lambda>x e. gr_exec e x) (gr_exec ev x) es)
    \<and> gr_emission (fst (foldl (\<lambda>x e. gr_exec e x) (gr_exec ev x) es)) = gr_emission (fst (gr_exec ev x))
    \<and> gr_tolerance (fst (foldl (\<lambda>x e. gr_exec e x) (gr_exec ev x) es)) = gr_tolerance (fst (gr_exec ev x))"
    by (rule Cons.IH) (use Cons.prems gr_exec_conf [of ev x] in simp_all)
  then show ?case using gr_exec_conf [of ev x] by auto
qed auto

section \<open>Token bucket and retry budget\<close>

text \<open>With any monotone rounding that is exact on zero and on the capacity, a bucket stays between empty and full.\<close>

lemma bucket_bounds:
  assumes "mono rnd" "rnd 0 = 0" "rnd burst = burst" "0 \<le> bk_tokens b" "0 \<le> rate" "0 < burst"
    and "bucket_take rnd secs dur burst rate now b = (r, b')"
  shows "0 \<le> bk_tokens b' \<and> bk_tokens b' \<le> burst"
proof -
  let ?e = "if secs (now - bk_last b) < 0 then 0 else secs (now - bk_last b)"
  let ?t = "rnd (bk_tokens b + rnd (?e * rate))"
  have lo: "rnd x \<ge> 0" if "x \<ge> 0" for x using monoD [OF assms(1) that] assms(2) by simp
  have hi: "rnd x \<le> burst" if "x \<le> burst" for x using monoD [OF assms(1) that] assms(3) by simp
  have "0 \<le> rnd (?e * rate)" by (rule lo) (use assms(5) in simp)
  then have "0 \<le> ?t" using assms(4) by (intro lo) simp
  then show ?thesis using assms(6,7) lo hi by (auto simp: bucket_take_def Let_def split: if_splits)
qed

definition exact_secs :: "duration \<Rightarrow> rat" where
  "exact_secs d = of_int d / of_int second"

text \<open>In exact arithmetic a bucket gives out no more than it had and was refilled with.\<close>

lemma bucket_balance:
  assumes "bucket_take (\<lambda>x. x) exact_secs dur burst rate now b = ((ok, d), b')" "bk_last b \<le> now" "0 \<le> rate"
  shows "bk_tokens b' + (if ok then 1 else 0) \<le> bk_tokens b + rate * exact_secs (now - bk_last b) \<and> bk_last b' = now"
proof -
  have "0 \<le> exact_secs (now - bk_last b)" using assms(2) by (simp add: exact_secs_def second_def)
  then show ?thesis using assms(1) by (auto simp: bucket_take_def Let_def mult.commute split: if_splits)
qed

lemma exact_secs_add: "exact_secs (x + y) = exact_secs x + exact_secs y"
  by (simp add: exact_secs_def add_divide_distrib)

lemma bucket_rate:
  assumes "run_decide (bucket_take (\<lambda>x. x) exact_secs dur burst rate) ts b = (rs, b')" "sorted (bk_last b # ts)" "0 \<le> rate"
  shows "bk_tokens b' + of_nat (length (filter fst rs)) \<le> bk_tokens b + rate * exact_secs (last (bk_last b # ts) - bk_last b)"
  using assms
proof (induction ts arbitrary: b rs)
  case Nil
  then show ?case by (simp add: exact_secs_def)
next
  case (Cons now ts)
  obtain ok d b1 where b1: "bucket_take (\<lambda>x. x) exact_secs dur burst rate now b = ((ok, d), b1)" by (metis prod.exhaust)
  obtain rs1 where rs1: "run_decide (bucket_take (\<lambda>x. x) exact_secs dur burst rate) ts b1 = (rs1, b')" "rs = (ok, d) # rs1"
    using Cons.prems(1) b1 by (auto split: prod.splits)
  have "bk_last b \<le> now" using Cons.prems(2) by simp
  note s = bucket_balance [OF b1 this Cons.prems(3)]
  then have "sorted (bk_last b1 # ts)" using Cons.prems(2) by simp
  note IH = Cons.IH [OF rs1(1) this Cons.prems(3)]
  have "last (now # ts) - bk_last b = (last (now # ts) - now) + (now - bk_last b)" by simp
  then have "rate * exact_secs (last (now # ts) - bk_last b) = rate * exact_secs (last (now # ts) - now) + rate * exact_secs (now - bk_last b)"
    by (simp only: exact_secs_add distrib_left)
  moreover have "last (bk_last b # now # ts) = last (now # ts)" "bk_last b1 = now" using s by simp_all
  moreover have "of_nat (length (filter fst rs)) = (if ok then 1 else 0) + (of_nat (length (filter fst rs1)) :: rat)" by (simp add: rs1(2))
  ultimately show ?case using IH s by (simp only:) linarith
qed

text \<open>A sequence of retries asked for (\<open>True\<close>) and requests completed (\<open>False\<close>), with the number of retries granted.\<close>

fun rb_run :: "bool list \<Rightarrow> RetryBudget \<Rightarrow> nat \<times> RetryBudget" where
  "rb_run [] b = (0, b)"
| "rb_run (True # es) b = (case RetryBudget_Allow id b of (ok, b1) \<Rightarrow> (case rb_run es b1 of (n, b2) \<Rightarrow> (n + (if ok then 1 else 0), b2)))"
| "rb_run (False # es) b = rb_run es (RetryBudget_Deposit id b)"

lemma rb_run_balance:
  assumes "rb_run es b = (n, b')" "rb_threshold b - 1 < rb_tokens b" "rb_tokens b \<le> rb_max b" "0 \<le> rb_ratio b" "rb_threshold b \<le> rb_max b"
  shows "rb_threshold b - 1 < rb_tokens b' \<and> rb_tokens b' \<le> rb_max b \<and> rb_tokens b' + of_nat n \<le> rb_tokens b + rb_ratio b * of_nat (length (filter Not es))"
  using assms
proof (induction es arbitrary: b n)
  case (Cons e es)
  show ?case
  proof (cases e)
    case True
    obtain ok b1 where b1: "RetryBudget_Allow id b = (ok, b1)" by force
    obtain m where m: "rb_run es b1 = (m, b')" "n = m + (if ok then 1 else 0)" using Cons.prems(1) True b1 by (auto split: prod.splits)
    have "rb_threshold b1 = rb_threshold b" "rb_max b1 = rb_max b" "rb_ratio b1 = rb_ratio b" "rb_threshold b - 1 < rb_tokens b1"
        "rb_tokens b1 + (if ok then 1 else 0) = rb_tokens b"
      using b1 Cons.prems(2) by (auto simp: RetryBudget_Allow_def split: if_splits)
    then show ?thesis using Cons.IH [OF m(1)] Cons.prems(2-5) m(2) True by (auto split: if_splits)
  next
    case False
    let ?b = "RetryBudget_Deposit id b"
    have "rb_threshold ?b = rb_threshold b" "rb_max ?b = rb_max b" "rb_ratio ?b = rb_ratio b" "rb_threshold b - 1 < rb_tokens ?b"
        "rb_tokens ?b \<le> rb_max b" "rb_tokens ?b \<le> rb_tokens b + rb_ratio b"
      using Cons.prems(2-5) by (auto simp: RetryBudget_Deposit_def Let_def)
    then show ?thesis using Cons.IH [of ?b n] Cons.prems False by (simp add: distrib_left)
  qed
qed simp

lemma RetryBudget_bound:
  assumes "0 < maxTokens" "0 < ratio" "rb_run es (NewRetryBudget tenth maxTokens ratio) = (n, b)"
  shows "of_nat n < of_int maxTokens / 2 + 1 + ratio * of_nat (length (filter Not es))"
proof -
  have b: "NewRetryBudget tenth maxTokens ratio = \<lparr>rb_tokens = of_int maxTokens, rb_max = of_int maxTokens, rb_threshold = of_int maxTokens / 2, rb_ratio = ratio\<rparr>"
    using assms(1,2) by (simp add: NewRetryBudget_def Let_def)
  have "(0 :: rat) < of_int maxTokens" using assms(1) by simp
  then show ?thesis using rb_run_balance [OF assms(3)] assms(2) by (simp add: b)
qed

section \<open>Groups and addresses\<close>

text \<open>A call for one group uses that group's limiter, or a new one, and leaves the others alone.\<close>

lemma KeyedLimiter_Allow_groups:
  assumes "KeyedLimiter_Allow factory allow t0 now grp k kl = (r, kl')"
  shows "(\<exists>l'. allow now k (case map_of (kl_limiters kl) grp of Some (l, _) \<Rightarrow> l | None \<Rightarrow> factory grp) = (r, l') \<and> map_of (kl_limiters kl') grp = Some (l', t0))
    \<and> (g \<noteq> grp \<longrightarrow> map_of (kl_limiters kl') g = map_of (kl_limiters kl) g)"
  using assms by (auto simp: KeyedLimiter_Allow_def KeyedLimiter_getOrCreate_def Let_def update_conv' split: prod.splits)

text \<open>Every client with an IPv6 address and no header has the same key.\<close>

lemma ClientIP_ipv6: "ClientIP [] (''['' @ addr) = ''['' \<or> hd addr \<noteq> CHR '':''"
  by (cases addr) (auto simp: ClientIP_def)

lemma ClientIP_loopback6: "ClientIP [] ''[::1]:8080'' = ''[''"
  by (simp add: ClientIP_def)

section \<open>Properties\<close>

text \<open>The sliding window is exact. After any history of requests of any keys and clean-ups, in the order of their times, a
  request is allowed if and only if fewer than \<open>limit\<close> requests of its key were allowed in the closed window
  that ends now; so no window of that length ever holds more than \<open>limit\<close> of them. This needs an idle time of
  at least the window, else the clean-up drops records that still count.\<close>

theorem SlidingWindow_exact:
  assumes "0 < limit" "0 < window" "window \<le> rc_maxIdle (rl_configure opts)" "sorted (map ev_time es @ [now])"
    and "foldl (\<lambda>x e. sw_exec e x) (NewSlidingWindow limit window opts, \<lambda>_. []) es = (sw, hist)"
  shows "(fst (fst (SlidingWindow_Allow now k sw)) \<longleftrightarrow> count_in (now - window) window (hist k) < limit) \<and> (\<forall>t. count_in t window (hist k) \<le> limit)"
proof -
  let ?x = "(NewSlidingWindow limit window opts, \<lambda>_ :: key. [] :: time list)"
  define T where "T = hd (map ev_time es @ [now])"
  have le: "\<forall>t\<in>set (map ev_time es @ [now]). T \<le> t" using assms(4) unfolding T_def by (cases "map ev_time es @ [now]") auto
  have cf: "sw_limit (fst ?x) = limit" "sw_window (fst ?x) = window" "sw_maxIdle (fst ?x) = rc_maxIdle (rl_configure opts)" "sw_hits (fst ?x) k' = []" for k'
    by (simp_all add: NewSlidingWindow_def Let_def sw_hits_def)
  have "sw_inv T ?x" using assms(1) cf by (simp add: sw_inv_def sw_tracks_def count_in_def)
  moreover have "sorted (T # map ev_time es)" using assms(4) le by (auto simp: sorted_append)
  ultimately obtain T' where T': "T' \<in> set (T # map ev_time es)" "sw_inv T' (sw, hist)" "sw_limit sw = limit" "sw_window sw = window"
    using sw_inv_run [of T ?x es] assms(1-3,5) cf by auto
  have "T \<le> now" using le by simp
  then have "T' \<le> now" using T'(1) assms(4) by (auto simp: sorted_append)
  moreover have tr: "sw_tracks window limit T' (sw_hits sw k) (hist k)" using T'(2-4) by (simp add: sw_inv_def)
  ultimately have "int (length (dropWhile (\<lambda>h. h < now - window) (sw_hits sw k))) = count_in (now - window) window (hist k)" by (rule sw_tracks_window [rotated])
  then show ?thesis using tr assms(1,2) T'(3,4) by (simp add: SlidingWindow_Allow_def Let_def sw_tracks_def)
qed

theorem SlidingWindow_exact_witness:
  "fst (fst (SlidingWindow_Allow 11 ''k'' (fst (foldl (\<lambda>x e. sw_exec e x) (NewSlidingWindow 2 10 [], \<lambda>_. []) [RlCall 0 ''k'', RlCall 5 ''k'', RlCall 6 ''k'', RlGc 7]))))"
proof -
  let ?es = "[RlCall 0 ''k'', RlCall 5 ''k'', RlCall 6 ''k'', RlGc 7]"
  obtain sw hist where x: "foldl (\<lambda>x e. sw_exec e x) (NewSlidingWindow 2 10 [], \<lambda>_. []) ?es = (sw, hist)" by force
  have "snd (foldl (\<lambda>x e. sw_exec e x) (NewSlidingWindow 2 10 [], \<lambda>_. []) ?es) ''k'' = [0, 5]" by code_simp
  then have "hist ''k'' = [0, 5]" using x by simp
  moreover have "(10 :: duration) \<le> rc_maxIdle (rl_configure [])" by (simp add: rl_configure_def second_def)
  ultimately show ?thesis using SlidingWindow_exact [OF _ _ _ _ x, of 11 "''k''"] x by (simp add: count_in_def)
qed

text \<open>The cell rate algorithm keeps the rate. After any history of requests and clean-ups in the order of their times, among
  the requests of a key that were allowed, any \<open>n\<close> successive ones take at least \<open>n - burst\<close> emission intervals;
  and a refusal changes nothing and names the first instant at which the request would be allowed.\<close>

theorem GCRA_rate:
  assumes "0 < emissionOf rate" "0 < rate" "0 < burst" "in_i64 (burst * emissionOf rate)" "0 \<le> rc_maxIdle (rl_configure opts)" "sorted (map ev_time es)"
    and "foldl (\<lambda>x e. gr_exec e x) (NewGCRA emissionOf rate burst opts, \<lambda>_. []) es = (g, hist)"
  shows "(\<forall>i j. i \<le> j \<and> j < length (hist k) \<longrightarrow> (int (j - i + 1) - burst) * emissionOf rate \<le> hist k ! j - hist k ! i)
    \<and> (\<forall>now r g'. GCRA_Allow now k g = ((False, r), g') \<longrightarrow>
         g' = g \<and> 0 < r \<and> (\<forall>t\<ge>now. fst (fst (GCRA_Allow t k g)) \<longleftrightarrow> now + r \<le> t))"
proof -
  let ?x = "(NewGCRA emissionOf rate burst opts, \<lambda>_ :: key. [] :: time list)" and ?e = "emissionOf rate"
  have cf: "gr_emission (fst ?x) = ?e" "gr_tolerance (fst ?x) = burst * ?e" "gr_maxIdle (fst ?x) = rc_maxIdle (rl_configure opts)" "gr_tats (fst ?x) k' = None" for k'
    using assms(2-4) by (simp_all add: NewGCRA_def Let_def)
  define T where "T = (if es = [] then 0 else ev_time (hd es))"
  have "sorted (T # map ev_time es)" using assms(6) by (cases es) (auto simp: T_def)
  moreover have "gr_inv T ?x" by (simp add: gr_inv_def gr_tracks_def)
  ultimately obtain T' where T': "gr_inv T' (g, hist)" "gr_emission g = ?e" "gr_tolerance g = burst * ?e"
    using gr_inv_run [of T ?x es] assms(1,5,7) cf by auto
  have "int (j - i + 1) * ?e \<le> hist k ! j - hist k ! i + burst * ?e" if "i \<le> j \<and> j < length (hist k)" for i j
    using T' that by (simp add: gr_inv_def gr_tracks_def)
  then have 1: "\<forall>i j. i \<le> j \<and> j < length (hist k) \<longrightarrow> (int (j - i + 1) - burst) * ?e \<le> hist k ! j - hist k ! i"
    by (simp only: left_diff_distrib) force
  have tol: "?e \<le> gr_tolerance g" using T'(3) assms(1,3) by simp
  have 2: "g' = g \<and> 0 < r \<and> (\<forall>t\<ge>now. fst (fst (GCRA_Allow t k g)) \<longleftrightarrow> now + r \<le> t)" if "GCRA_Allow now k g = ((False, r), g')" for now r g'
  proof -
    have den: "now < gr_tat g now k + ?e - gr_tolerance g" "r = gr_tat g now k + ?e - gr_tolerance g - now" "g' = g"
      using that assms(1) T'(2) by (auto simp: GCRA_Allow_def Let_def split: if_splits)
    then have "gr_tat g now k \<noteq> now" using tol by auto
    then obtain tat where tat: "gr_tats g k = Some tat" "now < tat" "gr_tat g now k = tat" by (auto simp: gr_tat_def split: option.splits if_splits)
    have "fst (fst (GCRA_Allow t k g)) \<longleftrightarrow> now + r \<le> t" if "now \<le> t" for t
      using assms(1) T'(2) tol den(2) tat by (auto simp: GCRA_Allow_def Let_def gr_tat_def)
    then show ?thesis using den by simp
  qed
  show ?thesis using 1 2 by blast
qed

theorem GCRA_rate_witness:
  "case foldl (\<lambda>x e. gr_exec e x) (NewGCRA (\<lambda>_. 10) 1 2 [], \<lambda>_. []) [RlCall 0 ''k'', RlCall 0 ''k'', RlCall 3 ''k'', RlCall 10 ''k'', RlGc 12] of
     (g, hist) \<Rightarrow> hist ''k'' = [0, 0, 10] \<and> (int (2 - 0 + 1) - 2) * 10 \<le> hist ''k'' ! 2 - hist ''k'' ! 0"
proof -
  let ?es = "[RlCall 0 ''k'', RlCall 0 ''k'', RlCall 3 ''k'', RlCall 10 ''k'', RlGc 12]"
  obtain g hist where x: "foldl (\<lambda>x e. gr_exec e x) (NewGCRA (\<lambda>_. 10) 1 2 [], \<lambda>_. []) ?es = (g, hist)" by force
  have "snd (foldl (\<lambda>x e. gr_exec e x) (NewGCRA (\<lambda>_. 10) 1 2 [], \<lambda>_. []) ?es) ''k'' = [0, 0, 10]" by code_simp
  then have h: "hist ''k'' = [0, 0, 10]" using x by simp
  have "0 \<le> rc_maxIdle (rl_configure [])" by (simp add: rl_configure_def second_def)
  then have "\<forall>i j. i \<le> j \<and> j < length (hist ''k'') \<longrightarrow> (int (j - i + 1) - 2) * 10 \<le> hist ''k'' ! j - hist ''k'' ! i"
    using GCRA_rate [OF _ _ _ _ _ _ x, of "''k''", THEN conjunct1] by (simp add: in_i64_def)
  from this [THEN spec, of 0, THEN spec, of 2] show ?thesis unfolding x using h by simp
qed

end
