(* ===== verification/Party.thy ===== *)
theory Party
  imports Prelude
begin

text \<open>
  \<open>pkg/domain/party\<close>: a small group with one leader, join requests that hold a seat, and a capacity. Every method runs
  under the party's mutex and is one step. The members are an association list, whose order stands for the
  order in which Go visits the map; the calls of \<open>onChange\<close> are the snapshots an operation returns.
\<close>

section \<open>The party\<close>

record Member =
  mb_UserID :: key
  mb_SessionID :: string
  mb_Username :: string

record JoinRequest =
  jr_Member :: Member
  jr_Reserved :: bool

record Party =
  pa_id :: key
  pa_leader :: Member
  pa_members :: "(key \<times> Member) list"
  pa_joinOrder :: "key list"
  pa_requests :: "JoinRequest list"
  pa_open :: bool
  pa_maxSize :: int
  pa_reserved :: int
  pa_onChange :: bool
  pa_stopped :: bool

record Snapshot =
  sn_ID :: key
  sn_LeaderID :: key
  sn_Members :: "Member list"
  sn_JoinRequests :: "JoinRequest list"
  sn_Open :: bool
  sn_MaxSize :: int

datatype party_err = PartyFull | NotLeader | AlreadyMember | PartyStopped | AlreadyRequested | NoSuchRequest | NoSuchMember

datatype party_option = WithOpen bool | WithMaxSize int

fun party_apply :: "party_option \<Rightarrow> bool \<times> int \<Rightarrow> bool \<times> int" where
  "party_apply (WithOpen b) c = (b, snd c)"
| "party_apply (WithMaxSize n) c = (fst c, n)"

definition Party_New :: "key \<Rightarrow> Member \<Rightarrow> bool \<Rightarrow> party_option list \<Rightarrow> Party" where
  "Party_New i leader onChange opts =
     (let c = foldl (\<lambda>c o'. party_apply o' c) (False, 0) opts
      in \<lparr>pa_id = i, pa_leader = leader, pa_members = [(mb_UserID leader, leader)], pa_joinOrder = [mb_UserID leader], pa_requests = [],
          pa_open = fst c, pa_maxSize = snd c, pa_reserved = 0, pa_onChange = onChange, pa_stopped = False\<rparr>)"

definition Party_snapshotLocked :: "Party \<Rightarrow> Snapshot" where
  "Party_snapshotLocked p = \<lparr>sn_ID = pa_id p, sn_LeaderID = mb_UserID (pa_leader p), sn_Members = map snd (pa_members p),
     sn_JoinRequests = pa_requests p, sn_Open = pa_open p, sn_MaxSize = pa_maxSize p\<rparr>"

definition Party_notifyLocked :: "Party \<Rightarrow> Snapshot list" where
  "Party_notifyLocked p = (if pa_onChange p then [Party_snapshotLocked p] else [])"

definition Party_canAddLocked :: "Party \<Rightarrow> party_err option" where
  "Party_canAddLocked p =
     (if pa_maxSize p \<le> 0 then None
      else if pa_maxSize p \<le> int (length (pa_members p)) + pa_reserved p then Some PartyFull else None)"

definition party_join :: "Member \<Rightarrow> Party \<Rightarrow> Party" where
  "party_join m p = p\<lparr>pa_members := AList.update (mb_UserID m) m (pa_members p), pa_joinOrder := pa_joinOrder p @ [mb_UserID m]\<rparr>"

type_synonym party_result = "party_err option \<times> Snapshot list \<times> Party"

definition party_ok :: "Party \<Rightarrow> party_result" where
  "party_ok p = (None, Party_notifyLocked p, p)"

definition party_fail :: "party_err \<Rightarrow> Party \<Rightarrow> party_result" where
  "party_fail e p = (Some e, [], p)"

definition Party_RequestJoin :: "Member \<Rightarrow> Party \<Rightarrow> party_result" where
  "Party_RequestJoin m p =
     (if pa_stopped p then party_fail PartyStopped p
      else if map_of (pa_members p) (mb_UserID m) \<noteq> None then party_fail AlreadyMember p
      else if pa_open p then
        (case Party_canAddLocked p of Some e \<Rightarrow> party_fail e p | None \<Rightarrow> party_ok (party_join m p))
      else case Party_canAddLocked p of
             Some e \<Rightarrow> party_fail e p
           | None \<Rightarrow>
               if \<exists>r\<in>set (pa_requests p). mb_UserID (jr_Member r) = mb_UserID m then party_fail AlreadyRequested p
               else party_ok (p\<lparr>pa_requests := pa_requests p @ [\<lparr>jr_Member = m, jr_Reserved = True\<rparr>], pa_reserved := pa_reserved p + 1\<rparr>))"

text \<open>The first request of a user, and the list without it.\<close>

fun take_request :: "key \<Rightarrow> JoinRequest list \<Rightarrow> (JoinRequest \<times> JoinRequest list) option" where
  "take_request u [] = None"
| "take_request u (r # rs) = (if mb_UserID (jr_Member r) = u then Some (r, rs) else map_option (\<lambda>(x, xs). (x, r # xs)) (take_request u rs))"

definition Party_Accept :: "key \<Rightarrow> key \<Rightarrow> Party \<Rightarrow> party_result" where
  "Party_Accept leaderID userID p =
     (if leaderID \<noteq> mb_UserID (pa_leader p) then party_fail NotLeader p
      else case take_request userID (pa_requests p) of
             None \<Rightarrow> party_fail NoSuchRequest p
           | Some (r, rest) \<Rightarrow>
               party_ok (party_join (jr_Member r) (p\<lparr>pa_requests := rest, pa_reserved := (if jr_Reserved r then pa_reserved p - 1 else pa_reserved p)\<rparr>)))"

definition Party_removeJoinOrderLocked :: "key \<Rightarrow> Party \<Rightarrow> Party" where
  "Party_removeJoinOrderLocked u p = p\<lparr>pa_joinOrder := remove1 u (pa_joinOrder p)\<rparr>"

text \<open>The succession: the first of the join order who is still a member.\<close>

definition party_succeed :: "Party \<Rightarrow> Party" where
  "party_succeed p =
     (let p1 = (case List.find (\<lambda>u. map_of (pa_members p) u \<noteq> None) (pa_joinOrder p) of
                  None \<Rightarrow> p
                | Some u \<Rightarrow> p\<lparr>pa_leader := the (map_of (pa_members p) u)\<rparr>)
      in if length (pa_members p1) = 0 then p1\<lparr>pa_stopped := True\<rparr> else p1)"

definition Party_Remove :: "key \<Rightarrow> key \<Rightarrow> Party \<Rightarrow> party_result" where
  "Party_Remove leaderID userID p =
     (if leaderID \<noteq> userID \<and> leaderID \<noteq> mb_UserID (pa_leader p) then party_fail NotLeader p
      else if map_of (pa_members p) userID = None then party_fail NoSuchMember p
      else let p1 = Party_removeJoinOrderLocked userID (p\<lparr>pa_members := AList.delete userID (pa_members p)\<rparr>)
           in party_ok (if userID = mb_UserID (pa_leader p) then party_succeed p1 else p1))"

definition Party_Promote :: "key \<Rightarrow> key \<Rightarrow> Party \<Rightarrow> party_result" where
  "Party_Promote leaderID newLeaderID p =
     (if leaderID \<noteq> mb_UserID (pa_leader p) then party_fail NotLeader p
      else case map_of (pa_members p) newLeaderID of
             None \<Rightarrow> party_fail NoSuchMember p
           | Some m \<Rightarrow> party_ok (p\<lparr>pa_leader := m\<rparr>))"

definition Party_Snapshot :: "Party \<Rightarrow> Snapshot" where
  "Party_Snapshot p = Party_snapshotLocked p"

definition Party_Members :: "Party \<Rightarrow> Member list" where
  "Party_Members p = map snd (pa_members p)"

definition Party_LeaderID :: "Party \<Rightarrow> key" where
  "Party_LeaderID p = mb_UserID (pa_leader p)"

definition Party_Stopped :: "Party \<Rightarrow> bool" where
  "Party_Stopped p = pa_stopped p"

definition Party_Count :: "Party \<Rightarrow> nat" where
  "Party_Count p = length (pa_members p)"

section \<open>The invariant\<close>

definition user_of :: "JoinRequest \<Rightarrow> key" where
  "user_of r = mb_UserID (jr_Member r)"

text \<open>What holds in every state: members under their own names, in join order, each request with its seat, and room for all.\<close>

definition seats_ok :: "Party \<Rightarrow> bool" where
  "seats_ok p \<longleftrightarrow> distinct (map fst (pa_members p)) \<and> (\<forall>(u, m)\<in>set (pa_members p). mb_UserID m = u)
     \<and> distinct (pa_joinOrder p) \<and> set (pa_joinOrder p) = fst ` set (pa_members p)
     \<and> distinct (map user_of (pa_requests p)) \<and> (\<forall>r\<in>set (pa_requests p). jr_Reserved r \<and> user_of r \<notin> fst ` set (pa_members p))
     \<and> pa_reserved p = int (length (pa_requests p))
     \<and> (0 < pa_maxSize p \<longrightarrow> int (length (pa_members p)) + pa_reserved p \<le> pa_maxSize p)"

text \<open>What holds as long as nobody was let into a party that had stopped.\<close>

definition led :: "Party \<Rightarrow> bool" where
  "led p \<longleftrightarrow> (if pa_stopped p then pa_members p = [] else map_of (pa_members p) (mb_UserID (pa_leader p)) = Some (pa_leader p))"

lemma take_request_Some:
  assumes "take_request u rs = Some (r, rest)"
  shows "user_of r = u \<and> (\<exists>xs ys. rs = xs @ r # ys \<and> rest = xs @ ys)"
  using assms
proof (induction rs arbitrary: rest)
  case (Cons q qs)
  show ?case
  proof (cases "mb_UserID (jr_Member q) = u")
    case True
    then show ?thesis using Cons.prems by (auto simp: user_of_def intro: exI [of _ "[]"])
  next
    case False
    then obtain rest' where "take_request u qs = Some (r, rest')" "rest = q # rest'" using Cons.prems by auto
    then show ?thesis using Cons.IH by (metis append_Cons)
  qed
qed simp

lemma length_update_new: "map_of xs k = None \<Longrightarrow> length (AList.update k v xs) = Suc (length xs)"
  by (induction xs) (auto split: if_splits)

lemma length_delete_member:
  assumes "distinct (map fst xs)" "k \<in> fst ` set xs"
  shows "Suc (length (AList.delete k xs)) = length xs"
proof -
  have "length (AList.delete k xs) = length (remove1 k (map fst xs))" using assms(1) by (metis delete_keys distinct_remove1_removeAll length_map)
  also have "\<dots> = length xs - 1" using assms(2) by (simp add: length_remove1)
  finally show ?thesis using assms(2) by (cases xs) auto
qed

lemma fst_update: "fst ` set (AList.update k v xs) = insert k (fst ` set xs)"
  by (simp add: dom_map_of_conv_image_fst [symmetric] update_conv')

lemma fst_delete: "fst ` set (AList.delete k xs) = fst ` set xs - {k}"
  by (simp add: dom_map_of_conv_image_fst [symmetric] delete_conv')

lemma members_update:
  assumes "distinct (map fst xs)" "\<forall>(u, m)\<in>set xs. mb_UserID m = u"
  shows "\<forall>(u, m')\<in>set (AList.update (mb_UserID m) m xs). mb_UserID m' = u"
  using assms by (induction xs) (auto split: if_splits)

lemma members_delete: "\<forall>(u, m)\<in>set xs. mb_UserID m = u \<Longrightarrow> \<forall>(u, m)\<in>set (AList.delete k xs). mb_UserID m = u"
  by (induction xs) auto

lemma seats_ok_join:
  assumes ok: "seats_ok p" and new: "mb_UserID m \<notin> fst ` set (pa_members p)" "\<forall>r\<in>set (pa_requests p). user_of r \<noteq> mb_UserID m"
    and room: "0 < pa_maxSize p \<longrightarrow> int (length (pa_members p)) + pa_reserved p < pa_maxSize p"
  shows "seats_ok (party_join m p)"
proof -
  have none: "map_of (pa_members p) (mb_UserID m) = None" using new(1) by (simp add: map_of_eq_None_iff)
  have d: "distinct (map fst (pa_members p))" "\<forall>(u, m)\<in>set (pa_members p). mb_UserID m = u" using ok by (auto simp: seats_ok_def)
  have len: "length (AList.update (mb_UserID m) m (pa_members p)) = Suc (length (pa_members p))" by (rule length_update_new [OF none])
  have j: "pa_members (party_join m p) = AList.update (mb_UserID m) m (pa_members p)" "pa_joinOrder (party_join m p) = pa_joinOrder p @ [mb_UserID m]"
    "pa_requests (party_join m p) = pa_requests p" "pa_reserved (party_join m p) = pa_reserved p" "pa_maxSize (party_join m p) = pa_maxSize p"
    by (simp_all add: party_join_def)
  show ?thesis unfolding seats_ok_def j len fst_update
    using ok new room distinct_update [OF d(1)] members_update [OF d] by (auto simp: seats_ok_def)
qed

lemma seats_ok_request:
  assumes ok: "seats_ok p" and new: "mb_UserID m \<notin> fst ` set (pa_members p)" "\<forall>r\<in>set (pa_requests p). user_of r \<noteq> mb_UserID m"
    and room: "0 < pa_maxSize p \<longrightarrow> int (length (pa_members p)) + pa_reserved p < pa_maxSize p"
  shows "seats_ok (p\<lparr>pa_requests := pa_requests p @ [\<lparr>jr_Member = m, jr_Reserved = True\<rparr>], pa_reserved := pa_reserved p + 1\<rparr>)"
  using assms by (auto simp: seats_ok_def user_of_def)

lemma seats_ok_leader [simp]: "seats_ok (p\<lparr>pa_leader := m\<rparr>) = seats_ok p" "seats_ok (p\<lparr>pa_stopped := b\<rparr>) = seats_ok p"
  by (simp_all add: seats_ok_def)

lemma seats_ok_succeed: "seats_ok p \<Longrightarrow> seats_ok (party_succeed p)"
  by (simp add: party_succeed_def Let_def split: option.split)

lemma seats_ok_leave:
  assumes ok: "seats_ok p" and u: "u \<in> fst ` set (pa_members p)"
  shows "seats_ok (Party_removeJoinOrderLocked u (p\<lparr>pa_members := AList.delete u (pa_members p)\<rparr>))"
proof -
  have d: "distinct (map fst (pa_members p))" "\<forall>(u, m)\<in>set (pa_members p). mb_UserID m = u" using ok by (auto simp: seats_ok_def)
  have len: "length (pa_members p) = Suc (length (AList.delete u (pa_members p)))" using length_delete_member [OF d(1) u] by simp
  show ?thesis
    using ok distinct_delete [OF d(1), of u] members_delete [OF d(2), of u] len
    by (auto simp: seats_ok_def Party_removeJoinOrderLocked_def fst_delete)
qed

lemma take_request_room:
  assumes ok: "seats_ok p" and t: "take_request u (pa_requests p) = Some (r, rest)"
  shows "seats_ok (party_join (jr_Member r) (p\<lparr>pa_requests := rest, pa_reserved := (if jr_Reserved r then pa_reserved p - 1 else pa_reserved p)\<rparr>))"
proof -
  obtain xs ys where rs: "pa_requests p = xs @ r # ys" "rest = xs @ ys" using take_request_Some [OF t] by blast
  then have r: "jr_Reserved r" "user_of r \<notin> fst ` set (pa_members p)" "\<forall>q\<in>set rest. user_of q \<noteq> user_of r" using ok by (auto simp: seats_ok_def rs image_iff)
  let ?p = "p\<lparr>pa_requests := rest, pa_reserved := pa_reserved p - 1\<rparr>"
  have "seats_ok ?p" using ok rs by (auto simp: seats_ok_def)
  moreover have "0 < pa_maxSize ?p \<longrightarrow> int (length (pa_members ?p)) + pa_reserved ?p < pa_maxSize ?p" using ok by (auto simp: seats_ok_def)
  ultimately show ?thesis using r seats_ok_join [of ?p "jr_Member r"] by (simp add: user_of_def)
qed

section \<open>Operations\<close>

datatype party_op = OpJoin Member | OpAccept key key | OpRemove key key | OpPromote key key

fun party_exec :: "party_op \<Rightarrow> Party \<Rightarrow> party_result" where
  "party_exec (OpJoin m) p = Party_RequestJoin m p"
| "party_exec (OpAccept l u) p = Party_Accept l u p"
| "party_exec (OpRemove l u) p = Party_Remove l u p"
| "party_exec (OpPromote l u) p = Party_Promote l u p"

lemma canAdd_room: "Party_canAddLocked p = None \<Longrightarrow> 0 < pa_maxSize p \<longrightarrow> int (length (pa_members p)) + pa_reserved p < pa_maxSize p"
  by (auto simp: Party_canAddLocked_def split: if_splits)

lemma seats_ok_exec:
  assumes ok: "seats_ok p" and ex: "party_exec c p = (r, evs, p')" and priv: "pa_open p \<longrightarrow> pa_requests p = []"
  shows "seats_ok p'"
proof (cases c)
  case (OpJoin m)
  have nm: "mb_UserID m \<notin> fst ` set (pa_members p)" if "map_of (pa_members p) (mb_UserID m) = None" using that by (simp add: map_of_eq_None_iff)
  show ?thesis using ex ok priv OpJoin canAdd_room [of p] seats_ok_join [OF ok nm] seats_ok_request [OF ok nm]
    by (auto simp: Party_RequestJoin_def party_fail_def party_ok_def user_of_def split: if_splits option.splits)
next
  case (OpAccept l u)
  show ?thesis using ex ok OpAccept take_request_room [OF ok]
    by (auto simp: Party_Accept_def party_fail_def party_ok_def split: if_splits option.splits)
next
  case (OpRemove l u)
  have "u \<in> fst ` set (pa_members p)" if "map_of (pa_members p) u \<noteq> None" using that by (metis map_of_eq_None_iff)
  then show ?thesis using ex ok OpRemove seats_ok_leave [OF ok, of u] seats_ok_succeed
    by (auto simp: Party_Remove_def party_fail_def party_ok_def Let_def split: if_splits)
next
  case (OpPromote l u)
  then show ?thesis using ex ok by (auto simp: Party_Promote_def party_fail_def party_ok_def split: if_splits option.splits)
qed

lemma open_exec:
  assumes "party_exec c p = (r, evs, p')" "pa_open p \<longrightarrow> pa_requests p = []"
  shows "pa_open p' = pa_open p \<and> (pa_open p' \<longrightarrow> pa_requests p' = [])"
  using assms
  by (cases c) (auto simp: Party_RequestJoin_def Party_Accept_def Party_Remove_def Party_Promote_def party_fail_def party_ok_def party_join_def
      party_succeed_def Party_removeJoinOrderLocked_def Let_def split: if_splits option.splits)

text \<open>The succession picks the member who joined first.\<close>

lemma succeed_first:
  assumes ok: "seats_ok p"
  shows "pa_members p = [] \<and> pa_stopped (party_succeed p) \<and> pa_members (party_succeed p) = []
    \<or> (\<exists>m. pa_joinOrder p \<noteq> [] \<and> map_of (pa_members p) (hd (pa_joinOrder p)) = Some m \<and> party_succeed p = p\<lparr>pa_leader := m\<rparr> \<and> mb_UserID m = hd (pa_joinOrder p))"
proof (cases "pa_joinOrder p")
  case Nil
  then have "pa_members p = []" using ok by (simp add: seats_ok_def)
  then show ?thesis using Nil by (simp add: party_succeed_def)
next
  case (Cons u us)
  then have "u \<in> fst ` set (pa_members p)" using ok by (auto simp: seats_ok_def)
  then obtain m where m: "map_of (pa_members p) u = Some m" by (metis map_of_eq_None_iff not_None_eq)
  then have "pa_members p \<noteq> []" by auto
  then have "party_succeed p = p\<lparr>pa_leader := m\<rparr>" using Cons m by (simp add: party_succeed_def Let_def)
  moreover have "mb_UserID m = u" using map_of_SomeD [OF m] ok by (auto simp: seats_ok_def)
  ultimately show ?thesis using Cons m by simp
qed

lemma led_exec:
  assumes ok: "seats_ok p" and led: "led p" and ex: "party_exec c p = (r, evs, p')" and run: "\<not> pa_stopped p"
  shows "led p'"
proof (cases c)
  case (OpJoin m)
  then show ?thesis using ex led by (auto simp: Party_RequestJoin_def party_fail_def party_ok_def party_join_def led_def update_conv' split: if_splits option.splits)
next
  case (OpAccept l u)
  show ?thesis
  proof (cases "take_request u (pa_requests p)")
    case (Some x)
    obtain q rest where x: "x = (q, rest)" by force
    have "user_of q \<notin> fst ` set (pa_members p)" using take_request_Some [of u "pa_requests p" q rest] Some x ok by (auto simp: seats_ok_def)
    then have "mb_UserID (jr_Member q) \<noteq> mb_UserID (pa_leader p)" using led run by (metis led_def map_of_eq_None_iff option.distinct(1) user_of_def)
    then show ?thesis using ex led OpAccept Some x run by (auto simp: Party_Accept_def party_fail_def party_ok_def party_join_def led_def update_conv' split: if_splits)
  qed (use ex led OpAccept in \<open>auto simp: Party_Accept_def party_fail_def split: if_splits\<close>)
next
  case (OpRemove l u)
  let ?p = "Party_removeJoinOrderLocked u (p\<lparr>pa_members := AList.delete u (pa_members p)\<rparr>)"
  show ?thesis
  proof (cases "(l \<noteq> u \<and> l \<noteq> mb_UserID (pa_leader p)) \<or> map_of (pa_members p) u = None")
    case True
    then show ?thesis using ex led OpRemove by (auto simp: Party_Remove_def party_fail_def split: if_splits)
  next
    case False
    then have "u \<in> fst ` set (pa_members p)" by (metis map_of_eq_None_iff)
    then have ok': "seats_ok ?p" by (rule seats_ok_leave [OF ok])
    have p': "p' = (if u = mb_UserID (pa_leader p) then party_succeed ?p else ?p)" using ex OpRemove False by (auto simp: Party_Remove_def party_ok_def Let_def)
    have st: "\<not> pa_stopped ?p" using run by (simp add: Party_removeJoinOrderLocked_def)
    show ?thesis
    proof (cases "u = mb_UserID (pa_leader p)")
      case True
      then show ?thesis using succeed_first [OF ok'] p' st by (auto simp: led_def)
    next
      case False
      then show ?thesis using p' led run by (simp add: led_def Party_removeJoinOrderLocked_def delete_conv')
    qed
  qed
next
  case (OpPromote l u)
  have "mb_UserID m = u" if "map_of (pa_members p) u = Some m" for m using map_of_SomeD [OF that] ok by (auto simp: seats_ok_def)
  then show ?thesis using ex led run OpPromote by (auto simp: Party_Promote_def party_fail_def party_ok_def led_def split: if_splits option.splits)
qed

text \<open>\<open>Accept\<close> does not look at \<open>stopped\<close>: the last leader, who has left, can still let a waiting user into the stopped party, which
  then has a member and no leader among its members.\<close>

lemma Accept_after_stop:
  assumes "seats_ok p" "led p" "pa_stopped p" "take_request u (pa_requests p) = Some (r, rest)" "party_exec (OpAccept (mb_UserID (pa_leader p)) u) p = (e, evs, p')"
  shows "e = None \<and> pa_stopped p' \<and> pa_members p' \<noteq> [] \<and> \<not> led p'"
  using assms by (auto simp: Party_Accept_def party_ok_def party_join_def led_def)

definition party_run :: "party_op list \<Rightarrow> Party \<Rightarrow> Party" where
  "party_run cs p = foldl (\<lambda>p c. snd (snd (party_exec c p))) p cs"

lemma stopped_exec:
  assumes "party_exec c p = (r, evs, p')" "pa_stopped p"
  shows "pa_stopped p'"
  using assms
  by (cases c) (auto simp: Party_RequestJoin_def Party_Accept_def Party_Remove_def Party_Promote_def party_fail_def party_ok_def party_join_def
      party_succeed_def Party_removeJoinOrderLocked_def Let_def split: if_splits option.splits)

definition party_inv :: "Party \<Rightarrow> bool" where
  "party_inv p \<longleftrightarrow> seats_ok p \<and> (pa_open p \<longrightarrow> pa_requests p = []) \<and> (\<not> pa_stopped p \<longrightarrow> led p)"

lemma party_inv_exec: "party_inv p \<Longrightarrow> party_inv (snd (snd (party_exec c p)))"
proof -
  assume inv: "party_inv p"
  obtain r evs p' where ex: "party_exec c p = (r, evs, p')" by (metis prod.exhaust)
  show ?thesis using inv seats_ok_exec [OF _ ex] open_exec [OF ex] stopped_exec [OF ex] led_exec [OF _ _ ex] ex by (auto simp: party_inv_def)
qed

lemma party_inv_run: "party_inv p \<Longrightarrow> party_inv (party_run cs p)"
  unfolding party_run_def by (induction cs arbitrary: p) (simp_all add: party_inv_exec)

lemma run_maxSize: "pa_maxSize (party_run cs p) = pa_maxSize p"
proof -
  have "pa_maxSize (snd (snd (party_exec c p))) = pa_maxSize p" for c p
    by (cases c) (auto simp: Party_RequestJoin_def Party_Accept_def Party_Remove_def Party_Promote_def party_fail_def party_ok_def party_join_def
        party_succeed_def Party_removeJoinOrderLocked_def Let_def split: option.splits)
  then show ?thesis unfolding party_run_def by (induction cs arbitrary: p) simp_all
qed

lemma party_inv_new: "party_inv (Party_New i leader onChange opts)"
  by (auto simp: party_inv_def Party_New_def Let_def seats_ok_def led_def)

section \<open>Properties\<close>

text \<open>C26. A party stays well-formed under every sequence of operations: its members have distinct names and are in join
  order, every waiting request holds a seat of its own and is not from a member, members and seats together
  never exceed the capacity, and until the party stops its leader is one of its members. An operation that
  fails changes nothing and notifies nobody; one that is reserved to the leader succeeds for nobody else; and
  when the leader leaves, the member who has been in the party longest takes over.\<close>

theorem Party_wellformed:
  fixes cs i leader onChange opts
  defines "p \<equiv> party_run cs (Party_New i leader onChange opts)"
  shows "distinct (map fst (pa_members p)) \<and> distinct (pa_joinOrder p) \<and> set (pa_joinOrder p) = fst ` set (pa_members p)
    \<and> distinct (map user_of (pa_requests p)) \<and> (\<forall>r\<in>set (pa_requests p). user_of r \<notin> fst ` set (pa_members p))
    \<and> pa_reserved p = int (length (pa_requests p)) \<and> (0 < pa_maxSize p \<longrightarrow> int (Party_Count p) + pa_reserved p \<le> pa_maxSize p)
    \<and> (\<not> Party_Stopped p \<longrightarrow> Party_LeaderID p \<in> fst ` set (pa_members p))
    \<and> (\<forall>c e evs p'. party_exec c p = (Some e, evs, p') \<longrightarrow> p' = p \<and> evs = [])
    \<and> (\<forall>l u. l \<noteq> Party_LeaderID p \<longrightarrow> fst (Party_Accept l u p) = Some NotLeader \<and> fst (Party_Promote l u p) = Some NotLeader
         \<and> (l \<noteq> u \<longrightarrow> fst (Party_Remove l u p) = Some NotLeader))
    \<and> (\<forall>evs p'. \<not> Party_Stopped p \<and> Party_Remove (Party_LeaderID p) (Party_LeaderID p) p = (None, evs, p') \<longrightarrow>
         (let rest = remove1 (Party_LeaderID p) (pa_joinOrder p) in if rest = [] then Party_Stopped p' else Party_LeaderID p' = hd rest))"
proof -
  have inv: "party_inv p" unfolding p_def by (rule party_inv_run [OF party_inv_new])
  then have ok: "seats_ok p" by (simp add: party_inv_def)
  have 1: "distinct (map fst (pa_members p)) \<and> distinct (pa_joinOrder p) \<and> set (pa_joinOrder p) = fst ` set (pa_members p)
    \<and> distinct (map user_of (pa_requests p)) \<and> (\<forall>r\<in>set (pa_requests p). user_of r \<notin> fst ` set (pa_members p))
    \<and> pa_reserved p = int (length (pa_requests p)) \<and> (0 < pa_maxSize p \<longrightarrow> int (Party_Count p) + pa_reserved p \<le> pa_maxSize p)"
    using ok by (auto simp: seats_ok_def Party_Count_def)
  have 2: "\<not> Party_Stopped p \<longrightarrow> Party_LeaderID p \<in> fst ` set (pa_members p)"
    using inv by (metis Party_LeaderID_def Party_Stopped_def led_def map_of_eq_None_iff option.distinct(1) party_inv_def)
  have 3: "p' = p \<and> evs = []" if "party_exec c p = (Some e, evs, p')" for c e evs p'
    using that by (cases c) (auto simp: Party_RequestJoin_def Party_Accept_def Party_Remove_def Party_Promote_def party_fail_def party_ok_def Let_def split: if_splits option.splits)
  have 4: "fst (Party_Accept l u p) = Some NotLeader \<and> fst (Party_Promote l u p) = Some NotLeader \<and> (l \<noteq> u \<longrightarrow> fst (Party_Remove l u p) = Some NotLeader)"
    if "l \<noteq> Party_LeaderID p" for l u
    using that by (simp add: Party_Accept_def Party_Promote_def Party_Remove_def party_fail_def Party_LeaderID_def)
  have 5: "let rest = remove1 (Party_LeaderID p) (pa_joinOrder p) in if rest = [] then Party_Stopped p' else Party_LeaderID p' = hd rest"
    if run: "\<not> Party_Stopped p \<and> Party_Remove (Party_LeaderID p) (Party_LeaderID p) p = (None, evs, p')" for evs p'
  proof -
    let ?u = "mb_UserID (pa_leader p)"
    let ?p = "Party_removeJoinOrderLocked ?u (p\<lparr>pa_members := AList.delete ?u (pa_members p)\<rparr>)"
    have p': "p' = party_succeed ?p" and mem: "map_of (pa_members p) ?u \<noteq> None"
      using run by (auto simp: Party_Remove_def party_fail_def party_ok_def Let_def Party_LeaderID_def split: if_splits)
    have "?u \<in> fst ` set (pa_members p)" using mem by (metis map_of_eq_None_iff)
    then have ok': "seats_ok ?p" by (rule seats_ok_leave [OF ok])
    have jo: "pa_joinOrder ?p = remove1 ?u (pa_joinOrder p)" by (simp add: Party_removeJoinOrderLocked_def)
    have "pa_joinOrder ?p = [] \<longleftrightarrow> pa_members ?p = []" using ok' by (auto simp: seats_ok_def)
    then show ?thesis using succeed_first [OF ok'] p' by (auto simp: Let_def Party_LeaderID_def Party_Stopped_def jo [symmetric])
  qed
  show ?thesis using 1 2 3 4 5 by blast
qed

definition demo_member :: "key \<Rightarrow> Member" where
  "demo_member u = \<lparr>mb_UserID = u, mb_SessionID = u, mb_Username = u\<rparr>"

theorem Party_wellformed_witness:
  "Party_LeaderID (party_run [OpJoin (demo_member ''bob''), OpAccept ''ann'' ''bob'', OpJoin (demo_member ''cal''), OpRemove ''ann'' ''ann'']
      (Party_New ''p'' (demo_member ''ann'') True [WithMaxSize 2])) = ''bob''
   \<and> int (Party_Count (party_run [OpJoin (demo_member ''bob''), OpAccept ''ann'' ''bob'', OpJoin (demo_member ''cal''), OpRemove ''ann'' ''ann'']
      (Party_New ''p'' (demo_member ''ann'') True [WithMaxSize 2]))) \<le> 2"
proof -
  let ?p = "party_run [OpJoin (demo_member ''bob''), OpAccept ''ann'' ''bob'', OpJoin (demo_member ''cal''), OpRemove ''ann'' ''ann''] (Party_New ''p'' (demo_member ''ann'') True [WithMaxSize 2])"
  have "Party_LeaderID ?p = ''bob'' \<and> 0 < pa_maxSize ?p \<and> pa_maxSize ?p \<le> 2 \<and> 0 \<le> pa_reserved ?p" by code_simp
  then show ?thesis using Party_wellformed [of "[OpJoin (demo_member ''bob''), OpAccept ''ann'' ''bob'', OpJoin (demo_member ''cal''), OpRemove ''ann'' ''ann'']"
      "''p''" "demo_member ''ann''" True "[WithMaxSize 2]"] by linarith
qed

end
