(* ===== verification/Inbox.thy ===== *)
theory Inbox
  imports Prelude
begin

text \<open>
  \<open>pkg/domain/inbox\<close>: offline messages with a sequence number per owner, read marks and a cursor. Messages belong to the
  store; a caller that writes through the pointer \<open>Send\<close> returns is outside the model. \<open>sort.Search\<close> is the
  binary search of the standard library.
\<close>

section \<open>The store\<close>

record Message =
  im_ID :: int
  im_OwnerID :: key
  im_FromID :: key
  im_Type :: string
  im_Content :: string
  im_Seq :: int
  im_Read :: bool
  im_CreateTime :: time

record Inbox =
  ib_byUser :: "key \<Rightarrow> Message list"
  ib_byUserSeq :: "key \<Rightarrow> int"
  ib_seq :: int
  ib_live :: bool
  ib_maxPerBox :: int

definition Inbox_New :: "bool \<Rightarrow> int list \<Rightarrow> Inbox" where
  "Inbox_New live opts =
     \<lparr>ib_byUser = (\<lambda>_. []), ib_byUserSeq = (\<lambda>_. 0), ib_seq = 0, ib_live = live, ib_maxPerBox = foldl (\<lambda>_ n. n) 500 opts\<rparr>"

text \<open>\<open>box[len(box)-max:]\<close> when the box is too long; a negative maximum is a slice out of range.\<close>

definition box_cut :: "int \<Rightarrow> Message list \<Rightarrow> Message list option" where
  "box_cut maxPerBox box =
     (if maxPerBox < int (length box) then (if maxPerBox < 0 then None else Some (drop (nat (int (length box) - maxPerBox)) box)) else Some box)"

text \<open>The second component is what is handed to the live sink.\<close>

definition Inbox_Send :: "time \<Rightarrow> key \<Rightarrow> key \<Rightarrow> string \<Rightarrow> string \<Rightarrow> Inbox \<Rightarrow> (Message \<times> (key \<times> Message) list \<times> Inbox) option" where
  "Inbox_Send now toID fromID msgType content s =
     (let i = wrap64 (ib_seq s + 1); seq = wrap64 (ib_byUserSeq s toID + 1);
          m = \<lparr>im_ID = i, im_OwnerID = toID, im_FromID = fromID, im_Type = msgType, im_Content = content, im_Seq = seq, im_Read = False, im_CreateTime = now\<rparr>
      in case box_cut (ib_maxPerBox s) (ib_byUser s toID @ [m]) of
           None \<Rightarrow> None
         | Some box \<Rightarrow> Some (m, if ib_live s then [(toID, m)] else [],
             s\<lparr>ib_seq := i, ib_byUserSeq := (ib_byUserSeq s)(toID := seq), ib_byUser := (ib_byUser s)(toID := box)\<rparr>))"

definition lowerBoundSeq :: "Message list \<Rightarrow> int \<Rightarrow> nat" where
  "lowerBoundSeq box target = go_search (\<lambda>i. target \<le> im_Seq (box ! i)) 0 (length box)"

definition Inbox_List :: "key \<Rightarrow> int \<Rightarrow> int \<Rightarrow> Inbox \<Rightarrow> Message list" where
  "Inbox_List owner afterSeq limit s =
     (let limit = (if limit \<le> 0 then 20 else limit); box = ib_byUser s owner;
          start = (if 0 < afterSeq then lowerBoundSeq box afterSeq else length box);
          stop = nat (max (int start - limit) 0)
      in map (\<lambda>i. box ! i) (rev [stop..<start]))"

fun mark_read :: "int \<Rightarrow> Message list \<Rightarrow> int \<times> Message list" where
  "mark_read upTo [] = (0, [])"
| "mark_read upTo (m # ms) =
     (case mark_read upTo ms of (n, ms') \<Rightarrow>
        if upTo < im_Seq m then (n, m # ms') else if \<not> im_Read m then (n + 1, m\<lparr>im_Read := True\<rparr> # ms') else (n, m # ms'))"

definition Inbox_MarkRead :: "key \<Rightarrow> int \<Rightarrow> Inbox \<Rightarrow> int \<times> Inbox" where
  "Inbox_MarkRead owner upTo s =
     (case mark_read upTo (ib_byUser s owner) of (n, box) \<Rightarrow> (n, s\<lparr>ib_byUser := (ib_byUser s)(owner := box)\<rparr>))"

definition Inbox_MarkOneRead :: "key \<Rightarrow> int \<Rightarrow> Inbox \<Rightarrow> bool \<times> Inbox" where
  "Inbox_MarkOneRead owner seq s =
     (let box = ib_byUser s owner; idx = lowerBoundSeq box seq
      in if idx < length box \<and> im_Seq (box ! idx) = seq
         then (True, s\<lparr>ib_byUser := (ib_byUser s)(owner := (if \<not> im_Read (box ! idx) then box[idx := (box ! idx)\<lparr>im_Read := True\<rparr>] else box))\<rparr>)
         else (False, s))"

definition Inbox_UnreadCount :: "key \<Rightarrow> Inbox \<Rightarrow> nat" where
  "Inbox_UnreadCount owner s = length (filter (\<lambda>m. \<not> im_Read m) (ib_byUser s owner))"

definition Inbox_Delete :: "key \<Rightarrow> int \<Rightarrow> Inbox \<Rightarrow> bool \<times> Inbox" where
  "Inbox_Delete owner seq s =
     (let box = ib_byUser s owner; idx = lowerBoundSeq box seq
      in if length box \<le> idx \<or> im_Seq (box ! idx) \<noteq> seq then (False, s)
         else (True, s\<lparr>ib_byUser := (ib_byUser s)(owner := take idx box @ drop (idx + 1) box)\<rparr>))"

definition Inbox_Count :: "key \<Rightarrow> Inbox \<Rightarrow> nat" where
  "Inbox_Count owner s = length (ib_byUser s owner)"

section \<open>Boxes in order\<close>

text \<open>A box is in order when the sequence numbers rise strictly.\<close>

definition box_ok :: "Message list \<Rightarrow> bool" where
  "box_ok box \<longleftrightarrow> sorted_wrt (\<lambda>a b. im_Seq a < im_Seq b) box"

lemma box_ok_nth: "box_ok box \<Longrightarrow> i < j \<Longrightarrow> j < length box \<Longrightarrow> im_Seq (box ! i) < im_Seq (box ! j)"
  by (simp add: box_ok_def sorted_wrt_iff_nth_less)

lemma lowerBoundSeq_split:
  assumes ok: "box_ok box"
  shows "lowerBoundSeq box t \<le> length box \<and> take (lowerBoundSeq box t) box = filter (\<lambda>m. im_Seq m < t) box
    \<and> drop (lowerBoundSeq box t) box = filter (\<lambda>m. t \<le> im_Seq m) box"
proof -
  let ?f = "\<lambda>i. t \<le> im_Seq (box ! i)" and ?b = "lowerBoundSeq box t"
  have "?f b" if "a \<le> b" "b < length box" "?f a" for a b
    using that box_ok_nth [OF ok, of a b] by (cases "a = b") auto
  then have mono: "\<forall>a b. a \<le> b \<and> b < length box \<and> ?f a \<longrightarrow> ?f b" by blast
  have s: "?b \<le> length box" "\<forall>k<?b. \<not> ?f k" "\<forall>k. ?b \<le> k \<and> k < length box \<longrightarrow> ?f k"
  proof -
    have "go_search ?f 0 (length box) \<le> length box \<and> (\<forall>k<go_search ?f 0 (length box). \<not> ?f k) \<and> (\<forall>k. go_search ?f 0 (length box) \<le> k \<and> k < length box \<longrightarrow> ?f k)"
      by (rule go_search_first [OF mono]) simp_all
    then show "?b \<le> length box" "\<forall>k<?b. \<not> ?f k" "\<forall>k. ?b \<le> k \<and> k < length box \<longrightarrow> ?f k" unfolding lowerBoundSeq_def by blast+
  qed
  have "im_Seq (box ! k) < t" if "k < ?b" for k using s(2) that by (meson not_le)
  then have "\<forall>m\<in>set (take ?b box). im_Seq m < t" using s(1) by (auto simp: in_set_conv_nth)
  moreover have "\<forall>m\<in>set (drop ?b box). t \<le> im_Seq m" using s(3) by (auto simp: in_set_conv_nth)
  ultimately have "filter (\<lambda>m. im_Seq m < t) (take ?b box @ drop ?b box) = take ?b box" "filter (\<lambda>m. t \<le> im_Seq m) (take ?b box @ drop ?b box) = drop ?b box"
    by (auto simp: filter_empty_conv filter_id_conv simp del: append_take_drop_id)
  then show ?thesis using s(1) by simp
qed

lemma rev_upt_nth: "j \<le> length xs \<Longrightarrow> map (\<lambda>i. xs ! i) (rev [i..<j]) = rev (drop i (take j xs))"
proof -
  assume "j \<le> length xs"
  then have "map (\<lambda>i. xs ! i) [i..<j] = drop i (take j xs)" by (simp add: list_eq_iff_nth_eq)
  then show ?thesis by (simp add: rev_map [symmetric])
qed

section \<open>The cursor\<close>

definition below :: "int \<Rightarrow> Message list \<Rightarrow> Message list" where
  "below after box = (if 0 < after then filter (\<lambda>m. im_Seq m < after) box else box)"

lemma take_back: "length xs = n \<Longrightarrow> take (length xs - (n - l)) (rev xs) = take l (rev xs)"
  by (cases "l \<le> n") auto

lemma Inbox_List_take:
  assumes ok: "box_ok (ib_byUser s owner)"
  shows "Inbox_List owner after limit s = take (nat (if limit \<le> 0 then 20 else limit)) (rev (below after (ib_byUser s owner)))"
proof -
  let ?box = "ib_byUser s owner" and ?l = "if limit \<le> 0 then 20 else limit"
  let ?start = "if 0 < after then lowerBoundSeq ?box after else length ?box"
  let ?stop = "nat (max (int ?start - ?l) 0)"
  note lb = lowerBoundSeq_split [OF ok, of after]
  have st: "?start \<le> length ?box" "take ?start ?box = below after ?box" using lb by (simp_all add: below_def)
  have len: "length (below after ?box) = ?start" by (simp only: st(2) [symmetric] length_take min.absorb2 [OF st(1)])
  have stop: "nat (max (int a - b) 0) = a - nat b" if "0 \<le> b" for a b using that by linarith
  have stop: "?stop = ?start - nat ?l" by (rule stop) simp
  have "Inbox_List owner after limit s = map (\<lambda>i. ?box ! i) (rev [?stop..<?start])" by (simp only: Inbox_List_def Let_def)
  also have "\<dots> = rev (drop ?stop (take ?start ?box))" by (rule rev_upt_nth [OF st(1)])
  also have "\<dots> = take (length (below after ?box) - (?start - nat ?l)) (rev (below after ?box))" unfolding stop st(2) by (rule rev_drop)
  also have "\<dots> = take (nat ?l) (rev (below after ?box))" by (rule take_back [OF len])
  finally show ?thesis .
qed

text \<open>A client that pages with the smallest sequence number seen as the next cursor.\<close>

fun inbox_pages :: "nat \<Rightarrow> key \<Rightarrow> int \<Rightarrow> int \<Rightarrow> Inbox \<Rightarrow> Message list" where
  "inbox_pages 0 owner after limit s = []"
| "inbox_pages (Suc n) owner after limit s =
     (let page = Inbox_List owner after limit s
      in if page = [] then [] else page @ inbox_pages n owner (im_Seq (last page)) limit s)"

lemma below_next:
  assumes ok: "box_ok box" and pos: "\<forall>m\<in>set box. 0 < im_Seq m" and ys: "rev (below after box) = as @ bs" "as \<noteq> []"
  shows "rev (below (im_Seq (last as)) box) = bs"
proof -
  have sub: "below after box = rev bs @ rev as" using ys(1) by (metis rev_append rev_rev_ident)
  have okb: "sorted_wrt (\<lambda>a b. im_Seq a < im_Seq b) (rev bs @ rev as)"
    using ok sub by (metis below_def box_ok_def sorted_wrt_filter)
  obtain us z where as: "as = us @ [z]" using ys(2) by (metis append_butlast_last_id)
  then have ord: "\<forall>m\<in>set bs. im_Seq m < im_Seq (last as)" "\<forall>m\<in>set as. im_Seq (last as) \<le> im_Seq m"
    using okb by (auto simp: sorted_wrt_append)
  have mem: "last as \<in> set (below after box)" using sub ys(2) by simp
  have lp: "0 < im_Seq (last as)" using mem pos by (auto simp: below_def split: if_splits)
  have la: "0 < after \<longrightarrow> im_Seq (last as) < after" using mem by (auto simp: below_def)
  have "below (im_Seq (last as)) box = filter (\<lambda>m. im_Seq m < im_Seq (last as)) (below after box)"
    using lp la by (auto simp: below_def intro!: filter_cong)
  also have "\<dots> = rev bs" unfolding sub using ord by (auto simp: filter_id_conv filter_empty_conv)
  finally show ?thesis by simp
qed

lemma inbox_pages_all:
  assumes ok: "box_ok (ib_byUser s owner)" and pos: "\<forall>m\<in>set (ib_byUser s owner). 0 < im_Seq m" and fuel: "length (below after (ib_byUser s owner)) < n"
  shows "inbox_pages n owner after limit s = rev (below after (ib_byUser s owner))"
  using fuel
proof (induction n arbitrary: after)
  case (Suc n)
  let ?box = "ib_byUser s owner" and ?l = "nat (if limit \<le> 0 then 20 else limit)"
  let ?ys = "rev (below after ?box)"
  have page: "Inbox_List owner after limit s = take ?l ?ys" by (rule Inbox_List_take [OF ok])
  show ?case
  proof (cases "?ys = []")
    case False
    have ne: "take ?l ?ys \<noteq> []" using False by simp
    have nxt: "rev (below (im_Seq (last (take ?l ?ys))) ?box) = drop ?l ?ys" by (rule below_next [OF ok pos _ ne]) simp
    have "length (drop ?l ?ys) < length ?ys" using False by simp
    then have "length (below (im_Seq (last (take ?l ?ys))) ?box) < n" using nxt Suc.prems by (metis Suc_less_SucD length_rev less_trans_Suc)
    from Suc.IH [OF this] nxt have "inbox_pages n owner (im_Seq (last (take ?l ?ys))) limit s = drop ?l ?ys" by simp
    then show ?thesis unfolding inbox_pages.simps page Let_def using ne by (metis append_take_drop_id)
  qed (simp add: page)
qed simp

section \<open>The invariant\<close>

datatype inbox_op = InSend time key key string string | InMarkRead key int | InMarkOne key int | InDelete key int

fun inbox_exec :: "inbox_op \<Rightarrow> Inbox \<Rightarrow> Inbox option" where
  "inbox_exec (InSend now toID fromID ty content) s = map_option (snd \<circ> snd) (Inbox_Send now toID fromID ty content s)"
| "inbox_exec (InMarkRead u q) s = Some (snd (Inbox_MarkRead u q s))"
| "inbox_exec (InMarkOne u q) s = Some (snd (Inbox_MarkOneRead u q s))"
| "inbox_exec (InDelete u q) s = Some (snd (Inbox_Delete u q s))"

fun inbox_run :: "inbox_op list \<Rightarrow> Inbox \<Rightarrow> Inbox option" where
  "inbox_run [] s = Some s"
| "inbox_run (c # cs) s = (case inbox_exec c s of None \<Rightarrow> None | Some s' \<Rightarrow> inbox_run cs s')"

text \<open>\<open>n\<close> bounds the sequence numbers given out so far.\<close>

definition user_ok :: "int \<Rightarrow> int \<Rightarrow> int \<Rightarrow> Message list \<Rightarrow> bool" where
  "user_ok maxPerBox n seq box \<longleftrightarrow> box_ok box \<and> (\<forall>m\<in>set box. 0 < im_Seq m \<and> im_Seq m \<le> seq) \<and> 0 \<le> seq \<and> seq \<le> n
     \<and> (0 \<le> maxPerBox \<longrightarrow> int (length box) \<le> maxPerBox)"

definition inbox_ok :: "int \<Rightarrow> Inbox \<Rightarrow> bool" where
  "inbox_ok n s \<longleftrightarrow> (\<forall>u. user_ok (ib_maxPerBox s) n (ib_byUserSeq s u) (ib_byUser s u))"

lemma mark_read_facts:
  "map im_Seq (snd (mark_read q box)) = map im_Seq box
   \<and> fst (mark_read q box) + int (length (filter (\<lambda>m. \<not> im_Read m) (snd (mark_read q box)))) = int (length (filter (\<lambda>m. \<not> im_Read m) box))
   \<and> (\<forall>m\<in>set (snd (mark_read q box)). im_Seq m \<le> q \<longrightarrow> im_Read m)"
  by (induction box) (auto simp: case_prod_beta)

lemma box_ok_seqs: "map im_Seq xs = map im_Seq ys \<Longrightarrow> box_ok xs = box_ok ys"
proof -
  have "box_ok zs = sorted_wrt (<) (map im_Seq zs)" for zs by (simp add: box_ok_def sorted_wrt_map)
  then show "map im_Seq xs = map im_Seq ys \<Longrightarrow> box_ok xs = box_ok ys" by simp
qed

lemma user_ok_seqs:
  assumes "user_ok mx n seq ys" "map im_Seq xs = map im_Seq ys"
  shows "user_ok mx n seq xs"
proof -
  have "im_Seq ` set xs = im_Seq ` set ys" using assms(2) by (metis list.set_map)
  then have "(\<forall>m\<in>set xs. 0 < im_Seq m \<and> im_Seq m \<le> seq) = (\<forall>m\<in>set ys. 0 < im_Seq m \<and> im_Seq m \<le> seq)" by (metis (no_types, lifting) image_iff)
  then show ?thesis using assms box_ok_seqs [OF assms(2)] map_eq_imp_length_eq [OF assms(2)] by (simp add: user_ok_def)
qed

lemma user_ok_sub:
  assumes "user_ok mx n seq box" "idx < length box"
  shows "user_ok mx n seq (take idx box @ drop (idx + 1) box)"
proof -
  have "box = take idx box @ box ! idx # drop (idx + 1) box" using assms(2) by (simp add: id_take_nth_drop)
  then have "sorted_wrt (\<lambda>a b. im_Seq a < im_Seq b) (take idx box @ box ! idx # drop (idx + 1) box)" using assms(1) unfolding user_ok_def box_ok_def by metis
  then have "box_ok (take idx box @ drop (idx + 1) box)" by (auto simp: box_ok_def sorted_wrt_append)
  moreover have "set (take idx box @ drop (idx + 1) box) \<subseteq> set box" by (auto dest: in_set_takeD in_set_dropD)
  ultimately show ?thesis using assms by (auto simp: user_ok_def)
qed

lemma user_ok_send:
  assumes "user_ok mx n seq box" "n + 1 < 2 ^ 63" "box_cut mx (box @ [m]) = Some box'" "im_Seq m = wrap64 (seq + 1)"
  shows "user_ok mx (n + 1) (wrap64 (seq + 1)) box'"
proof -
  have w: "wrap64 (seq + 1) = seq + 1" using assms(1,2) by (intro wrap64_id) (simp add: user_ok_def in_i64_def)
  have ok: "box_ok (box @ [m])" using assms(1,4) w by (force simp: user_ok_def box_ok_def sorted_wrt_append)
  obtain k where k: "box' = drop k (box @ [m])" and len: "0 \<le> mx \<longrightarrow> int (length box') \<le> mx"
    using assms(3) by (auto simp: box_cut_def split: if_splits intro: that [of 0])
  have "box_ok box'" using ok unfolding k box_ok_def by (metis append_take_drop_id sorted_wrt_append)
  moreover have "set box' \<subseteq> insert m (set box)" unfolding k using set_drop_subset [of k "box @ [m]"] by auto
  ultimately show ?thesis using assms(1,4) w len by (auto simp: user_ok_def) force+
qed

lemma user_ok_later: "user_ok mx n seq box \<Longrightarrow> user_ok mx (n + 1) seq box"
  by (auto simp: user_ok_def)

lemma inbox_ok_exec:
  assumes ok: "inbox_ok n s" and n: "n + 1 < 2 ^ 63" and ex: "inbox_exec c s = Some s'"
  shows "inbox_ok (n + 1) s' \<and> ib_maxPerBox s' = ib_maxPerBox s"
proof -
  have u: "user_ok (ib_maxPerBox s) n (ib_byUserSeq s v) (ib_byUser s v)" for v using ok by (simp add: inbox_ok_def)
  note u' = user_ok_later [OF u]
  show ?thesis
  proof (cases c)
    case (InSend now toID fromID ty content)
    then obtain m evs where snd: "Inbox_Send now toID fromID ty content s = Some (m, evs, s')" using ex by auto
    then obtain box where box: "box_cut (ib_maxPerBox s) (ib_byUser s toID @ [m]) = Some box" "im_Seq m = wrap64 (ib_byUserSeq s toID + 1)"
      "ib_byUserSeq s' = (ib_byUserSeq s)(toID := wrap64 (ib_byUserSeq s toID + 1))" "ib_byUser s' = (ib_byUser s)(toID := box)" "ib_maxPerBox s' = ib_maxPerBox s"
      by (auto simp: Inbox_Send_def Let_def split: option.splits)
    show ?thesis using user_ok_send [OF u n box(1,2)] u' box(3-5) by (simp add: inbox_ok_def)
  next
    case (InMarkRead v q)
    then have s': "ib_byUser s' = (ib_byUser s)(v := snd (mark_read q (ib_byUser s v)))" "ib_byUserSeq s' = ib_byUserSeq s" "ib_maxPerBox s' = ib_maxPerBox s"
      using ex by (auto simp: Inbox_MarkRead_def split: prod.splits)
    have "user_ok (ib_maxPerBox s) (n + 1) (ib_byUserSeq s v) (snd (mark_read q (ib_byUser s v)))" by (rule user_ok_seqs [OF u']) (simp add: mark_read_facts)
    then show ?thesis using s' u' by (simp add: inbox_ok_def)
  next
    case (InMarkOne v q)
    let ?box = "ib_byUser s v" and ?i = "lowerBoundSeq (ib_byUser s v) q"
    have "user_ok (ib_maxPerBox s) (n + 1) (ib_byUserSeq s v) (?box[?i := (?box ! ?i)\<lparr>im_Read := True\<rparr>])"
    proof (rule user_ok_seqs [OF u'])
      show "map im_Seq (?box[?i := (?box ! ?i)\<lparr>im_Read := True\<rparr>]) = map im_Seq ?box"
        by (cases "?i < length ?box") (auto simp: map_update list_update_beyond intro: list_update_same_conv [THEN iffD2])
    qed
    then show ?thesis using ex InMarkOne u' by (auto simp: Inbox_MarkOneRead_def Let_def inbox_ok_def)
  next
    case (InDelete v q)
    let ?box = "ib_byUser s v" and ?i = "lowerBoundSeq (ib_byUser s v) q"
    show ?thesis using ex InDelete u' user_ok_sub [OF u', of ?i v] by (auto simp: Inbox_Delete_def Let_def inbox_ok_def not_le)
  qed
qed

lemma inbox_ok_run:
  assumes "inbox_ok n s" "n + int (length cs) < 2 ^ 63" "inbox_run cs s = Some s'"
  shows "inbox_ok (n + int (length cs)) s' \<and> ib_maxPerBox s' = ib_maxPerBox s"
  using assms
proof (induction cs arbitrary: n s)
  case (Cons c cs)
  then obtain s1 where s1: "inbox_exec c s = Some s1" "inbox_run cs s1 = Some s'" by (auto split: option.splits)
  have "inbox_ok (n + 1) s1 \<and> ib_maxPerBox s1 = ib_maxPerBox s" using inbox_ok_exec [OF Cons.prems(1) _ s1(1)] Cons.prems(2) by simp
  then show ?case using Cons.IH [of "n + 1" s1] s1(2) Cons.prems(2) by (simp add: add.assoc add.commute [of 1])
qed simp

text \<open>A negative maximum makes every \<open>Send\<close> panic (with the mutex held); no other maximum does.\<close>

lemma Inbox_Send_panics: "Inbox_Send now toID fromID ty content s = None \<longleftrightarrow> ib_maxPerBox s < 0"
  by (auto simp: Inbox_Send_def box_cut_def Let_def split: option.splits if_splits)

section \<open>Properties\<close>

text \<open>Whatever was sent, read and deleted before, a page of the inbox is exactly the newest messages before the cursor (found by
  binary search), so messages that arrive while a client pages neither repeat nor hide any; paging with the
  smallest number seen as the cursor returns the whole box, newest first, each message once; no box holds
  more than its maximum; and marking as read reports exactly how many messages it changed, which the count
  of unread messages then lacks.\<close>

theorem Inbox_pages:
  assumes "inbox_run cs (Inbox_New live opts) = Some s" "int (length cs) < 2 ^ 63"
  shows "Inbox_List owner after limit s =
      take (nat (if limit \<le> 0 then 20 else limit)) (rev (filter (\<lambda>m. 0 < after \<longrightarrow> im_Seq m < after) (ib_byUser s owner)))
    \<and> inbox_pages (Suc (Inbox_Count owner s)) owner 0 limit s = rev (ib_byUser s owner)
    \<and> sorted_wrt (<) (map im_Seq (ib_byUser s owner))
    \<and> (0 \<le> ib_maxPerBox s \<longrightarrow> int (Inbox_Count owner s) \<le> ib_maxPerBox s)
    \<and> (case Inbox_MarkRead owner q s of (n, s') \<Rightarrow>
         n + int (Inbox_UnreadCount owner s') = int (Inbox_UnreadCount owner s) \<and> (\<forall>m\<in>set (ib_byUser s' owner). im_Seq m \<le> q \<longrightarrow> im_Read m))"
proof -
  have "inbox_ok 0 (Inbox_New live opts)"
    by (simp add: inbox_ok_def user_ok_def Inbox_New_def box_ok_def)
  then have "inbox_ok (int (length cs)) s" using inbox_ok_run [of 0 "Inbox_New live opts" cs s] assms by simp
  then have u: "user_ok (ib_maxPerBox s) (int (length cs)) (ib_byUserSeq s owner) (ib_byUser s owner)" by (simp add: inbox_ok_def)
  then have ok: "box_ok (ib_byUser s owner)" and pos: "\<forall>m\<in>set (ib_byUser s owner). 0 < im_Seq m" by (auto simp: user_ok_def)
  have "below after (ib_byUser s owner) = filter (\<lambda>m. 0 < after \<longrightarrow> im_Seq m < after) (ib_byUser s owner)" by (simp add: below_def)
  then have 1: "Inbox_List owner after limit s =
      take (nat (if limit \<le> 0 then 20 else limit)) (rev (filter (\<lambda>m. 0 < after \<longrightarrow> im_Seq m < after) (ib_byUser s owner)))"
    using Inbox_List_take [OF ok, of after limit] by simp
  have 2: "inbox_pages (Suc (Inbox_Count owner s)) owner 0 limit s = rev (ib_byUser s owner)"
    using inbox_pages_all [OF ok pos, of 0 "Suc (Inbox_Count owner s)" limit] by (simp add: below_def Inbox_Count_def)
  have 3: "sorted_wrt (<) (map im_Seq (ib_byUser s owner))" using ok by (simp add: box_ok_def sorted_wrt_map)
  have 4: "0 \<le> ib_maxPerBox s \<longrightarrow> int (Inbox_Count owner s) \<le> ib_maxPerBox s" using u by (simp add: user_ok_def Inbox_Count_def)
  have 5: "case Inbox_MarkRead owner q s of (n, s') \<Rightarrow>
         n + int (Inbox_UnreadCount owner s') = int (Inbox_UnreadCount owner s) \<and> (\<forall>m\<in>set (ib_byUser s' owner). im_Seq m \<le> q \<longrightarrow> im_Read m)"
    using mark_read_facts [of q "ib_byUser s owner"] by (auto simp: Inbox_MarkRead_def Inbox_UnreadCount_def case_prod_beta)
  show ?thesis using 1 2 3 4 5 by blast
qed

theorem Inbox_pages_witness:
  "case inbox_run [InSend 1 ''ann'' ''bob'' ''chat'' ''a'', InSend 2 ''ann'' ''bob'' ''chat'' ''b'', InSend 3 ''ann'' ''bob'' ''chat'' ''c'', InDelete ''ann'' 2] (Inbox_New False [2]) of
     None \<Rightarrow> False
   | Some s \<Rightarrow> map im_Seq (inbox_pages (Suc (Inbox_Count ''ann'' s)) ''ann'' 0 1 s) = [3] \<and> Inbox_UnreadCount ''ann'' s = 1"
proof -
  let ?cs = "[InSend 1 ''ann'' ''bob'' ''chat'' ''a'', InSend 2 ''ann'' ''bob'' ''chat'' ''b'', InSend 3 ''ann'' ''bob'' ''chat'' ''c'', InDelete ''ann'' 2]"
  have e: "case inbox_run ?cs (Inbox_New False [2]) of None \<Rightarrow> False | Some s \<Rightarrow> map im_Seq (ib_byUser s ''ann'') = [3] \<and> Inbox_UnreadCount ''ann'' s = 1" by code_simp
  then obtain s where s: "inbox_run ?cs (Inbox_New False [2]) = Some s" "map im_Seq (ib_byUser s ''ann'') = [3]" "Inbox_UnreadCount ''ann'' s = 1"
    by (auto split: option.splits)
  have "inbox_pages (Suc (Inbox_Count ''ann'' s)) ''ann'' 0 1 s = rev (ib_byUser s ''ann'')"
    by (rule Inbox_pages [OF s(1), THEN conjunct2, THEN conjunct1]) simp
  then have "map im_Seq (inbox_pages (Suc (Inbox_Count ''ann'' s)) ''ann'' 0 1 s) = [3]" using s(2) by (simp only: rev_map [symmetric]) simp
  then show ?thesis using s(1,3) by simp
qed

end
