(* ===== verification/TimerQueue.thy ===== *)
theory TimerQueue
  imports Priority
begin

text \<open>
  \<open>pkg/orchestration/timerqueue\<close>: one-shot timers driven by a single goroutine. Clients send commands over a
  buffered channel without blocking; the goroutine keeps a \<open>container/heap\<close> of tasks and an index from
  identifiers to tasks, and on every tick of a ticker fires what is due. A task is a pointer: the model keeps
  a store of tasks and the heap, the index and the commands hold addresses. The field \<open>index\<close>, by which
  \<open>heap.Remove\<close> finds a task, is kept by \<open>Swap\<close>, \<open>Push\<close> and \<open>Pop\<close> and is part of the model; an index out of
  range is a run-time panic (\<open>None\<close>). Callbacks are named by numbers; whether one panics is an argument.
\<close>

section \<open>The heap of tasks\<close>

record Task =
  tt_ID :: string
  tt_ExecuteAt :: time
  tt_Fn :: nat
  tt_index :: int

record taskHeap =
  th_tasks :: "Task list"
  th_h :: "nat list"

definition taskHeap_Len :: "taskHeap \<Rightarrow> nat" where
  "taskHeap_Len s = length (th_h s)"

definition th_key :: "taskHeap \<Rightarrow> nat \<Rightarrow> time" where
  "th_key s a = tt_ExecuteAt (th_tasks s ! a)"

definition taskHeap_Less :: "taskHeap \<Rightarrow> nat \<Rightarrow> nat \<Rightarrow> bool" where
  "taskHeap_Less s i j \<longleftrightarrow> th_key s (th_h s ! i) < th_key s (th_h s ! j)"

definition th_setindex :: "nat \<Rightarrow> int \<Rightarrow> taskHeap \<Rightarrow> taskHeap" where
  "th_setindex a i s = s\<lparr>th_tasks := (th_tasks s)[a := (th_tasks s ! a)\<lparr>tt_index := i\<rparr>]\<rparr>"

definition taskHeap_Swap :: "nat \<Rightarrow> nat \<Rightarrow> taskHeap \<Rightarrow> taskHeap" where
  "taskHeap_Swap i j s =
     (let s1 = s\<lparr>th_h := (th_h s)[i := th_h s ! j, j := th_h s ! i]\<rparr>;
          s2 = th_setindex (th_h s1 ! i) (int i) s1
      in th_setindex (th_h s1 ! j) (int j) s2)"

definition taskHeap_Push :: "nat \<Rightarrow> taskHeap \<Rightarrow> taskHeap" where
  "taskHeap_Push a s =
     (let s1 = th_setindex a (int (length (th_h s))) s in s1\<lparr>th_h := th_h s1 @ [a]\<rparr>)"

definition taskHeap_Pop :: "taskHeap \<Rightarrow> nat \<times> taskHeap" where
  "taskHeap_Pop s =
     (let n = length (th_h s); a = th_h s ! (n - 1)
      in (a, (th_setindex a (-1) s)\<lparr>th_h := take (n - 1) (th_h s)\<rparr>))"

text \<open>The loops of \<open>container/heap\<close> over this interface.\<close>

function heap_up :: "nat \<Rightarrow> taskHeap \<Rightarrow> taskHeap" where
  "heap_up j s =
     (let i = (j - 1) div 2
      in if i = j \<or> \<not> taskHeap_Less s j i then s else heap_up i (taskHeap_Swap i j s))"
  by pat_completeness auto
termination by (relation "measure (\<lambda>(j, s). j)") auto

declare heap_up.simps [simp del]

definition heap_child :: "nat \<Rightarrow> nat \<Rightarrow> taskHeap \<Rightarrow> nat" where
  "heap_child i n s = (let j1 = 2 * i + 1 in if j1 + 1 < n \<and> taskHeap_Less s (j1 + 1) j1 then j1 + 1 else j1)"

function heap_down :: "nat \<Rightarrow> nat \<Rightarrow> taskHeap \<Rightarrow> taskHeap \<times> nat" where
  "heap_down i n s =
     (if n \<le> 2 * i + 1 then (s, i)
      else let j = heap_child i n s
           in if \<not> taskHeap_Less s j i then (s, i) else heap_down j n (taskHeap_Swap i j s))"
  by pat_completeness auto
termination by (relation "measure (\<lambda>(i, n, s). n - i)") (auto simp: heap_child_def Let_def)

declare heap_down.simps [simp del]

definition heap_Push :: "nat \<Rightarrow> taskHeap \<Rightarrow> taskHeap" where
  "heap_Push a s = (let s1 = taskHeap_Push a s in heap_up (taskHeap_Len s1 - 1) s1)"

definition heap_Pop :: "taskHeap \<Rightarrow> (nat \<times> taskHeap) option" where
  "heap_Pop s =
     (if taskHeap_Len s = 0 then None
      else let n = taskHeap_Len s - 1
           in Some (taskHeap_Pop (fst (heap_down 0 n (taskHeap_Swap 0 n s)))))"

definition heap_Remove :: "int \<Rightarrow> taskHeap \<Rightarrow> (nat \<times> taskHeap) option" where
  "heap_Remove idx s =
     (if idx < 0 \<or> int (taskHeap_Len s) \<le> idx then None
      else let n = taskHeap_Len s - 1; i = nat idx;
               s' = (if n \<noteq> i
                     then (case heap_down i n (taskHeap_Swap i n s) of
                             (s1, i') \<Rightarrow> if i < i' then s1 else heap_up i s1)
                     else s)
           in Some (taskHeap_Pop s'))"

section \<open>The queue\<close>

text \<open>A command carries the address of a task to add, or the identifier to cancel.\<close>

record tq_command =
  cmd_add :: "nat option"
  cmd_cancel :: string

text \<open>The heap and the index are local to \<open>Start\<close>.\<close>

record TimerQueue =
  tq_name :: string
  tq_resolution :: duration
  tq_chanSize :: int
  tq_syncCb :: bool
  tq_onPanic :: bool
  tq_cmdCh :: "tq_command list"
  tq_ready :: bool
  tq_pending :: int
  tq_heap :: taskHeap
  tq_idIndex :: "string \<rightharpoonup> nat"

datatype tq_option = TqName string | TqResolution duration | TqChannelSize int | TqSyncCallback bool | TqPanicHandler bool

fun tq_apply :: "tq_option \<Rightarrow> TimerQueue \<Rightarrow> TimerQueue" where
  "tq_apply (TqName name) q = (if name \<noteq> [] then q\<lparr>tq_name := name\<rparr> else q)"
| "tq_apply (TqResolution d) q = (if 0 < d then q\<lparr>tq_resolution := d\<rparr> else q)"
| "tq_apply (TqChannelSize n) q = (if 0 < n then q\<lparr>tq_chanSize := n\<rparr> else q)"
| "tq_apply (TqSyncCallback b) q = q\<lparr>tq_syncCb := b\<rparr>"
| "tq_apply (TqPanicHandler b) q = q\<lparr>tq_onPanic := b\<rparr>"

definition TimerQueue_New :: "tq_option list \<Rightarrow> TimerQueue" where
  "TimerQueue_New opts =
     fold tq_apply opts
       \<lparr>tq_name = ''timerqueue'', tq_resolution = second div 10, tq_chanSize = 1024, tq_syncCb = False, tq_onPanic = False,
        tq_cmdCh = [], tq_ready = False, tq_pending = 0, tq_heap = \<lparr>th_tasks = [], th_h = []\<rparr>, tq_idIndex = Map.empty\<rparr>"

text \<open>A send that does not block: it succeeds when the buffer has room.\<close>

definition tq_send :: "tq_command \<Rightarrow> TimerQueue \<Rightarrow> bool \<times> TimerQueue" where
  "tq_send c q =
     (if int (length (tq_cmdCh q)) < tq_chanSize q then (True, q\<lparr>tq_cmdCh := tq_cmdCh q @ [c]\<rparr>) else (False, q))"

definition tq_alloc :: "Task \<Rightarrow> TimerQueue \<Rightarrow> nat \<times> TimerQueue" where
  "tq_alloc t q = (length (th_tasks (tq_heap q)), q\<lparr>tq_heap := (tq_heap q)\<lparr>th_tasks := th_tasks (tq_heap q) @ [t]\<rparr>\<rparr>)"

definition TimerQueue_AddAt :: "string \<Rightarrow> time \<Rightarrow> nat option \<Rightarrow> TimerQueue \<Rightarrow> bool \<times> TimerQueue" where
  "TimerQueue_AddAt ident executeAt fn q =
     (case fn of
        None \<Rightarrow> (False, q)
      | Some f \<Rightarrow>
          (case tq_alloc \<lparr>tt_ID = ident, tt_ExecuteAt = executeAt, tt_Fn = f, tt_index = 0\<rparr> q of
             (a, q1) \<Rightarrow> tq_send \<lparr>cmd_add = Some a, cmd_cancel = []\<rparr> q1))"

definition TimerQueue_Add :: "time \<Rightarrow> string \<Rightarrow> duration \<Rightarrow> nat option \<Rightarrow> TimerQueue \<Rightarrow> bool \<times> TimerQueue" where
  "TimerQueue_Add now ident delay fn q = TimerQueue_AddAt ident (now + delay) fn q"

definition TimerQueue_Cancel :: "string \<Rightarrow> TimerQueue \<Rightarrow> bool \<times> TimerQueue" where
  "TimerQueue_Cancel ident q = (if ident = [] then (False, q) else tq_send \<lparr>cmd_add = None, cmd_cancel = ident\<rparr> q)"

definition TimerQueue_Pending :: "TimerQueue \<Rightarrow> int" where
  "TimerQueue_Pending q = tq_pending q"

definition TimerQueue_String :: "TimerQueue \<Rightarrow> string" where
  "TimerQueue_String q = ''timerqueue.Queue('' @ tq_name q @ '')''"

text \<open>\<open>Start\<close>: the entry, the return, and the branches of its loop. The local variables are gone after the return.\<close>

definition tq_enter :: "TimerQueue \<Rightarrow> TimerQueue" where
  "tq_enter q = q\<lparr>tq_ready := True, tq_heap := (tq_heap q)\<lparr>th_h := []\<rparr>, tq_idIndex := Map.empty\<rparr>"

definition tq_leave :: "TimerQueue \<Rightarrow> TimerQueue" where
  "tq_leave q = q\<lparr>tq_pending := 0, tq_heap := (tq_heap q)\<lparr>th_h := []\<rparr>, tq_idIndex := Map.empty\<rparr>"

definition tq_setPending :: "TimerQueue \<Rightarrow> TimerQueue" where
  "tq_setPending q = q\<lparr>tq_pending := int (taskHeap_Len (tq_heap q))\<rparr>"

text \<open>Remove the task at \<open>a\<close> from the heap and its identifier from the index.\<close>

definition tq_drop :: "string \<Rightarrow> nat \<Rightarrow> TimerQueue \<Rightarrow> TimerQueue option" where
  "tq_drop ident a q =
     (case heap_Remove (tt_index (th_tasks (tq_heap q) ! a)) (tq_heap q) of
        None \<Rightarrow> None
      | Some (x, h) \<Rightarrow> Some (q\<lparr>tq_heap := h, tq_idIndex := (tq_idIndex q)(ident := None)\<rparr>))"

definition tq_insert :: "nat \<Rightarrow> TimerQueue \<Rightarrow> TimerQueue option" where
  "tq_insert a q =
     (let ident = tt_ID (th_tasks (tq_heap q) ! a);
          r = (if ident \<noteq> []
               then (case (case tq_idIndex q ident of None \<Rightarrow> Some q | Some old \<Rightarrow> tq_drop ident old q) of
                       None \<Rightarrow> None
                     | Some q1 \<Rightarrow> Some (q1\<lparr>tq_idIndex := (tq_idIndex q1)(ident \<mapsto> a)\<rparr>))
               else Some q)
      in map_option (\<lambda>q2. tq_setPending (q2\<lparr>tq_heap := heap_Push a (tq_heap q2)\<rparr>)) r)"

definition tq_cancel :: "string \<Rightarrow> TimerQueue \<Rightarrow> TimerQueue option" where
  "tq_cancel ident q =
     (case tq_idIndex q ident of
        None \<Rightarrow> Some q
      | Some a \<Rightarrow> map_option tq_setPending (tq_drop ident a q))"

definition tq_command_step :: "tq_command \<Rightarrow> TimerQueue \<Rightarrow> TimerQueue option" where
  "tq_command_step c q =
     (case (case cmd_add c of None \<Rightarrow> Some q | Some a \<Rightarrow> tq_insert a q) of
        None \<Rightarrow> None
      | Some q1 \<Rightarrow> if cmd_cancel c \<noteq> [] then tq_cancel (cmd_cancel c) q1 else Some q1)"

text \<open>Receive a command; with an empty channel this branch is not ready.\<close>

definition tq_recv :: "TimerQueue \<Rightarrow> TimerQueue option" where
  "tq_recv q =
     (case tq_cmdCh q of
        [] \<Rightarrow> Some q
      | c # cs \<Rightarrow> tq_command_step c (q\<lparr>tq_cmdCh := cs\<rparr>))"

text \<open>What a firing does: the callback runs now or in a goroutine, and a panic goes to the handler or the log.\<close>

datatype tq_event = TqRun string nat | TqHandled string | TqLogged string

definition TimerQueue_safeCall :: "(nat \<Rightarrow> bool) \<Rightarrow> TimerQueue \<Rightarrow> Task \<Rightarrow> tq_event list" where
  "TimerQueue_safeCall boom q t =
     TqRun (tt_ID t) (tt_Fn t) # (if boom (tt_Fn t) then [if tq_onPanic q then TqHandled (tt_ID t) else TqLogged (tt_ID t)] else [])"

datatype tq_launch = TqNow "tq_event list" | TqGo Task

definition TimerQueue_fire :: "(nat \<Rightarrow> bool) \<Rightarrow> TimerQueue \<Rightarrow> Task \<Rightarrow> tq_launch" where
  "TimerQueue_fire boom q t = (if tq_syncCb q then TqNow (TimerQueue_safeCall boom q t) else TqGo t)"

text \<open>The loop of a tick pops while the first task is due; each firing is recorded with its task.\<close>

lemma length_taskHeap_Swap [simp]: "length (th_h (taskHeap_Swap i j s)) = length (th_h s)"
  by (simp add: taskHeap_Swap_def th_setindex_def Let_def)

lemma heap_down_length: "length (th_h (fst (heap_down i n s))) = length (th_h s)"
proof (induction i n s rule: heap_down.induct)
  case (1 i n s)
  then show ?case by (subst heap_down.simps) (simp add: Let_def)
qed

lemma heap_Pop_length: "heap_Pop s = Some (a, s') \<Longrightarrow> length (th_h s') < length (th_h s)"
  by (auto simp: heap_Pop_def taskHeap_Pop_def taskHeap_Len_def Let_def heap_down_length split: if_splits)

function tq_expire :: "(nat \<Rightarrow> bool) \<Rightarrow> time \<Rightarrow> TimerQueue \<Rightarrow> (Task \<times> tq_launch) list \<times> TimerQueue" where
  "tq_expire boom now q =
     (if taskHeap_Len (tq_heap q) = 0 \<or> now < th_key (tq_heap q) (th_h (tq_heap q) ! 0) then ([], q)
      else (case heap_Pop (tq_heap q) of
              None \<Rightarrow> ([], q)
            | Some (a, h) \<Rightarrow>
                let t = th_tasks h ! a;
                    q1 = q\<lparr>tq_heap := h, tq_idIndex := (if tt_ID t \<noteq> [] then (tq_idIndex q)(tt_ID t := None) else tq_idIndex q)\<rparr>
                in (case tq_expire boom now q1 of (fired, q2) \<Rightarrow> ((t, TimerQueue_fire boom q t) # fired, q2))))"
  by pat_completeness auto
termination
  by (relation "measure (\<lambda>(boom, now, q). length (th_h (tq_heap q)))") (auto dest: heap_Pop_length)

declare tq_expire.simps [simp del]

definition tq_tick :: "(nat \<Rightarrow> bool) \<Rightarrow> time \<Rightarrow> TimerQueue \<Rightarrow> (Task \<times> tq_launch) list \<times> TimerQueue" where
  "tq_tick boom now q = (case tq_expire boom now q of (fired, q') \<Rightarrow> (fired, tq_setPending q'))"

section \<open>The heap loops and the index\<close>

text \<open>Two stores that differ in the field \<open>index\<close> only.\<close>

definition th_same :: "taskHeap \<Rightarrow> taskHeap \<Rightarrow> bool" where
  "th_same s s' \<longleftrightarrow> length (th_tasks s') = length (th_tasks s)
     \<and> (\<forall>a. (th_tasks s' ! a)\<lparr>tt_index := 0\<rparr> = (th_tasks s ! a)\<lparr>tt_index := 0\<rparr>)"

lemma th_same_refl [simp]: "th_same s s"
  by (simp add: th_same_def)

lemma th_same_trans [trans]: "th_same s s' \<Longrightarrow> th_same s' s'' \<Longrightarrow> th_same s s''"
  by (simp add: th_same_def)

lemma th_sameD:
  assumes "th_same s s'"
  shows "length (th_tasks s') = length (th_tasks s)" "th_key s' = th_key s"
    "tt_ID (th_tasks s' ! a) = tt_ID (th_tasks s ! a)" "tt_Fn (th_tasks s' ! a) = tt_Fn (th_tasks s ! a)"
proof -
  have e: "(th_tasks s' ! a)\<lparr>tt_index := 0\<rparr> = (th_tasks s ! a)\<lparr>tt_index := 0\<rparr>" for a
    using assms by (simp add: th_same_def)
  show "length (th_tasks s') = length (th_tasks s)" using assms by (simp add: th_same_def)
  show "th_key s' = th_key s" using arg_cong [OF e, of tt_ExecuteAt] by (simp add: th_key_def fun_eq_iff)
  show "tt_ID (th_tasks s' ! a) = tt_ID (th_tasks s ! a)" using arg_cong [OF e, of tt_ID] by simp
  show "tt_Fn (th_tasks s' ! a) = tt_Fn (th_tasks s ! a)" using arg_cong [OF e, of tt_Fn] by simp
qed

lemma th_setindex_sel [simp]:
  "th_h (th_setindex a i s) = th_h s" "length (th_tasks (th_setindex a i s)) = length (th_tasks s)"
  by (simp_all add: th_setindex_def)

lemma th_setindex_index: "a < length (th_tasks s) \<Longrightarrow>
    tt_index (th_tasks (th_setindex a i s) ! b) = (if b = a then i else tt_index (th_tasks s ! b))"
  by (simp add: th_setindex_def nth_list_update)

lemma th_setindex_same [simp]: "th_same s (th_setindex a i s)"
  by (cases "a < length (th_tasks s)") (auto simp: th_same_def th_setindex_def nth_list_update list_update_beyond)

lemma th_same_h [simp]: "th_same s (s'\<lparr>th_h := h\<rparr>) = th_same s s'" "th_same (s\<lparr>th_h := h\<rparr>) s' = th_same s s'"
  by (simp_all add: th_same_def)

text \<open>The heap holds live addresses, each once, and every task in it knows its position.\<close>

definition th_ok :: "taskHeap \<Rightarrow> bool" where
  "th_ok s \<longleftrightarrow> distinct (th_h s) \<and> (\<forall>i<length (th_h s). th_h s ! i < length (th_tasks s) \<and> tt_index (th_tasks s ! (th_h s ! i)) = int i)"

lemma taskHeap_Swap_ok:
  assumes "th_ok s" "i < length (th_h s)" "j < length (th_h s)"
  shows "th_h (taskHeap_Swap i j s) = pq_swap (th_h s) i j" "th_same s (taskHeap_Swap i j s)" "th_ok (taskHeap_Swap i j s)"
proof -
  define g where "g = (th_h s)[i := th_h s ! j, j := th_h s ! i]"
  let ?s2 = "th_setindex (g ! i) (int i) (s\<lparr>th_h := g\<rparr>)"
  have sw: "taskHeap_Swap i j s = th_setindex (g ! j) (int j) ?s2" by (simp add: taskHeap_Swap_def Let_def g_def)
  show h: "th_h (taskHeap_Swap i j s) = pq_swap (th_h s) i j" by (simp add: sw g_def pq_swap_def)
  show "th_same s (taskHeap_Swap i j s)" unfolding sw
    by (rule th_same_trans [OF _ th_setindex_same], rule th_same_trans [OF _ th_setindex_same]) simp
  have d: "distinct (th_h s)" and r: "\<And>k. k < length (th_h s) \<Longrightarrow> th_h s ! k < length (th_tasks s)"
    and ix: "\<And>k. k < length (th_h s) \<Longrightarrow> tt_index (th_tasks s ! (th_h s ! k)) = int k"
    using assms(1) by (simp_all add: th_ok_def)
  have hd: "distinct g" "length g = length (th_h s)" using d assms(2,3) by (simp_all add: g_def distinct_swap)
  have nth: "g ! k = (if k = j then th_h s ! i else if k = i then th_h s ! j else th_h s ! k)" for k
    using assms(2,3) by (auto simp: g_def nth_list_update)
  have rng: "g ! k < length (th_tasks s)" if "k < length (th_h s)" for k using r that assms(2,3) by (simp add: nth)
  have "tt_index (th_tasks (taskHeap_Swap i j s) ! (g ! k)) = int k" if k: "k < length (th_h s)" for k
  proof -
    have inj: "g ! k = g ! m \<longleftrightarrow> k = m" if "m < length (th_h s)" for m
      using nth_eq_iff_index_eq [OF hd(1)] k that hd(2) by simp
    have "tt_index (th_tasks (taskHeap_Swap i j s) ! (g ! k)) =
        (if k = j then int j else if k = i then int i else tt_index (th_tasks s ! (g ! k)))"
      using rng [OF assms(2)] rng [OF assms(3)] inj [OF assms(2)] inj [OF assms(3)] by (simp add: sw th_setindex_index)
    then show ?thesis using ix [OF k] nth [of k] by simp
  qed
  then show "th_ok (taskHeap_Swap i j s)" using hd rng unfolding th_ok_def h pq_swap_def g_def [symmetric] by (simp add: sw)
qed

text \<open>On the addresses the loops are those of \<open>Priority\<close>, and they keep the positions right.\<close>

abbreviation th_lt :: "taskHeap \<Rightarrow> nat \<Rightarrow> nat \<Rightarrow> bool" where
  "th_lt s \<equiv> \<lambda>a b. th_key s a < th_key s b"

lemma heap_up_ok:
  "th_ok s \<Longrightarrow> j < length (th_h s) \<Longrightarrow>
     th_h (heap_up j s) = pq_up (th_lt s) (th_h s) j \<and> th_same s (heap_up j s) \<and> th_ok (heap_up j s)"
proof (induction j s rule: heap_up.induct)
  case (1 j s)
  let ?i = "(j - 1) div 2"
  show ?case
  proof (cases "?i = j \<or> \<not> taskHeap_Less s j ?i")
    case True
    have "heap_up j s = s" by (subst heap_up.simps) (use True in \<open>simp add: Let_def\<close>)
    moreover have "pq_up (th_lt s) (th_h s) j = th_h s" by (subst pq_up.simps) (use True in \<open>simp add: Let_def taskHeap_Less_def\<close>)
    ultimately show ?thesis using 1 by simp
  next
    case False
    let ?s = "taskHeap_Swap ?i j s"
    have i: "?i < length (th_h s)" using "1.prems"(2) by linarith
    note sw = taskHeap_Swap_ok [OF "1.prems"(1) i "1.prems"(2)]
    have len: "length (th_h ?s) = length (th_h s)" using sw(1) by simp
    have "heap_up j s = heap_up ?i ?s" by (subst heap_up.simps) (use False in \<open>simp add: Let_def\<close>)
    moreover have "pq_up (th_lt s) (th_h s) j = pq_up (th_lt s) (th_h ?s) ?i"
      by (subst pq_up.simps) (use False sw(1) in \<open>simp add: Let_def taskHeap_Less_def\<close>)
    moreover have "th_h (heap_up ?i ?s) = pq_up (th_lt ?s) (th_h ?s) ?i \<and> th_same ?s (heap_up ?i ?s) \<and> th_ok (heap_up ?i ?s)"
      using "1.IH" [OF refl False sw(3)] i len by simp
    ultimately show ?thesis using th_sameD(2) [OF sw(2)] th_same_trans [OF sw(2)] by simp
  qed
qed

lemma heap_child_eq: "heap_child i n s = pq_child (th_lt s) (th_h s) i n"
  by (simp add: heap_child_def pq_child_def taskHeap_Less_def)

lemma heap_down_ok:
  "th_ok s \<Longrightarrow> n \<le> length (th_h s) \<Longrightarrow>
     th_h (fst (heap_down i n s)) = fst (pq_down (th_lt s) (th_h s) i n) \<and> snd (heap_down i n s) = snd (pq_down (th_lt s) (th_h s) i n)
     \<and> th_same s (fst (heap_down i n s)) \<and> th_ok (fst (heap_down i n s))"
proof (induction i n s rule: heap_down.induct)
  case (1 i n s)
  let ?j = "pq_child (th_lt s) (th_h s) i n"
  show ?case
  proof (cases "n \<le> 2 * i + 1 \<or> \<not> taskHeap_Less s ?j i")
    case True
    have "heap_down i n s = (s, i)" by (subst heap_down.simps) (use True in \<open>auto simp: Let_def heap_child_eq\<close>)
    moreover have "pq_down (th_lt s) (th_h s) i n = (th_h s, i)"
      by (subst pq_down.simps) (use True in \<open>auto simp: Let_def taskHeap_Less_def\<close>)
    ultimately show ?thesis using 1 by simp
  next
    case False
    let ?s = "taskHeap_Swap i ?j s"
    have j: "i < ?j" "?j < n" using False pq_child_range [of i n "th_lt s" "th_h s"] by auto
    have sw: "th_h ?s = pq_swap (th_h s) i ?j" "th_same s ?s" "th_ok ?s"
      using taskHeap_Swap_ok [OF "1.prems"(1), of i ?j] j "1.prems"(2) by simp_all
    have "heap_down i n s = heap_down ?j n ?s" by (subst heap_down.simps) (use False in \<open>simp add: Let_def heap_child_eq\<close>)
    moreover have "pq_down (th_lt s) (th_h s) i n = pq_down (th_lt s) (th_h ?s) ?j n"
      by (subst pq_down.simps) (use False sw(1) in \<open>simp add: Let_def taskHeap_Less_def\<close>)
    moreover have "th_h (fst (heap_down ?j n ?s)) = fst (pq_down (th_lt ?s) (th_h ?s) ?j n)
        \<and> snd (heap_down ?j n ?s) = snd (pq_down (th_lt ?s) (th_h ?s) ?j n)
        \<and> th_same ?s (fst (heap_down ?j n ?s)) \<and> th_ok (fst (heap_down ?j n ?s))"
      using "1.IH" [of ?j] False sw "1.prems"(2) by (simp add: heap_child_eq)
    ultimately show ?thesis using th_sameD(2) [OF sw(2)] th_same_trans [OF sw(2)] by simp
  qed
qed

lemma taskHeap_Pop_ok:
  assumes "th_ok s" "length (th_h s) = Suc n"
  shows "taskHeap_Pop s = (th_h s ! n, snd (taskHeap_Pop s))" "th_h (snd (taskHeap_Pop s)) = take n (th_h s)"
    "th_same s (snd (taskHeap_Pop s))" "th_ok (snd (taskHeap_Pop s))"
proof -
  let ?a = "th_h s ! n"
  have p: "taskHeap_Pop s = (?a, (th_setindex ?a (-1) s)\<lparr>th_h := take n (th_h s)\<rparr>)"
    using assms(2) by (simp add: taskHeap_Pop_def Let_def)
  show "taskHeap_Pop s = (?a, snd (taskHeap_Pop s))" "th_h (snd (taskHeap_Pop s)) = take n (th_h s)"
    "th_same s (snd (taskHeap_Pop s))" using p by simp_all
  have "th_h s ! i \<noteq> ?a" if "i < n" for i
    using that assms nth_eq_iff_index_eq [of "th_h s" i n] by (simp add: th_ok_def)
  then show "th_ok (snd (taskHeap_Pop s))" using assms p by (simp add: th_ok_def th_setindex_index)
qed

section \<open>The heap operations\<close>

definition th_queue :: "taskHeap \<Rightarrow> nat Queue" where
  "th_queue s = \<lparr>pq_items = th_h s, pq_less = th_lt s\<rparr>"

definition th_inv :: "taskHeap \<Rightarrow> bool" where
  "th_inv s \<longleftrightarrow> th_ok s \<and> keyed.heap_inv (th_key s) (th_queue s)"

lemma th_invI: "th_ok s' \<Longrightarrow> th_same s s' \<Longrightarrow> pq_heap (th_lt s) (th_h s') (length (th_h s')) \<Longrightarrow> th_inv s'"
  using th_sameD(2) [of s s'] by (simp add: th_inv_def keyed.heap_inv_def th_queue_def)

lemma heap_Push_ok:
  assumes "th_inv s" "a < length (th_tasks s)" "a \<notin> set (th_h s)"
  shows "th_inv (heap_Push a s)" "th_same s (heap_Push a s)" "mset (th_h (heap_Push a s)) = add_mset a (mset (th_h s))"
proof -
  let ?n = "length (th_h s)" and ?s = "taskHeap_Push a s"
  have s: "th_h ?s = th_h s @ [a]" "th_same s ?s" by (simp_all add: taskHeap_Push_def Let_def)
  have ok: "th_ok s" "keyed.heap_inv (th_key s) (th_queue s)" using assms(1) by (simp_all add: th_inv_def)
  have "th_h s ! i \<noteq> a" if "i < ?n" for i using assms(3) that by (metis nth_mem)
  then have "th_ok ?s" using ok(1) assms(2,3)
    by (auto simp: th_ok_def taskHeap_Push_def Let_def nth_append th_setindex_index less_Suc_eq)
  from heap_up_ok [OF this, of ?n] s(1)
  have up: "th_h (heap_up ?n ?s) = pq_up (th_lt ?s) (th_h s @ [a]) ?n" "th_same ?s (heap_up ?n ?s)" "th_ok (heap_up ?n ?s)" by simp_all
  have push: "heap_Push a s = heap_up ?n ?s" using s(1) by (simp add: heap_Push_def Let_def taskHeap_Len_def)
  have h: "th_h (heap_Push a s) = pq_items (Queue_Push a (th_queue s))"
    using up(1) th_sameD(2) [OF s(2)] by (simp add: push Queue_Push_def th_queue_def Let_def)
  show same: "th_same s (heap_Push a s)" using th_same_trans [OF s(2) up(2)] push by simp
  note k = keyed.push_ok [OF ok(2), of a]
  show "mset (th_h (heap_Push a s)) = add_mset a (mset (th_h s))" using k h by (simp add: th_queue_def)
  show "th_inv (heap_Push a s)"
    by (rule th_invI [OF _ same]) (use up(3) push k h in \<open>simp_all add: keyed.heap_inv_def\<close>)
qed

text \<open>\<open>heap.Pop\<close> and \<open>heap.Remove\<close> take out the first task, and the task whose position is given.\<close>

lemma heap_Pop_ok:
  assumes "th_inv s" "th_h s \<noteq> []"
  shows "\<exists>s'. heap_Pop s = Some (hd (th_h s), s') \<and> th_inv s' \<and> th_same s s'
    \<and> mset (th_h s) = add_mset (hd (th_h s)) (mset (th_h s')) \<and> (\<forall>b\<in>set (th_h s). th_key s (hd (th_h s)) \<le> th_key s b)"
proof -
  obtain n where n: "length (th_h s) = Suc n" using assms(2) by (cases "th_h s") auto
  have ok: "th_ok s" "keyed.heap_inv (th_key s) (th_queue s)" using assms(1) by (simp_all add: th_inv_def)
  let ?s1 = "taskHeap_Swap 0 n s" let ?s2 = "fst (heap_down 0 n ?s1)" let ?s3 = "snd (taskHeap_Pop ?s2)"
  have sw: "th_h ?s1 = pq_swap (th_h s) 0 n" "th_same s ?s1" "th_ok ?s1" using taskHeap_Swap_ok [OF ok(1), of 0 n] n by simp_all
  have key: "th_key ?s1 = th_key s" by (rule th_sameD(2) [OF sw(2)])
  have dn: "th_h ?s2 = fst (pq_down (th_lt s) (pq_swap (th_h s) 0 n) 0 n)" "th_same ?s1 ?s2" "th_ok ?s2"
    using heap_down_ok [OF sw(3), of n 0] n key sw(1) by simp_all
  have len: "length (th_h ?s2) = Suc n" using pq_down_facts [of n "pq_swap (th_h s) 0 n"] n by (simp add: dn(1))
  note pop = taskHeap_Pop_ok [OF dn(3) len]
  have x: "th_h ?s2 ! n = hd (th_h s)"
    using pq_down_facts [of n "pq_swap (th_h s) 0 n" "th_lt s" 0] n assms(2) by (simp add: dn(1) nth_pq_swap hd_conv_nth)
  have eq: "heap_Pop s = Some (hd (th_h s), ?s3)" using n pop(1) x by (simp add: heap_Pop_def taskHeap_Len_def Let_def)
  have "Queue_Pop (th_queue s) = Some (hd (th_h s), (th_queue s)\<lparr>pq_items := th_h ?s3\<rparr>)"
    using n x pop(2) by (simp add: Queue_Pop_def th_queue_def Let_def dn(1))
  note k = keyed.pop_ok [OF ok(2) this]
  have same: "th_same s ?s3" by (rule th_same_trans [OF th_same_trans [OF sw(2) dn(2)] pop(3)])
  have "th_inv ?s3" by (rule th_invI [OF pop(4) same]) (use k in \<open>simp add: keyed.heap_inv_def\<close>)
  then show ?thesis using eq same k by (auto simp: th_queue_def not_less)
qed

lemma heap_Pop_empty: "th_h s = [] \<Longrightarrow> heap_Pop s = None"
  by (simp add: heap_Pop_def taskHeap_Len_def)

lemma heap_Remove_ok:
  assumes "th_inv s" "i < length (th_h s)"
  shows "\<exists>s'. heap_Remove (int i) s = Some (th_h s ! i, s') \<and> th_inv s' \<and> th_same s s'
    \<and> mset (th_h s) = add_mset (th_h s ! i) (mset (th_h s'))"
proof -
  obtain n where n: "length (th_h s) = Suc n" using assms(2) by (cases "length (th_h s)") auto
  have ok: "th_ok s" "keyed.heap_inv (th_key s) (th_queue s)" using assms(1) by (simp_all add: th_inv_def)
  have h: "pq_heap (th_lt s) (th_h s) (Suc n)" using ok(2) n by (simp add: keyed.heap_inv_def th_queue_def)
  let ?s1 = "taskHeap_Swap i n s" let ?ds = "fst (pq_down (th_lt s) (pq_swap (th_h s) i n) i n)"
  let ?s2 = "if n \<noteq> i then (case heap_down i n ?s1 of (s1, i') \<Rightarrow> if i < i' then s1 else heap_up i s1) else s"
  have "th_ok ?s2 \<and> th_same s ?s2 \<and> th_h ?s2 = (if i \<noteq> n then pq_up (th_lt s) ?ds i else th_h s)"
  proof (cases "i = n")
    case False
    then have lt: "i < n" using assms(2) n by simp
    have sw: "th_h ?s1 = pq_swap (th_h s) i n" "th_same s ?s1" "th_ok ?s1" using taskHeap_Swap_ok [OF ok(1), of i n] n assms(2) by simp_all
    obtain d j where d: "heap_down i n ?s1 = (d, j)" by force
    have key: "th_key ?s1 = th_key s" by (rule th_sameD(2) [OF sw(2)])
    have dn: "th_h d = ?ds" "j = snd (pq_down (th_lt s) (pq_swap (th_h s) i n) i n)" "th_same ?s1 d" "th_ok d"
      using heap_down_ok [OF sw(3), of n i] n key sw(1) d by simp_all
    have same: "th_same s d" by (rule th_same_trans [OF sw(2) dn(3)])
    have g: "j = i \<or> i < j \<and> pq_heap (th_lt s) ?ds n"
      using keyed.gap_down [OF keyed.swap_last_gap [OF h n lt]] n lt dn(2) by auto
    have len: "length ?ds = Suc n" using pq_down_facts [of n "pq_swap (th_h s) i n"] n by simp
    show ?thesis
    proof (cases "i < j")
      case True
      then have "pq_up (th_lt s) ?ds i = ?ds" using g lt keyed.pq_up_heap_id by blast
      then show ?thesis using True False d dn same by simp
    next
      case nlt: False
      have "th_h (heap_up i d) = pq_up (th_lt s) ?ds i \<and> th_same d (heap_up i d) \<and> th_ok (heap_up i d)"
        using heap_up_ok [OF dn(4), of i] dn(1) len lt th_sameD(2) [OF same] by simp
      then show ?thesis using nlt False d th_same_trans [OF same] by simp
    qed
  qed (use ok(1) in simp)
  then have s2: "th_ok ?s2" "th_same s ?s2" "th_h ?s2 = (if i \<noteq> n then pq_up (th_lt s) ?ds i else th_h s)" by blast+
  let ?s3 = "snd (taskHeap_Pop ?s2)"
  have rm: "Queue_Remove i (th_queue s) = Some (th_h ?s2 ! n, (th_queue s)\<lparr>pq_items := take n (th_h ?s2)\<rparr>)"
    using n assms(2) by (simp add: Queue_Remove_def th_queue_def Let_def s2(3))
  have "length ?ds = Suc n" using pq_down_facts [of n "pq_swap (th_h s) i n"] n by simp
  then have len: "length (th_h ?s2) = Suc n" using n by (simp add: s2(3))
  note pop = taskHeap_Pop_ok [OF s2(1) len]
  note k = keyed.remove_ok [OF ok(2) _ rm]
  have x: "th_h ?s2 ! n = th_h s ! i" using k assms(2) by (simp add: th_queue_def)
  have eq: "heap_Remove (int i) s = Some (th_h s ! i, ?s3)"
    using n assms(2) pop(1) x by (simp add: heap_Remove_def taskHeap_Len_def Let_def)
  have same: "th_same s ?s3" by (rule th_same_trans [OF s2(2) pop(3)])
  have "th_inv ?s3" by (rule th_invI [OF pop(4) same]) (use k assms(2) pop(2) in \<open>simp add: keyed.heap_inv_def th_queue_def\<close>)
  then show ?thesis using eq same k assms(2) pop(2) x by (auto simp: th_queue_def)
qed

section \<open>The pending tasks as a multiset\<close>

type_synonym tq_entry = "string \<times> time \<times> nat"

definition tt_entry :: "Task \<Rightarrow> tq_entry" where
  "tt_entry t = (tt_ID t, tt_ExecuteAt t, tt_Fn t)"

definition th_entries :: "taskHeap \<Rightarrow> tq_entry multiset" where
  "th_entries s = image_mset (\<lambda>a. tt_entry (th_tasks s ! a)) (mset (th_h s))"

text \<open>The specification: an added task replaces the one with its identifier; the empty identifier is no identifier.\<close>

definition spec_add :: "tq_entry \<Rightarrow> tq_entry multiset \<Rightarrow> tq_entry multiset" where
  "spec_add e E = add_mset e {# x \<in># E. fst e = [] \<or> fst x \<noteq> fst e #}"

definition spec_cancel :: "string \<Rightarrow> tq_entry multiset \<Rightarrow> tq_entry multiset" where
  "spec_cancel ident E = (if ident = [] then E else {# x \<in># E. fst x \<noteq> ident #})"

definition tq_core :: "taskHeap \<Rightarrow> (string \<rightharpoonup> nat) \<Rightarrow> bool" where
  "tq_core s ix \<longleftrightarrow> th_inv s \<and> (\<forall>k a. ix k = Some a \<longleftrightarrow> k \<noteq> [] \<and> a \<in> set (th_h s) \<and> tt_ID (th_tasks s ! a) = k)"

lemma th_same_entry: "th_same s s' \<Longrightarrow> tt_entry (th_tasks s' ! a) = tt_entry (th_tasks s ! a)"
  using th_sameD(2-4) [of s s'] by (simp add: tt_entry_def th_key_def fun_eq_iff)

lemma th_same_entries: "th_same s s' \<Longrightarrow> th_entries s' = image_mset (\<lambda>a. tt_entry (th_tasks s ! a)) (mset (th_h s'))"
  by (simp add: th_entries_def th_same_entry)

lemma th_ok_distinct: "th_inv s \<Longrightarrow> distinct (th_h s)"
  by (simp add: th_inv_def th_ok_def)

lemma th_inv_range: "th_inv s \<Longrightarrow> a \<in> set (th_h s) \<Longrightarrow> a < length (th_tasks s)"
  by (auto simp: th_inv_def th_ok_def in_set_conv_nth)

text \<open>Taking a task out of the heap and its identifier out of the index.\<close>

lemma tq_core_remove:
  assumes core: "tq_core s ix" and same: "th_same s s'" and inv: "th_inv s'" and ms: "mset (th_h s) = add_mset a (mset (th_h s'))"
  shows "tq_core s' (ix(tt_ID (th_tasks s ! a) := None))" "set (th_h s') = set (th_h s) - {a}" "a \<in> set (th_h s)"
    "th_entries s = add_mset (tt_entry (th_tasks s ! a)) (th_entries s')"
proof -
  have m: "mset (th_h s) = mset (a # th_h s')" using ms by simp
  have "distinct (a # th_h s')" using mset_eq_imp_distinct_iff [OF m] core by (simp add: tq_core_def th_ok_distinct)
  then show set: "set (th_h s') = set (th_h s) - {a}" using mset_eq_setD [OF m] by simp
  show a: "a \<in> set (th_h s)" using mset_eq_setD [OF m] by simp
  show "th_entries s = add_mset (tt_entry (th_tasks s ! a)) (th_entries s')"
    unfolding th_same_entries [OF same] by (simp add: th_entries_def ms)
  let ?k = "tt_ID (th_tasks s ! a)"
  have ix: "ix k = Some b \<longleftrightarrow> k \<noteq> [] \<and> b \<in> set (th_h s) \<and> tt_ID (th_tasks s ! b) = k" for k b
    using core by (simp add: tq_core_def)
  have "(ix(?k := None)) k = Some b \<longleftrightarrow> k \<noteq> [] \<and> b \<in> set (th_h s') \<and> tt_ID (th_tasks s ! b) = k" for k b
  proof (cases "k = ?k")
    case True
    have "b = a" if "k \<noteq> []" "b \<in> set (th_h s)" "tt_ID (th_tasks s ! b) = k"
    proof -
      have "ix k = Some b" by (rule iffD2 [OF ix]) (intro conjI that)
      moreover have "ix k = Some a" by (rule iffD2 [OF ix]) (intro conjI that(1) a True [symmetric])
      ultimately show ?thesis by simp
    qed
    then show ?thesis using True set by (metis DiffD1 DiffD2 fun_upd_same insertI1 option.distinct(1))
  next
    case False
    then have "b = a \<Longrightarrow> tt_ID (th_tasks s ! b) \<noteq> k" by simp
    then show ?thesis using ix [of k b] False unfolding set by (simp add: fun_upd_def) blast
  qed
  then show "tq_core s' (ix(?k := None))" using inv th_sameD(3) [OF same] by (simp add: tq_core_def)
qed

lemma tq_core_entry_unique:
  assumes "tq_core s ix" "ix k = Some a" "b \<in> set (th_h s)" "tt_ID (th_tasks s ! b) = k"
  shows "b = a"
  using assms by (metis option.inject tq_core_def)

lemma tq_core_absent:
  assumes "tq_core s ix" "ix k = None" "k \<noteq> []"
  shows "{# x \<in># th_entries s. fst x \<noteq> k #} = th_entries s"
proof -
  have "\<forall>b\<in>set (th_h s). tt_ID (th_tasks s ! b) \<noteq> k" using assms by (metis option.distinct(1) tq_core_def)
  then show ?thesis by (auto simp: th_entries_def tt_entry_def filter_mset_eq_conv)
qed

lemma tq_drop_ok:
  assumes core: "tq_core (tq_heap q) (tq_idIndex q)" and k: "tq_idIndex q k = Some a"
  shows "\<exists>h. tq_drop k a q = Some (q\<lparr>tq_heap := h, tq_idIndex := (tq_idIndex q)(k := None)\<rparr>)
    \<and> tq_core h ((tq_idIndex q)(k := None)) \<and> th_same (tq_heap q) h \<and> set (th_h h) = set (th_h (tq_heap q)) - {a}
    \<and> th_entries h = {# x \<in># th_entries (tq_heap q). fst x \<noteq> k #}"
proof -
  let ?s = "tq_heap q"
  have inv: "th_inv ?s" and ka: "k \<noteq> []" "a \<in> set (th_h ?s)" "tt_ID (th_tasks ?s ! a) = k" using core k by (auto simp: tq_core_def)
  then obtain i where i: "i < length (th_h ?s)" "th_h ?s ! i = a" by (auto simp: in_set_conv_nth)
  then have ix: "tt_index (th_tasks ?s ! a) = int i" using inv by (auto simp: th_inv_def th_ok_def)
  obtain h where h: "heap_Remove (int i) ?s = Some (a, h)" "th_inv h" "th_same ?s h" "mset (th_h ?s) = add_mset a (mset (th_h h))"
    using heap_Remove_ok [OF inv i(1)] i(2) by auto
  note r = tq_core_remove [OF core h(3,2,4)]
  have c': "tq_core h ((tq_idIndex q)(k := None))" using r(1) ka(3) by simp
  have "{# x \<in># th_entries h. fst x \<noteq> k #} = th_entries h" by (rule tq_core_absent [OF c' _ ka(1)]) simp
  then have "th_entries h = {# x \<in># th_entries ?s. fst x \<noteq> k #}" using r(4) ka(3) by (simp add: tt_entry_def)
  then show ?thesis using h r(2) c' ix by (intro exI [of _ h]) (simp add: tq_drop_def)
qed

section \<open>The steps of the loop\<close>

text \<open>The addresses of the tasks on their way through the channel.\<close>

definition tq_adds :: "TimerQueue \<Rightarrow> nat list" where
  "tq_adds q = List.map_filter cmd_add (tq_cmdCh q)"

definition tq_inv :: "TimerQueue \<Rightarrow> bool" where
  "tq_inv q \<longleftrightarrow> tq_core (tq_heap q) (tq_idIndex q) \<and> tq_pending q = int (length (th_h (tq_heap q)))
     \<and> distinct (tq_adds q) \<and> (\<forall>a\<in>set (tq_adds q). a < length (th_tasks (tq_heap q)) \<and> a \<notin> set (th_h (tq_heap q)))"

definition tq_entries :: "TimerQueue \<Rightarrow> tq_entry multiset" where
  "tq_entries q = th_entries (tq_heap q)"

text \<open>A command as the specification sees it.\<close>

definition tq_abs_cmd :: "TimerQueue \<Rightarrow> tq_command \<Rightarrow> tq_entry option \<times> string" where
  "tq_abs_cmd q c = (map_option (\<lambda>a. tt_entry (th_tasks (tq_heap q) ! a)) (cmd_add c), cmd_cancel c)"

definition tq_chan :: "TimerQueue \<Rightarrow> (tq_entry option \<times> string) list" where
  "tq_chan q = map (tq_abs_cmd q) (tq_cmdCh q)"

fun spec_command :: "tq_entry option \<times> string \<Rightarrow> tq_entry multiset \<Rightarrow> tq_entry multiset" where
  "spec_command (e, k) E = spec_cancel k (case e of None \<Rightarrow> E | Some t \<Rightarrow> spec_add t E)"

lemma TimerQueue_New_sel:
  "tq_cmdCh (TimerQueue_New opts) = [] \<and> tq_heap (TimerQueue_New opts) = \<lparr>th_tasks = [], th_h = []\<rparr>
   \<and> tq_idIndex (TimerQueue_New opts) = Map.empty \<and> tq_pending (TimerQueue_New opts) = 0 \<and> 0 < tq_chanSize (TimerQueue_New opts)"
proof -
  have keep: "tq_cmdCh (fold tq_apply opts q) = tq_cmdCh q \<and> tq_heap (fold tq_apply opts q) = tq_heap q
      \<and> tq_idIndex (fold tq_apply opts q) = tq_idIndex q \<and> tq_pending (fold tq_apply opts q) = tq_pending q
      \<and> (0 < tq_chanSize q \<longrightarrow> 0 < tq_chanSize (fold tq_apply opts q))" for q
  proof (induction opts arbitrary: q)
    case (Cons x xs)
    show ?case using Cons [of "tq_apply x q"] by (cases x) (simp_all split: if_splits)
  qed simp
  show ?thesis unfolding TimerQueue_New_def by (simp add: keep)
qed

lemma th_inv_empty: "th_h s = [] \<Longrightarrow> th_inv s"
  by (simp add: th_inv_def th_ok_def keyed.heap_inv_def th_queue_def pq_heap_def)

lemma tq_inv_new: "tq_inv (tq_enter (TimerQueue_New opts)) \<and> tq_entries (tq_enter (TimerQueue_New opts)) = {#}"
  using TimerQueue_New_sel [of opts]
  by (simp add: tq_inv_def tq_core_def tq_enter_def th_inv_empty tq_adds_def tq_entries_def th_entries_def List.map_filter_def)

lemma tq_inv_leave: "tq_inv q \<Longrightarrow> tq_inv (tq_leave q) \<and> tq_entries (tq_leave q) = {#}"
  by (simp add: tq_inv_def tq_core_def tq_leave_def th_inv_empty tq_adds_def tq_entries_def th_entries_def)

text \<open>Clients: a task that is allocated does not disturb the heap.\<close>

lemma tq_core_alloc:
  assumes "tq_core s ix"
  shows "tq_core (s\<lparr>th_tasks := th_tasks s @ [t]\<rparr>) ix" "th_entries (s\<lparr>th_tasks := th_tasks s @ [t]\<rparr>) = th_entries s"
proof -
  let ?s = "s\<lparr>th_tasks := th_tasks s @ [t]\<rparr>"
  have inv: "th_inv s" using assms by (simp add: tq_core_def)
  have old: "th_tasks ?s ! a = th_tasks s ! a" if "a \<in> set (th_h s)" for a
    using th_inv_range [OF inv that] by (simp add: nth_append)
  have key: "\<forall>a\<in>set (th_h s). th_key ?s a = th_key s a" using old by (simp add: th_key_def)
  have "pq_heap (th_lt s) (th_h s) (length (th_h s))" using inv by (simp add: th_inv_def keyed.heap_inv_def th_queue_def)
  from pq_heap_cong [OF this key] have "keyed.heap_inv (th_key ?s) (th_queue ?s)" by (simp add: keyed.heap_inv_def th_queue_def)
  moreover have "th_ok ?s" using inv old unfolding th_inv_def th_ok_def by (simp add: less_SucI)
  ultimately have "th_inv ?s" by (simp add: th_inv_def)
  moreover have "ix k = Some a \<longleftrightarrow> k \<noteq> [] \<and> a \<in> set (th_h ?s) \<and> tt_ID (th_tasks ?s ! a) = k" for k a
  proof -
    have "ix k = Some a \<longleftrightarrow> k \<noteq> [] \<and> a \<in> set (th_h s) \<and> tt_ID (th_tasks s ! a) = k" using assms by (simp add: tq_core_def)
    then show ?thesis using old [of a] by auto
  qed
  ultimately show "tq_core ?s ix" unfolding tq_core_def by blast
  show "th_entries ?s = th_entries s" using old by (auto simp: th_entries_def intro!: image_mset_cong)
qed

lemma map_filter_append [simp]: "List.map_filter f (xs @ ys) = List.map_filter f xs @ List.map_filter f ys"
  by (simp add: List.map_filter_def)

lemma map_filter_one [simp]: "List.map_filter f [x] = (case f x of None \<Rightarrow> [] | Some y \<Rightarrow> [y])"
  by (simp add: List.map_filter_def split: option.split)

lemma tq_adds_range: "tq_inv q \<Longrightarrow> c \<in> set (tq_cmdCh q) \<Longrightarrow> cmd_add c = Some a \<Longrightarrow> a < length (th_tasks (tq_heap q))"
  unfolding tq_inv_def tq_adds_def List.map_filter_def by force

lemma TimerQueue_AddAt_ok:
  assumes "tq_inv q"
  shows "case TimerQueue_AddAt k at fn q of (r, q') \<Rightarrow>
     tq_inv q' \<and> tq_entries q' = tq_entries q \<and> (r \<longleftrightarrow> fn \<noteq> None \<and> int (length (tq_cmdCh q)) < tq_chanSize q)
     \<and> tq_chan q' = (if r then tq_chan q @ [(Some (k, at, the fn), [])] else tq_chan q)"
proof (cases fn)
  case None
  then show ?thesis using assms by (simp add: TimerQueue_AddAt_def)
next
  case (Some f)
  let ?t = "\<lparr>tt_ID = k, tt_ExecuteAt = at, tt_Fn = f, tt_index = 0\<rparr>" and ?n = "length (th_tasks (tq_heap q))"
  let ?q = "q\<lparr>tq_heap := (tq_heap q)\<lparr>th_tasks := th_tasks (tq_heap q) @ [?t]\<rparr>\<rparr>"
  have core: "tq_core (tq_heap q) (tq_idIndex q)" using assms by (simp add: tq_inv_def)
  note al = tq_core_alloc [OF core, of ?t]
  have old: "tq_abs_cmd ?q c = tq_abs_cmd q c" if "c \<in> set (tq_cmdCh q)" for c
    using tq_adds_range [OF assms that] by (cases "cmd_add c") (simp_all add: tq_abs_cmd_def nth_append)
  have inv: "tq_inv ?q" using assms al(1) unfolding tq_inv_def by (auto simp: tq_adds_def less_SucI)
  have fresh: "?n \<notin> set (th_h (tq_heap q))" "?n \<notin> set (tq_adds q)"
    using core th_inv_range [of "tq_heap q"] assms by (auto simp: tq_core_def tq_inv_def)
  let ?c = "\<lparr>cmd_add = Some ?n, cmd_cancel = []\<rparr>"
  have "tq_inv (?q\<lparr>tq_cmdCh := tq_cmdCh q @ [?c]\<rparr>)"
    using inv fresh by (auto simp: tq_inv_def tq_adds_def less_SucI)
  moreover have "tq_chan (?q\<lparr>tq_cmdCh := tq_cmdCh q @ [?c]\<rparr>) = tq_chan q @ [(Some (k, at, f), [])]"
    using old by (simp add: tq_chan_def tq_abs_cmd_def tt_entry_def nth_append)
  moreover have "tq_chan ?q = tq_chan q" using old by (simp add: tq_chan_def)
  ultimately show ?thesis using Some inv al(2)
    by (simp add: TimerQueue_AddAt_def tq_alloc_def tq_send_def tq_entries_def)
qed

lemma TimerQueue_Cancel_ok:
  assumes "tq_inv q"
  shows "case TimerQueue_Cancel k q of (r, q') \<Rightarrow>
     tq_inv q' \<and> tq_entries q' = tq_entries q \<and> (r \<longleftrightarrow> k \<noteq> [] \<and> int (length (tq_cmdCh q)) < tq_chanSize q)
     \<and> tq_chan q' = (if r then tq_chan q @ [(None, k)] else tq_chan q)"
  using assms
  by (auto simp: TimerQueue_Cancel_def tq_send_def tq_inv_def tq_adds_def tq_entries_def tq_chan_def tq_abs_cmd_def)

text \<open>The goroutine: adding a task, with the identifier free.\<close>

lemma tq_core_push:
  assumes core: "tq_core s ix" and a: "a < length (th_tasks s)" "a \<notin> set (th_h s)"
    and free: "tt_ID (th_tasks s ! a) = [] \<or> ix (tt_ID (th_tasks s ! a)) = None"
  shows "tq_core (heap_Push a s) (if tt_ID (th_tasks s ! a) \<noteq> [] then ix(tt_ID (th_tasks s ! a) \<mapsto> a) else ix)"
    "th_entries (heap_Push a s) = add_mset (tt_entry (th_tasks s ! a)) (th_entries s)"
    "set (th_h (heap_Push a s)) = insert a (set (th_h s))" "th_same s (heap_Push a s)"
proof -
  let ?k = "tt_ID (th_tasks s ! a)"
  have inv: "th_inv s" using core by (simp add: tq_core_def)
  note p = heap_Push_ok [OF inv a]
  show "th_entries (heap_Push a s) = add_mset (tt_entry (th_tasks s ! a)) (th_entries s)"
    using th_same_entries [OF p(2)] p(3) by (simp add: th_entries_def)
  have "mset (th_h (heap_Push a s)) = mset (a # th_h s)" using p(3) by simp
  from mset_eq_setD [OF this] show set: "set (th_h (heap_Push a s)) = insert a (set (th_h s))" by simp
  show "th_same s (heap_Push a s)" by (rule p(2))
  have ix: "ix k = Some b \<longleftrightarrow> k \<noteq> [] \<and> b \<in> set (th_h s) \<and> tt_ID (th_tasks s ! b) = k" for k b
    using core by (simp add: tq_core_def)
  have "(if ?k \<noteq> [] then ix(?k \<mapsto> a) else ix) k = Some b \<longleftrightarrow> k \<noteq> [] \<and> b \<in> insert a (set (th_h s)) \<and> tt_ID (th_tasks s ! b) = k" for k b
  proof (cases "b = a")
    case True
    then show ?thesis using ix [of k a] a(2) by (auto split: if_splits)
  next
    case False
    have "ix ?k = None \<Longrightarrow> b \<in> set (th_h s) \<Longrightarrow> ?k \<noteq> [] \<Longrightarrow> tt_ID (th_tasks s ! b) \<noteq> ?k" using ix [of ?k b] by auto
    then show ?thesis using ix [of k b] False free by (cases "k = ?k") (auto split: if_splits)
  qed
  then show "tq_core (heap_Push a s) (if ?k \<noteq> [] then ix(?k \<mapsto> a) else ix)"
    using p(1) set th_sameD(3) [OF p(2)] unfolding tq_core_def by simp
qed

lemma tq_upd_comm: "q\<lparr>tq_idIndex := ix, tq_heap := h\<rparr> = q\<lparr>tq_heap := h, tq_idIndex := ix\<rparr>"
  by (cases q) simp

lemma tq_insert_ok:
  assumes core: "tq_core (tq_heap q) (tq_idIndex q)" and a: "a < length (th_tasks (tq_heap q))" "a \<notin> set (th_h (tq_heap q))"
  shows "\<exists>h ix. tq_insert a q = Some (tq_setPending (q\<lparr>tq_heap := h, tq_idIndex := ix\<rparr>)) \<and> tq_core h ix \<and> th_same (tq_heap q) h
    \<and> set (th_h h) \<subseteq> insert a (set (th_h (tq_heap q)))
    \<and> th_entries h = spec_add (tt_entry (th_tasks (tq_heap q) ! a)) (th_entries (tq_heap q))"
proof -
  let ?s = "tq_heap q" let ?k = "tt_ID (th_tasks ?s ! a)" and ?e = "tt_entry (th_tasks ?s ! a)"
  have e: "fst ?e = ?k" by (simp add: tt_entry_def)
  consider (anon) "?k = []" | (new) "?k \<noteq> []" "tq_idIndex q ?k = None" | (old) b where "?k \<noteq> []" "tq_idIndex q ?k = Some b"
    by (cases "tq_idIndex q ?k") auto
  then show ?thesis
  proof cases
    case anon
    note p = tq_core_push [OF core a disjI1 [OF anon]]
    have "tq_insert a q = Some (tq_setPending (q\<lparr>tq_heap := heap_Push a ?s, tq_idIndex := tq_idIndex q\<rparr>))"
      using anon by (simp add: tq_insert_def)
    then show ?thesis using p anon e by (intro exI [of _ "heap_Push a ?s"] exI [of _ "tq_idIndex q"]) (simp add: spec_add_def)
  next
    case new
    note p = tq_core_push [OF core a disjI2 [OF new(2)]]
    have "tq_insert a q = Some (tq_setPending (q\<lparr>tq_heap := heap_Push a ?s, tq_idIndex := (tq_idIndex q)(?k \<mapsto> a)\<rparr>))"
      using new by (simp add: tq_insert_def tq_upd_comm)
    then show ?thesis using p new e tq_core_absent [OF core new(2,1)]
      by (intro exI [of _ "heap_Push a ?s"] exI [of _ "(tq_idIndex q)(?k \<mapsto> a)"]) (simp add: spec_add_def)
  next
    case old
    obtain h where h: "tq_drop ?k b q = Some (q\<lparr>tq_heap := h, tq_idIndex := (tq_idIndex q)(?k := None)\<rparr>)"
        "tq_core h ((tq_idIndex q)(?k := None))" "th_same ?s h" "set (th_h h) = set (th_h ?s) - {b}"
        "th_entries h = {# x \<in># th_entries ?s. fst x \<noteq> ?k #}"
      using tq_drop_ok [OF core old(2)] by blast
    have same: "th_tasks h ! a = th_tasks h ! a" "tt_ID (th_tasks h ! a) = ?k" "tt_entry (th_tasks h ! a) = ?e"
      using th_sameD(3) [OF h(3)] th_same_entry [OF h(3)] by simp_all
    have ah: "a < length (th_tasks h)" "a \<notin> set (th_h h)" using a h(4) th_sameD(1) [OF h(3)] by simp_all
    have free: "tt_ID (th_tasks h ! a) = [] \<or> ((tq_idIndex q)(?k := None)) (tt_ID (th_tasks h ! a)) = None"
      unfolding same(2) by simp
    note p = tq_core_push [OF h(2) ah free, unfolded same(2,3)]
    have "tq_insert a q = Some (tq_setPending (q\<lparr>tq_heap := heap_Push a h, tq_idIndex := (tq_idIndex q)(?k \<mapsto> a)\<rparr>))"
      using old h(1) by (simp add: tq_insert_def Let_def tq_upd_comm)
    moreover have "tq_core (heap_Push a h) ((tq_idIndex q)(?k \<mapsto> a))" using p(1) old(1) by simp
    moreover have "th_same ?s (heap_Push a h)" by (rule th_same_trans [OF h(3) p(4)])
    moreover have "set (th_h (heap_Push a h)) \<subseteq> insert a (set (th_h ?s))" using p(3) h(4) by auto
    moreover have "th_entries (heap_Push a h) = spec_add ?e (th_entries ?s)" using p(2) h(5) e old(1) by (simp add: spec_add_def)
    ultimately show ?thesis by blast
  qed
qed

lemma tq_cancel_ok:
  assumes core: "tq_core (tq_heap q) (tq_idIndex q)" and k: "k \<noteq> []" and pend: "tq_pending q = int (length (th_h (tq_heap q)))"
  shows "\<exists>h ix. tq_cancel k q = Some (tq_setPending (q\<lparr>tq_heap := h, tq_idIndex := ix\<rparr>)) \<and> tq_core h ix \<and> th_same (tq_heap q) h
    \<and> set (th_h h) \<subseteq> set (th_h (tq_heap q)) \<and> th_entries h = spec_cancel k (th_entries (tq_heap q))"
proof (cases "tq_idIndex q k")
  case None
  have "q = tq_setPending (q\<lparr>tq_heap := tq_heap q, tq_idIndex := tq_idIndex q\<rparr>)"
    using pend by (simp add: tq_setPending_def taskHeap_Len_def)
  then have "tq_cancel k q = Some (tq_setPending (q\<lparr>tq_heap := tq_heap q, tq_idIndex := tq_idIndex q\<rparr>))"
    using None by (simp add: tq_cancel_def)
  moreover have "th_entries (tq_heap q) = spec_cancel k (th_entries (tq_heap q))"
    using tq_core_absent [OF core None k] by (simp add: spec_cancel_def)
  ultimately show ?thesis using core by (intro exI [of _ "tq_heap q"] exI [of _ "tq_idIndex q"]) simp
next
  case (Some a)
  show ?thesis using tq_drop_ok [OF core Some] Some k by (force simp: tq_cancel_def spec_cancel_def)
qed

text \<open>What the two parts of a command have in common.\<close>

definition tq_moves :: "nat set \<Rightarrow> TimerQueue \<Rightarrow> TimerQueue \<Rightarrow> bool" where
  "tq_moves A q q' \<longleftrightarrow> tq_core (tq_heap q') (tq_idIndex q') \<and> th_same (tq_heap q) (tq_heap q')
     \<and> set (th_h (tq_heap q')) \<subseteq> A \<union> set (th_h (tq_heap q)) \<and> tq_pending q' = int (length (th_h (tq_heap q')))
     \<and> tq_cmdCh q' = tq_cmdCh q"

lemma tq_movesI:
  "tq_core h ix \<Longrightarrow> th_same (tq_heap q) h \<Longrightarrow> set (th_h h) \<subseteq> A \<union> set (th_h (tq_heap q)) \<Longrightarrow>
     tq_moves A q (tq_setPending (q\<lparr>tq_heap := h, tq_idIndex := ix\<rparr>))"
  by (simp add: tq_moves_def tq_setPending_def taskHeap_Len_def)

lemma tq_moves_trans: "tq_moves A q q' \<Longrightarrow> tq_moves A q' q'' \<Longrightarrow> tq_moves A q q''"
  unfolding tq_moves_def by (auto intro: th_same_trans)

lemma tq_moves_chan:
  assumes "tq_moves A q q'"
  shows "tq_chan q' = tq_chan q" "tq_adds q' = tq_adds q"
  using assms th_same_entry by (auto simp: tq_moves_def tq_chan_def tq_adds_def tq_abs_cmd_def)

lemma tq_inv_moves: "tq_inv q \<Longrightarrow> tq_moves A q q' \<Longrightarrow> A \<inter> set (tq_adds q) = {} \<Longrightarrow> tq_inv q'"
  using tq_moves_chan(2) [of A q q'] th_sameD(1) [of "tq_heap q" "tq_heap q'"] unfolding tq_inv_def tq_moves_def by auto

lemma tq_command_step_ok:
  assumes inv: "tq_inv q" and c: "\<forall>a\<in>set_option (cmd_add c). a < length (th_tasks (tq_heap q)) \<and> a \<notin> set (th_h (tq_heap q))"
  shows "\<exists>q'. tq_command_step c q = Some q' \<and> tq_moves (set_option (cmd_add c)) q q'
    \<and> tq_entries q' = spec_command (tq_abs_cmd q c) (tq_entries q)"
proof -
  let ?A = "set_option (cmd_add c)"
  have core: "tq_core (tq_heap q) (tq_idIndex q)" using inv by (simp add: tq_inv_def)
  have "\<exists>q1. (case cmd_add c of None \<Rightarrow> Some q | Some a \<Rightarrow> tq_insert a q) = Some q1 \<and> tq_moves ?A q q1
      \<and> tq_entries q1 = (case cmd_add c of None \<Rightarrow> tq_entries q | Some a \<Rightarrow> spec_add (tt_entry (th_tasks (tq_heap q) ! a)) (tq_entries q))"
  proof (cases "cmd_add c")
    case None
    then show ?thesis using inv by (simp add: tq_moves_def tq_inv_def)
  next
    case (Some a)
    from tq_insert_ok [OF core, of a] c Some
    obtain h ix where h: "tq_insert a q = Some (tq_setPending (q\<lparr>tq_heap := h, tq_idIndex := ix\<rparr>))" "tq_core h ix" "th_same (tq_heap q) h"
        "set (th_h h) \<subseteq> insert a (set (th_h (tq_heap q)))" "th_entries h = spec_add (tt_entry (th_tasks (tq_heap q) ! a)) (th_entries (tq_heap q))"
      by auto
    have "tq_moves ?A q (tq_setPending (q\<lparr>tq_heap := h, tq_idIndex := ix\<rparr>))" by (rule tq_movesI) (use h Some in simp_all)
    then show ?thesis using h(1,5) Some by (simp add: tq_entries_def) (simp add: tq_setPending_def)
  qed
  then obtain q1 where q1: "(case cmd_add c of None \<Rightarrow> Some q | Some a \<Rightarrow> tq_insert a q) = Some q1" "tq_moves ?A q q1"
      "tq_entries q1 = (case fst (tq_abs_cmd q c) of None \<Rightarrow> tq_entries q | Some t \<Rightarrow> spec_add t (tq_entries q))"
    by (cases "cmd_add c") (auto simp: tq_abs_cmd_def)
  show ?thesis
  proof (cases "cmd_cancel c = []")
    case True
    then show ?thesis using q1 by (simp add: tq_command_step_def tq_abs_cmd_def spec_cancel_def)
  next
    case False
    have c1: "tq_core (tq_heap q1) (tq_idIndex q1)" "tq_pending q1 = int (length (th_h (tq_heap q1)))" using q1(2) by (simp_all add: tq_moves_def)
    from tq_cancel_ok [OF c1(1) False c1(2)]
    obtain h ix where h: "tq_cancel (cmd_cancel c) q1 = Some (tq_setPending (q1\<lparr>tq_heap := h, tq_idIndex := ix\<rparr>))" "tq_core h ix" "th_same (tq_heap q1) h"
        "set (th_h h) \<subseteq> set (th_h (tq_heap q1))" "th_entries h = spec_cancel (cmd_cancel c) (th_entries (tq_heap q1))" by blast
    let ?q2 = "tq_setPending (q1\<lparr>tq_heap := h, tq_idIndex := ix\<rparr>)"
    have "tq_moves ?A q1 ?q2" by (rule tq_movesI) (use h in auto)
    from tq_moves_trans [OF q1(2) this] have "tq_moves ?A q ?q2" .
    moreover have "tq_entries ?q2 = spec_cancel (cmd_cancel c) (tq_entries q1)" using h(5) by (simp add: tq_entries_def tq_setPending_def)
    ultimately show ?thesis using q1(1,3) h(1) False by (simp add: tq_command_step_def tq_abs_cmd_def)
  qed
qed

lemma tq_recv_ok:
  assumes inv: "tq_inv q" and ch: "tq_cmdCh q = c # cs"
  shows "\<exists>q'. tq_recv q = Some q' \<and> tq_inv q' \<and> tq_entries q' = spec_command (hd (tq_chan q)) (tq_entries q) \<and> tq_chan q' = tl (tq_chan q)"
proof -
  let ?q = "q\<lparr>tq_cmdCh := cs\<rparr>"
  have adds: "tq_adds q = (case cmd_add c of None \<Rightarrow> [] | Some a \<Rightarrow> [a]) @ tq_adds ?q"
    by (simp add: tq_adds_def ch List.map_filter_def split: option.split)
  have inv': "tq_inv ?q" using inv adds by (auto simp: tq_inv_def)
  have abs: "tq_abs_cmd ?q c = hd (tq_chan q)" "tq_chan ?q = tl (tq_chan q)" "tq_entries ?q = tq_entries q"
    using ch by (simp_all add: tq_chan_def tq_abs_cmd_def tq_entries_def)
  have "\<forall>a\<in>set_option (cmd_add c). a < length (th_tasks (tq_heap ?q)) \<and> a \<notin> set (th_h (tq_heap ?q))"
    using inv adds by (simp add: tq_inv_def split: option.splits)
  from tq_command_step_ok [OF inv' this] obtain q' where q': "tq_command_step c ?q = Some q'" "tq_moves (set_option (cmd_add c)) ?q q'"
      "tq_entries q' = spec_command (hd (tq_chan q)) (tq_entries q)" unfolding abs by blast
  have "set_option (cmd_add c) \<inter> set (tq_adds ?q) = {}" using inv adds by (auto simp: tq_inv_def)
  then have "tq_inv q'" by (rule tq_inv_moves [OF inv' q'(2)])
  then show ?thesis using q' ch abs(2) tq_moves_chan(1) [OF q'(2)] by (simp add: tq_recv_def)
qed

lemma tq_expire_ok:
  assumes "tq_core (tq_heap q) (tq_idIndex q)" "tq_expire boom now q = (fired, q')"
  shows "tq_moves {} q (tq_setPending q') \<and> sorted (map (\<lambda>p. tt_ExecuteAt (fst p)) fired)
    \<and> mset (map (\<lambda>p. tt_entry (fst p)) fired) = {# x \<in># tq_entries q. fst (snd x) \<le> now #}
    \<and> tq_entries q' = {# x \<in># tq_entries q. now < fst (snd x) #}
    \<and> (\<forall>p\<in>set fired. snd p = TimerQueue_fire boom q (fst p))"
  using assms
proof (induction boom now q arbitrary: fired rule: tq_expire.induct)
  case (1 boom now q)
  let ?s = "tq_heap q"
  have inv: "th_inv ?s" using "1.prems"(1) by (simp add: tq_core_def)
  have cong: "tq_setPending q = tq_setPending (q\<lparr>tq_heap := ?s, tq_idIndex := tq_idIndex q\<rparr>)" by simp
  show ?case
  proof (cases "th_h ?s = [] \<or> now < th_key ?s (th_h ?s ! 0)")
    case True
    then have r: "fired = []" "q' = q" using "1.prems"(2) by (auto simp: tq_expire.simps [of boom now q] taskHeap_Len_def)
    have late: "now < th_key ?s b" if "b \<in> set (th_h ?s)" for b
    proof -
      have "th_h ?s \<noteq> []" using that by auto
      then have "th_key ?s (hd (th_h ?s)) \<le> th_key ?s b" using heap_Pop_ok [OF inv] that by blast
      then show ?thesis using True \<open>th_h ?s \<noteq> []\<close> by (simp add: hd_conv_nth)
    qed
    then have "{# x \<in># tq_entries q. fst (snd x) \<le> now #} = {#}" "{# x \<in># tq_entries q. now < fst (snd x) #} = tq_entries q"
      by (force simp: tq_entries_def th_entries_def tt_entry_def th_key_def filter_mset_eq_conv)+
    moreover have "tq_moves {} q (tq_setPending q)" unfolding cong by (rule tq_movesI) (use "1.prems"(1) in simp_all)
    ultimately show ?thesis using r by simp
  next
    case False
    then obtain s' where s': "heap_Pop ?s = Some (hd (th_h ?s), s')" "th_inv s'" "th_same ?s s'"
        "mset (th_h ?s) = add_mset (hd (th_h ?s)) (mset (th_h s'))" "\<forall>b\<in>set (th_h ?s). th_key ?s (hd (th_h ?s)) \<le> th_key ?s b"
      using heap_Pop_ok [OF inv] by blast
    define a where "a = hd (th_h ?s)"
    define ix where "ix = (if tt_ID (th_tasks s' ! a) \<noteq> [] then (tq_idIndex q)(tt_ID (th_tasks s' ! a) := None) else tq_idIndex q)"
    let ?q1 = "q\<lparr>tq_heap := s', tq_idIndex := ix\<rparr>" and ?t = "th_tasks s' ! a"
    note rm = tq_core_remove [OF "1.prems"(1) s'(3,2), of a, folded a_def]
    have "tq_idIndex q [] = None" using "1.prems"(1) unfolding tq_core_def by (metis not_None_eq)
    then have core: "tq_core s' ix" using rm(1) s'(4) th_sameD(3) [OF s'(3), of a] by (auto simp: ix_def a_def fun_upd_idem)
    have due: "th_key ?s a \<le> now" using False by (simp add: a_def hd_conv_nth)
    obtain f2 where f2: "tq_expire boom now ?q1 = (f2, q')" "fired = (?t, TimerQueue_fire boom q ?t) # f2"
      using "1.prems"(2) False s'(1)
      by (subst (asm) tq_expire.simps [of boom now q]) (auto simp: taskHeap_Len_def a_def [symmetric] ix_def Let_def split: prod.splits)
    have IH: "tq_moves {} ?q1 (tq_setPending q') \<and> sorted (map (\<lambda>p. tt_ExecuteAt (fst p)) f2)
        \<and> mset (map (\<lambda>p. tt_entry (fst p)) f2) = {# x \<in># tq_entries ?q1. fst (snd x) \<le> now #}
        \<and> tq_entries q' = {# x \<in># tq_entries ?q1. now < fst (snd x) #}
        \<and> (\<forall>p\<in>set f2. snd p = TimerQueue_fire boom ?q1 (fst p))"
      using core f2(1) unfolding ix_def a_def
      by (intro "1.IH" [OF _ s'(1) refl refl refl]) (use False in \<open>simp_all add: taskHeap_Len_def\<close>)
    have ent: "tq_entries q = add_mset (tt_entry ?t) (tq_entries ?q1)"
      using rm(4) s'(4) th_same_entry [OF s'(3)] by (simp add: tq_entries_def a_def)
    have key: "fst (snd (tt_entry ?t)) = th_key ?s a" "tt_ExecuteAt ?t = th_key ?s a"
      using th_sameD(2) [OF s'(3)] by (simp_all add: tt_entry_def th_key_def fun_eq_iff)
    have "tt_ExecuteAt ?t \<le> tt_ExecuteAt (fst p)" if "p \<in> set f2" for p
    proof -
      have "tt_entry (fst p) \<in># mset (map (\<lambda>p. tt_entry (fst p)) f2)" using that by simp
      then have "tt_entry (fst p) \<in># tq_entries q" using IH ent by (metis (no_types, lifting) add_mset_add_single filter_mset_eq_conv mset_subset_eqD multiset_filter_subset union_iff)
      then obtain b where "b \<in> set (th_h ?s)" "tt_entry (fst p) = tt_entry (th_tasks ?s ! b)" by (auto simp: tq_entries_def th_entries_def)
      then show ?thesis using s'(5) key(2) by (force simp: tt_entry_def th_key_def a_def)
    qed
    then have "sorted (map (\<lambda>p. tt_ExecuteAt (fst p)) fired)" using IH f2(2) by auto
    moreover have "tq_moves {} q (tq_setPending q')"
      using IH th_same_trans [OF s'(3)] rm(2) s'(4) by (auto simp: tq_moves_def a_def)
    moreover have "TimerQueue_fire boom ?q1 = TimerQueue_fire boom q"
      by (simp add: TimerQueue_fire_def TimerQueue_safeCall_def fun_eq_iff)
    ultimately show ?thesis using IH ent key due f2(2) by simp
  qed
qed

text \<open>\<open>Add\<close> does not look at whether the queue runs: before \<open>Start\<close>, and after its return, a command is accepted
  as long as there is room for it.\<close>

lemma TimerQueue_Add_unstarted: "fst (TimerQueue_AddAt k at (Some f) (TimerQueue_New opts))"
  using TimerQueue_New_sel [of opts] by (simp add: TimerQueue_AddAt_def tq_alloc_def tq_send_def)

section \<open>Properties\<close>

text \<open>C20. The heap, the positions stored in the tasks and the index of identifiers refine a multiset of pending tasks
  behind a queue of commands. Clients append to the queue exactly when it has room. The goroutine takes the
  commands in order and never panics: adding a task replaces the pending one with its identifier, cancelling
  removes that one, and tasks without identifier are kept apart. A tick fires exactly the tasks whose time has
  come, each once, in the order of their times, and keeps the rest; \<open>Pending\<close> is always the number of pending
  tasks.\<close>

theorem TimerQueue_refines:
  assumes inv: "tq_inv q"
  shows "TimerQueue_Pending q = int (size (tq_entries q))
    \<and> (case TimerQueue_AddAt k at fn q of (r, q') \<Rightarrow>
         tq_inv q' \<and> tq_entries q' = tq_entries q \<and> (r \<longleftrightarrow> fn \<noteq> None \<and> int (length (tq_cmdCh q)) < tq_chanSize q)
         \<and> tq_chan q' = (if r then tq_chan q @ [(Some (k, at, the fn), [])] else tq_chan q))
    \<and> (case TimerQueue_Cancel k q of (r, q') \<Rightarrow>
         tq_inv q' \<and> tq_entries q' = tq_entries q \<and> (r \<longleftrightarrow> k \<noteq> [] \<and> int (length (tq_cmdCh q)) < tq_chanSize q)
         \<and> tq_chan q' = (if r then tq_chan q @ [(None, k)] else tq_chan q))
    \<and> (case tq_chan q of [] \<Rightarrow> tq_recv q = Some q | c # cs \<Rightarrow>
         (\<exists>q'. tq_recv q = Some q' \<and> tq_inv q' \<and> tq_entries q' = spec_command c (tq_entries q) \<and> tq_chan q' = cs))
    \<and> (case tq_tick boom now q of (fired, q') \<Rightarrow>
         tq_inv q' \<and> tq_chan q' = tq_chan q \<and> tq_entries q' = {# x \<in># tq_entries q. now < fst (snd x) #}
         \<and> mset (map (\<lambda>p. tt_entry (fst p)) fired) = {# x \<in># tq_entries q. fst (snd x) \<le> now #}
         \<and> sorted (map (\<lambda>p. tt_ExecuteAt (fst p)) fired) \<and> list_all (\<lambda>p. snd p = TimerQueue_fire boom q (fst p)) fired)"
proof -
  have core: "tq_core (tq_heap q) (tq_idIndex q)" using inv by (simp add: tq_inv_def)
  have "TimerQueue_Pending q = int (size (tq_entries q))"
    using inv by (simp add: TimerQueue_Pending_def tq_entries_def th_entries_def tq_inv_def)
  moreover have "case tq_chan q of [] \<Rightarrow> tq_recv q = Some q | c # cs \<Rightarrow>
      (\<exists>q'. tq_recv q = Some q' \<and> tq_inv q' \<and> tq_entries q' = spec_command c (tq_entries q) \<and> tq_chan q' = cs)"
  proof (cases "tq_cmdCh q")
    case (Cons c cs)
    then show ?thesis using tq_recv_ok [OF inv Cons] by (simp add: tq_chan_def)
  qed (simp add: tq_chan_def tq_recv_def)
  moreover obtain fired q1 where ex: "tq_expire boom now q = (fired, q1)" by force
  moreover have "tq_inv (tq_setPending q1)" "tq_chan (tq_setPending q1) = tq_chan q" "tq_entries (tq_setPending q1) = tq_entries q1"
    using tq_expire_ok [OF core ex] tq_inv_moves [OF inv] tq_moves_chan(1) by (auto simp: tq_entries_def tq_setPending_def)
  ultimately show ?thesis
    using TimerQueue_AddAt_ok [OF inv, where k = k and at = at and fn = fn] TimerQueue_Cancel_ok [OF inv, where k = k] tq_expire_ok [OF core ex]
    by (simp add: tq_tick_def list_all_iff)
qed

text \<open>Two tasks with the same identifier, one command after the other; the second is pending, and is fired at its time.\<close>

theorem TimerQueue_refines_witness:
  "let q1 = snd (TimerQueue_AddAt ''a'' 3 (Some 1) (tq_enter (TimerQueue_New [])));
       q2 = snd (TimerQueue_AddAt ''a'' 9 (Some 2) q1)
   in \<exists>q3 q4. tq_recv q2 = Some q3 \<and> tq_recv q3 = Some q4 \<and> tq_entries q4 = {#(''a'', 9, 2)#}
        \<and> tq_entries (snd (tq_tick (\<lambda>_. False) 5 q4)) = {#(''a'', 9, 2)#} \<and> tq_entries (snd (tq_tick (\<lambda>_. False) 9 q4)) = {#}"
proof -
  define q0 where "q0 = tq_enter (TimerQueue_New [])"
  define q1 where "q1 = snd (TimerQueue_AddAt ''a'' 3 (Some 1) q0)"
  define q2 where "q2 = snd (TimerQueue_AddAt ''a'' 9 (Some 2) q1)"
  have i0: "tq_inv q0" "tq_entries q0 = {#}" using tq_inv_new [of "[]"] by (simp_all add: q0_def)
  have c0: "tq_chan q0 = []" "tq_cmdCh q0 = []" "tq_chanSize q0 = 1024" by (simp_all add: q0_def tq_enter_def TimerQueue_New_def tq_chan_def)
  note r0 = TimerQueue_refines [OF i0(1), where k = "''a''" and at = 3 and fn = "Some 1", THEN conjunct2, THEN conjunct1]
  have i1: "tq_inv q1" "tq_entries q1 = {#}" "tq_chan q1 = [(Some (''a'', 3, 1), [])]"
    using r0 i0(2) c0 by (auto simp: q1_def split: prod.splits)
  have c1: "tq_chanSize q1 = 1024" "length (tq_cmdCh q1) = 1"
    by (simp_all add: q1_def TimerQueue_AddAt_def tq_alloc_def tq_send_def c0)
  note r1 = TimerQueue_refines [OF i1(1), where k = "''a''" and at = 9 and fn = "Some 2", THEN conjunct2, THEN conjunct1]
  have i2: "tq_inv q2" "tq_entries q2 = {#}" "tq_chan q2 = [(Some (''a'', 3, 1), []), (Some (''a'', 9, 2), [])]"
    using r1 i1 c1 by (auto simp: q2_def split: prod.splits)
  obtain q3 where q3: "tq_recv q2 = Some q3" "tq_inv q3" "tq_entries q3 = {#(''a'', 3, 1)#}" "tq_chan q3 = [(Some (''a'', 9, 2), [])]"
    using TimerQueue_refines [OF i2(1), THEN conjunct2, THEN conjunct2, THEN conjunct2, THEN conjunct1] i2(2,3) by (auto simp: spec_add_def spec_cancel_def)
  obtain q4 where q4: "tq_recv q3 = Some q4" "tq_inv q4" "tq_entries q4 = {#(''a'', 9, 2)#}"
    using TimerQueue_refines [OF q3(2), THEN conjunct2, THEN conjunct2, THEN conjunct2, THEN conjunct1] q3(3,4) by (auto simp: spec_add_def spec_cancel_def)
  have "tq_entries (snd (tq_tick (\<lambda>_. False) n q4)) = {# x \<in># {#(''a'', 9, 2)#}. n < fst (snd x) #}" for n
    using TimerQueue_refines [OF q4(2), where boom = "\<lambda>_. False" and now = n, THEN conjunct2, THEN conjunct2, THEN conjunct2, THEN conjunct2]
      q4(3) by (auto split: prod.splits)
  then show ?thesis using q3(1) q4(1,3) unfolding q0_def [symmetric] q1_def [symmetric] q2_def [symmetric] Let_def by simp
qed

end
