(* ===== verification/Energy.thy ===== *)
theory Energy
  imports Prelude
begin

text \<open>
  \<open>pkg/domain/energy\<close>: a resource that regenerates with time. Nothing runs in the background: every operation first
  credits the whole intervals since the last update (\<open>regen\<close>) and moves the update time by just those
  intervals. Instants are integers (\<open>time.Time\<close> is wider than 64 bits); \<open>Sub\<close> saturates as in the standard library,
  and the products and sums of \<open>int\<close> wrap.
\<close>

section \<open>The resource\<close>

record energy_config =
  ec_cap :: int
  ec_regenInterval :: duration
  ec_regenAmount :: int
  ec_overflow :: bool

datatype energy_option = WithCap int | WithRegenInterval duration | WithRegenAmount int | WithOverflow bool

fun energy_apply :: "energy_option \<Rightarrow> energy_config \<Rightarrow> energy_config" where
  "energy_apply (WithCap n) c = (if 0 < n then c\<lparr>ec_cap := n\<rparr> else c)"
| "energy_apply (WithRegenInterval d) c = (if 0 < d then c\<lparr>ec_regenInterval := d\<rparr> else c)"
| "energy_apply (WithRegenAmount n) c = (if 0 < n then c\<lparr>ec_regenAmount := n\<rparr> else c)"
| "energy_apply (WithOverflow allow) c = c\<lparr>ec_overflow := allow\<rparr>"

definition energy_defaults :: energy_config where
  "energy_defaults = \<lparr>ec_cap = 100, ec_regenInterval = 300 * second, ec_regenAmount = 1, ec_overflow = False\<rparr>"

record Energy =
  en_cfg :: energy_config
  en_cur :: int
  en_lastUpdate :: time

definition Energy_New :: "time \<Rightarrow> energy_option list \<Rightarrow> Energy" where
  "Energy_New now opts =
     (let cfg = fold energy_apply opts energy_defaults in \<lparr>en_cfg = cfg, en_cur = ec_cap cfg, en_lastUpdate = now\<rparr>)"

definition Energy_NewWithState :: "int \<Rightarrow> time \<Rightarrow> energy_option list \<Rightarrow> Energy" where
  "Energy_NewWithState cur lastUpdate opts =
     (let cfg = fold energy_apply opts energy_defaults in \<lparr>en_cfg = cfg, en_cur = cur, en_lastUpdate = lastUpdate\<rparr>)"

text \<open>\<open>Time.Sub\<close> returns the nearest duration.\<close>

definition time_Sub :: "time \<Rightarrow> time \<Rightarrow> duration" where
  "time_Sub t u = max (- (2 ^ 63)) (min (2 ^ 63 - 1) (t - u))"

definition Energy_regen :: "time \<Rightarrow> Energy \<Rightarrow> Energy" where
  "Energy_regen now e =
     (let c = en_cfg e
      in if ec_cap c \<le> en_cur e then e\<lparr>en_lastUpdate := now\<rparr>
         else let elapsed = time_Sub now (en_lastUpdate e)
              in if elapsed < ec_regenInterval c then e
                 else let ticks = go_div elapsed (ec_regenInterval c);
                          gained = wrap64 (ticks * ec_regenAmount c);
                          cur = wrap64 (en_cur e + gained)
                      in e\<lparr>en_cur := (if ec_cap c < cur then ec_cap c else cur),
                           en_lastUpdate := en_lastUpdate e + wrap64 (ticks * ec_regenInterval c)\<rparr>)"

definition Energy_timeToAmount :: "int \<Rightarrow> Energy \<Rightarrow> duration" where
  "Energy_timeToAmount target e =
     (if target \<le> en_cur e then 0
      else let need = wrap64 (target - en_cur e);
               intervals = go_div (wrap64 (need + ec_regenAmount (en_cfg e) - 1)) (ec_regenAmount (en_cfg e))
           in wrap64 (intervals * ec_regenInterval (en_cfg e)))"

definition Energy_Current :: "time \<Rightarrow> Energy \<Rightarrow> int \<times> Energy" where
  "Energy_Current now e = (let e' = Energy_regen now e in (en_cur e', e'))"

definition Energy_Cap :: "Energy \<Rightarrow> int" where
  "Energy_Cap e = ec_cap (en_cfg e)"

text \<open>\<open>True\<close> is a nil error, \<open>False\<close> is \<open>ErrInsufficient\<close>.\<close>

definition Energy_Spend :: "time \<Rightarrow> int \<Rightarrow> Energy \<Rightarrow> bool \<times> Energy" where
  "Energy_Spend now n e =
     (if n \<le> 0 then (True, e)
      else let e' = Energy_regen now e
           in if en_cur e' < n then (False, e') else (True, e'\<lparr>en_cur := en_cur e' - n\<rparr>))"

definition Energy_Add :: "time \<Rightarrow> int \<Rightarrow> Energy \<Rightarrow> int \<times> Energy" where
  "Energy_Add now n e =
     (if n \<le> 0 then Energy_Current now e
      else let e1 = Energy_regen now e; cur = wrap64 (en_cur e1 + n);
               e2 = e1\<lparr>en_cur := (if \<not> ec_overflow (en_cfg e1) \<and> ec_cap (en_cfg e1) < cur then ec_cap (en_cfg e1) else cur)\<rparr>
           in (en_cur e2, e2))"

definition Energy_TimeToFull :: "time \<Rightarrow> Energy \<Rightarrow> duration \<times> Energy" where
  "Energy_TimeToFull now e = (let e' = Energy_regen now e in (Energy_timeToAmount (ec_cap (en_cfg e')) e', e'))"

definition Energy_TimeToAmount :: "time \<Rightarrow> int \<Rightarrow> Energy \<Rightarrow> duration \<times> Energy" where
  "Energy_TimeToAmount now target e = (let e' = Energy_regen now e in (Energy_timeToAmount target e', e'))"

definition Energy_Snapshot :: "time \<Rightarrow> Energy \<Rightarrow> (int \<times> time) \<times> Energy" where
  "Energy_Snapshot now e = (let e' = Energy_regen now e in ((en_cur e', en_lastUpdate e'), e'))"

section \<open>Regeneration\<close>

definition energy_cfg_ok :: "energy_config \<Rightarrow> bool" where
  "energy_cfg_ok c \<longleftrightarrow> 0 < ec_cap c \<and> 0 < ec_regenInterval c \<and> 0 < ec_regenAmount c"

lemma energy_options_ok: "energy_cfg_ok (fold energy_apply opts energy_defaults)"
proof -
  have "energy_cfg_ok c \<Longrightarrow> energy_cfg_ok (fold energy_apply opts c)" for c
  proof (induction opts arbitrary: c)
    case (Cons x xs)
    have "energy_cfg_ok (energy_apply x c)" using Cons.prems by (cases x) (simp_all add: energy_cfg_ok_def)
    then show ?case using Cons.IH by simp
  qed simp
  moreover have "energy_cfg_ok energy_defaults" by (simp add: energy_cfg_ok_def energy_defaults_def second_def)
  ultimately show ?thesis by blast
qed

text \<open>The whole intervals from the last update to \<open>t\<close>, and what would be there at \<open>t\<close> if nothing were capped: the
  budget of the resource up to \<open>t\<close>.\<close>

definition en_ticks :: "Energy \<Rightarrow> time \<Rightarrow> int" where
  "en_ticks e t = (t - en_lastUpdate e) div ec_regenInterval (en_cfg e)"

definition en_budget :: "Energy \<Rightarrow> time \<Rightarrow> int" where
  "en_budget e t = en_cur e + en_ticks e t * ec_regenAmount (en_cfg e)"

text \<open>The arithmetic up to time \<open>t\<close> stays in range.\<close>

definition en_fits :: "Energy \<Rightarrow> time \<Rightarrow> bool" where
  "en_fits e t \<longleftrightarrow> energy_cfg_ok (en_cfg e) \<and> en_lastUpdate e \<le> t \<and> t - en_lastUpdate e < 2 ^ 63 \<and> 0 \<le> en_cur e
     \<and> ec_cap (en_cfg e) < 2 ^ 63 \<and> en_budget e t < 2 ^ 63"

lemma en_ticks_nonneg: "en_fits e t \<Longrightarrow> 0 \<le> en_ticks e t"
  by (simp add: en_fits_def en_ticks_def energy_cfg_ok_def pos_imp_zdiv_nonneg_iff)

lemma en_ticks_mono: "energy_cfg_ok (en_cfg e) \<Longrightarrow> s \<le> t \<Longrightarrow> en_ticks e s \<le> en_ticks e t"
  by (simp add: en_ticks_def energy_cfg_ok_def zdiv_mono1)

lemma en_budget_mono: "energy_cfg_ok (en_cfg e) \<Longrightarrow> s \<le> t \<Longrightarrow> en_budget e s \<le> en_budget e t"
  using en_ticks_mono [of e s t] by (simp add: en_budget_def energy_cfg_ok_def)

lemma en_fits_mono: "en_fits e t \<Longrightarrow> en_lastUpdate e \<le> s \<Longrightarrow> s \<le> t \<Longrightarrow> en_fits e s"
  using en_budget_mono [of e s t] by (simp add: en_fits_def)

text \<open>In range, \<open>regen\<close> credits the whole intervals and caps the result.\<close>

lemma Energy_regen_eq:
  assumes "en_fits e t"
  shows "Energy_regen t e =
     (if ec_cap (en_cfg e) \<le> en_cur e then e\<lparr>en_lastUpdate := t\<rparr>
      else e\<lparr>en_cur := min (ec_cap (en_cfg e)) (en_budget e t),
             en_lastUpdate := en_lastUpdate e + en_ticks e t * ec_regenInterval (en_cfg e)\<rparr>)"
proof -
  let ?c = "en_cfg e" let ?el = "t - en_lastUpdate e" and ?i = "ec_regenInterval ?c" and ?m = "ec_regenAmount ?c"
  have i: "0 < ?i" "0 < ?m" "0 \<le> ?el" "?el < 2 ^ 63" "0 \<le> en_cur e" "en_budget e t < 2 ^ 63" "ec_cap ?c < 2 ^ 63"
    using assms by (simp_all add: en_fits_def energy_cfg_ok_def)
  have sub: "time_Sub t (en_lastUpdate e) = ?el" using i(3,4) by (simp add: time_Sub_def)
  show ?thesis
  proof (cases "ec_cap ?c \<le> en_cur e")
    case False
    show ?thesis
    proof (cases "?el < ?i")
      case True
      then have "en_ticks e t = 0" using i by (simp add: en_ticks_def)
      then show ?thesis using False True sub by (simp add: Energy_regen_def Let_def en_budget_def)
    next
      case ge: False
      have n: "0 \<le> en_ticks e t" by (rule en_ticks_nonneg [OF assms])
      have d: "go_div ?el ?i = en_ticks e t" using i by (simp add: go_div_nonneg en_ticks_def)
      have "0 \<le> en_ticks e t * ?m" "0 \<le> en_ticks e t * ?i" using n i(1,2) by simp_all
      moreover have "en_ticks e t * ?i \<le> ?el" using pos_mod_sign [OF i(1), of ?el] div_mult_mod_eq [of ?el ?i] unfolding en_ticks_def by linarith
      ultimately have "wrap64 (en_ticks e t * ?m) = en_ticks e t * ?m" "wrap64 (en_cur e + en_ticks e t * ?m) = en_budget e t"
          "wrap64 (en_ticks e t * ?i) = en_ticks e t * ?i"
        using i by (simp_all add: in_i64_def en_budget_def)
      then show ?thesis using False ge d by (simp add: Energy_regen_def Let_def sub min_def)
    qed
  qed (simp add: Energy_regen_def)
qed

text \<open>\<open>regen\<close> moves the whole intervals from the clock to the counter: what is credited is no longer owed.\<close>

lemma en_ticks_regen:
  assumes "energy_cfg_ok (en_cfg e)"
  shows "en_ticks (e\<lparr>en_cur := x, en_lastUpdate := en_lastUpdate e + k * ec_regenInterval (en_cfg e)\<rparr>) t = en_ticks e t - k"
proof -
  have i: "ec_regenInterval (en_cfg e) \<noteq> 0" using assms by (simp add: energy_cfg_ok_def)
  have "(t - (en_lastUpdate e + k * ec_regenInterval (en_cfg e))) div ec_regenInterval (en_cfg e)
      = (t - en_lastUpdate e + (- k) * ec_regenInterval (en_cfg e)) div ec_regenInterval (en_cfg e)" by (simp add: algebra_simps)
  also have "\<dots> = - k + (t - en_lastUpdate e) div ec_regenInterval (en_cfg e)" by (rule div_mult_self1 [OF i])
  finally show ?thesis by (simp add: en_ticks_def)
qed

lemma en_budget_regen:
  assumes fs: "en_fits e s" and below: "en_cur e < ec_cap (en_cfg e)"
  shows "en_budget (Energy_regen s e) t =
     min (ec_cap (en_cfg e)) (en_budget e s) + (en_ticks e t - en_ticks e s) * ec_regenAmount (en_cfg e)"
proof -
  let ?x = "min (ec_cap (en_cfg e)) (en_budget e s)"
  have "energy_cfg_ok (en_cfg e)" using fs by (simp add: en_fits_def)
  note ticks = en_ticks_regen [OF this, where x = ?x and k = "en_ticks e s" and t = t]
  have "Energy_regen s e = e\<lparr>en_cur := ?x, en_lastUpdate := en_lastUpdate e + en_ticks e s * ec_regenInterval (en_cfg e)\<rparr>"
    using below by (simp add: Energy_regen_eq [OF fs])
  then show ?thesis using ticks by (simp add: en_budget_def)
qed

lemma Energy_regen_facts:
  assumes fits: "en_fits e t" and s: "en_lastUpdate e \<le> s" "s \<le> t"
  shows "en_fits (Energy_regen s e) t" "en_budget (Energy_regen s e) t \<le> en_budget e t" "en_lastUpdate (Energy_regen s e) \<le> s"
    "en_cfg (Energy_regen s e) = en_cfg e" "en_cur e \<le> en_cur (Energy_regen s e)"
    "s - en_lastUpdate (Energy_regen s e) < ec_regenInterval (en_cfg e)"
proof -
  let ?c = "en_cfg e" let ?i = "ec_regenInterval ?c" and ?e = "Energy_regen s e"
  have ok: "energy_cfg_ok ?c" and cur: "0 \<le> en_cur e" and i: "0 < ?i" "0 < ec_regenAmount ?c" using fits by (simp_all add: en_fits_def energy_cfg_ok_def)
  have fs: "en_fits e s" by (rule en_fits_mono [OF fits s])
  have n: "0 \<le> en_ticks e s" by (rule en_ticks_nonneg [OF fs])
  have mod: "s - en_lastUpdate e - en_ticks e s * ?i = (s - en_lastUpdate e) mod ?i" by (simp add: en_ticks_def minus_div_mult_eq_mod)
  have m: "0 \<le> (s - en_lastUpdate e) mod ?i" "(s - en_lastUpdate e) mod ?i < ?i" using i by simp_all
  show cfg: "en_cfg ?e = ?c" by (simp add: Energy_regen_eq [OF fs])
  show last: "en_lastUpdate ?e \<le> s" using mod m(1) by (simp add: Energy_regen_eq [OF fs])
  show "s - en_lastUpdate ?e < ?i" 
  proof (cases "ec_cap ?c \<le> en_cur e")
    case False
    then have "en_lastUpdate ?e = en_lastUpdate e + en_ticks e s * ?i" by (simp add: Energy_regen_eq [OF fs])
    then show ?thesis using mod m(2) by linarith
  qed (use i(1) in \<open>simp add: Energy_regen_eq [OF fs]\<close>)
  have grow: "en_lastUpdate e \<le> en_lastUpdate ?e" using n i(1) s(1) by (simp add: Energy_regen_eq [OF fs])
  show mono: "en_cur e \<le> en_cur ?e" using n i(2) by (simp add: Energy_regen_eq [OF fs] en_budget_def min_def)
  show budget: "en_budget ?e t \<le> en_budget e t"
  proof (cases "ec_cap ?c \<le> en_cur e")
    case True
    have "(t - s) div ?i \<le> (t - en_lastUpdate e) div ?i" using s(1) i(1) by (intro zdiv_mono1) simp_all
    then show ?thesis using True i(2) by (simp add: Energy_regen_eq [OF fs] en_budget_def en_ticks_def)
  next
    case False
    then have "en_budget ?e t = min (ec_cap ?c) (en_budget e s) + (en_ticks e t - en_ticks e s) * ec_regenAmount ?c"
      by (intro en_budget_regen fs) simp
    also have "\<dots> \<le> en_budget e t" by (simp add: en_budget_def algebra_simps min_def)
    finally show ?thesis .
  qed
  show "en_fits ?e t" using fits cfg last grow s mono budget cur by (simp add: en_fits_def)
qed

section \<open>The level as a function of time\<close>

text \<open>The reference: the level rises by the amount at the end of every interval, and stops at the cap.\<close>

definition regen_once :: "energy_config \<Rightarrow> int \<Rightarrow> int" where
  "regen_once c x = (if ec_cap c \<le> x then x else min (ec_cap c) (x + ec_regenAmount c))"

definition energy_level :: "Energy \<Rightarrow> time \<Rightarrow> int" where
  "energy_level e t = (regen_once (en_cfg e) ^^ nat (en_ticks e t)) (en_cur e)"

lemma regen_once_funpow:
  assumes "0 < ec_regenAmount c"
  shows "(regen_once c ^^ n) x = (if ec_cap c \<le> x then x else min (ec_cap c) (x + int n * ec_regenAmount c))"
proof (induction n)
  case (Suc n)
  have "(regen_once c ^^ Suc n) x = regen_once c (if ec_cap c \<le> x then x else min (ec_cap c) (x + int n * ec_regenAmount c))"
    by (simp only: funpow.simps comp_def Suc.IH)
  also have "\<dots> = (if ec_cap c \<le> x then x else min (ec_cap c) (x + int (Suc n) * ec_regenAmount c))"
    using assms by (auto simp: regen_once_def min_def algebra_simps)
  finally show ?case .
qed (simp add: min_def)

lemma energy_level_eq:
  assumes "en_fits e t"
  shows "energy_level e t = (if ec_cap (en_cfg e) \<le> en_cur e then en_cur e else min (ec_cap (en_cfg e)) (en_budget e t))"
  using assms en_ticks_nonneg [OF assms]
  by (simp add: energy_level_def regen_once_funpow en_fits_def energy_cfg_ok_def en_budget_def)

lemma Energy_regen_level: "en_fits e t \<Longrightarrow> en_cur (Energy_regen t e) = energy_level e t"
  by (simp add: Energy_regen_eq energy_level_eq)

text \<open>Looking at the level does not change what is seen later.\<close>

lemma energy_level_regen:
  assumes fits: "en_fits e t" and s: "en_lastUpdate e \<le> s" "s \<le> t"
  shows "energy_level (Energy_regen s e) t = energy_level e t"
proof -
  have fs: "en_fits e s" by (rule en_fits_mono [OF fits s])
  have ft: "en_fits (Energy_regen s e) t" by (rule Energy_regen_facts(1) [OF fits s])
  have ok: "energy_cfg_ok (en_cfg e)" and m: "0 < ec_regenAmount (en_cfg e)" using fits by (simp_all add: en_fits_def energy_cfg_ok_def)
  have le: "en_ticks e s * ec_regenAmount (en_cfg e) \<le> en_ticks e t * ec_regenAmount (en_cfg e)" using en_ticks_mono [OF ok s(2)] m by simp
  show ?thesis
  proof (cases "ec_cap (en_cfg e) \<le> en_cur e")
    case True
    then have "en_cur (Energy_regen s e) = en_cur e" by (simp add: Energy_regen_eq [OF fs])
    then show ?thesis using True Energy_regen_facts(4) [OF fits s] unfolding energy_level_eq [OF ft] energy_level_eq [OF fits] by simp
  next
    case False
    have "en_budget (Energy_regen s e) t = min (ec_cap (en_cfg e)) (en_budget e s) + en_budget e t - en_budget e s"
      using en_budget_regen [OF fs, of t] False by (simp add: en_budget_def algebra_simps)
    moreover have "en_budget e s \<le> en_budget e t" using le by (simp add: en_budget_def)
    moreover have "en_cur (Energy_regen s e) = min (ec_cap (en_cfg e)) (en_budget e s)" using False by (simp add: Energy_regen_eq [OF fs])
    ultimately show ?thesis using False Energy_regen_facts(4) [OF fits s]
      unfolding energy_level_eq [OF ft] energy_level_eq [OF fits] by auto
  qed
qed

section \<open>Sequences of operations\<close>

datatype energy_op = OpCurrent | OpSpend int | OpAdd int | OpTimeToFull | OpTimeToAmount int | OpSnapshot

text \<open>One operation: what was spent, what was bought, and the new state.\<close>

fun energy_step :: "time \<Rightarrow> energy_op \<Rightarrow> Energy \<Rightarrow> int \<times> int \<times> Energy" where
  "energy_step now OpCurrent e = (0, 0, snd (Energy_Current now e))"
| "energy_step now (OpSpend n) e = (case Energy_Spend now n e of (ok, e') \<Rightarrow> (if ok then max 0 n else 0, 0, e'))"
| "energy_step now (OpAdd n) e = (0, max 0 n, snd (Energy_Add now n e))"
| "energy_step now OpTimeToFull e = (0, 0, snd (Energy_TimeToFull now e))"
| "energy_step now (OpTimeToAmount n) e = (0, 0, snd (Energy_TimeToAmount now n e))"
| "energy_step now OpSnapshot e = (0, 0, snd (Energy_Snapshot now e))"

fun energy_run :: "(time \<times> energy_op) list \<Rightarrow> Energy \<Rightarrow> int \<times> int \<times> Energy" where
  "energy_run [] e = (0, 0, e)"
| "energy_run ((now, op) # ops) e =
     (case energy_step now op e of (s, a, e1) \<Rightarrow> (case energy_run ops e1 of (s', a', e2) \<Rightarrow> (s + s', a + a', e2)))"

fun op_added :: "energy_op \<Rightarrow> int" where
  "op_added (OpAdd n) = max 0 n"
| "op_added _ = 0"

text \<open>\<open>energy_ok e t\<close>: the arithmetic fits up to \<open>t\<close> and, without overflow, the level is at most the cap.\<close>

definition energy_capped :: "Energy \<Rightarrow> bool" where
  "energy_capped e \<longleftrightarrow> ec_overflow (en_cfg e) \<or> en_cur e \<le> ec_cap (en_cfg e)"

lemma energy_capped_regen: "en_fits e s \<Longrightarrow> energy_capped e \<Longrightarrow> energy_capped (Energy_regen s e)"
  by (auto simp: energy_capped_def Energy_regen_eq)

lemma energy_step_ok:
  assumes fits: "en_fits e t" and s: "en_lastUpdate e \<le> s" "s \<le> t" and room: "en_budget e t + op_added op < 2 ^ 63"
    and step: "energy_step s op e = (sp, ad, e')"
  shows "en_fits e' t \<and> en_lastUpdate e' \<le> s \<and> en_cfg e' = en_cfg e \<and> 0 \<le> sp \<and> ad = op_added op
    \<and> en_budget e' t + sp \<le> en_budget e t + ad \<and> (energy_capped e \<longrightarrow> energy_capped e')"
proof -
  note r = Energy_regen_facts [OF fits s]
  have cap: "energy_capped e \<Longrightarrow> energy_capped (Energy_regen s e)" by (rule energy_capped_regen [OF en_fits_mono [OF fits s]])
  have base: "en_fits (Energy_regen s e) t \<and> en_lastUpdate (Energy_regen s e) \<le> s \<and> en_cfg (Energy_regen s e) = en_cfg e
      \<and> en_budget (Energy_regen s e) t \<le> en_budget e t \<and> (energy_capped e \<longrightarrow> energy_capped (Energy_regen s e))" using r cap by simp
  let ?e = "Energy_regen s e"
  have upd: "en_budget (?e\<lparr>en_cur := x\<rparr>) t = en_budget ?e t - en_cur ?e + x" for x by (simp add: en_budget_def en_ticks_def)
  have fitsI: "en_fits (?e\<lparr>en_cur := x\<rparr>) t" if "0 \<le> x" "en_budget (?e\<lparr>en_cur := x\<rparr>) t < 2 ^ 63" for x
    using r(1) that by (simp add: en_fits_def)
  have lvl: "0 \<le> en_cur ?e" "en_budget e t < 2 ^ 63" "0 \<le> en_ticks ?e t * ec_regenAmount (en_cfg ?e)"
    using r(1) fits en_ticks_nonneg [OF r(1)] by (simp_all add: en_fits_def energy_cfg_ok_def)
  show ?thesis
  proof (cases op)
    case (OpSpend n)
    show ?thesis
    proof (cases "n \<le> 0 \<or> en_cur ?e < n")
      case True
      then show ?thesis using step OpSpend fits s(1) base by (auto simp: Energy_Spend_def Let_def split: if_splits)
    next
      case False
      then have e': "sp = n" "ad = 0" "e' = ?e\<lparr>en_cur := en_cur ?e - n\<rparr>" using step OpSpend by (auto simp: Energy_Spend_def Let_def)
      have "en_budget e' t + n \<le> en_budget e t" using r(2) upd [of "en_cur ?e - n"] e'(3) by simp
      moreover have "en_fits e' t" unfolding e'(3) using upd [of "en_cur ?e - n"] r(2) lvl(2) False by (intro fitsI) simp_all
      ultimately show ?thesis using e' base False OpSpend by (auto simp: energy_capped_def)
    qed
  next
    case (OpAdd n)
    show ?thesis
    proof (cases "n \<le> 0")
      case True
      then show ?thesis using step OpAdd base by (simp add: Energy_Add_def Energy_Current_def Let_def)
    next
      case False
      define x where "x = (if \<not> ec_overflow (en_cfg ?e) \<and> ec_cap (en_cfg ?e) < en_cur ?e + n then ec_cap (en_cfg ?e) else en_cur ?e + n)"
      have "en_cur ?e + n \<le> en_budget ?e t + n" using lvl(3) by (simp add: en_budget_def)
      then have w: "wrap64 (en_cur ?e + n) = en_cur ?e + n" using r(2) room OpAdd False lvl(1) by (intro wrap64_id) (simp add: in_i64_def)
      have e': "sp = 0" "ad = n" "e' = ?e\<lparr>en_cur := x\<rparr>" using step OpAdd False w by (auto simp: Energy_Add_def Let_def x_def)
      have x: "x \<le> en_cur ?e + n" "0 \<le> x" using lvl(1) False r(1) by (auto simp: x_def en_fits_def energy_cfg_ok_def)
      have "en_budget e' t \<le> en_budget e t + n" using r(2) upd [of x] x(1) e'(3) by simp
      moreover have "en_fits e' t" unfolding e'(3) using upd [of x] r(2) room OpAdd False x by (intro fitsI) simp_all
      ultimately show ?thesis using e' base False OpAdd by (auto simp: energy_capped_def x_def)
    qed
  qed (use step base in \<open>auto simp: Energy_Current_def Energy_TimeToFull_def Energy_TimeToAmount_def Energy_Snapshot_def Let_def\<close>)
qed

lemma energy_run_ok:
  assumes "en_fits e t" "sorted (map fst ops)" "\<forall>p\<in>set ops. en_lastUpdate e \<le> fst p \<and> fst p \<le> t"
    and "en_budget e t + (\<Sum>p\<leftarrow>ops. op_added (snd p)) < 2 ^ 63" and "energy_run ops e = (sp, ad, e')"
  shows "en_fits e' t \<and> en_cfg e' = en_cfg e \<and> ad = (\<Sum>p\<leftarrow>ops. op_added (snd p)) \<and> 0 \<le> sp
    \<and> en_budget e' t + sp \<le> en_budget e t + ad \<and> (energy_capped e \<longrightarrow> energy_capped e')"
  using assms
proof (induction ops arbitrary: e sp ad)
  case (Cons p ops)
  obtain s op where p: "p = (s, op)" by force
  obtain s1 a1 e1 where st: "energy_step s op e = (s1, a1, e1)" by (metis prod_cases3)
  obtain s2 a2 where rn: "energy_run ops e1 = (s2, a2, e')" "sp = s1 + s2" "ad = a1 + a2"
    using Cons.prems(5) st by (auto simp: p split: prod.splits)
  have nn: "0 \<le> (\<Sum>p\<leftarrow>xs. op_added (snd p))" for xs :: "(time \<times> energy_op) list"
  proof (rule sum_list_nonneg)
    fix x assume "x \<in> set (map (\<lambda>p. op_added (snd p)) xs)"
    then obtain q where "x = op_added (snd q)" by auto
    then show "0 \<le> x" by (cases "snd q") simp_all
  qed
  have room: "en_budget e t + op_added op < 2 ^ 63" using Cons.prems(4) nn [of ops] by (simp add: p)
  have s: "en_lastUpdate e \<le> s" "s \<le> t" using Cons.prems(3) by (simp_all add: p)
  note k = energy_step_ok [OF Cons.prems(1) s room st]
  have "en_fits e' t \<and> en_cfg e' = en_cfg e1 \<and> a2 = (\<Sum>p\<leftarrow>ops. op_added (snd p)) \<and> 0 \<le> s2
      \<and> en_budget e' t + s2 \<le> en_budget e1 t + a2 \<and> (energy_capped e1 \<longrightarrow> energy_capped e')"
    by (rule Cons.IH [OF _ _ _ _ rn(1)]) (use k Cons.prems(2-4) in \<open>auto simp: p\<close>)
  then show ?case using k rn by (simp add: p)
qed simp

text \<open>\<open>TimeToAmount\<close> is never too early, and too late by less than one interval: it leaves out that a part of the
  current interval has already passed.\<close>

lemma ceil_div:
  fixes n m :: int
  assumes "0 < m" "0 < n"
  shows "n \<le> (n + m - 1) div m * m" "((n + m - 1) div m - 1) * m < n" "0 < (n + m - 1) div m"
proof -
  have e: "(n + m - 1) div m * m = n + m - 1 - (n + m - 1) mod m" by (rule minus_mod_eq_div_mult [symmetric])
  have b: "0 \<le> (n + m - 1) mod m" "(n + m - 1) mod m < m" using assms(1) by simp_all
  show "n \<le> (n + m - 1) div m * m" using e b by linarith
  have "((n + m - 1) div m - 1) * m = (n + m - 1) div m * m - m" by (simp add: left_diff_distrib)
  then show "((n + m - 1) div m - 1) * m < n" using e b by linarith
  show "0 < (n + m - 1) div m" using assms by (simp add: pos_imp_zdiv_pos_iff)
qed

lemma TimeToAmount_bounds:
  assumes fits: "en_fits e (now + d)" and now: "en_lastUpdate e \<le> now" "0 \<le> d"
    and target: "target \<le> ec_cap (en_cfg e)" "0 \<le> target" "target + ec_regenAmount (en_cfg e) < 2 ^ 63"
    and prod: "(target + ec_regenAmount (en_cfg e)) * ec_regenInterval (en_cfg e) < 2 ^ 63"
    and d: "Energy_TimeToAmount now target e = (d, e')"
  shows "target \<le> energy_level e (now + d)"
    and "now \<le> t \<Longrightarrow> t + ec_regenInterval (en_cfg e) \<le> now + d \<Longrightarrow> energy_level e t < target"
proof -
  let ?c = "en_cfg e" let ?m = "ec_regenAmount ?c" and ?i = "ec_regenInterval ?c"
  have e': "e' = Energy_regen now e" "d = Energy_timeToAmount target e'" using d by (auto simp: Energy_TimeToAmount_def Let_def)
  have nd: "now \<le> now + d" using now(2) by simp
  note r = Energy_regen_facts [OF fits now(1) nd, folded e'(1)]
  have lv: "energy_level e u = energy_level e' u" if "now \<le> u" "u \<le> now + d" for u
    using energy_level_regen [OF en_fits_mono [OF fits _ that(2)] now(1) that(1)] that(1) now(1) e'(1) by simp
  have ok: "0 < ?m" "0 < ?i" "0 < ec_cap ?c" "0 \<le> en_cur e'" using fits r(1) by (simp_all add: en_fits_def energy_cfg_ok_def)
  have fu: "en_fits e' u" if "now \<le> u" "u \<le> now + d" for u using en_fits_mono [OF r(1), of u] that r(3) by simp
  show "target \<le> energy_level e (now + d)"
    and "now \<le> t \<Longrightarrow> t + ?i \<le> now + d \<Longrightarrow> energy_level e t < target"
  proof -
    consider "target \<le> en_cur e'" | "en_cur e' < target" by linarith
    then have "target \<le> energy_level e' (now + d) \<and> (now \<le> t \<longrightarrow> t + ?i \<le> now + d \<longrightarrow> energy_level e' t < target)"
    proof cases
      case 1
      then have "d = 0" using e'(2) by (simp add: Energy_timeToAmount_def)
      moreover have "0 \<le> en_ticks e' (now + d) * ?m" using en_ticks_nonneg [OF fu [OF nd]] ok(1) by simp
      then have "target \<le> en_budget e' (now + d)" using 1 r(4) by (simp add: en_budget_def)
      ultimately show ?thesis using 1 fu [OF nd] ok(2) target(1) r(4) by (simp add: energy_level_eq)
    next
      case 2
      define need where "need = target - en_cur e'"
      define k where "k = (need + ?m - 1) div ?m"
      have need: "0 < need" "need \<le> target" using 2 ok(4) by (simp_all add: need_def)
      note c = ceil_div [OF ok(1) need(1), folded k_def]
      have "(k - 1) * 1 \<le> (k - 1) * ?m" using c(3) ok(1) by (intro mult_left_mono) simp_all
      then have "k \<le> target" using c(2) need(2) by simp
      then have "k * ?i \<le> (target + ?m) * ?i" using ok by (intro mult_right_mono) simp_all
      then have kr: "0 < k * ?i" "k * ?i < 2 ^ 63" using c(3) ok(2) le_less_trans [OF _ prod] by (simp, blast)
      have "go_div (need + ?m - 1) ?m = k" using need ok by (simp add: k_def go_div_nonneg)
      then have dk: "d = k * ?i" using e'(2) 2 need target(3) ok r(4) kr
        by (simp add: Energy_timeToAmount_def Let_def need_def [symmetric] wrap64_id in_i64_def)
      have tick: "en_ticks e' (now + d) = k + (now - en_lastUpdate e') div ?i"
      proof -
        have "now + d - en_lastUpdate e' = now - en_lastUpdate e' + k * ?i" by (simp add: dk)
        then show ?thesis using ok(2) r(4) by (simp only: en_ticks_def) simp
      qed
      have z: "(now - en_lastUpdate e') div ?i = 0" using r(3,6) by (intro div_pos_pos_trivial) simp_all
      have "target \<le> en_budget e' (now + d)" using c(1) r(4) by (simp add: en_budget_def tick z need_def)
      then have up: "target \<le> energy_level e' (now + d)" using fu [OF nd] 2 target(1) r(4) by (simp add: energy_level_eq)
      have low: "energy_level e' t < target" if t: "now \<le> t" "t + ?i \<le> now + d"
      proof -
        have tl: "t \<le> now + d" using t(2) ok(2) by linarith
        have "t - en_lastUpdate e' < k * ?i" using t(2) r(6) dk by linarith
        then have "en_ticks e' t * ?i < k * ?i"
          using r(4) div_mult_mod_eq [of "t - en_lastUpdate e'" ?i] pos_mod_sign [OF ok(2), of "t - en_lastUpdate e'"]
          unfolding en_ticks_def by (metis add_increasing2 le_less_trans order_refl)
        then have "en_ticks e' t \<le> k - 1" using ok(2) by simp
        then have "en_ticks e' t * ?m \<le> (k - 1) * ?m" using ok(1) by (intro mult_right_mono) simp_all
        then have "en_budget e' t < target" using c(2) r(4) by (simp add: en_budget_def need_def)
        then show ?thesis using 2 fu [OF t(1) tl] target(1) r(4) by (simp add: energy_level_eq)
      qed
      show ?thesis using up low by blast
    qed
    then show "target \<le> energy_level e (now + d)" "now \<le> t \<Longrightarrow> t + ?i \<le> now + d \<Longrightarrow> energy_level e t < target"
      using lv [OF nd] lv [of t] ok(2) by (simp, simp)
  qed
qed

section \<open>Properties\<close>

text \<open>C25. Lazy regeneration is the eager one: however often the level is asked for in between, and whenever, \<open>Current\<close>
  at time \<open>t\<close> is the initial level after one step per whole interval since the initial update time, where a
  step adds the amount and stops at the cap (a level above the cap stays).\<close>

theorem Energy_lazy:
  assumes fits: "en_fits e t" and polls: "sorted polls" "\<forall>s\<in>set polls. en_lastUpdate e \<le> s \<and> s \<le> t"
  shows "fst (Energy_Current t (fold (\<lambda>s e. snd (Energy_Current s e)) polls e)) =
     (regen_once (en_cfg e) ^^ nat ((t - en_lastUpdate e) div ec_regenInterval (en_cfg e))) (en_cur e)"
  using assms unfolding en_ticks_def [symmetric] energy_level_def [symmetric]
proof (induction polls arbitrary: e)
  case Nil
  then show ?case by (simp add: Energy_Current_def Let_def Energy_regen_level)
next
  case (Cons s polls)
  have s: "en_lastUpdate e \<le> s" "s \<le> t" using Cons.prems(3) by simp_all
  note r = Energy_regen_facts [OF Cons.prems(1) s]
  have "\<forall>u\<in>set polls. en_lastUpdate (Energy_regen s e) \<le> u \<and> u \<le> t" using Cons.prems(2,3) r(3) by fastforce
  from Cons.IH [OF r(1) _ this] show ?case
    using Cons.prems(2) energy_level_regen [OF Cons.prems(1) s] by (simp add: Energy_Current_def Let_def)
qed

text \<open>Asked twice on the way, the level after 11 intervals and a half is 3 + 11.\<close>

theorem Energy_lazy_witness:
  "fst (Energy_Current (23 * 150 * second) (fold (\<lambda>s e. snd (Energy_Current s e)) [1000 * second, 2000 * second] (Energy_NewWithState 3 0 []))) = 14"
proof -
  let ?e = "Energy_NewWithState 3 0 []"
  have fits: "en_fits ?e (23 * 150 * second)"
    by (simp add: en_fits_def energy_cfg_ok_def en_budget_def en_ticks_def Energy_NewWithState_def energy_defaults_def second_def)
  have "(regen_once (en_cfg ?e) ^^ 11) 3 = 14"
    by (simp add: regen_once_funpow Energy_NewWithState_def energy_defaults_def)
  then show ?thesis using Energy_lazy [OF fits, of "[1000 * second, 2000 * second]"]
    by (simp add: Energy_NewWithState_def energy_defaults_def second_def)
qed

text \<open>Nothing is spent that was not there: in every sequence of operations with non-decreasing times, the sum of all
  successful \<open>Spend\<close> calls and the level that is left is at most the initial level, plus what was added, plus
  the amount for every whole interval from the initial update time to the end. The level is never negative,
  and without the overflow option it stays below the cap.\<close>

theorem Energy_budget:
  assumes "en_fits e t" and "sorted (map fst ops)" and "\<forall>p\<in>set ops. en_lastUpdate e \<le> fst p \<and> fst p \<le> t"
    and "en_budget e t + (\<Sum>p\<leftarrow>ops. op_added (snd p)) < 2 ^ 63" and "energy_run ops e = (spent, added, e')"
  shows "spent + en_cur e' \<le> en_cur e + added + (t - en_lastUpdate e) div ec_regenInterval (en_cfg e) * ec_regenAmount (en_cfg e)
    \<and> 0 \<le> en_cur e' \<and> (\<not> ec_overflow (en_cfg e) \<and> en_cur e \<le> ec_cap (en_cfg e) \<longrightarrow> en_cur e' \<le> ec_cap (en_cfg e))"
proof -
  note r = energy_run_ok [OF assms]
  then have f: "en_fits e' t" by blast
  then have "0 < ec_regenAmount (en_cfg e')" by (simp add: en_fits_def energy_cfg_ok_def)
  then have "0 \<le> en_ticks e' t * ec_regenAmount (en_cfg e')" using en_ticks_nonneg [OF f] by simp
  moreover have "0 \<le> en_cur e'" using f by (simp add: en_fits_def)
  ultimately show ?thesis using r unfolding en_budget_def en_ticks_def [symmetric] energy_capped_def by auto
qed

text \<open>Of two attempts to spend 60 out of 100 in the same second the second one fails; after an hour, 12 points later, it
  still does.\<close>

theorem Energy_budget_witness:
  "let (spent, added, e) = energy_run [(0, OpSpend 60), (0, OpSpend 60), (3600 * second, OpSpend 60)] (Energy_New 0 [])
   in spent = 60 \<and> added = 0 \<and> en_cur e = 52 \<and> spent + en_cur e \<le> 100 + 12"
proof -
  let ?ops = "[(0, OpSpend 60), (0, OpSpend 60), (3600 * second, OpSpend 60)]" and ?e = "Energy_New 0 []"
  have fits: "en_fits ?e (3600 * second)"
    by (simp add: en_fits_def energy_cfg_ok_def en_budget_def en_ticks_def Energy_New_def energy_defaults_def second_def)
  have run: "energy_run ?ops ?e = (60, 0, \<lparr>en_cfg = energy_defaults, en_cur = 52, en_lastUpdate = 3600 * second\<rparr>)"
    by (simp add: Energy_New_def Energy_Spend_def Energy_regen_def energy_defaults_def time_Sub_def second_def go_div_def in_i64_def Let_def)
  have "60 + en_cur \<lparr>en_cfg = energy_defaults, en_cur = 52, en_lastUpdate = 3600 * second\<rparr>
      \<le> en_cur ?e + 0 + (3600 * second - en_lastUpdate ?e) div ec_regenInterval (en_cfg ?e) * ec_regenAmount (en_cfg ?e)"
    by (rule Energy_budget [OF fits _ _ _ run, THEN conjunct1])
      (simp_all add: Energy_New_def energy_defaults_def second_def en_budget_def en_ticks_def)
  then show ?thesis unfolding run by (simp add: Energy_New_def energy_defaults_def second_def)
qed

end
