(* ===== verification/IdGen.thy ===== *)
theory IdGen
  imports Prelude
begin

unbundle bit_operations_syntax

text \<open>
  \<open>pkg/idgen\<close>: 64-bit identifiers made of a timestamp in milliseconds, the number of the node and a sequence number.
  Every call of \<open>time.Now\<close> consumes one reading, a pair of the monotonic clock in nanoseconds, which deadlines are
  compared with, and the wall clock in milliseconds, which may jump in either direction. A call that would need
  more readings than it is given has not returned yet (\<open>None\<close>).
\<close>

section \<open>The generator\<close>

definition nodeBits :: nat where "nodeBits = 10"
definition sequenceBits :: nat where "sequenceBits = 12"
definition maxNode :: int where "maxNode = 1023"
definition maxSequence :: int where "maxSequence = 4095"
definition timeShift :: nat where "timeShift = nodeBits + sequenceBits"
definition nodeShift :: nat where "nodeShift = sequenceBits"

lemma idgen_masks: "maxNode = (- 1) XOR (- (push_bit nodeBits 1))" "maxSequence = (- 1) XOR (- (push_bit sequenceBits 1))"
  by (simp_all add: maxNode_def maxSequence_def nodeBits_def sequenceBits_def push_bit_eq_mult)

definition defaultEpoch :: int where
  "defaultEpoch = 1704067200000"

definition millisecond :: duration where
  "millisecond = 1000000"

record idgen_config =
  ig_epoch :: int
  ig_maxBackwardWait :: duration

datatype idgen_option = WithEpoch int | WithMaxBackwardWait duration

fun idgen_apply :: "idgen_option \<Rightarrow> idgen_config \<Rightarrow> idgen_config" where
  "idgen_apply (WithEpoch n) c = c\<lparr>ig_epoch := n\<rparr>"
| "idgen_apply (WithMaxBackwardWait d) c = c\<lparr>ig_maxBackwardWait := d\<rparr>"

record Generator =
  ig_cfg :: idgen_config
  ig_node :: int
  ig_lastTime :: int
  ig_sequence :: int

definition Generator_New :: "int \<Rightarrow> idgen_option list \<Rightarrow> Generator option" where
  "Generator_New node opts =
     (if node < 0 \<or> maxNode < node then None
      else let c = fold idgen_apply opts \<lparr>ig_epoch = defaultEpoch, ig_maxBackwardWait = 5 * millisecond\<rparr>;
               c' = (if ig_maxBackwardWait c < 0 then c\<lparr>ig_maxBackwardWait := 0\<rparr> else c)
           in Some \<lparr>ig_cfg = c', ig_node = node, ig_lastTime = 0, ig_sequence = 0\<rparr>)"

type_synonym reading = "time \<times> int"

definition Generator_now :: "Generator \<Rightarrow> reading \<Rightarrow> int" where
  "Generator_now g r = wrap64 (snd r - ig_epoch (ig_cfg g))"

datatype idgen_error = ErrBehind duration | ErrStillBehind | ErrStalled

text \<open>A spin loop: while the timestamp is below the limit, give up after the deadline, otherwise sleep and look again.\<close>

fun idgen_spin :: "Generator \<Rightarrow> time \<Rightarrow> int \<Rightarrow> int \<Rightarrow> reading list \<Rightarrow> (int option \<times> reading list) option" where
  "idgen_spin g deadline lim ts rs =
     (if lim \<le> ts then Some (Some ts, rs)
      else (case rs of
              [] \<Rightarrow> None
            | r1 # rs1 \<Rightarrow>
                if deadline < fst r1 then Some (None, rs1)
                else (case rs1 of
                        [] \<Rightarrow> None
                      | r2 # rs2 \<Rightarrow> idgen_spin g deadline lim (Generator_now g r2) rs2)))"

declare idgen_spin.simps [simp del]

definition idgen_pack :: "int \<Rightarrow> int \<Rightarrow> int \<Rightarrow> int" where
  "idgen_pack ts node sq = (wrap64 (push_bit timeShift ts) OR push_bit nodeShift node) OR sq"

text \<open>The first part of \<open>Next\<close>: read the clock and wait for it if it is a little behind.\<close>

definition idgen_catchup :: "Generator \<Rightarrow> reading list \<Rightarrow> ((idgen_error + int) \<times> reading list) option" where
  "idgen_catchup g rs =
     (case rs of
        [] \<Rightarrow> None
      | r # rs1 \<Rightarrow>
          let ts = Generator_now g r
          in if ts < ig_lastTime g
             then let backward = wrap64 (wrap64 (ig_lastTime g - ts) * millisecond)
                  in if ig_maxBackwardWait (ig_cfg g) < backward then Some (Inl (ErrBehind backward), rs1)
                     else (case rs1 of
                             [] \<Rightarrow> None
                           | r2 # rs2 \<Rightarrow>
                               (case idgen_spin g (fst r2 + wrap64 (ig_maxBackwardWait (ig_cfg g) + 10 * millisecond)) (ig_lastTime g) ts rs2 of
                                  None \<Rightarrow> None
                                | Some (None, rs3) \<Rightarrow> Some (Inl ErrStillBehind, rs3)
                                | Some (Some ts', rs3) \<Rightarrow> Some (Inr ts', rs3)))
             else Some (Inr ts, rs1))"

text \<open>The second part: take the next sequence number, or wait for the next millisecond when there is none.\<close>

definition idgen_issue :: "int \<Rightarrow> Generator \<Rightarrow> reading list \<Rightarrow> ((idgen_error + int) \<times> Generator \<times> reading list) option" where
  "idgen_issue ts g rs =
     (let commit = (\<lambda>ts g rs. let g' = g\<lparr>ig_lastTime := ts\<rparr> in Some (Inr (idgen_pack ts (ig_node g') (ig_sequence g')), g', rs))
      in if ts = ig_lastTime g
         then let g1 = g\<lparr>ig_sequence := (ig_sequence g + 1) AND maxSequence\<rparr>
              in if ig_sequence g1 = 0
                 then (case rs of
                         [] \<Rightarrow> None
                       | r # rs1 \<Rightarrow>
                           (case idgen_spin g1 (fst r + 5 * millisecond) (ig_lastTime g1 + 1) ts rs1 of
                              None \<Rightarrow> None
                            | Some (None, rs2) \<Rightarrow> Some (Inl ErrStalled, g1, rs2)
                            | Some (Some ts', rs2) \<Rightarrow> commit ts' g1 rs2))
                 else commit ts g1 rs
         else commit ts (g\<lparr>ig_sequence := 0\<rparr>) rs)"

definition Generator_Next :: "Generator \<Rightarrow> reading list \<Rightarrow> ((idgen_error + int) \<times> Generator \<times> reading list) option" where
  "Generator_Next g rs =
     (case idgen_catchup g rs of
        None \<Rightarrow> None
      | Some (Inl err, rs') \<Rightarrow> Some (Inl err, g, rs')
      | Some (Inr ts, rs') \<Rightarrow> idgen_issue ts g rs')"

text \<open>\<open>MustNext\<close> panics (\<open>Some None\<close>) where \<open>Next\<close> returns an error.\<close>

definition Generator_MustNext :: "Generator \<Rightarrow> reading list \<Rightarrow> (int option \<times> Generator \<times> reading list) option" where
  "Generator_MustNext g rs =
     (case Generator_Next g rs of
        None \<Rightarrow> None
      | Some (Inl err, g', rs') \<Rightarrow> Some (None, g', rs')
      | Some (Inr n, g', rs') \<Rightarrow> Some (Some n, g', rs'))"

definition Generator_Node :: "Generator \<Rightarrow> int" where
  "Generator_Node g = ig_node g"

definition idgen_Parse :: "int \<Rightarrow> int \<times> int \<times> int" where
  "idgen_Parse n = (drop_bit timeShift n, drop_bit nodeShift n AND maxNode, n AND maxSequence)"

definition idgen_TimeOf :: "int \<Rightarrow> int \<Rightarrow> int" where
  "idgen_TimeOf n epochMillis = wrap64 (fst (idgen_Parse n) + epochMillis)"

definition idgen_DefaultEpoch :: int where
  "idgen_DefaultEpoch = defaultEpoch"

section \<open>The layout of an identifier\<close>

text \<open>As a number, an identifier is the timestamp, the node and the sequence number as digits.\<close>

lemma or_add_disjoint:
  fixes a b :: int
  assumes "0 \<le> b" "b < 2 ^ n"
  shows "push_bit n a OR b = a * 2 ^ n + b"
proof -
  have b: "take_bit n b = b" using assms by (simp add: take_bit_int_eq_self_iff)
  have "push_bit n a AND b = 0"
    by (rule bit_eqI) (metis b bit_and_iff bit_push_bit_iff bit_take_bit_iff bit_0_eq bot_apply bot_bool_def not_less)
  then have "push_bit n a OR b = push_bit n a + b" by (rule disjunctive_add_eq_or [symmetric])
  then show ?thesis by (simp add: push_bit_eq_mult)
qed

definition idgen_fields_ok :: "int \<Rightarrow> int \<Rightarrow> int \<Rightarrow> bool" where
  "idgen_fields_ok ts node sq \<longleftrightarrow> - (2 ^ 41) \<le> ts \<and> ts < 2 ^ 41 \<and> 0 \<le> node \<and> node \<le> 1023 \<and> 0 \<le> sq \<and> sq \<le> 4095"

lemma idgen_pack_eq:
  assumes "idgen_fields_ok ts node sq"
  shows "idgen_pack ts node sq = ts * 2 ^ 22 + node * 2 ^ 12 + sq"
proof -
  have r: "- (2 ^ 41) \<le> ts" "ts < 2 ^ 41" "0 \<le> node" "node \<le> 1023" "0 \<le> sq" "sq \<le> 4095" using assms by (simp_all add: idgen_fields_ok_def)
  have w: "wrap64 (push_bit 22 ts) = push_bit 22 ts" using r by (intro wrap64_id) (simp add: in_i64_def push_bit_eq_mult)
  have "push_bit 12 (push_bit 10 ts OR node) OR sq = (push_bit 10 ts OR node) * 2 ^ 12 + sq" using r by (intro or_add_disjoint) simp_all
  moreover have "push_bit 10 ts OR node = ts * 2 ^ 10 + node" using r by (intro or_add_disjoint) simp_all
  moreover have "push_bit 12 (push_bit 10 ts OR node) = push_bit 22 ts OR push_bit 12 node" by (simp add: push_bit_or)
  ultimately show ?thesis
    by (simp add: idgen_pack_def timeShift_def nodeShift_def nodeBits_def sequenceBits_def w)
qed

lemma and_mask_mod: "x AND (2 ^ n - 1) = x mod (2 ^ n :: int)"
  by (metis mask_eq_exp_minus_1 take_bit_eq_mask take_bit_eq_mod)

lemma and_maxSequence: "x AND maxSequence = x mod 4096"
  using and_mask_mod [of x 12] by (simp add: maxSequence_def)

lemma idgen_Parse_pack:
  assumes "idgen_fields_ok ts node sq"
  shows "idgen_Parse (idgen_pack ts node sq) = (ts, node, sq)"
proof -
  have r: "0 \<le> node" "node < 1024" "0 \<le> sq" "sq < 4096" using assms by (simp_all add: idgen_fields_ok_def)
  let ?n = "(ts * 1024 + node) * 4096 + sq"
  have n: "idgen_pack ts node sq = ?n" by (simp add: idgen_pack_eq [OF assms])
  have d: "?n div 4096 = ts * 1024 + node" using r by simp
  have "?n div 4194304 = ?n div 4096 div 1024" by (simp add: zdiv_zmult2_eq [symmetric])
  also have "\<dots> = ts" unfolding d using r by simp
  finally have "drop_bit 22 ?n = ts" by (simp add: drop_bit_eq_div)
  moreover have "drop_bit 12 ?n AND 1023 = node"
  proof -
    have "drop_bit 12 ?n AND 1023 = (?n div 4096) mod 1024"
      using and_mask_mod [of "?n div 4096" 10] by (simp add: drop_bit_eq_div)
    then show ?thesis unfolding d using r by simp
  qed
  moreover have "?n mod 4096 = sq" using r by (subst mod_mult_self3) simp
  ultimately show ?thesis
    unfolding idgen_Parse_def n by (simp add: and_maxSequence timeShift_def nodeShift_def nodeBits_def sequenceBits_def maxNode_def)
qed

text \<open>Identifiers of a node are ordered by timestamp, then by sequence number.\<close>

lemma idgen_pack_less:
  assumes "idgen_fields_ok ts node sq" "idgen_fields_ok ts' node sq'" and "ts < ts' \<or> ts = ts' \<and> sq < sq'"
  shows "idgen_pack ts node sq < idgen_pack ts' node sq'"
  using assms unfolding idgen_pack_eq [OF assms(1)] idgen_pack_eq [OF assms(2)] idgen_fields_ok_def by auto

section \<open>Calls\<close>

definition idgen_inv :: "Generator \<Rightarrow> bool" where
  "idgen_inv g \<longleftrightarrow> 0 \<le> ig_node g \<and> ig_node g \<le> 1023 \<and> 0 \<le> ig_lastTime g \<and> ig_lastTime g < 2 ^ 41 \<and> 0 \<le> ig_sequence g \<and> ig_sequence g \<le> 4095"

text \<open>The identifier that belongs to the state of a generator.\<close>

definition idgen_last :: "Generator \<Rightarrow> int" where
  "idgen_last g = idgen_pack (ig_lastTime g) (ig_node g) (ig_sequence g)"

lemma idgen_inv_fields: "idgen_inv g \<Longrightarrow> idgen_fields_ok (ig_lastTime g) (ig_node g) (ig_sequence g)"
  by (simp add: idgen_inv_def idgen_fields_ok_def)

lemma idgen_last_less:
  assumes "idgen_inv g" "idgen_inv g'" "ig_node g' = ig_node g"
    and "ig_lastTime g < ig_lastTime g' \<or> ig_lastTime g = ig_lastTime g' \<and> ig_sequence g < ig_sequence g'"
  shows "idgen_last g < idgen_last g'"
  unfolding idgen_last_def assms(3) using idgen_inv_fields [OF assms(1)] idgen_inv_fields [OF assms(2)] assms(3,4) by (intro idgen_pack_less) simp_all

lemma idgen_New_inv: "Generator_New node opts = Some g \<Longrightarrow> idgen_inv g \<and> ig_node g = node"
  by (auto simp: Generator_New_def idgen_inv_def maxNode_def Let_def split: if_splits)

lemma idgen_spin_ts: "idgen_spin g d lim ts rs = Some (Some ts', rs') \<Longrightarrow> lim \<le> ts' \<and> (ts' = ts \<or> (\<exists>r\<in>set rs. ts' = Generator_now g r))"
proof (induction g d lim ts rs rule: idgen_spin.induct)
  case (1 g d lim ts rs)
  show ?case
  proof (cases "lim \<le> ts")
    case True
    then show ?thesis using "1.prems" by (simp add: idgen_spin.simps [of g d lim ts])
  next
    case False
    then obtain r1 r2 rs2 where rs: "rs = r1 # r2 # rs2" and d: "\<not> d < fst r1"
        and sp: "idgen_spin g d lim (Generator_now g r2) rs2 = Some (Some ts', rs')"
      using "1.prems" by (auto simp: idgen_spin.simps [of g d lim ts] split: list.splits if_splits)
    from "1.IH" [OF False rs d refl sp] show ?thesis unfolding rs by auto
  qed
qed

lemma idgen_spin_rest: "idgen_spin g d lim ts rs = Some (x, rs') \<Longrightarrow> set rs' \<subseteq> set rs"
proof (induction g d lim ts rs rule: idgen_spin.induct)
  case (1 g d lim ts rs)
  show ?case
  proof (cases "lim \<le> ts")
    case True
    then show ?thesis using "1.prems" by (simp add: idgen_spin.simps [of g d lim ts])
  next
    case False
    then obtain r1 rs1 where rs: "rs = r1 # rs1" using "1.prems" by (cases rs) (simp_all add: idgen_spin.simps [of g d lim ts])
    show ?thesis
    proof (cases "d < fst r1")
      case True
      then show ?thesis using "1.prems" False rs by (auto simp: idgen_spin.simps [of g d lim ts])
    next
      case nd: False
      then obtain r2 rs2 where rs1: "rs1 = r2 # rs2" and sp: "idgen_spin g d lim (Generator_now g r2) rs2 = Some (x, rs')"
        using "1.prems" False rs by (cases rs1) (simp_all add: idgen_spin.simps [of g d lim ts])
      from "1.IH" [OF False rs nd rs1 sp] show ?thesis unfolding rs rs1 by auto
    qed
  qed
qed

lemma idgen_catchup_ts:
  assumes c: "idgen_catchup g rs = Some (Inr ts, rs')" and rd: "\<forall>r\<in>set rs. Generator_now g r < 2 ^ 41"
  shows "ig_lastTime g \<le> ts \<and> ts < 2 ^ 41 \<and> set rs' \<subseteq> set rs"
proof -
  obtain r rs1 where rs: "rs = r # rs1" using c by (cases rs) (simp_all add: idgen_catchup_def)
  show ?thesis
  proof (cases "Generator_now g r < ig_lastTime g")
    case False
    then show ?thesis using c rd by (auto simp: idgen_catchup_def rs)
  next
    case True
    then obtain r2 rs2 where rs1: "rs1 = r2 # rs2"
        and sp: "idgen_spin g (fst r2 + wrap64 (ig_maxBackwardWait (ig_cfg g) + 10 * millisecond)) (ig_lastTime g) (Generator_now g r) rs2 = Some (Some ts, rs')"
      using c by (auto simp: idgen_catchup_def rs Let_def split: if_splits list.splits option.splits)
    show ?thesis using idgen_spin_ts [OF sp] idgen_spin_rest [OF sp] rd by (auto simp: rs rs1)
  qed
qed

text \<open>A call that issues an identifier moves the state forward; an error leaves it as it was, unless the clock stood still
  while the call waited for the next millisecond.\<close>

lemma idgen_issue_ok:
  assumes inv: "idgen_inv g" and ts: "ig_lastTime g \<le> ts" "ts < 2 ^ 41" and rd: "\<forall>r\<in>set rs. Generator_now g r < 2 ^ 41"
    and iss: "idgen_issue ts g rs = Some (res, g', rs')" and ns: "res \<noteq> Inl ErrStalled"
  shows "idgen_inv g' \<and> ig_node g' = ig_node g \<and> ig_cfg g' = ig_cfg g \<and> res = Inr (idgen_last g') \<and> idgen_last g < idgen_last g'"
proof -
  consider (same) "ts = ig_lastTime g" "ig_sequence g < 4095" | (full) "ts = ig_lastTime g" "ig_sequence g = 4095" | (new) "ig_lastTime g < ts"
    using inv ts(1) by (fastforce simp: idgen_inv_def)
  then show ?thesis
  proof cases
    case same
    have "(ig_sequence g + 1) mod 4096 = ig_sequence g + 1" using inv same(2) by (simp add: idgen_inv_def)
    then have g': "g' = g\<lparr>ig_sequence := ig_sequence g + 1\<rparr>" "res = Inr (idgen_last g')"
      using iss same inv by (auto simp: idgen_issue_def and_maxSequence idgen_last_def idgen_inv_def Let_def)
    have "idgen_inv g'" using inv same(2) by (simp add: g'(1) idgen_inv_def)
    moreover from this have "idgen_last g < idgen_last g'" using inv by (intro idgen_last_less) (simp_all add: g'(1))
    ultimately show ?thesis using g' by simp
  next
    case new
    then have g': "g' = g\<lparr>ig_sequence := 0, ig_lastTime := ts\<rparr>" "res = Inr (idgen_last g')"
      using iss by (auto simp: idgen_issue_def idgen_last_def Let_def)
    have "idgen_inv g'" using inv new ts(2) by (simp add: g'(1) idgen_inv_def)
    moreover from this have "idgen_last g < idgen_last g'" using inv new by (intro idgen_last_less) (simp_all add: g'(1))
    ultimately show ?thesis using g' by simp
  next
    case full
    let ?g = "g\<lparr>ig_sequence := 0\<rparr>"
    have z: "(ig_sequence g + 1) AND maxSequence = 0" unfolding and_maxSequence full(2) by simp
    have eq: "idgen_issue ts g rs = (case rs of [] \<Rightarrow> None | r # rs1 \<Rightarrow>
        (case idgen_spin ?g (fst r + 5 * millisecond) (ig_lastTime g + 1) ts rs1 of
           None \<Rightarrow> None
         | Some (None, rs2) \<Rightarrow> Some (Inl ErrStalled, ?g, rs2)
         | Some (Some ts', rs2) \<Rightarrow> Some (Inr (idgen_pack ts' (ig_node g) 0), ?g\<lparr>ig_lastTime := ts'\<rparr>, rs2)))"
      using full(1) by (auto simp: idgen_issue_def z Let_def split: list.split option.split)
    from iss ns obtain r rs1 ts' where rs: "rs = r # rs1"
        and sp: "idgen_spin ?g (fst r + 5 * millisecond) (ig_lastTime g + 1) ts rs1 = Some (Some ts', rs')"
        and g': "g' = ?g\<lparr>ig_lastTime := ts'\<rparr>" "res = Inr (idgen_last g')"
      unfolding eq by (auto simp: idgen_last_def split: list.splits option.splits)
    have now: "Generator_now ?g r = Generator_now g r" for r by (simp add: Generator_now_def)
    have ts': "ig_lastTime g + 1 \<le> ts'" "ts' < 2 ^ 41" using idgen_spin_ts [OF sp] ts(2) rd by (auto simp: rs now)
    have "idgen_inv g'" using inv ts' by (simp add: g'(1) idgen_inv_def)
    moreover from this have "idgen_last g < idgen_last g'" using inv ts'(1) by (intro idgen_last_less) (simp_all add: g'(1))
    ultimately show ?thesis using g' by simp
  qed
qed

lemma idgen_Next_ok:
  assumes inv: "idgen_inv g" and rd: "\<forall>r\<in>set rs. Generator_now g r < 2 ^ 41"
    and nx: "Generator_Next g rs = Some (res, g', rs')" and ns: "res \<noteq> Inl ErrStalled"
  shows "idgen_inv g' \<and> ig_node g' = ig_node g \<and> ig_cfg g' = ig_cfg g
    \<and> (case res of Inl _ \<Rightarrow> g' = g | Inr n \<Rightarrow> n = idgen_last g' \<and> idgen_last g < n)"
proof -
  obtain x rs1 where c: "idgen_catchup g rs = Some (x, rs1)" using nx by (auto simp: Generator_Next_def split: option.splits)
  show ?thesis
  proof (cases x)
    case (Inl err)
    then show ?thesis using nx c inv by (auto simp: Generator_Next_def)
  next
    case (Inr ts)
    note t = idgen_catchup_ts [OF c [unfolded Inr] rd]
    have "idgen_issue ts g rs1 = Some (res, g', rs')" using nx c Inr by (simp add: Generator_Next_def)
    from idgen_issue_ok [OF inv _ _ _ this ns] t rd
    have "idgen_inv g' \<and> ig_node g' = ig_node g \<and> ig_cfg g' = ig_cfg g \<and> res = Inr (idgen_last g') \<and> idgen_last g < idgen_last g'" by blast
    then show ?thesis by auto
  qed
qed

section \<open>Sequences of calls\<close>

text \<open>One list of clock readings per call; the results, in order.\<close>

fun idgen_run :: "Generator \<Rightarrow> reading list list \<Rightarrow> ((idgen_error + int) list \<times> Generator) option" where
  "idgen_run g [] = Some ([], g)"
| "idgen_run g (rs # rss) =
     (case Generator_Next g rs of
        None \<Rightarrow> None
      | Some (res, g', _) \<Rightarrow> map_option (\<lambda>(out, g''). (res # out, g'')) (idgen_run g' rss))"

definition idgen_ids :: "(idgen_error + int) list \<Rightarrow> int list" where
  "idgen_ids out = List.map_filter (\<lambda>r. case r of Inl _ \<Rightarrow> None | Inr n \<Rightarrow> Some n) out"

lemma idgen_ids_simps [simp]:
  "idgen_ids [] = []" "idgen_ids (Inl e # out) = idgen_ids out" "idgen_ids (Inr n # out) = n # idgen_ids out"
  "idgen_ids (xs @ ys) = idgen_ids xs @ idgen_ids ys"
  by (simp_all add: idgen_ids_def List.map_filter_def)

lemma idgen_run_ok:
  assumes "idgen_inv g" "\<forall>rs\<in>set rss. \<forall>r\<in>set rs. Generator_now g r < 2 ^ 41"
    and "idgen_run g rss = Some (out, g')" "Inl ErrStalled \<notin> set out"
  shows "sorted_wrt (<) (idgen_last g # idgen_ids out) \<and> (\<forall>n\<in>set (idgen_ids out). fst (snd (idgen_Parse n)) = ig_node g)"
  using assms
proof (induction rss arbitrary: g out)
  case (Cons rs rss)
  obtain res g1 rs' where nx: "Generator_Next g rs = Some (res, g1, rs')" using Cons.prems(3) by (auto split: option.splits)
  obtain out' where out: "out = res # out'" "idgen_run g1 rss = Some (out', g')" using Cons.prems(3) nx by auto
  have ns: "res \<noteq> Inl ErrStalled" "Inl ErrStalled \<notin> set out'" using Cons.prems(4) out(1) by auto
  note k = idgen_Next_ok [OF Cons.prems(1) _ nx ns(1)]
  have g1: "idgen_inv g1" "ig_node g1 = ig_node g" "Generator_now g1 = Generator_now g"
    using k Cons.prems(2) by (simp_all add: Generator_now_def fun_eq_iff)
  have IH: "sorted_wrt (<) (idgen_last g1 # idgen_ids out') \<and> (\<forall>n\<in>set (idgen_ids out'). fst (snd (idgen_Parse n)) = ig_node g)"
    using Cons.IH [OF g1(1) _ out(2) ns(2)] Cons.prems(2) g1 by simp
  show ?case
  proof (cases res)
    case (Inl e)
    then show ?thesis using k Cons.prems(2) IH out(1) by simp
  next
    case (Inr n)
    then have n: "n = idgen_last g1" "idgen_last g < n" using k Cons.prems(2) by simp_all
    have "idgen_Parse n = (ig_lastTime g1, ig_node g, ig_sequence g1)"
      using idgen_Parse_pack [OF idgen_inv_fields [OF g1(1)]] g1(2) n(1) by (simp add: idgen_last_def)
    then show ?thesis using IH n Inr out(1) by auto
  qed
qed simp

text \<open>Calls within one millisecond use up the sequence numbers.\<close>

lemma idgen_same_ms:
  assumes "idgen_inv g" "Generator_now g r = ig_lastTime g" "ig_sequence g + int n \<le> 4095"
  shows "idgen_run g (replicate n [r]) =
     Some (map (\<lambda>i. Inr (idgen_pack (ig_lastTime g) (ig_node g) (ig_sequence g + 1 + int i))) [0..<n], g\<lparr>ig_sequence := ig_sequence g + int n\<rparr>)"
  using assms
proof (induction n arbitrary: g)
  case (Suc n)
  let ?g = "g\<lparr>ig_sequence := ig_sequence g + 1\<rparr>"
  have "(ig_sequence g + 1) AND maxSequence = ig_sequence g + 1" using Suc.prems by (simp add: and_maxSequence idgen_inv_def)
  then have nx: "Generator_Next g [r] = Some (Inr (idgen_pack (ig_lastTime g) (ig_node g) (ig_sequence g + 1)), ?g, [])"
    using Suc.prems by (simp add: Generator_Next_def idgen_catchup_def idgen_issue_def idgen_inv_def Let_def)
  have "idgen_run ?g (replicate n [r]) = Some (map (\<lambda>i. Inr (idgen_pack (ig_lastTime g) (ig_node g) (ig_sequence g + 2 + int i))) [0..<n],
      g\<lparr>ig_sequence := ig_sequence g + 1 + int n\<rparr>)"
    using Suc.IH [of ?g] Suc.prems by (simp add: idgen_inv_def Generator_now_def algebra_simps)
  moreover have "map (\<lambda>i. Inr (idgen_pack (ig_lastTime g) (ig_node g) (ig_sequence g + 1 + int i)) :: idgen_error + int) [0..<Suc n] =
      Inr (idgen_pack (ig_lastTime g) (ig_node g) (ig_sequence g + 1)) #
      map (\<lambda>i. Inr (idgen_pack (ig_lastTime g) (ig_node g) (ig_sequence g + 2 + int i))) [0..<n]"
    unfolding upt_conv_Cons [OF zero_less_Suc] map_Suc_upt [symmetric] by (simp add: algebra_simps)
  moreover have "g\<lparr>ig_sequence := ig_sequence g + 1 + int n\<rparr> = g\<lparr>ig_sequence := ig_sequence g + int (Suc n)\<rparr>" by (simp add: algebra_simps)
  ultimately show ?case using nx by (simp del: upt_Suc)
qed simp

lemma idgen_run_append:
  "idgen_run g rss = Some (out, g1) \<Longrightarrow>
     idgen_run g (rss @ rss') = map_option (\<lambda>(out', g'). (out @ out', g')) (idgen_run g1 rss')"
proof (induction rss arbitrary: g out)
  case Nil
  then show ?case by (cases "idgen_run g1 rss'") auto
next
  case (Cons rs rss)
  obtain res g2 rs' out2 where *: "Generator_Next g rs = Some (res, g2, rs')" "idgen_run g2 rss = Some (out2, g1)" "out = res # out2"
    using Cons.prems by (auto split: option.splits)
  show ?case using Cons.IH [OF *(2)] * by (cases "idgen_run g1 rss'") auto
qed

text \<open>After the 4096th call of a millisecond has given up on a clock that stands still, the sequence starts again within
  the same millisecond: the next identifier has been issued before.\<close>

lemma Generator_stall_repeats:
  assumes "idgen_inv g" "ig_sequence g = 0" "Generator_now g r = ig_lastTime g"
  shows "\<exists>out g'. idgen_run g (replicate 4095 [r] @ [[r, r, (fst r + 6 * millisecond, snd r)], [r]]) = Some (out, g') \<and> \<not> distinct (idgen_ids out)"
proof -
  let ?id = "\<lambda>i. idgen_pack (ig_lastTime g) (ig_node g) i"
  let ?out = "map (\<lambda>i. Inr (?id (1 + int i))) [0..<4095] :: (idgen_error + int) list"
  let ?g1 = "g\<lparr>ig_sequence := 4095\<rparr>" and ?r' = "(fst r + 6 * millisecond, snd r)"
  have z: "(4095 + 1 :: int) AND maxSequence = 0" "(0 + 1 :: int) AND maxSequence = 1" unfolding and_maxSequence by simp_all
  have ms: "idgen_run g (replicate 4095 [r]) = Some (?out, ?g1)" using idgen_same_ms [OF assms(1,3), of 4095] assms(2) by simp
  have sp: "idgen_spin g1 (fst r + 5 * millisecond) (ig_lastTime g + 1) (ig_lastTime g) [?r'] = Some (None, [])" for g1
    by (subst idgen_spin.simps) (simp add: millisecond_def)
  have last: "0 \<le> ig_lastTime g" using assms(1) by (simp add: idgen_inv_def)
  have now: "Generator_now (g\<lparr>ig_sequence := x\<rparr>) r = ig_lastTime g" for x using assms(3) by (simp add: Generator_now_def)
  have st: "Generator_Next ?g1 [r, r, ?r'] = Some (Inl ErrStalled, g\<lparr>ig_sequence := 0\<rparr>, [])"
    using z(1) now sp by (simp add: Generator_Next_def idgen_catchup_def idgen_issue_def Let_def)
  have nx: "Generator_Next (g\<lparr>ig_sequence := 0\<rparr>) [r] = Some (Inr (?id 1), g\<lparr>ig_sequence := 1\<rparr>, [])"
    using z(2) now by (simp add: Generator_Next_def idgen_catchup_def idgen_issue_def Let_def)
  have run: "idgen_run ?g1 [[r, r, ?r'], [r]] = Some ([Inl ErrStalled, Inr (?id 1)], g\<lparr>ig_sequence := 1\<rparr>)" using st nx by simp
  have ids: "idgen_ids ?out = map (\<lambda>i. ?id (1 + int i)) [0..<4095]" by (simp add: idgen_ids_def List.map_filter_def comp_def)
  have "?id (1 + int 0) \<in> set (map (\<lambda>i. ?id (1 + int i)) [0..<4095])" unfolding set_map by (rule imageI) simp
  then have "\<not> distinct (idgen_ids (?out @ [Inl ErrStalled, Inr (?id 1)]))" unfolding idgen_ids_simps ids by simp
  then show ?thesis using idgen_run_append [OF ms, of "[[r, r, ?r'], [r]]"] run by simp
qed

section \<open>Waiting\<close>

text \<open>The spin loops end: the monotonic clock advances by the 100 microseconds of every sleep, so after as many rounds as
  fit into the allowance the deadline has passed.\<close>

definition readings_advance :: "reading list \<Rightarrow> bool" where
  "readings_advance rs \<longleftrightarrow> sorted (map fst rs) \<and> (\<forall>i. i + 2 < length rs \<longrightarrow> fst (rs ! i) + 100000 \<le> fst (rs ! (i + 2)))"

lemma readings_advance_drop: "readings_advance rs \<Longrightarrow> readings_advance (drop k rs)"
  by (auto simp: readings_advance_def drop_map [symmetric] sorted_wrt_drop add.assoc less_diff_conv)

lemma idgen_spin_returns:
  assumes "readings_advance rs" "2 * n < length rs" "deadline < fst (rs ! 0) + 100000 * int n"
  shows "\<exists>x k. idgen_spin g deadline lim ts rs = Some (x, drop k rs) \<and> k \<le> 2 * n + 1"
  using assms
proof (induction n arbitrary: rs ts)
  case 0
  then obtain r rs1 where rs: "rs = r # rs1" by (cases rs) auto
  then have "idgen_spin g deadline lim ts rs = (if lim \<le> ts then Some (Some ts, drop 0 rs) else Some (None, drop 1 rs))"
    using 0 by (simp add: idgen_spin.simps [of g deadline lim ts])
  then show ?case by (cases "lim \<le> ts") force+
next
  case (Suc n)
  obtain r1 r2 r3 rs' where rs: "rs = r1 # r2 # r3 # rs'" using Suc.prems(2)
    by (cases rs; cases "tl rs"; cases "tl (tl rs)") auto
  have "\<forall>i. i + 2 < length rs \<longrightarrow> fst (rs ! i) + 100000 \<le> fst (rs ! (i + 2))" using Suc.prems(1) by (simp add: readings_advance_def)
  from spec [OF this, of 0] have "fst r1 + 100000 \<le> fst r3" by (simp add: rs)
  then have d: "deadline < fst ((r3 # rs') ! 0) + 100000 * int n" using Suc.prems(3) by (simp add: rs)
  have adv: "readings_advance (r3 # rs')" using readings_advance_drop [OF Suc.prems(1), of 2] by (simp add: rs)
  have "2 * n < length (r3 # rs')" using Suc.prems(2) by (simp add: rs)
  from Suc.IH [OF adv this d, of "Generator_now g r2"] obtain x k
    where x: "idgen_spin g deadline lim (Generator_now g r2) (r3 # rs') = Some (x, drop k (r3 # rs'))" "k \<le> 2 * n + 1" by blast
  consider "lim \<le> ts" | "\<not> lim \<le> ts" "deadline < fst r1" | "\<not> lim \<le> ts" "\<not> deadline < fst r1" by blast
  then show ?case
  proof cases
    case 1
    then have "idgen_spin g deadline lim ts rs = Some (Some ts, drop 0 rs)" by (simp add: idgen_spin.simps [of g deadline lim ts])
    then show ?thesis by blast
  next
    case 2
    then have "idgen_spin g deadline lim ts rs = Some (None, drop 1 rs)" by (simp add: idgen_spin.simps [of g deadline lim ts] rs)
    then show ?thesis by (intro exI [of _ None] exI [of _ 1]) simp
  next
    case 3
    then have "idgen_spin g deadline lim ts rs = Some (x, drop (k + 2) rs)" using x(1) by (simp add: idgen_spin.simps [of g deadline lim ts] rs)
    then show ?thesis using x(2) by (intro exI [of _ x] exI [of _ "k + 2"]) simp
  qed
qed

text \<open>Readings that are enough for the two loops: two per round, and the ones before them.\<close>

definition idgen_reads :: "Generator \<Rightarrow> nat" where
  "idgen_reads g = 2 * (nat (ig_maxBackwardWait (ig_cfg g) div 100000) + 101) + 2 * 51 + 6"

lemma readings_sorted: "readings_advance rs \<Longrightarrow> i \<le> j \<Longrightarrow> j < length rs \<Longrightarrow> fst (rs ! i) \<le> fst (rs ! j)"
  by (auto simp: readings_advance_def sorted_iff_nth_mono)

lemma wrap64_le: "0 \<le> x \<Longrightarrow> wrap64 x \<le> x"
  using zmod_le_nonneg_dividend [of "x + 2 ^ 63" "2 ^ 64"] by (simp add: wrap64_def)

lemma idgen_catchup_returns:
  assumes adv: "readings_advance rs" and len: "idgen_reads g \<le> length rs" and w: "0 \<le> ig_maxBackwardWait (ig_cfg g)"
  shows "\<exists>x k. idgen_catchup g rs = Some (x, drop k rs) \<and> k + 104 \<le> length rs"
proof -
  let ?n = "nat (ig_maxBackwardWait (ig_cfg g) div 100000) + 101"
  let ?dl = "\<lambda>r. fst r + wrap64 (ig_maxBackwardWait (ig_cfg g) + 10 * millisecond)"
  have l: "2 * ?n + 2 * 51 + 6 \<le> length rs" using len by (simp add: idgen_reads_def)
  obtain r r2 rs2 where rs: "rs = r # r2 # rs2" using l by (cases rs; cases "tl rs") auto
  have "fst (rs ! 1) \<le> fst (rs ! 2)" using l by (intro readings_sorted [OF adv]) simp_all
  moreover have "ig_maxBackwardWait (ig_cfg g) < 100000 * (ig_maxBackwardWait (ig_cfg g) div 100000) + 100000"
    using pos_mod_bound [of 100000 "ig_maxBackwardWait (ig_cfg g)"] mult_div_mod_eq [of 100000 "ig_maxBackwardWait (ig_cfg g)"] by linarith
  moreover have "wrap64 (ig_maxBackwardWait (ig_cfg g) + 10 * millisecond) \<le> ig_maxBackwardWait (ig_cfg g) + 10 * millisecond"
    using w by (intro wrap64_le) (simp add: millisecond_def)
  ultimately have "?dl r2 < fst (rs2 ! 0) + 100000 * int ?n" using w by (simp add: rs millisecond_def pos_imp_zdiv_nonneg_iff)
  moreover have "readings_advance rs2" using readings_advance_drop [OF adv, of 2] by (simp add: rs)
  moreover have "2 * ?n < length rs2" using l by (simp add: rs)
  ultimately obtain x k where x: "idgen_spin g (?dl r2) (ig_lastTime g) (Generator_now g r) rs2 = Some (x, drop k rs2)" "k \<le> 2 * ?n + 1"
    using idgen_spin_returns by blast
  consider "ig_lastTime g \<le> Generator_now g r"
    | "Generator_now g r < ig_lastTime g" "ig_maxBackwardWait (ig_cfg g) < wrap64 (wrap64 (ig_lastTime g - Generator_now g r) * millisecond)"
    | "Generator_now g r < ig_lastTime g" "\<not> ig_maxBackwardWait (ig_cfg g) < wrap64 (wrap64 (ig_lastTime g - Generator_now g r) * millisecond)" by linarith
  then show ?thesis
  proof cases
    case 1
    then have "idgen_catchup g rs = Some (Inr (Generator_now g r), drop 1 rs)" by (simp add: idgen_catchup_def rs Let_def)
    then show ?thesis using l by (intro exI conjI) (assumption, linarith)
  next
    case 2
    then have "idgen_catchup g rs = Some (Inl (ErrBehind (wrap64 (wrap64 (ig_lastTime g - Generator_now g r) * millisecond))), drop 1 rs)"
      by (simp add: idgen_catchup_def rs Let_def)
    then show ?thesis using l by (intro exI conjI) (assumption, linarith)
  next
    case 3
    then have "idgen_catchup g rs = Some (case x of None \<Rightarrow> Inl ErrStillBehind | Some ts \<Rightarrow> Inr ts, drop (k + 2) rs)"
      using x(1) by (cases x) (simp_all add: idgen_catchup_def rs Let_def)
    then show ?thesis using l x(2) by (intro exI conjI) (assumption, linarith)
  qed
qed

lemma idgen_issue_returns:
  assumes "readings_advance rs" "104 \<le> length rs"
  shows "idgen_issue ts g rs \<noteq> None"
proof -
  obtain r rs1 where rs: "rs = r # rs1" using assms(2) by (cases rs) auto
  have adv: "readings_advance rs1" using readings_advance_drop [OF assms(1), of 1] by (simp add: rs)
  have "fst (rs ! 0) \<le> fst (rs ! 1)" using assms(2) by (intro readings_sorted [OF assms(1)]) simp_all
  then have "fst r + 5 * millisecond < fst (rs1 ! 0) + 100000 * int 51" by (simp add: rs millisecond_def)
  moreover have "2 * 51 < length rs1" using assms(2) by (simp add: rs)
  ultimately obtain x k where "idgen_spin (g\<lparr>ig_sequence := 0\<rparr>) (fst r + 5 * millisecond) (ig_lastTime g + 1) ts rs1 = Some (x, drop k rs1)"
    using idgen_spin_returns [OF adv] by blast
  then show ?thesis by (cases x) (auto simp: idgen_issue_def rs Let_def)
qed

section \<open>Properties\<close>

text \<open>C11. Identifiers are unique: whatever the wall clock does, the identifiers that the calls on a new generator return
  increase strictly, as long as no call has given up on a clock that stands still while it waited for the next
  millisecond (and the clock is before the end of the 41 bits); and two generators with different node numbers
  never return the same identifier.\<close>

theorem Generator_unique:
  assumes "Generator_New node opts = Some g" and "Generator_New node' opts' = Some h" and "node \<noteq> node'"
    and "\<forall>rs\<in>set rss. \<forall>r\<in>set rs. Generator_now g r < 2 ^ 41" and "\<forall>rs\<in>set rss'. \<forall>r\<in>set rs. Generator_now h r < 2 ^ 41"
    and "idgen_run g rss = Some (out, g')" and "idgen_run h rss' = Some (out', h')"
    and "Inl ErrStalled \<notin> set out" and "Inl ErrStalled \<notin> set out'"
  shows "sorted_wrt (<) (idgen_ids out) \<and> distinct (idgen_ids out) \<and> set (idgen_ids out) \<inter> set (idgen_ids out') = {}"
proof -
  note g = idgen_New_inv [OF assms(1)] and h = idgen_New_inv [OF assms(2)]
  have a: "sorted_wrt (<) (idgen_ids out)" "\<forall>n\<in>set (idgen_ids out). fst (snd (idgen_Parse n)) = node"
    using idgen_run_ok [OF conjunct1 [OF g] assms(4,6,8)] g by simp_all
  have b: "\<forall>n\<in>set (idgen_ids out'). fst (snd (idgen_Parse n)) = node'"
    using idgen_run_ok [OF conjunct1 [OF h] assms(5,7,9)] h by simp
  have "distinct (idgen_ids out)" using a(1) by (induction "idgen_ids out" rule: rev_induct) (auto simp: strict_sorted_iff)
  moreover have "set (idgen_ids out) \<inter> set (idgen_ids out') = {}" using a(2) b assms(3) by force
  ultimately show ?thesis using a(1) by blast
qed

text \<open>Two calls in one millisecond on node 1, with the clock a millisecond behind at the second, and one call on node 2.\<close>

theorem Generator_unique_witness:
  "let e = defaultEpoch; run1 = idgen_run (the (Generator_New 1 [])) [[(0, e + 7)], [(1, e + 6), (2, e + 6), (3, e + 6), (4, e + 7)]];
       run2 = idgen_run (the (Generator_New 2 [])) [[(0, e + 7)]]
   in idgen_ids (fst (the run1)) = [29364224, 29364225] \<and> idgen_ids (fst (the run2)) = [29368320]"
proof -
  let ?e = defaultEpoch
  let ?rss = "[[(0, ?e + 7)], [(1, ?e + 6), (2, ?e + 6), (3, ?e + 6), (4, ?e + 7)]] :: reading list list" and ?rss' = "[[(0, ?e + 7)]] :: reading list list"
  define g where "g = \<lparr>ig_cfg = \<lparr>ig_epoch = ?e, ig_maxBackwardWait = 5 * millisecond\<rparr>, ig_node = 1, ig_lastTime = 0, ig_sequence = 0\<rparr>"
  define h where "h = g\<lparr>ig_node := 2\<rparr>"
  have new: "Generator_New 1 [] = Some g" "Generator_New 2 [] = Some h"
    by (simp_all add: Generator_New_def maxNode_def millisecond_def g_def h_def)
  have ids: "idgen_pack 7 1 0 = 29364224" "idgen_pack 7 1 1 = 29364225" "idgen_pack 7 2 0 = 29368320"
    by (simp_all add: idgen_pack_eq idgen_fields_ok_def)
  have z: "(0 + 1 :: int) AND maxSequence = 1" unfolding and_maxSequence by simp
  have n1: "Generator_Next g [(0, ?e + 7)] = Some (Inr 29364224, g\<lparr>ig_lastTime := 7\<rparr>, [])"
    by (simp add: g_def Generator_Next_def idgen_catchup_def idgen_issue_def Generator_now_def Let_def ids in_i64_def)
  have n2: "Generator_Next (g\<lparr>ig_lastTime := 7\<rparr>) [(1, ?e + 6), (2, ?e + 6), (3, ?e + 6), (4, ?e + 7)] = Some (Inr 29364225, g\<lparr>ig_lastTime := 7, ig_sequence := 1\<rparr>, [])"
    using z by (simp add: g_def Generator_Next_def idgen_catchup_def idgen_issue_def Generator_now_def Let_def ids in_i64_def
        idgen_spin.simps [where ts = 6] idgen_spin.simps [where ts = 7] millisecond_def)
  have n3: "Generator_Next h [(0, ?e + 7)] = Some (Inr 29368320, h\<lparr>ig_lastTime := 7\<rparr>, [])"
    by (simp add: g_def h_def Generator_Next_def idgen_catchup_def idgen_issue_def Generator_now_def Let_def ids in_i64_def)
  have r1: "idgen_run g ?rss = Some ([Inr 29364224, Inr 29364225], g\<lparr>ig_lastTime := 7, ig_sequence := 1\<rparr>)" using n1 n2 by simp
  have r2: "idgen_run h ?rss' = Some ([Inr 29368320], h\<lparr>ig_lastTime := 7\<rparr>)" using n3 by simp
  have "set (idgen_ids [Inr 29364224, Inr 29364225]) \<inter> set (idgen_ids [Inr 29368320]) = {}"
    using Generator_unique [OF new _ _ _ r1 r2] by (simp add: g_def h_def Generator_now_def in_i64_def)
  then show ?thesis using r1 r2 by (simp add: new)
qed

text \<open>C12. \<open>Next\<close> returns: the two loops that wait for the clock are bounded by their deadlines on the monotonic clock,
  whatever the wall clock does. With a sleep of 100 microseconds per round, twice the number of rounds in the
  tolerated time plus 310 readings of the clock are enough.\<close>

theorem Generator_Next_returns:
  assumes "readings_advance rs" and "idgen_reads g \<le> length rs" and "0 \<le> ig_maxBackwardWait (ig_cfg g)"
  shows "\<exists>res g' rs'. Generator_Next g rs = Some (res, g', rs')"
proof -
  obtain x k where c: "idgen_catchup g rs = Some (x, drop k rs)" "k + 104 \<le> length rs" using idgen_catchup_returns [OF assms] by blast
  show ?thesis
  proof (cases x)
    case (Inr ts)
    have "idgen_issue ts g (drop k rs) \<noteq> None" using c(2) by (intro idgen_issue_returns readings_advance_drop [OF assms(1)]) simp
    then show ?thesis using c(1) Inr by (simp add: Generator_Next_def)
  qed (simp add: Generator_Next_def c(1))
qed

text \<open>A wall clock that never moves again after the generator has issued an identifier two milliseconds later.\<close>

theorem Generator_Next_returns_witness:
  "let g = (the (Generator_New 1 []))\<lparr>ig_lastTime := 9\<rparr>; rs = map (\<lambda>i. (100000 * int i, defaultEpoch + 7)) [0..<410]
   in Generator_now g (hd rs) = 7 \<and> (\<exists>res g' rs'. Generator_Next g rs = Some (res, g', rs'))"
proof -
  let ?g = "(the (Generator_New 1 []))\<lparr>ig_lastTime := 9\<rparr>" and ?rs = "map (\<lambda>i. (100000 * int i, defaultEpoch + 7)) [0..<410]"
  have g: "?g = \<lparr>ig_cfg = \<lparr>ig_epoch = defaultEpoch, ig_maxBackwardWait = 5 * millisecond\<rparr>, ig_node = 1, ig_lastTime = 9, ig_sequence = 0\<rparr>"
    by (simp add: Generator_New_def maxNode_def millisecond_def)
  have "readings_advance ?rs" by (auto simp: readings_advance_def sorted_iff_nth_mono simp del: upt_rec_numeral)
  moreover have "idgen_reads ?g \<le> length ?rs" by (simp add: g idgen_reads_def millisecond_def)
  ultimately have "\<exists>res g' rs'. Generator_Next ?g ?rs = Some (res, g', rs')"
    by (rule Generator_Next_returns) (simp add: g millisecond_def)
  moreover have "hd ?rs = (0, defaultEpoch + 7)" by (subst upt_conv_Cons) simp_all
  ultimately show ?thesis unfolding Let_def by (simp add: g Generator_now_def in_i64_def del: upt_rec_numeral)
qed

text \<open>C13. \<open>Parse\<close> gets back what an identifier was made of, and \<open>TimeOf\<close> the instant in milliseconds at which it was
  issued, for every timestamp of 41 bits, node number and sequence number.\<close>

theorem Parse_roundtrip:
  assumes "idgen_fields_ok ts node sq" and "in_i64 (ts + ep)"
  shows "idgen_Parse (idgen_pack ts node sq) = (ts, node, sq) \<and> idgen_TimeOf (idgen_pack ts node sq) ep = ts + ep"
  using idgen_Parse_pack [OF assms(1)] assms(2) by (simp add: idgen_TimeOf_def)

theorem Parse_roundtrip_witness:
  "idgen_Parse (idgen_pack 5 1023 4095) = (5, 1023, 4095) \<and> idgen_TimeOf (idgen_pack 5 1023 4095) defaultEpoch = 1704067200005"
  using Parse_roundtrip [of 5 1023 4095 defaultEpoch] by (simp add: idgen_fields_ok_def defaultEpoch_def in_i64_def)

end
