(* ===== verification/Storage.thy ===== *)
theory Storage
  imports Prelude "HOL-Library.Char_ord" "HOL-Library.List_Lexorder" "HOL-Library.Product_Lexorder"
begin

text \<open>
  \<open>pkg/domain/storage\<close>: objects with versions, written under optimistic concurrency control. The version of an object is
  the MD5 digest of its value in hexadecimal; the digest is an argument (\<open>md5\<close>) of the operations that compute it.
  The map of objects is an association list, since eviction ranges over it; \<open>sort.Slice\<close> may order objects of the same
  update time in any way, so eviction takes the sorting function as an argument. A stored object is never changed
  in place, so objects are values.
\<close>

section \<open>Objects\<close>

record Object =
  ob_OwnerID :: string
  ob_Collection :: string
  ob_Key :: string
  ob_Value :: bytes
  ob_Version :: string
  ob_ReadAccess :: int
  ob_WriteAccess :: int
  ob_UpdateTime :: int

datatype WriteMode = WriteIfMatch | WriteIfNotExist | WriteLastWriteWins

record WriteOp =
  wo_OwnerID :: string
  wo_Collection :: string
  wo_Key :: string
  wo_Value :: bytes
  wo_Mode :: WriteMode
  wo_Version :: string
  wo_ReadAccess :: int
  wo_WriteAccess :: int

datatype storage_error = ErrVersionMismatch | ErrStorageConflict | ErrReadOnly | ErrPermissionDenied

record Storage =
  so_objects :: "(string \<times> Object) list"
  so_maxEntries :: int

definition Storage_New :: "int option \<Rightarrow> Storage" where
  "Storage_New maxEntries = \<lparr>so_objects = [], so_maxEntries = (case maxEntries of None \<Rightarrow> 10000 | Some n \<Rightarrow> n)\<rparr>"

definition objectKey :: "string \<Rightarrow> string \<Rightarrow> string \<Rightarrow> string" where
  "objectKey owner collection k = owner @ ''/'' @ collection @ ''/'' @ k"

definition op_key :: "WriteOp \<Rightarrow> string" where
  "op_key op = objectKey (wo_OwnerID op) (wo_Collection op) (wo_Key op)"

definition versionOf :: "(bytes \<Rightarrow> string) \<Rightarrow> bytes \<Rightarrow> string" where
  "versionOf md5 v = (if length v = 0 then [] else md5 v)"

definition canRead :: "Object \<Rightarrow> string \<Rightarrow> bool" where
  "canRead ob caller =
     (if ob_ReadAccess ob = 0 then caller = ob_OwnerID ob
      else if ob_ReadAccess ob = 1 then caller = ob_OwnerID ob
      else ob_ReadAccess ob = 2)"

definition canWrite :: "Object \<Rightarrow> string \<Rightarrow> bool" where
  "canWrite ob caller = (if ob_WriteAccess ob = 0 then False else caller = ob_OwnerID ob)"

definition so_get :: "Storage \<Rightarrow> string \<rightharpoonup> Object" where
  "so_get s = map_of (so_objects s)"

definition so_put :: "string \<Rightarrow> Object \<Rightarrow> Storage \<Rightarrow> Storage" where
  "so_put k ob s = s\<lparr>so_objects := AList.update k ob (so_objects s)\<rparr>"

definition so_del :: "string \<Rightarrow> Storage \<Rightarrow> Storage" where
  "so_del k s = s\<lparr>so_objects := AList.delete k (so_objects s)\<rparr>"

section \<open>Operations\<close>

text \<open>The answer nil, nil of \<open>Read\<close> is \<open>Inr None\<close>.\<close>

definition Storage_Read :: "string \<Rightarrow> string \<Rightarrow> string \<Rightarrow> string \<Rightarrow> Storage \<Rightarrow> storage_error + Object option" where
  "Storage_Read owner collection k caller s =
     (case so_get s (objectKey owner collection k) of
        None \<Rightarrow> Inr None
      | Some ob \<Rightarrow> if \<not> canRead ob caller then Inl ErrPermissionDenied else Inr (Some ob))"

definition write_check :: "WriteOp \<Rightarrow> Object option \<Rightarrow> storage_error option" where
  "write_check op existing =
     (case wo_Mode op of
        WriteIfMatch \<Rightarrow>
          if wo_Version op = [] then (if existing \<noteq> None then Some ErrStorageConflict else None)
          else (case existing of
                  None \<Rightarrow> Some ErrVersionMismatch
                | Some ob \<Rightarrow> if ob_Version ob \<noteq> wo_Version op then Some ErrVersionMismatch else None)
      | WriteIfNotExist \<Rightarrow> if existing \<noteq> None then Some ErrStorageConflict else None
      | WriteLastWriteWins \<Rightarrow> None)"

definition op_object :: "(bytes \<Rightarrow> string) \<Rightarrow> WriteOp \<Rightarrow> int \<Rightarrow> Object" where
  "op_object md5 op now =
     \<lparr>ob_OwnerID = wo_OwnerID op, ob_Collection = wo_Collection op, ob_Key = wo_Key op, ob_Value = wo_Value op,
      ob_Version = versionOf md5 (wo_Value op), ob_ReadAccess = wo_ReadAccess op, ob_WriteAccess = wo_WriteAccess op, ob_UpdateTime = now\<rparr>"

definition Storage_applyWriteLocked :: "(bytes \<Rightarrow> string) \<Rightarrow> WriteOp \<Rightarrow> int \<Rightarrow> Storage \<Rightarrow> (storage_error + Object) \<times> Storage" where
  "Storage_applyWriteLocked md5 op now s =
     (let existing = so_get s (op_key op)
      in if (case existing of None \<Rightarrow> False | Some ob \<Rightarrow> \<not> canWrite ob (wo_OwnerID op)) then (Inl ErrReadOnly, s)
         else (case write_check op existing of
                 Some err \<Rightarrow> (Inl err, s)
               | None \<Rightarrow> (Inr (op_object md5 op now), so_put (op_key op) (op_object md5 op now) s)))"

text \<open>\<open>thr\<close> is the rounded product \<open>int(float64(maxEntries) * 1.1)\<close>. With a negative maximum the loop runs past the end of
  the list: a run-time panic (\<open>None\<close>).\<close>

definition Storage_evictLocked :: "((string \<times> int) list \<Rightarrow> (string \<times> int) list) \<Rightarrow> (int \<Rightarrow> int) \<Rightarrow> Storage \<Rightarrow> Storage option" where
  "Storage_evictLocked srt thr s =
     (if int (length (so_objects s)) \<le> thr (so_maxEntries s) then Some s
      else let sorted = srt (map (\<lambda>(k, ob). (k, ob_UpdateTime ob)) (so_objects s));
               del = int (length sorted) - so_maxEntries s
           in if int (length sorted) < del then None
              else Some (fold (\<lambda>p s. so_del (fst p) s) (take (nat del) sorted) s))"

definition Storage_Write :: "((string \<times> int) list \<Rightarrow> (string \<times> int) list) \<Rightarrow> (int \<Rightarrow> int) \<Rightarrow> (bytes \<Rightarrow> string) \<Rightarrow> int
    \<Rightarrow> WriteOp \<Rightarrow> int \<Rightarrow> Storage \<Rightarrow> ((storage_error + Object) \<times> Storage) option" where
  "Storage_Write srt thr md5 clock op now s =
     (case Storage_applyWriteLocked md5 op (if now = 0 then clock else now) s of
        (Inl err, s1) \<Rightarrow> Some (Inl err, s1)
      | (Inr ob, s1) \<Rightarrow> map_option (\<lambda>s2. (Inr ob, s2)) (Storage_evictLocked srt thr s1))"

text \<open>The roll-back restores the snapshots in the order in which they were taken.\<close>

fun storage_restore :: "(string \<times> Object option) list \<Rightarrow> Storage \<Rightarrow> Storage" where
  "storage_restore [] s = s"
| "storage_restore ((k, None) # snaps) s = storage_restore snaps (so_del k s)"
| "storage_restore ((k, Some ob) # snaps) s = storage_restore snaps (so_put k ob s)"

fun storage_batch :: "(bytes \<Rightarrow> string) \<Rightarrow> int \<Rightarrow> (string \<times> Object option) list \<Rightarrow> Object list \<Rightarrow> WriteOp list \<Rightarrow> Storage
    \<Rightarrow> (storage_error + Object list) \<times> Storage" where
  "storage_batch md5 now snaps committed [] s = (Inr committed, s)"
| "storage_batch md5 now snaps committed (op # ops) s =
     (let snaps' = snaps @ [(op_key op, so_get s (op_key op))]
      in (case Storage_applyWriteLocked md5 op now s of
            (Inl err, s1) \<Rightarrow> (Inl err, storage_restore snaps' s1)
          | (Inr ob, s1) \<Rightarrow> storage_batch md5 now snaps' (committed @ [ob]) ops s1))"

definition op_order :: "WriteOp \<Rightarrow> string \<times> string \<times> string" where
  "op_order op = (wo_Collection op, wo_Key op, wo_OwnerID op)"

definition Storage_WriteBatch :: "((string \<times> int) list \<Rightarrow> (string \<times> int) list) \<Rightarrow> (int \<Rightarrow> int) \<Rightarrow> (bytes \<Rightarrow> string) \<Rightarrow> int
    \<Rightarrow> WriteOp list \<Rightarrow> int \<Rightarrow> Storage \<Rightarrow> ((storage_error + Object list) \<times> Storage) option" where
  "Storage_WriteBatch srt thr md5 clock ops now s =
     (case storage_batch md5 (if now = 0 then clock else now) [] [] (sort_key op_order ops) s of
        (Inl err, s1) \<Rightarrow> Some (Inl err, s1)
      | (Inr obs, s1) \<Rightarrow> map_option (\<lambda>s2. (Inr obs, s2)) (Storage_evictLocked srt thr s1))"

definition Storage_List :: "string \<Rightarrow> string \<Rightarrow> Storage \<Rightarrow> Object list" where
  "Storage_List collection caller s =
     filter (\<lambda>ob. ob_Collection ob = collection \<and> canRead ob caller) (map snd (so_objects s))"

definition Storage_Delete :: "string \<Rightarrow> string \<Rightarrow> string \<Rightarrow> string \<Rightarrow> Storage \<Rightarrow> storage_error option \<times> Storage" where
  "Storage_Delete owner collection k caller s =
     (case so_get s (objectKey owner collection k) of
        None \<Rightarrow> (None, s)
      | Some ob \<Rightarrow> if \<not> canWrite ob caller then (Some ErrReadOnly, s) else (None, so_del (objectKey owner collection k) s))"

definition Storage_Count :: "Storage \<Rightarrow> int" where
  "Storage_Count s = int (length (so_objects s))"

section \<open>Lemmas on the store\<close>

lemma so_get_put [simp]: "so_get (so_put k ob s) = (so_get s)(k \<mapsto> ob)"
  by (simp add: so_get_def so_put_def update_conv')

lemma so_get_del [simp]: "so_get (so_del k s) = (so_get s)(k := None)"
  by (simp add: so_get_def so_del_def delete_conv')

text \<open>Every object is kept under its own key, with the digest of its value.\<close>

definition storage_inv :: "(bytes \<Rightarrow> string) \<Rightarrow> Storage \<Rightarrow> bool" where
  "storage_inv md5 s \<longleftrightarrow> distinct (map fst (so_objects s))
     \<and> (\<forall>(k, ob)\<in>set (so_objects s). k = objectKey (ob_OwnerID ob) (ob_Collection ob) (ob_Key ob) \<and> ob_Version ob = versionOf md5 (ob_Value ob))"

lemma storage_inv_get:
  "storage_inv md5 s \<Longrightarrow> so_get s k = Some ob \<Longrightarrow> k = objectKey (ob_OwnerID ob) (ob_Collection ob) (ob_Key ob) \<and> ob_Version ob = versionOf md5 (ob_Value ob)"
proof -
  assume inv: "storage_inv md5 s" and "so_get s k = Some ob"
  then have "(k, ob) \<in> set (so_objects s)" by (simp add: so_get_def map_of_SomeD)
  then show ?thesis using inv unfolding storage_inv_def by blast
qed

lemma storage_inv_del: "storage_inv md5 s \<Longrightarrow> storage_inv md5 (so_del k s)"
  using distinct_delete [of "so_objects s" k] unfolding storage_inv_def so_del_def by (simp add: AList.delete_eq)

lemma storage_inv_put:
  assumes "storage_inv md5 s" "k = objectKey (ob_OwnerID ob) (ob_Collection ob) (ob_Key ob)" "ob_Version ob = versionOf md5 (ob_Value ob)"
  shows "storage_inv md5 (so_put k ob s)"
proof -
  have "set (AList.update k ob xs) \<subseteq> insert (k, ob) (set xs)" for xs :: "(string \<times> Object) list" by (induction xs) auto
  then show ?thesis using assms by (fastforce simp: storage_inv_def so_put_def distinct_update)
qed

lemma op_object_sel [simp]:
  "objectKey (ob_OwnerID (op_object md5 op now)) (ob_Collection (op_object md5 op now)) (ob_Key (op_object md5 op now)) = op_key op"
  "ob_Version (op_object md5 op now) = versionOf md5 (wo_Value op)" "ob_Value (op_object md5 op now) = wo_Value op"
  "ob_WriteAccess (op_object md5 op now) = wo_WriteAccess op" "ob_OwnerID (op_object md5 op now) = wo_OwnerID op"
  "ob_Collection (op_object md5 op now) = wo_Collection op" "ob_Key (op_object md5 op now) = wo_Key op"
  by (simp_all add: op_object_def op_key_def)

section \<open>Single writes\<close>

definition write_allowed :: "WriteOp \<Rightarrow> Object option \<Rightarrow> bool" where
  "write_allowed op existing \<longleftrightarrow> (case existing of None \<Rightarrow> True | Some ob \<Rightarrow> canWrite ob (wo_OwnerID op)) \<and> write_check op existing = None"

lemma applyWrite_cases:
  "Storage_applyWriteLocked md5 op now s =
     (if write_allowed op (so_get s (op_key op)) then (Inr (op_object md5 op now), so_put (op_key op) (op_object md5 op now) s)
      else (Inl (case so_get s (op_key op) of
                   None \<Rightarrow> the (write_check op None)
                 | Some ob \<Rightarrow> if canWrite ob (wo_OwnerID op) then the (write_check op (Some ob)) else ErrReadOnly), s))"
  by (auto simp: Storage_applyWriteLocked_def write_allowed_def Let_def split: option.split)

lemma applyWrite_inv: "storage_inv md5 s \<Longrightarrow> storage_inv md5 (snd (Storage_applyWriteLocked md5 op now s))"
  using storage_inv_put [of md5 s "op_key op" "op_object md5 op now"] by (simp add: applyWrite_cases op_key_def)

section \<open>Eviction\<close>

lemma fold_so_del:
  "so_objects (fold (\<lambda>p s. so_del (fst p) s) ps s) = filter (\<lambda>q. fst q \<notin> fst ` set ps) (so_objects s)"
  "so_maxEntries (fold (\<lambda>p s. so_del (fst p) s) ps s) = so_maxEntries s"
proof (induction ps arbitrary: s)
  case (Cons p ps)
  {
    case 1
    have "so_objects (so_del (fst p) s) = filter (\<lambda>q. fst q \<noteq> fst p) (so_objects s)"
      unfolding so_del_def AList.delete_eq by simp (rule filter_cong, auto)
    then show ?case unfolding fold_simps Cons.IH(1) by simp
  next
    case 2
    show ?case unfolding fold_simps Cons.IH(2) by (simp add: so_del_def)
  }
qed simp_all

lemma evict_ok:
  assumes srt: "sorts_by snd srt" and mx: "0 \<le> so_maxEntries s" "so_maxEntries s \<le> thr (so_maxEntries s)" and d: "distinct (map fst (so_objects s))"
  shows "\<exists>s'. Storage_evictLocked srt thr s = Some s' \<and> so_maxEntries s' = so_maxEntries s
    \<and> (if int (length (so_objects s)) \<le> thr (so_maxEntries s) then s' = s
       else (\<exists>gone. so_objects s' = filter (\<lambda>p. p \<notin> gone) (so_objects s) \<and> gone \<subseteq> set (so_objects s)
               \<and> int (length (so_objects s')) = so_maxEntries s
               \<and> (\<forall>p\<in>gone. \<forall>q\<in>set (so_objects s'). ob_UpdateTime (snd p) \<le> ob_UpdateTime (snd q))))"
proof (cases "int (length (so_objects s)) \<le> thr (so_maxEntries s)")
  case True
  then show ?thesis by (simp add: Storage_evictLocked_def)
next
  case False
  let ?f = "\<lambda>(k, ob). (k, ob_UpdateTime ob)" let ?xs = "so_objects s"
  define ys where "ys = srt (map ?f ?xs)"
  define n where "n = nat (int (length ys) - so_maxEntries s)"
  have ms: "mset ys = mset (map ?f ?xs)" and st: "sorted (map snd ys)" using srt by (simp_all add: sorts_by_def ys_def)
  have len: "length ys = length ?xs" using arg_cong [OF ms, of size] by simp
  have n: "n \<le> length ys" "int (length ys) - so_maxEntries s = int n" "\<not> int (length ys) < int (length ys) - so_maxEntries s"
    using False mx len by (simp_all add: n_def)
  define gone where "gone = {p \<in> set ?xs. fst p \<in> fst ` set (take n ys)}"
  let ?s = "fold (\<lambda>p s. so_del (fst p) s) (take n ys) s"
  have ev: "Storage_evictLocked srt thr s = Some ?s"
    using False n by (simp add: Storage_evictLocked_def Let_def ys_def [symmetric] n_def [symmetric])
  have obs: "so_objects ?s = filter (\<lambda>p. p \<notin> gone) ?xs" unfolding fold_so_del by (rule filter_cong) (auto simp: gone_def)
  have mf: "mset (map fst ys) = mset (map fst ?xs)"
  proof -
    have "mset (map fst ys) = mset (map fst (map ?f ?xs))" using ms by (metis mset_map)
    also have "map fst (map ?f ?xs) = map fst ?xs" by auto
    finally show ?thesis .
  qed
  from mf have dy: "distinct (map fst ys)" "set (map fst ys) = set (map fst ?xs)" using d mset_eq_imp_distinct_iff [OF mf] mset_eq_setD [OF mf] by simp_all
  have split: "distinct (map fst (take n ys) @ map fst (drop n ys))" using dy(1) by (simp flip: map_append)
  have "mset (map fst (so_objects ?s)) = filter_mset (\<lambda>k. k \<notin> fst ` set (take n ys)) (mset (map fst ?xs))"
    unfolding fold_so_del mset_filter [symmetric] filter_map comp_def ..
  also have "\<dots> = mset (filter (\<lambda>k. k \<notin> fst ` set (take n ys)) (map fst (take n ys) @ map fst (drop n ys)))"
    by (simp only: mset_filter flip: mf map_append) (simp only: append_take_drop_id)
  also have "filter (\<lambda>k. k \<notin> fst ` set (take n ys)) (map fst (take n ys) @ map fst (drop n ys)) = map fst (drop n ys)"
    using split by (auto simp: filter_empty_conv filter_id_conv)
  finally have kept: "mset (map fst (so_objects ?s)) = mset (map fst (drop n ys))" .
  have "length (so_objects ?s) = length ys - n" using arg_cong [OF kept, of size] by simp
  then have cnt: "int (length (so_objects ?s)) = so_maxEntries s" using n mx by simp
  have time: "(k, ob_UpdateTime ob) \<in> set ys \<and> (\<forall>t. (k, t) \<in> set ys \<longrightarrow> t = ob_UpdateTime ob)" if "(k, ob) \<in> set ?xs" for k ob
  proof -
    have "(k, ob_UpdateTime ob) \<in> set ys" using mset_eq_setD [OF ms] that by force
    then show ?thesis using dy(1) by (metis eq_key_imp_eq_value)
  qed
  have old: "ob_UpdateTime (snd p) \<le> ob_UpdateTime (snd q)" if p: "p \<in> gone" and q: "q \<in> set (so_objects ?s)" for p q
  proof -
    have px: "p \<in> set ?xs" "fst p \<in> fst ` set (take n ys)" using p by (simp_all add: gone_def)
    have "fst q \<in> set (map fst (so_objects ?s))" using q by simp
    then have "fst q \<in> set (map fst (drop n ys))" unfolding mset_eq_setD [OF kept] .
    then have qx: "q \<in> set ?xs" "fst q \<in> fst ` set (drop n ys)" using q unfolding obs by simp_all
    obtain t u where t: "(fst p, t) \<in> set (take n ys)" and u: "(fst q, u) \<in> set (drop n ys)" using px(2) qx(2) by fastforce
    have "t = ob_UpdateTime (snd p)" using time [of "fst p" "snd p"] px(1) in_set_takeD [OF t] by simp
    moreover have "u = ob_UpdateTime (snd q)" using time [of "fst q" "snd q"] qx(1) in_set_dropD [OF u] by simp
    moreover have "sorted (map snd (take n ys) @ map snd (drop n ys))" using st by (simp flip: map_append)
    then have "t \<le> u" using t u unfolding sorted_append by force
    ultimately show ?thesis by simp
  qed
  have "gone \<subseteq> set ?xs" by (auto simp: gone_def)
  then have "\<exists>gone. so_objects ?s = filter (\<lambda>p. p \<notin> gone) ?xs \<and> gone \<subseteq> set ?xs \<and> int (length (so_objects ?s)) = so_maxEntries s
      \<and> (\<forall>p\<in>gone. \<forall>q\<in>set (so_objects ?s). ob_UpdateTime (snd p) \<le> ob_UpdateTime (snd q))"
    using obs cnt old by (intro exI [of _ gone]) blast
  then show ?thesis using False ev fold_so_del(2) [of "take n ys" s] by (intro exI [of _ ?s]) simp
qed

lemma evict_sub:
  assumes "sorts_by snd srt" "0 \<le> so_maxEntries s" "so_maxEntries s \<le> thr (so_maxEntries s)" "distinct (map fst (so_objects s))"
  shows "\<exists>s'. Storage_evictLocked srt thr s = Some s' \<and> (int (length (so_objects s)) \<le> thr (so_maxEntries s) \<longrightarrow> s' = s)
    \<and> (\<exists>P. so_objects s' = filter P (so_objects s))"
proof (cases "int (length (so_objects s)) \<le> thr (so_maxEntries s)")
  case True
  have "\<exists>P. so_objects s = filter P (so_objects s)" by (rule exI [of _ "\<lambda>_. True"]) simp
  then show ?thesis using True by (simp add: Storage_evictLocked_def)
next
  case False
  then show ?thesis using evict_ok [of srt s thr, OF assms] by (simp only: if_False) blast
qed

section \<open>Batches\<close>

lemma storage_restore_get:
  "distinct (map fst snaps) \<Longrightarrow> so_get (storage_restore snaps s) k = (case map_of snaps k of None \<Rightarrow> so_get s k | Some x \<Rightarrow> x)"
proof (induction snaps s rule: storage_restore.induct)
  case (2 k' snaps s)
  then have "map_of snaps k' = None" by (simp add: map_of_eq_None_iff)
  then show ?case using 2 by (auto split: option.split)
next
  case (3 k' ob snaps s)
  then have "map_of snaps k' = None" by (simp add: map_of_eq_None_iff)
  then show ?case using 3 by (auto split: option.split)
qed simp

text \<open>While the batch runs, the snapshots say what was there before it.\<close>

lemma storage_batch_ok:
  assumes "distinct (map fst snaps @ map op_key ops)" "\<forall>k. so_get s0 k = (case map_of snaps k of None \<Rightarrow> so_get s k | Some x \<Rightarrow> x)"
  shows "if \<forall>op\<in>set ops. write_allowed op (so_get s0 (op_key op))
     then fst (storage_batch md5 now snaps acc ops s) = Inr (acc @ map (\<lambda>op. op_object md5 op now) ops)
       \<and> so_get (snd (storage_batch md5 now snaps acc ops s)) = so_get s ++ map_of (map (\<lambda>op. (op_key op, op_object md5 op now)) ops)
       \<and> so_maxEntries (snd (storage_batch md5 now snaps acc ops s)) = so_maxEntries s
       \<and> (storage_inv md5 s \<longrightarrow> storage_inv md5 (snd (storage_batch md5 now snaps acc ops s)))
     else (\<exists>err. fst (storage_batch md5 now snaps acc ops s) = Inl err) \<and> so_get (snd (storage_batch md5 now snaps acc ops s)) = so_get s0"
  using assms
proof (induction ops arbitrary: snaps acc s)
  case (Cons op ops)
  let ?k = "op_key op" let ?snaps = "snaps @ [(?k, so_get s ?k)]" and ?ob = "op_object md5 op now"
  have kn: "?k \<notin> fst ` set snaps" and dn: "distinct (map fst ?snaps @ map op_key ops)" using Cons.prems(1) by auto
  have "map_of snaps ?k = None" using kn by (simp add: map_of_eq_None_iff)
  then have ex: "so_get s0 ?k = so_get s ?k" using Cons.prems(2) by simp
  have sn: "so_get s0 k = (case map_of ?snaps k of None \<Rightarrow> so_get s k | Some x \<Rightarrow> x)" for k
    using Cons.prems(2) \<open>map_of snaps ?k = None\<close> by (auto simp: map_add_def split: option.split)
  show ?case
  proof (cases "write_allowed op (so_get s ?k)")
    case True
    let ?s = "so_put ?k ?ob s"
    have "\<forall>k. so_get s0 k = (case map_of ?snaps k of None \<Rightarrow> so_get ?s k | Some x \<Rightarrow> x)"
      using sn by (auto simp: map_add_def split: option.split)
    note IH = Cons.IH [OF dn this, of "acc @ [?ob]"]
    have step: "storage_batch md5 now snaps acc (op # ops) s = storage_batch md5 now ?snaps (acc @ [?ob]) ops ?s"
      using True by (simp add: applyWrite_cases Let_def)
    have nk: "?k \<notin> op_key ` set ops" using Cons.prems(1) by simp
    have upd: "(so_get s)(?k \<mapsto> ?ob) ++ map_of (map (\<lambda>op. (op_key op, op_object md5 op now)) ops)
        = so_get s ++ map_of (map (\<lambda>op. (op_key op, op_object md5 op now)) (op # ops))"
      using nk by (simp add: map_add_upd_left dom_map_of_conv_image_fst image_image)
    have inv: "storage_inv md5 s \<longrightarrow> storage_inv md5 ?s" using applyWrite_inv [of md5 s op now] True by (simp add: applyWrite_cases)
    have mx: "so_maxEntries ?s = so_maxEntries s" by (simp add: so_put_def)
    show ?thesis
    proof (cases "\<forall>op\<in>set ops. write_allowed op (so_get s0 (op_key op))")
      case all: True
      then have "\<forall>op\<in>set (op # ops). write_allowed op (so_get s0 (op_key op))" using True ex by simp
      then show ?thesis using IH all inv unfolding step mx so_get_put upd by simp
    next
      case False
      then have "\<not> (\<forall>op\<in>set (op # ops). write_allowed op (so_get s0 (op_key op)))" by simp
      then show ?thesis using IH False unfolding step by (simp only: if_False)
    qed
  next
    case False
    then obtain err where "storage_batch md5 now snaps acc (op # ops) s = (Inl err, storage_restore ?snaps s)"
      by (simp add: applyWrite_cases Let_def)
    moreover have "so_get (storage_restore ?snaps s) = so_get s0" using dn sn storage_restore_get [of ?snaps s] by (auto simp: fun_eq_iff)
    ultimately show ?thesis using False ex by auto
  qed
qed (auto simp: fun_eq_iff)

text \<open>The restoring order matters: when a batch names a key twice and fails, the first write to it survives the roll-back.\<close>

lemma WriteBatch_duplicate_survives:
  assumes "so_get s (op_key op) = None" "wo_Mode op = WriteIfNotExist" "wo_WriteAccess op \<noteq> 0" "now \<noteq> 0"
  shows "\<exists>s'. Storage_WriteBatch srt thr md5 clock [op, op] now s = Some (Inl ErrStorageConflict, s')
    \<and> so_get s' (op_key op) = Some (op_object md5 op now)"
  using assms
  by (simp add: Storage_WriteBatch_def applyWrite_cases write_allowed_def write_check_def canWrite_def Let_def)

text \<open>Two different objects can have the same key.\<close>

lemma objectKey_collision: "objectKey ''a/b'' ''c'' k = objectKey ''a'' ''b/c'' k"
  by (simp add: objectKey_def)

lemma length_update_le: "length (AList.update k v xs) \<le> Suc (length xs)"
  by (induction xs) auto

lemma map_of_filter_distinct:
  assumes "distinct (map fst xs)" "map_of (filter P xs) k = Some v"
  shows "map_of xs k = Some v"
  using map_of_SomeD [OF assms(2)] assms(1) by simp

section \<open>Properties\<close>

text \<open>C14. A batch of writes to different keys is atomic: if every operation is allowed by what is stored before the batch
  (its version condition holds and the object is not read-only for its owner), all objects are written, in the
  order of collection, key and owner, and only then objects may be evicted; otherwise the batch returns an
  error and nothing has changed. (The order of equal update times and the rounding of the limit are left open.)\<close>

theorem Storage_batch_atomic:
  assumes "storage_inv md5 s" and "distinct (map op_key ops)" and "sorts_by snd srt" and "0 \<le> so_maxEntries s"
    and "so_maxEntries s \<le> thr (so_maxEntries s)" and "now \<noteq> 0"
  shows "\<exists>r s'. Storage_WriteBatch srt thr md5 clock ops now s = Some (r, s') \<and>
    (if list_all (\<lambda>op. write_allowed op (so_get s (op_key op))) ops
     then r = Inr (map (\<lambda>op. op_object md5 op now) (sort_key op_order ops))
       \<and> (\<exists>s1. so_get s1 = so_get s ++ map_of (map (\<lambda>op. (op_key op, op_object md5 op now)) ops) \<and> Storage_evictLocked srt thr s1 = Some s')
     else (\<exists>err. r = Inl err) \<and> so_get s' = so_get s)"
proof -
  let ?ops = "sort_key op_order ops" let ?b = "storage_batch md5 now [] [] ?ops s"
  have ms: "mset (map op_key ?ops) = mset (map op_key ops)" by simp
  have d: "distinct (map fst ([] :: (string \<times> Object option) list) @ map op_key ?ops)"
    using mset_eq_imp_distinct_iff [OF ms] assms(2) by simp
  have all: "(\<forall>op\<in>set ?ops. write_allowed op (so_get s (op_key op))) = list_all (\<lambda>op. write_allowed op (so_get s (op_key op))) ops"
    by (simp add: list_all_iff)
  note b = storage_batch_ok [OF d, of s s md5 now "[]", unfolded all]
  obtain r s1 where rs: "?b = (r, s1)" by force
  show ?thesis
  proof (cases "list_all (\<lambda>op. write_allowed op (so_get s (op_key op))) ops")
    case False
    then show ?thesis using b rs assms(6) by (auto simp: Storage_WriteBatch_def)
  next
    case True
    have s1: "r = Inr (map (\<lambda>op. op_object md5 op now) ?ops)" "so_maxEntries s1 = so_maxEntries s" "storage_inv md5 s1"
        "so_get s1 = so_get s ++ map_of (map (\<lambda>op. (op_key op, op_object md5 op now)) ?ops)"
      using b rs True assms(1) by simp_all
    have "map_of (map (\<lambda>op. (op_key op, op_object md5 op now)) ?ops) = map_of (map (\<lambda>op. (op_key op, op_object md5 op now)) ops)"
      using d assms(2) by (subst map_of_inject_set) (simp_all add: comp_def)
    then have get: "so_get s1 = so_get s ++ map_of (map (\<lambda>op. (op_key op, op_object md5 op now)) ops)" using s1(4) by simp
    have "distinct (map fst (so_objects s1))" using s1(3) by (simp add: storage_inv_def)
    then obtain s' where "Storage_evictLocked srt thr s1 = Some s'" using evict_ok [OF assms(3)] assms(4,5) s1(2) by (metis (no_types, lifting))
    then show ?thesis using True rs s1(1) get assms(6) by (auto simp: Storage_WriteBatch_def)
  qed
qed

text \<open>A batch of two operations of which the second expects a version that is not there.\<close>

theorem Storage_batch_atomic_witness:
  "let op = \<lparr>wo_OwnerID = ''u'', wo_Collection = ''c'', wo_Key = ''k'', wo_Value = ''v'', wo_Mode = WriteIfNotExist, wo_Version = [],
             wo_ReadAccess = 0, wo_WriteAccess = 1\<rparr>;
       op2 = op\<lparr>wo_Key := ''l'', wo_Mode := WriteIfMatch, wo_Version := ''x''\<rparr>;
       r = Storage_WriteBatch (sort_key snd) (\<lambda>n. n + n div 10) (\<lambda>v. v) 0 [op, op2] 7 (Storage_New None)
   in so_get (snd (the r)) = Map.empty \<and> (\<exists>e. fst (the r) = Inl e)"
proof -
  define op where "op = \<lparr>wo_OwnerID = ''u'', wo_Collection = ''c'', wo_Key = ''k'', wo_Value = ''v'', wo_Mode = WriteIfNotExist, wo_Version = [],
             wo_ReadAccess = 0, wo_WriteAccess = 1\<rparr>"
  let ?op2 = "op\<lparr>wo_Key := ''l'', wo_Mode := WriteIfMatch, wo_Version := ''x''\<rparr>"
  have new: "so_get (Storage_New None) = Map.empty" "so_maxEntries (Storage_New None) = 10000" "storage_inv (\<lambda>v. v) (Storage_New None)"
    by (simp_all add: so_get_def Storage_New_def storage_inv_def)
  have "\<not> list_all (\<lambda>op. write_allowed op (so_get (Storage_New None) (op_key op))) [op, ?op2]"
    by (simp add: new write_allowed_def write_check_def)
  then show ?thesis
    using Storage_batch_atomic [OF new(3), of "[op, ?op2]" "sort_key snd" "\<lambda>n. n + n div 10" 7 0] sorts_by_sort_key [where f = "snd :: string \<times> int \<Rightarrow> int"]
    unfolding op_def [symmetric] Let_def by (auto simp: new op_key_def objectKey_def op_def)
qed

text \<open>C15. Optimistic locking: a write succeeds exactly when the stored object may be written by its owner and the condition of
  its mode holds, it then stores the object with the digest of its value, and a failed write changes nothing.
  Of two writers that expect the same version of an object only the first succeeds, unless it wrote a value with
  that very version: no update is lost.\<close>

theorem Storage_no_lost_update:
  assumes "storage_inv md5 s" and "sorts_by snd srt" and "0 \<le> so_maxEntries s" and "so_maxEntries s \<le> thr (so_maxEntries s)" and "now \<noteq> 0"
  shows "\<exists>r s'. Storage_Write srt thr md5 clock op now s = Some (r, s') \<and> storage_inv md5 s'
    \<and> ((\<exists>err. r = Inl err) \<longleftrightarrow> \<not> write_allowed op (so_get s (op_key op)))
    \<and> (\<forall>err. r = Inl err \<longrightarrow> s' = s)
    \<and> (\<forall>ob. r = Inr ob \<longrightarrow> ob = op_object md5 op now
         \<and> (int (length (so_objects s)) < thr (so_maxEntries s) \<longrightarrow> so_get s' = (so_get s)(op_key op \<mapsto> ob))
         \<and> (\<forall>op'. op_key op' = op_key op \<and> wo_Mode op' = WriteIfMatch \<and> wo_Version op' \<noteq> [] \<and> wo_Version op' \<noteq> versionOf md5 (wo_Value op)
              \<longrightarrow> (\<exists>err. Storage_Write srt thr md5 clock op' now s' = Some (Inl err, s'))))"
proof (cases "write_allowed op (so_get s (op_key op))")
  case False
  then obtain err where "Storage_Write srt thr md5 clock op now s = Some (Inl err, s)"
    using assms(5) by (simp add: Storage_Write_def applyWrite_cases)
  then show ?thesis using False assms(1) by auto
next
  case True
  let ?k = "op_key op" and ?ob = "op_object md5 op now" let ?s = "so_put ?k ?ob s"
  have inv: "storage_inv md5 ?s" using applyWrite_inv [OF assms(1), of op now] True by (simp add: applyWrite_cases)
  have mx: "so_maxEntries ?s = so_maxEntries s" by (simp add: so_put_def)
  obtain s' where ev: "Storage_evictLocked srt thr ?s = Some s'"
    and keep: "int (length (so_objects ?s)) \<le> thr (so_maxEntries s) \<longrightarrow> s' = ?s"
    and sub: "\<exists>P. so_objects s' = filter P (so_objects ?s)"
    using evict_sub [OF assms(2), of ?s thr] assms(3,4) inv mx by (auto simp: storage_inv_def)
  have w: "Storage_Write srt thr md5 clock op now s = Some (Inr ?ob, s')"
    using True ev assms(5) by (simp add: Storage_Write_def applyWrite_cases)
  have inv': "storage_inv md5 s'" using sub inv by (auto simp: storage_inv_def distinct_map_filter)
  have dist: "distinct (map fst (so_objects ?s))" using inv by (simp add: storage_inv_def)
  have get: "so_get s' k = None \<or> so_get s' k = so_get ?s k" for k
  proof (cases "so_get s' k")
    case (Some v)
    then show ?thesis using sub map_of_filter_distinct [OF dist] unfolding so_get_def by metis
  qed simp
  have room: "so_get s' = (so_get s)(?k \<mapsto> ?ob)" if "int (length (so_objects s)) < thr (so_maxEntries s)"
    using that keep length_update_le [of ?k ?ob "so_objects s"] by (simp add: so_put_def) (simp add: so_get_def update_conv')
  have lost: "\<exists>err. Storage_Write srt thr md5 clock op' now s' = Some (Inl err, s')"
    if "op_key op' = ?k" "wo_Mode op' = WriteIfMatch" "wo_Version op' \<noteq> []" "wo_Version op' \<noteq> versionOf md5 (wo_Value op)" for op'
  proof -
    have "\<not> write_allowed op' (so_get s' (op_key op'))" using get [of ?k] that by (auto simp: write_allowed_def write_check_def)
    then show ?thesis using assms(5) by (simp add: Storage_Write_def applyWrite_cases)
  qed
  show ?thesis using w inv' True room lost by auto
qed

text \<open>Two writers that have read version \<open>v\<close>; the second one gets \<open>ErrVersionMismatch\<close> or the like.\<close>

theorem Storage_no_lost_update_witness:
  "let op = \<lparr>wo_OwnerID = ''u'', wo_Collection = ''c'', wo_Key = ''k'', wo_Value = ''v'', wo_Mode = WriteLastWriteWins, wo_Version = [],
             wo_ReadAccess = 0, wo_WriteAccess = 1\<rparr>;
       op1 = op\<lparr>wo_Mode := WriteIfMatch, wo_Version := ''v'', wo_Value := ''x''\<rparr>; op2 = op1\<lparr>wo_Value := ''y''\<rparr>;
       write = Storage_Write (sort_key snd) (\<lambda>n. n + n div 10) (\<lambda>v. v) 0;
       s = Storage_New None\<lparr>so_objects := [(''u/c/k'', op_object (\<lambda>v. v) op 3)]\<rparr>; s1 = snd (the (write op1 7 s))
   in fst (the (write op1 7 s)) = Inr (op_object (\<lambda>v. v) op1 7) \<and> (\<exists>err. write op2 7 s1 = Some (Inl err, s1))"
proof -
  define op where "op = \<lparr>wo_OwnerID = ''u'', wo_Collection = ''c'', wo_Key = ''k'', wo_Value = ''v'', wo_Mode = WriteLastWriteWins, wo_Version = [],
             wo_ReadAccess = 0, wo_WriteAccess = 1\<rparr>"
  define op1 where "op1 = op\<lparr>wo_Mode := WriteIfMatch, wo_Version := ''v'', wo_Value := ''x''\<rparr>"
  define s where "s = Storage_New None\<lparr>so_objects := [(''u/c/k'', op_object (\<lambda>v. v) op 3)]\<rparr>"
  have k: "op_key op1 = ''u/c/k''" "op_key (op1\<lparr>wo_Value := ''y''\<rparr>) = ''u/c/k''" by (simp_all add: op1_def op_def op_key_def objectKey_def)
  have inv: "storage_inv (\<lambda>v. v) s" "so_maxEntries s = 10000" by (simp_all add: s_def storage_inv_def Storage_New_def op_def objectKey_def)
  have al: "write_allowed op1 (so_get s (op_key op1))"
    unfolding k by (simp add: s_def so_get_def write_allowed_def write_check_def canWrite_def op1_def op_def versionOf_def)
  have "op_key (op1\<lparr>wo_Value := ''y''\<rparr>) = op_key op1 \<and> wo_Mode (op1\<lparr>wo_Value := ''y''\<rparr>) = WriteIfMatch \<and> wo_Version (op1\<lparr>wo_Value := ''y''\<rparr>) \<noteq> []
      \<and> wo_Version (op1\<lparr>wo_Value := ''y''\<rparr>) \<noteq> versionOf (\<lambda>v. v) (wo_Value op1)"
    by (simp add: op1_def op_def versionOf_def op_key_def)
  moreover obtain r s' where r: "Storage_Write (sort_key snd) (\<lambda>n. n + n div 10) (\<lambda>v. v) 0 op1 7 s = Some (r, s')"
      "(\<exists>err. r = Inl err) \<longleftrightarrow> \<not> write_allowed op1 (so_get s (op_key op1))"
      "\<forall>ob. r = Inr ob \<longrightarrow> ob = op_object (\<lambda>v. v) op1 7 \<and> (\<forall>op'. op_key op' = op_key op1 \<and> wo_Mode op' = WriteIfMatch \<and> wo_Version op' \<noteq> []
         \<and> wo_Version op' \<noteq> versionOf (\<lambda>v. v) (wo_Value op1) \<longrightarrow> (\<exists>err. Storage_Write (sort_key snd) (\<lambda>n. n + n div 10) (\<lambda>v. v) 0 op' 7 s' = Some (Inl err, s')))"
    using Storage_no_lost_update [OF inv(1) sorts_by_sort_key [where f = "snd :: string \<times> int \<Rightarrow> int"], of "\<lambda>n. n + n div 10" 7 0 op1] inv(2) by auto
  moreover obtain ob where "r = Inr ob" using r(2) al by (cases r) auto
  ultimately show ?thesis unfolding op_def [symmetric] op1_def [symmetric] s_def [symmetric] Let_def by auto
qed

end
