(* ===== verification/Cache.thy ===== *)
theory Cache
  imports Prelude
begin

text \<open>
  \<open>pkg/store/cache\<close>: the interface of a bounded cache and its implementation \<open>LRU\<close>. The doubly linked list of
  \<open>container/list\<close> is a list of element addresses, front first; the map from keys holds such addresses, and an
  element leads to its entry through a store.
\<close>

section \<open>The contract of a cache\<close>

datatype ('k, 'v) cache_op = OpGet 'k | OpSet 'k 'v | OpDelete 'k

text \<open>A history of calls and its answers; \<open>None\<close> is a panic of \<open>Set\<close>. The ghost map holds what was written last.\<close>

fun cache_run :: "('k \<Rightarrow> 'c \<Rightarrow> 'v option \<times> 'c) \<Rightarrow> ('k \<Rightarrow> 'v \<Rightarrow> 'c \<Rightarrow> 'c option) \<Rightarrow> ('k \<Rightarrow> 'c \<Rightarrow> 'c) \<Rightarrow>
    ('k, 'v) cache_op list \<Rightarrow> 'c \<Rightarrow> ('v option list \<times> 'c) option" where
  "cache_run get put del [] c = Some ([], c)"
| "cache_run get put del (OpGet k # ops) c =
     map_option (\<lambda>(rs, d). (fst (get k c) # rs, d)) (cache_run get put del ops (snd (get k c)))"
| "cache_run get put del (OpSet k v # ops) c =
     (case put k v c of None \<Rightarrow> None | Some c' \<Rightarrow> map_option (\<lambda>(rs, d). (None # rs, d)) (cache_run get put del ops c'))"
| "cache_run get put del (OpDelete k # ops) c = map_option (\<lambda>(rs, d). (None # rs, d)) (cache_run get put del ops (del k c))"

primrec last_written :: "('k, 'v) cache_op \<Rightarrow> ('k \<rightharpoonup> 'v) \<Rightarrow> 'k \<rightharpoonup> 'v" where
  "last_written (OpGet k) m = m"
| "last_written (OpSet k v) m = m(k \<mapsto> v)"
| "last_written (OpDelete k) m = m(k := None)"

lemma cache_run_append:
  "cache_run get put del (xs @ ys) c =
     (case cache_run get put del xs c of None \<Rightarrow> None | Some (rs, d) \<Rightarrow> map_option (\<lambda>(rs', e). (rs @ rs', e)) (cache_run get put del ys d))"
  by (induction get put del xs c rule: cache_run.induct) (auto simp: option.map_comp comp_def case_prod_unfold option.map_ident split: option.splits)

text \<open>What the users of the interface \<open>Cache\<close> rely on. A cache may drop entries when one is written, never otherwise,
  and it does not drop the one that was just written.\<close>

locale bounded_cache =
  fixes get :: "'k \<Rightarrow> 'c \<Rightarrow> 'v option \<times> 'c"
    and put :: "'k \<Rightarrow> 'v \<Rightarrow> 'c \<Rightarrow> 'c option"
    and del :: "'k \<Rightarrow> 'c \<Rightarrow> 'c"
    and len :: "'c \<Rightarrow> nat"
    and capacity :: "'c \<Rightarrow> nat"
    and contents :: "'c \<Rightarrow> 'k \<rightharpoonup> 'v"
    and cinv :: "'c \<Rightarrow> bool"
  assumes c_get: "cinv c \<Longrightarrow> get k c = (r, c') \<Longrightarrow> r = contents c k \<and> contents c' = contents c \<and> cinv c' \<and> capacity c' = capacity c"
    and c_put: "cinv c \<Longrightarrow> \<exists>c'. put k v c = Some c' \<and> contents c' \<subseteq>\<^sub>m (contents c)(k \<mapsto> v) \<and> contents c' k = Some v \<and> cinv c' \<and> capacity c' = capacity c"
    and c_del: "cinv c \<Longrightarrow> contents (del k c) = (contents c)(k := None) \<and> cinv (del k c) \<and> capacity (del k c) = capacity c"
    and c_len: "cinv c \<Longrightarrow> finite (dom (contents c)) \<and> len c = card (dom (contents c)) \<and> len c \<le> capacity c"
begin

lemma get_ok: "cinv c \<Longrightarrow> fst (get k c) = contents c k \<and> contents (snd (get k c)) = contents c \<and> cinv (snd (get k c)) \<and> capacity (snd (get k c)) = capacity c"
  using c_get [of c k "fst (get k c)" "snd (get k c)"] by simp

text \<open>Every history runs, and what the cache holds is what was written last.\<close>

lemma run_returns:
  assumes "cinv c" "contents c \<subseteq>\<^sub>m m"
  shows "\<exists>rs c'. cache_run get put del ops c = Some (rs, c') \<and> cinv c' \<and> capacity c' = capacity c \<and> length rs = length ops
    \<and> contents c' \<subseteq>\<^sub>m fold last_written ops m"
  using assms
proof (induction ops arbitrary: c m)
  case (Cons x ops)
  show ?case
  proof (cases x)
    case (OpGet k)
    with get_ok [OF Cons.prems(1), of k] Cons.IH [of "snd (get k c)" m] Cons.prems(2) show ?thesis by auto
  next
    case (OpSet k v)
    from c_put [OF Cons.prems(1), of k v] obtain c1
      where p: "put k v c = Some c1" "contents c1 \<subseteq>\<^sub>m (contents c)(k \<mapsto> v)" "cinv c1" "capacity c1 = capacity c" by blast
    then have "contents c1 \<subseteq>\<^sub>m m(k \<mapsto> v)" using Cons.prems(2) by (meson map_le_trans map_le_upd)
    from Cons.IH [OF p(3) this] p OpSet show ?thesis by (auto simp del: fun_upd_apply)
  next
    case (OpDelete k)
    have "contents (del k c) \<subseteq>\<^sub>m m(k := None)" using c_del [OF Cons.prems(1), of k] Cons.prems(2) by (auto simp: map_le_def)
    moreover have "cinv (del k c)" "capacity (del k c) = capacity c" using c_del [OF Cons.prems(1), of k] by simp_all
    ultimately show ?thesis using Cons.IH [of "del k c" "m(k := None)"] OpDelete by (auto simp del: fun_upd_apply)
  qed
qed simp

lemma run_bounded:
  assumes "cinv c" "contents c = Map.empty"
  shows "\<exists>rs c'. cache_run get put del ops c = Some (rs, c') \<and> length rs = length ops \<and> len c' \<le> capacity c"
proof -
  have "contents c \<subseteq>\<^sub>m Map.empty" using assms(2) by simp
  from run_returns [OF assms(1) this, of ops] c_len show ?thesis by metis
qed

text \<open>A hit returns what was written last and not deleted since; a read right after a write of the same key is a hit.\<close>

lemma run_hit:
  assumes inv: "cinv c" and c: "contents c = Map.empty" and run: "cache_run get put del (xs @ OpGet k # ys) c = Some (rs, c')"
    and hit: "rs ! length xs = Some v"
  shows "fold last_written xs Map.empty k = Some v"
proof -
  have "contents c \<subseteq>\<^sub>m Map.empty" using c by simp
  from run_returns [OF inv this, of xs] obtain rs1 d
    where d: "cache_run get put del xs c = Some (rs1, d)" "cinv d" "length rs1 = length xs" "contents d \<subseteq>\<^sub>m fold last_written xs Map.empty" by auto
  from run d(1) obtain rs2 where "rs = rs1 @ fst (get k d) # rs2" by (auto simp: cache_run_append)
  then have "contents d k = Some v" using hit get_ok [OF d(2), of k] by (simp flip: d(3))
  then show ?thesis using d(4) by (auto simp: map_le_def dom_def)
qed

lemma read_own_write:
  assumes inv: "cinv c" and c: "contents c = Map.empty" and run: "cache_run get put del (xs @ OpSet k v # OpGet k # ys) c = Some (rs, c')"
  shows "rs ! Suc (length xs) = Some v"
proof -
  have "contents c \<subseteq>\<^sub>m Map.empty" using c by simp
  from run_returns [OF inv this, of xs] obtain rs1 d
    where d: "cache_run get put del xs c = Some (rs1, d)" "cinv d" "length rs1 = length xs" by auto
  from c_put [OF d(2), of k v] obtain e where e: "put k v d = Some e" "contents e k = Some v" "cinv e" by blast
  with run d(1) obtain rs2 where "rs = rs1 @ None # fst (get k e) # rs2" by (auto simp: cache_run_append)
  then show ?thesis using get_ok [OF e(3), of k] e(2) by (simp add: nth_append flip: d(3))
qed

end

section \<open>LRU\<close>

record ('k, 'v) LRU =
  lr_cap :: int
  lr_entries :: "('k \<times> 'v) list"
  lr_ll :: "nat list"
  lr_items :: "'k \<rightharpoonup> nat"

definition NewLRU :: "int \<Rightarrow> ('k, 'v) LRU" where
  "NewLRU capacity = \<lparr>lr_cap = (if capacity \<le> 0 then 1 else capacity), lr_entries = [], lr_ll = [], lr_items = Map.empty\<rparr>"

text \<open>\<open>List.MoveToFront\<close> ignores an element that is not in the list.\<close>

definition list_MoveToFront :: "nat \<Rightarrow> nat list \<Rightarrow> nat list" where
  "list_MoveToFront a l = (if a \<in> set l then a # remove1 a l else l)"

definition LRU_removeElement :: "nat \<Rightarrow> ('k, 'v) LRU \<Rightarrow> ('k, 'v) LRU" where
  "LRU_removeElement a c = c\<lparr>lr_ll := remove1 a (lr_ll c), lr_items := (lr_items c)(fst (lr_entries c ! a) := None)\<rparr>"

definition LRU_removeOldest :: "('k, 'v) LRU \<Rightarrow> ('k, 'v) LRU" where
  "LRU_removeOldest c = (if lr_ll c = [] then c else LRU_removeElement (last (lr_ll c)) c)"

definition LRU_Get :: "'k \<Rightarrow> ('k, 'v) LRU \<Rightarrow> 'v option \<times> ('k, 'v) LRU" where
  "LRU_Get k c =
     (case lr_items c k of
        Some a \<Rightarrow> (Some (snd (lr_entries c ! a)), c\<lparr>lr_ll := list_MoveToFront a (lr_ll c)\<rparr>)
      | None \<Rightarrow> (None, c))"

definition LRU_Set :: "'k \<Rightarrow> 'v \<Rightarrow> ('k, 'v) LRU \<Rightarrow> ('k, 'v) LRU" where
  "LRU_Set k v c =
     (case lr_items c k of
        Some a \<Rightarrow> c\<lparr>lr_entries := (lr_entries c)[a := (fst (lr_entries c ! a), v)], lr_ll := list_MoveToFront a (lr_ll c)\<rparr>
      | None \<Rightarrow>
          let a = length (lr_entries c);
              c1 = c\<lparr>lr_entries := lr_entries c @ [(k, v)], lr_ll := a # lr_ll c, lr_items := (lr_items c)(k \<mapsto> a)\<rparr>
          in if lr_cap c1 < int (length (lr_ll c1)) then LRU_removeOldest c1 else c1)"

definition LRU_Delete :: "'k \<Rightarrow> ('k, 'v) LRU \<Rightarrow> ('k, 'v) LRU" where
  "LRU_Delete k c = (case lr_items c k of Some a \<Rightarrow> LRU_removeElement a c | None \<Rightarrow> c)"

definition LRU_Len :: "('k, 'v) LRU \<Rightarrow> nat" where
  "LRU_Len c = length (lr_ll c)"

text \<open>The entries, most recently used first.\<close>

definition lru_list :: "('k, 'v) LRU \<Rightarrow> ('k \<times> 'v) list" where
  "lru_list c = map (\<lambda>a. lr_entries c ! a) (lr_ll c)"

definition lru_inv :: "('k, 'v) LRU \<Rightarrow> bool" where
  "lru_inv c \<longleftrightarrow> 0 < lr_cap c \<and> int (length (lr_ll c)) \<le> lr_cap c \<and> distinct (lr_ll c)
     \<and> (\<forall>a\<in>set (lr_ll c). a < length (lr_entries c))
     \<and> (\<forall>k a. lr_items c k = Some a \<longleftrightarrow> a \<in> set (lr_ll c) \<and> fst (lr_entries c ! a) = k)"

text \<open>The specification: a list of entries in the order of their last use, cut off at the capacity.\<close>

definition spec_use :: "'k \<Rightarrow> 'v \<Rightarrow> ('k \<times> 'v) list \<Rightarrow> ('k \<times> 'v) list" where
  "spec_use k v xs = (k, v) # filter (\<lambda>p. fst p \<noteq> k) xs"

definition spec_forget :: "'k \<Rightarrow> ('k \<times> 'v) list \<Rightarrow> ('k \<times> 'v) list" where
  "spec_forget k xs = filter (\<lambda>p. fst p \<noteq> k) xs"

lemma lru_invD:
  assumes "lru_inv c"
  shows "0 < lr_cap c" "int (length (lr_ll c)) \<le> lr_cap c" "distinct (lr_ll c)" "a \<in> set (lr_ll c) \<Longrightarrow> a < length (lr_entries c)"
    "lr_items c k = Some a \<longleftrightarrow> a \<in> set (lr_ll c) \<and> fst (lr_entries c ! a) = k"
  using assms by (simp_all add: lru_inv_def)

lemma lru_key_inj:
  assumes "lru_inv c" "a \<in> set (lr_ll c)" "b \<in> set (lr_ll c)" "fst (lr_entries c ! a) = fst (lr_entries c ! b)"
  shows "a = b"
  using lru_invD(5) [OF assms(1), of "fst (lr_entries c ! b)" a] lru_invD(5) [OF assms(1), of "fst (lr_entries c ! b)" b] assms by simp

lemma lru_distinct: "lru_inv c \<Longrightarrow> distinct (map fst (lru_list c))"
  using lru_key_inj [of c] lru_invD(3) [of c] by (auto simp: lru_list_def distinct_map comp_def intro!: inj_onI)

text \<open>Without the element of a key, the list loses exactly the entry of the key.\<close>

lemma lru_remove1:
  assumes inv: "lru_inv c" and a: "a \<in> set (lr_ll c)"
  shows "map (\<lambda>b. lr_entries c ! b) (remove1 a (lr_ll c)) = filter (\<lambda>p. fst p \<noteq> fst (lr_entries c ! a)) (lru_list c)"
proof -
  have "remove1 a (lr_ll c) = filter (\<lambda>b. b \<noteq> a) (lr_ll c)" using lru_invD(3) [OF inv] by (auto simp: distinct_remove1_removeAll removeAll_filter_not_eq intro: filter_cong)
  also have "\<dots> = filter (\<lambda>b. fst (lr_entries c ! b) \<noteq> fst (lr_entries c ! a)) (lr_ll c)"
    using lru_key_inj [OF inv a] by (intro filter_cong) (auto dest: sym)
  finally show ?thesis by (simp add: lru_list_def filter_map comp_def)
qed

lemma lru_lookup:
  assumes inv: "lru_inv c"
  shows "map_of (lru_list c) k = map_option (\<lambda>a. snd (lr_entries c ! a)) (lr_items c k)"
proof (cases "lr_items c k")
  case None
  then have "\<forall>a\<in>set (lr_ll c). fst (lr_entries c ! a) \<noteq> k" using lru_invD(5) [OF inv, of k] by auto
  then show ?thesis using None by (auto simp: lru_list_def map_of_eq_None_iff)
next
  case (Some a)
  then have "a \<in> set (lr_ll c)" "fst (lr_entries c ! a) = k" using lru_invD(5) [OF inv] by simp_all
  then have "(k, snd (lr_entries c ! a)) \<in> set (lru_list c)" by (force simp: lru_list_def)
  then show ?thesis using lru_distinct [OF inv] Some by simp
qed

lemma lru_absent: "lru_inv c \<Longrightarrow> lr_items c k = None \<Longrightarrow> filter (\<lambda>p. fst p \<noteq> k) (lru_list c) = lru_list c"
  using lru_lookup [of c k] by (auto simp: map_of_eq_None_iff filter_id_conv)

lemma LRU_Get_ok:
  assumes inv: "lru_inv c"
  shows "fst (LRU_Get k c) = map_of (lru_list c) k" "lru_inv (snd (LRU_Get k c))"
    "lru_list (snd (LRU_Get k c)) = (case map_of (lru_list c) k of None \<Rightarrow> lru_list c | Some v \<Rightarrow> spec_use k v (lru_list c))"
    "lr_cap (snd (LRU_Get k c)) = lr_cap c"
proof -
  show "fst (LRU_Get k c) = map_of (lru_list c) k" by (simp add: LRU_Get_def lru_lookup [OF inv] split: option.split)
  show "lr_cap (snd (LRU_Get k c)) = lr_cap c" by (simp add: LRU_Get_def split: option.split)
  have "lru_inv (snd (LRU_Get k c)) \<and> lru_list (snd (LRU_Get k c)) = (case map_of (lru_list c) k of None \<Rightarrow> lru_list c | Some v \<Rightarrow> spec_use k v (lru_list c))"
  proof (cases "lr_items c k")
    case None
    then show ?thesis using inv by (simp add: LRU_Get_def lru_lookup)
  next
    case (Some a)
    then have a: "a \<in> set (lr_ll c)" "fst (lr_entries c ! a) = k" using lru_invD(5) [OF inv] by simp_all
    let ?c = "c\<lparr>lr_ll := a # remove1 a (lr_ll c)\<rparr>"
    have "snd (LRU_Get k c) = ?c" using Some a(1) by (simp add: LRU_Get_def list_MoveToFront_def)
    moreover have "lru_inv ?c" using inv a(1) unfolding lru_inv_def by (auto simp: length_remove1 set_remove1_eq)
    moreover have "lru_list ?c = spec_use k (snd (lr_entries c ! a)) (lru_list c)"
      using lru_remove1 [OF inv a(1)] a(2) by (simp add: lru_list_def spec_use_def prod_eq_iff)
    ultimately show ?thesis using Some by (simp add: lru_lookup [OF inv])
  qed
  then show "lru_inv (snd (LRU_Get k c))"
    "lru_list (snd (LRU_Get k c)) = (case map_of (lru_list c) k of None \<Rightarrow> lru_list c | Some v \<Rightarrow> spec_use k v (lru_list c))" by simp_all
qed

lemma LRU_removeElement_ok:
  assumes inv: "lru_inv c" and a: "a \<in> set (lr_ll c)"
  shows "lru_inv (LRU_removeElement a c)" "lru_list (LRU_removeElement a c) = spec_forget (fst (lr_entries c ! a)) (lru_list c)"
proof -
  let ?k = "fst (lr_entries c ! a)"
  show "lru_list (LRU_removeElement a c) = spec_forget ?k (lru_list c)"
    using lru_remove1 [OF inv a] by (simp add: lru_list_def LRU_removeElement_def spec_forget_def)
  have "((lr_items c)(?k := None)) k = Some b \<longleftrightarrow> b \<in> set (remove1 a (lr_ll c)) \<and> fst (lr_entries c ! b) = k" for k b
    using lru_invD(5) [OF inv, of k b] lru_key_inj [OF inv a, of b] lru_invD(3) [OF inv] by (cases "k = ?k") (auto simp: set_remove1_eq)
  then show "lru_inv (LRU_removeElement a c)"
    using lru_invD(1-4) [OF inv] by (auto simp: lru_inv_def LRU_removeElement_def length_remove1 dest: notin_set_remove1)
qed

lemma spec_forget_keys [simp]: "distinct (map fst xs) \<Longrightarrow> distinct (map fst (spec_forget k xs))" for xs :: "('k \<times> 'v) list"
  by (simp add: spec_forget_def distinct_map_filter)

text \<open>Writing a new entry leaves one too many when the cache is full; the last entry goes.\<close>

definition lru_push :: "'k \<Rightarrow> 'v \<Rightarrow> ('k, 'v) LRU \<Rightarrow> ('k, 'v) LRU" where
  "lru_push k v c = c\<lparr>lr_entries := lr_entries c @ [(k, v)], lr_ll := length (lr_entries c) # lr_ll c,
     lr_items := (lr_items c)(k \<mapsto> length (lr_entries c))\<rparr>"

lemma lru_push_ok:
  assumes inv: "lru_inv c" and new: "lr_items c k = None"
  shows "lru_inv (lru_push k v c\<lparr>lr_cap := lr_cap c + 1\<rparr>)" "lru_list (lru_push k v c) = (k, v) # lru_list c"
proof -
  have nth: "(lr_entries c @ [(k, v)]) ! a = lr_entries c ! a" if "a \<in> set (lr_ll c)" for a
    using lru_invD(4) [OF inv that] by (simp add: nth_append)
  then show "lru_list (lru_push k v c) = (k, v) # lru_list c" by (simp add: lru_list_def lru_push_def)
  have fresh: "length (lr_entries c) \<notin> set (lr_ll c)" using lru_invD(4) [OF inv] by blast
  have nok: "fst (lr_entries c ! a) \<noteq> k" if "a \<in> set (lr_ll c)" for a
    using lru_invD(5) [OF inv, of k a] that new by simp
  have "((lr_items c)(k \<mapsto> length (lr_entries c))) k' = Some a
      \<longleftrightarrow> a \<in> set (length (lr_entries c) # lr_ll c) \<and> fst ((lr_entries c @ [(k, v)]) ! a) = k'" for k' a
    using lru_invD(5) [OF inv, of k' a] nok [of a] nth [of a] fresh by (cases "a = length (lr_entries c)") auto
  then show "lru_inv (lru_push k v c\<lparr>lr_cap := lr_cap c + 1\<rparr>)"
    using lru_invD(1-4) [OF inv] fresh by (auto simp: lru_inv_def lru_push_def less_SucI)
qed

lemma lru_inv_cap: "lru_inv (c\<lparr>lr_cap := n\<rparr>) \<Longrightarrow> 0 < m \<Longrightarrow> int (length (lr_ll c)) \<le> m \<Longrightarrow> lru_inv (c\<lparr>lr_cap := m\<rparr>)"
  by (simp add: lru_inv_def)

lemma lru_list_cap [simp]: "lru_list (c\<lparr>lr_cap := n\<rparr>) = lru_list c"
  by (simp add: lru_list_def)

lemma LRU_removeElement_cap: "LRU_removeElement a (c\<lparr>lr_cap := n\<rparr>) = LRU_removeElement a c\<lparr>lr_cap := n\<rparr>"
  by (simp add: LRU_removeElement_def)

lemma filter_last_key:
  assumes "distinct (map fst xs)" "xs \<noteq> []"
  shows "spec_forget (fst (last xs)) xs = butlast xs"
proof -
  obtain ys y where xs: "xs = ys @ [y]" using assms(2) by (cases xs rule: rev_cases) auto
  have "fst p \<noteq> fst y" if "p \<in> set ys" for p using assms(1) that by (auto simp: xs intro: rev_image_eqI)
  then show ?thesis by (simp add: xs spec_forget_def filter_id_conv)
qed

lemma LRU_Set_new:
  assumes inv: "lru_inv c" and new: "lr_items c k = None"
  shows "lru_inv (LRU_Set k v c) \<and> lru_list (LRU_Set k v c) = take (nat (lr_cap c)) ((k, v) # lru_list c)"
proof -
  let ?c = "lru_push k v c"
  have set: "LRU_Set k v c = (if lr_cap c < int (length (lr_ll ?c)) then LRU_removeOldest ?c else ?c)"
    using new by (simp add: LRU_Set_def lru_push_def Let_def)
  note ok = lru_push_ok [OF inv new, of v]
  have cap: "lr_cap ?c = lr_cap c" "length (lr_ll ?c) = Suc (length (lr_ll c))" by (simp_all add: lru_push_def)
  show ?thesis
  proof (cases "lr_cap c < int (length (lr_ll ?c))")
    case False
    then have "lru_inv (?c\<lparr>lr_cap := lr_cap c\<rparr>)" using lru_inv_cap [OF ok(1)] lru_invD(1) [OF inv] by simp
    moreover have "?c\<lparr>lr_cap := lr_cap c\<rparr> = ?c" by (simp add: lru_push_def)
    ultimately show ?thesis using False set ok(2) cap by (simp add: lru_list_def)
  next
    case True
    then have len: "int (length (lr_ll c)) = lr_cap c" using lru_invD(2) [OF inv] cap by simp
    let ?l = "last (lr_ll ?c)"
    have ne: "lr_ll ?c \<noteq> []" by (simp add: lru_push_def)
    have l: "?l \<in> set (lr_ll (?c\<lparr>lr_cap := lr_cap c + 1\<rparr>))" using last_in_set [OF ne] by simp
    have rm: "LRU_Set k v c = LRU_removeElement ?l ?c" using True set ne by (simp add: LRU_removeOldest_def)
    note del = LRU_removeElement_ok [OF ok(1) l, unfolded LRU_removeElement_cap]
    have "length (lr_ll (LRU_removeElement ?l ?c)) = length (lr_ll c)"
      using l cap by (simp add: LRU_removeElement_def length_remove1)
    then have "lru_inv (LRU_removeElement ?l ?c\<lparr>lr_cap := lr_cap c\<rparr>)"
      using lru_inv_cap [OF del(1)] lru_invD(1) [OF inv] len by simp
    moreover have "LRU_removeElement ?l ?c\<lparr>lr_cap := lr_cap c\<rparr> = LRU_removeElement ?l ?c"
      by (simp add: LRU_removeElement_def lru_push_def)
    moreover have "fst (lr_entries ?c ! ?l) = fst (last (lru_list ?c))" using ne by (simp add: lru_list_def last_map)
    moreover have "distinct (map fst (lru_list ?c))" using lru_distinct [OF ok(1)] by simp
    ultimately have "lru_inv (LRU_removeElement ?l ?c)" "lru_list (LRU_removeElement ?l ?c) = butlast (lru_list ?c)"
      using del(2) filter_last_key [of "lru_list ?c"] ok(2) by simp_all
    moreover have "butlast ((k, v) # lru_list c) = take (nat (lr_cap c)) ((k, v) # lru_list c)"
      using len by (simp add: butlast_conv_take lru_list_def flip: len)
    ultimately show ?thesis using rm ok(2) by simp
  qed
qed

lemma LRU_Set_old:
  assumes inv: "lru_inv c" and old: "lr_items c k = Some a"
  shows "lru_inv (LRU_Set k v c) \<and> lru_list (LRU_Set k v c) = spec_use k v (lru_list c)"
proof -
  have a: "a \<in> set (lr_ll c)" "fst (lr_entries c ! a) = k" using lru_invD(5) [OF inv] old by simp_all
  have lt: "a < length (lr_entries c)" using lru_invD(4) [OF inv a(1)] .
  let ?c = "c\<lparr>lr_entries := (lr_entries c)[a := (k, v)], lr_ll := a # remove1 a (lr_ll c)\<rparr>"
  have set: "LRU_Set k v c = ?c" using old a by (simp add: LRU_Set_def list_MoveToFront_def)
  have key: "fst ((lr_entries c)[a := (k, v)] ! b) = fst (lr_entries c ! b)" for b
    using a(2) lt by (cases "b = a") simp_all
  have "lru_inv ?c" using inv a(1) unfolding lru_inv_def by (auto simp: length_remove1 set_remove1_eq key)
  moreover have "(lr_entries c)[a := (k, v)] ! b = lr_entries c ! b" if "b \<in> set (remove1 a (lr_ll c))" for b
    using that lru_invD(3) [OF inv] by (cases "b = a") simp_all
  then have "map (\<lambda>b. (lr_entries c)[a := (k, v)] ! b) (remove1 a (lr_ll c)) = map (\<lambda>b. lr_entries c ! b) (remove1 a (lr_ll c))"
    by (intro map_cong) simp_all
  then have "lru_list ?c = spec_use k v (lru_list c)"
    using lru_remove1 [OF inv a(1)] lt a(2) by (simp add: lru_list_def spec_use_def)
  ultimately show ?thesis using set by simp
qed

lemma lru_list_length: "lru_inv c \<Longrightarrow> int (length (lru_list c)) \<le> lr_cap c"
  by (simp add: lru_list_def lru_inv_def)

lemma spec_use_length: "map_of xs k = Some v' \<Longrightarrow> length (spec_use k v xs) \<le> length xs" for xs :: "('k \<times> 'v) list"
  using length_filter_less [of "(k, v')" xs "\<lambda>p. fst p \<noteq> k"] by (auto simp: spec_use_def dest: map_of_SomeD)

lemma LRU_Set_ok:
  assumes inv: "lru_inv c"
  shows "lru_inv (LRU_Set k v c)" "lru_list (LRU_Set k v c) = take (nat (lr_cap c)) (spec_use k v (lru_list c))"
    "lr_cap (LRU_Set k v c) = lr_cap c"
proof -
  have "lru_inv (LRU_Set k v c) \<and> lru_list (LRU_Set k v c) = take (nat (lr_cap c)) (spec_use k v (lru_list c))"
  proof (cases "lr_items c k")
    case None
    then show ?thesis using LRU_Set_new [OF inv None, of v] lru_absent [OF inv None] by (simp add: spec_use_def)
  next
    case (Some a)
    have "length (spec_use k v (lru_list c)) \<le> nat (lr_cap c)"
      using spec_use_length [of "lru_list c" k _ v] lru_lookup [OF inv, of k] Some lru_list_length [OF inv] by fastforce
    then show ?thesis using LRU_Set_old [OF inv Some, of v] by simp
  qed
  then show "lru_inv (LRU_Set k v c)" "lru_list (LRU_Set k v c) = take (nat (lr_cap c)) (spec_use k v (lru_list c))" by simp_all
  show "lr_cap (LRU_Set k v c) = lr_cap c"
    by (simp add: LRU_Set_def LRU_removeOldest_def LRU_removeElement_def Let_def split: option.split)
qed

lemma LRU_Delete_ok:
  assumes inv: "lru_inv c"
  shows "lru_inv (LRU_Delete k c)" "lru_list (LRU_Delete k c) = spec_forget k (lru_list c)" "lr_cap (LRU_Delete k c) = lr_cap c"
proof -
  have "lru_inv (LRU_Delete k c) \<and> lru_list (LRU_Delete k c) = spec_forget k (lru_list c)"
  proof (cases "lr_items c k")
    case None
    then show ?thesis using inv lru_absent [OF inv None] by (simp add: LRU_Delete_def spec_forget_def)
  next
    case (Some a)
    then have "a \<in> set (lr_ll c)" "fst (lr_entries c ! a) = k" using lru_invD(5) [OF inv] by simp_all
    then show ?thesis using Some LRU_removeElement_ok [OF inv] by (auto simp: LRU_Delete_def)
  qed
  then show "lru_inv (LRU_Delete k c)" "lru_list (LRU_Delete k c) = spec_forget k (lru_list c)" by simp_all
  show "lr_cap (LRU_Delete k c) = lr_cap c" by (simp add: LRU_Delete_def LRU_removeElement_def split: option.split)
qed

lemma NewLRU_ok: "lru_inv (NewLRU n)" "lru_list (NewLRU n) = []" "lr_cap (NewLRU n) = max 1 n"
  by (simp_all add: NewLRU_def lru_inv_def lru_list_def)

text \<open>A history of calls with the answers of \<open>Get\<close> and of \<open>Len\<close> after each call.\<close>

primrec lru_step :: "('k, 'v) cache_op \<Rightarrow> ('k, 'v) LRU \<Rightarrow> 'v option \<times> ('k, 'v) LRU" where
  "lru_step (OpGet k) c = LRU_Get k c"
| "lru_step (OpSet k v) c = (None, LRU_Set k v c)"
| "lru_step (OpDelete k) c = (None, LRU_Delete k c)"

primrec spec_step :: "nat \<Rightarrow> ('k, 'v) cache_op \<Rightarrow> ('k \<times> 'v) list \<Rightarrow> 'v option \<times> ('k \<times> 'v) list" where
  "spec_step n (OpGet k) xs = (map_of xs k, case map_of xs k of None \<Rightarrow> xs | Some v \<Rightarrow> spec_use k v xs)"
| "spec_step n (OpSet k v) xs = (None, take n (spec_use k v xs))"
| "spec_step n (OpDelete k) xs = (None, spec_forget k xs)"

fun answers :: "('op \<Rightarrow> 's \<Rightarrow> 'a \<times> 's) \<Rightarrow> ('s \<Rightarrow> nat) \<Rightarrow> 'op list \<Rightarrow> 's \<Rightarrow> ('a \<times> nat) list" where
  "answers step len [] s = []"
| "answers step len (x # xs) s = (let (a, s') = step x s in (a, len s') # answers step len xs s')"

lemma lru_step_ok:
  assumes "lru_inv c"
  shows "lru_inv (snd (lru_step x c))" "lr_cap (snd (lru_step x c)) = lr_cap c"
    "fst (lru_step x c) = fst (spec_step (nat (lr_cap c)) x (lru_list c))"
    "lru_list (snd (lru_step x c)) = snd (spec_step (nat (lr_cap c)) x (lru_list c))"
  using LRU_Get_ok [OF assms] LRU_Set_ok [OF assms] LRU_Delete_ok [OF assms] by (cases x; simp)+

lemma answers_lru: "lru_inv c \<Longrightarrow> answers lru_step LRU_Len ops c = answers (spec_step (nat (lr_cap c))) length ops (lru_list c)"
proof (induction ops arbitrary: c)
  case (Cons x ops)
  note ok = lru_step_ok [OF Cons.prems, of x]
  have "LRU_Len c' = length (lru_list c')" for c' :: "('a, 'b) LRU" by (simp add: LRU_Len_def lru_list_def)
  then show ?case using Cons.IH [OF ok(1)] ok by (simp add: case_prod_beta Let_def)
qed simp

text \<open>C17. The least-recently-used cache is its specification: over every sequence of calls, the answers of \<open>Get\<close> and
  \<open>Len\<close> are those of a list of entries in which each use moves an entry to the front, each write cuts the list off at
  the capacity (at least one), and each deletion drops the entry. So the entry that is evicted is
  always the one whose last use is the oldest, and the cache never holds more than its capacity.\<close>

theorem LRU_refines: "answers lru_step LRU_Len ops (NewLRU n) = answers (spec_step (nat (max 1 n))) length ops []"
  using answers_lru [OF NewLRU_ok(1), of ops n] by (simp add: NewLRU_ok)

lemma map_of_take: "map_of (take n xs) \<subseteq>\<^sub>m map_of xs"
  using map_le_map_add [of "map_of (take n xs)" "map_of (drop n xs)"] by (simp flip: map_of_append)

lemma map_of_spec_forget: "map_of (spec_forget k xs) = (map_of xs)(k := None)"
  by (induction xs) (auto simp: spec_forget_def fun_eq_iff)

lemma map_of_spec_use: "map_of (spec_use k v xs) = (map_of xs)(k \<mapsto> v)"
  using map_of_spec_forget [of k xs] by (simp add: spec_use_def spec_forget_def)

lemma card_dom_map_of: "distinct (map fst xs) \<Longrightarrow> card (dom (map_of xs)) = length xs"
  by (metis distinct_card dom_map_of_conv_image_fst length_map set_map)

interpretation lru: bounded_cache LRU_Get "\<lambda>k v c. Some (LRU_Set k v c)" LRU_Delete LRU_Len "\<lambda>c. nat (lr_cap c)" "\<lambda>c. map_of (lru_list c)" lru_inv
proof
  fix c c' :: "('k, 'v) LRU" and k r
  assume "lru_inv c" "LRU_Get k c = (r, c')"
  then show "r = map_of (lru_list c) k \<and> map_of (lru_list c') = map_of (lru_list c) \<and> lru_inv c' \<and> nat (lr_cap c') = nat (lr_cap c)"
    using LRU_Get_ok [of c k] by (auto simp: map_of_spec_use split: option.splits)
next
  fix c :: "('k, 'v) LRU" and k v
  assume inv: "lru_inv c"
  have "take (nat (lr_cap c)) (spec_use k v (lru_list c)) = (k, v) # take (nat (lr_cap c) - 1) (spec_forget k (lru_list c))"
    using lru_invD(1) [OF inv] by (simp add: spec_use_def spec_forget_def take_Cons')
  then have "map_of (lru_list (LRU_Set k v c)) k = Some v" using LRU_Set_ok(2) [OF inv] by simp
  moreover have "map_of (lru_list (LRU_Set k v c)) \<subseteq>\<^sub>m (map_of (lru_list c))(k \<mapsto> v)"
    using map_of_take [of "nat (lr_cap c)" "spec_use k v (lru_list c)"] by (simp add: LRU_Set_ok(2) [OF inv] map_of_spec_use)
  ultimately show "\<exists>c'. Some (LRU_Set k v c) = Some c' \<and> map_of (lru_list c') \<subseteq>\<^sub>m (map_of (lru_list c))(k \<mapsto> v) \<and> map_of (lru_list c') k = Some v
      \<and> lru_inv c' \<and> nat (lr_cap c') = nat (lr_cap c)"
    using LRU_Set_ok [OF inv] by simp
  show "map_of (lru_list (LRU_Delete k c)) = (map_of (lru_list c))(k := None) \<and> lru_inv (LRU_Delete k c) \<and> nat (lr_cap (LRU_Delete k c)) = nat (lr_cap c)"
    using LRU_Delete_ok [OF inv] by (simp add: map_of_spec_forget)
  show "finite (dom (map_of (lru_list c))) \<and> LRU_Len c = card (dom (map_of (lru_list c))) \<and> LRU_Len c \<le> nat (lr_cap c)"
    using card_dom_map_of [OF lru_distinct [OF inv]] lru_invD(2) [OF inv] by (simp add: LRU_Len_def lru_list_def finite_dom_map_of)
qed

end
