(* ===== verification/TinyLFU.thy ===== *)
theory TinyLFU
  imports Cache "HOL-Library.Multiset"
begin

unbundle bit_operations_syntax

text \<open>
  \<open>pkg/store/cache/tinylfu.go\<close>: the Count-Min sketch with ageing counters, and the cache that admits by estimated frequency. It
  moves an entry from list to list by creating a new element for it, so elements and entries have separate stores.
  The hash of a key is an argument.
\<close>

section \<open>The frequency sketch\<close>

definition nextPow2 :: "64 word \<Rightarrow> 64 word" where
  "nextPow2 n =
     (if n < 1 then 1
      else let n = n - 1;
               n = n OR drop_bit 1 n;
               n = n OR drop_bit 2 n;
               n = n OR drop_bit 4 n;
               n = n OR drop_bit 8 n;
               n = n OR drop_bit 16 n;
               n = n OR drop_bit 32 n
           in n + 1)"

record cmSketch =
  cm_rows :: "8 word list list"
  cm_mask :: "64 word"
  cm_depth :: nat
  cm_additions :: int
  cm_sampleSize :: int

definition newCMSketch :: "int \<Rightarrow> int \<Rightarrow> cmSketch" where
  "newCMSketch width sampleSize =
     (let w = nextPow2 (word_of_int width)
      in \<lparr>cm_rows = replicate 4 (replicate (unat w) 0), cm_mask = w - 1, cm_depth = 4, cm_additions = 0, cm_sampleSize = sampleSize\<rparr>)"

definition cm_pos :: "cmSketch \<Rightarrow> 64 word \<Rightarrow> nat \<Rightarrow> 64 word" where
  "cm_pos s h i = (let h2 = drop_bit 32 h OR 1 in (h + of_nat i * h2) AND cm_mask s)"

definition cm_reset :: "cmSketch \<Rightarrow> cmSketch" where
  "cm_reset s = s\<lparr>cm_rows := map (map (drop_bit 1)) (cm_rows s), cm_additions := cm_additions s div 2\<rparr>"

text \<open>The body of the loop of \<open>increment\<close>. An index out of range would panic; \<open>cm_pos_in_range\<close> shows that there is none.\<close>

definition cm_bump :: "cmSketch \<Rightarrow> 64 word \<Rightarrow> nat \<Rightarrow> 8 word list list \<Rightarrow> 8 word list list" where
  "cm_bump s h i rows =
     (let p = unat (cm_pos s h i)
      in if rows ! i ! p < 15 then rows[i := (rows ! i)[p := rows ! i ! p + 1]] else rows)"

definition cm_increment :: "64 word \<Rightarrow> cmSketch \<Rightarrow> cmSketch" where
  "cm_increment h s =
     (let s1 = s\<lparr>cm_rows := fold (cm_bump s h) [0..<cm_depth s] (cm_rows s), cm_additions := cm_additions s + 1\<rparr>
      in if cm_sampleSize s1 \<le> cm_additions s1 then cm_reset s1 else s1)"

definition cm_estimate :: "64 word \<Rightarrow> cmSketch \<Rightarrow> 8 word" where
  "cm_estimate h s = fold (\<lambda>i m. let v = cm_rows s ! i ! unat (cm_pos s h i) in if v < m then v else m) [0..<cm_depth s] 15"

lemma smear_double:
  fixes x y :: "'a::len word"
  assumes "\<And>i. bit y i \<longleftrightarrow> (\<exists>d<g. bit x (i + d))"
  shows "bit (y OR drop_bit g y) i \<longleftrightarrow> (\<exists>d<2 * g. bit x (i + d))"
proof -
  have "(\<exists>d<g. bit x (g + i + d)) \<longleftrightarrow> (\<exists>d. g \<le> d \<and> d < 2 * g \<and> bit x (i + d))"
  proof
    assume "\<exists>d<g. bit x (g + i + d)"
    then obtain d where "d < g" "bit x (i + (g + d))" by (auto simp: ac_simps)
    then show "\<exists>d. g \<le> d \<and> d < 2 * g \<and> bit x (i + d)" by (intro exI [of _ "g + d"]) simp
  next
    assume "\<exists>d. g \<le> d \<and> d < 2 * g \<and> bit x (i + d)"
    then obtain d where d: "g \<le> d" "d < 2 * g" "bit x (i + d)" by blast
    then have "g + i + (d - g) = i + d" by simp
    then show "\<exists>d<g. bit x (g + i + d)" using d by (intro exI [of _ "d - g"]) (simp add: less_diff_conv2)
  qed
  then have "bit (y OR drop_bit g y) i \<longleftrightarrow> (\<exists>d<g. bit x (i + d)) \<or> (\<exists>d. g \<le> d \<and> d < 2 * g \<and> bit x (i + d))"
    by (simp add: bit_or_iff bit_drop_bit_eq assms)
  also have "\<dots> \<longleftrightarrow> (\<exists>d<2 * g. bit x (i + d))" by (metis le_less_linear less_le_trans trans_less_add1 mult_2)
  finally show ?thesis .
qed

definition smeared :: "nat \<Rightarrow> 64 word \<Rightarrow> 64 word \<Rightarrow> bool" where
  "smeared g x y \<longleftrightarrow> (\<forall>i. bit y i \<longleftrightarrow> (\<exists>d<g. bit x (i + d)))"

lemma smeared_step: "smeared g x y \<Longrightarrow> g' = 2 * g \<Longrightarrow> smeared g' x (y OR drop_bit g y)"
  unfolding smeared_def using smear_double [of y g x] by blast

lemma smeared_64: "smeared 64 x y \<Longrightarrow> bit y i \<longleftrightarrow> (\<exists>j\<ge>i. bit x j)"
proof -
  assume "smeared 64 x y"
  then have "bit y i \<longleftrightarrow> (\<exists>d<64. bit x (i + d))" unfolding smeared_def by blast
  also have "\<dots> \<longleftrightarrow> (\<exists>j\<ge>i. bit x j)"
  proof
    assume "\<exists>j\<ge>i. bit x j"
    then obtain j where "i \<le> j" "bit x j" by blast
    then show "\<exists>d<64. bit x (i + d)" using bit_imp_le_length [of x j] by (intro exI [of _ "j - i"]) simp
  qed (metis le_add1)
  finally show ?thesis .
qed

lemma odd_unat_div: "bit x i \<longleftrightarrow> odd (unat x div 2 ^ i)" for x :: "64 word"
  using bit_unsigned_iff [where 'a = nat, of x i] by (auto simp: bit_iff_odd_drop_bit drop_bit_eq_div possible_bit_def)

lemma bit_high:
  fixes x :: "64 word"
  assumes "2 ^ m \<le> unat x" "unat x < 2 ^ Suc m"
  shows "bit x m" "m < i \<Longrightarrow> \<not> bit x i"
proof -
  have "unat x div 2 ^ m = 1" using assms by (intro div_nat_eqI) simp_all
  then show "bit x m" by (simp add: odd_unat_div)
  assume "m < i"
  then have "unat x < 2 ^ i" using assms(2) by (meson Suc_leI less_le_trans one_le_numeral power_increasing)
  then show "\<not> bit x i" by (simp add: odd_unat_div)
qed

lemma nextPow2_smeared:
  assumes "1 \<le> n"
  obtains y where "smeared 64 (n - 1) y" "nextPow2 n = y + 1"
proof -
  have start: "smeared 1 (n - 1) (n - 1)" by (simp add: smeared_def)
  show ?thesis
    by (rule that, rule smeared_step [of 32], rule smeared_step [of 16], rule smeared_step [of 8], rule smeared_step [of 4],
        rule smeared_step [of 2], rule smeared_step [of 1], rule start)
      (use assms in \<open>simp_all add: nextPow2_def Let_def word_less_1 linorder_not_less [symmetric]\<close>)
qed

text \<open>The bit trick rounds up to the next power of two.\<close>

lemma nextPow2_ok:
  assumes "unat n \<le> 2 ^ 63"
  obtains m where "m \<le> 63" "nextPow2 n = 2 ^ m" "unat n \<le> 2 ^ m" "m = 0 \<or> 2 ^ (m - 1) < unat n"
proof (cases "unat n \<le> 1")
  case True
  then have "n = 0 \<or> n = 1" by (metis le_0_eq le_Suc_eq One_nat_def unat_0 unat_1 word_unat_eq_iff)
  then show ?thesis using that [of 0] by (auto simp: nextPow2_def)
next
  case False
  then have "1 \<le> n" by (simp add: word_le_nat_alt)
  then have un: "unat (n - 1) = unat n - 1" by (simp add: unat_sub)
  have "1 \<le> unat (n - 1)" using False un by simp
  from ex_power_ivl1 [OF _ this, of 2] obtain m where m: "2 ^ m \<le> unat (n - 1)" "unat (n - 1) < 2 ^ Suc m" by auto
  obtain y where y: "smeared 64 (n - 1) y" "nextPow2 n = y + 1" using nextPow2_smeared [OF \<open>1 \<le> n\<close>] .
  have lt: "m < 63" 
  proof -
    have "(2::nat) ^ m < 2 ^ 63" using m(1) un assms False by linarith
    then show ?thesis by (simp only: power_strict_increasing_iff)
  qed
  have "bit y i \<longleftrightarrow> i \<le> m" for i
  proof
    assume "bit y i"
    then obtain j where "i \<le> j" "bit (n - 1) j" using smeared_64 [OF y(1)] by blast
    then show "i \<le> m" using bit_high(2) [OF m, of j] by linarith
  qed (use bit_high(1) [OF m] smeared_64 [OF y(1)] in blast)
  then have "y = mask (Suc m)" using lt by (intro bit_word_eqI) (simp add: bit_mask_iff less_Suc_eq_le)
  then have "nextPow2 n = 2 ^ Suc m" using y(2) by (simp add: mask_eq_exp_minus_1)
  then show ?thesis using that [of "Suc m"] lt m un False by simp
qed

definition cm_inv :: "cmSketch \<Rightarrow> bool" where
  "cm_inv s \<longleftrightarrow> cm_depth s = 4 \<and> length (cm_rows s) = 4
     \<and> (\<exists>m\<le>63. cm_mask s = 2 ^ m - 1 \<and> (\<forall>r\<in>set (cm_rows s). length r = 2 ^ m))"

lemma cm_pos_in_range:
  assumes "cm_inv s" "i < 4"
  shows "unat (cm_pos s h i) < length (cm_rows s ! i)"
proof -
  obtain m where m: "m \<le> 63" "cm_mask s = 2 ^ m - 1" "\<forall>r\<in>set (cm_rows s). length r = 2 ^ m" "length (cm_rows s) = 4"
    using assms(1) by (auto simp: cm_inv_def)
  have "cm_pos s h i = take_bit m (h + of_nat i * (drop_bit 32 h OR 1))"
    using m(2) by (simp add: cm_pos_def Let_def take_bit_eq_mask mask_eq_exp_minus_1)
  then have "unat (cm_pos s h i) < 2 ^ m" by (simp add: unsigned_take_bit_eq)
  moreover have "length (cm_rows s ! i) = 2 ^ m" using m(3,4) assms(2) by simp
  ultimately show ?thesis by simp
qed

lemma newCMSketch_inv:
  assumes "0 \<le> width" "width < 2 ^ 63"
  shows "cm_inv (newCMSketch width n)"
proof -
  have "unat (word_of_int width :: 64 word) \<le> 2 ^ 63"
  proof -
    have "unat (word_of_int width :: 64 word) = nat (width mod 2 ^ 64)" by (simp add: unat_eq_nat_uint uint_word_of_int)
    moreover have "width mod 2 ^ 64 = width" using assms by (intro mod_pos_pos_trivial) simp_all
    ultimately show ?thesis using assms by (simp only: nat_le_iff) simp
  qed
  then obtain m where m: "m \<le> 63" "nextPow2 (word_of_int width) = 2 ^ m" by (rule nextPow2_ok)
  have "(2 :: nat) ^ m < 2 ^ LENGTH(64)" using m(1) by (intro power_strict_increasing) simp_all
  then have "unat (of_nat (2 ^ m) :: 64 word) = 2 ^ m" unfolding unat_of_nat by (rule mod_less)
  then have "unat (2 ^ m :: 64 word) = 2 ^ m" by simp
  then show ?thesis using m(1) unfolding cm_inv_def newCMSketch_def Let_def m(2) by (intro conjI exI [of _ m]) simp_all
qed

definition bump_cell :: "8 word \<Rightarrow> 8 word" where
  "bump_cell v = (if v < 15 then v + 1 else v)"

lemma unat_bump_cell: "unat (bump_cell v) = (if unat v < 15 then unat v + 1 else unat v)"
proof (cases "v < 15")
  case True
  then have "unat v < 15" by (simp add: word_less_nat_alt)
  then show ?thesis using True by (simp add: bump_cell_def unat_word_ariths)
qed (simp add: bump_cell_def word_less_nat_alt)

lemma cm_bump_nth:
  "cm_bump s h i rows ! j = (if i = j \<and> j < length rows then (rows ! j)[unat (cm_pos s h j) := bump_cell (rows ! j ! unat (cm_pos s h j))] else rows ! j)"
  by (cases "i = j"; cases "j < length rows") (auto simp: cm_bump_def bump_cell_def Let_def list_update_beyond)

lemma cm_bump_length [simp]: "length (cm_bump s h i rows) = length rows"
  by (simp add: cm_bump_def Let_def)

lemma cm_bumps_length [simp]: "length (fold (cm_bump s h) xs rows) = length rows"
  by (induction xs arbitrary: rows) simp_all

lemma cm_bumps_nth:
  "fold (cm_bump s h) [0..<n] rows ! j
     = (if j < n \<and> j < length rows then (rows ! j)[unat (cm_pos s h j) := bump_cell (rows ! j ! unat (cm_pos s h j))] else rows ! j)"
proof (induction n)
  case (Suc n)
  then show ?case by (cases "j = n") (simp_all add: cm_bump_nth)
qed simp

lemma cm_pos_upd [simp]: "cm_pos (s\<lparr>cm_rows := r, cm_additions := a\<rparr>) = cm_pos s"
  by (simp add: cm_pos_def fun_eq_iff)

lemma cm_inv_rows:
  assumes "cm_inv s" "length r = 4" "\<And>i. i < 4 \<Longrightarrow> length (r ! i) = length (cm_rows s ! i)"
  shows "cm_inv (s\<lparr>cm_rows := r, cm_additions := a\<rparr>)"
proof -
  obtain m where m: "m \<le> 63" "cm_mask s = 2 ^ m - 1" "\<forall>x\<in>set (cm_rows s). length x = 2 ^ m"
    and s: "cm_depth s = 4" "length (cm_rows s) = 4" using assms(1) unfolding cm_inv_def by blast
  have "\<forall>x\<in>set r. length x = 2 ^ m" using m(3) s(2) assms(2,3) by (simp add: list_all_length flip: list_all_iff)
  then show ?thesis using m(1,2) s(1) assms(2) unfolding cm_inv_def by (intro conjI exI [of _ m]) simp_all
qed

lemma cm_increment_inv:
  assumes "cm_inv s"
  shows "cm_inv (cm_increment h s)"
proof -
  let ?s = "s\<lparr>cm_rows := fold (cm_bump s h) [0..<cm_depth s] (cm_rows s), cm_additions := cm_additions s + 1\<rparr>"
  have len: "length (cm_rows s) = 4" using assms by (simp add: cm_inv_def)
  have "cm_inv ?s" using assms len by (intro cm_inv_rows) (simp_all add: cm_bumps_nth)
  moreover from cm_inv_rows [OF this, of "map (map (drop_bit 1)) (cm_rows ?s)" "cm_additions ?s div 2"] len
  have "cm_inv (cm_reset ?s)" unfolding cm_reset_def by simp
  ultimately show ?thesis by (simp add: cm_increment_def Let_def)
qed

lemma cm_estimate_ge:
  assumes "\<And>i. i < cm_depth s \<Longrightarrow> n \<le> unat (cm_rows s ! i ! unat (cm_pos s h i))" "n \<le> 15"
  shows "n \<le> unat (cm_estimate h s)"
proof -
  let ?f = "\<lambda>i m. let v = cm_rows s ! i ! unat (cm_pos s h i) in if v < m then v else m"
  have "n \<le> unat (fold ?f xs m)" if "n \<le> unat m" "\<forall>i\<in>set xs. i < cm_depth s" for xs m
    using that assms(1) by (induction xs arbitrary: m) (auto simp: Let_def)
  from this [of 15 "[0..<cm_depth s]"] show ?thesis using assms(2) by (simp add: cm_estimate_def)
qed

text \<open>The exact reference: one saturating counter per hash, all of them halved when the sample is complete.\<close>

record exact_counter =
  ex_count :: "64 word \<Rightarrow> nat"
  ex_additions :: int

definition exact_increment :: "int \<Rightarrow> 64 word \<Rightarrow> exact_counter \<Rightarrow> exact_counter" where
  "exact_increment n h e =
     (let f = (ex_count e)(h := min 15 (ex_count e h + 1)); a = ex_additions e + 1
      in if n \<le> a then \<lparr>ex_count = \<lambda>h. f h div 2, ex_additions = a div 2\<rparr> else \<lparr>ex_count = f, ex_additions = a\<rparr>)"

definition cm_covers :: "exact_counter \<Rightarrow> cmSketch \<Rightarrow> bool" where
  "cm_covers e s \<longleftrightarrow> cm_inv s \<and> ex_additions e = cm_additions s
     \<and> (\<forall>h. ex_count e h \<le> 15 \<and> (\<forall>i<4. ex_count e h \<le> unat (cm_rows s ! i ! unat (cm_pos s h i))))"

lemma cm_covers_increment:
  assumes cov: "cm_covers e s"
  shows "cm_covers (exact_increment (cm_sampleSize s) h e) (cm_increment h s)"
proof -
  have inv: "cm_inv s" and len: "length (cm_rows s) = 4" and d: "cm_depth s = 4" using cov by (simp_all add: cm_covers_def cm_inv_def)
  let ?f = "(ex_count e)(h := min 15 (ex_count e h + 1))" and ?r = "fold (cm_bump s h) [0..<4] (cm_rows s)"
  have r: "?f g \<le> unat (?r ! i ! unat (cm_pos s g i))" if "i < 4" for g i
  proof -
    let ?p = "unat (cm_pos s g i)" and ?q = "unat (cm_pos s h i)"
    have lt: "?p < length (cm_rows s ! i)" "?q < length (cm_rows s ! i)" using cm_pos_in_range [OF inv that] by simp_all
    have ge: "ex_count e g \<le> unat (cm_rows s ! i ! ?p)" using cov that by (simp add: cm_covers_def)
    show ?thesis using ge that lt len by (cases "?p = ?q") (auto simp: cm_bumps_nth unat_bump_cell)
  qed
  have le: "?f g \<le> 15" for g using cov by (simp add: cm_covers_def)
  have half: "?f g div 2 \<le> unat (map (map (drop_bit 1)) ?r ! i ! unat (cm_pos s g i))" if "i < 4" for g i
    using div_le_mono [OF r [OF that, of g], of 2] cm_pos_in_range [OF inv that, of g] that len
    by (simp add: cm_bumps_nth drop_bit_eq_div unat_div_distrib)
  show ?thesis
    using cov r le half cm_increment_inv [OF inv, of h] d
    by (simp add: cm_covers_def exact_increment_def cm_increment_def cm_reset_def Let_def del: fun_upd_apply)
      (auto simp del: fun_upd_apply intro: le_trans [OF div_le_dividend])
qed

lemma cm_increment_sample [simp]: "cm_sampleSize (cm_increment h s) = cm_sampleSize s"
  by (simp add: cm_increment_def cm_reset_def Let_def)

lemma cm_covers_fold:
  "cm_covers e s \<Longrightarrow> cm_covers (fold (exact_increment (cm_sampleSize s)) hs e) (fold cm_increment hs s)"
proof (induction hs arbitrary: e s)
  case (Cons h hs)
  from Cons.IH [OF cm_covers_increment [OF Cons.prems, of h]] show ?case by simp
qed simp

text \<open>The sketch never underestimates: after every sequence of accesses, the estimate of a key is at least what an
  exact counter per key, saturating at fifteen and halved at the same moments, would show; in particular no access
  leaves the rows, whose width is the next power of two.\<close>

lemma cmSketch_no_underestimate:
  assumes "0 \<le> width" "width < 2 ^ 63"
    and "s = fold cm_increment hs (newCMSketch width n)" and "e = fold (exact_increment n) hs \<lparr>ex_count = \<lambda>_. 0, ex_additions = 0\<rparr>"
  shows "ex_count e h \<le> unat (cm_estimate h s) \<and> (\<forall>i<4. unat (cm_pos s h i) < length (cm_rows s ! i))"
proof -
  let ?s = "newCMSketch width n"
  have "cm_covers \<lparr>ex_count = \<lambda>_. 0, ex_additions = 0\<rparr> ?s"
    using newCMSketch_inv [OF assms(1,2), of n] by (simp add: cm_covers_def) (simp add: newCMSketch_def Let_def)
  from cm_covers_fold [OF this, of hs] have "cm_covers e s" unfolding assms(3,4) by (simp add: newCMSketch_def Let_def)
  then have "cm_inv s" "cm_depth s = 4" "\<forall>i<4. ex_count e h \<le> unat (cm_rows s ! i ! unat (cm_pos s h i))" "ex_count e h \<le> 15"
    by (simp_all add: cm_covers_def cm_inv_def)
  then show ?thesis using cm_pos_in_range cm_estimate_ge by simp
qed

lemma cmSketch_no_underestimate_witness:
  "let s = fold cm_increment [5, 7, 5] (newCMSketch 3 100); e = fold (exact_increment 100) [5, 7, 5] \<lparr>ex_count = \<lambda>_. 0, ex_additions = 0\<rparr>
   in ex_count e 5 = 2 \<and> ex_count e 5 \<le> unat (cm_estimate 5 s)"
proof -
  have "ex_count (fold (exact_increment 100) [5, 7, 5] \<lparr>ex_count = \<lambda>_. 0, ex_additions = 0\<rparr>) 5 = 2" by code_simp
  then show ?thesis using cmSketch_no_underestimate [OF _ _ refl refl, of 3 100 "[5, 7, 5]" 5] by (simp add: Let_def)
qed

section \<open>TinyLFU\<close>

datatype segKind = segWindow | segProbation | segProtected

record ('k, 'v) tlItem =
  it_key :: 'k
  it_val :: 'v
  it_seg :: segKind

text \<open>\<open>tl_elems\<close> leads from the address of a list element to the address of its item.\<close>

record ('k, 'v) TinyLFU =
  tl_cells :: "('k, 'v) tlItem list"
  tl_elems :: "nat list"
  tl_items :: "'k \<rightharpoonup> nat"
  tl_window :: "nat list"
  tl_probation :: "nat list"
  tl_protected :: "nat list"
  tl_windowCap :: int
  tl_mainCap :: int
  tl_protectedCap :: int
  tl_sketch :: cmSketch

definition NewTinyLFU :: "int \<Rightarrow> ('k, 'v) TinyLFU" where
  "NewTinyLFU capacity =
     (let capacity = (if capacity \<le> 0 then 1 else capacity);
          windowCap = go_div capacity 100;
          windowCap = (if windowCap < 1 then 1 else windowCap);
          mainCap = capacity - windowCap;
          protectedCap = go_div (wrap64 (mainCap * 80)) 100;
          sampleSize = wrap64 (10 * capacity);
          sampleSize = (if sampleSize < 100 then 100 else sampleSize)
      in \<lparr>tl_cells = [], tl_elems = [], tl_items = Map.empty, tl_window = [], tl_probation = [], tl_protected = [],
          tl_windowCap = windowCap, tl_mainCap = mainCap, tl_protectedCap = protectedCap, tl_sketch = newCMSketch capacity sampleSize\<rparr>)"

abbreviation tl_item :: "('k, 'v) TinyLFU \<Rightarrow> nat \<Rightarrow> ('k, 'v) tlItem" where
  "tl_item c el \<equiv> tl_cells c ! (tl_elems c ! el)"

text \<open>An item gets its new segment and a new element at the front of the segment's list, which the map then names.\<close>

definition tl_setSeg :: "nat \<Rightarrow> segKind \<Rightarrow> ('k, 'v) TinyLFU \<Rightarrow> ('k, 'v) TinyLFU" where
  "tl_setSeg it g c = c\<lparr>tl_cells := (tl_cells c)[it := (tl_cells c ! it)\<lparr>it_seg := g\<rparr>]\<rparr>"

definition tl_pushProtected :: "nat \<Rightarrow> ('k, 'v) TinyLFU \<Rightarrow> ('k, 'v) TinyLFU" where
  "tl_pushProtected it c = c\<lparr>tl_elems := tl_elems c @ [it], tl_protected := length (tl_elems c) # tl_protected c,
     tl_items := (tl_items c)(it_key (tl_cells c ! it) \<mapsto> length (tl_elems c))\<rparr>"

definition tl_pushProbation :: "nat \<Rightarrow> ('k, 'v) TinyLFU \<Rightarrow> ('k, 'v) TinyLFU" where
  "tl_pushProbation it c = c\<lparr>tl_elems := tl_elems c @ [it], tl_probation := length (tl_elems c) # tl_probation c,
     tl_items := (tl_items c)(it_key (tl_cells c ! it) \<mapsto> length (tl_elems c))\<rparr>"

definition TinyLFU_remove :: "nat \<Rightarrow> ('k, 'v) TinyLFU \<Rightarrow> ('k, 'v) TinyLFU" where
  "TinyLFU_remove el c =
     (let it = tl_item c el;
          c1 = (case it_seg it of
                  segWindow \<Rightarrow> c\<lparr>tl_window := remove1 el (tl_window c)\<rparr>
                | segProbation \<Rightarrow> c\<lparr>tl_probation := remove1 el (tl_probation c)\<rparr>
                | segProtected \<Rightarrow> c\<lparr>tl_protected := remove1 el (tl_protected c)\<rparr>)
      in c1\<lparr>tl_items := (tl_items c1)(it_key it := None)\<rparr>)"

definition TinyLFU_touch :: "nat \<Rightarrow> ('k, 'v) TinyLFU \<Rightarrow> ('k, 'v) TinyLFU" where
  "TinyLFU_touch el c =
     (let it = tl_elems c ! el
      in case it_seg (tl_cells c ! it) of
           segWindow \<Rightarrow> c\<lparr>tl_window := list_MoveToFront el (tl_window c)\<rparr>
         | segProtected \<Rightarrow> c\<lparr>tl_protected := list_MoveToFront el (tl_protected c)\<rparr>
         | segProbation \<Rightarrow>
             let c1 = tl_pushProtected it (tl_setSeg it segProtected (c\<lparr>tl_probation := remove1 el (tl_probation c)\<rparr>))
             in if tl_protectedCap c1 < int (length (tl_protected c1)) \<and> tl_protected c1 \<noteq> [] then
                  let back = last (tl_protected c1); bk = tl_elems c1 ! back
                  in tl_pushProbation bk (tl_setSeg bk segProbation (c1\<lparr>tl_protected := remove1 back (tl_protected c1)\<rparr>))
                else c1)"

definition TinyLFU_admitFromWindow :: "('k \<Rightarrow> 64 word) \<Rightarrow> ('k, 'v) TinyLFU \<Rightarrow> ('k, 'v) TinyLFU option" where
  "TinyLFU_admitFromWindow hash c =
     (if tl_window c = [] then Some c
      else let candEl = last (tl_window c);
               cand = tl_elems c ! candEl;
               key = it_key (tl_cells c ! cand);
               c1 = c\<lparr>tl_window := remove1 candEl (tl_window c)\<rparr>
           in if tl_mainCap c1 \<le> 0 then Some (c1\<lparr>tl_items := (tl_items c1)(key := None)\<rparr>)
              else if int (length (tl_probation c1)) + int (length (tl_protected c1)) < tl_mainCap c1
              then Some (tl_pushProbation cand (tl_setSeg cand segProbation c1))
              else if tl_probation c1 = [] \<and> tl_protected c1 = [] then None
              else let victimEl = (if tl_probation c1 \<noteq> [] then last (tl_probation c1) else last (tl_protected c1));
                       victim = tl_item c1 victimEl
                   in if cm_estimate (hash (it_key victim)) (tl_sketch c1) < cm_estimate (hash key) (tl_sketch c1)
                      then Some (tl_pushProbation cand (tl_setSeg cand segProbation (TinyLFU_remove victimEl c1)))
                      else Some (c1\<lparr>tl_items := (tl_items c1)(key := None)\<rparr>))"

definition TinyLFU_Get :: "('k \<Rightarrow> 64 word) \<Rightarrow> 'k \<Rightarrow> ('k, 'v) TinyLFU \<Rightarrow> 'v option \<times> ('k, 'v) TinyLFU" where
  "TinyLFU_Get hash key c =
     (case tl_items c key of
        None \<Rightarrow> (None, c)
      | Some el \<Rightarrow>
          let c1 = TinyLFU_touch el (c\<lparr>tl_sketch := cm_increment (hash key) (tl_sketch c)\<rparr>)
          in (Some (it_val (tl_item c1 el)), c1))"

definition TinyLFU_Set :: "('k \<Rightarrow> 64 word) \<Rightarrow> 'k \<Rightarrow> 'v \<Rightarrow> ('k, 'v) TinyLFU \<Rightarrow> ('k, 'v) TinyLFU option" where
  "TinyLFU_Set hash key value c =
     (let c = c\<lparr>tl_sketch := cm_increment (hash key) (tl_sketch c)\<rparr>
      in case tl_items c key of
           Some el \<Rightarrow> let it = tl_elems c ! el
                      in Some (TinyLFU_touch el (c\<lparr>tl_cells := (tl_cells c)[it := (tl_cells c ! it)\<lparr>it_val := value\<rparr>]\<rparr>))
         | None \<Rightarrow>
             let it = length (tl_cells c); el = length (tl_elems c);
                 c1 = c\<lparr>tl_cells := tl_cells c @ [\<lparr>it_key = key, it_val = value, it_seg = segWindow\<rparr>], tl_elems := tl_elems c @ [it],
                        tl_window := el # tl_window c, tl_items := (tl_items c)(key \<mapsto> el)\<rparr>
             in if tl_windowCap c1 < int (length (tl_window c1)) then TinyLFU_admitFromWindow hash c1 else Some c1)"

definition TinyLFU_Delete :: "'k \<Rightarrow> ('k, 'v) TinyLFU \<Rightarrow> ('k, 'v) TinyLFU" where
  "TinyLFU_Delete key c = (case tl_items c key of Some el \<Rightarrow> TinyLFU_remove el c | None \<Rightarrow> c)"

definition TinyLFU_Len :: "('k, 'v) TinyLFU \<Rightarrow> nat" where
  "TinyLFU_Len c = length (tl_window c) + length (tl_probation c) + length (tl_protected c)"

primrec seg_list :: "('k, 'v) TinyLFU \<Rightarrow> segKind \<Rightarrow> nat list" where
  "seg_list c segWindow = tl_window c"
| "seg_list c segProbation = tl_probation c"
| "seg_list c segProtected = tl_protected c"

definition tl_live :: "('k, 'v) TinyLFU \<Rightarrow> nat set" where
  "tl_live c = (\<Union>g. set (seg_list c g))"

definition tl_wf :: "('k, 'v) TinyLFU \<Rightarrow> bool" where
  "tl_wf c \<longleftrightarrow> (\<forall>g. distinct (seg_list c g)
       \<and> (\<forall>el\<in>set (seg_list c g). el < length (tl_elems c) \<and> tl_elems c ! el < length (tl_cells c) \<and> it_seg (tl_item c el) = g))
     \<and> (\<forall>k el. tl_items c k = Some el \<longleftrightarrow> el \<in> tl_live c \<and> it_key (tl_item c el) = k)"

definition tl_contents :: "('k, 'v) TinyLFU \<Rightarrow> 'k \<rightharpoonup> 'v" where
  "tl_contents c k = map_option (\<lambda>el. it_val (tl_item c el)) (tl_items c k)"

lemma tl_wfD:
  assumes "tl_wf c"
  shows "distinct (seg_list c g)" "el \<in> tl_live c \<Longrightarrow> el < length (tl_elems c)" "el \<in> tl_live c \<Longrightarrow> tl_elems c ! el < length (tl_cells c)"
    "el \<in> set (seg_list c g) \<Longrightarrow> it_seg (tl_item c el) = g"
    "tl_items c k = Some el \<longleftrightarrow> el \<in> tl_live c \<and> it_key (tl_item c el) = k"
  using assms by (auto simp: tl_wf_def tl_live_def)

lemma tl_liveI: "el \<in> set (seg_list c g) \<Longrightarrow> el \<in> tl_live c"
  by (auto simp: tl_live_def)

lemma tl_live_seg: "tl_wf c \<Longrightarrow> el \<in> tl_live c \<Longrightarrow> el \<in> set (seg_list c g) \<longleftrightarrow> it_seg (tl_item c el) = g"
  using tl_wfD(4) by (fastforce simp: tl_live_def)

lemma tl_key_inj: "tl_wf c \<Longrightarrow> a \<in> tl_live c \<Longrightarrow> b \<in> tl_live c \<Longrightarrow> it_key (tl_item c a) = it_key (tl_item c b) \<Longrightarrow> a = b"
  using tl_wfD(5) [of c "it_key (tl_item c b)" a] tl_wfD(5) [of c "it_key (tl_item c b)" b] by simp

text \<open>The two moves all operations are made of: an entry leaves, or it gets a new element on some list.\<close>

definition tl_drop :: "nat \<Rightarrow> ('k, 'v) TinyLFU \<Rightarrow> ('k, 'v) TinyLFU" where
  "tl_drop el c = c\<lparr>tl_items := (tl_items c)(it_key (tl_item c el) := None), tl_window := remove1 el (tl_window c),
     tl_probation := remove1 el (tl_probation c), tl_protected := remove1 el (tl_protected c)\<rparr>"

definition tl_relocate :: "nat \<Rightarrow> segKind \<Rightarrow> ('k, 'v) TinyLFU \<Rightarrow> ('k, 'v) TinyLFU" where
  "tl_relocate el g c =
     (let it = tl_elems c ! el; el' = length (tl_elems c); push = (\<lambda>g' l. if g' = g then el' # remove1 el l else remove1 el l)
      in c\<lparr>tl_cells := (tl_cells c)[it := (tl_cells c ! it)\<lparr>it_seg := g\<rparr>], tl_elems := tl_elems c @ [it],
           tl_items := (tl_items c)(it_key (tl_cells c ! it) \<mapsto> el'),
           tl_window := push segWindow (tl_window c), tl_probation := push segProbation (tl_probation c),
           tl_protected := push segProtected (tl_protected c)\<rparr>)"

lemma seg_list_drop [simp]: "seg_list (tl_drop el c) g = remove1 el (seg_list c g)"
  by (cases g) (simp_all add: tl_drop_def)

lemma seg_list_relocate [simp]:
  "seg_list (tl_relocate el g c) g' = (if g' = g then length (tl_elems c) # remove1 el (seg_list c g') else remove1 el (seg_list c g'))"
  by (cases g') (simp_all add: tl_relocate_def Let_def)

lemma tl_live_drop: "tl_wf c \<Longrightarrow> tl_live (tl_drop el c) = tl_live c - {el}"
  using tl_wfD(1) [of c] by (auto simp: tl_live_def set_remove1_eq)

lemma tl_live_relocate:
  "tl_wf c \<Longrightarrow> tl_live (tl_relocate el g c) = insert (length (tl_elems c)) (tl_live c - {el})"
  using tl_wfD(1) [of c] by (auto simp: tl_live_def set_remove1_eq split: if_splits)

lemma tl_drop_ok:
  assumes wf: "tl_wf c" and el: "el \<in> tl_live c"
  shows "tl_wf (tl_drop el c)" "tl_contents (tl_drop el c) = (tl_contents c)(it_key (tl_item c el) := None)"
proof -
  have same: "tl_cells (tl_drop el c) = tl_cells c" "tl_elems (tl_drop el c) = tl_elems c"
    and items: "tl_items (tl_drop el c) = (tl_items c)(it_key (tl_item c el) := None)" by (simp_all add: tl_drop_def)
  have "tl_items (tl_drop el c) k = Some a \<longleftrightarrow> a \<in> tl_live (tl_drop el c) \<and> it_key (tl_item (tl_drop el c) a) = k" for k a
    using tl_wfD(5) [OF wf, of k a] tl_key_inj [OF wf el, of a]
    by (cases "k = it_key (tl_item c el)") (auto simp: same items tl_live_drop [OF wf])
  then show "tl_wf (tl_drop el c)"
    using wf unfolding tl_wf_def seg_list_drop same by (auto simp: same dest: notin_set_remove1)
  show "tl_contents (tl_drop el c) = (tl_contents c)(it_key (tl_item c el) := None)"
    by (rule ext) (simp add: tl_contents_def same items)
qed

lemma tl_relocate_ok:
  assumes wf: "tl_wf c" and el: "el \<in> tl_live c"
  shows "tl_wf (tl_relocate el g c)" "tl_contents (tl_relocate el g c) = tl_contents c"
    "it_val (tl_item (tl_relocate el g c) el) = it_val (tl_item c el)"
proof -
  let ?c = "tl_relocate el g c" and ?it = "tl_elems c ! el" and ?e = "length (tl_elems c)"
  have cells: "tl_cells ?c = (tl_cells c)[?it := (tl_cells c ! ?it)\<lparr>it_seg := g\<rparr>]" and elems: "tl_elems ?c = tl_elems c @ [?it]"
    and items: "tl_items ?c = (tl_items c)(it_key (tl_item c el) \<mapsto> ?e)" by (simp_all add: tl_relocate_def Let_def)
  have lt: "?it < length (tl_cells c)" "el < ?e" using tl_wfD(2,3) [OF wf el] by simp_all
  have fresh: "?e \<notin> tl_live c" using tl_wfD(2) [OF wf] by blast
  have new: "tl_item ?c ?e = (tl_item c el)\<lparr>it_seg := g\<rparr>" using lt by (simp add: cells elems)
  have other: "tl_item ?c a = tl_item c a" if "a \<in> tl_live c" "a \<noteq> el" for a
  proof -
    have "tl_elems c ! a \<noteq> ?it" using tl_key_inj [OF wf that(1) el] that(2) by metis
    then show ?thesis using tl_wfD(2) [OF wf that(1)] by (simp add: cells elems nth_append)
  qed
  show "it_val (tl_item ?c el) = it_val (tl_item c el)" using lt by (simp add: cells elems nth_append)
  have "tl_items ?c k = Some a \<longleftrightarrow> a \<in> tl_live ?c \<and> it_key (tl_item ?c a) = k" for k a
  proof (cases "a = ?e")
    case True
    then show ?thesis using tl_wfD(5) [OF wf, of k ?e] fresh by (auto simp: items tl_live_relocate [OF wf] new)
  next
    case False
    then show ?thesis
      using tl_wfD(5) [OF wf, of k a] tl_key_inj [OF wf el, of a] other [of a]
      by (cases "a = el") (auto simp: items tl_live_relocate [OF wf])
  qed
  moreover have "distinct (seg_list ?c g')" for g'
    using tl_wfD(1) [OF wf, of g'] fresh tl_liveI by (auto simp: distinct_remove1 dest: notin_set_remove1)
  moreover have "a < length (tl_elems ?c) \<and> tl_elems ?c ! a < length (tl_cells ?c) \<and> it_seg (tl_item ?c a) = g'" if "a \<in> set (seg_list ?c g')" for a g'
  proof (cases "a = ?e")
    case True
    have "g' = g" using that True fresh tl_liveI [of ?e c g'] by (auto split: if_splits dest: notin_set_remove1)
    then show ?thesis using True lt new by (simp add: elems cells)
  next
    case False
    then have a: "a \<in> set (seg_list c g')" "a \<noteq> el" using that tl_wfD(1) [OF wf, of g'] by (auto simp: set_remove1_eq split: if_splits)
    then show ?thesis
      using other [OF tl_liveI [OF a(1)] a(2)] tl_wfD(2,3) [OF wf tl_liveI [OF a(1)]] tl_wfD(4) [OF wf a(1)] by (simp add: elems cells nth_append)
  qed
  ultimately show "tl_wf ?c" unfolding tl_wf_def by blast
  show "tl_contents ?c = tl_contents c"
  proof
    fix k
    show "tl_contents ?c k = tl_contents c k"
    proof (cases "k = it_key (tl_item c el)")
      case True
      then have "tl_items c k = Some el" using tl_wfD(5) [OF wf, of k el] el by simp
      then show ?thesis using True new by (simp add: tl_contents_def items)
    next
      case False
      show ?thesis
      proof (cases "tl_items c k")
        case (Some a)
        then have "a \<in> tl_live c" "a \<noteq> el" using tl_wfD(5) [OF wf, of k a] False by auto
        then show ?thesis using False Some other [of a] by (simp add: tl_contents_def items)
      qed (use False in \<open>simp add: tl_contents_def items\<close>)
    qed
  qed
qed

text \<open>The code's moves are these two.\<close>

lemma tl_not_elsewhere:
  assumes "tl_wf c" "el \<in> set (seg_list c g)" "g' \<noteq> g"
  shows "remove1 el (seg_list c g') = seg_list c g'"
  using tl_wfD(4) [OF assms(1,2)] tl_wfD(4) [OF assms(1), of el g'] assms(3) by (auto intro: remove1_idem)

lemma TinyLFU_remove_drop:
  assumes "tl_wf c" "el \<in> tl_live c"
  shows "TinyLFU_remove el c = tl_drop el c"
proof -
  obtain g where g: "el \<in> set (seg_list c g)" using assms(2) by (auto simp: tl_live_def)
  show ?thesis
    using tl_wfD(4) [OF assms(1) g] tl_not_elsewhere [OF assms(1) g, of segWindow] tl_not_elsewhere [OF assms(1) g, of segProbation]
      tl_not_elsewhere [OF assms(1) g, of segProtected]
    by (cases g) (simp_all add: TinyLFU_remove_def tl_drop_def Let_def)
qed

lemma push_probation_from_window:
  assumes "tl_wf c" "el \<in> set (tl_window c)" "it = tl_elems c ! el"
  shows "tl_pushProbation it (tl_setSeg it segProbation (c\<lparr>tl_window := remove1 el (tl_window c)\<rparr>)) = tl_relocate el segProbation c"
proof -
  have lt: "it < length (tl_cells c)" using tl_wfD(3) [OF assms(1)] tl_liveI [of el c segWindow] assms(2,3) by simp
  show ?thesis using lt tl_not_elsewhere [OF assms(1), of el segWindow segProbation] tl_not_elsewhere [OF assms(1), of el segWindow segProtected] assms(2,3)
    by (simp add: tl_pushProbation_def tl_setSeg_def tl_relocate_def Let_def)
qed

lemma push_probation_from_protected:
  assumes "tl_wf c" "el \<in> set (tl_protected c)" "it = tl_elems c ! el"
  shows "tl_pushProbation it (tl_setSeg it segProbation (c\<lparr>tl_protected := remove1 el (tl_protected c)\<rparr>)) = tl_relocate el segProbation c"
proof -
  have lt: "it < length (tl_cells c)" using tl_wfD(3) [OF assms(1)] tl_liveI [of el c segProtected] assms(2,3) by simp
  show ?thesis using lt tl_not_elsewhere [OF assms(1), of el segProtected segProbation] tl_not_elsewhere [OF assms(1), of el segProtected segWindow] assms(2,3)
    by (simp add: tl_pushProbation_def tl_setSeg_def tl_relocate_def Let_def)
qed

lemma push_protected_from_probation:
  assumes "tl_wf c" "el \<in> set (tl_probation c)" "it = tl_elems c ! el"
  shows "tl_pushProtected it (tl_setSeg it segProtected (c\<lparr>tl_probation := remove1 el (tl_probation c)\<rparr>)) = tl_relocate el segProtected c"
proof -
  have lt: "it < length (tl_cells c)" using tl_wfD(3) [OF assms(1)] tl_liveI [of el c segProbation] assms(2,3) by simp
  show ?thesis using lt tl_not_elsewhere [OF assms(1), of el segProbation segProtected] tl_not_elsewhere [OF assms(1), of el segProbation segWindow] assms(2,3)
    by (simp add: tl_pushProtected_def tl_setSeg_def tl_relocate_def Let_def)
qed

text \<open>The sizes and limits an operation does not change.\<close>

definition tl_frame :: "('k, 'v) TinyLFU \<Rightarrow> int \<times> int \<times> int \<times> cmSketch" where
  "tl_frame c = (tl_windowCap c, tl_mainCap c, tl_protectedCap c, tl_sketch c)"

lemma tl_frame_moves [simp]: "tl_frame (tl_drop el c) = tl_frame c" "tl_frame (tl_relocate el g c) = tl_frame c"
  by (simp_all add: tl_frame_def tl_drop_def tl_relocate_def Let_def)

definition tl_main :: "('k, 'v) TinyLFU \<Rightarrow> nat" where
  "tl_main c = length (tl_probation c) + length (tl_protected c)"

lemma length_seg: "length (tl_window c) = length (seg_list c segWindow)" "tl_main c = length (seg_list c segProbation) + length (seg_list c segProtected)"
  by (simp_all add: tl_main_def)

lemma tl_reorder:
  assumes wf: "tl_wf c"
    and c': "tl_cells c' = tl_cells c" "tl_elems c' = tl_elems c" "tl_items c' = tl_items c"
    and l: "\<And>g'. mset (seg_list c' g') = mset (seg_list c g')"
  shows "tl_wf c'" "tl_contents c' = tl_contents c"
proof -
  have s: "set (seg_list c' g') = set (seg_list c g')" "distinct (seg_list c' g') = distinct (seg_list c g')" for g'
    using mset_eq_setD [OF l] mset_eq_imp_distinct_iff [OF l] by simp_all
  show "tl_wf c'" using wf by (simp add: tl_wf_def tl_live_def s c')
  show "tl_contents c' = tl_contents c" by (simp add: tl_contents_def fun_eq_iff c')
qed

lemma mset_MoveToFront [simp]: "mset (list_MoveToFront a l) = mset l"
  by (simp add: list_MoveToFront_def)

lemma tl_disjoint: "tl_wf c \<Longrightarrow> el \<in> set (seg_list c g) \<Longrightarrow> g' \<noteq> g \<Longrightarrow> el \<notin> set (seg_list c g')"
  using tl_wfD(4) by blast

lemma Suc_length_remove1: "x \<in> set l \<Longrightarrow> Suc (length (remove1 x l)) = length l"
  using length_pos_if_in_set [of x l] by (simp add: length_remove1)

lemma tl_relocate_lengths:
  assumes "tl_wf c"
  shows "el \<in> set (tl_probation c) \<or> el \<in> set (tl_protected c) \<Longrightarrow> g \<noteq> segWindow \<Longrightarrow>
      length (tl_window (tl_relocate el g c)) = length (tl_window c) \<and> tl_main (tl_relocate el g c) = tl_main c"
    "el \<in> set (tl_window c) \<Longrightarrow>
      Suc (length (tl_window (tl_relocate el segProbation c))) = length (tl_window c) \<and> tl_main (tl_relocate el segProbation c) = Suc (tl_main c)"
proof -
  note out = tl_disjoint [OF assms, of el]
  show "length (tl_window (tl_relocate el g c)) = length (tl_window c) \<and> tl_main (tl_relocate el g c) = tl_main c"
    if "el \<in> set (tl_probation c) \<or> el \<in> set (tl_protected c)" "g \<noteq> segWindow"
    using that(1)
  proof
    assume p: "el \<in> set (tl_probation c)"
    show ?thesis using that(2) Suc_length_remove1 [OF p] out [of segProbation segWindow] out [of segProbation segProtected] p
      by (cases g) (simp_all add: tl_main_def tl_relocate_def Let_def remove1_idem)
  next
    assume p: "el \<in> set (tl_protected c)"
    show ?thesis using that(2) Suc_length_remove1 [OF p] out [of segProtected segWindow] out [of segProtected segProbation] p
      by (cases g) (simp_all add: tl_main_def tl_relocate_def Let_def remove1_idem)
  qed
  show "Suc (length (tl_window (tl_relocate el segProbation c))) = length (tl_window c) \<and> tl_main (tl_relocate el segProbation c) = Suc (tl_main c)"
    if "el \<in> set (tl_window c)"
    using that out [of segWindow segProbation] out [of segWindow segProtected] Suc_length_remove1 [OF that]
    by (simp add: tl_main_def tl_relocate_def Let_def remove1_idem)
qed

lemma tl_drop_lengths:
  assumes "tl_wf c"
  shows "el \<in> set (tl_window c) \<Longrightarrow> Suc (length (tl_window (tl_drop el c))) = length (tl_window c) \<and> tl_main (tl_drop el c) = tl_main c"
    "el \<in> set (tl_probation c) \<or> el \<in> set (tl_protected c) \<Longrightarrow> tl_window (tl_drop el c) = tl_window c \<and> Suc (tl_main (tl_drop el c)) = tl_main c"
proof -
  note out = tl_disjoint [OF assms, of el]
  show "Suc (length (tl_window (tl_drop el c))) = length (tl_window c) \<and> tl_main (tl_drop el c) = tl_main c" if "el \<in> set (tl_window c)"
    using that out [of segWindow segProbation] out [of segWindow segProtected] Suc_length_remove1 [OF that]
    by (simp add: tl_main_def tl_drop_def remove1_idem)
  show "tl_window (tl_drop el c) = tl_window c \<and> Suc (tl_main (tl_drop el c)) = tl_main c" if "el \<in> set (tl_probation c) \<or> el \<in> set (tl_protected c)"
    using that
  proof
    assume p: "el \<in> set (tl_probation c)"
    show ?thesis using Suc_length_remove1 [OF p] out [of segProbation segWindow] out [of segProbation segProtected] p
      by (simp add: tl_main_def tl_drop_def remove1_idem)
  next
    assume p: "el \<in> set (tl_protected c)"
    show ?thesis using Suc_length_remove1 [OF p] out [of segProtected segWindow] out [of segProtected segProbation] p
      by (simp add: tl_main_def tl_drop_def remove1_idem)
  qed
qed

text \<open>\<open>touch\<close> moves entries and changes neither what is held nor how much.\<close>

definition tl_like :: "('k, 'v) TinyLFU \<Rightarrow> ('k, 'v) TinyLFU \<Rightarrow> bool" where
  "tl_like c c' \<longleftrightarrow> tl_wf c' \<and> tl_contents c' = tl_contents c \<and> tl_frame c' = tl_frame c
     \<and> length (tl_window c') = length (tl_window c) \<and> tl_main c' = tl_main c"

lemma tl_like_relocate:
  assumes "tl_wf c" "el \<in> set (tl_probation c) \<or> el \<in> set (tl_protected c)" "g \<noteq> segWindow"
  shows "tl_like c (tl_relocate el g c)"
proof -
  have "el \<in> tl_live c" using assms(2) tl_liveI [of el c segProbation] tl_liveI [of el c segProtected] by auto
  then show ?thesis using tl_relocate_ok(1,2) [OF assms(1), of el g] tl_relocate_lengths(1) [OF assms(1-3)] by (simp add: tl_like_def)
qed

lemma tl_like_trans: "tl_like a b \<Longrightarrow> tl_like b c \<Longrightarrow> tl_like a c"
  by (simp add: tl_like_def)

lemma tl_like_reorder:
  assumes "tl_wf c" "tl_cells c' = tl_cells c" "tl_elems c' = tl_elems c" "tl_items c' = tl_items c" "tl_frame c' = tl_frame c"
    "mset (tl_window c') = mset (tl_window c)" "mset (tl_probation c') = mset (tl_probation c)" "mset (tl_protected c') = mset (tl_protected c)"
  shows "tl_like c c'"
proof -
  have "mset (seg_list c' g) = mset (seg_list c g)" for g using assms(6-8) by (cases g) simp_all
  from tl_reorder [OF assms(1-4) this] show ?thesis
    using assms(5) mset_eq_length [OF assms(6)] mset_eq_length [OF assms(7)] mset_eq_length [OF assms(8)] by (simp add: tl_like_def tl_main_def)
qed

lemma tl_like_move:
  assumes "tl_wf c"
  shows "tl_like c (c\<lparr>tl_window := list_MoveToFront el (tl_window c)\<rparr>)" "tl_like c (c\<lparr>tl_protected := list_MoveToFront el (tl_protected c)\<rparr>)"
  by (rule tl_like_reorder [OF assms], simp_all add: tl_frame_def)+

lemma relocate_val:
  assumes "el < length (tl_elems c)" "tl_elems c ! b < length (tl_cells c)"
  shows "it_val (tl_item (tl_relocate b g c) el) = it_val (tl_item c el)" "el < length (tl_elems (tl_relocate b g c))"
  using assms by (auto simp: tl_relocate_def Let_def nth_append nth_list_update)

lemma TinyLFU_touch_ok:
  assumes wf: "tl_wf c" and el: "el \<in> tl_live c"
  shows "tl_like c (TinyLFU_touch el c)" "it_val (tl_item (TinyLFU_touch el c) el) = it_val (tl_item c el)"
proof -
  have seg: "el \<in> set (seg_list c (it_seg (tl_item c el)))" using tl_live_seg [OF wf el] by simp
  have lt: "el < length (tl_elems c)" "tl_elems c ! el < length (tl_cells c)" using tl_wfD(2,3) [OF wf el] .
  have "tl_like c (TinyLFU_touch el c) \<and> it_val (tl_item (TinyLFU_touch el c) el) = it_val (tl_item c el)"
  proof (cases "it_seg (tl_item c el)")
    case segWindow
    then show ?thesis using tl_like_move [OF wf] by (simp add: TinyLFU_touch_def Let_def)
  next
    case segProtected
    then show ?thesis using tl_like_move [OF wf] by (simp add: TinyLFU_touch_def Let_def)
  next
    case segProbation
    let ?c = "tl_relocate el segProtected c" and ?b = "last (tl_protected (tl_relocate el segProtected c))"
    have p: "el \<in> set (tl_probation c)" using seg segProbation by simp
    have like: "tl_like c ?c" using tl_like_relocate [OF wf] p by simp
    then have wf1: "tl_wf ?c" by (simp add: tl_like_def)
    note v = relocate_val [OF lt, of segProtected]
    have ne: "tl_protected ?c \<noteq> []" by (simp add: tl_relocate_def Let_def)
    then have b: "?b \<in> set (tl_protected ?c)" by (rule last_in_set)
    have touch: "TinyLFU_touch el c = (if tl_protectedCap ?c < int (length (tl_protected ?c)) then tl_relocate ?b segProbation ?c else ?c)"
      using segProbation push_protected_from_probation [OF wf p refl] push_probation_from_protected [OF wf1 b refl] ne
      by (simp add: TinyLFU_touch_def Let_def)
    have "tl_elems ?c ! ?b < length (tl_cells ?c)" using tl_wfD(3) [OF wf1] tl_liveI [of ?b ?c segProtected] b by simp
    from relocate_val(1) [OF v(2) this, of segProbation] show ?thesis
      using like tl_like_trans [OF like tl_like_relocate [OF wf1, of ?b segProbation]] b v touch by simp
  qed
  then show "tl_like c (TinyLFU_touch el c)" "it_val (tl_item (TinyLFU_touch el c) el) = it_val (tl_item c el)" by simp_all
qed

text \<open>The admission from the window. A candidate that loses is dropped; a victim that loses is dropped first.\<close>

lemma discard_candidate:
  assumes "tl_wf c" "el \<in> set (tl_window c)"
  shows "c\<lparr>tl_window := remove1 el (tl_window c), tl_items := (tl_items c)(it_key (tl_item c el) := None)\<rparr> = tl_drop el c"
  using tl_not_elsewhere [OF assms(1), of el segWindow segProbation] tl_not_elsewhere [OF assms(1), of el segWindow segProtected] assms(2)
  by (simp add: tl_drop_def)

lemma remove_victim:
  assumes wf: "tl_wf c" and v: "v \<in> set (tl_probation c) \<or> v \<in> set (tl_protected c)"
  shows "TinyLFU_remove v (c\<lparr>tl_window := w\<rparr>) = tl_drop v c\<lparr>tl_window := w\<rparr>"
  using v
proof
  assume p: "v \<in> set (tl_probation c)"
  show ?thesis using p tl_wfD(4) [OF wf, of v segProbation] tl_not_elsewhere [OF wf, of v segProbation segProtected]
    by (simp add: TinyLFU_remove_def tl_drop_def Let_def)
next
  assume p: "v \<in> set (tl_protected c)"
  show ?thesis using p tl_wfD(4) [OF wf, of v segProtected] tl_not_elsewhere [OF wf, of v segProtected segProbation]
    by (simp add: TinyLFU_remove_def tl_drop_def Let_def)
qed

definition tl_admitted :: "('k, 'v) TinyLFU \<Rightarrow> ('k, 'v) TinyLFU \<Rightarrow> bool" where
  "tl_admitted c c' \<longleftrightarrow> tl_wf c' \<and> tl_frame c' = tl_frame c \<and> Suc (length (tl_window c')) = length (tl_window c)
     \<and> int (tl_main c') \<le> tl_mainCap c \<and> tl_contents c' \<subseteq>\<^sub>m tl_contents c
     \<and> (\<forall>a\<in>set (tl_window c). a \<noteq> last (tl_window c) \<longrightarrow> tl_contents c' (it_key (tl_item c a)) = tl_contents c (it_key (tl_item c a)))"

lemma fun_upd_None_le [simp]: "m(k := None) \<subseteq>\<^sub>m m"
  by (auto simp: map_le_def)

lemma tl_admitted_drop:
  assumes wf: "tl_wf c" and w: "tl_window c \<noteq> []" and m: "int (tl_main c) \<le> tl_mainCap c"
  shows "tl_admitted c (tl_drop (last (tl_window c)) c)"
proof -
  let ?e = "last (tl_window c)"
  have e: "?e \<in> set (tl_window c)" using w by simp
  then have l: "?e \<in> tl_live c" using tl_liveI [of ?e c segWindow] by simp
  have "it_key (tl_item c a) \<noteq> it_key (tl_item c ?e)" if "a \<in> set (tl_window c)" "a \<noteq> ?e" for a
    using tl_key_inj [OF wf _ l, of a] tl_liveI [of a c segWindow] that by auto
  then show ?thesis using tl_drop_ok [OF wf l] tl_drop_lengths(1) [OF wf e] m by (simp add: tl_admitted_def)
qed

lemma tl_admitted_move:
  assumes wf: "tl_wf c" and w: "tl_window c \<noteq> []" and m: "int (tl_main c) < tl_mainCap c"
  shows "tl_admitted c (tl_relocate (last (tl_window c)) segProbation c)"
proof -
  let ?e = "last (tl_window c)"
  have e: "?e \<in> set (tl_window c)" using w by simp
  then have l: "?e \<in> tl_live c" using tl_liveI [of ?e c segWindow] by simp
  show ?thesis using tl_relocate_ok [OF wf l] tl_relocate_lengths(2) [OF wf e] m by (simp add: tl_admitted_def)
qed

lemma tl_admitted_replace:
  assumes wf: "tl_wf c" and w: "tl_window c \<noteq> []" and m: "int (tl_main c) \<le> tl_mainCap c"
    and v: "v \<in> set (tl_probation c) \<or> v \<in> set (tl_protected c)"
  shows "tl_admitted c (tl_relocate (last (tl_window c)) segProbation (tl_drop v c))"
proof -
  let ?d = "tl_drop v c"
  have l: "v \<in> tl_live c" using v tl_liveI [of v c segProbation] tl_liveI [of v c segProtected] by auto
  note d = tl_drop_ok [OF wf l] tl_drop_lengths(2) [OF wf v]
  have key: "it_key (tl_item c a) \<noteq> it_key (tl_item c v)" if "a \<in> set (tl_window c)" for a
    using tl_key_inj [OF wf _ l, of a] tl_liveI [of a c segWindow] that v tl_disjoint [OF wf, of a segWindow segProbation]
      tl_disjoint [OF wf, of a segWindow segProtected] by auto
  have cap: "tl_mainCap ?d = tl_mainCap c" "tl_cells ?d = tl_cells c" "tl_elems ?d = tl_elems c" by (simp_all add: tl_drop_def)
  have "tl_admitted ?d (tl_relocate (last (tl_window c)) segProbation ?d)"
    using tl_admitted_move [OF d(1)] d(3) w m cap by simp
  then show ?thesis using d key cap by (auto simp: tl_admitted_def intro: map_le_trans)
qed

lemma TinyLFU_admit_ok:
  assumes wf: "tl_wf c" and w: "tl_window c \<noteq> []" and m: "int (tl_main c) \<le> tl_mainCap c"
  shows "\<exists>c'. TinyLFU_admitFromWindow hash c = Some c' \<and> tl_admitted c c'"
proof -
  let ?e = "last (tl_window c)"
  have e: "?e \<in> set (tl_window c)" using w by simp
  let ?c = "c\<lparr>tl_window := remove1 ?e (tl_window c)\<rparr>"
  consider "tl_mainCap c \<le> 0" | "0 < tl_mainCap c" "int (tl_main c) < tl_mainCap c" | "0 < tl_mainCap c" "\<not> int (tl_main c) < tl_mainCap c" by linarith
  then show ?thesis
  proof cases
    case 1
    then show ?thesis using w discard_candidate [OF wf e] tl_admitted_drop [OF wf w m] by (simp add: TinyLFU_admitFromWindow_def Let_def)
  next
    case 2
    then show ?thesis
      using w push_probation_from_window [OF wf e refl] tl_admitted_move [OF wf w] by (simp add: TinyLFU_admitFromWindow_def Let_def tl_main_def)
  next
    case 3
    define v where "v = (if tl_probation c \<noteq> [] then last (tl_probation c) else last (tl_protected c))"
    have some: "\<not> (tl_probation c = [] \<and> tl_protected c = [])" using 3 by (auto simp: tl_main_def)
    then have v: "v \<in> set (tl_probation c) \<or> v \<in> set (tl_protected c)" by (auto simp: v_def)
    have vl: "v \<in> tl_live c" using v tl_liveI [of v c segProbation] tl_liveI [of v c segProtected] by auto
    have wd: "tl_window (tl_drop v c) = tl_window c" using tl_drop_lengths(2) [OF wf v] by simp
    have ed: "tl_elems (tl_drop v c) = tl_elems c" by (simp add: tl_drop_def)
    let ?it = "tl_elems c ! ?e"
    have "tl_pushProbation ?it (tl_setSeg ?it segProbation (TinyLFU_remove v ?c)) = tl_relocate ?e segProbation (tl_drop v c)"
      using push_probation_from_window [OF tl_drop_ok(1) [OF wf vl], of ?e ?it] e wd ed remove_victim [OF wf v] by simp
    then show ?thesis
      using 3 w some discard_candidate [OF wf e] tl_admitted_drop [OF wf w m] tl_admitted_replace [OF wf w m v]
      unfolding v_def by (cases "tl_probation c = []") (simp_all add: TinyLFU_admitFromWindow_def Let_def tl_main_def)
  qed
qed

definition tl_inv :: "('k, 'v) TinyLFU \<Rightarrow> bool" where
  "tl_inv c \<longleftrightarrow> tl_wf c \<and> 1 \<le> tl_windowCap c \<and> 0 \<le> tl_mainCap c \<and> int (length (tl_window c)) \<le> tl_windowCap c
     \<and> int (tl_main c) \<le> tl_mainCap c \<and> cm_inv (tl_sketch c)"

definition tl_capacity :: "('k, 'v) TinyLFU \<Rightarrow> nat" where
  "tl_capacity c = nat (tl_windowCap c + tl_mainCap c)"

lemma tl_inv_like: "tl_inv c \<Longrightarrow> tl_like c c' \<Longrightarrow> tl_inv c' \<and> tl_contents c' = tl_contents c \<and> tl_capacity c' = tl_capacity c"
  by (simp add: tl_inv_def tl_like_def tl_frame_def tl_capacity_def)

lemma tl_sketch_upd [simp]:
  "tl_wf (c\<lparr>tl_sketch := k\<rparr>) = tl_wf c" "tl_contents (c\<lparr>tl_sketch := k\<rparr>) = tl_contents c" "tl_live (c\<lparr>tl_sketch := k\<rparr>) = tl_live c"
  "tl_main (c\<lparr>tl_sketch := k\<rparr>) = tl_main c"
proof -
  have s: "seg_list (c\<lparr>tl_sketch := k\<rparr>) g = seg_list c g" for g by (cases g) simp_all
  then show "tl_wf (c\<lparr>tl_sketch := k\<rparr>) = tl_wf c" "tl_live (c\<lparr>tl_sketch := k\<rparr>) = tl_live c" by (simp_all add: tl_wf_def tl_live_def)
  show "tl_contents (c\<lparr>tl_sketch := k\<rparr>) = tl_contents c" "tl_main (c\<lparr>tl_sketch := k\<rparr>) = tl_main c" by (simp_all add: tl_contents_def tl_main_def fun_eq_iff)
qed

lemma tl_inv_sketch: "tl_inv c \<Longrightarrow> tl_inv (c\<lparr>tl_sketch := cm_increment h (tl_sketch c)\<rparr>)"
  by (simp add: tl_inv_def cm_increment_inv)

lemma TinyLFU_Get_ok:
  assumes inv: "tl_inv c" and get: "TinyLFU_Get hash k c = (r, c')"
  shows "r = tl_contents c k \<and> tl_contents c' = tl_contents c \<and> tl_inv c' \<and> tl_capacity c' = tl_capacity c"
proof (cases "tl_items c k")
  case None
  then show ?thesis using inv get by (simp add: TinyLFU_Get_def tl_contents_def)
next
  case (Some el)
  let ?c = "c\<lparr>tl_sketch := cm_increment (hash k) (tl_sketch c)\<rparr>"
  have i: "tl_inv ?c" using tl_inv_sketch [OF inv] .
  then have "tl_wf ?c" by (simp add: tl_inv_def)
  moreover have "el \<in> tl_live ?c" using inv Some tl_wfD(5) [of c k el] by (simp add: tl_inv_def)
  ultimately have t: "tl_like ?c (TinyLFU_touch el ?c)" "it_val (tl_item (TinyLFU_touch el ?c) el) = it_val (tl_item ?c el)"
    using TinyLFU_touch_ok by blast+
  have "r = tl_contents c k" "c' = TinyLFU_touch el ?c" using get Some t(2) by (simp_all add: TinyLFU_Get_def Let_def tl_contents_def)
  then show ?thesis using tl_inv_like [OF i t(1)] by (simp add: tl_capacity_def)
qed

lemma TinyLFU_Delete_ok:
  assumes inv: "tl_inv c"
  shows "tl_contents (TinyLFU_Delete k c) = (tl_contents c)(k := None) \<and> tl_inv (TinyLFU_Delete k c) \<and> tl_capacity (TinyLFU_Delete k c) = tl_capacity c"
proof (cases "tl_items c k")
  case None
  then show ?thesis using inv by (simp add: TinyLFU_Delete_def tl_contents_def fun_eq_iff)
next
  case (Some el)
  have wf: "tl_wf c" using inv by (simp add: tl_inv_def)
  have el: "el \<in> tl_live c" "it_key (tl_item c el) = k" using tl_wfD(5) [OF wf, of k el] Some by simp_all
  have d: "TinyLFU_Delete k c = tl_drop el c" using Some TinyLFU_remove_drop [OF wf el(1)] by (simp add: TinyLFU_Delete_def)
  have "length (tl_window (tl_drop el c)) \<le> length (tl_window c)" "tl_main (tl_drop el c) \<le> tl_main c"
    by (simp_all add: tl_drop_def tl_main_def length_remove1 add_mono)
  then have "tl_inv (tl_drop el c)" using inv tl_drop_ok(1) [OF wf el(1)] tl_frame_moves(1) [of el c] by (auto simp: tl_inv_def tl_frame_def)
  then show ?thesis using d tl_drop_ok(2) [OF wf el(1)] el(2) tl_frame_moves(1) [of el c] by (simp add: tl_capacity_def tl_frame_def)
qed

lemma tl_write_ok:
  assumes wf: "tl_wf c" and some: "tl_items c k = Some el" and c': "c' = c\<lparr>tl_cells := (tl_cells c)[tl_elems c ! el := (tl_item c el)\<lparr>it_val := v\<rparr>]\<rparr>"
  shows "tl_wf c'" "tl_contents c' = (tl_contents c)(k \<mapsto> v)"
proof -
  have el: "el \<in> tl_live c" "it_key (tl_item c el) = k" using tl_wfD(5) [OF wf, of k el] some by simp_all
  have lt: "tl_elems c ! el < length (tl_cells c)" using tl_wfD(3) [OF wf el(1)] .
  have seg: "seg_list c' g = seg_list c g" for g by (cases g) (simp_all add: c')
  have live: "tl_live c' = tl_live c" by (simp add: tl_live_def seg)
  have same: "it_key (tl_cells c' ! i) = it_key (tl_cells c ! i)" "it_seg (tl_cells c' ! i) = it_seg (tl_cells c ! i)" for i
    using lt by (simp_all add: c' nth_list_update)
  have rest: "tl_elems c' = tl_elems c" "tl_items c' = tl_items c" "length (tl_cells c') = length (tl_cells c)" by (simp_all add: c')
  show "tl_wf c'" using wf by (simp add: tl_wf_def seg live same rest)
  show "tl_contents c' = (tl_contents c)(k \<mapsto> v)"
  proof
    fix k'
    show "tl_contents c' k' = ((tl_contents c)(k \<mapsto> v)) k'"
    proof (cases "tl_items c k'")
      case None
      then show ?thesis using some by (auto simp: tl_contents_def rest)
    next
      case (Some a)
      then have a: "a \<in> tl_live c" "it_key (tl_item c a) = k'" using tl_wfD(5) [OF wf, of k' a] by simp_all
      have "tl_elems c ! a = tl_elems c ! el \<longleftrightarrow> a = el" using tl_key_inj [OF wf a(1) el(1)] by metis
      then show ?thesis using Some some a el lt by (auto simp: tl_contents_def c')
    qed
  qed
qed

lemma tl_new_ok:
  assumes wf: "tl_wf c" and none: "tl_items c k = None" and e: "e = length (tl_elems c)"
    and c': "c' = c\<lparr>tl_cells := tl_cells c @ [\<lparr>it_key = k, it_val = v, it_seg = segWindow\<rparr>], tl_elems := tl_elems c @ [length (tl_cells c)],
                 tl_window := e # tl_window c, tl_items := (tl_items c)(k \<mapsto> e)\<rparr>"
  shows "tl_wf c'" "tl_contents c' = (tl_contents c)(k \<mapsto> v)" "it_key (tl_item c' e) = k" "e \<notin> set (tl_window c)"
proof -
  have fresh: "e \<notin> tl_live c" using tl_wfD(2) [OF wf] e by blast
  then show "e \<notin> set (tl_window c)" using tl_liveI [of e c segWindow] by auto
  have seg: "seg_list c' g = (if g = segWindow then e # seg_list c g else seg_list c g)" for g by (cases g) (simp_all add: c')
  have live: "tl_live c' = insert e (tl_live c)" by (auto simp: tl_live_def seg split: if_splits)
  have new: "tl_item c' e = \<lparr>it_key = k, it_val = v, it_seg = segWindow\<rparr>" by (simp add: c' e)
  then show "it_key (tl_item c' e) = k" by simp
  have old: "tl_item c' a = tl_item c a" if "a \<in> tl_live c" for a
    using tl_wfD(2,3) [OF wf that] by (simp add: c' nth_append)
  have items: "tl_items c' = (tl_items c)(k \<mapsto> e)" by (simp add: c')
  have nok: "it_key (tl_item c a) \<noteq> k" if "a \<in> tl_live c" for a using tl_wfD(5) [OF wf, of k a] that none by auto
  have "tl_items c' k' = Some a \<longleftrightarrow> a \<in> tl_live c' \<and> it_key (tl_item c' a) = k'" for k' a
    using tl_wfD(5) [OF wf, of k' a] fresh new old [of a] nok [of a] by (cases "a = e") (auto simp: items live)
  moreover have "distinct (seg_list c' g)" for g using tl_wfD(1) [OF wf, of g] fresh tl_liveI [of e c g] by (auto simp: seg)
  moreover have "a < length (tl_elems c') \<and> tl_elems c' ! a < length (tl_cells c') \<and> it_seg (tl_item c' a) = g" if "a \<in> set (seg_list c' g)" for a g
  proof (cases "a = e")
    case True
    then have "g = segWindow" using that fresh tl_liveI [of e c g] by (auto simp: seg split: if_splits)
    then show ?thesis using True new by (simp add: c' e)
  next
    case False
    then have a: "a \<in> set (seg_list c g)" using that by (auto simp: seg split: if_splits)
    note l = tl_liveI [OF a]
    show ?thesis using old [OF l] tl_wfD(4) [OF wf a] tl_wfD(2,3) [OF wf l] by (simp add: c' nth_append)
  qed
  ultimately show "tl_wf c'" unfolding tl_wf_def by blast
  show "tl_contents c' = (tl_contents c)(k \<mapsto> v)"
  proof
    fix k'
    show "tl_contents c' k' = ((tl_contents c)(k \<mapsto> v)) k'"
    proof (cases "tl_items c k'")
      case None
      then show ?thesis using new by (simp add: tl_contents_def items)
    next
      case (Some a)
      then have "a \<in> tl_live c" "k' \<noteq> k" using tl_wfD(5) [OF wf, of k' a] none by auto
      then show ?thesis using Some old by (simp add: tl_contents_def items)
    qed
  qed
qed

lemma TinyLFU_Set_ok:
  assumes inv: "tl_inv c"
  shows "\<exists>c'. TinyLFU_Set hash k v c = Some c' \<and> tl_contents c' \<subseteq>\<^sub>m (tl_contents c)(k \<mapsto> v) \<and> tl_contents c' k = Some v \<and> tl_inv c'
    \<and> tl_capacity c' = tl_capacity c"
proof -
  define d where "d = c\<lparr>tl_sketch := cm_increment (hash k) (tl_sketch c)\<rparr>"
  have i: "tl_inv d" using tl_inv_sketch [OF inv] by (simp add: d_def)
  have wf: "tl_wf d" using i by (simp add: tl_inv_def)
  have d: "tl_contents d = tl_contents c" "tl_capacity d = tl_capacity c" "tl_items d = tl_items c" by (simp_all add: d_def tl_capacity_def)
  show ?thesis
  proof (cases "tl_items d k")
    case (Some el)
    define e where "e = d\<lparr>tl_cells := (tl_cells d)[tl_elems d ! el := (tl_item d el)\<lparr>it_val := v\<rparr>]\<rparr>"
    note w = tl_write_ok [OF wf Some e_def]
    have ie: "tl_inv e" using i w(1) by (simp add: tl_inv_def e_def tl_main_def)
    have "tl_items e k = Some el" using Some by (simp add: e_def)
    then have "el \<in> tl_live e" using tl_wfD(5) [OF w(1)] by simp
    from tl_inv_like [OF ie TinyLFU_touch_ok(1) [OF w(1) this]]
    have "tl_inv (TinyLFU_touch el e)" "tl_contents (TinyLFU_touch el e) = (tl_contents c)(k \<mapsto> v)" "tl_capacity (TinyLFU_touch el e) = tl_capacity c"
      using w(2) d by (simp_all add: e_def tl_capacity_def)
    moreover have "TinyLFU_Set hash k v c = Some (TinyLFU_touch el e)" using Some by (simp add: TinyLFU_Set_def Let_def e_def d_def)
    ultimately show ?thesis by simp
  next
    case None
    define a where "a = length (tl_elems d)"
    define e where "e = d\<lparr>tl_cells := tl_cells d @ [\<lparr>it_key = k, it_val = v, it_seg = segWindow\<rparr>], tl_elems := tl_elems d @ [length (tl_cells d)],
                 tl_window := a # tl_window d, tl_items := (tl_items d)(k \<mapsto> a)\<rparr>"
    note n = tl_new_ok [OF wf None a_def e_def]
    have frame: "tl_frame e = tl_frame d" "tl_main e = tl_main d" "tl_window e = a # tl_window d" by (simp_all add: e_def tl_frame_def tl_main_def)
    have set: "TinyLFU_Set hash k v c = (if tl_windowCap e < int (length (tl_window e)) then TinyLFU_admitFromWindow hash e else Some e)"
      using None by (simp add: TinyLFU_Set_def Let_def e_def d_def a_def)
    show ?thesis
    proof (cases "tl_windowCap e < int (length (tl_window e))")
      case False
      then have "tl_inv e" using i n(1) frame by (simp add: tl_inv_def tl_frame_def)
      then show ?thesis using False set n(2) d frame(1) by (simp add: tl_capacity_def tl_frame_def)
    next
      case True
      have "tl_window e \<noteq> []" "int (tl_main e) \<le> tl_mainCap e" using frame i by (simp_all add: tl_inv_def tl_frame_def)
      from TinyLFU_admit_ok [OF n(1) this, of hash] obtain c' where c': "TinyLFU_admitFromWindow hash e = Some c'" "tl_admitted e c'" by blast
      have "tl_window d \<noteq> []" using True i frame by (auto simp: tl_inv_def tl_frame_def)
      then have "a \<noteq> last (tl_window e)" using n(4) frame(3) last_in_set [of "tl_window d"] by auto
      then have "tl_contents c' k = Some v" using c'(2) n(2,3) frame(3) by (auto simp: tl_admitted_def)
      moreover have "tl_inv c'" using c'(2) i frame True by (auto simp: tl_admitted_def tl_inv_def tl_frame_def)
      ultimately show ?thesis using True set c' n(2) d frame(1) by (simp add: tl_admitted_def tl_capacity_def tl_frame_def)
    qed
  qed
qed

lemma tl_live_card:
  assumes wf: "tl_wf c"
  shows "finite (tl_live c)" "card (tl_live c) = TinyLFU_Len c"
proof -
  have live: "tl_live c = set (tl_window c) \<union> (set (tl_probation c) \<union> set (tl_protected c))"
  proof
    show "tl_live c \<subseteq> set (tl_window c) \<union> (set (tl_probation c) \<union> set (tl_protected c))"
    proof
      fix a assume "a \<in> tl_live c"
      then obtain g where "a \<in> set (seg_list c g)" by (auto simp: tl_live_def)
      then show "a \<in> set (tl_window c) \<union> (set (tl_probation c) \<union> set (tl_protected c))" by (cases g) simp_all
    qed
    show "set (tl_window c) \<union> (set (tl_probation c) \<union> set (tl_protected c)) \<subseteq> tl_live c"
      using tl_liveI [of _ c segWindow] tl_liveI [of _ c segProbation] tl_liveI [of _ c segProtected] by auto
  qed
  then show "finite (tl_live c)" by simp
  have "set (tl_window c) \<inter> (set (tl_probation c) \<union> set (tl_protected c)) = {}" "set (tl_probation c) \<inter> set (tl_protected c) = {}"
    using tl_disjoint [OF wf, of _ segWindow segProbation] tl_disjoint [OF wf, of _ segWindow segProtected] tl_disjoint [OF wf, of _ segProbation segProtected]
    by auto
  then show "card (tl_live c) = TinyLFU_Len c"
    using tl_wfD(1) [OF wf, of segWindow] tl_wfD(1) [OF wf, of segProbation] tl_wfD(1) [OF wf, of segProtected]
    by (simp add: live card_Un_disjoint distinct_card TinyLFU_Len_def)
qed

lemma tl_dom: "tl_wf c \<Longrightarrow> dom (tl_contents c) = (\<lambda>el. it_key (tl_item c el)) ` tl_live c"
  using tl_wfD(5) [of c] by (auto simp: tl_contents_def dom_def image_iff)

lemma TinyLFU_Len_ok:
  assumes "tl_inv c"
  shows "finite (dom (tl_contents c)) \<and> TinyLFU_Len c = card (dom (tl_contents c)) \<and> TinyLFU_Len c \<le> tl_capacity c"
proof -
  have wf: "tl_wf c" using assms by (simp add: tl_inv_def)
  have "inj_on (\<lambda>el. it_key (tl_item c el)) (tl_live c)" using tl_key_inj [OF wf] by (auto intro: inj_onI)
  moreover have "TinyLFU_Len c \<le> tl_capacity c"
    using assms unfolding tl_inv_def TinyLFU_Len_def tl_capacity_def tl_main_def by linarith
  ultimately show ?thesis using tl_live_card [OF wf] tl_dom [OF wf] card_image by fastforce
qed

lemma NewTinyLFU_ok:
  assumes "n < 2 ^ 63"
  shows "tl_inv (NewTinyLFU n :: ('k, 'v) TinyLFU)" "tl_contents (NewTinyLFU n :: ('k, 'v) TinyLFU) = Map.empty"
    "tl_capacity (NewTinyLFU n :: ('k, 'v) TinyLFU) = nat (max 1 n)"
proof -
  let ?c = "NewTinyLFU n :: ('k, 'v) TinyLFU" and ?n = "max 1 n"
  have "go_div ?n 100 = ?n div 100" by (simp add: go_simps)
  moreover have "?n = (if n \<le> 0 then 1 else n)" by simp
  ultimately have w: "tl_windowCap ?c = max 1 (?n div 100)" "tl_mainCap ?c = ?n - max 1 (?n div 100)"
    by (simp_all add: NewTinyLFU_def Let_def max_def)
  have e: "tl_window ?c = []" "tl_main ?c = 0" "tl_items ?c = Map.empty" by (simp_all add: NewTinyLFU_def Let_def tl_main_def)
  have seg: "seg_list ?c g = []" for g by (cases g) (simp_all add: NewTinyLFU_def Let_def)
  then have "tl_wf ?c" by (simp add: tl_wf_def tl_live_def e)
  moreover have "cm_inv (tl_sketch ?c)" using assms by (auto simp: NewTinyLFU_def Let_def intro: newCMSketch_inv)
  moreover have "max 1 (?n div 100) \<le> ?n" by simp
  ultimately show "tl_inv ?c" using w by (simp add: tl_inv_def e le_max_iff_disj)
  show "tl_contents ?c = Map.empty" by (simp add: tl_contents_def fun_eq_iff e)
  show "tl_capacity ?c = nat ?n" using w by (simp add: tl_capacity_def)
qed

interpretation tinylfu: bounded_cache "TinyLFU_Get hash" "TinyLFU_Set hash" TinyLFU_Delete TinyLFU_Len tl_capacity tl_contents tl_inv for hash
  by unfold_locales (fact TinyLFU_Get_ok TinyLFU_Set_ok TinyLFU_Delete_ok TinyLFU_Len_ok)+



end
