(* ===== verification/CacheLoader.thy ===== *)
theory CacheLoader
  imports TinyLFU
begin

text \<open>
  \<open>pkg/store/cache/loader.go\<close>: the loader that puts times to live and the caching of errors on top of a cache. It is verified
  against the interface, in an extension of the locale \<open>bounded_cache\<close>, and holds for both implementations.
\<close>

section \<open>The loader\<close>

text \<open>
  \<open>Loader.Get\<close> looks the key up, and on a miss runs a flight: a second look, the load, and the write of the result. Merging
  concurrent flights is the work of a third-party package; here the looks, the writes of finished flights and the
  calls of \<open>Forget\<close> come in any order, which covers every way of merging. The cache is an argument.
\<close>

record 'v cache_item =
  ci_val :: 'v
  ci_err :: "string option"
  ci_exp :: int

record 'c Loader =
  ld_c :: 'c
  ld_ttl :: int
  ld_negTTL :: int

record loaderCfg =
  lc_ttl :: int
  lc_negTTL :: int

definition WithTTL :: "int \<Rightarrow> loaderCfg \<Rightarrow> loaderCfg" where
  "WithTTL d c = c\<lparr>lc_ttl := d\<rparr>"

definition WithNegativeTTL :: "int \<Rightarrow> loaderCfg \<Rightarrow> loaderCfg" where
  "WithNegativeTTL d c = c\<lparr>lc_negTTL := d\<rparr>"

definition NewLoader :: "'c \<Rightarrow> (loaderCfg \<Rightarrow> loaderCfg) list \<Rightarrow> 'c Loader" where
  "NewLoader c opts = (let cfg = foldl (\<lambda>cfg f. f cfg) \<lparr>lc_ttl = 60 * second, lc_negTTL = 0\<rparr> opts
     in \<lparr>ld_c = c, ld_ttl = lc_ttl cfg, ld_negTTL = lc_negTTL cfg\<rparr>)"

definition NewLRULoader :: "int \<Rightarrow> (loaderCfg \<Rightarrow> loaderCfg) list \<Rightarrow> (string, 'v cache_item) LRU Loader" where
  "NewLRULoader capacity opts = NewLoader (NewLRU capacity) opts"

definition Loader_peek :: "(string \<Rightarrow> 'c \<Rightarrow> 'v cache_item option \<times> 'c) \<Rightarrow> string \<Rightarrow> int \<Rightarrow> 'c Loader \<Rightarrow> ('v \<times> string option) option \<times> 'c Loader" where
  "Loader_peek get key now l =
     (let (r, c) = get key (ld_c l)
      in (case r of None \<Rightarrow> None | Some it \<Rightarrow> if now < ci_exp it then Some (ci_val it, ci_err it) else None, l\<lparr>ld_c := c\<rparr>))"

definition Loader_store :: "(string \<Rightarrow> 'v cache_item \<Rightarrow> 'c \<Rightarrow> 'c option) \<Rightarrow> string \<Rightarrow> 'v \<Rightarrow> string option \<Rightarrow> int \<Rightarrow> 'c Loader \<Rightarrow> 'c Loader option" where
  "Loader_store put key v err now l =
     (let ttl = (if err \<noteq> None then ld_negTTL l else ld_ttl l)
      in if 0 < ttl then map_option (\<lambda>c. l\<lparr>ld_c := c\<rparr>) (put key \<lparr>ci_val = v, ci_err = err, ci_exp = now + ttl\<rparr> (ld_c l)) else Some l)"

definition Loader_Forget :: "(string \<Rightarrow> 'c \<Rightarrow> 'c) \<Rightarrow> string \<Rightarrow> 'c Loader \<Rightarrow> 'c Loader" where
  "Loader_Forget del key l = l\<lparr>ld_c := del key (ld_c l)\<rparr>"

text \<open>A call of \<open>Get\<close> that runs its own flight undisturbed; the clock is read up to three times.\<close>

definition Loader_Get :: "(string \<Rightarrow> 'c \<Rightarrow> 'v cache_item option \<times> 'c) \<Rightarrow> (string \<Rightarrow> 'v cache_item \<Rightarrow> 'c \<Rightarrow> 'c option) \<Rightarrow>
    (string \<Rightarrow> 'v \<times> string option) \<Rightarrow> string \<Rightarrow> int \<Rightarrow> int \<Rightarrow> int \<Rightarrow> 'c Loader \<Rightarrow> (('v \<times> string option) \<times> 'c Loader) option" where
  "Loader_Get get put load key t1 t2 t3 l =
     (case Loader_peek get key t1 l of
        (Some r, l1) \<Rightarrow> Some (r, l1)
      | (None, l1) \<Rightarrow>
          (case Loader_peek get key t2 l1 of
             (Some r, l2) \<Rightarrow> Some (r, l2)
           | (None, l2) \<Rightarrow>
               (let (v, err) = load key in map_option (\<lambda>l3. ((v, err), l3)) (Loader_store put key v err t3 l2))))"

datatype 'v load_event = EvPeek string int | EvStore string 'v "string option" int | EvForget string

fun load_run :: "(string \<Rightarrow> 'c \<Rightarrow> 'v cache_item option \<times> 'c) \<Rightarrow> (string \<Rightarrow> 'v cache_item \<Rightarrow> 'c \<Rightarrow> 'c option) \<Rightarrow> (string \<Rightarrow> 'c \<Rightarrow> 'c) \<Rightarrow>
    'v load_event list \<Rightarrow> 'c Loader \<Rightarrow> (('v \<times> string option) option list \<times> 'c Loader) option" where
  "load_run get put del [] l = Some ([], l)"
| "load_run get put del (EvPeek key now # es) l =
     map_option (\<lambda>(rs, d). (fst (Loader_peek get key now l) # rs, d)) (load_run get put del es (snd (Loader_peek get key now l)))"
| "load_run get put del (EvStore key v err now # es) l =
     (case Loader_store put key v err now l of None \<Rightarrow> None | Some l' \<Rightarrow> map_option (\<lambda>(rs, d). (None # rs, d)) (load_run get put del es l'))"
| "load_run get put del (EvForget key # es) l = map_option (\<lambda>(rs, d). (None # rs, d)) (load_run get put del es (Loader_Forget del key l))"

text \<open>The last result of a load that was kept and not forgotten since, with the time it was written.\<close>

definition ttl_for :: "'c Loader \<Rightarrow> string option \<Rightarrow> int" where
  "ttl_for l err = (if err \<noteq> None then ld_negTTL l else ld_ttl l)"

lemma ttl_for_upd [simp]: "ttl_for (l\<lparr>ld_c := c\<rparr>) = ttl_for l"
  by (simp add: ttl_for_def fun_eq_iff)

primrec last_load :: "(string option \<Rightarrow> int) \<Rightarrow> 'v load_event \<Rightarrow> (string \<rightharpoonup> 'v \<times> string option \<times> int) \<Rightarrow> string \<rightharpoonup> 'v \<times> string option \<times> int" where
  "last_load ttl (EvPeek key now) m = m"
| "last_load ttl (EvStore key v err now) m = (if 0 < ttl err then m(key \<mapsto> (v, err, now)) else m)"
| "last_load ttl (EvForget key) m = m(key := None)"

definition load_item :: "(string option \<Rightarrow> int) \<Rightarrow> 'v \<times> string option \<times> int \<Rightarrow> 'v cache_item" where
  "load_item ttl x = \<lparr>ci_val = fst x, ci_err = fst (snd x), ci_exp = snd (snd x) + ttl (fst (snd x))\<rparr>"

lemma load_run_append:
  "load_run get put del (xs @ ys) l =
     (case load_run get put del xs l of None \<Rightarrow> None | Some (rs, d) \<Rightarrow> map_option (\<lambda>(rs', e). (rs @ rs', e)) (load_run get put del ys d))"
  by (induction get put del xs l rule: load_run.induct) (auto simp: option.map_comp comp_def case_prod_unfold option.map_ident split: option.splits)

locale load_cache = bounded_cache get put del len capacity contents cinv
  for get :: "string \<Rightarrow> 'c \<Rightarrow> 'v cache_item option \<times> 'c" and put del len capacity contents cinv
begin

definition covers where
  "covers l m \<longleftrightarrow> cinv (ld_c l) \<and> contents (ld_c l) \<subseteq>\<^sub>m map_option (load_item (ttl_for l)) \<circ> m"

lemma peek_covers:
  assumes "covers l m"
  shows "covers (snd (Loader_peek get key now l)) m" "ttl_for (snd (Loader_peek get key now l)) = ttl_for l"
    "fst (Loader_peek get key now l) = Some (v, err) \<Longrightarrow> \<exists>t0. m key = Some (v, err, t0) \<and> now < t0 + ttl_for l err"
proof -
  have c: "cinv (ld_c l)" "contents (ld_c l) \<subseteq>\<^sub>m map_option (load_item (ttl_for l)) \<circ> m" using assms by (simp_all add: covers_def)
  note g = get_ok [OF c(1), of key]
  show "covers (snd (Loader_peek get key now l)) m" "ttl_for (snd (Loader_peek get key now l)) = ttl_for l"
    using c g by (simp_all add: covers_def Loader_peek_def case_prod_unfold Let_def)
  assume "fst (Loader_peek get key now l) = Some (v, err)"
  then obtain it where it: "contents (ld_c l) key = Some it" "now < ci_exp it" "ci_val it = v" "ci_err it = err"
    using g by (auto simp: Loader_peek_def case_prod_unfold Let_def split: option.splits if_splits)
  then have "map_option (load_item (ttl_for l)) (m key) = Some it" using c(2) by (auto simp: map_le_def dom_def)
  then show "\<exists>t0. m key = Some (v, err, t0) \<and> now < t0 + ttl_for l err" using it by (auto simp: load_item_def)
qed

lemma store_covers:
  assumes "covers l m"
  shows "\<exists>l'. Loader_store put key v err now l = Some l' \<and> covers l' (last_load (ttl_for l) (EvStore key v err now) m) \<and> ttl_for l' = ttl_for l"
proof (cases "0 < ttl_for l err")
  case False
  then show ?thesis using assms by (auto simp: Loader_store_def ttl_for_def Let_def split: if_splits)
next
  case True
  let ?it = "\<lparr>ci_val = v, ci_err = err, ci_exp = now + ttl_for l err\<rparr>"
  have c: "cinv (ld_c l)" "contents (ld_c l) \<subseteq>\<^sub>m map_option (load_item (ttl_for l)) \<circ> m" using assms by (simp_all add: covers_def)
  from c_put [OF c(1), of key ?it] obtain c' where p: "put key ?it (ld_c l) = Some c'" "contents c' \<subseteq>\<^sub>m (contents (ld_c l))(key \<mapsto> ?it)" "cinv c'" by blast
  have "contents c' \<subseteq>\<^sub>m (map_option (load_item (ttl_for l)) \<circ> m)(key \<mapsto> ?it)" using p(2) map_le_upd [OF c(2)] by (rule map_le_trans)
  moreover have "(map_option (load_item (ttl_for l)) \<circ> m)(key \<mapsto> ?it) = map_option (load_item (ttl_for l)) \<circ> (m(key \<mapsto> (v, err, now)))"
    by (auto simp: load_item_def fun_eq_iff)
  moreover have "Loader_store put key v err now l = Some (l\<lparr>ld_c := c'\<rparr>)" using True p(1) by (simp add: Loader_store_def ttl_for_def Let_def)
  ultimately show ?thesis using True p(3) by (simp add: covers_def)
qed

lemma forget_covers:
  assumes "covers l m"
  shows "covers (Loader_Forget del key l) (m(key := None))" "ttl_for (Loader_Forget del key l) = ttl_for l"
proof -
  have c: "cinv (ld_c l)" "contents (ld_c l) \<subseteq>\<^sub>m map_option (load_item (ttl_for l)) \<circ> m" using assms by (simp_all add: covers_def)
  show t: "ttl_for (Loader_Forget del key l) = ttl_for l" by (simp add: Loader_Forget_def)
  show "covers (Loader_Forget del key l) (m(key := None))"
    using c(2) c_del [OF c(1), of key] unfolding covers_def t by (auto simp: Loader_Forget_def map_le_def)
qed

lemma run_covers:
  assumes "covers l m"
  shows "\<exists>rs l'. load_run get put del es l = Some (rs, l') \<and> length rs = length es \<and> covers l' (fold (last_load (ttl_for l)) es m) \<and> ttl_for l' = ttl_for l"
  using assms
proof (induction es arbitrary: l m)
  case (Cons e es)
  show ?case
  proof (cases e)
    case (EvPeek key now)
    note p = peek_covers(1,2) [OF Cons.prems, of key now]
    from Cons.IH [OF p(1)] EvPeek show ?thesis unfolding p(2) by auto
  next
    case (EvStore key v err now)
    from store_covers [OF Cons.prems, of key v err now] obtain l'
      where l': "Loader_store put key v err now l = Some l'" "covers l' (last_load (ttl_for l) e m)" "ttl_for l' = ttl_for l" unfolding EvStore by blast
    from Cons.IH [OF l'(2)] l'(1) EvStore show ?thesis unfolding l'(3) by (auto simp del: fun_upd_apply)
  next
    case (EvForget key)
    note f = forget_covers [OF Cons.prems, of key]
    from Cons.IH [OF f(1)] EvForget show ?thesis unfolding f(2) by (auto simp del: fun_upd_apply)
  qed
qed simp

text \<open>Whatever the order of looks, finished flights and calls of \<open>Forget\<close>, a hit is a result that is still fresh.\<close>

lemma hits_fresh:
  assumes cov: "covers l Map.empty" and run: "load_run get put del (xs @ EvPeek key now # ys) l = Some (rs, l')" and hit: "rs ! length xs = Some (v, err)"
  shows "\<exists>t0. fold (last_load (ttl_for l)) xs Map.empty key = Some (v, err, t0) \<and> now < t0 + ttl_for l err"
proof -
  from run_covers [OF cov, of xs] obtain rs1 d where d: "load_run get put del xs l = Some (rs1, d)" "length rs1 = length xs"
    "covers d (fold (last_load (ttl_for l)) xs Map.empty)" "ttl_for d = ttl_for l" by blast
  from run d(1) obtain rs2 where "rs = rs1 @ fst (Loader_peek get key now d) # rs2" by (auto simp: load_run_append)
  then have "fst (Loader_peek get key now d) = Some (v, err)" using hit by (simp flip: d(2))
  from peek_covers(3) [OF d(3) this] show ?thesis by (simp add: d(4))
qed

end

interpretation lru_loader: load_cache LRU_Get "\<lambda>k v c. Some (LRU_Set k v c)" LRU_Delete LRU_Len "\<lambda>c. nat (lr_cap c)" "\<lambda>c. map_of (lru_list c)" lru_inv
  by unfold_locales

interpretation tinylfu_loader: load_cache "TinyLFU_Get hash" "TinyLFU_Set hash" TinyLFU_Delete TinyLFU_Len tl_capacity tl_contents tl_inv for hash
  by unfold_locales

lemma last_load_pos:
  assumes "fold (last_load ttl) xs Map.empty key = Some (v, err, t0)"
  shows "0 < ttl err"
proof -
  have all: "\<forall>k v err t0. fold (last_load ttl) xs m k = Some (v, err, t0) \<longrightarrow> 0 < ttl err"
    if "\<forall>k v err t0. m k = Some (v, err, t0) \<longrightarrow> 0 < ttl err" for m
    using that
  proof (induction xs arbitrary: m)
    case (Cons e xs)
    have "\<forall>k v err t0. last_load ttl e m k = Some (v, err, t0) \<longrightarrow> 0 < ttl err" using Cons.prems by (cases e) auto
    from Cons.IH [OF this] show ?case by simp
  qed simp
  show ?thesis using all [of Map.empty, rule_format, OF _ assms] by simp
qed

lemma NewLRULoader_covers: "lru_loader.covers (NewLRULoader n opts) Map.empty"
  by (simp add: lru_loader.covers_def NewLRULoader_def NewLoader_def Let_def NewLRU_ok)

text \<open>C19. A loader over the least-recently-used cache never serves a stale answer: for every order in which looks,
  finished flights and calls of \<open>Forget\<close> can come, the run does not fail, and a hit at time \<open>now\<close> is the
  result (value or error) of the last kept load of that key, not forgotten since, and was written less than its
  time to live ago; an error is served only if errors have a positive time to live.\<close>

theorem Loader_fresh:
  assumes "l = NewLRULoader n opts"
  shows "\<exists>rs l'. load_run LRU_Get (\<lambda>k v c. Some (LRU_Set k v c)) LRU_Delete es l = Some (rs, l') \<and> length rs = length es
    \<and> (\<forall>xs key now ys v err. es = xs @ EvPeek key now # ys \<and> rs ! length xs = Some (v, err) \<longrightarrow>
         (\<exists>t0. fold (last_load (ttl_for l)) xs Map.empty key = Some (v, err, t0) \<and> now < t0 + ttl_for l err \<and> 0 < ttl_for l err))"
proof -
  have cov: "lru_loader.covers l Map.empty" using assms NewLRULoader_covers by simp
  from lru_loader.run_covers [OF cov, of es] obtain rs l'
    where run: "load_run LRU_Get (\<lambda>k v c. Some (LRU_Set k v c)) LRU_Delete es l = Some (rs, l')" and len: "length rs = length es" by blast
  have "\<exists>t0. fold (last_load (ttl_for l)) xs Map.empty key = Some (v, err, t0) \<and> now < t0 + ttl_for l err \<and> 0 < ttl_for l err"
    if es: "es = xs @ EvPeek key now # ys" and hit: "rs ! length xs = Some (v, err)" for xs key now ys v err
  proof -
    obtain t0 where t0: "fold (last_load (ttl_for l)) xs Map.empty key = Some (v, err, t0)" "now < t0 + ttl_for l err"
      using lru_loader.hits_fresh [OF cov run [unfolded es] hit] by blast
    then show ?thesis using last_load_pos [OF t0(1)] by blast
  qed
  then show ?thesis using run len by blast
qed

theorem Loader_fresh_witness:
  "\<exists>rs l'. load_run LRU_Get (\<lambda>k v c. Some (LRU_Set k v c)) LRU_Delete [EvStore ''a'' (7::int) None 100, EvPeek ''a'' 120]
      (NewLRULoader 2 [WithTTL 50]) = Some (rs, l')
    \<and> rs ! 1 = Some (7, None) \<and> fold (last_load (ttl_for (NewLRULoader 2 [WithTTL 50] :: (string, int cache_item) LRU Loader))) [EvStore ''a'' 7 None 100] Map.empty ''a'' = Some (7, None, 100)"
proof -
  let ?es = "[EvStore ''a'' (7::int) None 100, EvPeek ''a'' 120]" and ?l = "NewLRULoader 2 [WithTTL 50] :: (string, int cache_item) LRU Loader"
  from Loader_fresh [OF refl, of ?es 2 "[WithTTL 50]"] obtain rs l'
    where run: "load_run LRU_Get (\<lambda>k v c. Some (LRU_Set k v c)) LRU_Delete ?es ?l = Some (rs, l')"
      and fresh: "\<forall>xs key now ys v err. ?es = xs @ EvPeek key now # ys \<and> rs ! length xs = Some (v, err) \<longrightarrow>
         (\<exists>t0. fold (last_load (ttl_for ?l)) xs Map.empty key = Some (v, err, t0) \<and> now < t0 + ttl_for ?l err \<and> 0 < ttl_for ?l err)" by blast
  have "map_option (\<lambda>(rs, l). rs ! 1) (load_run LRU_Get (\<lambda>k v c. Some (LRU_Set k v c)) LRU_Delete ?es ?l) = Some (Some (7, None))" by code_simp
  then have hit: "rs ! 1 = Some (7, None)" using run by simp
  with fresh [rule_format, of "[EvStore ''a'' 7 None 100]" "''a''" 120 "[]" 7 None] obtain t0
    where "fold (last_load (ttl_for ?l)) [EvStore ''a'' 7 None 100] Map.empty ''a'' = Some (7, None, t0)" by auto
  then have "fold (last_load (ttl_for ?l)) [EvStore ''a'' 7 None 100] Map.empty ''a'' = Some (7, None, 100)" by (auto split: if_splits)
  then show ?thesis using run hit by blast
qed

text \<open>A flight that was under way when \<open>Forget\<close> was called writes its result afterwards, so the next \<open>Get\<close> is served from
  before the call instead of loading again.\<close>

lemma Loader_forget_race:
  "map_option fst (load_run LRU_Get (\<lambda>k v c. Some (LRU_Set k v c)) LRU_Delete [EvPeek ''a'' 0, EvForget ''a'', EvStore ''a'' (''old'' :: string) None 1, EvPeek ''a'' 2]
      (NewLRULoader 4 []))
   = Some [None, None, None, Some (''old'', None)]"
  by code_simp

text \<open>A call of \<open>Get\<close> that meets no other: it loads when the entry is missing, and until the entry expires the
  next calls answer the same without loading.\<close>

lemma Loader_Get_loads:
  assumes "l = NewLRULoader n opts"
  shows "\<exists>l'. Loader_Get LRU_Get (\<lambda>k v c. Some (LRU_Set k v c)) load key t1 t2 t3 l = Some (load key, l')
    \<and> (t1' < t3 + ttl_for l (snd (load key)) \<and> 0 < ttl_for l (snd (load key)) \<longrightarrow>
        (\<exists>l''. Loader_Get LRU_Get (\<lambda>k v c. Some (LRU_Set k v c)) load' key t1' t2' t3' l' = Some (load key, l'')))"
proof -
  obtain v err where ld: "load key = (v, err)" by fastforce
  have ttl: "ttl_for l err = (if err \<noteq> None then ld_negTTL l else ld_ttl l)" by (simp add: ttl_for_def)
  have c: "ld_c l = NewLRU n" using assms by (simp add: NewLRULoader_def NewLoader_def Let_def)
  have miss: "Loader_peek LRU_Get key t l = (None, l)" for t by (cases l) (use c in \<open>simp add: Loader_peek_def LRU_Get_def NewLRU_def\<close>)
  then have get: "Loader_Get LRU_Get (\<lambda>k v c. Some (LRU_Set k v c)) load key t1 t2 t3 l
      = map_option (\<lambda>l3. ((v, err), l3)) (Loader_store (\<lambda>k v c. Some (LRU_Set k v c)) key v err t3 l)"
    by (simp add: Loader_Get_def ld)
  show ?thesis
  proof (cases "0 < ttl_for l err")
    case False
    then show ?thesis using get ttl ld by (simp add: Loader_store_def Let_def)
  next
    case True
    let ?it = "\<lparr>ci_val = v, ci_err = err, ci_exp = t3 + ttl_for l err\<rparr>"
    let ?l = "l\<lparr>ld_c := LRU_Set key ?it (ld_c l)\<rparr>"
    have st: "Loader_store (\<lambda>k v c. Some (LRU_Set k v c)) key v err t3 l = Some ?l" using True ttl by (simp add: Loader_store_def Let_def)
    have "lru_inv (ld_c l)" using c NewLRU_ok(1) [of n] by simp
    from lru.c_put [OF this, of key ?it] lru.get_ok [of "LRU_Set key ?it (ld_c l)" key]
    have "fst (LRU_Get key (LRU_Set key ?it (ld_c l))) = Some ?it" by auto
    then have "fst (Loader_peek LRU_Get key t1' ?l) = Some (v, err)" if "t1' < t3 + ttl_for l err"
      using that by (simp add: Loader_peek_def case_prod_unfold Let_def)
    then have "\<exists>l''. Loader_Get LRU_Get (\<lambda>k v c. Some (LRU_Set k v c)) load' key t1' t2' t3' ?l = Some ((v, err), l'')"
      if "t1' < t3 + ttl_for l err"
      using that by (cases "Loader_peek LRU_Get key t1' ?l") (simp add: Loader_Get_def)
    then show ?thesis using get st ld by simp
  qed
qed

end
