(* ===== verification/Leaderboard.thy ===== *)
theory Leaderboard
  imports Priority
begin

text \<open>
  \<open>pkg/game/leaderboard\<close>: the in-memory ranking of several boards. An entry keeps its records in a \<open>container/heap\<close> (the sift
  loops of \<open>Priority\<close>) and an index from owners to positions that is rebuilt after every change. The rank of
  an owner is counted, the ordered views sort a copy; \<open>sort.Slice\<close> is an argument, since it may order equal records
  either way. An index out of range and a negative capacity are run-time panics (\<open>None\<close>).
\<close>

section \<open>The heap of records\<close>

datatype SortOrder = SortAscending | SortDescending

record board_item =
  bi_ownerID :: string
  bi_score :: int
  bi_subscore :: int

definition itemHeap_Less :: "SortOrder \<Rightarrow> board_item \<Rightarrow> board_item \<Rightarrow> bool" where
  "itemHeap_Less order a b \<longleftrightarrow>
     (if order = SortAscending
      then (if bi_score a \<noteq> bi_score b then bi_score a < bi_score b else bi_subscore a < bi_subscore b)
      else (if bi_score a \<noteq> bi_score b then bi_score b < bi_score a else bi_subscore b < bi_subscore a))"

definition board_heap_Init :: "('a \<Rightarrow> 'a \<Rightarrow> bool) \<Rightarrow> 'a list \<Rightarrow> 'a list" where
  "board_heap_Init lt xs = (let n = length xs in fold (\<lambda>i ys. fst (pq_down lt ys i n)) (rev [0..<n div 2]) xs)"

definition board_heap_Push :: "('a \<Rightarrow> 'a \<Rightarrow> bool) \<Rightarrow> 'a \<Rightarrow> 'a list \<Rightarrow> 'a list" where
  "board_heap_Push lt x xs = pq_up lt (xs @ [x]) (length xs)"

definition board_heap_Fix :: "('a \<Rightarrow> 'a \<Rightarrow> bool) \<Rightarrow> nat \<Rightarrow> 'a list \<Rightarrow> 'a list" where
  "board_heap_Fix lt i xs = (case pq_down lt xs i (length xs) of (ys, i') \<Rightarrow> if i < i' then ys else pq_up lt ys i)"

definition board_heap_Remove :: "('a \<Rightarrow> 'a \<Rightarrow> bool) \<Rightarrow> nat \<Rightarrow> 'a list \<Rightarrow> 'a list option" where
  "board_heap_Remove lt i xs =
     (if length xs \<le> i then None
      else let n = length xs - 1;
               ys = (if n \<noteq> i
                     then (case pq_down lt (pq_swap xs i n) i n of (ys, i') \<Rightarrow> if i < i' then ys else pq_up lt ys i)
                     else xs)
           in Some (take n ys))"

section \<open>The rankings\<close>

record rankEntry =
  re_order :: SortOrder
  re_byOwner :: "string \<rightharpoonup> nat"
  re_items :: "board_item list"

record RankCache =
  rc_caches :: "string \<rightharpoonup> rankEntry"
  rc_blacklist :: "string set"
  rc_blacklistAll :: bool

definition RankCache_New :: "string list \<Rightarrow> RankCache" where
  "RankCache_New blacklist =
     (if length blacklist = 1 \<and> blacklist ! 0 = ''*''
      then \<lparr>rc_caches = Map.empty, rc_blacklist = {}, rc_blacklistAll = True\<rparr>
      else \<lparr>rc_caches = Map.empty, rc_blacklist = set blacklist, rc_blacklistAll = False\<rparr>)"

definition cacheKey :: "string \<Rightarrow> int \<Rightarrow> string" where
  "cacheKey leaderboardID expiry = leaderboardID @ ''/'' @ FormatInt expiry"

text \<open>The loop that writes the position of every record into the index.\<close>

definition index_from :: "board_item list \<Rightarrow> (string \<rightharpoonup> nat) \<Rightarrow> string \<rightharpoonup> nat" where
  "index_from items m = fold (\<lambda>i m. m(bi_ownerID (items ! i) \<mapsto> i)) [0..<length items] m"

definition board_blocked :: "string \<Rightarrow> bool \<Rightarrow> RankCache \<Rightarrow> bool" where
  "board_blocked leaderboardID enable r \<longleftrightarrow> \<not> enable \<or> rc_blacklistAll r \<or> leaderboardID \<in> rc_blacklist r"

definition RankCache_Fill :: "string \<Rightarrow> int \<Rightarrow> SortOrder \<Rightarrow> board_item list \<Rightarrow> bool \<Rightarrow> RankCache \<Rightarrow> int \<times> RankCache" where
  "RankCache_Fill leaderboardID expiry order records enable r =
     (if board_blocked leaderboardID enable r then (0, r)
      else let byOwner = index_from records Map.empty;
               items = board_heap_Init (itemHeap_Less order) records;
               e = \<lparr>re_order = order, re_byOwner = index_from items byOwner, re_items = items\<rparr>
           in (int (length records), r\<lparr>rc_caches := (rc_caches r)(cacheKey leaderboardID expiry \<mapsto> e)\<rparr>))"

definition rankLocked :: "rankEntry \<Rightarrow> string \<Rightarrow> int option" where
  "rankLocked e ownerID =
     (case re_byOwner e ownerID of
        None \<Rightarrow> Some (-1)
      | Some idx \<Rightarrow>
          if length (re_items e) \<le> idx then None
          else let target = re_items e ! idx
               in Some (1 + int (length (filter (\<lambda>it. bi_ownerID it \<noteq> ownerID \<and>
                     (if re_order e = SortAscending
                      then bi_score it < bi_score target \<or> bi_score it = bi_score target \<and> bi_subscore it < bi_subscore target
                      else bi_score target < bi_score it \<or> bi_score it = bi_score target \<and> bi_subscore target < bi_subscore it)) (re_items e)))))"

definition RankCache_Insert :: "string \<Rightarrow> int \<Rightarrow> SortOrder \<Rightarrow> board_item \<Rightarrow> bool \<Rightarrow> RankCache \<Rightarrow> (int \<times> RankCache) option" where
  "RankCache_Insert leaderboardID expiry order rec enable r =
     (if board_blocked leaderboardID enable r then Some (-1, r)
      else let key = cacheKey leaderboardID expiry;
               e = (case rc_caches r key of Some e \<Rightarrow> e | None \<Rightarrow> \<lparr>re_order = order, re_byOwner = Map.empty, re_items = []\<rparr>);
               items = (case re_byOwner e (bi_ownerID rec) of
                          Some idx \<Rightarrow> if length (re_items e) \<le> idx then None
                                      else Some (board_heap_Fix (itemHeap_Less (re_order e)) idx ((re_items e)[idx := rec]))
                        | None \<Rightarrow> Some (board_heap_Push (itemHeap_Less (re_order e)) rec (re_items e)))
           in case items of
                None \<Rightarrow> None
              | Some xs \<Rightarrow>
                  let e' = e\<lparr>re_items := xs, re_byOwner := index_from xs (re_byOwner e)\<rparr>
                  in map_option (\<lambda>rank. (rank, r\<lparr>rc_caches := (rc_caches r)(key \<mapsto> e')\<rparr>)) (rankLocked e' (bi_ownerID rec)))"

definition RankCache_Delete :: "string \<Rightarrow> int \<Rightarrow> string \<Rightarrow> RankCache \<Rightarrow> (bool \<times> RankCache) option" where
  "RankCache_Delete leaderboardID expiry ownerID r =
     (let key = cacheKey leaderboardID expiry
      in case rc_caches r key of
           None \<Rightarrow> Some (False, r)
         | Some e \<Rightarrow>
             (case re_byOwner e ownerID of
                None \<Rightarrow> Some (False, r)
              | Some idx \<Rightarrow>
                  map_option (\<lambda>xs. (True, r\<lparr>rc_caches := (rc_caches r)(key \<mapsto>
                      e\<lparr>re_items := xs, re_byOwner := index_from xs ((re_byOwner e)(ownerID := None))\<rparr>)\<rparr>))
                    (board_heap_Remove (itemHeap_Less (re_order e)) idx (re_items e))))"

definition RankCache_Get :: "string \<Rightarrow> int \<Rightarrow> string \<Rightarrow> RankCache \<Rightarrow> int option" where
  "RankCache_Get leaderboardID expiry ownerID r =
     (case rc_caches r (cacheKey leaderboardID expiry) of None \<Rightarrow> Some (-1) | Some e \<Rightarrow> rankLocked e ownerID)"

text \<open>A sorted copy; the comparison is that of the heap.\<close>

type_synonym slice_sort = "(board_item \<Rightarrow> board_item \<Rightarrow> bool) \<Rightarrow> board_item list \<Rightarrow> board_item list"

definition RankCache_GetByRank :: "slice_sort \<Rightarrow> string \<Rightarrow> int \<Rightarrow> int \<Rightarrow> RankCache \<Rightarrow> board_item option" where
  "RankCache_GetByRank srt leaderboardID expiry rank r =
     (case rc_caches r (cacheKey leaderboardID expiry) of
        None \<Rightarrow> None
      | Some e \<Rightarrow> if rank < 1 \<or> int (length (re_items e)) < rank then None
                  else Some (srt (itemHeap_Less (re_order e)) (re_items e) ! nat (rank - 1)))"

definition RankCache_TopN :: "slice_sort \<Rightarrow> string \<Rightarrow> int \<Rightarrow> int \<Rightarrow> RankCache \<Rightarrow> board_item list" where
  "RankCache_TopN srt leaderboardID expiry n r =
     (case rc_caches r (cacheKey leaderboardID expiry) of
        None \<Rightarrow> []
      | Some e \<Rightarrow> if n \<le> 0 then [] else take (nat n) (srt (itemHeap_Less (re_order e)) (re_items e)))"

definition RankCache_Around :: "slice_sort \<Rightarrow> string \<Rightarrow> int \<Rightarrow> string \<Rightarrow> int \<Rightarrow> RankCache \<Rightarrow> board_item list option" where
  "RankCache_Around srt leaderboardID expiry ownerID around r =
     (case rc_caches r (cacheKey leaderboardID expiry) of
        None \<Rightarrow> Some []
      | Some e \<Rightarrow>
          (case rankLocked e ownerID of
             None \<Rightarrow> None
           | Some myRank \<Rightarrow>
               if myRank < 1 then Some []
               else let start = max (wrap64 (myRank - around)) 1;
                        end = min (wrap64 (myRank + around)) (int (length (re_items e)));
                        sorted = srt (itemHeap_Less (re_order e)) (re_items e)
                    in if wrap64 (end - start + 1) < 0 then None
                       else Some (map (\<lambda>i. sorted ! i) [nat (start - 1)..<nat end])))"

definition RankCache_Size :: "string \<Rightarrow> int \<Rightarrow> RankCache \<Rightarrow> int" where
  "RankCache_Size leaderboardID expiry r =
     (case rc_caches r (cacheKey leaderboardID expiry) of None \<Rightarrow> 0 | Some e \<Rightarrow> int (length (re_items e)))"

definition RankCache_DeleteLeaderboard :: "string \<Rightarrow> int \<Rightarrow> RankCache \<Rightarrow> bool \<times> RankCache" where
  "RankCache_DeleteLeaderboard leaderboardID expiry r =
     (let key = cacheKey leaderboardID expiry
      in case rc_caches r key of
           Some _ \<Rightarrow> (True, r\<lparr>rc_caches := (rc_caches r)(key := None)\<rparr>)
         | None \<Rightarrow> (False, r))"

section \<open>The heap keeps the records\<close>

lemma pq_down_keeps: "length (fst (pq_down lt xs i (length xs))) = length xs \<and> mset (fst (pq_down lt xs i (length xs))) = mset xs"
  using pq_down_facts [of "length xs" xs lt i] by simp

lemma heap_Init_mset: "mset (board_heap_Init lt xs) = mset xs"
proof -
  have "mset (fold (\<lambda>i ys. fst (pq_down lt ys i n)) is ys) = mset ys" if "length ys = n" for n ys and "is" :: "nat list"
    using that
  proof (induction "is" arbitrary: ys)
    case (Cons i js)
    from pq_down_keeps [of lt ys i] Cons show ?case by simp
  qed simp
  then show ?thesis by (simp add: board_heap_Init_def Let_def)
qed

lemma heap_Push_mset: "mset (board_heap_Push lt x xs) = add_mset x (mset xs)"
  by (simp add: board_heap_Push_def pq_up_mset)

lemma heap_Fix_mset: "i < length xs \<Longrightarrow> mset (board_heap_Fix lt i xs) = mset xs"
  using pq_down_keeps [of lt xs i] by (auto simp: board_heap_Fix_def case_prod_unfold pq_up_mset)

interpretation board: heap_order "itemHeap_Less order" for order
  by unfold_locales (auto simp: itemHeap_Less_def split: if_splits)

lemma heap_Remove_mset:
  assumes lt: "lt = itemHeap_Less order" and i: "i < length xs"
  shows "\<exists>ys. board_heap_Remove lt i xs = Some ys \<and> mset xs = add_mset (xs ! i) (mset ys)"
proof -
  obtain n where n: "length xs = Suc n" using i by (cases "length xs") auto
  define ys where "ys = (if n \<noteq> i then (case pq_down lt (pq_swap xs i n) i n of (ys, i') \<Rightarrow> if i < i' then ys else pq_up lt ys i) else xs)"
  have rm: "board_heap_Remove lt i xs = Some (take n ys)" using i n by (simp add: board_heap_Remove_def ys_def Let_def)
  have "length ys = Suc n \<and> mset ys = mset xs \<and> ys ! n = xs ! i"
  proof (cases "n = i")
    case True
    then show ?thesis using n by (simp add: ys_def)
  next
    case False
    then have less: "i < n" using i n by simp
    let ?z = "fst (pq_down lt (pq_swap xs i n) i n)"
    have z: "length ?z = Suc n" "mset ?z = mset xs" "?z ! n = xs ! i"
      using pq_down_facts [of n "pq_swap xs i n" lt i] n less by (simp_all add: nth_pq_swap)
    have "ys = ?z \<or> ys = pq_up lt ?z i" using False by (auto simp: ys_def case_prod_unfold)
    then show ?thesis using z less by (auto simp: pq_up_mset board.pq_up_above lt)
  qed
  then have "mset xs = add_mset (xs ! i) (mset (take n ys))"
    by (metis add_mset_add_single lessI mset.simps(1) mset.simps(2) mset_append take_Suc_conv_app_nth take_all_iff order_refl)
  then show ?thesis using rm by blast
qed

section \<open>The index\<close>

text \<open>Every owner of a record has the position of one of his records, and nobody else has any.\<close>

definition index_ok :: "rankEntry \<Rightarrow> bool" where
  "index_ok e \<longleftrightarrow> (\<forall>ow i. re_byOwner e ow = Some i \<longrightarrow> i < length (re_items e) \<and> bi_ownerID (re_items e ! i) = ow)
     \<and> dom (re_byOwner e) = bi_ownerID ` set (re_items e)"

lemma index_fold_Some:
  "fold (\<lambda>i m. m(bi_ownerID (xs ! i) \<mapsto> i)) [0..<n] m ow = Some i \<Longrightarrow>
     i < n \<and> bi_ownerID (xs ! i) = ow \<or> m ow = Some i \<and> (\<forall>j<n. bi_ownerID (xs ! j) \<noteq> ow)"
  by (induction n) (auto simp: less_Suc_eq split: if_splits)

lemma index_fold_dom: "dom (fold (\<lambda>i m. m(bi_ownerID (xs ! i) \<mapsto> i)) [0..<n] m) = dom m \<union> (\<lambda>i. bi_ownerID (xs ! i)) ` {..<n}"
  by (induction n) (simp_all add: lessThan_Suc insert_commute Un_insert_right del: fun_upd_apply)

lemma owners_nth: "bi_ownerID ` set xs = (\<lambda>i. bi_ownerID (xs ! i)) ` {..<length xs}"
  by (auto simp: in_set_conv_nth intro!: imageI)

lemma index_from_Some:
  assumes "dom m \<subseteq> bi_ownerID ` set xs"
  shows "index_from xs m ow = Some i \<Longrightarrow> i < length xs \<and> bi_ownerID (xs ! i) = ow"
    and "dom (index_from xs m) = bi_ownerID ` set xs"
proof -
  show "dom (index_from xs m) = bi_ownerID ` set xs" using assms unfolding index_from_def index_fold_dom owners_nth by blast
  assume "index_from xs m ow = Some i"
  then have "i < length xs \<and> bi_ownerID (xs ! i) = ow \<or> m ow = Some i \<and> (\<forall>j<length xs. bi_ownerID (xs ! j) \<noteq> ow)"
    unfolding index_from_def by (rule index_fold_Some)
  then show "i < length xs \<and> bi_ownerID (xs ! i) = ow" using assms unfolding owners_nth by blast
qed

lemma index_from_ok:
  assumes "dom m \<subseteq> bi_ownerID ` set xs"
  shows "index_ok \<lparr>re_order = order, re_byOwner = index_from xs m, re_items = xs\<rparr>"
  using index_from_Some [OF assms] by (simp add: index_ok_def)

section \<open>The abstract ranking\<close>

text \<open>A board as a map from owners to scores.\<close>

definition board_of :: "rankEntry \<Rightarrow> string \<rightharpoonup> int \<times> int" where
  "board_of e = map_of (map (\<lambda>it. (bi_ownerID it, bi_score it, bi_subscore it)) (re_items e))"

fun better :: "SortOrder \<Rightarrow> int \<times> int \<Rightarrow> int \<times> int \<Rightarrow> bool" where
  "better SortAscending (s, t) (s', t') \<longleftrightarrow> s < s' \<or> s = s' \<and> t < t'"
| "better SortDescending (s, t) (s', t') \<longleftrightarrow> s' < s \<or> s = s' \<and> t' < t"

text \<open>One more than the number of owners with a strictly better score; \<open>-1\<close> for those who are not on the board.\<close>

definition spec_rank :: "SortOrder \<Rightarrow> (string \<rightharpoonup> int \<times> int) \<Rightarrow> string \<Rightarrow> int" where
  "spec_rank order m ow = (case m ow of None \<Rightarrow> -1 | Some x \<Rightarrow> 1 + int (card {ow'. \<exists>y. m ow' = Some y \<and> better order y x}))"

definition entry_ok :: "rankEntry \<Rightarrow> bool" where
  "entry_ok e \<longleftrightarrow> index_ok e \<and> distinct (map bi_ownerID (re_items e))"

lemma better_Less: "better order (bi_score a, bi_subscore a) (bi_score b, bi_subscore b) \<longleftrightarrow> itemHeap_Less order a b"
  by (cases order) (auto simp: itemHeap_Less_def)

lemma entry_board:
  assumes "distinct (map bi_ownerID (re_items e))"
  shows "board_of e ow = Some x \<longleftrightarrow> (\<exists>it\<in>set (re_items e). bi_ownerID it = ow \<and> x = (bi_score it, bi_subscore it))"
proof -
  have "distinct (map fst (map (\<lambda>it. (bi_ownerID it, bi_score it, bi_subscore it)) (re_items e)))" using assms by (simp add: comp_def)
  from map_of_eq_Some_iff [OF this] show ?thesis unfolding board_of_def by auto
qed

lemma board_dom: "dom (board_of e) = bi_ownerID ` set (re_items e)"
  by (simp add: board_of_def dom_map_of_conv_image_fst image_image)

lemma rankLocked_ok:
  assumes ok: "entry_ok e"
  shows "rankLocked e ow = Some (spec_rank (re_order e) (board_of e) ow)"
proof (cases "re_byOwner e ow")
  case None
  then have "ow \<notin> dom (board_of e)" using ok by (auto simp: entry_ok_def index_ok_def board_dom simp flip: board_dom)
  then have "board_of e ow = None" by blast
  then show ?thesis using None by (simp add: rankLocked_def spec_rank_def)
next
  case (Some idx)
  have d: "distinct (map bi_ownerID (re_items e))" using ok by (simp add: entry_ok_def)
  let ?t = "re_items e ! idx" and ?lt = "itemHeap_Less (re_order e)"
  have t: "idx < length (re_items e)" "bi_ownerID ?t = ow" using Some ok by (auto simp: entry_ok_def index_ok_def)
  have b: "board_of e ow = Some (bi_score ?t, bi_subscore ?t)" using entry_board [OF d] t by (auto intro: nth_mem)
  let ?F = "filter (\<lambda>it. ?lt it ?t) (re_items e)"
  have irr: "bi_ownerID it \<noteq> ow" if "it \<in> set (re_items e)" "?lt it ?t" for it
  proof
    assume "bi_ownerID it = ow"
    then have "it = ?t" using inj_onD [of bi_ownerID "set (re_items e)" it ?t] d t that(1) by (simp add: distinct_map)
    then show False using that(2) board.lt_asym by blast
  qed
  have less: "(if re_order e = SortAscending
           then bi_score it < bi_score ?t \<or> bi_score it = bi_score ?t \<and> bi_subscore it < bi_subscore ?t
           else bi_score ?t < bi_score it \<or> bi_score it = bi_score ?t \<and> bi_subscore ?t < bi_subscore it) \<longleftrightarrow> ?lt it ?t" for it
    by (auto simp: itemHeap_Less_def)
  have "filter (\<lambda>it. bi_ownerID it \<noteq> ow \<and>
          (if re_order e = SortAscending
           then bi_score it < bi_score ?t \<or> bi_score it = bi_score ?t \<and> bi_subscore it < bi_subscore ?t
           else bi_score ?t < bi_score it \<or> bi_score it = bi_score ?t \<and> bi_subscore ?t < bi_subscore it)) (re_items e) = ?F"
    unfolding less using irr by (intro filter_cong) auto
  then have "rankLocked e ow = Some (1 + int (length ?F))" using Some t by (simp add: rankLocked_def Let_def)
  moreover have "length ?F = card {ow'. \<exists>y. board_of e ow' = Some y \<and> better (re_order e) y (bi_score ?t, bi_subscore ?t)}"
  proof -
    have "{ow'. \<exists>y. board_of e ow' = Some y \<and> better (re_order e) y (bi_score ?t, bi_subscore ?t)} = set (map bi_ownerID ?F)"
      unfolding entry_board [OF d] set_map set_filter better_Less [symmetric] by blast
    moreover have "distinct (map bi_ownerID ?F)" using d by (rule distinct_map_filter)
    ultimately show ?thesis using distinct_card [of "map bi_ownerID ?F"] by simp
  qed
  ultimately show ?thesis using b by (simp add: spec_rank_def)
qed

section \<open>The operations on one board\<close>

definition score_of :: "board_item \<Rightarrow> int \<times> int" where
  "score_of it = (bi_score it, bi_subscore it)"

text \<open>A board is determined by the set of its records.\<close>

lemma board_eqI:
  assumes "distinct (map bi_ownerID (re_items e))"
    and "\<And>ow x. m ow = Some x \<longleftrightarrow> (\<exists>it\<in>set (re_items e). bi_ownerID it = ow \<and> x = score_of it)"
  shows "board_of e = m"
proof
  fix ow
  have "board_of e ow = Some x \<longleftrightarrow> m ow = Some x" for x using entry_board [OF assms(1), of ow x] assms(2) [of ow x] by (simp add: score_of_def)
  then show "board_of e ow = m ow" by (metis not_Some_eq)
qed

lemma distinct_owners_mset: "mset xs = mset ys \<Longrightarrow> distinct (map bi_ownerID xs) \<longleftrightarrow> distinct (map bi_ownerID ys)"
  by (metis mset_eq_imp_distinct_iff mset_map)

lemma entry_Fill:
  assumes "distinct (map bi_ownerID records)"
    and e: "e = \<lparr>re_order = order, re_byOwner = index_from (board_heap_Init lt records) (index_from records Map.empty), re_items = board_heap_Init lt records\<rparr>"
  shows "entry_ok e" "board_of e = map_of (map (\<lambda>it. (bi_ownerID it, score_of it)) records)" "length (re_items e) = length records"
proof -
  let ?xs = "board_heap_Init lt records"
  have m: "mset ?xs = mset records" by (rule heap_Init_mset)
  then show "length (re_items e) = length records" using mset_eq_length by (auto simp: e)
  have d: "distinct (map bi_ownerID ?xs)" using assms(1) distinct_owners_mset [OF m] by simp
  have "dom (index_from records Map.empty) = bi_ownerID ` set ?xs" using index_from_Some(2) [of Map.empty records] mset_eq_setD [OF m] by simp
  then show "entry_ok e" using d index_from_ok by (simp add: entry_ok_def e)
  have "distinct (map fst (map (\<lambda>it. (bi_ownerID it, score_of it)) records))" using assms(1) by (simp add: comp_def)
  from map_of_eq_Some_iff [OF this] show "board_of e = map_of (map (\<lambda>it. (bi_ownerID it, score_of it)) records)"
    using d mset_eq_setD [OF m] by (intro board_eqI) (auto simp: e)
qed

lemma entry_Update:
  assumes ok: "entry_ok e" and idx: "re_byOwner e (bi_ownerID rec) = Some i"
    and xs: "xs = board_heap_Fix lt i ((re_items e)[i := rec])" and e': "e' = e\<lparr>re_items := xs, re_byOwner := index_from xs (re_byOwner e)\<rparr>"
  shows "entry_ok e'" "board_of e' = (board_of e)(bi_ownerID rec \<mapsto> score_of rec)" "i < length (re_items e)" "length xs = length (re_items e)"
proof -
  have d: "distinct (map bi_ownerID (re_items e))" and ix: "index_ok e" using ok by (simp_all add: entry_ok_def)
  show i: "i < length (re_items e)" using idx ix by (simp add: index_ok_def)
  have own: "bi_ownerID (re_items e ! i) = bi_ownerID rec" using idx ix by (simp add: index_ok_def)
  have m: "mset xs = mset ((re_items e)[i := rec])" using i by (simp add: xs heap_Fix_mset)
  then show "length xs = length (re_items e)" using mset_eq_length [OF m] by simp
  have same: "map bi_ownerID ((re_items e)[i := rec]) = map bi_ownerID (re_items e)"
    using own by (metis list_update_id map_update)
  have dx: "distinct (map bi_ownerID xs)" using d distinct_owners_mset [OF m] same by simp
  have ow: "bi_ownerID ` set xs = bi_ownerID ` set (re_items e)" using arg_cong [OF same, of set] mset_eq_setD [OF m] by simp
  then have "dom (re_byOwner e) \<subseteq> bi_ownerID ` set xs" using ix by (simp add: index_ok_def)
  then show "entry_ok e'" using dx index_from_ok [of "re_byOwner e" xs "re_order e"] by (simp add: entry_ok_def e' index_ok_def)
  have set: "set xs = insert rec (set (re_items e) - {re_items e ! i})"
    using mset_eq_setD [OF m] set_update_distinct [OF _ i] d by (simp add: distinct_map)
  have other: "bi_ownerID it \<noteq> bi_ownerID rec" if "it \<in> set (re_items e)" "it \<noteq> re_items e ! i" for it
    using d i own that by (metis distinct_map inj_onD nth_mem)
  have "((board_of e)(bi_ownerID rec \<mapsto> score_of rec)) ow = Some x \<longleftrightarrow> (\<exists>it\<in>set (re_items e'). bi_ownerID it = ow \<and> x = score_of it)" for ow x
    using entry_board [OF d, of ow x] own other by (cases "ow = bi_ownerID rec") (auto simp: e' set score_of_def)
  then show "board_of e' = (board_of e)(bi_ownerID rec \<mapsto> score_of rec)" using dx by (intro board_eqI) (simp_all add: e')
qed

lemma entry_Push:
  assumes ok: "entry_ok e" and idx: "re_byOwner e (bi_ownerID rec) = None"
    and xs: "xs = board_heap_Push lt rec (re_items e)" and e': "e' = e\<lparr>re_items := xs, re_byOwner := index_from xs (re_byOwner e)\<rparr>"
  shows "entry_ok e'" "board_of e' = (board_of e)(bi_ownerID rec \<mapsto> score_of rec)" "length xs = Suc (length (re_items e))"
proof -
  have d: "distinct (map bi_ownerID (re_items e))" and ix: "index_ok e" using ok by (simp_all add: entry_ok_def)
  have new: "bi_ownerID rec \<notin> bi_ownerID ` set (re_items e)" using idx ix unfolding index_ok_def by (metis domIff)
  have other: "bi_ownerID it \<noteq> bi_ownerID rec" if "it \<in> set (re_items e)" for it using new imageI [OF that, of bi_ownerID] by auto
  have m: "mset xs = mset (rec # re_items e)" by (simp add: xs heap_Push_mset)
  then show "length xs = Suc (length (re_items e))" using mset_eq_length [OF m] by simp
  have dx: "distinct (map bi_ownerID xs)" using d new distinct_owners_mset [OF m] by simp
  have set: "set xs = insert rec (set (re_items e))" using mset_eq_setD [OF m] by simp
  then have "dom (re_byOwner e) \<subseteq> bi_ownerID ` set xs" using ix by (auto simp: index_ok_def)
  then show "entry_ok e'" using dx index_from_ok [of "re_byOwner e" xs "re_order e"] by (simp add: entry_ok_def e' index_ok_def)
  have "((board_of e)(bi_ownerID rec \<mapsto> score_of rec)) ow = Some x \<longleftrightarrow> (\<exists>it\<in>set (re_items e'). bi_ownerID it = ow \<and> x = score_of it)" for ow x
    using entry_board [OF d, of ow x] other by (cases "ow = bi_ownerID rec") (auto simp: e' set score_of_def)
  then show "board_of e' = (board_of e)(bi_ownerID rec \<mapsto> score_of rec)" using dx by (intro board_eqI) (simp_all add: e')
qed

lemma entry_Remove:
  assumes ok: "entry_ok e" and idx: "re_byOwner e ow = Some i"
  shows "\<exists>xs. board_heap_Remove (itemHeap_Less (re_order e)) i (re_items e) = Some xs \<and> Suc (length xs) = length (re_items e)
    \<and> entry_ok (e\<lparr>re_items := xs, re_byOwner := index_from xs ((re_byOwner e)(ow := None))\<rparr>)
    \<and> board_of (e\<lparr>re_items := xs, re_byOwner := index_from xs ((re_byOwner e)(ow := None))\<rparr>) = (board_of e)(ow := None)"
proof -
  have d: "distinct (map bi_ownerID (re_items e))" and ix: "index_ok e" using ok by (simp_all add: entry_ok_def)
  have i: "i < length (re_items e)" "bi_ownerID (re_items e ! i) = ow" using idx ix by (simp_all add: index_ok_def)
  from heap_Remove_mset [OF refl i(1), of "re_order e"] obtain xs
    where rm: "board_heap_Remove (itemHeap_Less (re_order e)) i (re_items e) = Some xs" and m: "mset (re_items e) = mset (re_items e ! i # xs)" by auto
  have dd: "distinct (map bi_ownerID (re_items e ! i # xs))" using d distinct_owners_mset [OF m] by simp
  then have dx: "distinct (map bi_ownerID xs)" by simp
  have out: "bi_ownerID it \<noteq> ow" if "it \<in> set xs" for it using dd i(2) imageI [OF that, of bi_ownerID] by auto
  have set: "set (re_items e) = insert (re_items e ! i) (set xs)" using mset_eq_setD [OF m] by simp
  let ?e = "e\<lparr>re_items := xs, re_byOwner := index_from xs ((re_byOwner e)(ow := None))\<rparr>"
  have "dom ((re_byOwner e)(ow := None)) \<subseteq> bi_ownerID ` set xs" using ix i(2) by (auto simp: index_ok_def set)
  then have "entry_ok ?e" using dx index_from_ok [of "(re_byOwner e)(ow := None)" xs "re_order e"] by (simp add: entry_ok_def index_ok_def)
  moreover have "((board_of e)(ow := None)) ow' = Some x \<longleftrightarrow> (\<exists>it\<in>set (re_items ?e). bi_ownerID it = ow' \<and> x = score_of it)" for ow' x
    using entry_board [OF d, of ow' x] out i(2) by (auto simp: set score_of_def)
  then have "board_of ?e = (board_of e)(ow := None)" using dx by (intro board_eqI) simp_all
  ultimately show ?thesis using rm mset_eq_length [OF m] by simp
qed

section \<open>Histories\<close>

lemma FormatInt_no_slash: "CHR ''/'' \<notin> set (FormatInt a)"
proof -
  have d: "digit_char n \<noteq> CHR ''/''" if "n < 10" for n :: nat
    using that by (simp add: digit_char_def of_char_of flip: of_char_eq_iff [where 'a = nat])
  have "CHR ''/'' \<notin> set (show_nat n)" for n
  proof (induction n rule: less_induct)
    case (less n)
    then show ?case using d [of n] d [of "n mod 10"] by (auto simp: show_nat.simps [of n])
  qed
  then show ?thesis by (auto simp: FormatInt_def)
qed

lemma cacheKey_inj: "cacheKey a x = cacheKey b y \<longleftrightarrow> a = b \<and> x = y"
  using sep_append_inj [of a "CHR ''/''" "FormatInt x" b "FormatInt y"] FormatInt_no_slash FormatInt_inj by (auto simp: cacheKey_def)

datatype board_op =
    BFill string int SortOrder "board_item list" bool
  | BInsert string int SortOrder board_item bool
  | BDelete string int string
  | BGet string int string
  | BSize string int
  | BDrop string int

text \<open>One call with its answer; a truth value is one or zero.\<close>

primrec board_step :: "board_op \<Rightarrow> RankCache \<Rightarrow> (int \<times> RankCache) option" where
  "board_step (BFill lid ex order records enable) r = Some (RankCache_Fill lid ex order records enable r)"
| "board_step (BInsert lid ex order rec enable) r = RankCache_Insert lid ex order rec enable r"
| "board_step (BDelete lid ex ow) r = map_option (\<lambda>(b, r'). (of_bool b, r')) (RankCache_Delete lid ex ow r)"
| "board_step (BGet lid ex ow) r = map_option (\<lambda>n. (n, r)) (RankCache_Get lid ex ow r)"
| "board_step (BSize lid ex) r = Some (RankCache_Size lid ex r, r)"
| "board_step (BDrop lid ex) r = Some (map_prod of_bool id (RankCache_DeleteLeaderboard lid ex r))"

text \<open>The specification: boards are maps from owners to scores, kept per identifier and expiry.\<close>

type_synonym boards = "string \<times> int \<rightharpoonup> SortOrder \<times> (string \<rightharpoonup> int \<times> int)"

primrec spec_board :: "(string \<Rightarrow> bool \<Rightarrow> bool) \<Rightarrow> board_op \<Rightarrow> boards \<Rightarrow> int \<times> boards" where
  "spec_board blocked (BFill lid ex order records enable) S =
     (if blocked lid enable then (0, S)
      else (int (length records), S((lid, ex) \<mapsto> (order, map_of (map (\<lambda>it. (bi_ownerID it, score_of it)) records)))))"
| "spec_board blocked (BInsert lid ex order rec enable) S =
     (if blocked lid enable then (-1, S)
      else let (o', m) = (case S (lid, ex) of Some b \<Rightarrow> b | None \<Rightarrow> (order, Map.empty)); m' = m(bi_ownerID rec \<mapsto> score_of rec)
           in (spec_rank o' m' (bi_ownerID rec), S((lid, ex) \<mapsto> (o', m'))))"
| "spec_board blocked (BDelete lid ex ow) S =
     (case S (lid, ex) of
        None \<Rightarrow> (0, S)
      | Some (o', m) \<Rightarrow> if m ow = None then (0, S) else (1, S((lid, ex) \<mapsto> (o', m(ow := None)))))"
| "spec_board blocked (BGet lid ex ow) S = (case S (lid, ex) of None \<Rightarrow> -1 | Some (o', m) \<Rightarrow> spec_rank o' m ow, S)"
| "spec_board blocked (BSize lid ex) S = (case S (lid, ex) of None \<Rightarrow> 0 | Some (o', m) \<Rightarrow> int (card (dom m)), S)"
| "spec_board blocked (BDrop lid ex) S = (if S (lid, ex) = None then (0, S) else (1, S((lid, ex) := None)))"

definition boards_of :: "RankCache \<Rightarrow> boards" where
  "boards_of r = (\<lambda>(lid, ex). map_option (\<lambda>e. (re_order e, board_of e)) (rc_caches r (cacheKey lid ex)))"

definition ranks_ok :: "RankCache \<Rightarrow> bool" where
  "ranks_ok r \<longleftrightarrow> (\<forall>k e. rc_caches r k = Some e \<longrightarrow> entry_ok e)"

lemma boards_upd [simp]:
  "boards_of (r\<lparr>rc_caches := (rc_caches r)(cacheKey lid ex \<mapsto> e)\<rparr>) = (boards_of r)((lid, ex) \<mapsto> (re_order e, board_of e))"
  "boards_of (r\<lparr>rc_caches := (rc_caches r)(cacheKey lid ex := None)\<rparr>) = (boards_of r)((lid, ex) := None)"
  by (auto simp: boards_of_def fun_eq_iff cacheKey_inj)

lemma ranks_upd [simp]:
  "ranks_ok r \<Longrightarrow> entry_ok e \<Longrightarrow> ranks_ok (r\<lparr>rc_caches := (rc_caches r)(k \<mapsto> e)\<rparr>)"
  "ranks_ok r \<Longrightarrow> ranks_ok (r\<lparr>rc_caches := (rc_caches r)(k := None)\<rparr>)"
  by (auto simp: ranks_ok_def)

lemma entry_size: "entry_ok e \<Longrightarrow> int (card (dom (board_of e))) = int (length (re_items e))"
  using distinct_card [of "map bi_ownerID (re_items e)"] by (simp add: entry_ok_def board_dom)

lemma entry_index: "entry_ok e \<Longrightarrow> re_byOwner e ow = None \<longleftrightarrow> board_of e ow = None"
  using board_dom [of e] by (metis domIff entry_ok_def index_ok_def)

definition fill_ok :: "board_op \<Rightarrow> bool" where
  "fill_ok x = (case x of BFill lid ex order records enable \<Rightarrow> distinct (map bi_ownerID records) | _ \<Rightarrow> True)"

definition board_refines :: "board_op \<Rightarrow> RankCache \<Rightarrow> bool" where
  "board_refines x r \<longleftrightarrow> (\<exists>a r'. board_step x r = Some (a, r') \<and> ranks_ok r' \<and> rc_blacklist r' = rc_blacklist r \<and> rc_blacklistAll r' = rc_blacklistAll r
     \<and> spec_board (\<lambda>lid en. board_blocked lid en r) x (boards_of r) = (a, boards_of r'))"

lemma Fill_refines:
  assumes "ranks_ok r" "distinct (map bi_ownerID records)"
  shows "board_refines (BFill lid ex order records enable) r"
proof -
  let ?xs = "board_heap_Init (itemHeap_Less order) records"
  note f = entry_Fill [OF assms(2) refl, of order "itemHeap_Less order"]
  show ?thesis using assms(1) f by (simp add: board_refines_def RankCache_Fill_def Let_def)
qed

lemma Insert_refines:
  assumes ok: "ranks_ok r"
  shows "board_refines (BInsert lid ex order rec enable) r"
proof (cases "board_blocked lid enable r")
  case True
  then show ?thesis using ok by (simp add: board_refines_def RankCache_Insert_def)
next
  case False
  define e where "e = (case rc_caches r (cacheKey lid ex) of Some e \<Rightarrow> e | None \<Rightarrow> \<lparr>re_order = order, re_byOwner = Map.empty, re_items = []\<rparr>)"
  have e: "entry_ok e" using ok by (auto simp: e_def ranks_ok_def entry_ok_def index_ok_def split: option.split)
  have S: "(case boards_of r (lid, ex) of Some b \<Rightarrow> b | None \<Rightarrow> (order, Map.empty)) = (re_order e, board_of e)"
    by (simp add: e_def boards_of_def board_of_def split: option.split)
  obtain xs where items: "(case re_byOwner e (bi_ownerID rec) of
        Some idx \<Rightarrow> if length (re_items e) \<le> idx then None else Some (board_heap_Fix (itemHeap_Less (re_order e)) idx ((re_items e)[idx := rec]))
      | None \<Rightarrow> Some (board_heap_Push (itemHeap_Less (re_order e)) rec (re_items e))) = Some xs"
    and e': "entry_ok (e\<lparr>re_items := xs, re_byOwner := index_from xs (re_byOwner e)\<rparr>)"
      "board_of (e\<lparr>re_items := xs, re_byOwner := index_from xs (re_byOwner e)\<rparr>) = (board_of e)(bi_ownerID rec \<mapsto> score_of rec)"
  proof (cases "re_byOwner e (bi_ownerID rec)")
    case None
    then show ?thesis using that entry_Push [OF e None refl refl] by simp
  next
    case (Some i)
    then show ?thesis using that entry_Update [OF e Some refl refl] by simp
  qed
  let ?e = "e\<lparr>re_items := xs, re_byOwner := index_from xs (re_byOwner e)\<rparr>"
  have "RankCache_Insert lid ex order rec enable r
      = Some (spec_rank (re_order e) ((board_of e)(bi_ownerID rec \<mapsto> score_of rec)) (bi_ownerID rec), r\<lparr>rc_caches := (rc_caches r)(cacheKey lid ex \<mapsto> ?e)\<rparr>)"
    unfolding RankCache_Insert_def Let_def e_def [symmetric] items
    using False rankLocked_ok [OF e'(1), of "bi_ownerID rec"] e'(2) by simp
  then show ?thesis using False ok e' S by (simp add: board_refines_def Let_def del: fun_upd_apply)
qed

lemma Delete_refines:
  assumes ok: "ranks_ok r"
  shows "board_refines (BDelete lid ex ow) r"
proof (cases "rc_caches r (cacheKey lid ex)")
  case None
  then show ?thesis using ok by (simp add: board_refines_def RankCache_Delete_def boards_of_def)
next
  case (Some e)
  then have e: "entry_ok e" using ok by (auto simp: ranks_ok_def)
  have S: "boards_of r (lid, ex) = Some (re_order e, board_of e)" using Some by (simp add: boards_of_def)
  show ?thesis
  proof (cases "re_byOwner e ow")
    case None
    then show ?thesis using ok Some S entry_index [OF e, of ow] by (simp add: board_refines_def RankCache_Delete_def)
  next
    case idx: (Some i)
    have in_board: "board_of e ow \<noteq> None" using idx entry_index [OF e, of ow] by simp
    from entry_Remove [OF e idx] obtain xs where xs: "board_heap_Remove (itemHeap_Less (re_order e)) i (re_items e) = Some xs"
      "entry_ok (e\<lparr>re_items := xs, re_byOwner := index_from xs ((re_byOwner e)(ow := None))\<rparr>)"
      "board_of (e\<lparr>re_items := xs, re_byOwner := index_from xs ((re_byOwner e)(ow := None))\<rparr>) = (board_of e)(ow := None)" by blast
    show ?thesis using ok Some idx S xs in_board by (simp add: board_refines_def RankCache_Delete_def Let_def del: fun_upd_apply)
  qed
qed

lemma board_step_refines:
  assumes ok: "ranks_ok r" and f: "fill_ok x"
  shows "board_refines x r"
proof (cases x)
  case (BGet lid ex ow)
  show ?thesis
  proof (cases "rc_caches r (cacheKey lid ex)")
    case (Some e)
    then show ?thesis using ok rankLocked_ok [of e ow] BGet by (auto simp: board_refines_def RankCache_Get_def boards_of_def ranks_ok_def)
  qed (use ok BGet in \<open>simp add: board_refines_def RankCache_Get_def boards_of_def\<close>)
next
  case (BSize lid ex)
  show ?thesis
  proof (cases "rc_caches r (cacheKey lid ex)")
    case (Some e)
    then show ?thesis using ok entry_size [of e] BSize by (auto simp: board_refines_def RankCache_Size_def boards_of_def ranks_ok_def)
  qed (use ok BSize in \<open>simp add: board_refines_def RankCache_Size_def boards_of_def\<close>)
next
  case (BDrop lid ex)
  show ?thesis
  proof (cases "rc_caches r (cacheKey lid ex)")
    case (Some e)
    moreover have "boards_of r (lid, ex) \<noteq> None" using Some by (simp add: boards_of_def)
    ultimately show ?thesis using ok BDrop by (auto simp: board_refines_def RankCache_DeleteLeaderboard_def Let_def)
  qed (use ok BDrop in \<open>simp add: board_refines_def RankCache_DeleteLeaderboard_def boards_of_def\<close>)
qed (use ok f Fill_refines Insert_refines Delete_refines in \<open>simp_all add: fill_ok_def\<close>)

fun board_run :: "board_op list \<Rightarrow> RankCache \<Rightarrow> (int list \<times> RankCache) option" where
  "board_run [] r = Some ([], r)"
| "board_run (x # xs) r =
     (case board_step x r of None \<Rightarrow> None | Some (a, r') \<Rightarrow> map_option (\<lambda>(as, r''). (a # as, r'')) (board_run xs r'))"

fun spec_board_run :: "(string \<Rightarrow> bool \<Rightarrow> bool) \<Rightarrow> board_op list \<Rightarrow> boards \<Rightarrow> int list \<times> boards" where
  "spec_board_run blocked [] S = ([], S)"
| "spec_board_run blocked (x # xs) S =
     (case spec_board blocked x S of (a, S') \<Rightarrow> case spec_board_run blocked xs S' of (as, S'') \<Rightarrow> (a # as, S''))"

lemma board_run_refines:
  assumes "ranks_ok r" "\<forall>x\<in>set xs. fill_ok x"
  shows "\<exists>as r'. board_run xs r = Some (as, r') \<and> ranks_ok r' \<and> spec_board_run (\<lambda>lid en. board_blocked lid en r) xs (boards_of r) = (as, boards_of r')"
  using assms
proof (induction xs arbitrary: r)
  case (Cons x xs)
  from board_step_refines [OF Cons.prems(1), of x] Cons.prems(2) obtain a r1
    where st: "board_step x r = Some (a, r1)" "ranks_ok r1" "rc_blacklist r1 = rc_blacklist r" "rc_blacklistAll r1 = rc_blacklistAll r"
      "spec_board (\<lambda>lid en. board_blocked lid en r) x (boards_of r) = (a, boards_of r1)" by (auto simp: board_refines_def)
  have "(\<lambda>lid en. board_blocked lid en r1) = (\<lambda>lid en. board_blocked lid en r)" using st(3,4) by (simp add: board_blocked_def fun_eq_iff)
  moreover obtain as r2 where "board_run xs r1 = Some (as, r2)" "ranks_ok r2"
    "spec_board_run (\<lambda>lid en. board_blocked lid en r1) xs (boards_of r1) = (as, boards_of r2)"
    using Cons.IH [OF st(2)] Cons.prems(2) by auto
  ultimately show ?case using st(1,5) by simp
qed simp

lemma RankCache_New_ok: "ranks_ok (RankCache_New bl)" "boards_of (RankCache_New bl) = Map.empty"
  by (auto simp: RankCache_New_def ranks_ok_def boards_of_def)



section \<open>Ordered views\<close>

text \<open>What the code relies on of \<open>sort.Slice\<close>.\<close>

definition sorts :: "slice_sort \<Rightarrow> bool" where
  "sorts srt \<longleftrightarrow> (\<forall>order xs. mset (srt (itemHeap_Less order) xs) = mset xs \<and> sorted_wrt (\<lambda>a b. \<not> itemHeap_Less order b a) (srt (itemHeap_Less order) xs))"

lemma sorted_prefix: "sorted_wrt (\<lambda>a b. \<not> itemHeap_Less order b a) xs \<Longrightarrow>
    filter (\<lambda>x. itemHeap_Less order x t) xs = takeWhile (\<lambda>x. itemHeap_Less order x t) xs"
proof (induction xs)
  case (Cons a xs)
  then show ?case using board.le_trans [of order a t] by (auto simp: filter_empty_conv)
qed simp

lemma Less_eq_scores: "\<not> itemHeap_Less order a b \<Longrightarrow> \<not> itemHeap_Less order b a \<Longrightarrow> score_of a = score_of b"
  by (auto simp: itemHeap_Less_def score_of_def split: if_splits)

lemma sorted_position:
  assumes st: "sorted_wrt (\<lambda>a b. \<not> itemHeap_Less order b a) s" and t: "t \<in> set s"
  shows "length (filter (\<lambda>x. itemHeap_Less order x t) s) < length s"
    "score_of (s ! length (filter (\<lambda>x. itemHeap_Less order x t) s)) = score_of t"
proof -
  let ?P = "\<lambda>x. itemHeap_Less order x t"
  let ?k = "length (takeWhile ?P s)"
  have irr: "\<not> ?P t" using board.lt_asym by blast
  obtain j where j: "j < length s" "s ! j = t" using t by (auto simp: in_set_conv_nth)
  have k: "?k \<le> j"
  proof (rule ccontr)
    assume "\<not> ?k \<le> j"
    then have "t \<in> set (takeWhile ?P s)" using j takeWhile_nth [of j ?P s] nth_mem [of j "takeWhile ?P s"] by simp
    then show False using irr set_takeWhileD by fastforce
  qed
  then have lt: "?k < length s" using j by simp
  then have "\<not> ?P (s ! ?k)" by (rule nth_length_takeWhile)
  moreover have "\<not> itemHeap_Less order t (s ! ?k)"
    using k j st irr sorted_wrt_nth_less [OF st, of ?k j] by (cases "?k = j") auto
  ultimately show "length (filter ?P s) < length s" "score_of (s ! length (filter ?P s)) = score_of t"
    using lt sorted_prefix [OF st, of t] Less_eq_scores [of order "s ! ?k" t] by simp_all
qed

text \<open>Ranks and ordered views agree: the record that \<open>GetByRank\<close> finds at the rank of an owner has that owner's score, so
  without ties it is that owner's record; and \<open>TopN\<close> returns the best records in order, as many as there are
  up to the number asked for, with nothing better left out.\<close>

theorem Leaderboard_views:
  assumes "sorts srt" and ok: "ranks_ok r" and e: "rc_caches r (cacheKey lid ex) = Some e"
  shows "board_of e ow = Some x \<longrightarrow>
      (\<exists>k it. RankCache_Get lid ex ow r = Some k \<and> RankCache_GetByRank srt lid ex k r = Some it \<and> it \<in> set (re_items e) \<and> score_of it = x)
    \<and> (0 < n \<longrightarrow> length (RankCache_TopN srt lid ex n r) = min (nat n) (length (re_items e))
        \<and> sorted_wrt (\<lambda>a b. \<not> itemHeap_Less (re_order e) b a) (RankCache_TopN srt lid ex n r)
        \<and> (\<exists>rest. mset (re_items e) = mset (RankCache_TopN srt lid ex n r) + mset rest
             \<and> (\<forall>a\<in>set (RankCache_TopN srt lid ex n r). \<forall>b\<in>set rest. \<not> itemHeap_Less (re_order e) b a)))"
proof -
  let ?lt = "itemHeap_Less (re_order e)" let ?s = "srt ?lt (re_items e)"
  have m: "mset ?s = mset (re_items e)" and st: "sorted_wrt (\<lambda>a b. \<not> ?lt b a) ?s" using assms(1) by (simp_all add: sorts_def)
  have eo: "entry_ok e" using ok e by (auto simp: ranks_ok_def)
  then have d: "distinct (map bi_ownerID (re_items e))" by (simp add: entry_ok_def)
  have first: "\<exists>k it. RankCache_Get lid ex ow r = Some k \<and> RankCache_GetByRank srt lid ex k r = Some it \<and> it \<in> set (re_items e) \<and> score_of it = x"
    if b: "board_of e ow = Some x"
  proof -
    from b entry_board [OF d] obtain t where t: "t \<in> set (re_items e)" "bi_ownerID t = ow" "x = score_of t" by (auto simp: score_of_def)
    have ts: "t \<in> set ?s" using t(1) mset_eq_setD [OF m] by simp
    let ?k = "length (filter (\<lambda>y. ?lt y t) ?s)"
    note pos = sorted_position [OF st ts]
    have "length (filter (\<lambda>y. ?lt y t) (re_items e)) = ?k" using m by (metis mset_filter size_mset)
    moreover have "{ow'. \<exists>y. board_of e ow' = Some y \<and> better (re_order e) y x} = set (map bi_ownerID (filter (\<lambda>y. ?lt y t) (re_items e)))"
      unfolding entry_board [OF d] set_map set_filter better_Less [symmetric] t(3) score_of_def by blast
    moreover have "distinct (map bi_ownerID (filter (\<lambda>y. ?lt y t) (re_items e)))" using d by (rule distinct_map_filter)
    ultimately have "spec_rank (re_order e) (board_of e) ow = 1 + int ?k"
      using b distinct_card [of "map bi_ownerID (filter (\<lambda>y. ?lt y t) (re_items e))"] by (simp add: spec_rank_def)
    then have "RankCache_Get lid ex ow r = Some (1 + int ?k)" using e rankLocked_ok [OF eo] by (simp add: RankCache_Get_def)
    moreover have "length ?s = length (re_items e)" using mset_eq_length [OF m] .
    then have "RankCache_GetByRank srt lid ex (1 + int ?k) r = Some (?s ! ?k)" using e pos(1) by (simp add: RankCache_GetByRank_def)
    moreover have "?s ! ?k \<in> set (re_items e)" using pos(1) mset_eq_setD [OF m] nth_mem by metis
    ultimately show ?thesis using pos(2) t(3) by blast
  qed
  have "length (RankCache_TopN srt lid ex n r) = min (nat n) (length (re_items e))
        \<and> sorted_wrt (\<lambda>a b. \<not> ?lt b a) (RankCache_TopN srt lid ex n r)
        \<and> (\<exists>rest. mset (re_items e) = mset (RankCache_TopN srt lid ex n r) + mset rest
             \<and> (\<forall>a\<in>set (RankCache_TopN srt lid ex n r). \<forall>b\<in>set rest. \<not> ?lt b a))" if "0 < n"
  proof -
    have top: "RankCache_TopN srt lid ex n r = take (nat n) ?s" using e that by (simp add: RankCache_TopN_def)
    have app: "sorted_wrt (\<lambda>a b. \<not> ?lt b a) (take (nat n) ?s @ drop (nat n) ?s)" using st by simp
    have "mset (re_items e) = mset (take (nat n) ?s) + mset (drop (nat n) ?s)" using m by (metis append_take_drop_id mset_append)
    then show ?thesis using app mset_eq_length [OF m] unfolding top sorted_wrt_append by (auto simp: min.commute)
  qed
  then show ?thesis using first by blast
qed

text \<open>A sort that meets the contract: insertion.\<close>

primrec insert_by :: "('a \<Rightarrow> 'a \<Rightarrow> bool) \<Rightarrow> 'a \<Rightarrow> 'a list \<Rightarrow> 'a list" where
  "insert_by lt x [] = [x]"
| "insert_by lt x (y # ys) = (if lt y x then y # insert_by lt x ys else x # y # ys)"

definition sort_by :: "('a \<Rightarrow> 'a \<Rightarrow> bool) \<Rightarrow> 'a list \<Rightarrow> 'a list" where
  "sort_by lt xs = foldr (insert_by lt) xs []"

lemma insert_by_mset [simp]: "mset (insert_by lt x ys) = add_mset x (mset ys)"
  by (induction ys) auto

lemma insert_by_sorted:
  "sorted_wrt (\<lambda>a b. \<not> itemHeap_Less order b a) ys \<Longrightarrow> sorted_wrt (\<lambda>a b. \<not> itemHeap_Less order b a) (insert_by (itemHeap_Less order) x ys)"
proof (induction ys)
  case (Cons y ys)
  have "set (insert_by (itemHeap_Less order) x ys) = insert x (set ys)" using insert_by_mset [of "itemHeap_Less order" x ys] mset_eq_setD [of _ "x # ys"] by simp
  then show ?case using Cons board.lt_asym [of order y x] board.le_trans [of order y x] by auto
qed simp

lemma sorts_sort_by: "sorts sort_by"
proof -
  have "mset (sort_by lt xs) = mset xs" for lt :: "board_item \<Rightarrow> board_item \<Rightarrow> bool" and xs by (induction xs) (simp_all add: sort_by_def)
  moreover have "sorted_wrt (\<lambda>a b. \<not> itemHeap_Less order b a) (sort_by (itemHeap_Less order) xs)" for order xs
    by (induction xs) (simp_all add: sort_by_def insert_by_sorted)
  ultimately show ?thesis by (simp add: sorts_def)
qed

theorem Leaderboard_views_witness:
  "let item = (\<lambda>ow s. \<lparr>bi_ownerID = ow, bi_score = s, bi_subscore = 0\<rparr>);
       r = snd (RankCache_Fill ''b'' 7 SortDescending [item ''ann'' 5, item ''bob'' 9, item ''cat'' 5] True (RankCache_New []))
   in \<exists>k it. RankCache_Get ''b'' 7 ''cat'' r = Some k \<and> RankCache_GetByRank sort_by ''b'' 7 k r = Some it \<and> score_of it = (5, 0)
      \<and> length (RankCache_TopN sort_by ''b'' 7 2 r) = 2"
proof -
  let ?i = "\<lambda>ow s. \<lparr>bi_ownerID = ow, bi_score = s, bi_subscore = 0\<rparr>"
  let ?recs = "[?i ''ann'' 5, ?i ''bob'' 9, ?i ''cat'' 5]"
  let ?xs = "board_heap_Init (itemHeap_Less SortDescending) ?recs"
  let ?e = "\<lparr>re_order = SortDescending, re_byOwner = index_from ?xs (index_from ?recs Map.empty), re_items = ?xs\<rparr>"
  define r where "r = snd (RankCache_Fill ''b'' 7 SortDescending ?recs True (RankCache_New []))"
  have d: "distinct (map bi_ownerID ?recs)" by simp
  note f = entry_Fill [OF d refl, of SortDescending "itemHeap_Less SortDescending"]
  have r: "r = RankCache_New []\<lparr>rc_caches := [cacheKey ''b'' 7 \<mapsto> ?e]\<rparr>"
    by (simp add: r_def RankCache_Fill_def board_blocked_def RankCache_New_def Let_def)
  then have c: "rc_caches r (cacheKey ''b'' 7) = Some ?e" by simp
  have ok: "ranks_ok r" using f(1) r by (simp add: ranks_ok_def)
  have b: "board_of ?e ''cat'' = Some (5, 0)" using f(2) by (simp add: score_of_def)
  have len: "length (re_items ?e) = 3" using f(3) by simp
  from Leaderboard_views [OF sorts_sort_by ok c, of "''cat''" "(5, 0)" 2] b len show ?thesis unfolding Let_def r_def [symmetric] by auto
qed

section \<open>Departures\<close>

text \<open>With ties wider than the range, the neighbourhood of an owner does not contain him.\<close>

lemma Around_without_self:
  "let item = (\<lambda>ow. \<lparr>bi_ownerID = ow, bi_score = 1, bi_subscore = 0\<rparr>);
       r = snd (RankCache_Fill ''b'' 0 SortDescending [item ''ann'', item ''bob''] True (RankCache_New []))
   in map_option (map bi_ownerID) (RankCache_Around sort_by ''b'' 0 ''bob'' 0 r) = Some [''ann'']"
  by code_simp

text \<open>A negative range panics.\<close>

lemma Around_negative_panics:
  "let r = snd (RankCache_Fill ''b'' 0 SortDescending [\<lparr>bi_ownerID = ''ann'', bi_score = 1, bi_subscore = 0\<rparr>] True (RankCache_New []))
   in RankCache_Around sort_by ''b'' 0 ''ann'' (-1) r = None"
  by code_simp

text \<open>Loading two records of one owner makes him survive a deletion.\<close>

lemma Fill_duplicate_survives:
  "let r = snd (RankCache_Fill ''b'' 0 SortDescending [\<lparr>bi_ownerID = ''ann'', bi_score = 1, bi_subscore = 0\<rparr>, \<lparr>bi_ownerID = ''ann'', bi_score = 2, bi_subscore = 0\<rparr>] True (RankCache_New []))
   in map_option (\<lambda>(b, r'). (b, RankCache_Get ''b'' 0 ''ann'' r')) (RankCache_Delete ''b'' 0 ''ann'' r) = Some (True, Some 1)"
  by code_simp

text \<open>A blacklist that contains the star next to something else does not block every board.\<close>

lemma blacklist_star_ignored: "fst (RankCache_Fill ''b'' 0 SortDescending [\<lparr>bi_ownerID = ''ann'', bi_score = 1, bi_subscore = 0\<rparr>] True (RankCache_New [''*'', ''x''])) = 1"
  by code_simp

end
