(* ===== verification/Group.thy ===== *)
theory Group
  imports Relationship
begin

text \<open>
  \<open>pkg/domain/group\<close>: groups with roles, requests, bans and a limit of members. A group keeps its members as edges of a
  graph of \<open>pkg/domain/relationship\<close>, from the group to the user, with the role as state. A call takes the lock of
  its group for all its work, so it is one step; the clock is an argument. The invariants speak of the graph only
  through \<open>roles\<close>, the role of every user.
\<close>

section \<open>The store\<close>

abbreviation RoleMember :: int where "RoleMember \<equiv> StateActive"
abbreviation RoleAdmin :: int where "RoleAdmin \<equiv> StateAdmin"
abbreviation RoleOwner :: int where "RoleOwner \<equiv> StateOwner"
abbreviation RolePending :: int where "RolePending \<equiv> StatePending"

record group_info =
  gi_ID :: key
  gi_Name :: string
  gi_OwnerID :: key
  gi_Announcement :: string
  gi_MaxMembers :: int
  gi_CreatedAt :: int

record groupState =
  gs_info :: group_info
  gs_graph :: Graph
  gs_banned :: "key \<rightharpoonup> int"

type_synonym group_store = "key \<rightharpoonup> groupState"

datatype group_err = GErrRequired | GErrExists | GErrNotFound | GErrAlreadyMember | GErrNotMember | GErrNotPending | GErrFull | GErrBanned
  | GErrNotBanned | GErrOwnerCannotLeave | GErrNoPermission | GErrCannotKickPeer | GErrGraph rel_err

definition member_edge :: "key \<Rightarrow> key \<Rightarrow> int \<Rightarrow> int \<Rightarrow> Edge" where
  "member_edge gid user role pos = \<lparr>eg_Source = gid, eg_Destination = user, eg_State = role, eg_Position = pos, eg_Metadata = None\<rparr>"

definition gs_AddEdge :: "key \<Rightarrow> key \<Rightarrow> int \<Rightarrow> int \<Rightarrow> groupState \<Rightarrow> group_err option \<times> groupState" where
  "gs_AddEdge gid user role pos gs =
     (case Graph_AddEdge (member_edge gid user role pos) (gs_graph gs) of (r, g) \<Rightarrow> (map_option GErrGraph r, gs\<lparr>gs_graph := g\<rparr>))"

definition gs_RemoveEdge :: "key \<Rightarrow> key \<Rightarrow> groupState \<Rightarrow> groupState" where
  "gs_RemoveEdge gid user gs = gs\<lparr>gs_graph := snd (Graph_RemoveEdge gid user (gs_graph gs))\<rparr>"

definition roleLocked :: "key \<Rightarrow> groupState \<Rightarrow> (int \<times> int) option" where
  "roleLocked user gs = (case Graph_Edge (gi_ID (gs_info gs)) user (gs_graph gs) of Inl _ \<Rightarrow> None | Inr e \<Rightarrow> Some (eg_State e, eg_Position e))"

definition isBannedLocked :: "key \<Rightarrow> groupState \<Rightarrow> bool" where
  "isBannedLocked user gs \<longleftrightarrow> gs_banned gs user \<noteq> None"

definition full_members :: "Edge list \<Rightarrow> Edge list" where
  "full_members = filter (\<lambda>e. eg_State e = RoleOwner \<or> eg_State e = RoleAdmin \<or> eg_State e = RoleMember)"

definition isFullLocked :: "groupState \<Rightarrow> bool" where
  "isFullLocked gs \<longleftrightarrow>
     (if gi_MaxMembers (gs_info gs) \<le> 0 then False
      else gi_MaxMembers (gs_info gs) \<le> int (length (full_members (Graph_Outgoing (gi_ID (gs_info gs)) 0 (2 ^ 30) (-1) (gs_graph gs)))))"

definition checkPrivilegeLocked :: "key \<Rightarrow> int \<Rightarrow> groupState \<Rightarrow> group_err option" where
  "checkPrivilegeLocked actor required gs =
     (case roleLocked actor gs of
        None \<Rightarrow> Some GErrNotMember
      | Some (role, _) \<Rightarrow> if role < required then Some GErrNoPermission else None)"

definition addMemberLocked :: "key \<Rightarrow> int \<Rightarrow> int \<Rightarrow> groupState \<Rightarrow> group_err option \<times> groupState" where
  "addMemberLocked user role now gs =
     (if isBannedLocked user gs then (Some GErrBanned, gs)
      else if roleLocked user gs \<noteq> None then (Some GErrAlreadyMember, gs)
      else if isFullLocked gs then (Some GErrFull, gs)
      else gs_AddEdge (gi_ID (gs_info gs)) user role now gs)"

definition Group_Create :: "group_info \<Rightarrow> int \<Rightarrow> group_store \<Rightarrow> group_err option \<times> group_store" where
  "Group_Create g now s =
     (if gi_ID g = [] \<or> gi_OwnerID g = [] then (Some GErrRequired, s)
      else if s (gi_ID g) \<noteq> None then (Some GErrExists, s)
      else let g = (if gi_CreatedAt g = 0 then g\<lparr>gi_CreatedAt := now\<rparr> else g);
               gs = \<lparr>gs_info = g, gs_graph = Graph_New, gs_banned = Map.empty\<rparr>
           in (None, s(gi_ID g \<mapsto> snd (gs_AddEdge (gi_ID g) (gi_OwnerID g) RoleOwner (gi_CreatedAt g) gs))))"

section \<open>The handlers\<close>

text \<open>What each method of the store does once it has found the group and taken its lock.\<close>

definition Group_Join :: "key \<Rightarrow> key \<Rightarrow> int \<Rightarrow> groupState \<Rightarrow> group_err option \<times> groupState" where
  "Group_Join gid user now gs = addMemberLocked user RoleMember now gs"

definition Group_Request :: "key \<Rightarrow> key \<Rightarrow> int \<Rightarrow> groupState \<Rightarrow> group_err option \<times> groupState" where
  "Group_Request gid user now gs =
     (if isBannedLocked user gs then (Some GErrBanned, gs)
      else if roleLocked user gs \<noteq> None then (Some GErrAlreadyMember, gs)
      else if isFullLocked gs then (Some GErrFull, gs)
      else gs_AddEdge gid user RolePending now gs)"

definition is_pending :: "key \<Rightarrow> groupState \<Rightarrow> bool" where
  "is_pending user gs = (case roleLocked user gs of None \<Rightarrow> False | Some (role, _) \<Rightarrow> role = RolePending)"

definition Group_Approve :: "key \<Rightarrow> key \<Rightarrow> key \<Rightarrow> int \<Rightarrow> groupState \<Rightarrow> group_err option \<times> groupState" where
  "Group_Approve gid approver user now gs =
     (case checkPrivilegeLocked approver RoleAdmin gs of
        Some e \<Rightarrow> (Some e, gs)
      | None \<Rightarrow>
          if \<not> is_pending user gs then (Some GErrNotPending, gs)
          else if isFullLocked gs then (Some GErrFull, gs)
          else gs_AddEdge gid user RoleMember now (gs_RemoveEdge gid user gs))"

definition Group_Reject :: "key \<Rightarrow> key \<Rightarrow> key \<Rightarrow> groupState \<Rightarrow> group_err option \<times> groupState" where
  "Group_Reject gid approver user gs =
     (case checkPrivilegeLocked approver RoleAdmin gs of
        Some e \<Rightarrow> (Some e, gs)
      | None \<Rightarrow> if \<not> is_pending user gs then (Some GErrNotPending, gs) else (None, gs_RemoveEdge gid user gs))"

definition Group_Leave :: "key \<Rightarrow> key \<Rightarrow> groupState \<Rightarrow> group_err option \<times> groupState" where
  "Group_Leave gid user gs =
     (case roleLocked user gs of
        None \<Rightarrow> (Some GErrNotMember, gs)
      | Some (role, _) \<Rightarrow> if role = RoleOwner then (Some GErrOwnerCannotLeave, gs) else (None, gs_RemoveEdge gid user gs))"

definition Group_Kick :: "key \<Rightarrow> key \<Rightarrow> key \<Rightarrow> groupState \<Rightarrow> group_err option \<times> groupState" where
  "Group_Kick gid actor user gs =
     (case roleLocked actor gs of
        None \<Rightarrow> (Some GErrNotMember, gs)
      | Some (actorRole, _) \<Rightarrow>
          if actorRole < RoleAdmin then (Some GErrNoPermission, gs)
          else (case roleLocked user gs of
                  None \<Rightarrow> (Some GErrNotMember, gs)
                | Some (targetRole, _) \<Rightarrow>
                    if actorRole \<le> targetRole then (Some GErrCannotKickPeer, gs) else (None, gs_RemoveEdge gid user gs)))"

definition Group_setRole :: "key \<Rightarrow> key \<Rightarrow> key \<Rightarrow> int \<Rightarrow> int \<Rightarrow> groupState \<Rightarrow> group_err option \<times> groupState" where
  "Group_setRole gid actor user newRole now gs =
     (case checkPrivilegeLocked actor RoleOwner gs of
        Some e \<Rightarrow> (Some e, gs)
      | None \<Rightarrow>
          if roleLocked user gs = None then (Some GErrNotMember, gs)
          else gs_AddEdge gid user newRole now (gs_RemoveEdge gid user gs))"

definition Group_Promote :: "key \<Rightarrow> key \<Rightarrow> key \<Rightarrow> int \<Rightarrow> groupState \<Rightarrow> group_err option \<times> groupState" where
  "Group_Promote gid owner user now gs = Group_setRole gid owner user RoleAdmin now gs"

definition Group_Demote :: "key \<Rightarrow> key \<Rightarrow> key \<Rightarrow> int \<Rightarrow> groupState \<Rightarrow> group_err option \<times> groupState" where
  "Group_Demote gid owner user now gs = Group_setRole gid owner user RoleMember now gs"

definition Group_TransferOwner :: "key \<Rightarrow> key \<Rightarrow> key \<Rightarrow> int \<Rightarrow> groupState \<Rightarrow> group_err option \<times> groupState" where
  "Group_TransferOwner gid owner newOwner now gs =
     (case checkPrivilegeLocked owner RoleOwner gs of
        Some e \<Rightarrow> (Some e, gs)
      | None \<Rightarrow>
          if roleLocked newOwner gs = None then (Some GErrNotMember, gs)
          else let gs1 = gs_RemoveEdge gid newOwner (gs_RemoveEdge gid owner gs);
                   gs2 = snd (gs_AddEdge gid owner RoleAdmin now gs1);
                   gs3 = snd (gs_AddEdge gid newOwner RoleOwner (now + 1) gs2)
               in (None, gs3\<lparr>gs_info := (gs_info gs3)\<lparr>gi_OwnerID := newOwner\<rparr>\<rparr>))"

definition Group_Ban :: "key \<Rightarrow> key \<Rightarrow> key \<Rightarrow> int \<Rightarrow> groupState \<Rightarrow> group_err option \<times> groupState" where
  "Group_Ban gid actor user now gs =
     (case roleLocked actor gs of
        None \<Rightarrow> (Some GErrNotMember, gs)
      | Some (actorRole, _) \<Rightarrow>
          if actorRole < RoleAdmin then (Some GErrNoPermission, gs)
          else if (case roleLocked user gs of None \<Rightarrow> False | Some (targetRole, _) \<Rightarrow> actorRole \<le> targetRole)
          then (Some GErrCannotKickPeer, gs)
          else let gs1 = gs_RemoveEdge gid user gs in (None, gs1\<lparr>gs_banned := (gs_banned gs1)(user \<mapsto> now)\<rparr>))"

definition Group_Unban :: "key \<Rightarrow> key \<Rightarrow> groupState \<Rightarrow> group_err option \<times> groupState" where
  "Group_Unban actor user gs =
     (case checkPrivilegeLocked actor RoleAdmin gs of
        Some e \<Rightarrow> (Some e, gs)
      | None \<Rightarrow> if gs_banned gs user = None then (Some GErrNotBanned, gs) else (None, gs\<lparr>gs_banned := (gs_banned gs)(user := None)\<rparr>))"

definition Group_SetAnnouncement :: "key \<Rightarrow> string \<Rightarrow> groupState \<Rightarrow> group_err option \<times> groupState" where
  "Group_SetAnnouncement actor txt gs =
     (case checkPrivilegeLocked actor RoleAdmin gs of
        Some e \<Rightarrow> (Some e, gs)
      | None \<Rightarrow> (None, gs\<lparr>gs_info := (gs_info gs)\<lparr>gi_Announcement := txt\<rparr>\<rparr>))"

definition Group_SetMaxMembers :: "key \<Rightarrow> int \<Rightarrow> groupState \<Rightarrow> group_err option \<times> groupState" where
  "Group_SetMaxMembers owner mx gs =
     (case checkPrivilegeLocked owner RoleOwner gs of
        Some e \<Rightarrow> (Some e, gs)
      | None \<Rightarrow> (None, gs\<lparr>gs_info := (gs_info gs)\<lparr>gi_MaxMembers := mx\<rparr>\<rparr>))"

definition Group_Members :: "key \<Rightarrow> groupState \<Rightarrow> key list \<times> key list \<times> key list" where
  "Group_Members gid gs =
     (let es = Graph_Outgoing gid 0 (2 ^ 30) (-1) (gs_graph gs); pick = (\<lambda>role. map eg_Destination (filter (\<lambda>e. eg_State e = role) es))
      in (pick RoleOwner, pick RoleAdmin, pick RoleMember))"

definition Group_Pending :: "key \<Rightarrow> groupState \<Rightarrow> key list" where
  "Group_Pending gid gs = map eg_Destination (Graph_Outgoing gid 0 (2 ^ 30) RolePending (gs_graph gs))"

definition Group_Role :: "key \<Rightarrow> groupState \<Rightarrow> (int \<times> int) option" where
  "Group_Role user gs = roleLocked user gs"

definition Group_Banned :: "groupState \<Rightarrow> key set" where
  "Group_Banned gs = dom (gs_banned gs)"

definition Group_MemberCount :: "key \<Rightarrow> groupState \<Rightarrow> nat" where
  "Group_MemberCount gid gs = length (full_members (Graph_Outgoing gid 0 (2 ^ 30) (-1) (gs_graph gs)))"

text \<open>The lookup of the group and the call of a handler on it.\<close>

datatype group_op = GJoin key | GRequest key | GApprove key key | GReject key key | GLeave key | GKick key key | GPromote key key
  | GDemote key key | GTransfer key key | GBan key key | GUnban key key | GAnnounce key string | GMaxMembers key int

primrec group_apply :: "key \<Rightarrow> int \<Rightarrow> group_op \<Rightarrow> groupState \<Rightarrow> group_err option \<times> groupState" where
  "group_apply gid now (GJoin u) = Group_Join gid u now"
| "group_apply gid now (GRequest u) = Group_Request gid u now"
| "group_apply gid now (GApprove a u) = Group_Approve gid a u now"
| "group_apply gid now (GReject a u) = Group_Reject gid a u"
| "group_apply gid now (GLeave u) = Group_Leave gid u"
| "group_apply gid now (GKick a u) = Group_Kick gid a u"
| "group_apply gid now (GPromote a u) = Group_Promote gid a u now"
| "group_apply gid now (GDemote a u) = Group_Demote gid a u now"
| "group_apply gid now (GTransfer a u) = Group_TransferOwner gid a u now"
| "group_apply gid now (GBan a u) = Group_Ban gid a u now"
| "group_apply gid now (GUnban a u) = Group_Unban a u"
| "group_apply gid now (GAnnounce a t) = Group_SetAnnouncement a t"
| "group_apply gid now (GMaxMembers a n) = Group_SetMaxMembers a n"

definition Group_call :: "key \<Rightarrow> int \<Rightarrow> group_op \<Rightarrow> group_store \<Rightarrow> group_err option \<times> group_store" where
  "Group_call gid now x s =
     (case s gid of
        None \<Rightarrow> (Some GErrNotFound, s)
      | Some gs \<Rightarrow> (case group_apply gid now x gs of (r, gs') \<Rightarrow> (r, s(gid \<mapsto> gs'))))"

section \<open>Roles\<close>

definition roles :: "groupState \<Rightarrow> key \<rightharpoonup> int" where
  "roles gs u = map_option eg_State (edge_at (gs_graph gs) (gi_ID (gs_info gs)) u)"

definition group_wf :: "key \<Rightarrow> groupState \<Rightarrow> bool" where
  "group_wf gid gs \<longleftrightarrow> gi_ID (gs_info gs) = gid \<and> gid \<noteq> [] \<and> graph_wf (gs_graph gs)
     \<and> (\<forall>s d e. edge_at (gs_graph gs) s d = Some e \<longrightarrow> s = gid \<and> d \<noteq> [] \<and> eg_State e \<in> {RoleMember, RolePending, RoleAdmin, RoleOwner})"

lemmas role_values = StateActive_def StatePending_def StateAdmin_def StateOwner_def StateBlocked_def

lemma roleLocked_roles: "roles gs u = map_option fst (roleLocked u gs)"
  by (simp add: roles_def roleLocked_def Graph_Edge_def split: option.split)

lemma roleLocked_None: "roleLocked u gs = None \<longleftrightarrow> roles gs u = None"
  by (simp add: roleLocked_roles)

lemma roles_range: "group_wf gid gs \<Longrightarrow> roles gs u = Some r \<Longrightarrow> u \<noteq> [] \<and> r \<in> {RoleMember, RolePending, RoleAdmin, RoleOwner}"
  by (auto simp: roles_def group_wf_def)

lemma group_wfD: "group_wf gid gs \<Longrightarrow> gi_ID (gs_info gs) = gid \<and> gid \<noteq> []"
  by (simp add: group_wf_def)

lemma RemoveEdge_ok:
  assumes wf: "group_wf gid gs" and gs': "gs' = gs_RemoveEdge gid u gs"
  shows "group_wf gid gs'" "roles gs' = (roles gs)(u := None)" "gs_info gs' = gs_info gs" "gs_banned gs' = gs_banned gs"
proof -
  have e: "edge_at (gs_graph gs') s d = (if s = gid \<and> d = u then None else edge_at (gs_graph gs) s d)" for s d
    by (simp add: gs' gs_RemoveEdge_def Graph_RemoveEdge_def edge_at_remove)
  have "graph_wf (gs_graph gs')" using wf by (simp add: gs' gs_RemoveEdge_def Graph_RemoveEdge_def group_wf_def graph_wf_remove)
  then show "group_wf gid gs'" using wf by (simp add: group_wf_def e) (simp add: gs' gs_RemoveEdge_def)
  show i: "gs_info gs' = gs_info gs" "gs_banned gs' = gs_banned gs" by (simp_all add: gs' gs_RemoveEdge_def)
  show "roles gs' = (roles gs)(u := None)" using group_wfD [OF wf] by (simp add: roles_def fun_eq_iff i e)
qed

lemma AddEdge_ok:
  assumes wf: "group_wf gid gs" and new: "roles gs u = None" and r: "role \<in> {RoleMember, RolePending, RoleAdmin, RoleOwner}"
    and add: "gs_AddEdge gid u role pos gs = (x, gs')"
  shows "x = (if u = [] then Some (GErrGraph ErrEmptyEndpoint) else None)" "group_wf gid gs'"
    "roles gs' = (if u = [] then roles gs else (roles gs)(u \<mapsto> role))" "gs_info gs' = gs_info gs" "gs_banned gs' = gs_banned gs"
proof -
  have gid: "gi_ID (gs_info gs) = gid" "gid \<noteq> []" using group_wfD [OF wf] by simp_all
  have free: "edge_at (gs_graph gs) gid u = None" using new gid by (simp add: roles_def)
  have nb: "\<not> Graph_isBlockedLocked u gid (gs_graph gs)"
  proof (cases "edge_at (gs_graph gs) u gid")
    case (Some e)
    then have "eg_State e \<in> {RoleMember, RolePending, RoleAdmin, RoleOwner}" using wf unfolding group_wf_def by blast
    then show ?thesis using Some by (auto simp: Graph_isBlockedLocked_def role_values)
  qed (simp add: Graph_isBlockedLocked_def)
  have res: "gs_AddEdge gid u role pos gs =
      (if u = [] then (Some (GErrGraph ErrEmptyEndpoint), gs) else (None, gs\<lparr>gs_graph := put_edge (member_edge gid u role pos) (make_row gid (gs_graph gs))\<rparr>))"
    using gid nb free by (simp add: gs_AddEdge_def Graph_AddEdge_def member_edge_def Let_def)
  then show x: "x = (if u = [] then Some (GErrGraph ErrEmptyEndpoint) else None)" using add by (simp split: if_splits)
  have gs': "gs' = (if u = [] then gs else gs\<lparr>gs_graph := put_edge (member_edge gid u role pos) (make_row gid (gs_graph gs))\<rparr>)"
    using add res by (simp split: if_splits)
  show i: "gs_info gs' = gs_info gs" "gs_banned gs' = gs_banned gs" by (simp_all add: gs')
  have e: "edge_at (gs_graph gs') s d = (if u \<noteq> [] \<and> s = gid \<and> d = u then Some (member_edge gid u role pos) else edge_at (gs_graph gs) s d)" for s d
    by (simp add: gs' edge_at_put member_edge_def)
  have "graph_wf (gs_graph gs')" using wf by (simp add: gs' group_wf_def graph_wf_ops)
  then show "group_wf gid gs'" using wf r unfolding group_wf_def i e by (auto simp: member_edge_def split: if_splits)
  show "roles gs' = (if u = [] then roles gs else (roles gs)(u \<mapsto> role))" using gid by (simp add: roles_def fun_eq_iff i e member_edge_def)
qed

section \<open>What a call does\<close>

definition same_group :: "groupState \<Rightarrow> groupState \<Rightarrow> bool" where
  "same_group gs gs' \<longleftrightarrow> roles gs' = roles gs \<and> gs_info gs' = gs_info gs \<and> gs_banned gs' = gs_banned gs"

definition at_least :: "int \<Rightarrow> key \<Rightarrow> groupState \<Rightarrow> bool" where
  "at_least r u gs \<longleftrightarrow> (\<exists>x\<ge>r. roles gs u = Some x)"

text \<open>The guard of an accepted call and its effect on the roles, the entity and the bans.\<close>

primrec group_effect :: "int \<Rightarrow> group_op \<Rightarrow> groupState \<Rightarrow> groupState \<Rightarrow> bool" where
  "group_effect now (GJoin u) gs gs' \<longleftrightarrow> gs_banned gs u = None \<and> roles gs u = None \<and> \<not> isFullLocked gs
     \<and> roles gs' = (roles gs)(u \<mapsto> RoleMember) \<and> gs_info gs' = gs_info gs \<and> gs_banned gs' = gs_banned gs"
| "group_effect now (GRequest u) gs gs' \<longleftrightarrow> gs_banned gs u = None \<and> roles gs u = None \<and> \<not> isFullLocked gs
     \<and> roles gs' = (roles gs)(u \<mapsto> RolePending) \<and> gs_info gs' = gs_info gs \<and> gs_banned gs' = gs_banned gs"
| "group_effect now (GApprove a u) gs gs' \<longleftrightarrow> at_least RoleAdmin a gs \<and> roles gs u = Some RolePending \<and> \<not> isFullLocked gs
     \<and> roles gs' = (roles gs)(u \<mapsto> RoleMember) \<and> gs_info gs' = gs_info gs \<and> gs_banned gs' = gs_banned gs"
| "group_effect now (GReject a u) gs gs' \<longleftrightarrow> at_least RoleAdmin a gs \<and> roles gs u = Some RolePending
     \<and> roles gs' = (roles gs)(u := None) \<and> gs_info gs' = gs_info gs \<and> gs_banned gs' = gs_banned gs"
| "group_effect now (GLeave u) gs gs' \<longleftrightarrow> roles gs u \<noteq> None \<and> roles gs u \<noteq> Some RoleOwner
     \<and> roles gs' = (roles gs)(u := None) \<and> gs_info gs' = gs_info gs \<and> gs_banned gs' = gs_banned gs"
| "group_effect now (GKick a u) gs gs' \<longleftrightarrow> (\<exists>ra ru. roles gs a = Some ra \<and> roles gs u = Some ru \<and> RoleAdmin \<le> ra \<and> ru < ra)
     \<and> roles gs' = (roles gs)(u := None) \<and> gs_info gs' = gs_info gs \<and> gs_banned gs' = gs_banned gs"
| "group_effect now (GPromote a u) gs gs' \<longleftrightarrow> at_least RoleOwner a gs \<and> roles gs u \<noteq> None
     \<and> roles gs' = (roles gs)(u \<mapsto> RoleAdmin) \<and> gs_info gs' = gs_info gs \<and> gs_banned gs' = gs_banned gs"
| "group_effect now (GDemote a u) gs gs' \<longleftrightarrow> at_least RoleOwner a gs \<and> roles gs u \<noteq> None
     \<and> roles gs' = (roles gs)(u \<mapsto> RoleMember) \<and> gs_info gs' = gs_info gs \<and> gs_banned gs' = gs_banned gs"
| "group_effect now (GTransfer a u) gs gs' \<longleftrightarrow> at_least RoleOwner a gs \<and> roles gs u \<noteq> None
     \<and> roles gs' = (if u = a then (roles gs)(a \<mapsto> RoleAdmin) else (roles gs)(a \<mapsto> RoleAdmin, u \<mapsto> RoleOwner))
     \<and> gs_info gs' = (gs_info gs)\<lparr>gi_OwnerID := u\<rparr> \<and> gs_banned gs' = gs_banned gs"
| "group_effect now (GBan a u) gs gs' \<longleftrightarrow> (\<exists>ra. roles gs a = Some ra \<and> RoleAdmin \<le> ra \<and> (\<forall>ru. roles gs u = Some ru \<longrightarrow> ru < ra))
     \<and> roles gs' = (roles gs)(u := None) \<and> gs_info gs' = gs_info gs \<and> gs_banned gs' = (gs_banned gs)(u \<mapsto> now)"
| "group_effect now (GUnban a u) gs gs' \<longleftrightarrow> at_least RoleAdmin a gs
     \<and> roles gs' = roles gs \<and> gs_info gs' = gs_info gs \<and> gs_banned gs' = (gs_banned gs)(u := None)"
| "group_effect now (GAnnounce a t) gs gs' \<longleftrightarrow> at_least RoleAdmin a gs
     \<and> roles gs' = roles gs \<and> gs_info gs' = (gs_info gs)\<lparr>gi_Announcement := t\<rparr> \<and> gs_banned gs' = gs_banned gs"
| "group_effect now (GMaxMembers a n) gs gs' \<longleftrightarrow> at_least RoleOwner a gs
     \<and> roles gs' = roles gs \<and> gs_info gs' = (gs_info gs)\<lparr>gi_MaxMembers := n\<rparr> \<and> gs_banned gs' = gs_banned gs"

definition call_ok :: "key \<Rightarrow> int \<Rightarrow> group_op \<Rightarrow> groupState \<Rightarrow> bool" where
  "call_ok gid now x gs \<longleftrightarrow> (\<forall>r gs'. group_apply gid now x gs = (r, gs') \<longrightarrow>
     group_wf gid gs' \<and> (r \<noteq> None \<longrightarrow> same_group gs gs') \<and> (r = None \<longrightarrow> group_effect now x gs gs'))"

lemma same_group_refl [simp]: "same_group gs gs"
  by (simp add: same_group_def)

lemma privilege_iff: "checkPrivilegeLocked a r gs = None \<longleftrightarrow> at_least r a gs"
  by (auto simp: checkPrivilegeLocked_def at_least_def roleLocked_roles split: option.split)

lemma pending_iff: "is_pending u gs \<longleftrightarrow> roles gs u = Some RolePending"
  by (auto simp: is_pending_def roleLocked_roles split: option.split)

text \<open>Replacing the role of a user who has one.\<close>

lemma replace_ok:
  assumes wf: "group_wf gid gs" and old: "roles gs u \<noteq> None" and r: "role \<in> {RoleMember, RolePending, RoleAdmin, RoleOwner}"
    and add: "gs_AddEdge gid u role pos (gs_RemoveEdge gid u gs) = (x, gs')"
  shows "x = None" "group_wf gid gs'" "roles gs' = (roles gs)(u \<mapsto> role)" "gs_info gs' = gs_info gs" "gs_banned gs' = gs_banned gs"
proof -
  note rm = RemoveEdge_ok [OF wf refl, of u]
  have u: "u \<noteq> []" using old roles_range [OF wf] by auto
  have "roles (gs_RemoveEdge gid u gs) u = None" using rm(2) by simp
  note ad = AddEdge_ok [OF rm(1) this r add]
  show "x = None" "group_wf gid gs'" "roles gs' = (roles gs)(u \<mapsto> role)" "gs_info gs' = gs_info gs" "gs_banned gs' = gs_banned gs"
    using ad rm u by simp_all
qed

lemma enter_ok:
  assumes wf: "group_wf gid gs" and r: "role \<in> {RoleMember, RolePending}"
    and add: "(if isBannedLocked u gs then (Some GErrBanned, gs) else if roleLocked u gs \<noteq> None then (Some GErrAlreadyMember, gs)
      else if isFullLocked gs then (Some GErrFull, gs) else gs_AddEdge gid u role now gs) = (x, gs')"
  shows "group_wf gid gs' \<and> (x \<noteq> None \<longrightarrow> same_group gs gs') \<and> (x = None \<longrightarrow> gs_banned gs u = None \<and> roles gs u = None \<and> \<not> isFullLocked gs
     \<and> roles gs' = (roles gs)(u \<mapsto> role) \<and> gs_info gs' = gs_info gs \<and> gs_banned gs' = gs_banned gs)"
proof (cases "isBannedLocked u gs \<or> roleLocked u gs \<noteq> None \<or> isFullLocked gs")
  case True
  then show ?thesis using add wf by (auto split: if_splits)
next
  case False
  then have new: "roles gs u = None" "gs_banned gs u = None" by (simp_all add: roleLocked_None isBannedLocked_def)
  have "gs_AddEdge gid u role now gs = (x, gs')" using add False by simp
  from AddEdge_ok [OF wf new(1) _ this] r show ?thesis using new False by (auto simp: same_group_def split: if_splits)
qed

lemma call_okI:
  assumes "\<And>r gs'. group_apply gid now x gs = (r, gs') \<Longrightarrow>
    group_wf gid gs' \<and> (r \<noteq> None \<longrightarrow> same_group gs gs') \<and> (r = None \<longrightarrow> group_effect now x gs gs')"
  shows "call_ok gid now x gs"
  using assms unfolding call_ok_def by blast

lemma call_ok_refused:
  assumes "group_wf gid gs" "group_apply gid now x gs = (Some e, gs)"
  shows "call_ok gid now x gs"
  using assms by (intro call_okI) simp

lemma Join_ok:
  assumes wf: "group_wf gid gs"
  shows "call_ok gid now (GJoin u) gs"
proof (rule call_okI)
  fix r gs'
  assume "group_apply gid now (GJoin u) gs = (r, gs')"
  then have "(if isBannedLocked u gs then (Some GErrBanned, gs) else if roleLocked u gs \<noteq> None then (Some GErrAlreadyMember, gs)
      else if isFullLocked gs then (Some GErrFull, gs) else gs_AddEdge gid u RoleMember now gs) = (r, gs')"
    unfolding group_apply.simps Group_Join_def addMemberLocked_def group_wfD [OF wf, THEN conjunct1] .
  from enter_ok [OF wf _ this] show "group_wf gid gs' \<and> (r \<noteq> None \<longrightarrow> same_group gs gs') \<and> (r = None \<longrightarrow> group_effect now (GJoin u) gs gs')"
    unfolding group_effect.simps by simp
qed

lemma Request_ok:
  assumes wf: "group_wf gid gs"
  shows "call_ok gid now (GRequest u) gs"
proof (rule call_okI)
  fix r gs'
  assume "group_apply gid now (GRequest u) gs = (r, gs')"
  from enter_ok [OF wf _ this [unfolded group_apply.simps Group_Request_def]]
  show "group_wf gid gs' \<and> (r \<noteq> None \<longrightarrow> same_group gs gs') \<and> (r = None \<longrightarrow> group_effect now (GRequest u) gs gs')"
    unfolding group_effect.simps by simp
qed

lemma Approve_ok:
  assumes wf: "group_wf gid gs"
  shows "call_ok gid now (GApprove a u) gs"
proof (cases "at_least RoleAdmin a gs \<and> roles gs u = Some RolePending \<and> \<not> isFullLocked gs")
  case True
  then have ap: "Group_Approve gid a u now gs = gs_AddEdge gid u RoleMember now (gs_RemoveEdge gid u gs)" and old: "roles gs u \<noteq> None"
    using privilege_iff [of a RoleAdmin gs] by (simp_all add: Group_Approve_def pending_iff)
  show ?thesis
  proof (rule call_okI)
    fix r gs'
    assume "group_apply gid now (GApprove a u) gs = (r, gs')"
    from replace_ok [OF wf old _ this [unfolded group_apply.simps ap]] True
    show "group_wf gid gs' \<and> (r \<noteq> None \<longrightarrow> same_group gs gs') \<and> (r = None \<longrightarrow> group_effect now (GApprove a u) gs gs')"
      unfolding group_effect.simps by simp
  qed
next
  case False
  then obtain e where "Group_Approve gid a u now gs = (Some e, gs)"
    using privilege_iff [of a RoleAdmin gs]
    by (cases "checkPrivilegeLocked a RoleAdmin gs"; cases "is_pending u gs") (auto simp: Group_Approve_def pending_iff [symmetric])
  then show ?thesis using wf call_ok_refused by simp
qed

lemma Reject_ok:
  assumes wf: "group_wf gid gs"
  shows "call_ok gid now (GReject a u) gs"
  using wf RemoveEdge_ok [OF wf refl, of u] privilege_iff [of a RoleAdmin gs]
  by (auto simp: call_ok_def Group_Reject_def pending_iff split: option.splits if_splits)

lemma Leave_ok:
  assumes wf: "group_wf gid gs"
  shows "call_ok gid now (GLeave u) gs"
  using wf RemoveEdge_ok [OF wf refl, of u]
  by (cases "roleLocked u gs") (auto simp: call_ok_def Group_Leave_def roleLocked_roles split: if_splits)

lemma Kick_ok:
  assumes wf: "group_wf gid gs"
  shows "call_ok gid now (GKick a u) gs"
  using wf RemoveEdge_ok [OF wf refl, of u]
  by (cases "roleLocked a gs"; cases "roleLocked u gs") (auto simp: call_ok_def Group_Kick_def roleLocked_roles split: if_splits)

lemma setRole_ok:
  assumes wf: "group_wf gid gs" and r: "role \<in> {RoleMember, RoleAdmin}" and res: "Group_setRole gid a u role now gs = (x, gs')"
  shows "group_wf gid gs' \<and> (x \<noteq> None \<longrightarrow> same_group gs gs') \<and> (x = None \<longrightarrow> at_least RoleOwner a gs \<and> roles gs u \<noteq> None
     \<and> roles gs' = (roles gs)(u \<mapsto> role) \<and> gs_info gs' = gs_info gs \<and> gs_banned gs' = gs_banned gs)"
proof (cases "at_least RoleOwner a gs \<and> roles gs u \<noteq> None")
  case True
  then have "gs_AddEdge gid u role now (gs_RemoveEdge gid u gs) = (x, gs')"
    using res privilege_iff [of a RoleOwner gs] by (auto simp: Group_setRole_def roleLocked_None)
  from replace_ok [OF wf _ _ this] True r show ?thesis by auto
next
  case False
  then have "x \<noteq> None \<and> gs' = gs"
    using res privilege_iff [of a RoleOwner gs] by (cases "checkPrivilegeLocked a RoleOwner gs") (auto simp: Group_setRole_def roleLocked_None)
  then show ?thesis using wf by auto
qed

lemma Promote_ok:
  assumes wf: "group_wf gid gs"
  shows "call_ok gid now (GPromote a u) gs"
proof (rule call_okI)
  fix r gs'
  assume "group_apply gid now (GPromote a u) gs = (r, gs')"
  from setRole_ok [OF wf _ this [unfolded group_apply.simps Group_Promote_def]]
  show "group_wf gid gs' \<and> (r \<noteq> None \<longrightarrow> same_group gs gs') \<and> (r = None \<longrightarrow> group_effect now (GPromote a u) gs gs')"
    unfolding group_effect.simps by simp
qed

lemma Demote_ok:
  assumes wf: "group_wf gid gs"
  shows "call_ok gid now (GDemote a u) gs"
proof (rule call_okI)
  fix r gs'
  assume "group_apply gid now (GDemote a u) gs = (r, gs')"
  from setRole_ok [OF wf _ this [unfolded group_apply.simps Group_Demote_def]]
  show "group_wf gid gs' \<and> (r \<noteq> None \<longrightarrow> same_group gs gs') \<and> (r = None \<longrightarrow> group_effect now (GDemote a u) gs gs')"
    unfolding group_effect.simps by simp
qed

text \<open>An edge that exists is not replaced; the error is ignored by \<open>TransferOwner\<close>.\<close>

lemma AddEdge_exists:
  assumes wf: "group_wf gid gs" and old: "roles gs u \<noteq> None"
  shows "group_wf gid (snd (gs_AddEdge gid u role pos gs))" "roles (snd (gs_AddEdge gid u role pos gs)) = roles gs"
    "gs_info (snd (gs_AddEdge gid u role pos gs)) = gs_info gs" "gs_banned (snd (gs_AddEdge gid u role pos gs)) = gs_banned gs"
proof -
  have gid: "gi_ID (gs_info gs) = gid" "gid \<noteq> []" "u \<noteq> []" using group_wfD [OF wf] old roles_range [OF wf] by auto
  have ex: "edge_at (gs_graph gs) gid u \<noteq> None" using old gid by (simp add: roles_def)
  have st: "\<not> Graph_isBlockedLocked u gid (gs_graph gs)"
  proof (cases "edge_at (gs_graph gs) u gid")
    case (Some e)
    then have "eg_State e \<in> {RoleMember, RolePending, RoleAdmin, RoleOwner}" using wf unfolding group_wf_def by blast
    then show ?thesis using Some by (auto simp: Graph_isBlockedLocked_def role_values)
  qed (simp add: Graph_isBlockedLocked_def)
  have res: "snd (gs_AddEdge gid u role pos gs) = gs\<lparr>gs_graph := make_row gid (gs_graph gs)\<rparr>"
    using gid ex st by (simp add: gs_AddEdge_def Graph_AddEdge_def member_edge_def Let_def)
  show "group_wf gid (snd (gs_AddEdge gid u role pos gs))" using wf unfolding res group_wf_def by (simp add: graph_wf_make_row)
  show "roles (snd (gs_AddEdge gid u role pos gs)) = roles gs" unfolding res by (simp add: roles_def fun_eq_iff)
  show "gs_info (snd (gs_AddEdge gid u role pos gs)) = gs_info gs" "gs_banned (snd (gs_AddEdge gid u role pos gs)) = gs_banned gs" unfolding res by simp_all
qed

lemma Transfer_ok:
  assumes wf: "group_wf gid gs"
  shows "call_ok gid now (GTransfer a u) gs"
proof (cases "at_least RoleOwner a gs \<and> roles gs u \<noteq> None")
  case False
  then obtain e where "Group_TransferOwner gid a u now gs = (Some e, gs)"
    using privilege_iff [of a RoleOwner gs] by (cases "checkPrivilegeLocked a RoleOwner gs") (auto simp: Group_TransferOwner_def roleLocked_None)
  then show ?thesis using wf call_ok_refused by simp
next
  case True
  define g1 where "g1 = gs_RemoveEdge gid u (gs_RemoveEdge gid a gs)"
  define g2 where "g2 = snd (gs_AddEdge gid a RoleAdmin now g1)"
  define g3 where "g3 = snd (gs_AddEdge gid u RoleOwner (now + 1) g2)"
  have ne: "a \<noteq> []" "u \<noteq> []" using True roles_range [OF wf] by (auto simp: at_least_def)
  note r1 = RemoveEdge_ok [OF wf refl, of a]
  note r2 = RemoveEdge_ok [OF r1(1) refl, of u, folded g1_def]
  have a1: "roles g1 a = None" using r1(2) r2(2) by simp
  note r3 = AddEdge_ok [OF r2(1) a1 _ surjective_pairing, of RoleAdmin now, folded g2_def]
  have g2: "group_wf gid g2" "roles g2 = (roles g1)(a \<mapsto> RoleAdmin)" "gs_info g2 = gs_info gs" "gs_banned g2 = gs_banned gs"
    using r3 ne r1(3,4) r2(3,4) by simp_all
  have g3: "group_wf gid g3 \<and> roles g3 = (if u = a then (roles gs)(a \<mapsto> RoleAdmin) else (roles gs)(a \<mapsto> RoleAdmin, u \<mapsto> RoleOwner))
      \<and> gs_info g3 = gs_info gs \<and> gs_banned g3 = gs_banned gs"
  proof (cases "u = a")
    case same: True
    then have "roles g2 u \<noteq> None" using g2(2) by simp
    from AddEdge_exists [OF g2(1) this, of RoleOwner "now + 1", folded g3_def] show ?thesis using g2 r1(2) r2(2) same by simp
  next
    case diff: False
    then have "roles g2 u = None" using g2(2) r2(2) by simp
    from AddEdge_ok [OF g2(1) this _ surjective_pairing, of RoleOwner "now + 1", folded g3_def]
    show ?thesis using g2 r1(2) r2(2) diff ne by (simp add: fun_upd_twist)
  qed
  let ?g = "g3\<lparr>gs_info := (gs_info g3)\<lparr>gi_OwnerID := u\<rparr>\<rparr>"
  have res: "Group_TransferOwner gid a u now gs = (None, ?g)"
    using True privilege_iff [of a RoleOwner gs] by (simp add: Group_TransferOwner_def roleLocked_None Let_def g1_def g2_def g3_def)
  have r: "roles ?g = roles g3" by (simp add: roles_def fun_eq_iff)
  have i: "gs_info ?g = (gs_info gs)\<lparr>gi_OwnerID := u\<rparr>" "gs_banned ?g = gs_banned gs" using g3 by simp_all
  have "gs_graph ?g = gs_graph g3" "gi_ID (gs_info ?g) = gi_ID (gs_info g3)" by simp_all
  then have w: "group_wf gid ?g" using g3 unfolding group_wf_def by metis
  show ?thesis
  proof (rule call_okI)
    fix x gs'
    assume "group_apply gid now (GTransfer a u) gs = (x, gs')"
    then have x: "x = None" "gs' = ?g" using res by simp_all
    have "group_effect now (GTransfer a u) gs ?g" unfolding group_effect.simps r i using g3 True by blast
    then show "group_wf gid gs' \<and> (x \<noteq> None \<longrightarrow> same_group gs gs') \<and> (x = None \<longrightarrow> group_effect now (GTransfer a u) gs gs')"
      unfolding x using w by blast
  qed
qed

lemma Ban_ok:
  assumes wf: "group_wf gid gs"
  shows "call_ok gid now (GBan a u) gs"
proof -
  have b: "roles (g\<lparr>gs_banned := bn\<rparr>) = roles g" "group_wf gid (g\<lparr>gs_banned := bn\<rparr>) = group_wf gid g" for g bn by (simp_all add: roles_def group_wf_def fun_eq_iff)
  show ?thesis using wf RemoveEdge_ok [OF wf refl, of u]
    by (cases "roleLocked a gs"; cases "roleLocked u gs") (auto simp: call_ok_def Group_Ban_def roleLocked_roles Let_def b split: if_splits)
qed

lemma Settings_ok:
  assumes wf: "group_wf gid gs"
  shows "call_ok gid now (GUnban a u) gs" "call_ok gid now (GAnnounce a t) gs" "call_ok gid now (GMaxMembers a n) gs"
proof -
  have same: "roles (gs\<lparr>gs_banned := bn\<rparr>) = roles gs" "group_wf gid (gs\<lparr>gs_banned := bn\<rparr>)"
    "roles (gs\<lparr>gs_info := (gs_info gs)\<lparr>gi_Announcement := t\<rparr>\<rparr>) = roles gs" "group_wf gid (gs\<lparr>gs_info := (gs_info gs)\<lparr>gi_Announcement := t\<rparr>\<rparr>)"
    "roles (gs\<lparr>gs_info := (gs_info gs)\<lparr>gi_MaxMembers := n\<rparr>\<rparr>) = roles gs" "group_wf gid (gs\<lparr>gs_info := (gs_info gs)\<lparr>gi_MaxMembers := n\<rparr>\<rparr>)" for bn
    using wf by (simp_all add: roles_def group_wf_def fun_eq_iff)
  show "call_ok gid now (GUnban a u) gs" using wf same privilege_iff [of a RoleAdmin gs]
    by (cases "checkPrivilegeLocked a RoleAdmin gs"; cases "gs_banned gs u") (auto simp: call_ok_def Group_Unban_def)
  show "call_ok gid now (GAnnounce a t) gs" using wf same privilege_iff [of a RoleAdmin gs]
    by (cases "checkPrivilegeLocked a RoleAdmin gs") (auto simp: call_ok_def Group_SetAnnouncement_def)
  show "call_ok gid now (GMaxMembers a n) gs" using wf same privilege_iff [of a RoleOwner gs]
    by (cases "checkPrivilegeLocked a RoleOwner gs") (auto simp: call_ok_def Group_SetMaxMembers_def)
qed

lemma group_apply_ok: "group_wf gid gs \<Longrightarrow> call_ok gid now x gs"
  by (cases x) (simp_all only: Join_ok Request_ok Approve_ok Reject_ok Leave_ok Kick_ok Promote_ok Demote_ok Transfer_ok Ban_ok Settings_ok)

section \<open>Governance\<close>

primrec actor_of :: "group_op \<Rightarrow> key" where
  "actor_of (GJoin u) = u"
| "actor_of (GRequest u) = u"
| "actor_of (GApprove a u) = a"
| "actor_of (GReject a u) = a"
| "actor_of (GLeave u) = u"
| "actor_of (GKick a u) = a"
| "actor_of (GPromote a u) = a"
| "actor_of (GDemote a u) = a"
| "actor_of (GTransfer a u) = a"
| "actor_of (GBan a u) = a"
| "actor_of (GUnban a u) = a"
| "actor_of (GAnnounce a t) = a"
| "actor_of (GMaxMembers a n) = a"

text \<open>Which change of a user's role the roles allow an actor.\<close>

definition may_change :: "(key \<rightharpoonup> int) \<Rightarrow> key \<Rightarrow> key \<Rightarrow> int option \<Rightarrow> bool" where
  "may_change R a u new \<longleftrightarrow>
     (if a = u
      then R u = None \<and> (new = Some RoleMember \<or> new = Some RolePending)
         \<or> R u \<noteq> None \<and> R u \<noteq> Some RoleOwner \<and> new = None
         \<or> R u = Some RoleOwner \<and> new = Some RoleAdmin
      else \<exists>ra ru. R a = Some ra \<and> R u = Some ru \<and> RoleAdmin \<le> ra \<and> ru < ra \<and> (\<forall>r. new = Some r \<longrightarrow> r \<le> ra))"

text \<open>An owner who names himself in a change of roles.\<close>

definition group_fair :: "group_op \<Rightarrow> bool" where
  "group_fair x = (case x of GPromote a u \<Rightarrow> a \<noteq> u | GDemote a u \<Rightarrow> a \<noteq> u | GTransfer a u \<Rightarrow> a \<noteq> u | _ \<Rightarrow> True)"

definition group_inv :: "key \<Rightarrow> groupState \<Rightarrow> bool" where
  "group_inv gid gs \<longleftrightarrow> group_wf gid gs \<and> (\<forall>u. roles gs u = Some RoleOwner \<longleftrightarrow> u = gi_OwnerID (gs_info gs))
     \<and> (\<forall>u. gs_banned gs u \<noteq> None \<longrightarrow> roles gs u = None)"

lemma role_order: "RoleMember < RolePending" "RolePending < RoleAdmin" "RoleAdmin < RoleOwner" "RoleMember \<noteq> RoleOwner" "RolePending \<noteq> RoleOwner" "RoleAdmin \<noteq> RoleOwner"
  by (simp_all add: role_values)

lemma roles_le: "group_wf gid gs \<Longrightarrow> roles gs u = Some r \<Longrightarrow> r \<le> RoleOwner"
  using roles_range [of gid gs u r] by (auto simp: role_values)

lemma at_least_owner: "group_wf gid gs \<Longrightarrow> at_least RoleOwner a gs \<longleftrightarrow> roles gs a = Some RoleOwner"
  using roles_le [of gid gs a] by (auto simp: at_least_def)

lemma below_owner: "group_inv gid gs \<Longrightarrow> roles gs a = Some RoleOwner \<Longrightarrow> a \<noteq> u \<Longrightarrow> roles gs u = Some ru \<Longrightarrow> ru < RoleOwner"
  using roles_le [of gid gs u ru] by (auto simp: group_inv_def le_less)

lemma effect_may_change:
  assumes inv: "group_inv gid gs" and fair: "group_fair x" and eff: "group_effect now x gs gs'" and ch: "roles gs' u \<noteq> roles gs u"
  shows "may_change (roles gs) (actor_of x) u (roles gs' u)"
proof -
  have wf: "group_wf gid gs" using inv by (simp add: group_inv_def)
  note own = at_least_owner [OF wf] and below = below_owner [OF inv]
  show ?thesis
  proof (cases x)
    case (GApprove a v)
    then show ?thesis using eff ch role_order by (auto simp: may_change_def at_least_def split: if_splits)
  next
    case (GReject a v)
    then show ?thesis using eff ch role_order by (auto simp: may_change_def at_least_def split: if_splits)
  next
    case (GPromote a v)
    then have "roles gs a = Some RoleOwner" "u = v" "a \<noteq> u" "roles gs u \<noteq> None" "roles gs' u = Some RoleAdmin"
      using eff ch own fair by (auto simp: group_fair_def split: if_splits)
    then show ?thesis using below [of a u] role_order GPromote by (auto simp: may_change_def)
  next
    case (GDemote a v)
    then have "roles gs a = Some RoleOwner" "u = v" "a \<noteq> u" "roles gs u \<noteq> None" "roles gs' u = Some RoleMember"
      using eff ch own fair by (auto simp: group_fair_def split: if_splits)
    then show ?thesis using below [of a u] role_order GDemote by (auto simp: may_change_def)
  next
    case (GTransfer a v)
    then have t: "roles gs a = Some RoleOwner" "a \<noteq> v" "roles gs v \<noteq> None" "roles gs' = (roles gs)(a \<mapsto> RoleAdmin, v \<mapsto> RoleOwner)"
      using eff own fair by (auto simp: group_fair_def)
    then consider "u = a" | "u = v" using ch by (auto split: if_splits)
    then show ?thesis
    proof cases
      case 1
      then show ?thesis using t GTransfer by (simp add: may_change_def)
    next
      case 2
      then show ?thesis using t GTransfer below [of a u] role_order by (auto simp: may_change_def)
    qed
  next
    case (GKick a v)
    then obtain ra ru where k: "roles gs a = Some ra" "roles gs v = Some ru" "RoleAdmin \<le> ra" "ru < ra" "roles gs' = (roles gs)(v := None)"
      using eff unfolding GKick group_effect.simps by blast
    then have "u = v" "roles gs' u = None" using ch by (auto split: if_splits)
    then show ?thesis using k GKick by (auto simp: may_change_def)
  next
    case (GBan a v)
    then obtain ra where k: "roles gs a = Some ra" "RoleAdmin \<le> ra" "\<forall>ru. roles gs v = Some ru \<longrightarrow> ru < ra" "roles gs' = (roles gs)(v := None)"
      using eff unfolding GBan group_effect.simps by blast
    then have "u = v" "roles gs' u = None" using ch by (auto split: if_splits)
    moreover from this obtain ru where "roles gs u = Some ru" using ch by fastforce
    ultimately show ?thesis using k GBan by (auto simp: may_change_def)
  next
    case (GJoin v)
    then show ?thesis using eff ch by (auto simp: may_change_def split: if_splits)
  next
    case (GRequest v)
    then show ?thesis using eff ch by (auto simp: may_change_def split: if_splits)
  next
    case (GLeave v)
    then show ?thesis using eff ch by (auto simp: may_change_def split: if_splits)
  qed (use eff ch in simp_all)
qed

lemma effect_inv:
  assumes inv: "group_inv gid gs" and fair: "group_fair x" and eff: "group_effect now x gs gs'" and wf': "group_wf gid gs'"
  shows "group_inv gid gs'"
proof -
  have wf: "group_wf gid gs" and o: "\<And>u. roles gs u = Some RoleOwner \<longleftrightarrow> u = gi_OwnerID (gs_info gs)"
    and b: "\<And>u. gs_banned gs u \<noteq> None \<Longrightarrow> roles gs u = None" using inv by (simp_all add: group_inv_def)
  note own = at_least_owner [OF wf]
  have le: "\<And>u r. roles gs u = Some r \<Longrightarrow> r \<le> RoleOwner" using roles_le [OF wf] .
  have nb: "gs_banned gs u = None" if "roles gs u \<noteq> None" for u using b [of u] that by blast
  have "(\<forall>u. roles gs' u = Some RoleOwner \<longleftrightarrow> u = gi_OwnerID (gs_info gs')) \<and> (\<forall>u. gs_banned gs' u \<noteq> None \<longrightarrow> roles gs' u = None)"
  proof (cases x)
    case (GJoin v)
    then show ?thesis using eff o b role_order o [of v] by auto
  next
    case (GRequest v)
    then show ?thesis using eff o b role_order o [of v] by auto
  next
    case (GApprove a v)
    then show ?thesis using eff o b role_order o [of v] nb [of v] by auto
  next
    case (GReject a v)
    then show ?thesis using eff o b role_order o [of v] by auto
  next
    case (GLeave v)
    then show ?thesis using eff o b o [of v] by auto
  next
    case (GKick a v)
    then have "roles gs v \<noteq> Some RoleOwner" using eff le by fastforce
    then show ?thesis using GKick eff o b o [of v] by auto
  next
    case (GPromote a v)
    then have "v \<noteq> gi_OwnerID (gs_info gs)" using eff own o [of a] fair by (auto simp: group_fair_def)
    then show ?thesis using GPromote eff o b role_order nb [of v] by auto
  next
    case (GDemote a v)
    then have "v \<noteq> gi_OwnerID (gs_info gs)" using eff own o [of a] fair by (auto simp: group_fair_def)
    then show ?thesis using GDemote eff o b role_order nb [of v] by auto
  next
    case (GTransfer a v)
    then have t: "a = gi_OwnerID (gs_info gs)" "a \<noteq> v" "roles gs v \<noteq> None" "roles gs' = (roles gs)(a \<mapsto> RoleAdmin, v \<mapsto> RoleOwner)"
        "gi_OwnerID (gs_info gs') = v" "gs_banned gs' = gs_banned gs"
      using eff own o [of a] fair by (auto simp: group_fair_def)
    then show ?thesis using o b o [of a] role_order nb [of v] nb [of a] by auto
  next
    case (GBan a v)
    then have "roles gs v \<noteq> Some RoleOwner" using eff le by fastforce
    then show ?thesis using GBan eff o b o [of v] by auto
  qed (use eff o b in \<open>auto split: if_splits\<close>)
  then show ?thesis using wf' by (simp add: group_inv_def)
qed

lemma same_inv: "group_inv gid gs \<Longrightarrow> same_group gs gs' \<Longrightarrow> group_wf gid gs' \<Longrightarrow> group_inv gid gs'"
  by (simp add: group_inv_def same_group_def)

lemma apply_inv:
  assumes inv: "group_inv gid gs" and fair: "group_fair x" and ap: "group_apply gid now x gs = (r, gs')"
  shows "group_inv gid gs'"
proof -
  have "call_ok gid now x gs" using inv group_apply_ok by (simp add: group_inv_def)
  then have c: "group_wf gid gs'" "r \<noteq> None \<Longrightarrow> same_group gs gs'" "r = None \<Longrightarrow> group_effect now x gs gs'" using ap unfolding call_ok_def by blast+
  show ?thesis using same_inv [OF inv c(2) c(1)] effect_inv [OF inv fair c(3) c(1)] by (cases "r = None") blast+
qed

fun group_run :: "key \<Rightarrow> (int \<times> group_op) list \<Rightarrow> groupState \<Rightarrow> groupState" where
  "group_run gid [] gs = gs"
| "group_run gid ((now, x) # xs) gs = group_run gid xs (snd (group_apply gid now x gs))"

lemma run_inv: "group_inv gid gs \<Longrightarrow> \<forall>p\<in>set xs. group_fair (snd p) \<Longrightarrow> group_inv gid (group_run gid xs gs)"
proof (induction gid xs gs rule: group_run.induct)
  case (2 gid now x xs gs)
  have "group_inv gid (snd (group_apply gid now x gs))" using apply_inv [OF 2(2) _ surjective_pairing] 2(3) by simp
  then show ?case using 2 by simp
qed simp

lemma Create_inv:
  assumes "Group_Create g now s = (None, s')"
  obtains gs where "s' = s(gi_ID g \<mapsto> gs)" "group_inv (gi_ID g) gs"
proof -
  define h where "h = (if gi_CreatedAt g = 0 then g\<lparr>gi_CreatedAt := now\<rparr> else g)"
  have h: "gi_ID h = gi_ID g" "gi_OwnerID h = gi_OwnerID g" by (simp_all add: h_def)
  have ne: "gi_ID g \<noteq> []" "gi_OwnerID g \<noteq> []" using assms by (auto simp: Group_Create_def split: if_splits)
  let ?e = "\<lparr>gs_info = h, gs_graph = Graph_New, gs_banned = Map.empty\<rparr>"
  define gs where "gs = snd (gs_AddEdge (gi_ID g) (gi_OwnerID g) RoleOwner (gi_CreatedAt h) ?e)"
  have s': "s' = s(gi_ID g \<mapsto> gs)" using assms by (auto simp: Group_Create_def Let_def gs_def h h_def split: if_splits)
  have no: "edge_at Graph_New a b = None" for a b by (simp add: edge_at_def row_of_def Graph_New_def)
  have wf: "group_wf (gi_ID g) ?e" using ne(1) h by (simp add: group_wf_def no) (simp add: graph_wf_def Graph_New_def)
  have "roles ?e (gi_OwnerID g) = None" by (simp add: roles_def no)
  note ad = AddEdge_ok [OF wf this _ surjective_pairing, of RoleOwner "gi_CreatedAt h", folded gs_def]
  have "roles ?e = Map.empty" by (simp add: roles_def no fun_eq_iff)
  then have "group_inv (gi_ID g) gs" using ad ne(2) h by (auto simp: group_inv_def)
  then show thesis using that s' by blast
qed



text \<open>An owner who demotes himself, or who transfers the group to himself, leaves it without an owner for good: the
  entity still names him, but nobody can set roles, limits or a new owner any more.\<close>

lemma Demote_self_ownerless:
  "let gs = group_run ''g'' [(2, GJoin ''bob''), (3, GDemote ''ann'' ''ann'')]
        (the (snd (Group_Create \<lparr>gi_ID = ''g'', gi_Name = '''', gi_OwnerID = ''ann'', gi_Announcement = '''', gi_MaxMembers = 0, gi_CreatedAt = 1\<rparr> 1 Map.empty) ''g''))
   in roles gs ''ann'' = Some RoleMember \<and> gi_OwnerID (gs_info gs) = ''ann''
    \<and> fst (group_apply ''g'' 4 (GTransfer ''ann'' ''bob'') gs) = Some GErrNoPermission"
  by code_simp

lemma Transfer_self_ownerless:
  "let gs = group_run ''g'' [(3, GTransfer ''ann'' ''ann'')]
        (the (snd (Group_Create \<lparr>gi_ID = ''g'', gi_Name = '''', gi_OwnerID = ''ann'', gi_Announcement = '''', gi_MaxMembers = 0, gi_CreatedAt = 1\<rparr> 1 Map.empty) ''g''))
   in roles gs ''ann'' = Some RoleAdmin \<and> gi_OwnerID (gs_info gs) = ''ann''"
  by code_simp

text \<open>A request that waits for approval can be promoted past the limit of members.\<close>

lemma Promote_pending_past_limit:
  "let gs = group_run ''g'' [(2, GRequest ''bob''), (3, GJoin ''cat''), (4, GPromote ''ann'' ''bob'')]
        (the (snd (Group_Create \<lparr>gi_ID = ''g'', gi_Name = '''', gi_OwnerID = ''ann'', gi_Announcement = '''', gi_MaxMembers = 2, gi_CreatedAt = 1\<rparr> 1 Map.empty) ''g''))
   in Group_MemberCount ''g'' gs = 3"
  by code_simp

section \<open>The limit of members\<close>

definition member_set :: "groupState \<Rightarrow> key set" where
  "member_set gs = {u. \<exists>r. roles gs u = Some r \<and> r \<noteq> RolePending}"

text \<open>The count the code takes is the number of members, as long as \<open>Outgoing\<close> does not cut its answer off.\<close>

lemma MemberCount_card:
  assumes wf: "group_wf gid gs" and small: "length (row_of (gs_graph gs) gid) \<le> 2 ^ 30"
  shows "finite (member_set gs)" "length (full_members (Graph_Outgoing gid 0 (2 ^ 30) (-1) (gs_graph gs))) = card (member_set gs)"
proof -
  let ?row = "row_of (gs_graph gs) gid" and ?P = "\<lambda>e. eg_State e = RoleOwner \<or> eg_State e = RoleAdmin \<or> eg_State e = RoleMember"
  have d: "distinct (map fst ?row)" using wf row_wf_row_of by (simp add: group_wf_def row_wf_def)
  have st: "eg_State e \<in> {RoleMember, RolePending, RoleAdmin, RoleOwner}" if "map_of ?row u = Some e" for u e
    using wf that unfolding group_wf_def edge_at_def by blast
  have "selected gid (-1) (gs_graph gs) = map snd ?row" by (simp add: selected_def)
  then have "Graph_Outgoing gid 0 (2 ^ 30) (-1) (gs_graph gs) = sort_key (\<lambda>e. - eg_Position e) (map snd ?row)"
    using small by (simp add: Outgoing_filter)
  then have "length (full_members (Graph_Outgoing gid 0 (2 ^ 30) (-1) (gs_graph gs))) = length (filter ?P (map snd ?row))"
    by (simp add: full_members_def filter_sort)
  also have "\<dots> = length (filter (\<lambda>p. ?P (snd p)) ?row)" by (simp add: filter_map comp_def)
  also have "\<dots> = card (fst ` set (filter (\<lambda>p. ?P (snd p)) ?row))"
    using distinct_card [OF distinct_map_filter [OF d, of "\<lambda>p. ?P (snd p)"]] by simp
  also have members: "fst ` set (filter (\<lambda>p. ?P (snd p)) ?row) = member_set gs"
  proof -
    have "u \<in> fst ` set (filter (\<lambda>p. ?P (snd p)) ?row) \<longleftrightarrow> (\<exists>e. map_of ?row u = Some e \<and> ?P e)" for u
      by (force simp: map_of_eq_Some_iff [OF d])
    moreover have "(\<exists>e. map_of ?row u = Some e \<and> ?P e) \<longleftrightarrow> u \<in> member_set gs" for u
    proof -
      have r: "roles gs u = map_option eg_State (map_of ?row u)" using group_wfD [OF wf] by (simp add: roles_def edge_at_def)
      show ?thesis
      proof (cases "map_of ?row u")
        case (Some e)
        then show ?thesis using st [OF Some] by (auto simp: member_set_def r role_values)
      qed (simp add: member_set_def r)
    qed
    ultimately show ?thesis by blast
  qed
  finally show "length (full_members (Graph_Outgoing gid 0 (2 ^ 30) (-1) (gs_graph gs))) = card (member_set gs)" .
  show "finite (member_set gs)" unfolding members [symmetric] by (rule finite_imageI [OF finite_set])
qed

text \<open>Joining and approving never take a group past its limit.\<close>

lemma admission_within_limit:
  assumes wf: "group_wf gid gs" and small: "length (row_of (gs_graph gs) gid) \<le> 2 ^ 30" and mx: "0 < gi_MaxMembers (gs_info gs)"
    and x: "x = GJoin u \<or> x = GApprove a u" and ap: "group_apply gid now x gs = (None, gs')"
  shows "int (card (member_set gs')) \<le> gi_MaxMembers (gs_info gs')"
proof -
  have "group_effect now x gs gs'" using group_apply_ok [OF wf, of now x] ap unfolding call_ok_def by blast
  then have e: "\<not> isFullLocked gs" "roles gs' = (roles gs)(u \<mapsto> RoleMember)" "gs_info gs' = gs_info gs" "u \<notin> member_set gs"
    using x by (auto simp: member_set_def)
  have "member_set gs' = insert u (member_set gs)" using e(2) by (auto simp: member_set_def role_values)
  then have "card (member_set gs') = Suc (card (member_set gs))" using e(4) MemberCount_card(1) [OF wf small] by simp
  moreover have "int (card (member_set gs)) < gi_MaxMembers (gs_info gs)"
    using e(1) mx MemberCount_card(2) [OF wf small] group_wfD [OF wf] by (simp add: isFullLocked_def)
  ultimately show ?thesis using e(3) by simp
qed

end
