(* ===== verification/Rollback.thy ===== *)
theory Rollback
  imports Prelude
begin

text \<open>
  \<open>pkg/rollback\<close>: a session that predicts frames, keeps a snapshot and the inputs of each, and on an authoritative state
  from the server goes back to that frame and simulates the later ones again. The simulator is an argument. Frames are
  natural numbers; the difference of two frames becomes an \<open>int\<close> as in the code, so the theorems speak of frames below
  \<open>2 ^ 63\<close>. The specification is a server state and the list of inputs that are not acknowledged yet.
\<close>

section \<open>The session\<close>

type_synonym ('s, 'i) simulator = "'s \<Rightarrow> nat \<Rightarrow> 'i list \<Rightarrow> 's"

record rollback_config =
  rbc_maxRollback :: int
  rbc_snapDepth :: int

definition WithMaxRollback :: "int \<Rightarrow> rollback_config \<Rightarrow> rollback_config" where
  "WithMaxRollback n c = (if 0 < n then c\<lparr>rbc_maxRollback := n\<rparr> else c)"

definition WithSnapDepth :: "int \<Rightarrow> rollback_config \<Rightarrow> rollback_config" where
  "WithSnapDepth n c = (if 0 < n then c\<lparr>rbc_snapDepth := n\<rparr> else c)"

record rollback_stats =
  rs_Rollbacks :: int
  rs_MaxRollbackN :: int
  rs_TotalResim :: int
  rs_Corrections :: int
  rs_ForcedResets :: int
  rs_CurrentFrame :: nat
  rs_ConfirmedFrame :: nat

record ('s, 'i) Session =
  ss_maxRollback :: int
  ss_confirmedFrame :: nat
  ss_currentFrame :: nat
  ss_confirmedState :: 's
  ss_currentState :: 's
  ss_snaps :: "nat \<rightharpoonup> 's"
  ss_inputs :: "nat \<rightharpoonup> 'i list"
  ss_stats :: rollback_stats

definition NewSession :: "'s \<Rightarrow> (rollback_config \<Rightarrow> rollback_config) list \<Rightarrow> ('s, 'i) Session" where
  "NewSession initial opts =
     (let cfg = foldl (\<lambda>c f. f c) \<lparr>rbc_maxRollback = 8, rbc_snapDepth = 32\<rparr> opts
      in \<lparr>ss_maxRollback = rbc_maxRollback cfg, ss_confirmedFrame = 0, ss_currentFrame = 0, ss_confirmedState = initial,
          ss_currentState = initial, ss_snaps = [0 \<mapsto> initial], ss_inputs = Map.empty,
          ss_stats = \<lparr>rs_Rollbacks = 0, rs_MaxRollbackN = 0, rs_TotalResim = 0, rs_Corrections = 0, rs_ForcedResets = 0,
                      rs_CurrentFrame = 0, rs_ConfirmedFrame = 0\<rparr>\<rparr>)"

definition Session_Advance :: "('s, 'i) simulator \<Rightarrow> 'i list \<Rightarrow> ('s, 'i) Session \<Rightarrow> (nat \<times> 's) \<times> ('s, 'i) Session" where
  "Session_Advance sim predicted s =
     (let frame = ss_currentFrame s + 1;
          st = sim (ss_currentState s) frame predicted;
          s' = s\<lparr>ss_currentFrame := frame, ss_currentState := st, ss_snaps := (ss_snaps s)(frame \<mapsto> st),
                 ss_inputs := (ss_inputs s)(frame \<mapsto> predicted), ss_stats := (ss_stats s)\<lparr>rs_CurrentFrame := frame\<rparr>\<rparr>
      in ((frame, st), s'))"

definition Session_gc :: "nat \<Rightarrow> ('s, 'i) Session \<Rightarrow> ('s, 'i) Session" where
  "Session_gc oldConfirmed s =
     (let fs = {oldConfirmed..<ss_confirmedFrame s}
      in s\<lparr>ss_snaps := (\<lambda>f. if f \<in> fs then None else ss_snaps s f), ss_inputs := (\<lambda>f. if f \<in> fs then None else ss_inputs s f)\<rparr>)"

text \<open>One round of the loop that simulates a frame again.\<close>

definition resim_frame :: "('s, 'i) simulator \<Rightarrow> (nat \<rightharpoonup> 'i list) \<Rightarrow> nat \<Rightarrow> 's \<times> (nat \<rightharpoonup> 's) \<times> int \<Rightarrow> 's \<times> (nat \<rightharpoonup> 's) \<times> int" where
  "resim_frame sim inputs f acc =
     (case acc of (st, snaps, n) \<Rightarrow> let st' = sim st f (map_get [] inputs f) in (st', snaps(f \<mapsto> st'), n + 1))"

definition Session_Confirm :: "('s, 'i) simulator \<Rightarrow> nat \<Rightarrow> 's \<Rightarrow> 'i list \<Rightarrow> ('s, 'i) Session \<Rightarrow> (bool \<times> int \<times> 's) \<times> ('s, 'i) Session" where
  "Session_Confirm sim frame serverState confirmedInputs s =
     (if frame \<le> ss_confirmedFrame s then ((False, 0, ss_currentState s), s)
      else
        let oldConfirmed = ss_confirmedFrame s;
            s1 = s\<lparr>ss_confirmedFrame := frame, ss_confirmedState := serverState,
                   ss_stats := (ss_stats s)\<lparr>rs_ConfirmedFrame := frame\<rparr>, ss_inputs := (ss_inputs s)(frame \<mapsto> confirmedInputs)\<rparr>;
            s2 = (if oldConfirmed < frame then Session_gc oldConfirmed s1 else s1);
            gap = wrap64 (int (ss_currentFrame s2) - int frame)
        in if gap \<le> 0 then
             let s3 = s2\<lparr>ss_currentFrame := frame, ss_currentState := serverState, ss_snaps := (ss_snaps s2)(frame \<mapsto> serverState),
                         ss_stats := (ss_stats s2)\<lparr>rs_Corrections := rs_Corrections (ss_stats s2) + 1\<rparr>\<rparr>
             in ((False, 0, serverState), s3)
           else if ss_maxRollback s2 < gap then
             let s3 = s2\<lparr>ss_currentFrame := frame, ss_currentState := serverState, ss_snaps := (ss_snaps s2)(frame \<mapsto> serverState),
                         ss_stats := (ss_stats s2)\<lparr>rs_ForcedResets := rs_ForcedResets (ss_stats s2) + 1\<rparr>\<rparr>
             in ((True, 0, serverState), s3)
           else
             let stats = (ss_stats s2)\<lparr>rs_Rollbacks := rs_Rollbacks (ss_stats s2) + 1,
                           rs_MaxRollbackN := (if rs_MaxRollbackN (ss_stats s2) < gap then gap else rs_MaxRollbackN (ss_stats s2))\<rparr>;
                 (st, snaps, resimN) = fold (resim_frame sim (ss_inputs s2)) [frame + 1..<ss_currentFrame s2 + 1]
                                         (serverState, (ss_snaps s2)(frame \<mapsto> serverState), 0);
                 s3 = s2\<lparr>ss_currentState := st, ss_snaps := snaps, ss_stats := stats\<lparr>rs_TotalResim := rs_TotalResim stats + resimN\<rparr>\<rparr>
             in ((True, resimN, st), s3))"

definition Session_State :: "('s, 'i) Session \<Rightarrow> 's" where
  "Session_State s = ss_currentState s"

definition Session_Frame :: "('s, 'i) Session \<Rightarrow> nat" where
  "Session_Frame s = ss_currentFrame s"

definition Session_ConfirmedFrame :: "('s, 'i) Session \<Rightarrow> nat" where
  "Session_ConfirmedFrame s = ss_confirmedFrame s"

definition Session_PredictionGap :: "('s, 'i) Session \<Rightarrow> int" where
  "Session_PredictionGap s = wrap64 (int (ss_currentFrame s) - int (ss_confirmedFrame s))"

definition Session_SnapshotAt :: "nat \<Rightarrow> ('s, 'i) Session \<Rightarrow> 's option" where
  "Session_SnapshotAt frame s = ss_snaps s frame"

section \<open>The specification\<close>

text \<open>The last state the server sent, and the inputs of the frames after it.\<close>

record ('s, 'i) ahead =
  ah_frame :: nat
  ah_state :: 's
  ah_preds :: "'i list list"

primrec sim_from :: "('s, 'i) simulator \<Rightarrow> nat \<Rightarrow> 's \<Rightarrow> 'i list list \<Rightarrow> 's" where
  "sim_from sim f st [] = st"
| "sim_from sim f st (p # ps) = sim_from sim (Suc f) (sim st (Suc f) p) ps"

definition ahead_advance :: "'i list \<Rightarrow> ('s, 'i) ahead \<Rightarrow> ('s, 'i) ahead" where
  "ahead_advance p a = a\<lparr>ah_preds := ah_preds a @ [p]\<rparr>"

text \<open>A newer state acknowledges the inputs up to its frame; what is left is kept unless it is too much.\<close>

definition ahead_confirm :: "int \<Rightarrow> nat \<Rightarrow> 's \<Rightarrow> ('s, 'i) ahead \<Rightarrow> ('s, 'i) ahead" where
  "ahead_confirm mx frame st a =
     (if frame \<le> ah_frame a then a
      else let rest = drop (frame - ah_frame a) (ah_preds a)
           in \<lparr>ah_frame = frame, ah_state = st, ah_preds = (if mx < int (length rest) then [] else rest)\<rparr>)"

lemma sim_from_append [simp]: "sim_from sim f st (ps @ qs) = sim_from sim (f + length ps) (sim_from sim f st ps) qs"
  by (induction ps arbitrary: f st) simp_all

definition sess_abs :: "('s, 'i) simulator \<Rightarrow> ('s, 'i) Session \<Rightarrow> ('s, 'i) ahead \<Rightarrow> bool" where
  "sess_abs sim s a \<longleftrightarrow> ss_confirmedFrame s = ah_frame a \<and> ss_confirmedState s = ah_state a
     \<and> ss_currentFrame s = ah_frame a + length (ah_preds a)
     \<and> ss_currentState s = sim_from sim (ah_frame a) (ah_state a) (ah_preds a)
     \<and> (\<forall>i<length (ah_preds a). ss_inputs s (Suc (ah_frame a + i)) = Some (ah_preds a ! i))
     \<and> (\<forall>i\<le>length (ah_preds a). ss_snaps s (ah_frame a + i) = Some (sim_from sim (ah_frame a) (ah_state a) (take i (ah_preds a))))"

lemma Advance_abs:
  assumes "sess_abs sim s a"
  shows "sess_abs sim (snd (Session_Advance sim p s)) (ahead_advance p a)"
  using assms by (auto simp: sess_abs_def Session_Advance_def ahead_advance_def Let_def nth_append less_Suc_eq le_Suc_eq)

lemma resim_ok:
  assumes "\<forall>i<length ps. inputs (Suc (f + i)) = Some (ps ! i)"
  shows "fold (resim_frame sim inputs) [f + 1..<f + length ps + 1] (st, snaps, n)
    = (sim_from sim f st ps, (\<lambda>x. if f < x \<and> x \<le> f + length ps then Some (sim_from sim f st (take (x - f) ps)) else snaps x), n + int (length ps))"
  using assms
proof (induction ps rule: rev_induct)
  case Nil
  then show ?case by (auto simp: fun_eq_iff)
next
  case (snoc p ps)
  let ?l = "f + length ps"
  have ih: "fold (resim_frame sim inputs) [f + 1..<?l + 1] (st, snaps, n)
      = (sim_from sim f st ps, (\<lambda>x. if f < x \<and> x \<le> ?l then Some (sim_from sim f st (take (x - f) ps)) else snaps x), n + int (length ps))"
    by (rule snoc.IH) (use snoc.prems in \<open>auto simp: nth_append\<close>)
  have inp: "map_get [] inputs (Suc ?l) = p" using snoc.prems by (auto simp: nth_append)
  have "[f + 1..<f + length (ps @ [p]) + 1] = [f + 1..<?l + 1] @ [Suc ?l]" by simp
  then have "fold (resim_frame sim inputs) [f + 1..<f + length (ps @ [p]) + 1] (st, snaps, n)
      = resim_frame sim inputs (Suc ?l) (sim_from sim f st ps, (\<lambda>x. if f < x \<and> x \<le> ?l then Some (sim_from sim f st (take (x - f) ps)) else snaps x), n + int (length ps))"
    using ih by simp
  also have "\<dots> = (sim_from sim f st (ps @ [p]),
      (\<lambda>x. if f < x \<and> x \<le> f + length (ps @ [p]) then Some (sim_from sim f st (take (x - f) (ps @ [p]))) else snaps x), n + int (length (ps @ [p])))"
    by (auto simp: resim_frame_def inp fun_eq_iff Let_def)
  finally show ?case .
qed

lemma wrap64_frames: "a < 2 ^ 63 \<Longrightarrow> b < 2 ^ 63 \<Longrightarrow> wrap64 (int a - int b) = int a - int b" for a b :: nat
  by (rule wrap64_id) (simp add: in_i64_def)

lemma jump_abs:
  assumes "ss_confirmedFrame s = frame" "ss_confirmedState s = st" "ss_currentFrame s = frame" "ss_currentState s = st" "ss_snaps s frame = Some st"
  shows "sess_abs sim s \<lparr>ah_frame = frame, ah_state = st, ah_preds = []\<rparr>"
  using assms by (simp add: sess_abs_def)

lemma Confirm_abs:
  assumes ab: "sess_abs sim s a" and fr: "frame < 2 ^ 63" "ss_currentFrame s < 2 ^ 63"
    and cf: "Session_Confirm sim frame st inp s = ((rolled, n, st'), s')"
  shows "sess_abs sim s' (ahead_confirm (ss_maxRollback s) frame st a) \<and> ss_maxRollback s' = ss_maxRollback s \<and> st' = ss_currentState s'
    \<and> 0 \<le> n \<and> (n \<noteq> 0 \<longrightarrow> rolled \<and> n = int (length (ah_preds (ahead_confirm (ss_maxRollback s) frame st a))))"
proof (cases "frame \<le> ss_confirmedFrame s")
  case True
  then show ?thesis using ab cf by (auto simp: Session_Confirm_def ahead_confirm_def sess_abs_def)
next
  case new: False
  let ?c = "ah_frame a" and ?L = "length (ah_preds a)"
  have c: "ss_confirmedFrame s = ?c" "ss_currentFrame s = ?c + ?L" using ab by (simp_all add: sess_abs_def)
  define s2 where "s2 = Session_gc ?c (s\<lparr>ss_confirmedFrame := frame, ss_confirmedState := st,
      ss_stats := (ss_stats s)\<lparr>rs_ConfirmedFrame := frame\<rparr>, ss_inputs := (ss_inputs s)(frame \<mapsto> inp)\<rparr>)"
  define rest where "rest = drop (frame - ?c) (ah_preds a)"
  have s2: "ss_confirmedFrame s2 = frame" "ss_confirmedState s2 = st" "ss_currentFrame s2 = ?c + ?L" "ss_maxRollback s2 = ss_maxRollback s"
    using c by (simp_all add: s2_def Session_gc_def Let_def)
  have gap: "wrap64 (int (ss_currentFrame s2) - int frame) = int (?c + ?L) - int frame" using fr c s2(3) wrap64_frames [of "?c + ?L" frame] by simp
  have lt: "?c < frame" using new c by simp
  have ah: "ahead_confirm (ss_maxRollback s) frame st a = \<lparr>ah_frame = frame, ah_state = st, ah_preds = (if ss_maxRollback s < int (length rest) then [] else rest)\<rparr>"
    using lt by (simp add: ahead_confirm_def rest_def Let_def)
  have len: "int (length rest) = max 0 (int (?c + ?L) - int frame)" using lt by (simp add: rest_def)
  consider "?c + ?L \<le> frame" | "frame < ?c + ?L" "ss_maxRollback s < int (length rest)" | "frame < ?c + ?L" "int (length rest) \<le> ss_maxRollback s" by linarith
  then show ?thesis
  proof cases
    case 1
    then have "rest = []" using lt by (simp add: rest_def)
    moreover have "int (?c + ?L) - int frame \<le> 0" using 1 by simp
    then have "rolled = False" "n = 0" "st' = st" "s' = s2\<lparr>ss_currentFrame := frame, ss_currentState := st, ss_snaps := (ss_snaps s2)(frame \<mapsto> st),
          ss_stats := (ss_stats s2)\<lparr>rs_Corrections := rs_Corrections (ss_stats s2) + 1\<rparr>\<rparr>"
      using cf new c gap lt unfolding Session_Confirm_def Let_def by (auto simp: s2_def [symmetric])
    ultimately show ?thesis using s2 by (simp add: ah jump_abs)
  next
    case 2
    then have "0 < int (?c + ?L) - int frame" "ss_maxRollback s2 < int (?c + ?L) - int frame" using len s2(4) by simp_all
    then have "n = 0" "st' = st" "s' = s2\<lparr>ss_currentFrame := frame, ss_currentState := st, ss_snaps := (ss_snaps s2)(frame \<mapsto> st),
          ss_stats := (ss_stats s2)\<lparr>rs_ForcedResets := rs_ForcedResets (ss_stats s2) + 1\<rparr>\<rparr>"
      using cf new c gap lt unfolding Session_Confirm_def Let_def by (auto simp: s2_def [symmetric])
    then show ?thesis using 2 s2 by (simp add: ah jump_abs)
  next
    case 3
    have lr: "?c + ?L = frame + length rest" using 3(1) lt by (simp add: rest_def)
    have inputs: "\<forall>i<length rest. ss_inputs s2 (Suc (frame + i)) = Some (rest ! i)"
    proof (intro allI impI)
      fix i assume "i < length rest"
      then have i: "frame - ?c + i < ?L" by (simp add: rest_def)
      have "ss_inputs s2 (Suc (frame + i)) = ss_inputs s (Suc (?c + (frame - ?c + i)))" using lt by (simp add: s2_def Session_gc_def Let_def)
      also have "\<dots> = Some (ah_preds a ! (frame - ?c + i))" using ab i by (simp add: sess_abs_def)
      finally show "ss_inputs s2 (Suc (frame + i)) = Some (rest ! i)" using i by (simp add: rest_def)
    qed
    define sn where "sn = (\<lambda>x. if frame < x \<and> x \<le> frame + length rest then Some (sim_from sim frame st (take (x - frame) rest)) else ((ss_snaps s2)(frame \<mapsto> st)) x)"
    have resim: "fold (resim_frame sim (ss_inputs s2)) [frame + 1..<ss_currentFrame s2 + 1] (st, (ss_snaps s2)(frame \<mapsto> st), 0)
        = (sim_from sim frame st rest, sn, int (length rest))"
      using resim_ok [OF inputs, of sim st "(ss_snaps s2)(frame \<mapsto> st)" 0] s2(3) lr by (simp add: sn_def)
    have g: "\<not> int (?c + ?L) - int frame \<le> 0" "\<not> ss_maxRollback s2 < int (?c + ?L) - int frame" using 3 len s2(4) by simp_all
    have "rolled" "n = int (length rest)" "st' = sim_from sim frame st rest" "\<exists>stats. s' = s2\<lparr>ss_currentState := sim_from sim frame st rest, ss_snaps := sn, ss_stats := stats\<rparr>"
      using cf new c gap lt g unfolding Session_Confirm_def Let_def by (auto simp: s2_def [symmetric] resim simp del: upt_Suc Suc_eq_plus1 One_nat_def add_Suc_right)
    then obtain stats where s': "rolled" "n = int (length rest)" "st' = sim_from sim frame st rest"
      "s' = s2\<lparr>ss_currentState := sim_from sim frame st rest, ss_snaps := sn, ss_stats := stats\<rparr>" by blast
    have "sess_abs sim s' \<lparr>ah_frame = frame, ah_state = st, ah_preds = rest\<rparr>"
      using s2 lr inputs by (auto simp: s' sess_abs_def sn_def)
    then show ?thesis using s' s2(4) 3(2) ah by simp
  qed
qed

text \<open>Histories.\<close>

datatype ('s, 'i) session_op = SAdvance "'i list" | SConfirm nat 's "'i list"

primrec session_step :: "('s, 'i) simulator \<Rightarrow> ('s, 'i) session_op \<Rightarrow> ('s, 'i) Session \<Rightarrow> ('s, 'i) Session" where
  "session_step sim (SAdvance p) s = snd (Session_Advance sim p s)"
| "session_step sim (SConfirm f st inp) s = snd (Session_Confirm sim f st inp s)"

primrec ahead_step :: "int \<Rightarrow> ('s, 'i) session_op \<Rightarrow> ('s, 'i) ahead \<Rightarrow> ('s, 'i) ahead" where
  "ahead_step mx (SAdvance p) a = ahead_advance p a"
| "ahead_step mx (SConfirm f st inp) a = ahead_confirm mx f st a"

definition frames_ok :: "('s, 'i) session_op \<Rightarrow> bool" where
  "frames_ok x = (case x of SAdvance p \<Rightarrow> True | SConfirm f st inp \<Rightarrow> f < 2 ^ 62)"

lemma session_run_abs:
  assumes "sess_abs sim s a" "\<forall>x\<in>set xs. frames_ok x" "ss_currentFrame s + length xs < 2 ^ 63" "2 ^ 62 + length xs < (2 ^ 63 :: nat)"
  shows "sess_abs sim (fold (session_step sim) xs s) (fold (ahead_step (ss_maxRollback s)) xs a)"
  using assms
proof (induction xs arbitrary: s a)
  case (Cons x xs)
  show ?case
  proof (cases x)
    case (SAdvance p)
    have m: "ss_maxRollback (snd (Session_Advance sim p s)) = ss_maxRollback s" "ss_currentFrame (snd (Session_Advance sim p s)) = Suc (ss_currentFrame s)"
      by (simp_all add: Session_Advance_def Let_def)
    from Cons.IH [OF Advance_abs [OF Cons.prems(1), of p]] Cons.prems(2-4) m SAdvance show ?thesis by simp
  next
    case (SConfirm f st inp)
    obtain rolled n st' s' where cf: "Session_Confirm sim f st inp s = ((rolled, n, st'), s')" by (metis surj_pair)
    have f: "f < 2 ^ 62" using Cons.prems(2) SConfirm by (simp add: frames_ok_def)
    note ok = Confirm_abs [OF Cons.prems(1) _ _ cf]
    have ok: "sess_abs sim s' (ahead_confirm (ss_maxRollback s) f st a)" "ss_maxRollback s' = ss_maxRollback s"
      using ok f Cons.prems(3) by simp_all
    have "ss_currentFrame s' \<le> max (ss_currentFrame s) f"
      using ok(1) Cons.prems(1) by (auto simp: sess_abs_def ahead_confirm_def Let_def split: if_splits)
    then have "ss_currentFrame s' + length xs < 2 ^ 63" using f Cons.prems(3,4) by (auto simp: max_def split: if_splits)
    from Cons.IH [OF ok(1) _ this] Cons.prems(2,4) SConfirm cf ok(2) show ?thesis by simp
  qed
qed simp

text \<open>C32. Rolling back is the same as never having predicted. After every sequence of local frames and server states (in
  any order, also late, repeated and ahead of the client), the session shows exactly the last server state with the
  inputs of the frames after it applied to it, in order; the frames, the prediction gap and the snapshots of these
  frames agree with that, and the inputs are dropped only when more of them are pending than the
  limit allows. So a wrong prediction leaves no trace once the server has answered.\<close>

theorem Session_refines:
  fixes sim :: "('s, 'i) simulator"
  assumes "\<forall>x\<in>set xs. frames_ok x" "2 ^ 62 + length xs < (2 ^ 63 :: nat)"
    and "s = fold (session_step sim) xs (NewSession initial opts)"
    and "a = fold (ahead_step (ss_maxRollback (NewSession initial opts :: ('s, 'i) Session))) xs \<lparr>ah_frame = 0, ah_state = initial, ah_preds = []\<rparr>"
  shows "Session_State s = sim_from sim (ah_frame a) (ah_state a) (ah_preds a) \<and> Session_ConfirmedFrame s = ah_frame a
    \<and> Session_Frame s = ah_frame a + length (ah_preds a) \<and> Session_PredictionGap s = int (length (ah_preds a))
    \<and> (\<forall>i\<le>length (ah_preds a). Session_SnapshotAt (ah_frame a + i) s = Some (sim_from sim (ah_frame a) (ah_state a) (take i (ah_preds a))))"
proof -
  have "sess_abs sim (NewSession initial opts :: ('s, 'i) Session) \<lparr>ah_frame = 0, ah_state = initial, ah_preds = []\<rparr>"
    by (simp add: sess_abs_def NewSession_def Let_def)
  from session_run_abs [OF this assms(1)] assms(2) have "sess_abs sim s a" unfolding assms(3,4) by (simp add: NewSession_def Let_def)
  moreover have "length (ah_preds a) \<le> length xs"
  proof -
    have "length (ah_preds (fold (ahead_step mx) xs b)) \<le> length (ah_preds b) + length xs" for mx and b :: "('s, 'i) ahead"
    proof (induction xs arbitrary: b)
      case (Cons x xs)
      have "length (ah_preds (ahead_step mx x b)) \<le> Suc (length (ah_preds b))" by (cases x) (auto simp: ahead_advance_def ahead_confirm_def Let_def)
      then show ?case using Cons [of "ahead_step mx x b"] by simp
    qed simp
    then show ?thesis unfolding assms(4) by (rule order_trans) simp
  qed
  then have "wrap64 (int (length (ah_preds a))) = int (length (ah_preds a))" using assms(2) by (intro wrap64_id) (simp add: in_i64_def)
  ultimately show ?thesis
    by (simp add: sess_abs_def Session_State_def Session_ConfirmedFrame_def Session_Frame_def Session_PredictionGap_def Session_SnapshotAt_def)
qed

text \<open>A game of adding inputs, with a wrong prediction that the server corrects.\<close>

theorem Session_refines_witness:
  "let sim = (\<lambda>st f inp. st + sum_list inp);
       s = fold (session_step sim) [SAdvance [1], SAdvance [2], SAdvance [3], SConfirm 1 10 [9]] (NewSession (0::int) [])
   in Session_State s = sim_from sim 1 10 [[2], [3]] \<and> Session_State s = 15 \<and> Session_PredictionGap s = 2"
proof -
  let ?sim = "\<lambda>st (f::nat) inp. st + sum_list inp :: int"
  let ?xs = "[SAdvance [1], SAdvance [2], SAdvance [3], SConfirm 1 10 [9]] :: (int, int) session_op list"
  let ?a = "fold (ahead_step (ss_maxRollback (NewSession (0::int) [] :: (int, int) Session))) ?xs \<lparr>ah_frame = 0, ah_state = 0, ah_preds = []\<rparr>"
  have ok: "\<forall>x\<in>set ?xs. frames_ok x" "2 ^ 62 + length ?xs < (2 ^ 63 :: nat)" by (simp_all add: frames_ok_def)
  have a: "?a = \<lparr>ah_frame = 1, ah_state = 10, ah_preds = [[2], [3]]\<rparr>"
    by (simp add: NewSession_def Let_def ahead_advance_def ahead_confirm_def)
  from Session_refines [OF ok refl a [symmetric], of ?sim] show ?thesis by (simp add: Let_def)
qed

text \<open>After a jump to the server's frame the statistics still show the old one, and the snapshots of the frames that were
  thrown away can still be read.\<close>

lemma Stats_stale_frame:
  "let sim = (\<lambda>st (f::nat) inp. st + sum_list inp);
       s = fold (session_step sim) [SAdvance [1], SAdvance [1], SAdvance [1], SConfirm 1 (10::int) []] (NewSession 0 [WithMaxRollback 1])
   in Session_Frame s = 1 \<and> rs_CurrentFrame (ss_stats s) = 3 \<and> Session_SnapshotAt 3 s = Some 3"
  by code_simp

end
