(* ===== verification/LoadBalance.thy ===== *)
theory LoadBalance
  imports Prelude
begin

text \<open>
  \<open>pkg/store/loadbalance/loadbalance.go\<close>: the consistent-hash ring, smooth weighted round robin and plain round robin. A node is
  a value of any type; \<open>any(n).(Node[T])\<close> is the argument \<open>view\<close>, which gives the identifier and the weight of a node, or
  \<open>None\<close> when the value does not implement the interface. The seeded \<open>maphash\<close> is an argument, and so is \<open>sort.Slice\<close>.

  The ring and the rendezvous hashing of \<open>Shard\<close> have the same contract: the choice does not depend on members that are
  not chosen. The locale \<open>stable_routing\<close> states it and derives what it is used for: agreement of instances that know
  the same members in a different order, and minimal migration when a member joins or leaves.
\<close>

section \<open>Choices that ignore irrelevant members\<close>

locale stable_routing =
  fixes route :: "'m list \<Rightarrow> key \<Rightarrow> 'm option"
    and ok :: "key \<Rightarrow> 'm list \<Rightarrow> bool"
  assumes ok_sub: "ok k ms \<Longrightarrow> mset ns \<subseteq># mset ms \<Longrightarrow> ok k ns"
    and route_member: "ok k ms \<Longrightarrow> route ms k = Some m \<Longrightarrow> m \<in> set ms"
    and route_none: "ok k ms \<Longrightarrow> ok k ns \<Longrightarrow> set ns \<subseteq> set ms \<Longrightarrow> route ms k = None \<Longrightarrow> route ns k = None"
    and route_subset: "ok k ms \<Longrightarrow> ok k ns \<Longrightarrow> set ns \<subseteq> set ms \<Longrightarrow> route ms k = Some m \<Longrightarrow> m \<in> set ns \<Longrightarrow> route ns k = Some m"
begin

lemma order_independent:
  assumes "ok k ms" "ok k ns" "set ms = set ns"
  shows "route ms k = route ns k"
proof (cases "route ms k")
  case None
  then show ?thesis using route_none [OF assms(1,2)] assms(3) by simp
next
  case (Some m)
  then show ?thesis using route_subset [OF assms(1,2)] route_member [OF assms(1)] assms(3) by simp
qed

lemma leave_moves_own:
  assumes "ok k ms" "route ms k \<noteq> Some m"
  shows "route (removeAll m ms) k = route ms k"
proof -
  have ok: "ok k (removeAll m ms)" by (rule ok_sub [OF assms(1)]) (simp add: removeAll_filter_not_eq mset_filter)
  show ?thesis
  proof (cases "route ms k")
    case None
    then show ?thesis using route_none [OF assms(1) ok] by auto
  next
    case (Some n)
    then show ?thesis using route_subset [OF assms(1) ok] route_member [OF assms(1)] assms(2) by auto
  qed
qed

lemma join_moves_to_new:
  assumes "ok k (m # ms)"
  shows "route (m # ms) k = Some m \<or> route (m # ms) k = route ms k"
proof -
  have ok: "ok k ms" by (rule ok_sub [OF assms]) simp
  have sub: "set ms \<subseteq> set (m # ms)" by (simp add: subset_insertI)
  show ?thesis
  proof (cases "route (m # ms) k")
    case None
    then show ?thesis using route_none [OF assms ok sub None] by simp
  next
    case (Some n)
    then show ?thesis using route_subset [OF assms ok sub Some] route_member [OF assms Some] by auto
  qed
qed

text \<open>Two instances that know different parts of a cluster agree on a key if both know the member that the whole
  cluster would choose.\<close>

lemma partial_views_agree:
  assumes "ok k ms" "ok k ns" "ok k ns'" "set ns \<subseteq> set ms" "set ns' \<subseteq> set ms" "route ms k = Some m" "m \<in> set ns" "m \<in> set ns'"
  shows "route ns k = route ns' k"
  using route_subset [OF assms(1,2,4,6,7)] route_subset [OF assms(1,3,5,6,8)] by simp

end

section \<open>The hash ring\<close>

type_synonym 't node_view = "'t \<Rightarrow> (string \<times> int) option"
type_synonym maphash = "string \<Rightarrow> 64 word"

record 't nodeItem =
  ni_node :: 't
  ni_id :: string
  ni_weight :: int

record consistentHashConfig =
  hc_virtualFactor :: "32 word"
  hc_weighted :: bool
  hc_replica :: "32 word"

record virtualNode =
  vn_hash :: "64 word"
  vn_idx :: nat

record 't ConsistentHash =
  ch_realNodes :: "'t nodeItem list"
  ch_virtualNodes :: "virtualNode list"
  ch_replica :: "32 word"

definition hashWithVirtualFactor :: "32 word \<Rightarrow> consistentHashConfig \<Rightarrow> consistentHashConfig" where
  "hashWithVirtualFactor n c = c\<lparr>hc_virtualFactor := n\<rparr>"

definition hashWithWeighted :: "bool \<Rightarrow> consistentHashConfig \<Rightarrow> consistentHashConfig" where
  "hashWithWeighted w c = c\<lparr>hc_weighted := w\<rparr>"

definition hashWithReplica :: "32 word \<Rightarrow> consistentHashConfig \<Rightarrow> consistentHashConfig" where
  "hashWithReplica n c = c\<lparr>hc_replica := n\<rparr>"

text \<open>The digits of \<open>n\<close>, written from the end of the buffer.\<close>

fun writeInt_loop :: "nat \<Rightarrow> string \<Rightarrow> string" where
  "writeInt_loop n buf = (if 0 < n then writeInt_loop (n div 10) (digit_char (n mod 10) # buf) else buf)"

declare writeInt_loop.simps [simp del]

definition writeInt :: "nat \<Rightarrow> string" where
  "writeInt n = (if n = 0 then ''0'' else writeInt_loop n [])"

definition vNodeLen :: "'t nodeItem \<Rightarrow> consistentHashConfig \<Rightarrow> int" where
  "vNodeLen rn cfg =
     (if ni_weight rn \<le> 0 then 0
      else if hc_weighted cfg then wrap64 (ni_weight rn * uint (hc_virtualFactor cfg))
      else uint (hc_virtualFactor cfg))"

text \<open>The virtual nodes of one node; a negative count (an overflow) gives none.\<close>

definition vnodes_of :: "maphash \<Rightarrow> consistentHashConfig \<Rightarrow> nat \<Rightarrow> 't nodeItem \<Rightarrow> virtualNode list" where
  "vnodes_of hash cfg i rn =
     map (\<lambda>j. \<lparr>vn_hash = hash (ni_id rn @ ''#'' @ writeInt j), vn_idx = i\<rparr>) [0..<nat (vNodeLen rn cfg)]"

text \<open>\<open>make\<close> panics (\<open>None\<close>) when the totalWeight has overflowed into the negative.\<close>

definition buildVirtualNodes ::
  "(virtualNode list \<Rightarrow> virtualNode list) \<Rightarrow> maphash \<Rightarrow> consistentHashConfig \<Rightarrow> 't nodeItem list \<Rightarrow> virtualNode list option" where
  "buildVirtualNodes srt hash cfg realNodes =
     (let totalWeight = foldl (\<lambda>t rn. wrap64 (t + vNodeLen rn cfg)) 0 realNodes
      in if totalWeight = 0 then Some []
         else if totalWeight < 0 then None
         else Some (srt (concat (map (\<lambda>(i, rn). vnodes_of hash cfg i rn) (List.enumerate 0 realNodes)))))"

definition node_items :: "'t node_view \<Rightarrow> 't list \<Rightarrow> 't nodeItem list" where
  "node_items view nodes =
     List.map_filter (\<lambda>n. case view n of None \<Rightarrow> None | Some (i, w) \<Rightarrow> Some \<lparr>ni_node = n, ni_id = i, ni_weight = w\<rparr>) nodes"

definition hash_config :: "(consistentHashConfig \<Rightarrow> consistentHashConfig) list \<Rightarrow> consistentHashConfig" where
  "hash_config opts =
     (let cfg = foldl (\<lambda>c f. f c) \<lparr>hc_virtualFactor = 100, hc_weighted = True, hc_replica = 0\<rparr> opts
      in if hc_virtualFactor cfg = 0 then cfg\<lparr>hc_virtualFactor := 100\<rparr> else cfg)"

definition NewConsistentHash ::
  "(virtualNode list \<Rightarrow> virtualNode list) \<Rightarrow> maphash \<Rightarrow> 't node_view \<Rightarrow> 't list
    \<Rightarrow> (consistentHashConfig \<Rightarrow> consistentHashConfig) list \<Rightarrow> 't ConsistentHash option" where
  "NewConsistentHash srt hash view nodes opts =
     (let cfg = hash_config opts; items = node_items view nodes
      in case buildVirtualNodes srt hash cfg items of
           None \<Rightarrow> None
         | Some vs \<Rightarrow> Some \<lparr>ch_realNodes = items, ch_virtualNodes = vs, ch_replica = hc_replica cfg\<rparr>)"

definition ring_search :: "64 word \<Rightarrow> 't ConsistentHash \<Rightarrow> nat" where
  "ring_search h c =
     (let vs = ch_virtualNodes c; idx = go_search (\<lambda>i. h < vn_hash (vs ! i)) 0 (length vs)
      in if idx = length vs then 0 else idx)"

definition ConsistentHash_Get :: "maphash \<Rightarrow> key \<Rightarrow> 't ConsistentHash \<Rightarrow> 't option" where
  "ConsistentHash_Get hash k c =
     (if ch_virtualNodes c = [] \<or> k = [] then None
      else Some (ni_node (ch_realNodes c ! vn_idx (ch_virtualNodes c ! ring_search (hash k) c))))"

text \<open>The walk around the ring, over the indices that remain.\<close>

fun replica_walk :: "'t nodeItem list \<Rightarrow> int \<Rightarrow> nat list \<Rightarrow> 't list \<Rightarrow> nat list \<Rightarrow> 't list" where
  "replica_walk items n used out [] = out"
| "replica_walk items n used out (i # is) =
     (if int (length out) < n then
        if i \<in> set used then replica_walk items n used out is
        else replica_walk items n (i # used) (out @ [ni_node (items ! i)]) is
      else out)"

definition ConsistentHash_GetReplicas :: "maphash \<Rightarrow> key \<Rightarrow> int \<Rightarrow> 't ConsistentHash \<Rightarrow> 't list" where
  "ConsistentHash_GetReplicas hash k n c =
     (if n \<le> 0 then (case ConsistentHash_Get hash k c of Some v \<Rightarrow> [v] | None \<Rightarrow> [])
      else if ch_virtualNodes c = [] \<or> k = [] then []
      else
        let n' = (if int (length (ch_realNodes c)) < n then int (length (ch_realNodes c)) else n);
            start = ring_search (hash k) c; vLen = length (ch_virtualNodes c)
        in replica_walk (ch_realNodes c) n' [] [] (map (\<lambda>i. vn_idx (ch_virtualNodes c ! ((start + i) mod vLen))) [0..<vLen]))"

definition ConsistentHash_Nodes :: "'t ConsistentHash \<Rightarrow> 't list" where
  "ConsistentHash_Nodes c = map ni_node (ch_realNodes c)"

section \<open>Weighted round robin\<close>

record 't wrrNode =
  wn_node :: 't
  wn_weight :: int
  wn_current :: int

record 't WeightedRoundRobin =
  wr_nodes :: "'t wrrNode list"
  wr_weight :: "int list"

definition wrr_table :: "'t node_view \<Rightarrow> 't list \<Rightarrow> 't wrrNode list" where
  "wrr_table view nodes =
     List.map_filter (\<lambda>n. case view n of None \<Rightarrow> None
        | Some (i, w) \<Rightarrow> if w \<le> 0 then None else Some \<lparr>wn_node = n, wn_weight = w, wn_current = 0\<rparr>) nodes"

definition WeightedRoundRobin_Update :: "'t node_view \<Rightarrow> 't list \<Rightarrow> 't WeightedRoundRobin \<Rightarrow> 't WeightedRoundRobin" where
  "WeightedRoundRobin_Update view nodes w = w\<lparr>wr_nodes := wrr_table view nodes, wr_weight := map wn_weight (wrr_table view nodes)\<rparr>"

definition NewWeightedRoundRobin :: "'t node_view \<Rightarrow> 't list \<Rightarrow> 't WeightedRoundRobin" where
  "NewWeightedRoundRobin view nodes = \<lparr>wr_nodes = wrr_table view nodes, wr_weight = map wn_weight (wrr_table view nodes)\<rparr>"

text \<open>The loop of \<open>Next\<close>: the nodes seen so far with their new values, the sum, the index of the selected node and its value.\<close>

fun wrr_scan :: "'t wrrNode list \<Rightarrow> 't wrrNode list \<Rightarrow> int \<Rightarrow> nat option \<Rightarrow> int \<Rightarrow> 't wrrNode list \<times> int \<times> nat option" where
  "wrr_scan seen [] totalWeight selected maxCurrent = (seen, totalWeight, selected)"
| "wrr_scan seen (n # ns) totalWeight selected maxCurrent =
     (let n' = n\<lparr>wn_current := wrap64 (wn_current n + wn_weight n)\<rparr>; totalWeight' = wrap64 (totalWeight + wn_weight n)
      in if selected = None \<or> maxCurrent < wn_current n'
         then wrr_scan (seen @ [n']) ns totalWeight' (Some (length seen)) (wn_current n')
         else wrr_scan (seen @ [n']) ns totalWeight' selected maxCurrent)"

definition WeightedRoundRobin_Next :: "'t WeightedRoundRobin \<Rightarrow> 't option \<times> 't WeightedRoundRobin" where
  "WeightedRoundRobin_Next w =
     (if wr_nodes w = [] then (None, w)
      else case wrr_scan [] (wr_nodes w) 0 None 0 of
        (ns, totalWeight, None) \<Rightarrow> (None, w\<lparr>wr_nodes := ns\<rparr>)
      | (ns, totalWeight, Some i) \<Rightarrow>
          (Some (wn_node (ns ! i)), w\<lparr>wr_nodes := ns[i := (ns ! i)\<lparr>wn_current := wrap64 (wn_current (ns ! i) - totalWeight)\<rparr>]\<rparr>))"

definition WeightedRoundRobin_Reset :: "'t WeightedRoundRobin \<Rightarrow> 't WeightedRoundRobin" where
  "WeightedRoundRobin_Reset w = w\<lparr>wr_nodes := map (\<lambda>n. n\<lparr>wn_current := 0\<rparr>) (wr_nodes w)\<rparr>"

definition WeightedRoundRobin_Nodes :: "'t WeightedRoundRobin \<Rightarrow> 't list" where
  "WeightedRoundRobin_Nodes w = map wn_node (wr_nodes w)"

section \<open>Round robin\<close>

record 't RoundRobin =
  rr_nodes :: "'t list"
  rr_index :: int

definition RoundRobin_Update :: "'t list \<Rightarrow> 't RoundRobin \<Rightarrow> 't RoundRobin" where
  "RoundRobin_Update nodes r = r\<lparr>rr_nodes := nodes\<rparr>"

definition NewRoundRobin :: "'t list \<Rightarrow> 't RoundRobin" where
  "NewRoundRobin nodes = RoundRobin_Update nodes \<lparr>rr_nodes = [], rr_index = 0\<rparr>"

datatype 't rr_result = RRNode 't | RREmpty | RRPanic

text \<open>Go's remainder has the sign of the cursor, and a negative index panics.\<close>

definition RoundRobin_Next :: "'t RoundRobin \<Rightarrow> 't rr_result \<times> 't RoundRobin" where
  "RoundRobin_Next r =
     (if rr_nodes r = [] then (RREmpty, r)
      else
        let idx = wrap64 (rr_index r + 1); i = go_mod idx (int (length (rr_nodes r)))
        in (if i < 0 then RRPanic else RRNode (rr_nodes r ! nat i), r\<lparr>rr_index := idx\<rparr>))"

definition RoundRobin_Nodes :: "'t RoundRobin \<Rightarrow> 't list" where
  "RoundRobin_Nodes r = rr_nodes r"

section \<open>Points on the ring\<close>

lemma writeInt_loop_show: "0 < n \<Longrightarrow> writeInt_loop n buf = show_nat n @ buf"
proof (induction n buf rule: writeInt_loop.induct)
  case (1 n buf)
  show ?case
  proof (cases "n < 10")
    case True
    then show ?thesis using 1(2) by (simp add: writeInt_loop.simps [of n] writeInt_loop.simps [of 0] show_nat.simps [of n])
  next
    case False
    then show ?thesis using 1 by (simp add: writeInt_loop.simps [of n] show_nat.simps [of n])
  qed
qed

lemma writeInt_show: "writeInt n = show_nat n"
proof -
  have "digit_char 0 = CHR ''0''" by code_simp
  then show ?thesis by (simp add: writeInt_def writeInt_loop_show show_nat.simps [of 0])
qed

lemma show_nat_no_hash: "CHR ''#'' \<notin> set (show_nat n)"
proof (induction n rule: show_nat.induct)
  case (1 n)
  have d: "CHR ''#'' \<noteq> digit_char d" if "d < 10" for d
    using that by (simp add: digit_char_def of_char_of flip: of_char_eq_iff [where 'a = nat])
  show ?case using 1 d [of n] d [of "n mod 10"] by (auto simp: show_nat.simps [of n])
qed

text \<open>The key of a virtual node tells the node and the number.\<close>

lemma point_key_inj: "i @ ''#'' @ writeInt j = i' @ ''#'' @ writeInt j' \<longleftrightarrow> i = i' \<and> j = j'"
  using sep_append_inj [of i "CHR ''#''" "writeInt j" i' "writeInt j'"] show_nat_no_hash [of j] show_nat_no_hash [of j'] show_nat_inj [of j j']
  by (auto simp: writeInt_show)

text \<open>The distance from a hash to a point, clockwise; a point at the hash itself is a whole turn away.\<close>

definition clockwise :: "64 word \<Rightarrow> 64 word \<Rightarrow> 64 word" where
  "clockwise x h = h - x - 1"

lemma clockwise_inj: "clockwise x h = clockwise x h' \<longleftrightarrow> h = h'"
  by (simp add: clockwise_def)

lemma clockwise_unat: "unat (clockwise x h) = (if x < h then unat h - unat x - 1 else 2 ^ 64 - 1 - (unat x - unat h))"
proof (cases "x < h")
  case True
  then have d: "unat (h - x) = unat h - unat x" "unat x < unat h" by (auto simp: unat_sub word_less_nat_alt word_le_nat_alt)
  then have "1 \<le> h - x" by (simp add: word_le_nat_alt)
  then have "unat (h - x - 1) = unat (h - x) - 1" by (simp add: unat_sub)
  then show ?thesis using True d by (simp add: clockwise_def)
next
  case False
  then have le: "h \<le> x" by simp
  have "clockwise x h = - 1 - (x - h)" by (simp add: clockwise_def)
  moreover have "unat (- 1 - (x - h)) = unat (- 1 :: 64 word) - unat (x - h)" by (rule unat_sub) simp
  moreover have "unat (x - h) = unat x - unat h" using le by (rule unat_sub)
  moreover have "unat (- 1 :: 64 word) = 2 ^ 64 - 1" by (simp add: unsigned_minus_1_eq_mask mask_eq_exp_minus_1)
  ultimately show ?thesis using False by simp
qed

text \<open>The binary search finds the nearest point.\<close>

lemma ring_search_nearest:
  assumes "sorted (map vn_hash (ch_virtualNodes c))" "ch_virtualNodes c \<noteq> []"
  shows "ring_search h c < length (ch_virtualNodes c)
    \<and> (\<forall>v\<in>set (ch_virtualNodes c). clockwise h (vn_hash (ch_virtualNodes c ! ring_search h c)) \<le> clockwise h (vn_hash v))"
proof -
  let ?vs = "ch_virtualNodes c" let ?f = "\<lambda>i. h < vn_hash (?vs ! i)" and ?n = "length (ch_virtualNodes c)"
  have mono: "a \<le> b \<Longrightarrow> b < ?n \<Longrightarrow> vn_hash (?vs ! a) \<le> vn_hash (?vs ! b)" for a b
    using assms(1) sorted_nth_mono [of "map vn_hash ?vs" a b] by simp
  have "\<forall>a b. a \<le> b \<and> b < ?n \<and> ?f a \<longrightarrow> ?f b"
  proof (intro allI impI)
    fix a b assume "a \<le> b \<and> b < ?n \<and> ?f a"
    then show "?f b" using mono [of a b] by (auto intro: less_le_trans)
  qed
  note s = go_search_first [OF this, of ?n 0]
  define i where "i = go_search ?f 0 ?n"
  have s: "i \<le> ?n \<and> (\<forall>k<i. \<not> ?f k) \<and> (\<forall>k. i \<le> k \<and> k < ?n \<longrightarrow> ?f k)" unfolding i_def by (rule s) auto
  have i: "i \<le> ?n" "\<And>k. k < i \<Longrightarrow> vn_hash (?vs ! k) \<le> h" "\<And>k. i \<le> k \<Longrightarrow> k < ?n \<Longrightarrow> h < vn_hash (?vs ! k)"
    using s by (blast, simp add: linorder_not_less, blast)
  have rs: "ring_search h c = (if i = ?n then 0 else i)" by (simp add: ring_search_def i_def Let_def)
  have "clockwise h (vn_hash (?vs ! ring_search h c)) \<le> clockwise h (vn_hash (?vs ! k))" if k: "k < ?n" for k
  proof (cases "i = ?n")
    case True
    then have "vn_hash (?vs ! 0) \<le> h" "vn_hash (?vs ! k) \<le> h" "vn_hash (?vs ! 0) \<le> vn_hash (?vs ! k)"
      using i(2) [of 0] i(2) [of k] mono [of 0 k] k by auto
    then show ?thesis using True rs by (auto simp: word_le_nat_alt word_less_nat_alt clockwise_unat)
  next
    case False
    then have hi: "h < vn_hash (?vs ! i)" using i(1,3) by auto
    show ?thesis
    proof (cases "i \<le> k")
      case True
      then have "vn_hash (?vs ! i) \<le> vn_hash (?vs ! k)" "h < vn_hash (?vs ! k)" using mono i(3) k by auto
      then show ?thesis using False hi rs by (auto simp: word_le_nat_alt word_less_nat_alt clockwise_unat)
    next
      case below: False
      then have "vn_hash (?vs ! k) \<le> h" using i(2) by simp
      moreover have "unat (vn_hash (?vs ! i)) < 2 ^ 64" using unsigned_less [of "vn_hash (?vs ! i)"] by simp
      moreover have "unat h < 2 ^ 64" using unsigned_less [of h] by simp
      ultimately show ?thesis using False hi rs by (auto simp: word_le_nat_alt word_less_nat_alt clockwise_unat)
    qed
  qed
  moreover have "ring_search h c < ?n" using i(1) rs assms(2) by auto
  ultimately show ?thesis by (auto simp: in_set_conv_nth)
qed

section \<open>The node of a key\<close>

definition ring_point :: "maphash \<Rightarrow> 't nodeItem \<Rightarrow> nat \<Rightarrow> 64 word" where
  "ring_point hash rn j = hash (ni_id rn @ ''#'' @ writeInt j)"

text \<open>Number of points of a node when nothing overflows.\<close>

definition points :: "consistentHashConfig \<Rightarrow> 't nodeItem \<Rightarrow> nat" where
  "points cfg rn = (if ni_weight rn \<le> 0 then 0 else (if hc_weighted cfg then nat (ni_weight rn) else 1) * unat (hc_virtualFactor cfg))"

definition ring_ok ::
  "(virtualNode list \<Rightarrow> virtualNode list) \<Rightarrow> maphash \<Rightarrow> 't node_view \<Rightarrow> (consistentHashConfig \<Rightarrow> consistentHashConfig) list \<Rightarrow> 't list \<Rightarrow> bool" where
  "ring_ok srt hash view opts ms \<longleftrightarrow> sorts_by vn_hash srt
     \<and> (\<forall>m\<in>set ms. \<forall>m'\<in>set ms. \<forall>i w w'. view m = Some (i, w) \<and> view m' = Some (i, w') \<longrightarrow> m = m')
     \<and> inj_on hash {ni_id rn @ ''#'' @ writeInt j |rn j. rn \<in> set (node_items view ms) \<and> j < points (hash_config opts) rn}
     \<and> (\<Sum>rn\<leftarrow>node_items view ms. points (hash_config opts) rn) < 2 ^ 63"

lemma set_node_items: "set (node_items view ms) = {\<lparr>ni_node = m, ni_id = i, ni_weight = w\<rparr> |m i w. m \<in> set ms \<and> view m = Some (i, w)}"
  by (force simp: node_items_def List.map_filter_def split: option.splits)

lemma node_items_view: "rn \<in> set (node_items view ms) \<Longrightarrow> ni_node rn \<in> set ms \<and> view (ni_node rn) = Some (ni_id rn, ni_weight rn)"
  by (auto simp: set_node_items)

lemma node_items_mono: "set ns \<subseteq> set ms \<Longrightarrow> set (node_items view ns) \<subseteq> set (node_items view ms)"
  by (auto simp: set_node_items)

lemma node_items_mset: "mset ns \<subseteq># mset ms \<Longrightarrow> mset (node_items view ns) \<subseteq># mset (node_items view ms)"
  unfolding node_items_def List.map_filter_def by (simp add: image_mset_subseteq_mono multiset_filter_mono mset_filter)

lemma sum_list_mset_mono:
  fixes f :: "'a \<Rightarrow> nat"
  assumes "mset xs \<subseteq># mset ys"
  shows "(\<Sum>x\<leftarrow>xs. f x) \<le> (\<Sum>x\<leftarrow>ys. f x)"
proof -
  obtain zs where "mset ys = mset xs + zs" using assms by (metis mset_subset_eq_exists_conv)
  then have "(\<Sum>x\<in>#mset ys. f x) = (\<Sum>x\<in>#mset xs. f x) + (\<Sum>x\<in>#zs. f x)" by simp
  then show ?thesis by (simp add: sum_mset_sum_list [symmetric] del: sum_mset_sum_list)
qed

lemma ring_ok_sub:
  assumes "ring_ok srt hash view opts ms" "mset ns \<subseteq># mset ms"
  shows "ring_ok srt hash view opts ns"
proof -
  have sub: "set ns \<subseteq> set ms" using assms(2) by (metis set_mset_mono set_mset_mset)
  have "inj_on hash {ni_id rn @ ''#'' @ writeInt j |rn j. rn \<in> set (node_items view ns) \<and> j < points (hash_config opts) rn}"
    using assms(1) node_items_mono [OF sub, of view] by (auto simp: ring_ok_def intro: inj_on_subset)
  moreover have "(\<Sum>rn\<leftarrow>node_items view ns. points (hash_config opts) rn) < 2 ^ 63"
    using assms(1) sum_list_mset_mono [OF node_items_mset [OF assms(2)], of "points (hash_config opts)" view] by (simp add: ring_ok_def)
  ultimately show ?thesis using assms(1) sub unfolding ring_ok_def by blast
qed

lemma vNodeLen_points:
  assumes "points cfg rn < 2 ^ 63"
  shows "vNodeLen rn cfg = int (points cfg rn)"
proof -
  have "in_i64 (ni_weight rn * uint (hc_virtualFactor cfg))" if "0 < ni_weight rn" "hc_weighted cfg"
  proof -
    have "int (points cfg rn) = ni_weight rn * uint (hc_virtualFactor cfg)" using that by (simp add: points_def)
    then show ?thesis using assms that by (simp add: in_i64_def)
  qed
  then show ?thesis by (auto simp: vNodeLen_def points_def)
qed

text \<open>What the constructor builds when nothing overflows.\<close>

lemma buildVirtualNodes_points:
  assumes "(\<Sum>rn\<leftarrow>items. points cfg rn) < 2 ^ 63" "sorts_by vn_hash srt"
  obtains vs where "buildVirtualNodes srt hash cfg items = Some vs" "sorted (map vn_hash vs)"
    "set vs = {\<lparr>vn_hash = ring_point hash (items ! i) j, vn_idx = i\<rparr> |i j. i < length items \<and> j < points cfg (items ! i)}"
proof -
  have le: "points cfg rn \<le> (\<Sum>rn\<leftarrow>items. points cfg rn)" if "rn \<in> set items" for rn using that member_le_sum_list [of "points cfg rn" "map (points cfg) items"] by simp
  have len: "vNodeLen rn cfg = int (points cfg rn)" if "rn \<in> set items" for rn using le [OF that] assms(1) by (intro vNodeLen_points) simp
  have "foldl (\<lambda>t rn. wrap64 (t + vNodeLen rn cfg)) (int z) xs = int (z + (\<Sum>rn\<leftarrow>xs. points cfg rn))"
    if "set xs \<subseteq> set items" "z + (\<Sum>rn\<leftarrow>xs. points cfg rn) < 2 ^ 63" for z xs
    using that
  proof (induction xs arbitrary: z)
    case (Cons x xs)
    have "wrap64 (int z + int (points cfg x)) = int (z + points cfg x)" using Cons.prems by (intro wrap64_id [THEN trans]) (simp_all add: in_i64_def)
    then show ?case using Cons.IH [of "z + points cfg x"] Cons.prems len [of x] by (simp add: add.assoc)
  qed simp
  from this [of items 0] have tot: "foldl (\<lambda>t rn. wrap64 (t + vNodeLen rn cfg)) 0 items = int (\<Sum>rn\<leftarrow>items. points cfg rn)" using assms(1) by simp
  let ?all = "concat (map (\<lambda>(i, rn). vnodes_of hash cfg i rn) (List.enumerate 0 items))"
  have set_all: "set ?all = {\<lparr>vn_hash = ring_point hash (items ! i) j, vn_idx = i\<rparr> |i j. i < length items \<and> j < points cfg (items ! i)}"
  proof -
    have "set ?all = (\<Union>i<length items. set (vnodes_of hash cfg i (items ! i)))" by (force simp: in_set_enumerate_eq)
    moreover have "set (vnodes_of hash cfg i (items ! i)) = {\<lparr>vn_hash = ring_point hash (items ! i) j, vn_idx = i\<rparr> |j. j < points cfg (items ! i)}" if "i < length items" for i
      using len [of "items ! i"] that by (auto simp: vnodes_of_def ring_point_def)
    ultimately show ?thesis by auto
  qed
  show thesis
  proof (cases "(\<Sum>rn\<leftarrow>items. points cfg rn) = 0")
    case True
    then have "points cfg (items ! i) = 0" if "i < length items" for i using le [of "items ! i"] that by simp
    then show thesis using True tot by (intro that [of "[]"]) (auto simp: buildVirtualNodes_def)
  next
    case False
    then have "0 < int (\<Sum>rn\<leftarrow>items. points cfg rn)" by linarith
    then have "buildVirtualNodes srt hash cfg items = Some (srt ?all)" unfolding buildVirtualNodes_def tot Let_def by (simp del: sum_list_eq_0_iff)
    moreover have "sorted (map vn_hash (srt ?all))" using assms(2) unfolding sorts_by_def by blast
    ultimately show thesis using sorts_by_set [OF assms(2), of ?all] unfolding set_all by (rule that)
  qed
qed

text \<open>The choice of the ring, panics aside.\<close>

definition ring_route ::
  "(virtualNode list \<Rightarrow> virtualNode list) \<Rightarrow> maphash \<Rightarrow> 't node_view \<Rightarrow> (consistentHashConfig \<Rightarrow> consistentHashConfig) list \<Rightarrow> 't list \<Rightarrow> key \<Rightarrow> 't option" where
  "ring_route srt hash view opts ms k =
     (case NewConsistentHash srt hash view ms opts of None \<Rightarrow> None | Some c \<Rightarrow> ConsistentHash_Get hash k c)"

lemma NewConsistentHash_ok:
  assumes "ring_ok srt hash view opts ms"
  obtains c where "NewConsistentHash srt hash view ms opts = Some c" "ch_realNodes c = node_items view ms" "sorted (map vn_hash (ch_virtualNodes c))"
    "set (ch_virtualNodes c) = {\<lparr>vn_hash = ring_point hash (node_items view ms ! i) j, vn_idx = i\<rparr> |i j.
       i < length (node_items view ms) \<and> j < points (hash_config opts) (node_items view ms ! i)}"
proof -
  let ?items = "node_items view ms"
  have "(\<Sum>rn\<leftarrow>?items. points (hash_config opts) rn) < 2 ^ 63" "sorts_by vn_hash srt" using assms by (simp_all add: ring_ok_def)
  from buildVirtualNodes_points [OF this, of hash] obtain vs where vs: "buildVirtualNodes srt hash (hash_config opts) ?items = Some vs"
    "sorted (map vn_hash vs)" "set vs = {\<lparr>vn_hash = ring_point hash (?items ! i) j, vn_idx = i\<rparr> |i j. i < length ?items \<and> j < points (hash_config opts) (?items ! i)}" .
  then show thesis
    by (intro that [of "\<lparr>ch_realNodes = ?items, ch_virtualNodes = vs, ch_replica = hc_replica (hash_config opts)\<rparr>"])
      (simp_all add: NewConsistentHash_def Let_def)
qed

lemma unique_choice:
  assumes "\<And>x. x \<in> A \<Longrightarrow> P x \<Longrightarrow> f x = f a" "P a" "a \<in> A"
  shows "(\<exists>x\<in>A. f x = m \<and> P x) \<longleftrightarrow> f a = m"
proof
  assume "\<exists>x\<in>A. f x = m \<and> P x"
  then obtain x where "x \<in> A" "f x = m" "P x" by blast
  then show "f a = m" using assms(1) [of x] by simp
next
  assume "f a = m"
  then show "\<exists>x\<in>A. f x = m \<and> P x" using assms(2,3) by blast
qed

lemma same_point_same_node:
  assumes "ring_ok srt hash view opts ms" "rn \<in> set (node_items view ms)" "rn' \<in> set (node_items view ms)"
    and "j < points (hash_config opts) rn" "j' < points (hash_config opts) rn'" "ring_point hash rn j = ring_point hash rn' j'"
  shows "ni_node rn = ni_node rn'"
proof -
  have inj: "inj_on hash {ni_id rn @ ''#'' @ writeInt j |rn j. rn \<in> set (node_items view ms) \<and> j < points (hash_config opts) rn}"
    and ids: "\<And>m m' i w w'. m \<in> set ms \<Longrightarrow> m' \<in> set ms \<Longrightarrow> view m = Some (i, w) \<Longrightarrow> view m' = Some (i, w') \<Longrightarrow> m = m'"
    using assms(1) unfolding ring_ok_def by blast+
  have "ni_id rn @ ''#'' @ writeInt j = ni_id rn' @ ''#'' @ writeInt j'"
    by (rule inj_onD [OF inj assms(6) [unfolded ring_point_def]]) (use assms(2-5) in blast)+
  then have "ni_id rn = ni_id rn'" by (simp only: point_key_inj)
  then show ?thesis using node_items_view [OF assms(2)] node_items_view [OF assms(3)] by (intro ids) auto
qed

text \<open>A key belongs to the node with the nearest point.\<close>

lemma ring_route_nearest:
  assumes "ring_ok srt hash view opts ms"
  shows "ring_route srt hash view opts ms k = Some m \<longleftrightarrow>
    k \<noteq> [] \<and> (\<exists>rn\<in>set (node_items view ms). ni_node rn = m \<and> (\<exists>j<points (hash_config opts) rn.
      \<forall>rn'\<in>set (node_items view ms). \<forall>j'<points (hash_config opts) rn'.
        clockwise (hash k) (ring_point hash rn j) \<le> clockwise (hash k) (ring_point hash rn' j')))"
    (is "?L \<longleftrightarrow> k \<noteq> [] \<and> (\<exists>rn\<in>_. ni_node rn = m \<and> ?near rn)")
proof -
  let ?items = "node_items view ms" and ?p = "points (hash_config opts)"
  obtain c where c: "NewConsistentHash srt hash view ms opts = Some c" "ch_realNodes c = ?items" "sorted (map vn_hash (ch_virtualNodes c))"
    "set (ch_virtualNodes c) = {\<lparr>vn_hash = ring_point hash (?items ! i) j, vn_idx = i\<rparr> |i j. i < length ?items \<and> j < ?p (?items ! i)}"
    by (rule NewConsistentHash_ok [OF assms])
  show ?thesis
  proof (cases "ch_virtualNodes c = [] \<or> k = []")
    case True
    then have "\<not> ?L" using c(1) by (simp add: ring_route_def ConsistentHash_Get_def)
    moreover have "\<not> ?near rn" if k: "k \<noteq> []" and rn: "rn \<in> set ?items" for rn
    proof -
      have "ch_virtualNodes c = []" using True k by simp
      then have "{\<lparr>vn_hash = ring_point hash (?items ! i) j, vn_idx = i\<rparr> |i j. i < length ?items \<and> j < ?p (?items ! i)} = {}" using c(4) by simp
      moreover obtain i where "i < length ?items" "rn = ?items ! i" using rn by (auto simp: in_set_conv_nth)
      ultimately show ?thesis by fastforce
    qed
    ultimately show ?thesis by blast
  next
    case False
    define v where "v = ch_virtualNodes c ! ring_search (hash k) c"
    have near: "v \<in> set (ch_virtualNodes c)" "\<And>v'. v' \<in> set (ch_virtualNodes c) \<Longrightarrow> clockwise (hash k) (vn_hash v) \<le> clockwise (hash k) (vn_hash v')"
      using ring_search_nearest [OF c(3), of "hash k"] False by (auto simp: v_def)
    obtain i j where v: "v = \<lparr>vn_hash = ring_point hash (?items ! i) j, vn_idx = i\<rparr>" "i < length ?items" "j < ?p (?items ! i)"
      using near(1) c(4) by auto
    have all: "clockwise (hash k) (vn_hash v) \<le> clockwise (hash k) (ring_point hash rn' j')" if rn': "rn' \<in> set ?items" and j': "j' < ?p rn'" for rn' j'
    proof -
      obtain i' where "i' < length ?items" "rn' = ?items ! i'" using rn' by (auto simp: in_set_conv_nth)
      then show ?thesis using near(2) [of "\<lparr>vn_hash = ring_point hash rn' j', vn_idx = i'\<rparr>"] j' c(4) by auto
    qed
    have get: "ring_route srt hash view opts ms k = Some (ni_node (?items ! i))"
      using False c(1,2) v by (simp add: ring_route_def ConsistentHash_Get_def v_def [symmetric])
    have i: "?items ! i \<in> set ?items" using v(2) by simp
    have "ni_node rn = ni_node (?items ! i)" if rn: "rn \<in> set ?items" "?near rn" for rn
    proof -
      obtain j' where j': "j' < ?p rn" "\<forall>rn'\<in>set ?items. \<forall>j''<?p rn'. clockwise (hash k) (ring_point hash rn j') \<le> clockwise (hash k) (ring_point hash rn' j'')"
        using rn(2) by blast
      have "clockwise (hash k) (ring_point hash rn j') = clockwise (hash k) (vn_hash v)"
        using all [OF rn(1) j'(1)] j'(2) i v(1,3) by (auto intro: antisym)
      then have "ring_point hash rn j' = ring_point hash (?items ! i) j" using v(1) by (simp add: clockwise_inj)
      then show ?thesis by (rule same_point_same_node [OF assms rn(1) i j'(1) v(3)])
    qed
    moreover have "?near (?items ! i)" using all v by auto
    ultimately have "(\<exists>rn\<in>set ?items. ni_node rn = m \<and> ?near rn) \<longleftrightarrow> ni_node (?items ! i) = m" by (rule unique_choice [OF _ _ i])
    then show ?thesis using get False by simp
  qed
qed

lemma ring_route_none:
  assumes "ring_ok srt hash view opts ms"
  shows "ring_route srt hash view opts ms k = None \<longleftrightarrow> k = [] \<or> (\<forall>rn\<in>set (node_items view ms). points (hash_config opts) rn = 0)"
proof -
  let ?items = "node_items view ms"
  obtain c where c: "NewConsistentHash srt hash view ms opts = Some c" "ch_realNodes c = ?items" "sorted (map vn_hash (ch_virtualNodes c))"
    "set (ch_virtualNodes c) = {\<lparr>vn_hash = ring_point hash (?items ! i) j, vn_idx = i\<rparr> |i j. i < length ?items \<and> j < points (hash_config opts) (?items ! i)}"
    by (rule NewConsistentHash_ok [OF assms])
  have "set (ch_virtualNodes c) = {} \<longleftrightarrow> (\<forall>i<length ?items. points (hash_config opts) (?items ! i) = 0)"
  proof -
    have "(\<exists>j. j < points (hash_config opts) (?items ! i)) \<longleftrightarrow> points (hash_config opts) (?items ! i) \<noteq> 0" for i by auto
    then show ?thesis unfolding c(4) by auto
  qed
  then have "ch_virtualNodes c = [] \<longleftrightarrow> (\<forall>rn\<in>set ?items. points (hash_config opts) rn = 0)" by (simp add: all_set_conv_all_nth)
  then show ?thesis using c(1) by (simp add: ring_route_def ConsistentHash_Get_def disj_commute)
qed

lemma ring_route_member: "ring_ok srt hash view opts ms \<Longrightarrow> ring_route srt hash view opts ms k = Some m \<Longrightarrow> m \<in> set ms"
  using node_items_view by (fastforce simp: ring_route_nearest)

lemma ring_route_subset:
  assumes "ring_ok srt hash view opts ms" "ring_ok srt hash view opts ns" "set ns \<subseteq> set ms"
    and "ring_route srt hash view opts ms k = Some m" "m \<in> set ns"
  shows "ring_route srt hash view opts ns k = Some m"
proof -
  obtain rn j where rn: "k \<noteq> []" "rn \<in> set (node_items view ms)" "ni_node rn = m" "j < points (hash_config opts) rn"
    "\<forall>rn'\<in>set (node_items view ms). \<forall>j'<points (hash_config opts) rn'. clockwise (hash k) (ring_point hash rn j) \<le> clockwise (hash k) (ring_point hash rn' j')"
    using assms(4) unfolding ring_route_nearest [OF assms(1)] by blast
  have "rn \<in> set (node_items view ns)" using node_items_view [OF rn(2)] rn(3) assms(5) by (cases rn) (simp add: set_node_items)
  then show ?thesis unfolding ring_route_nearest [OF assms(2)] using rn node_items_mono [OF assms(3), of view] by blast
qed

interpretation ring: stable_routing "ring_route srt hash view opts" "\<lambda>_. ring_ok srt hash view opts"
proof
  fix ms ns k
  assume ok: "ring_ok srt hash view opts ms" "ring_ok srt hash view opts ns" and sub: "set ns \<subseteq> set ms" and none: "ring_route srt hash view opts ms k = None"
  show "ring_route srt hash view opts ns k = None"
    using none node_items_mono [OF sub, of view] unfolding ring_route_none [OF ok(1)] ring_route_none [OF ok(2)] by blast
qed (blast intro: ring_ok_sub ring_route_member ring_route_subset)+

text \<open>C33. Consistent hashing moves as few keys as it can. When no two points collide, every key of the ring belongs to the same
  node whatever the order in which the nodes were given; a node that joins takes keys over but no key moves between two
  old nodes; a node that leaves gives away its own keys and no others. A key has a node if and only if it is not empty
  and some node has a positive weight.\<close>

theorem ConsistentHash_migration:
  assumes "ring_ok srt hash view opts (m # ms)"
  shows "(ring_route srt hash view opts (m # ms) k = Some m \<or> ring_route srt hash view opts (m # ms) k = ring_route srt hash view opts ms k)
    \<and> (n \<notin> set_option (ring_route srt hash view opts (m # ms) k) \<longrightarrow>
         ring_route srt hash view opts (removeAll n (m # ms)) k = ring_route srt hash view opts (m # ms) k)
    \<and> (mset ns = mset (m # ms) \<longrightarrow> ring_route srt hash view opts ns k = ring_route srt hash view opts (m # ms) k)
    \<and> (ring_route srt hash view opts (m # ms) k \<noteq> None \<longleftrightarrow>
         k \<noteq> [] \<and> (\<exists>x\<in>set (m # ms). \<exists>i w. view x = Some (i, w) \<and> 0 < w))"
proof (intro conjI impI)
  show "ring_route srt hash view opts (m # ms) k = Some m \<or> ring_route srt hash view opts (m # ms) k = ring_route srt hash view opts ms k"
    by (rule ring.join_moves_to_new [OF assms])
next
  assume "n \<notin> set_option (ring_route srt hash view opts (m # ms) k)"
  then show "ring_route srt hash view opts (removeAll n (m # ms)) k = ring_route srt hash view opts (m # ms) k"
    by (intro ring.leave_moves_own [OF assms]) auto
next
  assume ns: "mset ns = mset (m # ms)"
  have "ring_ok srt hash view opts ns" by (rule ring.ok_sub [OF assms]) (simp add: ns)
  then show "ring_route srt hash view opts ns k = ring_route srt hash view opts (m # ms) k"
    using mset_eq_setD [OF ns] by (intro ring.order_independent assms)
next
  have "0 < points (hash_config opts) rn \<longleftrightarrow> 0 < ni_weight rn" for rn :: "'a nodeItem"
    by (auto simp: points_def hash_config_def Let_def unat_gt_0)
  then show "ring_route srt hash view opts (m # ms) k \<noteq> None \<longleftrightarrow> k \<noteq> [] \<and> (\<exists>x\<in>set (m # ms). \<exists>i w. view x = Some (i, w) \<and> 0 < w)"
    unfolding ring_route_none [OF assms] by (force simp: set_node_items)
qed

text \<open>Two nodes with one point each, at the first letter of their name: \<open>''k''\<close> lies after both and wraps to the first.\<close>

theorem ConsistentHash_migration_witness:
  "let hash = (\<lambda>s. case s of [] \<Rightarrow> 0 | c # cs \<Rightarrow> of_nat (of_char c)) :: maphash;
       route = ring_route (sort_key vn_hash) hash (\<lambda>n. Some (n, 1)) [hashWithVirtualFactor 1]
   in route [''a'', ''b''] ''k'' = Some ''a'' \<and> route [''b'', ''a''] ''k'' = Some ''a'' \<and> route [''b''] ''k'' = Some ''b''"
proof -
  define hash :: maphash where "hash = (\<lambda>s. case s of [] \<Rightarrow> 0 | c # cs \<Rightarrow> of_nat (of_char c))"
  let ?route = "ring_route (sort_key vn_hash) hash (\<lambda>n. Some (n, 1)) [hashWithVirtualFactor 1]"
  have items: "node_items (\<lambda>n. Some (n, 1)) [''a'', ''b''] = [\<lparr>ni_node = ''a'', ni_id = ''a'', ni_weight = 1\<rparr>, \<lparr>ni_node = ''b'', ni_id = ''b'', ni_weight = 1\<rparr>]"
    by (simp add: node_items_def List.map_filter_def)
  have pts: "points (hash_config [hashWithVirtualFactor 1]) \<lparr>ni_node = n, ni_id = n, ni_weight = 1\<rparr> = 1" for n :: string
    by (simp add: points_def hash_config_def hashWithVirtualFactor_def)
  have "inj_on hash {''a#0'', ''b#0''}" by (simp add: hash_def)
  moreover have "{ni_id rn @ ''#'' @ writeInt j |rn j. rn \<in> set (node_items (\<lambda>n. Some (n, 1)) [''a'', ''b'']) \<and> j < points (hash_config [hashWithVirtualFactor 1]) rn} \<subseteq> {''a#0'', ''b#0''}"
    unfolding items by (auto simp: pts writeInt_def)
  ultimately have "inj_on hash {ni_id rn @ ''#'' @ writeInt j |rn j. rn \<in> set (node_items (\<lambda>n. Some (n, 1)) [''a'', ''b'']) \<and> j < points (hash_config [hashWithVirtualFactor 1]) rn}"
    by (rule inj_on_subset)
  then have ok: "ring_ok (sort_key vn_hash) hash (\<lambda>n. Some (n, 1)) [hashWithVirtualFactor 1] [''a'', ''b'']"
    using sorts_by_sort_key [of vn_hash] unfolding ring_ok_def by (simp add: items pts)
  have "?route [''a'', ''b''] ''k'' = Some ''a''" unfolding hash_def by code_simp
  moreover have "?route [''b''] ''k'' = Some ''b''" unfolding hash_def by code_simp
  moreover have "?route [''b'', ''a''] ''k'' = ?route [''a'', ''b''] ''k''"
    using ConsistentHash_migration [OF ok, of "''k''" "''c''" "[''b'', ''a'']"] by auto
  ultimately show ?thesis by (simp add: hash_def Let_def)
qed

section \<open>Replicas\<close>

lemma replica_walk_distinct:
  "\<exists>ds. replica_walk items n used out is = out @ map (\<lambda>i. ni_node (items ! i)) ds \<and> distinct ds \<and> set ds \<subseteq> set is - set used
    \<and> (int (length out) < n \<longrightarrow> int (length out + length ds) \<le> n)
    \<and> (int (length out + length ds) < n \<longrightarrow> set ds = set is - set used)
    \<and> (int (length out) < n \<and> is \<noteq> [] \<and> hd is \<notin> set used \<longrightarrow> ds \<noteq> [] \<and> hd ds = hd is)"
proof (induction "is" arbitrary: used out)
  case (Cons i "is")
  show ?case
  proof (cases "int (length out) < n")
    case room: True
    show ?thesis
    proof (cases "i \<in> set used")
      case True
      obtain ds where "replica_walk items n used out is = out @ map (\<lambda>i. ni_node (items ! i)) ds" "distinct ds" "set ds \<subseteq> set is - set used"
        "int (length out) < n \<longrightarrow> int (length out + length ds) \<le> n" "int (length out + length ds) < n \<longrightarrow> set ds = set is - set used"
        using Cons.IH [of used out] by blast
      then show ?thesis using room True by (intro exI [of _ ds]) auto
    next
      case False
      obtain ds where ds: "replica_walk items n (i # used) (out @ [ni_node (items ! i)]) is = (out @ [ni_node (items ! i)]) @ map (\<lambda>i. ni_node (items ! i)) ds"
        "distinct ds" "set ds \<subseteq> set is - set (i # used)"
        "int (length (out @ [ni_node (items ! i)])) < n \<longrightarrow> int (length (out @ [ni_node (items ! i)]) + length ds) \<le> n"
        "int (length (out @ [ni_node (items ! i)]) + length ds) < n \<longrightarrow> set ds = set is - set (i # used)"
        using Cons.IH [of "i # used" "out @ [ni_node (items ! i)]"] by blast
      have "replica_walk items n used out (i # is) = out @ map (\<lambda>i. ni_node (items ! i)) (i # ds)" using room False ds(1) by simp
      moreover have "int (length out + length (i # ds)) \<le> n"
      proof (cases "int (length (out @ [ni_node (items ! i)])) < n")
        case False
        then have "replica_walk items n (i # used) (out @ [ni_node (items ! i)]) is = out @ [ni_node (items ! i)]" by (cases "is") auto
        then have "ds = []" using ds(1) by simp
        then show ?thesis using room by simp
      qed (use ds(4) in simp)
      ultimately show ?thesis using ds(2,3,5) False by (intro exI [of _ "i # ds"]) auto
    qed
  qed (intro exI [of _ "[]"], auto)
qed simp

text \<open>A key's replicas are different nodes of the ring, as many as were asked for if that many have points, and the node of
  the key is the first.\<close>

lemma GetReplicas_distinct:
  assumes ok: "ring_ok srt hash view opts ms" and c: "NewConsistentHash srt hash view ms opts = Some c" and n: "0 < n" and k: "k \<noteq> []"
  obtains ds where "ConsistentHash_GetReplicas hash k n c = map (\<lambda>i. ni_node (node_items view ms ! i)) ds" "distinct ds"
    "set ds \<subseteq> {i. i < length (node_items view ms) \<and> 0 < points (hash_config opts) (node_items view ms ! i)}"
    "int (length ds) \<le> n"
    "int (length ds) < n \<Longrightarrow> set ds = {i. i < length (node_items view ms) \<and> 0 < points (hash_config opts) (node_items view ms ! i)}"
    "ds \<noteq> [] \<Longrightarrow> ConsistentHash_Get hash k c = Some (ni_node (node_items view ms ! hd ds))"
proof -
  let ?items = "node_items view ms" and ?vs = "ch_virtualNodes c" and ?p = "points (hash_config opts)"
  let ?I = "{i. i < length ?items \<and> 0 < ?p (?items ! i)}"
  obtain c' where c': "NewConsistentHash srt hash view ms opts = Some c'" "ch_realNodes c' = ?items" "sorted (map vn_hash (ch_virtualNodes c'))"
    "set (ch_virtualNodes c') = {\<lparr>vn_hash = ring_point hash (?items ! i) j, vn_idx = i\<rparr> |i j. i < length ?items \<and> j < ?p (?items ! i)}"
    by (rule NewConsistentHash_ok [OF ok])
  then have cc: "c' = c" using c by simp
  have im: "vn_idx ` {\<lparr>vn_hash = H i j, vn_idx = i\<rparr> |i j. P i j} = {i. \<exists>j. P i j}" for H P by force
  have idx: "vn_idx ` set ?vs = ?I" unfolding c'(4) [unfolded cc] im by (auto intro: gr_zeroI)
  show thesis
  proof (cases "?vs = []")
    case True
    then have "?I = {}" using idx by simp
    then show thesis using True n by (intro that [of "[]"]) (simp_all add: ConsistentHash_GetReplicas_def)
  next
    case False
    define start where "start = ring_search (hash k) c"
    have start: "start < length ?vs" using ring_search_nearest [of c "hash k"] c'(3) False unfolding cc start_def by blast
    define walk where "walk = map (\<lambda>i. vn_idx (?vs ! ((start + i) mod length ?vs))) [0..<length ?vs]"
    have wr: "walk = map vn_idx (rotate start ?vs)" unfolding walk_def by (rule nth_equalityI) (simp_all add: nth_rotate)
    have w: "set walk = ?I" "walk \<noteq> []" "hd walk = vn_idx (?vs ! start)"
      using idx False start unfolding wr by (simp_all add: hd_map hd_rotate_conv_nth)
    define n' where "n' = (if int (length ?items) < n then int (length ?items) else n)"
    have "hd walk \<in> ?I" unfolding w(1) [symmetric] using w(2) by (rule hd_in_set)
    then have "0 < length ?items" by auto
    then have n': "0 < n'" "n' \<le> n" using n by (auto simp: n'_def)
    obtain ds where ds: "replica_walk ?items n' [] [] walk = map (\<lambda>i. ni_node (?items ! i)) ds" "distinct ds" "set ds \<subseteq> ?I"
      "int (length ds) \<le> n'" "int (length ds) < n' \<longrightarrow> set ds = ?I" "ds \<noteq> []" "hd ds = vn_idx (?vs ! start)"
      using replica_walk_distinct [of ?items n' "[]" "[]" walk] n'(1) w by auto
    have gr: "ConsistentHash_GetReplicas hash k n c = map (\<lambda>i. ni_node (?items ! i)) ds"
      using n k False ds(1) c'(2) unfolding cc by (simp add: ConsistentHash_GetReplicas_def Let_def n'_def walk_def start_def split: if_splits)
    have "set ds = ?I" if "int (length ds) < n"
    proof (cases "int (length ds) < n'")
      case full: False
      then have "length ds = length ?items" using that ds(4) by (auto simp: n'_def split: if_splits)
      then have "card (set ds) = card {i. i < length ?items}" using distinct_card [OF ds(2)] by simp
      then have "set ds = {i. i < length ?items}" using ds(3) by (intro card_subset_eq) auto
      then show ?thesis using ds(3) by auto
    qed (use ds(5) in simp)
    moreover have "ConsistentHash_Get hash k c = Some (ni_node (?items ! hd ds))"
      using False k c'(2) ds(7) unfolding cc by (simp add: ConsistentHash_Get_def start_def)
    ultimately show thesis using gr ds(2-4) n'(2) by (intro that [of ds]) simp_all
  qed
qed

section \<open>Fairness of the weighted round robin\<close>

definition wrr_sum :: "'t WeightedRoundRobin \<Rightarrow> int" where
  "wrr_sum w = (\<Sum>n\<leftarrow>wr_nodes w. wn_weight n)"

text \<open>The weights are positive, and so are the sums that the code can form within \<open>int\<close>.\<close>

definition wrr_ok :: "'t WeightedRoundRobin \<Rightarrow> bool" where
  "wrr_ok w \<longleftrightarrow> (\<forall>n\<in>set (wr_nodes w). 0 < wn_weight n) \<and> (int (length (wr_nodes w)) + 1) * wrr_sum w < 2 ^ 63"

text \<open>After \<open>k\<close> calls a node's counter is its share of the calls less what it was given, the counters add up to zero and none is
  a whole round behind.\<close>

definition wrr_inv :: "'t WeightedRoundRobin \<Rightarrow> nat \<Rightarrow> (nat \<Rightarrow> nat) \<Rightarrow> 't WeightedRoundRobin \<Rightarrow> bool" where
  "wrr_inv w0 k c w \<longleftrightarrow> map wn_node (wr_nodes w) = map wn_node (wr_nodes w0) \<and> map wn_weight (wr_nodes w) = map wn_weight (wr_nodes w0)
     \<and> wr_weight w = wr_weight w0
     \<and> (\<forall>i<length (wr_nodes w0). wn_current (wr_nodes w ! i) = int k * wn_weight (wr_nodes w0 ! i) - wrr_sum w0 * int (c i)
          \<and> - wrr_sum w0 < wn_current (wr_nodes w ! i))
     \<and> (\<Sum>i<length (wr_nodes w0). c i) = k"

text \<open>The loop adds the weight everywhere and finds the first of the largest.\<close>

lemma wrr_scan_result:
  assumes "\<forall>n\<in>set ns. in_i64 (wn_current n + wn_weight n) \<and> 0 < wn_weight n" "0 \<le> tot" "tot + (\<Sum>n\<leftarrow>ns. wn_weight n) < 2 ^ 63"
    and "sel \<noteq> None \<longrightarrow> the sel < length seen \<and> wn_current (seen ! the sel) = mx \<and> (\<forall>n\<in>set seen. wn_current n \<le> mx)" "sel = None \<longrightarrow> seen = []"
    and "wrr_scan seen ns tot sel mx = (ns', tot', sel')"
  shows "ns' = seen @ map (\<lambda>n. n\<lparr>wn_current := wn_current n + wn_weight n\<rparr>) ns \<and> tot' = tot + (\<Sum>n\<leftarrow>ns. wn_weight n)
    \<and> (sel' = None \<longrightarrow> ns' = []) \<and> (\<forall>i. sel' = Some i \<longrightarrow> i < length ns' \<and> (\<forall>n\<in>set ns'. wn_current n \<le> wn_current (ns' ! i)))"
  using assms
proof (induction ns arbitrary: seen tot sel mx)
  case Nil
  then show ?case by auto
next
  case (Cons n ns)
  let ?n = "n\<lparr>wn_current := wn_current n + wn_weight n\<rparr>"
  have "0 \<le> sum_list (map wn_weight ns)" using Cons.prems(1) by (intro sum_list_nonneg) force
  then have w: "wrap64 (wn_current n + wn_weight n) = wn_current n + wn_weight n" "wrap64 (tot + wn_weight n) = tot + wn_weight n"
    using Cons.prems(1-3) by (simp, intro wrap64_id, simp add: in_i64_def)
  have hyp: "\<forall>n\<in>set ns. in_i64 (wn_current n + wn_weight n) \<and> 0 < wn_weight n" "0 \<le> tot + wn_weight n" "tot + wn_weight n + (\<Sum>n\<leftarrow>ns. wn_weight n) < 2 ^ 63"
    using Cons.prems(1-3) by (auto simp: add.assoc)
  show ?case
  proof (cases "sel = None \<or> mx < wn_current ?n")
    case True
    then have e: "wrr_scan (seen @ [?n]) ns (tot + wn_weight n) (Some (length seen)) (wn_current ?n) = (ns', tot', sel')"
      using Cons.prems(6) by (simp add: w Let_def split: if_splits)
    have m: "\<forall>x\<in>set (seen @ [?n]). wn_current x \<le> wn_current ?n" using True Cons.prems(4,5) by (cases sel) force+
    show ?thesis using Cons.IH [OF hyp _ _ e] m by (clarsimp simp: add.assoc)
  next
    case False
    then obtain s where s: "sel = Some s" by auto
    have e: "wrr_scan (seen @ [?n]) ns (tot + wn_weight n) sel mx = (ns', tot', sel')"
      using False Cons.prems(6) s by (simp add: w Let_def)
    have m: "s < length (seen @ [?n]) \<and> wn_current ((seen @ [?n]) ! s) = mx \<and> (\<forall>x\<in>set (seen @ [?n]). wn_current x \<le> mx)"
      using False Cons.prems(4) s by (simp add: nth_append)
    show ?thesis using Cons.IH [OF hyp _ _ e] m s by (clarsimp simp: add.assoc)
  qed
qed

lemma wrr_sum_nth: "wrr_sum w = (\<Sum>i<length (wr_nodes w). wn_weight (wr_nodes w ! i))"
  by (simp add: wrr_sum_def sum_list_sum_nth atLeast0LessThan)

lemma wrr_inv_weights:
  assumes "wrr_inv w0 k c w"
  shows "length (wr_nodes w) = length (wr_nodes w0)" "i < length (wr_nodes w0) \<Longrightarrow> wn_weight (wr_nodes w ! i) = wn_weight (wr_nodes w0 ! i)"
    "i < length (wr_nodes w0) \<Longrightarrow> wn_node (wr_nodes w ! i) = wn_node (wr_nodes w0 ! i)" "(\<Sum>n\<leftarrow>wr_nodes w. wn_weight n) = wrr_sum w0"
proof -
  have m: "map wn_node (wr_nodes w) = map wn_node (wr_nodes w0)" "map wn_weight (wr_nodes w) = map wn_weight (wr_nodes w0)"
    using assms by (simp_all add: wrr_inv_def)
  show l: "length (wr_nodes w) = length (wr_nodes w0)" using m(1) by (rule map_eq_imp_length_eq)
  show "wn_weight (wr_nodes w ! i) = wn_weight (wr_nodes w0 ! i)" if "i < length (wr_nodes w0)" using arg_cong [OF m(2), of "\<lambda>xs. xs ! i"] that l by simp
  show "wn_node (wr_nodes w ! i) = wn_node (wr_nodes w0 ! i)" if "i < length (wr_nodes w0)" using arg_cong [OF m(1), of "\<lambda>xs. xs ! i"] that l by simp
  show "(\<Sum>n\<leftarrow>wr_nodes w. wn_weight n) = wrr_sum w0" by (simp add: wrr_sum_def m(2))
qed

text \<open>The counters add up to zero, so none is more than the others' debts ahead.\<close>

lemma wrr_inv_bounds:
  assumes inv: "wrr_inv w0 k c w"
  shows "(\<Sum>i<length (wr_nodes w0). wn_current (wr_nodes w ! i)) = 0"
    and "i < length (wr_nodes w0) \<Longrightarrow> wn_current (wr_nodes w ! i) \<le> (int (length (wr_nodes w0)) - 1) * wrr_sum w0"
proof -
  let ?n = "length (wr_nodes w0)" and ?cur = "\<lambda>i. wn_current (wr_nodes w ! i)" and ?W = "wrr_sum w0"
  have cur: "?cur i = int k * wn_weight (wr_nodes w0 ! i) - ?W * int (c i)" "- ?W < ?cur i" if "i < ?n" for i
    using inv that unfolding wrr_inv_def by blast+
  have "(\<Sum>i<?n. c i) = k" using inv by (simp add: wrr_inv_def)
  then have ck: "(\<Sum>i<?n. int (c i)) = int k" by (metis of_nat_sum)
  have "(\<Sum>i<?n. ?cur i) = (\<Sum>i<?n. int k * wn_weight (wr_nodes w0 ! i) - ?W * int (c i))" using cur(1) by (intro sum.cong) auto
  also have "\<dots> = int k * ?W - ?W * int k" by (simp only: sum_subtractf sum_distrib_left [symmetric] ck wrr_sum_nth [symmetric])
  finally show zero: "(\<Sum>i<?n. ?cur i) = 0" by simp
  show "?cur i \<le> (int ?n - 1) * ?W" if i: "i < ?n"
  proof -
    have "(\<Sum>j\<in>{..<?n} - {i}. - ?W) \<le> (\<Sum>j\<in>{..<?n} - {i}. ?cur j)" using cur(2) by (intro sum_mono) (simp add: less_imp_le)
    moreover have "(\<Sum>j<?n. ?cur j) = ?cur i + (\<Sum>j\<in>{..<?n} - {i}. ?cur j)" using i by (intro sum.remove) auto
    moreover have "(\<Sum>j\<in>{..<?n} - {i}. - ?W) = - ((int ?n - 1) * ?W)" using i by (simp add: of_nat_diff)
    ultimately show ?thesis using zero by linarith
  qed
qed

lemma wrr_step:
  assumes inv: "wrr_inv w0 k c w" and ok: "wrr_ok w0" and ne: "wr_nodes w0 \<noteq> []"
  obtains i w' where "i < length (wr_nodes w0)" "WeightedRoundRobin_Next w = (Some (wn_node (wr_nodes w0 ! i)), w')" "wrr_inv w0 (Suc k) (c(i := c i + 1)) w'"
proof -
  let ?n = "length (wr_nodes w0)" and ?W = "wrr_sum w0"
  note wt = wrr_inv_weights [OF inv]
  have pos: "0 < wn_weight (wr_nodes w0 ! i)" if "i < ?n" for i using ok that by (simp add: wrr_ok_def)
  have W: "0 \<le> ?W" unfolding wrr_sum_nth using pos by (intro sum_nonneg) (simp add: less_imp_le)
  have leW: "wn_weight (wr_nodes w0 ! i) \<le> ?W" if "i < ?n" for i
    unfolding wrr_sum_nth using that pos by (intro member_le_sum) (auto simp: less_imp_le)
  have big: "(int ?n + 1) * ?W < 2 ^ 63" using ok by (simp add: wrr_ok_def)
  have cur: "wn_current (wr_nodes w ! i) = int k * wn_weight (wr_nodes w0 ! i) - ?W * int (c i)" "- ?W < wn_current (wr_nodes w ! i)" if "i < ?n" for i
    using inv that unfolding wrr_inv_def by blast+
  have W0: "0 < ?W" using pos [of 0] leW [of 0] ne by (simp add: less_le_trans)
  define new where "new i = wn_current (wr_nodes w ! i) + wn_weight (wr_nodes w0 ! i)" for i
  have nw: "- ?W < new i" "new i \<le> int ?n * ?W" if "i < ?n" for i
    using cur(2) [OF that] pos [OF that] wrr_inv_bounds(2) [OF inv that] leW [OF that] by (simp_all add: new_def algebra_simps)
  have Wn: "?W \<le> int ?n * ?W" using W ne by (cases ?n) (auto simp: algebra_simps)
  have range: "\<forall>n\<in>set (wr_nodes w). in_i64 (wn_current n + wn_weight n) \<and> 0 < wn_weight n"
  proof
    fix n assume "n \<in> set (wr_nodes w)"
    then obtain i where i: "i < ?n" "n = wr_nodes w ! i" using wt(1) by (auto simp: in_set_conv_nth)
    have "int ?n * ?W < 2 ^ 63" "?W < 2 ^ 63" using big W Wn by (simp_all add: algebra_simps)
    then show "in_i64 (wn_current n + wn_weight n) \<and> 0 < wn_weight n" using nw [OF i(1)] pos [OF i(1)] i wt(2) [OF i(1)] by (simp add: new_def in_i64_def)
  qed
  obtain ns tot sel where scan: "wrr_scan [] (wr_nodes w) 0 None 0 = (ns, tot, sel)" by (cases "wrr_scan [] (wr_nodes w) 0 None 0") auto
  have "?W < 2 ^ 63" using big W Wn by (simp add: algebra_simps)
  then have res: "ns = map (\<lambda>n. n\<lparr>wn_current := wn_current n + wn_weight n\<rparr>) (wr_nodes w) \<and> tot = ?W
    \<and> (sel = None \<longrightarrow> ns = []) \<and> (\<forall>i. sel = Some i \<longrightarrow> i < length ns \<and> (\<forall>n\<in>set ns. wn_current n \<le> wn_current (ns ! i)))"
    using wrr_scan_result [OF range _ _ _ _ scan] wt(4) by clarsimp
  have nsl: "length ns = ?n" using res wt(1) by simp
  then obtain i where sel: "sel = Some i" "i < ?n" using res ne by (cases sel) auto
  have nsi: "ns ! j = (wr_nodes w ! j)\<lparr>wn_current := new j\<rparr>" if "j < ?n" for j using res that wt(1,2) by (simp add: new_def)
  have max: "new j \<le> new i" if "j < ?n" for j
  proof -
    have "\<forall>n\<in>set ns. wn_current n \<le> wn_current (ns ! i)" using res sel(1) by blast
    then have "wn_current (ns ! j) \<le> wn_current (ns ! i)" using that nsl by (auto dest: bspec [OF _ nth_mem])
    then show ?thesis using nsi [OF that] nsi [OF sel(2)] by simp
  qed
  have "0 < new i"
  proof (rule ccontr)
    assume "\<not> 0 < new i"
    then have "(\<Sum>j<?n. new j) \<le> 0" using max by (intro sum_nonpos) (meson lessThan_iff not_less order_trans)
    moreover have "(\<Sum>j<?n. new j) = ?W" by (simp add: new_def sum.distrib wrr_inv_bounds(1) [OF inv] wrr_sum_nth [symmetric])
    ultimately show False using W0 by simp
  qed
  moreover have "new i < 2 ^ 63" using nw(2) [OF sel(2)] big W by (simp add: algebra_simps)
  ultimately have wrap: "wrap64 (new i - ?W) = new i - ?W" using \<open>?W < 2 ^ 63\<close> W by (intro wrap64_id) (simp add: in_i64_def)
  define w' where "w' = w\<lparr>wr_nodes := ns[i := (ns ! i)\<lparr>wn_current := new i - ?W\<rparr>]\<rparr>"
  have "WeightedRoundRobin_Next w = (Some (wn_node (wr_nodes w0 ! i)), w')"
  proof -
    have "wr_nodes w \<noteq> []" using ne wt(1) by auto
    then show ?thesis using scan res sel wrap nsi [OF sel(2)] wt(3) [OF sel(2)] unfolding WeightedRoundRobin_Next_def w'_def by simp
  qed
  moreover have "wrr_inv w0 (Suc k) (c(i := c i + 1)) w'"
    unfolding wrr_inv_def
  proof (intro conjI allI impI)
    have "map wn_node ns = map wn_node (wr_nodes w)" "map wn_weight ns = map wn_weight (wr_nodes w)" using res by simp_all
    then show "map wn_node (wr_nodes w') = map wn_node (wr_nodes w0)" "map wn_weight (wr_nodes w') = map wn_weight (wr_nodes w0)"
      using inv by (simp_all add: w'_def wrr_inv_def map_update_same)
    show "wr_weight w' = wr_weight w0" using inv by (simp add: w'_def wrr_inv_def)
    have "(\<Sum>j<?n. (c(i := c i + 1)) j) = (\<Sum>j<?n. c j + (if j = i then 1 else 0))" by (intro sum.cong) auto
    also have "\<dots> = Suc k" using inv sel(2) by (simp add: sum.distrib wrr_inv_def)
    finally show "(\<Sum>j<?n. (c(i := c i + 1)) j) = Suc k" .
    fix j assume j: "j < ?n"
    have cj: "wn_current (wr_nodes w' ! j) = (if j = i then new i - ?W else new j)" using nsi [OF j] j nsl by (auto simp: w'_def nth_list_update)
    then show "wn_current (wr_nodes w' ! j) = int (Suc k) * wn_weight (wr_nodes w0 ! j) - ?W * int ((c(i := c i + 1)) j)"
      using cur(1) [OF j] cur(1) [OF sel(2)] by (auto simp: new_def algebra_simps)
    show "- ?W < wn_current (wr_nodes w' ! j)" using cj nw(1) [OF j] \<open>0 < new i\<close> by (auto split: if_splits)
  qed
  ultimately show thesis using sel(2) that by blast
qed

text \<open>A run of \<open>k\<close> calls: the nodes picked, and the state after them.\<close>

primrec wrr_run :: "nat \<Rightarrow> 't WeightedRoundRobin \<Rightarrow> 't option list \<times> 't WeightedRoundRobin" where
  "wrr_run 0 w = ([], w)"
| "wrr_run (Suc k) w = (case wrr_run k w of (xs, w') \<Rightarrow> case WeightedRoundRobin_Next w' of (x, w'') \<Rightarrow> (xs @ [x], w''))"

lemma count_list_append: "count_list (xs @ ys) x = count_list xs x + count_list ys x"
  by (induction xs) simp_all

lemma wrr_run_inv:
  assumes "wrr_ok w0" "wr_nodes w0 \<noteq> []" "distinct (map wn_node (wr_nodes w0))" "\<forall>n\<in>set (wr_nodes w0). wn_current n = 0"
  shows "\<exists>c. wrr_inv w0 k c (snd (wrr_run k w0)) \<and> None \<notin> set (fst (wrr_run k w0))
    \<and> (\<forall>i<length (wr_nodes w0). count_list (fst (wrr_run k w0)) (Some (wn_node (wr_nodes w0 ! i))) = c i)"
proof (induction k)
  case 0
  have "0 < wrr_sum w0" unfolding wrr_sum_nth using assms(1,2) by (intro sum_pos) (auto simp: wrr_ok_def lessThan_empty_iff)
  then show ?case using assms(4) by (intro exI [of _ "\<lambda>_. 0"]) (simp add: wrr_inv_def)
next
  case (Suc k)
  then obtain c where c: "wrr_inv w0 k c (snd (wrr_run k w0))" "None \<notin> set (fst (wrr_run k w0))"
    "\<forall>i<length (wr_nodes w0). count_list (fst (wrr_run k w0)) (Some (wn_node (wr_nodes w0 ! i))) = c i" by blast
  obtain j w' where j: "j < length (wr_nodes w0)" "WeightedRoundRobin_Next (snd (wrr_run k w0)) = (Some (wn_node (wr_nodes w0 ! j)), w')"
    "wrr_inv w0 (Suc k) (c(j := c j + 1)) w'" using wrr_step [OF c(1) assms(1,2)] by blast
  have run: "wrr_run (Suc k) w0 = (fst (wrr_run k w0) @ [Some (wn_node (wr_nodes w0 ! j))], w')" using j(2) by (simp add: split_beta)
  have "wn_node (wr_nodes w0 ! j) = wn_node (wr_nodes w0 ! i) \<longleftrightarrow> i = j" if "i < length (wr_nodes w0)" for i
    using assms(3) that j(1) nth_eq_iff_index_eq [of "map wn_node (wr_nodes w0)" j i] by auto
  then show ?case using j(3) c(2,3) unfolding run by (intro exI [of _ "c(j := c j + 1)"] conjI) (simp_all add: count_list_append fun_upd_def)
qed

text \<open>C34. Smooth weighted round robin is exact. However many calls are made, no node has been picked a whole time more than its
  share of them, and none is more than one turn of every other node behind; after as many calls as the weights add up
  to, every node has been picked exactly its weight, and the balancer is where it started.\<close>

theorem WRR_exact:
  assumes "wrr_ok w" "distinct (map wn_node (wr_nodes w))" "\<forall>n\<in>set (wr_nodes w). wn_current n = 0" "n \<in> set (wr_nodes w)"
    and "wrr_run k w = (xs, w')" and "p = int (count_list xs (Some (wn_node n)))"
  shows "None \<notin> set xs \<and> p * wrr_sum w < int k * wn_weight n + wrr_sum w
    \<and> int k * wn_weight n \<le> (p + int (length (wr_nodes w)) - 1) * wrr_sum w
    \<and> (int k = wrr_sum w \<longrightarrow> p = wn_weight n \<and> w' = w)"
proof -
  let ?W = "wrr_sum w" and ?ns = "wr_nodes w"
  have ne: "?ns \<noteq> []" using assms(4) by auto
  obtain c where c: "wrr_inv w k c w'" "None \<notin> set xs" "\<And>i. i < length ?ns \<Longrightarrow> count_list xs (Some (wn_node (?ns ! i))) = c i"
    using wrr_run_inv [OF assms(1) ne assms(2,3), of k] assms(5) by auto
  obtain i where i: "i < length ?ns" "n = ?ns ! i" using assms(4) by (auto simp: in_set_conv_nth)
  have p: "p = int (c i)" using c(3) [OF i(1)] assms(6) i(2) by simp
  have cur: "wn_current (wr_nodes w' ! j) = int k * wn_weight (?ns ! j) - ?W * int (c j)" "- ?W < wn_current (wr_nodes w' ! j)" if "j < length ?ns" for j
    using c(1) that unfolding wrr_inv_def by blast+
  have "int (c i) * ?W < int k * wn_weight n + ?W" using cur [OF i(1)] i(2) by (simp add: mult.commute)
  moreover have "int k * wn_weight n \<le> (int (c i) + int (length ?ns) - 1) * ?W"
    using cur(1) [OF i(1)] wrr_inv_bounds(2) [OF c(1) i(1)] i(2) by (simp add: algebra_simps)
  moreover have "int (c i) = wn_weight n \<and> w' = w" if "int k = ?W"
  proof -
    have W: "0 < ?W" unfolding wrr_sum_nth using assms(1) ne by (intro sum_pos) (auto simp: wrr_ok_def lessThan_empty_iff)
    have nonneg: "0 \<le> wn_weight (?ns ! j) - int (c j)" if "j < length ?ns" for j
    proof -
      have "?W * (-1) < ?W * (wn_weight (?ns ! j) - int (c j))" using cur [OF that] \<open>int k = ?W\<close> by (simp add: right_diff_distrib)
      then have "- 1 < wn_weight (?ns ! j) - int (c j)" using W mult_less_cancel_left_pos by blast
      then show ?thesis by simp
    qed
    have "(\<Sum>j<length ?ns. wn_weight (?ns ! j) - int (c j)) = 0"
    proof -
      have "(\<Sum>j<length ?ns. c j) = k" using c(1) by (simp add: wrr_inv_def)
      then have "(\<Sum>j<length ?ns. int (c j)) = int k" by (metis of_nat_sum)
      then show ?thesis using that by (simp add: sum_subtractf wrr_sum_nth [symmetric])
    qed
    then have eq: "wn_weight (?ns ! j) = int (c j)" if "j < length ?ns" for j
      using nonneg that sum_nonneg_eq_0_iff [of "{..<length ?ns}" "\<lambda>j. wn_weight (?ns ! j) - int (c j)"] by auto
    have "wr_nodes w' ! j = ?ns ! j" if "j < length ?ns" for j
    proof -
      have "wn_current (wr_nodes w' ! j) = wn_current (?ns ! j)" using cur(1) [OF that] eq [OF that] \<open>int k = ?W\<close> assms(3) that by simp
      then show ?thesis using wrr_inv_weights(2,3) [OF c(1) that] by (intro wrrNode.equality) auto
    qed
    then have "wr_nodes w' = ?ns" using wrr_inv_weights(1) [OF c(1)] by (intro nth_equalityI) simp_all
    moreover have "wr_weight w' = wr_weight w" using c(1) by (simp add: wrr_inv_def)
    ultimately show ?thesis using eq [OF i(1)] i(2) by simp
  qed
  ultimately show ?thesis unfolding p using c(2) by blast
qed

text \<open>The weights 5, 1 and 1 of the usual example: seven calls.\<close>

theorem WRR_exact_witness:
  "let view = (\<lambda>n. if n = ''a'' then Some (n, 5) else Some (n, 1)); w = NewWeightedRoundRobin view [''a'', ''b'', ''c'']
   in wrr_sum w = 7 \<and> count_list (fst (wrr_run 7 w)) (Some ''a'') = 5 \<and> snd (wrr_run 7 w) = w
      \<and> fst (wrr_run 7 w) = map Some [''a'', ''a'', ''b'', ''a'', ''c'', ''a'', ''a'']"
proof -
  define w where "w = NewWeightedRoundRobin (\<lambda>n. if n = ''a'' then Some (n, 5) else Some (n, 1)) [''a'', ''b'', ''c'']"
  have w: "wr_nodes w = [\<lparr>wn_node = ''a'', wn_weight = 5, wn_current = 0\<rparr>, \<lparr>wn_node = ''b'', wn_weight = 1, wn_current = 0\<rparr>, \<lparr>wn_node = ''c'', wn_weight = 1, wn_current = 0\<rparr>]"
    by (simp add: w_def NewWeightedRoundRobin_def wrr_table_def List.map_filter_def)
  have sum: "wrr_sum w = 7" by (simp add: wrr_sum_def w)
  have ok: "wrr_ok w" by (simp add: wrr_ok_def w sum)
  have "fst (wrr_run 7 w) = map Some [''a'', ''a'', ''b'', ''a'', ''c'', ''a'', ''a'']" unfolding w_def by code_simp
  moreover have "int (count_list (fst (wrr_run 7 w)) (Some ''a'')) = 5 \<and> snd (wrr_run 7 w) = w"
    using WRR_exact [OF ok _ _ _ surjective_pairing refl, of "\<lparr>wn_node = ''a'', wn_weight = 5, wn_current = 0\<rparr>" 7] by (simp add: w sum)
  ultimately show ?thesis using sum by (simp add: w_def [symmetric] Let_def)
qed

section \<open>Round robin\<close>

text \<open>While the cursor has not overflowed, any round of consecutive calls visits every position once.\<close>

lemma RoundRobin_Next_nth:
  assumes "0 \<le> rr_index r" "rr_index r + 1 < 2 ^ 63" "rr_nodes r \<noteq> []"
  shows "RoundRobin_Next r = (RRNode (rr_nodes r ! nat ((rr_index r + 1) mod int (length (rr_nodes r)))), r\<lparr>rr_index := rr_index r + 1\<rparr>)"
  using assms by (simp add: RoundRobin_Next_def go_mod_nonneg in_i64_def not_less Let_def)

lemma RoundRobin_first: "RoundRobin_Next (NewRoundRobin [''a'', ''b'']) = (RRNode ''b'', \<lparr>rr_nodes = [''a'', ''b''], rr_index = 1\<rparr>)"
  by code_simp

text \<open>When the cursor overflows, the remainder is negative and the call panics.\<close>

lemma RoundRobin_overflow_panics: "fst (RoundRobin_Next \<lparr>rr_nodes = [''a'', ''b'', ''c''], rr_index = 2 ^ 63 - 1\<rparr>) = RRPanic"
  by code_simp

end
