(* ===== verification/Shard.thy ===== *)
theory Shard
  imports LoadBalance Complex_Main
begin

text \<open>
  \<open>pkg/store/shard\<close>: the ownership of keys by instances over the ring of \<open>LoadBalance\<close>, the router that forwards a request to the
  owner, rendezvous hashing and jump hashing. A member is a record of the three methods of the interface \<open>Member\<close>. Scores
  of rendezvous hashing are floats made from a hash and a weight: the rounded formula is an argument whose values may
  be of any linear order. The floats of jump hashing are rationals with the rounding as an argument.
\<close>

section \<open>Members\<close>

record ShardMember =
  mb_ID :: string
  mb_Weight :: int
  mb_Addr :: string

definition StaticMember :: "string \<Rightarrow> int \<Rightarrow> string \<Rightarrow> ShardMember" where
  "StaticMember nodeID nodeWeight nodeAddr = \<lparr>mb_ID = nodeID, mb_Weight = (if nodeWeight \<le> 0 then 1 else nodeWeight), mb_Addr = nodeAddr\<rparr>"

definition member_view :: "ShardMember node_view" where
  "member_view m = Some (mb_ID m, mb_Weight m)"

section \<open>The sharder\<close>

record Sharder =
  sh_self :: string
  sh_virtualFactor :: "32 word"
  sh_ring :: "ShardMember ConsistentHash"
  sh_members :: "string \<rightharpoonup> ShardMember"

definition shardWithVirtualFactor :: "32 word \<Rightarrow> 32 word \<Rightarrow> 32 word" where
  "shardWithVirtualFactor n vf = (if 0 < n then n else vf)"

text \<open>The first member of every identifier; \<open>nil\<close> members and empty identifiers are skipped.\<close>

fun member_list :: "(string \<rightharpoonup> ShardMember) \<Rightarrow> ShardMember option list \<Rightarrow> (string \<rightharpoonup> ShardMember) \<times> ShardMember list" where
  "member_list m [] = (m, [])"
| "member_list m (mem # ms) =
     (case mem of
        None \<Rightarrow> member_list m ms
      | Some x \<Rightarrow>
          if mb_ID x = [] then member_list m ms
          else if m (mb_ID x) \<noteq> None then member_list m ms
          else case member_list (m(mb_ID x \<mapsto> x)) ms of (m', l) \<Rightarrow> (m', x # l))"

definition Sharder_SetMembers ::
  "(virtualNode list \<Rightarrow> virtualNode list) \<Rightarrow> maphash \<Rightarrow> ShardMember option list \<Rightarrow> Sharder \<Rightarrow> Sharder option" where
  "Sharder_SetMembers srt hash members s =
     (case member_list Map.empty members of (m, l) \<Rightarrow>
        case NewConsistentHash srt hash member_view l [hashWithVirtualFactor (sh_virtualFactor s)] of
          None \<Rightarrow> None
        | Some ring \<Rightarrow> Some (s\<lparr>sh_members := m, sh_ring := ring\<rparr>))"

definition Sharder_New ::
  "(virtualNode list \<Rightarrow> virtualNode list) \<Rightarrow> maphash \<Rightarrow> string \<Rightarrow> ShardMember option list \<Rightarrow> (32 word \<Rightarrow> 32 word) list \<Rightarrow> Sharder option" where
  "Sharder_New srt hash self members opts =
     Sharder_SetMembers srt hash members
       \<lparr>sh_self = self, sh_virtualFactor = foldl (\<lambda>v f. f v) 100 opts,
        sh_ring = \<lparr>ch_realNodes = [], ch_virtualNodes = [], ch_replica = 0\<rparr>, sh_members = Map.empty\<rparr>"

definition Sharder_Owner :: "maphash \<Rightarrow> key \<Rightarrow> Sharder \<Rightarrow> ShardMember option" where
  "Sharder_Owner hash k s = ConsistentHash_Get hash k (sh_ring s)"

definition Sharder_Members :: "Sharder \<Rightarrow> ShardMember set" where
  "Sharder_Members s = ran (sh_members s)"

definition Sharder_IsLocal :: "maphash \<Rightarrow> key \<Rightarrow> Sharder \<Rightarrow> bool" where
  "Sharder_IsLocal hash k s = (case Sharder_Owner hash k s of None \<Rightarrow> True | Some owner \<Rightarrow> mb_ID owner = sh_self s)"

section \<open>The router\<close>

text \<open>A request has a path and the header that marks a forwarded request; the answer is to serve it here, to send it to a base
  address with the header set, or to fail.\<close>

record request =
  rq_Path :: string
  rq_proxied :: string

datatype routed = ServeLocal | ProxyTo string request | BadGateway string

definition PathHeadKey :: "request \<Rightarrow> key" where
  "PathHeadKey r =
     (let p = (case rq_Path r of c # cs \<Rightarrow> if c = CHR ''/'' then cs else c # cs | [] \<Rightarrow> [])
      in takeWhile (\<lambda>c. c \<noteq> CHR ''/'') p)"

text \<open>\<open>strings.Contains\<close> and \<open>url.Parse\<close>; the parser is an argument.\<close>

fun contains :: "string \<Rightarrow> string \<Rightarrow> bool" where
  "contains sub [] = (sub = [])"
| "contains sub (c # cs) = (take (length sub) (c # cs) = sub \<or> contains sub cs)"

text \<open>The cache is looked up by the address as given and filled under the address with its scheme.\<close>

definition proxyFor :: "(string \<Rightarrow> err + string) \<Rightarrow> string \<Rightarrow> (string \<rightharpoonup> string) \<Rightarrow> (err + string) \<times> (string \<rightharpoonup> string)" where
  "proxyFor parse addr proxies =
     (case proxies addr of
        Some p \<Rightarrow> (Inr p, proxies)
      | None \<Rightarrow>
          let addr' = (if contains ''://'' addr then addr else ''http://'' @ addr)
          in case parse addr' of
               Inl e \<Rightarrow> (Inl e, proxies)
             | Inr base \<Rightarrow> (Inr base, proxies(addr' \<mapsto> base)))"

definition Router_ServeHTTP ::
  "maphash \<Rightarrow> (string \<Rightarrow> err + string) \<Rightarrow> (request \<Rightarrow> key) \<Rightarrow> Sharder \<Rightarrow> request \<Rightarrow> (string \<rightharpoonup> string) \<Rightarrow> routed \<times> (string \<rightharpoonup> string)" where
  "Router_ServeHTTP hash parse keyFn s r proxies =
     (let k = keyFn r
      in if k = [] then (ServeLocal, proxies)
         else case Sharder_Owner hash k s of
           None \<Rightarrow> (ServeLocal, proxies)
         | Some owner \<Rightarrow>
             if mb_ID owner = sh_self s then (ServeLocal, proxies)
             else if rq_proxied r \<noteq> [] then (ServeLocal, proxies)
             else case proxyFor parse (mb_Addr owner) proxies of
               (Inl e, ps) \<Rightarrow> (BadGateway (''shard: bad owner addr: '' @ e), ps)
             | (Inr base, ps) \<Rightarrow> (ProxyTo base (r\<lparr>rq_proxied := sh_self s\<rparr>), ps))"

section \<open>Rendezvous hashing\<close>

unbundle bit_operations_syntax

definition hash64 :: "string \<Rightarrow> string \<Rightarrow> 64 word" where
  "hash64 i k =
     (let prime = 1099511628211;
          h = foldl (\<lambda>h c. (h XOR of_nat (of_char c)) * prime) (1469598103934665603 :: 64 word) i;
          h = (h XOR 0) * prime;
          h = foldl (\<lambda>h c. (h XOR of_nat (of_char c)) * prime) h k;
          h = h + 0x9e3779b97f4a7c15;
          h = (h XOR drop_bit 30 h) * 0xbf58476d1ce4e5b9;
          h = (h XOR drop_bit 27 h) * 0x94d049bb133111eb
      in h XOR drop_bit 31 h)"

text \<open>\<open>weigh w n\<close> is the float \<open>w / -log ((n + 1) / (2^53 + 1))\<close>.\<close>

definition hrw_score :: "(int \<Rightarrow> 64 word \<Rightarrow> 'r::linorder) \<Rightarrow> ShardMember \<Rightarrow> key \<Rightarrow> 'r" where
  "hrw_score weigh m k =
     (let w = (if mb_Weight m < 1 then 1 else mb_Weight m) in weigh w (drop_bit 11 (hash64 (mb_ID m) k)))"

record Rendezvous =
  rv_members :: "ShardMember list"

definition Rendezvous_Update :: "ShardMember list \<Rightarrow> Rendezvous \<Rightarrow> Rendezvous" where
  "Rendezvous_Update members r = r\<lparr>rv_members := members\<rparr>"

definition NewRendezvous :: "ShardMember list \<Rightarrow> Rendezvous" where
  "NewRendezvous members = Rendezvous_Update members \<lparr>rv_members = []\<rparr>"

definition Rendezvous_Pick :: "(int \<Rightarrow> 64 word \<Rightarrow> 'r::linorder) \<Rightarrow> key \<Rightarrow> Rendezvous \<Rightarrow> ShardMember option" where
  "Rendezvous_Pick weigh k r =
     map_option fst (foldl (\<lambda>best m. let s = hrw_score weigh m k in
        case best of None \<Rightarrow> Some (m, s) | Some (b, bs) \<Rightarrow> if bs < s then Some (m, s) else best) None (rv_members r))"

definition Rendezvous_PickN ::
  "((ShardMember \<times> 'r) list \<Rightarrow> (ShardMember \<times> 'r) list) \<Rightarrow> (int \<Rightarrow> 64 word \<Rightarrow> 'r::linorder) \<Rightarrow> key \<Rightarrow> int \<Rightarrow> Rendezvous \<Rightarrow> ShardMember list" where
  "Rendezvous_PickN srt weigh k n r =
     (if n \<le> 0 \<or> rv_members r = [] then []
      else
        let everyone = srt (map (\<lambda>m. (m, hrw_score weigh m k)) (rv_members r));
            n' = (if int (length everyone) < n then int (length everyone) else n)
        in map fst (take (nat n') everyone))"

definition Rendezvous_Members :: "Rendezvous \<Rightarrow> ShardMember list" where
  "Rendezvous_Members r = rv_members r"

section \<open>Jump hashing\<close>

text \<open>\<open>rnd\<close> rounds the result of a float operation. The loop may not end for a rounding that is not a float's.\<close>

definition jump_key :: "64 word \<Rightarrow> 64 word" where
  "jump_key key = key * 2862933555777941757 + 1"

definition jump_next :: "(rat \<Rightarrow> rat) \<Rightarrow> int \<Rightarrow> 64 word \<Rightarrow> int" where
  "jump_next rnd b key = \<lfloor>rnd (rnd (of_int (b + 1)) * rnd (2 ^ 31 / rnd (of_int (uint (drop_bit 33 key) + 1))))\<rfloor>"

partial_function (option) jump_loop :: "(rat \<Rightarrow> rat) \<Rightarrow> int \<Rightarrow> 64 word \<Rightarrow> int \<Rightarrow> int \<Rightarrow> int option" where
  "jump_loop rnd buckets key b j =
     (if j < buckets then jump_loop rnd buckets (jump_key key) j (jump_next rnd j (jump_key key)) else Some b)"

definition Jump :: "(rat \<Rightarrow> rat) \<Rightarrow> 64 word \<Rightarrow> int \<Rightarrow> int option" where
  "Jump rnd key buckets = (if buckets \<le> 0 then Some 0 else jump_loop rnd buckets key (-1) 0)"

section \<open>Members of a sharder\<close>

lemma member_list_spec:
  "member_list m ms = (m', l) \<Longrightarrow> distinct (map mb_ID l) \<and> (\<forall>x\<in>set l. m (mb_ID x) = None \<and> mb_ID x \<noteq> [] \<and> Some x \<in> set ms)"
proof (induction ms arbitrary: m m' l)
  case (Cons mem ms)
  consider "member_list m ms = (m', l)"
    | x l' where "mem = Some x" "mb_ID x \<noteq> []" "m (mb_ID x) = None" "member_list (m(mb_ID x \<mapsto> x)) ms = (m', l')" "l = x # l'"
    using Cons.prems by (auto split: option.splits if_splits prod.splits)
  then show ?case
  proof cases
    case 1
    then show ?thesis using Cons.IH [OF 1] by simp
  next
    case (2 x l')
    have ih: "distinct (map mb_ID l')" "\<And>y. y \<in> set l' \<Longrightarrow> mb_ID y \<noteq> mb_ID x \<and> m (mb_ID y) = None \<and> mb_ID y \<noteq> [] \<and> Some y \<in> set ms"
      using Cons.IH [OF 2(4)] by (auto split: if_splits)
    then have "mb_ID x \<notin> mb_ID ` set l'" by force
    then show ?thesis using ih 2 by auto
  qed
qed simp

definition shard_opts :: "(32 word \<Rightarrow> 32 word) list \<Rightarrow> (consistentHashConfig \<Rightarrow> consistentHashConfig) list" where
  "shard_opts opts = [hashWithVirtualFactor (foldl (\<lambda>v f. f v) 100 opts)]"

text \<open>The owner is the choice of the ring among the usable members.\<close>

lemma Sharder_Owner_ring:
  assumes "Sharder_New srt hash self members opts = Some s"
  shows "Sharder_Owner hash k s = ring_route srt hash member_view (shard_opts opts) (snd (member_list Map.empty members)) k \<and> sh_self s = self"
  using assms
  by (auto simp: Sharder_New_def Sharder_SetMembers_def Sharder_Owner_def ring_route_def shard_opts_def split: prod.splits option.splits)

section \<open>Delivery in a cluster\<close>

text \<open>What \<open>proxyFor\<close> answers does not depend on what is in a cache that it filled itself.\<close>

definition with_scheme :: "string \<Rightarrow> string" where
  "with_scheme addr = (if contains ''://'' addr then addr else ''http://'' @ addr)"

definition cache_ok :: "(string \<Rightarrow> err + string) \<Rightarrow> (string \<rightharpoonup> string) \<Rightarrow> bool" where
  "cache_ok parse proxies \<longleftrightarrow> (\<forall>a p. proxies a = Some p \<longrightarrow> contains ''://'' a \<and> parse a = Inr p)"

lemma contains_scheme: "contains ''://'' (''http://'' @ addr)"
  by simp

lemma proxyFor_parse:
  assumes "cache_ok parse proxies" "proxyFor parse addr proxies = (r, proxies')"
  shows "r = parse (with_scheme addr) \<and> cache_ok parse proxies'"
proof (cases "proxies addr")
  case None
  have "contains ''://'' (with_scheme addr)" by (cases "contains ''://'' addr") (simp_all only: with_scheme_def if_True if_False contains_scheme)
  then show ?thesis using assms None
    by (auto simp: proxyFor_def cache_ok_def with_scheme_def [symmetric] Let_def split: sum.splits if_splits simp del: contains.simps)
next
  case (Some p)
  then have "contains ''://'' addr" "parse addr = Inr p" using assms(1) unfolding cache_ok_def by blast+
  then show ?thesis using assms Some by (simp add: proxyFor_def with_scheme_def del: contains.simps)
qed

text \<open>An instance has its own hash function and its own sharder; \<open>net\<close> gives the instance at an address, \<open>caches\<close> its
  proxies. A request is handed on until an instance answers.\<close>

datatype answer = ServedAt string | FailedAt string string

primrec deliver ::
  "(string \<Rightarrow> maphash \<times> Sharder) \<Rightarrow> (string \<Rightarrow> err + string) \<Rightarrow> (request \<Rightarrow> key) \<Rightarrow> nat \<Rightarrow> string \<Rightarrow> request \<Rightarrow> (string \<Rightarrow> string \<rightharpoonup> string)
    \<Rightarrow> (answer \<times> (string \<Rightarrow> string \<rightharpoonup> string)) option" where
  "deliver net parse keyFn 0 a r caches = None"
| "deliver net parse keyFn (Suc n) a r caches =
     (case Router_ServeHTTP (fst (net a)) parse keyFn (snd (net a)) r (caches a) of
        (ServeLocal, ps) \<Rightarrow> Some (ServedAt a, caches(a := ps))
      | (BadGateway e, ps) \<Rightarrow> Some (FailedAt a e, caches(a := ps))
      | (ProxyTo base r', ps) \<Rightarrow> deliver net parse keyFn n base r' (caches(a := ps)))"

text \<open>A request that carries the mark is answered where it arrives.\<close>

lemma proxied_served_local: "rq_proxied r \<noteq> [] \<Longrightarrow> Router_ServeHTTP hash parse keyFn s r ps = (ServeLocal, ps)"
  by (auto simp: Router_ServeHTTP_def Let_def split: option.splits)

lemma deliver_proxied: "rq_proxied r \<noteq> [] \<Longrightarrow> deliver net parse keyFn (Suc n) a r caches = Some (ServedAt a, caches(a := caches a))"
  by (simp add: proxied_served_local)

text \<open>A settled cluster: one hash function, the same usable members everywhere (in any order), no colliding points, and
  every member reachable at its address.\<close>

definition cluster_agrees ::
  "(virtualNode list \<Rightarrow> virtualNode list) \<Rightarrow> maphash \<Rightarrow> (32 word \<Rightarrow> 32 word) list \<Rightarrow> (string \<Rightarrow> err + string) \<Rightarrow> ShardMember list
    \<Rightarrow> (string \<Rightarrow> maphash \<times> Sharder) \<Rightarrow> bool" where
  "cluster_agrees srt hash opts parse l net \<longleftrightarrow> ring_ok srt hash member_view (shard_opts opts) l \<and> distinct l
     \<and> (\<forall>a. fst (net a) = hash \<and> (\<exists>members. Sharder_New srt hash (sh_self (snd (net a))) members opts = Some (snd (net a))
          \<and> set (snd (member_list Map.empty members)) = set l))
     \<and> (\<forall>m\<in>set l. \<exists>base. parse (with_scheme (mb_Addr m)) = Inr base \<and> sh_self (snd (net base)) = mb_ID m)"

lemma cluster_owner:
  assumes "cluster_agrees srt hash opts parse l net"
  shows "Sharder_Owner (fst (net a)) k (snd (net a)) = ring_route srt hash member_view (shard_opts opts) l k"
proof -
  have ok: "ring_ok srt hash member_view (shard_opts opts) l" and d: "distinct l" using assms by (simp_all add: cluster_agrees_def)
  obtain members where hash: "fst (net a) = hash" and new: "Sharder_New srt hash (sh_self (snd (net a))) members opts = Some (snd (net a))"
    and eq: "set (snd (member_list Map.empty members)) = set l" using assms unfolding cluster_agrees_def by blast
  let ?l = "snd (member_list Map.empty members)"
  have "distinct (map mb_ID ?l)" using member_list_spec [OF surjective_pairing] by blast
  then have "mset ?l = mset l" using eq d set_eq_iff_mset_eq_distinct [of ?l l] by (simp add: distinct_map)
  then have "ring_ok srt hash member_view (shard_opts opts) ?l" by (intro ring_ok_sub [OF ok]) simp
  then have "ring_route srt hash member_view (shard_opts opts) ?l k = ring_route srt hash member_view (shard_opts opts) l k"
    using ok eq by (intro ring.order_independent)
  then show ?thesis using Sharder_Owner_ring [OF new, of k] hash by simp
qed

text \<open>C35. A request is answered after at most one forward, whatever the instances believe about each other and whatever
  hash functions they use. When they agree on the members and share the hash function, a new request with a key that has
  an owner is answered by the owner, wherever it entered.\<close>

theorem Router_delivery:
  assumes "\<forall>a. sh_self (snd (net a)) \<noteq> []"
  shows "\<exists>ans caches'. deliver net parse keyFn 2 a r caches = Some (ans, caches')
    \<and> (cluster_agrees srt hash opts parse l net \<and> rq_proxied r = [] \<and> keyFn r \<noteq> [] \<and> (\<forall>x. cache_ok parse (caches x))
         \<and> ring_route srt hash member_view (shard_opts opts) l (keyFn r) = Some owner \<longrightarrow>
       (\<exists>a'. ans = ServedAt a' \<and> sh_self (snd (net a')) = mb_ID owner))"
proof -
  let ?step = "Router_ServeHTTP (fst (net a)) parse keyFn (snd (net a)) r (caches a)"
  have two: "(2::nat) = Suc (Suc 0)" by simp
  obtain what ps where step: "?step = (what, ps)" by force
  show ?thesis
  proof (cases what)
    case ServeLocal
    have "sh_self (snd (net a)) = mb_ID owner"
      if "cluster_agrees srt hash opts parse l net" "rq_proxied r = []" "keyFn r \<noteq> []" "ring_route srt hash member_view (shard_opts opts) l (keyFn r) = Some owner"
    proof (rule ccontr)
      assume "sh_self (snd (net a)) \<noteq> mb_ID owner"
      then show False using step ServeLocal that cluster_owner [OF that(1), of a "keyFn r"]
        by (auto simp: Router_ServeHTTP_def Let_def split: prod.splits sum.splits)
    qed
    then show ?thesis unfolding two using step ServeLocal by simp
  next
    case (BadGateway e)
    have False if c: "cluster_agrees srt hash opts parse l net" "\<forall>x. cache_ok parse (caches x)" "ring_route srt hash member_view (shard_opts opts) l (keyFn r) = Some owner"
    proof -
      have "owner \<in> set l" using ring_route_member [OF _ c(3)] c(1) by (simp add: cluster_agrees_def)
      then obtain base where "parse (with_scheme (mb_Addr owner)) = Inr base" using c(1) unfolding cluster_agrees_def by blast
      then show False using step BadGateway proxyFor_parse [OF spec [OF c(2), of a], of "mb_Addr owner"] c(3) cluster_owner [OF c(1), of a "keyFn r"]
        by (auto simp: Router_ServeHTTP_def Let_def split: if_splits prod.splits sum.splits)
    qed
    then show ?thesis unfolding two using step BadGateway by auto
  next
    case (ProxyTo base r')
    have r': "r' = r\<lparr>rq_proxied := sh_self (snd (net a))\<rparr>"
      using step ProxyTo by (auto simp: Router_ServeHTTP_def Let_def split: if_splits option.splits prod.splits sum.splits)
    then have ans: "deliver net parse keyFn 2 a r caches = Some (ServedAt base, (caches(a := ps))(base := (caches(a := ps)) base))"
      unfolding two using step ProxyTo deliver_proxied [of r' net parse keyFn 0 base "caches(a := ps)"] assms by simp
    have "sh_self (snd (net base)) = mb_ID owner"
      if c: "cluster_agrees srt hash opts parse l net" "\<forall>x. cache_ok parse (caches x)" "ring_route srt hash member_view (shard_opts opts) l (keyFn r) = Some owner"
    proof -
      have "owner \<in> set l" using ring_route_member [OF _ c(3)] c(1) by (simp add: cluster_agrees_def)
      then obtain b where b: "parse (with_scheme (mb_Addr owner)) = Inr b" "sh_self (snd (net b)) = mb_ID owner" using c(1) unfolding cluster_agrees_def by blast
      have "b = base" using step ProxyTo b(1) proxyFor_parse [OF spec [OF c(2), of a], of "mb_Addr owner"] c(3) cluster_owner [OF c(1), of a "keyFn r"]
        by (auto simp: Router_ServeHTTP_def Let_def split: if_splits prod.splits sum.splits)
      then show ?thesis using b(2) by simp
    qed
    then show ?thesis using ans by blast
  qed
qed

text \<open>Two instances, each listing the members in its own order; \<open>''k''\<close> belongs to the first and enters at the second.\<close>

definition letter_hash :: maphash where
  "letter_hash s = (case s of [] \<Rightarrow> 0 | c # cs \<Rightarrow> of_nat (of_char c))"

definition two_members :: "ShardMember list" where
  "two_members = [StaticMember ''a'' 0 ''a:80'', StaticMember ''b'' 0 ''b:80'']"

definition two_instances :: "string \<Rightarrow> maphash \<times> Sharder" where
  "two_instances addr =
     (letter_hash,
      if addr = ''http://a:80'' then the (Sharder_New (sort_key vn_hash) letter_hash ''a'' (map Some two_members) [shardWithVirtualFactor 1])
      else the (Sharder_New (sort_key vn_hash) letter_hash ''b'' (None # rev (map Some two_members)) [shardWithVirtualFactor 1]))"

lemma two_members_ok: "ring_ok (sort_key vn_hash) letter_hash member_view (shard_opts [shardWithVirtualFactor 1]) two_members"
proof -
  let ?a = "\<lparr>ni_node = StaticMember ''a'' 0 ''a:80'', ni_id = ''a'', ni_weight = 1\<rparr>" and ?b = "\<lparr>ni_node = StaticMember ''b'' 0 ''b:80'', ni_id = ''b'', ni_weight = 1\<rparr>"
  have items: "node_items member_view two_members = [?a, ?b]"
    by (simp add: node_items_def List.map_filter_def two_members_def member_view_def StaticMember_def)
  have pts: "points (hash_config (shard_opts [shardWithVirtualFactor 1])) \<lparr>ni_node = n, ni_id = i, ni_weight = 1\<rparr> = 1" for n :: ShardMember and i
    by (simp add: points_def hash_config_def hashWithVirtualFactor_def shard_opts_def shardWithVirtualFactor_def)
  have "inj_on letter_hash {''a#0'', ''b#0''}" by (simp add: letter_hash_def)
  moreover have "{ni_id rn @ ''#'' @ writeInt j |rn j. rn \<in> set (node_items member_view two_members) \<and> j < points (hash_config (shard_opts [shardWithVirtualFactor 1])) rn} \<subseteq> {''a#0'', ''b#0''}"
    unfolding items by (auto simp: pts writeInt_def)
  ultimately have "inj_on letter_hash {ni_id rn @ ''#'' @ writeInt j |rn j. rn \<in> set (node_items member_view two_members) \<and> j < points (hash_config (shard_opts [shardWithVirtualFactor 1])) rn}"
    by (rule inj_on_subset)
  moreover have "m = m'" if "m \<in> set two_members" "m' \<in> set two_members" "member_view m = Some (i, w)" "member_view m' = Some (i, w')" for m m' i w w'
    using that by (auto simp: two_members_def member_view_def StaticMember_def)
  ultimately show ?thesis using sorts_by_sort_key [of vn_hash] unfolding ring_ok_def by (simp add: items pts)
qed

lemma two_instances_self: "sh_self (snd (two_instances a)) = (if a = ''http://a:80'' then ''a'' else ''b'')"
proof -
  have "sh_self (the (Sharder_New (sort_key vn_hash) letter_hash ''a'' (map Some two_members) [shardWithVirtualFactor 1])) = ''a''"
    "sh_self (the (Sharder_New (sort_key vn_hash) letter_hash ''b'' (None # rev (map Some two_members)) [shardWithVirtualFactor 1])) = ''b''" by code_simp+
  then show ?thesis by (simp add: two_instances_def)
qed

lemma two_instances_agree:
  "cluster_agrees (sort_key vn_hash) letter_hash [shardWithVirtualFactor 1] Inr two_members two_instances"
proof -
  have new: "Sharder_New (sort_key vn_hash) letter_hash ''a'' (map Some two_members) [shardWithVirtualFactor 1] \<noteq> None"
    "Sharder_New (sort_key vn_hash) letter_hash ''b'' (None # rev (map Some two_members)) [shardWithVirtualFactor 1] \<noteq> None" by code_simp+
  have "set (snd (member_list Map.empty (map Some two_members))) = set two_members"
    "set (snd (member_list Map.empty (None # rev (map Some two_members)))) = set two_members"
    by (auto simp: two_members_def StaticMember_def)
  moreover have "fst (two_instances a) = letter_hash" for a by (simp add: two_instances_def)
  moreover have "\<exists>members. Sharder_New (sort_key vn_hash) letter_hash (sh_self (snd (two_instances a))) members [shardWithVirtualFactor 1] = Some (snd (two_instances a))
      \<and> set (snd (member_list Map.empty members)) = set two_members" for a
  proof (cases "a = ''http://a:80''")
    case True
    then show ?thesis unfolding two_instances_self using new(1) calculation(1) by (intro exI [of _ "map Some two_members"]) (simp add: two_instances_def)
  next
    case False
    then show ?thesis unfolding two_instances_self using new(2) calculation(2) by (intro exI [of _ "None # rev (map Some two_members)"]) (simp add: two_instances_def)
  qed
  moreover have "\<exists>base. Inr (with_scheme (mb_Addr m)) = Inr base \<and> sh_self (snd (two_instances base)) = mb_ID m" if "m \<in> set two_members" for m
    using that unfolding two_instances_self by (auto simp: two_members_def StaticMember_def with_scheme_def)
  ultimately show ?thesis unfolding cluster_agrees_def using two_members_ok by (simp add: two_members_def StaticMember_def)
qed

theorem Router_delivery_witness:
  "\<exists>caches'. deliver two_instances Inr PathHeadKey 2 ''http://b:80'' \<lparr>rq_Path = ''/k/index'', rq_proxied = []\<rparr> (\<lambda>_. Map.empty)
     = Some (ServedAt ''http://a:80'', caches')"
proof -
  let ?r = "\<lparr>rq_Path = ''/k/index'', rq_proxied = []\<rparr>"
  have key: "PathHeadKey ?r = ''k''" by (simp add: PathHeadKey_def)
  have owner: "ring_route (sort_key vn_hash) letter_hash member_view (shard_opts [shardWithVirtualFactor 1]) two_members ''k'' = Some (StaticMember ''a'' 0 ''a:80'')"
    by code_simp
  have c: "cache_ok Inr Map.empty" by (simp add: cache_ok_def)
  have selfs: "\<forall>a. sh_self (snd (two_instances a)) \<noteq> []" unfolding two_instances_self by simp
  obtain ans caches' where "deliver two_instances Inr PathHeadKey 2 ''http://b:80'' ?r (\<lambda>_. Map.empty) = Some (ans, caches')"
    "\<exists>a'. ans = ServedAt a' \<and> sh_self (snd (two_instances a')) = mb_ID (StaticMember ''a'' 0 ''a:80'')"
    using Router_delivery [OF selfs, of Inr PathHeadKey "''http://b:80''" ?r "\<lambda>_. Map.empty" "sort_key vn_hash" letter_hash "[shardWithVirtualFactor 1]" two_members "StaticMember ''a'' 0 ''a:80''"]
      two_instances_agree owner key c unfolding two_instances_self by auto
  then show ?thesis unfolding two_instances_self by (auto simp: StaticMember_def split: if_splits)
qed

text \<open>The seed of the hash is drawn when the process starts, so two processes have two hash functions. Then the same key is
  served by both instances, depending on where its requests enter.\<close>

definition other_hash :: maphash where
  "other_hash s = - letter_hash s"

definition two_processes :: "string \<Rightarrow> maphash \<times> Sharder" where
  "two_processes addr =
     (if addr = ''http://a:80'' then (other_hash, the (Sharder_New (sort_key vn_hash) other_hash ''a'' (map Some two_members) [shardWithVirtualFactor 1]))
      else (letter_hash, the (Sharder_New (sort_key vn_hash) letter_hash ''b'' (map Some two_members) [shardWithVirtualFactor 1])))"

lemma Router_seeds_disagree:
  "map_option fst (deliver two_processes Inr PathHeadKey 2 ''http://a:80'' \<lparr>rq_Path = ''/k'', rq_proxied = []\<rparr> (\<lambda>_. Map.empty)) = Some (ServedAt ''http://b:80'')"
  "map_option fst (deliver two_processes Inr PathHeadKey 2 ''http://b:80'' \<lparr>rq_Path = ''/k'', rq_proxied = []\<rparr> (\<lambda>_. Map.empty)) = Some (ServedAt ''http://a:80'')"
  by code_simp+

text \<open>An address without a scheme is never found in the cache, which is filled under the address with the scheme.\<close>

lemma proxyFor_misses_cache: "proxyFor Inr ''b:80'' (snd (proxyFor Inr ''b:80'' Map.empty)) = (Inr ''http://b:80'', [''http://b:80'' \<mapsto> ''http://b:80''])"
  by (simp add: proxyFor_def Let_def)

section \<open>Rendezvous hashing\<close>

definition hrw_route :: "(int \<Rightarrow> 64 word \<Rightarrow> 'r::linorder) \<Rightarrow> ShardMember list \<Rightarrow> key \<Rightarrow> ShardMember option" where
  "hrw_route weigh ms k = Rendezvous_Pick weigh k (NewRendezvous ms)"

definition hrw_ok :: "(int \<Rightarrow> 64 word \<Rightarrow> 'r::linorder) \<Rightarrow> key \<Rightarrow> ShardMember list \<Rightarrow> bool" where
  "hrw_ok weigh k ms \<longleftrightarrow> inj_on (\<lambda>m. hrw_score weigh m k) (set ms)"

lemma pick_best:
  fixes f :: "'a \<Rightarrow> 'r::linorder"
  assumes "foldl (\<lambda>best m. let s = f m in case best of None \<Rightarrow> Some (m, s) | Some (b, bs) \<Rightarrow> if bs < s then Some (m, s) else best) None ms = res"
  shows "(res = None \<longleftrightarrow> ms = []) \<and> (\<forall>b bs. res = Some (b, bs) \<longrightarrow> b \<in> set ms \<and> bs = f b \<and> (\<forall>m\<in>set ms. f m \<le> f b))"
  using assms
proof (induction ms arbitrary: res rule: rev_induct)
  case (snoc m ms)
  show ?case using snoc.IH [OF refl] snoc.prems
    by (auto simp: Let_def split: option.splits if_splits) (use order.trans less_imp_le in blast)+
qed simp

lemma hrw_route_best:
  assumes "hrw_ok weigh k ms"
  shows "hrw_route weigh ms k = Some m \<longleftrightarrow> m \<in> set ms \<and> (\<forall>m'\<in>set ms. hrw_score weigh m' k \<le> hrw_score weigh m k)"
    and "hrw_route weigh ms k = None \<longleftrightarrow> ms = []"
proof -
  obtain res where res: "foldl (\<lambda>best m. let s = hrw_score weigh m k in
      case best of None \<Rightarrow> Some (m, s) | Some (b, bs) \<Rightarrow> if bs < s then Some (m, s) else best) None ms = res" by simp
  have route: "hrw_route weigh ms k = map_option fst res"
    using res by (simp add: hrw_route_def Rendezvous_Pick_def NewRendezvous_def Rendezvous_Update_def)
  note best = pick_best [OF res]
  show "hrw_route weigh ms k = None \<longleftrightarrow> ms = []" using best route by auto
  show "hrw_route weigh ms k = Some m \<longleftrightarrow> m \<in> set ms \<and> (\<forall>m'\<in>set ms. hrw_score weigh m' k \<le> hrw_score weigh m k)"
  proof (cases res)
    case None
    then show ?thesis using best route by simp
  next
    case (Some p)
    then have p: "fst p \<in> set ms" "\<forall>m\<in>set ms. hrw_score weigh m k \<le> hrw_score weigh (fst p) k"
      using best [THEN conjunct2, rule_format, of "fst p" "snd p"] Some by simp_all
    have "fst p = m" if "m \<in> set ms" "\<forall>m'\<in>set ms. hrw_score weigh m' k \<le> hrw_score weigh m k"
      using assms that p unfolding hrw_ok_def by (intro inj_onD [OF _ antisym]) auto
    then show ?thesis using p route Some by auto
  qed
qed

interpretation hrw: stable_routing "hrw_route weigh" "hrw_ok weigh"
proof
  fix k ms ns assume "hrw_ok weigh k ms" "mset ns \<subseteq># mset ms"
  then show "hrw_ok weigh k ns" unfolding hrw_ok_def by (metis inj_on_subset set_mset_mono set_mset_mset)
next
  fix k ms m assume "hrw_ok weigh k ms" "hrw_route weigh ms k = Some m"
  then show "m \<in> set ms" by (simp add: hrw_route_best)
next
  fix k ms ns assume "hrw_ok weigh k ms" "hrw_ok weigh k ns" "set ns \<subseteq> set ms" "hrw_route weigh ms k = None"
  then show "hrw_route weigh ns k = None" by (simp add: hrw_route_best)
next
  fix k ms ns m assume "hrw_ok weigh k ms" "hrw_ok weigh k ns" "set ns \<subseteq> set ms" "hrw_route weigh ms k = Some m" "m \<in> set ns"
  then show "hrw_route weigh ns k = Some m" by (auto simp: hrw_route_best)
qed

text \<open>Rendezvous hashing moves as few keys as the ring does.\<close>

lemma Rendezvous_migration:
  assumes "hrw_ok weigh k (m # ms)"
  shows "hrw_route weigh (m # ms) k = Some m \<or> hrw_route weigh (m # ms) k = hrw_route weigh ms k"
    and "hrw_route weigh (m # ms) k \<noteq> Some n \<Longrightarrow> hrw_route weigh (removeAll n (m # ms)) k = hrw_route weigh (m # ms) k"
  using hrw.join_moves_to_new [OF assms] hrw.leave_moves_own [OF assms] by blast+

text \<open>\<open>PickN\<close> lists the best members, best first; nobody outside the list has a better score than somebody in it.\<close>

definition sorts_down :: "(('a \<times> 'r::linorder) list \<Rightarrow> ('a \<times> 'r) list) \<Rightarrow> bool" where
  "sorts_down srt \<longleftrightarrow> (\<forall>xs. mset (srt xs) = mset xs \<and> sorted_wrt (\<lambda>a b. snd b \<le> snd a) (srt xs))"

lemma Rendezvous_PickN_best:
  assumes srt: "sorts_down srt" and n: "0 < n"
  obtains rest where "mset (Rendezvous_PickN srt weigh k n (NewRendezvous ms)) + mset rest = mset ms"
    "length (Rendezvous_PickN srt weigh k n (NewRendezvous ms)) = min (nat n) (length ms)"
    "sorted_wrt (\<lambda>a b. hrw_score weigh b k \<le> hrw_score weigh a k) (Rendezvous_PickN srt weigh k n (NewRendezvous ms))"
    "\<forall>a\<in>set (Rendezvous_PickN srt weigh k n (NewRendezvous ms)). \<forall>b\<in>set rest. hrw_score weigh b k \<le> hrw_score weigh a k"
proof -
  define ys where "ys = srt (map (\<lambda>m. (m, hrw_score weigh m k)) ms)"
  have ys: "mset ys = mset (map (\<lambda>m. (m, hrw_score weigh m k)) ms)" "sorted_wrt (\<lambda>a b. snd b \<le> snd a) ys" using srt by (simp_all add: sorts_down_def ys_def)
  have len: "length ys = length ms" using mset_eq_length [OF ys(1)] by simp
  have snd: "snd p = hrw_score weigh (fst p) k" if "p \<in> set ys" for p using that mset_eq_setD [OF ys(1)] by auto
  have "image_mset fst (mset ys) = mset ms" unfolding ys(1) by (simp add: image_mset.compositionality comp_def)
  then have fst: "mset (map fst ys) = mset ms" by simp
  have sorted: "sorted_wrt (\<lambda>a b. hrw_score weigh b k \<le> hrw_score weigh a k) (map fst ys)"
    unfolding sorted_wrt_map by (rule sorted_wrt_mono_rel [OF _ ys(2)]) (simp add: snd)
  have p: "Rendezvous_PickN srt weigh k n (NewRendezvous ms) = take (nat n) (map fst ys)"
  proof (cases "ms = []")
    case False
    have "take (nat (if int (length ys) < n then int (length ys) else n)) ys = take (nat n) ys" by auto
    then show ?thesis using False n by (simp add: Rendezvous_PickN_def NewRendezvous_def Rendezvous_Update_def ys_def [symmetric] take_map)
  qed (use len in \<open>simp add: Rendezvous_PickN_def NewRendezvous_def Rendezvous_Update_def\<close>)
  have split: "take (nat n) (map fst ys) @ drop (nat n) (map fst ys) = map fst ys" by (rule append_take_drop_id)
  show thesis
  proof (rule that [of "drop (nat n) (map fst ys)"])
    show "mset (Rendezvous_PickN srt weigh k n (NewRendezvous ms)) + mset (drop (nat n) (map fst ys)) = mset ms"
      unfolding p mset_append [symmetric] split by (rule fst)
    show "length (Rendezvous_PickN srt weigh k n (NewRendezvous ms)) = min (nat n) (length ms)" unfolding p using len by simp
    from sorted have "sorted_wrt (\<lambda>a b. hrw_score weigh b k \<le> hrw_score weigh a k) (take (nat n) (map fst ys) @ drop (nat n) (map fst ys))" by (simp only: split)
    then show "sorted_wrt (\<lambda>a b. hrw_score weigh b k \<le> hrw_score weigh a k) (Rendezvous_PickN srt weigh k n (NewRendezvous ms))"
      "\<forall>a\<in>set (Rendezvous_PickN srt weigh k n (NewRendezvous ms)). \<forall>b\<in>set (drop (nat n) (map fst ys)). hrw_score weigh b k \<le> hrw_score weigh a k"
      unfolding p sorted_wrt_append by blast+
  qed
qed

section \<open>Jump hashing\<close>

text \<open>Rounding to floats is monotone and keeps the integers up to \<open>2 ^ 53\<close>.\<close>

definition float_rounding :: "(rat \<Rightarrow> rat) \<Rightarrow> bool" where
  "float_rounding rnd \<longleftrightarrow> mono rnd \<and> (\<forall>i. \<bar>i\<bar> \<le> 2 ^ 53 \<longrightarrow> rnd (of_int i) = of_int i)"

lemma jump_next_moves:
  assumes "float_rounding rnd" "0 \<le> b" "b < 2 ^ 31"
  shows "b < jump_next rnd b key"
proof -
  have mono: "\<And>x y. x \<le> y \<Longrightarrow> rnd x \<le> rnd y" and int: "\<And>i. \<bar>i\<bar> \<le> 2 ^ 53 \<Longrightarrow> rnd (of_int i) = of_int i"
    using assms(1) by (auto simp: float_rounding_def mono_def)
  define x where "x = uint (drop_bit 33 key) + 1"
  have "uint (drop_bit 33 key) < 2 ^ 31"
  proof -
    have "uint (drop_bit 33 key) = uint key div 2 ^ 33" by (simp add: uint_div drop_bit_eq_div)
    moreover have "uint key < 2 ^ 64" using uint_lt2p [of key] by simp
    ultimately show ?thesis using zdiv_mono1 [of "uint key" "2 ^ 64 - 1" "2 ^ 33"] by simp
  qed
  then have x: "1 \<le> x" "x \<le> 2 ^ 31" by (simp_all add: x_def)
  then have rx: "rnd (of_int x) = of_int x" by (intro int) simp
  have "(1 :: rat) \<le> 2 ^ 31 / of_int x"
  proof -
    have "of_int x \<le> (of_int (2 ^ 31) :: rat)" using x(2) by (simp only: of_int_le_iff)
    then show ?thesis using x(1) by (simp add: le_divide_eq)
  qed
  then have q: "1 \<le> rnd (2 ^ 31 / rnd (of_int x))" using mono [of 1] int [of 1] rx by simp
  have rb: "rnd (of_int (b + 1)) = of_int (b + 1)" using assms(2,3) by (intro int) simp
  have "of_int (b + 1) \<le> of_int (b + 1) * rnd (2 ^ 31 / rnd (of_int x))" using q assms(2) by (simp add: mult_le_cancel_left1)
  then have "rnd (of_int (b + 1)) \<le> rnd (of_int (b + 1) * rnd (2 ^ 31 / rnd (of_int x)))" by (rule mono)
  then have "of_int (b + 1) \<le> rnd (rnd (of_int (b + 1)) * rnd (2 ^ 31 / rnd (of_int x)))" by (simp only: rb)
  then have "b + 1 \<le> jump_next rnd b key" unfolding jump_next_def x_def [symmetric] by (simp only: le_floor_iff)
  then show ?thesis by simp
qed

text \<open>The loop ends below the number of buckets; one bucket more changes the answer only to the new bucket.\<close>

lemma jump_loop_ends:
  assumes "float_rounding rnd" "n \<le> 2 ^ 31" "0 \<le> j"
  shows "\<exists>r. jump_loop rnd n key b j = Some r \<and> (if j < n then j \<le> r \<and> r < n else r = b)"
  using assms(3)
proof (induction "nat (n - j)" arbitrary: key b j rule: less_induct)
  case less
  show ?case
  proof (cases "j < n")
    case True
    let ?j = "jump_next rnd j (jump_key key)"
    have lt: "j < ?j" using jump_next_moves [OF assms(1) less.prems] True assms(2) by simp
    then obtain r where "jump_loop rnd n (jump_key key) j ?j = Some r \<and> (if ?j < n then ?j \<le> r \<and> r < n else r = j)"
      using less.hyps [of ?j "jump_key key" j] less.prems True by auto
    then show ?thesis using True lt by (subst jump_loop.simps) (auto split: if_splits)
  qed (subst jump_loop.simps, simp)
qed

lemma jump_loop_grow:
  assumes "float_rounding rnd" "n < 2 ^ 31" "0 \<le> j"
  shows "jump_loop rnd (n + 1) key b j = jump_loop rnd n key b j \<or> jump_loop rnd (n + 1) key b j = Some n"
  using assms(3)
proof (induction "nat (n - j)" arbitrary: key b j rule: less_induct)
  case less
  let ?j = "jump_next rnd j (jump_key key)"
  have step: "jump_loop rnd m key b j = (if j < m then jump_loop rnd m (jump_key key) j ?j else Some b)" for m by (subst jump_loop.simps) simp
  consider "n < j" | "j = n" | "j < n" by linarith
  then show ?case
  proof cases
    case 1
    then show ?thesis by (simp add: step)
  next
    case 2
    have "j < ?j" using jump_next_moves [OF assms(1) less.prems] 2 assms(2) by simp
    then have "jump_loop rnd (n + 1) (jump_key key) j ?j = Some n" using 2 by (subst jump_loop.simps) simp
    then show ?thesis using step [of "n + 1"] 2 by simp
  next
    case 3
    have "j < ?j" using jump_next_moves [OF assms(1) less.prems] 3 assms(2) by simp
    then show ?thesis using less.hyps [of ?j "jump_key key" j] less.prems 3 by (simp add: step)
  qed
qed

text \<open>C36. Jump hashing returns, for every key and up to \<open>2 ^ 31\<close> buckets, a bucket that exists, and when a bucket is added a key either
  stays where it is or moves to the new bucket.\<close>

theorem Jump_consistent:
  assumes "float_rounding rnd" "0 < n" "n < 2 ^ 31"
  shows "\<exists>b b'. Jump rnd key n = Some b \<and> 0 \<le> b \<and> b < n \<and> Jump rnd key (n + 1) = Some b' \<and> (b' = b \<or> b' = n)"
proof -
  obtain b where b: "jump_loop rnd n key (-1) 0 = Some b" "0 \<le> b" "b < n" using jump_loop_ends [OF assms(1), of n 0 key "-1"] assms(2,3) by auto
  have "jump_loop rnd (n + 1) key (-1) 0 = Some b \<or> jump_loop rnd (n + 1) key (-1) 0 = Some n"
    using jump_loop_grow [OF assms(1,3), of 0 key "-1"] b(1) by simp
  then show ?thesis using assms(2) b by (auto simp: Jump_def)
qed

text \<open>Exact rationals are a rounding.\<close>

theorem Jump_consistent_witness:
  "\<exists>b b'. Jump (\<lambda>x. x) 42 10 = Some b \<and> b < 10 \<and> Jump (\<lambda>x. x) 42 11 = Some b' \<and> (b' = b \<or> b' = 10)"
proof -
  have "float_rounding (\<lambda>x. x)" by (simp add: float_rounding_def mono_def)
  from Jump_consistent [OF this, of 10 42] show ?thesis by auto
qed

end
