(* ===== verification/KeyedMutex.thy ===== *)
theory KeyedMutex
  imports Prelude
begin

text \<open>
  \<open>pkg/foundation/keyedmutex\<close>: a mutex for every key, made on demand and dropped when nobody uses it. An entry is a cell of a heap,
  so that a goroutine can hold a pointer to an entry that the map no longer has. The map's own mutex makes
  \<open>acquireEntry\<close> and \<open>releaseEntry\<close> single steps; between them a goroutine waits for, takes or gives up the entry's mutex, and
  the step relation interleaves any number of goroutines there. Reference counts are not wrapped: they count goroutines.
\<close>

section \<open>The mutex\<close>

record entry =
  en_locked :: bool
  en_ref :: int

record KeyedMutex =
  km_entries :: "key \<rightharpoonup> nat"
  km_heap :: "entry list"

definition KeyedMutex_New :: KeyedMutex where
  "KeyedMutex_New = \<lparr>km_entries = Map.empty, km_heap = []\<rparr>"

definition acquireEntry :: "key \<Rightarrow> KeyedMutex \<Rightarrow> nat \<times> KeyedMutex" where
  "acquireEntry k km =
     (let (e, km1) = (case km_entries km k of
            Some e \<Rightarrow> (e, km)
          | None \<Rightarrow> (length (km_heap km), \<lparr>km_entries = (km_entries km)(k \<mapsto> length (km_heap km)),
                       km_heap = km_heap km @ [\<lparr>en_locked = False, en_ref = 0\<rparr>]\<rparr>))
      in (e, km1\<lparr>km_heap := (km_heap km1)[e := (km_heap km1 ! e)\<lparr>en_ref := en_ref (km_heap km1 ! e) + 1\<rparr>]\<rparr>))"

definition releaseEntry :: "key \<Rightarrow> nat \<Rightarrow> KeyedMutex \<Rightarrow> KeyedMutex" where
  "releaseEntry k e km =
     (let km1 = km\<lparr>km_heap := (km_heap km)[e := (km_heap km ! e)\<lparr>en_ref := en_ref (km_heap km ! e) - 1\<rparr>]\<rparr>
      in if en_ref (km_heap km1 ! e) = 0 \<and> km_entries km1 k = Some e then km1\<lparr>km_entries := (km_entries km1)(k := None)\<rparr> else km1)"

text \<open>\<open>sync.Mutex\<close>: a successful lock, and an unlock that is fatal (\<open>None\<close>) when the mutex is free.\<close>

definition mu_lock :: "nat \<Rightarrow> KeyedMutex \<Rightarrow> KeyedMutex option" where
  "mu_lock e km =
     (if en_locked (km_heap km ! e) then None
      else Some (km\<lparr>km_heap := (km_heap km)[e := (km_heap km ! e)\<lparr>en_locked := True\<rparr>]\<rparr>))"

definition mu_unlock :: "nat \<Rightarrow> KeyedMutex \<Rightarrow> KeyedMutex option" where
  "mu_unlock e km =
     (if en_locked (km_heap km ! e) then Some (km\<lparr>km_heap := (km_heap km)[e := (km_heap km ! e)\<lparr>en_locked := False\<rparr>]\<rparr>) else None)"

text \<open>Where a goroutine is: before \<open>e.mu.Lock\<close>, before \<open>e.mu.TryLock\<close>, before the \<open>releaseEntry\<close> of a failed try, in the critical section,
  or between the two statements of the unlock function. A second call of the unlock function does nothing (\<open>sync.Once\<close>).\<close>

datatype km_pc = Idle | LockWait key nat | TryCheck key nat | TryUndo key nat | Holding key nat | Releasing key nat

definition KeyedMutex_Lock :: "key \<Rightarrow> KeyedMutex \<Rightarrow> km_pc \<times> KeyedMutex" where
  "KeyedMutex_Lock k km = (case acquireEntry k km of (e, km') \<Rightarrow> (LockWait k e, km'))"

definition KeyedMutex_TryLock :: "key \<Rightarrow> KeyedMutex \<Rightarrow> km_pc \<times> KeyedMutex" where
  "KeyedMutex_TryLock k km = (case acquireEntry k km of (e, km') \<Rightarrow> (TryCheck k e, km'))"

fun km_run :: "km_pc \<Rightarrow> KeyedMutex \<Rightarrow> (km_pc \<times> KeyedMutex) option" where
  "km_run Idle km = None"
| "km_run (LockWait k e) km = map_option (Pair (Holding k e)) (mu_lock e km)"
| "km_run (TryCheck k e) km = (case mu_lock e km of Some km' \<Rightarrow> Some (Holding k e, km') | None \<Rightarrow> Some (TryUndo k e, km))"
| "km_run (TryUndo k e) km = Some (Idle, releaseEntry k e km)"
| "km_run (Holding k e) km = map_option (Pair (Releasing k e)) (mu_unlock e km)"
| "km_run (Releasing k e) km = Some (Idle, releaseEntry k e km)"

text \<open>\<open>Do\<close> of one goroutine: \<open>None\<close> while it would wait. The function may use the mutex itself; the deferred unlock runs after it.\<close>

definition KeyedMutex_Do :: "key \<Rightarrow> (KeyedMutex \<Rightarrow> 'r \<times> KeyedMutex) \<Rightarrow> KeyedMutex \<Rightarrow> ('r \<times> KeyedMutex) option" where
  "KeyedMutex_Do k fn km =
     (case KeyedMutex_Lock k km of (p, km1) \<Rightarrow>
        case km_run p km1 of None \<Rightarrow> None
        | Some (p, km2) \<Rightarrow> (case fn km2 of (r, km3) \<Rightarrow>
            case km_run p km3 of None \<Rightarrow> None
            | Some (p, km4) \<Rightarrow> map_option (\<lambda>(p, km5). (r, km5)) (km_run p km4)))"

definition KeyedMutex_Len :: "KeyedMutex \<Rightarrow> nat" where
  "KeyedMutex_Len km = card (dom (km_entries km))"

section \<open>Goroutines\<close>

inductive km_step :: "km_pc list \<times> KeyedMutex \<Rightarrow> km_pc list \<times> KeyedMutex \<Rightarrow> bool" where
  lock: "i < length pcs \<Longrightarrow> pcs ! i = Idle \<Longrightarrow> KeyedMutex_Lock k km = (p, km') \<Longrightarrow> km_step (pcs, km) (pcs[i := p], km')"
| tryLock: "i < length pcs \<Longrightarrow> pcs ! i = Idle \<Longrightarrow> KeyedMutex_TryLock k km = (p, km') \<Longrightarrow> km_step (pcs, km) (pcs[i := p], km')"
| run: "i < length pcs \<Longrightarrow> km_run (pcs ! i) km = Some (p, km') \<Longrightarrow> km_step (pcs, km) (pcs[i := p], km')"

text \<open>The entry a goroutine points to, and whether it is inside.\<close>

fun pc_entry :: "km_pc \<Rightarrow> (key \<times> nat) option" where
  "pc_entry Idle = None"
| "pc_entry (LockWait k e) = Some (k, e)"
| "pc_entry (TryCheck k e) = Some (k, e)"
| "pc_entry (TryUndo k e) = Some (k, e)"
| "pc_entry (Holding k e) = Some (k, e)"
| "pc_entry (Releasing k e) = Some (k, e)"

definition users :: "nat \<Rightarrow> km_pc list \<Rightarrow> nat" where
  "users e pcs = length (filter (\<lambda>p. \<exists>k. pc_entry p = Some (k, e)) pcs)"

definition holders :: "nat \<Rightarrow> km_pc list \<Rightarrow> nat" where
  "holders e pcs = length (filter (\<lambda>p. \<exists>k. p = Holding k e) pcs)"

definition km_inv :: "km_pc list \<times> KeyedMutex \<Rightarrow> bool" where
  "km_inv S \<longleftrightarrow> (case S of (pcs, km) \<Rightarrow>
     (\<forall>p\<in>set pcs. \<forall>k e. pc_entry p = Some (k, e) \<longrightarrow> km_entries km k = Some e)
   \<and> (\<forall>k e. km_entries km k = Some e \<longrightarrow> e < length (km_heap km) \<and> en_ref (km_heap km ! e) = int (users e pcs) \<and> 0 < users e pcs
        \<and> holders e pcs = (if en_locked (km_heap km ! e) then 1 else 0))
   \<and> (\<forall>k k' e. km_entries km k = Some e \<and> km_entries km k' = Some e \<longrightarrow> k = k')
   \<and> finite (dom (km_entries km)))"

lemma filter_update:
  "i < length xs \<Longrightarrow> length (filter P (xs[i := x])) + (if P (xs ! i) then 1 else 0) = length (filter P xs) + (if P x then 1 else 0)"
proof (induction xs arbitrary: i)
  case (Cons a xs)
  then show ?case by (cases i) auto
qed simp

lemma users_update: "i < length pcs \<Longrightarrow>
    users e (pcs[i := p]) + (if \<exists>k. pc_entry (pcs ! i) = Some (k, e) then 1 else 0) = users e pcs + (if \<exists>k. pc_entry p = Some (k, e) then 1 else 0)"
  unfolding users_def by (rule filter_update)

lemma holders_update: "i < length pcs \<Longrightarrow>
    holders e (pcs[i := p]) + (if \<exists>k. pcs ! i = Holding k e then 1 else 0) = holders e pcs + (if \<exists>k. p = Holding k e then 1 else 0)"
  unfolding holders_def by (rule filter_update)

section \<open>The invariant\<close>

lemma km_invD:
  assumes "km_inv (pcs, km)"
  shows "p \<in> set pcs \<Longrightarrow> pc_entry p = Some (k, e) \<Longrightarrow> km_entries km k = Some e"
    and "km_entries km k = Some e \<Longrightarrow> e < length (km_heap km)"
    and "km_entries km k = Some e \<Longrightarrow> en_ref (km_heap km ! e) = int (users e pcs)"
    and "km_entries km k = Some e \<Longrightarrow> 0 < users e pcs"
    and "km_entries km k = Some e \<Longrightarrow> holders e pcs = (if en_locked (km_heap km ! e) then 1 else 0)"
    and "km_entries km k = Some e \<Longrightarrow> km_entries km k' = Some e \<Longrightarrow> k = k'"
    and "finite (dom (km_entries km))"
  using assms unfolding km_inv_def prod.case by blast+

lemma km_invI:
  assumes "\<And>p k e. p \<in> set pcs \<Longrightarrow> pc_entry p = Some (k, e) \<Longrightarrow> km_entries km k = Some e"
    and "\<And>k e. km_entries km k = Some e \<Longrightarrow> e < length (km_heap km) \<and> en_ref (km_heap km ! e) = int (users e pcs) \<and> 0 < users e pcs
        \<and> holders e pcs = (if en_locked (km_heap km ! e) then 1 else 0)"
    and "\<And>k k' e. km_entries km k = Some e \<Longrightarrow> km_entries km k' = Some e \<Longrightarrow> k = k'" "finite (dom (km_entries km))"
  shows "km_inv (pcs, km)"
  using assms unfolding km_inv_def by auto

lemma holders_le_users: "holders e pcs \<le> users e pcs"
  unfolding holders_def users_def by (induction pcs) auto

lemma users_zero: "users e pcs = 0 \<longleftrightarrow> (\<forall>p\<in>set pcs. \<forall>k. pc_entry p \<noteq> Some (k, e))"
  by (auto simp: users_def filter_empty_conv)

lemma set_update: "p \<in> set (xs[i := x]) \<Longrightarrow> p = x \<or> p \<in> set xs"
  using set_update_subset_insert by fastforce

lemma acquire_inv:
  assumes inv: "km_inv (pcs, km)" and i: "i < length pcs" "pcs ! i = Idle" and acq: "acquireEntry k km = (e, km')"
    and p: "pc_entry p = Some (k, e)" "\<And>k e. p \<noteq> Holding k e"
  shows "km_inv (pcs[i := p], km')"
proof -
  have us: "users x (pcs[i := p]) = users x pcs + (if x = e then 1 else 0)" "holders x (pcs[i := p]) = holders x pcs" for x
    using users_update [OF i(1), of x p] holders_update [OF i(1), of x p] i(2) p by auto
  have pcs: "km_entries km k' = Some e'" if "q \<in> set pcs" "pc_entry q = Some (k', e')" for q k' e' using km_invD(1) [OF inv] that .
  show ?thesis
  proof (cases "km_entries km k")
    case (Some e0)
    then have e: "e0 = e" "km' = km\<lparr>km_heap := (km_heap km)[e := (km_heap km ! e)\<lparr>en_ref := en_ref (km_heap km ! e) + 1\<rparr>]\<rparr>"
      using acq by (auto simp: acquireEntry_def Let_def)
    show ?thesis
    proof (rule km_invI)
      show "km_entries km' k' = Some e'" if "q \<in> set (pcs[i := p])" "pc_entry q = Some (k', e')" for q k' e'
        using set_update [OF that(1)] that(2) p(1) pcs Some e by auto
      show "e' < length (km_heap km') \<and> en_ref (km_heap km' ! e') = int (users e' (pcs[i := p])) \<and> 0 < users e' (pcs[i := p])
        \<and> holders e' (pcs[i := p]) = (if en_locked (km_heap km' ! e') then 1 else 0)" if "km_entries km' k' = Some e'" for k' e'
        using km_invD(2-5) [OF inv, of k' e'] that e(2) by (auto simp: us nth_list_update)
    qed (use km_invD(6,7) [OF inv] e(2) in auto)
  next
    case None
    let ?n = "length (km_heap km)"
    have e: "e = ?n" "km' = \<lparr>km_entries = (km_entries km)(k \<mapsto> ?n), km_heap = km_heap km @ [\<lparr>en_locked = False, en_ref = 1\<rparr>]\<rparr>"
      using acq None by (auto simp: acquireEntry_def Let_def)
    have fresh: "users ?n pcs = 0" unfolding users_zero using pcs km_invD(2) [OF inv] by blast
    then have hold: "holders ?n pcs = 0" using holders_le_users [of ?n pcs] by simp
    show ?thesis
    proof (rule km_invI)
      show "km_entries km' k' = Some e'" if "q \<in> set (pcs[i := p])" "pc_entry q = Some (k', e')" for q k' e'
        using set_update [OF that(1)] that(2) p(1) pcs None e by auto
      show "e' < length (km_heap km') \<and> en_ref (km_heap km' ! e') = int (users e' (pcs[i := p])) \<and> 0 < users e' (pcs[i := p])
        \<and> holders e' (pcs[i := p]) = (if en_locked (km_heap km' ! e') then 1 else 0)" if "km_entries km' k' = Some e'" for k' e'
      proof (cases "k' = k")
        case True
        then show ?thesis using that e fresh hold by (auto simp: us)
      next
        case False
        then show ?thesis using km_invD(2-5) [OF inv, of k' e'] that e by (auto simp: us nth_append)
      qed
      show "k1 = k2" if "km_entries km' k1 = Some e'" "km_entries km' k2 = Some e'" for k1 k2 e'
        using that e km_invD(2) [OF inv] km_invD(6) [OF inv] by (auto split: if_splits)
      show "finite (dom (km_entries km'))" using e km_invD(7) [OF inv] by simp
    qed
  qed
qed

lemma release_inv:
  assumes inv: "km_inv (pcs, km)" and i: "i < length pcs" "pc_entry (pcs ! i) = Some (k, e)" "\<And>k e. pcs ! i \<noteq> Holding k e"
  shows "km_inv (pcs[i := Idle], releaseEntry k e km)"
proof -
  have us: "users x (pcs[i := Idle]) + (if x = e then 1 else 0) = users x pcs" "holders x (pcs[i := Idle]) = holders x pcs" for x
    using users_update [OF i(1), of x Idle] holders_update [OF i(1), of x Idle] i(2,3) by (auto split: if_splits)
  have k: "km_entries km k = Some e" using km_invD(1) [OF inv nth_mem [OF i(1)] i(2)] .
  note e = km_invD(2-5) [OF inv k]
  define km' where "km' = releaseEntry k e km"
  have heap: "km_heap km' = (km_heap km)[e := (km_heap km ! e)\<lparr>en_ref := en_ref (km_heap km ! e) - 1\<rparr>]"
    by (simp add: km'_def releaseEntry_def Let_def)
  have ent: "km_entries km' = (if users e pcs = 1 then (km_entries km)(k := None) else km_entries km)"
    using e k by (auto simp: km'_def releaseEntry_def Let_def)
  show ?thesis unfolding km'_def [symmetric]
  proof (rule km_invI)
    show "km_entries km' k' = Some e'" if q: "q \<in> set (pcs[i := Idle])" "pc_entry q = Some (k', e')" for q k' e'
    proof -
      have m: "km_entries km k' = Some e'" using set_update [OF q(1)] q(2) km_invD(1) [OF inv] by auto
      show ?thesis
      proof (cases "users e pcs = 1 \<and> k' = k")
        case True
        then have "users e (pcs[i := Idle]) = 0" "e' = e" using us(1) [of e] m k by auto
        then show ?thesis using q unfolding users_zero by blast
      next
        case False
        then show ?thesis using m ent by auto
      qed
    qed
    show "e' < length (km_heap km') \<and> en_ref (km_heap km' ! e') = int (users e' (pcs[i := Idle])) \<and> 0 < users e' (pcs[i := Idle])
        \<and> holders e' (pcs[i := Idle]) = (if en_locked (km_heap km' ! e') then 1 else 0)" if k': "km_entries km' k' = Some e'" for k' e'
    proof -
      have m: "km_entries km k' = Some e'" using k' ent by (auto split: if_splits)
      note e' = km_invD(2-5) [OF inv m]
      show ?thesis
      proof (cases "e' = e")
        case True
        then have "k' = k" using km_invD(6) [OF inv m] k by blast
        then have "users e pcs \<noteq> 1" using k' ent by (auto split: if_splits)
        then show ?thesis using e True us(1) [of e] us(2) [of e] heap by auto
      next
        case False
        then show ?thesis using e' us(1) [of e'] us(2) [of e'] heap by auto
      qed
    qed
    show "k1 = k2" if "km_entries km' k1 = Some e'" "km_entries km' k2 = Some e'" for k1 k2 e'
      using that ent km_invD(6) [OF inv, of k1 e' k2] by (auto split: if_splits)
    show "finite (dom (km_entries km'))" using ent km_invD(7) [OF inv] by (simp add: dom_fun_upd)
  qed
qed

lemma flag_inv:
  assumes inv: "km_inv (pcs, km)" and i: "i < length pcs" "pc_entry (pcs ! i) = Some (k, e)" "pc_entry p = Some (k, e)"
    and h: "\<And>x. holders x (pcs[i := p]) = (if x = e then if b then 1 else 0 else holders x pcs)"
  shows "km_inv (pcs[i := p], km\<lparr>km_heap := (km_heap km)[e := (km_heap km ! e)\<lparr>en_locked := b\<rparr>]\<rparr>)"
proof (rule km_invI)
  let ?km = "km\<lparr>km_heap := (km_heap km)[e := (km_heap km ! e)\<lparr>en_locked := b\<rparr>]\<rparr>"
  have us: "users x (pcs[i := p]) = users x pcs" for x using users_update [OF i(1), of x p] i(2,3) by (auto split: if_splits)
  show "km_entries ?km k' = Some e'" if "q \<in> set (pcs[i := p])" "pc_entry q = Some (k', e')" for q k' e'
    using set_update [OF that(1)] that(2) i(3) km_invD(1) [OF inv nth_mem [OF i(1)] i(2)] km_invD(1) [OF inv] by auto
  show "e' < length (km_heap ?km) \<and> en_ref (km_heap ?km ! e') = int (users e' (pcs[i := p])) \<and> 0 < users e' (pcs[i := p])
      \<and> holders e' (pcs[i := p]) = (if en_locked (km_heap ?km ! e') then 1 else 0)" if "km_entries ?km k' = Some e'" for k' e'
    using km_invD(2-5) [OF inv, of k' e'] that by (auto simp: us h nth_list_update)
qed (use km_invD(6,7) [OF inv] in auto)

lemma lock_inv:
  assumes inv: "km_inv (pcs, km)" and i: "i < length pcs" "pcs ! i = LockWait k e \<or> pcs ! i = TryCheck k e" and l: "mu_lock e km = Some km'"
  shows "km_inv (pcs[i := Holding k e], km')"
proof -
  have pe: "pc_entry (pcs ! i) = Some (k, e)" using i(2) by auto
  have k: "km_entries km k = Some e" using km_invD(1) [OF inv nth_mem [OF i(1)] pe] .
  have free: "\<not> en_locked (km_heap km ! e)" "km' = km\<lparr>km_heap := (km_heap km)[e := (km_heap km ! e)\<lparr>en_locked := True\<rparr>]\<rparr>"
    using l by (auto simp: mu_lock_def split: if_splits)
  have "holders x (pcs[i := Holding k e]) = (if x = e then if True then 1 else 0 else holders x pcs)" for x
    using holders_update [OF i(1), of x "Holding k e"] km_invD(5) [OF inv k] free(1) i(2) by auto
  then show ?thesis unfolding free(2) by (intro flag_inv [OF inv i(1) pe]) auto
qed

lemma unlock_inv:
  assumes inv: "km_inv (pcs, km)" and i: "i < length pcs" "pcs ! i = Holding k e" and l: "mu_unlock e km = Some km'"
  shows "km_inv (pcs[i := Releasing k e], km')"
proof -
  have pe: "pc_entry (pcs ! i) = Some (k, e)" using i(2) by auto
  have k: "km_entries km k = Some e" using km_invD(1) [OF inv nth_mem [OF i(1)] pe] .
  have held: "en_locked (km_heap km ! e)" "km' = km\<lparr>km_heap := (km_heap km)[e := (km_heap km ! e)\<lparr>en_locked := False\<rparr>]\<rparr>"
    using l by (auto simp: mu_unlock_def split: if_splits)
  have "holders x (pcs[i := Releasing k e]) = (if x = e then if False then 1 else 0 else holders x pcs)" for x
    using holders_update [OF i(1), of x "Releasing k e"] km_invD(5) [OF inv k] held(1) i(2) by (auto split: if_splits)
  then show ?thesis unfolding held(2) by (intro flag_inv [OF inv i(1) pe]) auto
qed

lemma km_step_inv:
  assumes "km_step S S'" "km_inv S"
  shows "km_inv S'"
  using assms
proof (induction rule: km_step.induct)
  case (lock i pcs k km p km')
  then show ?case by (auto simp: KeyedMutex_Lock_def split: prod.splits intro!: acquire_inv [OF lock(4,1,2)])
next
  case (tryLock i pcs k km p km')
  then show ?case by (auto simp: KeyedMutex_TryLock_def split: prod.splits intro!: acquire_inv [OF tryLock(4,1,2)])
next
  case (run i pcs km p km')
  show ?case
  proof (cases "pcs ! i")
    case (LockWait k e)
    then show ?thesis using run(2) lock_inv [OF run(3,1), of k e] by auto
  next
    case (TryCheck k e)
    show ?thesis
    proof (cases "mu_lock e km")
      case None
      have held: "en_locked (km_heap km ! e)" using None by (simp add: mu_lock_def split: if_splits)
      then have "(km_heap km ! e)\<lparr>en_locked := True\<rparr> = km_heap km ! e" by (intro entry.equality) simp_all
      then have "km\<lparr>km_heap := (km_heap km)[e := (km_heap km ! e)\<lparr>en_locked := True\<rparr>]\<rparr> = km" by simp
      moreover have "holders x (pcs[i := TryUndo k e]) = holders x pcs" for x using holders_update [OF run(1), of x "TryUndo k e"] TryCheck by auto
      moreover have "km_entries km k = Some e" using km_invD(1) [OF run(3) nth_mem [OF run(1)]] TryCheck by simp
      ultimately have "km_inv (pcs[i := TryUndo k e], km)"
        using flag_inv [OF run(3,1), of k e "TryUndo k e" True] TryCheck km_invD(5) [OF run(3), of k e] held by auto
      then show ?thesis using run(2) TryCheck None by simp
    next
      case (Some km1)
      then show ?thesis using run(2) TryCheck lock_inv [OF run(3,1) _ Some] by auto
    qed
  next
    case (TryUndo k e)
    then show ?thesis using run(2) release_inv [OF run(3,1)] by auto
  next
    case (Holding k e)
    then show ?thesis using run(2) unlock_inv [OF run(3,1)] by auto
  next
    case (Releasing k e)
    then show ?thesis using run(2) release_inv [OF run(3,1)] by auto
  qed (use run in simp)
qed

definition km_reachable :: "nat \<Rightarrow> km_pc list \<times> KeyedMutex \<Rightarrow> bool" where
  "km_reachable n = km_step\<^sup>*\<^sup>* (replicate n Idle, KeyedMutex_New)"

lemma km_reachable_inv: "km_reachable n S \<Longrightarrow> km_inv S"
  unfolding km_reachable_def
proof (induction rule: rtranclp_induct)
  case base
  show ?case by (rule km_invI) (auto simp: KeyedMutex_New_def)
qed (rule km_step_inv)

section \<open>Properties\<close>

lemma holders_two:
  assumes "i < j" "j < length pcs" "pcs ! i = Holding k e" "pcs ! j = Holding k' e"
  shows "2 \<le> holders e pcs"
proof -
  have "{i, j} \<subseteq> {x. x < length pcs \<and> (\<exists>k. pcs ! x = Holding k e)}" using assms by auto
  from card_mono [OF _ this] have "card {i, j} \<le> holders e pcs" by (simp add: holders_def length_filter_conv_card)
  then show ?thesis using assms(1) by simp
qed

lemma holders_pos: "0 < holders e pcs \<longleftrightarrow> (\<exists>j<length pcs. \<exists>k. pcs ! j = Holding k e)"
  unfolding holders_def length_greater_0_conv filter_empty_conv by (metis in_set_conv_nth)

text \<open>C37. The lock is exclusive by key and only by key. In every interleaving at most one goroutine is in the critical section of a
  key, although entries are dropped and made again; a goroutine that waits for a key can proceed exactly when nobody is
  in the critical section of that key; giving the lock back never fails; and the map has an entry for exactly
  the keys that some goroutine uses, so it is empty when all are idle.\<close>

theorem KeyedMutex_exclusive:
  assumes "km_reachable n (pcs, km)"
  shows "(\<forall>i j k e e'. i < length pcs \<and> j < length pcs \<and> pcs ! i = Holding k e \<and> pcs ! j = Holding k e' \<longrightarrow> i = j)
    \<and> (\<forall>i k e. i < length pcs \<and> pcs ! i = LockWait k e \<longrightarrow>
         (km_run (pcs ! i) km \<noteq> None \<longleftrightarrow> \<not> (\<exists>j<length pcs. \<exists>e'. pcs ! j = Holding k e')))
    \<and> (\<forall>i k e. i < length pcs \<and> pcs ! i = Holding k e \<longrightarrow> km_run (pcs ! i) km \<noteq> None)
    \<and> dom (km_entries km) = {k. \<exists>i<length pcs. \<exists>e. pc_entry (pcs ! i) = Some (k, e)}
    \<and> ((\<forall>p\<in>set pcs. p = Idle) \<longrightarrow> KeyedMutex_Len km = 0)"
proof -
  note inv = km_reachable_inv [OF assms]
  have ent: "km_entries km k = Some e" if "i < length pcs" "pc_entry (pcs ! i) = Some (k, e)" for i k e
    using km_invD(1) [OF inv nth_mem [OF that(1)] that(2)] .
  have excl: "i = j" if "i < length pcs" "j < length pcs" "pcs ! i = Holding k e" "pcs ! j = Holding k e'" for i j k e e'
  proof (rule ccontr)
    assume "i \<noteq> j"
    have k: "km_entries km k = Some e" "km_entries km k = Some e'" using ent [of i k e] ent [of j k e'] that by simp_all
    then have "e' = e" by simp
    then have "2 \<le> holders e pcs" using holders_two [of i j pcs k e k] holders_two [of j i pcs k e k] that \<open>i \<noteq> j\<close> by (cases "i < j") simp_all
    then show False using km_invD(5) [OF inv k(1)] by (simp split: if_splits)
  qed
  have wait: "km_run (pcs ! i) km \<noteq> None \<longleftrightarrow> \<not> (\<exists>j<length pcs. \<exists>e'. pcs ! j = Holding k e')"
    if i: "i < length pcs" "pcs ! i = LockWait k e" for i k e
  proof -
    have k: "km_entries km k = Some e" using ent [of i k e] i by simp
    have "km_run (pcs ! i) km \<noteq> None \<longleftrightarrow> \<not> en_locked (km_heap km ! e)" using i(2) by (simp add: mu_lock_def)
    also have "\<dots> \<longleftrightarrow> \<not> 0 < holders e pcs" using km_invD(5) [OF inv k] by simp
    also have "0 < holders e pcs \<longleftrightarrow> (\<exists>j<length pcs. \<exists>e'. pcs ! j = Holding k e')"
    proof
      assume "0 < holders e pcs"
      then obtain j k' where j: "j < length pcs" "pcs ! j = Holding k' e" unfolding holders_pos by blast
      then have "k' = k" using km_invD(6) [OF inv k, of k'] ent [of j k' e] by simp
      then show "\<exists>j<length pcs. \<exists>e'. pcs ! j = Holding k e'" using j by blast
    next
      assume "\<exists>j<length pcs. \<exists>e'. pcs ! j = Holding k e'"
      then obtain j e' where j: "j < length pcs" "pcs ! j = Holding k e'" by blast
      then have "e' = e" using ent [of j k e'] k by simp
      then show "0 < holders e pcs" unfolding holders_pos using j by blast
    qed
    finally show ?thesis .
  qed
  have unlock: "km_run (pcs ! i) km \<noteq> None" if i: "i < length pcs" "pcs ! i = Holding k e" for i k e
  proof -
    have "0 < holders e pcs" unfolding holders_pos using i by blast
    then show ?thesis using km_invD(5) [OF inv ent [of i k e]] i by (simp add: mu_unlock_def split: if_splits)
  qed
  have dom: "dom (km_entries km) = {k. \<exists>i<length pcs. \<exists>e. pc_entry (pcs ! i) = Some (k, e)}"
  proof (intro equalityI subsetI)
    fix k assume "k \<in> dom (km_entries km)"
    then obtain e where k: "km_entries km k = Some e" by blast
    then have "users e pcs \<noteq> 0" using km_invD(4) [OF inv] by simp
    then obtain i k' where i: "i < length pcs" "pc_entry (pcs ! i) = Some (k', e)" unfolding users_zero by (auto simp: in_set_conv_nth)
    then have "k' = k" using km_invD(6) [OF inv k] ent by blast
    then show "k \<in> {k. \<exists>i<length pcs. \<exists>e. pc_entry (pcs ! i) = Some (k, e)}" using i by blast
  qed (use ent in blast)
  have "KeyedMutex_Len km = 0" if idle: "\<forall>p\<in>set pcs. p = Idle"
  proof -
    have "pc_entry (pcs ! i) = None" if "i < length pcs" for i using bspec [OF idle nth_mem [OF that]] by simp
    then have "dom (km_entries km) = {}" unfolding dom by simp
    then show ?thesis by (simp add: KeyedMutex_Len_def)
  qed
  then show ?thesis using excl wait unlock dom by blast
qed

text \<open>Two goroutines on the same key: the second waits while the first is inside.\<close>

theorem KeyedMutex_exclusive_witness:
  "\<exists>km. km_reachable 2 ([Holding ''k'' 0, LockWait ''k'' 0], km) \<and> km_run (LockWait ''k'' 0) km = None \<and> dom (km_entries km) = {''k''}"
proof -
  let ?k = "''k''"
  define km1 where "km1 = snd (KeyedMutex_Lock ?k KeyedMutex_New)"
  define km2 where "km2 = snd (KeyedMutex_Lock ?k km1)"
  define km3 where "km3 = the (mu_lock 0 km2)"
  have l: "KeyedMutex_Lock ?k KeyedMutex_New = (LockWait ?k 0, km1)" "KeyedMutex_Lock ?k km1 = (LockWait ?k 0, km2)" "mu_lock 0 km2 = Some km3"
    by (simp_all add: km1_def km2_def km3_def KeyedMutex_Lock_def acquireEntry_def KeyedMutex_New_def mu_lock_def)
  have "km_step ([Idle, Idle], KeyedMutex_New) ([LockWait ?k 0, Idle], km1)" using km_step.lock [of 0 "[Idle, Idle]", OF _ _ l(1)] by simp
  moreover have "km_step ([LockWait ?k 0, Idle], km1) ([LockWait ?k 0, LockWait ?k 0], km2)" using km_step.lock [of 1 "[LockWait ?k 0, Idle]", OF _ _ l(2)] by simp
  moreover have "km_step ([LockWait ?k 0, LockWait ?k 0], km2) ([Holding ?k 0, LockWait ?k 0], km3)"
    using km_step.run [of 0 "[LockWait ?k 0, LockWait ?k 0]" km2 "Holding ?k 0" km3] l(3) by simp
  ultimately have r: "km_reachable 2 ([Holding ?k 0, LockWait ?k 0], km3)"
    unfolding km_reachable_def by (simp add: numeral_2_eq_2)
  note ex = KeyedMutex_exclusive [OF r]
  let ?pcs = "[Holding ?k 0, LockWait ?k 0]"
  have "km_run (?pcs ! 1) km3 \<noteq> None \<longleftrightarrow> \<not> (\<exists>j<length ?pcs. \<exists>e'. ?pcs ! j = Holding ?k e')"
    by (rule ex [THEN conjunct2, THEN conjunct1, rule_format, of 1 ?k 0]) simp
  moreover have "\<exists>j<length ?pcs. \<exists>e'. ?pcs ! j = Holding ?k e'" by (rule exI [of _ 0]) simp
  ultimately have "km_run (?pcs ! 1) km3 = None" by blast
  then have "km_run (LockWait ?k 0) km3 = None" by simp
  moreover have "dom (km_entries km3) = {?k}"
    unfolding ex [THEN conjunct2, THEN conjunct2, THEN conjunct2, THEN conjunct1] by (auto simp: less_Suc_eq)
  ultimately show ?thesis using r by blast
qed

lemma Do_restores:
  assumes "km_entries km k = None"
  shows "\<exists>km'. KeyedMutex_Do k (\<lambda>km. (r, km)) km = Some (r, km') \<and> km_entries km' = km_entries km"
  using assms
  by (auto simp: KeyedMutex_Do_def KeyedMutex_Lock_def acquireEntry_def mu_lock_def mu_unlock_def releaseEntry_def Let_def fun_upd_idem nth_append split: option.splits)

text \<open>A function that locks its own key again waits for ever.\<close>

lemma Do_not_reentrant:
  "fst (the (KeyedMutex_Do ''k'' (\<lambda>km. (km_run (fst (KeyedMutex_Lock ''k'' km)) (snd (KeyedMutex_Lock ''k'' km)), km)) KeyedMutex_New)) = None"
  by (simp add: KeyedMutex_Do_def KeyedMutex_Lock_def acquireEntry_def mu_lock_def mu_unlock_def releaseEntry_def KeyedMutex_New_def Let_def)

end
