(* ===== verification/FixedPoint.thy ===== *)
theory FixedPoint
  imports Prelude
begin

text \<open>
  \<open>pkg/foundation/fixedpoint\<close>: numbers with 32 bits before and 32 bits after the point, kept in an \<open>int64\<close>. A number is its raw
  \<open>int64\<close>, an integer with the wrap-around written out; the unsigned halves of \<open>mul64\<close> and \<open>div64\<close> are 64-bit words, with
  \<open>bits.Mul64\<close> and \<open>bits.Div64\<close> of the standard library over them. A panic is \<open>None\<close>. The conversions from and to floats
  and the printing are not modelled.
\<close>

unbundle bit_operations_syntax

section \<open>Numbers\<close>

type_synonym Fixed = int

abbreviation one64 :: int where
  "one64 \<equiv> 2 ^ 32"

definition FromInt64 :: "int \<Rightarrow> Fixed" where
  "FromInt64 n = wrap64 (push_bit 32 n)"

definition FromFrac :: "int \<Rightarrow> int \<Rightarrow> Fixed option" where
  "FromFrac num denom = (if denom = 0 then None else Some (wrap64 (go_div (wrap64 (push_bit 32 num)) denom)))"

definition Fixed_Int64 :: "Fixed \<Rightarrow> int" where
  "Fixed_Int64 a = drop_bit 32 a"

definition Fixed_Add :: "Fixed \<Rightarrow> Fixed \<Rightarrow> Fixed" where
  "Fixed_Add a b = wrap64 (a + b)"

definition Fixed_Sub :: "Fixed \<Rightarrow> Fixed \<Rightarrow> Fixed" where
  "Fixed_Sub a b = wrap64 (a - b)"

text \<open>\<open>bits.Mul64\<close>: the high and the low half of the product. \<open>bits.Div64\<close>: the quotient of two halves, which panics
  when it does not fit.\<close>

definition bits_Mul64 :: "64 word \<Rightarrow> 64 word \<Rightarrow> 64 word \<times> 64 word" where
  "bits_Mul64 x y = (of_int (uint x * uint y div 2 ^ 64), of_int (uint x * uint y))"

definition bits_Div64 :: "64 word \<Rightarrow> 64 word \<Rightarrow> 64 word \<Rightarrow> (64 word \<times> 64 word) option" where
  "bits_Div64 hi lo y =
     (if y = 0 \<or> y \<le> hi then None
      else Some (of_int ((uint hi * 2 ^ 64 + uint lo) div uint y), of_int ((uint hi * 2 ^ 64 + uint lo) mod uint y)))"

definition mul64 :: "int \<Rightarrow> int \<Rightarrow> int" where
  "mul64 a b =
     (let neg = False;
          (a, neg) = (if a < 0 then (wrap64 (- a), \<not> neg) else (a, neg));
          (b, neg) = (if b < 0 then (wrap64 (- b), \<not> neg) else (b, neg));
          (hi, lo) = bits_Mul64 (of_int a) (of_int b);
          result = push_bit 32 hi OR drop_bit 32 lo
      in if neg then wrap64 (- sint result) else sint result)"

definition div64 :: "int \<Rightarrow> int \<Rightarrow> int option" where
  "div64 a b =
     (let neg = False; ua = of_int a :: 64 word; ub = of_int b :: 64 word;
          (ua, neg) = (if a < 0 then (of_int (wrap64 (- a)), \<not> neg) else (ua, neg));
          (ub, neg) = (if b < 0 then (of_int (wrap64 (- b)), \<not> neg) else (ub, neg));
          hi = drop_bit 32 ua; lo = push_bit 32 ua
      in case bits_Div64 hi lo ub of
           None \<Rightarrow> None
         | Some (q, r) \<Rightarrow> Some (if neg then wrap64 (- sint q) else sint q))"

definition Fixed_Mul :: "Fixed \<Rightarrow> Fixed \<Rightarrow> Fixed" where
  "Fixed_Mul a b = mul64 a b"

definition Fixed_Div :: "Fixed \<Rightarrow> Fixed \<Rightarrow> Fixed option" where
  "Fixed_Div a b = (if b = 0 then None else div64 a b)"

definition Fixed_Neg :: "Fixed \<Rightarrow> Fixed" where
  "Fixed_Neg a = wrap64 (- a)"

definition Fixed_Abs :: "Fixed \<Rightarrow> Fixed" where
  "Fixed_Abs a = (if a < 0 then wrap64 (- a) else a)"

definition Fixed_Floor :: "Fixed \<Rightarrow> Fixed" where
  "Fixed_Floor a = a AND NOT (one64 - 1)"

definition Fixed_Ceil :: "Fixed \<Rightarrow> Fixed" where
  "Fixed_Ceil a = wrap64 (wrap64 (a + one64) - 1) AND NOT (one64 - 1)"

definition Fixed_Round :: "Fixed \<Rightarrow> Fixed" where
  "Fixed_Round a = wrap64 (a + one64 div 2) AND NOT (one64 - 1)"

definition Fixed_Min :: "Fixed \<Rightarrow> Fixed \<Rightarrow> Fixed" where
  "Fixed_Min a b = (if a < b then a else b)"

definition Fixed_Max :: "Fixed \<Rightarrow> Fixed \<Rightarrow> Fixed" where
  "Fixed_Max a b = (if b < a then a else b)"

definition Fixed_Clamp :: "Fixed \<Rightarrow> Fixed \<Rightarrow> Fixed \<Rightarrow> Fixed" where
  "Fixed_Clamp v lo hi = (if v < lo then lo else if hi < v then hi else v)"

definition Fixed_Sign :: "Fixed \<Rightarrow> Fixed" where
  "Fixed_Sign a = (if 0 < a then one64 else if a < 0 then - one64 else 0)"

definition Fixed_Lerp :: "Fixed \<Rightarrow> Fixed \<Rightarrow> Fixed \<Rightarrow> Fixed" where
  "Fixed_Lerp a b t = Fixed_Add a (Fixed_Mul (Fixed_Sub b a) t)"

text \<open>Newton's iteration, at most the given number of times.\<close>

primrec sqrt_loop :: "nat \<Rightarrow> Fixed \<Rightarrow> Fixed \<Rightarrow> Fixed option" where
  "sqrt_loop 0 a x = Some x"
| "sqrt_loop (Suc n) a x =
     (case Fixed_Div a x of
        None \<Rightarrow> None
      | Some d \<Rightarrow> let nx = drop_bit 1 (wrap64 (x + d)) in if x \<le> nx then Some x else sqrt_loop n a nx)"

definition Fixed_Sqrt :: "Fixed \<Rightarrow> Fixed option" where
  "Fixed_Sqrt a =
     (if a < 0 then None
      else if a = 0 then Some 0
      else sqrt_loop 64 a (if a < one64 then one64 else a))"

section \<open>Vectors\<close>

record Vec2 =
  vec_X :: Fixed
  vec_Y :: Fixed

definition Vec2_Add :: "Vec2 \<Rightarrow> Vec2 \<Rightarrow> Vec2" where
  "Vec2_Add v w = \<lparr>vec_X = wrap64 (vec_X v + vec_X w), vec_Y = wrap64 (vec_Y v + vec_Y w)\<rparr>"

definition Vec2_Sub :: "Vec2 \<Rightarrow> Vec2 \<Rightarrow> Vec2" where
  "Vec2_Sub v w = \<lparr>vec_X = wrap64 (vec_X v - vec_X w), vec_Y = wrap64 (vec_Y v - vec_Y w)\<rparr>"

definition Vec2_Scale :: "Vec2 \<Rightarrow> Fixed \<Rightarrow> Vec2" where
  "Vec2_Scale v s = \<lparr>vec_X = Fixed_Mul (vec_X v) s, vec_Y = Fixed_Mul (vec_Y v) s\<rparr>"

definition Vec2_Dot :: "Vec2 \<Rightarrow> Vec2 \<Rightarrow> Fixed" where
  "Vec2_Dot v w = Fixed_Add (Fixed_Mul (vec_X v) (vec_X w)) (Fixed_Mul (vec_Y v) (vec_Y w))"

definition Vec2_Cross :: "Vec2 \<Rightarrow> Vec2 \<Rightarrow> Fixed" where
  "Vec2_Cross v w = Fixed_Sub (Fixed_Mul (vec_X v) (vec_Y w)) (Fixed_Mul (vec_Y v) (vec_X w))"

definition Vec2_LenSq :: "Vec2 \<Rightarrow> Fixed" where
  "Vec2_LenSq v = Vec2_Dot v v"

definition Vec2_Len :: "Vec2 \<Rightarrow> Fixed option" where
  "Vec2_Len v = Fixed_Sqrt (Vec2_LenSq v)"

definition Vec2_Normalize :: "Vec2 \<Rightarrow> Vec2 option" where
  "Vec2_Normalize v =
     (case Vec2_Len v of
        None \<Rightarrow> None
      | Some l \<Rightarrow>
          if l = 0 then Some \<lparr>vec_X = 0, vec_Y = 0\<rparr>
          else case (Fixed_Div (vec_X v) l, Fixed_Div (vec_Y v) l) of
                 (Some x, Some y) \<Rightarrow> Some \<lparr>vec_X = x, vec_Y = y\<rparr>
               | _ \<Rightarrow> None)"

definition DistSq :: "Vec2 \<Rightarrow> Vec2 \<Rightarrow> Fixed" where
  "DistSq a b = Vec2_LenSq (Vec2_Sub a b)"

definition Dist :: "Vec2 \<Rightarrow> Vec2 \<Rightarrow> Fixed option" where
  "Dist a b = Fixed_Sqrt (DistSq a b)"

section \<open>Multiplication and division\<close>

lemma sint_of_int: "sint (of_int x :: 64 word) = wrap64 x"
proof -
  have "sint (of_int x :: 64 word) = signed_take_bit 63 x" by (simp add: signed_of_int)
  also have "\<dots> = wrap64 x" by (simp add: signed_take_bit_eq_take_bit_shift take_bit_eq_mod wrap64_def)
  finally show ?thesis .
qed

lemma wrap64_uminus: "wrap64 (- wrap64 x) = wrap64 (- x)"
proof -
  have "(of_int (- wrap64 x) :: 64 word) = of_int (- x)" by (simp flip: sint_of_int)
  then show ?thesis by (metis sint_of_int)
qed

text \<open>The magnitude of an \<open>int64\<close> as an unsigned word; it is right for the smallest one too.\<close>

lemma magnitude:
  assumes "in_i64 a"
  shows "uint (of_int (if a < 0 then wrap64 (- a) else a) :: 64 word) = \<bar>a\<bar>"
proof -
  have "(of_int (wrap64 (- a)) :: 64 word) = of_int (- a)" by (simp flip: sint_of_int)
  then have "(of_int (if a < 0 then wrap64 (- a) else a) :: 64 word) = of_int \<bar>a\<bar>" by simp
  moreover have "take_bit 64 \<bar>a\<bar> = \<bar>a\<bar>" using assms by (intro take_bit_int_eq_self) (auto simp: in_i64_def)
  ultimately show ?thesis by (simp add: unsigned_of_int)
qed

text \<open>The middle of the two halves of a product.\<close>

lemma middle_bits:
  fixes p :: int
  shows "push_bit 32 (of_int (p div 2 ^ 64) :: 64 word) OR drop_bit 32 (of_int p :: 64 word) = of_int (p div 2 ^ 32)"
proof (rule bit_word_eqI)
  fix n assume n: "n < LENGTH(64)"
  have shift: "bit (p div 2 ^ m) k = bit p (m + k)" for m k by (simp add: bit_drop_bit_eq flip: drop_bit_eq_div)
  show "bit (push_bit 32 (of_int (p div 2 ^ 64) :: 64 word) OR drop_bit 32 (of_int p :: 64 word)) n = bit (of_int (p div 2 ^ 32) :: 64 word) n"
    using n by (cases "n < 32") (auto simp: bit_or_iff bit_push_bit_iff bit_drop_bit_eq bit_of_int_iff shift [of 32, simplified] shift [of 64, simplified] add.commute)
qed

lemma go_div_sign: "go_div a b = (if (a < 0) \<noteq> (b < 0) then - (\<bar>a\<bar> div \<bar>b\<bar>) else \<bar>a\<bar> div \<bar>b\<bar>)"
  by (cases "a = 0 \<or> b = 0") (auto simp: go_div_def sgn_if)

lemma le_div_int:
  fixes c :: int
  assumes "0 < c"
  shows "k \<le> n div c \<longleftrightarrow> k * c \<le> n"
proof
  assume "k \<le> n div c"
  then have "k * c \<le> n div c * c" using assms by simp
  also have "\<dots> \<le> n" using assms minus_mod_eq_div_mult [of n c] pos_mod_sign [of c n] by linarith
  finally show "k * c \<le> n" .
next
  assume "k * c \<le> n"
  then have "k * c div c \<le> n div c" using assms by (rule zdiv_mono1)
  then show "k \<le> n div c" using assms by simp
qed

lemma mul64_exact:
  assumes "in_i64 a" "in_i64 b"
  shows "mul64 a b = wrap64 (go_div (a * b) (2 ^ 32))"
proof -
  let ?p = "\<bar>a\<bar> * \<bar>b\<bar>"
  define x where "x = (of_int (if a < 0 then wrap64 (- a) else a) :: 64 word)"
  define y where "y = (of_int (if b < 0 then wrap64 (- b) else b) :: 64 word)"
  have xy: "uint x = \<bar>a\<bar>" "uint y = \<bar>b\<bar>" using assms by (simp_all add: x_def y_def magnitude)
  define neg where "neg = ((a < 0) \<noteq> (b < 0))"
  have "mul64 a b = (case bits_Mul64 x y of (hi, lo) \<Rightarrow> let result = push_bit 32 hi OR drop_bit 32 lo in if neg then wrap64 (- sint result) else sint result)"
    by (auto simp: mul64_def x_def y_def neg_def Let_def)
  also have "\<dots> = (if neg then wrap64 (- wrap64 (?p div 2 ^ 32)) else wrap64 (?p div 2 ^ 32))"
    unfolding bits_Mul64_def xy prod.case Let_def middle_bits sint_of_int ..
  also have "\<dots> = wrap64 (if neg then - (?p div 2 ^ 32) else ?p div 2 ^ 32)" by (simp only: wrap64_uminus if_distrib [of wrap64] split: if_split)
  also have "(if neg then - (?p div 2 ^ 32) else ?p div 2 ^ 32) = go_div (a * b) (2 ^ 32)"
  proof (cases "a = 0 \<or> b = 0")
    case False
    then have "neg \<longleftrightarrow> a * b < 0" by (auto simp: neg_def mult_less_0_iff)
    then show ?thesis by (simp add: go_div_sign abs_mult)
  qed (auto simp: go_div_def)
  finally show ?thesis .
qed

lemma div64_exact:
  assumes "in_i64 a" "in_i64 b" "b \<noteq> 0"
  shows "div64 a b = (if 2 ^ 64 \<le> \<bar>a\<bar> * 2 ^ 32 div \<bar>b\<bar> then None else Some (wrap64 (go_div (a * 2 ^ 32) b)))"
proof -
  define x where "x = (of_int (if a < 0 then wrap64 (- a) else a) :: 64 word)"
  define y where "y = (of_int (if b < 0 then wrap64 (- b) else b) :: 64 word)"
  have xy: "uint x = \<bar>a\<bar>" "uint y = \<bar>b\<bar>" using assms by (simp_all add: x_def y_def magnitude)
  define neg where "neg = ((a < 0) \<noteq> (b < 0))"
  have hi: "uint (drop_bit 32 x) = \<bar>a\<bar> div 2 ^ 32" by (simp add: xy drop_bit_eq_div uint_div)
  have lo: "uint (push_bit 32 x) = \<bar>a\<bar> * 2 ^ 32 mod 2 ^ 64" by (simp add: xy push_bit_eq_mult uint_word_ariths)
  have a: "\<bar>a\<bar> < 2 ^ 64" "0 \<le> \<bar>a\<bar>" using assms(1) by (auto simp: in_i64_def)
  have num: "uint (drop_bit 32 x) * 2 ^ 64 + uint (push_bit 32 x) = \<bar>a\<bar> * 2 ^ 32"
  proof -
    have "\<bar>a\<bar> div 2 ^ 32 = \<bar>a\<bar> * 2 ^ 32 div 2 ^ 64" using div_mult_mult2 [of "2 ^ 32" "\<bar>a\<bar>" "2 ^ 32"] by simp
    then show ?thesis unfolding hi lo by (simp only: div_mult_mod_eq)
  qed
  have y0: "y \<noteq> 0" using xy(2) assms(3) by auto
  have "div64 a b = (case bits_Div64 (drop_bit 32 x) (push_bit 32 x) y of None \<Rightarrow> None | Some (q, r) \<Rightarrow> Some (if neg then wrap64 (- sint q) else sint q))"
    by (auto simp: div64_def x_def y_def neg_def Let_def split: option.splits)
  moreover have "y \<le> drop_bit 32 x \<longleftrightarrow> 2 ^ 64 \<le> \<bar>a\<bar> * 2 ^ 32 div \<bar>b\<bar>"
  proof -
    have "y \<le> drop_bit 32 x \<longleftrightarrow> \<bar>b\<bar> \<le> \<bar>a\<bar> div 2 ^ 32" by (simp only: word_le_def hi xy)
    also have "\<dots> \<longleftrightarrow> \<bar>b\<bar> * 2 ^ 32 \<le> \<bar>a\<bar>" by (simp add: le_div_int)
    also have "\<dots> \<longleftrightarrow> 2 ^ 64 * \<bar>b\<bar> \<le> \<bar>a\<bar> * 2 ^ 32" by (simp add: mult.commute)
    also have "\<dots> \<longleftrightarrow> 2 ^ 64 \<le> \<bar>a\<bar> * 2 ^ 32 div \<bar>b\<bar>" using assms(3) by (simp add: le_div_int)
    finally show ?thesis .
  qed
  moreover have "(if neg then wrap64 (- wrap64 (\<bar>a\<bar> * 2 ^ 32 div \<bar>b\<bar>)) else wrap64 (\<bar>a\<bar> * 2 ^ 32 div \<bar>b\<bar>)) = wrap64 (go_div (a * 2 ^ 32) b)"
    by (cases "a = 0") (auto simp: wrap64_uminus go_div_sign neg_def abs_mult mult_less_0_iff)
  ultimately show ?thesis using y0 unfolding bits_Div64_def num xy by (auto simp: sint_of_int)
qed

text \<open>C30. Multiplication and division are exact up to the last place. The product of two numbers is the exact product of their
  values, cut off towards zero to 32 binary places; the quotient likewise; both wrap at 64 bits, and a division
  panics exactly when the divisor is zero or the quotient needs more than 64 bits.\<close>

theorem Fixed_mul_div_exact:
  assumes "in_i64 a" "in_i64 b"
  shows "Fixed_Mul a b = wrap64 (go_div (a * b) (2 ^ 32))
    \<and> Fixed_Div a b = (if b = 0 \<or> 2 ^ 64 \<le> \<bar>a\<bar> * 2 ^ 32 div \<bar>b\<bar> then None else Some (wrap64 (go_div (a * 2 ^ 32) b)))"
  using mul64_exact [OF assms] div64_exact [OF assms] by (simp add: Fixed_Mul_def Fixed_Div_def)

text \<open>One and a half times minus two, and its inverse.\<close>

theorem Fixed_mul_div_exact_witness:
  "Fixed_Mul (3 * 2 ^ 31) (- (2 ^ 33)) = - (3 * 2 ^ 32) \<and> Fixed_Div (- (3 * 2 ^ 32)) (- (2 ^ 33)) = Some (3 * 2 ^ 31)"
  using Fixed_mul_div_exact [of "3 * 2 ^ 31" "- (2 ^ 33)"] Fixed_mul_div_exact [of "- (3 * 2 ^ 32)" "- (2 ^ 33)"]
  by (simp add: in_i64_def go_div_def wrap64_def)

section \<open>The square root\<close>

text \<open>One step of the iteration from above the root: it stays above, and the distance to the root at least halves.\<close>

lemma newton_step:
  fixes A s x :: int
  assumes s: "s\<^sup>2 \<le> A" "A < (s + 1)\<^sup>2" "0 < s" and x: "s < x"
  shows "s \<le> (x + A div x) div 2" "(x + A div x) div 2 - s \<le> (x - s) div 2" "A div x \<le> s"
proof -
  have x0: "0 < x" using s(3) x by simp
  have "(s + 1)\<^sup>2 \<le> (s + 1) * x" using x s(3) by (simp add: power2_eq_square)
  then have "A < (s + 1) * x" using s(2) by simp
  then show le: "A div x \<le> s" using le_div_int [OF x0, of "s + 1" A] by linarith
  then show "(x + A div x) div 2 - s \<le> (x - s) div 2" by linarith
  have "0 \<le> (x - s)\<^sup>2" by simp
  then have "(2 * s - x) * x \<le> A" using s(1) by (simp add: power2_eq_square algebra_simps)
  then have "2 * s - x \<le> A div x" using le_div_int [OF x0] by simp
  then show "s \<le> (x + A div x) div 2" by simp
qed

text \<open>At the root the iteration stops.\<close>

lemma newton_fix:
  fixes A s :: int
  assumes "s\<^sup>2 \<le> A" "0 < s"
  shows "s \<le> (s + A div s) div 2"
proof -
  have "s \<le> A div s" using le_div_int [OF assms(2), of s A] assms(1) by (simp add: power2_eq_square)
  then show ?thesis by simp
qed

lemma sqrt_loop_step:
  assumes "0 < a" "a < 2 ^ 63" "0 < x" "x < 2 ^ 63" "a * 2 ^ 32 div x < 2 ^ 63" "x + a * 2 ^ 32 div x < 2 ^ 63"
  shows "sqrt_loop (Suc n) a x = (let nx = (x + a * 2 ^ 32 div x) div 2 in if x \<le> nx then Some x else sqrt_loop n a nx)"
proof -
  have q: "0 \<le> a * 2 ^ 32 div x" using assms(1,3) by (simp add: pos_imp_zdiv_nonneg_iff)
  have "go_div (a * 2 ^ 32) x = a * 2 ^ 32 div x" using assms(1,3) by (intro go_div_nonneg) simp_all
  then have "Fixed_Div a x = Some (a * 2 ^ 32 div x)"
    using assms q div64_exact [of a x] by (simp add: Fixed_Div_def in_i64_def)
  moreover have "wrap64 (x + a * 2 ^ 32 div x) = x + a * 2 ^ 32 div x" using assms q by (intro wrap64_id) (simp add: in_i64_def)
  ultimately show ?thesis by (simp add: drop_bit_eq_div)
qed

lemma sqrt_loop_root:
  assumes a: "0 < a" "a < 2 ^ 63" and s: "s\<^sup>2 \<le> a * 2 ^ 32" "a * 2 ^ 32 < (s + 1)\<^sup>2" "0 < s" "s < 2 ^ 48"
    and x: "s \<le> x" "x < 2 ^ 62 + 2 ^ 48 \<or> x + a * 2 ^ 32 div x < 2 ^ 63" "x < 2 ^ 63" and n: "x - s < 2 ^ n"
  shows "sqrt_loop n a x = Some s"
  using x n
proof (induction n arbitrary: x)
  case 0
  then show ?case by simp
next
  case (Suc n)
  let ?A = "a * 2 ^ 32" and ?nx = "(x + a * 2 ^ 32 div x) div 2"
  have x0: "0 < x" using s(3) Suc.prems(1) by simp
  show ?case
  proof (cases "x = s")
    case True
    have "?A < (s + 2) * s + 1" using s(2) by (simp add: power2_eq_square algebra_simps)
    then have d: "?A div s \<le> s + 2" using le_div_int [OF s(3), of "s + 3" ?A] s(3) by (simp add: algebra_simps)
    have "sqrt_loop (Suc n) a s = (let nx = (s + ?A div s) div 2 in if s \<le> nx then Some s else sqrt_loop n a nx)"
      using d s(4) by (intro sqrt_loop_step [OF a s(3)]) simp_all
    then show ?thesis using newton_fix [OF s(1,3)] True by (simp add: Let_def)
  next
    case False
    then have gt: "s < x" using Suc.prems(1) by simp
    note st = newton_step [OF s(1-3) gt]
    have sum: "x + ?A div x < 2 ^ 63" using Suc.prems(2) st(3) s(4) by auto
    have step: "sqrt_loop (Suc n) a x = (let nx = ?nx in if x \<le> nx then Some x else sqrt_loop n a nx)"
      using st(3) s(4) sum Suc.prems(3) by (intro sqrt_loop_step [OF a x0]) simp_all
    have lt: "?nx < x" using st(3) gt by linarith
    have half: "?nx - s < 2 ^ n" using st(2) Suc.prems(4) by (simp add: algebra_simps)
    have small: "?nx < 2 ^ 62 + 2 ^ 48 \<or> ?nx + ?A div ?nx < 2 ^ 63" "?nx < 2 ^ 63" using sum lt Suc.prems(3) by (intro disjI1, simp, linarith)
    show ?thesis using Suc.IH [OF st(1) small half] step lt by (simp add: Let_def)
  qed
qed

lemma integer_root: "\<exists>s\<ge>0. s\<^sup>2 \<le> int n \<and> int n < (s + 1)\<^sup>2"
proof (induction n)
  case 0
  show ?case by (intro exI [of _ 0]) simp
next
  case (Suc n)
  then obtain s where s: "0 \<le> s" "s\<^sup>2 \<le> int n" "int n < (s + 1)\<^sup>2" by blast
  show ?case
  proof (cases "int (Suc n) = (s + 1)\<^sup>2")
    case True
    then show ?thesis using s(1) by (intro exI [of _ "s + 1"]) (simp add: power2_eq_square algebra_simps)
  next
    case False
    then show ?thesis using s by (intro exI [of _ s]) simp
  qed
qed

text \<open>C31. The square root is the exact integer square root of the scaled value: 64 iterations are always enough, no division in them
  panics, and the result is the largest number whose square does not exceed the argument. This holds up to the last
  unit of the range, where the first sum overflows (\<open>Sqrt_overflow\<close>).\<close>

theorem Fixed_Sqrt_exact:
  assumes "0 \<le> a" "a < 2 ^ 63 - 2 ^ 32"
  shows "\<exists>r. Fixed_Sqrt a = Some r \<and> 0 \<le> r \<and> r\<^sup>2 \<le> a * 2 ^ 32 \<and> a * 2 ^ 32 < (r + 1)\<^sup>2"
proof (cases "a = 0")
  case True
  then show ?thesis by (simp add: Fixed_Sqrt_def)
next
  case False
  then have a: "0 < a" "a < 2 ^ 63" using assms by simp_all
  obtain s where s_nonneg: "0 \<le> s" and s: "s\<^sup>2 \<le> a * 2 ^ 32" "a * 2 ^ 32 < (s + 1)\<^sup>2" using integer_root [of "nat (a * 2 ^ 32)"] a(1) by auto
  have s0: "0 < s"
  proof (rule ccontr)
    assume "\<not> 0 < s"
    then have "s = 0" using s_nonneg by simp
    then show False using s(2) a(1) by simp
  qed
  have s48: "s < 2 ^ 48"
  proof (rule ccontr)
    assume "\<not> s < 2 ^ 48"
    then have "(2 ^ 48)\<^sup>2 \<le> s\<^sup>2" by (intro power_mono) simp_all
    then show False using s(1) a(2) by simp
  qed
  let ?x = "if a < 2 ^ 32 then 2 ^ 32 else a"
  have above: "s \<le> ?x"
  proof (rule ccontr)
    assume "\<not> s \<le> ?x"
    then have "?x\<^sup>2 < s\<^sup>2" using a(1) by (intro power_strict_mono) auto
    moreover have "a * 2 ^ 32 \<le> ?x\<^sup>2" using a(1) by (auto simp: power2_eq_square)
    ultimately show False using s(1) by simp
  qed
  have sum: "?x + a * 2 ^ 32 div ?x < 2 ^ 63" using assms(2) a(1) by auto
  have "sqrt_loop 64 a ?x = Some s" using sum s0 a by (intro sqrt_loop_root [OF a s s0 s48 above]) auto
  then show ?thesis using a(1) s s0 by (auto simp: Fixed_Sqrt_def)
qed

text \<open>The square root of nine quarters.\<close>

theorem Fixed_Sqrt_exact_witness:
  "\<exists>r. Fixed_Sqrt (9 * 2 ^ 30) = Some r \<and> r\<^sup>2 \<le> 9 * 2 ^ 30 * 2 ^ 32 \<and> 9 * 2 ^ 30 * 2 ^ 32 < (r + 1)\<^sup>2"
  using Fixed_Sqrt_exact [of "9 * 2 ^ 30"] by auto

text \<open>Where the argument is in the last unit of the range, the sum wraps and the result is negative.\<close>

lemma Sqrt_overflow: "Fixed_Sqrt (2 ^ 63 - 1) = Some (- (2 ^ 62) + 2 ^ 31 - 1)"
  by code_simp

section \<open>Rounding and vectors\<close>

lemma mask_floor: "(x :: int) AND NOT (2 ^ 32 - 1) = x div 2 ^ 32 * 2 ^ 32"
proof -
  have "x AND NOT (mask 32) = push_bit 32 (drop_bit 32 x)" by (rule bit_eqI) (auto simp: bit_simps)
  then show ?thesis by (simp add: mask_eq_exp_minus_1 push_bit_eq_mult drop_bit_eq_div)
qed

text \<open>\<open>Int\<close> is documented to cut off towards zero, but the shift rounds down.\<close>

lemma Int_rounds_down: "Fixed_Int64 (- (2 ^ 31)) = - 1"
  by (simp add: Fixed_Int64_def drop_bit_eq_div)

text \<open>The length of a vector of 50000 units panics: its square does not fit.\<close>

lemma Len_panics: "Vec2_Len \<lparr>vec_X = 50000 * 2 ^ 32, vec_Y = 0\<rparr> = None"
  by code_simp

text \<open>A short vector has length zero and is normalised to zero.\<close>

lemma Normalize_short: "Vec2_Normalize \<lparr>vec_X = 2 ^ 15, vec_Y = 2 ^ 15\<rparr> = Some \<lparr>vec_X = 0, vec_Y = 0\<rparr>"
  by code_simp

lemma ceil_div_neg:
  fixes b :: int
  assumes "0 < b"
  shows "(a + b - 1) div b = - (- a div b)"
proof (rule int_div_pos_eq)
  show "a + b - 1 = b * - (- a div b) + (b - 1 - - a mod b)" using mult_div_mod_eq [of b "- a"] by (simp add: algebra_simps)
  show "0 \<le> b - 1 - - a mod b" "b - 1 - - a mod b < b" using pos_mod_bound [OF assms, of "- a"] pos_mod_sign [OF assms, of "- a"] by linarith+
qed

lemma rounding_values:
  assumes "in_i64 a" "a + 2 ^ 32 < 2 ^ 63"
  shows "Fixed_Floor a = a div 2 ^ 32 * 2 ^ 32" "Fixed_Ceil a = - (- a div 2 ^ 32) * 2 ^ 32" "Fixed_Round a = (a + 2 ^ 31) div 2 ^ 32 * 2 ^ 32"
proof -
  show "Fixed_Floor a = a div 2 ^ 32 * 2 ^ 32" unfolding Fixed_Floor_def by (rule mask_floor)
  have "wrap64 (a + 2 ^ 32) = a + 2 ^ 32" "wrap64 (a + 2 ^ 32 - 1) = a + 2 ^ 32 - 1" "wrap64 (a + 2 ^ 32 div 2) = a + 2 ^ 31"
    using assms by (auto intro!: wrap64_id [THEN trans] simp: in_i64_def)
  then show "Fixed_Ceil a = - (- a div 2 ^ 32) * 2 ^ 32" "Fixed_Round a = (a + 2 ^ 31) div 2 ^ 32 * 2 ^ 32"
    unfolding Fixed_Ceil_def Fixed_Round_def mask_floor by (simp_all only: ceil_div_neg zero_less_power zero_less_numeral)
qed

lemma FromInt64_Int64: "- (2 ^ 31) \<le> n \<Longrightarrow> n < 2 ^ 31 \<Longrightarrow> Fixed_Int64 (FromInt64 n) = n"
  by (simp add: Fixed_Int64_def FromInt64_def push_bit_eq_mult drop_bit_eq_div in_i64_def)

end
