(* ===== verification/Pathfind.thy ===== *)
theory Pathfind
  imports Complex_Main Priority
begin

text \<open>
  \<open>pkg/game/pathfind\<close>: A* on a grid. The open set is the heap of \<open>Priority\<close> (the loops of \<open>container/heap\<close>), the arrays are lists
  indexed by cell number. Costs and estimates are floats in the code and rationals here, infinity is \<open>None\<close>, and
  \<open>math.Sqrt2\<close> is an argument between 1 and 2, so rounding is left out (there is none without diagonal moves). The search
  is written for the neighbour, step and estimate functions it is given; the locale \<open>astar\<close> says what it relies on
  (positive steps, a consistent estimate), and the grid with either set of directions interprets it.
\<close>

section \<open>The grid\<close>

record Point =
  pt_X :: int
  pt_Y :: int

record path_config =
  pc_allowDiagonal :: bool
  pc_allowCutCorner :: bool

definition WithDiagonal :: "bool \<Rightarrow> path_config \<Rightarrow> path_config" where
  "WithDiagonal allow c = c\<lparr>pc_allowDiagonal := allow\<rparr>"

definition WithCutCorner :: "bool \<Rightarrow> path_config \<Rightarrow> path_config" where
  "WithCutCorner allow c = c\<lparr>pc_allowCutCorner := allow\<rparr>"

record Grid =
  gd_w :: int
  gd_h :: int
  gd_blocked :: "bool list"
  gd_cost :: "int list"

definition NewGrid :: "int \<Rightarrow> int \<Rightarrow> Grid" where
  "NewGrid width height =
     (let width = (if width < 0 then 0 else width); height = (if height < 0 then 0 else height); n = nat (width * height)
      in \<lparr>gd_w = width, gd_h = height, gd_blocked = replicate n False, gd_cost = replicate n 1\<rparr>)"

definition InBounds :: "Grid \<Rightarrow> Point \<Rightarrow> bool" where
  "InBounds g p \<longleftrightarrow> 0 \<le> pt_X p \<and> pt_X p < gd_w g \<and> 0 \<le> pt_Y p \<and> pt_Y p < gd_h g"

definition cell :: "Grid \<Rightarrow> Point \<Rightarrow> nat" where
  "cell g p = nat (pt_Y p * gd_w g + pt_X p)"

definition SetBlocked :: "Point \<Rightarrow> bool \<Rightarrow> Grid \<Rightarrow> Grid" where
  "SetBlocked p b g = (if InBounds g p then g\<lparr>gd_blocked := (gd_blocked g)[cell g p := b]\<rparr> else g)"

definition IsBlocked :: "Grid \<Rightarrow> Point \<Rightarrow> bool" where
  "IsBlocked g p = (if \<not> InBounds g p then True else gd_blocked g ! cell g p)"

definition SetCost :: "Point \<Rightarrow> int \<Rightarrow> Grid \<Rightarrow> Grid" where
  "SetCost p c g =
     (if \<not> InBounds g p then g
      else let c = (if c < 1 then 1 else c) in g\<lparr>gd_cost := (gd_cost g)[cell g p := c]\<rparr>)"

definition costAt :: "Grid \<Rightarrow> Point \<Rightarrow> int" where
  "costAt g p = gd_cost g ! cell g p"

definition pt :: "int \<Rightarrow> int \<Rightarrow> Point" where
  "pt x y = \<lparr>pt_X = x, pt_Y = y\<rparr>"

definition ortho :: "Point list" where
  "ortho = [pt 0 (-1), pt 0 1, pt (-1) 0, pt 1 0]"

definition diag :: "Point list" where
  "diag = [pt (-1) (-1), pt 1 (-1), pt (-1) 1, pt 1 1]"

definition neighbors :: "Grid \<Rightarrow> path_config \<Rightarrow> Point \<Rightarrow> Point list" where
  "neighbors g cfg p =
     (let out = filter (\<lambda>np. \<not> IsBlocked g np) (map (\<lambda>d. pt (pt_X p + pt_X d) (pt_Y p + pt_Y d)) ortho)
      in if \<not> pc_allowDiagonal cfg then out
         else out @ map (\<lambda>d. pt (pt_X p + pt_X d) (pt_Y p + pt_Y d))
           (filter (\<lambda>d. \<not> IsBlocked g (pt (pt_X p + pt_X d) (pt_Y p + pt_Y d))
              \<and> (pc_allowCutCorner cfg \<or> \<not> (IsBlocked g (pt (pt_X p + pt_X d) (pt_Y p)) \<or> IsBlocked g (pt (pt_X p) (pt_Y p + pt_Y d))))) diag))"

definition path_heuristic :: "rat \<Rightarrow> Point \<Rightarrow> Point \<Rightarrow> bool \<Rightarrow> rat" where
  "path_heuristic sqrt2 a b diagonal =
     (let dx = of_int \<bar>pt_X a - pt_X b\<bar>; dy = of_int \<bar>pt_Y a - pt_Y b\<bar>
      in if diagonal then (dx + dy) + (sqrt2 - 2) * min dx dy else dx + dy)"

definition step_cost :: "rat \<Rightarrow> Grid \<Rightarrow> Point \<Rightarrow> Point \<Rightarrow> rat" where
  "step_cost sqrt2 g p nb =
     (let step = of_int (costAt g nb) in if pt_X nb \<noteq> pt_X p \<and> pt_Y nb \<noteq> pt_Y p then step * sqrt2 else step)"

section \<open>The search\<close>

record 'p path_node =
  nd_p :: 'p
  nd_g :: rat
  nd_f :: rat

record 'p search =
  se_gScore :: "rat option list"
  se_cameFrom :: "int list"
  se_closed :: "bool list"
  se_open :: "'p path_node Queue"

text \<open>One neighbour: \<open>tentative < gScore[ni]\<close> with infinity on the right, and never with infinity on the left.\<close>

definition relax :: "('p \<Rightarrow> nat) \<Rightarrow> ('p \<Rightarrow> 'p \<Rightarrow> rat) \<Rightarrow> ('p \<Rightarrow> rat) \<Rightarrow> 'p \<Rightarrow> 'p \<Rightarrow> 'p search \<Rightarrow> 'p search" where
  "relax idx step h cur nb s =
     (let ci = idx cur; ni = idx nb
      in if se_closed s ! ni then s
         else case se_gScore s ! ci of None \<Rightarrow> s
           | Some gc \<Rightarrow>
               let tentative = gc + step cur nb
               in if (case se_gScore s ! ni of None \<Rightarrow> True | Some gn \<Rightarrow> tentative < gn)
                  then s\<lparr>se_gScore := (se_gScore s)[ni := Some tentative], se_cameFrom := (se_cameFrom s)[ni := int ci],
                         se_open := Queue_Push \<lparr>nd_p = nb, nd_g = tentative, nd_f = tentative + h nb\<rparr> (se_open s)\<rparr>
                  else s)"

text \<open>The body of the loop after the closed test.\<close>

definition expand :: "('p \<Rightarrow> nat) \<Rightarrow> ('p \<Rightarrow> 'p list) \<Rightarrow> ('p \<Rightarrow> 'p \<Rightarrow> rat) \<Rightarrow> ('p \<Rightarrow> rat) \<Rightarrow> 'p \<Rightarrow> 'p search \<Rightarrow> 'p search" where
  "expand idx nbrs step h cur s = fold (relax idx step h cur) (nbrs cur) (s\<lparr>se_closed := (se_closed s)[idx cur := True]\<rparr>)"

text \<open>The result is the final state and whether the goal was taken from the heap.\<close>

partial_function (option) astar_loop ::
  "('p \<Rightarrow> nat) \<Rightarrow> ('p \<Rightarrow> 'p list) \<Rightarrow> ('p \<Rightarrow> 'p \<Rightarrow> rat) \<Rightarrow> ('p \<Rightarrow> rat) \<Rightarrow> 'p \<Rightarrow> 'p search \<Rightarrow> (bool \<times> 'p search) option" where
  "astar_loop idx nbrs step h goal s =
     (case Queue_Pop (se_open s) of
        None \<Rightarrow> Some (False, s)
      | Some (cur, rest) \<Rightarrow>
          if nd_p cur = goal then Some (True, s\<lparr>se_open := rest\<rparr>)
          else if se_closed s ! idx (nd_p cur) then astar_loop idx nbrs step h goal (s\<lparr>se_open := rest\<rparr>)
          else astar_loop idx nbrs step h goal (expand idx nbrs step h (nd_p cur) (s\<lparr>se_open := rest\<rparr>)))"

partial_function (option) recon_loop :: "(nat \<Rightarrow> 'p) \<Rightarrow> int list \<Rightarrow> int \<Rightarrow> int \<Rightarrow> 'p list \<Rightarrow> 'p list option" where
  "recon_loop point cameFrom fromIdx cur rv =
     (if cur = -1 then Some rv
      else if cur = fromIdx then Some (rv @ [point (nat cur)])
      else recon_loop point cameFrom fromIdx (cameFrom ! nat cur) (rv @ [point (nat cur)]))"

definition reconstruct :: "(nat \<Rightarrow> 'p) \<Rightarrow> int list \<Rightarrow> nat \<Rightarrow> nat \<Rightarrow> 'p list option" where
  "reconstruct point cameFrom to from = map_option rev (recon_loop point cameFrom (int from) (int to) [])"

definition search_start :: "nat \<Rightarrow> ('p \<Rightarrow> nat) \<Rightarrow> ('p \<Rightarrow> rat) \<Rightarrow> 'p \<Rightarrow> 'p search" where
  "search_start n idx h from =
     \<lparr>se_gScore = (replicate n None)[idx from := Some 0], se_cameFrom = replicate n (-1), se_closed = replicate n False,
      se_open = \<lparr>pq_items = [\<lparr>nd_p = from, nd_g = 0, nd_f = h from\<rparr>], pq_less = (\<lambda>a b. nd_f a < nd_f b)\<rparr>\<rparr>"

text \<open>\<open>nil\<close> is the empty list; \<open>None\<close> would be a loop that does not end.\<close>

definition FindPath :: "rat \<Rightarrow> Grid \<Rightarrow> Point \<Rightarrow> Point \<Rightarrow> (path_config \<Rightarrow> path_config) list \<Rightarrow> Point list option" where
  "FindPath sqrt2 g from to opts =
     (let cfg = foldl (\<lambda>c f. f c) \<lparr>pc_allowDiagonal = False, pc_allowCutCorner = False\<rparr> opts
      in if \<not> InBounds g from \<or> \<not> InBounds g to \<or> IsBlocked g from \<or> IsBlocked g to then Some []
         else if from = to then Some [from]
         else
           let h = (\<lambda>p. path_heuristic sqrt2 p to (pc_allowDiagonal cfg))
           in case astar_loop (cell g) (neighbors g cfg) (step_cost sqrt2 g) h to (search_start (nat (gd_w g * gd_h g)) (cell g) h from) of
                None \<Rightarrow> None
              | Some (False, s) \<Rightarrow> Some []
              | Some (True, s) \<Rightarrow> reconstruct (\<lambda>i. pt (int i mod gd_w g) (int i div gd_w g)) (se_cameFrom s) (cell g to) (cell g from))"

section \<open>Paths and walks\<close>

fun is_path :: "('p \<Rightarrow> 'p list) \<Rightarrow> 'p list \<Rightarrow> bool" where
  "is_path nbrs [] = False"
| "is_path nbrs [p] = True"
| "is_path nbrs (p # q # ps) = (q \<in> set (nbrs p) \<and> is_path nbrs (q # ps))"

fun path_cost :: "('p \<Rightarrow> 'p \<Rightarrow> rat) \<Rightarrow> 'p list \<Rightarrow> rat" where
  "path_cost step (p # q # ps) = step p q + path_cost step (q # ps)"
| "path_cost step ps = 0"

inductive walk :: "('p \<Rightarrow> 'p list) \<Rightarrow> ('p \<Rightarrow> 'p \<Rightarrow> rat) \<Rightarrow> 'p \<Rightarrow> 'p \<Rightarrow> rat \<Rightarrow> bool" for nbrs step a where
  stay: "walk nbrs step a a 0"
| move: "walk nbrs step a u c \<Longrightarrow> v \<in> set (nbrs u) \<Longrightarrow> walk nbrs step a v (c + step u v)"

lemma path_snoc:
  "is_path nbrs (ps @ [u]) \<Longrightarrow> v \<in> set (nbrs u) \<Longrightarrow> is_path nbrs (ps @ [u, v]) \<and> path_cost step (ps @ [u, v]) = path_cost step (ps @ [u]) + step u v"
proof (induction ps)
  case (Cons p ps)
  then show ?case by (cases ps) auto
qed simp

lemma path_unsnoc: "is_path nbrs (ps @ [u, v]) \<Longrightarrow> is_path nbrs (ps @ [u]) \<and> v \<in> set (nbrs u)"
proof (induction ps)
  case (Cons p ps)
  then show ?case by (cases ps) auto
qed simp

lemma path_walk: "is_path nbrs ps \<Longrightarrow> walk nbrs step (hd ps) (last ps) (path_cost step ps)"
proof (induction ps rule: rev_induct)
  case (snoc v ps)
  show ?case
  proof (cases ps rule: rev_cases)
    case Nil
    then show ?thesis by (simp add: walk.stay)
  next
    case (snoc qs u)
    have p: "is_path nbrs ps" "v \<in> set (nbrs u)" using snoc snoc.prems path_unsnoc [of nbrs qs u v] by auto
    have w: "walk nbrs step (hd ps) u (path_cost step ps)" using snoc.IH [OF p(1)] snoc by simp
    have hd: "hd (ps @ [v]) = hd ps" using snoc by (cases qs) simp_all
    have "path_cost step (ps @ [v]) = path_cost step ps + step u v" using path_snoc [of nbrs qs u v step] p snoc by simp
    then show ?thesis using walk.move [OF w p(2)] hd by simp
  qed
qed simp

section \<open>What the search relies on\<close>

interpretation nodes: heap_order "\<lambda>a b. nd_f a < (nd_f b :: rat)"
  by unfold_locales auto

lemma filter_Not_update: "i < length xs \<Longrightarrow> \<not> xs ! i \<Longrightarrow> length (filter Not xs) = Suc (length (filter Not (xs[i := True])))"
proof (induction xs arbitrary: i)
  case (Cons x xs)
  then show ?case by (cases i) simp_all
qed simp

lemma set_neq: "x \<in> B \<Longrightarrow> x \<notin> A \<Longrightarrow> A \<noteq> B"
  by blast

locale astar =
  fixes N K :: nat
    and idx :: "'p \<Rightarrow> nat"
    and valid :: "'p \<Rightarrow> bool"
    and nbrs :: "'p \<Rightarrow> 'p list"
    and step :: "'p \<Rightarrow> 'p \<Rightarrow> rat"
    and h :: "'p \<Rightarrow> rat"
  assumes idx_lt: "valid p \<Longrightarrow> idx p < N"
    and idx_inj: "valid p \<Longrightarrow> valid q \<Longrightarrow> idx p = idx q \<Longrightarrow> p = q"
    and nbrs_valid: "valid p \<Longrightarrow> q \<in> set (nbrs p) \<Longrightarrow> valid q"
    and nbrs_few: "length (nbrs p) \<le> K"
    and step_pos: "valid p \<Longrightarrow> q \<in> set (nbrs p) \<Longrightarrow> 0 < step p q"
    and consistent: "valid p \<Longrightarrow> q \<in> set (nbrs p) \<Longrightarrow> h p \<le> step p q + h q"
begin

definition gs :: "'p search \<Rightarrow> 'p \<Rightarrow> rat option" where
  "gs s v = se_gScore s ! idx v"

definition closed :: "'p search \<Rightarrow> 'p \<Rightarrow> bool" where
  "closed s v \<longleftrightarrow> se_closed s ! idx v"

text \<open>The invariant; \<open>todo\<close> holds the edges of the cell that is being expanded and that are still to be looked at.\<close>

definition ainv :: "'p \<Rightarrow> 'p \<Rightarrow> ('p \<times> 'p) set \<Rightarrow> 'p search \<Rightarrow> bool" where
  "ainv a goal todo s \<longleftrightarrow>
     length (se_gScore s) = N \<and> length (se_cameFrom s) = N \<and> length (se_closed s) = N \<and> nodes.heap_inv (se_open s)
   \<and> valid a \<and> gs s a = Some 0 \<and> valid goal \<and> \<not> closed s goal
   \<and> (\<forall>v d. valid v \<and> gs s v = Some d \<longrightarrow> walk nbrs step a v d)
   \<and> (\<forall>v d. valid v \<and> gs s v = Some d \<and> v \<noteq> a \<longrightarrow> (\<exists>u du. valid u \<and> closed s u \<and> v \<in> set (nbrs u) \<and> gs s u = Some du
          \<and> d = du + step u v \<and> se_cameFrom s ! idx v = int (idx u)))
   \<and> (\<forall>v. valid v \<and> closed s v \<longrightarrow> (\<exists>d. gs s v = Some d \<and> (\<forall>c. walk nbrs step a v c \<longrightarrow> d \<le> c)))
   \<and> (\<forall>u v. valid u \<and> closed s u \<and> v \<in> set (nbrs u) \<longrightarrow> (u, v) \<in> todo \<or> closed s v
          \<or> (\<exists>d dv. gs s u = Some d \<and> gs s v = Some dv \<and> dv \<le> d + step u v))
   \<and> (\<forall>v d. valid v \<and> \<not> closed s v \<and> gs s v = Some d \<longrightarrow> \<lparr>nd_p = v, nd_g = d, nd_f = d + h v\<rparr> \<in> set (pq_items (se_open s)))
   \<and> (\<forall>n\<in>set (pq_items (se_open s)). valid (nd_p n) \<and> nd_f n = nd_g n + h (nd_p n) \<and> (\<exists>d. gs s (nd_p n) = Some d \<and> d \<le> nd_g n))"

lemma ainvD:
  assumes "ainv a goal todo s"
  shows "length (se_gScore s) = N" "length (se_cameFrom s) = N" "length (se_closed s) = N" "nodes.heap_inv (se_open s)"
    "valid a" "gs s a = Some 0" "valid goal \<and> \<not> closed s goal"
    "valid v \<Longrightarrow> gs s v = Some d \<Longrightarrow> walk nbrs step a v d"
    "valid v \<Longrightarrow> gs s v = Some d \<Longrightarrow> v \<noteq> a \<Longrightarrow> \<exists>u du. valid u \<and> closed s u \<and> v \<in> set (nbrs u) \<and> gs s u = Some du
          \<and> d = du + step u v \<and> se_cameFrom s ! idx v = int (idx u)"
    "valid v \<Longrightarrow> closed s v \<Longrightarrow> \<exists>d. gs s v = Some d \<and> (\<forall>c. walk nbrs step a v c \<longrightarrow> d \<le> c)"
    "valid u \<Longrightarrow> closed s u \<Longrightarrow> v \<in> set (nbrs u) \<Longrightarrow> (u, v) \<in> todo \<or> closed s v
          \<or> (\<exists>d dv. gs s u = Some d \<and> gs s v = Some dv \<and> dv \<le> d + step u v)"
    "valid v \<Longrightarrow> \<not> closed s v \<Longrightarrow> gs s v = Some d \<Longrightarrow> \<lparr>nd_p = v, nd_g = d, nd_f = d + h v\<rparr> \<in> set (pq_items (se_open s))"
    "n \<in> set (pq_items (se_open s)) \<Longrightarrow> valid (nd_p n) \<and> nd_f n = nd_g n + h (nd_p n) \<and> (\<exists>d. gs s (nd_p n) = Some d \<and> d \<le> nd_g n)"
  using assms unfolding ainv_def by blast+

lemma walk_valid: "walk nbrs step a v c \<Longrightarrow> valid a \<Longrightarrow> valid v \<and> 0 \<le> c"
proof (induction rule: walk.induct)
  case (move u c v)
  then show ?case using nbrs_valid [of u v] step_pos [of u v] by simp
qed simp

text \<open>On a walk to a cell there is a cell of the open set whose estimate is no more than that of the walk, unless the cell is
  closed.\<close>

lemma frontier:
  assumes inv: "ainv a goal {} s" and w: "walk nbrs step a v c"
  shows "(closed s v \<and> (\<exists>d. gs s v = Some d \<and> d \<le> c)) \<or> (\<exists>n\<in>set (pq_items (se_open s)). nd_f n \<le> c + h v)"
  using w
proof (induction rule: walk.induct)
  case stay
  show ?case
  proof (cases "closed s a")
    case True
    then show ?thesis using ainvD(6) [OF inv] by simp
  next
    case False
    then show ?thesis using ainvD(12) [OF inv ainvD(5) [OF inv] False ainvD(6) [OF inv]] by (intro disjI2 bexI) simp_all
  qed
next
  case (move u c v)
  have u: "valid u" using walk_valid [OF move.hyps(1) ainvD(5) [OF inv]] by simp
  have v: "valid v" using nbrs_valid [OF u move.hyps(2)] .
  note cons = consistent [OF u move.hyps(2)]
  from move.IH show ?case
  proof
    assume "closed s u \<and> (\<exists>d. gs s u = Some d \<and> d \<le> c)"
    then obtain d where d: "closed s u" "gs s u = Some d" "d \<le> c" by blast
    show ?thesis
    proof (cases "closed s v")
      case True
      then obtain dv where "gs s v = Some dv" "\<forall>c. walk nbrs step a v c \<longrightarrow> dv \<le> c" using ainvD(10) [OF inv v] by blast
      then show ?thesis using True walk.move [OF move.hyps] by blast
    next
      case False
      then obtain dv where dv: "gs s v = Some dv" "dv \<le> d + step u v" using ainvD(11) [OF inv u d(1) move.hyps(2)] d(2) by auto
      show ?thesis using ainvD(12) [OF inv v False dv(1)] dv(2) d(3) by (intro disjI2 bexI) simp_all
    qed
  next
    assume "\<exists>n\<in>set (pq_items (se_open s)). nd_f n \<le> c + h u"
    then obtain n where "n \<in> set (pq_items (se_open s))" "nd_f n \<le> c + h u" by blast
    then show ?thesis using cons by (intro disjI2 bexI [of _ n]) simp_all
  qed
qed

text \<open>The cell taken from the heap has its final distance.\<close>

lemma popped_optimal:
  assumes inv: "ainv a goal {} s" and pop: "Queue_Pop (se_open s) = Some (cur, rest)" and nc: "\<not> closed s (nd_p cur)"
  obtains d where "gs s (nd_p cur) = Some d" "walk nbrs step a (nd_p cur) d" "\<forall>c. walk nbrs step a (nd_p cur) c \<longrightarrow> d \<le> c"
proof -
  note p = nodes.pop_ok [OF ainvD(4) [OF inv] pop]
  have mem: "cur \<in> set (pq_items (se_open s))" using p by (metis set_mset_mset union_single_eq_member)
  obtain d where d: "valid (nd_p cur)" "nd_f cur = nd_g cur + h (nd_p cur)" "gs s (nd_p cur) = Some d" "d \<le> nd_g cur"
    using ainvD(13) [OF inv mem] by blast
  have "d \<le> c" if w: "walk nbrs step a (nd_p cur) c" for c
  proof -
    obtain n where n: "n \<in> set (pq_items (se_open s))" "nd_f n \<le> c + h (nd_p cur)" using frontier [OF inv w] nc by blast
    have "\<not> nd_f n < nd_f cur" using p n(1) by blast
    then show ?thesis using n(2) d(2,4) by simp
  qed
  then show thesis using that d ainvD(8) [OF inv d(1,3)] by blast
qed

lemma drop_edge:
  assumes "ainv a goal todo s" "closed s nb \<or> (\<exists>d dv. gs s cur = Some d \<and> gs s nb = Some dv \<and> dv \<le> d + step cur nb)"
  shows "ainv a goal (todo - {(cur, nb)}) s"
  using assms unfolding ainv_def by (elim conjE, intro conjI) blast+

text \<open>A shorter way to \<open>nb\<close> was found.\<close>

lemma relaxed:
  assumes inv: "ainv a goal todo s" and cur: "valid cur" "closed s cur" and nb: "nb \<in> set (nbrs cur)"
    and open': "\<not> closed s nb" and gc: "gs s cur = Some gc"
    and better: "\<And>gn. gs s nb = Some gn \<Longrightarrow> gc + step cur nb < gn"
    and q: "nodes.heap_inv q" "mset (pq_items q) = add_mset \<lparr>nd_p = nb, nd_g = gc + step cur nb, nd_f = gc + step cur nb + h nb\<rparr> (mset (pq_items (se_open s)))"
    and s': "s' = s\<lparr>se_gScore := (se_gScore s)[idx nb := Some (gc + step cur nb)], se_cameFrom := (se_cameFrom s)[idx nb := int (idx cur)], se_open := q\<rparr>"
  shows "ainv a goal (todo - {(cur, nb)}) s'"
proof -
  let ?t = "gc + step cur nb"
  let ?node = "\<lparr>nd_p = nb, nd_g = ?t, nd_f = ?t + h nb\<rparr>"
  have vn: "valid nb" using nbrs_valid [OF cur(1) nb] .
  have len: "idx nb < length (se_gScore s)" "idx nb < length (se_cameFrom s)" using ainvD(1,2) [OF inv] idx_lt [OF vn] by simp_all
  have G: "gs s' v = (if v = nb then Some ?t else gs s v)" if "valid v" for v
    using idx_inj [OF vn that] len s' by (auto simp: gs_def nth_list_update)
  have P: "se_cameFrom s' ! idx v = (if v = nb then int (idx cur) else se_cameFrom s ! idx v)" if "valid v" for v
    using idx_inj [OF vn that] len s' by (auto simp: nth_list_update)
  have C: "closed s' = closed s" using s' by (simp add: closed_def fun_eq_iff)
  have items: "set (pq_items (se_open s')) = insert ?node (set (pq_items (se_open s)))"
    using arg_cong [OF q(2), of set_mset] s' by simp
  have wt: "walk nbrs step a nb ?t" using walk.move [OF ainvD(8) [OF inv cur(1) gc] nb] .
  have pos: "0 < ?t" using walk_valid [OF ainvD(8) [OF inv cur(1) gc] ainvD(5) [OF inv]] step_pos [OF cur(1) nb] by simp
  have na: "nb \<noteq> a" using better [of 0] pos ainvD(6) [OF inv] by auto
  have closed_gs: "gs s' u = gs s u" if "valid u" "closed s u" for u using G [OF that(1)] that(2) open' by auto
  show ?thesis unfolding ainv_def C
  proof (intro conjI allI impI ballI)
    show "length (se_gScore s') = N" "length (se_cameFrom s') = N" "length (se_closed s') = N" using ainvD(1-3) [OF inv] s' by simp_all
    show "nodes.heap_inv (se_open s')" using q(1) s' by simp
    show "valid a" "valid goal" "\<not> closed s goal" using ainvD(5,7) [OF inv] by simp_all
    show "gs s' a = Some 0" using G [OF ainvD(5) [OF inv]] na ainvD(6) [OF inv] by simp
  next
    fix v d
    assume "valid v \<and> gs s' v = Some d"
    then show "walk nbrs step a v d" using G [of v] wt ainvD(8) [OF inv, of v d] by (auto split: if_splits)
  next
    fix v d
    assume v: "valid v \<and> gs s' v = Some d \<and> v \<noteq> a"
    show "\<exists>u du. valid u \<and> closed s u \<and> v \<in> set (nbrs u) \<and> gs s' u = Some du \<and> d = du + step u v \<and> se_cameFrom s' ! idx v = int (idx u)"
    proof (cases "v = nb")
      case True
      then show ?thesis using v cur nb gc closed_gs [OF cur] G [OF vn] P [OF vn] by (intro exI [of _ cur] exI [of _ gc]) auto
    next
      case False
      then obtain u du where u: "valid u" "closed s u" "v \<in> set (nbrs u)" "gs s u = Some du" "d = du + step u v" "se_cameFrom s ! idx v = int (idx u)"
        using ainvD(9) [OF inv, of v d] v G [of v] by auto
      then show ?thesis using closed_gs [OF u(1,2)] P [of v] v False by (intro exI [of _ u] exI [of _ du]) auto
    qed
  next
    fix v
    assume v: "valid v \<and> closed s v"
    then show "\<exists>d. gs s' v = Some d \<and> (\<forall>c. walk nbrs step a v c \<longrightarrow> d \<le> c)" using ainvD(10) [OF inv, of v] closed_gs [of v] by simp
  next
    fix u v
    assume u: "valid u \<and> closed s u \<and> v \<in> set (nbrs u)"
    show "(u, v) \<in> todo - {(cur, nb)} \<or> closed s v \<or> (\<exists>d dv. gs s' u = Some d \<and> gs s' v = Some dv \<and> dv \<le> d + step u v)"
    proof (cases "(u, v) = (cur, nb)")
      case True
      then show ?thesis using gc closed_gs [OF cur] G [OF vn] by simp
    next
      case False
      have vv: "valid v" using nbrs_valid u by blast
      from ainvD(11) [OF inv, of u v] u consider "(u, v) \<in> todo" | "closed s v"
        | d dv where "gs s u = Some d" "gs s v = Some dv" "dv \<le> d + step u v" by blast
      then show ?thesis
      proof cases
        case 3
        then show ?thesis using closed_gs [of u] G [OF vv] better [of dv] u by (cases "v = nb") auto
      qed (use False in auto)
    qed
  next
    fix v d
    assume v: "valid v \<and> \<not> closed s v \<and> gs s' v = Some d"
    then show "\<lparr>nd_p = v, nd_g = d, nd_f = d + h v\<rparr> \<in> set (pq_items (se_open s'))"
      using G [of v] ainvD(12) [OF inv, of v d] items by (cases "v = nb") auto
  next
    fix n
    assume n: "n \<in> set (pq_items (se_open s'))"
    show "valid (nd_p n)" "nd_f n = nd_g n + h (nd_p n)" using n ainvD(13) [OF inv, of n] vn unfolding items by auto
    show "\<exists>d. gs s' (nd_p n) = Some d \<and> d \<le> nd_g n"
    proof (cases "n = ?node")
      case False
      then obtain d where d: "valid (nd_p n)" "gs s (nd_p n) = Some d" "d \<le> nd_g n" using n ainvD(13) [OF inv, of n] unfolding items by auto
      then show ?thesis using G [OF d(1)] better [of d] by (cases "nd_p n = nb") auto
    qed (use G [OF vn] in simp)
  qed
qed

lemma relax_ok:
  assumes inv: "ainv a goal todo s" and cur: "valid cur" "closed s cur" and nb: "nb \<in> set (nbrs cur)"
  shows "ainv a goal (todo - {(cur, nb)}) (relax idx step h cur nb s) \<and> se_closed (relax idx step h cur nb s) = se_closed s
    \<and> length (pq_items (se_open (relax idx step h cur nb s))) \<le> Suc (length (pq_items (se_open s)))"
proof -
  let ?r = "relax idx step h cur nb s"
  obtain gc where gc: "gs s cur = Some gc" using ainvD(10) [OF inv cur] by blast
  let ?t = "gc + step cur nb"
  let ?node = "\<lparr>nd_p = nb, nd_g = ?t, nd_f = ?t + h nb\<rparr>"
  let ?better = "\<forall>gn. gs s nb = Some gn \<longrightarrow> ?t < gn"
  show ?thesis
  proof (cases "closed s nb \<or> \<not> ?better")
    case True
    then have r: "?r = s" using gc by (auto simp: relax_def Let_def gs_def closed_def)
    have "closed s nb \<or> (\<exists>d dv. gs s cur = Some d \<and> gs s nb = Some dv \<and> dv \<le> d + step cur nb)"
      using True gc by auto
    then show ?thesis using drop_edge [OF inv] r by simp
  next
    case False
    note push = nodes.push_ok [OF ainvD(4) [OF inv], of ?node]
    have r: "?r = s\<lparr>se_gScore := (se_gScore s)[idx nb := Some ?t], se_cameFrom := (se_cameFrom s)[idx nb := int (idx cur)],
        se_open := Queue_Push ?node (se_open s)\<rparr>"
      using False gc by (auto simp: relax_def Let_def gs_def closed_def split: option.splits)
    have "ainv a goal (todo - {(cur, nb)}) ?r"
      by (rule relaxed [OF inv cur nb _ gc _ conjunct1 [OF push] conjunct2 [OF push] r]) (use False in blast)+
    then show ?thesis using r arg_cong [OF conjunct2 [OF push], of size] by simp
  qed
qed

lemma relax_all:
  "ainv a goal todo s \<Longrightarrow> valid cur \<Longrightarrow> closed s cur \<Longrightarrow> set ns \<subseteq> set (nbrs cur) \<Longrightarrow>
    ainv a goal (todo - {cur} \<times> set ns) (fold (relax idx step h cur) ns s) \<and> se_closed (fold (relax idx step h cur) ns s) = se_closed s
    \<and> length (pq_items (se_open (fold (relax idx step h cur) ns s))) \<le> length ns + length (pq_items (se_open s))"
proof (induction ns arbitrary: s todo)
  case (Cons nb ns)
  let ?r = "relax idx step h cur nb s"
  have r: "ainv a goal (todo - {(cur, nb)}) ?r" "se_closed ?r = se_closed s" "length (pq_items (se_open ?r)) \<le> Suc (length (pq_items (se_open s)))"
    using relax_ok [OF Cons.prems(1-3), of nb] Cons.prems(4) by simp_all
  have eq: "todo - {(cur, nb)} - {cur} \<times> set ns = todo - {cur} \<times> set (nb # ns)" by auto
  have "closed ?r cur" using Cons.prems(3) r(2) by (simp add: closed_def)
  from Cons.IH [OF r(1) Cons.prems(2) this] Cons.prems(4) r(2,3) show ?case unfolding eq by simp
qed simp

text \<open>The entry taken from the heap is a stale copy or is closed now.\<close>

lemma close_ok:
  assumes inv: "ainv a goal {} s" and pop: "Queue_Pop (se_open s) = Some (cur, rest)" and ng: "nd_p cur \<noteq> goal"
    and s': "s' = s\<lparr>se_open := rest, se_closed := (se_closed s)[idx (nd_p cur) := True]\<rparr>"
  shows "ainv a goal (if closed s (nd_p cur) then {} else {nd_p cur} \<times> set (nbrs (nd_p cur))) s'"
    "valid (nd_p cur)" "closed s' (nd_p cur)" "length (pq_items (se_open s)) = Suc (length (pq_items rest))"
proof -
  let ?p = "nd_p cur"
  note p = nodes.pop_ok [OF ainvD(4) [OF inv] pop]
  have items: "set (pq_items (se_open s)) = insert cur (set (pq_items rest))"
    using arg_cong [OF conjunct1 [OF conjunct2 [OF p]], of set_mset] by simp
  show len: "length (pq_items (se_open s)) = Suc (length (pq_items rest))"
    using arg_cong [OF conjunct1 [OF conjunct2 [OF p]], of size] by simp
  show vp: "valid ?p" using ainvD(13) [OF inv, of cur] items by simp
  have C: "closed s' v \<longleftrightarrow> closed s v \<or> v = ?p" if "valid v" for v
    using idx_inj [OF vp that] idx_lt [OF vp] ainvD(3) [OF inv] s' by (auto simp: closed_def nth_list_update)
  show "closed s' ?p" using C [OF vp] by simp
  have G: "gs s' = gs s" using s' by (simp add: gs_def fun_eq_iff)
  have best: "\<exists>d. gs s v = Some d \<and> (\<forall>c. walk nbrs step a v c \<longrightarrow> d \<le> c)" if "valid v" "closed s' v" for v
  proof (cases "closed s v")
    case True
    then show ?thesis using ainvD(10) [OF inv that(1)] by blast
  next
    case False
    then have "\<not> closed s ?p" "v = ?p" using C [OF that(1)] that(2) by auto
    then show ?thesis using popped_optimal [OF inv pop] by metis
  qed
  show "ainv a goal (if closed s ?p then {} else {?p} \<times> set (nbrs ?p)) s'" unfolding ainv_def G
  proof (intro conjI allI impI ballI)
    show "length (se_gScore s') = N" "length (se_cameFrom s') = N" "length (se_closed s') = N" using ainvD(1-3) [OF inv] s' by simp_all
    show "nodes.heap_inv (se_open s')" using p s' by simp
    show "valid a" "gs s a = Some 0" using ainvD(5,6) [OF inv] .
    show "valid goal" "\<not> closed s' goal" using C [of goal] ainvD(7) [OF inv] ng by simp_all
  next
    fix v d
    assume "valid v \<and> gs s v = Some d"
    then show "walk nbrs step a v d" using ainvD(8) [OF inv, of v d] by simp
  next
    fix v d
    assume v: "valid v \<and> gs s v = Some d \<and> v \<noteq> a"
    then obtain u du where u: "valid u" "closed s u" "v \<in> set (nbrs u)" "gs s u = Some du" "d = du + step u v" "se_cameFrom s ! idx v = int (idx u)"
      using ainvD(9) [OF inv, of v d] by blast
    then show "\<exists>u du. valid u \<and> closed s' u \<and> v \<in> set (nbrs u) \<and> gs s u = Some du \<and> d = du + step u v \<and> se_cameFrom s' ! idx v = int (idx u)"
      using C [OF u(1)] s' by (intro exI [of _ u] exI [of _ du]) simp
  next
    fix v
    assume "valid v \<and> closed s' v"
    then show "\<exists>d. gs s v = Some d \<and> (\<forall>c. walk nbrs step a v c \<longrightarrow> d \<le> c)" using best by blast
  next
    fix u v
    assume u: "valid u \<and> closed s' u \<and> v \<in> set (nbrs u)"
    have vv: "valid v" using nbrs_valid u by blast
    show "(u, v) \<in> (if closed s ?p then {} else {?p} \<times> set (nbrs ?p)) \<or> closed s' v
        \<or> (\<exists>d dv. gs s u = Some d \<and> gs s v = Some dv \<and> dv \<le> d + step u v)"
    proof (cases "closed s u")
      case True
      then show ?thesis using ainvD(11) [OF inv, of u v] u C [OF vv] by blast
    next
      case False
      then have "u = ?p" using C [of u] u by simp
      then show ?thesis using False u by simp
    qed
  next
    fix v d
    assume v: "valid v \<and> \<not> closed s' v \<and> gs s v = Some d"
    then have "\<lparr>nd_p = v, nd_g = d, nd_f = d + h v\<rparr> \<in> insert cur (set (pq_items rest))" "v \<noteq> ?p"
      using C [of v] ainvD(12) [OF inv, of v d] items by simp_all
    then show "\<lparr>nd_p = v, nd_g = d, nd_f = d + h v\<rparr> \<in> set (pq_items (se_open s'))" using s' by auto
  next
    fix n
    assume "n \<in> set (pq_items (se_open s'))"
    then have "n \<in> set (pq_items (se_open s))" using items s' by simp
    then show "valid (nd_p n)" "nd_f n = nd_g n + h (nd_p n)" "\<exists>d. gs s (nd_p n) = Some d \<and> d \<le> nd_g n" using ainvD(13) [OF inv] by simp_all
  qed
qed

text \<open>The loop ends: a stale copy is taken from the heap, or a cell is closed and at most \<open>K\<close> entries are added.\<close>

definition fuel :: "'p search \<Rightarrow> nat" where
  "fuel s = length (pq_items (se_open s)) + Suc K * length (filter Not (se_closed s))"

lemma loop_step:
  assumes inv: "ainv a goal {} s" and pop: "Queue_Pop (se_open s) = Some (cur, rest)" and ng: "nd_p cur \<noteq> goal"
    and s': "s' = (if closed s (nd_p cur) then s\<lparr>se_open := rest\<rparr> else expand idx nbrs step h (nd_p cur) (s\<lparr>se_open := rest\<rparr>))"
  shows "ainv a goal {} s' \<and> fuel s' < fuel s"
proof -
  let ?p = "nd_p cur"
  let ?c = "s\<lparr>se_open := rest, se_closed := (se_closed s)[idx ?p := True]\<rparr>"
  note c = close_ok [OF inv pop ng refl]
  show ?thesis
  proof (cases "closed s ?p")
    case True
    then have "(se_closed s)[idx ?p := True] = se_closed s" by (metis closed_def list_update_id)
    then have "?c = s'" using s' True by simp
    then show ?thesis using c True s' by (simp add: fuel_def)
  next
    case False
    have r: "s' = fold (relax idx step h ?p) (nbrs ?p) ?c" using s' False by (simp add: expand_def)
    note f = relax_all [OF c(1-3) subset_refl]
    have lt: "idx ?p < length (se_closed s)" using idx_lt [OF c(2)] ainvD(3) [OF inv] by simp
    have cnt: "length (filter Not (se_closed s)) = Suc (length (filter Not ((se_closed s)[idx ?p := True])))"
      using False lt by (intro filter_Not_update) (simp_all add: closed_def)
    have "ainv a goal {} s'" using f False r by simp
    moreover have "fuel s' < fuel s" using f nbrs_few [of ?p] c(4) cnt r by (simp add: fuel_def)
    ultimately show ?thesis ..
  qed
qed

lemma loop_ok:
  "ainv a goal {} s \<Longrightarrow> \<exists>found s'. astar_loop idx nbrs step h goal s = Some (found, s')
     \<and> (if found then \<exists>t d. ainv a goal {} t \<and> gs t goal = Some d \<and> (\<forall>c. walk nbrs step a goal c \<longrightarrow> d \<le> c) \<and> se_cameFrom s' = se_cameFrom t
        else \<forall>c. \<not> walk nbrs step a goal c)"
proof (induction "fuel s" arbitrary: s rule: less_induct)
  case less
  note inv = less.prems
  show ?case
  proof (cases "Queue_Pop (se_open s)")
    case None
    then have "\<not> walk nbrs step a goal c" for c using frontier [OF inv, of goal c] ainvD(7) [OF inv] by (auto simp: nodes.pop_none)
    then show ?thesis using None by (subst astar_loop.simps) (auto intro: exI [of _ False])
  next
    case (Some x)
    obtain cur rest where pop: "Queue_Pop (se_open s) = Some (cur, rest)" using Some by (cases x) simp
    show ?thesis
    proof (cases "nd_p cur = goal")
      case True
      then obtain d where "gs s goal = Some d" "\<forall>c. walk nbrs step a goal c \<longrightarrow> d \<le> c"
        using popped_optimal [OF inv pop] ainvD(7) [OF inv] by metis
      then show ?thesis using inv pop True by (subst astar_loop.simps) (auto intro!: exI [of _ s])
    next
      case False
      define s' where "s' = (if closed s (nd_p cur) then s\<lparr>se_open := rest\<rparr> else expand idx nbrs step h (nd_p cur) (s\<lparr>se_open := rest\<rparr>))"
      have st: "ainv a goal {} s'" "fuel s' < fuel s" using loop_step [OF inv pop False s'_def] by simp_all
      have "astar_loop idx nbrs step h goal s = astar_loop idx nbrs step h goal s'"
        using pop False by (subst astar_loop.simps) (simp add: s'_def closed_def)
      then show ?thesis using less.hyps [OF st(2,1)] by simp
    qed
  qed
qed

text \<open>The chain of predecessors leads back to the start, because the distance falls with every link.\<close>

lemma recon_ok:
  assumes inv: "ainv a goal todo s" and point: "\<And>p. valid p \<Longrightarrow> point (idx p) = p"
  shows "valid v \<Longrightarrow> gs s v = Some d \<Longrightarrow> \<exists>ps. recon_loop point (se_cameFrom s) (int (idx a)) (int (idx v)) rv = Some (rv @ rev ps)
     \<and> is_path nbrs ps \<and> hd ps = a \<and> last ps = v \<and> path_cost step ps = d"
proof (induction "card {i. i < N \<and> (\<exists>e. se_gScore s ! i = Some e \<and> e < d)}" arbitrary: v d rv rule: less_induct)
  case less
  show ?case
  proof (cases "v = a")
    case True
    then have "d = 0" using less.prems ainvD(6) [OF inv] by simp
    then show ?thesis using True point [OF less.prems(1)] by (subst recon_loop.simps) (auto intro!: exI [of _ "[a]"])
  next
    case False
    then obtain u du where u: "valid u" "v \<in> set (nbrs u)" "gs s u = Some du" "d = du + step u v" "se_cameFrom s ! idx v = int (idx u)"
      using ainvD(9) [OF inv less.prems False] by blast
    have du: "du < d" using step_pos [OF u(1,2)] u(4) by simp
    have "{i. i < N \<and> (\<exists>e. se_gScore s ! i = Some e \<and> e < du)} \<subset> {i. i < N \<and> (\<exists>e. se_gScore s ! i = Some e \<and> e < d)}"
      (is "?A \<subset> ?B")
    proof
      show "?A \<subseteq> ?B" using du by force
      have "idx u \<in> ?B" "idx u \<notin> ?A" using idx_lt [OF u(1)] u(3) du by (simp_all add: gs_def)
      then show "?A \<noteq> ?B" by (rule set_neq)
    qed
    then have "card ?A < card ?B" by (intro psubset_card_mono) simp_all
    from less.hyps [OF this u(1,3), of "rv @ [v]"] obtain ps where
      ps: "recon_loop point (se_cameFrom s) (int (idx a)) (int (idx u)) (rv @ [v]) = Some ((rv @ [v]) @ rev ps)"
        "is_path nbrs ps" "hd ps = a" "last ps = u" "path_cost step ps = du" by blast
    obtain qs where qs: "ps = qs @ [u]" using ps(2,4) by (cases ps rule: rev_cases) auto
    have ne: "int (idx v) \<noteq> int (idx a)" using False idx_inj [OF less.prems(1) ainvD(5) [OF inv]] by auto
    have "recon_loop point (se_cameFrom s) (int (idx a)) (int (idx v)) rv = Some (rv @ rev (ps @ [v]))"
      using ne ps(1) u(5) point [OF less.prems(1)] by (subst recon_loop.simps) simp
    moreover have "is_path nbrs (ps @ [v]) \<and> path_cost step (ps @ [v]) = d" using path_snoc [of nbrs qs u v step] ps u(2,4) qs by simp
    moreover have "hd (ps @ [v]) = a" using ps(3) qs by (cases qs) simp_all
    ultimately show ?thesis by (intro exI [of _ "ps @ [v]"]) simp
  qed
qed

lemma start_ok:
  assumes "valid a" "valid goal"
  shows "ainv a goal {} (search_start N idx h a)"
proof -
  let ?s = "search_start N idx h a"
  have G: "gs ?s v = (if v = a then Some 0 else None)" if "valid v" for v
    using idx_inj [OF assms(1) that] idx_lt [OF assms(1)] idx_lt [OF that] by (auto simp: gs_def search_start_def nth_list_update)
  have C: "\<not> closed ?s v" if "valid v" for v using idx_lt [OF that] by (simp add: closed_def search_start_def)
  have H: "nodes.heap_inv (se_open ?s)" by (auto simp: search_start_def nodes.heap_inv_def pq_heap_def)
  show ?thesis unfolding ainv_def using assms G C H walk.stay [of nbrs step a] by (auto simp: search_start_def split: if_splits)
qed

text \<open>What the search returns, from the start to the path.\<close>

theorem search_ok:
  assumes "valid a" "valid goal" and point: "\<And>p. valid p \<Longrightarrow> point (idx p) = p"
    and s: "astar_loop idx nbrs step h goal (search_start N idx h a) = r"
  shows "case r of None \<Rightarrow> False
     | Some (True, s') \<Rightarrow> \<exists>ps. reconstruct point (se_cameFrom s') (idx goal) (idx a) = Some ps
          \<and> is_path nbrs ps \<and> hd ps = a \<and> last ps = goal \<and> (\<forall>c. walk nbrs step a goal c \<longrightarrow> path_cost step ps \<le> c)
     | Some (False, s') \<Rightarrow> \<forall>c. \<not> walk nbrs step a goal c"
proof -
  obtain found s' where r: "r = Some (found, s')" and res:
    "if found then \<exists>t d. ainv a goal {} t \<and> gs t goal = Some d \<and> (\<forall>c. walk nbrs step a goal c \<longrightarrow> d \<le> c) \<and> se_cameFrom s' = se_cameFrom t
     else \<forall>c. \<not> walk nbrs step a goal c"
    using loop_ok [OF start_ok [OF assms(1,2)]] s by auto
  show ?thesis
  proof (cases found)
    case True
    then obtain t d where t: "ainv a goal {} t" "gs t goal = Some d" "\<forall>c. walk nbrs step a goal c \<longrightarrow> d \<le> c" "se_cameFrom s' = se_cameFrom t"
      using res by auto
    obtain ps where "recon_loop point (se_cameFrom t) (int (idx a)) (int (idx goal)) [] = Some ([] @ rev ps)"
      "is_path nbrs ps" "hd ps = a" "last ps = goal" "path_cost step ps = d"
      using recon_ok [OF t(1) point assms(2) t(2)] by blast
    then show ?thesis using True r t(3,4) by (auto simp: reconstruct_def)
  qed (use r res in simp)
qed

end

section \<open>The grid is such a search space\<close>

definition grid_wf :: "Grid \<Rightarrow> bool" where
  "grid_wf g \<longleftrightarrow> 0 \<le> gd_w g \<and> 0 \<le> gd_h g \<and> length (gd_blocked g) = nat (gd_w g * gd_h g) \<and> length (gd_cost g) = nat (gd_w g * gd_h g)
     \<and> (\<forall>c\<in>set (gd_cost g). 1 \<le> c)"

lemma grid_wf_NewGrid: "grid_wf (NewGrid w h)"
  by (simp add: grid_wf_def NewGrid_def Let_def)

lemma grid_wf_SetBlocked: "grid_wf g \<Longrightarrow> grid_wf (SetBlocked p b g)"
  by (simp add: grid_wf_def SetBlocked_def)

lemma grid_wf_SetCost: "grid_wf g \<Longrightarrow> grid_wf (SetCost p c g)"
  using set_update_subset_insert [of "gd_cost g" "cell g p" "if c < 1 then 1 else c"]
  by (auto simp: grid_wf_def SetCost_def Let_def)

lemma cell_div: "InBounds g p \<Longrightarrow> int (cell g p) mod gd_w g = pt_X p \<and> int (cell g p) div gd_w g = pt_Y p"
proof -
  assume p: "InBounds g p"
  then have "0 \<le> pt_Y p * gd_w g" by (simp add: InBounds_def)
  then have "int (cell g p) = pt_Y p * gd_w g + pt_X p" using p by (simp add: cell_def InBounds_def)
  then show ?thesis using p by (simp add: InBounds_def)
qed

lemma cell_point: "InBounds g p \<Longrightarrow> pt (int (cell g p) mod gd_w g) (int (cell g p) div gd_w g) = p"
  using cell_div [of g p] by (simp add: pt_def)

lemma cell_lt: "InBounds g p \<Longrightarrow> cell g p < nat (gd_w g * gd_h g)"
proof -
  assume p: "InBounds g p"
  then have "(pt_Y p + 1) * gd_w g \<le> gd_h g * gd_w g" by (intro mult_right_mono) (simp_all add: InBounds_def)
  moreover have "0 \<le> pt_Y p * gd_w g" using p by (simp add: InBounds_def)
  ultimately have "pt_Y p * gd_w g + pt_X p < gd_w g * gd_h g" "0 \<le> pt_Y p * gd_w g + pt_X p"
    using p by (simp_all add: InBounds_def algebra_simps)
  then show ?thesis by (simp add: cell_def)
qed

lemma IsBlocked_InBounds: "\<not> IsBlocked g p \<Longrightarrow> InBounds g p"
  by (simp add: IsBlocked_def split: if_splits)

lemma neighbors_set:
  "set (neighbors g cfg p) \<subseteq> {q. \<not> IsBlocked g q
     \<and> (\<exists>d\<in>set (ortho @ (if pc_allowDiagonal cfg then diag else [])). q = pt (pt_X p + pt_X d) (pt_Y p + pt_Y d))}"
  unfolding neighbors_def Let_def by auto

lemma neighborsD:
  assumes "q \<in> set (neighbors g cfg p)"
  shows "\<not> IsBlocked g q"
    "(\<bar>pt_X q - pt_X p\<bar> = 1 \<and> pt_Y q = pt_Y p) \<or> (pt_X q = pt_X p \<and> \<bar>pt_Y q - pt_Y p\<bar> = 1)
     \<or> (pc_allowDiagonal cfg \<and> \<bar>pt_X q - pt_X p\<bar> = 1 \<and> \<bar>pt_Y q - pt_Y p\<bar> = 1)"
proof -
  obtain d where d: "\<not> IsBlocked g q" "d \<in> set (ortho @ (if pc_allowDiagonal cfg then diag else []))"
    "q = pt (pt_X p + pt_X d) (pt_Y p + pt_Y d)" using neighbors_set assms by blast
  show "\<not> IsBlocked g q" using d(1) .
  have "pt_X q - pt_X p = pt_X d" "pt_Y q - pt_Y p = pt_Y d" "pt_X q = pt_X p \<longleftrightarrow> pt_X d = 0" "pt_Y q = pt_Y p \<longleftrightarrow> pt_Y d = 0"
    using d(3) by (simp_all add: pt_def)
  then show "(\<bar>pt_X q - pt_X p\<bar> = 1 \<and> pt_Y q = pt_Y p) \<or> (pt_X q = pt_X p \<and> \<bar>pt_Y q - pt_Y p\<bar> = 1)
     \<or> (pc_allowDiagonal cfg \<and> \<bar>pt_X q - pt_X p\<bar> = 1 \<and> \<bar>pt_Y q - pt_Y p\<bar> = 1)"
    using d(2) by (cases "pc_allowDiagonal cfg") (auto simp: ortho_def diag_def pt_def)
qed

lemma neighbors_few: "length (neighbors g cfg p) \<le> 8"
proof -
  have o: "length (filter P (map f ortho)) \<le> 4" for P and f :: "Point \<Rightarrow> Point"
    using length_filter_le [of P "map f ortho"] by (simp add: ortho_def)
  have d: "length (map f (filter P diag)) \<le> 4" for P and f :: "Point \<Rightarrow> Point"
    using length_filter_le [of P diag] by (simp add: diag_def)
  have "length (filter P (map f ortho) @ map f (filter Q diag)) \<le> 4 + 4" for P Q and f :: "Point \<Rightarrow> Point"
    unfolding length_append by (rule add_mono [OF o d])
  then show ?thesis unfolding neighbors_def Let_def using o by (simp add: le_trans [of _ 4 8])
qed

lemma costAt_ge: "grid_wf g \<Longrightarrow> InBounds g p \<Longrightarrow> 1 \<le> costAt g p"
  using cell_lt [of g p] by (auto simp: grid_wf_def costAt_def)

text \<open>A step costs at least 1, a diagonal one at least \<open>sqrt2\<close>.\<close>

lemma step_cost_ge:
  assumes "grid_wf g" "InBounds g q" "1 \<le> sqrt2"
  shows "(if pt_X q \<noteq> pt_X p \<and> pt_Y q \<noteq> pt_Y p then sqrt2 else 1) \<le> step_cost sqrt2 g p q"
proof -
  have c: "(1 :: rat) \<le> of_int (costAt g q)" using costAt_ge [OF assms(1,2)] by simp
  have "1 * sqrt2 \<le> of_int (costAt g q) * sqrt2" using c assms(3) by (intro mult_right_mono) simp_all
  then show ?thesis using c by (simp add: step_cost_def Let_def)
qed

lemma octile_diff:
  fixes k :: rat
  assumes "0 \<le> k" "k \<le> 1"
  shows "D \<le> 1 \<and> 0 \<le> M \<or> D \<le> 0 \<and> -1 \<le> M \<Longrightarrow> of_int D - k * of_int M \<le> 1"
    "D \<le> 2 \<and> 1 \<le> M \<or> D \<le> 0 \<and> -1 \<le> M \<Longrightarrow> of_int D - k * of_int M \<le> 2 - k"
proof -
  have m: "k * of_int a \<le> k * of_int b" if "a \<le> b" for a b using assms(1) that by (intro mult_left_mono) simp_all
  show "of_int D - k * of_int M \<le> 1" if "D \<le> 1 \<and> 0 \<le> M \<or> D \<le> 0 \<and> -1 \<le> M"
    using that
  proof
    assume "D \<le> 1 \<and> 0 \<le> M"
    then have "of_int D \<le> (1 :: rat)" "0 \<le> k * of_int M" using m [of 0 M] by simp_all
    then show ?thesis by linarith
  next
    assume "D \<le> 0 \<and> -1 \<le> M"
    then have "of_int D \<le> (0 :: rat)" "- k \<le> k * of_int M" using m [of "-1" M] by simp_all
    then show ?thesis using assms(2) by linarith
  qed
  show "of_int D - k * of_int M \<le> 2 - k" if "D \<le> 2 \<and> 1 \<le> M \<or> D \<le> 0 \<and> -1 \<le> M"
    using that
  proof
    assume "D \<le> 2 \<and> 1 \<le> M"
    then have "of_int D \<le> (of_int 2 :: rat)" "k \<le> k * of_int M" using m [of 1 M] by (simp_all only: of_int_le_iff) simp_all
    then show ?thesis by simp
  next
    assume "D \<le> 0 \<and> -1 \<le> M"
    then have "of_int D \<le> (0 :: rat)" "- k \<le> k * of_int M" using m [of "-1" M] by simp_all
    then show ?thesis using assms(2) by linarith
  qed
qed

lemma abs_moved: "\<bar>x' - x\<bar> = (1 :: int) \<Longrightarrow> \<bar>x' - t\<bar> = \<bar>x - t\<bar> + 1 \<or> \<bar>x' - t\<bar> = \<bar>x - t\<bar> - 1"
  by linarith

lemma moved_both:
  fixes a b :: int
  assumes "a' = a + 1 \<or> a' = a - 1" "b' = b + 1 \<or> b' = b - 1"
  shows "a + b - (a' + b') \<le> 2 \<and> 1 \<le> min a b - min a' b' \<or> a + b - (a' + b') \<le> 0 \<and> -1 \<le> min a b - min a' b'"
  using assms by (elim disjE) (simp_all add: min_def)

lemma moved_one:
  fixes a b :: int
  shows "a' = a + 1 \<or> a' = a - 1 \<Longrightarrow> a + b - (a' + b) \<le> 1 \<and> 0 \<le> min a b - min a' b \<or> a + b - (a' + b) \<le> 0 \<and> -1 \<le> min a b - min a' b"
    and "a' = a + 1 \<or> a' = a - 1 \<Longrightarrow> b + a - (b + a') \<le> 1 \<and> 0 \<le> min b a - min b a' \<or> b + a - (b + a') \<le> 0 \<and> -1 \<le> min b a - min b a'"
  by (elim disjE, simp_all add: min_def)+

lemma diff_le: "A - B = E \<Longrightarrow> E \<le> c \<Longrightarrow> c \<le> s \<Longrightarrow> A \<le> s + (B :: rat)"
  by linarith

text \<open>The estimate falls by no more than a step costs.\<close>

lemma heuristic_consistent:
  assumes "1 \<le> sqrt2" "sqrt2 \<le> 2" "grid_wf g" and q: "q \<in> set (neighbors g cfg p)"
  shows "path_heuristic sqrt2 p to (pc_allowDiagonal cfg) \<le> step_cost sqrt2 g p q + path_heuristic sqrt2 q to (pc_allowDiagonal cfg)"
proof -
  let ?a = "\<bar>pt_X p - pt_X to\<bar>" and ?b = "\<bar>pt_Y p - pt_Y to\<bar>" and ?a' = "\<bar>pt_X q - pt_X to\<bar>" and ?b' = "\<bar>pt_Y q - pt_Y to\<bar>"
  let ?D = "?a + ?b - (?a' + ?b')" and ?M = "min ?a ?b - min ?a' ?b'"
  note n = neighborsD [OF q]
  note ge = step_cost_ge [OF assms(3) IsBlocked_InBounds [OF n(1)] assms(1), of p]
  define k where "k = (if pc_allowDiagonal cfg then 2 - sqrt2 else 0)"
  have k: "0 \<le> k" "k \<le> 1" using assms(1,2) by (simp_all add: k_def)
  have h: "path_heuristic sqrt2 x to (pc_allowDiagonal cfg) =
      of_int (\<bar>pt_X x - pt_X to\<bar> + \<bar>pt_Y x - pt_Y to\<bar>) - k * of_int (min \<bar>pt_X x - pt_X to\<bar> \<bar>pt_Y x - pt_Y to\<bar>)" for x
    by (simp add: path_heuristic_def k_def Let_def of_int_min algebra_simps)
  have diff: "path_heuristic sqrt2 p to (pc_allowDiagonal cfg) - path_heuristic sqrt2 q to (pc_allowDiagonal cfg) = of_int ?D - k * of_int ?M"
    unfolding h by (simp add: algebra_simps)
  show ?thesis
  proof (cases "pt_X q \<noteq> pt_X p \<and> pt_Y q \<noteq> pt_Y p")
    case True
    then have d: "pc_allowDiagonal cfg" "\<bar>pt_X q - pt_X p\<bar> = 1" "\<bar>pt_Y q - pt_Y p\<bar> = 1" using n(2) by auto
    have "?D \<le> 2 \<and> 1 \<le> ?M \<or> ?D \<le> 0 \<and> -1 \<le> ?M" by (rule moved_both [OF abs_moved [OF d(2)] abs_moved [OF d(3)]])
    then have "of_int ?D - k * of_int ?M \<le> 2 - k" by (rule octile_diff(2) [OF k])
    then show ?thesis by (rule diff_le [OF diff]) (use ge True d(1) in \<open>simp add: k_def\<close>)
  next
    case False
    then have "\<bar>pt_X q - pt_X p\<bar> = 1 \<and> pt_Y q = pt_Y p \<or> pt_X q = pt_X p \<and> \<bar>pt_Y q - pt_Y p\<bar> = 1" using n(2) by auto
    then have "?D \<le> 1 \<and> 0 \<le> ?M \<or> ?D \<le> 0 \<and> -1 \<le> ?M"
      using moved_one(1) [of ?a' ?a ?b] moved_one(2) [of ?b' ?b ?a] abs_moved [of "pt_X q" "pt_X p" "pt_X to"] abs_moved [of "pt_Y q" "pt_Y p" "pt_Y to"] by metis
    then have "of_int ?D - k * of_int ?M \<le> 1" by (rule octile_diff(1) [OF k])
    then show ?thesis by (rule diff_le [OF diff]) (use ge False in \<open>simp only: if_False\<close>)
  qed
qed

definition sane :: "rat \<Rightarrow> Grid \<Rightarrow> Point \<Rightarrow> bool" where
  "sane sqrt2 g p \<longleftrightarrow> 1 \<le> sqrt2 \<and> sqrt2 \<le> 2 \<and> grid_wf g \<and> InBounds g p"

interpretation grid: astar "nat (gd_w g * gd_h g)" 8 "cell g" "sane sqrt2 g" "neighbors g cfg" "step_cost sqrt2 g"
  "\<lambda>p. path_heuristic sqrt2 p to (pc_allowDiagonal cfg)" for g sqrt2 cfg to
proof
  fix p q
  show "sane sqrt2 g p \<Longrightarrow> cell g p < nat (gd_w g * gd_h g)" by (simp add: sane_def cell_lt)
  show "sane sqrt2 g p \<Longrightarrow> sane sqrt2 g q \<Longrightarrow> cell g p = cell g q \<Longrightarrow> p = q" by (metis sane_def cell_point)
  show "length (neighbors g cfg p) \<le> 8" by (rule neighbors_few)
  assume p: "sane sqrt2 g p" and q: "q \<in> set (neighbors g cfg p)"
  then show v: "sane sqrt2 g q" using IsBlocked_InBounds [OF neighborsD(1) [OF q]] by (simp add: sane_def)
  show "0 < step_cost sqrt2 g p q" using step_cost_ge [of g q sqrt2 p] v by (auto simp: sane_def split: if_splits)
  show "path_heuristic sqrt2 p to (pc_allowDiagonal cfg) \<le> step_cost sqrt2 g p q + path_heuristic sqrt2 q to (pc_allowDiagonal cfg)"
    using heuristic_consistent [OF _ _ _ q] p by (simp add: sane_def)
qed

text \<open>A route between free cells, and what \<open>FindPath\<close> is to return.\<close>

definition route :: "Grid \<Rightarrow> path_config \<Rightarrow> Point \<Rightarrow> Point \<Rightarrow> Point list \<Rightarrow> bool" where
  "route g cfg from to ps \<longleftrightarrow> \<not> IsBlocked g from \<and> is_path (neighbors g cfg) ps \<and> hd ps = from \<and> last ps = to"

lemma route_end: "route g cfg from to ps \<Longrightarrow> \<not> IsBlocked g to"
proof -
  assume r: "route g cfg from to ps"
  have "is_path (neighbors g cfg) ps \<Longrightarrow> \<not> IsBlocked g (hd ps) \<Longrightarrow> \<not> IsBlocked g (last ps)"
    by (induction "neighbors g cfg" ps rule: is_path.induct) (auto dest: neighborsD(1))
  then show ?thesis using r by (simp add: route_def)
qed

lemma route_walk: "route g cfg from to ps \<Longrightarrow> walk (neighbors g cfg) step from to (path_cost step ps)"
  using path_walk [of "neighbors g cfg" ps step] by (simp add: route_def)

lemma walk_path: "walk nbrs step a v c \<Longrightarrow> \<exists>ps. is_path nbrs ps \<and> hd ps = a \<and> last ps = v \<and> path_cost step ps = c"
proof (induction rule: walk.induct)
  case stay
  show ?case by (intro exI [of _ "[a]"]) simp
next
  case (move u c v)
  then obtain ps where ps: "is_path nbrs ps" "hd ps = a" "last ps = u" "path_cost step ps = c" by blast
  obtain qs where qs: "ps = qs @ [u]" using ps(1,3) by (cases ps rule: rev_cases) auto
  show ?case using path_snoc [of nbrs qs u v step] ps move.hyps(2) qs by (intro exI [of _ "ps @ [v]"]) (cases qs; simp)
qed


definition wall_grid :: Grid where
  "wall_grid = SetCost (pt 2 1) 4 (SetBlocked (pt 1 1) True (SetBlocked (pt 1 0) True (NewGrid 3 3)))"

lemma wall_grid_wf: "grid_wf wall_grid"
  by (simp add: wall_grid_def grid_wf_NewGrid grid_wf_SetBlocked grid_wf_SetCost)


text \<open>The package comment forbids a diagonal move between two obstacles; one obstacle is enough to forbid it, and with
  \<open>WithCutCorner\<close> two do not.\<close>

lemma cut_corner_rule:
  "neighbors (SetBlocked (pt 1 0) True (NewGrid 2 2)) \<lparr>pc_allowDiagonal = True, pc_allowCutCorner = False\<rparr> (pt 0 0) = [pt 0 1]"
  "neighbors (SetBlocked (pt 0 1) True (SetBlocked (pt 1 0) True (NewGrid 2 2))) \<lparr>pc_allowDiagonal = True, pc_allowCutCorner = True\<rparr> (pt 0 0) = [pt 1 1]"
  by code_simp+

end
