(* ===== verification/Loot.thy ===== *)
theory Loot
  imports Complex_Main Prelude
begin

text \<open>
  \<open>pkg/game/loot\<close>: weighted draws with the alias tables of Vose, draws without replacement, and the pity counter. Weights and
  probabilities are floats in the code and rationals here, so rounding is left out. The random source is an argument (the
  record \<open>rng\<close> with its state); \<open>rng_ok\<close> states what \<open>math/rand\<close> documents of it.
\<close>

section \<open>The table\<close>

record 'a Item =
  it_Value :: 'a
  it_Weight :: rat
  it_Rarity :: int

record 'a Table =
  tb_items :: "'a Item list"
  tb_prob :: "rat list"
  tb_alias :: "nat list"
  tb_totalW :: rat

datatype loot_error = ErrEmptyTable

text \<open>The loop over the two stacks; a slice is a list, its last element the top.\<close>

function vose :: "rat list \<Rightarrow> nat list \<Rightarrow> nat list \<Rightarrow> rat list \<Rightarrow> nat list \<Rightarrow> rat list \<times> nat list \<times> nat list \<times> nat list" where
  "vose scaled small large prob alias =
     (if small = [] \<or> large = [] then (prob, alias, small, large)
      else
        let s = last small; small = butlast small; l = last large; large = butlast large;
            prob = prob[s := scaled ! s]; alias = alias[s := l];
            scaled = scaled[l := scaled ! l + scaled ! s - 1]
        in if scaled ! l < 1 then vose scaled (small @ [l]) large prob alias
           else vose scaled small (large @ [l]) prob alias)"
  by pat_completeness auto
termination by (relation "measure (\<lambda>(_, small, large, _). length small + length large)") auto

declare vose.simps [simp del]

definition set_ones :: "nat list \<Rightarrow> rat list \<Rightarrow> rat list" where
  "set_ones js prob = fold (\<lambda>i p. p[i := 1]) js prob"

definition scaled_weights :: "'a Table \<Rightarrow> rat list" where
  "scaled_weights t = map (\<lambda>it. it_Weight it / tb_totalW t * of_nat (length (tb_items t))) (tb_items t)"

definition buildAlias :: "'a Table \<Rightarrow> 'a Table" where
  "buildAlias t =
     (let n = length (tb_items t); scaled = scaled_weights t;
          small = filter (\<lambda>i. scaled ! i < 1) [0..<n]; large = filter (\<lambda>i. \<not> scaled ! i < 1) [0..<n]
      in case vose scaled small large (replicate n 0) (replicate n 0) of
           (prob, alias, small, large) \<Rightarrow> t\<lparr>tb_prob := set_ones small (set_ones large prob), tb_alias := alias\<rparr>)"

definition NewTable :: "'a Item list \<Rightarrow> loot_error + 'a Table" where
  "NewTable items =
     (let its = filter (\<lambda>it. 0 < it_Weight it) items;
          t = \<lparr>tb_items = its, tb_prob = [], tb_alias = [], tb_totalW = sum_list (map it_Weight its)\<rparr>
      in if length its = 0 then Inl ErrEmptyTable else Inr (buildAlias t))"

section \<open>Draws\<close>

record 's rng =
  rg_IntN :: "nat \<Rightarrow> 's \<Rightarrow> nat \<times> 's"
  rg_Float64 :: "'s \<Rightarrow> rat \<times> 's"

definition rng_ok :: "'s rng \<Rightarrow> bool" where
  "rng_ok r \<longleftrightarrow> (\<forall>n s. 0 < n \<longrightarrow> fst (rg_IntN r n s) < n) \<and> (\<forall>s. 0 \<le> fst (rg_Float64 r s) \<and> fst (rg_Float64 r s) < 1)"

definition alias_pick :: "'a Table \<Rightarrow> nat \<Rightarrow> rat \<Rightarrow> nat" where
  "alias_pick t col u = (if u < tb_prob t ! col then col else tb_alias t ! col)"

definition drawIndex :: "'s rng \<Rightarrow> 'a Table \<Rightarrow> 's \<Rightarrow> nat \<times> 's" where
  "drawIndex r t s =
     (let n = length (tb_items t)
      in case rg_IntN r n s of (col, s) \<Rightarrow> (case rg_Float64 r s of (u, s) \<Rightarrow> (alias_pick t col u, s)))"

definition DrawItem :: "'s rng \<Rightarrow> 'a Table \<Rightarrow> 's \<Rightarrow> 'a Item \<times> 's" where
  "DrawItem r t s = (case drawIndex r t s of (i, s) \<Rightarrow> (tb_items t ! i, s))"

definition Table_Draw :: "'s rng \<Rightarrow> 'a Table \<Rightarrow> 's \<Rightarrow> 'a \<times> 's" where
  "Table_Draw r t s = (case drawIndex r t s of (i, s) \<Rightarrow> (it_Value (tb_items t ! i), s))"

fun draw_times :: "('s \<Rightarrow> 'b \<times> 's) \<Rightarrow> nat \<Rightarrow> 's \<Rightarrow> 'b list \<times> 's" where
  "draw_times f 0 s = ([], s)"
| "draw_times f (Suc n) s = (case f s of (x, s) \<Rightarrow> (case draw_times f n s of (xs, s) \<Rightarrow> (x # xs, s)))"

definition Table_DrawN :: "'s rng \<Rightarrow> 'a Table \<Rightarrow> int \<Rightarrow> 's \<Rightarrow> 'a list \<times> 's" where
  "Table_DrawN r t n s = (if n \<le> 0 then ([], s) else draw_times (Table_Draw r t) (nat n) s)"

text \<open>The scan for the weight that contains \<open>r\<close>, and the scan from the back that replaces it when rounding made it miss.\<close>

fun scan_pick :: "rat list \<Rightarrow> rat \<Rightarrow> nat list \<Rightarrow> rat \<Rightarrow> nat option" where
  "scan_pick remaining r [] acc = None"
| "scan_pick remaining r (i # js) acc =
     (if remaining ! i \<le> 0 then scan_pick remaining r js acc
      else let acc = acc + remaining ! i in if r < acc then Some i else scan_pick remaining r js acc)"

definition last_pick :: "rat list \<Rightarrow> nat list \<Rightarrow> nat option" where
  "last_pick remaining js = List.find (\<lambda>i. 0 < remaining ! i) (rev js)"

fun distinct_loop :: "'s rng \<Rightarrow> nat \<Rightarrow> nat \<Rightarrow> rat list \<Rightarrow> rat \<Rightarrow> 's \<Rightarrow> nat list \<times> 's" where
  "distinct_loop rg m 0 remaining tw s = ([], s)"
| "distinct_loop rg m (Suc k) remaining tw s =
     (case rg_Float64 rg s of (u, s) \<Rightarrow>
        let r = u * tw;
            pick = (case scan_pick remaining r [0..<m] 0 of Some i \<Rightarrow> Some i | None \<Rightarrow> last_pick remaining [0..<m])
        in case pick of None \<Rightarrow> ([], s)
           | Some i \<Rightarrow> (case distinct_loop rg m k (remaining[i := 0]) (tw - remaining ! i) s of (js, s) \<Rightarrow> (i # js, s)))"

definition DrawDistinct :: "'s rng \<Rightarrow> 'a Table \<Rightarrow> int \<Rightarrow> 's \<Rightarrow> 'a list \<times> 's" where
  "DrawDistinct rg t n s =
     (if n \<le> 0 then ([], s)
      else let m = length (tb_items t); n = min (nat n) m; remaining = map it_Weight (tb_items t)
           in case distinct_loop rg m n remaining (sum_list remaining) s of (js, s) \<Rightarrow> (map (\<lambda>i. it_Value (tb_items t ! i)) js, s))"

section \<open>The pity counter\<close>

record 'a Puller =
  pl_table :: "'a Table"
  pl_highTable :: "'a Table option"
  pl_pityLimit :: int
  pl_pityRare :: int
  pl_miss :: int

definition NewPuller :: "'a Table \<Rightarrow> int \<Rightarrow> int \<Rightarrow> 'a Puller" where
  "NewPuller t pityLimit pityRarity =
     (let p = \<lparr>pl_table = t, pl_highTable = None, pl_pityLimit = pityLimit, pl_pityRare = pityRarity, pl_miss = 0\<rparr>
      in if 0 < pityLimit
         then let high = filter (\<lambda>it. pityRarity \<le> it_Rarity it) (tb_items t)
              in if 0 < length high then p\<lparr>pl_highTable := (case NewTable high of Inl _ \<Rightarrow> None | Inr h \<Rightarrow> Some h)\<rparr> else p
         else p)"

definition Puller_Draw :: "'s rng \<Rightarrow> 'a Puller \<times> 's \<Rightarrow> ('a Item \<times> bool) \<times> 'a Puller \<times> 's" where
  "Puller_Draw r ps =
     (case ps of (p, s) \<Rightarrow>
       let normal = (case DrawItem r (pl_table p) s of (it, s) \<Rightarrow>
             if 0 < pl_pityLimit p \<and> pl_pityRare p \<le> it_Rarity it then ((it, False), p\<lparr>pl_miss := 0\<rparr>, s)
             else if 0 < pl_pityLimit p then ((it, False), p\<lparr>pl_miss := pl_miss p + 1\<rparr>, s)
             else ((it, False), p, s))
       in case pl_highTable p of
            None \<Rightarrow> normal
          | Some h \<Rightarrow>
              if 0 < pl_pityLimit p \<and> pl_pityLimit p \<le> pl_miss p
              then (case DrawItem r h s of (it, s) \<Rightarrow> ((it, True), p\<lparr>pl_miss := 0\<rparr>, s))
              else normal)"

definition Puller_DrawN :: "'s rng \<Rightarrow> int \<Rightarrow> 'a Puller \<times> 's \<Rightarrow> ('a Item \<times> bool) list \<times> 'a Puller \<times> 's" where
  "Puller_DrawN r n ps = (if n \<le> 0 then ([], ps) else draw_times (Puller_Draw r) (nat n) ps)"

definition Puller_Reset :: "'a Puller \<Rightarrow> 'a Puller" where
  "Puller_Reset p = p\<lparr>pl_miss := 0\<rparr>"

section \<open>The alias tables are exact\<close>

text \<open>\<open>B\<close> holds the buckets that are still on a stack. Their shares are in \<open>sc\<close>; a settled bucket \<open>j\<close> keeps \<open>pr j\<close> and gives the rest to \<open>al j\<close>.\<close>

definition given :: "nat \<Rightarrow> nat set \<Rightarrow> (nat \<Rightarrow> rat) \<Rightarrow> (nat \<Rightarrow> nat) \<Rightarrow> nat \<Rightarrow> rat" where
  "given n B pr al i = (\<Sum>j\<in>{j. j < n \<and> j \<notin> B \<and> al j = i}. 1 - pr j)"

definition balanced :: "nat \<Rightarrow> (nat \<Rightarrow> rat) \<Rightarrow> nat set \<Rightarrow> (nat \<Rightarrow> rat) \<Rightarrow> (nat \<Rightarrow> rat) \<Rightarrow> (nat \<Rightarrow> nat) \<Rightarrow> bool" where
  "balanced n W B sc pr al \<longleftrightarrow> B \<subseteq> {..<n} \<and> (\<Sum>i\<in>B. sc i) = of_nat (card B)
     \<and> (\<forall>j<n. j \<notin> B \<longrightarrow> 0 \<le> pr j \<and> pr j \<le> 1 \<and> al j < n)
     \<and> (\<forall>i<n. W i = (if i \<in> B then sc i else pr i) + given n B pr al i)"

lemma given_settle:
  assumes "s \<in> B" "s < n"
  shows "given n (B - {s}) (pr(s := x)) (al(s := l)) i = given n B pr al i + (if i = l then 1 - x else 0)"
proof -
  let ?S = "{j. j < n \<and> j \<notin> B \<and> al j = i}"
  have s: "s \<notin> ?S" using assms by simp
  have eq: "{j. j < n \<and> j \<notin> B - {s} \<and> (al(s := l)) j = i} = (if i = l then insert s ?S else ?S)" using assms by auto
  have fin: "finite ?S" by simp
  have cong: "(\<Sum>j\<in>?S. 1 - (pr(s := x)) j) = (\<Sum>j\<in>?S. 1 - pr j)" by (rule sum.cong) (use assms in auto)
  show ?thesis
  proof (cases "i = l")
    case True
    have "(\<Sum>j\<in>insert s ?S. 1 - (pr(s := x)) j) = (1 - (pr(s := x)) s) + (\<Sum>j\<in>?S. 1 - (pr(s := x)) j)" by (rule sum.insert [OF fin s])
    then show ?thesis unfolding given_def eq using True cong by simp
  qed (unfold given_def eq, use cong in simp)
qed

lemma balanced_settle:
  assumes b: "balanced n W B sc pr al" and s: "s \<in> B" "0 \<le> sc s" "sc s \<le> 1" and l: "l \<in> B" "l \<noteq> s"
  shows "balanced n W (B - {s}) (sc(l := sc l + sc s - 1)) (pr(s := sc s)) (al(s := l))"
proof -
  have B: "B \<subseteq> {..<n}" "(\<Sum>i\<in>B. sc i) = of_nat (card B)" "\<forall>j<n. j \<notin> B \<longrightarrow> 0 \<le> pr j \<and> pr j \<le> 1 \<and> al j < n"
    and W: "\<And>i. i < n \<Longrightarrow> W i = (if i \<in> B then sc i else pr i) + given n B pr al i"
    using b unfolding balanced_def by blast+
  have fin: "finite B" using B(1) finite_subset by blast
  have n: "s < n" "l < n" using B(1) s(1) l(1) by auto
  let ?sc = "sc(l := sc l + sc s - 1)"
  have "(\<Sum>i\<in>B - {s}. ?sc i) = ?sc l + (\<Sum>i\<in>B - {s} - {l}. ?sc i)" using fin l by (intro sum.remove) simp_all
  also have "(\<Sum>i\<in>B - {s} - {l}. ?sc i) = (\<Sum>i\<in>B - {s} - {l}. sc i)" by (rule sum.cong) simp_all
  also have "?sc l + (\<Sum>i\<in>B - {s} - {l}. sc i) = (\<Sum>i\<in>B - {s}. sc i) + sc s - 1" using sum.remove [of "B - {s}" l sc] fin l by simp
  also have "\<dots> = (\<Sum>i\<in>B. sc i) - 1" using sum.remove [OF fin s(1), of sc] by simp
  also have "\<dots> = of_nat (card (B - {s}))" using B(2) card.remove [OF fin s(1)] by simp
  finally have sum: "(\<Sum>i\<in>B - {s}. ?sc i) = of_nat (card (B - {s}))" .
  have "W i = (if i \<in> B - {s} then ?sc i else (pr(s := sc s)) i) + given n (B - {s}) (pr(s := sc s)) (al(s := l)) i" if "i < n" for i
    using W [OF that] given_settle [OF s(1) n(1), of pr "sc s" al l i] s(1) l by auto
  then show ?thesis unfolding balanced_def using sum B(1,3) s(2,3) n by auto
qed

text \<open>Nothing is left over: at the end the shares on the stack are all 1.\<close>

lemma balanced_ones:
  assumes b: "balanced n W B sc pr al" and B: "(\<forall>i\<in>B. 1 \<le> sc i) \<or> (\<forall>i\<in>B. sc i < 1)" and i: "i \<in> B"
  shows "sc i = 1"
proof -
  have fin: "finite B" and sum: "(\<Sum>i\<in>B. sc i) = (\<Sum>i\<in>B. 1)" using b finite_subset unfolding balanced_def by auto
  from B show ?thesis
  proof
    assume ge: "\<forall>i\<in>B. 1 \<le> sc i"
    have "(\<Sum>i\<in>B. sc i - 1) = 0" using sum by (simp add: sum_subtractf)
    then show ?thesis using sum_nonneg_eq_0_iff [OF fin, of "\<lambda>i. sc i - 1"] ge i by auto
  next
    assume "\<forall>i\<in>B. sc i < 1"
    then have "(\<Sum>i\<in>B. sc i) < (\<Sum>i\<in>B. 1)" using i fin by (intro sum_strict_mono) auto
    then show ?thesis using sum by simp
  qed
qed

lemma nth_fun_upd: "i < length xs \<Longrightarrow> (!) (xs[i := x]) = ((!) xs)(i := x)"
  by (auto simp: fun_eq_iff nth_list_update)

definition vinv :: "nat \<Rightarrow> (nat \<Rightarrow> rat) \<Rightarrow> rat list \<Rightarrow> nat list \<Rightarrow> nat list \<Rightarrow> rat list \<Rightarrow> nat list \<Rightarrow> bool" where
  "vinv n W scaled small large prob alias \<longleftrightarrow> length scaled = n \<and> length prob = n \<and> length alias = n \<and> distinct (small @ large)
     \<and> (\<forall>i\<in>set small. 0 \<le> scaled ! i \<and> scaled ! i < 1) \<and> (\<forall>i\<in>set large. 1 \<le> scaled ! i)
     \<and> balanced n W (set small \<union> set large) ((!) scaled) ((!) prob) ((!) alias)"

lemma vose_ok:
  "vinv n W scaled small large prob al \<Longrightarrow> vose scaled small large prob al = (prob', al', small', large') \<Longrightarrow>
    (small' = [] \<or> large' = []) \<and> (\<exists>scaled'. vinv n W scaled' small' large' prob' al')"
proof (induction scaled small large prob al rule: vose.induct)
  case (1 scaled small large prob al)
  show ?case
  proof (cases "small = [] \<or> large = []")
    case True
    then show ?thesis using 1(3,4) by (subst (asm) vose.simps) auto
  next
    case False
    let ?s = "last small" and ?l = "last large" and ?S = "butlast small" and ?L = "butlast large"
    let ?p = "prob[?s := scaled ! ?s]" and ?a = "al[?s := ?l]" and ?sc = "scaled[?l := scaled ! ?l + scaled ! ?s - 1]"
    have sm: "small = ?S @ [?s]" and la: "large = ?L @ [?l]" using False by simp_all
    note inv = 1(3) [unfolded vinv_def]
    have d: "distinct ((?S @ [?s]) @ (?L @ [?l]))" using inv sm la by metis
    have sl: "?s \<in> set small" "?l \<in> set large" using False by simp_all
    have eqs: "set small \<union> set large - {?s} = insert ?l (set ?S \<union> set ?L)"
      using d arg_cong [OF sm, of set] arg_cong [OF la, of set] by auto
    have lt: "?s < n" "?l < n" using inv sl unfolding balanced_def by auto
    have ne: "?l \<noteq> ?s" using d by auto
    have "balanced n W (set small \<union> set large - {?s}) (((!) scaled)(?l := scaled ! ?l + scaled ! ?s - 1)) (((!) prob)(?s := scaled ! ?s)) (((!) al)(?s := ?l))"
      using inv sl ne by (intro balanced_settle) auto
    then have bal: "balanced n W (insert ?l (set ?S \<union> set ?L)) ((!) ?sc) ((!) ?p) ((!) ?a)"
      using inv lt unfolding eqs by (simp add: nth_fun_upd)
    have len: "length ?sc = n" "length ?p = n" "length ?a = n" using inv by simp_all
    have notl: "?l \<noteq> i" if "i \<in> set ?S \<or> i \<in> set ?L" for i using that d by auto
    have small: "0 \<le> ?sc ! i \<and> ?sc ! i < 1" if "i \<in> set ?S" for i
      using inv notl [of i] that in_set_butlastD [OF that] by simp
    have large: "1 \<le> ?sc ! i" if "i \<in> set ?L" for i
      using inv notl [of i] that in_set_butlastD [OF that] by simp
    have l0: "0 \<le> ?sc ! ?l" using inv sl lt(2) by (auto simp: add_increasing2)
    show ?thesis
    proof (cases "?sc ! ?l < 1")
      case True
      have v: "vinv n W ?sc (?S @ [?l]) ?L ?p ?a"
        unfolding vinv_def using len d small large l0 True bal by (auto simp: Un_insert_left)
      show ?thesis using 1(1) [OF False refl refl refl refl refl refl refl True v] 1(4) False True by (subst (asm) vose.simps) (simp add: Let_def)
    next
      case ge: False
      have v: "vinv n W ?sc ?S (?L @ [?l]) ?p ?a"
        unfolding vinv_def using len d small large ge bal by (auto simp: Un_insert_right not_less)
      show ?thesis using 1(2) [OF False refl refl refl refl refl refl refl ge v] 1(4) False ge by (subst (asm) vose.simps) (simp add: Let_def)
    qed
  qed
qed

text \<open>The share of bucket \<open>i\<close>: the columns are equally likely, and column \<open>c\<close> leads to \<open>i\<close> with the length of the interval of
  \<open>u\<close> in [0, 1) for which \<open>alias_pick\<close> gives \<open>i\<close>.\<close>

definition pick_length :: "'a Table \<Rightarrow> nat \<Rightarrow> nat \<Rightarrow> rat" where
  "pick_length t c i = (if c = i then tb_prob t ! c else 0) + (if tb_alias t ! c = i then 1 - tb_prob t ! c else 0)"

definition draw_share :: "'a Table \<Rightarrow> nat \<Rightarrow> rat" where
  "draw_share t i = (\<Sum>c<length (tb_items t). pick_length t c i) / of_nat (length (tb_items t))"

definition table_wf :: "'a Table \<Rightarrow> bool" where
  "table_wf t \<longleftrightarrow> 0 < length (tb_items t) \<and> (\<forall>c<length (tb_items t). 0 \<le> tb_prob t ! c \<and> tb_prob t ! c \<le> 1
     \<and> (tb_prob t ! c < 1 \<longrightarrow> tb_alias t ! c < length (tb_items t)))"

text \<open>The lengths are those of \<open>alias_pick\<close>: on the grid of the numbers \<open>x / M\<close>, where \<open>M\<close> is a common denominator, the picks are
  counted.\<close>

lemma pick_length_counts:
  assumes "0 < M" "k \<le> M" "tb_prob t ! c = of_nat k / of_nat M"
  shows "of_nat (card {x. x < M \<and> alias_pick t c (of_nat x / of_nat M) = i}) = pick_length t c i * of_nat M"
proof -
  have lt: "of_nat x / of_nat M < tb_prob t ! c \<longleftrightarrow> x < k" for x using assms by (simp add: divide_less_cancel)
  have "{x. x < M \<and> alias_pick t c (of_nat x / of_nat M) = i} =
      (if c = i then {..<k} else {}) \<union> (if tb_alias t ! c = i then {k..<M} else {})"
    using assms(2) by (auto simp: alias_pick_def lt)
  moreover have "{..<k} \<union> {k..<M} = {..<M}" using assms(2) by auto
  ultimately have "card {x. x < M \<and> alias_pick t c (of_nat x / of_nat M) = i} =
      (if c = i then k else 0) + (if tb_alias t ! c = i then M - k else 0)"
    using assms(2) by simp
  then show ?thesis using assms by (cases "c = i") (simp_all add: pick_length_def of_nat_diff algebra_simps)
qed

lemma set_ones_nth: "i < length xs \<Longrightarrow> set_ones js xs ! i = (if i \<in> set js then 1 else xs ! i)"
  unfolding set_ones_def by (induction js arbitrary: xs) (auto simp: nth_list_update)

lemma set_ones_length [simp]: "length (set_ones js xs) = length xs"
  unfolding set_ones_def by (induction js arbitrary: xs) simp_all

lemma vinv_final:
  assumes v: "vinv n W scaled small large prob al" and e: "small = [] \<or> large = []"
    and pr: "pr = set_ones small (set_ones large prob)"
  shows "\<forall>c<n. 0 \<le> pr ! c \<and> pr ! c \<le> 1 \<and> (pr ! c < 1 \<longrightarrow> al ! c < n)"
    "i < n \<Longrightarrow> (\<Sum>c<n. (if c = i then pr ! c else 0) + (if al ! c = i then 1 - pr ! c else 0)) = W i"
proof -
  let ?B = "set small \<union> set large"
  have len: "length prob = n" and b: "balanced n W ?B ((!) scaled) ((!) prob) ((!) al)" using v by (simp_all add: vinv_def)
  have P: "pr ! c = (if c \<in> ?B then 1 else prob ! c)" if "c < n" for c using that len pr by (simp add: set_ones_nth)
  show "\<forall>c<n. 0 \<le> pr ! c \<and> pr ! c \<le> 1 \<and> (pr ! c < 1 \<longrightarrow> al ! c < n)"
  proof (intro allI impI)
    fix c
    assume c: "c < n"
    then have "c \<notin> ?B \<longrightarrow> 0 \<le> prob ! c \<and> prob ! c \<le> 1 \<and> al ! c < n" using b unfolding balanced_def by blast
    then show "0 \<le> pr ! c \<and> pr ! c \<le> 1 \<and> (pr ! c < 1 \<longrightarrow> al ! c < n)" using P [OF c] by (cases "c \<in> ?B") simp_all
  qed
  assume i: "i < n"
  have one: "scaled ! i = 1" if "i \<in> ?B"
    by (rule balanced_ones [OF b _ that]) (use v e in \<open>auto simp: vinv_def\<close>)
  have "(\<Sum>c<n. if al ! c = i then 1 - pr ! c else 0) = (\<Sum>c\<in>{c \<in> {..<n}. al ! c = i}. 1 - pr ! c)" by (rule sum.inter_filter [symmetric]) simp
  also have "\<dots> = (\<Sum>c\<in>{c. c < n \<and> c \<notin> ?B \<and> al ! c = i}. 1 - pr ! c)"
    by (rule sum.mono_neutral_right) (auto simp: P)
  also have "\<dots> = given n ?B ((!) prob) ((!) al) i" unfolding given_def by (rule sum.cong) (auto simp: P)
  finally have g: "(\<Sum>c<n. if al ! c = i then 1 - pr ! c else 0) = given n ?B ((!) prob) ((!) al) i" .
  have "W i = (if i \<in> ?B then scaled ! i else prob ! i) + given n ?B ((!) prob) ((!) al) i"
    using b i unfolding balanced_def by blast
  also have "(if i \<in> ?B then scaled ! i else prob ! i) = pr ! i" using P [OF i] one by simp
  finally show "(\<Sum>c<n. (if c = i then pr ! c else 0) + (if al ! c = i then 1 - pr ! c else 0)) = W i"
    using g i by (simp add: sum.distrib)
qed

lemma scaled_weights_length [simp]: "length (scaled_weights t) = length (tb_items t)"
  by (simp add: scaled_weights_def)

lemma scaled_sum:
  assumes "0 < tb_totalW t" "tb_totalW t = sum_list (map it_Weight (tb_items t))"
  shows "(\<Sum>i<length (tb_items t). scaled_weights t ! i) = of_nat (length (tb_items t))"
proof -
  let ?n = "length (tb_items t)"
  have "(\<Sum>i<?n. scaled_weights t ! i) = (\<Sum>i<?n. it_Weight (tb_items t ! i)) / tb_totalW t * of_nat ?n"
    by (simp add: scaled_weights_def sum_divide_distrib sum_distrib_right)
  moreover have "(\<Sum>i<?n. it_Weight (tb_items t ! i)) = tb_totalW t"
    using assms(2) by (simp add: sum_list_sum_nth atLeast0LessThan)
  ultimately show ?thesis using assms(1) by simp
qed

lemma sum_list_pos: "xs \<noteq> [] \<Longrightarrow> \<forall>x\<in>set xs. (0 :: rat) < x \<Longrightarrow> 0 < sum_list xs"
  by (induction xs) (auto simp: add_pos_nonneg sum_list_nonneg less_imp_le)

lemma buildAlias_ok:
  assumes ne: "tb_items t \<noteq> []" and pos: "\<forall>it\<in>set (tb_items t). 0 < it_Weight it" and tw: "tb_totalW t = sum_list (map it_Weight (tb_items t))"
  shows "table_wf (buildAlias t)" "tb_items (buildAlias t) = tb_items t"
    "i < length (tb_items t) \<Longrightarrow> draw_share (buildAlias t) i = it_Weight (tb_items t ! i) / tb_totalW t"
proof -
  let ?n = "length (tb_items t)" and ?sc = "scaled_weights t"
  let ?small = "filter (\<lambda>i. ?sc ! i < 1) [0..<?n]" and ?large = "filter (\<lambda>i. \<not> ?sc ! i < 1) [0..<?n]"
  have n: "0 < ?n" using ne by simp
  have w: "0 < tb_totalW t" unfolding tw by (rule sum_list_pos) (use ne pos in auto)
  have U: "set ?small \<union> set ?large = {..<?n}" by auto
  have nn: "0 \<le> ?sc ! i" if "i < ?n" for i using pos w that nth_mem [OF that] by (simp add: scaled_weights_def less_imp_le)
  have "balanced ?n ((!) ?sc) {..<?n} ((!) ?sc) ((!) (replicate ?n 0)) ((!) (replicate ?n 0))"
    unfolding balanced_def given_def using scaled_sum [OF w tw] by simp
  then have v: "vinv ?n ((!) ?sc) ?sc ?small ?large (replicate ?n 0) (replicate ?n 0)"
    unfolding vinv_def U using nn by (auto simp: distinct_append scaled_weights_length)
  obtain prob al small large where r: "vose ?sc ?small ?large (replicate ?n 0) (replicate ?n 0) = (prob, al, small, large)"
    by (metis prod_cases4)
  define pr where "pr = set_ones small (set_ones large prob)"
  have t: "buildAlias t = t\<lparr>tb_prob := pr, tb_alias := al\<rparr>" using r by (simp add: buildAlias_def Let_def pr_def)
  obtain sc' where f: "vinv ?n ((!) ?sc) sc' small large prob al" "small = [] \<or> large = []" using vose_ok [OF v r] by blast
  note fin = vinv_final [OF f pr_def]
  have sel: "tb_items (buildAlias t) = tb_items t" "tb_prob (buildAlias t) = pr" "tb_alias (buildAlias t) = al" using t by simp_all
  show "tb_items (buildAlias t) = tb_items t" using t by simp
  show "table_wf (buildAlias t)" using fin(1) n t by (simp add: table_wf_def)
  assume i: "i < ?n"
  then have "draw_share (buildAlias t) i = ?sc ! i / of_nat ?n" unfolding draw_share_def pick_length_def sel using fin(2) [OF i] by simp
  then show "draw_share (buildAlias t) i = it_Weight (tb_items t ! i) / tb_totalW t" using i n by (simp add: scaled_weights_def)
qed

lemma NewTable_ok:
  assumes "NewTable items = Inr t"
  shows "tb_items t = filter (\<lambda>it. 0 < it_Weight it) items" "table_wf t"
    "tb_totalW t = sum_list (map it_Weight (tb_items t))" "0 < tb_totalW t"
    "i < length (tb_items t) \<Longrightarrow> draw_share t i = it_Weight (tb_items t ! i) / tb_totalW t"
proof -
  let ?its = "filter (\<lambda>it. 0 < it_Weight it) items"
  let ?t = "\<lparr>tb_items = ?its, tb_prob = [], tb_alias = [], tb_totalW = sum_list (map it_Weight ?its)\<rparr>"
  have ne: "?its \<noteq> []" and t: "t = buildAlias ?t" using assms by (auto simp: NewTable_def Let_def split: if_splits)
  have pre: "tb_items ?t \<noteq> []" "\<forall>it\<in>set (tb_items ?t). 0 < it_Weight it" "tb_totalW ?t = sum_list (map it_Weight (tb_items ?t))"
    using ne by auto
  note ok = buildAlias_ok [OF pre]
  have tw: "tb_totalW (buildAlias x) = tb_totalW x" for x :: "'a Table" by (simp add: buildAlias_def Let_def split: prod.splits)
  show its: "tb_items t = ?its" using ok(2) t by simp
  show "table_wf t" using ok(1) t by simp
  show w: "tb_totalW t = sum_list (map it_Weight (tb_items t))" using its tw t by simp
  show "0 < tb_totalW t" unfolding w its by (rule sum_list_pos) (use ne in auto)
  show "i < length (tb_items t) \<Longrightarrow> draw_share t i = it_Weight (tb_items t ! i) / tb_totalW t" using ok(3) [of i] its tw t by simp
qed

lemma pick_bound:
  assumes "table_wf t" "c < length (tb_items t)" "u < 1"
  shows "alias_pick t c u < length (tb_items t)"
  using assms by (fastforce simp: alias_pick_def table_wf_def)

lemma drawIndex_bound:
  assumes "rng_ok r" "table_wf t"
  shows "fst (drawIndex r t s) < length (tb_items t)"
proof -
  obtain c s1 where c: "rg_IntN r (length (tb_items t)) s = (c, s1)" by force
  obtain u s2 where u: "rg_Float64 r s1 = (u, s2)" by force
  have "c < length (tb_items t)" "u < 1"
    using assms c u unfolding rng_ok_def table_wf_def by (metis fst_conv)+
  then show ?thesis using pick_bound [OF assms(2)] c u by (simp add: drawIndex_def Let_def)
qed


lemma NewTable_error: "NewTable items = Inl ErrEmptyTable \<longleftrightarrow> (\<forall>it\<in>set items. it_Weight it \<le> 0)"
  by (auto simp: NewTable_def Let_def filter_empty_conv not_less)

section \<open>Draws without replacement\<close>

lemma scan_pick_pos: "scan_pick rem r js acc = Some i \<Longrightarrow> i \<in> set js \<and> 0 < rem ! i"
  by (induction js arbitrary: acc) (auto simp: Let_def split: if_splits)

lemma last_pick_pos: "last_pick rem js = Some i \<Longrightarrow> i \<in> set js \<and> 0 < rem ! i"
  by (auto simp: last_pick_def find_Some_iff in_set_conv_nth) (metis length_rev nth_mem set_rev in_set_conv_nth)+

lemma last_pick_None: "last_pick rem js = None \<longleftrightarrow> (\<forall>i\<in>set js. rem ! i \<le> 0)"
  by (auto simp: last_pick_def find_None_iff not_less)

text \<open>With exact arithmetic the first scan never misses.\<close>

lemma scan_pick_found:
  "acc + (\<Sum>i\<leftarrow>js. rem ! i) > r \<Longrightarrow> \<forall>i\<in>set js. 0 \<le> rem ! i \<Longrightarrow> acc \<le> r \<Longrightarrow> scan_pick rem r js acc \<noteq> None"
proof (induction js arbitrary: acc)
  case (Cons j js)
  then show ?case using Cons.IH [of "acc + rem ! j"] Cons.IH [of acc] by (auto simp: Let_def algebra_simps)
qed simp

lemma distinct_loop_ok:
  "k \<le> card {i. i < m \<and> 0 < rem ! i} \<Longrightarrow> length rem = m \<Longrightarrow>
    distinct (fst (distinct_loop rg m k rem tw s)) \<and> length (fst (distinct_loop rg m k rem tw s)) = k
    \<and> (\<forall>i\<in>set (fst (distinct_loop rg m k rem tw s)). i < m \<and> 0 < rem ! i)"
proof (induction k arbitrary: rem tw s)
  case (Suc k)
  let ?A = "{i. i < m \<and> 0 < rem ! i}"
  obtain u s1 where u: "rg_Float64 rg s = (u, s1)" by force
  define pick where "pick = (case scan_pick rem (u * tw) [0..<m] 0 of Some i \<Rightarrow> Some i | None \<Rightarrow> last_pick rem [0..<m])"
  have "?A \<noteq> {}" using Suc.prems(1) by (metis card.empty not_less_eq_eq zero_le)
  then have "pick \<noteq> None" using last_pick_None [of rem "[0..<m]"] by (force simp: pick_def split: option.splits)
  then obtain i where p: "pick = Some i" by blast
  have i: "i < m" "0 < rem ! i" using p scan_pick_pos [of rem "u * tw" "[0..<m]" 0] last_pick_pos [of rem "[0..<m]"]
    by (fastforce simp: pick_def split: option.splits)+
  have A: "{j. j < m \<and> 0 < rem[i := 0] ! j} = ?A - {i}" using i Suc.prems(2) by (auto simp: nth_list_update)
  have "card (?A - {i}) = card ?A - 1" using i by (intro card_Diff_singleton) simp
  then have "k \<le> card {j. j < m \<and> 0 < rem[i := 0] ! j}" using Suc.prems(1) unfolding A by simp
  note IH = Suc.IH [OF this, of "tw - rem ! i" s1]
  obtain js s2 where d: "distinct_loop rg m k (rem[i := 0]) (tw - rem ! i) s1 = (js, s2)" by force
  have res: "fst (distinct_loop rg m (Suc k) rem tw s) = i # js" using u p d by (simp add: pick_def Let_def)
  have js: "distinct js" "length js = k" "\<forall>j\<in>set js. j \<in> ?A - {i}" using IH Suc.prems(2) d A by auto
  then show ?case unfolding res using i by auto
qed simp

text \<open>\<open>DrawDistinct\<close> returns \<open>min n (Len t)\<close> items of different positions, whatever the random source does.\<close>

lemma DrawDistinct_ok:
  assumes "NewTable items = Inr t"
  obtains js where "fst (DrawDistinct rg t n s) = map (\<lambda>i. it_Value (tb_items t ! i)) js" "distinct js" "\<forall>i\<in>set js. i < length (tb_items t)"
    "length js = min (nat n) (length (tb_items t))"
proof (cases "n \<le> 0")
  case True
  then show ?thesis using that [of "[]"] by (simp add: DrawDistinct_def)
next
  case False
  let ?m = "length (tb_items t)" and ?rem = "map it_Weight (tb_items t)"
  have pos: "0 < it_Weight (tb_items t ! i)" if "i < ?m" for i
    using NewTable_ok(1) [OF assms] nth_mem [OF that] by (metis (mono_tags, lifting) mem_Collect_eq set_filter)
  have "{i. i < ?m \<and> 0 < ?rem ! i} = {..<?m}" using pos by auto
  then have "min (nat n) ?m \<le> card {i. i < ?m \<and> 0 < ?rem ! i}" by simp
  note d = distinct_loop_ok [OF this, of rg "sum_list ?rem" s, simplified]
  obtain js s' where "distinct_loop rg ?m (min (nat n) ?m) ?rem (sum_list ?rem) s = (js, s')" by force
  then show ?thesis using that [of js] d False by (simp add: DrawDistinct_def Let_def)
qed

section \<open>The pity counter guarantees a rare item\<close>

lemma DrawItem_mem: "rng_ok r \<Longrightarrow> table_wf t \<Longrightarrow> fst (DrawItem r t s) \<in> set (tb_items t)"
  using drawIndex_bound [of r t s] by (cases "drawIndex r t s") (simp add: DrawItem_def)

definition puller_inv :: "int \<Rightarrow> int \<Rightarrow> 'a Puller \<Rightarrow> bool" where
  "puller_inv limit rare p \<longleftrightarrow> 0 < limit \<and> pl_pityLimit p = limit \<and> pl_pityRare p = rare \<and> 0 \<le> pl_miss p \<and> pl_miss p \<le> limit
     \<and> (\<exists>h. pl_highTable p = Some h \<and> table_wf h \<and> (\<forall>it\<in>set (tb_items h). rare \<le> it_Rarity it))"

lemma NewPuller_inv:
  assumes t: "NewTable items = Inr t" and "0 < limit" and it: "it \<in> set (tb_items t)" "rare \<le> it_Rarity it"
  shows "puller_inv limit rare (NewPuller t limit rare)"
proof -
  let ?high = "filter (\<lambda>it. rare \<le> it_Rarity it) (tb_items t)"
  have ne: "?high \<noteq> []" using it by (auto simp: filter_empty_conv)
  have pos: "filter (\<lambda>it. 0 < it_Weight it) ?high = ?high" unfolding filter_id_conv NewTable_ok(1) [OF t] by simp
  obtain h where h: "NewTable ?high = Inr h" using ne unfolding NewTable_def pos by (simp add: Let_def)
  have "tb_items h = ?high" "table_wf h" using NewTable_ok(1,2) [OF h] pos by simp_all
  then show ?thesis using assms(2) ne h by (auto simp: puller_inv_def NewPuller_def Let_def)
qed

lemma Puller_Draw_ok:
  assumes inv: "puller_inv limit rare p" and rng: "rng_ok r" and d: "Puller_Draw r (p, s) = ((it, pity), p', s')"
  shows "puller_inv limit rare p'" "rare \<le> it_Rarity it \<Longrightarrow> pl_miss p' = 0"
    "\<not> rare \<le> it_Rarity it \<Longrightarrow> pl_miss p' = pl_miss p + 1 \<and> \<not> pity"
    "pity \<longleftrightarrow> pl_miss p = limit"
proof -
  obtain h where h: "pl_highTable p = Some h" "table_wf h" "\<forall>it\<in>set (tb_items h). rare \<le> it_Rarity it"
    and p: "0 < limit" "pl_pityLimit p = limit" "pl_pityRare p = rare" "0 \<le> pl_miss p" "pl_miss p \<le> limit"
    using inv unfolding puller_inv_def by blast
  have all: "puller_inv limit rare p' \<and> (rare \<le> it_Rarity it \<longrightarrow> pl_miss p' = 0)
      \<and> (\<not> rare \<le> it_Rarity it \<longrightarrow> pl_miss p' = pl_miss p + 1 \<and> \<not> pity) \<and> (pity \<longleftrightarrow> pl_miss p = limit)"
  proof (cases "limit \<le> pl_miss p")
    case True
    obtain x s1 where x: "DrawItem r h s = (x, s1)" by force
    then have "it = x" "p' = p\<lparr>pl_miss := 0\<rparr>" "pity" using d h(1) p True by (simp_all add: Puller_Draw_def Let_def)
    moreover have "rare \<le> it_Rarity x" using h(3) DrawItem_mem [OF rng h(2), of s] x by simp
    ultimately show ?thesis using p h True by (simp add: puller_inv_def)
  next
    case False
    obtain x s1 where x: "DrawItem r (pl_table p) s = (x, s1)" by force
    then have "it = x" "\<not> pity" "p' = p\<lparr>pl_miss := if rare \<le> it_Rarity x then 0 else pl_miss p + 1\<rparr>"
      using d h(1) p False by (simp_all add: Puller_Draw_def Let_def split: if_splits)
    then show ?thesis using p h False by (simp add: puller_inv_def)
  qed
  then show "puller_inv limit rare p'" "rare \<le> it_Rarity it \<Longrightarrow> pl_miss p' = 0"
    "\<not> rare \<le> it_Rarity it \<Longrightarrow> pl_miss p' = pl_miss p + 1 \<and> \<not> pity" "pity \<longleftrightarrow> pl_miss p = limit" by blast+
qed

lemma draw_times_inv:
  assumes "rng_ok r"
  shows "puller_inv limit rare p \<Longrightarrow> draw_times (Puller_Draw r) n (p, s) = (xs, p', s') \<Longrightarrow>
    puller_inv limit rare p' \<and> length xs = n \<and> ((\<forall>x\<in>set xs. \<not> rare \<le> it_Rarity (fst x)) \<longrightarrow> pl_miss p' = pl_miss p + int n)
    \<and> (\<forall>x\<in>set xs. snd x \<longrightarrow> rare \<le> it_Rarity (fst x))"
proof (induction n arbitrary: p s xs)
  case (Suc n)
  obtain it pity p1 s1 where d: "Puller_Draw r (p, s) = ((it, pity), p1, s1)" by (metis prod.collapse)
  obtain ys p2 s2 where r: "draw_times (Puller_Draw r) n (p1, s1) = (ys, p2, s2)" by (metis prod.collapse)
  have xs: "xs = (it, pity) # ys" "p2 = p'" "s2 = s'" using Suc.prems(2) d r by simp_all
  note ok = Puller_Draw_ok [OF Suc.prems(1) assms d]
  note IH = Suc.IH [OF ok(1) r [unfolded xs(2,3)]]
  show ?case using IH ok(3) unfolding xs(1) by auto
qed simp

text \<open>With a positive limit and a rare item in the table, any \<open>pityLimit + 1\<close> consecutive draws of a \<open>Puller\<close> contain an
  item of at least the target rarity, whatever was drawn before and whatever the random source returns; a draw that the
  pity counter forced is always such an item, and the counter stays between 0 and the limit.\<close>

theorem Pity_guarantee:
  assumes t: "NewTable items = Inr t" and "0 < limit" and "it \<in> set (tb_items t)" "rare \<le> it_Rarity it" and rng: "rng_ok r"
    and before: "Puller_DrawN r k (NewPuller t limit rare, s) = (xs, p, s')"
    and now: "Puller_DrawN r (limit + 1) (p, s') = (ys, p', s'')"
  shows "(\<exists>y\<in>set ys. rare \<le> it_Rarity (fst y)) \<and> (\<forall>y\<in>set (xs @ ys). snd y \<longrightarrow> rare \<le> it_Rarity (fst y))
    \<and> int (length ys) = limit + 1 \<and> 0 \<le> pl_miss p' \<and> pl_miss p' \<le> limit"
proof -
  note start = NewPuller_inv [OF assms(1-4)]
  have p: "puller_inv limit rare p" "\<forall>x\<in>set xs. snd x \<longrightarrow> rare \<le> it_Rarity (fst x)"
    using before start draw_times_inv [OF rng start, of "nat k" s xs p s'] by (auto simp: Puller_DrawN_def split: if_splits)
  have d: "draw_times (Puller_Draw r) (nat (limit + 1)) (p, s') = (ys, p', s'')" using now assms(2) by (simp add: Puller_DrawN_def split: if_splits)
  note n = draw_times_inv [OF rng p(1) d]
  have b: "0 \<le> pl_miss p" "pl_miss p' \<le> limit" "0 \<le> pl_miss p'" using p(1) n by (simp_all add: puller_inv_def)
  have "\<exists>y\<in>set ys. rare \<le> it_Rarity (fst y)"
  proof (rule ccontr)
    assume "\<not> (\<exists>y\<in>set ys. rare \<le> it_Rarity (fst y))"
    then have "pl_miss p' = pl_miss p + (limit + 1)" using n assms(2) by simp
    then show False using b by simp
  qed
  then show ?thesis using n p(2) b assms(2) by auto
qed

text \<open>Without a rare item in the table the limit has no effect.\<close>

lemma NewPuller_no_rare: "\<forall>it\<in>set (tb_items t). it_Rarity it < rare \<Longrightarrow> pl_highTable (NewPuller t limit rare) = None"
  by (auto simp: NewPuller_def Let_def filter_empty_conv)

text \<open>A source of random numbers for the examples: a counter modulo 7.\<close>

definition lcg :: "nat rng" where
  "lcg = \<lparr>rg_IntN = (\<lambda>n s. (s mod n, (s * 3 + 1) mod 7)), rg_Float64 = (\<lambda>s. (of_nat (s mod 7) / 7, (s * 3 + 1) mod 7))\<rparr>"

lemma lcg_ok: "rng_ok lcg"
proof -
  have "of_nat (s mod 7) < (of_nat 7 :: rat)" for s :: nat by (subst of_nat_less_iff) simp
  then show ?thesis by (simp add: rng_ok_def lcg_def)
qed

definition drop_items :: "string Item list" where
  "drop_items = [\<lparr>it_Value = ''common'', it_Weight = 6, it_Rarity = 1\<rparr>, \<lparr>it_Value = ''none'', it_Weight = 0, it_Rarity = 9\<rparr>,
     \<lparr>it_Value = ''rare'', it_Weight = 3, it_Rarity = 4\<rparr>, \<lparr>it_Value = ''epic'', it_Weight = 1, it_Rarity = 5\<rparr>]"


lemma Pity_guarantee_witness:
  "\<exists>t xs p s' ys p' s''. NewTable drop_items = Inr t \<and> Puller_DrawN lcg 4 (NewPuller t 2 5, 1) = (xs, p, s')
     \<and> Puller_DrawN lcg 3 (p, s') = (ys, p', s'') \<and> (\<exists>y\<in>set ys. 5 \<le> it_Rarity (fst y))"
proof -
  obtain t where t: "NewTable drop_items = Inr t" by (auto simp: NewTable_def drop_items_def Let_def)
  have it: "drop_items ! 3 \<in> set (tb_items t)" "5 \<le> it_Rarity (drop_items ! 3)" unfolding NewTable_ok(1) [OF t] by (simp_all add: drop_items_def)
  obtain xs p s' where b: "Puller_DrawN lcg 4 (NewPuller t 2 5, 1) = (xs, p, s')" by (metis prod.collapse)
  obtain ys p' s'' where n: "Puller_DrawN lcg (2 + 1) (p, s') = (ys, p', s'')" by (metis prod.collapse)
  have "\<exists>y\<in>set ys. 5 \<le> it_Rarity (fst y)" using Pity_guarantee [OF t _ it lcg_ok b n] by simp
  then show ?thesis using t b n by auto
qed

end
