(* ===== verification/Quest.thy ===== *)
theory Quest
  imports Prelude
begin

text \<open>
  \<open>pkg/game/questlog\<close>: quests with a target, prerequisites and a reward that is claimed once. A map read gives its zero value,
  \<open>int64\<close> sums wrap, and the calls of \<open>onClaim\<close> are collected in \<open>lg_calls\<close> in the order in which they are made.
\<close>

datatype quest_status = StatusLocked | StatusInProgress | StatusAchieved | StatusClaimed

record ('i, 'm) Quest =
  qu_ID :: 'i
  qu_Target :: int
  qu_Requires :: "'i list"
  qu_Meta :: 'm

record 'i quest_state =
  qs_ID :: 'i
  qs_Status :: quest_status
  qs_Progress :: int
  qs_Target :: int

record 'i ownerProg =
  op_progress :: "'i \<rightharpoonup> int"
  op_claimed :: "'i \<rightharpoonup> bool"

record ('i, 'm) quest_log =
  lg_quests :: "'i \<rightharpoonup> ('i, 'm) Quest"
  lg_order :: "'i list"
  lg_owners :: "string \<rightharpoonup> 'i ownerProg"
  lg_onClaim :: bool
  lg_calls :: "(string \<times> ('i, 'm) Quest) list"

definition Log_New :: "('i, 'm) Quest list \<Rightarrow> bool \<Rightarrow> ('i, 'm) quest_log" where
  "Log_New quests onClaim =
     foldl (\<lambda>l q. let l = (if lg_quests l (qu_ID q) = None then l\<lparr>lg_order := lg_order l @ [qu_ID q]\<rparr> else l)
                  in l\<lparr>lg_quests := (lg_quests l)(qu_ID q \<mapsto> q)\<rparr>)
       \<lparr>lg_quests = Map.empty, lg_order = [], lg_owners = Map.empty, lg_onClaim = onClaim, lg_calls = []\<rparr> quests"

definition new_owner :: "'i ownerProg" where
  "new_owner = \<lparr>op_progress = Map.empty, op_claimed = Map.empty\<rparr>"

definition ownerLocked :: "string \<Rightarrow> ('i, 'm) quest_log \<Rightarrow> 'i ownerProg \<times> ('i, 'm) quest_log" where
  "ownerLocked owner l =
     (case lg_owners l owner of Some p \<Rightarrow> (p, l) | None \<Rightarrow> (new_owner, l\<lparr>lg_owners := (lg_owners l)(owner \<mapsto> new_owner)\<rparr>))"

definition progress_of :: "'i ownerProg \<Rightarrow> 'i \<Rightarrow> int" where
  "progress_of p i = (case op_progress p i of None \<Rightarrow> 0 | Some n \<Rightarrow> n)"

definition claimed_of :: "'i ownerProg \<Rightarrow> 'i \<Rightarrow> bool" where
  "claimed_of p i = (case op_claimed p i of None \<Rightarrow> False | Some b \<Rightarrow> b)"

definition unlockedLocked :: "'i ownerProg \<Rightarrow> ('i, 'm) Quest \<Rightarrow> bool" where
  "unlockedLocked p q \<longleftrightarrow> list_all (claimed_of p) (qu_Requires q)"

definition statusLocked :: "'i ownerProg \<Rightarrow> ('i, 'm) Quest \<Rightarrow> quest_status" where
  "statusLocked p q =
     (if claimed_of p (qu_ID q) then StatusClaimed
      else if \<not> unlockedLocked p q then StatusLocked
      else if qu_Target q \<le> progress_of p (qu_ID q) then StatusAchieved
      else StatusInProgress)"

definition snapshotLocked :: "'i ownerProg \<Rightarrow> ('i, 'm) Quest \<Rightarrow> 'i quest_state" where
  "snapshotLocked p q =
     \<lparr>qs_ID = qu_ID q, qs_Status = statusLocked p q, qs_Progress = min (progress_of p (qu_ID q)) (qu_Target q), qs_Target = qu_Target q\<rparr>"

definition put_owner :: "string \<Rightarrow> 'i ownerProg \<Rightarrow> ('i, 'm) quest_log \<Rightarrow> ('i, 'm) quest_log" where
  "put_owner owner p l = l\<lparr>lg_owners := (lg_owners l)(owner \<mapsto> p)\<rparr>"

definition Log_Advance :: "string \<Rightarrow> 'i \<Rightarrow> int \<Rightarrow> ('i, 'm) quest_log \<Rightarrow> ('i quest_state option \<times> bool) \<times> ('i, 'm) quest_log" where
  "Log_Advance owner i delta l =
     (case lg_quests l i of
        None \<Rightarrow> ((None, False), l)
      | Some q \<Rightarrow>
          (case ownerLocked owner l of (p, l) \<Rightarrow>
             if claimed_of p i \<or> \<not> unlockedLocked p q then ((Some (snapshotLocked p q), False), l)
             else let cur = progress_of p i; nxt = min (max (wrap64 (cur + delta)) 0) (qu_Target q);
                      p = p\<lparr>op_progress := (op_progress p)(i \<mapsto> nxt)\<rparr>
                  in ((Some (snapshotLocked p q), nxt \<noteq> cur), put_owner owner p l)))"

definition Log_Set :: "string \<Rightarrow> 'i \<Rightarrow> int \<Rightarrow> ('i, 'm) quest_log \<Rightarrow> ('i quest_state option \<times> bool) \<times> ('i, 'm) quest_log" where
  "Log_Set owner i v l =
     (case lg_quests l i of
        None \<Rightarrow> ((None, False), l)
      | Some q \<Rightarrow>
          (case ownerLocked owner l of (p, l) \<Rightarrow>
             if claimed_of p i \<or> \<not> unlockedLocked p q then ((Some (snapshotLocked p q), False), l)
             else let v = (if v < 0 then 0 else v); v = (if qu_Target q < v then qu_Target q else v); cur = progress_of p i;
                      p = p\<lparr>op_progress := (op_progress p)(i \<mapsto> v)\<rparr>
                  in ((Some (snapshotLocked p q), v \<noteq> cur), put_owner owner p l)))"

definition call_onClaim :: "string \<Rightarrow> ('i, 'm) Quest list \<Rightarrow> ('i, 'm) quest_log \<Rightarrow> ('i, 'm) quest_log" where
  "call_onClaim owner qs l = (if lg_onClaim l then l\<lparr>lg_calls := lg_calls l @ map (Pair owner) qs\<rparr> else l)"

definition mark_claimed :: "'i \<Rightarrow> 'i ownerProg \<Rightarrow> 'i ownerProg" where
  "mark_claimed i p = p\<lparr>op_claimed := (op_claimed p)(i \<mapsto> True)\<rparr>"

definition Log_Claim :: "string \<Rightarrow> 'i \<Rightarrow> ('i, 'm) quest_log \<Rightarrow> bool \<times> ('i, 'm) quest_log" where
  "Log_Claim owner i l =
     (case lg_quests l i of
        None \<Rightarrow> (False, l)
      | Some q \<Rightarrow>
          (case ownerLocked owner l of (p, l) \<Rightarrow>
             if statusLocked p q \<noteq> StatusAchieved then (False, l)
             else (True, call_onClaim owner [q] (put_owner owner (mark_claimed i p) l))))"

text \<open>The loop over the definition order; a map read of an unknown identifier gives the zero quest \<open>z\<close>.\<close>

definition quest_at :: "('i, 'm) Quest \<Rightarrow> ('i, 'm) quest_log \<Rightarrow> 'i \<Rightarrow> ('i, 'm) Quest" where
  "quest_at z l i = (case lg_quests l i of None \<Rightarrow> z | Some q \<Rightarrow> q)"

fun claim_scan :: "('i \<Rightarrow> ('i, 'm) Quest) \<Rightarrow> 'i list \<Rightarrow> 'i ownerProg \<Rightarrow> 'i list \<times> 'i ownerProg" where
  "claim_scan at [] p = ([], p)"
| "claim_scan at (i # js) p =
     (if statusLocked p (at i) = StatusAchieved
      then (case claim_scan at js (mark_claimed i p) of (cs, p) \<Rightarrow> (i # cs, p))
      else claim_scan at js p)"

definition Log_ClaimAll :: "('i, 'm) Quest \<Rightarrow> string \<Rightarrow> ('i, 'm) quest_log \<Rightarrow> 'i list \<times> ('i, 'm) quest_log" where
  "Log_ClaimAll z owner l =
     (case ownerLocked owner l of (p, l) \<Rightarrow>
       case claim_scan (quest_at z l) (lg_order l) p of (claimed, p) \<Rightarrow>
         (claimed, call_onClaim owner (map (quest_at z l) claimed) (put_owner owner p l)))"

definition Log_StateOf :: "string \<Rightarrow> 'i \<Rightarrow> ('i, 'm) quest_log \<Rightarrow> 'i quest_state option \<times> ('i, 'm) quest_log" where
  "Log_StateOf owner i l =
     (case lg_quests l i of
        None \<Rightarrow> (None, l)
      | Some q \<Rightarrow> (case ownerLocked owner l of (p, l) \<Rightarrow> (Some (snapshotLocked p q), l)))"

definition Log_List :: "('i, 'm) Quest \<Rightarrow> string \<Rightarrow> ('i, 'm) quest_log \<Rightarrow> 'i quest_state list \<times> ('i, 'm) quest_log" where
  "Log_List z owner l =
     (case ownerLocked owner l of (p, l) \<Rightarrow> (map (\<lambda>i. snapshotLocked p (quest_at z l i)) (lg_order l), l))"

definition Log_Claimable :: "('i, 'm) Quest \<Rightarrow> string \<Rightarrow> ('i, 'm) quest_log \<Rightarrow> 'i list \<times> ('i, 'm) quest_log" where
  "Log_Claimable z owner l =
     (case ownerLocked owner l of (p, l) \<Rightarrow> (filter (\<lambda>i. statusLocked p (quest_at z l i) = StatusAchieved) (lg_order l), l))"

definition Log_Reset :: "string \<Rightarrow> 'i list \<Rightarrow> ('i, 'm) quest_log \<Rightarrow> ('i, 'm) quest_log" where
  "Log_Reset owner js l =
     (case lg_owners l owner of
        None \<Rightarrow> l
      | Some p \<Rightarrow>
          if length js = 0 then put_owner owner (p\<lparr>op_progress := Map.empty, op_claimed := Map.empty\<rparr>) l
          else put_owner owner (foldl (\<lambda>p i. p\<lparr>op_progress := (op_progress p)(i := None), op_claimed := (op_claimed p)(i := None)\<rparr>) p js) l)"

section \<open>Any sequence of calls\<close>

datatype 'i quest_op =
  QAdvance string 'i int | QSet string 'i int | QClaim string 'i | QClaimAll string
  | QStateOf string 'i | QList string | QClaimable string | QReset string "'i list"

fun quest_step :: "('i, 'm) Quest \<Rightarrow> 'i quest_op \<Rightarrow> ('i, 'm) quest_log \<Rightarrow> ('i, 'm) quest_log" where
  "quest_step z (QAdvance w i d) l = snd (Log_Advance w i d l)"
| "quest_step z (QSet w i v) l = snd (Log_Set w i v l)"
| "quest_step z (QClaim w i) l = snd (Log_Claim w i l)"
| "quest_step z (QClaimAll w) l = snd (Log_ClaimAll z w l)"
| "quest_step z (QStateOf w i) l = snd (Log_StateOf w i l)"
| "quest_step z (QList w) l = snd (Log_List z w l)"
| "quest_step z (QClaimable w) l = snd (Log_Claimable z w l)"
| "quest_step z (QReset w js) l = Log_Reset w js l"

definition quest_run :: "('i, 'm) Quest \<Rightarrow> 'i quest_op list \<Rightarrow> ('i, 'm) quest_log \<Rightarrow> ('i, 'm) quest_log" where
  "quest_run z ops l = fold (quest_step z) ops l"

text \<open>The resets that concern a quest of an owner, and the rewards that were handed out for it.\<close>

fun resets :: "string \<Rightarrow> 'i \<Rightarrow> 'i quest_op \<Rightarrow> bool" where
  "resets w i (QReset w' js) \<longleftrightarrow> w = w' \<and> (js = [] \<or> i \<in> set js)"
| "resets w i _ \<longleftrightarrow> False"

definition rewards :: "string \<Rightarrow> 'i \<Rightarrow> ('i, 'm) quest_log \<Rightarrow> nat" where
  "rewards w i l = length (filter (\<lambda>c. fst c = w \<and> qu_ID (snd c) = i) (lg_calls l))"

definition owner_of :: "string \<Rightarrow> ('i, 'm) quest_log \<Rightarrow> 'i ownerProg" where
  "owner_of w l = (case lg_owners l w of None \<Rightarrow> new_owner | Some p \<Rightarrow> p)"

section \<open>What an operation changes\<close>

definition quest_wf :: "('i, 'm) quest_log \<Rightarrow> bool" where
  "quest_wf l \<longleftrightarrow> (\<forall>i q. lg_quests l i = Some q \<longrightarrow> qu_ID q = i) \<and> distinct (lg_order l) \<and> set (lg_order l) = dom (lg_quests l)"

lemma Log_New_wf: "quest_wf (Log_New qs b) \<and> lg_owners (Log_New qs b) = Map.empty \<and> lg_onClaim (Log_New qs b) = b \<and> lg_calls (Log_New qs b) = []"
proof (induction qs rule: rev_induct)
  case Nil
  show ?case by (simp add: Log_New_def quest_wf_def)
next
  case (snoc q qs)
  let ?l = "Log_New qs b"
  let ?o = "if lg_quests ?l (qu_ID q) = None then lg_order ?l @ [qu_ID q] else lg_order ?l"
  have l: "Log_New (qs @ [q]) b = ?l\<lparr>lg_order := ?o, lg_quests := (lg_quests ?l)(qu_ID q \<mapsto> q)\<rparr>"
    by (simp add: Log_New_def Let_def)
  have ord: "distinct (lg_order ?l)" "set (lg_order ?l) = dom (lg_quests ?l)" "\<forall>i q. lg_quests ?l i = Some q \<longrightarrow> qu_ID q = i"
    using snoc by (simp_all add: quest_wf_def)
  have "distinct ?o \<and> set ?o = insert (qu_ID q) (dom (lg_quests ?l))"
    using ord(1,2) by (cases "lg_quests ?l (qu_ID q)") (auto simp: domIff)
  then show ?case using snoc ord(3) unfolding l by (simp add: quest_wf_def)
qed

lemma ownerLocked_ok:
  assumes "ownerLocked w l = (p, l1)"
  shows "p = owner_of w l" "\<And>v. owner_of v l1 = owner_of v l" "lg_quests l1 = lg_quests l" "lg_order l1 = lg_order l"
    "lg_onClaim l1 = lg_onClaim l" "lg_calls l1 = lg_calls l"
  using assms by (auto simp: ownerLocked_def owner_of_def split: option.splits if_splits)

lemma owner_of_put [simp]: "owner_of v (put_owner w p l) = (if v = w then p else owner_of v l)"
  by (simp add: put_owner_def owner_of_def)

lemma put_owner_sel [simp]: "lg_quests (put_owner w p l) = lg_quests l" "lg_order (put_owner w p l) = lg_order l"
    "lg_onClaim (put_owner w p l) = lg_onClaim l" "lg_calls (put_owner w p l) = lg_calls l"
  by (simp_all add: put_owner_def)

lemma call_onClaim_sel [simp]: "lg_quests (call_onClaim w qs l) = lg_quests l" "lg_order (call_onClaim w qs l) = lg_order l"
    "lg_onClaim (call_onClaim w qs l) = lg_onClaim l" "owner_of v (call_onClaim w qs l) = owner_of v l"
    "lg_calls (call_onClaim w qs l) = (if lg_onClaim l then lg_calls l @ map (Pair w) qs else lg_calls l)"
  by (simp_all add: call_onClaim_def owner_of_def)

lemma claimed_mark [simp]: "claimed_of (mark_claimed i p) j = (j = i \<or> claimed_of p j)"
  by (simp add: mark_claimed_def claimed_of_def)

lemma progress_mark [simp]: "progress_of (mark_claimed i p) = progress_of p"
  by (simp add: mark_claimed_def progress_of_def fun_eq_iff)

lemma status_achieved:
  "statusLocked p q = StatusAchieved \<longleftrightarrow> \<not> claimed_of p (qu_ID q) \<and> unlockedLocked p q \<and> qu_Target q \<le> progress_of p (qu_ID q)"
  by (simp add: statusLocked_def)

lemma unlocked_mono: "unlockedLocked p q \<Longrightarrow> (\<And>i. claimed_of p i \<Longrightarrow> claimed_of p' i) \<Longrightarrow> unlockedLocked p' q"
  by (auto simp: unlockedLocked_def list_all_iff)

text \<open>\<open>ClaimAll\<close> marks each achieved quest once; one that the pass itself unlocks is claimed too when it comes later in the order.\<close>

lemma claim_scan_ok:
  "distinct js \<Longrightarrow> (\<forall>i\<in>set js. qu_ID (at i) = i) \<Longrightarrow> claim_scan at js p = (cs, p') \<Longrightarrow>
    distinct cs \<and> set cs \<subseteq> set js \<and> (\<forall>i. claimed_of p' i \<longleftrightarrow> claimed_of p i \<or> i \<in> set cs) \<and> progress_of p' = progress_of p
    \<and> (\<forall>i\<in>set cs. \<not> claimed_of p i \<and> unlockedLocked p' (at i) \<and> qu_Target (at i) \<le> progress_of p i)"
proof (induction js arbitrary: p cs p')
  case (Cons i js)
  show ?case
  proof (cases "statusLocked p (at i) = StatusAchieved")
    case True
    obtain ds p1 where r: "claim_scan at js (mark_claimed i p) = (ds, p1)" by force
    have c: "cs = i # ds" "p' = p1" using Cons.prems(3) True r by simp_all
    note IH = Cons.IH [OF _ _ r]
    have i: "qu_ID (at i) = i" "i \<notin> set js" "distinct js" using Cons.prems by simp_all
    have IH': "distinct ds" "set ds \<subseteq> set js" "\<And>j. claimed_of p1 j \<longleftrightarrow> j = i \<or> claimed_of p j \<or> j \<in> set ds" "progress_of p1 = progress_of p"
      "\<And>j. j \<in> set ds \<Longrightarrow> \<not> claimed_of p j \<and> unlockedLocked p1 (at j) \<and> qu_Target (at j) \<le> progress_of p j"
      using IH Cons.prems by auto
    have "unlockedLocked p1 (at i)" using True IH'(3) unlocked_mono [of p "at i" p1] by (auto simp: status_achieved)
    then show ?thesis using IH' i True c by (auto simp: status_achieved)
  next
    case False
    then have "claim_scan at js p = (cs, p')" using Cons.prems(3) by simp
    from Cons.IH [OF _ _ this] Cons.prems show ?thesis by auto
  qed
qed simp

lemma Reset_claimed:
  "claimed_of (foldl (\<lambda>p i. p\<lparr>op_progress := (op_progress p)(i := None), op_claimed := (op_claimed p)(i := None)\<rparr>) p js) i \<longleftrightarrow> i \<notin> set js \<and> claimed_of p i"
  by (induction js arbitrary: p) (auto simp: claimed_of_def)

definition claims :: "string \<Rightarrow> 'i \<Rightarrow> ('i, 'm) quest_log \<Rightarrow> nat" where
  "claims w i l = (if claimed_of (owner_of w l) i then 1 else 0)"

text \<open>A step that is not a reset gives a reward exactly when it marks the quest, and then the target is met and every
  prerequisite claimed.\<close>

definition good_step :: "('i, 'm) quest_log \<Rightarrow> ('i, 'm) quest_log \<Rightarrow> bool" where
  "good_step l l' \<longleftrightarrow> lg_quests l' = lg_quests l \<and> lg_order l' = lg_order l \<and> lg_onClaim l' = lg_onClaim l
     \<and> (\<forall>w i. claims w i l \<le> claims w i l' \<and> (lg_onClaim l \<longrightarrow> rewards w i l' + claims w i l = rewards w i l + claims w i l'))
     \<and> (\<forall>w i. claims w i l < claims w i l' \<longrightarrow> (\<exists>q. lg_quests l i = Some q \<and> unlockedLocked (owner_of w l') q \<and> qu_Target q \<le> progress_of (owner_of w l) i))"

lemma good_same:
  assumes "\<And>w. op_claimed (owner_of w l') = op_claimed (owner_of w l)" "lg_quests l' = lg_quests l" "lg_order l' = lg_order l"
    "lg_onClaim l' = lg_onClaim l" "lg_calls l' = lg_calls l"
  shows "good_step l l'"
  using assms by (simp add: good_step_def claims_def rewards_def claimed_of_def)

lemma count_pairs:
  assumes "distinct cs" "\<forall>i\<in>set cs. qu_ID (at i) = i"
  shows "length (filter (\<lambda>c. fst c = w \<and> qu_ID (snd c) = i) (map (Pair v) (map at cs))) = (if v = w \<and> i \<in> set cs then 1 else 0)"
  using assms
proof (induction cs)
  case (Cons c cs)
  then show ?case by (cases "v = w"; cases "c = i") (simp_all add: comp_def)
qed simp

lemma good_claim:
  assumes wf: "quest_wf l" and o: "ownerLocked v l = (p, l1)" and cs: "distinct cs" "\<forall>i\<in>set cs. qu_ID (at i) = i \<and> lg_quests l i = Some (at i)"
    and p': "\<And>i. claimed_of p' i \<longleftrightarrow> claimed_of p i \<or> i \<in> set cs"
    and new: "\<And>i. i \<in> set cs \<Longrightarrow> \<not> claimed_of p i \<and> unlockedLocked p' (at i) \<and> qu_Target (at i) \<le> progress_of p i"
  shows "good_step l (call_onClaim v (map at cs) (put_owner v p' l1))"
proof -
  let ?l = "call_onClaim v (map at cs) (put_owner v p' l1)"
  note o' = ownerLocked_ok [OF o]
  have own: "owner_of w ?l = (if w = v then p' else owner_of w l)" for w using o'(2) by simp
  have cl: "claims w i ?l = claims w i l + (if v = w \<and> i \<in> set cs then 1 else 0)" for w i
    unfolding claims_def own using p' new o'(1) by auto
  have rw: "rewards w i ?l = rewards w i l + (if lg_onClaim l \<and> v = w \<and> i \<in> set cs then 1 else 0)" for w i
    using o'(5,6) count_pairs [OF cs(1), of at w i v] cs(2) by (cases "lg_onClaim l") (simp_all add: rewards_def del: map_map)
  have "\<exists>q. lg_quests l i = Some q \<and> unlockedLocked (owner_of w ?l) q \<and> qu_Target q \<le> progress_of (owner_of w l) i"
    if "claims w i l < claims w i ?l" for w i
  proof -
    have "v = w" "i \<in> set cs" using that unfolding cl by (auto split: if_splits)
    then show ?thesis using cs(2) new [of i] own o'(1) by auto
  qed
  then show ?thesis unfolding good_step_def using o' cl rw by simp
qed

lemma good_progress:
  assumes "ownerLocked v l = (p, l1)"
  shows "good_step l (put_owner v (p\<lparr>op_progress := f\<rparr>) l1)" "good_step l l1"
  using ownerLocked_ok [OF assms] by (auto intro!: good_same)

lemma good_refl: "good_step l l"
  by (rule good_same) simp_all

lemma Claim_good:
  assumes wf: "quest_wf l"
  shows "good_step l (snd (Log_Claim v i l))"
proof (cases "lg_quests l i")
  case (Some q)
  obtain p l1 where o: "ownerLocked v l = (p, l1)" by force
  have q: "qu_ID q = i" using wf Some by (simp add: quest_wf_def)
  show ?thesis
  proof (cases "statusLocked p q = StatusAchieved")
    case True
    have a: "\<not> claimed_of p i" "unlockedLocked p q" "qu_Target q \<le> progress_of p i" using True q by (simp_all add: status_achieved)
    have u: "unlockedLocked (mark_claimed i p) q" using a(2) by (rule unlocked_mono) simp
    have "good_step l (call_onClaim v (map (\<lambda>_. q) [i]) (put_owner v (mark_claimed i p) l1))"
      by (rule good_claim [OF wf o]) (use q Some a u in auto)
    then show ?thesis using Some o True by (simp add: Log_Claim_def)
  next
    case False
    then show ?thesis using Some o good_progress(2) [OF o] by (simp add: Log_Claim_def)
  qed
qed (simp add: Log_Claim_def good_refl)

lemma ClaimAll_good:
  assumes wf: "quest_wf l"
  shows "good_step l (snd (Log_ClaimAll z v l))"
proof -
  obtain p l1 where o: "ownerLocked v l = (p, l1)" by force
  obtain cs p' where c: "claim_scan (quest_at z l1) (lg_order l1) p = (cs, p')" by force
  note o' = ownerLocked_ok [OF o]
  have at: "qu_ID (quest_at z l1 i) = i \<and> lg_quests l i = Some (quest_at z l1 i)" if "i \<in> set (lg_order l1)" for i
    using wf that o'(3,4) by (auto simp: quest_wf_def quest_at_def)
  have ok: "distinct cs" "set cs \<subseteq> set (lg_order l1)" "\<And>i. claimed_of p' i \<longleftrightarrow> claimed_of p i \<or> i \<in> set cs"
    "\<And>i. i \<in> set cs \<Longrightarrow> \<not> claimed_of p i \<and> unlockedLocked p' (quest_at z l1 i) \<and> qu_Target (quest_at z l1 i) \<le> progress_of p i"
    using claim_scan_ok [OF _ _ c] wf o'(4) at by (auto simp: quest_wf_def)
  have "good_step l (call_onClaim v (map (quest_at z l1) cs) (put_owner v p' l1))"
    by (rule good_claim [OF wf o ok(1) _ ok(3,4)]) (use ok(2) at in auto)
  then show ?thesis using o c by (simp add: Log_ClaimAll_def)
qed

lemma Advance_good: "good_step l (snd (Log_Advance v i d l))" "good_step l (snd (Log_Set v i d l))"
  using good_progress [of v l] by (auto simp: Log_Advance_def Log_Set_def Let_def good_refl split: option.splits prod.splits)

lemma read_good: "good_step l (snd (Log_StateOf v i l))" "good_step l (snd (Log_List z v l))" "good_step l (snd (Log_Claimable z v l))"
  using good_progress [of v l] by (auto simp: Log_StateOf_def Log_List_def Log_Claimable_def good_refl split: option.splits prod.splits)

lemma Reset_step:
  "lg_quests (Log_Reset v js l) = lg_quests l" "lg_order (Log_Reset v js l) = lg_order l"
  "lg_onClaim (Log_Reset v js l) = lg_onClaim l" "lg_calls (Log_Reset v js l) = lg_calls l"
  "claims w i (Log_Reset v js l) = (if resets w i (QReset v js) then 0 else claims w i l)"
proof -
  show "claims w i (Log_Reset v js l) = (if resets w i (QReset v js) then 0 else claims w i l)"
  proof (cases "lg_owners l v")
    case None
    then show ?thesis by (auto simp: Log_Reset_def claims_def owner_of_def new_owner_def claimed_of_def)
  next
    case (Some p)
    then show ?thesis by (cases "js = []") (auto simp: Log_Reset_def claims_def Reset_claimed owner_of_def [of v l] claimed_of_def [of "p\<lparr>op_progress := _, op_claimed := _\<rparr>"])
  qed
qed (auto simp: Log_Reset_def split: option.splits)

lemma step_good:
  assumes "quest_wf l" "\<forall>w js. op \<noteq> QReset w js"
  shows "good_step l (quest_step z op l)"
  using assms by (cases op) (simp_all add: Advance_good Claim_good ClaimAll_good read_good)

text \<open>The balance of one step, resets included.\<close>

lemma step_balance:
  assumes wf: "quest_wf l" and on: "lg_onClaim l"
  shows "quest_wf (quest_step z op l)" "lg_onClaim (quest_step z op l)"
    "if resets w i op then claims w i (quest_step z op l) = 0 \<and> rewards w i (quest_step z op l) = rewards w i l
     else rewards w i (quest_step z op l) + claims w i l = rewards w i l + claims w i (quest_step z op l)"
proof -
  have "quest_wf (quest_step z op l) \<and> lg_onClaim (quest_step z op l) \<and>
    (if resets w i op then claims w i (quest_step z op l) = 0 \<and> rewards w i (quest_step z op l) = rewards w i l
     else rewards w i (quest_step z op l) + claims w i l = rewards w i l + claims w i (quest_step z op l))"
  proof (cases "\<exists>v js. op = QReset v js")
    case True
    then obtain v js where op: "op = QReset v js" by blast
    show ?thesis unfolding op using wf on Reset_step(1-4) [of v js l] Reset_step(5) [of w i v js l]
      by (cases "resets w i (QReset v js)") (simp_all add: quest_wf_def rewards_def del: resets.simps)
  next
    case False
    then have g: "good_step l (quest_step z op l)" by (intro step_good [OF wf]) blast
    have nr: "\<not> resets w i op" using False by (cases op) auto
    show ?thesis using g nr wf on unfolding good_step_def by (simp add: quest_wf_def)
  qed
  then show "quest_wf (quest_step z op l)" "lg_onClaim (quest_step z op l)"
    "if resets w i op then claims w i (quest_step z op l) = 0 \<and> rewards w i (quest_step z op l) = rewards w i l
     else rewards w i (quest_step z op l) + claims w i l = rewards w i l + claims w i (quest_step z op l)" by blast+
qed

text \<open>A reward is handed out once for every quest and owner, and once more at most after each reset of the quest; without a
  reset the rewards are exactly the claimed marks.\<close>

theorem Quest_claim_once:
  fixes ops :: "'i quest_op list" and z :: "('i, 'm) Quest" and quests
  defines "l \<equiv> quest_run z ops (Log_New quests True)"
  shows "rewards w i l \<le> length (filter (resets w i) ops) + claims w i l
    \<and> (filter (resets w i) ops = [] \<longrightarrow> rewards w i l = claims w i l)"
proof -
  have run: "quest_wf l \<Longrightarrow> lg_onClaim l \<Longrightarrow>
      rewards w i (quest_run z ops l) + claims w i l \<le> rewards w i l + length (filter (resets w i) ops) + claims w i (quest_run z ops l)
      \<and> (filter (resets w i) ops = [] \<longrightarrow> rewards w i (quest_run z ops l) + claims w i l = rewards w i l + claims w i (quest_run z ops l))"
    for ops and l
  proof (induction ops arbitrary: l)
    case Nil
    show ?case by (simp add: quest_run_def)
  next
    case (Cons op ops)
    note b = step_balance(1,2) [OF Cons.prems, where z = z and op = op] step_balance(3) [OF Cons.prems, where z = z and op = op and w = w and i = i]
    have c: "claims w i l \<le> 1" by (simp add: claims_def)
    show ?case using Cons.IH [OF b(1,2)] b(3) c by (cases "resets w i op") (auto simp: quest_run_def)
  qed
  have l0: "quest_wf (Log_New quests True)" "lg_onClaim (Log_New quests True)" "lg_calls (Log_New quests True) = []"
    "lg_owners (Log_New quests True) = Map.empty" using Log_New_wf [of quests True] by simp_all
  have "rewards w i (Log_New quests True) = 0" "claims w i (Log_New quests True) = 0"
    using l0 by (simp_all add: rewards_def claims_def owner_of_def new_owner_def claimed_of_def)
  then show ?thesis using run [OF l0(1,2), of ops] unfolding l_def by simp
qed

text \<open>\<open>Claim\<close> succeeds exactly in the achieved state and leads to the claimed one.\<close>

lemma Claim_result:
  assumes "quest_wf l"
  shows "fst (Log_Claim w i l) \<longleftrightarrow> (\<exists>q. lg_quests l i = Some q \<and> statusLocked (owner_of w l) q = StatusAchieved)"
    "fst (Log_Claim w i l) \<Longrightarrow> lg_quests l i = Some q \<Longrightarrow> statusLocked (owner_of w (snd (Log_Claim w i l))) q = StatusClaimed"
proof -
  obtain p l1 where o: "ownerLocked w l = (p, l1)" by force
  note o' = ownerLocked_ok [OF o]
  show "fst (Log_Claim w i l) \<longleftrightarrow> (\<exists>q. lg_quests l i = Some q \<and> statusLocked (owner_of w l) q = StatusAchieved)"
    using o o'(1) by (auto simp: Log_Claim_def split: option.splits)
  assume c: "fst (Log_Claim w i l)" and q: "lg_quests l i = Some q"
  have "qu_ID q = i" using assms q by (simp add: quest_wf_def)
  then show "statusLocked (owner_of w (snd (Log_Claim w i l))) q = StatusClaimed"
    using c q o by (auto simp: Log_Claim_def statusLocked_def split: if_splits)
qed

section \<open>Progress\<close>

text \<open>Within \<open>int64\<close> the progress is the clamped sum; when the sum overflows, a large advance sets the progress back to 0.\<close>

lemma Advance_clamps:
  assumes "lg_quests l i = Some q" "\<not> claimed_of (owner_of w l) i" "unlockedLocked (owner_of w l) q" "in_i64 (progress_of (owner_of w l) i + d)"
  shows "progress_of (owner_of w (snd (Log_Advance w i d l))) i = min (max (progress_of (owner_of w l) i + d) 0) (qu_Target q)"
proof -
  obtain p l1 where o: "ownerLocked w l = (p, l1)" by force
  then show ?thesis using assms ownerLocked_ok [OF o] by (simp add: Log_Advance_def Let_def progress_of_def [of "_\<lparr>op_progress := _\<rparr>"])
qed

definition kills :: "(string, unit) Quest" where
  "kills = \<lparr>qu_ID = ''kills'', qu_Target = 10, qu_Requires = [], qu_Meta = ()\<rparr>"

lemma Advance_overflow:
  "fst (Log_Advance ''u'' ''kills'' 9223372036854775807 (snd (Log_Advance ''u'' ''kills'' 4 (Log_New [kills] False)))) =
     (Some \<lparr>qs_ID = ''kills'', qs_Status = StatusInProgress, qs_Progress = 0, qs_Target = 10\<rparr>, True)"
  by code_simp

end
