(* ===== verification/Fsm.thy ===== *)
theory Fsm
  imports Prelude
begin

text \<open>
  \<open>pkg/foundation/fsm\<close>: a table of transitions and three hooks. A hook is a function that may return an error; the calls that
  \<open>Fire\<close> makes are returned in order. \<open>Fire\<close> holds the lock throughout, so concurrent calls are a sequence of calls.
\<close>

record ('s, 'e) Callbacks =
  cb_OnLeave :: "('s \<Rightarrow> 'e \<Rightarrow> err option) option"
  cb_OnTransition :: "('s \<Rightarrow> 's \<Rightarrow> 'e \<Rightarrow> err option) option"
  cb_OnEnter :: "('s \<Rightarrow> 'e \<Rightarrow> err option) option"

record ('s, 'e) FSM =
  fsm_state :: 's
  fsm_transit :: "'s \<times> 'e \<rightharpoonup> 's"
  fsm_cb :: "('s, 'e) Callbacks"

datatype ('s, 'e) fsm_error = ErrInvalidTransition 's 'e | LeaveAborted 's 's err | TransitionAborted 's 's err | EnterFailed 's 's err

datatype ('s, 'e) hook_call = Left 's 'e | Crossed 's 's 'e | Entered 's 'e

definition Fsm_Is :: "'s \<Rightarrow> ('s, 'e) FSM \<Rightarrow> bool" where
  "Fsm_Is s f \<longleftrightarrow> fsm_state f = s"

definition Fsm_Can :: "'e \<Rightarrow> ('s, 'e) FSM \<Rightarrow> bool" where
  "Fsm_Can e f \<longleftrightarrow> fsm_transit f (fsm_state f, e) \<noteq> None"

definition Fire :: "'e \<Rightarrow> ('s, 'e) FSM \<Rightarrow> ('s \<times> ('s, 'e) fsm_error option) \<times> ('s, 'e) hook_call list \<times> ('s, 'e) FSM" where
  "Fire e f =
     (let from = fsm_state f; cb = fsm_cb f
      in case fsm_transit f (from, e) of
           None \<Rightarrow> ((from, Some (ErrInvalidTransition from e)), [], f)
         | Some to \<Rightarrow>
             let left = (case cb_OnLeave cb of None \<Rightarrow> [] | Some _ \<Rightarrow> [Left from e])
             in case (case cb_OnLeave cb of None \<Rightarrow> None | Some h \<Rightarrow> h from e) of
                  Some er \<Rightarrow> ((from, Some (LeaveAborted from to er)), left, f)
                | None \<Rightarrow>
                    let crossed = left @ (case cb_OnTransition cb of None \<Rightarrow> [] | Some _ \<Rightarrow> [Crossed from to e])
                    in case (case cb_OnTransition cb of None \<Rightarrow> None | Some h \<Rightarrow> h from to e) of
                         Some er \<Rightarrow> ((from, Some (TransitionAborted from to er)), crossed, f)
                       | None \<Rightarrow>
                           let f = f\<lparr>fsm_state := to\<rparr>;
                               entered = crossed @ (case cb_OnEnter cb of None \<Rightarrow> [] | Some _ \<Rightarrow> [Entered to e])
                           in case (case cb_OnEnter cb of None \<Rightarrow> None | Some h \<Rightarrow> h to e) of
                                Some er \<Rightarrow> ((to, Some (EnterFailed from to er)), entered, f)
                              | None \<Rightarrow> ((to, None), entered, f))"

definition AvailableEvents :: "('s, 'e) FSM \<Rightarrow> 'e set" where
  "AvailableEvents f = {e. fsm_transit f (fsm_state f, e) \<noteq> None}"

record ('s, 'e) Builder =
  fb_initial :: 's
  fb_transitions :: "'s \<times> 'e \<rightharpoonup> 's"
  fb_cb :: "('s, 'e) Callbacks"

definition NewBuilder :: "'s \<Rightarrow> ('s, 'e) Builder" where
  "NewBuilder initial =
     \<lparr>fb_initial = initial, fb_transitions = Map.empty, fb_cb = \<lparr>cb_OnLeave = None, cb_OnTransition = None, cb_OnEnter = None\<rparr>\<rparr>"

definition Allow :: "'s \<Rightarrow> 'e \<Rightarrow> 's \<Rightarrow> ('s, 'e) Builder \<Rightarrow> ('s, 'e) Builder" where
  "Allow from e to b = b\<lparr>fb_transitions := (fb_transitions b)((from, e) \<mapsto> to)\<rparr>"

definition Builder_OnLeave :: "('s \<Rightarrow> 'e \<Rightarrow> err option) option \<Rightarrow> ('s, 'e) Builder \<Rightarrow> ('s, 'e) Builder" where
  "Builder_OnLeave fn b = b\<lparr>fb_cb := (fb_cb b)\<lparr>cb_OnLeave := fn\<rparr>\<rparr>"

definition Builder_OnTransition :: "('s \<Rightarrow> 's \<Rightarrow> 'e \<Rightarrow> err option) option \<Rightarrow> ('s, 'e) Builder \<Rightarrow> ('s, 'e) Builder" where
  "Builder_OnTransition fn b = b\<lparr>fb_cb := (fb_cb b)\<lparr>cb_OnTransition := fn\<rparr>\<rparr>"

definition Builder_OnEnter :: "('s \<Rightarrow> 'e \<Rightarrow> err option) option \<Rightarrow> ('s, 'e) Builder \<Rightarrow> ('s, 'e) Builder" where
  "Builder_OnEnter fn b = b\<lparr>fb_cb := (fb_cb b)\<lparr>cb_OnEnter := fn\<rparr>\<rparr>"

definition newFSM :: "'s \<Rightarrow> ('s \<times> 'e \<rightharpoonup> 's) \<Rightarrow> ('s, 'e) Callbacks \<Rightarrow> ('s, 'e) FSM" where
  "newFSM initial transitions cb = \<lparr>fsm_state = initial, fsm_transit = transitions, fsm_cb = cb\<rparr>"

definition Builder_Build :: "('s, 'e) Builder \<Rightarrow> ('s, 'e) FSM" where
  "Builder_Build b = newFSM (fb_initial b) (fb_transitions b) (fb_cb b)"

section \<open>The declared transitions are the only ones\<close>

fun fire_all :: "'e list \<Rightarrow> ('s, 'e) FSM \<Rightarrow> 's list \<times> ('s, 'e) FSM" where
  "fire_all [] f = ([fsm_state f], f)"
| "fire_all (e # es) f = (case Fire e f of (_, _, f') \<Rightarrow> (case fire_all es f' of (ss, g) \<Rightarrow> (fsm_state f # ss, g)))"

text \<open>What one call does: it stays, with an error, or moves along the declared transition; then the hooks ran in order, and only
  an error of \<open>OnEnter\<close> may be reported.\<close>

lemma Fire_cases:
  assumes "Fire e f = ((s, er), calls, f')"
  shows "fsm_transit f' = fsm_transit f" "fsm_cb f' = fsm_cb f" "fsm_state f' = s"
    "fsm_state f' \<noteq> fsm_state f \<Longrightarrow> fsm_transit f (fsm_state f, e) = Some (fsm_state f')"
    "er = None \<Longrightarrow> fsm_transit f (fsm_state f, e) = Some s"
    "er = Some x \<Longrightarrow> (\<forall>a b m. x \<noteq> EnterFailed a b m) \<Longrightarrow> f' = f"
  using assms by (auto simp: Fire_def Let_def split: option.splits)

lemma Fire_calls:
  assumes "Fire e f = ((s, er), calls, f')" "fsm_transit f (fsm_state f, e) = Some to"
    "\<forall>x. er = Some x \<longrightarrow> (\<exists>m. x = EnterFailed (fsm_state f) to m)"
  shows "calls = (case cb_OnLeave (fsm_cb f) of None \<Rightarrow> [] | Some _ \<Rightarrow> [Left (fsm_state f) e])
    @ (case cb_OnTransition (fsm_cb f) of None \<Rightarrow> [] | Some _ \<Rightarrow> [Crossed (fsm_state f) to e])
    @ (case cb_OnEnter (fsm_cb f) of None \<Rightarrow> [] | Some _ \<Rightarrow> [Entered to e])" "s = to"
  using assms by (auto simp: Fire_def Let_def split: option.splits)

inductive declared :: "('s \<times> 'e \<rightharpoonup> 's) \<Rightarrow> 's \<Rightarrow> 's \<Rightarrow> bool" for tr where
  stay: "declared tr s s"
| go: "declared tr s t \<Longrightarrow> tr (t, e) = Some u \<Longrightarrow> declared tr s u"

lemma declared_trans: "declared tr t u \<Longrightarrow> declared tr s t \<Longrightarrow> declared tr s u"
  by (induction rule: declared.induct) (auto intro: declared.intros)

text \<open>Whatever events are fired and whatever the hooks answer, the machine only visits states that declared transitions reach.\<close>

theorem Fsm_only_declared:
  "fire_all es f = (ss, g) \<Longrightarrow> \<forall>s\<in>set ss. declared (fsm_transit f) (fsm_state f) s"
proof (induction es arbitrary: f ss g)
  case (Cons e es)
  obtain s er calls f' where r: "Fire e f = ((s, er), calls, f')" by (metis prod.collapse)
  obtain ts h where t: "fire_all es f' = (ts, h)" by force
  note fc = Fire_cases [OF r]
  have "declared (fsm_transit f) (fsm_state f) (fsm_state f')"
    using fc(4) declared.go [OF declared.stay] declared.stay by metis
  then have "\<forall>s\<in>set ts. declared (fsm_transit f) (fsm_state f) s"
    using Cons.IH [OF t] fc(1) declared_trans by metis
  then show ?case using Cons.prems r t declared.stay by auto
qed (auto intro: declared.stay)

lemma Can_available: "Fsm_Can e f \<longleftrightarrow> e \<in> AvailableEvents f"
  by (simp add: Fsm_Can_def AvailableEvents_def)

text \<open>An event that \<open>Can\<close> refuses is reported and changes nothing.\<close>

lemma Fire_refused: "\<not> Fsm_Can e f \<Longrightarrow> Fire e f = ((fsm_state f, Some (ErrInvalidTransition (fsm_state f) e)), [], f)"
  by (simp add: Fsm_Can_def Fire_def Let_def)

text \<open>The package comment says that an error of any hook leaves the state as it was; an error of \<open>OnEnter\<close> does not.\<close>

lemma OnEnter_error_moves:
  "Fire ''start'' (Builder_Build (Builder_OnEnter (Some (\<lambda>_ _. Some ''boom'')) (Allow (0 :: nat) ''start'' 1 (NewBuilder 0)))) =
     ((1, Some (EnterFailed 0 1 ''boom'')), [Entered 1 ''start''],
      (Builder_Build (Builder_OnEnter (Some (\<lambda>_ _. Some ''boom'')) (Allow 0 ''start'' 1 (NewBuilder 0))))\<lparr>fsm_state := 1\<rparr>)"
  by (simp add: Fire_def Builder_Build_def Builder_OnEnter_def Allow_def NewBuilder_def newFSM_def Let_def)

end
