(* ===== verification/Tally.thy ===== *)
theory Tally
  imports Prelude
begin

text \<open>
  \<open>pkg/store/tally\<close>: increments are added up per key and handed over in batches by one goroutine. A schedule of events
  interleaves the callers (the locked part of \<open>Add\<close> and its trigger are two events) with the ticks, the receptions and the
  flushes of the loop. The value type is any type with a commutative sum, such as Go's integers with their wrap-around; the sums of
  floats are not of this kind.
\<close>

record tally_config =
  tc_maxKeys :: int
  tc_flushOnStop :: bool

datatype 'v tally_loop = Selecting | Flushing "string \<rightharpoonup> 'v" bool | Exited

record 'v Tally =
  ta_cfg :: tally_config
  ta_buf :: "string \<rightharpoonup> 'v"
  ta_dirt :: int
  ta_flushCh :: bool
  ta_stopCh :: bool
  ta_triggers :: nat
  ta_loop :: "'v tally_loop"
  ta_flushed :: "(string \<rightharpoonup> 'v) list"

definition Tally_New :: "tally_config \<Rightarrow> 'v Tally" where
  "Tally_New cfg = \<lparr>ta_cfg = cfg, ta_buf = Map.empty, ta_dirt = 0, ta_flushCh = False, ta_stopCh = False, ta_triggers = 0,
     ta_loop = Selecting, ta_flushed = []\<rparr>"

text \<open>The locked part of \<open>Add\<close>; \<open>ta_triggers\<close> counts the calls that are about to call \<open>triggerFlush\<close>.\<close>

definition Tally_Add :: "string \<Rightarrow> 'v::comm_monoid_add \<Rightarrow> 'v Tally \<Rightarrow> 'v Tally" where
  "Tally_Add k d t =
     (let t = (case ta_buf t k of None \<Rightarrow> t\<lparr>ta_dirt := ta_dirt t + 1\<rparr> | Some _ \<Rightarrow> t);
          t = t\<lparr>ta_buf := (ta_buf t)(k \<mapsto> (case ta_buf t k of None \<Rightarrow> 0 | Some v \<Rightarrow> v) + d)\<rparr>;
          over = (0 < tc_maxKeys (ta_cfg t) \<and> tc_maxKeys (ta_cfg t) \<le> ta_dirt t)
      in if over then t\<lparr>ta_triggers := Suc (ta_triggers t)\<rparr> else t)"

definition triggerFlush :: "'v Tally \<Rightarrow> 'v Tally" where
  "triggerFlush t = t\<lparr>ta_flushCh := True\<rparr>"

definition Tally_Pending :: "'v Tally \<Rightarrow> nat" where
  "Tally_Pending t = card (dom (ta_buf t))"

definition tally_swap :: "'v Tally \<Rightarrow> (string \<rightharpoonup> 'v) option \<times> 'v Tally" where
  "tally_swap t = (if ta_buf t = Map.empty then (None, t) else (Some (ta_buf t), t\<lparr>ta_buf := Map.empty, ta_dirt := 0\<rparr>))"

text \<open>\<open>doFlush\<close> takes the batch; the callback runs in a later event. After the last flush (\<open>final\<close>) the loop returns.\<close>

definition doFlush :: "bool \<Rightarrow> 'v Tally \<Rightarrow> 'v Tally" where
  "doFlush final t =
     (case tally_swap t of
        (None, t) \<Rightarrow> t\<lparr>ta_loop := if final then Exited else Selecting\<rparr>
      | (Some batch, t) \<Rightarrow> t\<lparr>ta_loop := Flushing batch final\<rparr>)"

datatype 'v tally_event = EAdd string 'v | ETrigger | EFlush | ETick | ERecv | EStopSeen | ECallback bool | EStop

text \<open>\<open>ECallback b\<close> is the call of the flush function, which panics when \<open>b\<close>; the panic is recovered.\<close>

fun tally_step :: "'v::comm_monoid_add tally_event \<Rightarrow> 'v Tally \<Rightarrow> 'v Tally option" where
  "tally_step (EAdd k d) t = Some (Tally_Add k d t)"
| "tally_step ETrigger t = (if ta_triggers t = 0 then None else Some (triggerFlush (t\<lparr>ta_triggers := ta_triggers t - 1\<rparr>)))"
| "tally_step EFlush t = Some (triggerFlush t)"
| "tally_step ETick t = (case ta_loop t of Selecting \<Rightarrow> Some (doFlush False t) | _ \<Rightarrow> None)"
| "tally_step ERecv t =
     (case ta_loop t of Selecting \<Rightarrow> if ta_flushCh t then Some (doFlush False (t\<lparr>ta_flushCh := False\<rparr>)) else None | _ \<Rightarrow> None)"
| "tally_step EStopSeen t =
     (case ta_loop t of
        Selecting \<Rightarrow> if ta_stopCh t then Some (if tc_flushOnStop (ta_cfg t) then doFlush True t else t\<lparr>ta_loop := Exited\<rparr>) else None
      | _ \<Rightarrow> None)"
| "tally_step (ECallback panics) t =
     (case ta_loop t of
        Flushing batch final \<Rightarrow> Some (t\<lparr>ta_flushed := ta_flushed t @ [batch], ta_loop := if final then Exited else Selecting\<rparr>)
      | _ \<Rightarrow> None)"
| "tally_step EStop t = Some (t\<lparr>ta_stopCh := True\<rparr>)"

fun tally_run :: "'v::comm_monoid_add tally_event list \<Rightarrow> 'v Tally \<Rightarrow> 'v Tally option" where
  "tally_run [] t = Some t"
| "tally_run (e # es) t = (case tally_step e t of None \<Rightarrow> None | Some t \<Rightarrow> tally_run es t)"

section \<open>Nothing is lost\<close>

definition amount :: "string \<Rightarrow> (string \<rightharpoonup> 'v) \<Rightarrow> 'v::comm_monoid_add" where
  "amount k m = (case m k of None \<Rightarrow> 0 | Some v \<Rightarrow> v)"

definition flushed_of :: "string \<Rightarrow> 'v Tally \<Rightarrow> 'v::comm_monoid_add" where
  "flushed_of k t = sum_list (map (amount k) (ta_flushed t))"

definition inflight_of :: "string \<Rightarrow> 'v Tally \<Rightarrow> 'v::comm_monoid_add" where
  "inflight_of k t = (case ta_loop t of Flushing b _ \<Rightarrow> amount k b | _ \<Rightarrow> 0)"

fun added_by :: "string \<Rightarrow> 'v::comm_monoid_add tally_event \<Rightarrow> 'v" where
  "added_by k (EAdd k' d) = (if k = k' then d else 0)"
| "added_by k _ = 0"

definition tally_inv :: "'v Tally \<Rightarrow> bool" where
  "tally_inv t \<longleftrightarrow> finite (dom (ta_buf t)) \<and> ta_dirt t = int (card (dom (ta_buf t)))
     \<and> (\<forall>b\<in>set (ta_flushed t). b \<noteq> Map.empty) \<and> (\<forall>b fin. ta_loop t = Flushing b fin \<longrightarrow> b \<noteq> Map.empty)"

lemma doFlush_ok:
  fixes t :: "'v::comm_monoid_add Tally"
  assumes "tally_inv t" "ta_loop t = Selecting"
  shows "tally_inv (doFlush fin t)" "ta_buf (doFlush fin t) = Map.empty" "flushed_of k (doFlush fin t) = flushed_of k t"
    "inflight_of k (doFlush fin t) = amount k (ta_buf t)" "ta_cfg (doFlush fin t) = ta_cfg t" "ta_stopCh (doFlush fin t) = ta_stopCh t"
    "ta_loop (doFlush fin t) = Exited \<or> (\<exists>b. ta_loop (doFlush fin t) = Flushing b True) \<longleftrightarrow> fin"
  using assms by (auto simp: doFlush_def tally_swap_def tally_inv_def flushed_of_def inflight_of_def amount_def)

lemma Add_ok:
  fixes t :: "'v::comm_monoid_add Tally"
  assumes "tally_inv t"
  shows "tally_inv (Tally_Add k' d t)" "amount k (ta_buf (Tally_Add k' d t)) = amount k (ta_buf t) + added_by k (EAdd k' d)"
    "ta_flushed (Tally_Add k' d t) = ta_flushed t" "ta_loop (Tally_Add k' d t) = ta_loop t"
    "ta_cfg (Tally_Add k' d t) = ta_cfg t" "ta_stopCh (Tally_Add k' d t) = ta_stopCh t"
proof -
  have dom: "card (insert k' (dom (ta_buf t))) = (if ta_buf t k' = None then Suc (card (dom (ta_buf t))) else card (dom (ta_buf t)))"
    using assms by (auto simp: tally_inv_def card_insert_if domIff)
  show "tally_inv (Tally_Add k' d t)" using assms dom by (auto simp: tally_inv_def Tally_Add_def Let_def split: option.splits)
qed (auto simp: Tally_Add_def Let_def amount_def split: option.splits)

text \<open>After the last flush was taken, the buffer holds only what was added since then.\<close>

definition tally_stopping :: "'v Tally \<Rightarrow> bool" where
  "tally_stopping t \<longleftrightarrow> ta_loop t = Exited \<or> (\<exists>b. ta_loop t = Flushing b True)"

lemma tally_step_ok:
  fixes t :: "'v::comm_monoid_add Tally"
  assumes inv: "tally_inv t" and st: "tally_step e t = Some t'"
  shows "tally_inv t' \<and> ta_cfg t' = ta_cfg t
    \<and> flushed_of k t' + inflight_of k t' + amount k (ta_buf t') = flushed_of k t + inflight_of k t + amount k (ta_buf t) + added_by k e
    \<and> (ta_stopCh t' = (ta_stopCh t \<or> e = EStop)) \<and> (tally_stopping t' \<longrightarrow> tally_stopping t \<or> ta_stopCh t)
    \<and> (tally_stopping t \<longrightarrow> tally_stopping t' \<and> amount k (ta_buf t') = amount k (ta_buf t) + added_by k e)
    \<and> (\<not> tally_stopping t \<and> tally_stopping t' \<and> tc_flushOnStop (ta_cfg t) \<longrightarrow> ta_buf t' = Map.empty)"
proof (cases e)
  case (EAdd k' d)
  then have t': "t' = Tally_Add k' d t" using st by simp
  show ?thesis unfolding t' EAdd using Add_ok(1,3-6) [OF inv, where k' = k' and d = d] Add_ok(2) [OF inv, where k' = k' and d = d and k = k]
    by (simp add: flushed_of_def inflight_of_def tally_stopping_def add.assoc) blast
next
  case ETick
  then have s: "ta_loop t = Selecting" "t' = doFlush False t" using st by (auto split: tally_loop.splits)
  show ?thesis unfolding s(2) ETick using doFlush_ok(1,2,5-7) [OF inv s(1), where fin = False] doFlush_ok(3,4) [OF inv s(1), where fin = False and k = k] s(1)
    by (simp add: inflight_of_def tally_stopping_def amount_def add.commute)
next
  case ERecv
  let ?t = "t\<lparr>ta_flushCh := False\<rparr>"
  have s: "ta_loop t = Selecting" "t' = doFlush False ?t" using st ERecv by (auto split: tally_loop.splits if_splits)
  have inv': "tally_inv ?t" "ta_loop ?t = Selecting" using inv s(1) by (simp_all add: tally_inv_def)
  show ?thesis unfolding s(2) ERecv using doFlush_ok(1,2,5-7) [OF inv', where fin = False] doFlush_ok(3,4) [OF inv', where fin = False and k = k] s(1)
    by (simp add: inflight_of_def flushed_of_def tally_stopping_def amount_def add.commute)
next
  case EStopSeen
  have s: "ta_loop t = Selecting" "ta_stopCh t" "t' = (if tc_flushOnStop (ta_cfg t) then doFlush True t else t\<lparr>ta_loop := Exited\<rparr>)"
    using st EStopSeen by (auto split: tally_loop.splits if_splits)
  show ?thesis
  proof (cases "tc_flushOnStop (ta_cfg t)")
    case True
    then have t': "t' = doFlush True t" using s(3) by simp
    show ?thesis unfolding t' EStopSeen using doFlush_ok(1,2,5-7) [OF inv s(1), where fin = True] doFlush_ok(3,4) [OF inv s(1), where fin = True and k = k] s(1,2)
      by (simp add: inflight_of_def tally_stopping_def amount_def add.commute)
  next
    case False
    then show ?thesis using s inv EStopSeen by (simp add: tally_inv_def flushed_of_def inflight_of_def tally_stopping_def)
  qed
next
  case (ECallback p)
  then obtain b fin where s: "ta_loop t = Flushing b fin" "t' = t\<lparr>ta_flushed := ta_flushed t @ [b], ta_loop := if fin then Exited else Selecting\<rparr>"
    using st by (auto split: tally_loop.splits)
  then show ?thesis using inv ECallback by (auto simp: tally_inv_def flushed_of_def inflight_of_def tally_stopping_def)
next
  case ETrigger
  then have "t' = triggerFlush (t\<lparr>ta_triggers := ta_triggers t - 1\<rparr>)" using st by (auto split: if_splits)
  then show ?thesis using inv ETrigger by (simp add: triggerFlush_def tally_inv_def flushed_of_def inflight_of_def tally_stopping_def) blast
qed (use inv st in \<open>auto simp: triggerFlush_def tally_inv_def flushed_of_def inflight_of_def tally_stopping_def\<close>)

lemma tally_run_ok:
  fixes t :: "'v::comm_monoid_add Tally"
  shows "tally_run es t = Some t' \<Longrightarrow> tally_inv t \<Longrightarrow> tally_inv t' \<and> ta_cfg t' = ta_cfg t
    \<and> flushed_of k t' + inflight_of k t' + amount k (ta_buf t') = flushed_of k t + inflight_of k t + amount k (ta_buf t) + sum_list (map (added_by k) es)
    \<and> (tally_stopping t \<longrightarrow> tally_stopping t' \<and> amount k (ta_buf t') = amount k (ta_buf t) + sum_list (map (added_by k) es))"
proof (induction es arbitrary: t)
  case (Cons e es)
  then obtain t1 where t1: "tally_step e t = Some t1" "tally_run es t1 = Some t'" by (auto split: option.splits)
  note st = tally_step_ok [OF Cons.prems(2) t1(1), where k = k]
  have inv1: "tally_inv t1" using st by blast
  note IH = Cons.IH [OF t1(2) inv1]
  have bal: "flushed_of k t1 + inflight_of k t1 + amount k (ta_buf t1) = flushed_of k t + inflight_of k t + amount k (ta_buf t) + added_by k e"
    and stop: "tally_stopping t \<longrightarrow> tally_stopping t1 \<and> amount k (ta_buf t1) = amount k (ta_buf t) + added_by k e" and cfg: "ta_cfg t1 = ta_cfg t"
    using st by blast+
  have "flushed_of k t' + inflight_of k t' + amount k (ta_buf t') = flushed_of k t + inflight_of k t + amount k (ta_buf t) + sum_list (map (added_by k) (e # es))"
    using IH arg_cong [OF bal, of "\<lambda>x. x + sum_list (map (added_by k) es)"] by (simp add: add.assoc)
  moreover have "tally_stopping t \<longrightarrow> tally_stopping t' \<and> amount k (ta_buf t') = amount k (ta_buf t) + sum_list (map (added_by k) (e # es))"
    using IH stop by (simp add: add.assoc)
  ultimately show ?case using IH cfg by simp
qed simp

text \<open>Until \<open>Stop\<close> is called the loop is not stopping, so the last flush is taken after it.\<close>

lemma tally_not_stopping:
  fixes t :: "'v::comm_monoid_add Tally"
  shows "tally_run es t = Some t' \<Longrightarrow> tally_inv t \<Longrightarrow> \<not> tally_stopping t \<Longrightarrow> \<not> ta_stopCh t \<Longrightarrow> EStop \<notin> set es \<Longrightarrow> \<not> tally_stopping t' \<and> \<not> ta_stopCh t'"
proof (induction es arbitrary: t)
  case (Cons e es)
  then obtain t1 where t1: "tally_step e t = Some t1" "tally_run es t1 = Some t'" by (auto split: option.splits)
  have "tally_inv t1" "\<not> tally_stopping t1" "\<not> ta_stopCh t1" using tally_step_ok [OF Cons.prems(2) t1(1)] Cons.prems(3-5) by auto
  then show ?case using Cons.IH [OF t1(2)] Cons.prems(5) by simp
qed simp

lemma tally_run_append: "tally_run (es @ fs) t = (case tally_run es t of None \<Rightarrow> None | Some t \<Rightarrow> tally_run fs t)"
  by (induction es arbitrary: t) (auto split: option.splits)

text \<open>No \<open>Add\<close> comes: once the loop is stopping with \<open>flushOnStop\<close>, the buffer is empty for good.\<close>

lemma tally_drained:
  fixes t :: "'v::comm_monoid_add Tally"
  shows "tally_run es t = Some t' \<Longrightarrow> tally_inv t \<Longrightarrow> tc_flushOnStop (ta_cfg t) \<Longrightarrow> (tally_stopping t \<longrightarrow> amount k (ta_buf t) = 0) \<Longrightarrow>
    \<forall>e\<in>set es. added_by k e = 0 \<Longrightarrow> tally_stopping t' \<longrightarrow> amount k (ta_buf t') = 0"
proof (induction es arbitrary: t)
  case (Cons e es)
  then obtain t1 where t1: "tally_step e t = Some t1" "tally_run es t1 = Some t'" by (auto split: option.splits)
  note st = tally_step_ok [OF Cons.prems(2) t1(1), where k = k]
  have "tally_stopping t1 \<longrightarrow> amount k (ta_buf t1) = 0"
  proof
    assume s: "tally_stopping t1"
    show "amount k (ta_buf t1) = 0"
    proof (cases "tally_stopping t")
      case True
      then show ?thesis using st Cons.prems(4,5) by simp
    next
      case False
      then have "ta_buf t1 = Map.empty" using st s Cons.prems(3) by blast
      then show ?thesis by (simp add: amount_def)
    qed
  qed
  moreover have "tally_inv t1" "ta_cfg t1 = ta_cfg t" using st by blast+
  ultimately show ?case using Cons.IH [OF t1(2)] Cons.prems(3,5) by simp
qed simp

text \<open>Every amount that was added is in exactly one place: handed to the callback, in the batch that is being handed over, or in the
  buffer. And when \<open>Stop\<close> (with the flush that is the default) has returned, everything that was added before it has been handed
  over, in whatever order the events came; batches are never empty.\<close>

theorem Tally_nothing_lost:
  fixes k :: string and es fs :: "'v::comm_monoid_add tally_event list"
  assumes "tally_run es (Tally_New cfg) = Some t" "EStop \<notin> set es"
    and "tally_run (EStop # fs) t = Some u" "\<forall>e\<in>set fs. added_by k e = 0" "tc_flushOnStop cfg" "ta_loop u = Exited"
  shows "flushed_of k t + inflight_of k t + amount k (ta_buf t) = sum_list (map (added_by k) es)
    \<and> flushed_of k u = sum_list (map (added_by k) es) \<and> (\<forall>b\<in>set (ta_flushed u). b \<noteq> Map.empty)"
proof -
  let ?s = "Tally_New cfg :: 'v Tally"
  have s: "tally_inv ?s" "\<not> tally_stopping ?s" "\<not> ta_stopCh ?s" "flushed_of k ?s = 0" "inflight_of k ?s = 0" "amount k (ta_buf ?s) = 0" "ta_cfg ?s = cfg"
    by (simp_all add: Tally_New_def tally_inv_def tally_stopping_def flushed_of_def inflight_of_def amount_def)
  have t: "tally_inv t" "ta_cfg t = cfg" "flushed_of k t + inflight_of k t + amount k (ta_buf t) = sum_list (map (added_by k) es)"
    using tally_run_ok [OF assms(1) s(1), where k = k] s by simp_all
  have ns: "\<not> tally_stopping t" using tally_not_stopping [OF assms(1) s(1-3) assms(2)] by blast
  have u: "tally_inv u" "flushed_of k u + inflight_of k u + amount k (ta_buf u) = sum_list (map (added_by k) es) + sum_list (map (added_by k) (EStop # fs))"
    using tally_run_ok [OF assms(3) t(1), where k = k] t(3) by simp_all
  have "sum_list (map (added_by k) fs) = 0" using assms(4) by (induction fs) simp_all
  then have "sum_list (map (added_by k) (EStop # fs)) = 0" by simp
  moreover have "amount k (ta_buf u) = 0" using tally_drained [OF assms(3) t(1) _ _, where k = k] t(2) assms(4-6) ns
    by (simp add: tally_stopping_def)
  moreover have "inflight_of k u = 0" using assms(6) by (simp add: inflight_of_def)
  ultimately show ?thesis using u t(3) by (simp add: tally_inv_def)
qed

text \<open>What is added after the last flush was taken stays in the buffer: it is never handed over.\<close>

lemma Add_after_exit:
  fixes t :: "'v::comm_monoid_add Tally"
  assumes "tally_inv t" "tally_stopping t" "tally_run es t = Some u"
  shows "amount k (ta_buf u) = amount k (ta_buf t) + sum_list (map (added_by k) es)"
  using tally_run_ok [OF assms(3,1), where k = k] assms(2) by blast

lemma Tally_nothing_lost_witness:
  "\<exists>t u. tally_run [EAdd ''like'' 1, EAdd ''gift'' 5, ETrigger, ERecv, EAdd ''like'' 2, ECallback True]
       (Tally_New \<lparr>tc_maxKeys = 2, tc_flushOnStop = True\<rparr>) = Some t
     \<and> tally_run [EStop, EStopSeen, ECallback False] t = Some u \<and> flushed_of ''like'' u = (3 :: int)"
proof -
  let ?es = "[EAdd ''like'' 1, EAdd ''gift'' 5, ETrigger, ERecv, EAdd ''like'' 2, ECallback True] :: int tally_event list"
  let ?cfg = "\<lparr>tc_maxKeys = 2, tc_flushOnStop = True\<rparr>"
  obtain t where t: "tally_run ?es (Tally_New ?cfg) = Some t" "ta_loop t = Selecting" "ta_cfg t = ?cfg" "ta_buf t \<noteq> Map.empty"
    by (simp add: Tally_New_def Tally_Add_def triggerFlush_def doFlush_def tally_swap_def Let_def)
  obtain u where u: "tally_run [EStop, EStopSeen, ECallback False] t = Some u" "ta_loop u = Exited"
    using t by (simp add: doFlush_def tally_swap_def)
  have "flushed_of ''like'' u = sum_list (map (added_by ''like'') ?es)"
    using Tally_nothing_lost [of ?es ?cfg t "[EStopSeen, ECallback False]" u "''like''"] t u by simp
  then show ?thesis using t u by auto
qed

end
