(* ===== verification/Spec2Isabelle.thy ===== *)
theory Spec2Isabelle
  imports Counter Cooldown Idempotency Refund DelayQueue JobQueue Bitmap Ring Dag CircuitBreaker Semaphore Relationship Lifecycle Mail RateLimit Party Inbox TimerQueue Energy IdGen Storage Cache TinyLFU CacheLoader Leaderboard Group Rollback LoadBalance Shard KeyedMutex FixedPoint Pathfind Loot Quest Fsm Tally
begin

text \<open>
  A verification library of the Go framework \<open>beauty\<close>. The framework runs services under one application
  (\<open>beauty.go\<close>) and gives them packages for shared state, transactions, queues, flow control and game and social
  features (\<open>pkg/\<close>). The library models the packages that carry the framework's own logic and state what it
  promises; servers, network clients and adapters of third-party systems are left out.

  \<^bold>\<open>Conventions.\<close> Definitions follow the code function by function and keep its names, with the receiver's type as a
  prefix (\<open>Memory_SetNX\<close> is \<open>Memory.SetNX\<close>). A method takes and returns its receiver's state; a mutex makes a method
  one step, and where a lock is given up between two parts of a call the parts are definitions of their own and a
  step relation interleaves them. Clock readings, hash values, random numbers, the answers of user functions and the
  answers of other systems are arguments. \<open>int64\<close> arithmetic is over \<open>int\<close> with the wrap-around written out
  (\<open>wrap64\<close>) wherever a sum can leave the range. Errors are values, a panic is \<open>None\<close> or a value of its own, a pointer
  is an index into a list of cells. A Go map is a map, or an association list where the code ranges over it: then
  the order of the list stands for the order Go chooses, and the properties hold for each.

  \<^bold>\<open>Theories and sources.\<close> (paths under \<open>src/\<close>)
  \<^item> \<open>Prelude\<close>: 64-bit integers, truncated division, decimal printing, the sharded maps and their interface
    \<open>keyed_map\<close>, list lemmas.
  \<^item> \<open>Lifecycle\<close> (\<open>beauty.go\<close>): the application, its options and hooks, and \<open>Start\<close> with the two goroutines of every
    service and the signal handler as a system of atomic steps. The invariant \<open>app_inv\<close> ties program counters to what
    the registries hold; it gives the order of a shutdown, and a measure gives the bound on every run.
  \<^item> \<open>KVStore\<close> (\<open>pkg/store/kvstore\<close>): the store interface as the locale \<open>kv_store\<close> and the in-memory store, which
    interprets it. \<open>Counter\<close> (\<open>pkg/resilience/counter\<close>), \<open>Cooldown\<close> (\<open>pkg/resilience/cooldown\<close>) and \<open>Idempotency\<close>
    (\<open>pkg/store/idempotency\<close>) are its clients: their store-backed modes are verified against the locale, their in-memory
    modes directly (the sliding window is shown to count what a list of events says it should).
  \<^item> \<open>Wallet\<close> (\<open>pkg/domain/wallet\<close>): balances and ledgers; the ledger explains every balance, a changeset applies wholly or
    not at all, a transaction identifier is applied once.
  \<^item> \<open>Compensation\<close>: the locale \<open>compensable\<close>, actions that can be undone, and \<open>safe.Do\<close> (\<open>pkg/foundation/safe\<close>).
    \<open>Saga\<close>, \<open>Tcc\<close>, \<open>Txn\<close> (\<open>pkg/orchestration\<close>) are its clients; \<open>Refund\<close> interprets it with wallet operations, and the
    properties at the end of this theory compose the coordinators with the wallet.
  \<^item> \<open>Priority\<close> (\<open>pkg/foundation/priority\<close>, with the \<open>container/heap\<close> loops): the locales \<open>heap_order\<close> and \<open>priority_queue\<close>.
    \<open>DelayQueue\<close> and \<open>JobQueue\<close> (\<open>pkg/orchestration\<close>) use the heap; the second is verified over every interleaving of
    workers, wake-up signals included.
  \<^item> \<open>Bitmap\<close>, \<open>Ring\<close>, \<open>Dag\<close>, \<open>Semaphore\<close> (\<open>pkg/foundation\<close>) and \<open>CircuitBreaker\<close> (\<open>pkg/resilience/circuitbreaker\<close>):
    refinement of a set and of a list, the topological order and the parallel run that respects it, capacity under
    interleaving, the state machine of the breaker.
  \<^item> \<open>RateLimit\<close> (\<open>pkg/resilience/ratelimit\<close>): the locale \<open>limiter\<close>, interpreted for the sliding window, GCRA and the token
    bucket; the bucket's tokens are rationals and the rounding of its floats is an argument.
  \<^item> \<open>TimerQueue\<close> (\<open>pkg/orchestration/timerqueue\<close>): timers on the heap of \<open>Priority\<close>, refined to a list in firing order.
    \<open>IdGen\<close> (\<open>pkg/idgen\<close>): the snowflake generators; identifiers are unique and grow while the clock makes progress.
  \<^item> \<open>Relationship\<close>, \<open>Mail\<close> (\<open>pkg/domain\<close>): the social graph, and the mailbox over the locale \<open>mail_store\<close> that the
    in-memory store interprets. \<open>Party\<close>, \<open>Inbox\<close>, \<open>Energy\<close> and \<open>Storage\<close> (\<open>pkg/domain\<close>): parties and their leaders, inboxes
    with their unread counts, energy that recovers lazily, and the versioned object store with its batches. \<open>Group\<close>
    (\<open>pkg/domain/group\<close>): roles, admissions and limits, over the graph of \<open>Relationship\<close>.
  \<^item> \<open>Cache\<close>, \<open>TinyLFU\<close>, \<open>CacheLoader\<close> (\<open>pkg/store/cache\<close>): the locale \<open>bounded_cache\<close>, interpreted for the LRU cache and for
    the TinyLFU cache with its Count-Min sketch, and its extension \<open>load_cache\<close>, in which the loader with its single
    flights is verified once for both.
  \<^item> \<open>Leaderboard\<close> (\<open>pkg/game/leaderboard\<close>): scores, ranks and pages, refined to a sorted ranking. \<open>Rollback\<close>
    (\<open>pkg/rollback\<close>): prediction and replay of game frames, refined to a server state with the inputs that wait for it.

  \<^bold>\<open>What the properties say.\<close> They are numbered in the texts before them: safety of interleavings (shutdown, single
  flight, job leases, semaphore), exactly-once effects (idempotency, \<open>ApplyTx\<close>, \<open>SetNX\<close>, claims of mails), atomicity
  (wallet, saga, TCC, two-phase commit, friendship edges), quotas and spacing (counter, cooldown), refinement of
  abstract data (store cells, window sums, multisets, sets, last-n lists), order (heaps, DAG, priorities, pages),
  and termination and progress (shutdown, the polling semaphore, wake-ups).

  \<^bold>\<open>Bounds and fuel.\<close> Loops over data are structural. The heap loops recurse on the index and come with termination
  proofs. The polling loop of the semaphore has fuel; a lemma shows how much is enough. The spin loops of the
  identifier generators consume a list of clock readings; a property says which readings are enough. A run of the
  application needs no fuel: each step lowers \<open>app_cost\<close>. The retry loops of saga and TCC count their attempts.

  \<^bold>\<open>Where the code departs from its comments.\<close> The lemmas record it next to the definitions, among them: a block that
  the blocked side can lift (\<open>RemoveFriend_unblocks\<close>), a mail claimed twice by concurrent calls
  (\<open>Mailbox_claim_race\<close>), the lost precision of cursors that are positions, identifiers issued twice after the clock
  stalls (\<open>Generator_stall_repeats\<close>), a failed batch that leaves an object behind (\<open>WriteBatch_duplicate_survives\<close>), a
  group whose owner demotes itself and leaves it without one (\<open>Demote_self_ownerless\<close>), a value loaded before an
  invalidation and cached after it (\<open>Loader_forget_race\<close>).

  \<^bold>\<open>Not modelled.\<close> Goroutine scheduling beyond the interleavings above, memory-model effects of unsynchronised reads,
  and floating-point rounding. Servers, clients, middleware, media, transports, third-party adapters under
  \<open>contrib/\<close>, generators under \<open>tools/\<close> and the examples: input and output and other people's code. Packages with logic
  of their own that are still to come: the state machine package, back-off, sign-in, in-memory locks, then the other
  game packages.
\<close>

section \<open>Coordinators over the wallet\<close>



text \<open>A TCC transaction that reserves by wallet operations and cancels by their refunds releases everything when a
  reservation fails: if not every try succeeds, the result is \<open>StatusCancelled\<close> (never
  \<open>StatusCancelFailed\<close>) and every balance is what it was before.\<close>

theorem Tcc_wallet_released:
  assumes "tx_branches t = map (\<lambda>p. \<lparr>br_Name = name p, br_Try = wallet_act p, br_Confirm = conf p,
             br_Cancel = Some (wallet_act (wallet_refund p))\<rparr>) ps"
    and "0 \<le> tc_cancelRetries (tx_cfg t)" and "\<forall>p\<in>set ps. wallet_valid p" and "balances_ok w"
    and "Tx_Execute t ctx dur w = ((res, evs), w')" and "tcc_forward ctx (tx_branches t) 0 w < length ps"
  shows "tr_Status res = StatusCancelled \<and> balances w' = balances w"
proof -
  have "tx_branches t = map (refundable.branch_of name conf) ps" using assms(1) by (simp add: refundable.branch_of_def)
  from refundable.tcc_atomic [OF this assms(2) _ assms(4-6)] assms(3) show ?thesis by (simp add: list_all_iff)
qed

theorem Tcc_wallet_released_witness:
  "let t = Tx_New ''x'' [] \<lparr>tx_branches := map (\<lambda>p. \<lparr>br_Name = fst p, br_Try = wallet_act p, br_Confirm = None,
              br_Cancel = Some (wallet_act (wallet_refund p))\<rparr>) [(''a'', [(''gold'', 4)], [], 1), (''b'', [(''gold'', -9)], [], 2)]\<rparr>;
       r = Tx_Execute t (\<lambda>_. None) (\<lambda>_. 1) Wallet_New
   in tr_Status (fst (fst r)) = StatusCancelled \<and> balances (snd r) = balances Wallet_New"
proof -
  let ?ps = "[(''a'', [(''gold'', 4)], [], 1), (''b'', [(''gold'', -9)], [], 2)] :: wallet_step list"
  let ?t = "Tx_New ''x'' [] \<lparr>tx_branches := map (\<lambda>p. \<lparr>br_Name = fst p, br_Try = wallet_act p, br_Confirm = None,
      br_Cancel = Some (wallet_act (wallet_refund p))\<rparr>) ?ps\<rparr> :: Wallet Tx"
  let ?r = "Tx_Execute ?t (\<lambda>_. None) (\<lambda>_. 1) Wallet_New"
  have ok: "balances_ok Wallet_New" by (simp add: balances_ok_def Wallet_Balance_def Wallet_New_def balance_ok_def)
  have valid: "\<forall>p\<in>set ?ps. wallet_valid p" by (simp add: wallet_valid_def changeset_ok_def in_i64_def)
  have fw: "tcc_forward (\<lambda>_. None) (tx_branches ?t) 0 Wallet_New < length ?ps"
    by (simp add: safe_Run_def Wallet_Apply_def Wallet_applyLocked_def Wallet_New_def Wallet_account_def
        empty_account_def addBalance_def in_i64_def map_get_def Let_def)
  have "tr_Status (fst (fst ?r)) = StatusCancelled \<and> balances (snd ?r) = balances Wallet_New"
    by (rule Tcc_wallet_released [OF _ _ valid ok _ fw, where name = fst and conf = "\<lambda>_. None" and dur = "\<lambda>_. 1" and evs = "snd (fst ?r)"])
      (simp_all add: Tx_New_def)
  then show ?thesis by (simp add: Let_def)
qed

text \<open>A two-phase transaction whose participants prepare by wallet operations and roll back by their refunds leaves
  no trace on the balances when a preparation fails or when the body fails without moving money itself.\<close>

theorem Txn_wallet_rolled_back:
  assumes "co_ordered c = map (\<lambda>p. (name p, \<lparr>pt_Prepare = wallet_act p, pt_Commit = commit p, pt_Rollback = wallet_act (wallet_refund p)\<rparr>)) ps"
    and "\<forall>p\<in>set ps. wallet_valid p" and "balances_ok w"
    and "\<forall>v e hs v'. body v = (Done (Some e), hs, v') \<longrightarrow> v' = v"
    and "(\<exists>n e. xr_out (Coordinator_Run c body w) = TxnPrepareErr n e) \<or> (\<exists>e. xr_out (Coordinator_Run c body w) = TxnBodyErr e)"
  shows "balances (xr_world (Coordinator_Run c body w)) = balances w"
proof -
  have co: "co_ordered c = map (refundable.participant_of name commit) ps"
    using assms(1) by (simp add: refundable.participant_of_def)
  have "balances_ok v' \<and> balances v' = balances v" if "balances_ok v" "body v = (Done (Some e), hs, v')" for v e hs v'
    using assms(4) that by metis
  then show ?thesis using assms(2,3,5) by (intro refundable.txn_atomic [OF co]) (simp_all add: list_all_iff)
qed

theorem Txn_wallet_rolled_back_witness:
  "let c = Coordinator_New \<lparr>co_ordered := map (\<lambda>p. (fst p, \<lparr>pt_Prepare = wallet_act p, pt_Commit = (\<lambda>w. (Done None, w)),
              pt_Rollback = wallet_act (wallet_refund p)\<rparr>)) [(''a'', [(''gold'', 4)], [], 1)]\<rparr>;
       r = Coordinator_Run c (\<lambda>w. (Done (Some ''no''), [], w)) Wallet_New
   in xr_out r = TxnBodyErr ''no'' \<and> balances (xr_world r) = balances Wallet_New"
proof -
  let ?ps = "[(''a'', [(''gold'', 4)], [], 1)] :: wallet_step list"
  let ?c = "Coordinator_New \<lparr>co_ordered := map (\<lambda>p. (fst p, \<lparr>pt_Prepare = wallet_act p, pt_Commit = (\<lambda>w. (Done None, w)),
      pt_Rollback = wallet_act (wallet_refund p)\<rparr>)) ?ps\<rparr> :: Wallet Coordinator"
  let ?r = "Coordinator_Run ?c (\<lambda>w. (Done (Some ''no''), [], w)) Wallet_New"
  have ok: "balances_ok Wallet_New" by (simp add: balances_ok_def Wallet_Balance_def Wallet_New_def balance_ok_def)
  have valid: "\<forall>p\<in>set ?ps. wallet_valid p" by (simp add: wallet_valid_def changeset_ok_def in_i64_def)
  have out: "xr_out ?r = TxnBodyErr ''no''"
    by (simp add: Coordinator_Run_def Coordinator_New_def txn_finish_def txn_abort_def txn_rollbackAll_def
        Wallet_Apply_def Wallet_applyLocked_def Wallet_New_def Wallet_account_def
        empty_account_def addBalance_def in_i64_def map_get_def Let_def)
  have "balances (xr_world ?r) = balances Wallet_New"
    by (rule Txn_wallet_rolled_back [OF _ valid ok, where name = fst and commit = "\<lambda>_ w. (Done None, w)"])
      (use out in simp_all)
  with out show ?thesis by (simp add: Let_def)
qed

end
